(* ===== verification/Prelude.thy ===== *)
theory Prelude
  imports Complex_Main "HOL-Library.Word"
begin

text \<open>
  What every other theory of the development shares: the exceptions of the C++ code as values,
  the result type and its sequencing, checked reads of a \<open>std::vector\<close>, the conversions
  between \<open>std::size_t\<close>, \<open>int\<close> and a field, the little-endian byte images of machine words,
  and the collections of simplification rules that the component theories fill.

  A C++ operation that can throw, or whose behaviour is undefined, returns a value of
  \<open>'a res\<close>: \<open>Inl e\<close> is the exception (or \<open>Undefined\<close> for a read outside a vector, a signed
  overflow or a null pointer, \<open>Blocked\<close> for a receive on an empty channel), \<open>Inr v\<close> the value.
\<close>

section \<open>Results and exceptions\<close>

datatype exn =
    Invalid_argument string
  | Logic_error string
  | Assert_failed
  | Undefined
  | Bad_alloc
  | Blocked

type_synonym 'a res = "exn + 'a"

named_theorems model_simps \<open>equations that evaluate the operations of the model\<close>
named_theorems res_simps \<open>equations of the result type\<close>

definition bindE :: "'a res \<Rightarrow> ('a \<Rightarrow> 'b res) \<Rightarrow> 'b res" where
  "bindE m f = (case m of Inl e \<Rightarrow> Inl e | Inr x \<Rightarrow> f x)"

lemma bindE_simps [simp, res_simps]:
  "bindE (Inl e) f = Inl e"
  "bindE (Inr x) f = f x"
  by (simp_all add: bindE_def)

lemma bindE_eq_Inr: "bindE m f = Inr y \<longleftrightarrow> (\<exists>x. m = Inr x \<and> f x = Inr y)"
  by (cases m) simp_all

lemma bindE_assoc: "bindE (bindE m f) g = bindE m (\<lambda>x. bindE (f x) g)"
  by (cases m) simp_all

lemma bindE_cong [fundef_cong]:
  "m = m' \<Longrightarrow> (\<And>x. m' = Inr x \<Longrightarrow> f x = g x) \<Longrightarrow> bindE m f = bindE m' g"
  by (cases m') simp_all

definition throw_if :: "bool \<Rightarrow> exn \<Rightarrow> 'a res \<Rightarrow> 'a res" where
  "throw_if c e m = (if c then Inl e else m)"

lemma throw_if_simps [simp, res_simps]:
  "throw_if True e m = Inl e"
  "throw_if False e m = m"
  by (simp_all add: throw_if_def)

lemma throw_if_eq_Inr: "throw_if c e m = Inr y \<longleftrightarrow> \<not> c \<and> m = Inr y"
  by (simp add: throw_if_def)

subsection \<open>Loops over a vector\<close>

primrec mapE :: "('a \<Rightarrow> 'b res) \<Rightarrow> 'a list \<Rightarrow> 'b list res" where
  "mapE f [] = Inr []"
| "mapE f (x # xs) = bindE (f x) (\<lambda>y. bindE (mapE f xs) (\<lambda>ys. Inr (y # ys)))"

primrec foldE :: "('a \<Rightarrow> 's \<Rightarrow> 's res) \<Rightarrow> 'a list \<Rightarrow> 's \<Rightarrow> 's res" where
  "foldE f [] s = Inr s"
| "foldE f (x # xs) s = bindE (f x s) (foldE f xs)"

lemma mapE_Inr: "(\<And>x. x \<in> set xs \<Longrightarrow> f x = Inr (g x)) \<Longrightarrow> mapE f xs = Inr (map g xs)"
  by (induction xs) auto

lemma mapE_length: "mapE f xs = Inr ys \<Longrightarrow> length ys = length xs"
  by (induction xs arbitrary: ys) (auto simp: bindE_eq_Inr)

lemma mapE_nth: "mapE f xs = Inr ys \<Longrightarrow> i < length xs \<Longrightarrow> f (xs ! i) = Inr (ys ! i)"
  by (induction xs arbitrary: ys i) (auto simp: bindE_eq_Inr nth_Cons split: nat.splits)

lemma mapE_cong: "(\<And>x. x \<in> set xs \<Longrightarrow> f x = g x) \<Longrightarrow> mapE f xs = mapE g xs"
  by (induction xs) auto

lemma foldE_Inr:
  "(\<And>x s. x \<in> set xs \<Longrightarrow> f x s = Inr (g x s)) \<Longrightarrow> foldE f xs s = Inr (fold g xs s)"
  by (induction xs arbitrary: s) auto

lemma foldE_append: "foldE f (xs @ ys) s = bindE (foldE f xs s) (foldE f ys)"
  by (induction xs arbitrary: s) (simp_all add: bindE_def split: sum.splits)

lemma foldE_cong:
  "(\<And>x s. x \<in> set xs \<Longrightarrow> f x s = g x s) \<Longrightarrow> foldE f xs s = foldE g xs s"
  by (induction xs arbitrary: s) (auto intro: arg_cong simp: bindE_def split: sum.splits)

lemma foldE_map: "foldE f (map g xs) s = foldE (\<lambda>x. f (g x)) xs s"
  by (induction xs arbitrary: s) (simp_all add: bindE_def split: sum.splits)

text \<open>A property that every round of the loop keeps holds of the result, if there is one.\<close>

lemma foldE_invariant:
  assumes "P s" and "\<And>x s s'. x \<in> set xs \<Longrightarrow> P s \<Longrightarrow> f x s = Inr s' \<Longrightarrow> P s'"
    and "foldE f xs s = Inr s'"
  shows "P s'"
  using assms by (induction xs arbitrary: s) (auto simp: bindE_eq_Inr)

subsection \<open>Vectors read and written by index\<close>

definition vget :: "'a list \<Rightarrow> nat \<Rightarrow> 'a res" where
  "vget xs i = (if i < length xs then Inr (xs ! i) else Inl Undefined)"

definition vset :: "'a list \<Rightarrow> nat \<Rightarrow> 'a \<Rightarrow> 'a list res" where
  "vset xs i x = (if i < length xs then Inr (xs[i := x]) else Inl Undefined)"

lemma vget_Inr [simp]: "i < length xs \<Longrightarrow> vget xs i = Inr (xs ! i)"
  by (simp add: vget_def)

lemma vget_out [simp]: "length xs \<le> i \<Longrightarrow> vget xs i = Inl Undefined"
  by (simp add: vget_def)

lemma vget_eq_Inr: "vget xs i = Inr x \<longleftrightarrow> i < length xs \<and> x = xs ! i"
  by (auto simp: vget_def)

lemma vset_Inr [simp]: "i < length xs \<Longrightarrow> vset xs i x = Inr (xs[i := x])"
  by (simp add: vset_def)

lemma mapE_vget: "(\<And>i. i \<in> set is \<Longrightarrow> i < length xs) \<Longrightarrow> mapE (vget xs) is = Inr (map ((!) xs) is)"
  by (rule mapE_Inr) simp

subsection \<open>Computations that may not return\<close>

text \<open>
  A recursion through pointers may never end; its result is then \<open>None\<close>. These are the operations of
  \<open>'a res option\<close>, set up for \<open>partial_function (option)\<close>.
\<close>

definition bindP :: "'a res option \<Rightarrow> ('a \<Rightarrow> 'b res option) \<Rightarrow> 'b res option" where
  "bindP m f = Option.bind m (\<lambda>r. case r of Inl e \<Rightarrow> Some (Inl e) | Inr x \<Rightarrow> f x)"

definition retP :: "'a \<Rightarrow> 'a res option" where
  "retP x = Some (Inr x)"

definition failP :: "exn \<Rightarrow> 'a res option" where
  "failP e = Some (Inl e)"

lemma bindP_simps [simp, res_simps]:
  "bindP None f = None"
  "bindP (Some (Inl e)) f = Some (Inl e)"
  "bindP (Some (Inr x)) f = f x"
  by (simp_all add: bindP_def)

lemma bindP_retP [simp, res_simps]: "bindP (retP x) f = f x"
  by (simp add: retP_def)

definition liftP :: "'a res \<Rightarrow> 'a res option" where
  "liftP m = Some m"

lemma bindP_liftP [simp, res_simps]: "bindP (liftP (Inr x)) f = f x" "bindP (liftP (Inl e)) f = Some (Inl e)"
  by (simp_all add: liftP_def)

text \<open>The loop over a vector, and one step of every party in turn.\<close>

primrec foldP :: "('a \<Rightarrow> 's \<Rightarrow> 's res option) \<Rightarrow> 'a list \<Rightarrow> 's \<Rightarrow> 's res option" where
  "foldP f [] s = retP s"
| "foldP f (x # xs) s = bindP (f x s) (foldP f xs)"

lemma bindP_assoc: "bindP (bindP m f) g = bindP m (\<lambda>x. bindP (f x) g)"
  by (cases m) (auto simp: bindP_def split: sum.split)

lemma bindP_ret_right: "bindP m retP = m"
  by (cases m) (auto simp: bindP_def retP_def split: sum.split)

lemma foldP_snoc: "foldP f (xs @ [x]) s = bindP (foldP f xs s) (f x)"
proof (induction xs arbitrary: s)
  case Nil
  have "foldP f [] = retP" by (intro ext) simp
  then show ?case using bindP_ret_right [of "f x s"] by simp
next
  case (Cons y ys)
  then have "foldP f (ys @ [x]) = (\<lambda>s. bindP (foldP f ys s) (f x))" by (intro ext)
  then show ?case by (simp add: bindP_assoc)
qed

text \<open>A loop over \<open>0, \<dots>, n - 1\<close> by a loop invariant, which also shows that it returns a value.\<close>

lemma foldP_upt_invariant:
  assumes "I 0 s" and "\<And>m s. m < n \<Longrightarrow> I m s \<Longrightarrow> \<exists>s'. f m s = Some (Inr s') \<and> I (Suc m) s'"
  shows "\<exists>s'. foldP f [0..<n] s = Some (Inr s') \<and> I n s'"
  using assms
proof (induction n)
  case 0
  then show ?case by (simp add: retP_def)
next
  case (Suc n)
  then obtain s' where "foldP f [0..<n] s = Some (Inr s')" "I n s'" by fastforce
  with Suc.prems(2) [of n s'] show ?case by (auto simp: foldP_snoc)
qed

lemma foldE_upt_invariant:
  assumes "I 0 s" and "\<And>m s. m < n \<Longrightarrow> I m s \<Longrightarrow> \<exists>s'. f m s = Inr s' \<and> I (Suc m) s'"
  shows "\<exists>s'. foldE f [0..<n] s = Inr s' \<and> I n s'"
  using assms
proof (induction n)
  case 0
  then show ?case by simp
next
  case (Suc n)
  then obtain s' where "foldE f [0..<n] s = Inr s'" "I n s'" by fastforce
  with Suc.prems(2) [of n s'] show ?case by (auto simp: foldE_append)
qed

lemma bindP_mono [partial_function_mono]:
  assumes "monotone option.le_fun option_ord B"
    and "\<And>y. monotone option.le_fun option_ord (\<lambda>f. C y f)"
  shows "monotone option.le_fun option_ord (\<lambda>f. bindP (B f) (\<lambda>y. C y f))"
  unfolding bindP_def
proof (intro bind_mono assms(1))
  show "monotone option.le_fun option_ord (\<lambda>f. case y of Inl e \<Rightarrow> Some (Inl e) | Inr y \<Rightarrow> C y f)" for y
    by (cases y) (simp_all add: assms(2) option.const_mono)
qed

section \<open>Conversions\<close>

text \<open>
  The field constructor takes an \<open>int\<close>; the code calls it with a \<open>std::size_t\<close> (\<open>T(i + 1)\<close>,
  \<open>T(-i)\<close>). The argument is converted to a 32-bit signed value first. Negation in
  \<open>std::size_t\<close> wraps at \<open>2^64\<close>, which the conversion to 32 bits absorbs.
\<close>

definition to_int32 :: "int \<Rightarrow> int" where
  "to_int32 i = signed_take_bit 31 i"

definition from_size :: "int \<Rightarrow> 'a::ring_1" where
  "from_size i = of_int (to_int32 i)"

lemma to_int32_id [simp]: "- (2 ^ 31) \<le> i \<Longrightarrow> i < 2 ^ 31 \<Longrightarrow> to_int32 i = i"
  by (simp add: to_int32_def signed_take_bit_int_eq_self)

lemma to_int32_wrap: "to_int32 (i mod 2 ^ 64) = to_int32 i"
proof -
  have "signed_take_bit 31 (take_bit 64 i) = signed_take_bit 31 i"
    by (simp add: signed_take_bit_take_bit)
  then show ?thesis by (simp add: to_int32_def take_bit_eq_mod)
qed

lemma to_int32_range: "- (2 ^ 31) \<le> to_int32 i" "to_int32 i < 2 ^ 31"
  using signed_take_bit_int_greater_eq_minus_exp [of 31 i] signed_take_bit_int_less_exp [of 31 i]
  by (simp_all add: to_int32_def)

lemma from_size_of_nat [simp]: "n < 2 ^ 31 \<Longrightarrow> from_size (int n) = of_nat n"
  by (simp add: from_size_def)

lemma from_size_minus [simp]: "n \<le> 2 ^ 31 \<Longrightarrow> from_size (- int n) = - of_nat n"
  by (simp add: from_size_def)

lemma from_size_0 [simp]: "from_size 0 = 0"
  using from_size_of_nat [of 0] by simp

lemma from_size_Suc: "Suc n < 2 ^ 31 \<Longrightarrow> from_size (int n + 1) = of_nat (Suc n)"
  using from_size_of_nat [of "Suc n"] by (simp add: add.commute)

subsection \<open>Little-endian byte images\<close>

text \<open>
  \<open>std::memcpy\<close> of a word on the target (x86-64) writes its bytes from the lowest.
\<close>

definition le_bytes :: "nat \<Rightarrow> 'w::len word \<Rightarrow> 8 word list" where
  "le_bytes n w = map (\<lambda>i. ucast (drop_bit (8 * i) w)) [0..<n]"

primrec le_word :: "8 word list \<Rightarrow> 'w::len word" where
  "le_word [] = 0"
| "le_word (b # bs) = ucast b + push_bit 8 (le_word bs)"

lemma length_le_bytes [simp]: "length (le_bytes n w) = n"
  by (simp add: le_bytes_def)

lemma le_bytes_Suc: "le_bytes (Suc n) w = ucast w # le_bytes n (drop_bit 8 w)"
  unfolding le_bytes_def upt_conv_Cons [OF zero_less_Suc]
  by (simp add: map_Suc_upt [symmetric] del: upt_Suc map_Suc_upt add: ac_simps)

lemma uint_le_word:
  "8 * length bs \<le> LENGTH('w) \<Longrightarrow>
   uint (le_word bs :: 'w::len word) = (\<Sum>i<length bs. uint (bs ! i) * 2 ^ (8 * i))
   \<and> uint (le_word bs :: 'w word) < 2 ^ (8 * length bs)"
proof (induction bs)
  case Nil
  then show ?case by simp
next
  case (Cons b bs)
  then have len: "8 * length bs \<le> LENGTH('w)" "8 + 8 * length bs \<le> LENGTH('w)"
    by simp_all
  let ?w = "le_word bs :: 'w word"
  from Cons.IH [OF len(1)] have IH: "uint ?w = (\<Sum>i<length bs. uint (bs ! i) * 2 ^ (8 * i))"
    and bnd: "uint ?w < 2 ^ (8 * length bs)" by simp_all
  have b: "0 \<le> uint b" "uint b < 256" using uint_lt2p [of b] by simp_all
  have full: "uint b + 256 * uint ?w < 2 ^ (8 + 8 * length bs)"
    using b bnd by (simp add: power_add)
  have le: "(2::int) ^ (8 + 8 * length bs) \<le> 2 ^ LENGTH('w)"
    using len(2) by (rule power_increasing) simp
  have ub: "uint (ucast b :: 'w word) = uint b"
  proof -
    have "uint b < 2 ^ LENGTH('w)" using b full le uint_ge_0 [of ?w] by linarith
    then show ?thesis by (simp add: unsigned_ucast_eq take_bit_int_eq_self)
  qed
  have up: "uint (push_bit 8 ?w) = 256 * uint ?w"
  proof -
    have "256 * uint ?w < 2 ^ LENGTH('w)" using b full le by linarith
    moreover have "uint (push_bit 8 ?w) = take_bit LENGTH('w) (256 * uint ?w)"
      by (simp add: unsigned_push_bit_eq push_bit_eq_mult [where 'a = int] mult.commute
          del: push_bit_eq_mult)
    ultimately show ?thesis by (simp add: take_bit_int_eq_self)
  qed
  have tot: "uint (le_word (b # bs) :: 'w word) = uint b + 256 * uint ?w"
  proof -
    have "uint b + 256 * uint ?w < 2 ^ LENGTH('w)" using full le by linarith
    then show ?thesis using b
      by (simp add: uint_word_ariths ub up mod_pos_pos_trivial)
  qed
  have "(\<Sum>i<Suc (length bs). uint ((b # bs) ! i) * 2 ^ (8 * i))
      = uint b + (\<Sum>i<length bs. uint (bs ! i) * 2 ^ (8 * Suc i))"
    by (simp add: sum.lessThan_Suc_shift del: sum.lessThan_Suc)
  also have "\<dots> = uint b + 256 * (\<Sum>i<length bs. uint (bs ! i) * 2 ^ (8 * i))"
    by (simp add: sum_distrib_left power_add mult.left_commute)
  finally have "uint (le_word (b # bs) :: 'w word) = (\<Sum>i<length (b # bs). uint ((b # bs) ! i) * 2 ^ (8 * i))"
    using tot IH by simp
  moreover have "uint (le_word (b # bs) :: 'w word) < 2 ^ (8 * length (b # bs))"
    using tot full by (simp add: power_add)
  ultimately show ?case by blast
qed

lemma le_word_le_bytes:
  "8 * n \<le> LENGTH('w::len) \<Longrightarrow> le_word (le_bytes n w) = take_bit (8 * n) (w :: 'w word)"
proof (induction n arbitrary: w)
  case 0
  then show ?case by (simp add: le_bytes_def)
next
  case (Suc n)
  then have IH: "le_word (le_bytes n (drop_bit 8 w)) = take_bit (8 * n) (drop_bit 8 w)"
    by simp
  have lo: "ucast (ucast w :: 8 word) = take_bit 8 w"
    by (rule bit_word_eqI) (use Suc.prems in \<open>auto simp: bit_simps\<close>)
  have "take_bit 8 w + push_bit 8 (take_bit (8 * n) (drop_bit 8 w)) = take_bit (8 * Suc n) w"
  proof (rule bit_word_eqI)
    fix k
    assume k: "k < LENGTH('w)"
    have "and (take_bit 8 w) (push_bit 8 (take_bit (8 * n) (drop_bit 8 w))) = 0"
      by (rule bit_word_eqI) (auto simp: bit_simps)
    then have "take_bit 8 w + push_bit 8 (take_bit (8 * n) (drop_bit 8 w))
        = or (take_bit 8 w) (push_bit 8 (take_bit (8 * n) (drop_bit 8 w)))"
      by (rule disjunctive_add_eq_or)
    then show "bit (take_bit 8 w + push_bit 8 (take_bit (8 * n) (drop_bit 8 w))) k
        = bit (take_bit (8 * Suc n) w) k"
      using k by (auto simp: bit_simps)
  qed
  then show ?case by (simp add: le_bytes_Suc IH lo)
qed

end
