(* ===== verification/FieldDetails.thy ===== *)
theory FieldDetails
  imports Prelude "HOL-Library.Signed_Division"
begin

text \<open>
  The helpers of \<open>scl/math/fields/details.h\<close> for a prime modulus held in an unsigned machine
  type: addition, subtraction and negation of canonical representatives, and the inverse by the
  extended Euclidean algorithm on the signed type of the same width. The unsigned type \<open>T\<close> is
  \<open>'w word\<close>. A value of the signed type \<open>S\<close> is an \<open>int\<close>; each signed operation of the loop checks
  that its result fits, and \<open>Undefined\<close> is the value of a signed overflow.
\<close>

section \<open>Representatives modulo \<open>m\<close>\<close>

definition AddSimpleType :: "'w::len word \<Rightarrow> 'w word \<Rightarrow> 'w word \<Rightarrow> 'w word" where
  "AddSimpleType t v m = (let t = t + v in if m \<le> t then t - m else t)"

definition SubtractSimpleType :: "'w::len word \<Rightarrow> 'w word \<Rightarrow> 'w word \<Rightarrow> 'w word" where
  "SubtractSimpleType t v m = (if t < v then t + m - v else t - v)"

definition NegateSimpleType :: "'w::len word \<Rightarrow> 'w word \<Rightarrow> 'w word" where
  "NegateSimpleType t m = (if t \<noteq> 0 then m - t else t)"

definition EqualSimpleType :: "'w::len word \<Rightarrow> 'w word \<Rightarrow> bool" where
  "EqualSimpleType a b \<longleftrightarrow> a = b"

text \<open>
  \<open>small_modulus m\<close>: twice the modulus fits the word, so a sum of two representatives does not
  wrap. Both moduli of the library leave the top bit free.
\<close>

definition small_modulus :: "'w::len word \<Rightarrow> bool" where
  "small_modulus m \<longleftrightarrow> 1 < uint m \<and> 2 * uint m \<le> 2 ^ LENGTH('w)"

lemma uint_add_small:
  fixes t v m :: "'w::len word"
  shows "small_modulus m \<Longrightarrow> uint t + uint v < 2 * uint m \<Longrightarrow> uint (t + v) = uint t + uint v"
  by (simp add: small_modulus_def uint_word_ariths mod_pos_pos_trivial)

lemma uint_diff_le: "uint v \<le> uint (t :: 'w::len word) \<Longrightarrow> uint (t - v) = uint t - uint v"
  using uint_lt2p [of t] uint_ge_0 [of v]
  by (simp add: uint_word_ariths mod_pos_pos_trivial)

lemma AddSimpleType_uint:
  assumes m: "small_modulus m" and s: "uint t + uint v < 2 * uint m"
  shows "uint (AddSimpleType t v m) = (uint t + uint v) mod uint m"
proof -
  have m0: "0 < uint m" using m by (simp add: small_modulus_def)
  have tv: "uint (t + v) = uint t + uint v" by (rule uint_add_small [OF m s])
  show ?thesis
  proof (cases "m \<le> t + v")
    case True
    then have le: "uint m \<le> uint t + uint v" using tv by (simp add: word_le_def)
    have "uint (t + v - m) = uint t + uint v - uint m"
      using uint_diff_le [of m "t + v"] tv le by simp
    moreover have "(uint t + uint v) mod uint m = uint t + uint v - uint m"
    proof -
      have "(uint t + uint v) mod uint m = (uint t + uint v - uint m) mod uint m" by simp
      also have "\<dots> = uint t + uint v - uint m"
        using le s by (intro mod_pos_pos_trivial) simp_all
      finally show ?thesis .
    qed
    ultimately show ?thesis using True by (simp add: AddSimpleType_def Let_def)
  next
    case False
    then have "uint t + uint v < uint m" using tv by (simp add: word_le_def)
    with False tv show ?thesis by (simp add: AddSimpleType_def Let_def mod_pos_pos_trivial)
  qed
qed

lemma SubtractSimpleType_uint:
  assumes m: "small_modulus m" and t: "uint t < uint m" and v: "uint v < uint m"
  shows "uint (SubtractSimpleType t v m) = (uint t - uint v) mod uint m"
proof (cases "t < v")
  case True
  then have lt: "uint t < uint v" by (simp add: word_less_def)
  have tm: "uint (t + m) = uint t + uint m" by (rule uint_add_small [OF m]) (use t in simp)
  have "uint (t + m - v) = uint t + uint m - uint v"
    using uint_diff_le [of v "t + m"] tm v uint_ge_0 [of t] by simp
  moreover have "(uint t - uint v) mod uint m = uint t - uint v + uint m"
  proof -
    have "(uint t - uint v) mod uint m = (uint t - uint v + uint m) mod uint m" by simp
    also have "\<dots> = uint t - uint v + uint m"
      using lt v uint_ge_0 [of t] by (intro mod_pos_pos_trivial) linarith+
    finally show ?thesis .
  qed
  ultimately show ?thesis using True by (simp add: SubtractSimpleType_def)
next
  case False
  then have le: "uint v \<le> uint t" by (simp add: word_less_def)
  have "(uint t - uint v) mod uint m = uint t - uint v"
    using le t uint_ge_0 [of v] by (intro mod_pos_pos_trivial) linarith+
  then show ?thesis using False uint_diff_le [OF le] by (simp add: SubtractSimpleType_def)
qed

lemma NegateSimpleType_uint:
  assumes m: "small_modulus m" and t: "uint t < uint m"
  shows "uint (NegateSimpleType t m) = (- uint t) mod uint m"
proof (cases "t = 0")
  case True
  then show ?thesis by (simp add: NegateSimpleType_def)
next
  case False
  then have pos: "0 < uint t" by (simp add: word_neq_0_conv word_less_def)
  have "(- uint t) mod uint m = (uint m - uint t) mod uint m"
    by (metis minus_mod_self1 uminus_add_conv_diff diff_0 mod_diff_left_eq mod_self)
  also have "\<dots> = uint m - uint t" using pos t by (intro mod_pos_pos_trivial) simp_all
  finally show ?thesis using False t uint_diff_le [of t m] by (simp add: NegateSimpleType_def)
qed

section \<open>The inverse by the extended Euclidean algorithm\<close>

text \<open>\<open>chk w x\<close> is the signed result \<open>x\<close> of a \<open>w\<close>-bit operation.\<close>

definition chk :: "nat \<Rightarrow> int \<Rightarrow> int res" where
  "chk w x = (if - (2 ^ (w - 1)) \<le> x \<and> x < 2 ^ (w - 1) then Inr x else Inl Undefined)"

lemma chk_Inr: "\<bar>x\<bar> < 2 ^ (w - 1) \<Longrightarrow> chk w x = Inr x"
  by (auto simp: chk_def)

text \<open>
  \<open>_SCL_PARALLEL_ASSIGN(v1, v2, q)\<close> sets \<open>(v1, v2)\<close> to \<open>(v2, v1 - q * v2)\<close>.
\<close>

definition parallel_assign :: "nat \<Rightarrow> int \<Rightarrow> int \<Rightarrow> int \<Rightarrow> (int \<times> int) res" where
  "parallel_assign w v1 v2 q =
     bindE (chk w (q * v2)) (\<lambda>x. bindE (chk w (v1 - x)) (\<lambda>y. Inr (v2, y)))"

lemma parallel_assign_Inr:
  "parallel_assign w v1 v2 q = Inr (a, b) \<Longrightarrow> a = v2 \<and> b = v1 - q * v2"
  by (auto simp: parallel_assign_def bindE_eq_Inr chk_def split: if_splits)

lemma parallel_assign_fits:
  "\<bar>q * v2\<bar> < 2 ^ (w - 1) \<Longrightarrow> \<bar>v1 - q * v2\<bar> < 2 ^ (w - 1) \<Longrightarrow>
   parallel_assign w v1 v2 q = Inr (v2, v1 - q * v2)"
  by (simp add: parallel_assign_def chk_Inr)

lemma abs_smod_less: "(b::int) \<noteq> 0 \<Longrightarrow> \<bar>a - (a sdiv b) * b\<bar> < \<bar>b\<bar>"
  using smod_int_range [of b a] by (simp add: minus_sdiv_mult_eq_smod abs_less_iff)

text \<open>
  \<open>while (new_r != 0)\<close>. The remainder of a truncated division is smaller than the divisor, so the
  loop ends for every input.
\<close>

function euclid_loop :: "nat \<Rightarrow> int \<Rightarrow> int \<Rightarrow> int \<Rightarrow> int \<Rightarrow> int res" where
  "euclid_loop w k new_k r new_r =
     (if new_r = 0 then Inr k
      else (case chk w (r sdiv new_r) of
        Inl e \<Rightarrow> Inl e
      | Inr q \<Rightarrow>
          (case parallel_assign w k new_k q of
            Inl e \<Rightarrow> Inl e
          | Inr (k', new_k') \<Rightarrow>
              (case parallel_assign w r new_r q of
                 Inl e \<Rightarrow> Inl e
               | Inr (r', new_r') \<Rightarrow> euclid_loop w k' new_k' r' new_r'))))"
  by pat_completeness auto
termination
proof (relation "measure (\<lambda>(w, k, new_k, r, new_r). nat \<bar>new_r\<bar>)")
  fix w :: nat and k new_k r new_r q k' new_k' r' new_r' :: int and x y z u
  assume nz: "new_r \<noteq> 0" and q: "chk w (r sdiv new_r) = Inr q"
    and p: "parallel_assign w r new_r q = Inr u" "(r', new_r') = u"
  from q have "q = r sdiv new_r" by (simp add: chk_def split: if_splits)
  with p parallel_assign_Inr have "new_r' = r - (r sdiv new_r) * new_r" by blast
  with abs_smod_less [OF nz] have "\<bar>new_r'\<bar> < \<bar>new_r\<bar>" by simp
  then show "((w, k', new_k', r', new_r'), w, k, new_k, r, new_r)
      \<in> measure (\<lambda>(w, k, new_k, r, new_r). nat \<bar>new_r\<bar>)" by simp
qed simp

declare euclid_loop.simps [simp del]

definition InverseModPrimeSimpleType :: "'w::len word \<Rightarrow> 'w word \<Rightarrow> 'w word res" where
  "InverseModPrimeSimpleType v m =
     throw_if (v = 0) (Logic_error ''0 not invertible modulo prime'')
      (bindE (euclid_loop LENGTH('w) 0 1 (sint m) (sint v)) (\<lambda>k.
        let k = (if k < 0 then word_of_int k + m else word_of_int k) in Inr k))"

text \<open>
  The invariant of the loop for modulus \<open>M\<close> and value \<open>V\<close>: the Bezout rows hold, the remainders
  decrease, and the coefficients alternate in sign, so that \<open>|new_k| r + |k| new_r\<close> stays \<open>M\<close> and
  no coefficient exceeds \<open>M\<close>.
\<close>

definition euclid_inv :: "int \<Rightarrow> int \<Rightarrow> int \<Rightarrow> int \<Rightarrow> int \<Rightarrow> int \<Rightarrow> bool" where
  "euclid_inv M V k nk r nr \<longleftrightarrow>
     0 \<le> nr \<and> nr < r \<and> r \<le> M \<and> M dvd k * V - r \<and> M dvd nk * V - nr \<and> coprime r nr \<and>
     \<bar>nk\<bar> * r + \<bar>k\<bar> * nr = M \<and> k * nk \<le> 0 \<and> \<bar>k\<bar> < M"

lemma euclid_inv_step:
  assumes inv: "euclid_inv M V k nk r nr" and nz: "nr \<noteq> 0"
  defines "q \<equiv> r div nr"
  shows "euclid_inv M V nk (k - q * nk) nr (r - q * nr)"
    and "\<bar>q * nk\<bar> \<le> M" "\<bar>k - q * nk\<bar> \<le> M" "\<bar>q * nr\<bar> \<le> M" "\<bar>r - q * nr\<bar> \<le> M" "\<bar>q\<bar> \<le> M"
proof -
  have nr: "0 < nr" "nr < r" and r: "r \<le> M" and dvd: "M dvd k * V - r" "M dvd nk * V - nr"
    and cop: "coprime r nr" and sum: "\<bar>nk\<bar> * r + \<bar>k\<bar> * nr = M" and sg: "k * nk \<le> 0"
    using inv nz by (auto simp: euclid_inv_def)
  have q0: "0 \<le> q" using nr by (simp add: q_def pos_imp_zdiv_nonneg_iff)
  have rem: "r - q * nr = r mod nr" by (simp add: q_def minus_div_mult_eq_mod)
  have rem_bnd: "0 \<le> r - q * nr" "r - q * nr < nr" using nr by (simp_all add: rem)
  have abs: "\<bar>k - q * nk\<bar> = \<bar>k\<bar> + q * \<bar>nk\<bar>"
  proof -
    have "k \<le> 0 \<and> 0 \<le> nk \<or> 0 \<le> k \<and> nk \<le> 0" using sg by (auto simp: mult_le_0_iff)
    then show ?thesis
    proof
      assume s: "k \<le> 0 \<and> 0 \<le> nk"
      then have "0 \<le> q * nk" using q0 by simp
      with s show ?thesis by simp
    next
      assume s: "0 \<le> k \<and> nk \<le> 0"
      then have "q * nk \<le> 0" using q0 by (simp add: mult_nonneg_nonpos)
      with s show ?thesis by simp
    qed
  qed
  have sum': "\<bar>k - q * nk\<bar> * nr + \<bar>nk\<bar> * (r - q * nr) = M"
    using sum unfolding abs by (simp add: algebra_simps)
  have "0 \<le> \<bar>nk\<bar> * (r - q * nr)" using rem_bnd by simp
  then have "\<bar>k - q * nk\<bar> * nr \<le> M" using sum' by linarith
  moreover have "\<bar>k - q * nk\<bar> * 1 \<le> \<bar>k - q * nk\<bar> * nr" using nr by (intro mult_left_mono) simp_all
  ultimately show nk': "\<bar>k - q * nk\<bar> \<le> M" by simp
  have "\<bar>q * nk\<bar> = q * \<bar>nk\<bar>" using q0 by (simp add: abs_mult)
  then show "\<bar>q * nk\<bar> \<le> M" using abs nk' by linarith
  have qr: "q * nr \<le> r" "0 \<le> q * nr" using rem_bnd q0 nr by simp_all
  then show "\<bar>q * nr\<bar> \<le> M" "\<bar>r - q * nr\<bar> \<le> M" using r rem_bnd by simp_all
  have "q * 1 \<le> q * nr" using q0 nr by (intro mult_left_mono) simp_all
  then show "\<bar>q\<bar> \<le> M" using q0 qr r by simp
  have nk_lt: "\<bar>nk\<bar> < M"
  proof -
    have "2 \<le> r" using nr by simp
    then have "\<bar>nk\<bar> * 2 \<le> \<bar>nk\<bar> * r" by (intro mult_left_mono) simp_all
    moreover have "0 \<le> \<bar>k\<bar> * nr" using nr by simp
    ultimately have "\<bar>nk\<bar> * 2 \<le> M" using sum by linarith
    with r nr show ?thesis by linarith
  qed
  have "M dvd (k * V - r) - q * (nk * V - nr)" using dvd by (rule dvd_diff [OF _ dvd_mult])
  then have dvd': "M dvd (k - q * nk) * V - (r - q * nr)" by (simp add: algebra_simps)
  have cop': "coprime nr (r - q * nr)"
    using cop unfolding rem coprime_iff_gcd_eq_1 by (simp add: gcd_red_int [of r nr])
  have "nk * (k - q * nk) = k * nk - q * (nk * nk)" by (simp add: algebra_simps)
  also have "\<dots> \<le> 0" using sg q0 by (simp add: le_diff_eq order_trans [OF sg])
  finally have "nk * (k - q * nk) \<le> 0" .
  then show "euclid_inv M V nk (k - q * nk) nr (r - q * nr)"
    using dvd dvd' cop' sum' nk_lt nr r rem_bnd by (simp add: euclid_inv_def)
qed

lemma euclid_loop_correct:
  assumes "euclid_inv M V k nk r nr" and "M < 2 ^ (w - 1)"
  shows "\<exists>c. euclid_loop w k nk r nr = Inr c \<and> M dvd c * V - 1 \<and> \<bar>c\<bar> < M"
  using assms
proof (induction w k nk r nr rule: euclid_loop.induct)
  case (1 w k nk r nr)
  show ?case
  proof (cases "nr = 0")
    case True
    then have "coprime r 0" "0 < r" using "1.prems"(1) by (auto simp: euclid_inv_def)
    then have "r = 1" by simp
    moreover have "euclid_loop w k nk r nr = Inr k"
      using True by (subst euclid_loop.simps) simp
    ultimately show ?thesis using "1.prems"(1) by (auto simp: euclid_inv_def)
  next
    case False
    define q where "q = r div nr"
    note st = euclid_inv_step [OF "1.prems"(1) False, folded q_def]
    have "sgn r = 1" "sgn nr = 1" using "1.prems"(1) False by (auto simp: euclid_inv_def)
    then have sd: "r sdiv nr = q"
      using "1.prems"(1) False by (simp add: signed_divide_int_def q_def euclid_inv_def)
    have c: "chk w (r sdiv nr) = Inr q" using st(6) "1.prems"(2) by (simp add: sd chk_Inr)
    have p1: "parallel_assign w k nk q = Inr (nk, k - q * nk)"
      using st(2,3) "1.prems"(2) by (intro parallel_assign_fits) linarith+
    have p2: "parallel_assign w r nr q = Inr (nr, r - q * nr)"
      using st(4,5) "1.prems"(2) by (intro parallel_assign_fits) linarith+
    have "euclid_loop w k nk r nr = euclid_loop w nk (k - q * nk) nr (r - q * nr)"
      using False by (simp add: euclid_loop.simps [of w k nk r nr] c p1 p2)
    then show ?thesis using "1.IH" [OF False c p1 _ p2] st(1) "1.prems"(2) by simp
  qed
qed

lemma InverseModPrimeSimpleType_zero:
  "InverseModPrimeSimpleType 0 m = Inl (Logic_error ''0 not invertible modulo prime'')"
  by (simp add: InverseModPrimeSimpleType_def)

theorem InverseModPrimeSimpleType_correct:
  fixes v m :: "'w::len word"
  assumes m: "1 < uint m" "uint m < 2 ^ (LENGTH('w) - 1)"
    and v: "0 < uint v" "uint v < uint m" and cop: "coprime (uint m) (uint v)"
  shows "\<exists>t. InverseModPrimeSimpleType v m = Inr t \<and> uint t < uint m
      \<and> uint t * uint v mod uint m = 1"
proof -
  have small: "sint x = uint x" if "uint x < 2 ^ (LENGTH('w) - 1)" for x :: "'w word"
    using that by (simp add: sint_uint signed_take_bit_int_eq_self order_trans [OF _ uint_ge_0])
  have "euclid_inv (uint m) (uint v) 0 1 (uint m) (uint v)"
    using m v cop by (simp add: euclid_inv_def)
  then obtain c where c: "euclid_loop LENGTH('w) 0 1 (sint m) (sint v) = Inr c"
    and dvd: "uint m dvd c * uint v - 1" and bnd: "\<bar>c\<bar> < uint m"
    using euclid_loop_correct [of "uint m" "uint v" 0 1 "uint m" "uint v" "LENGTH('w)"] m v small
    by auto
  have "c mod uint m * uint v mod uint m = 1 mod uint m"
    using dvd by (simp add: mod_mult_left_eq mod_eq_dvd_iff)
  then have inv: "c mod uint m * uint v mod uint m = 1" using m by simp
  let ?t = "if c < 0 then word_of_int c + m else word_of_int c :: 'w word"
  have t: "uint ?t = c mod uint m"
  proof (cases "c < 0")
    case True
    have "?t = word_of_int c + word_of_int (uint m)" using True by simp
    also have "\<dots> = word_of_int (c + uint m)" by (simp only: wi_hom_add)
    finally have "uint ?t = uint (word_of_int (c + uint m) :: 'w word)" by (rule arg_cong)
    moreover have "c mod uint m = c + uint m"
    proof -
      have "c mod uint m = (c + uint m) mod uint m" by simp
      also have "\<dots> = c + uint m" using True bnd by (intro mod_pos_pos_trivial) linarith+
      finally show ?thesis .
    qed
    moreover have "0 \<le> c + uint m" "c + uint m < 2 ^ LENGTH('w)"
      using True bnd uint_lt2p [of m] by linarith+
    ultimately show ?thesis by (simp only: uint_word_of_int mod_pos_pos_trivial)
  next
    case False
    then have "c < 2 ^ LENGTH('w)" "c < uint m" using bnd uint_lt2p [of m] by linarith+
    with False show ?thesis by (simp add: uint_word_of_int mod_pos_pos_trivial)
  qed
  have nz: "v \<noteq> 0" using v by auto
  have "InverseModPrimeSimpleType v m = Inr ?t"
    using nz c by (simp add: InverseModPrimeSimpleType_def)
  then show ?thesis using t inv m by (intro exI [of _ ?t]) simp
qed

end
