(* ===== verification/PrimeCert.thy ===== *)
theory PrimeCert
  imports Prelude
begin

text \<open>
  The arithmetic of a prime modulus: Euclid's lemma, Fermat's little theorem, and a certificate
  that proves a number of 61 or 127 bits prime inside the kernel. The two fields of the library
  are \<open>Z_p\<close> for the Mersenne primes \<open>2^61 - 1\<close> and \<open>2^127 - 1\<close>; that these are primes is what
  makes every nonzero element invertible.

  A certificate (in the manner of Pocklington) for \<open>n\<close> gives a base \<open>a\<close> and prime divisors \<open>q\<close>
  of \<open>n - 1\<close> whose product exceeds the square root of \<open>n\<close>, and for each \<open>q\<close> an inverse of
  \<open>a^((n-1)/q) - 1\<close> modulo \<open>n\<close>. Every check of a certificate is a computation.
\<close>

section \<open>Primes\<close>

definition is_prime :: "nat \<Rightarrow> bool" where
  "is_prime p \<longleftrightarrow> 1 < p \<and> (\<forall>d. d dvd p \<longrightarrow> d = 1 \<or> d = p)"

lemma is_prime_gt1: "is_prime p \<Longrightarrow> 1 < p"
  by (simp add: is_prime_def)

lemma is_prime_coprime: "is_prime p \<Longrightarrow> \<not> p dvd a \<Longrightarrow> coprime p a"
  unfolding is_prime_def by (metis coprimeI dvd_def nat_dvd_1_iff_1)

lemma is_prime_dvd_mult: "is_prime p \<Longrightarrow> p dvd a * b \<Longrightarrow> p dvd a \<or> p dvd b"
  using is_prime_coprime coprime_dvd_mult_right_iff by blast

lemma is_prime_mod_coprime: "is_prime p \<Longrightarrow> 0 < a \<Longrightarrow> a < p \<Longrightarrow> coprime p a"
  by (rule is_prime_coprime) (auto dest: nat_dvd_not_less)

lemma prime_divisor_exists:
  assumes "1 < n"
  obtains r where "is_prime r" "r dvd n" "\<And>d. 1 < d \<Longrightarrow> d dvd n \<Longrightarrow> r \<le> d"
proof -
  let ?r = "LEAST d. 1 < d \<and> d dvd n"
  have r: "1 < ?r \<and> ?r dvd n" by (rule LeastI [of _ n]) (use assms in simp)
  have least: "?r \<le> d" if "1 < d" "d dvd n" for d
    by (rule Least_le) (use that in simp)
  have "is_prime ?r"
    unfolding is_prime_def
  proof (intro conjI allI impI)
    show "1 < ?r" using r by simp
    fix d assume d: "d dvd ?r"
    show "d = 1 \<or> d = ?r"
    proof (cases "d \<le> 1")
      case True
      with d r show ?thesis by (cases d) auto
    next
      case False
      have "d dvd n" using d r by (blast intro: dvd_trans)
      with False have "?r \<le> d" by (intro least) simp_all
      moreover have "d \<le> ?r" using d r by (intro dvd_imp_le) simp_all
      ultimately show ?thesis by simp
    qed
  qed
  then show ?thesis using that r least by blast
qed

lemma is_primeI_sqrt:
  assumes "1 < n" and "\<And>r. is_prime r \<Longrightarrow> r dvd n \<Longrightarrow> n < r * r"
  shows "is_prime n"
proof -
  obtain r where r: "is_prime r" "r dvd n" "\<And>d. 1 < d \<Longrightarrow> d dvd n \<Longrightarrow> r \<le> d"
    using prime_divisor_exists [OF assms(1)] by blast
  from r(2) obtain k where k: "n = r * k" by (elim dvdE)
  have "k = 1"
  proof (rule ccontr)
    assume "k \<noteq> 1"
    moreover have "k \<noteq> 0" using k assms(1) by (cases k) auto
    ultimately have "r \<le> k" using r(3) [of k] k by simp
    then have "r * r \<le> n" using k by simp
    with assms(2) [OF r(1,2)] show False by simp
  qed
  with k r(1) show ?thesis by simp
qed

text \<open>
  Trial division, for the small primes of a certificate. The checks compute on \<open>int\<close>, whose
  numerals the kernel evaluates in binary.
\<close>

definition trial :: "int \<Rightarrow> int \<Rightarrow> bool" where
  "trial n k \<longleftrightarrow> 1 < n \<and> 0 \<le> k \<and> n < k * k \<and> list_all (\<lambda>d. n mod d \<noteq> 0) [2..k - 1]"

lemma trial_is_prime:
  assumes t: "trial (int n) k"
  shows "is_prime n"
proof (rule is_primeI_sqrt)
  show "1 < n" using t by (simp add: trial_def)
  fix r assume r: "is_prime r" "r dvd n"
  have "k \<le> int r"
  proof (rule ccontr)
    assume "\<not> k \<le> int r"
    then have "int r \<in> set [2..k - 1]" using is_prime_gt1 [OF r(1)] by simp
    moreover have "\<forall>d \<in> set [2..k - 1]. int n mod d \<noteq> 0"
      using t by (simp add: trial_def list_all_iff)
    ultimately have "int n mod int r \<noteq> 0" by (rule bspec [rotated])
    with r(2) show False by (simp add: mod_eq_0_iff_dvd)
  qed
  then have "k * k \<le> int r * int r" using t by (intro mult_mono) (simp_all add: trial_def)
  with t have "int n < int (r * r)" by (simp add: trial_def)
  then show "n < r * r" by (simp only: of_nat_less_iff)
qed

section \<open>Fermat's little theorem\<close>

lemma fermat_little:
  assumes p: "is_prime p" and a: "\<not> p dvd a"
  shows "a ^ (p - 1) mod p = 1"
proof -
  have gt: "1 < p" using p by (rule is_prime_gt1)
  have inj: "inj_on (\<lambda>x. a * x mod p) {1..<p}"
  proof (rule linorder_inj_onI)
    fix x y assume xy: "x < y" "x \<in> {1..<p}" "y \<in> {1..<p}"
    show "a * x mod p \<noteq> a * y mod p"
    proof
      assume "a * x mod p = a * y mod p"
      then have "p dvd a * y - a * x"
        by (simp add: mod_eq_dvd_iff_nat [symmetric] xy less_imp_le)
      then have "p dvd a * (y - x)" by (simp add: right_diff_distrib')
      with p a have "p dvd y - x" using is_prime_dvd_mult by blast
      then have "p \<le> y - x" by (rule dvd_imp_le) (use xy in simp)
      with xy show False by simp
    qed
  qed auto
  have img: "(\<lambda>x. a * x mod p) ` {1..<p} = {1..<p}"
  proof (rule card_subset_eq)
    show "(\<lambda>x. a * x mod p) ` {1..<p} \<subseteq> {1..<p}"
    proof
      fix y assume "y \<in> (\<lambda>x. a * x mod p) ` {1..<p}"
      then obtain x where x: "x \<in> {1..<p}" and y: "y = a * x mod p" by blast
      have "\<not> p dvd x" using x by (auto dest: nat_dvd_not_less)
      with p a have "\<not> p dvd a * x" using is_prime_dvd_mult by blast
      with y gt show "y \<in> {1..<p}" by (simp add: dvd_eq_mod_eq_0 Suc_le_eq)
    qed
    show "card ((\<lambda>x. a * x mod p) ` {1..<p}) = card {1..<p}" by (rule card_image [OF inj])
  qed simp
  have "(\<Prod>x = 1..<p. a * x mod p) = \<Prod>{1..<p}"
    using prod.reindex [OF inj, of "\<lambda>x. x"] img by simp
  then have "(\<Prod>x = 1..<p. a * x) mod p = \<Prod>{1..<p} mod p"
    by (metis mod_prod_eq)
  then have eq: "(a ^ (p - 1) * \<Prod>{1..<p}) mod p = \<Prod>{1..<p} mod p"
    by (simp add: prod.distrib)
  have cop: "coprime p (\<Prod>{1..<p})"
    by (rule prod_coprime_right) (use is_prime_mod_coprime [OF p] in auto)
  have "a \<noteq> 0" using a by (cases a) auto
  then have a1: "1 \<le> a ^ (p - 1)" by (simp add: Suc_le_eq)
  then have ge: "\<Prod>{1..<p} \<le> a ^ (p - 1) * \<Prod>{1..<p}"
    using mult_le_mono1 [OF a1, of "\<Prod>{1..<p}"] by simp
  from eq have "p dvd a ^ (p - 1) * \<Prod>{1..<p} - \<Prod>{1..<p}"
    using mod_eq_dvd_iff_nat [OF ge] by blast
  then have "p dvd (a ^ (p - 1) - 1) * \<Prod>{1..<p}" by (simp add: left_diff_distrib')
  with cop have "p dvd a ^ (p - 1) - 1" using coprime_dvd_mult_left_iff by blast
  with a1 have "a ^ (p - 1) mod p = 1 mod p"
    using mod_eq_dvd_iff_nat [of 1 "a ^ (p - 1)" p] by blast
  with gt show ?thesis by simp
qed

text \<open>If \<open>a\<close> to the powers \<open>m\<close> and \<open>n\<close> is 1, so is \<open>a\<close> to their greatest common divisor.\<close>

lemma pow_gcd_1:
  assumes r: "is_prime r" and m: "a ^ m mod r = 1" and n: "a ^ n mod r = 1"
  shows "a ^ gcd m n mod r = 1"
  using m n
proof (induction m n rule: gcd_nat_induct)
  case (base m)
  then show ?case by simp
next
  case (step m n)
  have "a ^ m mod r = (a ^ n) ^ (m div n) * a ^ (m mod n) mod r"
    by (simp add: power_mult [symmetric] power_add [symmetric])
  also have "\<dots> = ((a ^ n mod r) ^ (m div n) mod r) * (a ^ (m mod n) mod r) mod r"
    by (simp add: mod_mult_eq power_mod)
  also have "\<dots> = a ^ (m mod n) mod r"
    using step.prems(2) is_prime_gt1 [OF r] by simp
  finally have "a ^ (m mod n) mod r = 1" using step.prems(1) by simp
  with step have "a ^ gcd n (m mod n) mod r = 1" by blast
  then show ?case by (simp add: gcd_red_nat [of m n])
qed

section \<open>Certificates\<close>

text \<open>
  Powers modulo the Mersenne number \<open>2^k - 1\<close>: a product is folded twice, its high part added to
  its low part, which keeps it below \<open>2^(k+1)\<close> without a division.
\<close>

definition mfold :: "nat \<Rightarrow> int \<Rightarrow> int" where
  "mfold k z = take_bit k z + drop_bit k z"

primrec powmod :: "nat \<Rightarrow> int \<Rightarrow> bool list \<Rightarrow> int" where
  "powmod k a [] = 1"
| "powmod k a (b # bs) =
     (let h = powmod k a bs; s = h * h; t = (if b then s * a else s) in mfold k (mfold k t))"

lemma mfold_mod: "mfold k z mod (2 ^ k - 1) = z mod (2 ^ k - 1)"
proof -
  have "z = take_bit k z + 2 ^ k * drop_bit k z"
    by (simp add: take_bit_eq_mod drop_bit_eq_div)
  then have "z = mfold k z + (2 ^ k - 1) * drop_bit k z"
    by (simp add: mfold_def algebra_simps)
  then show ?thesis by (metis mod_mult_self2)
qed

primrec bits_val :: "bool list \<Rightarrow> nat" where
  "bits_val [] = 0"
| "bits_val (b # bs) = (if b then 1 else 0) + 2 * bits_val bs"

lemma powmod_eq: "powmod k a bs mod (2 ^ k - 1) = a ^ bits_val bs mod (2 ^ k - 1)"
proof (induction bs)
  case Nil
  then show ?case by simp
next
  case (Cons b bs)
  let ?n = "2 ^ k - 1 :: int"
  have dbl: "a ^ (2 * k) = a ^ k * a ^ k" for k
    by (simp add: power_add [symmetric] mult_2)
  have sq: "powmod k a bs * powmod k a bs mod ?n = a ^ (2 * bits_val bs) mod ?n"
    unfolding dbl using Cons by (metis mod_mult_eq)
  then have "powmod k a bs * powmod k a bs * a mod ?n = a ^ (2 * bits_val bs) * a mod ?n"
    by (metis mod_mult_left_eq)
  with sq show ?case by (simp add: Let_def mfold_mod mult.commute)
qed

text \<open>\<open>bits_of k m\<close> lists the \<open>k\<close> lowest bits of \<open>m\<close>, lowest first.\<close>

primrec bits_of :: "nat \<Rightarrow> int \<Rightarrow> bool list" where
  "bits_of 0 m = []"
| "bits_of (Suc k) m = (m mod 2 = 1) # bits_of k (m div 2)"

lemma bits_val_bits_of: "m < 2 ^ k \<Longrightarrow> bits_val (bits_of k (int m)) = m"
proof (induction k arbitrary: m)
  case 0
  then show ?case by simp
next
  case (Suc k)
  then have "bits_val (bits_of k (int (m div 2))) = m div 2" by simp
  then have IH: "bits_val (bits_of k (int m div 2)) = m div 2" by (simp add: zdiv_int)
  have "int m mod 2 = 1 \<longleftrightarrow> odd m" by presburger
  then show ?case by (cases "even m") (simp_all add: IH)
qed

definition cert_step :: "nat \<Rightarrow> int \<Rightarrow> int \<Rightarrow> int \<Rightarrow> bool" where
  "cert_step k a q i \<longleftrightarrow> (2 ^ k - 2) mod q = 0 \<and>
     (powmod k a (bits_of k ((2 ^ k - 2) div q)) - 1) * i mod (2 ^ k - 1) = 1"

lemma cert_step_nat:
  assumes n: "n = 2 ^ k - 1" "1 < n" and s: "cert_step k (int a) (int q) i"
  shows "q dvd n - 1" and "(int a ^ ((n - 1) div q) - 1) * i mod int n = 1"
proof -
  have in1: "int n = 2 ^ k - 1" using n by (simp add: of_nat_diff)
  have n1: "2 ^ k - 2 = int (n - 1)" using in1 n(2) by (simp add: of_nat_diff)
  show "q dvd n - 1"
    using s by (simp add: cert_step_def n1 mod_eq_0_iff_dvd del: of_nat_diff)
  have "(n - 1) div q \<le> n - 1" by (rule div_le_dividend)
  then have "(n - 1) div q < 2 ^ k" using n by linarith
  then have "powmod k (int a) (bits_of k (int ((n - 1) div q))) mod int n
      = int a ^ ((n - 1) div q) mod int n"
    unfolding in1 powmod_eq by (simp add: bits_val_bits_of)
  then have "(powmod k (int a) (bits_of k (int ((n - 1) div q))) - 1) mod int n
      = (int a ^ ((n - 1) div q) - 1) mod int n"
    by (metis mod_diff_left_eq)
  moreover have "(powmod k (int a) (bits_of k (int ((n - 1) div q))) - 1) * i mod int n = 1"
    using s by (simp add: cert_step_def n1 in1 zdiv_int del: of_nat_diff)
  ultimately show "(int a ^ ((n - 1) div q) - 1) * i mod int n = 1"
    by (metis mod_mult_left_eq)
qed

text \<open>One prime of a certificate divides \<open>r - 1\<close> for every prime divisor \<open>r\<close> of the number.\<close>

lemma cert_prime_dvd:
  assumes n: "1 < n" and one: "a ^ (n - 1) mod n = 1"
    and qn: "q dvd n - 1" and inv: "(int a ^ ((n - 1) div q) - 1) * i mod int n = 1" and q: "is_prime q"
    and r: "is_prime r" "r dvd n"
  shows "q dvd r - 1"
proof (rule ccontr)
  assume nd: "\<not> q dvd r - 1"
  have an: "a ^ (n - 1) mod r = 1"
    using one mod_mod_cancel [OF r(2), of "a ^ (n - 1)"] is_prime_gt1 [OF r(1)] by simp
  have nra: "\<not> r dvd a"
  proof
    assume "r dvd a"
    moreover have "0 < n - 1" using n by simp
    ultimately have "r dvd a ^ (n - 1)" using dvd_power dvd_trans by blast
    with an show False by (simp add: dvd_eq_mod_eq_0)
  qed
  have g1: "a ^ gcd (r - 1) (n - 1) mod r = 1"
    by (rule pow_gcd_1 [OF r(1) fermat_little [OF r(1) nra] an])
  have "gcd (r - 1) (n - 1) dvd (n - 1) div q"
  proof -
    obtain e where e: "n - 1 = gcd (r - 1) (n - 1) * e"
      using gcd_dvd2 [of "r - 1" "n - 1"] by (elim dvdE)
    have "\<not> q dvd gcd (r - 1) (n - 1)" using nd by simp
    then have "q dvd e" using is_prime_dvd_mult [OF q] qn e by metis
    then obtain f where "e = q * f" by (elim dvdE)
    with e have "n - 1 = q * (gcd (r - 1) (n - 1) * f)" by (simp add: ac_simps)
    then have "(n - 1) div q = gcd (r - 1) (n - 1) * f"
      using is_prime_gt1 [OF q] by (metis nonzero_mult_div_cancel_left not_less_zero)
    then show ?thesis by simp
  qed
  then obtain f where "(n - 1) div q = gcd (r - 1) (n - 1) * f" by (elim dvdE)
  then have "a ^ ((n - 1) div q) mod r = (a ^ gcd (r - 1) (n - 1) mod r) ^ f mod r"
    by (simp add: power_mult power_mod)
  then have "a ^ ((n - 1) div q) mod r = 1" using g1 is_prime_gt1 [OF r(1)] by simp
  then have "int a ^ ((n - 1) div q) mod int r = 1" by (metis of_nat_1 of_nat_mod of_nat_power)
  then have "int r dvd int a ^ ((n - 1) div q) - 1"
    by (metis mod_eq_dvd_iff mod_mod_trivial)
  then have "(int a ^ ((n - 1) div q) - 1) * i mod int r = 0" by (simp add: mod_eq_0_iff_dvd)
  moreover have "int r dvd int n" using r(2) by simp
  ultimately have "1 mod int r = 0" using inv mod_mod_cancel by metis
  with is_prime_gt1 [OF r(1)] show False by simp
qed

theorem pocklington:
  assumes n: "1 < n" and one: "a ^ (n - 1) mod n = 1"
    and qs: "\<forall>(q, i) \<in> set qis. is_prime q \<and> q dvd n - 1 \<and> (int a ^ ((n - 1) div q) - 1) * i mod int n = 1"
    and dist: "distinct (map fst qis)"
    and big: "n < (prod_list (map fst qis) + 1) ^ 2"
  shows "is_prime n"
proof (rule is_primeI_sqrt [OF n])
  fix r assume r: "is_prime r" "r dvd n"
  have "prod_list (map fst ps) dvd r - 1" if "set ps \<subseteq> set qis" "distinct (map fst ps)" for ps
    using that
  proof (induction ps)
    case Nil
    then show ?case by simp
  next
    case (Cons p ps)
    obtain q i where p: "p = (q, i)" by (cases p)
    with Cons.prems(1) qs have q: "is_prime q" "q dvd n - 1" "(int a ^ ((n - 1) div q) - 1) * i mod int n = 1" by auto
    have "q dvd r - 1" by (rule cert_prime_dvd [OF n one q(2,3,1) r])
    moreover have "prod_list (map fst ps) dvd r - 1" using Cons by simp
    moreover have "coprime q (prod_list (map fst ps))"
    proof -
      have "coprime q q'" if "q' \<in> fst ` set ps" for q'
      proof -
        from that Cons.prems(1) qs have q': "is_prime q'" by auto
        from that Cons.prems(2) p have "q \<noteq> q'" by auto
        with q(1) q' show ?thesis
          using is_prime_coprime [of q q'] unfolding is_prime_def by auto
      qed
      then have "\<forall>x \<in> set (map fst ps). coprime q x" by simp
      then show ?thesis by (induction "map fst ps" arbitrary: ps) (auto simp: prod_list.eq_foldr)
    qed
    ultimately show ?case using p by (simp add: divides_mult)
  qed
  from this [of qis] dist have dvd: "prod_list (map fst qis) dvd r - 1" by simp
  have "prod_list (map fst qis) + 1 \<le> r"
    using dvd_imp_le [OF dvd] is_prime_gt1 [OF r(1)] by simp
  then have "(prod_list (map fst qis) + 1) ^ 2 \<le> r ^ 2" by (rule power_mono) simp
  with big show "n < r * r" by (simp add: power2_eq_square)
qed

theorem certificate:
  assumes n: "n = 2 ^ k - 1" "1 < n"
    and pow: "powmod k (int a) (bits_of k (2 ^ k - 2)) mod (2 ^ k - 1) = 1"
    and qs: "\<forall>(q, i) \<in> set qis. is_prime q \<and> cert_step k (int a) (int q) i"
    and dist: "distinct (map fst qis)"
    and big: "n < (prod_list (map fst qis) + 1) ^ 2"
  shows "is_prime n"
proof (rule pocklington [OF n(2) _ _ dist big])
  have in1: "int n = 2 ^ k - 1" using n by (simp add: of_nat_diff)
  have n1: "2 ^ k - 2 = int (n - 1)" using in1 n(2) by (simp add: of_nat_diff)
  have "n - 1 < 2 ^ k" using n by linarith
  then have "int a ^ (n - 1) mod int n = 1"
    using pow powmod_eq [of k "int a" "bits_of k (2 ^ k - 2)"]
    by (simp add: n1 in1 bits_val_bits_of del: of_nat_diff)
  then show "a ^ (n - 1) mod n = 1"
    by (metis of_nat_eq_1_iff of_nat_mod of_nat_power)
  show "\<forall>(q, i) \<in> set qis. is_prime q \<and> q dvd n - 1 \<and> (int a ^ ((n - 1) div q) - 1) * i mod int n = 1"
    using qs cert_step_nat [OF n] by fast
qed

end
