(* ===== verification/MersennePrimes.thy ===== *)
theory MersennePrimes
  imports PrimeCert
begin

text \<open>
  The modulus of the field the protocols compute in, \<open>2^61 - 1\<close>, is prime: a certificate
  evaluated by the kernel. The base is 3; the primes of the certificate divide \<open>p - 1\<close> exactly
  once and are small enough for trial division.
\<close>

lemma small_primes: "is_prime 1321" "is_prime 331" "is_prime 151" "is_prime 61"
proof -
  have "trial (int 1321) 37" "trial (int 331) 19" "trial (int 151) 13" "trial (int 61) 8"
    unfolding of_nat_numeral by code_simp+
  then show "is_prime 1321" "is_prime 331" "is_prime 151" "is_prime 61"
    by (blast dest: trial_is_prime)+
qed

lemma prime_61: "is_prime (2 ^ 61 - 1)"
proof (rule certificate)
  let ?qs = "[(1321, 828993518632009434), (331, 1881382712785867029), (151, 1896004468068488480),
    (61, 73219245529501761)] :: (nat \<times> int) list"
  have steps: "cert_step 61 3 1321 828993518632009434" "cert_step 61 3 331 1881382712785867029"
    "cert_step 61 3 151 1896004468068488480" "cert_step 61 3 61 73219245529501761"
    by code_simp+
  show "\<forall>(q, i) \<in> set ?qs. is_prime q \<and> cert_step 61 (int 3) (int q) i"
    using steps small_primes by simp
  show "powmod 61 (int 3) (bits_of 61 (2 ^ 61 - 2)) mod (2 ^ 61 - 1) = 1"
    unfolding of_nat_numeral by code_simp
qed simp_all

end
