(* ===== verification/Mersenne61.thy ===== *)
theory Mersenne61
  imports FieldDetails MersennePrimes
begin

text \<open>
  The field \<open>FiniteField<NamedField::Mersenne61>\<close> of \<open>scl/math/fields\<close> and the class \<open>FF<61>\<close>
  over it. The raw operations act on \<open>std::uint64_t\<close> values (\<open>64 word\<close>); each is shown to
  compute its field operation modulo \<open>p = 2^61 - 1\<close> on canonical representatives.
  The values below \<open>p\<close> then form the type \<open>ff61\<close>, whose operations are the code's and which is
  an instance of the class \<open>field\<close>: everything the library's templates do over a field
  applies to it.
\<close>

unbundle bit_operations_syntax

type_synonym u64 = "64 word"
type_synonym u128 = "128 word"

section \<open>The raw operations\<close>

definition p61 :: u64 where
  "p61 = 0x1FFFFFFFFFFFFFFF"

definition FromInt61 :: "int \<Rightarrow> u64" where
  "FromInt61 v = (if v < 0 then word_of_int v + p61 else word_of_int v)"

definition Add61 :: "u64 \<Rightarrow> u64 \<Rightarrow> u64" where
  "Add61 t v = AddSimpleType t v p61"

definition Subtract61 :: "u64 \<Rightarrow> u64 \<Rightarrow> u64" where
  "Subtract61 t v = SubtractSimpleType t v p61"

definition Negate61 :: "u64 \<Rightarrow> u64" where
  "Negate61 t = NegateSimpleType t p61"

definition Equal61 :: "u64 \<Rightarrow> u64 \<Rightarrow> bool" where
  "Equal61 a b = EqualSimpleType a b"

definition Invert61 :: "u64 \<Rightarrow> u64 res" where
  "Invert61 t = InverseModPrimeSimpleType t p61"

definition Multiply61 :: "u64 \<Rightarrow> u64 \<Rightarrow> u64" where
  "Multiply61 t v =
     (let z = (ucast t :: u128) * ucast v;
          a = (ucast (drop_bit 61 z) :: u64);
          b = (ucast z :: u64);
          a = a OR drop_bit 61 b;
          b = b AND p61
      in Add61 a b)"

definition FromBytes61 :: "8 word list \<Rightarrow> u64 res" where
  "FromBytes61 src =
     throw_if (length src < 8) Undefined (Inr (le_word (take 8 src) mod p61))"

definition ToBytes61 :: "u64 \<Rightarrow> 8 word list" where
  "ToBytes61 src = le_bytes 8 src"

section \<open>Their correctness on canonical values\<close>

lemma uint_p61: "uint p61 = 2 ^ 61 - 1"
  by (simp add: p61_def)

lemma small_p61: "small_modulus p61"
  by (simp add: small_modulus_def uint_p61)

lemma canonical_iff: "t < p61 \<longleftrightarrow> uint t < 2 ^ 61 - 1"
  by (simp add: word_less_def uint_p61)

lemma FromInt61_uint:
  assumes "- (2 ^ 31) \<le> v" "v < 2 ^ 31"
  shows "uint (FromInt61 v) = v mod (2 ^ 61 - 1)"
proof (cases "v < 0")
  case True
  have "FromInt61 v = word_of_int v + word_of_int (2 ^ 61 - 1)"
    using True by (simp add: FromInt61_def p61_def)
  also have "\<dots> = word_of_int (v + (2 ^ 61 - 1))" by (simp only: wi_hom_add)
  finally have "uint (FromInt61 v) = (v + (2 ^ 61 - 1)) mod 2 ^ 64"
    by (simp only: uint_word_of_int) simp
  also have "\<dots> = v + (2 ^ 61 - 1)" using assms True by (intro mod_pos_pos_trivial) simp_all
  also have "\<dots> = (v + (2 ^ 61 - 1)) mod (2 ^ 61 - 1)"
    using assms True by (intro mod_pos_pos_trivial [symmetric]) simp_all
  finally show ?thesis by simp
next
  case False
  with assms show ?thesis by (simp add: FromInt61_def uint_word_of_int mod_pos_pos_trivial)
qed

lemma Add61_uint:
  "t < p61 \<Longrightarrow> v < p61 \<Longrightarrow> uint (Add61 t v) = (uint t + uint v) mod (2 ^ 61 - 1)"
  using AddSimpleType_uint [OF small_p61, of t v]
  by (simp add: Add61_def canonical_iff uint_p61)

lemma Subtract61_uint:
  "t < p61 \<Longrightarrow> v < p61 \<Longrightarrow> uint (Subtract61 t v) = (uint t - uint v) mod (2 ^ 61 - 1)"
  using SubtractSimpleType_uint [OF small_p61, of t v]
  by (simp add: Subtract61_def canonical_iff uint_p61)

lemma Negate61_uint: "t < p61 \<Longrightarrow> uint (Negate61 t) = (- uint t) mod (2 ^ 61 - 1)"
  using NegateSimpleType_uint [OF small_p61, of t]
  by (simp add: Negate61_def canonical_iff uint_p61)

text \<open>
  The 122-bit product splits at bit 61. The bits \<open>b >> 61\<close> that the code merges into the high
  part are already there, so the disjunction changes nothing.
\<close>

lemma Multiply61_parts:
  fixes t v :: u64
  defines "Z \<equiv> uint t * uint v"
  assumes t: "t < p61" and v: "v < p61"
  shows "uint ((ucast (drop_bit 61 ((ucast t :: u128) * ucast v)) :: u64)
            OR drop_bit 61 (ucast ((ucast t :: u128) * ucast v) :: u64)) = Z div 2 ^ 61"
    and "uint ((ucast ((ucast t :: u128) * ucast v) :: u64) AND p61) = Z mod 2 ^ 61"
    and "0 \<le> Z" "Z \<le> (2 ^ 61 - 2) * (2 ^ 61 - 2)"
proof -
  have t': "uint t \<le> 2 ^ 61 - 2" and v': "uint v \<le> 2 ^ 61 - 2"
    using t v by (simp_all add: canonical_iff)
  show Z0: "0 \<le> Z" by (simp add: Z_def)
  show Zb: "Z \<le> (2 ^ 61 - 2) * (2 ^ 61 - 2)"
    unfolding Z_def by (rule mult_mono [OF t' v']) simp_all
  let ?z = "(ucast t :: u128) * ucast v"
  have "uint (ucast t :: u128) = uint t" "uint (ucast v :: u128) = uint v"
    using uint_lt2p [of t] uint_lt2p [of v]
    by (simp_all add: unsigned_ucast_eq take_bit_int_eq_self)
  moreover have Zlt: "Z < 2 ^ 128" using Zb by simp
  ultimately have z: "uint ?z = Z"
    using Z0 by (simp add: uint_word_ariths Z_def mod_pos_pos_trivial)
  have b: "uint (ucast ?z :: u64) = Z mod 2 ^ 64"
    by (simp add: unsigned_ucast_eq z take_bit_eq_mod)
  have "Z div 2 ^ 61 < 2 ^ 64" using Zb Z0 by (simp add: div_less_iff_less_mult)
  then have a: "uint (ucast (drop_bit 61 ?z) :: u64) = Z div 2 ^ 61"
  proof -
    have d: "uint (drop_bit 61 ?z) = Z div 2 ^ 61"
      using Zlt Z0
      by (simp only: unsigned_drop_bit_eq z drop_bit_eq_div [where 'a = int])
        (simp add: take_bit_int_eq_self)
    show ?thesis
      using \<open>Z div 2 ^ 61 < 2 ^ 64\<close> Z0
      by (simp only: unsigned_ucast_eq d) (simp add: take_bit_int_eq_self pos_imp_zdiv_nonneg_iff)
  qed
  have or: "(ucast (drop_bit 61 ?z) :: u64) OR drop_bit 61 (ucast ?z :: u64) = ucast (drop_bit 61 ?z)"
    by (rule bit_word_eqI) (auto simp: bit_simps)
  show "uint ((ucast (drop_bit 61 ?z) :: u64) OR drop_bit 61 (ucast ?z :: u64)) = Z div 2 ^ 61"
    unfolding or by (rule a)
  have "p61 = mask 61" by (simp add: p61_def mask_eq_exp_minus_1)
  then have "(ucast ?z :: u64) AND p61 = take_bit 61 (ucast ?z)" by (simp only: take_bit_eq_mask)
  then have "uint ((ucast ?z :: u64) AND p61) = take_bit 61 (uint (ucast ?z :: u64))"
    by (simp only: unsigned_take_bit_eq)
  also have "\<dots> = Z mod 2 ^ 61"
    unfolding b take_bit_eq_mod by (rule mod_mod_cancel) (simp add: le_imp_power_dvd)
  finally show "uint ((ucast ?z :: u64) AND p61) = Z mod 2 ^ 61" .
qed

lemma Multiply61_uint:
  assumes t: "t < p61" and v: "v < p61"
  shows "uint (Multiply61 t v) = uint t * uint v mod (2 ^ 61 - 1)"
proof -
  define Z where "Z = uint t * uint v"
  note parts = Multiply61_parts [OF t v, folded Z_def]
  let ?a = "(ucast (drop_bit 61 ((ucast t :: u128) * ucast v)) :: u64)
      OR drop_bit 61 (ucast ((ucast t :: u128) * ucast v) :: u64)"
  let ?b = "(ucast ((ucast t :: u128) * ucast v) :: u64) AND p61"
  have "Z div 2 ^ 61 \<le> (2 ^ 61 - 2) * (2 ^ 61 - 2) div 2 ^ 61"
    using parts(4) by (rule zdiv_mono1) simp
  then have "Z div 2 ^ 61 \<le> 2 ^ 61 - 4" by simp
  moreover have "Z mod 2 ^ 61 < 2 ^ 61" by simp
  ultimately have "uint ?a + uint ?b < 2 * uint p61"
    unfolding parts(1,2) uint_p61 by simp
  then have "uint (Add61 ?a ?b) = (Z div 2 ^ 61 + Z mod 2 ^ 61) mod (2 ^ 61 - 1)"
    using AddSimpleType_uint [OF small_p61, of ?a ?b]
    unfolding Add61_def parts(1,2) uint_p61 by simp
  also have "\<dots> = Z mod (2 ^ 61 - 1)"
  proof -
    have "Z = (2 ^ 61 - 1) * (Z div 2 ^ 61) + (Z div 2 ^ 61 + Z mod 2 ^ 61)"
      using div_mult_mod_eq [of Z "2 ^ 61"] by (simp add: algebra_simps)
    then show ?thesis by (metis mod_mult_self4)
  qed
  finally show ?thesis by (simp add: Multiply61_def Let_def Z_def)
qed

lemma Invert61_correct:
  assumes "t < p61" and "t \<noteq> 0"
  shows "\<exists>u. Invert61 t = Inr u \<and> u < p61 \<and> Multiply61 u t = 1"
proof -
  have pos: "0 < uint t" using assms(2) by (simp add: word_neq_0_conv word_less_def)
  have lt: "uint t < uint p61" using assms(1) by (simp add: word_less_def)
  have "int (unat t) < int (2 ^ 61 - 1)" using lt by (simp add: uint_p61)
  then have "unat t < 2 ^ 61 - 1" by (simp only: of_nat_less_iff)
  moreover have "0 < unat t" using assms(2) by (simp add: unat_gt_0)
  ultimately have "coprime (2 ^ 61 - 1) (unat t)"
    using is_prime_mod_coprime [OF prime_61] by blast
  then have "coprime (int (2 ^ 61 - 1)) (int (unat t))"
    by (simp only: coprime_int_iff)
  then have "coprime (uint p61) (uint t)" by (simp add: uint_p61)
  then obtain u where u: "Invert61 t = Inr u" "uint u < uint p61" "uint u * uint t mod uint p61 = 1"
    using InverseModPrimeSimpleType_correct [of p61 t] pos lt
    by (auto simp: Invert61_def uint_p61)
  then have c: "u < p61" by (simp add: word_less_def)
  have "uint (Multiply61 u t) = 1"
    using Multiply61_uint [OF c assms(1)] u(3) by (simp add: uint_p61)
  then have "Multiply61 u t = 1" by (simp add: word_uint_eq_iff)
  with u(1) c show ?thesis by blast
qed

lemma canonical_closed:
  "t < p61 \<Longrightarrow> v < p61 \<Longrightarrow> Add61 t v < p61"
  "t < p61 \<Longrightarrow> v < p61 \<Longrightarrow> Subtract61 t v < p61"
  "t < p61 \<Longrightarrow> v < p61 \<Longrightarrow> Multiply61 t v < p61"
  "t < p61 \<Longrightarrow> Negate61 t < p61"
  by (simp_all add: canonical_iff [of "Add61 t v"] canonical_iff [of "Subtract61 t v"]
      canonical_iff [of "Multiply61 t v"] canonical_iff [of "Negate61 t"]
      Add61_uint Subtract61_uint Multiply61_uint Negate61_uint)

lemma FromInt61_canonical: "- (2 ^ 31) \<le> v \<Longrightarrow> v < 2 ^ 31 \<Longrightarrow> FromInt61 v < p61"
  by (simp add: canonical_iff FromInt61_uint)

lemma FromBytes61_canonical: "FromBytes61 bs = Inr t \<Longrightarrow> t < p61"
  by (auto simp: FromBytes61_def throw_if_eq_Inr p61_def intro!: word_mod_less_divisor)

lemma FromBytes61_ToBytes61: "t < p61 \<Longrightarrow> FromBytes61 (ToBytes61 t) = Inr t"
  by (simp add: FromBytes61_def ToBytes61_def le_word_le_bytes take_bit_word_eq_self
      word_uint_eq_iff uint_mod canonical_iff uint_p61)

section \<open>Properties\<close>

text \<open>
  C15: the four ring operations of \<open>FF<61>\<close> on canonical 64-bit values compute modulo \<open>2^61 - 1\<close>
  and return canonical values; the branch-free reductions and the split of the 128-bit product
  lose nothing.
\<close>

theorem Mersenne61_ring:
  assumes "t < p61" and "v < p61"
  shows "uint (Add61 t v) = (uint t + uint v) mod (2 ^ 61 - 1)
    \<and> uint (Subtract61 t v) = (uint t - uint v) mod (2 ^ 61 - 1)
    \<and> uint (Multiply61 t v) = uint t * uint v mod (2 ^ 61 - 1)
    \<and> uint (Negate61 t) = (- uint t) mod (2 ^ 61 - 1)
    \<and> Add61 t v < p61 \<and> Subtract61 t v < p61 \<and> Multiply61 t v < p61 \<and> Negate61 t < p61"
  using assms by (simp add: Add61_uint Subtract61_uint Multiply61_uint Negate61_uint canonical_closed)

theorem Mersenne61_ring_witness:
  "uint (Multiply61 2305843009213693950 2305843009213693950) = (1 :: int)"
  using Mersenne61_ring [of 2305843009213693950 2305843009213693950] by (simp add: p61_def)

text \<open>
  C14: \<open>Invert\<close> returns the multiplicative inverse of every nonzero canonical value: the extended
  Euclidean loop on signed 64-bit integers terminates and never overflows. For zero it throws.
\<close>

theorem Mersenne61_inverse:
  assumes "t < p61"
  shows "if t = 0 then Invert61 t = Inl (Logic_error ''0 not invertible modulo prime'')
    else \<exists>u. Invert61 t = Inr u \<and> u < p61 \<and> Multiply61 u t = 1"
  using Invert61_correct [OF assms] by (simp add: Invert61_def InverseModPrimeSimpleType_zero)

theorem Mersenne61_inverse_witness: "\<exists>u. Invert61 3 = Inr u \<and> u < p61 \<and> Multiply61 u 3 = 1"
  using Mersenne61_inverse [of 3] by (simp add: p61_def)

end
