(* ===== verification/FF61.thy ===== *)
theory FF61
  imports Mersenne61
begin

text \<open>
  The class \<open>FF<61>\<close> of \<open>scl/math/ff.h\<close>: its operations over the raw ones of the Mersenne field,
  and the type \<open>ff61\<close> of its canonical values with the instance of \<open>field\<close>. A template of the
  library over an element type \<open>T\<close> is modelled over \<open>'a::field\<close>, with \<open>divE\<close> and \<open>invE\<close> for the
  operations of \<open>T\<close> that throw; the refinement lemmas at the end connect both with the raw
  operations.
\<close>

section \<open>The operations of the class\<close>

text \<open>
  A PRG is its state and a function \<open>next\<close>, which yields the requested number of bytes and the
  new state (\<open>PRG::Next\<close>).
\<close>

definition FF61_Read :: "8 word list \<Rightarrow> u64 res" where
  "FF61_Read src = FromBytes61 src"

definition FF61_Random :: "('g \<Rightarrow> nat \<Rightarrow> 8 word list \<times> 'g) \<Rightarrow> 'g \<Rightarrow> (u64 \<times> 'g) res" where
  "FF61_Random next g = (case next g 8 of (buffer, g') \<Rightarrow>
     bindE (FF61_Read buffer) (\<lambda>e. Inr (e, g')))"

definition FF61_add_assign :: "u64 \<Rightarrow> u64 \<Rightarrow> u64" where
  "FF61_add_assign x y = Add61 x y"

definition FF61_sub_assign :: "u64 \<Rightarrow> u64 \<Rightarrow> u64" where
  "FF61_sub_assign x y = Subtract61 x y"

definition FF61_mul_assign :: "u64 \<Rightarrow> u64 \<Rightarrow> u64" where
  "FF61_mul_assign x y = Multiply61 x y"

definition FF61_div_assign :: "u64 \<Rightarrow> u64 \<Rightarrow> u64 res" where
  "FF61_div_assign x y = bindE (Invert61 y) (\<lambda>copy. Inr (Multiply61 x copy))"

definition FF61_Negate :: "u64 \<Rightarrow> u64" where
  "FF61_Negate x = Negate61 x"

definition FF61_Negated :: "u64 \<Rightarrow> u64" where
  "FF61_Negated x = (let copy = Negate61 x in copy)"

definition FF61_Invert :: "u64 \<Rightarrow> u64 res" where
  "FF61_Invert x = Invert61 x"

definition FF61_Inverse :: "u64 \<Rightarrow> u64 res" where
  "FF61_Inverse x = FF61_Invert x"

definition FF61_Equal :: "u64 \<Rightarrow> u64 \<Rightarrow> bool" where
  "FF61_Equal x y = Equal61 x y"

definition FF61_Write :: "u64 \<Rightarrow> 8 word list" where
  "FF61_Write x = ToBytes61 x"

section \<open>The canonical values are a field\<close>

typedef ff61 = "{x :: u64. x < p61}"
  by (rule exI [of _ 0]) (simp add: p61_def)

setup_lifting type_definition_ff61

definition val61 :: "ff61 \<Rightarrow> int" where
  "val61 x = uint (Rep_ff61 x)"

lemma Rep_ff61_less: "Rep_ff61 x < p61"
  using Rep_ff61 [of x] by simp

lemma val61_eq_iff: "x = y \<longleftrightarrow> val61 x = val61 y"
  by (simp add: val61_def word_uint_eq_iff [symmetric] Rep_ff61_inject)

lemma val61_range: "0 \<le> val61 x" "val61 x < 2 ^ 61 - 1"
  using Rep_ff61_less [of x] by (simp_all add: val61_def canonical_iff)

lemma val61_mod [simp]: "val61 x mod 2305843009213693951 = val61 x"
  using val61_range [of x] by (simp add: mod_pos_pos_trivial)

instantiation ff61 :: field
begin

lift_definition zero_ff61 :: ff61 is "0" by (simp add: p61_def)
lift_definition one_ff61 :: ff61 is "1" by (simp add: p61_def)
lift_definition plus_ff61 :: "ff61 \<Rightarrow> ff61 \<Rightarrow> ff61" is FF61_add_assign
  by (simp add: FF61_add_assign_def canonical_closed)
lift_definition minus_ff61 :: "ff61 \<Rightarrow> ff61 \<Rightarrow> ff61" is FF61_sub_assign
  by (simp add: FF61_sub_assign_def canonical_closed)
lift_definition times_ff61 :: "ff61 \<Rightarrow> ff61 \<Rightarrow> ff61" is FF61_mul_assign
  by (simp add: FF61_mul_assign_def canonical_closed)
lift_definition uminus_ff61 :: "ff61 \<Rightarrow> ff61" is FF61_Negate
  by (simp add: FF61_Negate_def canonical_closed)
lift_definition inverse_ff61 :: "ff61 \<Rightarrow> ff61" is
  "\<lambda>t. if t = 0 then 0 else (case FF61_Invert t of Inr u \<Rightarrow> u | Inl _ \<Rightarrow> 0)"
proof -
  fix t :: u64
  assume t: "t < p61"
  have z: "(0 :: u64) < p61" by (simp add: p61_def)
  show "(if t = 0 then 0 else (case FF61_Invert t of Inr u \<Rightarrow> u | Inl _ \<Rightarrow> 0)) < p61"
    using Invert61_correct [OF t] z by (auto simp: FF61_Invert_def)
qed

definition divide_ff61 :: "ff61 \<Rightarrow> ff61 \<Rightarrow> ff61" where
  "divide_ff61 x y = x * inverse y"

lemma val61_ops:
  "val61 0 = 0" "val61 1 = 1"
  "val61 (x + y) = (val61 x + val61 y) mod (2 ^ 61 - 1)"
  "val61 (x - y) = (val61 x - val61 y) mod (2 ^ 61 - 1)"
  "val61 (x * y) = val61 x * val61 y mod (2 ^ 61 - 1)"
  "val61 (- x) = (- val61 x) mod (2 ^ 61 - 1)"
  unfolding val61_def
  by (transfer, simp add: FF61_add_assign_def FF61_sub_assign_def FF61_mul_assign_def
      FF61_Negate_def Add61_uint Subtract61_uint Multiply61_uint Negate61_uint)+

lemma ff61_inverse: "x \<noteq> 0 \<Longrightarrow> inverse x * x = (1 :: ff61)"
proof (transfer)
  fix t :: u64
  assume "t < p61" "t \<noteq> 0"
  then show "FF61_mul_assign
      (if t = 0 then 0 else (case FF61_Invert t of Inr u \<Rightarrow> u | Inl _ \<Rightarrow> 0)) t = 1"
    using Invert61_correct [of t] by (auto simp: FF61_Invert_def FF61_mul_assign_def)
qed

instance
proof
  fix a b c :: ff61
  show "a + b + c = a + (b + c)" "a * b * c = a * (b * c)" "(a + b) * c = a * c + b * c"
    by (simp_all add: val61_eq_iff val61_ops mod_simps algebra_simps)
  show "a + b = b + a" "a * b = b * a" "0 + a = a" "1 * a = a" "- a + a = 0" "a - b = a + - b"
    by (simp_all add: val61_eq_iff val61_ops mod_simps ac_simps)
  show "(0 :: ff61) \<noteq> 1" by (simp add: val61_eq_iff val61_ops)
  show "a \<noteq> 0 \<Longrightarrow> inverse a * a = 1" by (rule ff61_inverse)
  show "a div b = a * inverse b" by (simp add: divide_ff61_def)
  show "inverse (0 :: ff61) = 0" by transfer simp
qed

end

instantiation ff61 :: equal
begin

lift_definition equal_ff61 :: "ff61 \<Rightarrow> ff61 \<Rightarrow> bool" is FF61_Equal .

instance
proof
  fix x y :: ff61
  show "equal_class.equal x y \<longleftrightarrow> x = y"
    by transfer (simp add: FF61_Equal_def Equal61_def EqualSimpleType_def)
qed

end

lemma val61_of_nat: "val61 (of_nat n) = int n mod (2 ^ 61 - 1)"
  by (induction n) (simp_all add: val61_ops mod_simps ac_simps)

lemma val61_of_int: "val61 (of_int v) = v mod (2 ^ 61 - 1)"
  by (cases v rule: int_cases2) (simp_all add: val61_of_nat val61_ops mod_simps)

text \<open>The small integers are distinct in the field: evaluation points never collide.\<close>

lemma ff61_of_nat_eq_iff:
  "m < 2 ^ 61 - 1 \<Longrightarrow> n < 2 ^ 61 - 1 \<Longrightarrow> (of_nat m :: ff61) = of_nat n \<longleftrightarrow> m = n"
  by (simp add: val61_eq_iff val61_of_nat mod_pos_pos_trivial)

lemma ff61_of_int_eq_iff: "(of_int m :: ff61) = of_int n \<longleftrightarrow> m mod (2 ^ 61 - 1) = n mod (2 ^ 61 - 1)"
  by (simp add: val61_eq_iff val61_of_int)

section \<open>The element type of the templates\<close>

definition invE :: "'a::field \<Rightarrow> 'a res" where
  "invE x = throw_if (x = 0) (Logic_error ''0 not invertible modulo prime'') (Inr (inverse x))"

definition divE :: "'a::field \<Rightarrow> 'a \<Rightarrow> 'a res" where
  "divE x y = bindE (invE y) (\<lambda>z. Inr (x * z))"

lemma invE_Inr [simp]: "x \<noteq> 0 \<Longrightarrow> invE x = Inr (inverse x)"
  by (simp add: invE_def)

lemma divE_Inr [simp]: "y \<noteq> 0 \<Longrightarrow> divE x y = Inr (x / y)"
  by (simp add: divE_def divide_inverse)

lemma divE_0 [simp]: "divE x 0 = Inl (Logic_error ''0 not invertible modulo prime'')"
  by (simp add: divE_def invE_def)

lemma divE_eq_Inr: "divE x y = Inr z \<longleftrightarrow> y \<noteq> 0 \<and> z = x / y"
  by (cases "y = 0") auto

subsection \<open>The raw operations refine the field\<close>

lemma FF61_Invert_refines: "FF61_Invert (Rep_ff61 x) = map_sum id Rep_ff61 (invE x)"
proof (cases "x = 0")
  case True
  then show ?thesis
    by (simp add: invE_def zero_ff61.rep_eq FF61_Invert_def Invert61_def
        InverseModPrimeSimpleType_zero)
next
  case False
  then have nz: "Rep_ff61 x \<noteq> 0" by (metis Rep_ff61_inject zero_ff61.rep_eq)
  obtain u where "FF61_Invert (Rep_ff61 x) = Inr u"
    using Invert61_correct [OF Rep_ff61_less nz] by (auto simp: FF61_Invert_def)
  moreover from this nz have "Rep_ff61 (inverse x) = u" by (simp add: inverse_ff61.rep_eq)
  ultimately show ?thesis using False by simp
qed

lemma FF61_div_assign_refines:
  "FF61_div_assign (Rep_ff61 x) (Rep_ff61 y) = map_sum id Rep_ff61 (divE x y)"
  using FF61_Invert_refines [of y]
  by (cases "invE y")
    (simp_all add: FF61_div_assign_def FF61_Invert_def divE_def times_ff61.rep_eq FF61_mul_assign_def)

lemma FromInt61_refines:
  "- (2 ^ 31) \<le> v \<Longrightarrow> v < 2 ^ 31 \<Longrightarrow> FromInt61 v = Rep_ff61 (of_int v)"
  by (simp add: word_uint_eq_iff FromInt61_uint val61_of_int [unfolded val61_def])

lemma FF61_Read_canonical: "FF61_Read src = Inr e \<Longrightarrow> \<exists>x. e = Rep_ff61 x"
proof -
  assume "FF61_Read src = Inr e"
  then have "e \<in> {x. x < p61}" using FromBytes61_canonical by (simp add: FF61_Read_def)
  then have "e = Rep_ff61 (Abs_ff61 e)" by (rule Abs_ff61_inverse [symmetric])
  then show ?thesis ..
qed

section \<open>Properties\<close>


end
