(* ===== verification/Poly.thy ===== *)
theory Poly
  imports FF61
begin

text \<open>
  \<open>scl/ss/poly.h\<close>: polynomials over a field as coefficient vectors, lowest coefficient first.
  The operations are translated loop by loop; their meaning is given by the coefficient function
  \<open>cf\<close> (zero beyond the vector) and by evaluation \<open>peval\<close>. A vector of coefficients made by
  \<open>Create\<close> is \<open>trimmed\<close>: nonempty, and its last coefficient is zero only for the constant 0.
\<close>

section \<open>Coefficient vectors and their meaning\<close>

primrec peval :: "'a::comm_ring_1 list \<Rightarrow> 'a \<Rightarrow> 'a" where
  "peval [] x = 0"
| "peval (c # cs) x = c + x * peval cs x"

definition cf :: "'a::zero list \<Rightarrow> nat \<Rightarrow> 'a" where
  "cf cs i = (if i < length cs then cs ! i else 0)"

lemma peval_sum: "peval cs x = (\<Sum>i<length cs. cs ! i * x ^ i)"
proof (induction cs)
  case Nil
  then show ?case by simp
next
  case (Cons c cs)
  have "(\<Sum>i<Suc (length cs). (c # cs) ! i * x ^ i) = c + (\<Sum>i<length cs. cs ! i * x ^ Suc i)"
    by (simp add: sum.lessThan_Suc_shift del: sum.lessThan_Suc)
  also have "\<dots> = c + x * (\<Sum>i<length cs. cs ! i * x ^ i)"
    by (simp add: sum_distrib_left ac_simps)
  finally show ?case by (simp add: Cons.IH)
qed

lemma peval_cf: "length cs \<le> n \<Longrightarrow> peval cs x = (\<Sum>i<n. cf cs i * x ^ i)"
proof -
  assume "length cs \<le> n"
  then have "(\<Sum>i<n. cf cs i * x ^ i) = (\<Sum>i<length cs. cf cs i * x ^ i)"
    by (intro sum.mono_neutral_right) (auto simp: cf_def)
  then show ?thesis by (simp add: peval_sum cf_def)
qed

lemma peval_append: "peval (xs @ ys) x = peval xs x + x ^ length xs * peval ys x"
  by (induction xs) (simp_all add: algebra_simps)

lemma peval_replicate_0 [simp]: "peval (replicate n 0) x = 0"
  by (induction n) simp_all

lemma cf_nth [simp]: "i < length cs \<Longrightarrow> cf cs i = cs ! i"
  by (simp add: cf_def)

lemma cf_beyond [simp]: "length cs \<le> i \<Longrightarrow> cf cs i = 0"
  by (simp add: cf_def)

lemma cf_replicate_0 [simp]: "cf (replicate n 0) i = 0"
  by (simp add: cf_def)

lemma cf_append: "cf (xs @ ys) i = (if i < length xs then xs ! i else cf ys (i - length xs))"
  by (auto simp: cf_def nth_append)

lemma peval_eqI: "(\<And>i. cf p i = cf q i) \<Longrightarrow> peval p x = peval q x"
  using peval_cf [of p "max (length p) (length q)"] peval_cf [of q "max (length p) (length q)"]
  by simp

subsection \<open>Roots\<close>

text \<open>Synthetic division: a root splits off a linear factor and shortens the vector by one.\<close>

lemma peval_root_factor:
  "cs \<noteq> [] \<Longrightarrow> peval cs a = 0 \<Longrightarrow>
    \<exists>ds. length ds = length cs - 1 \<and> (\<forall>x. peval cs x = (x - a) * peval ds x)"
proof -
  have gen: "\<exists>ds. length ds = length cs - 1 \<and> (\<forall>x. peval cs x = peval cs a + (x - a) * peval ds x)"
    if "cs \<noteq> []" for cs
    using that
  proof (induction cs)
    case Nil
    then show ?case by simp
  next
    case (Cons c cs)
    show ?case
    proof (cases "cs = []")
      case True
      then show ?thesis by (intro exI [of _ "[]"]) simp
    next
      case False
      with Cons.IH obtain ds where ds: "length ds = length cs - 1"
        "\<And>x. peval cs x = peval cs a + (x - a) * peval ds x" by blast
      show ?thesis
      proof (intro exI conjI allI)
        show "length (peval cs a # ds) = length (c # cs) - 1" using ds(1) False by (cases cs) simp_all
        fix x
        have "peval (c # cs) x = c + x * (peval cs a + (x - a) * peval ds x)"
          unfolding peval.simps by (subst ds(2)) (rule refl)
        also have "\<dots> = peval (c # cs) a + (x - a) * peval (peval cs a # ds) x"
          by (simp add: algebra_simps)
        finally show "peval (c # cs) x = peval (c # cs) a + (x - a) * peval (peval cs a # ds) x" .
      qed
    qed
  qed
  assume "cs \<noteq> []" "peval cs a = 0"
  with gen [of cs] show ?thesis by simp
qed

text \<open>A vector with as many distinct roots as coefficients is zero everywhere.\<close>

lemma peval_roots_zero:
  fixes cs :: "'a::field list"
  assumes "distinct xs" and "length cs \<le> length xs" and "\<And>x. x \<in> set xs \<Longrightarrow> peval cs x = 0"
  shows "peval cs x = 0"
  using assms
proof (induction xs arbitrary: cs x)
  case Nil
  then show ?case by simp
next
  case (Cons a xs)
  show ?case
  proof (cases "cs = []")
    case True
    then show ?thesis by simp
  next
    case False
    then obtain ds where ds: "length ds = length cs - 1" "\<And>x. peval cs x = (x - a) * peval ds x"
      using peval_root_factor [of cs a] Cons.prems(3) [of a] by auto
    have "peval ds y = 0" if "y \<in> set xs" for y
      using ds(2) [of y] Cons.prems(1,3) that by auto
    then have "peval ds x = 0"
      using Cons.IH [of ds x] Cons.prems(1,2) ds(1) False by simp
    then show ?thesis using ds(2) [of x] by simp
  qed
qed

lemma peval_diff:
  "peval (map (\<lambda>i. cf p i - cf q i) [0..<max (length p) (length q)]) x = peval p x - peval q x"
  using peval_cf [of p "max (length p) (length q)" x] peval_cf [of q "max (length p) (length q)" x]
  by (simp add: peval_sum sum_subtractf algebra_simps)

lemma peval_unique:
  fixes p q :: "'a::field list"
  assumes "distinct xs" "length p \<le> length xs" "length q \<le> length xs"
    and "\<And>x. x \<in> set xs \<Longrightarrow> peval p x = peval q x"
  shows "peval p x = peval q x"
proof -
  have "peval (map (\<lambda>i. cf p i - cf q i) [0..<max (length p) (length q)]) x = 0"
    by (rule peval_roots_zero [OF assms(1)]) (use assms in \<open>simp_all add: peval_diff\<close>)
  then show ?thesis by (simp add: peval_diff)
qed

section \<open>The class Polynomial\<close>

definition Poly_Create :: "'a::zero list \<Rightarrow> 'a list" where
  "Poly_Create coefficients =
     (let c = rev (dropWhile (\<lambda>x. x = 0) (rev coefficients))
      in if length c = 0 then [0] else c)"

definition Poly_default :: "'a::zero list" where
  "Poly_default = replicate 1 0"

definition Poly_constant :: "'a \<Rightarrow> 'a list" where
  "Poly_constant constant = [constant]"

definition Poly_Evaluate :: "'a::comm_ring_1 list \<Rightarrow> 'a \<Rightarrow> 'a res" where
  "Poly_Evaluate cs x =
     (case rev cs of [] \<Rightarrow> Inl Undefined | y # it \<Rightarrow> Inr (fold (\<lambda>c y. c + y * x) it y))"

text \<open>\<open>Degree\<close> is \<open>Size() - 1\<close> in \<open>std::size_t\<close>.\<close>

definition Degree :: "'a list \<Rightarrow> nat" where
  "Degree cs = (if cs = [] then 2 ^ 64 - 1 else length cs - 1)"

definition ConstantTerm :: "'a list \<Rightarrow> 'a res" where
  "ConstantTerm cs = vget cs 0"

definition LeadingTerm :: "'a list \<Rightarrow> 'a res" where
  "LeadingTerm cs = vget cs (Degree cs)"

definition IsZero :: "'a::zero list \<Rightarrow> bool" where
  "IsZero cs \<longleftrightarrow> Degree cs = 0 \<and> cs ! 0 = 0"

definition Pad :: "'a::zero list \<Rightarrow> nat \<Rightarrow> 'a list" where
  "Pad p n = map (\<lambda>i. if i \<le> Degree p then p ! i else 0) [0..<n]"

definition Poly_Add :: "'a::comm_ring_1 list \<Rightarrow> 'a list \<Rightarrow> 'a list" where
  "Poly_Add p q =
     (let this_larger = Degree p > Degree q;
          n = (if this_larger then Degree p else Degree q) + 1
      in Poly_Create (map2 (+) (Pad p n) (Pad q n)))"

definition Poly_Subtract :: "'a::comm_ring_1 list \<Rightarrow> 'a list \<Rightarrow> 'a list" where
  "Poly_Subtract p q =
     (let this_larger = Degree p > Degree q;
          n = (if this_larger then Degree p else Degree q) + 1
      in Poly_Create (map2 (-) (Pad p n) (Pad q n)))"

definition Poly_Multiply :: "'a::comm_ring_1 list \<Rightarrow> 'a list \<Rightarrow> 'a list" where
  "Poly_Multiply p q = Poly_Create
     (fold (\<lambda>i c. fold (\<lambda>j c. c[i + j := c ! (i + j) + p ! i * q ! j]) [0..<Degree q + 1] c)
       [0..<Degree p + 1] (replicate (Degree p + Degree q + 1) 0))"

definition DivideLeadingTerms :: "'a::field list \<Rightarrow> 'a list \<Rightarrow> 'a list res" where
  "DivideLeadingTerms p q =
     (let deg_out = Degree p - Degree q; c = replicate (deg_out + 1) 0
      in bindE (LeadingTerm p) (\<lambda>lp. bindE (LeadingTerm q) (\<lambda>lq. bindE (divE lp lq) (\<lambda>l.
           Inr (Poly_Create (c[deg_out := l]))))))"

text \<open>The long-division loop, as a partial function: not returning would be the value \<open>None\<close>.\<close>

partial_function (option) Divide_loop ::
  "'a::field list \<Rightarrow> 'a list \<Rightarrow> 'a list \<Rightarrow> ('a list \<times> 'a list) res option" where
  [code]: "Divide_loop d q r =
     (if \<not> IsZero r \<and> Degree r \<ge> Degree d
      then (case DivideLeadingTerms r d of
              Inl e \<Rightarrow> Some (Inl e)
            | Inr t \<Rightarrow> Divide_loop d (Poly_Add q t) (Poly_Subtract r (Poly_Multiply t d)))
      else Some (Inr (q, r)))"

definition Poly_Divide :: "'a::field list \<Rightarrow> 'a list \<Rightarrow> ('a list \<times> 'a list) res option" where
  "Poly_Divide p d =
     (if IsZero d then Some (Inl (Invalid_argument ''division by 0''))
      else Divide_loop d Poly_default p)"

subsection \<open>Trimmed vectors\<close>

definition trimmed :: "'a::zero list \<Rightarrow> bool" where
  "trimmed cs \<longleftrightarrow> cs \<noteq> [] \<and> (1 < length cs \<longrightarrow> last cs \<noteq> 0)"

lemma strip_zeros:
  obtains n where "cs = rev (dropWhile (\<lambda>x. x = 0) (rev cs)) @ replicate n (0::'a::zero)"
proof -
  let ?z = "takeWhile (\<lambda>x. x = 0) (rev cs)"
  have "rev cs = ?z @ dropWhile (\<lambda>x. x = 0) (rev cs)" by simp
  then have "cs = rev (dropWhile (\<lambda>x. x = 0) (rev cs)) @ rev ?z" by (metis rev_append rev_rev_ident)
  moreover have "\<forall>x \<in> set ?z. x = 0" by (metis set_takeWhileD)
  then have "rev ?z = replicate (length ?z) 0" by (intro replicate_eqI [symmetric, THEN sym]) auto
  ultimately show ?thesis using that by metis
qed

lemma trimmed_Create [simp]: "trimmed (Poly_Create cs)"
proof -
  have "last (rev (dropWhile (\<lambda>x. x = 0) (rev cs))) \<noteq> 0" if "dropWhile (\<lambda>x. x = 0) (rev cs) \<noteq> []"
    using that hd_dropWhile [of "\<lambda>x. x = 0" "rev cs"] by (simp add: last_rev)
  then show ?thesis by (auto simp: trimmed_def Poly_Create_def Let_def)
qed

lemma cf_Create [simp]: "cf (Poly_Create cs) i = cf cs i"
proof -
  define c where "c = rev (dropWhile (\<lambda>x. x = 0) (rev cs))"
  obtain n where "cs = c @ replicate n 0" unfolding c_def by (rule strip_zeros)
  then have "cf cs i = cf c i" by (simp add: cf_def nth_append)
  moreover have "cf (Poly_Create cs) i = cf c i"
    unfolding Poly_Create_def Let_def c_def [symmetric] by (cases i) (auto simp: cf_def)
  ultimately show ?thesis by simp
qed

lemma peval_Create [simp]: "peval (Poly_Create cs) x = peval cs x"
  by (rule peval_eqI) simp

lemma length_Create: "length (Poly_Create cs) \<le> max 1 (length cs)"
  using length_dropWhile_le [of "\<lambda>x. x = 0" "rev cs"] by (auto simp: Poly_Create_def Let_def)

text \<open>The length of a trimmed vector is determined by where its coefficients vanish.\<close>

lemma length_Create_le:
  assumes "\<And>i. n \<le> i \<Longrightarrow> cf cs i = 0"
  shows "length (Poly_Create cs) \<le> max 1 n"
proof (rule ccontr)
  assume "\<not> ?thesis"
  then have l: "1 < length (Poly_Create cs)" "n \<le> length (Poly_Create cs) - 1" by auto
  define c where "c = Poly_Create cs"
  from l have "last c = cf c (length c - 1)"
    unfolding c_def [symmetric] by (subst last_conv_nth) (auto simp: cf_def)
  also have "\<dots> = 0" using assms l(2) by (simp only: cf_Create c_def)
  finally show False using l(1) trimmed_Create [of cs] by (simp add: trimmed_def c_def)
qed

lemma Degree_nonempty: "cs \<noteq> [] \<Longrightarrow> Degree cs = length cs - 1"
  by (simp add: Degree_def)

lemma trimmed_nonempty: "trimmed cs \<Longrightarrow> cs \<noteq> []"
  by (simp add: trimmed_def)

lemma IsZero_iff: "cs \<noteq> [] \<Longrightarrow> IsZero cs \<longleftrightarrow> cs = [0]"
  by (cases cs) (auto simp: IsZero_def Degree_def)

subsection \<open>Meaning of the operations\<close>

theorem Poly_Evaluate_correct: "cs \<noteq> [] \<Longrightarrow> Poly_Evaluate cs x = Inr (peval cs x)"
proof -
  assume "cs \<noteq> []"
  then obtain ds c where cs: "cs = ds @ [c]" by (cases cs rule: rev_cases) auto
  have "fold (\<lambda>c y. c + y * x) (rev ds) c = peval (ds @ [c]) x"
    by (induction ds) (simp_all add: mult.commute)
  then show ?thesis by (simp add: Poly_Evaluate_def cs)
qed

lemma cf_Pad: "p \<noteq> [] \<Longrightarrow> length p \<le> n \<Longrightarrow> cf (Pad p n) i = cf p i"
  by (cases p) (auto simp: cf_def Pad_def Degree_nonempty)

lemma length_Pad [simp]: "length (Pad p n) = n"
  by (simp add: Pad_def)

lemma cf_map2: "length xs = length ys \<Longrightarrow> f 0 0 = 0 \<Longrightarrow> cf (map2 f xs ys) i = f (cf xs i) (cf ys i)"
  by (simp add: cf_def)

lemma pad_degree:
  "p \<noteq> [] \<Longrightarrow> q \<noteq> [] \<Longrightarrow>
    (if Degree p > Degree q then Degree p else Degree q) + 1 = max (length p) (length q)"
  by (cases p; cases q) (simp_all add: Degree_def)

lemma cf_Add: "p \<noteq> [] \<Longrightarrow> q \<noteq> [] \<Longrightarrow> cf (Poly_Add p q) i = cf p i + cf q i"
  unfolding Poly_Add_def Let_def pad_degree by (simp add: cf_map2 cf_Pad)

lemma cf_Subtract: "p \<noteq> [] \<Longrightarrow> q \<noteq> [] \<Longrightarrow> cf (Poly_Subtract p q) i = cf p i - cf q i"
  unfolding Poly_Subtract_def Let_def pad_degree by (simp add: cf_map2 cf_Pad)

lemma trimmed_ops [simp]:
  "trimmed (Poly_Add p q)" "trimmed (Poly_Subtract p q)" "trimmed (Poly_Multiply p q)"
  "trimmed Poly_default"
  by (simp_all add: Poly_Add_def Poly_Subtract_def Poly_Multiply_def Let_def)
    (simp add: trimmed_def Poly_default_def)

lemma peval_Add: "p \<noteq> [] \<Longrightarrow> q \<noteq> [] \<Longrightarrow> peval (Poly_Add p q) x = peval p x + peval q x"
proof -
  assume ne: "p \<noteq> []" "q \<noteq> []"
  let ?n = "max (length (Poly_Add p q)) (max (length p) (length q))"
  have "peval (Poly_Add p q) x = (\<Sum>i<?n. cf (Poly_Add p q) i * x ^ i)" by (rule peval_cf) simp
  also have "\<dots> = (\<Sum>i<?n. cf p i * x ^ i) + (\<Sum>i<?n. cf q i * x ^ i)"
    by (simp add: cf_Add ne distrib_right sum.distrib)
  also have "\<dots> = peval p x + peval q x" by (simp add: peval_cf [of p ?n] peval_cf [of q ?n])
  finally show ?thesis .
qed

lemma peval_Subtract: "p \<noteq> [] \<Longrightarrow> q \<noteq> [] \<Longrightarrow> peval (Poly_Subtract p q) x = peval p x - peval q x"
proof -
  assume ne: "p \<noteq> []" "q \<noteq> []"
  let ?n = "max (length (Poly_Subtract p q)) (max (length p) (length q))"
  have "peval (Poly_Subtract p q) x = (\<Sum>i<?n. cf (Poly_Subtract p q) i * x ^ i)"
    by (rule peval_cf) simp
  also have "\<dots> = (\<Sum>i<?n. cf p i * x ^ i) - (\<Sum>i<?n. cf q i * x ^ i)"
    by (simp add: cf_Subtract ne left_diff_distrib sum_subtractf)
  also have "\<dots> = peval p x - peval q x" by (simp add: peval_cf [of p ?n] peval_cf [of q ?n])
  finally show ?thesis .
qed

subsection \<open>Multiplication\<close>

lemma cf_update: "k < length c \<Longrightarrow> cf (c[k := c ! k + d]) m = cf c m + (if m = k then d else (0::'a::comm_ring_1))"
  by (auto simp: cf_def)

lemma length_fold_update:
  "length (fold (\<lambda>j c. c[g j := c ! (g j) + f j]) js c) = length c"
  by (induction js arbitrary: c) simp_all

lemma cf_inner:
  fixes c :: "'a::comm_ring_1 list"
  shows "i + m \<le> length c \<Longrightarrow>
    cf (fold (\<lambda>j c. c[i + j := c ! (i + j) + a * q ! j]) [0..<m] c) k
      = cf c k + (if i \<le> k \<and> k < i + m then a * q ! (k - i) else 0)"
proof (induction m)
  case 0
  then show ?case by auto
next
  case (Suc m)
  let ?c = "fold (\<lambda>j c. c[i + j := c ! (i + j) + a * q ! j]) [0..<m] c"
  have "i + m < length ?c" using Suc.prems by (simp add: length_fold_update)
  then have "cf (fold (\<lambda>j c. c[i + j := c ! (i + j) + a * q ! j]) [0..<Suc m] c) k
      = cf ?c k + (if k = i + m then a * q ! m else 0)"
    by (simp add: cf_update)
  also have "\<dots> = cf c k + (if i \<le> k \<and> k < i + Suc m then a * q ! (k - i) else 0)"
    using Suc by auto
  finally show ?case .
qed

lemma length_outer:
  "length (fold (\<lambda>i c. fold (\<lambda>j c. c[i + j := c ! (i + j) + p ! i * q ! j]) [0..<m] c) is c) = length c"
  by (induction "is" arbitrary: c) (simp_all add: length_fold_update)

lemma cf_outer:
  fixes c :: "'a::comm_ring_1 list"
  shows "n + m \<le> Suc (length c) \<Longrightarrow>
    cf (fold (\<lambda>i c. fold (\<lambda>j c. c[i + j := c ! (i + j) + p ! i * q ! j]) [0..<m] c) [0..<n] c) k
      = cf c k + (\<Sum>i<n. if i \<le> k \<and> k < i + m then p ! i * q ! (k - i) else 0)"
  by (induction n) (simp_all add: cf_inner length_outer add.assoc)

lemma cf_Multiply:
  assumes "p \<noteq> []" "q \<noteq> []"
  shows "cf (Poly_Multiply p q) k = (\<Sum>i<length p. if i \<le> k then p ! i * cf q (k - i) else 0)"
proof -
  have d: "Degree p + 1 = length p" "Degree q + 1 = length q"
    using assms by (simp_all add: Degree_nonempty)
  have "length p + length q \<le> Suc (length (replicate (Degree p + length q) 0))"
    using d by simp
  moreover have "(if i \<le> k \<and> k < i + length q then p ! i * q ! (k - i) else 0)
      = (if i \<le> k then p ! i * cf q (k - i) else 0)" for i
    by (auto simp: cf_def)
  ultimately show ?thesis
    unfolding Poly_Multiply_def cf_Create add.assoc d by (simp add: cf_outer)
qed

lemma length_Multiply:
  "p \<noteq> [] \<Longrightarrow> q \<noteq> [] \<Longrightarrow> length (Poly_Multiply p q) \<le> length p + length q - 1"
  unfolding Poly_Multiply_def
  by (rule order_trans [OF length_Create])
    (simp add: length_outer Degree_nonempty Suc_leI del: fold_simps upt_Suc, cases p; simp)

lemma peval_Multiply:
  assumes "p \<noteq> []" "q \<noteq> []"
  shows "peval (Poly_Multiply p q) x = peval p x * peval q x"
proof -
  let ?N = "length p + length q"
  have shift: "(\<Sum>k<?N. (if i \<le> k then p ! i * cf q (k - i) else 0) * x ^ k)
      = p ! i * x ^ i * peval q x" if "i < length p" for i
  proof -
    have "(\<Sum>k<?N. (if i \<le> k then p ! i * cf q (k - i) else 0) * x ^ k)
        = (\<Sum>k\<in>{i..<i + (?N - i)}. p ! i * cf q (k - i) * x ^ k)"
      using that by (intro sum.mono_neutral_cong_right) auto
    also have "\<dots> = (\<Sum>k<?N - i. p ! i * cf q k * x ^ (k + i))"
      using sum.shift_bounds_nat_ivl [of "\<lambda>k. p ! i * cf q (k - i) * x ^ k" 0 i "?N - i"]
      by (simp add: lessThan_atLeast0 add.commute)
    also have "\<dots> = p ! i * x ^ i * (\<Sum>k<?N - i. cf q k * x ^ k)"
      by (simp add: sum_distrib_left power_add ac_simps)
    also have "(\<Sum>k<?N - i. cf q k * x ^ k) = peval q x"
      using that by (intro peval_cf [symmetric]) simp
    finally show ?thesis .
  qed
  have "peval (Poly_Multiply p q) x = (\<Sum>k<?N. cf (Poly_Multiply p q) k * x ^ k)"
    using length_Multiply [OF assms] by (intro peval_cf) simp
  also have "\<dots> = (\<Sum>i<length p. \<Sum>k<?N. (if i \<le> k then p ! i * cf q (k - i) else 0) * x ^ k)"
    by (simp add: cf_Multiply assms sum_distrib_right sum.swap [of _ "{..<length p}"])
  also have "\<dots> = peval p x * peval q x"
    by (simp add: shift peval_sum [of p] sum_distrib_right)
  finally show ?thesis .
qed

subsection \<open>Long division\<close>

lemma cf_Multiply_atMost:
  assumes "p \<noteq> []" "q \<noteq> []"
  shows "cf (Poly_Multiply p q) k = (\<Sum>i\<le>k. cf p i * cf q (k - i))"
proof -
  have "(\<Sum>i<length p. if i \<le> k then p ! i * cf q (k - i) else 0)
      = (\<Sum>i\<in>{..<length p} \<inter> {..k}. cf p i * cf q (k - i))"
    by (rule sum.mono_neutral_cong_right) auto
  also have "\<dots> = (\<Sum>i\<le>k. cf p i * cf q (k - i))"
    by (rule sum.mono_neutral_left) (auto simp: cf_def split: if_splits)
  finally show ?thesis by (simp add: cf_Multiply assms)
qed

lemma trimmed_eqI:
  assumes "trimmed p" "trimmed q" "\<And>k. cf p k = cf q k"
  shows "p = q"
proof -
  have le: "length p \<le> length q" if "trimmed p" "trimmed q" "\<And>k. cf p k = cf q k" for p q :: "'a list"
  proof (rule ccontr)
    assume "\<not> ?thesis"
    with that have "1 < length p" "length q \<le> length p - 1" "p \<noteq> []"
      by (cases q; simp add: trimmed_def)+
    then have "last p = cf q (length p - 1)" using that(3) [of "length p - 1"] by (simp add: last_conv_nth)
    with \<open>length q \<le> length p - 1\<close> \<open>1 < length p\<close> that(1) show False by (simp add: trimmed_def)
  qed
  have "length p = length q" using le [of p q] le [of q p] assms by auto
  then show ?thesis using assms(3) by (intro nth_equalityI) (simp_all flip: cf_nth)
qed

lemma trimmed_leading:
  "trimmed p \<Longrightarrow> p \<noteq> [0] \<Longrightarrow> LeadingTerm p = Inr (cf p (Degree p)) \<and> cf p (Degree p) \<noteq> 0"
  by (cases p rule: rev_cases)
    (auto simp: trimmed_def LeadingTerm_def Degree_def cf_def nth_append split: if_splits)

lemma DivideLeadingTerms_cf:
  assumes "trimmed p" "p \<noteq> [0]" "trimmed q" "q \<noteq> [0]"
  obtains t where "DivideLeadingTerms p q = Inr t" "trimmed t"
    "\<And>i. cf t i = (if i = Degree p - Degree q then cf p (Degree p) / cf q (Degree q) else 0)"
proof
  let ?c = "(replicate (Degree p - Degree q + 1) 0)[Degree p - Degree q := cf p (Degree p) / cf q (Degree q)]"
  show "DivideLeadingTerms p q = Inr (Poly_Create ?c)"
    using trimmed_leading [of p] trimmed_leading [of q] assms
    by (simp add: DivideLeadingTerms_def Let_def divE_def invE_def divide_inverse)
  show "cf (Poly_Create ?c) i
      = (if i = Degree p - Degree q then cf p (Degree p) / cf q (Degree q) else 0)" for i
    unfolding cf_Create
    by (cases "i < Degree p - Degree q + 1")
      (simp_all add: cf_def [of "_[_ := _]"] nth_list_update del: replicate_Suc)
qed simp

text \<open>One round cancels the leading coefficient of the remainder and keeps the identity.\<close>

lemma Divide_round:
  assumes r: "trimmed r" "r \<noteq> [0]" and d: "trimmed d" "d \<noteq> [0]" and deg: "Degree d \<le> Degree r"
    and t: "DivideLeadingTerms r d = Inr t" and q: "q \<noteq> []"
  defines "r' \<equiv> Poly_Subtract r (Poly_Multiply t d)"
  shows "cf (Poly_Multiply (Poly_Add q t) d) k + cf r' k = cf (Poly_Multiply q d) k + cf r k"
    and "r' = [0] \<or> length r' < length r"
proof -
  obtain t' where t': "DivideLeadingTerms r d = Inr t'" "trimmed t'" "\<And>i. cf t' i =
      (if i = Degree r - Degree d then cf r (Degree r) / cf d (Degree d) else 0)"
    using DivideLeadingTerms_cf [OF r d] by blast
  with t have t_eq [simp]: "t' = t" by simp
  note ne [simp] = t'(2) [THEN trimmed_nonempty, unfolded t_eq] r(1) [THEN trimmed_nonempty]
    d(1) [THEN trimmed_nonempty] trimmed_ops [THEN trimmed_nonempty]
  show "cf (Poly_Multiply (Poly_Add q t) d) k + cf r' k = cf (Poly_Multiply q d) k + cf r k"
    by (simp add: r'_def cf_Subtract cf_Multiply_atMost cf_Add q distrib_right sum.distrib)
  let ?d = "Degree r - Degree d"
  have prod: "cf (Poly_Multiply t d) k
      = (if ?d \<le> k then cf r (Degree r) / cf d (Degree d) * cf d (k - ?d) else 0)" for k
    using t'(3) by (simp add: cf_Multiply_atMost if_distrib [of "\<lambda>x. x * _"] cong: if_cong)
  have z: "cf r' k = 0" if "Degree r \<le> k" for k
  proof (cases "k = Degree r")
    case True
    then show ?thesis using deg trimmed_leading [OF d] by (simp add: r'_def cf_Subtract prod)
  next
    case False
    with that deg have "length r \<le> k" "length d \<le> k - ?d" by (auto simp: Degree_nonempty)
    then show ?thesis by (simp add: r'_def cf_Subtract prod)
  qed
  have "trimmed r'" by (simp add: r'_def)
  then have "Poly_Create r' = r'" by (intro trimmed_eqI) simp_all
  with length_Create_le [of "Degree r" r'] z have l: "length r' \<le> max 1 (Degree r)" by simp
  show "r' = [0] \<or> length r' < length r"
  proof (cases "Degree r = 0")
    case True
    then have "r' = [0]" using z \<open>trimmed r'\<close> by (intro trimmed_eqI) (auto simp: trimmed_def cf_def)
    then show ?thesis ..
  next
    case False
    then have "max 1 (Degree r) < length r" by (cases r) (auto simp: Degree_def)
    with l show ?thesis by linarith
  qed
qed

lemma Divide_loop_correct:
  assumes "trimmed d" "d \<noteq> [0]" "trimmed r" "trimmed q"
  shows "\<exists>q' r'. Divide_loop d q r = Some (Inr (q', r')) \<and> trimmed q' \<and> trimmed r'
    \<and> (r' = [0] \<or> Degree r' < Degree d)
    \<and> (\<forall>k. cf (Poly_Multiply q' d) k + cf r' k = cf (Poly_Multiply q d) k + cf r k)"
  using assms(3,4)
proof (induction "if r = [0] then 0 else length r" arbitrary: q r rule: less_induct)
  case less
  have ne: "r \<noteq> []" using less.prems by (simp add: trimmed_def)
  show ?case
  proof (cases "\<not> IsZero r \<and> Degree d \<le> Degree r")
    case False
    then show ?thesis using less.prems ne
      by (subst Divide_loop.simps) (auto simp: IsZero_iff not_le)
  next
    case True
    then have r: "r \<noteq> [0]" using ne by (simp add: IsZero_iff)
    obtain t where t: "DivideLeadingTerms r d = Inr t"
      using DivideLeadingTerms_cf [OF less.prems(1) r assms(1,2)] by blast
    let ?r = "Poly_Subtract r (Poly_Multiply t d)" and ?q = "Poly_Add q t"
    note round = Divide_round [OF less.prems(1) r assms(1,2) True [THEN conjunct2] t
        less.prems(2) [THEN trimmed_nonempty]]
    have "(if ?r = [0] then 0 else length ?r) < (if r = [0] then 0 else length r)"
      using round(2) r ne by auto
    from less.hyps [OF this trimmed_ops(2) trimmed_ops(1) [of q t]] obtain q' r' where IH: "Divide_loop d ?q ?r = Some (Inr (q', r'))"
      "trimmed q'" "trimmed r'" "r' = [0] \<or> Degree r' < Degree d"
      "\<And>k. cf (Poly_Multiply q' d) k + cf r' k = cf (Poly_Multiply ?q d) k + cf ?r k" by auto
    have "Divide_loop d q r = Divide_loop d ?q ?r"
      using True t by (subst Divide_loop.simps) simp
    then show ?thesis using IH round(1) by auto
  qed
qed

lemma Poly_Divide_total:
  assumes "trimmed p" "trimmed d" "d \<noteq> [0]"
  shows "\<exists>q r. Poly_Divide p d = Some (Inr (q, r)) \<and> Poly_Add (Poly_Multiply q d) r = p
    \<and> trimmed q \<and> trimmed r \<and> (r = [0] \<or> Degree r < Degree d)"
proof -
  from Divide_loop_correct [OF assms(2,3,1) trimmed_ops(4)] obtain q r where
    *: "Divide_loop d Poly_default p = Some (Inr (q, r))" "trimmed q" "trimmed r"
    "r = [0] \<or> Degree r < Degree d"
    "\<And>k. cf (Poly_Multiply q d) k + cf r k = cf (Poly_Multiply Poly_default d) k + cf p k" by auto
  note ne = assms(1,2) [THEN trimmed_nonempty] *(2,3) [THEN trimmed_nonempty]
    trimmed_ops [THEN trimmed_nonempty]
  have "cf Poly_default k = (0 :: 'a)" for k by (simp add: Poly_default_def del: replicate_Suc)
  then have "cf (Poly_Multiply Poly_default d) k = 0" for k
    by (subst cf_Multiply_atMost) (simp_all add: ne)
  with *(5) have "Poly_Add (Poly_Multiply q d) r = p"
    by (intro trimmed_eqI) (simp_all add: assms cf_Add ne)
  moreover have "Poly_Divide p d = Divide_loop d Poly_default p"
    using assms ne by (simp add: Poly_Divide_def IsZero_iff)
  ultimately show ?thesis using * by auto
qed

section \<open>Properties\<close>

text \<open>
  C13: long division terminates and is exact: for vectors made by \<open>Create\<close> and a nonzero divisor the
  loop returns \<open>(q, r)\<close> with \<open>p = q * d + r\<close> and a remainder of smaller degree (or zero); a zero
  divisor throws.
\<close>

theorem Poly_Divide_correct:
  assumes "trimmed p" and "trimmed d"
  shows "if IsZero d then Poly_Divide p d = Some (Inl (Invalid_argument ''division by 0''))
    else \<exists>q r. Poly_Divide p d = Some (Inr (q, r)) \<and> Poly_Add (Poly_Multiply q d) r = p
      \<and> trimmed q \<and> trimmed r \<and> (IsZero r \<or> Degree r < Degree d)"
proof (cases "IsZero d")
  case True
  then show ?thesis by (simp add: Poly_Divide_def)
next
  case False
  then have "d \<noteq> [0]" using assms(2) by (auto simp: IsZero_def Degree_def)
  from Poly_Divide_total [OF assms this] False show ?thesis
    by (auto simp: IsZero_iff trimmed_nonempty)
qed

theorem Poly_Divide_correct_witness:
  "\<exists>q r. Poly_Divide [1, 0, 1] [1, 1] = Some (Inr (q, r))
    \<and> Poly_Add (Poly_Multiply q [1, 1]) r = ([1, 0, 1] :: ff61 list)"
  using Poly_Divide_correct [of "[1, 0, 1 :: ff61]" "[1, 1]"]
  by (auto simp: trimmed_def IsZero_def Degree_def)

text \<open>
  C24: addition, subtraction and multiplication of coefficient vectors are the operations on the
  polynomials they denote, and \<open>Evaluate\<close> (Horner's rule, from the leading coefficient) returns
  the value of the polynomial.
\<close>

theorem Poly_ring_ops:
  fixes p q :: "'a::field list"
  assumes "trimmed p" and "trimmed q"
  shows "Poly_Evaluate (Poly_Add p q) x = Inr (peval p x + peval q x)
    \<and> Poly_Evaluate (Poly_Subtract p q) x = Inr (peval p x - peval q x)
    \<and> Poly_Evaluate (Poly_Multiply p q) x = Inr (peval p x * peval q x)
    \<and> trimmed (Poly_Add p q) \<and> trimmed (Poly_Subtract p q) \<and> trimmed (Poly_Multiply p q)
    \<and> Degree (Poly_Multiply p q) \<le> Degree p + Degree q"
proof -
  note ne = assms [THEN trimmed_nonempty]
  note ne' = trimmed_ops [THEN trimmed_nonempty]
  have "Degree (Poly_Multiply p q) \<le> Degree p + Degree q"
    unfolding Degree_nonempty [OF ne'(3)] Degree_nonempty [OF ne(1)] Degree_nonempty [OF ne(2)]
    using length_Multiply [OF ne] ne by (cases p; cases q) simp_all
  then show ?thesis
    by (simp add: Poly_Evaluate_correct ne' peval_Add peval_Subtract peval_Multiply ne)
qed

theorem Poly_ring_ops_witness:
  "Poly_Evaluate (Poly_Multiply [1, 1] [2, 0, 1]) 2 = Inr (peval [1, 1] 2 * peval [2, 0, 1] (2 :: ff61))"
  using Poly_ring_ops [of "[1, 1 :: ff61]" "[2, 0, 1]" 2] by (simp add: trimmed_def)

end
