(* ===== verification/VecOps.thy ===== *)
theory VecOps
  imports FF61
begin

text \<open>
  The class template \<open>Vec<T>\<close> of \<open>scl/math/vec.h\<close>: entry-wise operations with their size checks,
  sums and scalings as the loops of the code, random vectors drawn from a PRG, and the byte image.
  A vector is its list of entries. What the serialisation needs of the element type \<open>T\<close> is the
  locale \<open>element_codec\<close>; the field \<open>FF<61>\<close> provides it.
\<close>

section \<open>Entry-wise operations\<close>

definition EnsureCompatible :: "'a list \<Rightarrow> 'b list \<Rightarrow> 'c res \<Rightarrow> 'c res" where
  "EnsureCompatible v other k =
     throw_if (length v \<noteq> length other) (Invalid_argument ''Vec sizes mismatch'') k"

definition Vec_Add :: "'a::comm_ring_1 list \<Rightarrow> 'a list \<Rightarrow> 'a list res" where
  "Vec_Add v other = EnsureCompatible v other
     (mapE (\<lambda>i. bindE (vget v i) (\<lambda>x. bindE (vget other i) (\<lambda>y. Inr (x + y)))) [0..<length v])"

definition Vec_Subtract :: "'a::comm_ring_1 list \<Rightarrow> 'a list \<Rightarrow> 'a list res" where
  "Vec_Subtract v other = EnsureCompatible v other
     (mapE (\<lambda>i. bindE (vget v i) (\<lambda>x. bindE (vget other i) (\<lambda>y. Inr (x - y)))) [0..<length v])"

definition Vec_MultiplyEntryWise :: "'a::comm_ring_1 list \<Rightarrow> 'a list \<Rightarrow> 'a list res" where
  "Vec_MultiplyEntryWise v other = EnsureCompatible v other
     (mapE (\<lambda>i. bindE (vget v i) (\<lambda>x. bindE (vget other i) (\<lambda>y. Inr (x * y)))) [0..<length v])"

text \<open>The in-place versions update the entries of \<open>this\<close> one after the other.\<close>

definition Vec_AddInPlace :: "'a::comm_ring_1 list \<Rightarrow> 'a list \<Rightarrow> 'a list res" where
  "Vec_AddInPlace v other = EnsureCompatible v other
     (foldE (\<lambda>i w. bindE (vget w i) (\<lambda>x. bindE (vget other i) (\<lambda>y. vset w i (x + y))))
       [0..<length v] v)"

definition Vec_SubtractInPlace :: "'a::comm_ring_1 list \<Rightarrow> 'a list \<Rightarrow> 'a list res" where
  "Vec_SubtractInPlace v other = EnsureCompatible v other
     (foldE (\<lambda>i w. bindE (vget w i) (\<lambda>x. bindE (vget other i) (\<lambda>y. vset w i (x - y))))
       [0..<length v] v)"

definition Vec_MultiplyEntryWiseInPlace :: "'a::comm_ring_1 list \<Rightarrow> 'a list \<Rightarrow> 'a list res" where
  "Vec_MultiplyEntryWiseInPlace v other = EnsureCompatible v other
     (foldE (\<lambda>i w. bindE (vget w i) (\<lambda>x. bindE (vget other i) (\<lambda>y. vset w i (x * y))))
       [0..<length v] v)"

definition Vec_Dot :: "'a::comm_ring_1 list \<Rightarrow> 'a list \<Rightarrow> 'a res" where
  "Vec_Dot v other = EnsureCompatible v other
     (foldE (\<lambda>i result. bindE (vget v i) (\<lambda>x. bindE (vget other i) (\<lambda>y. Inr (result + x * y))))
       [0..<length v] 0)"

definition Vec_Sum :: "'a::comm_ring_1 list \<Rightarrow> 'a" where
  "Vec_Sum vs = fold (\<lambda>v acc. acc + v) vs 0"

definition Vec_ScalarMultiply :: "'a::comm_ring_1 \<Rightarrow> 'a list \<Rightarrow> 'a list" where
  "Vec_ScalarMultiply scalar vs = fold (\<lambda>v r. r @ [scalar * v]) vs []"

definition Vec_Equals :: "'a list \<Rightarrow> 'a list \<Rightarrow> bool" where
  "Vec_Equals v other \<longleftrightarrow>
     (if length v \<noteq> length other then False
      else fold (\<lambda>i eq. eq \<and> v ! i = other ! i) [0..<length v] True)"

subsection \<open>What the loops compute\<close>

lemma mapE_entrywise:
  assumes "length v = length other"
  shows "mapE (\<lambda>i. bindE (vget v i) (\<lambda>x. bindE (vget other i) (\<lambda>y. Inr (f x y)))) [0..<length v]
    = Inr (map2 f v other)"
proof -
  have "mapE (\<lambda>i. bindE (vget v i) (\<lambda>x. bindE (vget other i) (\<lambda>y. Inr (f x y)))) [0..<length v]
      = Inr (map (\<lambda>i. f (v ! i) (other ! i)) [0..<length v])"
    using assms by (intro mapE_Inr) simp
  also have "map (\<lambda>i. f (v ! i) (other ! i)) [0..<length v] = map2 f v other"
    using assms by (intro nth_equalityI) auto
  finally show ?thesis .
qed

lemma foldE_entrywise:
  assumes "n \<le> length v" "length v = length other"
  shows "foldE (\<lambda>i w. bindE (vget w i) (\<lambda>x. bindE (vget other i) (\<lambda>y. vset w i (f x y)))) [0..<n] v
    = Inr (map2 f (take n v) (take n other) @ drop n v)"
  using assms
proof (induction n)
  case 0
  then show ?case by simp
next
  case (Suc n)
  let ?w = "map2 f (take n v) (take n other) @ drop n v"
  have l: "length ?w = length v" "n < length v" "n < length other" using Suc.prems by simp_all
  have n: "?w ! n = v ! n" using l by (simp add: nth_append)
  have "?w[n := f (v ! n) (other ! n)]
      = map2 f (take (Suc n) v) (take (Suc n) other) @ drop (Suc n) v"
    using l by (simp add: take_Suc_conv_app_nth list_update_append Cons_nth_drop_Suc [symmetric])
  with Suc l n show ?case by (simp add: foldE_append del: append_assoc)
qed

lemma Vec_ops_Inr:
  assumes "length v = length other"
  shows "Vec_Add v other = Inr (map2 (+) v other)"
    and "Vec_Subtract v other = Inr (map2 (-) v other)"
    and "Vec_MultiplyEntryWise v other = Inr (map2 (*) v other)"
  using mapE_entrywise [OF assms]
  by (simp_all add: Vec_Add_def Vec_Subtract_def Vec_MultiplyEntryWise_def EnsureCompatible_def assms)

lemma foldE_entrywise_all:
  assumes "length v = length other"
  shows "foldE (\<lambda>i w. bindE (vget w i) (\<lambda>x. bindE (vget other i) (\<lambda>y. vset w i (f x y))))
    [0..<length v] v = Inr (map2 f v other)"
  using foldE_entrywise [of "length v" v other f] assms by simp

lemma foldE_mapE_checked:
  "EnsureCompatible v other (foldE (\<lambda>i w. bindE (vget w i) (\<lambda>x. bindE (vget other i) (\<lambda>y. vset w i (f x y))))
    [0..<length v] v)
   = EnsureCompatible v other
      (mapE (\<lambda>i. bindE (vget v i) (\<lambda>x. bindE (vget other i) (\<lambda>y. Inr (f x y)))) [0..<length v])"
proof (cases "length v = length other")
  case True
  show ?thesis using foldE_entrywise_all [OF True, of f] mapE_entrywise [OF True, of f] by simp
next
  case False
  then show ?thesis by (simp add: EnsureCompatible_def)
qed

lemma Vec_inplace_eq:
  "Vec_AddInPlace v other = Vec_Add v other"
  "Vec_SubtractInPlace v other = Vec_Subtract v other"
  "Vec_MultiplyEntryWiseInPlace v other = Vec_MultiplyEntryWise v other"
  unfolding Vec_AddInPlace_def Vec_Add_def Vec_SubtractInPlace_def Vec_Subtract_def
    Vec_MultiplyEntryWiseInPlace_def Vec_MultiplyEntryWise_def
  by (rule foldE_mapE_checked)+

lemma fold_sum: "fold (\<lambda>v acc. acc + v) vs (a :: 'a::comm_ring_1) = a + sum_list vs"
  by (induction vs arbitrary: a) (simp_all add: ac_simps)

lemma Vec_Sum_eq: "Vec_Sum vs = sum_list vs"
  by (simp add: Vec_Sum_def fold_sum)

lemma fold_snoc: "fold (\<lambda>v r. r @ [f v]) vs rs = rs @ map f vs"
  by (induction vs arbitrary: rs) simp_all

lemma Vec_ScalarMultiply_eq: "Vec_ScalarMultiply scalar vs = map ((*) scalar) vs"
  by (simp add: Vec_ScalarMultiply_def fold_snoc)

lemma fold_eq_flag: "fold (\<lambda>i eq. eq \<and> P i) is b \<longleftrightarrow> b \<and> (\<forall>i \<in> set is. P i)"
  by (induction "is" arbitrary: b) auto

lemma Vec_Equals_iff: "Vec_Equals v other \<longleftrightarrow> v = other"
  by (simp only: Vec_Equals_def fold_eq_flag list_eq_iff_nth_eq set_upt) auto

lemma foldE_dot:
  assumes "length v = length other" "n \<le> length v"
  shows "foldE (\<lambda>i result. bindE (vget v i) (\<lambda>x. bindE (vget other i) (\<lambda>y. Inr (result + x * y)))) [0..<n] a
    = Inr (a + (\<Sum>i<n. v ! i * other ! i))"
  using assms by (induction n) (simp_all add: foldE_append add.assoc)

lemma Vec_Dot_Inr:
  "length v = length other \<Longrightarrow> Vec_Dot v other = Inr (\<Sum>i<length v. v ! i * other ! i)"
  by (simp add: Vec_Dot_def EnsureCompatible_def foldE_dot)

section \<open>Random vectors\<close>

text \<open>
  \<open>T::Random(prg)\<close> is a function \<open>rnd\<close> of the PRG state. The entries that satisfy the predicate
  are drawn in order; the others are default-initialised and leave the state alone.
\<close>

definition PartialRandom :: "('g \<Rightarrow> 'a::zero \<times> 'g) \<Rightarrow> nat \<Rightarrow> (nat \<Rightarrow> bool) \<Rightarrow> 'g \<Rightarrow> 'a list \<times> 'g" where
  "PartialRandom rnd n pred g =
     fold (\<lambda>i (v, g). if pred i then (case rnd g of (e, g') \<Rightarrow> (v @ [e], g')) else (v @ [0], g))
       [0..<n] ([], g)"

definition Vec_Random :: "('g \<Rightarrow> 'a::zero \<times> 'g) \<Rightarrow> nat \<Rightarrow> 'g \<Rightarrow> 'a list \<times> 'g" where
  "Vec_Random rnd n g = PartialRandom rnd n (\<lambda>_. True) g"

lemma PartialRandom_Suc:
  "PartialRandom rnd (Suc n) pred g = (case PartialRandom rnd n pred g of (v, g') \<Rightarrow>
     if pred n then (case rnd g' of (e, g'') \<Rightarrow> (v @ [e], g'')) else (v @ [0], g'))"
  by (simp add: PartialRandom_def)

lemma length_PartialRandom [simp]: "length (fst (PartialRandom rnd n pred g)) = n"
proof (induction n)
  case 0
  then show ?case by (simp add: PartialRandom_def)
next
  case (Suc n)
  then show ?case
    by (cases "PartialRandom rnd n pred g") (simp add: PartialRandom_Suc split: prod.splits)
qed

lemma PartialRandom_zero:
  "i < n \<Longrightarrow> \<not> pred i \<Longrightarrow> fst (PartialRandom rnd n pred g) ! i = 0"
proof (induction n)
  case (Suc n)
  obtain v g' where v: "PartialRandom rnd n pred g = (v, g')" by fastforce
  then have "length v = n" using length_PartialRandom [of rnd n pred g] by simp
  with Suc v show ?case
    by (cases "i = n") (auto simp: PartialRandom_Suc nth_append less_Suc_eq split: prod.splits)
qed simp

section \<open>Serialisation\<close>

definition Vec_ByteSize :: "nat \<Rightarrow> 'a list \<Rightarrow> nat" where
  "Vec_ByteSize bsz v = length v * bsz"

definition Vec_Write :: "('a \<Rightarrow> 8 word list) \<Rightarrow> 'a list \<Rightarrow> 8 word list" where
  "Vec_Write wr vs = fold (\<lambda>v dest. dest @ wr v) vs []"

primrec Vec_Read_loop :: "(8 word list \<Rightarrow> 'a res) \<Rightarrow> nat \<Rightarrow> nat \<Rightarrow> nat \<Rightarrow> 8 word list \<Rightarrow> 'a list res" where
  "Vec_Read_loop rd bsz 0 offset src = Inr []"
| "Vec_Read_loop rd bsz (Suc n) offset src =
     bindE (rd (drop offset src)) (\<lambda>e.
     bindE (Vec_Read_loop rd bsz n (offset + bsz) src) (\<lambda>r. Inr (e # r)))"

definition Vec_Read :: "(8 word list \<Rightarrow> 'a res) \<Rightarrow> nat \<Rightarrow> nat \<Rightarrow> 8 word list \<Rightarrow> 'a list res" where
  "Vec_Read rd bsz n src = Vec_Read_loop rd bsz n 0 src"

text \<open>
  What \<open>Vec\<close> relies on of its element type: \<open>Write\<close> writes \<open>ByteSize()\<close> bytes, from which \<open>Read\<close>
  restores the element whatever follows them.
\<close>

locale element_codec =
  fixes rd :: "8 word list \<Rightarrow> 'a res" and wr :: "'a \<Rightarrow> 8 word list" and bsz :: nat
  assumes write_size: "length (wr x) = bsz"
    and read_write: "rd (wr x @ rest) = Inr x"
begin

lemma Vec_Write_eq: "Vec_Write wr vs = concat (map wr vs)"
proof -
  have "fold (\<lambda>v dest. dest @ wr v) vs acc = acc @ concat (map wr vs)" for acc
    by (induction vs arbitrary: acc) simp_all
  then show ?thesis by (simp add: Vec_Write_def)
qed

lemma Vec_Write_length: "length (Vec_Write wr vs) = Vec_ByteSize bsz vs"
  by (induction vs) (simp_all add: Vec_Write_eq Vec_ByteSize_def write_size)

lemma Vec_Read_loop_concat:
  "length pre = offset \<Longrightarrow>
    Vec_Read_loop rd bsz (length vs) offset (pre @ concat (map wr vs) @ rest) = Inr vs"
proof (induction vs arbitrary: pre offset)
  case Nil
  then show ?case by simp
next
  case (Cons v vs)
  have "Vec_Read_loop rd bsz (length vs) (offset + bsz)
      ((pre @ wr v) @ concat (map wr vs) @ rest) = Inr vs"
    using Cons.prems by (intro Cons.IH) (simp add: write_size)
  then show ?case using Cons.prems by (simp add: read_write)
qed

lemma Vec_roundtrip: "Vec_Read rd bsz (length vs) (Vec_Write wr vs @ rest) = Inr vs"
  using Vec_Read_loop_concat [of "[]" 0 vs rest] by (simp add: Vec_Read_def Vec_Write_eq)

end

text \<open>The class \<open>FF<61>\<close> as an element type, over its canonical values.\<close>

definition ff61_Read :: "8 word list \<Rightarrow> ff61 res" where
  "ff61_Read src = map_sum id Abs_ff61 (FF61_Read src)"

definition ff61_Write :: "ff61 \<Rightarrow> 8 word list" where
  "ff61_Write x = FF61_Write (Rep_ff61 x)"

definition FF61_ByteSize :: nat where
  "FF61_ByteSize = 8"

lemma FromBytes61_append:
  "8 \<le> length bs \<Longrightarrow> FromBytes61 (bs @ rest) = FromBytes61 bs"
  by (simp add: FromBytes61_def)

interpretation ff61_codec: element_codec ff61_Read ff61_Write FF61_ByteSize
proof
  show w: "length (ff61_Write x) = FF61_ByteSize" for x
    by (simp add: ff61_Write_def FF61_Write_def ToBytes61_def FF61_ByteSize_def)
  show "ff61_Read (ff61_Write x @ rest) = Inr x" for x rest
    using w [of x] FromBytes61_ToBytes61 [OF Rep_ff61_less [of x]]
    by (simp add: ff61_Read_def FF61_Read_def ff61_Write_def FF61_Write_def FF61_ByteSize_def
        FromBytes61_append Rep_ff61_inverse)
qed

section \<open>Properties\<close>

text \<open>
  The bytes that \<open>Write\<close> produces for a vector over \<open>FF<61>\<close> are read back as that vector,
  whatever follows them in the buffer, and there are \<open>ByteSize()\<close> of them.
\<close>

theorem Vec_FF61_roundtrip:
  "Vec_Read ff61_Read FF61_ByteSize (length vs) (Vec_Write ff61_Write vs @ rest) = Inr vs
   \<and> length (Vec_Write ff61_Write vs) = Vec_ByteSize FF61_ByteSize vs"
  by (simp add: ff61_codec.Vec_roundtrip ff61_codec.Vec_Write_length)

text \<open>
  The entry-wise operations of \<open>Vec\<close> throw exactly on a size mismatch, compute the entry-wise
  results otherwise, and the in-place versions agree with them.
\<close>

theorem Vec_entrywise_ops:
  fixes v w :: "'a::comm_ring_1 list"
  shows "Vec_Add v w = (if length v = length w then Inr (map2 (+) v w)
       else Inl (Invalid_argument ''Vec sizes mismatch''))
   \<and> Vec_Subtract v w = (if length v = length w then Inr (map2 (-) v w)
       else Inl (Invalid_argument ''Vec sizes mismatch''))
   \<and> Vec_MultiplyEntryWise v w = (if length v = length w then Inr (map2 (*) v w)
       else Inl (Invalid_argument ''Vec sizes mismatch''))
   \<and> Vec_Dot v w = (if length v = length w then Inr (\<Sum>i<length v. v ! i * w ! i)
       else Inl (Invalid_argument ''Vec sizes mismatch''))
   \<and> Vec_AddInPlace v w = Vec_Add v w \<and> Vec_SubtractInPlace v w = Vec_Subtract v w
   \<and> Vec_MultiplyEntryWiseInPlace v w = Vec_MultiplyEntryWise v w"
proof -
  have "length v \<noteq> length w \<Longrightarrow> Vec_Add v w = Inl (Invalid_argument ''Vec sizes mismatch'')
      \<and> Vec_Subtract v w = Inl (Invalid_argument ''Vec sizes mismatch'')
      \<and> Vec_MultiplyEntryWise v w = Inl (Invalid_argument ''Vec sizes mismatch'')
      \<and> Vec_Dot v w = Inl (Invalid_argument ''Vec sizes mismatch'')"
    by (simp add: Vec_Add_def Vec_Subtract_def Vec_MultiplyEntryWise_def Vec_Dot_def EnsureCompatible_def)
  then show ?thesis by (simp add: Vec_ops_Inr Vec_Dot_Inr Vec_inplace_eq)
qed

end
