(* ===== verification/Interp.thy ===== *)
theory Interp
  imports Poly VecOps
begin

text \<open>
  Lagrange interpolation, which \<open>EvPolynomial::Evaluate\<close> and \<open>InterpolateAt\<close> both compute, and
  its specification: a function is in \<open>polyfun n\<close> when at most \<open>n\<close> coefficients represent it, and
  such a function is determined by its values at \<open>n\<close> distinct points.
\<close>

section \<open>Functions of bounded degree\<close>

definition polyfun :: "nat \<Rightarrow> ('a::field \<Rightarrow> 'a) \<Rightarrow> bool" where
  "polyfun n f \<longleftrightarrow> (\<exists>cs. length cs \<le> n \<and> (\<forall>x. f x = peval cs x))"

lemma polyfun_peval: "length cs \<le> n \<Longrightarrow> polyfun n (peval cs)"
  by (auto simp: polyfun_def)

lemma polyfun_mono: "polyfun n f \<Longrightarrow> n \<le> m \<Longrightarrow> polyfun m f"
  unfolding polyfun_def by (blast intro: order_trans)

lemma polyfun_const [intro]: "0 < n \<Longrightarrow> polyfun n (\<lambda>x. c)"
  unfolding polyfun_def by (rule exI [of _ "[c]"]) simp

lemma polyfun_scale: "polyfun n f \<Longrightarrow> polyfun n (\<lambda>x. c * f x)"
proof -
  have "peval (map ((*) c) cs) x = c * peval cs x" for cs x
    by (induction cs) (simp_all add: algebra_simps)
  moreover assume "polyfun n f"
  ultimately show ?thesis unfolding polyfun_def by (metis length_map)
qed

lemma polyfun_linear: "polyfun n f \<Longrightarrow> polyfun (Suc n) (\<lambda>x. (x - a) * f x)"
proof -
  assume "polyfun n f"
  then obtain cs where cs: "length cs \<le> n" "\<And>x. f x = peval cs x" by (auto simp: polyfun_def)
  have "peval (map (\<lambda>i. cf (0 # cs) i - cf (map ((*) a) cs) i)
      [0..<max (length (0 # cs)) (length (map ((*) a) cs))]) x = (x - a) * f x" for x
  proof -
    have "peval (map ((*) a) cs) x = a * peval cs x"
      by (induction cs) (simp_all add: algebra_simps)
    then show ?thesis unfolding peval_diff by (simp add: cs(2) algebra_simps)
  qed
  then show ?thesis unfolding polyfun_def using cs(1) by (metis (lifting) diff_zero length_Cons
        length_map length_upt max.absorb1 not_less_eq_eq le_SucI order_refl Suc_le_mono)
qed

lemma polyfun_add: "polyfun n f \<Longrightarrow> polyfun n g \<Longrightarrow> polyfun n (\<lambda>x. f x + g x)"
proof -
  assume "polyfun n f" "polyfun n g"
  then obtain p q where pq: "length p \<le> n" "\<And>x. f x = peval p x" "length q \<le> n" "\<And>x. g x = peval q x"
    by (auto simp: polyfun_def)
  have "peval (map (\<lambda>i. cf p i + cf q i) [0..<n]) x = f x + g x" for x
    using pq by (simp add: peval_sum [of "map _ _"] peval_cf [of p n] peval_cf [of q n]
        distrib_right sum.distrib)
  then show ?thesis unfolding polyfun_def by (metis diff_zero length_map length_upt order_refl)
qed

lemma polyfun_diff: "polyfun n f \<Longrightarrow> polyfun n g \<Longrightarrow> polyfun n (\<lambda>x. f x - g x)"
  using polyfun_add [of n f "\<lambda>x. - 1 * g x"] polyfun_scale [of n g "- 1"] by simp

lemma polyfun_sum:
  assumes "finite A" "0 < n" "\<And>i. i \<in> A \<Longrightarrow> polyfun n (f i)"
  shows "polyfun n (\<lambda>x. \<Sum>i\<in>A. f i x)"
  using assms by (induction rule: finite_induct) (auto intro: polyfun_add)

lemma polyfun_prod_linear:
  "finite A \<Longrightarrow> polyfun (Suc (card A)) (\<lambda>x. \<Prod>i\<in>A. (x - a i) / b i)"
proof (induction rule: finite_induct)
  case empty
  show ?case by auto
next
  case (insert j A)
  have "polyfun (Suc (Suc (card A))) (\<lambda>x. 1 / b j * ((x - a j) * (\<Prod>i\<in>A. (x - a i) / b i)))"
    by (intro polyfun_scale polyfun_linear insert.IH)
  then show ?case using insert.hyps by (simp add: ac_simps)
qed

lemma polyfun_mult:
  assumes "polyfun (Suc m) f" "polyfun (Suc n) g"
  shows "polyfun (Suc (m + n)) (\<lambda>x. f x * g x)"
proof -
  obtain p q where pq: "length p \<le> Suc m" "\<And>x. f x = peval p x"
    "length q \<le> Suc n" "\<And>x. g x = peval q x"
    using assms by (auto simp: polyfun_def)
  show ?thesis
  proof (cases "p = [] \<or> q = []")
    case True
    then have "(\<lambda>x. f x * g x) = (\<lambda>x. 0)" using pq(2,4) by auto
    then show ?thesis using polyfun_const [of "Suc (m + n)" 0] by simp
  next
    case False
    then have "f x * g x = peval (Poly_Multiply p q) x" for x by (simp add: peval_Multiply pq)
    moreover have "length (Poly_Multiply p q) \<le> Suc (m + n)"
      using length_Multiply [of p q] False pq(1,3) by simp
    ultimately show ?thesis unfolding polyfun_def by blast
  qed
qed

lemma polyfun_unique:
  assumes "distinct xs" "polyfun (length xs) f" "polyfun (length xs) g"
    and "\<And>x. x \<in> set xs \<Longrightarrow> f x = g x"
  shows "f x = g x"
proof -
  obtain p q where pq: "length p \<le> length xs" "\<And>x. f x = peval p x"
    "length q \<le> length xs" "\<And>x. g x = peval q x"
    using assms(2,3) by (auto simp: polyfun_def)
  then show ?thesis using peval_unique [OF assms(1) pq(1,3)] assms(4) by simp
qed

text \<open>The coefficients, too, are determined: synthetic division relates them one by one.\<close>

lemma cf_Cons [simp]: "cf (c # cs) 0 = c" "cf (c # cs) (Suc i) = cf cs i"
  by (simp_all add: cf_def)

lemma synthetic_division:
  fixes cs :: "'a::field list"
  shows "cs \<noteq> [] \<Longrightarrow> \<exists>ds. length ds = length cs - 1
    \<and> cf cs 0 = peval cs a - a * cf ds 0 \<and> (\<forall>i. cf cs (Suc i) = cf ds i - a * cf ds (Suc i))
    \<and> (\<forall>x. peval cs x = peval cs a + (x - a) * peval ds x)"
proof (induction cs)
  case (Cons c cs)
  show ?case
  proof (cases "cs = []")
    case True
    then show ?thesis by (intro exI [of _ "[]"]) (simp add: cf_def)
  next
    case False
    with Cons.IH obtain ds where ds: "length ds = length cs - 1" "cf cs 0 = peval cs a - a * cf ds 0"
      "\<And>i. cf cs (Suc i) = cf ds i - a * cf ds (Suc i)"
      "\<And>x. peval cs x = peval cs a + (x - a) * peval ds x" by blast
    show ?thesis
    proof (intro exI [of _ "peval cs a # ds"] conjI allI)
      show "length (peval cs a # ds) = length (c # cs) - 1" using ds(1) False by (cases cs) simp_all
      show "cf (c # cs) 0 = peval (c # cs) a - a * cf (peval cs a # ds) 0" by simp
      show "cf (c # cs) (Suc i) = cf (peval cs a # ds) i - a * cf (peval cs a # ds) (Suc i)" for i
        using ds(2,3) by (cases i) simp_all
      show "peval (c # cs) x = peval (c # cs) a + (x - a) * peval (peval cs a # ds) x" for x
        unfolding peval.simps by (subst ds(4)) (simp add: algebra_simps)
    qed
  qed
qed simp

lemma peval_coeffs_zero:
  fixes cs :: "'a::field list"
  assumes "distinct xs" "length cs \<le> length xs" "\<And>x. x \<in> set xs \<Longrightarrow> peval cs x = 0"
  shows "cf cs i = 0"
  using assms
proof (induction xs arbitrary: cs i)
  case (Cons a xs)
  show ?case
  proof (cases "cs = []")
    case False
    then obtain ds where ds: "length ds = length cs - 1" "cf cs 0 = peval cs a - a * cf ds 0"
      "\<And>i. cf cs (Suc i) = cf ds i - a * cf ds (Suc i)"
      "\<And>x. peval cs x = peval cs a + (x - a) * peval ds x" using synthetic_division by blast
    have a: "peval cs a = 0" using Cons.prems(3) by simp
    have "peval ds x = 0" if "x \<in> set xs" for x
    proof -
      have "x \<noteq> a" "peval cs x = 0" using Cons.prems(1,3) that by auto
      with ds(4) [of x] a show ?thesis by simp
    qed
    then have "cf ds j = 0" for j
      using Cons.IH [of ds] Cons.prems(1,2) ds(1) False by simp
    then show ?thesis using ds(2,3) a by (cases i) simp_all
  qed (simp add: cf_def)
qed (simp add: cf_def)

lemma peval_coeffs_unique:
  fixes p q :: "'a::field list"
  assumes "distinct xs" "length p = length xs" "length q = length xs"
    and "\<And>x. x \<in> set xs \<Longrightarrow> peval p x = peval q x"
  shows "p = q"
proof (rule nth_equalityI)
  fix i
  assume i: "i < length p"
  have "cf (map (\<lambda>i. cf p i - cf q i) [0..<max (length p) (length q)]) i = 0"
    by (rule peval_coeffs_zero [OF assms(1)]) (simp add: assms(2,3), simp only: peval_diff assms(4) diff_self)
  then show "p ! i = q ! i" using i assms(2,3) by (simp add: cf_def)
qed (simp add: assms)

section \<open>The Lagrange form\<close>

definition lagrange_basis :: "'a::field list \<Rightarrow> nat \<Rightarrow> 'a \<Rightarrow> 'a" where
  "lagrange_basis xs j x = (\<Prod>m\<in>{..<length xs} - {j}. (x - xs ! m) / (xs ! j - xs ! m))"

definition lagrange :: "'a::field list \<Rightarrow> 'a list \<Rightarrow> 'a \<Rightarrow> 'a" where
  "lagrange xs ys x = (\<Sum>j<length xs. ys ! j * lagrange_basis xs j x)"

lemma lagrange_polyfun: "polyfun (length xs) (lagrange xs ys)"
proof (cases "xs = []")
  case True
  then show ?thesis unfolding polyfun_def by (intro exI [of _ "[]"]) (simp add: lagrange_def)
next
  case False
  then have l: "0 < length xs" by simp
  have "polyfun (length xs) (lagrange_basis xs j)" if "j < length xs" for j
  proof -
    have "card ({..<length xs} - {j}) = length xs - 1" using that by simp
    then show ?thesis
      using polyfun_prod_linear [of "{..<length xs} - {j}" "\<lambda>m. xs ! m" "\<lambda>m. xs ! j - xs ! m"] l
      unfolding lagrange_basis_def by (simp add: fun_eq_iff)
  qed
  then show ?thesis unfolding lagrange_def using l by (intro polyfun_sum polyfun_scale) auto
qed

lemma lagrange_basis_at:
  assumes "distinct xs" "i < length xs" "j < length xs"
  shows "lagrange_basis xs j (xs ! i) = (if i = j then 1 else 0)"
proof (cases "i = j")
  case True
  have "xs ! j \<noteq> xs ! m" if "m < length xs" "m \<noteq> j" for m
    using assms that by (simp add: nth_eq_iff_index_eq)
  then show ?thesis using True unfolding lagrange_basis_def by (intro prod.neutral [THEN trans]) auto
next
  case False
  then have "i \<in> {..<length xs} - {j}" using assms by simp
  then have "lagrange_basis xs j (xs ! i) = 0"
    unfolding lagrange_basis_def by (intro prod_zero) (auto intro!: bexI [of _ i])
  with False show ?thesis by simp
qed

lemma lagrange_at:
  assumes "distinct xs" "i < length xs"
  shows "lagrange xs ys (xs ! i) = ys ! i"
proof -
  have "lagrange xs ys (xs ! i) = (\<Sum>j<length xs. if j = i then ys ! j else 0)"
    unfolding lagrange_def using assms
    by (intro sum.cong refl) (auto simp: lagrange_basis_at)
  then show ?thesis using assms by simp
qed

theorem lagrange_unique:
  assumes "distinct xs" "polyfun (length xs) f" "\<And>i. i < length xs \<Longrightarrow> ys ! i = f (xs ! i)"
  shows "lagrange xs ys x = f x"
  by (rule polyfun_unique [OF assms(1) lagrange_polyfun assms(2)])
    (auto simp: in_set_conv_nth lagrange_at assms)

subsection \<open>The loops of the code\<close>

text \<open>
  The inner loop multiplies the factors of one basis polynomial (\<open>ell\<close>), the outer one sums; the
  division throws when two points coincide.
\<close>

definition lagrange_ell :: "'a::field list \<Rightarrow> 'a \<Rightarrow> nat \<Rightarrow> nat \<Rightarrow> 'a res" where
  "lagrange_ell xs x k j =
     bindE (vget xs j) (\<lambda>xj.
       foldE (\<lambda>m ell. if m = j then Inr ell
                      else bindE (vget xs m) (\<lambda>xm. bindE (divE (x - xm) (xj - xm)) (\<lambda>f. Inr (ell * f))))
         [0..<k] 1)"

definition lagrange_loop :: "'a::field list \<Rightarrow> 'a list \<Rightarrow> 'a \<Rightarrow> nat \<Rightarrow> 'a res" where
  "lagrange_loop xs ys x k =
     foldE (\<lambda>j z. bindE (lagrange_ell xs x k j) (\<lambda>ell. bindE (vget ys j) (\<lambda>y. Inr (z + y * ell))))
       [0..<k] 0"

lemma lagrange_ell_Inr:
  assumes "distinct xs" "j < length xs" "k \<le> length xs"
  shows "lagrange_ell xs x k j = Inr (\<Prod>m\<in>{..<k} - {j}. (x - xs ! m) / (xs ! j - xs ! m))"
proof -
  have "foldE (\<lambda>m ell. if m = j then Inr ell
      else bindE (vget xs m) (\<lambda>xm. bindE (divE (x - xm) (xs ! j - xm)) (\<lambda>f. Inr (ell * f)))) [0..<n] 1
    = Inr (\<Prod>m\<in>{..<n} - {j}. (x - xs ! m) / (xs ! j - xs ! m))" if "n \<le> length xs" for n
    using that
  proof (induction n)
    case 0
    then show ?case by simp
  next
    case (Suc n)
    then have ne: "n \<noteq> j \<Longrightarrow> xs ! j \<noteq> xs ! n" using assms by (simp add: nth_eq_iff_index_eq)
    have "{..<Suc n} - {j} = (if n = j then {..<n} - {j} else insert n ({..<n} - {j}))" by auto
    with Suc ne show ?case by (simp add: foldE_append mult.commute)
  qed
  then show ?thesis using assms by (simp add: lagrange_ell_def)
qed

theorem lagrange_loop_Inr:
  assumes "distinct xs" "length ys = length xs"
  shows "lagrange_loop xs ys x (length xs) = Inr (lagrange xs ys x)"
proof -
  have "foldE (\<lambda>j z. bindE (lagrange_ell xs x (length xs) j) (\<lambda>ell. bindE (vget ys j)
      (\<lambda>y. Inr (z + y * ell)))) [0..<n] 0 = Inr (\<Sum>j<n. ys ! j * lagrange_basis xs j x)"
    if "n \<le> length xs" for n
    using that assms
    by (induction n) (simp_all add: foldE_append lagrange_ell_Inr lagrange_basis_def)
  then show ?thesis by (simp add: lagrange_loop_def lagrange_def)
qed

text \<open>With a repeated point the division by zero is reached, and the exception leaves the loop.\<close>

lemma foldE_error:
  assumes "\<And>x s. x \<in> set xs \<Longrightarrow> x \<noteq> a \<Longrightarrow> f x s = Inl e \<or> (\<exists>s'. f x s = Inr s')"
    and "\<And>s. f a s = Inl e" and "a \<in> set xs"
  shows "foldE f xs s = Inl e"
  using assms
proof (induction xs arbitrary: s)
  case (Cons y ys)
  show ?case
  proof (cases "y = a")
    case True
    then show ?thesis using Cons.prems(2) by simp
  next
    case False
    have "foldE f ys s' = Inl e" for s'
      using Cons.prems False by (intro Cons.IH) auto
    then show ?thesis using Cons.prems(1) [of y s] False by auto
  qed
qed simp

lemma foldE_cases:
  "(\<And>x s. x \<in> set xs \<Longrightarrow> f x s = Inl e \<or> (\<exists>s'. f x s = Inr s')) \<Longrightarrow>
    foldE f xs s = Inl e \<or> (\<exists>s'. foldE f xs s = Inr s')"
proof (induction xs arbitrary: s)
  case (Cons y ys)
  have "foldE f ys s' = Inl e \<or> (\<exists>s''. foldE f ys s' = Inr s'')" for s'
    using Cons.prems by (intro Cons.IH) auto
  note IH = this
  from Cons.prems [of y s] show ?case
  proof
    assume "\<exists>s'. f y s = Inr s'"
    then obtain s' where "f y s = Inr s'" ..
    with IH [of s'] show ?thesis by simp
  qed (simp_all)
qed simp

lemma divE_cases: "divE x y = Inl (Logic_error ''0 not invertible modulo prime'') \<or> (\<exists>z. divE x y = Inr z)"
  by (cases "y = 0") simp_all

lemma lagrange_ell_cases:
  assumes "k \<le> length xs" "j < length xs"
  shows "lagrange_ell xs x k j = Inl (Logic_error ''0 not invertible modulo prime'')
    \<or> (\<exists>z. lagrange_ell xs x k j = Inr z)"
  unfolding lagrange_ell_def vget_Inr [OF assms(2)] bindE_simps
proof (rule foldE_cases)
  fix m s
  assume "m \<in> set [0..<k]"
  then have "m < length xs" using assms by simp
  then show "(if m = j then Inr s else bindE (vget xs m) (\<lambda>xm. bindE (divE (x - xm) (xs ! j - xm))
      (\<lambda>f. Inr (s * f)))) = Inl (Logic_error ''0 not invertible modulo prime'') \<or>
      (\<exists>s'. (if m = j then Inr s else bindE (vget xs m) (\<lambda>xm. bindE (divE (x - xm) (xs ! j - xm))
      (\<lambda>f. Inr (s * f)))) = Inr s')"
    using divE_cases [of "x - xs ! m" "xs ! j - xs ! m"] by auto
qed

theorem lagrange_loop_error:
  assumes "\<not> distinct xs" "length ys = length xs"
  shows "lagrange_loop xs ys x (length xs) = Inl (Logic_error ''0 not invertible modulo prime'')"
proof -
  obtain i j where ij: "i < length xs" "j < length xs" "i \<noteq> j" "xs ! i = xs ! j"
    using assms(1) by (auto simp: distinct_conv_nth)
  have inner: "lagrange_ell xs x (length xs) i = Inl (Logic_error ''0 not invertible modulo prime'')"
    unfolding lagrange_ell_def vget_Inr [OF ij(1)] bindE_simps
  proof (rule foldE_error [where a = j])
    show "j \<in> set [0..<length xs]" using ij by simp
    show "(if j = i then Inr s else bindE (vget xs j) (\<lambda>xm. bindE (divE (x - xm) (xs ! i - xm))
        (\<lambda>f. Inr (s * f)))) = Inl (Logic_error ''0 not invertible modulo prime'')" for s
      using ij by simp
    fix m s
    assume "m \<in> set [0..<length xs]"
    then show "(if m = i then Inr s else bindE (vget xs m) (\<lambda>xm. bindE (divE (x - xm) (xs ! i - xm))
        (\<lambda>f. Inr (s * f)))) = Inl (Logic_error ''0 not invertible modulo prime'') \<or>
        (\<exists>s'. (if m = i then Inr s else bindE (vget xs m) (\<lambda>xm. bindE (divE (x - xm) (xs ! i - xm))
        (\<lambda>f. Inr (s * f)))) = Inr s')"
      using divE_cases [of "x - xs ! m" "xs ! i - xs ! m"] by auto
  qed
  show ?thesis unfolding lagrange_loop_def
  proof (rule foldE_error [where a = i])
    show "i \<in> set [0..<length xs]" using ij by simp
    fix m s
    assume "m \<in> set [0..<length xs]"
    then show "bindE (lagrange_ell xs x (length xs) m) (\<lambda>ell. bindE (vget ys m) (\<lambda>y. Inr (s + y * ell)))
        = Inl (Logic_error ''0 not invertible modulo prime'')
      \<or> (\<exists>s'. bindE (lagrange_ell xs x (length xs) m) (\<lambda>ell. bindE (vget ys m) (\<lambda>y. Inr (s + y * ell)))
        = Inr s')"
      using lagrange_ell_cases [of "length xs" xs m x] assms(2) by auto
  qed (simp add: inner)
qed

end
