(* ===== verification/Packed.thy ===== *)
theory Packed
  imports Interp
begin

text \<open>
  Polynomials in evaluation form (\<open>scl/ss/evpoly.h\<close>) and packed secret sharing on top of them
  (\<open>scl/ss/packed.h\<close>): secrets sit at the points \<open>0, -1, -2, \<dots>\<close>, shares at \<open>1, 2, \<dots>, n\<close>.
  The correctness of sharing needs that these points are distinct in the field, which is the
  locale \<open>point_field\<close>; the field \<open>FF<61>\<close> provides it.
\<close>

section \<open>The class EvPolynomial\<close>

record 'a evpoly =
  mX :: "'a list"
  mY :: "'a list"

definition EvPoly_default :: "'a::field evpoly" where
  "EvPoly_default = \<lparr> mX = [0], mY = [0] \<rparr>"

definition EvPoly_constant :: "'a::field \<Rightarrow> 'a evpoly" where
  "EvPoly_constant constant = \<lparr> mX = [0], mY = [constant] \<rparr>"

definition EvPoly :: "'a::field list \<Rightarrow> 'a list \<Rightarrow> 'a evpoly res" where
  "EvPoly x_points y_points =
     throw_if (length x_points \<noteq> length y_points)
       (Invalid_argument ''number of evaluation points and evaluations do not match'') (
     throw_if (length x_points = 0)
       (Invalid_argument ''empty set cannot be used for initialization'') (
     Inr \<lparr> mX = x_points, mY = y_points \<rparr>))"

definition EvPoly_start :: "'a::field \<Rightarrow> 'a list \<Rightarrow> 'a evpoly res" where
  "EvPoly_start x_start y_points =
     throw_if (length y_points = 0)
       (Invalid_argument ''empty set cannot be used for initialization'') (
     let x_points = map (\<lambda>i. x_start + from_size (int i)) [0..<length y_points]
     in Inr \<lparr> mX = x_points, mY = y_points \<rparr>)"

definition EvPoly_from_zero :: "'a::field list \<Rightarrow> 'a evpoly res" where
  "EvPoly_from_zero y_points = EvPoly_start 0 y_points"

definition EvPoly_Degree :: "'a evpoly \<Rightarrow> nat" where
  "EvPoly_Degree p = (if mY p = [] then 2 ^ 64 - 1 else length (mY p) - 1)"

text \<open>\<open>Degree() + 1\<close> wraps in \<open>std::size_t\<close>, so that the loops run \<open>mY.Size()\<close> times.\<close>

definition EvPoly_Evaluate :: "'a::field evpoly \<Rightarrow> 'a \<Rightarrow> 'a res" where
  "EvPoly_Evaluate p x = lagrange_loop (mX p) (mY p) x ((EvPoly_Degree p + 1) mod 2 ^ 64)"

definition EvPoly_EvaluateVec :: "'a::field evpoly \<Rightarrow> 'a list \<Rightarrow> 'a list res" where
  "EvPoly_EvaluateVec p points = mapE (EvPoly_Evaluate p) points"

definition EvPoly_IsZero :: "'a::field evpoly \<Rightarrow> bool" where
  "EvPoly_IsZero p \<longleftrightarrow> EvPoly_Degree p = 0 \<and> mY p ! 0 = 0"

definition EvPoly_Add :: "'a::field evpoly \<Rightarrow> 'a evpoly \<Rightarrow> 'a evpoly res" where
  "EvPoly_Add p q =
     throw_if (\<not> Vec_Equals (mX p) (mX q))
       (Invalid_argument ''cannot add evpolys with different x points'') (
     bindE (Vec_Add (mY p) (mY q)) (\<lambda>c. EvPoly (mX p) c))"

definition EvPoly_Subtract :: "'a::field evpoly \<Rightarrow> 'a evpoly \<Rightarrow> 'a evpoly res" where
  "EvPoly_Subtract p q =
     throw_if (\<not> Vec_Equals (mX p) (mX q))
       (Invalid_argument ''cannot subtract evpolys with different x points'') (
     bindE (Vec_Subtract (mY p) (mY q)) (\<lambda>c. EvPoly (mX p) c))"

subsection \<open>Well-formed polynomials and what they denote\<close>

text \<open>What the constructors establish, and what \<open>Evaluate\<close> needs beyond it: distinct points.\<close>

definition ev_wf :: "'a evpoly \<Rightarrow> bool" where
  "ev_wf p \<longleftrightarrow> mX p \<noteq> [] \<and> length (mX p) = length (mY p) \<and> length (mY p) < 2 ^ 64"

definition ev_fun :: "'a::field evpoly \<Rightarrow> 'a \<Rightarrow> 'a" where
  "ev_fun p = lagrange (mX p) (mY p)"

lemma EvPoly_Inr:
  "length xs = length ys \<Longrightarrow> xs \<noteq> [] \<Longrightarrow> EvPoly xs ys = Inr \<lparr> mX = xs, mY = ys \<rparr>"
  by (auto simp: EvPoly_def throw_if_def)

lemma EvPoly_eq_Inr:
  "EvPoly xs ys = Inr p \<longleftrightarrow> length xs = length ys \<and> xs \<noteq> [] \<and> p = \<lparr> mX = xs, mY = ys \<rparr>"
  by (auto simp: EvPoly_def throw_if_def)

lemma EvPoly_points: "ev_wf p \<Longrightarrow> (EvPoly_Degree p + 1) mod 2 ^ 64 = length (mX p)"
  by (cases "mY p") (auto simp: ev_wf_def EvPoly_Degree_def)

lemma ev_fun_polyfun: "polyfun (length (mX p)) (ev_fun p)"
  by (simp add: ev_fun_def lagrange_polyfun)

lemma ev_fun_at: "distinct (mX p) \<Longrightarrow> i < length (mX p) \<Longrightarrow> ev_fun p (mX p ! i) = mY p ! i"
  by (simp add: ev_fun_def lagrange_at)

lemma EvPoly_Evaluate_Inr:
  "ev_wf p \<Longrightarrow> distinct (mX p) \<Longrightarrow> EvPoly_Evaluate p x = Inr (ev_fun p x)"
  using lagrange_loop_Inr [of "mX p" "mY p" x] EvPoly_points [of p]
  by (simp add: EvPoly_Evaluate_def ev_fun_def ev_wf_def)

lemma EvPoly_Evaluate_error:
  "ev_wf p \<Longrightarrow> \<not> distinct (mX p) \<Longrightarrow>
    EvPoly_Evaluate p x = Inl (Logic_error ''0 not invertible modulo prime'')"
  using lagrange_loop_error [of "mX p" "mY p" x] EvPoly_points [of p]
  by (simp add: EvPoly_Evaluate_def ev_wf_def)

lemma EvPoly_EvaluateVec_Inr:
  "ev_wf p \<Longrightarrow> distinct (mX p) \<Longrightarrow> EvPoly_EvaluateVec p xs = Inr (map (ev_fun p) xs)"
  by (simp add: EvPoly_EvaluateVec_def mapE_Inr EvPoly_Evaluate_Inr)

lemma lagrange_map2_add:
  "length ys = length xs \<Longrightarrow> length zs = length xs \<Longrightarrow>
    lagrange xs (map2 (+) ys zs) x = lagrange xs ys x + lagrange xs zs x"
  by (simp add: lagrange_def distrib_right sum.distrib)

lemma lagrange_map2_diff:
  "length ys = length xs \<Longrightarrow> length zs = length xs \<Longrightarrow>
    lagrange xs (map2 (-) ys zs) x = lagrange xs ys x - lagrange xs zs x"
  by (simp add: lagrange_def left_diff_distrib sum_subtractf)

lemma EvPoly_Add_fun:
  assumes "ev_wf p" "ev_wf q" "mX p = mX q"
  shows "\<exists>r. EvPoly_Add p q = Inr r \<and> ev_wf r \<and> mX r = mX p \<and> (\<forall>x. ev_fun r x = ev_fun p x + ev_fun q x)"
  using assms
  by (simp add: EvPoly_Add_def Vec_Equals_iff ev_wf_def Vec_ops_Inr EvPoly_Inr ev_fun_def
      lagrange_map2_add)

lemma EvPoly_Subtract_fun:
  assumes "ev_wf p" "ev_wf q" "mX p = mX q"
  shows "\<exists>r. EvPoly_Subtract p q = Inr r \<and> ev_wf r \<and> mX r = mX p \<and> (\<forall>x. ev_fun r x = ev_fun p x - ev_fun q x)"
  using assms
  by (simp add: EvPoly_Subtract_def Vec_Equals_iff ev_wf_def Vec_ops_Inr EvPoly_Inr ev_fun_def
      lagrange_map2_diff)

section \<open>Packed sharing\<close>

definition EvPolyFromSecretsAndPoints ::
  "('g \<Rightarrow> 'a::field \<times> 'g) \<Rightarrow> 'a list \<Rightarrow> 'a list \<Rightarrow> 'g \<Rightarrow> ('a evpoly \<times> 'g) res" where
  "EvPolyFromSecretsAndPoints rnd secrets x_points prg =
     throw_if (length secrets > length x_points)
       (Invalid_argument ''number of secrets is larger than number of x points'') (
     let n_secrets = length secrets; n_points = length x_points in
     case PartialRandom rnd n_points (\<lambda>i. i \<ge> n_secrets) prg of (y_points, prg') \<Rightarrow>
       bindE (foldE (\<lambda>i y_points. bindE (vget secrets i) (vset y_points i)) [0..<n_secrets] y_points)
         (\<lambda>y_points. bindE (EvPoly x_points y_points) (\<lambda>poly. Inr (poly, prg'))))"

text \<open>
  \<open>(degree + 1) - secrets.Size()\<close> is computed in \<open>std::size_t\<close>. When it wraps, the loop asks for
  more elements than a \<open>std::vector\<close> of 8-byte elements can hold.
\<close>

definition size_sub :: "nat \<Rightarrow> nat \<Rightarrow> nat" where
  "size_sub a b = nat ((int a - int b) mod 2 ^ 64)"

definition vector_max :: nat where
  "vector_max = 2 ^ 60 - 1"

definition EvPolyFromSecretsAndDegree ::
  "('g \<Rightarrow> 'a::field \<times> 'g) \<Rightarrow> 'a list \<Rightarrow> nat \<Rightarrow> 'g \<Rightarrow> ('a evpoly \<times> 'g) res" where
  "EvPolyFromSecretsAndDegree rnd secrets degree prg =
     (let n_rest = size_sub (degree + 1) (length secrets) in
      throw_if (length secrets + n_rest > vector_max) Bad_alloc (
      let x_points = map (\<lambda>i. from_size (- int i)) [0..<length secrets]
                     @ map (\<lambda>i. from_size (int i + 1)) [0..<n_rest]
      in EvPolyFromSecretsAndPoints rnd secrets x_points prg))"

definition EvPolyFromSecretAndPointAndDegree ::
  "('g \<Rightarrow> 'a::field \<times> 'g) \<Rightarrow> 'a \<Rightarrow> 'a \<Rightarrow> nat \<Rightarrow> 'g \<Rightarrow> ('a evpoly \<times> 'g) res" where
  "EvPolyFromSecretAndPointAndDegree rnd secret x_point degree prg =
     throw_if (degree + 1 > vector_max) Bad_alloc (
     let x_points = x_point # map (\<lambda>i. from_size (int i + 1)) [0..<degree]
     in EvPolyFromSecretsAndPoints rnd [secret] x_points prg)"

definition EvPolyFromSecretAndDegree ::
  "('g \<Rightarrow> 'a::field \<times> 'g) \<Rightarrow> 'a \<Rightarrow> nat \<Rightarrow> 'g \<Rightarrow> ('a evpoly \<times> 'g) res" where
  "EvPolyFromSecretAndDegree rnd secret degree prg =
     EvPolyFromSecretAndPointAndDegree rnd secret 0 degree prg"

definition SharesFromEvPoly :: "'a::field evpoly \<Rightarrow> nat \<Rightarrow> 'a list res" where
  "SharesFromEvPoly poly n_shares =
     EvPoly_EvaluateVec poly (map (\<lambda>i. from_size (int i + 1)) [0..<n_shares])"

definition EvPolyFromShares :: "'a::field list \<Rightarrow> 'a evpoly res" where
  "EvPolyFromShares shares = EvPoly (map (\<lambda>i. from_size (int i + 1)) [0..<length shares]) shares"

definition SecretsFromPointsAndShares :: "'a::field list \<Rightarrow> 'a list \<Rightarrow> 'a list res" where
  "SecretsFromPointsAndShares x_secrets shares =
     bindE (EvPolyFromShares shares) (\<lambda>poly. EvPoly_EvaluateVec poly x_secrets)"

definition SecretsFromSharesAndLength :: "'a::field list \<Rightarrow> nat \<Rightarrow> 'a list res" where
  "SecretsFromSharesAndLength shares len =
     SecretsFromPointsAndShares (map (\<lambda>i. from_size (- int i)) [0..<len]) shares"

definition SecretFromPointAndShares :: "'a::field \<Rightarrow> 'a list \<Rightarrow> 'a res" where
  "SecretFromPointAndShares x_secret shares =
     bindE (EvPolyFromShares shares) (\<lambda>poly. EvPoly_Evaluate poly x_secret)"

definition SecretFromShares :: "'a::field list \<Rightarrow> 'a res" where
  "SecretFromShares shares = SecretFromPointAndShares 0 shares"

subsection \<open>The vector of evaluations\<close>

lemma overwrite_prefix:
  "n \<le> length xs \<Longrightarrow> n \<le> length ys \<Longrightarrow>
    foldE (\<lambda>i ys. bindE (vget xs i) (vset ys i)) [0..<n] ys = Inr (take n xs @ drop n ys)"
proof (induction n)
  case 0
  then show ?case by simp
next
  case (Suc n)
  then have "(take n xs @ drop n ys)[n := xs ! n] = take (Suc n) xs @ drop (Suc n) ys"
    by (simp add: list_update_append take_Suc_conv_app_nth Cons_nth_drop_Suc [symmetric])
  with Suc show ?case by (simp add: foldE_append del: append_assoc)
qed

lemma EvPolyFromSecretsAndPoints_Inr:
  assumes "length secrets \<le> length xs" "xs \<noteq> []"
  shows "EvPolyFromSecretsAndPoints rnd secrets xs g =
    (case PartialRandom rnd (length xs) (\<lambda>i. i \<ge> length secrets) g of (y, g') \<Rightarrow>
      Inr (\<lparr> mX = xs, mY = secrets @ drop (length secrets) y \<rparr>, g'))"
proof -
  obtain y g' where y: "PartialRandom rnd (length xs) (\<lambda>i. i \<ge> length secrets) g = (y, g')"
    by fastforce
  then have "length y = length xs"
    using length_PartialRandom [of rnd "length xs" "\<lambda>i. i \<ge> length secrets" g] by simp
  then show ?thesis using assms
    by (simp add: EvPolyFromSecretsAndPoints_def y overwrite_prefix EvPoly_Inr)
qed

lemma size_sub_exact: "b \<le> a \<Longrightarrow> a < 2 ^ 64 \<Longrightarrow> size_sub a b = a - b"
  by (simp add: size_sub_def of_nat_diff [symmetric] nat_mod_distrib del: of_nat_diff)

lemma size_sub_wraps: "a < b \<Longrightarrow> b \<le> a + 2 ^ 63 \<Longrightarrow> 2 ^ 63 \<le> size_sub a b"
proof -
  assume ab: "a < b" "b \<le> a + 2 ^ 63"
  have "(int a - int b) mod 2 ^ 64 = (int a - int b + 2 ^ 64) mod 2 ^ 64"
    by (rule mod_add_self2 [symmetric])
  also have "\<dots> = int a - int b + 2 ^ 64"
    using ab by (intro mod_pos_pos_trivial) auto
  finally have "(int a - int b) mod 2 ^ 64 = int a - int b + 2 ^ 64" .
  then show ?thesis using ab by (simp add: size_sub_def)
qed

lemma EvPolyFromSecretsAndDegree_too_many:
  "degree + 1 < length secrets \<Longrightarrow> length secrets \<le> 2 ^ 63 \<Longrightarrow>
    EvPolyFromSecretsAndDegree rnd secrets degree g = Inl Bad_alloc"
  using size_sub_wraps [of "degree + 1" "length secrets"]
  by (simp add: EvPolyFromSecretsAndDegree_def vector_max_def)

subsection \<open>Correctness over a field with distinct points\<close>

locale point_field =
  fixes T :: "'a::field itself"
  assumes point_inj: "- (2 ^ 31) \<le> i \<Longrightarrow> i < 2 ^ 31 \<Longrightarrow> - (2 ^ 31) \<le> j \<Longrightarrow> j < 2 ^ 31 \<Longrightarrow>
    (of_int i :: 'a) = of_int j \<Longrightarrow> i = j"
begin

lemma from_size_inj:
  "- (2 ^ 31) \<le> i \<Longrightarrow> i < 2 ^ 31 \<Longrightarrow> - (2 ^ 31) \<le> j \<Longrightarrow> j < 2 ^ 31 \<Longrightarrow>
    (from_size i :: 'a) = from_size j \<longleftrightarrow> i = j"
  using point_inj by (auto simp: from_size_def)

lemma share_points_distinct: "n < 2 ^ 31 \<Longrightarrow> distinct (map (\<lambda>i. from_size (int i + 1) :: 'a) [0..<n])"
  by (auto simp: distinct_map inj_on_def from_size_inj)

lemma packed_points_distinct:
  "k + n < 2 ^ 31 \<Longrightarrow> distinct (map (\<lambda>i. from_size (- int i)) [0..<k]
    @ map (\<lambda>i. from_size (int i + 1) :: 'a) [0..<n])"
  by (auto simp: distinct_map inj_on_def from_size_inj simp del: from_size_minus)

text \<open>Sharing succeeds and yields a polynomial with the secrets at their points.\<close>

lemma packed_poly:
  fixes secrets :: "'a list"
  assumes "length secrets \<le> d + 1" "d + 1 < 2 ^ 31"
  obtains poly g' where "EvPolyFromSecretsAndDegree rnd secrets d g = Inr (poly, g')"
    "ev_wf poly" "distinct (mX poly)" "length (mX poly) = d + 1"
    "\<And>i. i < length secrets \<Longrightarrow> ev_fun poly (from_size (- int i)) = secrets ! i"
proof -
  let ?k = "length secrets"
  let ?xs = "map (\<lambda>i. from_size (- int i) :: 'a) [0..<?k] @ map (\<lambda>i. from_size (int i + 1)) [0..<d + 1 - ?k]"
  obtain y g' where y: "PartialRandom rnd (length ?xs) (\<lambda>i. i \<ge> ?k) g = (y, g')" by fastforce
  have ly: "length y = length ?xs"
    using length_PartialRandom [of rnd "length ?xs" "\<lambda>i. i \<ge> ?k" g] unfolding y by simp
  let ?p = "\<lparr> mX = ?xs, mY = secrets @ drop ?k y \<rparr>"
  have len: "length ?xs = d + 1" using assms by simp
  then have ne: "?xs \<noteq> []" by (metis add_is_0 length_0_conv one_neq_zero)
  have le: "?k \<le> length ?xs" using assms(1) len by simp
  have sz: "size_sub (d + 1) ?k = d + 1 - ?k" using assms by (intro size_sub_exact) auto
  have "EvPolyFromSecretsAndDegree rnd secrets d g = EvPolyFromSecretsAndPoints rnd secrets ?xs g"
    using assms unfolding EvPolyFromSecretsAndDegree_def sz Let_def by (simp add: vector_max_def)
  also have "\<dots> = Inr (?p, g')" unfolding EvPolyFromSecretsAndPoints_Inr [OF le ne] y by simp
  finally have "EvPolyFromSecretsAndDegree rnd secrets d g = Inr (?p, g')" .
  moreover have "ev_wf ?p" unfolding ev_wf_def using ne ly len assms by simp
  moreover have d: "distinct (mX ?p)"
    using packed_points_distinct [of ?k "d + 1 - ?k"] assms by simp
  moreover have "ev_fun ?p (from_size (- int i)) = secrets ! i" if "i < ?k" for i
    using ev_fun_at [OF d, of i] that le by (simp add: nth_append)
  ultimately show ?thesis using that len by (metis evpoly.select_convs(1))
qed

lemma shares_Inr:
  fixes poly :: "'a evpoly"
  shows "ev_wf poly \<Longrightarrow> distinct (mX poly) \<Longrightarrow>
    SharesFromEvPoly poly n = Inr (map (\<lambda>i. ev_fun poly (from_size (int i + 1))) [0..<n])"
  by (simp add: SharesFromEvPoly_def EvPoly_EvaluateVec_Inr comp_def)

text \<open>
  Reconstruction is exact for every function of fewer degrees than shares: this carries the
  round trip, the linearity and the products of packed sharings.
\<close>

lemma reconstruct_points:
  fixes f :: "'a \<Rightarrow> 'a"
  assumes "polyfun n f" "0 < n" "n < 2 ^ 31"
  shows "SecretsFromPointsAndShares xs (map (\<lambda>i. f (from_size (int i + 1))) [0..<n]) = Inr (map f xs)"
proof -
  let ?p = "\<lparr> mX = map (\<lambda>i. from_size (int i + 1)) [0..<n], mY = map (\<lambda>i. f (from_size (int i + 1))) [0..<n] \<rparr>"
  have "EvPolyFromShares (map (\<lambda>i. f (from_size (int i + 1))) [0..<n]) = Inr ?p"
    using assms by (simp add: EvPolyFromShares_def EvPoly_Inr)
  moreover have wf: "ev_wf ?p" using assms by (simp add: ev_wf_def)
  moreover have d: "distinct (mX ?p)" using share_points_distinct [OF assms(3)] by simp
  moreover have "ev_fun ?p x = f x" for x
    unfolding ev_fun_def using d assms(1) by (intro lagrange_unique) simp_all
  ultimately show ?thesis
    by (simp add: SecretsFromPointsAndShares_def EvPoly_EvaluateVec_Inr [OF wf d])
qed

lemma reconstruct_length:
  fixes f :: "'a \<Rightarrow> 'a"
  assumes "polyfun n f" "0 < n" "n < 2 ^ 31"
  shows "SecretsFromSharesAndLength (map (\<lambda>i. f (from_size (int i + 1))) [0..<n]) k
    = Inr (map (\<lambda>i. f (from_size (- int i))) [0..<k])"
  by (simp add: SecretsFromSharesAndLength_def reconstruct_points [OF assms] comp_def)

end

interpretation ff61_points: point_field "TYPE(ff61)"
proof
  fix i j :: int
  assume b: "- (2 ^ 31) \<le> i" "i < 2 ^ 31" "- (2 ^ 31) \<le> j" "j < 2 ^ 31"
    and eq: "(of_int i :: ff61) = of_int j"
  have "(of_int (i + 2 ^ 31) :: ff61) = of_int (j + 2 ^ 31)"
    unfolding of_int_add eq ..
  then have "(i + 2 ^ 31) mod (2 ^ 61 - 1) = (j + 2 ^ 31) mod (2 ^ 61 - 1)"
    by (rule ff61_of_int_eq_iff [THEN iffD1])
  moreover have "(i + 2 ^ 31) mod (2 ^ 61 - 1) = i + 2 ^ 31" "(j + 2 ^ 31) mod (2 ^ 61 - 1) = j + 2 ^ 31"
    using b by (auto intro!: mod_pos_pos_trivial)
  ultimately show "i = j" by linarith
qed

section \<open>Properties\<close>

text \<open>
  C5: packed sharing round trip. For every PRG, \<open>k\<close> secrets shared by \<open>EvPolyFromSecretsAndDegree\<close>
  with a degree of at least \<open>k - 1\<close> and given out by \<open>SharesFromEvPoly\<close> to more parties than the
  degree are reconstructed by \<open>SecretsFromSharesAndLength\<close>; no step throws.
\<close>

theorem packed_roundtrip:
  fixes secrets :: "ff61 list"
  assumes "length secrets \<le> d + 1" and "d < n" and "n < 2 ^ 31"
  shows "bindE (EvPolyFromSecretsAndDegree rnd secrets d g) (\<lambda>(poly, g').
      bindE (SharesFromEvPoly poly n) (\<lambda>shares.
      SecretsFromSharesAndLength shares (length secrets))) = Inr secrets"
proof -
  from assms have "d + 1 < 2 ^ 31" by simp
  from ff61_points.packed_poly [OF assms(1) this, of rnd g] obtain poly g' where
    p: "EvPolyFromSecretsAndDegree rnd secrets d g = Inr (poly, g')" "ev_wf poly"
      "distinct (mX poly)" "length (mX poly) = d + 1"
      "\<And>i. i < length secrets \<Longrightarrow> ev_fun poly (from_size (- int i)) = secrets ! i" by blast
  have "polyfun n (ev_fun poly)"
    using ev_fun_polyfun [of poly] assms p(4) by (auto intro: polyfun_mono)
  from ff61_points.reconstruct_length [OF this _ assms(3), of "length secrets"] assms(2)
  have "SecretsFromSharesAndLength (map (\<lambda>i. ev_fun poly (from_size (int i + 1))) [0..<n]) (length secrets)
      = Inr (map (\<lambda>i. ev_fun poly (from_size (- int i))) [0..<length secrets])" by simp
  also have "map (\<lambda>i. ev_fun poly (from_size (- int i))) [0..<length secrets] = secrets"
    using p(5) by (intro nth_equalityI) simp_all
  finally show ?thesis by (simp add: p(1) ff61_points.shares_Inr [OF p(2,3)])
qed

theorem packed_roundtrip_witness:
  "bindE (EvPolyFromSecretsAndDegree (\<lambda>g. (g, g + 1)) [7, 11] 3 5) (\<lambda>(poly, g').
      bindE (SharesFromEvPoly poly 5) (\<lambda>shares. SecretsFromSharesAndLength shares (length [7, 11 :: ff61])))
    = Inr [7, 11 :: ff61]"
  by (rule packed_roundtrip) simp_all

text \<open>
  C6: packed sharings multiply. The entry-wise product of the shares of two packed sharings of
  degrees \<open>d\<close> and \<open>e\<close> is a packed sharing of the entry-wise product of the secrets, as soon as
  there are more than \<open>d + e\<close> parties.
\<close>

theorem packed_product:
  fixes xs ys :: "ff61 list"
  assumes "length xs = k" and "length ys = k" and "k \<le> d + 1" and "k \<le> e + 1"
    and "d + e < n" and "n < 2 ^ 31"
  shows "bindE (EvPolyFromSecretsAndDegree rnd xs d g) (\<lambda>(p, g).
      bindE (EvPolyFromSecretsAndDegree rnd ys e g) (\<lambda>(q, g).
      bindE (SharesFromEvPoly p n) (\<lambda>a. bindE (SharesFromEvPoly q n) (\<lambda>b.
      bindE (Vec_MultiplyEntryWise a b) (\<lambda>c. SecretsFromSharesAndLength c k)))))
    = Inr (map2 (*) xs ys)"
proof -
  from assms have le: "length xs \<le> d + 1" "d + 1 < 2 ^ 31" "length ys \<le> e + 1" "e + 1 < 2 ^ 31" by simp_all
  from ff61_points.packed_poly [OF le(1,2), of rnd g] obtain p g' where
    p: "EvPolyFromSecretsAndDegree rnd xs d g = Inr (p, g')" "ev_wf p" "distinct (mX p)"
      "length (mX p) = d + 1" "\<And>i. i < length xs \<Longrightarrow> ev_fun p (from_size (- int i)) = xs ! i" by blast
  from ff61_points.packed_poly [OF le(3,4), of rnd g'] obtain q g'' where
    q: "EvPolyFromSecretsAndDegree rnd ys e g' = Inr (q, g'')" "ev_wf q" "distinct (mX q)"
      "length (mX q) = e + 1" "\<And>i. i < length ys \<Longrightarrow> ev_fun q (from_size (- int i)) = ys ! i" by blast
  let ?f = "\<lambda>x. ev_fun p x * ev_fun q x"
  have "polyfun (Suc (d + e)) ?f"
    using ev_fun_polyfun [of p] ev_fun_polyfun [of q] p(4) q(4) by (intro polyfun_mult) simp_all
  then have "polyfun n ?f" by (rule polyfun_mono) (use assms(5) in simp)
  from ff61_points.reconstruct_length [OF this _ assms(6), of k] assms(5)
  have "SecretsFromSharesAndLength (map (\<lambda>i. ?f (from_size (int i + 1))) [0..<n]) k
      = Inr (map (\<lambda>i. ?f (from_size (- int i))) [0..<k])" by simp
  also have "map (\<lambda>i. ?f (from_size (- int i))) [0..<k] = map2 (*) xs ys"
    using p(5) q(5) assms(1,2) by (intro nth_equalityI) simp_all
  finally have "SecretsFromSharesAndLength (map (\<lambda>i. ?f (from_size (int i + 1))) [0..<n]) k
      = Inr (map2 (*) xs ys)" .
  moreover have "map2 (*) (map (\<lambda>i. ev_fun p (from_size (int i + 1))) [0..<n])
      (map (\<lambda>i. ev_fun q (from_size (int i + 1))) [0..<n]) = map (\<lambda>i. ?f (from_size (int i + 1))) [0..<n]"
    by (intro nth_equalityI) simp_all
  ultimately show ?thesis
    by (simp add: p(1) q(1) ff61_points.shares_Inr [OF p(2,3)] ff61_points.shares_Inr [OF q(2,3)] Vec_ops_Inr)
qed

theorem packed_product_witness:
  "bindE (EvPolyFromSecretsAndDegree (\<lambda>g. (g, g + 1)) [7, 11] 2 5) (\<lambda>(p, g).
      bindE (EvPolyFromSecretsAndDegree (\<lambda>g. (g, g + 1)) [3, 4] 1 g) (\<lambda>(q, g).
      bindE (SharesFromEvPoly p 4) (\<lambda>a. bindE (SharesFromEvPoly q 4) (\<lambda>b.
      bindE (Vec_MultiplyEntryWise a b) (\<lambda>c. SecretsFromSharesAndLength c 2)))))
    = Inr [21, 44 :: ff61]"
  using packed_product [of "[7, 11]" 2 "[3, 4]" 2 1 4 "\<lambda>g. (g, g + 1)" 5] by simp

text \<open>
  C23: evaluation in the evaluation representation. \<open>Evaluate\<close> on a well-formed polynomial returns the
  value of the interpolating polynomial when the points are distinct (at a point of the
  representation, the stored evaluation), and throws the division by zero when two coincide.
\<close>

theorem EvPoly_Evaluate_exact:
  assumes "ev_wf p"
  shows "if distinct (mX p)
    then EvPoly_Evaluate p x = Inr (ev_fun p x) \<and> polyfun (length (mX p)) (ev_fun p)
      \<and> map (EvPoly_Evaluate p) (mX p) = map Inr (mY p)
    else EvPoly_Evaluate p x = Inl (Logic_error ''0 not invertible modulo prime'')"
proof (cases "distinct (mX p)")
  case True
  have "map (EvPoly_Evaluate p) (mX p) = map Inr (mY p)"
    using assms True by (intro nth_equalityI) (simp_all add: EvPoly_Evaluate_Inr ev_fun_at ev_wf_def)
  then show ?thesis using True assms by (simp add: EvPoly_Evaluate_Inr ev_fun_polyfun)
qed (simp add: EvPoly_Evaluate_error assms)

theorem EvPoly_Evaluate_exact_witness:
  "EvPoly_Evaluate \<lparr> mX = [1, 1], mY = [2, 3] \<rparr> (0 :: ff61)
    = Inl (Logic_error ''0 not invertible modulo prime'')"
  using EvPoly_Evaluate_exact [of "\<lparr> mX = [1, 1], mY = [2, 3 :: ff61] \<rparr>" 0] by (simp add: ev_wf_def)

end
