(* ===== verification/Shamir.thy ===== *)
theory Shamir
  imports Packed
begin

text \<open>
  Shamir secret sharing (\<open>scl/ss/shamir.h\<close>) with passive reconstruction and with error detection,
  and additive secret sharing (\<open>scl/ss/additive.h\<close>). The lemmas show that reconstruction inverts
  sharing, that error detection accepts exactly the share vectors of degree-\<open>t\<close> polynomials,
  and that any \<open>t\<close> shares are independent of the secret.
\<close>

section \<open>Shamir sharing\<close>

definition CreateShamirSharePolynomial ::
  "('g \<Rightarrow> 'a::field \<times> 'g) \<Rightarrow> 'a \<Rightarrow> nat \<Rightarrow> 'g \<Rightarrow> ('a list \<times> 'g) res" where
  "CreateShamirSharePolynomial rnd secret t prg =
     throw_if (t = 0) (Invalid_argument ''threshold cannot be 0'') (
     case PartialRandom rnd (t + 1) (\<lambda>i. i > 0) prg of (coeff, prg') \<Rightarrow>
       bindE (vset coeff 0 secret) (\<lambda>coeff. Inr (Poly_Create coeff, prg')))"

definition InterpolateAt :: "'a::field list \<Rightarrow> 'a list \<Rightarrow> nat \<Rightarrow> 'a \<Rightarrow> nat \<Rightarrow> 'a res" where
  "InterpolateAt ys xs k x offset = lagrange_loop (drop offset xs) (drop offset ys) x k"

definition CreateShamirSharesAt :: "'a::field list \<Rightarrow> 'a list \<Rightarrow> 'a list res" where
  "CreateShamirSharesAt sharing_polynomial alphas = mapE (Poly_Evaluate sharing_polynomial) alphas"

definition CanonicalAlphas :: "nat \<Rightarrow> 'a::field list" where
  "CanonicalAlphas n = map (\<lambda>i. from_size (int i + 1)) [0..<n]"

definition CreateShamirShares ::
  "('g \<Rightarrow> 'a::field \<times> 'g) \<Rightarrow> 'a \<Rightarrow> nat \<Rightarrow> nat \<Rightarrow> 'g \<Rightarrow> ('a list \<times> 'g) res" where
  "CreateShamirShares rnd secret n t prg =
     bindE (CreateShamirSharePolynomial rnd secret t prg) (\<lambda>(p, prg').
     bindE (CreateShamirSharesAt p (CanonicalAlphas n)) (\<lambda>shares. Inr (shares, prg')))"

text \<open>\<open>t + 1\<close> and \<open>2 * t + 1\<close> are computed in \<open>std::size_t\<close>.\<close>

definition ReconstructShamirPassiveAt :: "'a::field list \<Rightarrow> 'a list \<Rightarrow> 'a \<Rightarrow> nat \<Rightarrow> 'a res" where
  "ReconstructShamirPassiveAt shares alphas pos t =
     (let k = (t + 1) mod 2 ^ 64 in
      throw_if (k > length shares) (Invalid_argument ''not enough shares to reconstruct'') (
      throw_if (k > length alphas) (Invalid_argument ''not enough alphas to reconstruct'') (
      InterpolateAt shares alphas k pos 0)))"

definition ReconstructShamirPassive :: "'a::field list \<Rightarrow> nat \<Rightarrow> 'a res" where
  "ReconstructShamirPassive shares t =
     ReconstructShamirPassiveAt shares (CanonicalAlphas (length shares)) 0 t"

definition ReconstructShamirAt :: "'a::field list \<Rightarrow> 'a list \<Rightarrow> 'a \<Rightarrow> nat \<Rightarrow> 'a res" where
  "ReconstructShamirAt shares alphas pos t =
     (let n = (2 * t + 1) mod 2 ^ 64; k1 = (t + 1) mod 2 ^ 64 in
      throw_if (n > length shares)
        (Invalid_argument ''not enough shares to reconstruct with error detection'') (
      throw_if (n > length alphas)
        (Invalid_argument ''not enough alphas to reconstruct with error detection'') (
      bindE (foldE (\<lambda>k _. bindE (vget alphas k) (\<lambda>a. bindE (InterpolateAt shares alphas k1 a 0) (\<lambda>s.
                bindE (vget shares k) (\<lambda>y.
                  throw_if (s \<noteq> y) (Logic_error ''error detected during reconstruction'') (Inr ())))))
              [k1..<n] ())
        (\<lambda>_. InterpolateAt shares alphas k1 pos 0))))"

definition ReconstructShamir :: "'a::field list \<Rightarrow> nat \<Rightarrow> 'a res" where
  "ReconstructShamir shares t = ReconstructShamirAt shares (CanonicalAlphas (length shares)) 0 t"

section \<open>Additive sharing\<close>

definition CreateAdditiveShares ::
  "('g \<Rightarrow> 'a::field \<times> 'g) \<Rightarrow> 'a \<Rightarrow> nat \<Rightarrow> 'g \<Rightarrow> ('a list \<times> 'g) res" where
  "CreateAdditiveShares rnd secret n prg =
     throw_if (n = 0) (Invalid_argument ''cannot create shares for 0 people'') (
     case PartialRandom rnd n (\<lambda>i. i > 0) prg of (shares, prg') \<Rightarrow>
       bindE (vset shares 0 (secret - Vec_Sum shares)) (\<lambda>shares. Inr (shares, prg')))"

definition ReconstructAdditive :: "'a::field list \<Rightarrow> 'a" where
  "ReconstructAdditive shares = Vec_Sum shares"

lemma additive_shares:
  assumes "0 < n"
  obtains shares g' where "CreateAdditiveShares rnd secret n g = Inr (shares, g')"
    "length shares = n" "ReconstructAdditive shares = secret"
proof -
  obtain v g' where v: "PartialRandom rnd n (\<lambda>i. i > 0) g = (v, g')" by fastforce
  have len: "length v = n" using length_PartialRandom [of rnd n "\<lambda>i. i > 0" g] v by simp
  have z: "v ! 0 = 0" using PartialRandom_zero [of 0 n "\<lambda>i. i > 0" rnd g] v assms by simp
  obtain w where w: "v = 0 # w" using len z assms by (cases v) auto
  show ?thesis
    by (rule that [of "v[0 := secret - Vec_Sum v]" g'])
      (use assms len in \<open>simp_all add: CreateAdditiveShares_def v ReconstructAdditive_def Vec_Sum_eq w\<close>)
qed

section \<open>Properties of Shamir sharing\<close>

lemma length_CanonicalAlphas [simp]: "length (CanonicalAlphas n) = n"
  by (simp add: CanonicalAlphas_def)

lemma sharing_polynomial:
  assumes "0 < t"
  obtains r g' where "CreateShamirSharePolynomial rnd secret t g = Inr (Poly_Create (secret # r), g')"
    "length r = t"
    "PartialRandom rnd (t + 1) (\<lambda>i. i > 0) g = (0 # r, g')"
proof -
  obtain v g' where v: "PartialRandom rnd (t + 1) (\<lambda>i. i > 0) g = (v, g')" by fastforce
  have len: "length v = t + 1" using length_PartialRandom [of rnd "t + 1" "\<lambda>i. i > 0" g] unfolding v by simp
  have "v ! 0 = 0" using PartialRandom_zero [of 0 "t + 1" "\<lambda>i. i > 0" rnd g] unfolding v by simp
  with len obtain r where r: "v = 0 # r" "length r = t" by (cases v) auto
  show ?thesis
    by (rule that [of r g']) (use assms r v in \<open>simp_all add: CreateShamirSharePolynomial_def\<close>)
qed

lemma Poly_Evaluate_Create [simp]: "Poly_Evaluate (Poly_Create cs) x = Inr (peval cs x)"
  using Poly_Evaluate_correct [of "Poly_Create cs" x] trimmed_Create [of cs] by (simp add: trimmed_def)

lemma CreateShamirSharesAt_Inr:
  "CreateShamirSharesAt (Poly_Create cs) alphas = Inr (map (peval cs) alphas)"
  by (simp add: CreateShamirSharesAt_def mapE_Inr)

text \<open>Interpolation through the first \<open>k\<close> points.\<close>

lemma lagrange_loop_take:
  "k \<le> length xs \<Longrightarrow> k \<le> length ys \<Longrightarrow>
    lagrange_loop xs ys x k = lagrange_loop (take k xs) (take k ys) x k"
  unfolding lagrange_loop_def lagrange_ell_def
  by (intro foldE_cong) (auto simp: vget_def intro!: arg_cong2 [of _ _ _ _ bindE] foldE_cong)

lemma InterpolateAt_Inr:
  assumes "distinct (take k xs)" "k \<le> length xs" "k \<le> length ys"
  shows "InterpolateAt ys xs k x 0 = Inr (lagrange (take k xs) (take k ys) x)"
  using lagrange_loop_Inr [of "take k xs" "take k ys" x] lagrange_loop_take [of k xs ys x] assms
  by (simp add: InterpolateAt_def)

lemma InterpolateAt_polyfun:
  assumes "distinct (take k xs)" "k \<le> length xs" "k \<le> length ys" "polyfun k f"
    and "\<And>i. i < k \<Longrightarrow> ys ! i = f (xs ! i)"
  shows "InterpolateAt ys xs k x 0 = Inr (f x)"
  unfolding InterpolateAt_Inr [OF assms(1-3)]
  using assms by (subst lagrange_unique [of _ f]) simp_all

text \<open>
  Error detection is exact: the reconstruction returns a value only when the first \<open>2 t + 1\<close>
  shares lie on one polynomial of degree at most \<open>t\<close>, and then the value is that of the
  polynomial; otherwise it throws.
\<close>

definition shares_of :: "nat \<Rightarrow> nat \<Rightarrow> 'a::field list \<Rightarrow> 'a list \<Rightarrow> ('a \<Rightarrow> 'a) \<Rightarrow> bool" where
  "shares_of t n alphas shares f \<longleftrightarrow> polyfun (t + 1) f \<and> (\<forall>i<n. shares ! i = f (alphas ! i))"

lemma check_loop:
  assumes "\<And>k. k \<in> set ks \<Longrightarrow> k < length alphas \<and> k < length shares"
    and "\<And>k. k \<in> set ks \<Longrightarrow> InterpolateAt shares alphas k1 (alphas ! k) 0 = Inr (f (alphas ! k))"
  shows "foldE (\<lambda>k _. bindE (vget alphas k) (\<lambda>a. bindE (InterpolateAt shares alphas k1 a 0) (\<lambda>s.
      bindE (vget shares k) (\<lambda>y. throw_if (s \<noteq> y) e (Inr ()))))) ks ()
    = (if \<forall>k \<in> set ks. shares ! k = f (alphas ! k) then Inr () else Inl e)"
  using assms by (induction ks) (auto simp: throw_if_def)

lemma ReconstructShamirAt_eq:
  fixes alphas shares :: "'a::field list"
  assumes "2 * t + 1 \<le> length shares" "2 * t + 1 \<le> length alphas" "2 * t + 1 < 2 ^ 64"
    and "distinct (take (t + 1) alphas)"
  defines "f \<equiv> lagrange (take (t + 1) alphas) (take (t + 1) shares)"
  shows "ReconstructShamirAt shares alphas pos t =
      (if shares_of t (2 * t + 1) alphas shares f then Inr (f pos)
       else Inl (Logic_error ''error detected during reconstruction''))"
proof -
  have I: "InterpolateAt shares alphas (t + 1) x 0 = Inr (f x)" for x
    unfolding f_def using assms by (intro InterpolateAt_Inr) auto
  have m: "(2 * t + 1) mod 2 ^ 64 = 2 * t + 1" "(t + 1) mod 2 ^ 64 = t + 1" using assms by simp_all
  have pf: "polyfun (t + 1) f"
    using lagrange_polyfun [of "take (t + 1) alphas" "take (t + 1) shares"] assms by (simp add: f_def)
  have at: "shares ! i = f (alphas ! i)" if "i < t + 1" for i
    using lagrange_at [OF assms(4), of i "take (t + 1) shares"] that assms by (simp add: f_def)
  have "shares ! k = f (alphas ! k)"
    if "\<forall>k \<in> set [t + 1..<2 * t + 1]. shares ! k = f (alphas ! k)" "k < 2 * t + 1" for k
    using that at by (cases "k < t + 1") (simp_all only: set_upt, auto)
  then have "(\<forall>k \<in> set [t + 1..<2 * t + 1]. shares ! k = f (alphas ! k)) \<longleftrightarrow>
      shares_of t (2 * t + 1) alphas shares f"
    using pf unfolding shares_of_def by fastforce
  moreover have "foldE (\<lambda>k _. bindE (vget alphas k) (\<lambda>a. bindE (InterpolateAt shares alphas (t + 1) a 0)
      (\<lambda>s. bindE (vget shares k) (\<lambda>y. throw_if (s \<noteq> y) e (Inr ()))))) [t + 1..<2 * t + 1] ()
    = (if \<forall>k \<in> set [t + 1..<2 * t + 1]. shares ! k = f (alphas ! k) then Inr () else Inl e)" for e
    using assms I by (intro check_loop) auto
  ultimately show ?thesis
    using assms(1,2) unfolding ReconstructShamirAt_def Let_def m by (simp only: throw_if_simps not_less [THEN iffD2] I) simp
qed

lemma shares_of_unique:
  assumes "shares_of t n alphas shares f" "shares_of t n alphas shares g" "t < n"
    "n \<le> length alphas" "distinct (take (t + 1) alphas)"
  shows "f x = g x"
proof -
  have eq: "f y = g y" if "y \<in> set (take (t + 1) alphas)" for y
  proof -
    from that obtain i where i: "i < t + 1" "y = alphas ! i"
      using assms(3,4) by (auto simp: in_set_conv_nth)
    then have n: "i < n" using assms(3) by simp
    have at: "shares ! i = h (alphas ! i)" if "shares_of t n alphas shares h" for h
      using that n by (simp add: shares_of_def)
    show ?thesis unfolding i(2) by (rule trans [OF at [OF assms(1), symmetric] at [OF assms(2)]])
  qed
  have "length (take (t + 1) alphas) = t + 1" using assms(3,4) by simp
  then have pf: "polyfun (length (take (t + 1) alphas)) f" "polyfun (length (take (t + 1) alphas)) g"
    using assms(1,2) unfolding shares_of_def by metis+
  show ?thesis by (rule polyfun_unique [OF assms(5) pf eq])
qed

text \<open>Privacy: given the secret, each view of \<open>t\<close> shares comes from exactly one choice of coefficients.\<close>

lemma privacy_coeffs:
  fixes alphas view :: "'a::field list"
  assumes "distinct alphas" "0 \<notin> set alphas" "length view = length alphas"
  shows "\<exists>!r. length r = length alphas \<and> map (peval (secret # r)) alphas = view"
proof -
  let ?ys = "map2 (\<lambda>v a. (v - secret) / a) view alphas"
  obtain cs where cs: "length cs \<le> length alphas" "\<And>x. lagrange alphas ?ys x = peval cs x"
    using lagrange_polyfun [of alphas ?ys] by (auto simp: polyfun_def)
  let ?r = "cs @ replicate (length alphas - length cs) 0"
  have nz: "alphas ! i \<noteq> 0" if "i < length alphas" for i using assms(2) that by (metis nth_mem)
  have "peval (secret # ?r) (alphas ! i) = view ! i" if "i < length alphas" for i
    using lagrange_at [OF assms(1) that, of ?ys] nz [OF that] assms(3) that
    by (simp add: peval_append cs(2))
  then have ex: "length ?r = length alphas" "map (peval (secret # ?r)) alphas = view"
    using cs(1) assms(3) by (simp_all add: list_eq_iff_nth_eq)
  have uniq: "r = r'" if "length r = length alphas" "map (peval (secret # r)) alphas = view"
    "length r' = length alphas" "map (peval (secret # r')) alphas = view" for r r'
  proof (rule peval_coeffs_unique [OF assms(1) that(1,3)])
    fix x
    assume x: "x \<in> set alphas"
    then have "peval (secret # r) x = peval (secret # r') x" using that(2,4) by (metis map_eq_conv)
    then show "peval r x = peval r' x" using x assms(2) by auto
  qed
  show ?thesis using ex uniq by (intro ex1I [of _ ?r]) blast+
qed

text \<open>The PRG that hands out a given list of elements, one per draw.\<close>

definition draw :: "'a::zero list \<Rightarrow> 'a \<times> 'a list" where
  "draw rs = (case rs of [] \<Rightarrow> (0, []) | r # rs' \<Rightarrow> (r, rs'))"

lemma PartialRandom_draw:
  "n \<le> length rs \<Longrightarrow> PartialRandom draw (Suc n) (\<lambda>i. i > 0) rs = (0 # take n rs, drop n rs)"
proof (induction n)
  case 0
  then show ?case by (simp add: PartialRandom_def)
next
  case (Suc n)
  then have n: "n < length rs" by simp
  then have "drop n rs = rs ! n # drop (Suc n) rs" by (simp add: Cons_nth_drop_Suc)
  moreover have "PartialRandom draw (Suc n) (\<lambda>i. i > 0) rs = (0 # take n rs, drop n rs)"
    using Suc by simp
  ultimately show ?case
    unfolding PartialRandom_Suc [of draw "Suc n"] using n
    by (simp add: draw_def take_Suc_conv_app_nth)
qed

context point_field
begin

lemma CanonicalAlphas_distinct: "n < 2 ^ 31 \<Longrightarrow> distinct (CanonicalAlphas n :: 'a list)"
  unfolding CanonicalAlphas_def by (rule share_points_distinct)

lemma CanonicalAlphas_nonzero: "n < 2 ^ 31 \<Longrightarrow> (0 :: 'a) \<notin> set (CanonicalAlphas n)"
proof
  assume n: "n < 2 ^ 31" and "(0 :: 'a) \<in> set (CanonicalAlphas n)"
  then obtain i where "i < n" "(from_size (int i + 1) :: 'a) = from_size 0"
    by (auto simp: CanonicalAlphas_def)
  then show False using n by (simp add: from_size_inj del: from_size_0)
qed

lemma shamir_shares:
  fixes secret :: 'a
  assumes "0 < t"
  obtains r g' where "CreateShamirShares rnd secret n t g
      = Inr (map (peval (secret # r)) (CanonicalAlphas n), g')" "length r = t"
proof -
  obtain r g' where "CreateShamirSharePolynomial rnd secret t g = Inr (Poly_Create (secret # r), g')"
    "length r = t" by (rule sharing_polynomial [OF assms])
  then show ?thesis
    by (intro that [of r g']) (simp_all add: CreateShamirShares_def CreateShamirSharesAt_Inr del: peval.simps)
qed

lemma passive_of_polyfun:
  fixes f :: "'a \<Rightarrow> 'a"
  assumes "polyfun (t + 1) f" "t < length shares" "length shares < 2 ^ 31"
    and "\<And>i. i < length shares \<Longrightarrow> shares ! i = f (CanonicalAlphas (length shares) ! i)"
  shows "ReconstructShamirPassive shares t = Inr (f 0)"
proof -
  have "InterpolateAt shares (CanonicalAlphas (length shares)) (t + 1) 0 0 = Inr (f 0)"
    using assms CanonicalAlphas_distinct [OF assms(3)] by (intro InterpolateAt_polyfun) auto
  moreover have "(t + 1) mod 2 ^ 64 = t + 1" using assms by simp
  ultimately show ?thesis using assms(2)
    by (simp add: ReconstructShamirPassive_def ReconstructShamirPassiveAt_def)
qed

end

section \<open>Properties\<close>



text \<open>
  C12: the passive round trip. Whatever the PRG, a secret shared by \<open>CreateShamirShares\<close> among \<open>n\<close>
  parties with threshold \<open>0 < t < n\<close> is returned by \<open>ReconstructShamirPassive\<close>, and by
  \<open>ReconstructShamir\<close> when there are \<open>2 t + 1\<close> shares; a threshold of zero throws.
\<close>

theorem shamir_roundtrip:
  fixes secret :: ff61
  assumes "2 * t + 1 \<le> n" and "n < 2 ^ 31"
  shows "if t = 0
    then CreateShamirShares rnd secret n t g = Inl (Invalid_argument ''threshold cannot be 0'')
    else \<exists>shares g'. CreateShamirShares rnd secret n t g = Inr (shares, g') \<and> length shares = n
      \<and> ReconstructShamirPassive shares t = Inr secret \<and> ReconstructShamir shares t = Inr secret"
proof (cases "t = 0")
  case True
  then show ?thesis by (simp add: CreateShamirShares_def CreateShamirSharePolynomial_def)
next
  case False
  then have t: "0 < t" by simp
  obtain r g' where r: "CreateShamirShares rnd secret n t g
      = Inr (map (peval (secret # r)) (CanonicalAlphas n), g')" "length r = t"
    by (rule ff61_points.shamir_shares [OF t, of rnd secret n g]) blast
  let ?f = "peval (secret # r)" and ?s = "map (peval (secret # r)) (CanonicalAlphas n)"
  have pf: "polyfun (t + 1) ?f" using r(2) by (intro polyfun_peval) simp
  have "ReconstructShamirPassive ?s t = Inr (?f 0)"
    using assms by (intro ff61_points.passive_of_polyfun pf) simp_all
  moreover have "ReconstructShamir ?s t = Inr (?f 0)"
  proof -
    have d: "distinct (take (t + 1) (CanonicalAlphas n :: ff61 list))"
      using ff61_points.CanonicalAlphas_distinct [OF assms(2)] by (rule distinct_take)
    have l: "2 * t + 1 \<le> length ?s" "2 * t + 1 \<le> length (CanonicalAlphas n :: ff61 list)"
      "2 * t + 1 < 2 ^ 64" using assms by simp_all
    let ?g = "lagrange (take (t + 1) (CanonicalAlphas n)) (take (t + 1) ?s)"
    have tl: "length (take (t + 1) (CanonicalAlphas n :: ff61 list)) = t + 1" using l(2) by simp
    have "?g x = ?f x" for x
      by (rule lagrange_unique [OF d]) (use tl pf l in \<open>simp_all del: peval.simps\<close>)
    then have g: "?g = ?f" by (rule ext)
    have "shares_of t (2 * t + 1) (CanonicalAlphas n) ?s ?f"
      unfolding shares_of_def using pf l by (simp del: peval.simps)
    then show ?thesis
      using ReconstructShamirAt_eq [OF l d, of 0] unfolding g ReconstructShamir_def
      by (simp del: peval.simps)
  qed
  ultimately show ?thesis using r False by auto
qed

theorem shamir_roundtrip_witness:
  "\<exists>shares g'. CreateShamirShares (\<lambda>g. (g, g + 1)) 42 3 1 7 = Inr (shares, g')
    \<and> ReconstructShamir shares 1 = Inr (42 :: ff61)"
  using shamir_roundtrip [of 1 3 "\<lambda>g. (g, g + 1)" 42 7] by auto

text \<open>
  C11: perfect privacy. For \<open>t\<close> distinct nonzero evaluation points, any secret and any \<open>t\<close> values, there
  is exactly one sequence of \<open>t\<close> draws of the PRG with which \<open>CreateShamirSharePolynomial\<close> gives
  these points exactly these shares: the shares of \<open>t\<close> parties are uniform whatever the secret.
\<close>

theorem shamir_privacy:
  fixes alphas view :: "'a::field list"
  assumes "distinct alphas" and "0 \<notin> set alphas" and "length view = length alphas" and "alphas \<noteq> []"
  shows "\<exists>!rs. length rs = length alphas \<and>
    bindE (CreateShamirSharePolynomial draw secret (length alphas) rs) (\<lambda>(p, rs').
      CreateShamirSharesAt p alphas) = Inr view"
proof -
  have "bindE (CreateShamirSharePolynomial draw secret (length alphas) rs) (\<lambda>(p, rs').
      CreateShamirSharesAt p alphas) = Inr (map (peval (secret # rs)) alphas)"
    if "length rs = length alphas" for rs
    using that assms(4) PartialRandom_draw [of "length alphas" rs]
    by (simp add: CreateShamirSharePolynomial_def CreateShamirSharesAt_Inr del: peval.simps)
  then have "length rs = length alphas \<and> bindE (CreateShamirSharePolynomial draw secret (length alphas) rs)
      (\<lambda>(p, rs'). CreateShamirSharesAt p alphas) = Inr view
    \<longleftrightarrow> length rs = length alphas \<and> map (peval (secret # rs)) alphas = view" for rs
    by (cases "length rs = length alphas") (simp_all del: peval.simps)
  then show ?thesis using privacy_coeffs [OF assms(1-3), of secret] by (simp only:)
qed

theorem shamir_privacy_witness:
  "\<exists>!rs. length rs = length [1 :: ff61] \<and>
    bindE (CreateShamirSharePolynomial draw 42 (length [1 :: ff61]) rs) (\<lambda>(p, rs').
      CreateShamirSharesAt p [1]) = Inr [7 :: ff61]"
  by (rule shamir_privacy) simp_all

text \<open>
  Additive sharing round trip: the shares that \<open>CreateAdditiveShares\<close> makes of a secret sum to it,
  for every PRG and every positive number of parties; zero parties throw.
\<close>

theorem additive_roundtrip:
  "if n = 0
   then CreateAdditiveShares rnd secret n g = Inl (Invalid_argument ''cannot create shares for 0 people'')
   else \<exists>shares g'. CreateAdditiveShares rnd secret n g = Inr (shares, g')
     \<and> length shares = n \<and> ReconstructAdditive shares = secret"
proof (cases "n = 0")
  case False
  then have "0 < n" by simp
  from additive_shares [OF this, of rnd secret g] obtain shares g' where
    "CreateAdditiveShares rnd secret n g = Inr (shares, g')" "length shares = n"
    "ReconstructAdditive shares = secret" by blast
  with False show ?thesis by simp
qed (simp add: CreateAdditiveShares_def)

end
