(* ===== verification/Gates.thy ===== *)
theory Gates
  imports Shamir
begin

text \<open>
  The gates of a circuit (\<open>src/tp/gate.h\<close> and the gate classes of \<open>input_gate.h\<close>,
  \<open>output_gate.h\<close>, \<open>mult_gate.h\<close>). Gates live on a heap and refer to their parents by shared
  pointers, so a gate is its index in the list of allocated gates. Each virtual getter memoises
  its value in the gate; it recurses through the parents and is therefore a partial function whose
  value \<open>None\<close> stands for a recursion that never ends. The locale \<open>memo_getter\<close> states what the
  getters share, and shows that memoisation is transparent: the value returned is the one of the
  memo-free evaluation \<open>evals\<close>, and every later query sees the same values.
\<close>

section \<open>Gates and the heap\<close>

datatype gate_class = AddGate | InputGate | PadInputGate | MultGate | PadMultGate
  | OutputGate | PadOutputGate

text \<open>
  \<open>InputGate\<close> and \<open>OutputGate\<close> declare an \<open>mLambda\<close> of their own, which hides that of \<open>Gate\<close>; all
  their methods use it, so one field models both. \<open>mID\<close> is not initialised before \<open>SetNetwork\<close>.
\<close>

record 'a gate =
  gclass :: gate_class
  mLearned :: bool
  mIndvShrLambdaC :: 'a
  mIndvShrLambdaCSet :: bool
  mDn07Share :: 'a
  mDn07Set :: bool
  mMu :: 'a
  mLambda :: 'a
  mLambdaSet :: bool
  mLeft :: "nat option"
  mRight :: "nat option"
  mEvaluated :: bool
  mClear :: 'a
  mIsPadding :: bool
  mOwnerID :: nat
  mGateID :: "nat option"
  mValue :: 'a

type_synonym 'a heap = "'a gate list"

definition Gate_init :: "gate_class \<Rightarrow> 'a::zero gate" where
  "Gate_init c = \<lparr> gclass = c, mLearned = False, mIndvShrLambdaC = 0, mIndvShrLambdaCSet = False,
     mDn07Share = 0, mDn07Set = False, mMu = 0, mLambda = 0, mLambdaSet = False,
     mLeft = None, mRight = None, mEvaluated = False, mClear = 0, mIsPadding = False,
     mOwnerID = 0, mGateID = None, mValue = 0 \<rparr>"

text \<open>\<open>std::make_shared\<close>: the new object is put at the end of the heap; its index is the pointer.\<close>

definition make_shared :: "'a gate \<Rightarrow> 'a heap \<Rightarrow> nat \<times> 'a heap" where
  "make_shared G h = (length h, h @ [G])"

definition deref :: "nat option \<Rightarrow> nat res" where
  "deref p = (case p of None \<Rightarrow> Inl Undefined | Some g \<Rightarrow> Inr g)"

definition upd :: "nat \<Rightarrow> ('a gate \<Rightarrow> 'a gate) \<Rightarrow> 'a heap \<Rightarrow> 'a heap" where
  "upd g f h = h[g := f (h ! g)]"

subsection \<open>Constructors\<close>

definition new_InputGate :: "nat \<Rightarrow> 'a::zero gate" where
  "new_InputGate owner_id = (Gate_init InputGate)\<lparr> mOwnerID := owner_id, mIndvShrLambdaC := 0 \<rparr>"

definition new_PadInputGate :: "nat \<Rightarrow> 'a::zero gate" where
  "new_PadInputGate owner_id =
     (new_InputGate owner_id)\<lparr> gclass := PadInputGate, mIsPadding := True \<rparr>"

definition new_OutputGate :: "nat \<Rightarrow> nat \<Rightarrow> 'a::zero gate" where
  "new_OutputGate owner_id g =
     (Gate_init OutputGate)\<lparr> mOwnerID := owner_id, mLeft := Some g, mRight := None \<rparr>"

definition new_PadOutputGate :: "nat \<Rightarrow> 'a::zero gate" where
  "new_PadOutputGate owner_id =
     (Gate_init PadOutputGate)\<lparr> mOwnerID := owner_id, mIsPadding := True \<rparr>"

definition new_MultGate :: "nat \<Rightarrow> nat \<Rightarrow> 'a::zero gate" where
  "new_MultGate left right = (Gate_init MultGate)\<lparr> mLeft := Some left, mRight := Some right \<rparr>"

definition new_PadMultGate :: "'a::zero gate" where
  "new_PadMultGate = (Gate_init PadMultGate)\<lparr> mIsPadding := True \<rparr>"

definition PadMultGate_UpdateParents :: "nat \<Rightarrow> nat \<Rightarrow> 'a gate \<Rightarrow> 'a gate" where
  "PadMultGate_UpdateParents left right G = G\<lparr> mLeft := Some left, mRight := Some right \<rparr>"

definition PadOutputGate_UpdateParent :: "nat \<Rightarrow> 'a gate \<Rightarrow> 'a gate" where
  "PadOutputGate_UpdateParent left G = G\<lparr> mLeft := Some left \<rparr>"

definition GetShrLambda :: "'a heap \<Rightarrow> nat \<Rightarrow> 'a res" where
  "GetShrLambda h g = bindE (vget h g) (\<lambda>G. Inr (mIndvShrLambdaC G))"

definition new_AddGate :: "'a::field heap \<Rightarrow> nat \<Rightarrow> nat \<Rightarrow> 'a gate res" where
  "new_AddGate h left right =
     bindE (GetShrLambda h left) (\<lambda>l. bindE (GetShrLambda h right) (\<lambda>r.
       Inr ((Gate_init AddGate)\<lparr> mLeft := Some left, mRight := Some right, mIndvShrLambdaC := l + r \<rparr>)))"

subsection \<open>The virtual getters\<close>

partial_function (option) GetMu :: "'a::field heap \<Rightarrow> nat \<Rightarrow> ('a \<times> 'a heap) res option" where
  "GetMu h g = bindP (Some (vget h g)) (\<lambda>G. case gclass G of
      AddGate \<Rightarrow>
        if mLearned G then retP (mMu G, h)
        else bindP (Some (deref (mLeft G))) (\<lambda>l. bindP (GetMu h l) (\<lambda>(x, h).
             bindP (Some (deref (mRight G))) (\<lambda>r. bindP (GetMu h r) (\<lambda>(y, h).
             retP (x + y, upd g (mMu_update (\<lambda>_. x + y) \<circ> mLearned_update (\<lambda>_. True)) h)))))
    | InputGate \<Rightarrow>
        if \<not> mLearned G then failP (Invalid_argument ''P1 hasn't learned this value yet'')
        else retP (mMu G, h)
    | PadInputGate \<Rightarrow> retP (0, h)
    | MultGate \<Rightarrow>
        if \<not> mLearned G then failP (Invalid_argument ''Run multiplication protocol first'')
        else retP (mMu G, h)
    | PadMultGate \<Rightarrow> retP (0, h)
    | OutputGate \<Rightarrow>
        if mLearned G then retP (mMu G, h)
        else bindP (Some (deref (mLeft G))) (\<lambda>l. bindP (GetMu h l) (\<lambda>(x, h).
             retP (x, upd g (mMu_update (\<lambda>_. x) \<circ> mLearned_update (\<lambda>_. True)) h)))
    | PadOutputGate \<Rightarrow> retP (0, h))"

partial_function (option) GetClear :: "'a::field heap \<Rightarrow> nat \<Rightarrow> ('a \<times> 'a heap) res option" where
  "GetClear h g = bindP (Some (vget h g)) (\<lambda>G.
     if gclass G = InputGate \<or> gclass G = PadInputGate
     then if \<not> mEvaluated G then failP (Invalid_argument ''This input has not been provided yet'')
          else retP (mClear G, h)
     else if mEvaluated G then retP (mClear G, h)
     else case gclass G of
      AddGate \<Rightarrow>
        bindP (Some (deref (mLeft G))) (\<lambda>l. bindP (GetClear h l) (\<lambda>(x, h).
        bindP (Some (deref (mRight G))) (\<lambda>r. bindP (GetClear h r) (\<lambda>(y, h).
        retP (x + y, upd g (mClear_update (\<lambda>_. x + y) \<circ> mEvaluated_update (\<lambda>_. True)) h)))))
    | MultGate \<Rightarrow>
        bindP (Some (deref (mLeft G))) (\<lambda>l. bindP (GetClear h l) (\<lambda>(x, h).
        bindP (Some (deref (mRight G))) (\<lambda>r. bindP (GetClear h r) (\<lambda>(y, h).
        retP (x * y, upd g (mClear_update (\<lambda>_. x * y) \<circ> mEvaluated_update (\<lambda>_. True)) h)))))
    | PadMultGate \<Rightarrow>
        bindP (Some (deref (mLeft G))) (\<lambda>l. bindP (GetClear h l) (\<lambda>(x, h).
        bindP (Some (deref (mRight G))) (\<lambda>r. bindP (GetClear h r) (\<lambda>(y, h).
        retP (x * y, upd g (mClear_update (\<lambda>_. x * y) \<circ> mEvaluated_update (\<lambda>_. True)) h)))))
    | _ \<Rightarrow>
        bindP (Some (deref (mLeft G))) (\<lambda>l. bindP (GetClear h l) (\<lambda>(x, h).
        retP (x, upd g (mClear_update (\<lambda>_. x) \<circ> mEvaluated_update (\<lambda>_. True)) h))))"

partial_function (option) GetDn07Share :: "'a::field heap \<Rightarrow> nat \<Rightarrow> ('a \<times> 'a heap) res option" where
  "GetDn07Share h g = bindP (Some (vget h g)) (\<lambda>G.
     if mDn07Set G then retP (mDn07Share G, h)
     else if gclass G = InputGate \<or> gclass G = PadInputGate
     then failP (Invalid_argument ''Dn07 shares is not set in this input gate'')
     else if gclass G = MultGate \<or> gclass G = PadMultGate
     then failP (Invalid_argument ''Dn07 shares is not set in this multiplication gate'')
     else if gclass G = AddGate
     then bindP (Some (deref (mLeft G))) (\<lambda>l. bindP (GetDn07Share h l) (\<lambda>(x, h).
          bindP (Some (deref (mRight G))) (\<lambda>r. bindP (GetDn07Share h r) (\<lambda>(y, h).
          retP (x + y, upd g (mDn07Share_update (\<lambda>_. x + y) \<circ> mDn07Set_update (\<lambda>_. True)) h)))))
     else bindP (Some (deref (mLeft G))) (\<lambda>l. bindP (GetDn07Share h l) (\<lambda>(x, h).
          retP (x, upd g (mDn07Share_update (\<lambda>_. x) \<circ> mDn07Set_update (\<lambda>_. True)) h))))"

partial_function (option) GetDummyLambda :: "'a::field heap \<Rightarrow> nat \<Rightarrow> ('a \<times> 'a heap) res option" where
  "GetDummyLambda h g = bindP (Some (vget h g)) (\<lambda>G. case gclass G of
      AddGate \<Rightarrow>
        if mLambdaSet G then retP (mLambda G, h)
        else bindP (Some (deref (mLeft G))) (\<lambda>l. bindP (GetDummyLambda h l) (\<lambda>(x, h).
             bindP (Some (deref (mRight G))) (\<lambda>r. bindP (GetDummyLambda h r) (\<lambda>(y, h).
             retP (x + y, upd g (mLambda_update (\<lambda>_. x + y) \<circ> mLambdaSet_update (\<lambda>_. True)) h)))))
    | InputGate \<Rightarrow>
        if \<not> mLambdaSet G then failP (Invalid_argument ''Lambda is not set in this input gate'')
        else retP (mLambda G, h)
    | PadInputGate \<Rightarrow> retP (0, h)
    | MultGate \<Rightarrow>
        if \<not> mLambdaSet G
        then failP (Invalid_argument ''Lambda is not set in this multiplication gate'')
        else retP (mLambda G, h)
    | PadMultGate \<Rightarrow> retP (0, h)
    | OutputGate \<Rightarrow>
        if mLambdaSet G then retP (mLambda G, h)
        else bindP (Some (deref (mLeft G))) (\<lambda>l. bindP (GetDummyLambda h l) (\<lambda>(x, h).
             retP (x, upd g (mLambda_update (\<lambda>_. x) \<circ> mLambdaSet_update (\<lambda>_. True)) h)))
    | PadOutputGate \<Rightarrow> retP (0, h))"

text \<open>
  \<open>OutputGate::GetIndvShrLambda\<close> fills its memo from the parent but returns \<open>mLambda\<close>.
\<close>

partial_function (option) GetIndvShrLambda :: "'a::field heap \<Rightarrow> nat \<Rightarrow> ('a \<times> 'a heap) res option" where
  "GetIndvShrLambda h g = bindP (Some (vget h g)) (\<lambda>G. case gclass G of
      AddGate \<Rightarrow>
        if mIndvShrLambdaCSet G then retP (mIndvShrLambdaC G, h)
        else bindP (Some (deref (mLeft G))) (\<lambda>l. bindP (GetIndvShrLambda h l) (\<lambda>(x, h).
             bindP (Some (deref (mRight G))) (\<lambda>r. bindP (GetIndvShrLambda h r) (\<lambda>(y, h).
             retP (x + y, upd g (mIndvShrLambdaC_update (\<lambda>_. x + y)
                                 \<circ> mIndvShrLambdaCSet_update (\<lambda>_. True)) h)))))
    | InputGate \<Rightarrow>
        if \<not> mIndvShrLambdaCSet G
        then failP (Invalid_argument ''IndvShrLambda is not set in this input gate'')
        else retP (mIndvShrLambdaC G, h)
    | PadInputGate \<Rightarrow> retP (0, h)
    | OutputGate \<Rightarrow>
        if mIndvShrLambdaCSet G then retP (mLambda G, h)
        else bindP (Some (deref (mLeft G))) (\<lambda>l. bindP (GetIndvShrLambda h l) (\<lambda>(x, h).
             retP (mLambda (h ! g), upd g (mIndvShrLambdaC_update (\<lambda>_. x)
                                 \<circ> mIndvShrLambdaCSet_update (\<lambda>_. True)) h)))
    | PadOutputGate \<Rightarrow>
        if mIndvShrLambdaCSet G then retP (mLambda G, h)
        else bindP (Some (deref (mLeft G))) (\<lambda>l. bindP (GetIndvShrLambda h l) (\<lambda>(x, h).
             retP (mLambda (h ! g), upd g (mIndvShrLambdaC_update (\<lambda>_. x)
                                 \<circ> mIndvShrLambdaCSet_update (\<lambda>_. True)) h)))
    | _ \<Rightarrow>
        if \<not> mIndvShrLambdaCSet G
        then failP (Invalid_argument ''IndvShrLambda is not set in this multiplication gate'')
        else retP (mIndvShrLambdaC G, h))"

declare GetMu.simps [code] GetClear.simps [code] GetDn07Share.simps [code] GetDummyLambda.simps [code]
  GetIndvShrLambda.simps [code]

section \<open>Memoisation is transparent\<close>

text \<open>What the body of a getter does at a gate, and the evaluation that ignores memoisation.\<close>

datatype 'a rule = Known 'a | Throws exn | Both "'a \<Rightarrow> 'a \<Rightarrow> 'a" | Parent

inductive evals :: "('a gate \<Rightarrow> 'a rule) \<Rightarrow> 'a heap \<Rightarrow> nat \<Rightarrow> 'a \<Rightarrow> bool" for rule h where
  evals_known: "g < length h \<Longrightarrow> rule (h ! g) = Known v \<Longrightarrow> evals rule h g v"
| evals_both: "g < length h \<Longrightarrow> rule (h ! g) = Both f \<Longrightarrow>
    mLeft (h ! g) = Some l \<Longrightarrow> evals rule h l x \<Longrightarrow>
    mRight (h ! g) = Some r \<Longrightarrow> evals rule h r y \<Longrightarrow> evals rule h g (f x y)"
| evals_parent: "g < length h \<Longrightarrow> rule (h ! g) = Parent \<Longrightarrow>
    mLeft (h ! g) = Some l \<Longrightarrow> evals rule h l x \<Longrightarrow> evals rule h g x"

inductive_cases evals_cases: "evals rule h g v"
inductive_simps evals_iff: "evals rule h g v"

lemma evals_det: "evals rule h g v \<Longrightarrow> evals rule h g w \<Longrightarrow> v = w"
proof (induction arbitrary: w rule: evals.induct)
  case (evals_both g f l x r y)
  from evals_both.prems evals_both.hyps obtain xa ya where
    xy: "evals rule h l xa" "evals rule h r ya" "w = f xa ya"
    by (auto simp: evals_iff [of rule h g w])
  then show ?case using evals_both.IH(1) [of xa] evals_both.IH(2) [of ya] by simp
next
  case (evals_known g v)
  then show ?case by (simp add: evals_iff [of rule h g w])
next
  case (evals_parent g l x)
  from evals_parent.prems evals_parent.hyps have "evals rule h l w"
    by (auto simp: evals_iff [of rule h g w])
  then show ?case by (rule evals_parent.IH)
qed

lemma evals_in_heap: "evals rule h g v \<Longrightarrow> g < length h"
  by (induction rule: evals.induct) simp_all

text \<open>
  The contract of a memoising getter: its recursion, and what storing a value in the memo does.
\<close>

locale memo_getter =
  fixes get :: "'a::field heap \<Rightarrow> nat \<Rightarrow> ('a \<times> 'a heap) res option"
    and rule :: "'a gate \<Rightarrow> 'a rule"
    and store :: "'a \<Rightarrow> 'a gate \<Rightarrow> 'a gate"
  assumes get_unfold: "g < length h \<Longrightarrow> get h g = (case rule (h ! g) of
        Known v \<Rightarrow> retP (v, h)
      | Throws e \<Rightarrow> failP e
      | Both f \<Rightarrow> bindP (Some (deref (mLeft (h ! g)))) (\<lambda>l. bindP (get h l) (\<lambda>(x, h').
                   bindP (Some (deref (mRight (h ! g)))) (\<lambda>r. bindP (get h' r) (\<lambda>(y, h').
                   retP (f x y, upd g (store (f x y)) h')))))
      | Parent \<Rightarrow> bindP (Some (deref (mLeft (h ! g)))) (\<lambda>l. bindP (get h l) (\<lambda>(x, h').
                   retP (x, upd g (store x) h'))))"
    and get_outside: "length h \<le> g \<Longrightarrow> get h g = failP Undefined"
    and store_known: "rule G = Both f \<or> rule G = Parent \<Longrightarrow> rule (store v G) = Known v"
    and store_store: "store v (store w G) = store v G"
    and store_links: "mLeft (store v G) = mLeft G" "mRight (store v G) = mRight G"
begin

definition memoised :: "'a heap \<Rightarrow> 'a heap \<Rightarrow> bool" where
  "memoised h h' \<longleftrightarrow> length h' = length h \<and> (\<forall>i < length h. h' ! i = h ! i \<or>
     (\<exists>v. evals rule h i v \<and> (rule (h ! i) = Parent \<or> (\<exists>f. rule (h ! i) = Both f))
        \<and> h' ! i = store v (h ! i)))"

lemma memoised_refl: "memoised h h"
  by (simp add: memoised_def)

lemma memoised_length: "memoised h h' \<Longrightarrow> length h' = length h"
  by (simp add: memoised_def)

lemma memoised_at:
  assumes "memoised h h'" "evals rule h i v"
  obtains "h' ! i = h ! i" | "h' ! i = store v (h ! i)" "rule (h' ! i) = Known v"
proof -
  have i: "i < length h" using assms(2) by (rule evals_in_heap)
  then consider "h' ! i = h ! i" | w where "evals rule h i w" "h' ! i = store w (h ! i)"
      "rule (h ! i) = Parent \<or> (\<exists>f. rule (h ! i) = Both f)"
    using assms(1) unfolding memoised_def by blast
  then show ?thesis
  proof cases
    case 2
    have "w = v" by (rule evals_det [OF 2(1) assms(2)])
    with 2(2) have st: "h' ! i = store v (h ! i)" by simp
    moreover have "rule (h' ! i) = Known v"
      unfolding st using 2(3) store_known by metis
    ultimately show ?thesis by (rule that(2))
  qed (rule that(1))
qed

lemma memoised_evals:
  assumes "memoised h h'" "evals rule h g v"
  shows "evals rule h' g v"
  using assms(2)
proof (induction rule: evals.induct)
  case (evals_known g v)
  have e: "evals rule h g v" using evals_known by (intro evals.evals_known)
  from memoised_at [OF assms(1) e] show ?case
    by cases (use evals_known memoised_length [OF assms(1)] in \<open>auto intro: evals.evals_known\<close>)
next
  case (evals_both g f l x r y)
  have e: "evals rule h g (f x y)" by (rule evals.evals_both [OF evals_both.hyps])
  have g: "g < length h'" using evals_both.hyps memoised_length [OF assms(1)] by simp
  from memoised_at [OF assms(1) e] show ?case
  proof cases
    case 1
    show ?thesis
      by (rule evals.evals_both [OF g _ _ evals_both.IH(1) _ evals_both.IH(2)])
        (simp_all add: 1 evals_both.hyps)
  next
    case 2
    show ?thesis using g 2(2) by (intro evals.evals_known)
  qed
next
  case (evals_parent g l x)
  have e: "evals rule h g x" by (rule evals.evals_parent [OF evals_parent.hyps])
  have g: "g < length h'" using evals_parent.hyps memoised_length [OF assms(1)] by simp
  from memoised_at [OF assms(1) e] show ?case
  proof cases
    case 1
    show ?thesis
      by (rule evals.evals_parent [OF g _ _ evals_parent.IH]) (simp_all add: 1 evals_parent.hyps)
  next
    case 2
    show ?thesis using g 2(2) by (intro evals.evals_known)
  qed
qed

lemma memoised_store:
  assumes "memoised h h'" "evals rule h g v" "rule (h ! g) = Parent \<or> (\<exists>f. rule (h ! g) = Both f)"
  shows "memoised h (upd g (store v) h')"
proof -
  have g: "g < length h" using assms(2) by (rule evals_in_heap)
  have "store v (h' ! g) = store v (h ! g)"
  proof -
    from assms(1) g consider "h' ! g = h ! g" | w where "h' ! g = store w (h ! g)"
      unfolding memoised_def by blast
    then show ?thesis by cases (simp_all add: store_store)
  qed
  then have at: "upd g (store v) h' ! g = store v (h ! g)"
    using assms(1) g by (simp add: upd_def memoised_def)
  have others: "upd g (store v) h' ! i = h' ! i" if "i \<noteq> g" for i using that by (simp add: upd_def)
  show ?thesis unfolding memoised_def
  proof (intro conjI allI impI)
    show "length (upd g (store v) h') = length h" using assms(1) by (simp add: upd_def memoised_def)
    fix i
    assume i: "i < length h"
    show "upd g (store v) h' ! i = h ! i \<or> (\<exists>v'. evals rule h i v' \<and>
        (rule (h ! i) = Parent \<or> (\<exists>f. rule (h ! i) = Both f))
        \<and> upd g (store v) h' ! i = store v' (h ! i))"
    proof (cases "i = g")
      case True
      with at assms(2,3) show ?thesis by blast
    next
      case False
      with others [of i] assms(1) i show ?thesis unfolding memoised_def by simp
    qed
  qed
qed

text \<open>
  A getter called on any heap reached by memoisation returns the memo-free value; it returns, too.
\<close>

lemma get_known: "g < length h \<Longrightarrow> rule (h ! g) = Known v \<Longrightarrow> get h g = Some (Inr (v, h))"
  by (simp add: get_unfold retP_def)

lemma get_evals_gen:
  "evals rule h g v \<Longrightarrow> memoised h h0 \<Longrightarrow> \<exists>h'. get h0 g = Some (Inr (v, h')) \<and> memoised h h'"
proof (induction arbitrary: h0 rule: evals.induct)
  case (evals_known g v)
  have e: "evals rule h g v" using evals_known.hyps by (intro evals.evals_known)
  have g: "g < length h0" using evals_known memoised_length by simp
  from memoised_at [OF evals_known.prems e] have "rule (h0 ! g) = Known v"
    by cases (simp_all add: evals_known.hyps)
  from get_known [OF g this] evals_known.prems show ?case by blast
next
  case (evals_both g f l x r y)
  have e: "evals rule h g (f x y)" by (rule evals.evals_both [OF evals_both.hyps])
  have g: "g < length h0" using evals_both memoised_length by simp
  from memoised_at [OF evals_both.prems e] show ?case
  proof cases
    case 1
    from evals_both.IH(1) [OF evals_both.prems] obtain h1 where
      h1: "get h0 l = Some (Inr (x, h1))" "memoised h h1" by blast
    from evals_both.IH(2) [OF h1(2)] obtain h2 where
      h2: "get h1 r = Some (Inr (y, h2))" "memoised h h2" by blast
    have "get h0 g = Some (Inr (f x y, upd g (store (f x y)) h2))"
      using g 1 evals_both.hyps h1 h2 by (simp add: get_unfold deref_def retP_def)
    then show ?thesis using memoised_store [OF h2(2) e] evals_both.hyps by blast
  next
    case 2
    from get_known [OF g 2(2)] evals_both.prems show ?thesis by blast
  qed
next
  case (evals_parent g l x)
  have e: "evals rule h g x" by (rule evals.evals_parent [OF evals_parent.hyps])
  have g: "g < length h0" using evals_parent memoised_length by simp
  from memoised_at [OF evals_parent.prems e] show ?case
  proof cases
    case 1
    from evals_parent.IH [OF evals_parent.prems] obtain h1 where
      h1: "get h0 l = Some (Inr (x, h1))" "memoised h h1" by blast
    have "get h0 g = Some (Inr (x, upd g (store x) h1))"
      using g 1 evals_parent.hyps h1 by (simp add: get_unfold deref_def retP_def)
    then show ?thesis using memoised_store [OF h1(2) e] evals_parent.hyps by blast
  next
    case 2
    from get_known [OF g 2(2)] evals_parent.prems show ?thesis by blast
  qed
qed

lemma get_evals:
  "evals rule h g v \<Longrightarrow> \<exists>h'. get h g = Some (Inr (v, h')) \<and> memoised h h'"
  by (rule get_evals_gen [OF _ memoised_refl])

text \<open>
  A getter returns, with a value or an exception, on every set of gates whose parents were
  allocated before them: the order in which the constructors build a circuit.
\<close>

definition older_parents :: "'a heap \<Rightarrow> (nat \<Rightarrow> bool) \<Rightarrow> bool" where
  "older_parents h P \<longleftrightarrow> (\<forall>i. P i \<longrightarrow> i < length h \<and>
     (rule (h ! i) = Parent \<or> (\<exists>f. rule (h ! i) = Both f) \<longrightarrow>
       (\<forall>l. mLeft (h ! i) = Some l \<longrightarrow> l < i \<and> P l) \<and> (\<forall>r. mRight (h ! i) = Some r \<longrightarrow> r < i \<and> P r)))"

lemma get_total_gen:
  "older_parents h P \<Longrightarrow> P g \<Longrightarrow> memoised h h0 \<Longrightarrow>
    (\<exists>v. evals rule h g v) \<or> (\<exists>e. get h0 g = Some (Inl e))"
proof (induction g arbitrary: h0 rule: less_induct)
  case (less g)
  have g: "g < length h" using less.prems(1,2) unfolding older_parents_def by blast
  then have "g < length h0" using memoised_length [OF less.prems(3)] by simp
  note g = g this
  show ?case
  proof (cases "h0 ! g = h ! g")
    case False
    then show ?thesis using less.prems(3) g(1) unfolding memoised_def by blast
  next
    case same: True
    show ?thesis
    proof (cases "rule (h ! g)")
      case (Known v)
      then have "evals rule h g v" using g(1) by (intro evals_known)
      then show ?thesis by blast
    next
      case (Throws e)
      then show ?thesis using g same by (simp add: get_unfold failP_def)
    next
      case (Both f)
      show ?thesis
      proof (cases "mLeft (h ! g)")
        case None
        then show ?thesis using Both g same by (simp add: get_unfold deref_def)
      next
        case l: (Some l)
        then have "l < g" "P l" using less.prems Both unfolding older_parents_def by blast+
        from less.IH [OF this(1) less.prems(1) this(2) less.prems(3)] show ?thesis
        proof
          assume "\<exists>e. get h0 l = Some (Inl e)"
          then show ?thesis using Both g same l by (auto simp: get_unfold deref_def)
        next
          assume "\<exists>v. evals rule h l v"
          then obtain x where x: "evals rule h l x" ..
          from get_evals_gen [OF x less.prems(3)] obtain h1 where
            h1: "get h0 l = Some (Inr (x, h1))" "memoised h h1" by blast
          show ?thesis
          proof (cases "mRight (h ! g)")
            case None
            then show ?thesis using Both g same l h1 by (simp add: get_unfold deref_def)
          next
            case r: (Some r)
            then have "r < g" "P r" using less.prems Both unfolding older_parents_def by blast+
            from less.IH [OF this(1) less.prems(1) this(2) h1(2)] show ?thesis
            proof
              assume "\<exists>e. get h1 r = Some (Inl e)"
              then show ?thesis using Both g same l r h1 by (auto simp: get_unfold deref_def)
            next
              assume "\<exists>v. evals rule h r v"
              then show ?thesis using evals_both [of g h rule f l x r] g(1) Both l x r by blast
            qed
          qed
        qed
      qed
    next
      case Parent
      show ?thesis
      proof (cases "mLeft (h ! g)")
        case None
        then show ?thesis using Parent g same by (simp add: get_unfold deref_def)
      next
        case l: (Some l)
        then have "l < g" "P l" using less.prems Parent unfolding older_parents_def by blast+
        from less.IH [OF this(1) less.prems(1) this(2) less.prems(3)] show ?thesis
        proof
          assume "\<exists>e. get h0 l = Some (Inl e)"
          then show ?thesis using Parent g same l by (auto simp: get_unfold deref_def)
        next
          assume "\<exists>v. evals rule h l v"
          then show ?thesis using evals_parent [of g h rule l] g(1) Parent l by blast
        qed
      qed
    qed
  qed
qed

lemma get_total:
  "older_parents h P \<Longrightarrow> P g \<Longrightarrow>
    (\<exists>v h'. get h g = Some (Inr (v, h')) \<and> evals rule h g v \<and> memoised h h')
    \<or> (\<exists>e. get h g = Some (Inl e))"
  using get_total_gen [of h P g h] get_evals memoised_refl by blast

end

subsection \<open>The four getters that keep the contract\<close>

definition mu_rule :: "'a::field gate \<Rightarrow> 'a rule" where
  "mu_rule G = (case gclass G of
      AddGate \<Rightarrow> if mLearned G then Known (mMu G) else Both (+)
    | InputGate \<Rightarrow> if mLearned G then Known (mMu G)
        else Throws (Invalid_argument ''P1 hasn't learned this value yet'')
    | MultGate \<Rightarrow> if mLearned G then Known (mMu G)
        else Throws (Invalid_argument ''Run multiplication protocol first'')
    | OutputGate \<Rightarrow> if mLearned G then Known (mMu G) else Parent
    | _ \<Rightarrow> Known 0)"

definition clear_rule :: "'a::field gate \<Rightarrow> 'a rule" where
  "clear_rule G = (if mEvaluated G then Known (mClear G) else (case gclass G of
      AddGate \<Rightarrow> Both (+)
    | InputGate \<Rightarrow> Throws (Invalid_argument ''This input has not been provided yet'')
    | PadInputGate \<Rightarrow> Throws (Invalid_argument ''This input has not been provided yet'')
    | MultGate \<Rightarrow> Both (*)
    | PadMultGate \<Rightarrow> Both (*)
    | _ \<Rightarrow> Parent))"

definition dn07_rule :: "'a::field gate \<Rightarrow> 'a rule" where
  "dn07_rule G = (if mDn07Set G then Known (mDn07Share G) else (case gclass G of
      AddGate \<Rightarrow> Both (+)
    | InputGate \<Rightarrow> Throws (Invalid_argument ''Dn07 shares is not set in this input gate'')
    | PadInputGate \<Rightarrow> Throws (Invalid_argument ''Dn07 shares is not set in this input gate'')
    | MultGate \<Rightarrow> Throws (Invalid_argument ''Dn07 shares is not set in this multiplication gate'')
    | PadMultGate \<Rightarrow> Throws (Invalid_argument ''Dn07 shares is not set in this multiplication gate'')
    | _ \<Rightarrow> Parent))"

definition lambda_rule :: "'a::field gate \<Rightarrow> 'a rule" where
  "lambda_rule G = (case gclass G of
      AddGate \<Rightarrow> if mLambdaSet G then Known (mLambda G) else Both (+)
    | InputGate \<Rightarrow> if mLambdaSet G then Known (mLambda G)
        else Throws (Invalid_argument ''Lambda is not set in this input gate'')
    | MultGate \<Rightarrow> if mLambdaSet G then Known (mLambda G)
        else Throws (Invalid_argument ''Lambda is not set in this multiplication gate'')
    | OutputGate \<Rightarrow> if mLambdaSet G then Known (mLambda G) else Parent
    | _ \<Rightarrow> Known 0)"

interpretation mu: memo_getter GetMu mu_rule "\<lambda>v. mMu_update (\<lambda>_. v) \<circ> mLearned_update (\<lambda>_. True)"
proof
  fix h :: "'a heap" and g
  assume "g < length h"
  then show "GetMu h g = (case mu_rule (h ! g) of
        Known v \<Rightarrow> retP (v, h)
      | Throws e \<Rightarrow> failP e
      | Both f \<Rightarrow> bindP (Some (deref (mLeft (h ! g)))) (\<lambda>l. bindP (GetMu h l) (\<lambda>(x, h').
                   bindP (Some (deref (mRight (h ! g)))) (\<lambda>r. bindP (GetMu h' r) (\<lambda>(y, h').
                   retP (f x y, upd g ((mMu_update (\<lambda>_. f x y)) \<circ> mLearned_update (\<lambda>_. True)) h')))))
      | Parent \<Rightarrow> bindP (Some (deref (mLeft (h ! g)))) (\<lambda>l. bindP (GetMu h l) (\<lambda>(x, h').
                   retP (x, upd g (mMu_update (\<lambda>_. x) \<circ> mLearned_update (\<lambda>_. True)) h'))))"
    by (subst GetMu.simps) (simp add: mu_rule_def split: gate_class.split)
qed (subst GetMu.simps, auto simp: mu_rule_def failP_def split: gate_class.splits if_splits)

interpretation clear: memo_getter GetClear clear_rule "\<lambda>v. mClear_update (\<lambda>_. v) \<circ> mEvaluated_update (\<lambda>_. True)"
proof
  fix h :: "'a heap" and g
  assume "g < length h"
  then show "GetClear h g = (case clear_rule (h ! g) of
        Known v \<Rightarrow> retP (v, h)
      | Throws e \<Rightarrow> failP e
      | Both f \<Rightarrow> bindP (Some (deref (mLeft (h ! g)))) (\<lambda>l. bindP (GetClear h l) (\<lambda>(x, h').
                   bindP (Some (deref (mRight (h ! g)))) (\<lambda>r. bindP (GetClear h' r) (\<lambda>(y, h').
                   retP (f x y, upd g (mClear_update (\<lambda>_. f x y) \<circ> mEvaluated_update (\<lambda>_. True)) h')))))
      | Parent \<Rightarrow> bindP (Some (deref (mLeft (h ! g)))) (\<lambda>l. bindP (GetClear h l) (\<lambda>(x, h').
                   retP (x, upd g (mClear_update (\<lambda>_. x) \<circ> mEvaluated_update (\<lambda>_. True)) h'))))"
    by (subst GetClear.simps) (simp add: clear_rule_def split: gate_class.split)
qed (subst GetClear.simps, auto simp: clear_rule_def failP_def split: gate_class.splits if_splits)

interpretation dn07: memo_getter GetDn07Share dn07_rule "\<lambda>v. mDn07Share_update (\<lambda>_. v) \<circ> mDn07Set_update (\<lambda>_. True)"
proof
  fix h :: "'a heap" and g
  assume "g < length h"
  then show "GetDn07Share h g = (case dn07_rule (h ! g) of
        Known v \<Rightarrow> retP (v, h)
      | Throws e \<Rightarrow> failP e
      | Both f \<Rightarrow> bindP (Some (deref (mLeft (h ! g)))) (\<lambda>l. bindP (GetDn07Share h l) (\<lambda>(x, h').
                   bindP (Some (deref (mRight (h ! g)))) (\<lambda>r. bindP (GetDn07Share h' r) (\<lambda>(y, h').
                   retP (f x y, upd g (mDn07Share_update (\<lambda>_. f x y) \<circ> mDn07Set_update (\<lambda>_. True)) h')))))
      | Parent \<Rightarrow> bindP (Some (deref (mLeft (h ! g)))) (\<lambda>l. bindP (GetDn07Share h l) (\<lambda>(x, h').
                   retP (x, upd g (mDn07Share_update (\<lambda>_. x) \<circ> mDn07Set_update (\<lambda>_. True)) h'))))"
    by (subst GetDn07Share.simps) (simp add: dn07_rule_def split: gate_class.split)
qed (subst GetDn07Share.simps, auto simp: dn07_rule_def failP_def split: gate_class.splits if_splits)

interpretation lam: memo_getter GetDummyLambda lambda_rule "\<lambda>v. mLambda_update (\<lambda>_. v) \<circ> mLambdaSet_update (\<lambda>_. True)"
proof
  fix h :: "'a heap" and g
  assume "g < length h"
  then show "GetDummyLambda h g = (case lambda_rule (h ! g) of
        Known v \<Rightarrow> retP (v, h)
      | Throws e \<Rightarrow> failP e
      | Both f \<Rightarrow> bindP (Some (deref (mLeft (h ! g)))) (\<lambda>l. bindP (GetDummyLambda h l) (\<lambda>(x, h').
                   bindP (Some (deref (mRight (h ! g)))) (\<lambda>r. bindP (GetDummyLambda h' r) (\<lambda>(y, h').
                   retP (f x y, upd g (mLambda_update (\<lambda>_. f x y) \<circ> mLambdaSet_update (\<lambda>_. True)) h')))))
      | Parent \<Rightarrow> bindP (Some (deref (mLeft (h ! g)))) (\<lambda>l. bindP (GetDummyLambda h l) (\<lambda>(x, h').
                   retP (x, upd g (mLambda_update (\<lambda>_. x) \<circ> mLambdaSet_update (\<lambda>_. True)) h'))))"
    by (subst GetDummyLambda.simps) (simp add: lambda_rule_def split: gate_class.split)
qed (subst GetDummyLambda.simps, auto simp: lambda_rule_def failP_def split: gate_class.splits if_splits)

subsection \<open>Padding gates and the cleartext getter\<close>

text \<open>
  A padding multiplication gate is its own parent. \<open>GetMu\<close> and \<open>GetDummyLambda\<close> never look at
  the parents, but \<open>GetClear\<close> is inherited from \<open>MultGate\<close> and recurses without end.
\<close>

lemma GetClear_self_parent:
  fixes h :: "'a::field heap"
  assumes "g < length h" "gclass (h ! g) = PadMultGate" "mLeft (h ! g) = Some g" "\<not> mEvaluated (h ! g)"
  shows "GetClear h g = None"
proof -
  have "g < length h \<longrightarrow> gclass (h ! g) = PadMultGate \<longrightarrow>
      mLeft (h ! g) = Some g \<longrightarrow> \<not> mEvaluated (h ! g) \<longrightarrow> False"
    if "GetClear h g = Some r" for h :: "'a heap" and g r
    using that
  proof (induction rule: GetClear.raw_induct [rotated 1, consumes 1, case_names step])
    case (step rec h g r)
    show ?case
    proof (intro impI)
      assume *: "g < length h" "gclass (h ! g) = PadMultGate" "mLeft (h ! g) = Some g" "\<not> mEvaluated (h ! g)"
      with step(2) obtain r' where r': "rec h g = Some r'"
        by (cases "rec h g") (simp_all add: deref_def)
      from step(1) [OF r'] * show False by blast
    qed
  qed
  with assms show ?thesis by (cases "GetClear h g") auto
qed

text \<open>
  \<open>OutputGate::GetIndvShrLambda\<close> returns \<open>mLambda\<close>, not the share it has just taken from its parent.
\<close>

lemma OutputGate_GetIndvShrLambda:
  assumes "g < length h" "gclass (h ! g) = OutputGate" "mIndvShrLambdaCSet (h ! g)"
  shows "GetIndvShrLambda h g = Some (Inr (mLambda (h ! g), h))"
  by (subst GetIndvShrLambda.simps) (simp add: assms retP_def)

section \<open>The invariant of the masked wires\<close>

text \<open>
  \<open>mu = value - lambda\<close> on every wire: once it holds of the wires that \<open>GetMu\<close> reads from a memo, the
  linear gates carry it to every wire that \<open>GetMu\<close> can evaluate.
\<close>

definition linear_wires :: "'a::field heap \<Rightarrow> (nat \<Rightarrow> 'a) \<Rightarrow> bool" where
  "linear_wires h w \<longleftrightarrow> (\<forall>g < length h.
     (gclass (h ! g) = AddGate \<longrightarrow> (\<forall>l r. mLeft (h ! g) = Some l \<longrightarrow> mRight (h ! g) = Some r \<longrightarrow> w g = w l + w r))
     \<and> (gclass (h ! g) = OutputGate \<longrightarrow> (\<forall>l. mLeft (h ! g) = Some l \<longrightarrow> w g = w l))
     \<and> (gclass (h ! g) \<in> {PadInputGate, PadMultGate, PadOutputGate} \<longrightarrow> w g = 0))"

definition learned_mu :: "'a::field heap \<Rightarrow> (nat \<Rightarrow> 'a) \<Rightarrow> (nat \<Rightarrow> 'a) \<Rightarrow> bool" where
  "learned_mu h v lam \<longleftrightarrow> (\<forall>g < length h. mLearned (h ! g) \<longrightarrow> mMu (h ! g) = v g - lam g)"

lemma evals_mu:
  assumes "linear_wires h v" "linear_wires h lam" "learned_mu h v lam" "evals mu_rule h g m"
  shows "m = v g - lam g"
  using assms(4)
proof (induction rule: evals.induct)
  case (evals_known g m)
  then show ?case using assms(1-3)
    by (auto simp: mu_rule_def linear_wires_def learned_mu_def split: gate_class.splits if_splits)
next
  case (evals_both g f l x r y)
  then have "gclass (h ! g) = AddGate" "f = (+)"
    by (auto simp: mu_rule_def split: gate_class.splits if_splits)
  with evals_both assms(1,2) show ?case by (simp add: linear_wires_def)
next
  case (evals_parent g l x)
  then have "gclass (h ! g) = OutputGate"
    by (auto simp: mu_rule_def split: gate_class.splits if_splits)
  with evals_parent assms(1,2) show ?case by (simp add: linear_wires_def)
qed

section \<open>Properties\<close>

text \<open>
  C17: memoisation is transparent. When the memo-free evaluation of a wire yields \<open>v\<close>, \<open>GetMu\<close> returns
  \<open>v\<close>, and although it has written into the gates on its way, every wire still evaluates to what it
  did before.
\<close>

theorem GetMu_transparent:
  assumes "evals mu_rule h g v"
  shows "\<exists>h'. GetMu h g = Some (Inr (v, h')) \<and> length h' = length h
    \<and> {(i, w). evals mu_rule h i w} \<subseteq> {(i, w). evals mu_rule h' i w}"
proof -
  from mu.get_evals [OF assms] obtain h' where h': "GetMu h g = Some (Inr (v, h'))" "mu.memoised h h'"
    by blast
  then show ?thesis using mu.memoised_evals [OF h'(2)] mu.memoised_length [OF h'(2)] by blast
qed

definition sample_heap :: "ff61 heap" where
  "sample_heap = [(new_InputGate 0)\<lparr> mMu := 3, mLearned := True \<rparr>,
     (new_InputGate 1)\<lparr> mMu := 4, mLearned := True \<rparr>,
     (Gate_init AddGate)\<lparr> mLeft := Some 0, mRight := Some 1 \<rparr>]"

lemma sample_evals:
  "evals mu_rule sample_heap 0 3" "evals mu_rule sample_heap 1 4" "evals mu_rule sample_heap 2 7"
proof -
  show a: "evals mu_rule sample_heap 0 3" and b: "evals mu_rule sample_heap 1 4"
    by (rule evals.evals_known; simp add: sample_heap_def mu_rule_def new_InputGate_def Gate_init_def)+
  have "evals mu_rule sample_heap 2 ((+) 3 4)"
    by (rule evals.evals_both [OF _ _ _ a _ b])
      (simp_all add: sample_heap_def mu_rule_def Gate_init_def)
  then show "evals mu_rule sample_heap 2 7" by simp
qed

theorem GetMu_transparent_witness:
  "\<exists>h'. GetMu sample_heap 2 = Some (Inr (7, h')) \<and> length h' = 3"
  using GetMu_transparent [OF sample_evals(3)] by (auto simp: sample_heap_def)

definition built_in_order :: "'a heap \<Rightarrow> bool" where
  "built_in_order h \<longleftrightarrow> list_all (\<lambda>i. mIsPadding (h ! i) \<or>
     (case mLeft (h ! i) of None \<Rightarrow> True | Some l \<Rightarrow> l < i \<and> \<not> mIsPadding (h ! l)) \<and>
     (case mRight (h ! i) of None \<Rightarrow> True | Some r \<Rightarrow> r < i \<and> \<not> mIsPadding (h ! r))) [0..<length h]"

lemma built_in_orderD:
  assumes "built_in_order h" "i < length h" "\<not> mIsPadding (h ! i)"
  shows "\<And>l. mLeft (h ! i) = Some l \<Longrightarrow> l < i \<and> \<not> mIsPadding (h ! l)"
    and "\<And>r. mRight (h ! i) = Some r \<Longrightarrow> r < i \<and> \<not> mIsPadding (h ! r)"
proof -
  have "mIsPadding (h ! i) \<or>
     (case mLeft (h ! i) of None \<Rightarrow> True | Some l \<Rightarrow> l < i \<and> \<not> mIsPadding (h ! l)) \<and>
     (case mRight (h ! i) of None \<Rightarrow> True | Some r \<Rightarrow> r < i \<and> \<not> mIsPadding (h ! r))"
    using assms(1,2) unfolding built_in_order_def by (simp add: list_all_iff)
  with assms(3) show "\<And>l. mLeft (h ! i) = Some l \<Longrightarrow> l < i \<and> \<not> mIsPadding (h ! l)"
    and "\<And>r. mRight (h ! i) = Some r \<Longrightarrow> r < i \<and> \<not> mIsPadding (h ! r)" by auto
qed



text \<open>
  C25: the cleartext getter of a padding multiplication gate, which is its own parent, never returns:
  \<open>PadMultGate\<close> overrides \<open>GetMu\<close> and \<open>GetDummyLambda\<close> but not \<open>GetClear\<close>.
\<close>

theorem GetClear_padding_diverges:
  "GetClear (h @ [PadMultGate_UpdateParents (length h) (length h) new_PadMultGate]) (length h)
    = (None :: ('a::field \<times> 'a heap) res option)"
  by (rule GetClear_self_parent)
    (simp_all add: PadMultGate_UpdateParents_def new_PadMultGate_def Gate_init_def)

end
