(* ===== verification/Network.thy ===== *)
theory Network
  imports VecOps
begin

text \<open>
  The communication layer of the library: the thread-safe queue \<open>SharedDeque\<close>, the in-memory
  channel with its overflow buffer, the typed sends and receives of \<open>Channel\<close>, and the fully
  connected in-memory network. A receive on an empty queue waits; with no other thread running it
  is the result \<open>Blocked\<close>. The locale \<open>byte_pipe\<close> is the contract of a channel (a FIFO of bytes),
  \<open>fifo_network\<close> that of a network of field elements, on which the protocols rest.
\<close>

type_synonym bytes = "8 word list"

section \<open>The queue and the channel\<close>

definition SharedDeque_PushBack :: "'a \<Rightarrow> 'a list \<Rightarrow> 'a list" where
  "SharedDeque_PushBack item mDeck = mDeck @ [item]"

definition SharedDeque_Pop :: "'a list \<Rightarrow> ('a \<times> 'a list) res" where
  "SharedDeque_Pop mDeck = (case mDeck of [] \<Rightarrow> Inl Blocked | x # rest \<Rightarrow> Inr (x, rest))"

definition SharedDeque_PopFront :: "'a list \<Rightarrow> 'a list res" where
  "SharedDeque_PopFront mDeck = (case mDeck of [] \<Rightarrow> Inl Blocked | x # rest \<Rightarrow> Inr rest)"

definition SharedDeque_Peek :: "'a list \<Rightarrow> 'a res" where
  "SharedDeque_Peek mDeck = (case mDeck of [] \<Rightarrow> Inl Blocked | x # rest \<Rightarrow> Inr x)"

definition SharedDeque_Size :: "'a list \<Rightarrow> nat" where
  "SharedDeque_Size mDeck = length mDeck"

text \<open>
  The receiving end of an in-memory channel: its queue of messages, and the bytes left over from
  the last one. \<open>Recv_loop rem\<close> is the while loop; it recurses over the messages it pops.
\<close>

fun Recv_loop :: "nat \<Rightarrow> bytes \<Rightarrow> bytes list \<Rightarrow> (bytes \<times> bytes \<times> bytes list) res" where
  "Recv_loop rem overflow mIn =
     (if rem = 0 then Inr ([], overflow, mIn)
      else case mIn of
        [] \<Rightarrow> Inl Blocked
      | data # mIn' \<Rightarrow>
          let to_copy = (if length data > rem then rem else length data);
              overflow' = (if to_copy < length data then overflow @ drop to_copy data else overflow)
          in bindE (Recv_loop (rem - to_copy) overflow' mIn')
               (\<lambda>(dst, overflow, mIn). Inr (take to_copy data @ dst, overflow, mIn)))"

declare Recv_loop.simps [simp del]

definition InMemoryChannel_Send :: "bytes \<Rightarrow> bytes list \<Rightarrow> bytes list" where
  "InMemoryChannel_Send src mOut = SharedDeque_PushBack src mOut"

definition InMemoryChannel_Recv :: "nat \<Rightarrow> bytes \<times> bytes list \<Rightarrow> (bytes \<times> bytes \<times> bytes list) res" where
  "InMemoryChannel_Recv n = (\<lambda>(mOverflow, mIn).
     let leftovers = length mOverflow in
     if leftovers > 0
     then let to_copy = (if leftovers > n then n else leftovers) in
          bindE (Recv_loop (n - to_copy) (drop to_copy mOverflow) mIn)
            (\<lambda>(dst, overflow, mIn). Inr (take to_copy mOverflow @ dst, overflow, mIn))
     else Recv_loop n mOverflow mIn)"

definition InMemoryChannel_Flush :: "bytes \<times> bytes list \<Rightarrow> bytes \<times> bytes list" where
  "InMemoryChannel_Flush = (\<lambda>(mOverflow, mIn). ([], []))"

definition pipe_contents :: "bytes \<times> bytes list \<Rightarrow> bytes" where
  "pipe_contents = (\<lambda>(overflow, mIn). overflow @ concat mIn)"

lemma Recv_loop_correct:
  "rem = 0 \<or> overflow = [] \<Longrightarrow>
    (if rem \<le> length (concat mIn)
     then \<exists>ov mIn'. Recv_loop rem overflow mIn = Inr (take rem (concat mIn), ov, mIn')
        \<and> ov @ concat mIn' = overflow @ drop rem (concat mIn)
     else Recv_loop rem overflow mIn = Inl Blocked)"
proof (induction mIn arbitrary: rem overflow)
  case Nil
  then show ?case by (auto simp: Recv_loop.simps [of _ _ "[]"])
next
  case (Cons data mIn)
  show ?case
  proof (cases "rem = 0")
    case True
    then show ?thesis by (auto simp: Recv_loop.simps [of 0])
  next
    case False
    then have ov: "overflow = []" using Cons.prems by simp
    show ?thesis
    proof (cases "length data > rem")
      case True
      then show ?thesis using False ov
        by (simp add: Recv_loop.simps [of rem] Recv_loop.simps [of 0])
    next
      case short: False
      have IH: "if rem - length data \<le> length (concat mIn)
        then \<exists>ov mIn'. Recv_loop (rem - length data) [] mIn
            = Inr (take (rem - length data) (concat mIn), ov, mIn')
          \<and> ov @ concat mIn' = [] @ drop (rem - length data) (concat mIn)
        else Recv_loop (rem - length data) [] mIn = Inl Blocked"
        by (rule Cons.IH) simp
      show ?thesis
      proof (cases "rem - length data \<le> length (concat mIn)")
        case True
        with IH obtain ov' mIn' where r: "Recv_loop (rem - length data) [] mIn
            = Inr (take (rem - length data) (concat mIn), ov', mIn')"
          "ov' @ concat mIn' = drop (rem - length data) (concat mIn)" by auto
        moreover have "rem \<le> length (concat (data # mIn))" using True short by simp
        ultimately show ?thesis using False short ov
          by (simp add: Recv_loop.simps [of rem])
      next
        case False
        with IH have "Recv_loop (rem - length data) [] mIn = Inl Blocked" by simp
        moreover have "\<not> rem \<le> length (concat (data # mIn))" using False short by simp
        ultimately show ?thesis using \<open>rem \<noteq> 0\<close> short ov
          by (simp add: Recv_loop.simps [of rem])
      qed
    qed
  qed
qed

text \<open>The receive takes the oldest \<open>n\<close> bytes, however they were cut into messages, or blocks.\<close>

lemma InMemoryChannel_Recv_correct:
  "if n \<le> length (pipe_contents c)
   then \<exists>c'. InMemoryChannel_Recv n c = Inr (take n (pipe_contents c), c')
      \<and> pipe_contents c' = drop n (pipe_contents c)
   else InMemoryChannel_Recv n c = Inl Blocked"
proof (cases c)
  case (Pair ov q)
  show ?thesis
  proof (cases "ov = []")
    case True
    then show ?thesis using Recv_loop_correct [of n "[]" q] Pair
      by (auto simp: InMemoryChannel_Recv_def pipe_contents_def Let_def)
  next
    case False
    let ?c = "if length ov > n then n else length ov"
    have rem: "n - ?c = 0 \<or> drop ?c ov = []" by simp
    show ?thesis
    proof (cases "n - ?c \<le> length (concat q)")
      case True
      with Recv_loop_correct [OF rem, of q] obtain ov' q' where
        r: "Recv_loop (n - ?c) (drop ?c ov) q = Inr (take (n - ?c) (concat q), ov', q')"
          "ov' @ concat q' = drop ?c ov @ drop (n - ?c) (concat q)" by auto
      then have "InMemoryChannel_Recv n c = Inr (take ?c ov @ take (n - ?c) (concat q), ov', q')"
        using False Pair by (simp add: InMemoryChannel_Recv_def Let_def)
      then show ?thesis using r(2) True Pair by (auto simp: pipe_contents_def)
    next
      case F: False
      with Recv_loop_correct [OF rem, of q]
      have "Recv_loop (n - ?c) (drop ?c ov) q = Inl Blocked" by (simp del: drop_eq_Nil)
      then have "InMemoryChannel_Recv n c = Inl Blocked"
        using False Pair by (simp add: InMemoryChannel_Recv_def Let_def)
      then show ?thesis using F Pair by (auto simp: pipe_contents_def split: if_splits)
    qed
  qed
qed

section \<open>Typed messages\<close>

text \<open>
  \<open>Channel::Send\<close> and \<open>Channel::Recv\<close> for an object of \<open>size\<close> bytes and for a \<open>Vec\<close>, over the two
  virtual functions of the channel. The pipe is the direction from the sender to the receiver.
\<close>

definition MAX_VEC_READ_SIZE :: nat where
  "MAX_VEC_READ_SIZE = 2 ^ 25"

definition Channel_SendU32 :: "(bytes \<Rightarrow> 'p \<Rightarrow> 'p) \<Rightarrow> 32 word \<Rightarrow> 'p \<Rightarrow> 'p" where
  "Channel_SendU32 put src p = put (le_bytes 4 src) p"

definition Channel_RecvSize :: "(nat \<Rightarrow> 'p \<Rightarrow> (bytes \<times> 'p) res) \<Rightarrow> 'p \<Rightarrow> (32 word \<times> 'p) res" where
  "Channel_RecvSize get p = bindE (get 4 p) (\<lambda>(bs, p). Inr (le_word bs, p))"

definition Channel_SendVec ::
  "(bytes \<Rightarrow> 'p \<Rightarrow> 'p) \<Rightarrow> ('a \<Rightarrow> bytes) \<Rightarrow> 'a list \<Rightarrow> 'p \<Rightarrow> 'p" where
  "Channel_SendVec put wr vec p =
     (let vec_size = of_nat (length vec); p = Channel_SendU32 put vec_size p
      in put (Vec_Write wr vec) p)"

definition Channel_RecvVec ::
  "(nat \<Rightarrow> 'p \<Rightarrow> (bytes \<times> 'p) res) \<Rightarrow> (bytes \<Rightarrow> 'a res) \<Rightarrow> nat \<Rightarrow> 'p \<Rightarrow> ('a list \<times> 'p) res" where
  "Channel_RecvVec get rd bsz p =
     bindE (Channel_RecvSize get p) (\<lambda>(vec_size, p).
     throw_if (unat vec_size > MAX_VEC_READ_SIZE)
       (Logic_error ''received vector exceeds size limit'') (
     let n = (unat vec_size * bsz) mod 2 ^ 64 in
     bindE (get n p) (\<lambda>(buf, p).
     bindE (Vec_Read rd bsz (unat vec_size) buf) (\<lambda>vec. Inr (vec, p)))))"

text \<open>The contract of a channel: a first-in first-out pipe of bytes.\<close>

locale byte_pipe =
  fixes put :: "bytes \<Rightarrow> 'p \<Rightarrow> 'p" and get :: "nat \<Rightarrow> 'p \<Rightarrow> (bytes \<times> 'p) res"
    and contents :: "'p \<Rightarrow> bytes"
  assumes snd_contents: "contents (put bs p) = contents p @ bs"
    and rcv_contents: "n \<le> length (contents p) \<Longrightarrow>
      \<exists>p'. get n p = Inr (take n (contents p), p') \<and> contents p' = drop n (contents p)"
    and rcv_blocks: "length (contents p) < n \<Longrightarrow> get n p = Inl Blocked"
begin

lemma rcv_front:
  "contents p = bs @ rest \<Longrightarrow> n = length bs \<Longrightarrow> \<exists>p'. get n p = Inr (bs, p') \<and> contents p' = rest"
  using rcv_contents [of n p] by simp

lemma RecvSize_front:
  assumes "contents p = le_bytes 4 (w :: 32 word) @ rest"
  shows "\<exists>p'. Channel_RecvSize get p = Inr (w, p') \<and> contents p' = rest"
proof -
  obtain p' where "get 4 p = Inr (le_bytes 4 w, p')" "contents p' = rest"
    using rcv_front [OF assms, of 4] by auto
  moreover have "le_word (le_bytes 4 w) = w"
    using le_word_le_bytes [of 4, where 'w = 32] by (simp add: take_bit_word_eq_self)
  ultimately show ?thesis by (simp add: Channel_RecvSize_def)
qed

end

text \<open>What is sent as a \<open>Vec\<close> is received as that \<open>Vec\<close>, and what follows it stays in the pipe.\<close>

locale vec_channel = byte_pipe put get contents + element_codec rd wr bsz
  for put :: "bytes \<Rightarrow> 'p \<Rightarrow> 'p" and get :: "nat \<Rightarrow> 'p \<Rightarrow> (bytes \<times> 'p) res"
    and contents :: "'p \<Rightarrow> bytes" and rd :: "bytes \<Rightarrow> 'a res" and wr :: "'a \<Rightarrow> bytes" and bsz :: nat +
  assumes bsz_small: "bsz < 2 ^ 32"
begin

lemma RecvVec_SendVec:
  assumes "length vec \<le> MAX_VEC_READ_SIZE" "contents p = []"
    and "contents q = contents (Channel_SendVec put wr vec p) @ rest"
  shows "\<exists>q'. Channel_RecvVec get rd bsz q = Inr (vec, q') \<and> contents q' = rest"
proof -
  have u: "unat (of_nat (length vec) :: 32 word) = length vec"
    using assms(1) by (simp add: unat_of_nat take_bit_nat_eq_self MAX_VEC_READ_SIZE_def)
  have "contents q = le_bytes 4 (of_nat (length vec) :: 32 word) @ Vec_Write wr vec @ rest"
    using assms(2,3) by (simp add: Channel_SendVec_def Channel_SendU32_def snd_contents)
  then obtain q1 where q1: "Channel_RecvSize get q = Inr (of_nat (length vec), q1)"
    "contents q1 = Vec_Write wr vec @ rest"
    using RecvSize_front by blast
  have "length vec * bsz < 2 ^ 25 * 2 ^ 32 + 2 ^ 32"
    using assms(1) bsz_small mult_mono [of "length vec" "2 ^ 25" bsz "2 ^ 32"]
    by (simp add: MAX_VEC_READ_SIZE_def)
  then have n: "(length vec * bsz) mod 2 ^ 64 = length (Vec_Write wr vec)"
    by (simp add: Vec_Write_length Vec_ByteSize_def)
  obtain q2 where q2: "get (length (Vec_Write wr vec)) q1 = Inr (Vec_Write wr vec, q2)"
    "contents q2 = rest"
    using rcv_front [OF q1(2)] by auto
  show ?thesis
    using q1 q2 n assms(1) Vec_roundtrip [of vec "[]"]
    by (simp add: Channel_RecvVec_def u)
qed

end

text \<open>The in-memory channel keeps the contract.\<close>

definition mem_pipe_send :: "bytes \<Rightarrow> bytes \<times> bytes list \<Rightarrow> bytes \<times> bytes list" where
  "mem_pipe_send bs = (\<lambda>(overflow, q). (overflow, InMemoryChannel_Send bs q))"

interpretation mem_pipe: byte_pipe mem_pipe_send InMemoryChannel_Recv pipe_contents
proof
  show "pipe_contents (mem_pipe_send bs p) = pipe_contents p @ bs" for bs p
    by (simp add: pipe_contents_def mem_pipe_send_def InMemoryChannel_Send_def
        SharedDeque_PushBack_def split: prod.split)
next
  fix n p
  show "n \<le> length (pipe_contents p) \<Longrightarrow> \<exists>p'. InMemoryChannel_Recv n p
      = Inr (take n (pipe_contents p), p') \<and> pipe_contents p' = drop n (pipe_contents p)"
    and "length (pipe_contents p) < n \<Longrightarrow> InMemoryChannel_Recv n p = Inl Blocked"
    using InMemoryChannel_Recv_correct [of n p] by (simp_all split: if_splits)
qed

interpretation mem_vec: vec_channel mem_pipe_send InMemoryChannel_Recv pipe_contents
  ff61_Read ff61_Write FF61_ByteSize
  by unfold_locales (simp add: FF61_ByteSize_def)

section \<open>The fully connected in-memory network\<close>

text \<open>
  Buffers are shared: a channel names the buffer it reads from and the one it writes to. The
  network of party \<open>i\<close> is the row \<open>i\<close> of the matrix of channels.
\<close>

record channel =
  chIn :: nat
  chOut :: nat
  chOverflow :: bytes

text \<open>A null pointer is \<open>None\<close>.\<close>

record memnet =
  nbufs :: "bytes list list"
  chans :: "nat \<times> nat \<rightharpoonup> channel"

definition new_channel :: "nat \<Rightarrow> nat \<Rightarrow> channel" where
  "new_channel in_buffer out_buffer = \<lparr> chIn = in_buffer, chOut = out_buffer, chOverflow = [] \<rparr>"

definition CreatePaired :: "bytes list list \<Rightarrow> channel \<times> channel \<times> bytes list list" where
  "CreatePaired bufs = (let buf0 = length bufs; buf1 = length bufs + 1
     in (new_channel buf0 buf1, new_channel buf1 buf0, bufs @ [[], []]))"

definition CreateSelfConnecting :: "bytes list list \<Rightarrow> channel \<times> bytes list list" where
  "CreateSelfConnecting bufs = (let buf = length bufs in (new_channel buf buf, bufs @ [[]]))"

definition connect_pair :: "nat \<Rightarrow> nat \<Rightarrow> memnet \<Rightarrow> memnet" where
  "connect_pair i j N = (case CreatePaired (nbufs N) of (c0, c1, bufs) \<Rightarrow>
     \<lparr> nbufs = bufs, chans = (chans N)((i, j) \<mapsto> c0, (j, i) \<mapsto> c1) \<rparr>)"

definition connect_self :: "nat \<Rightarrow> memnet \<Rightarrow> memnet" where
  "connect_self i N = (case CreateSelfConnecting (nbufs N) of (c, bufs) \<Rightarrow>
     \<lparr> nbufs = bufs, chans = (chans N)((i, i) \<mapsto> c) \<rparr>)"

definition CreateFullInMemory :: "nat \<Rightarrow> memnet" where
  "CreateFullInMemory n =
     fold (\<lambda>i N. fold (connect_pair i) [i + 1..<n] (connect_self i N)) [0..<n]
       \<lparr> nbufs = [], chans = Map.empty \<rparr>"

text \<open>\<open>Party(j)->Send\<close> and \<open>Party(j)->Recv\<close> on the network of party \<open>i\<close>.\<close>

definition Party :: "nat \<Rightarrow> nat \<Rightarrow> memnet \<Rightarrow> channel res" where
  "Party i j N = (case chans N (i, j) of None \<Rightarrow> Inl Undefined | Some c \<Rightarrow> Inr c)"

definition Party_Send :: "nat \<Rightarrow> nat \<Rightarrow> bytes \<Rightarrow> memnet \<Rightarrow> memnet res" where
  "Party_Send i j src N =
     bindE (Party i j N) (\<lambda>c. bindE (vget (nbufs N) (chOut c)) (\<lambda>q.
       Inr (N\<lparr> nbufs := (nbufs N)[chOut c := InMemoryChannel_Send src q] \<rparr>)))"

definition Party_Recv :: "nat \<Rightarrow> nat \<Rightarrow> nat \<Rightarrow> memnet \<Rightarrow> (bytes \<times> memnet) res" where
  "Party_Recv i j n N =
     bindE (Party i j N) (\<lambda>c. bindE (vget (nbufs N) (chIn c)) (\<lambda>q.
       bindE (InMemoryChannel_Recv n (chOverflow c, q)) (\<lambda>(dst, overflow, q').
         Inr (dst, N\<lparr> nbufs := (nbufs N)[chIn c := q'],
                     chans := (chans N)((i, j) \<mapsto> c\<lparr> chOverflow := overflow \<rparr>) \<rparr>))))"

subsection \<open>Routing\<close>

text \<open>
  The two ends of a connected pair share their buffers crosswise, and every buffer is read by one
  channel only. This is an invariant of the construction and of sends and receives.
\<close>

definition routed :: "memnet \<Rightarrow> bool" where
  "routed N \<longleftrightarrow> (\<forall>i j c. chans N (i, j) = Some c \<longrightarrow>
     chIn c < length (nbufs N) \<and> (\<exists>c'. chans N (j, i) = Some c' \<and> chOut c = chIn c') \<and>
     (\<forall>k l c'. chans N (k, l) = Some c' \<longrightarrow> chIn c' = chIn c \<longrightarrow> k = i \<and> l = j))"

lemma routed_empty: "routed \<lparr> nbufs = [], chans = Map.empty \<rparr>"
  by (simp add: routed_def)

lemma routed_less: "routed N \<Longrightarrow> chans N (i, j) = Some c \<Longrightarrow> chIn c < length (nbufs N)"
  unfolding routed_def by blast

lemma routed_back:
  "routed N \<Longrightarrow> chans N (i, j) = Some c \<Longrightarrow> \<exists>c'. chans N (j, i) = Some c' \<and> chOut c = chIn c'"
  unfolding routed_def by blast

lemma routed_inj: "routed N \<Longrightarrow> chans N (i, j) = Some c \<Longrightarrow> chans N (k, l) = Some c' \<Longrightarrow>
    chIn c' = chIn c \<Longrightarrow> k = i \<and> l = j"
  unfolding routed_def by blast

lemma routedI:
  assumes "\<And>i j c. chans N (i, j) = Some c \<Longrightarrow> chIn c < length (nbufs N)"
    and "\<And>i j c. chans N (i, j) = Some c \<Longrightarrow> \<exists>c'. chans N (j, i) = Some c' \<and> chOut c = chIn c'"
    and "\<And>i j c k l c'. chans N (i, j) = Some c \<Longrightarrow> chans N (k, l) = Some c' \<Longrightarrow>
      chIn c' = chIn c \<Longrightarrow> k = i \<and> l = j"
  shows "routed N"
  unfolding routed_def using assms by blast

lemma routed_connect_self:
  assumes "routed N" "chans N (i, i) = None"
  shows "routed (connect_self i N)"
proof (rule routedI)
  note defs = connect_self_def CreateSelfConnecting_def new_channel_def
  fix k l c
  assume c: "chans (connect_self i N) (k, l) = Some c"
  show "chIn c < length (nbufs (connect_self i N))"
    using c routed_less [OF assms(1), of k l c] by (auto simp: defs Let_def split: if_splits)
  show "\<exists>c'. chans (connect_self i N) (l, k) = Some c' \<and> chOut c = chIn c'"
    using c routed_back [OF assms(1), of k l c] assms(2) by (auto simp: defs Let_def split: if_splits)
  fix k' l' c'
  assume c': "chans (connect_self i N) (k', l') = Some c'" "chIn c' = chIn c"
  show "k' = k \<and> l' = l"
    using c c' routed_less [OF assms(1), of k l c] routed_less [OF assms(1), of k' l' c']
      routed_inj [OF assms(1), of k l c k' l' c']
    by (auto simp: defs Let_def split: if_splits)
qed

lemma routed_connect_pair:
  assumes "routed N" "chans N (i, j) = None" "chans N (j, i) = None" "i \<noteq> j"
  shows "routed (connect_pair i j N)"
proof (rule routedI)
  note defs = connect_pair_def CreatePaired_def new_channel_def
  fix k l c
  assume c: "chans (connect_pair i j N) (k, l) = Some c"
  show "chIn c < length (nbufs (connect_pair i j N))"
    using c routed_less [OF assms(1), of k l c] by (auto simp: defs Let_def split: if_splits)
  show "\<exists>c'. chans (connect_pair i j N) (l, k) = Some c' \<and> chOut c = chIn c'"
    using c routed_back [OF assms(1), of k l c] assms(2-4) by (auto simp: defs Let_def split: if_splits)
  fix k' l' c'
  assume c': "chans (connect_pair i j N) (k', l') = Some c'" "chIn c' = chIn c"
  show "k' = k \<and> l' = l"
    using c c' routed_less [OF assms(1), of k l c] routed_less [OF assms(1), of k' l' c']
      routed_inj [OF assms(1), of k l c k' l' c'] assms(4)
    by (auto simp: defs Let_def split: if_splits)
qed

lemma dom_connect:
  "dom (chans (connect_self i N)) = insert (i, i) (dom (chans N))"
  "dom (chans (connect_pair i j N)) = insert (i, j) (insert (j, i) (dom (chans N)))"
  by (auto simp: connect_self_def CreateSelfConnecting_def connect_pair_def CreatePaired_def Let_def
      split: if_splits)

lemma row_routed:
  assumes "routed N" "m \<le> n" "i < m"
    and "dom (chans N) = {(k, l). k < n \<and> l < n \<and> (k < i \<or> l < i)} \<union> {(i, i)}"
  shows "routed (fold (connect_pair i) [i + 1..<m] N) \<and>
    dom (chans (fold (connect_pair i) [i + 1..<m] N))
      = {(k, l). k < n \<and> l < n \<and> (k < i \<or> l < i)} \<union> {(i, i)} \<union> {(i, l) |l. i < l \<and> l < m} \<union> {(l, i) |l. i < l \<and> l < m}"
  using assms(3,2)
proof (induction m rule: less_induct)
  case (less m)
  show ?case
  proof (cases "m = i + 1")
    case True
    then show ?thesis using assms(1,4) by auto
  next
    case False
    then obtain m' where m': "m = Suc m'" "i < m'" using less.prems by (cases m) auto
    let ?N = "fold (connect_pair i) [i + 1..<m'] N"
    have IH: "routed ?N" "dom (chans ?N) = {(k, l). k < n \<and> l < n \<and> (k < i \<or> l < i)} \<union> {(i, i)}
        \<union> {(i, l) |l. i < l \<and> l < m'} \<union> {(l, i) |l. i < l \<and> l < m'}"
      using less.IH [of m'] m' less.prems by auto
    have "(i, m') \<notin> dom (chans ?N)" "(m', i) \<notin> dom (chans ?N)"
      unfolding IH(2) using m' by auto
    then have "chans ?N (i, m') = None" "chans ?N (m', i) = None" by (simp_all add: domIff)
    then have "routed (connect_pair i m' ?N)" using IH(1) m'(2) by (intro routed_connect_pair) auto
    moreover have f: "fold (connect_pair i) [i + 1..<m] N = connect_pair i m' ?N" using m' by simp
    moreover have "dom (chans (connect_pair i m' ?N)) = {(k, l). k < n \<and> l < n \<and> (k < i \<or> l < i)} \<union> {(i, i)}
        \<union> {(i, l) |l. i < l \<and> l < m} \<union> {(l, i) |l. i < l \<and> l < m}"
      unfolding dom_connect IH(2) using m' by auto
    ultimately show ?thesis by simp
  qed
qed

text \<open>Every pair of the \<open>n\<close> parties is connected, and the routing invariant holds.\<close>

lemma CreateFullInMemory_routed:
  "routed (CreateFullInMemory n) \<and> dom (chans (CreateFullInMemory n)) = {0..<n} \<times> {0..<n}"
proof -
  define row where "row i N = fold (connect_pair i) [i + 1..<n] (connect_self i N)" for i N
  have "routed (fold row [0..<m] \<lparr> nbufs = [], chans = Map.empty \<rparr>) \<and>
    dom (chans (fold row [0..<m] \<lparr> nbufs = [], chans = Map.empty \<rparr>))
      = {(k, l). k < n \<and> l < n \<and> (k < m \<or> l < m)}" if "m \<le> n" for m
    using that
  proof (induction m)
    case 0
    then show ?case by (simp add: routed_empty)
  next
    case (Suc m)
    let ?N = "fold row [0..<m] \<lparr> nbufs = [], chans = Map.empty \<rparr>"
    have IH: "routed ?N" "dom (chans ?N) = {(k, l). k < n \<and> l < n \<and> (k < m \<or> l < m)}"
      using Suc by simp_all
    then have "chans ?N (m, m) = None" by (auto simp: dom_def)
    then have r: "routed (connect_self m ?N)" using IH(1) by (intro routed_connect_self)
    have "dom (chans (connect_self m ?N)) = {(k, l). k < n \<and> l < n \<and> (k < m \<or> l < m)} \<union> {(m, m)}"
      by (simp add: dom_connect IH(2))
    from row_routed [OF r order_refl _ this] Suc.prems
    have R: "routed (row m ?N)" "dom (chans (row m ?N)) = {(k, l). k < n \<and> l < n \<and> (k < m \<or> l < m)}
        \<union> {(m, m)} \<union> {(m, l) |l. m < l \<and> l < n} \<union> {(l, m) |l. m < l \<and> l < n}"
      by (simp_all add: row_def)
    have "{(k, l). k < n \<and> l < n \<and> (k < m \<or> l < m)} \<union> {(m, m)} \<union> {(m, l) |l. m < l \<and> l < n}
        \<union> {(l, m) |l. m < l \<and> l < n} = {(k, l). k < n \<and> l < n \<and> (k < Suc m \<or> l < Suc m)}"
      using Suc.prems by auto
    moreover have "fold row [0..<Suc m] \<lparr> nbufs = [], chans = Map.empty \<rparr> = row m ?N" by simp
    ultimately show ?case using R by (simp only:)
  qed
  from this [of n] show ?thesis by (auto simp: CreateFullInMemory_def row_def [abs_def])
qed

subsection \<open>The network carries field elements in order\<close>

text \<open>The bytes under way from party \<open>i\<close> to party \<open>j\<close>.\<close>

definition in_flight :: "memnet \<Rightarrow> nat \<Rightarrow> nat \<Rightarrow> bytes" where
  "in_flight N i j = (case chans N (j, i) of None \<Rightarrow> []
     | Some c \<Rightarrow> pipe_contents (chOverflow c, nbufs N ! chIn c))"

lemma Party_Send_routed:
  assumes "routed N" "(i, j) \<in> dom (chans N)"
  obtains N' where "Party_Send i j src N = Inr N'" "routed N'" "chans N' = chans N"
    "\<And>k l. in_flight N' k l = (if k = i \<and> l = j then in_flight N i j @ src else in_flight N k l)"
proof -
  obtain c where c: "chans N (i, j) = Some c" using assms(2) by auto
  obtain c' where c': "chans N (j, i) = Some c'" "chOut c = chIn c'"
    using routed_back [OF assms(1) c] by blast
  let ?b = "chOut c"
  let ?N = "N\<lparr> nbufs := (nbufs N)[?b := InMemoryChannel_Send src (nbufs N ! ?b)] \<rparr>"
  have b: "?b < length (nbufs N)" using routed_less [OF assms(1) c'(1)] c'(2) by simp
  then have "Party_Send i j src N = Inr ?N" by (simp add: Party_Send_def Party_def c)
  moreover have "routed ?N" using assms(1) unfolding routed_def by simp
  moreover have "in_flight ?N k l = (if k = i \<and> l = j then in_flight N i j @ src else in_flight N k l)" for k l
  proof (cases "chans N (l, k)")
    case None
    then show ?thesis using c' by (auto simp: in_flight_def)
  next
    case (Some d)
    show ?thesis
    proof (cases "k = i \<and> l = j")
      case True
      then show ?thesis using Some c' b
        by (simp add: in_flight_def pipe_contents_def InMemoryChannel_Send_def SharedDeque_PushBack_def)
    next
      case False
      then have "chIn d \<noteq> ?b" using routed_inj [OF assms(1) c'(1) Some] c'(2) by auto
      then show ?thesis using Some False by (auto simp: in_flight_def)
    qed
  qed
  ultimately show ?thesis using that [of ?N] by simp
qed

lemma Party_Recv_routed:
  assumes "routed N" "(i, j) \<in> dom (chans N)" "in_flight N j i = bs @ rest" "length bs = n"
  obtains N' where "Party_Recv i j n N = Inr (bs, N')" "routed N'" "dom (chans N') = dom (chans N)"
    "\<And>k l. in_flight N' k l = (if k = j \<and> l = i then rest else in_flight N k l)"
proof -
  obtain c where c: "chans N (i, j) = Some c" using assms(2) by auto
  let ?q = "(chOverflow c, nbufs N ! chIn c)"
  have b: "chIn c < length (nbufs N)" using routed_less [OF assms(1) c] .
  have pc: "pipe_contents ?q = bs @ rest" using assms(3) c by (simp add: in_flight_def)
  then obtain ov q' where r: "InMemoryChannel_Recv n ?q = Inr (bs, ov, q')" "pipe_contents (ov, q') = rest"
    using mem_pipe.rcv_front [OF pc, of n] assms(4) by auto
  let ?N = "N\<lparr> nbufs := (nbufs N)[chIn c := q'], chans := (chans N)((i, j) \<mapsto> c\<lparr> chOverflow := ov \<rparr>) \<rparr>"
  have "Party_Recv i j n N = Inr (bs, ?N)" using b by (simp add: Party_Recv_def Party_def c r(1))
  moreover have "routed ?N"
  proof (rule routedI)
    fix k l d
    assume d: "chans ?N (k, l) = Some d"
    then obtain d0 where d0: "chans N (k, l) = Some d0" "chIn d = chIn d0" "chOut d = chOut d0"
      using c by (auto split: if_splits)
    show "chIn d < length (nbufs ?N)" using routed_less [OF assms(1) d0(1)] d0(2) by simp
    show "\<exists>c'. chans ?N (l, k) = Some c' \<and> chOut d = chIn c'"
      using routed_back [OF assms(1) d0(1)] d0(3) c by auto
    fix k' l' e
    assume e: "chans ?N (k', l') = Some e" "chIn e = chIn d"
    then obtain e0 where "chans N (k', l') = Some e0" "chIn e = chIn e0"
      using c by (auto split: if_splits)
    then show "k' = k \<and> l' = l" using routed_inj [OF assms(1) d0(1)] e(2) d0(2) by simp
  qed
  moreover have "dom (chans ?N) = dom (chans N)" using c by auto
  moreover have "in_flight ?N k l = (if k = j \<and> l = i then rest else in_flight N k l)" for k l
  proof (cases "k = j \<and> l = i")
    case True
    then show ?thesis using r(2) b by (simp add: in_flight_def)
  next
    case False
    then have "chans ?N (l, k) = chans N (l, k)" by auto
    moreover have "chIn d \<noteq> chIn c" if "chans N (l, k) = Some d" for d
      using routed_inj [OF assms(1) c that] False by auto
    ultimately show ?thesis using False by (auto simp: in_flight_def split: option.split)
  qed
  ultimately show ?thesis using that [of ?N] by simp
qed

lemma Party_Recv_blocks:
  assumes "routed N" "(i, j) \<in> dom (chans N)" "length (in_flight N j i) < n"
  shows "Party_Recv i j n N = Inl Blocked"
proof -
  obtain c where c: "chans N (i, j) = Some c" using assms(2) by auto
  have "InMemoryChannel_Recv n (chOverflow c, nbufs N ! chIn c) = Inl Blocked"
    using assms(3) c by (intro mem_pipe.rcv_blocks) (simp add: in_flight_def)
  then show ?thesis using routed_less [OF assms(1) c] by (simp add: Party_Recv_def Party_def c)
qed

text \<open>
  \<open>Send(const T&)\<close> and \<open>Recv(T&)\<close> at \<open>T = FF<61>\<close> copy the bytes of the raw value; an image that is
  not canonical has no counterpart in \<open>ff61\<close>.
\<close>

definition FF_Send :: "nat \<Rightarrow> nat \<Rightarrow> ff61 \<Rightarrow> memnet \<Rightarrow> memnet res" where
  "FF_Send i j x N = Party_Send i j (le_bytes 8 (Rep_ff61 x)) N"

definition FF_Recv :: "nat \<Rightarrow> nat \<Rightarrow> memnet \<Rightarrow> (ff61 \<times> memnet) res" where
  "FF_Recv i j N = bindE (Party_Recv i j 8 N) (\<lambda>(bs, N).
     let raw = le_word bs in
     if raw < p61 then Inr (Abs_ff61 raw, N) else Inl Undefined)"

text \<open>
  The contract of a network for the protocols: it simulates one queue of elements per ordered pair
  of parties, \<open>Q i j\<close> being the elements under way from \<open>i\<close> to \<open>j\<close>.
\<close>

type_synonym 'a queues = "nat \<Rightarrow> nat \<Rightarrow> 'a list"

definition enqueue :: "nat \<Rightarrow> nat \<Rightarrow> 'a \<Rightarrow> 'a queues \<Rightarrow> 'a queues" where
  "enqueue i j x Q = Q(i := (Q i)(j := Q i j @ [x]))"

definition dequeue :: "nat \<Rightarrow> nat \<Rightarrow> 'a queues \<Rightarrow> 'a queues" where
  "dequeue i j Q = Q(i := (Q i)(j := tl (Q i j)))"

locale fifo_network =
  fixes send :: "nat \<Rightarrow> nat \<Rightarrow> 'a \<Rightarrow> 'n \<Rightarrow> 'n res"
    and recv :: "nat \<Rightarrow> nat \<Rightarrow> 'n \<Rightarrow> ('a \<times> 'n) res"
    and carries :: "nat \<Rightarrow> 'n \<Rightarrow> 'a queues \<Rightarrow> bool"
  assumes send_ok: "carries n N Q \<Longrightarrow> i < n \<Longrightarrow> j < n \<Longrightarrow>
      \<exists>N'. send i j x N = Inr N' \<and> carries n N' (enqueue i j x Q)"
    and recv_ok: "carries n N Q \<Longrightarrow> i < n \<Longrightarrow> j < n \<Longrightarrow> Q j i = x # xs \<Longrightarrow>
      \<exists>N'. recv i j N = Inr (x, N') \<and> carries n N' (dequeue j i Q)"
    and recv_waits: "carries n N Q \<Longrightarrow> i < n \<Longrightarrow> j < n \<Longrightarrow> Q j i = [] \<Longrightarrow> recv i j N = Inl Blocked"
    and send_outside: "carries n N Q \<Longrightarrow> \<not> (i < n \<and> j < n) \<Longrightarrow> send i j x N = Inl Undefined"
    and recv_outside: "carries n N Q \<Longrightarrow> \<not> (i < n \<and> j < n) \<Longrightarrow> recv i j N = Inl Undefined"

definition ff61_bytes :: "ff61 list \<Rightarrow> bytes" where
  "ff61_bytes xs = concat (map (\<lambda>x. le_bytes 8 (Rep_ff61 x)) xs)"

definition mem_carries :: "nat \<Rightarrow> memnet \<Rightarrow> ff61 queues \<Rightarrow> bool" where
  "mem_carries n N Q \<longleftrightarrow> routed N \<and> dom (chans N) = {0..<n} \<times> {0..<n} \<and>
     (\<forall>i<n. \<forall>j<n. in_flight N i j = ff61_bytes (Q i j))"

interpretation mem_net: fifo_network FF_Send FF_Recv mem_carries
proof
  fix n N Q i j and x :: ff61
  assume a: "mem_carries n N Q" "i < n" "j < n"
  then have r: "routed N" "(i, j) \<in> dom (chans N)" by (auto simp: mem_carries_def)
  from Party_Send_routed [OF r, of "le_bytes 8 (Rep_ff61 x)"] obtain N' where
    N': "FF_Send i j x N = Inr N'" "routed N'" "chans N' = chans N"
    "\<And>k l. in_flight N' k l = (if k = i \<and> l = j then in_flight N i j @ le_bytes 8 (Rep_ff61 x) else in_flight N k l)"
    by (metis FF_Send_def)
  have "mem_carries n N' (enqueue i j x Q)" unfolding mem_carries_def
    using a N'(2,3) by (auto simp: N'(4) mem_carries_def enqueue_def ff61_bytes_def)
  with N'(1) show "\<exists>N'. FF_Send i j x N = Inr N' \<and> mem_carries n N' (enqueue i j x Q)" by blast
next
  fix n N Q i j x and xs :: "ff61 list"
  assume a: "mem_carries n N Q" "i < n" "j < n" "Q j i = x # xs"
  then have r: "routed N" "(i, j) \<in> dom (chans N)"
    "in_flight N j i = le_bytes 8 (Rep_ff61 x) @ ff61_bytes xs"
    by (auto simp: mem_carries_def ff61_bytes_def)
  from Party_Recv_routed [OF r, of 8] obtain N' where
    N': "Party_Recv i j 8 N = Inr (le_bytes 8 (Rep_ff61 x), N')" "routed N'" "dom (chans N') = dom (chans N)"
    "\<And>k l. in_flight N' k l = (if k = j \<and> l = i then ff61_bytes xs else in_flight N k l)"
    by (metis length_le_bytes)
  have raw: "(le_word (le_bytes 8 (Rep_ff61 x)) :: u64) = Rep_ff61 x"
    using le_word_le_bytes [of 8, where 'w = 64] by (simp add: take_bit_word_eq_self)
  have "FF_Recv i j N = Inr (x, N')"
    using Rep_ff61_less [of x] by (simp add: FF_Recv_def N'(1) raw Rep_ff61_inverse)
  moreover have "mem_carries n N' (dequeue j i Q)" unfolding mem_carries_def
    using a N'(2,3) by (auto simp: N'(4) mem_carries_def dequeue_def)
  ultimately show "\<exists>N'. FF_Recv i j N = Inr (x, N') \<and> mem_carries n N' (dequeue j i Q)" by blast
next
  fix n N Q i j
  assume a: "mem_carries n N Q" "i < n" "j < n" "Q j i = []"
  then have "Party_Recv i j 8 N = Inl Blocked"
    by (intro Party_Recv_blocks) (auto simp: mem_carries_def ff61_bytes_def)
  then show "FF_Recv i j N = Inl Blocked" by (simp add: FF_Recv_def)
next
  fix n N Q i j and x :: ff61
  assume a: "mem_carries n N Q" "\<not> (i < n \<and> j < n)"
  then have "(i, j) \<notin> dom (chans N)" by (auto simp: mem_carries_def)
  then have "Party i j N = Inl Undefined" by (auto simp: Party_def split: option.split)
  then show "FF_Send i j x N = Inl Undefined" "FF_Recv i j N = Inl Undefined"
    by (simp_all add: FF_Send_def FF_Recv_def Party_Send_def Party_Recv_def)
qed

text \<open>A fresh network carries nothing.\<close>

definition quiet :: "memnet \<Rightarrow> bool" where
  "quiet N \<longleftrightarrow> (\<forall>q \<in> set (nbufs N). q = []) \<and> (\<forall>p c. chans N p = Some c \<longrightarrow> chOverflow c = [])"

lemma quiet_connect: "quiet N \<Longrightarrow> quiet (connect_self i N)" "quiet N \<Longrightarrow> quiet (connect_pair i j N)"
  by (auto simp: quiet_def connect_self_def connect_pair_def CreateSelfConnecting_def CreatePaired_def
      new_channel_def Let_def split: if_splits)

lemma quiet_fold: "(\<And>x N. quiet N \<Longrightarrow> quiet (f x N)) \<Longrightarrow> quiet N \<Longrightarrow> quiet (fold f xs N)"
  by (induction xs arbitrary: N) auto

lemma quiet_CreateFullInMemory: "quiet (CreateFullInMemory n)"
  unfolding CreateFullInMemory_def
  by (intro quiet_fold quiet_connect) (auto simp: quiet_def)

lemma CreateFullInMemory_carries: "mem_carries n (CreateFullInMemory n) (\<lambda>i j. [])"
proof -
  let ?N = "CreateFullInMemory n"
  have "in_flight ?N i j = []" for i j
  proof (cases "chans ?N (j, i)")
    case None
    then show ?thesis by (simp add: in_flight_def)
  next
    case (Some c)
    then have m: "nbufs ?N ! chIn c \<in> set (nbufs ?N)"
      using routed_less [of ?N j i c] CreateFullInMemory_routed [of n] by auto
    have "nbufs ?N ! chIn c = []" "chOverflow c = []"
      using quiet_CreateFullInMemory [of n] m Some unfolding quiet_def by blast+
    then show ?thesis using Some by (simp add: in_flight_def pipe_contents_def)
  qed
  then show ?thesis using CreateFullInMemory_routed [of n] by (simp add: mem_carries_def ff61_bytes_def)
qed

section \<open>Properties\<close>


text \<open>
  C22: a vector sent over a channel arrives: for at most \<open>2^25\<close> elements, \<open>Recv(Vec<FF<61>>&)\<close> after
  \<open>Send(const Vec<FF<61>>&)\<close> returns the vector, and consumes exactly its message.
\<close>

theorem vec_message_roundtrip:
  assumes "length vec \<le> MAX_VEC_READ_SIZE"
  shows "\<exists>c. Channel_RecvVec InMemoryChannel_Recv ff61_Read FF61_ByteSize
      (mem_pipe_send rest (Channel_SendVec mem_pipe_send ff61_Write vec ([], []))) = Inr (vec, c)
    \<and> pipe_contents c = rest"
  by (rule mem_vec.RecvVec_SendVec [OF assms, where p = "([], [])"])
    (simp_all add: pipe_contents_def mem_pipe.snd_contents [unfolded pipe_contents_def])

theorem vec_message_roundtrip_witness:
  "\<exists>c. Channel_RecvVec InMemoryChannel_Recv ff61_Read FF61_ByteSize
      (mem_pipe_send [9] (Channel_SendVec mem_pipe_send ff61_Write [1, 2, 3] ([], []))) = Inr ([1, 2, 3], c)
    \<and> pipe_contents c = [9]"
  by (rule vec_message_roundtrip) (simp add: MAX_VEC_READ_SIZE_def)

text \<open>
  C21: the network of \<open>CreateFullInMemory\<close> connects every ordered pair of parties by a pipe of its own,
  a party with itself included: what party \<open>i\<close> sends to party \<open>j\<close> is received by \<open>j\<close> from \<open>i\<close>, and
  any other receive still waits.
\<close>

theorem network_routing:
  assumes "i < n" and "j < n" and "k < n" and "l < n"
  shows "\<exists>N. FF_Send i j x (CreateFullInMemory n) = Inr N
    \<and> (if k = j \<and> l = i then \<exists>N'. FF_Recv k l N = Inr (x, N') \<and> mem_carries n N' (\<lambda>_ _. [])
       else FF_Recv k l N = Inl Blocked)"
proof -
  from mem_net.send_ok [OF CreateFullInMemory_carries assms(1,2), of x] obtain N where
    N: "FF_Send i j x (CreateFullInMemory n) = Inr N" "mem_carries n N (enqueue i j x (\<lambda>_ _. []))" by blast
  show ?thesis
  proof (cases "k = j \<and> l = i")
    case True
    have "dequeue i j (enqueue i j x (\<lambda>_ _. [])) = (\<lambda>_ _. [])"
      by (auto simp: enqueue_def dequeue_def fun_eq_iff)
    with mem_net.recv_ok [OF N(2) assms(2,1), of x "[]"] N(1) True show ?thesis
      by (simp add: enqueue_def)
  next
    case False
    then have "enqueue i j x (\<lambda>_ _. []) l k = []" by (auto simp: enqueue_def)
    from mem_net.recv_waits [OF N(2) assms(3,4) this] N(1) False show ?thesis by auto
  qed
qed

theorem network_routing_witness:
  "\<exists>N. FF_Send 2 0 7 (CreateFullInMemory 3) = Inr N \<and> (\<exists>N'. FF_Recv 0 2 N = Inr (7, N'))
    \<and> FF_Recv 0 1 N = Inl Blocked"
proof -
  obtain N where N: "FF_Send 2 0 7 (CreateFullInMemory 3) = Inr N" "\<exists>N'. FF_Recv 0 2 N = Inr (7, N')"
    using network_routing [of 2 3 0 0 2 7] by auto
  moreover have "FF_Recv 0 1 N = Inl Blocked"
    using network_routing [of 2 3 0 0 1 7] N(1) by auto
  ultimately show ?thesis by blast
qed

end
