(* ===== verification/Process.thy ===== *)
theory Process
  imports Network
begin

text \<open>
  The parties of a protocol as processes. The code of a party is one sequential program that sends
  elements to other parties and waits for elements from them; here it is a value of \<open>proc\<close>, so that
  the interleavings of several parties over a network can be described: \<open>runs\<close> is the step relation
  of \<open>n\<close> processes. The main facts are that the steps of different parties commute, hence that one
  complete run settles all of them (\<open>qruns_confluent\<close>, \<open>fifo_network.runs_complete\<close>), and a triple
  \<open>acts\<close> for the reads and writes of one process, which composes along the sequencing of the code.
\<close>

section \<open>Processes\<close>

datatype ('v, 'r) proc =
    Return 'r
  | Throw exn
  | Diverge
  | SendTo nat 'v "('v, 'r) proc"
  | RecvFrom nat "'v \<Rightarrow> ('v, 'r) proc"

primrec bindM :: "('v, 'r) proc \<Rightarrow> ('r \<Rightarrow> ('v, 's) proc) \<Rightarrow> ('v, 's) proc" where
  "bindM (Return x) f = f x"
| "bindM (Throw e) f = Throw e"
| "bindM Diverge f = Diverge"
| "bindM (SendTo j v p) f = SendTo j v (bindM p f)"
| "bindM (RecvFrom j k) f = RecvFrom j (\<lambda>v. bindM (k v) f)"

definition sendM :: "nat \<Rightarrow> 'v \<Rightarrow> ('v, unit) proc" where
  "sendM j v = SendTo j v (Return ())"

definition recvM :: "nat \<Rightarrow> ('v, 'v) proc" where
  "recvM j = RecvFrom j Return"

text \<open>A computation without communication as a process, and one that may not return.\<close>

definition liftM :: "'r res \<Rightarrow> ('v, 'r) proc" where
  "liftM m = (case m of Inl e \<Rightarrow> Throw e | Inr x \<Rightarrow> Return x)"

definition optM :: "'r res option \<Rightarrow> ('v, 'r) proc" where
  "optM m = (case m of None \<Rightarrow> Diverge | Some m \<Rightarrow> liftM m)"

primrec foldM :: "('a \<Rightarrow> 's \<Rightarrow> ('v, 's) proc) \<Rightarrow> 'a list \<Rightarrow> 's \<Rightarrow> ('v, 's) proc" where
  "foldM f [] = Return"
| "foldM f (x # xs) = (\<lambda>s. bindM (f x s) (foldM f xs))"

lemma liftM_simps [simp]: "liftM (Inl e) = Throw e" "liftM (Inr x) = Return x"
  by (simp_all add: liftM_def)

lemma optM_simps [simp]: "optM None = Diverge" "optM (Some m) = liftM m" "optM (retP x) = Return x"
  by (simp_all add: optM_def retP_def)

lemma bindM_assoc: "bindM (bindM p f) g = bindM p (\<lambda>x. bindM (f x) g)"
  by (induction p) simp_all

lemma bindM_Return [simp]: "bindM p Return = p"
  by (induction p) simp_all

lemma foldM_append: "foldM f (xs @ ys) s = bindM (foldM f xs s) (foldM f ys)"
proof (induction xs arbitrary: s)
  case (Cons x xs)
  then have "foldM f (xs @ ys) = (\<lambda>s. bindM (foldM f xs s) (foldM f ys))" by (intro ext)
  then show ?case by (simp add: bindM_assoc)
qed simp

lemma foldM_snoc: "foldM f (xs @ [x]) s = bindM (foldM f xs s) (f x)"
proof -
  have "foldM f [x] = f x" by simp
  then show ?thesis by (simp add: foldM_append)
qed

section \<open>Parties in parallel\<close>

text \<open>
  One step of party \<open>i\<close> in a configuration of processes and network. A process that has returned,
  thrown, that never returns, or that waits on an empty channel has no step.
\<close>

definition act :: "(nat \<Rightarrow> nat \<Rightarrow> 'v \<Rightarrow> 'n \<Rightarrow> 'n res) \<Rightarrow> (nat \<Rightarrow> nat \<Rightarrow> 'n \<Rightarrow> ('v \<times> 'n) res) \<Rightarrow> nat
    \<Rightarrow> ('v, 'r) proc list \<times> 'n \<Rightarrow> (('v, 'r) proc list \<times> 'n) option" where
  "act send recv i = (\<lambda>(ps, N). if i < length ps then case ps ! i of
       SendTo j v p \<Rightarrow> (case send i j v N of Inl e \<Rightarrow> None | Inr N' \<Rightarrow> Some (ps[i := p], N'))
     | RecvFrom j k \<Rightarrow> (case recv i j N of Inl e \<Rightarrow> None | Inr (v, N') \<Rightarrow> Some (ps[i := k v], N'))
     | _ \<Rightarrow> None else None)"

inductive runs :: "(nat \<Rightarrow> nat \<Rightarrow> 'v \<Rightarrow> 'n \<Rightarrow> 'n res) \<Rightarrow> (nat \<Rightarrow> nat \<Rightarrow> 'n \<Rightarrow> ('v \<times> 'n) res) \<Rightarrow> nat
    \<Rightarrow> ('v, 'r) proc list \<times> 'n \<Rightarrow> ('v, 'r) proc list \<times> 'n \<Rightarrow> bool" for send recv where
  runs_0: "runs send recv 0 c c"
| runs_Suc: "act send recv i c = Some d \<Longrightarrow> runs send recv m d e \<Longrightarrow> runs send recv (Suc m) c e"

inductive_cases runs_0E: "runs send recv 0 c d"
inductive_cases runs_SucE: "runs send recv (Suc m) c d"
inductive_simps runs_0_iff [simp]: "runs send recv 0 c d"
inductive_simps runs_Suc_iff: "runs send recv (Suc m) c d"

lemma runs_trans: "runs send recv m c d \<Longrightarrow> runs send recv k d e \<Longrightarrow> runs send recv (m + k) c e"
  by (induction rule: runs.induct) (auto intro: runs.intros)

lemma act_length: "act send recv i (ps, N) = Some (ps', N') \<Longrightarrow> i < length ps \<and> length ps' = length ps"
  by (auto simp: act_def split: if_splits proc.splits sum.splits prod.splits)

lemma runs_length: "runs send recv m c d \<Longrightarrow> length (fst d) = length (fst c)"
  by (induction rule: runs.induct) (auto dest: act_length)

definition all_returned :: "'r list \<Rightarrow> ('v, 'r) proc list" where
  "all_returned rs = map Return rs"

lemma all_returned_stuck: "act send recv i (all_returned rs, N) = None"
  by (simp add: act_def all_returned_def)

text \<open>
  What a family of processes computes, whatever the order in which the parties take their turns:
  the number of steps is bounded, and however far a run has come it can be completed, always with
  the same results and with a network that carries what \<open>post\<close> says.
\<close>

definition always_computes :: "(nat \<Rightarrow> nat \<Rightarrow> 'v \<Rightarrow> 'n \<Rightarrow> 'n res) \<Rightarrow> (nat \<Rightarrow> nat \<Rightarrow> 'n \<Rightarrow> ('v \<times> 'n) res)
    \<Rightarrow> ('v, 'r) proc list \<Rightarrow> 'n \<Rightarrow> 'r list \<Rightarrow> ('n \<Rightarrow> bool) \<Rightarrow> bool" where
  "always_computes send recv ps N rs post \<longleftrightarrow> (\<exists>M. \<forall>m c. runs send recv m (ps, N) c \<longrightarrow>
     m \<le> M \<and> (\<exists>N'. runs send recv (M - m) c (all_returned rs, N') \<and> post N'))"

section \<open>The network of queues\<close>

definition qsend :: "nat \<Rightarrow> nat \<Rightarrow> nat \<Rightarrow> 'v \<Rightarrow> 'v queues \<Rightarrow> 'v queues res" where
  "qsend n i j v Q = (if i < n \<and> j < n then Inr (enqueue i j v Q) else Inl Undefined)"

definition qrecv :: "nat \<Rightarrow> nat \<Rightarrow> nat \<Rightarrow> 'v queues \<Rightarrow> ('v \<times> 'v queues) res" where
  "qrecv n i j Q = (if i < n \<and> j < n then
     (case Q j i of [] \<Rightarrow> Inl Blocked | v # vs \<Rightarrow> Inr (v, dequeue j i Q)) else Inl Undefined)"

abbreviation qact :: "nat \<Rightarrow> nat \<Rightarrow> ('v, 'r) proc list \<times> 'v queues \<Rightarrow> (('v, 'r) proc list \<times> 'v queues) option" where
  "qact n \<equiv> act (qsend n) (qrecv n)"

abbreviation qruns :: "nat \<Rightarrow> nat \<Rightarrow> ('v, 'r) proc list \<times> 'v queues \<Rightarrow> ('v, 'r) proc list \<times> 'v queues \<Rightarrow> bool" where
  "qruns n \<equiv> runs (qsend n) (qrecv n)"

lemma qact_cases:
  assumes "qact n i (ps, Q) = Some c"
  obtains (send) j v p where "ps ! i = SendTo j v p" "i < length ps" "i < n" "j < n"
      "c = (ps[i := p], enqueue i j v Q)"
  | (recv) j k v vs where "ps ! i = RecvFrom j k" "i < length ps" "i < n" "j < n" "Q j i = v # vs"
      "c = (ps[i := k v], dequeue j i Q)"
  using assms by (auto simp: act_def qsend_def qrecv_def split: if_splits proc.splits list.splits)

lemma qact_send: "ps ! i = SendTo j v p \<Longrightarrow> i < length ps \<Longrightarrow> i < n \<Longrightarrow> j < n
    \<Longrightarrow> qact n i (ps, Q) = Some (ps[i := p], enqueue i j v Q)"
  by (simp add: act_def qsend_def)

lemma qact_recv: "ps ! i = RecvFrom j k \<Longrightarrow> i < length ps \<Longrightarrow> i < n \<Longrightarrow> j < n \<Longrightarrow> Q j i = v # vs
    \<Longrightarrow> qact n i (ps, Q) = Some (ps[i := k v], dequeue j i Q)"
  by (simp add: act_def qrecv_def)

lemma enqueue_at: "enqueue i j v Q k l = (if k = i \<and> l = j then Q i j @ [v] else Q k l)"
  by (simp add: enqueue_def)

lemma dequeue_at: "dequeue i j Q k l = (if k = i \<and> l = j then tl (Q i j) else Q k l)"
  by (simp add: dequeue_def)

lemma queues_commute:
  "(i, j) \<noteq> (k, l) \<Longrightarrow> enqueue i j v (enqueue k l w Q) = enqueue k l w (enqueue i j v Q)"
  "Q k l \<noteq> [] \<Longrightarrow> enqueue i j v (dequeue k l Q) = dequeue k l (enqueue i j v Q)"
  "(i, j) \<noteq> (k, l) \<Longrightarrow> dequeue i j (dequeue k l Q) = dequeue k l (dequeue i j Q)"
  by (auto simp: enqueue_at dequeue_at fun_eq_iff)

text \<open>Steps of different parties commute.\<close>

lemma qact_diamond:
  assumes "qact n i c = Some c1" "qact n j c = Some c2" "i \<noteq> j"
  shows "\<exists>d. qact n j c1 = Some d \<and> qact n i c2 = Some d"
proof -
  obtain ps Q where c: "c = (ps, Q)" by fastforce
  note swap = list_update_swap [OF assms(3)]
  have nth: "ps[i := p] ! j = ps ! j" "ps[j := p] ! i = ps ! i" for p using assms(3) by simp_all
  show ?thesis
    using assms(1) [unfolded c]
  proof (cases rule: qact_cases)
    case i: (send ja v p)
    show ?thesis using assms(2) [unfolded c]
    proof (cases rule: qact_cases)
      case j: (send jb w q)
      have "enqueue j jb w (enqueue i ja v Q) = enqueue i ja v (enqueue j jb w Q)"
        using assms(3) by (intro queues_commute) simp
      then show ?thesis using i j assms(3) by (simp add: nth act_def qsend_def swap)
    next
      case j: (recv jb k w ws)
      have "enqueue i ja v (dequeue jb j Q) = dequeue jb j (enqueue i ja v Q)"
        using j by (intro queues_commute) simp
      moreover have "enqueue i ja v Q jb j = w # (ws @ (if jb = i \<and> j = ja then [v] else []))"
        using j by (auto simp: enqueue_at)
      ultimately show ?thesis using i j assms(3) by (simp add: nth act_def qsend_def qrecv_def swap)
    qed
  next
    case i: (recv ja k v vs)
    show ?thesis using assms(2) [unfolded c]
    proof (cases rule: qact_cases)
      case j: (send jb w q)
      have "enqueue j jb w (dequeue ja i Q) = dequeue ja i (enqueue j jb w Q)"
        using i by (intro queues_commute) simp
      moreover have "enqueue j jb w Q ja i = v # (vs @ (if ja = j \<and> i = jb then [w] else []))"
        using i by (auto simp: enqueue_at)
      ultimately show ?thesis using i j assms(3) by (simp add: nth act_def qsend_def qrecv_def swap)
    next
      case j: (recv jb k' w ws)
      have "dequeue ja i (dequeue jb j Q) = dequeue jb j (dequeue ja i Q)"
        using assms(3) by (intro queues_commute) simp
      moreover have "dequeue ja i Q jb j = w # ws" "dequeue jb j Q ja i = v # vs"
        using i j assms(3) by (simp_all add: dequeue_at)
      ultimately show ?thesis using i j assms(3) by (simp add: nth act_def qrecv_def swap)
    qed
  qed
qed

text \<open>
  Hence a run that has ended bounds every other run, and every other run can be completed to it.
\<close>

lemma qruns_after_act:
  assumes "qruns n M c d" "\<And>i. qact n i d = None" "qact n i c = Some c'"
  shows "\<exists>M'. M = Suc M' \<and> qruns n M' c' d"
  using assms(1,3)
proof (induction M arbitrary: c c')
  case 0
  then show ?case using assms(2) by simp
next
  case (Suc M)
  from Suc.prems(1) obtain k e where e: "qact n k c = Some e" "qruns n M e d"
    by (auto simp: runs_Suc_iff)
  show ?case
  proof (cases "k = i")
    case True
    then show ?thesis using e Suc.prems(2) by simp
  next
    case False
    from qact_diamond [OF e(1) Suc.prems(2) False] obtain f where
      f: "qact n i e = Some f" "qact n k c' = Some f" by blast
    from Suc.IH [OF e(2) f(1)] obtain M' where "M = Suc M'" "qruns n M' f d" by blast
    then show ?thesis using f(2) by (auto intro: runs_Suc)
  qed
qed

lemma qruns_confluent:
  assumes "qruns n M c d" "\<And>i. qact n i d = None" "qruns n m c e"
  shows "m \<le> M \<and> qruns n (M - m) e d"
  using assms(3,1)
proof (induction m arbitrary: c M)
  case 0
  then show ?case by simp
next
  case (Suc m)
  from Suc.prems(1) obtain i c' where c': "qact n i c = Some c'" "qruns n m c' e"
    by (auto simp: runs_Suc_iff)
  from qruns_after_act [OF Suc.prems(2) assms(2) c'(1)] obtain M' where
    "M = Suc M'" "qruns n M' c' d" by blast
  with Suc.IH [OF c'(2)] show ?case by simp
qed

section \<open>Reads and writes of one process\<close>

text \<open>A message box holds the elements from or to each party.\<close>

type_synonym 'v box = "nat \<Rightarrow> 'v list"

definition no_box :: "'v box" where
  "no_box = (\<lambda>j. [])"

definition one_box :: "nat \<Rightarrow> 'v list \<Rightarrow> 'v box" where
  "one_box i vs = (\<lambda>j. if j = i then vs else [])"

definition box_append :: "'v box \<Rightarrow> 'v box \<Rightarrow> 'v box" where
  "box_append a b = (\<lambda>j. a j @ b j)"

definition box_concat :: "'v box list \<Rightarrow> 'v box" where
  "box_concat bs = (\<lambda>j. concat (map (\<lambda>b. b j) bs))"

lemma box_append_simps [simp]:
  "box_append no_box b = b" "box_append b no_box = b"
  "box_append (box_append a b) c = box_append a (box_append b c)"
  by (simp_all add: box_append_def no_box_def)

lemma box_concat_simps [simp]:
  "box_concat [] = no_box" "box_concat (b # bs) = box_append b (box_concat bs)"
  "box_concat (bs @ cs) = box_append (box_concat bs) (box_concat cs)"
  by (simp_all add: box_concat_def box_append_def no_box_def)

lemma one_box_append [simp]: "box_append (one_box i vs) (one_box i ws) = one_box i (vs @ ws)"
  by (auto simp: one_box_def box_append_def)

lemma one_box_Nil [simp]: "one_box i [] = no_box"
  by (auto simp: one_box_def no_box_def)

definition prepend :: "nat \<Rightarrow> 'v box \<Rightarrow> 'v queues \<Rightarrow> 'v queues" where
  "prepend i inn Q = (\<lambda>k l. if l = i then inn k @ Q k l else Q k l)"

definition push :: "nat \<Rightarrow> 'v box \<Rightarrow> 'v queues \<Rightarrow> 'v queues" where
  "push i out Q = (\<lambda>k l. if k = i then Q k l @ out l else Q k l)"

lemma box_queue_simps [simp]:
  "prepend i no_box Q = Q" "push i no_box Q = Q"
  "prepend i (box_append a b) Q = prepend i a (prepend i b Q)"
  "push i (box_append a b) Q = push i b (push i a Q)"
  by (auto simp: prepend_def push_def box_append_def no_box_def fun_eq_iff)

lemma push_prepend: "push i out (prepend i inn Q) = prepend i inn (push i out Q)"
  by (auto simp: prepend_def push_def fun_eq_iff)

text \<open>The process of party \<open>i\<close> alone, until it returns.\<close>

primrec exec :: "nat \<Rightarrow> nat \<Rightarrow> ('v, 'r) proc \<Rightarrow> 'v queues \<Rightarrow> ('r \<times> 'v queues) res option" where
  "exec n i (Return x) Q = Some (Inr (x, Q))"
| "exec n i (Throw e) Q = Some (Inl e)"
| "exec n i Diverge Q = None"
| "exec n i (SendTo j v p) Q = bindP (Some (qsend n i j v Q)) (exec n i p)"
| "exec n i (RecvFrom j k) Q = bindP (Some (qrecv n i j Q)) (\<lambda>(v, Q). exec n i (k v) Q)"

lemma exec_bindM: "exec n i (bindM p f) Q = bindP (exec n i p Q) (\<lambda>(x, Q). exec n i (f x) Q)"
proof (induction p arbitrary: Q)
  case (SendTo j v p)
  then show ?case by (cases "qsend n i j v Q") simp_all
next
  case (RecvFrom j k)
  then show ?case by (cases "qrecv n i j Q") (auto split: prod.split)
qed simp_all

lemma exec_qruns:
  assumes "exec n i p Q = Some (Inr (x, Q'))" "i < n" "i < length ps" "ps ! i = bindM p f"
  shows "\<exists>m. qruns n m (ps, Q) (ps[i := f x], Q')"
  using assms
proof (induction p arbitrary: ps Q)
  case (Return y)
  then have "ps[i := f x] = ps" using list_update_id [of ps i] by auto
  then have "qruns n 0 (ps, Q) (ps[i := f x], Q')" using Return by simp
  then show ?case by blast
next
  case (SendTo j v p)
  then have s: "qsend n i j v Q = Inr (enqueue i j v Q)" and j: "j < n"
    by (auto simp: qsend_def split: if_splits)
  let ?ps = "ps[i := bindM p f]"
  have "exec n i p (enqueue i j v Q) = Some (Inr (x, Q'))" using SendTo.prems(1) s by simp
  from SendTo.IH [OF this, of ?ps] SendTo.prems obtain m where
    "qruns n m (?ps, enqueue i j v Q) (ps[i := f x], Q')" by auto
  moreover have "qact n i (ps, Q) = Some (?ps, enqueue i j v Q)"
    using SendTo.prems j by (intro qact_send) simp_all
  ultimately show ?case by (blast intro: runs_Suc)
next
  case (RecvFrom j k)
  then obtain v vs where v: "qrecv n i j Q = Inr (v, dequeue j i Q)" "Q j i = v # vs" "j < n"
    by (auto simp: qrecv_def split: if_splits list.splits)
  let ?ps = "ps[i := bindM (k v) f]"
  have "exec n i (k v) (dequeue j i Q) = Some (Inr (x, Q'))" using RecvFrom.prems(1) v by simp
  from RecvFrom.IH [OF _ this, of ?ps] RecvFrom.prems obtain m where
    "qruns n m (?ps, dequeue j i Q) (ps[i := f x], Q')" by auto
  moreover have "qact n i (ps, Q) = Some (?ps, dequeue j i Q)"
    using RecvFrom.prems v by (intro qact_recv [where k = "\<lambda>v. bindM (k v) f"]) simp_all
  ultimately show ?case by (blast intro: runs_Suc)
qed simp_all

text \<open>
  \<open>acts n i p inn out x\<close>: given the elements \<open>inn\<close>, process \<open>p\<close> of party \<open>i\<close> sends the elements
  \<open>out\<close> and returns \<open>x\<close>.
\<close>

definition acts :: "nat \<Rightarrow> nat \<Rightarrow> ('v, 'r) proc \<Rightarrow> 'v box \<Rightarrow> 'v box \<Rightarrow> 'r \<Rightarrow> bool" where
  "acts n i p inn out x \<longleftrightarrow> (\<forall>Q. exec n i p (prepend i inn Q) = Some (Inr (x, push i out Q)))"

named_theorems acts_intros \<open>rules of the triple\<close>

lemma acts_Return [acts_intros]: "acts n i (Return x) no_box no_box x"
  by (simp add: acts_def)

lemma acts_bind:
  assumes "acts n i p inn out x" "acts n i (f x) inn' out' y"
  shows "acts n i (bindM p f) (box_append inn inn') (box_append out out') y"
  using assms by (simp add: acts_def exec_bindM push_prepend)

lemma acts_sendM: "i < n \<Longrightarrow> j < n \<Longrightarrow> acts n i (sendM j v) no_box (one_box j [v]) ()"
  by (auto simp: acts_def sendM_def qsend_def push_def one_box_def enqueue_def fun_eq_iff)

lemma acts_recvM: "i < n \<Longrightarrow> j < n \<Longrightarrow> acts n i (recvM j) (one_box j [v]) no_box v"
  by (auto simp: acts_def recvM_def qrecv_def prepend_def one_box_def dequeue_def fun_eq_iff)

lemma acts_pure:
  assumes "acts n i (f x) inn out y"
  shows "acts n i (bindM (Return x) f) inn out y"
  using assms by simp

lemma acts_send_bind:
  "i < n \<Longrightarrow> j < n \<Longrightarrow> acts n i (f ()) inn out y \<Longrightarrow>
   acts n i (bindM (sendM j v) f) inn (box_append (one_box j [v]) out) y"
  using acts_bind [OF acts_sendM] by fastforce

lemma acts_recv_bind:
  "i < n \<Longrightarrow> j < n \<Longrightarrow> acts n i (f v) inn out y \<Longrightarrow>
   acts n i (bindM (recvM j) f) (box_append (one_box j [v]) inn) out y"
  using acts_bind [OF acts_recvM] by fastforce

text \<open>A loop, by an invariant on the state and the boxes so far.\<close>

lemma acts_foldM:
  assumes "I 0 s" and "\<And>m s. m < length xs \<Longrightarrow> I m s \<Longrightarrow>
      \<exists>s'. acts n i (f (xs ! m) s) (inn m) (out m) s' \<and> I (Suc m) s'"
  shows "\<exists>s'. acts n i (foldM f xs s) (box_concat (map inn [0..<length xs]))
      (box_concat (map out [0..<length xs])) s' \<and> I (length xs) s'"
  using assms
proof (induction xs rule: rev_induct)
  case Nil
  then show ?case by (auto intro: acts_intros)
next
  case (snoc x xs)
  have "\<exists>s'. acts n i (foldM f xs s) (box_concat (map inn [0..<length xs]))
      (box_concat (map out [0..<length xs])) s' \<and> I (length xs) s'"
  proof (rule snoc.IH [OF snoc.prems(1)])
    fix m s
    assume "m < length xs" "I m s"
    then show "\<exists>s'. acts n i (f (xs ! m) s) (inn m) (out m) s' \<and> I (Suc m) s'"
      using snoc.prems(2) [of m s] by (simp add: nth_append)
  qed
  then obtain s1 where s1: "acts n i (foldM f xs s) (box_concat (map inn [0..<length xs]))
      (box_concat (map out [0..<length xs])) s1" "I (length xs) s1" by blast
  from snoc.prems(2) [of "length xs" s1] s1(2) obtain s2 where
    s2: "acts n i (f x s1) (inn (length xs)) (out (length xs)) s2" "I (Suc (length xs)) s2" by auto
  from acts_bind [where f = "f x", OF s1(1) s2(1)] s2(2) show ?case by (auto simp: foldM_snoc)
qed

text \<open>The same with boxes that depend on the state.\<close>

lemma acts_foldM_boxes:
  assumes "I 0 s no_box no_box" and "\<And>m s inn out. m < length xs \<Longrightarrow> I m s inn out \<Longrightarrow>
      \<exists>s' inn' out'. acts n i (f (xs ! m) s) inn' out' s'
        \<and> I (Suc m) s' (box_append inn inn') (box_append out out')"
  shows "\<exists>s' inn out. acts n i (foldM f xs s) inn out s' \<and> I (length xs) s' inn out"
  using assms
proof (induction xs rule: rev_induct)
  case Nil
  then show ?case by (auto intro: acts_intros)
next
  case (snoc x xs)
  have "\<exists>s' inn out. acts n i (foldM f xs s) inn out s' \<and> I (length xs) s' inn out"
  proof (rule snoc.IH [OF snoc.prems(1)])
    fix m s inn out
    assume "m < length xs" "I m s inn out"
    then show "\<exists>s' inn' out'. acts n i (f (xs ! m) s) inn' out' s'
        \<and> I (Suc m) s' (box_append inn inn') (box_append out out')"
      using snoc.prems(2) [of m s inn out] by (simp add: nth_append)
  qed
  then obtain s1 inn out where
    s1: "acts n i (foldM f xs s) inn out s1" "I (length xs) s1 inn out" by blast
  from snoc.prems(2) [of "length xs" s1 inn out] s1(2) obtain s2 inn' out' where
    s2: "acts n i (f x s1) inn' out' s2" "I (Suc (length xs)) s2 (box_append inn inn') (box_append out out')"
    by auto
  from acts_bind [where f = "f x", OF s1(1) s2(1)] s2(2) show ?case by (auto simp: foldM_snoc)
qed

section \<open>Phases of all parties\<close>

text \<open>
  A phase reads the messages \<open>A\<close> and writes the messages \<open>B\<close>: \<open>A k l\<close> are the elements from party
  \<open>k\<close> to party \<open>l\<close>.
\<close>

definition inside :: "nat \<Rightarrow> 'v queues \<Rightarrow> bool" where
  "inside n A \<longleftrightarrow> (\<forall>k l. \<not> (k < n \<and> l < n) \<longrightarrow> A k l = [])"

definition no_messages :: "'v queues" where
  "no_messages = (\<lambda>i j. [])"

lemma phase_qruns:
  assumes "length ps = n" "inside n A" "inside n B"
    and "\<And>i. i < n \<Longrightarrow> acts n i (p i) (\<lambda>k. A k i) (B i) (x i)"
    and "\<And>i. i < n \<Longrightarrow> ps ! i = bindM (p i) (f i)"
  shows "\<exists>m. qruns n m (ps, A) (map (\<lambda>i. f i (x i)) [0..<n], B)"
proof -
  let ?ps = "\<lambda>m. map (\<lambda>i. if i < m then f i (x i) else ps ! i) [0..<n]"
  let ?Q = "\<lambda>m k l. (if l < m then [] else A k l) @ (if k < m then B k l else [])"
  have "\<exists>s. qruns n s (ps, A) (?ps m, ?Q m)" if "m \<le> n" for m
    using that
  proof (induction m)
    case 0
    have "?ps 0 = ps" using assms(1) by (intro nth_equalityI) simp_all
    moreover have "?Q 0 = A" by simp
    ultimately have "qruns n 0 (ps, A) (?ps 0, ?Q 0)" by simp
    then show ?case by blast
  next
    case (Suc m)
    then obtain s where s: "qruns n s (ps, A) (?ps m, ?Q m)" by auto
    let ?R = "\<lambda>k l. (if l < Suc m then [] else A k l) @ (if k < m then B k l else [])"
    have "?Q m = prepend m (\<lambda>k. A k m) ?R" by (auto simp: prepend_def fun_eq_iff)
    moreover have "?Q (Suc m) = push m (B m) ?R"
      by (auto simp: push_def fun_eq_iff less_Suc_eq)
    ultimately have "exec n m (p m) (?Q m) = Some (Inr (x m, ?Q (Suc m)))"
      using assms(4) [of m] Suc.prems by (simp only: acts_def)
    from exec_qruns [OF this, of "?ps m" "f m"] Suc.prems assms(5) [of m] obtain s' where
      s': "qruns n s' (?ps m, ?Q m) ((?ps m)[m := f m (x m)], ?Q (Suc m))" by auto
    have "(?ps m)[m := f m (x m)] = ?ps (Suc m)"
      using Suc.prems by (intro nth_equalityI) (auto simp: nth_list_update)
    with runs_trans [OF s s'] show ?case by auto
  qed
  from this [of n] obtain s where s: "qruns n s (ps, A) (?ps n, ?Q n)" by auto
  have "?ps n = map (\<lambda>i. f i (x i)) [0..<n]" by simp
  moreover have "?Q n = B"
    using assms(2,3) by (auto simp: inside_def fun_eq_iff not_less)
  ultimately have "qruns n s (ps, A) (map (\<lambda>i. f i (x i)) [0..<n], B)" using s by (simp only:)
  then show ?thesis ..
qed

text \<open>
  \<open>phase n p A B x\<close>: the processes \<open>p\<close> take the messages \<open>A\<close> into the messages \<open>B\<close> and party \<open>i\<close>
  goes on with \<open>x i\<close>, whatever comes after. Phases compose along the sequencing of the programs.
\<close>

definition qreach :: "nat \<Rightarrow> ('v, 'r) proc list \<times> 'v queues \<Rightarrow> ('v, 'r) proc list \<times> 'v queues \<Rightarrow> bool" where
  "qreach n c d \<longleftrightarrow> (\<exists>m. qruns n m c d)"

lemma qreach_trans: "qreach n c d \<Longrightarrow> qreach n d e \<Longrightarrow> qreach n c e"
  unfolding qreach_def by (blast intro: runs_trans)

definition phase :: "nat \<Rightarrow> (nat \<Rightarrow> ('v, 'r) proc) \<Rightarrow> 'v queues \<Rightarrow> 'v queues \<Rightarrow> (nat \<Rightarrow> 'r) \<Rightarrow> bool" where
  "phase n p A B x \<longleftrightarrow> (\<forall>f :: nat \<Rightarrow> 'r \<Rightarrow> ('v, 'r) proc.
     qreach n (map (\<lambda>i. bindM (p i) (f i)) [0..<n], A) (map (\<lambda>i. f i (x i)) [0..<n], B))"

lemma phase_acts:
  assumes "inside n A" "inside n B" "\<And>i. i < n \<Longrightarrow> acts n i (p i) (\<lambda>k. A k i) (B i) (x i)"
  shows "phase n p A B x"
  unfolding phase_def qreach_def
  using assms by (intro allI phase_qruns) auto

lemma phase_bind:
  fixes p :: "nat \<Rightarrow> ('v, 'r) proc" and q :: "nat \<Rightarrow> 'r \<Rightarrow> ('v, 'r) proc"
  assumes p: "phase n p A B x" and q: "phase n (\<lambda>i. q i (x i)) B C y"
  shows "phase n (\<lambda>i. bindM (p i) (q i)) A C y"
  unfolding phase_def
proof
  fix f :: "nat \<Rightarrow> 'r \<Rightarrow> ('v, 'r) proc"
  have "qreach n (map (\<lambda>i. bindM (p i) (\<lambda>x. bindM (q i x) (f i))) [0..<n], A)
      (map (\<lambda>i. bindM (q i (x i)) (f i)) [0..<n], B)"
    using p unfolding phase_def by (rule spec)
  moreover have "qreach n (map (\<lambda>i. bindM (q i (x i)) (f i)) [0..<n], B) (map (\<lambda>i. f i (y i)) [0..<n], C)"
    using q unfolding phase_def by (rule spec)
  ultimately show "qreach n (map (\<lambda>i. bindM (bindM (p i) (q i)) (f i)) [0..<n], A)
      (map (\<lambda>i. f i (y i)) [0..<n], C)"
    unfolding bindM_assoc by (rule qreach_trans)
qed

lemma phase_Return: "phase n (\<lambda>i. Return (x i)) A A x"
  unfolding phase_def qreach_def by (auto intro: exI [of _ 0])

lemma phase_cong:
  assumes "phase n p A B x" "\<And>i. i < n \<Longrightarrow> p i = q i" "\<And>i. i < n \<Longrightarrow> x i = y i"
  shows "phase n q A B y"
proof -
  have eq: "map (\<lambda>i. bindM (p i) (f i)) [0..<n] = map (\<lambda>i. bindM (q i) (f i)) [0..<n]"
    "map (\<lambda>i. f i (x i)) [0..<n] = map (\<lambda>i. f i (y i)) [0..<n]" for f :: "nat \<Rightarrow> 'b \<Rightarrow> ('a, 'b) proc"
    using assms(2,3) by simp_all
  show ?thesis using assms(1) unfolding phase_def eq .
qed

text \<open>A loop in every program, one round of all parties after the other.\<close>

lemma phase_foldM:
  assumes "I 0 x" and "\<And>m x. m < length xs \<Longrightarrow> I m x \<Longrightarrow>
      \<exists>y. phase n (\<lambda>i. F i (xs ! m) (x i)) no_messages no_messages y \<and> I (Suc m) y"
  shows "\<exists>y. phase n (\<lambda>i. foldM (F i) xs (x i)) no_messages no_messages y \<and> I (length xs) y"
  using assms
proof (induction xs rule: rev_induct)
  case Nil
  have "phase n (\<lambda>i. foldM (F i) [] (x i)) no_messages no_messages x" using phase_Return by simp
  with Nil show ?case by auto
next
  case (snoc z xs)
  have "\<exists>y. phase n (\<lambda>i. foldM (F i) xs (x i)) no_messages no_messages y \<and> I (length xs) y"
  proof (rule snoc.IH [OF snoc.prems(1)])
    fix m x
    assume "m < length xs" "I m x"
    then show "\<exists>y. phase n (\<lambda>i. F i (xs ! m) (x i)) no_messages no_messages y \<and> I (Suc m) y"
      using snoc.prems(2) [of m x] by (simp add: nth_append)
  qed
  then obtain y where y: "phase n (\<lambda>i. foldM (F i) xs (x i)) no_messages no_messages y" "I (length xs) y"
    by blast
  from snoc.prems(2) [of "length xs" y] y(2) obtain z' where
    z': "phase n (\<lambda>i. F i z (y i)) no_messages no_messages z'" "I (Suc (length xs)) z'" by auto
  from phase_bind [where q = "\<lambda>i. F i z", OF y(1) z'(1)] z'(2) show ?case by (auto simp: foldM_snoc)
qed

lemma phase_done:
  assumes "phase n p A B x"
  shows "qreach n (map p [0..<n], A) (all_returned (map x [0..<n]), B)"
  using spec [OF assms [unfolded phase_def], of "\<lambda>i. Return"] by (simp add: all_returned_def comp_def)

section \<open>Transfer to a network that simulates the queues\<close>

context fifo_network
begin

lemma act_simulates:
  assumes "carries n N Q"
  shows "case qact n i (ps, Q) of
      None \<Rightarrow> act send recv i (ps, N) = None
    | Some (ps', Q') \<Rightarrow> \<exists>N'. act send recv i (ps, N) = Some (ps', N') \<and> carries n N' Q'"
proof (cases "i < length ps")
  case False
  then show ?thesis by (simp add: act_def)
next
  case i: True
  show ?thesis
  proof (cases "ps ! i")
    case (SendTo j v p)
    show ?thesis
    proof (cases "i < n \<and> j < n")
      case True
      then show ?thesis using send_ok [OF assms, of i j v] i SendTo by (auto simp: act_def qsend_def)
    next
      case False
      then show ?thesis
        using send_outside [OF assms False, of v] i SendTo by (simp add: act_def qsend_def)
    qed
  next
    case (RecvFrom j k)
    show ?thesis
    proof (cases "i < n \<and> j < n")
      case True
      then show ?thesis
        using recv_ok [OF assms, of i j] recv_waits [OF assms, of i j] i RecvFrom
        by (cases "Q j i") (fastforce simp: act_def qrecv_def)+
    next
      case False
      then show ?thesis
        using recv_outside [OF assms False] i RecvFrom False by (auto simp: act_def qrecv_def)
    qed
  qed (use i in \<open>simp_all add: act_def\<close>)
qed

lemma runs_to_queues:
  "runs send recv m (ps, N) (ps', N') \<Longrightarrow> carries n N Q \<Longrightarrow>
   \<exists>Q'. qruns n m (ps, Q) (ps', Q') \<and> carries n N' Q'"
proof (induction m arbitrary: ps N Q)
  case 0
  then show ?case by auto
next
  case (Suc m)
  then obtain i ps1 N1 where 1: "act send recv i (ps, N) = Some (ps1, N1)" "runs send recv m (ps1, N1) (ps', N')"
    by (auto simp: runs_Suc_iff)
  from act_simulates [OF Suc.prems(2), of i ps] 1(1) obtain Q1 where
    "qact n i (ps, Q) = Some (ps1, Q1)" "carries n N1 Q1"
    by (auto split: option.splits)
  with Suc.IH [OF 1(2)] show ?case by (blast intro: runs_Suc)
qed

lemma runs_from_queues:
  "qruns n m (ps, Q) (ps', Q') \<Longrightarrow> carries n N Q \<Longrightarrow>
   \<exists>N'. runs send recv m (ps, N) (ps', N') \<and> carries n N' Q'"
proof (induction m arbitrary: ps N Q)
  case 0
  then show ?case by auto
next
  case (Suc m)
  then obtain i ps1 Q1 where 1: "qact n i (ps, Q) = Some (ps1, Q1)" "qruns n m (ps1, Q1) (ps', Q')"
    by (auto simp: runs_Suc_iff)
  from act_simulates [OF Suc.prems(2), of i ps] 1(1) obtain N1 where
    "act send recv i (ps, N) = Some (ps1, N1)" "carries n N1 Q1" by auto
  with Suc.IH [OF 1(2)] show ?case by (blast intro: runs_Suc)
qed

lemma runs_complete:
  assumes "qruns n M (ps, Q) (all_returned rs, Q')" "carries n N Q"
  shows "always_computes send recv ps N rs (\<lambda>N'. carries n N' Q')"
  unfolding always_computes_def
proof (intro exI [of _ M] allI impI)
  fix m c
  assume m: "runs send recv m (ps, N) c"
  obtain ps' N' where c: "c = (ps', N')" by fastforce
  from runs_to_queues [OF m [unfolded c] assms(2)] obtain Q1 where
    Q1: "qruns n m (ps, Q) (ps', Q1)" "carries n N' Q1" by blast
  from qruns_confluent [OF assms(1) all_returned_stuck Q1(1)]
  have "m \<le> M" "qruns n (M - m) (ps', Q1) (all_returned rs, Q')" by blast+
  with runs_from_queues [OF this(2) Q1(2)]
  show "m \<le> M \<and> (\<exists>N'. runs send recv (M - m) c (all_returned rs, N') \<and> carries n N' Q')"
    using c by simp
qed

lemma phase_always_computes:
  assumes "phase n p A B x" "carries n N A"
  shows "always_computes send recv (map p [0..<n]) N (map x [0..<n]) (\<lambda>N'. carries n N' B)"
  using phase_done [OF assms(1)] runs_complete [OF _ assms(2)] unfolding qreach_def by blast

end

end
