(* ===== verification/PackedFun.thy ===== *)
theory PackedFun
  imports Packed Process
begin

text \<open>
  The polynomials behind the packed sharings of the protocols, as functions: the secrets of a
  sharing sit at the points \<open>0, -1, \<dots>\<close>, the shares of the parties at \<open>1, 2, \<dots>\<close>. A sharing whose
  degree leaves no room for randomness is the interpolation \<open>packed_fun\<close> of its secrets.
\<close>

definition share_point :: "nat \<Rightarrow> 'a::field" where
  "share_point i = from_size (int i + 1)"

definition secret_point :: "nat \<Rightarrow> 'a::field" where
  "secret_point j = from_size (- int j)"

definition packed_fun :: "'a::field list \<Rightarrow> 'a \<Rightarrow> 'a" where
  "packed_fun xs = lagrange (map secret_point [0..<length xs]) xs"

lemma packed_fun_polyfun: "polyfun (length xs) (packed_fun xs)"
  using lagrange_polyfun [of "map secret_point [0..<length xs]" xs] by (simp add: packed_fun_def)

context point_field
begin

lemma secret_points_distinct: "k < 2 ^ 31 \<Longrightarrow> distinct (map (secret_point :: nat \<Rightarrow> 'a) [0..<k])"
  using packed_points_distinct [of k 0] by (simp add: secret_point_def [abs_def])

lemma packed_fun_at:
  fixes xs :: "'a list"
  assumes "j < length xs" "length xs < 2 ^ 31"
  shows "packed_fun xs (secret_point j) = xs ! j"
proof -
  let ?pts = "map (secret_point :: nat \<Rightarrow> 'a) [0..<length xs]"
  have "lagrange ?pts xs (?pts ! j) = xs ! j"
    using assms by (intro lagrange_at secret_points_distinct) simp_all
  then show ?thesis using assms(1) by (simp add: packed_fun_def)
qed

lemma packed_fun_unique:
  fixes f :: "'a \<Rightarrow> 'a"
  assumes "polyfun (length xs) f" "\<And>j. j < length xs \<Longrightarrow> f (secret_point j) = xs ! j"
    "length xs < 2 ^ 31"
  shows "f = packed_fun xs"
proof
  fix x
  let ?pts = "map (secret_point :: nat \<Rightarrow> 'a) [0..<length xs]"
  have eq: "f x = packed_fun xs x" if "x \<in> set ?pts" for x using assms(2,3) that by (auto simp: packed_fun_at)
  show "f x = packed_fun xs x"
    by (rule polyfun_unique [of ?pts, OF secret_points_distinct [OF assms(3)] _ _ eq])
      (use assms(1) packed_fun_polyfun [of xs] in simp_all)
qed

text \<open>\<open>EvPolyFromSecretsAndDegree(secrets, k - 1, prg)\<close> and \<open>SharesFromEvPoly\<close>.\<close>

lemma packed_shares:
  fixes xs :: "'a list"
  assumes "length xs = k" "0 < k" "k < 2 ^ 31"
  obtains poly g' where "EvPolyFromSecretsAndDegree rnd xs (size_sub k 1) g = Inr (poly, g')"
    "\<And>n. SharesFromEvPoly poly n = Inr (map (\<lambda>i. packed_fun xs (share_point i)) [0..<n])"
    "\<And>x. EvPoly_Evaluate poly x = Inr (packed_fun xs x)"
proof -
  have d: "size_sub k 1 = k - 1" using assms by (intro size_sub_exact) auto
  have le: "length xs \<le> k - 1 + 1" "k - 1 + 1 < 2 ^ 31" using assms by simp_all
  from packed_poly [OF le, of rnd g] obtain poly g' where
    p: "EvPolyFromSecretsAndDegree rnd xs (k - 1) g = Inr (poly, g')" "ev_wf poly"
      "distinct (mX poly)" "length (mX poly) = k - 1 + 1"
      "\<And>i. i < length xs \<Longrightarrow> ev_fun poly (from_size (- int i)) = xs ! i" by blast
  have f: "ev_fun poly = packed_fun xs"
    using ev_fun_polyfun [of poly] p(4,5) assms
    by (intro packed_fun_unique) (simp_all add: secret_point_def del: from_size_minus)
  show ?thesis
  proof (rule that [of poly g'])
    show "EvPolyFromSecretsAndDegree rnd xs (size_sub k 1) g = Inr (poly, g')" using p(1) d by simp
    show "\<And>n. SharesFromEvPoly poly n = Inr (map (\<lambda>i. packed_fun xs (share_point i)) [0..<n])"
      using shares_Inr [OF p(2,3)] by (simp add: f share_point_def)
    show "\<And>x. EvPoly_Evaluate poly x = Inr (packed_fun xs x)"
      using EvPoly_Evaluate_Inr [OF p(2,3)] by (simp add: f)
  qed
qed

lemma reconstruct_shares:
  fixes f :: "'a \<Rightarrow> 'a"
  assumes "polyfun n f" "0 < n" "n < 2 ^ 31"
  shows "SecretsFromSharesAndLength (map (\<lambda>i. f (share_point i)) [0..<n]) k
    = Inr (map (\<lambda>j. f (secret_point j)) [0..<k])"
  using reconstruct_length [OF assms, of k] by (simp add: share_point_def secret_point_def del: from_size_minus)

end

text \<open>The boxes of loops over all parties.\<close>

definition box_upto :: "nat \<Rightarrow> 'v box \<Rightarrow> 'v box" where
  "box_upto n b = (\<lambda>j. if j < n then b j else [])"

lemma box_concat_one_box: "box_concat (map (\<lambda>j. one_box j (f j)) [0..<n]) = box_upto n f"
proof (induction n)
  case (Suc n)
  have "box_concat (map (\<lambda>j. one_box j (f j)) [0..<Suc n]) = box_append (box_upto n f) (one_box n (f n))"
    using Suc.IH by simp
  then show ?case
    by (auto simp: box_append_def one_box_def box_upto_def no_box_def fun_eq_iff less_Suc_eq)
qed (simp add: box_upto_def no_box_def)

lemma box_concat_no_box [simp]: "box_concat (map (\<lambda>j. no_box) xs) = no_box"
  by (induction xs) simp_all

end
