(* ===== verification/MultBatch.thy ===== *)
theory MultBatch
  imports Gates PackedFun
begin

text \<open>
  Batches of multiplications and the online multiplication protocol (\<open>src/tp/mult_gate.h\<close>,
  \<open>src/tp/mult_gate.cc\<close>). A party has its own batch object and its own heap of gates; each phase of
  the protocol is a process of the party that returns both, updated. The lemmas give the messages of
  every phase; together they show that after the four phases, in whatever order the parties take
  their turns, party 0 holds in every gate of the batch the product of the parents' values minus the
  mask, and that the network is empty again.
\<close>

section \<open>The class MultBatch\<close>

record ('a, 'g) mult_batch =
  mbSize :: nat
  mbGates :: "nat list"
  mbShrLambdaA :: 'a
  mbShrLambdaB :: 'a
  mbShrDeltaC :: 'a
  mbID :: "nat option"
  mbParties :: nat
  mbPRG :: 'g
  mbShrMuA :: 'a
  mbShrMuB :: 'a

definition new_MultBatch :: "'g \<Rightarrow> nat \<Rightarrow> ('a::zero, 'g) mult_batch" where
  "new_MultBatch prg batch_size =
     \<lparr> mbSize = batch_size, mbGates = [], mbShrLambdaA = 0, mbShrLambdaB = 0, mbShrDeltaC = 0,
       mbID = None, mbParties = 0, mbPRG = prg, mbShrMuA = 0, mbShrMuB = 0 \<rparr>"

definition MultBatch_Append :: "nat \<Rightarrow> ('a, 'g) mult_batch \<Rightarrow> ('a, 'g) mult_batch res" where
  "MultBatch_Append mult_gate b =
     throw_if (length (mbGates b) = mbSize b)
       (Invalid_argument ''Trying to batch more than batch_size gates'') (
     Inr (b\<lparr> mbGates := mbGates b @ [mult_gate] \<rparr>))"

definition MultBatch_HasRoom :: "('a, 'g) mult_batch \<Rightarrow> bool" where
  "MultBatch_HasRoom b \<longleftrightarrow> length (mbGates b) < mbSize b"

definition MultBatch_SetNetwork :: "nat \<Rightarrow> nat \<Rightarrow> ('a, 'g) mult_batch \<Rightarrow> ('a, 'g) mult_batch" where
  "MultBatch_SetNetwork n_parties i b = b\<lparr> mbID := Some i, mbParties := n_parties \<rparr>"

definition MultBatch_SetPreprocessing ::
  "'a \<Rightarrow> 'a \<Rightarrow> 'a \<Rightarrow> ('a, 'g) mult_batch \<Rightarrow> ('a, 'g) mult_batch" where
  "MultBatch_SetPreprocessing shr_lambda_A shr_lambda_B shr_delta_C b =
     b\<lparr> mbShrLambdaA := shr_lambda_A, mbShrLambdaB := shr_lambda_B, mbShrDeltaC := shr_delta_C \<rparr>"

definition MultBatch_DummyPrep ::
  "'a::field \<Rightarrow> 'a \<Rightarrow> 'a \<Rightarrow> ('a, 'g) mult_batch \<Rightarrow> ('a, 'g) mult_batch res" where
  "MultBatch_DummyPrep lambda_A lambda_B lambda_C b =
     throw_if (length (mbGates b) \<noteq> mbSize b)
       (Invalid_argument ''The number of mult gates does not match the batch size'') (
     Inr (b\<lparr> mbShrLambdaA := lambda_A, mbShrLambdaB := lambda_B,
            mbShrDeltaC := lambda_A * lambda_B - lambda_C \<rparr>))"

text \<open>A batch whose network is not set has no channel to use.\<close>

definition connected :: "nat option \<Rightarrow> (nat \<Rightarrow> ('v, 'r) proc) \<Rightarrow> ('v, 'r) proc" where
  "connected i f = (case i of None \<Rightarrow> Throw Undefined | Some i \<Rightarrow> f i)"

lemma connected_simps [simp]: "connected (Some i) f = f i" "connected None f = Throw Undefined"
  by (simp_all add: connected_def)

text \<open>\<open>gate->GetLeft()->GetMu()\<close> and \<open>gate->GetRight()->GetMu()\<close> for the gates of the batch.\<close>

definition collect_mu :: "nat list \<Rightarrow> 'a::field heap \<Rightarrow> ('a list \<times> 'a list \<times> 'a heap) res option" where
  "collect_mu gates h = foldP (\<lambda>g (mu_alpha, mu_beta, h).
     bindP (liftP (vget h g)) (\<lambda>G. bindP (liftP (deref (mLeft G))) (\<lambda>l. bindP (GetMu h l) (\<lambda>(a, h).
     bindP (liftP (vget h g)) (\<lambda>G. bindP (liftP (deref (mRight G))) (\<lambda>r. bindP (GetMu h r) (\<lambda>(b, h).
     retP (mu_alpha @ [a], mu_beta @ [b], h))))))))
     gates ([], [], h)"

text \<open>The masks of the parents and of the gates, as \<open>PrepFromDummyLambdas\<close> reads them.\<close>

definition collect_lambdas ::
  "nat \<Rightarrow> nat list \<Rightarrow> 'a::field heap \<Rightarrow> ('a list \<times> 'a list \<times> 'a list \<times> 'a heap) res option" where
  "collect_lambdas batch_size gates h = foldP (\<lambda>i (lambda_A, lambda_B, lambda_C, h).
     bindP (liftP (vget gates i)) (\<lambda>g. bindP (liftP (vget h g)) (\<lambda>G.
     bindP (liftP (deref (mLeft G))) (\<lambda>l. bindP (GetDummyLambda h l) (\<lambda>(l_A, h).
     bindP (liftP (vget h g)) (\<lambda>G.
     bindP (liftP (deref (mRight G))) (\<lambda>r. bindP (GetDummyLambda h r) (\<lambda>(l_B, h).
     bindP (GetDummyLambda h g) (\<lambda>(l_C, h).
     retP (lambda_A @ [l_A], lambda_B @ [l_B], lambda_C @ [l_C], h))))))))))
     [0..<batch_size] ([], [], [], h)"

definition MultBatch_PrepFromDummyLambdas :: "('g \<Rightarrow> 'a::field \<times> 'g) \<Rightarrow> 'a heap \<times> ('a, 'g) mult_batch
    \<Rightarrow> ('a heap \<times> ('a, 'g) mult_batch) res option" where
  "MultBatch_PrepFromDummyLambdas rnd = (\<lambda>(h, b).
     bindP (collect_lambdas (mbSize b) (mbGates b) h) (\<lambda>(lambda_A, lambda_B, lambda_C, h).
     let delta_C = map2 (-) (map2 (*) lambda_A lambda_B) lambda_C in
     bindP (liftP (deref (mbID b))) (\<lambda>i.
     bindP (liftP (EvPolyFromSecretsAndDegree rnd lambda_A (size_sub (mbSize b) 1) (mbPRG b))) (\<lambda>(poly_A, prg).
     bindP (liftP (EvPoly_Evaluate poly_A (from_size (int i)))) (\<lambda>shr_A.
     bindP (liftP (EvPolyFromSecretsAndDegree rnd lambda_B (size_sub (mbSize b) 1) prg)) (\<lambda>(poly_B, prg).
     bindP (liftP (EvPoly_Evaluate poly_B (from_size (int i)))) (\<lambda>shr_B.
     bindP (liftP (EvPolyFromSecretsAndDegree rnd delta_C (size_sub (mbSize b) 1) prg)) (\<lambda>(poly_C, prg).
     bindP (liftP (EvPoly_Evaluate poly_C (from_size (int i)))) (\<lambda>shr_C.
     retP (h, b\<lparr> mbShrLambdaA := shr_A, mbShrLambdaB := shr_B, mbShrDeltaC := shr_C,
                mbPRG := prg \<rparr>))))))))))"

text \<open>\<open>MultBatch::GetClear\<close>, and the same loop for the other kinds of batch.\<close>

definition clear_gates :: "nat list \<Rightarrow> 'a::field heap \<Rightarrow> 'a heap res option" where
  "clear_gates gates h = foldP (\<lambda>g h. bindP (GetClear h g) (\<lambda>(v, h). retP h)) gates h"

definition MultBatch_GetClear :: "'a::field heap \<times> ('a, 'g) mult_batch \<Rightarrow> ('a heap \<times> ('a, 'g) mult_batch) res option" where
  "MultBatch_GetClear = (\<lambda>(h, b). bindP (clear_gates (mbGates b) h) (\<lambda>h. retP (h, b)))"

definition GetMultGate :: "('a, 'g) mult_batch \<Rightarrow> nat \<Rightarrow> nat res" where
  "GetMultGate b idx = vget (mbGates b) idx"

subsection \<open>The four phases\<close>

definition MultBatch_P1Sends :: "('g \<Rightarrow> 'a::field \<times> 'g)
   \<Rightarrow> 'a heap \<times> ('a, 'g) mult_batch \<Rightarrow> ('a, 'a heap \<times> ('a, 'g) mult_batch) proc" where
  "MultBatch_P1Sends rnd = (\<lambda>(h, b). connected (mbID b) (\<lambda>i.
     if i = 0 then
       bindM (optM (collect_mu (mbGates b) h)) (\<lambda>(mu_alpha, mu_beta, h).
       bindM (liftM (EvPolyFromSecretsAndDegree rnd mu_alpha (size_sub (mbSize b) 1) (mbPRG b)))
         (\<lambda>(poly_A, prg).
       bindM (liftM (SharesFromEvPoly poly_A (mbParties b))) (\<lambda>shares_A.
       bindM (liftM (EvPolyFromSecretsAndDegree rnd mu_beta (size_sub (mbSize b) 1) prg))
         (\<lambda>(poly_B, prg).
       bindM (liftM (SharesFromEvPoly poly_B (mbParties b))) (\<lambda>shares_B.
       bindM (foldM (\<lambda>i _.
           bindM (liftM (vget shares_A i)) (\<lambda>a. bindM (sendM i a) (\<lambda>_.
           bindM (liftM (vget shares_B i)) (\<lambda>b. sendM i b)))) [0..<mbParties b] ()) (\<lambda>_.
       Return (h, b\<lparr> mbPRG := prg \<rparr>)))))))
     else Return (h, b)))"

definition MultBatch_PartiesReceive ::
  "'a heap \<times> ('a, 'g) mult_batch \<Rightarrow> ('a, 'a heap \<times> ('a, 'g) mult_batch) proc" where
  "MultBatch_PartiesReceive = (\<lambda>(h, b). connected (mbID b) (\<lambda>i.
     bindM (recvM 0) (\<lambda>shr_mu_A. bindM (recvM 0) (\<lambda>shr_mu_B.
     Return (h, b\<lparr> mbShrMuA := shr_mu_A, mbShrMuB := shr_mu_B \<rparr>)))))"

definition MultBatch_PartiesSend ::
  "'a::field heap \<times> ('a, 'g) mult_batch \<Rightarrow> ('a, 'a heap \<times> ('a, 'g) mult_batch) proc" where
  "MultBatch_PartiesSend = (\<lambda>(h, b). connected (mbID b) (\<lambda>i.
     let shr_mu_C = mbShrMuB b * mbShrLambdaA b + mbShrMuA b * mbShrLambdaB b
                  + mbShrMuA b * mbShrMuB b + mbShrDeltaC b in
     bindM (sendM 0 shr_mu_C) (\<lambda>_. Return (h, b))))"

definition recv_from_all :: "nat \<Rightarrow> ('v, 'v list) proc" where
  "recv_from_all n_parties = foldM (\<lambda>i shares. bindM (recvM i) (\<lambda>v. Return (shares @ [v]))) [0..<n_parties] []"

definition MultBatch_P1Receives ::
  "'a::field heap \<times> ('a, 'g) mult_batch \<Rightarrow> ('a, 'a heap \<times> ('a, 'g) mult_batch) proc" where
  "MultBatch_P1Receives = (\<lambda>(h, b). connected (mbID b) (\<lambda>i.
     if i = 0 then
       bindM (recv_from_all (mbParties b)) (\<lambda>shares.
       bindM (liftM (SecretsFromSharesAndLength shares (mbSize b))) (\<lambda>mu_gamma.
       bindM (liftM (foldE (\<lambda>i h. bindE (vget (mbGates b) i) (\<lambda>g. bindE (vget mu_gamma i) (\<lambda>m.
           bindE (vget h g) (\<lambda>G. Inr (h[g := G\<lparr> mMu := m, mLearned := True \<rparr>])))))
         [0..<mbSize b] h)) (\<lambda>h.
       Return (h, b))))
     else Return (h, b)))"

definition MultBatch_RunProtocol :: "('g \<Rightarrow> 'a::field \<times> 'g)
   \<Rightarrow> 'a heap \<times> ('a, 'g) mult_batch \<Rightarrow> ('a, 'a heap \<times> ('a, 'g) mult_batch) proc" where
  "MultBatch_RunProtocol rnd s =
     bindM (MultBatch_P1Sends rnd s) (\<lambda>s.
     bindM (MultBatch_PartiesReceive s) (\<lambda>s.
     bindM (MultBatch_PartiesSend s) (\<lambda>s. MultBatch_P1Receives s)))"

section \<open>Reading the masked values of the parents\<close>

lemma collect_mu_Inr:
  assumes "\<And>g. g \<in> set gates \<Longrightarrow> \<exists>l r. mLeft (h ! g) = Some l \<and> mRight (h ! g) = Some r \<and> g < length h
    \<and> evals mu_rule h l (mA g) \<and> evals mu_rule h r (mB g)"
  shows "\<exists>h'. collect_mu gates h = Some (Inr (map mA gates, map mB gates, h')) \<and> mu.memoised h h'"
proof -
  have links: "mLeft (h' ! g) = mLeft (h ! g) \<and> mRight (h' ! g) = mRight (h ! g)"
    if "mu.memoised h h'" "g < length h" for h' g
    using that unfolding mu.memoised_def by fastforce
  have "\<exists>h'. foldP (\<lambda>g (mu_alpha, mu_beta, h).
     bindP (liftP (vget h g)) (\<lambda>G. bindP (liftP (deref (mLeft G))) (\<lambda>l. bindP (GetMu h l) (\<lambda>(a, h).
     bindP (liftP (vget h g)) (\<lambda>G. bindP (liftP (deref (mRight G))) (\<lambda>r. bindP (GetMu h r) (\<lambda>(b, h).
     retP (mu_alpha @ [a], mu_beta @ [b], h)))))))) gs (xs, ys, h0)
     = Some (Inr (xs @ map mA gs, ys @ map mB gs, h')) \<and> mu.memoised h h'"
    if "set gs \<subseteq> set gates" "mu.memoised h h0" for gs xs ys h0
    using that
  proof (induction gs arbitrary: xs ys h0)
    case Nil
    then show ?case by (simp add: retP_def)
  next
    case (Cons g gs)
    then obtain l r where g: "mLeft (h ! g) = Some l" "mRight (h ! g) = Some r" "g < length h"
      "evals mu_rule h l (mA g)" "evals mu_rule h r (mB g)"
      using assms [of g] by auto
    obtain h1 where h1: "GetMu h0 l = Some (Inr (mA g, h1))" "mu.memoised h h1"
      using mu.get_evals_gen [OF g(4) Cons.prems(2)] by blast
    obtain h2 where h2: "GetMu h1 r = Some (Inr (mB g, h2))" "mu.memoised h h2"
      using mu.get_evals_gen [OF g(5) h1(2)] by blast
    have "g < length h0" "g < length h1"
      using g(3) mu.memoised_length Cons.prems(2) h1(2) by metis+
    then show ?case
      using Cons.IH [OF _ h2(2), of "xs @ [mA g]" "ys @ [mB g]"] Cons.prems(1)
        links [OF Cons.prems(2) g(3)] links [OF h1(2) g(3)] g h1(1) h2(1)
      by (simp add: deref_def)
  qed
  from this [of gates h "[]" "[]"] show ?thesis by (simp add: collect_mu_def mu.memoised_refl)
qed

text \<open>What party 0 writes into the gates.\<close>

lemma write_mu:
  assumes "length gates = k" "length ms = k" "\<And>g. g \<in> set gates \<Longrightarrow> g < length h"
  shows "\<exists>h'. foldE (\<lambda>i h. bindE (vget gates i) (\<lambda>g. bindE (vget ms i) (\<lambda>m.
      bindE (vget h g) (\<lambda>G. Inr (h[g := G\<lparr> mMu := m, mLearned := True \<rparr>]))))) [0..<k] h = Inr h'
    \<and> length h' = length h \<and> (\<forall>g < length h. if g \<in> set gates
        then \<exists>j<k. gates ! j = g \<and> h' ! g = (h ! g)\<lparr> mMu := ms ! j, mLearned := True \<rparr>
        else h' ! g = h ! g)"
proof -
  let ?I = "\<lambda>n h'. length h' = length h \<and> (\<forall>g < length h. if g \<in> set (take n gates)
        then \<exists>j<n. gates ! j = g \<and> h' ! g = (h ! g)\<lparr> mMu := ms ! j, mLearned := True \<rparr>
        else h' ! g = h ! g)"
  have "\<exists>h'. foldE (\<lambda>i h. bindE (vget gates i) (\<lambda>g. bindE (vget ms i) (\<lambda>m.
      bindE (vget h g) (\<lambda>G. Inr (h[g := G\<lparr> mMu := m, mLearned := True \<rparr>]))))) [0..<k] h = Inr h' \<and> ?I k h'"
  proof (rule foldE_upt_invariant)
    fix n h'
    assume n: "n < k" and I: "?I n h'"
    let ?g = "gates ! n"
    have g: "?g < length h" using assms n by simp
    let ?h = "h'[?g := (h' ! ?g)\<lparr> mMu := ms ! n, mLearned := True \<rparr>]"
    have "?I (Suc n) ?h"
    proof (intro conjI allI impI)
      fix g
      assume gl: "g < length h"
      have t: "set (take (Suc n) gates) = insert ?g (set (take n gates))"
        using n assms(1) by (simp add: take_Suc_conv_app_nth)
      show "if g \<in> set (take (Suc n) gates)
        then \<exists>j<Suc n. gates ! j = g \<and> ?h ! g = (h ! g)\<lparr> mMu := ms ! j, mLearned := True \<rparr>
        else ?h ! g = h ! g"
      proof (cases "g = ?g")
        case True
        have "(h' ! ?g)\<lparr> mMu := ms ! n, mLearned := True \<rparr> = (h ! ?g)\<lparr> mMu := ms ! n, mLearned := True \<rparr>"
          using I g by (auto split: if_splits)
        then show ?thesis using True I g t by auto
      next
        case False
        then have "?h ! g = h' ! g" by simp
        then show ?thesis using I gl False t by (auto split: if_splits simp: less_Suc_eq)
      qed
    qed (use I in simp)
    moreover have "bindE (vget gates n) (\<lambda>g. bindE (vget ms n) (\<lambda>m.
      bindE (vget h' g) (\<lambda>G. Inr (h'[g := G\<lparr> mMu := m, mLearned := True \<rparr>])))) = Inr ?h"
      using n assms(1,2) g I by simp
    ultimately show "\<exists>s'. bindE (vget gates n) (\<lambda>g. bindE (vget ms n) (\<lambda>m.
      bindE (vget h' g) (\<lambda>G. Inr (h'[g := G\<lparr> mMu := m, mLearned := True \<rparr>])))) = Inr s' \<and> ?I (Suc n) s'"
      by blast
  qed simp
  then show ?thesis using assms(1) by simp
qed

section \<open>The messages of the phases\<close>

lemma acts_recv_from_all:
  assumes "i < n"
  shows "acts n i (recv_from_all n) (box_upto n (\<lambda>j. [f j])) no_box (map f [0..<n])"
proof -
  have "\<exists>s'. acts n i (foldM (\<lambda>i shares. bindM (recvM i) (\<lambda>v. Return (shares @ [v]))) [0..<n] [])
      (box_concat (map (\<lambda>j. one_box j [f j]) [0..<length [0..<n]]))
      (box_concat (map (\<lambda>j. no_box) [0..<length [0..<n]])) s' \<and> s' = map f [0..<length [0..<n]]"
  proof (rule acts_foldM [where I = "\<lambda>m s. s = map f [0..<m]"])
    fix m s
    assume m: "m < length [0..<n]" and s: "s = map f [0..<m]"
    have "acts n i (bindM (recvM m) (\<lambda>v. Return (s @ [v]))) (one_box m [f m]) no_box (s @ [f m])"
      using acts_recv_bind [OF assms, of m "\<lambda>v. Return (s @ [v])" "f m"] m acts_Return by fastforce
    then show "\<exists>s'. acts n i (bindM (recvM ([0..<n] ! m)) (\<lambda>v. Return (s @ [v]))) (one_box m [f m]) no_box s'
        \<and> s' = map f [0..<Suc m]"
      using m s by auto
  qed simp
  then show ?thesis by (simp add: recv_from_all_def box_concat_one_box)
qed

lemma acts_send_all:
  assumes "i < n"
    and "\<And>j. j < m \<Longrightarrow> acts n i (p j) no_box (one_box j (vs j)) ()"
  shows "acts n i (foldM (\<lambda>j _. p j) [0..<m] ()) no_box (box_upto m vs) ()"
proof -
  have "\<exists>s'. acts n i (foldM (\<lambda>j _. p j) [0..<m] ())
      (box_concat (map (\<lambda>j. no_box) [0..<length [0..<m]]))
      (box_concat (map (\<lambda>j. one_box j (vs j)) [0..<length [0..<m]])) s' \<and> True"
    by (rule acts_foldM) (use assms(2) in auto)
  then show ?thesis by (auto simp: box_concat_one_box)
qed

lemma acts_send_two:
  assumes "i < n" "j < n" "j < length as" "j < length bs"
  shows "acts n i (bindM (liftM (vget as j)) (\<lambda>a. bindM (sendM j a) (\<lambda>_.
      bindM (liftM (vget bs j)) (\<lambda>b. sendM j b)))) no_box (one_box j [as ! j, bs ! j]) ()"
proof -
  have "acts n i (bindM (sendM j (as ! j)) (\<lambda>_. sendM j (bs ! j))) no_box
      (box_append (one_box j [as ! j]) (one_box j [bs ! j])) ()"
    using assms by (intro acts_send_bind acts_sendM) simp_all
  then show ?thesis using assms by simp
qed

context point_field
begin

lemma P1Sends_acts:
  fixes b :: "('a, 'g) mult_batch"
  assumes b: "mbID b = Some 0" "mbParties b = n" "mbSize b = k" "0 < k" "k < 2 ^ 31" "0 < n"
    and c: "collect_mu (mbGates b) h = Some (Inr (as, bs, h'))" "length as = k" "length bs = k"
  shows "\<exists>prg'. acts n 0 (MultBatch_P1Sends rnd (h, b)) no_box
    (box_upto n (\<lambda>j. [packed_fun as (share_point j), packed_fun bs (share_point j)]))
    (h', b\<lparr> mbPRG := prg' \<rparr>)"
proof -
  obtain pA gA where A: "EvPolyFromSecretsAndDegree rnd as (size_sub k 1) (mbPRG b) = Inr (pA, gA)"
    "\<And>n. SharesFromEvPoly pA n = Inr (map (\<lambda>i. packed_fun as (share_point i)) [0..<n])"
    by (rule packed_shares [OF c(2) b(4,5), of rnd "mbPRG b"]) blast
  obtain pB gB where B: "EvPolyFromSecretsAndDegree rnd bs (size_sub k 1) gA = Inr (pB, gB)"
    "\<And>n. SharesFromEvPoly pB n = Inr (map (\<lambda>i. packed_fun bs (share_point i)) [0..<n])"
    by (rule packed_shares [OF c(3) b(4,5), of rnd gA]) blast
  let ?as = "map (\<lambda>i. packed_fun as (share_point i)) [0..<n]"
  let ?bs = "map (\<lambda>i. packed_fun bs (share_point i)) [0..<n]"
  have s: "acts n 0 (foldM (\<lambda>i _. bindM (liftM (vget ?as i)) (\<lambda>a. bindM (sendM i a) (\<lambda>_.
      bindM (liftM (vget ?bs i)) (\<lambda>b. sendM i b)))) [0..<n] ()) no_box
      (box_upto n (\<lambda>j. [?as ! j, ?bs ! j])) ()"
    using b(6) by (intro acts_send_all acts_send_two) simp_all
  have box: "box_upto n (\<lambda>j. [?as ! j, ?bs ! j])
      = box_upto n (\<lambda>j. [packed_fun as (share_point j), packed_fun bs (share_point j)])"
    by (auto simp: box_upto_def fun_eq_iff)
  have "acts n 0 (MultBatch_P1Sends rnd (h, b)) no_box (box_upto n (\<lambda>j. [?as ! j, ?bs ! j]))
      (h', b\<lparr> mbPRG := gB \<rparr>)"
    using acts_bind [where f = "\<lambda>_. Return (h', b\<lparr> mbPRG := gB \<rparr>)", OF s acts_Return]
    by (simp add: MultBatch_P1Sends_def b(1-3) c(1) A B del: One_nat_def)
  then show ?thesis unfolding box by blast
qed

text \<open>What party 0 writes into the gates when it has received the shares.\<close>

lemma P1Receives_acts:
  fixes b :: "('a, 'g) mult_batch" and C :: "'a \<Rightarrow> 'a"
  assumes b: "mbID b = Some 0" "mbParties b = n" "mbSize b = k" "length (mbGates b) = k" "0 < n" "n < 2 ^ 31"
    and C: "polyfun n C" and g: "\<And>g. g \<in> set (mbGates b) \<Longrightarrow> g < length h"
  shows "\<exists>h'. acts n 0 (MultBatch_P1Receives (h, b)) (box_upto n (\<lambda>j. [C (share_point j)])) no_box (h', b)
    \<and> length h' = length h \<and> (\<forall>g < length h. if g \<in> set (mbGates b)
        then \<exists>j<k. mbGates b ! j = g \<and> h' ! g = (h ! g)\<lparr> mMu := C (secret_point j), mLearned := True \<rparr>
        else h' ! g = h ! g)"
proof -
  let ?ms = "map (\<lambda>j. C (secret_point j)) [0..<k]"
  obtain h' where h': "foldE (\<lambda>i h. bindE (vget (mbGates b) i) (\<lambda>g. bindE (vget ?ms i) (\<lambda>m.
      bindE (vget h g) (\<lambda>G. Inr (h[g := G\<lparr> mMu := m, mLearned := True \<rparr>]))))) [0..<k] h = Inr h'"
    "length h' = length h" "\<And>g. g < length h \<Longrightarrow> if g \<in> set (mbGates b)
        then \<exists>j<k. mbGates b ! j = g \<and> h' ! g = (h ! g)\<lparr> mMu := ?ms ! j, mLearned := True \<rparr>
        else h' ! g = h ! g"
    using write_mu [OF b(4), of ?ms h] g by auto
  have "acts n 0 (MultBatch_P1Receives (h, b)) (box_append (box_upto n (\<lambda>j. [C (share_point j)])) no_box)
      (box_append no_box no_box) (h', b)"
    unfolding MultBatch_P1Receives_def
    using acts_bind [OF acts_recv_from_all [OF b(5), of "\<lambda>j. C (share_point j)"], of
        "\<lambda>shares. bindM (liftM (SecretsFromSharesAndLength shares (mbSize b))) (\<lambda>mu_gamma.
       bindM (liftM (foldE (\<lambda>i h. bindE (vget (mbGates b) i) (\<lambda>g. bindE (vget mu_gamma i) (\<lambda>m.
           bindE (vget h g) (\<lambda>G. Inr (h[g := G\<lparr> mMu := m, mLearned := True \<rparr>])))))
         [0..<mbSize b] h)) (\<lambda>h. Return (h, b)))" no_box no_box "(h', b)"]
    by (simp add: b(1-3) reconstruct_shares [OF C b(5,6)] h'(1) acts_Return)
  moreover have "if g \<in> set (mbGates b)
        then \<exists>j<k. mbGates b ! j = g \<and> h' ! g = (h ! g)\<lparr> mMu := C (secret_point j), mLearned := True \<rparr>
        else h' ! g = h ! g" if "g < length h" for g
    using h'(3) [OF that] by (auto split: if_splits)
  ultimately show ?thesis using h'(2) by auto
qed

end

lemma other_party_acts:
  assumes "mbID b = Some i" "i \<noteq> 0"
  shows "acts n i (MultBatch_P1Sends rnd (h, b)) no_box no_box (h, b)"
    and "acts n i (MultBatch_P1Receives (h, b)) no_box no_box (h, b)"
  using assms by (simp_all add: MultBatch_P1Sends_def MultBatch_P1Receives_def acts_Return)

lemma PartiesReceive_acts:
  assumes "mbID b = Some i" "i < n"
  shows "acts n i (MultBatch_PartiesReceive (h, b)) (one_box 0 [x, y]) no_box
    (h, b\<lparr> mbShrMuA := x, mbShrMuB := y \<rparr>)"
proof -
  have "acts n i (bindM (recvM 0) (\<lambda>x. bindM (recvM 0) (\<lambda>y.
      Return (h, b\<lparr> mbShrMuA := x, mbShrMuB := y \<rparr>))))
      (box_append (one_box 0 [x]) (box_append (one_box 0 [y]) no_box)) no_box
      (h, b\<lparr> mbShrMuA := x, mbShrMuB := y \<rparr>)"
    using assms(2) by (intro acts_recv_bind acts_Return) simp_all
  then show ?thesis by (simp add: MultBatch_PartiesReceive_def assms(1))
qed

definition mu_C_share :: "('a::field, 'g) mult_batch \<Rightarrow> 'a" where
  "mu_C_share b = mbShrMuB b * mbShrLambdaA b + mbShrMuA b * mbShrLambdaB b
     + mbShrMuA b * mbShrMuB b + mbShrDeltaC b"

lemma PartiesSend_acts:
  assumes "mbID b = Some i" "i < n"
  shows "acts n i (MultBatch_PartiesSend (h, b)) no_box (one_box 0 [mu_C_share b]) (h, b)"
proof -
  have "acts n i (bindM (sendM 0 (mu_C_share b)) (\<lambda>_. Return (h, b))) no_box
      (box_append (one_box 0 [mu_C_share b]) no_box) (h, b)"
    using assms(2) by (intro acts_send_bind acts_Return) simp_all
  then show ?thesis by (simp add: MultBatch_PartiesSend_def assms(1) mu_C_share_def)
qed

section \<open>The protocol\<close>

text \<open>
  What the four phases start from: \<open>n\<close> parties with consistent batches of \<open>k\<close> gates; party 0 can
  read \<open>muA g\<close> and \<open>muB g\<close> off the parents of every gate \<open>g\<close> of the batch; the preprocessed shares
  lie on polynomials \<open>fA\<close>, \<open>fB\<close> of degree at most \<open>n - k\<close> and \<open>fD\<close> of degree below \<open>n\<close>.
\<close>

definition mult_setup :: "nat \<Rightarrow> nat \<Rightarrow> ('a::field heap \<times> ('a, 'g) mult_batch) list
    \<Rightarrow> (nat \<Rightarrow> 'a) \<Rightarrow> (nat \<Rightarrow> 'a) \<Rightarrow> ('a \<Rightarrow> 'a) \<Rightarrow> ('a \<Rightarrow> 'a) \<Rightarrow> ('a \<Rightarrow> 'a) \<Rightarrow> bool" where
  "mult_setup n k parties muA muB fA fB fD \<longleftrightarrow>
     length parties = n \<and> 0 < k \<and> 2 * k - 1 \<le> n \<and> n < 2 ^ 31 \<and>
     polyfun (n - k + 1) fA \<and> polyfun (n - k + 1) fB \<and> polyfun n fD \<and>
     (\<forall>i<n. mbID (snd (parties ! i)) = Some i \<and> mbParties (snd (parties ! i)) = n \<and>
        mbShrLambdaA (snd (parties ! i)) = fA (share_point i) \<and>
        mbShrLambdaB (snd (parties ! i)) = fB (share_point i) \<and>
        mbShrDeltaC (snd (parties ! i)) = fD (share_point i)) \<and>
     (case parties ! 0 of (h, b) \<Rightarrow> mbSize b = k \<and> length (mbGates b) = k \<and>
        (\<forall>g \<in> set (mbGates b). \<exists>l r. mLeft (h ! g) = Some l \<and> mRight (h ! g) = Some r \<and> g < length h
           \<and> evals mu_rule h l (muA g) \<and> evals mu_rule h r (muB g)))"

text \<open>The value that party 0 obtains for the gate in position \<open>j\<close> of the batch.\<close>

definition mult_result :: "('a::field \<Rightarrow> 'a) \<Rightarrow> ('a \<Rightarrow> 'a) \<Rightarrow> ('a \<Rightarrow> 'a) \<Rightarrow> 'a \<Rightarrow> 'a \<Rightarrow> nat \<Rightarrow> 'a" where
  "mult_result fA fB fD a b j =
     (a + fA (secret_point j)) * (b + fB (secret_point j))
     + (fD (secret_point j) - fA (secret_point j) * fB (secret_point j))"

text \<open>The polynomial on which the shares lie that the parties send back.\<close>

definition mu_C_fun :: "('a::field \<Rightarrow> 'a) \<Rightarrow> ('a \<Rightarrow> 'a) \<Rightarrow> ('a \<Rightarrow> 'a) \<Rightarrow> ('a \<Rightarrow> 'a) \<Rightarrow> ('a \<Rightarrow> 'a) \<Rightarrow> 'a \<Rightarrow> 'a" where
  "mu_C_fun fA fB fD uA uB x = uB x * fA x + uA x * fB x + uA x * uB x + fD x"

lemma mu_C_fun_polyfun:
  assumes "polyfun (n - k + 1) fA" "polyfun (n - k + 1) fB" "polyfun n fD" "polyfun k uA" "polyfun k uB"
    "0 < k" "2 * k - 1 \<le> n"
  shows "polyfun n (mu_C_fun fA fB fD uA uB)"
proof -
  have kk: "k - 1 + (n - k) = n - 1" using assms(6,7) by simp
  have u: "polyfun (Suc (k - 1)) uA" "polyfun (Suc (k - 1)) uB" using assms(4-6) by simp_all
  have f: "polyfun (Suc (n - k)) fA" "polyfun (Suc (n - k)) fB" using assms(1,2) by simp_all
  have "polyfun n (\<lambda>x. uB x * fA x)" "polyfun n (\<lambda>x. uA x * fB x)"
    using polyfun_mult [OF u(2) f(1)] polyfun_mult [OF u(1) f(2)] kk assms(6,7) by simp_all
  moreover have "polyfun n (\<lambda>x. uA x * uB x)"
    by (rule polyfun_mono [OF polyfun_mult [OF u]]) (use assms(6,7) in simp)
  ultimately show ?thesis unfolding mu_C_fun_def [abs_def] by (intro polyfun_add assms(3))
qed

lemma mu_C_fun_result:
  assumes "uA (secret_point j) = a" "uB (secret_point j) = b"
  shows "mu_C_fun fA fB fD uA uB (secret_point j) = mult_result fA fB fD a b j"
  using assms by (simp add: mu_C_fun_def mult_result_def algebra_simps)

text \<open>The messages of the first and of the third phase.\<close>

definition from_0 :: "nat \<Rightarrow> 'v box \<Rightarrow> 'v queues" where
  "from_0 n b = (\<lambda>i j. if i = 0 then box_upto n b j else [])"

definition to_0 :: "nat \<Rightarrow> 'v box \<Rightarrow> 'v queues" where
  "to_0 n b = (\<lambda>i j. if j = 0 then box_upto n b i else [])"

lemma from_0_simps:
  "0 < n \<Longrightarrow> inside n (from_0 n b)" "0 < n \<Longrightarrow> inside n (to_0 n b)"
  "from_0 n b 0 = box_upto n b" "i \<noteq> 0 \<Longrightarrow> from_0 n b i = no_box"
  "i < n \<Longrightarrow> (\<lambda>k. from_0 n b k i) = one_box 0 (b i)"
  "i < n \<Longrightarrow> to_0 n b i = one_box 0 (b i)"
  "(\<lambda>k. to_0 n b k 0) = box_upto n b" "i \<noteq> 0 \<Longrightarrow> (\<lambda>k. to_0 n b k i) = no_box"
  by (auto simp: inside_def from_0_def to_0_def box_upto_def one_box_def no_box_def fun_eq_iff)

lemma no_messages_simps: "inside n no_messages" "no_messages i = no_box" "(\<lambda>k. no_messages k i) = no_box"
  "(\<lambda>k. no_box i) = no_box"
  by (auto simp: inside_def no_messages_def no_box_def)

context point_field
begin

lemma MultBatch_phase:
  fixes parties :: "('a heap \<times> ('a, 'g) mult_batch) list"
  assumes S: "mult_setup n k parties muA muB fA fB fD" and p0: "parties ! 0 = (h, b)"
  shows "\<exists>x h1 h'. phase n (\<lambda>i. MultBatch_RunProtocol rnd (parties ! i)) no_messages no_messages x
    \<and> mu.memoised h h1 \<and> fst (x 0) = h' \<and> length h' = length h
    \<and> (\<forall>i<n. 0 < i \<longrightarrow> fst (x i) = fst (parties ! i))
    \<and> (\<forall>g < length h. if g \<in> set (mbGates b)
        then \<exists>j<k. mbGates b ! j = g \<and> h' ! g
            = (h1 ! g)\<lparr> mMu := mult_result fA fB fD (muA g) (muB g) j, mLearned := True \<rparr>
        else h' ! g = h1 ! g)"
proof -
  have n: "length parties = n" "0 < k" "2 * k - 1 \<le> n" "n < 2 ^ 31" "0 < n" "k < 2 ^ 31"
    using S by (auto simp: mult_setup_def)
  have party: "mbID (snd (parties ! i)) = Some i" "mbParties (snd (parties ! i)) = n"
      "mbShrLambdaA (snd (parties ! i)) = fA (share_point i)"
      "mbShrLambdaB (snd (parties ! i)) = fB (share_point i)"
      "mbShrDeltaC (snd (parties ! i)) = fD (share_point i)" if "i < n" for i
    using S that by (simp_all add: mult_setup_def)
  have b: "mbSize b = k" "length (mbGates b) = k" "\<And>g. g \<in> set (mbGates b) \<Longrightarrow> g < length h"
      "mbID b = Some 0" "mbParties b = n"
    using S p0 party [OF n(5)] by (auto simp: mult_setup_def)
  let ?as = "map muA (mbGates b)" and ?bs = "map muB (mbGates b)"
  obtain h1 where h1: "collect_mu (mbGates b) h = Some (Inr (?as, ?bs, h1))" "mu.memoised h h1"
    using collect_mu_Inr [of "mbGates b" h muA muB] S p0 by (auto simp: mult_setup_def)
  have len: "length ?as = k" "length ?bs = k" using b(2) by simp_all
  let ?uA = "packed_fun ?as" and ?uB = "packed_fun ?bs"
  let ?two = "\<lambda>j. [?uA (share_point j), ?uB (share_point j)]"
  obtain prg' where P1: "acts n 0 (MultBatch_P1Sends rnd (h, b)) no_box (box_upto n ?two) (h1, b\<lparr> mbPRG := prg' \<rparr>)"
    using P1Sends_acts [OF b(4,5,1) n(2,6,5) h1(1) len, of rnd] by blast
  define x1 where "x1 i = (if i = 0 then (h1, b\<lparr> mbPRG := prg' \<rparr>) else parties ! i)" for i
  have x1: "mbID (snd (x1 i)) = Some i" "mbShrLambdaA (snd (x1 i)) = fA (share_point i)"
      "mbShrLambdaB (snd (x1 i)) = fB (share_point i)" "mbShrDeltaC (snd (x1 i)) = fD (share_point i)"
    if "i < n" for i using party [OF that] p0 by (auto simp: x1_def)
  have ph1: "phase n (\<lambda>i. MultBatch_P1Sends rnd (parties ! i)) no_messages (from_0 n ?two) x1"
  proof (rule phase_acts)
    fix i
    assume i: "i < n"
    show "acts n i (MultBatch_P1Sends rnd (parties ! i)) (\<lambda>k. no_messages k i) (from_0 n ?two i) (x1 i)"
      using P1 other_party_acts(1) [of "snd (parties ! i)" i n rnd "fst (parties ! i)"] party(1) [OF i] p0
      by (cases "i = 0") (simp_all add: no_messages_simps from_0_simps x1_def)
  qed (use n in \<open>simp_all add: no_messages_simps from_0_simps\<close>)
  define x2 where "x2 i = (fst (x1 i), (snd (x1 i))\<lparr> mbShrMuA := ?uA (share_point i),
      mbShrMuB := ?uB (share_point i) \<rparr>)" for i
  have ph2: "phase n (\<lambda>i. MultBatch_PartiesReceive (x1 i)) (from_0 n ?two) no_messages x2"
  proof (rule phase_acts)
    fix i
    assume i: "i < n"
    show "acts n i (MultBatch_PartiesReceive (x1 i)) (\<lambda>k. from_0 n ?two k i) (no_messages i) (x2 i)"
      using PartiesReceive_acts [OF x1(1) [OF i] i, of "fst (x1 i)"] i
      by (simp add: no_messages_simps from_0_simps x2_def)
  qed (use n in \<open>simp_all add: no_messages_simps from_0_simps\<close>)
  let ?C = "mu_C_fun fA fB fD ?uA ?uB"
  let ?one = "\<lambda>j. [?C (share_point j)]"
  have ph3: "phase n (\<lambda>i. MultBatch_PartiesSend (x2 i)) no_messages (to_0 n ?one) x2"
  proof (rule phase_acts)
    fix i
    assume i: "i < n"
    have "mu_C_share (snd (x2 i)) = ?C (share_point i)"
      using x1 [OF i] by (simp add: mu_C_share_def x2_def mu_C_fun_def)
    with PartiesSend_acts [of "snd (x2 i)" i n "fst (x2 i)"] x1(1) [OF i] i
    show "acts n i (MultBatch_PartiesSend (x2 i)) (\<lambda>k. no_messages k i) (to_0 n ?one i) (x2 i)"
      by (simp add: no_messages_simps from_0_simps x2_def)
  qed (use n in \<open>simp_all add: no_messages_simps from_0_simps\<close>)
  have C: "polyfun n ?C"
    using S packed_fun_polyfun [of ?as] packed_fun_polyfun [of ?bs] len(1,2) n(2,3)
    by (intro mu_C_fun_polyfun [where k = k]) (simp_all add: mult_setup_def)
  have h1l: "length h1 = length h" by (rule mu.memoised_length [OF h1(2)])
  have b2: "mbID (snd (x2 0)) = Some 0" "mbParties (snd (x2 0)) = n" "mbSize (snd (x2 0)) = k"
      "mbGates (snd (x2 0)) = mbGates b" using b by (simp_all add: x2_def x1_def)
  obtain hh where hh: "acts n 0 (MultBatch_P1Receives (h1, snd (x2 0)))
      (box_upto n ?one) no_box (hh, snd (x2 0))" "length hh = length h1"
    "\<And>g. g < length h1 \<Longrightarrow> if g \<in> set (mbGates b)
        then \<exists>j<k. mbGates b ! j = g \<and> hh ! g = (h1 ! g)\<lparr> mMu := ?C (secret_point j), mLearned := True \<rparr>
        else hh ! g = h1 ! g"
    using P1Receives_acts [OF b2(1-3) _ n(5,4) C, of h1] b(2,3) h1l unfolding b2(4) by auto
  define x4 where "x4 i = (if i = 0 then (hh, snd (x2 0)) else x2 i)" for i
  have ph4: "phase n (\<lambda>i. MultBatch_P1Receives (x2 i)) (to_0 n ?one) no_messages x4"
  proof (rule phase_acts)
    fix i
    assume i: "i < n"
    show "acts n i (MultBatch_P1Receives (x2 i)) (\<lambda>k. to_0 n ?one k i) (no_messages i) (x4 i)"
      using hh(1) other_party_acts(2) [of "snd (x2 i)" i n "fst (x2 i)"] x1(1) [OF i]
      by (cases "i = 0") (simp_all add: no_messages_simps from_0_simps x4_def x2_def x1_def)
  qed (use n in \<open>simp_all add: no_messages_simps from_0_simps\<close>)
  have "phase n (\<lambda>i. MultBatch_RunProtocol rnd (parties ! i)) no_messages no_messages x4"
    unfolding MultBatch_RunProtocol_def
    by (intro phase_bind [OF ph1] phase_bind [OF ph2] phase_bind [OF ph3] ph4)
  moreover have "fst (x4 i) = fst (parties ! i)" if "0 < i" for i
    using that by (simp add: x4_def x2_def x1_def)
  moreover have "if g \<in> set (mbGates b)
        then \<exists>j<k. mbGates b ! j = g \<and> hh ! g
            = (h1 ! g)\<lparr> mMu := mult_result fA fB fD (muA g) (muB g) j, mLearned := True \<rparr>
        else hh ! g = h1 ! g" if "g < length h" for g
  proof -
    have "?C (secret_point j) = mult_result fA fB fD (muA (mbGates b ! j)) (muB (mbGates b ! j)) j" if "j < k" for j
      using that len n(6) b(2) by (intro mu_C_fun_result) (simp_all add: packed_fun_at)
    then show ?thesis using hh(3) [of g] that h1l by (auto split: if_splits)
  qed
  moreover have "fst (x4 0) = hh" by (simp add: x4_def)
  ultimately show ?thesis using h1(2) hh(2) h1l by (intro exI [of _ x4] exI [of _ h1] exI [of _ hh]) simp
qed

end

text \<open>The protocols over a network that simulates the queues, in a field with distinct points.\<close>

locale protocol_network = fifo_network send recv carries + point_field T
  for send :: "nat \<Rightarrow> nat \<Rightarrow> 'a::field \<Rightarrow> 'n \<Rightarrow> 'n res"
    and recv :: "nat \<Rightarrow> nat \<Rightarrow> 'n \<Rightarrow> ('a \<times> 'n) res"
    and carries :: "nat \<Rightarrow> 'n \<Rightarrow> 'a queues \<Rightarrow> bool"
    and T :: "'a itself"
begin

lemma MultBatch_round:
  fixes parties :: "('a heap \<times> ('a, 'g) mult_batch) list"
  assumes S: "mult_setup n k parties muA muB fA fB fD" and N: "carries n N no_messages"
    and p0: "parties ! 0 = (h, b)"
  shows "\<exists>parties' h1 h'. always_computes send recv (map (MultBatch_RunProtocol rnd) parties) N parties'
      (\<lambda>N'. carries n N' no_messages)
    \<and> length parties' = n \<and> mu.memoised h h1 \<and> fst (parties' ! 0) = h'
    \<and> length h' = length h \<and> (\<forall>i<n. 0 < i \<longrightarrow> fst (parties' ! i) = fst (parties ! i))
    \<and> (\<forall>g < length h. if g \<in> set (mbGates b)
        then \<exists>j<k. mbGates b ! j = g \<and> h' ! g
            = (h1 ! g)\<lparr> mMu := mult_result fA fB fD (muA g) (muB g) j, mLearned := True \<rparr>
        else h' ! g = h1 ! g)"
proof -
  have n: "length parties = n" "0 < n" using S by (auto simp: mult_setup_def)
  obtain x h1 h' where x: "phase n (\<lambda>i. MultBatch_RunProtocol rnd (parties ! i)) no_messages no_messages x"
    "mu.memoised h h1" "fst (x 0) = h'" "length h' = length h"
    "\<And>i. i < n \<Longrightarrow> 0 < i \<Longrightarrow> fst (x i) = fst (parties ! i)"
    "\<And>g. g < length h \<Longrightarrow> if g \<in> set (mbGates b)
        then \<exists>j<k. mbGates b ! j = g \<and> h' ! g
            = (h1 ! g)\<lparr> mMu := mult_result fA fB fD (muA g) (muB g) j, mLearned := True \<rparr>
        else h' ! g = h1 ! g"
    using MultBatch_phase [OF S p0, of rnd] by blast
  have m: "map (\<lambda>i. MultBatch_RunProtocol rnd (parties ! i)) [0..<n] = map (MultBatch_RunProtocol rnd) parties"
    using n(1) by (intro nth_equalityI) simp_all
  have "always_computes send recv (map (MultBatch_RunProtocol rnd) parties) N (map x [0..<n])
      (\<lambda>N'. carries n N' no_messages)"
    using phase_always_computes [OF x(1) N] unfolding m .
  then show ?thesis using x(2-6) n(2) by (intro exI [of _ "map x [0..<n]"] exI [of _ h1] exI [of _ h']) simp
qed

end

interpretation ff61_protocol: protocol_network FF_Send FF_Recv mem_carries "TYPE(ff61)"
  by unfold_locales

section \<open>Properties\<close>

text \<open>
  C2: the online multiplication protocol is correct. \<open>n\<close> parties hold packed shares of the masks of
  the parents of a batch of \<open>k\<close> gates and of \<open>delta = lambda_A * lambda_B - lambda_C\<close>; party 0 knows
  the masked values of the parents. Over the in-memory network, with any PRG, and in whatever order
  the parties take their steps, the programs \<open>RunProtocol\<close> of the parties come to an end without an
  exception and without deadlock, leave no message behind, and give party 0 in each gate a learned
  \<open>mu\<close> that is the product of the parents' values minus the mask \<open>lambda_C\<close> of the gate. No other
  party's gates change.
\<close>

theorem online_multiplication:
  fixes parties :: "(ff61 heap \<times> (ff61, 'g) mult_batch) list"
  assumes "mult_setup n k parties muA muB fA fB fD" and "mem_carries n N no_messages"
    and "\<And>j. fD (secret_point j) = fA (secret_point j) * fB (secret_point j) - lamC j"
  shows "\<exists>parties'. always_computes FF_Send FF_Recv (map (MultBatch_RunProtocol rnd) parties) N parties'
      (\<lambda>N'. mem_carries n N' no_messages)
    \<and> length parties' = n \<and> map fst (tl parties') = map fst (tl parties)
    \<and> list_all (\<lambda>g. mLearned (fst (parties' ! 0) ! g)
        \<and> (\<exists>j<k. mbGates (snd (parties ! 0)) ! j = g \<and> mMu (fst (parties' ! 0) ! g)
            = (muA g + fA (secret_point j)) * (muB g + fB (secret_point j)) - lamC j))
        (mbGates (snd (parties ! 0)))"
proof -
  obtain h b where p0: "parties ! 0 = (h, b)" by fastforce
  have n: "length parties = n" using assms(1) by (simp add: mult_setup_def)
  from ff61_protocol.MultBatch_round [OF assms(1,2) p0, of rnd] obtain parties' h1 h' where
    r: "always_computes FF_Send FF_Recv (map (MultBatch_RunProtocol rnd) parties) N parties'
      (\<lambda>N'. mem_carries n N' no_messages)" "length parties' = n" "fst (parties' ! 0) = h'"
      "\<And>i. i < n \<Longrightarrow> 0 < i \<Longrightarrow> fst (parties' ! i) = fst (parties ! i)"
      "\<And>g. g < length h \<Longrightarrow> if g \<in> set (mbGates b)
        then \<exists>j<k. mbGates b ! j = g \<and> h' ! g
            = (h1 ! g)\<lparr> mMu := mult_result fA fB fD (muA g) (muB g) j, mLearned := True \<rparr>
        else h' ! g = h1 ! g" by blast
  have "map fst (tl parties') = map fst (tl parties)"
    using n r(2,4) by (intro nth_equalityI) (simp_all add: nth_tl)
  moreover have "mLearned (h' ! g) \<and> (\<exists>j<k. mbGates b ! j = g \<and> mMu (h' ! g)
      = (muA g + fA (secret_point j)) * (muB g + fB (secret_point j)) - lamC j)"
    if g: "g \<in> set (mbGates b)" for g
  proof -
    have "g < length h" using assms(1) p0 g by (auto simp: mult_setup_def)
    from r(5) [OF this] g show ?thesis by (auto simp: mult_result_def assms(3))
  qed
  ultimately show ?thesis using r p0 by (auto simp: list_all_iff)
qed

text \<open>Three parties, a batch of two products, over the heap of four learned inputs.\<close>

definition witness_heap :: "ff61 heap" where
  "witness_heap = map (\<lambda>m. (new_InputGate 0)\<lparr> mMu := m, mLearned := True \<rparr>) [3, 4, 5, 6]
     @ [new_MultGate 0 1, new_MultGate 2 3]"

definition witness_party :: "nat \<Rightarrow> ff61 heap \<times> (ff61, ff61) mult_batch" where
  "witness_party i = (witness_heap, MultBatch_SetPreprocessing 10 20 (200 - 7)
     (MultBatch_SetNetwork 3 i ((new_MultBatch 0 2)\<lparr> mbGates := [4, 5] \<rparr>)))"

lemma witness_setup:
  "mult_setup 3 2 (map witness_party [0..<3]) (\<lambda>g. if g = 4 then 3 else 5) (\<lambda>g. if g = 4 then 4 else 6)
    (\<lambda>x. 10) (\<lambda>x. 20) (\<lambda>x. 193)"
proof -
  have "evals mu_rule witness_heap 0 3" "evals mu_rule witness_heap 1 4"
    "evals mu_rule witness_heap 2 5" "evals mu_rule witness_heap 3 6"
    by (rule evals.evals_known; simp add: witness_heap_def mu_rule_def new_InputGate_def Gate_init_def)+
  then have gates: "\<forall>g \<in> set [4, 5]. \<exists>l r. mLeft (witness_heap ! g) = Some l \<and> mRight (witness_heap ! g) = Some r
      \<and> g < length witness_heap \<and> evals mu_rule witness_heap l (if g = 4 then 3 else 5)
      \<and> evals mu_rule witness_heap r (if g = 4 then 4 else 6)"
    by (simp add: witness_heap_def new_MultGate_def Gate_init_def)
  have "polyfun (3 - 2 + 1) (\<lambda>x :: ff61. 10)" "polyfun (3 - 2 + 1) (\<lambda>x :: ff61. 20)"
    "polyfun 3 (\<lambda>x :: ff61. 193)" by auto
  with gates show ?thesis unfolding mult_setup_def
    by (simp add: witness_party_def MultBatch_SetNetwork_def MultBatch_SetPreprocessing_def
        new_MultBatch_def)
qed

theorem online_multiplication_witness:
  "\<exists>parties'. always_computes FF_Send FF_Recv (map (MultBatch_RunProtocol (\<lambda>g. (g, g + 1))) (map witness_party [0..<3]))
      (CreateFullInMemory 3) parties' (\<lambda>N'. mem_carries 3 N' no_messages)
    \<and> mMu (fst (parties' ! 0) ! 4) = (3 + 10) * (4 + 20) - 7
    \<and> mMu (fst (parties' ! 0) ! 5) = (5 + 10) * (6 + 20) - 7"
proof -
  have N: "mem_carries 3 (CreateFullInMemory 3) no_messages"
    using CreateFullInMemory_carries [of 3] by (simp add: no_messages_def)
  have "(193 :: ff61) = 10 * 20 - 7" by simp
  from online_multiplication [OF witness_setup N, of "\<lambda>_. 7", OF this, of "\<lambda>g. (g, g + 1)"]
  show ?thesis
    by (auto simp: witness_party_def MultBatch_SetNetwork_def MultBatch_SetPreprocessing_def
        new_MultBatch_def)
qed

end
