(* ===== verification/IOBatch.thy ===== *)
theory IOBatch
  imports MultBatch
begin

text \<open>
  Input and output gates as the parties use them, and their batches (\<open>src/tp/input_gate.h\<close>,
  \<open>src/tp/output_gate.h\<close>). Operations on a gate are functions of the gate, or processes when they
  communicate; operations of a batch that reach through its gates take the heap along.
\<close>

section \<open>Operations on gates\<close>

definition at_gate :: "'a heap \<Rightarrow> nat \<Rightarrow> ('a gate \<Rightarrow> 'a gate res) \<Rightarrow> 'a heap res" where
  "at_gate h g f = bindE (vget h g) (\<lambda>G. bindE (f G) (\<lambda>G. Inr (h[g := G])))"

definition SetDn07Share :: "'a \<Rightarrow> 'a gate \<Rightarrow> 'a gate" where
  "SetDn07Share share G = G\<lparr> mDn07Share := share, mDn07Set := True \<rparr>"

subsection \<open>Input gates\<close>

definition InputGate_ClearInput :: "'a \<Rightarrow> 'a gate \<Rightarrow> 'a gate" where
  "InputGate_ClearInput x G = G\<lparr> mClear := x, mEvaluated := True \<rparr>"

definition InputGate_GetOwner :: "'a gate \<Rightarrow> nat" where
  "InputGate_GetOwner G = mOwnerID G"

definition InputGate_SetLambda :: "'a \<Rightarrow> 'a gate \<Rightarrow> 'a gate" where
  "InputGate_SetLambda lambda G = G\<lparr> mLambda := lambda, mLambdaSet := True \<rparr>"

definition InputGate_SetIndvShrLambda :: "'a \<Rightarrow> 'a gate \<Rightarrow> 'a gate" where
  "InputGate_SetIndvShrLambda indv_shr G = G\<lparr> mIndvShrLambdaC := indv_shr, mIndvShrLambdaCSet := True \<rparr>"

definition InputGate_SetNetwork :: "nat \<Rightarrow> 'a gate \<Rightarrow> 'a gate" where
  "InputGate_SetNetwork i G = G\<lparr> mGateID := Some i \<rparr>"

definition InputGate_DummyPrep :: "'a \<Rightarrow> 'a gate \<Rightarrow> 'a gate res" where
  "InputGate_DummyPrep lambda G = bindE (deref (mGateID G)) (\<lambda>i.
     Inr (if i = mOwnerID G then G\<lparr> mLambda := lambda \<rparr> else G))"

definition InputGate_SetInput :: "'a \<Rightarrow> 'a gate \<Rightarrow> 'a gate res" where
  "InputGate_SetInput x G = bindE (deref (mGateID G)) (\<lambda>i.
     Inr (if i = mOwnerID G then G\<lparr> mValue := x \<rparr> else G))"

definition InputGate_OwnerSendsP1 :: "'a::field gate \<Rightarrow> ('a, unit) proc" where
  "InputGate_OwnerSendsP1 G = connected (mGateID G) (\<lambda>i.
     if i = mOwnerID G then sendM 0 (mValue G - mLambda G) else Return ())"

definition InputGate_P1Receives :: "'a gate \<Rightarrow> ('a, 'a gate) proc" where
  "InputGate_P1Receives G = connected (mGateID G) (\<lambda>i.
     if i = 0 then bindM (recvM (mOwnerID G)) (\<lambda>m. Return (G\<lparr> mMu := m, mLearned := True \<rparr>))
     else Return G)"

definition InputGate_GetValue :: "'a gate \<Rightarrow> 'a" where
  "InputGate_GetValue G = mValue G"

subsection \<open>Output gates\<close>

definition OutputGate_GetOwner :: "'a gate \<Rightarrow> nat" where
  "OutputGate_GetOwner G = mOwnerID G"

definition OutputGate_SetLambda :: "'a \<Rightarrow> 'a gate \<Rightarrow> 'a gate" where
  "OutputGate_SetLambda lambda G = G\<lparr> mLambda := lambda, mLambdaSet := True \<rparr>"

definition OutputGate_SetNetwork :: "nat \<Rightarrow> 'a gate \<Rightarrow> 'a gate" where
  "OutputGate_SetNetwork i G = G\<lparr> mGateID := Some i \<rparr>"

definition OutputGate_DummyPrep :: "'a \<Rightarrow> 'a gate \<Rightarrow> 'a gate res" where
  "OutputGate_DummyPrep lambda G = bindE (deref (mGateID G)) (\<lambda>i.
     Inr (if i = mOwnerID G then G\<lparr> mLambda := lambda \<rparr> else G))"

definition OutputGate_P1SendsMu :: "nat \<Rightarrow> 'a::field heap \<Rightarrow> ('a, 'a heap) proc" where
  "OutputGate_P1SendsMu g h = bindM (liftM (vget h g)) (\<lambda>G. connected (mGateID G) (\<lambda>i.
     if i = 0 then bindM (optM (GetMu h g)) (\<lambda>(m, h). bindM (sendM (mOwnerID G) m) (\<lambda>_. Return h))
     else Return h))"

definition OutputGate_OwnerReceivesMu :: "'a::field gate \<Rightarrow> ('a, 'a gate) proc" where
  "OutputGate_OwnerReceivesMu G = connected (mGateID G) (\<lambda>i.
     if i = mOwnerID G then bindM (recvM 0) (\<lambda>m. Return (G\<lparr> mValue := mLambda G + m \<rparr>))
     else Return G)"

definition OutputGate_GetValue :: "'a gate \<Rightarrow> 'a" where
  "OutputGate_GetValue G = mValue G"

subsection \<open>Multiplication gates\<close>

definition MultGate_SetDummyLambda :: "'a \<Rightarrow> 'a gate \<Rightarrow> 'a gate" where
  "MultGate_SetDummyLambda lambda G = G\<lparr> mLambda := lambda, mLambdaSet := True \<rparr>"

definition MultGate_SetIndvShrLambda :: "'a \<Rightarrow> 'a gate \<Rightarrow> 'a gate" where
  "MultGate_SetIndvShrLambda indv_shr G = G\<lparr> mIndvShrLambdaC := indv_shr, mIndvShrLambdaCSet := True \<rparr>"

section \<open>The class InputBatch\<close>

record ('a, 'g) input_batch =
  ibOwnerID :: nat
  ibSize :: nat
  ibGates :: "nat list"
  ibShrLambda :: 'a
  ibID :: "nat option"
  ibParties :: nat
  ibPRG :: 'g

definition new_InputBatch :: "'g \<Rightarrow> nat \<Rightarrow> nat \<Rightarrow> ('a::zero, 'g) input_batch" where
  "new_InputBatch prg owner_id batch_size = \<lparr> ibOwnerID = owner_id, ibSize = batch_size, ibGates = [],
     ibShrLambda = 0, ibID = None, ibParties = 0, ibPRG = prg \<rparr>"

definition InputBatch_Append :: "'a heap \<Rightarrow> nat \<Rightarrow> ('a, 'g) input_batch \<Rightarrow> ('a, 'g) input_batch res" where
  "InputBatch_Append h input_gate b =
     throw_if (length (ibGates b) = ibSize b)
       (Invalid_argument ''Trying to batch more than batch_size gates'') (
     bindE (vget h input_gate) (\<lambda>G.
     throw_if (InputGate_GetOwner G \<noteq> ibOwnerID b) (Invalid_argument ''Owner IDs do not match'') (
     Inr (b\<lparr> ibGates := ibGates b @ [input_gate] \<rparr>))))"

definition InputBatch_HasRoom :: "('a, 'g) input_batch \<Rightarrow> bool" where
  "InputBatch_HasRoom b \<longleftrightarrow> length (ibGates b) < ibSize b"

definition InputBatch_DummyPrep ::
  "'a \<Rightarrow> 'a heap \<times> ('a, 'g) input_batch \<Rightarrow> ('a heap \<times> ('a, 'g) input_batch) res" where
  "InputBatch_DummyPrep lambda = (\<lambda>(h, b).
     throw_if (length (ibGates b) \<noteq> ibSize b)
       (Invalid_argument ''The number of input gates does not match the batch size'') (
     bindE (foldE (\<lambda>g h. at_gate h g (InputGate_DummyPrep lambda)) (ibGates b) h) (\<lambda>h.
     Inr (h, b\<lparr> ibShrLambda := lambda \<rparr>))))"

text \<open>The masks of the gates of a batch.\<close>

definition gate_lambdas :: "nat \<Rightarrow> nat list \<Rightarrow> 'a::field heap \<Rightarrow> ('a list \<times> 'a heap) res option" where
  "gate_lambdas batch_size gates h = foldP (\<lambda>i (lambda, h).
     bindP (liftP (vget gates i)) (\<lambda>g. bindP (GetDummyLambda h g) (\<lambda>(l, h). retP (lambda @ [l], h))))
     [0..<batch_size] ([], h)"

definition InputBatch_PrepFromDummyLambdas :: "('g \<Rightarrow> 'a::field \<times> 'g) \<Rightarrow> 'a heap \<times> ('a, 'g) input_batch
    \<Rightarrow> ('a heap \<times> ('a, 'g) input_batch) res option" where
  "InputBatch_PrepFromDummyLambdas rnd = (\<lambda>(h, b).
     bindP (gate_lambdas (ibSize b) (ibGates b) h) (\<lambda>(lambda, h).
     bindP (liftP (EvPolyFromSecretsAndDegree rnd lambda (size_sub (ibSize b) 1) (ibPRG b))) (\<lambda>(poly, prg).
     bindP (liftP (SharesFromEvPoly poly (ibParties b))) (\<lambda>shares.
     bindP (liftP (deref (ibID b))) (\<lambda>i.
     bindP (liftP (vget shares i)) (\<lambda>s.
     retP (h, b\<lparr> ibShrLambda := s, ibPRG := prg \<rparr>)))))))"

definition InputBatch_GetClear ::
  "'a::field heap \<times> ('a, 'g) input_batch \<Rightarrow> ('a heap \<times> ('a, 'g) input_batch) res option" where
  "InputBatch_GetClear = (\<lambda>(h, b). bindP (clear_gates (ibGates b) h) (\<lambda>h. retP (h, b)))"

definition GetInputGate :: "('a, 'g) input_batch \<Rightarrow> nat \<Rightarrow> nat res" where
  "GetInputGate b idx = vget (ibGates b) idx"

definition InputBatch_SetNetwork ::
  "nat \<Rightarrow> nat \<Rightarrow> 'a heap \<times> ('a, 'g) input_batch \<Rightarrow> ('a heap \<times> ('a, 'g) input_batch) res" where
  "InputBatch_SetNetwork n_parties i = (\<lambda>(h, b).
     bindE (foldE (\<lambda>g h. at_gate h g (\<lambda>G. Inr (InputGate_SetNetwork i G))) (ibGates b) h) (\<lambda>h.
     Inr (h, b\<lparr> ibID := Some i, ibParties := n_parties \<rparr>)))"

definition InputBatch_SetPreprocessing :: "'a \<Rightarrow> ('a, 'g) input_batch \<Rightarrow> ('a, 'g) input_batch" where
  "InputBatch_SetPreprocessing packed_shr_lambda b = b\<lparr> ibShrLambda := packed_shr_lambda \<rparr>"

definition InputBatch_GetPackedShrLambda :: "('a, 'g) input_batch \<Rightarrow> 'a" where
  "InputBatch_GetPackedShrLambda b = ibShrLambda b"

section \<open>The class OutputBatch\<close>

record ('a, 'g) output_batch =
  obOwnerID :: nat
  obSize :: nat
  obGates :: "nat list"
  obShrLambda :: 'a
  obID :: "nat option"
  obParties :: nat
  obPRG :: 'g

definition new_OutputBatch :: "'g \<Rightarrow> nat \<Rightarrow> nat \<Rightarrow> ('a::zero, 'g) output_batch" where
  "new_OutputBatch prg owner_id batch_size = \<lparr> obOwnerID = owner_id, obSize = batch_size, obGates = [],
     obShrLambda = 0, obID = None, obParties = 0, obPRG = prg \<rparr>"

definition OutputBatch_Append :: "'a heap \<Rightarrow> nat \<Rightarrow> ('a, 'g) output_batch \<Rightarrow> ('a, 'g) output_batch res" where
  "OutputBatch_Append h output_gate b =
     throw_if (length (obGates b) = obSize b)
       (Invalid_argument ''Trying to batch more than batch_size gates'') (
     bindE (vget h output_gate) (\<lambda>G.
     throw_if (OutputGate_GetOwner G \<noteq> obOwnerID b) (Invalid_argument ''Owner IDs do not match'') (
     Inr (b\<lparr> obGates := obGates b @ [output_gate] \<rparr>))))"

definition OutputBatch_HasRoom :: "('a, 'g) output_batch \<Rightarrow> bool" where
  "OutputBatch_HasRoom b \<longleftrightarrow> length (obGates b) < obSize b"

definition OutputBatch_DummyPrep ::
  "'a \<Rightarrow> 'a heap \<times> ('a, 'g) output_batch \<Rightarrow> ('a heap \<times> ('a, 'g) output_batch) res" where
  "OutputBatch_DummyPrep lambda = (\<lambda>(h, b).
     throw_if (length (obGates b) \<noteq> obSize b)
       (Invalid_argument ''The number of output gates does not match the batch size'') (
     bindE (foldE (\<lambda>g h. at_gate h g (OutputGate_DummyPrep lambda)) (obGates b) h) (\<lambda>h.
     Inr (h, b\<lparr> obShrLambda := lambda \<rparr>))))"

definition OutputBatch_PrepFromDummyLambdas :: "('g \<Rightarrow> 'a::field \<times> 'g) \<Rightarrow> 'a heap \<times> ('a, 'g) output_batch
    \<Rightarrow> ('a heap \<times> ('a, 'g) output_batch) res option" where
  "OutputBatch_PrepFromDummyLambdas rnd = (\<lambda>(h, b).
     bindP (gate_lambdas (obSize b) (obGates b) h) (\<lambda>(lambda, h).
     bindP (liftP (EvPolyFromSecretsAndDegree rnd lambda (size_sub (obSize b) 1) (obPRG b))) (\<lambda>(poly, prg).
     bindP (liftP (SharesFromEvPoly poly (obParties b))) (\<lambda>shares.
     bindP (liftP (deref (obID b))) (\<lambda>i.
     bindP (liftP (vget shares i)) (\<lambda>s.
     retP (h, b\<lparr> obShrLambda := s, obPRG := prg \<rparr>)))))))"

definition OutputBatch_GetClear ::
  "'a::field heap \<times> ('a, 'g) output_batch \<Rightarrow> ('a heap \<times> ('a, 'g) output_batch) res option" where
  "OutputBatch_GetClear = (\<lambda>(h, b). bindP (clear_gates (obGates b) h) (\<lambda>h. retP (h, b)))"

definition GetOutputGate :: "('a, 'g) output_batch \<Rightarrow> nat \<Rightarrow> nat res" where
  "GetOutputGate b idx = vget (obGates b) idx"

definition OutputBatch_SetNetwork ::
  "nat \<Rightarrow> nat \<Rightarrow> 'a heap \<times> ('a, 'g) output_batch \<Rightarrow> ('a heap \<times> ('a, 'g) output_batch) res" where
  "OutputBatch_SetNetwork n_parties i = (\<lambda>(h, b).
     bindE (foldE (\<lambda>g h. at_gate h g (\<lambda>G. Inr (OutputGate_SetNetwork i G))) (obGates b) h) (\<lambda>h.
     Inr (h, b\<lparr> obID := Some i, obParties := n_parties \<rparr>)))"

definition OutputBatch_SetPreprocessing :: "'a \<Rightarrow> ('a, 'g) output_batch \<Rightarrow> ('a, 'g) output_batch" where
  "OutputBatch_SetPreprocessing packed_shr_lambda b = b\<lparr> obShrLambda := packed_shr_lambda \<rparr>"

definition OutputBatch_GetPackedShrLambda :: "('a, 'g) output_batch \<Rightarrow> 'a" where
  "OutputBatch_GetPackedShrLambda b = obShrLambda b"

end
