(* ===== verification/Layers.thy ===== *)
theory Layers
  imports IOBatch
begin

text \<open>
  Layers of batches (\<open>InputLayer\<close>, \<open>OutputLayer\<close>, \<open>MultLayer\<close> of \<open>src/tp\<close>). The code holds gates and
  batches by shared pointers and layers by value: a party's \<open>store\<close> has one list per kind of object,
  a pointer is an index, and a layer is a list of batch pointers. A layer that is copied, as in
  \<open>for (auto layer : layers)\<close>, still refers to the same batches.
\<close>

section \<open>The store of a party\<close>

record ('a, 'g) store =
  sGates :: "'a heap"
  sInputBatches :: "('a, 'g) input_batch list"
  sOutputBatches :: "('a, 'g) output_batch list"
  sMultBatches :: "('a, 'g) mult_batch list"

definition empty_store :: "('a, 'g) store" where
  "empty_store = \<lparr> sGates = [], sInputBatches = [], sOutputBatches = [], sMultBatches = [] \<rparr>"

definition vback :: "'b list \<Rightarrow> 'b res" where
  "vback xs = (if xs = [] then Inl Undefined else Inr (last xs))"

lemma vback_snoc [simp]: "vback (xs @ [x]) = Inr x"
  by (simp add: vback_def)

text \<open>A gate is created at the end of the heap of gates.\<close>

definition alloc_gate :: "'a gate \<Rightarrow> ('a, 'g) store \<Rightarrow> nat \<times> ('a, 'g) store" where
  "alloc_gate G st = (let (g, h) = make_shared G (sGates st) in (g, st\<lparr> sGates := h \<rparr>))"

definition on_gates :: "('a heap \<Rightarrow> 'a heap res) \<Rightarrow> ('a, 'g) store \<Rightarrow> ('a, 'g) store res" where
  "on_gates f st = bindE (f (sGates st)) (\<lambda>h. Inr (st\<lparr> sGates := h \<rparr>))"

text \<open>\<open>batch->f()\<close> through a pointer, for an \<open>f\<close> that works on the batch and the gates.\<close>

definition at_input_batch :: "nat \<Rightarrow> ('a heap \<times> ('a, 'g) input_batch \<Rightarrow> ('a heap \<times> ('a, 'g) input_batch) res)
    \<Rightarrow> ('a, 'g) store \<Rightarrow> ('a, 'g) store res" where
  "at_input_batch p f st = bindE (vget (sInputBatches st) p) (\<lambda>b. bindE (f (sGates st, b)) (\<lambda>(h, b).
     Inr (st\<lparr> sGates := h, sInputBatches := (sInputBatches st)[p := b] \<rparr>)))"

definition at_output_batch :: "nat \<Rightarrow> ('a heap \<times> ('a, 'g) output_batch \<Rightarrow> ('a heap \<times> ('a, 'g) output_batch) res)
    \<Rightarrow> ('a, 'g) store \<Rightarrow> ('a, 'g) store res" where
  "at_output_batch p f st = bindE (vget (sOutputBatches st) p) (\<lambda>b. bindE (f (sGates st, b)) (\<lambda>(h, b).
     Inr (st\<lparr> sGates := h, sOutputBatches := (sOutputBatches st)[p := b] \<rparr>)))"

definition at_mult_batch :: "nat \<Rightarrow> ('a heap \<times> ('a, 'g) mult_batch \<Rightarrow> ('a heap \<times> ('a, 'g) mult_batch) res)
    \<Rightarrow> ('a, 'g) store \<Rightarrow> ('a, 'g) store res" where
  "at_mult_batch p f st = bindE (vget (sMultBatches st) p) (\<lambda>b. bindE (f (sGates st, b)) (\<lambda>(h, b).
     Inr (st\<lparr> sGates := h, sMultBatches := (sMultBatches st)[p := b] \<rparr>)))"

text \<open>The same for operations that may not return, and for processes.\<close>

definition at_input_batchP :: "nat \<Rightarrow> ('a heap \<times> ('a, 'g) input_batch \<Rightarrow> ('a heap \<times> ('a, 'g) input_batch) res option)
    \<Rightarrow> ('a, 'g) store \<Rightarrow> ('a, 'g) store res option" where
  "at_input_batchP p f st = bindP (liftP (vget (sInputBatches st) p)) (\<lambda>b. bindP (f (sGates st, b)) (\<lambda>(h, b).
     retP (st\<lparr> sGates := h, sInputBatches := (sInputBatches st)[p := b] \<rparr>)))"

definition at_output_batchP :: "nat \<Rightarrow> ('a heap \<times> ('a, 'g) output_batch \<Rightarrow> ('a heap \<times> ('a, 'g) output_batch) res option)
    \<Rightarrow> ('a, 'g) store \<Rightarrow> ('a, 'g) store res option" where
  "at_output_batchP p f st = bindP (liftP (vget (sOutputBatches st) p)) (\<lambda>b. bindP (f (sGates st, b)) (\<lambda>(h, b).
     retP (st\<lparr> sGates := h, sOutputBatches := (sOutputBatches st)[p := b] \<rparr>)))"

definition at_mult_batchP :: "nat \<Rightarrow> ('a heap \<times> ('a, 'g) mult_batch \<Rightarrow> ('a heap \<times> ('a, 'g) mult_batch) res option)
    \<Rightarrow> ('a, 'g) store \<Rightarrow> ('a, 'g) store res option" where
  "at_mult_batchP p f st = bindP (liftP (vget (sMultBatches st) p)) (\<lambda>b. bindP (f (sGates st, b)) (\<lambda>(h, b).
     retP (st\<lparr> sGates := h, sMultBatches := (sMultBatches st)[p := b] \<rparr>)))"

definition at_mult_batchM :: "nat \<Rightarrow> ('a heap \<times> ('a, 'g) mult_batch \<Rightarrow> ('a, 'a heap \<times> ('a, 'g) mult_batch) proc)
    \<Rightarrow> ('a, 'g) store \<Rightarrow> ('a, ('a, 'g) store) proc" where
  "at_mult_batchM p f st = bindM (liftM (vget (sMultBatches st) p)) (\<lambda>b. bindM (f (sGates st, b)) (\<lambda>(h, b).
     Return (st\<lparr> sGates := h, sMultBatches := (sMultBatches st)[p := b] \<rparr>)))"

section \<open>Input layers\<close>

record input_layer =
  ilOwnerID :: nat
  ilBatches :: "nat list"
  ilBatchSize :: nat
  ilID :: "nat option"
  ilParties :: nat

definition new_InputLayer :: "'g \<Rightarrow> nat \<Rightarrow> nat \<Rightarrow> ('a::zero, 'g) store \<Rightarrow> ('a, 'g) store \<times> input_layer" where
  "new_InputLayer prg owner_id batch_size st =
     (st\<lparr> sInputBatches := sInputBatches st @ [new_InputBatch prg owner_id batch_size] \<rparr>,
      \<lparr> ilOwnerID = owner_id, ilBatches = [length (sInputBatches st)], ilBatchSize = batch_size,
        ilID = None, ilParties = 0 \<rparr>)"

definition InputLayer_Append ::
  "'g \<Rightarrow> nat \<Rightarrow> ('a::zero, 'g) store \<times> input_layer \<Rightarrow> (('a, 'g) store \<times> input_layer) res" where
  "InputLayer_Append prg input_gate = (\<lambda>(st, ly).
     bindE (vback (ilBatches ly)) (\<lambda>p. bindE (vget (sInputBatches st) p) (\<lambda>current_batch.
     if InputBatch_HasRoom current_batch then
       bindE (InputBatch_Append (sGates st) input_gate current_batch) (\<lambda>b.
         Inr (st\<lparr> sInputBatches := (sInputBatches st)[p := b] \<rparr>, ly))
     else
       bindE (InputBatch_Append (sGates st) input_gate (new_InputBatch prg (ilOwnerID ly) (ilBatchSize ly))) (\<lambda>b.
         Inr (st\<lparr> sInputBatches := sInputBatches st @ [b] \<rparr>,
              ly\<lparr> ilBatches := ilBatches ly @ [length (sInputBatches st)] \<rparr>)))))"

function InputBatch_pad :: "'a heap \<Rightarrow> nat \<Rightarrow> ('a, 'g) input_batch \<Rightarrow> ('a, 'g) input_batch res" where
  "InputBatch_pad h padding_gate b =
     (if InputBatch_HasRoom b then bindE (InputBatch_Append h padding_gate b) (InputBatch_pad h padding_gate)
      else Inr b)"
  by pat_completeness auto
termination
  by (relation "measure (\<lambda>(h, g, b). ibSize b - length (ibGates b))")
    (auto simp: InputBatch_HasRoom_def InputBatch_Append_def throw_if_eq_Inr bindE_eq_Inr)

declare InputBatch_pad.simps [simp del]

text \<open>\<open>Close\<close> with its assertion on the padding gate.\<close>

definition assert_mu_0 :: "nat \<Rightarrow> 'a::field heap \<Rightarrow> unit res option" where
  "assert_mu_0 g h = bindP (GetMu h g) (\<lambda>(m, h). if m = 0 then retP () else failP Assert_failed)"

definition InputLayer_Close :: "('a::field, 'g) store \<times> input_layer \<Rightarrow> (('a, 'g) store \<times> input_layer) res option" where
  "InputLayer_Close = (\<lambda>(st, ly).
     let (padding_gate, st) = alloc_gate (new_PadInputGate (ilOwnerID ly)) st in
     bindP (assert_mu_0 padding_gate (sGates st)) (\<lambda>_.
     bindP (liftP (vback (ilBatches ly))) (\<lambda>p. bindP (liftP (vget (sInputBatches st) p)) (\<lambda>last_batch.
     bindP (liftP (InputBatch_pad (sGates st) padding_gate last_batch)) (\<lambda>b.
     retP (st\<lparr> sInputBatches := (sInputBatches st)[p := b] \<rparr>, ly))))))"

definition GetInputBatch :: "input_layer \<Rightarrow> nat \<Rightarrow> nat res" where
  "GetInputBatch ly idx = vget (ilBatches ly) idx"

definition InputLayer_DummyPrep :: "'a \<Rightarrow> input_layer \<Rightarrow> ('a, 'g) store \<Rightarrow> ('a, 'g) store res" where
  "InputLayer_DummyPrep lambda ly = foldE (\<lambda>p. at_input_batch p (InputBatch_DummyPrep lambda)) (ilBatches ly)"

definition InputLayer_PrepFromDummyLambdas ::
  "('g \<Rightarrow> 'a::field \<times> 'g) \<Rightarrow> input_layer \<Rightarrow> ('a, 'g) store \<Rightarrow> ('a, 'g) store res option" where
  "InputLayer_PrepFromDummyLambdas rnd ly =
     foldP (\<lambda>p. at_input_batchP p (InputBatch_PrepFromDummyLambdas rnd)) (ilBatches ly)"

definition InputLayer_SetNetwork ::
  "nat \<Rightarrow> nat \<Rightarrow> ('a, 'g) store \<times> input_layer \<Rightarrow> (('a, 'g) store \<times> input_layer) res" where
  "InputLayer_SetNetwork n_parties i = (\<lambda>(st, ly).
     bindE (foldE (\<lambda>p. at_input_batch p (InputBatch_SetNetwork n_parties i)) (ilBatches ly) st) (\<lambda>st.
     Inr (st, ly\<lparr> ilID := Some i, ilParties := n_parties \<rparr>)))"

definition InputLayer_ClearEvaluation :: "input_layer \<Rightarrow> ('a::field, 'g) store \<Rightarrow> ('a, 'g) store res option" where
  "InputLayer_ClearEvaluation ly = foldP (\<lambda>p. at_input_batchP p InputBatch_GetClear) (ilBatches ly)"

definition InputLayer_GetSize :: "input_layer \<Rightarrow> nat" where
  "InputLayer_GetSize ly = length (ilBatches ly)"

section \<open>Output layers\<close>

record output_layer =
  olOwnerID :: nat
  olBatches :: "nat list"
  olBatchSize :: nat
  olID :: "nat option"
  olParties :: nat

definition new_OutputLayer :: "'g \<Rightarrow> nat \<Rightarrow> nat \<Rightarrow> ('a::zero, 'g) store \<Rightarrow> ('a, 'g) store \<times> output_layer" where
  "new_OutputLayer prg owner_id batch_size st =
     (st\<lparr> sOutputBatches := sOutputBatches st @ [new_OutputBatch prg owner_id batch_size] \<rparr>,
      \<lparr> olOwnerID = owner_id, olBatches = [length (sOutputBatches st)], olBatchSize = batch_size,
        olID = None, olParties = 0 \<rparr>)"

definition OutputLayer_Append ::
  "'g \<Rightarrow> nat \<Rightarrow> ('a::zero, 'g) store \<times> output_layer \<Rightarrow> (('a, 'g) store \<times> output_layer) res" where
  "OutputLayer_Append prg output_gate = (\<lambda>(st, ly).
     bindE (vback (olBatches ly)) (\<lambda>p. bindE (vget (sOutputBatches st) p) (\<lambda>current_batch.
     if OutputBatch_HasRoom current_batch then
       bindE (OutputBatch_Append (sGates st) output_gate current_batch) (\<lambda>b.
         Inr (st\<lparr> sOutputBatches := (sOutputBatches st)[p := b] \<rparr>, ly))
     else
       bindE (OutputBatch_Append (sGates st) output_gate (new_OutputBatch prg (olOwnerID ly) (olBatchSize ly))) (\<lambda>b.
         Inr (st\<lparr> sOutputBatches := sOutputBatches st @ [b] \<rparr>,
              ly\<lparr> olBatches := olBatches ly @ [length (sOutputBatches st)] \<rparr>)))))"

function OutputBatch_pad :: "'a heap \<Rightarrow> nat \<Rightarrow> ('a, 'g) output_batch \<Rightarrow> ('a, 'g) output_batch res" where
  "OutputBatch_pad h padding_gate b =
     (if OutputBatch_HasRoom b then bindE (OutputBatch_Append h padding_gate b) (OutputBatch_pad h padding_gate)
      else Inr b)"
  by pat_completeness auto
termination
  by (relation "measure (\<lambda>(h, g, b). obSize b - length (obGates b))")
    (auto simp: OutputBatch_HasRoom_def OutputBatch_Append_def throw_if_eq_Inr bindE_eq_Inr)

declare OutputBatch_pad.simps [simp del]

definition OutputLayer_Close :: "('a::field, 'g) store \<times> output_layer \<Rightarrow> (('a, 'g) store \<times> output_layer) res option" where
  "OutputLayer_Close = (\<lambda>(st, ly).
     let (padding_gate, st) = alloc_gate (new_PadOutputGate (olOwnerID ly)) st;
         st = st\<lparr> sGates := upd padding_gate (PadOutputGate_UpdateParent padding_gate) (sGates st) \<rparr> in
     bindP (assert_mu_0 padding_gate (sGates st)) (\<lambda>_.
     bindP (liftP (vback (olBatches ly))) (\<lambda>p. bindP (liftP (vget (sOutputBatches st) p)) (\<lambda>last_batch.
     bindP (liftP (OutputBatch_pad (sGates st) padding_gate last_batch)) (\<lambda>b.
     retP (st\<lparr> sOutputBatches := (sOutputBatches st)[p := b] \<rparr>, ly))))))"

definition GetOutputBatch :: "output_layer \<Rightarrow> nat \<Rightarrow> nat res" where
  "GetOutputBatch ly idx = vget (olBatches ly) idx"

definition OutputLayer_DummyPrep :: "'a \<Rightarrow> output_layer \<Rightarrow> ('a, 'g) store \<Rightarrow> ('a, 'g) store res" where
  "OutputLayer_DummyPrep lambda ly = foldE (\<lambda>p. at_output_batch p (OutputBatch_DummyPrep lambda)) (olBatches ly)"

definition OutputLayer_PrepFromDummyLambdas ::
  "('g \<Rightarrow> 'a::field \<times> 'g) \<Rightarrow> output_layer \<Rightarrow> ('a, 'g) store \<Rightarrow> ('a, 'g) store res option" where
  "OutputLayer_PrepFromDummyLambdas rnd ly =
     foldP (\<lambda>p. at_output_batchP p (OutputBatch_PrepFromDummyLambdas rnd)) (olBatches ly)"

definition OutputLayer_SetNetwork ::
  "nat \<Rightarrow> nat \<Rightarrow> ('a, 'g) store \<times> output_layer \<Rightarrow> (('a, 'g) store \<times> output_layer) res" where
  "OutputLayer_SetNetwork n_parties i = (\<lambda>(st, ly).
     bindE (foldE (\<lambda>p. at_output_batch p (OutputBatch_SetNetwork n_parties i)) (olBatches ly) st) (\<lambda>st.
     Inr (st, ly\<lparr> olID := Some i, olParties := n_parties \<rparr>)))"

definition OutputLayer_ClearEvaluation :: "output_layer \<Rightarrow> ('a::field, 'g) store \<Rightarrow> ('a, 'g) store res option" where
  "OutputLayer_ClearEvaluation ly = foldP (\<lambda>p. at_output_batchP p OutputBatch_GetClear) (olBatches ly)"

definition OutputLayer_GetSize :: "output_layer \<Rightarrow> nat" where
  "OutputLayer_GetSize ly = length (olBatches ly)"

section \<open>Multiplication layers\<close>

record mult_layer =
  mlBatches :: "nat list"
  mlBatchSize :: nat
  mlID :: "nat option"
  mlParties :: nat

definition new_MultLayer :: "'g \<Rightarrow> nat \<Rightarrow> ('a::zero, 'g) store \<Rightarrow> ('a, 'g) store \<times> mult_layer" where
  "new_MultLayer prg batch_size st =
     (st\<lparr> sMultBatches := sMultBatches st @ [new_MultBatch prg batch_size] \<rparr>,
      \<lparr> mlBatches = [length (sMultBatches st)], mlBatchSize = batch_size, mlID = None, mlParties = 0 \<rparr>)"

definition MultLayer_Append ::
  "'g \<Rightarrow> nat \<Rightarrow> ('a::zero, 'g) store \<times> mult_layer \<Rightarrow> (('a, 'g) store \<times> mult_layer) res" where
  "MultLayer_Append prg mult_gate = (\<lambda>(st, ly).
     bindE (vback (mlBatches ly)) (\<lambda>p. bindE (vget (sMultBatches st) p) (\<lambda>current_batch.
     if MultBatch_HasRoom current_batch then
       bindE (MultBatch_Append mult_gate current_batch) (\<lambda>b.
         Inr (st\<lparr> sMultBatches := (sMultBatches st)[p := b] \<rparr>, ly))
     else
       bindE (MultBatch_Append mult_gate (new_MultBatch prg (mlBatchSize ly))) (\<lambda>b.
         Inr (st\<lparr> sMultBatches := sMultBatches st @ [b] \<rparr>,
              ly\<lparr> mlBatches := mlBatches ly @ [length (sMultBatches st)] \<rparr>)))))"

function MultBatch_pad :: "nat \<Rightarrow> ('a, 'g) mult_batch \<Rightarrow> ('a, 'g) mult_batch res" where
  "MultBatch_pad padding_gate b =
     (if MultBatch_HasRoom b then bindE (MultBatch_Append padding_gate b) (MultBatch_pad padding_gate)
      else Inr b)"
  by pat_completeness auto
termination
  by (relation "measure (\<lambda>(g, b). mbSize b - length (mbGates b))")
    (auto simp: MultBatch_HasRoom_def MultBatch_Append_def throw_if_eq_Inr)

declare MultBatch_pad.simps [simp del]

definition MultLayer_Close :: "('a::field, 'g) store \<times> mult_layer \<Rightarrow> (('a, 'g) store \<times> mult_layer) res option" where
  "MultLayer_Close = (\<lambda>(st, ly).
     let (padding_gate, st) = alloc_gate new_PadMultGate st;
         st = st\<lparr> sGates := upd padding_gate (PadMultGate_UpdateParents padding_gate padding_gate) (sGates st) \<rparr> in
     bindP (assert_mu_0 padding_gate (sGates st)) (\<lambda>_.
     bindP (liftP (vget (sGates st) padding_gate)) (\<lambda>G.
     bindP (liftP (deref (mLeft G))) (\<lambda>l. bindP (assert_mu_0 l (sGates st)) (\<lambda>_.
     bindP (liftP (deref (mRight G))) (\<lambda>r. bindP (assert_mu_0 r (sGates st)) (\<lambda>_.
     bindP (liftP (vback (mlBatches ly))) (\<lambda>p. bindP (liftP (vget (sMultBatches st) p)) (\<lambda>last_batch.
     bindP (liftP (MultBatch_pad padding_gate last_batch)) (\<lambda>b.
     retP (st\<lparr> sMultBatches := (sMultBatches st)[p := b] \<rparr>, ly)))))))))))"

definition GetMultBatch :: "mult_layer \<Rightarrow> nat \<Rightarrow> nat res" where
  "GetMultBatch ly idx = vget (mlBatches ly) idx"

definition MultLayer_DummyPrep :: "'a::field \<Rightarrow> 'a \<Rightarrow> 'a \<Rightarrow> mult_layer \<Rightarrow> ('a, 'g) store \<Rightarrow> ('a, 'g) store res" where
  "MultLayer_DummyPrep lambda_A lambda_B lambda_C ly = foldE (\<lambda>p. at_mult_batch p (\<lambda>(h, b).
     bindE (MultBatch_DummyPrep lambda_A lambda_B lambda_C b) (\<lambda>b. Inr (h, b)))) (mlBatches ly)"

definition MultLayer_PrepFromDummyLambdas ::
  "('g \<Rightarrow> 'a::field \<times> 'g) \<Rightarrow> mult_layer \<Rightarrow> ('a, 'g) store \<Rightarrow> ('a, 'g) store res option" where
  "MultLayer_PrepFromDummyLambdas rnd ly =
     foldP (\<lambda>p. at_mult_batchP p (MultBatch_PrepFromDummyLambdas rnd)) (mlBatches ly)"

definition MultLayer_ClearEvaluation :: "mult_layer \<Rightarrow> ('a::field, 'g) store \<Rightarrow> ('a, 'g) store res option" where
  "MultLayer_ClearEvaluation ly = foldP (\<lambda>p. at_mult_batchP p MultBatch_GetClear) (mlBatches ly)"

definition MultLayer_SetNetwork ::
  "nat \<Rightarrow> nat \<Rightarrow> ('a, 'g) store \<times> mult_layer \<Rightarrow> (('a, 'g) store \<times> mult_layer) res" where
  "MultLayer_SetNetwork n_parties i = (\<lambda>(st, ly).
     bindE (foldE (\<lambda>p. at_mult_batch p (\<lambda>(h, b). Inr (h, MultBatch_SetNetwork n_parties i b))) (mlBatches ly) st) (\<lambda>st.
     Inr (st, ly\<lparr> mlID := Some i, mlParties := n_parties \<rparr>)))"

definition MultLayer_P1Sends :: "('g \<Rightarrow> 'a::field \<times> 'g) \<Rightarrow> mult_layer \<Rightarrow> ('a, 'g) store \<Rightarrow> ('a, ('a, 'g) store) proc" where
  "MultLayer_P1Sends rnd ly = foldM (\<lambda>p. at_mult_batchM p (MultBatch_P1Sends rnd)) (mlBatches ly)"

definition MultLayer_PartiesReceive :: "mult_layer \<Rightarrow> ('a::field, 'g) store \<Rightarrow> ('a, ('a, 'g) store) proc" where
  "MultLayer_PartiesReceive ly = foldM (\<lambda>p. at_mult_batchM p MultBatch_PartiesReceive) (mlBatches ly)"

definition MultLayer_PartiesSend :: "mult_layer \<Rightarrow> ('a::field, 'g) store \<Rightarrow> ('a, ('a, 'g) store) proc" where
  "MultLayer_PartiesSend ly = foldM (\<lambda>p. at_mult_batchM p MultBatch_PartiesSend) (mlBatches ly)"

definition MultLayer_P1Receives :: "mult_layer \<Rightarrow> ('a::field, 'g) store \<Rightarrow> ('a, ('a, 'g) store) proc" where
  "MultLayer_P1Receives ly = foldM (\<lambda>p. at_mult_batchM p MultBatch_P1Receives) (mlBatches ly)"

definition MultLayer_GetSize :: "mult_layer \<Rightarrow> nat" where
  "MultLayer_GetSize ly = length (mlBatches ly)"

end
