(* ===== verification/Correlator.thy ===== *)
theory Correlator
  imports Layers
begin

text \<open>
  The correlator (\<open>src/tp/correlator.h\<close>, \<open>correlator.cc\<close>, \<open>fi_prep.cc\<close>): it generates the preprocessing
  that does not depend on the circuit, maps it to gates and batches, and turns it into the shares
  that the online protocol consumes. A \<open>std::map\<close> that the code reads with \<open>operator[]\<close> is a function:
  a key that was never written reads as the default value, zero. The maps are keyed by pointers to
  gates and batches, that is by indices of the store.

  Numbers of shares and parties are lengths of vectors, far below \<open>2^64\<close>; only subtractions are
  written with their wrap-around (\<open>size_sub\<close>).
\<close>

section \<open>State\<close>

record 'a mult_fi_prep =
  mShrA :: 'a
  mShrB :: 'a
  mShrC :: 'a
  mShrO1 :: 'a
  mShrO2 :: 'a
  mShrO3 :: 'a

definition new_MultBatchFIPrep :: "'a::field \<Rightarrow> 'a mult_fi_prep" where
  "new_MultBatchFIPrep lambda = \<lparr> mShrA = lambda, mShrB = lambda, mShrC = lambda * lambda,
     mShrO1 = 0, mShrO2 = 0, mShrO3 = 0 \<rparr>"

definition MultBatchFIPrep_default :: "'a::zero mult_fi_prep" where
  "MultBatchFIPrep_default = \<lparr> mShrA = 0, mShrB = 0, mShrC = 0, mShrO1 = 0, mShrO2 = 0, mShrO3 = 0 \<rparr>"

record 'a io_fi_prep =
  mShrO :: 'a

definition IOBatchFIPrep_default :: "'a::zero io_fi_prep" where
  "IOBatchFIPrep_default = \<lparr> mShrO = 0 \<rparr>"

record ('a, 'g) correlator =
  mMapIndShrs :: "nat \<Rightarrow> 'a"
  mMapMultBatch :: "nat \<Rightarrow> 'a mult_fi_prep"
  mMapInputBatch :: "nat \<Rightarrow> 'a io_fi_prep"
  mMapOutputBatch :: "nat \<Rightarrow> 'a io_fi_prep"
  mNIndShrs :: nat
  mNMultBatches :: nat
  mNInOutBatches :: nat
  mCTRIndShrs :: nat
  mCTRMultBatches :: nat
  mCTRInOutBatches :: nat
  coBatchSize :: nat
  mSharesOfEi :: "'a list"
  mVandermonde :: "'a list list"
  mIndShrs :: "'a list"
  mMultBatchFIPrep :: "'a mult_fi_prep list"
  mIOBatchFIPrep :: "'a io_fi_prep list"
  mUnpackedShrsA :: "'a list list"
  mUnpackedShrsB :: "'a list list"
  mUnpackedShrsMask :: "'a list list"
  mZeroProdShrs :: "'a list list"
  coID :: "nat option"
  coParties :: nat
  coThreshold :: "nat option"
  coPRG :: 'g

definition new_Correlator :: "'g \<Rightarrow> nat \<Rightarrow> nat \<Rightarrow> nat \<Rightarrow> nat \<Rightarrow> ('a::zero, 'g) correlator" where
  "new_Correlator prg n_ind_shares n_mult_batches n_inout_batches batch_size =
     \<lparr> mMapIndShrs = (\<lambda>_. 0), mMapMultBatch = (\<lambda>_. MultBatchFIPrep_default),
       mMapInputBatch = (\<lambda>_. IOBatchFIPrep_default), mMapOutputBatch = (\<lambda>_. IOBatchFIPrep_default),
       mNIndShrs = n_ind_shares, mNMultBatches = n_mult_batches, mNInOutBatches = n_inout_batches,
       mCTRIndShrs = 0, mCTRMultBatches = 0, mCTRInOutBatches = 0, coBatchSize = batch_size,
       mSharesOfEi = [], mVandermonde = [], mIndShrs = [], mMultBatchFIPrep = [], mIOBatchFIPrep = [],
       mUnpackedShrsA = [], mUnpackedShrsB = [], mUnpackedShrsMask = [], mZeroProdShrs = [],
       coID = None, coParties = 0, coThreshold = None, coPRG = prg \<rparr>"

definition GenIndShrsDummy :: "'a \<Rightarrow> ('a, 'g) correlator \<Rightarrow> ('a, 'g) correlator" where
  "GenIndShrsDummy lambda co = co\<lparr> mIndShrs := replicate (mNIndShrs co) lambda \<rparr>"

definition GenMultBatchDummy :: "('a::zero, 'g) correlator \<Rightarrow> ('a, 'g) correlator" where
  "GenMultBatchDummy co = co\<lparr> mMultBatchFIPrep := replicate (mNMultBatches co) MultBatchFIPrep_default \<rparr>"

definition GenIOBatchDummy :: "('a::zero, 'g) correlator \<Rightarrow> ('a, 'g) correlator" where
  "GenIOBatchDummy co = co\<lparr> mIOBatchFIPrep := replicate (mNInOutBatches co) IOBatchFIPrep_default \<rparr>"

definition GenPrepDummy :: "'a::zero \<Rightarrow> ('a, 'g) correlator \<Rightarrow> ('a, 'g) correlator" where
  "GenPrepDummy lambda co = GenIOBatchDummy (GenMultBatchDummy (GenIndShrsDummy lambda co))"

definition Correlator_SetNetwork :: "nat \<Rightarrow> nat \<Rightarrow> ('a, 'g) correlator \<Rightarrow> ('a, 'g) correlator" where
  "Correlator_SetNetwork n_parties i co = co\<lparr> coID := Some i, coParties := n_parties \<rparr>"

definition Correlator_SetThreshold :: "nat \<Rightarrow> ('a, 'g) correlator \<Rightarrow> ('a, 'g) correlator res" where
  "Correlator_SetThreshold threshold co =
     throw_if (coParties co \<noteq> (threshold + 2 * size_sub (coBatchSize co) 1 + 1) mod 2 ^ 64)
       (Invalid_argument ''It must hold that n = t + 2(k-1) + 1'') (
     throw_if (coParties co \<le> 2 * threshold mod 2 ^ 64)
       (Invalid_argument ''It must hold that t < n/2'') (
     Inr (co\<lparr> coThreshold := Some threshold \<rparr>)))"

text \<open>The shares of the \<open>i\<close>-th unit vector: the factor for \<open>j\<close> is \<open>(x + j) / (j - i)\<close> at \<open>x = mID + 1\<close>.\<close>

definition share_of_ei :: "nat \<Rightarrow> nat \<Rightarrow> nat \<Rightarrow> 'a::field res" where
  "share_of_ei batch_size own_id i = foldE (\<lambda>j shr.
     if j = i then Inr shr
     else bindE (divE (from_size (int own_id + 1) + from_size (int j)) (from_size (int j) - from_size (int i)))
       (\<lambda>q. Inr (shr * q))) [0..<batch_size] 1"

definition PrecomputeEi :: "('a::field, 'g) correlator \<Rightarrow> ('a, 'g) correlator res" where
  "PrecomputeEi co = foldE (\<lambda>i co. bindE (deref (coID co)) (\<lambda>own_id.
     bindE (share_of_ei (coBatchSize co) own_id i) (\<lambda>shr.
     Inr (co\<lparr> mSharesOfEi := mSharesOfEi co @ [shr] \<rparr>)))) [0..<coBatchSize co] co"

text \<open>\<open>v[i].emplace_back(x)\<close> on a vector of vectors.\<close>

definition vpush :: "'b list list \<Rightarrow> nat \<Rightarrow> 'b \<Rightarrow> 'b list list res" where
  "vpush xss i x = bindE (vget xss i) (\<lambda>xs. Inr (xss[i := xs @ [x]]))"

definition vget2 :: "'b list list \<Rightarrow> nat \<Rightarrow> nat \<Rightarrow> 'b res" where
  "vget2 xss i j = bindE (vget xss i) (\<lambda>xs. vget xs j)"

definition vandermonde :: "nat \<Rightarrow> nat \<Rightarrow> 'a::field list list \<Rightarrow> 'a list list res" where
  "vandermonde n t V = foldE (\<lambda>i V.
     bindE (foldE (\<lambda>j (V, entry). bindE (vpush V i entry) (\<lambda>V. Inr (V, entry * from_size (int i))))
       [0..<t + 1] (V @ [[]], 1)) (\<lambda>(V, entry). Inr V)) [0..<n] V"

definition PrecomputeVandermonde :: "('a::field, 'g) correlator \<Rightarrow> ('a, 'g) correlator res" where
  "PrecomputeVandermonde co = bindE (deref (coThreshold co)) (\<lambda>t.
     bindE (vandermonde (coParties co) t (mVandermonde co)) (\<lambda>V. Inr (co\<lparr> mVandermonde := V \<rparr>)))"

section \<open>Mapping the preprocessing to gates and batches\<close>

definition take_ind_share :: "nat \<Rightarrow> 'a heap \<Rightarrow> ('a, 'g) correlator \<Rightarrow> ('a, 'g) correlator res" where
  "take_ind_share g h co = bindE (vget h g) (\<lambda>G.
     if mIsPadding G then Inr co
     else bindE (vget (mIndShrs co) (mCTRIndShrs co)) (\<lambda>s.
       Inr (co\<lparr> mMapIndShrs := (mMapIndShrs co)(g := s), mCTRIndShrs := mCTRIndShrs co + 1 \<rparr>)))"

text \<open>
  The four overloads of \<open>PopulateIndvShrs\<close>. A null parent is a key of the map like any other, which
  nothing ever writes.
\<close>

definition PopulateIndvShrs_mult :: "nat \<Rightarrow> 'a heap \<Rightarrow> ('a, 'g) correlator \<Rightarrow> ('a, 'g) correlator res" where
  "PopulateIndvShrs_mult = take_ind_share"

definition PopulateIndvShrs_input :: "nat \<Rightarrow> 'a heap \<Rightarrow> ('a, 'g) correlator \<Rightarrow> ('a, 'g) correlator res" where
  "PopulateIndvShrs_input = take_ind_share"

definition ind_share_at :: "('a::zero, 'g) correlator \<Rightarrow> nat option \<Rightarrow> 'a" where
  "ind_share_at co p = (case p of None \<Rightarrow> 0 | Some g \<Rightarrow> mMapIndShrs co g)"

definition PopulateIndvShrs_add :: "nat \<Rightarrow> 'a::field heap \<Rightarrow> ('a, 'g) correlator \<Rightarrow> ('a, 'g) correlator res" where
  "PopulateIndvShrs_add g h co = bindE (vget h g) (\<lambda>G.
     Inr (co\<lparr> mMapIndShrs := (mMapIndShrs co)(g := ind_share_at co (mLeft G) + ind_share_at co (mRight G)) \<rparr>))"

definition PopulateIndvShrs_output :: "nat \<Rightarrow> 'a::field heap \<Rightarrow> ('a, 'g) correlator \<Rightarrow> ('a, 'g) correlator res" where
  "PopulateIndvShrs_output g h co = bindE (vget h g) (\<lambda>G.
     Inr (co\<lparr> mMapIndShrs := (mMapIndShrs co)(g := ind_share_at co (mLeft G)) \<rparr>))"

definition PopulateMultBatches :: "nat \<Rightarrow> ('a, 'g) correlator \<Rightarrow> ('a, 'g) correlator res" where
  "PopulateMultBatches p co = bindE (vget (mMultBatchFIPrep co) (mCTRMultBatches co)) (\<lambda>d.
     Inr (co\<lparr> mMapMultBatch := (mMapMultBatch co)(p := d), mCTRMultBatches := mCTRMultBatches co + 1 \<rparr>))"

definition PopulateInputBatches :: "nat \<Rightarrow> ('a, 'g) correlator \<Rightarrow> ('a, 'g) correlator res" where
  "PopulateInputBatches p co = bindE (vget (mIOBatchFIPrep co) (mCTRInOutBatches co)) (\<lambda>d.
     Inr (co\<lparr> mMapInputBatch := (mMapInputBatch co)(p := d), mCTRInOutBatches := mCTRInOutBatches co + 1 \<rparr>))"

definition PopulateOutputBatches :: "nat \<Rightarrow> ('a, 'g) correlator \<Rightarrow> ('a, 'g) correlator res" where
  "PopulateOutputBatches p co = bindE (vget (mIOBatchFIPrep co) (mCTRInOutBatches co)) (\<lambda>d.
     Inr (co\<lparr> mMapOutputBatch := (mMapOutputBatch co)(p := d), mCTRInOutBatches := mCTRInOutBatches co + 1 \<rparr>))"

section \<open>Function-dependent preprocessing\<close>

text \<open>The packed share of the values at \<open>keys\<close>: the sum of \<open>e_i * share\<close> over the batch.\<close>

definition pack_shares :: "('a::field, 'g) correlator \<Rightarrow> (nat \<Rightarrow> nat option res) \<Rightarrow> 'a res" where
  "pack_shares co key = foldE (\<lambda>i acc. bindE (vget (mSharesOfEi co) i) (\<lambda>e. bindE (key i) (\<lambda>g.
     Inr (acc + e * ind_share_at co g)))) [0..<coBatchSize co] 0"

definition PrepInputPartiesSendOwner :: "nat \<Rightarrow> ('a, 'g) store \<Rightarrow> ('a::field, 'g) correlator \<Rightarrow> ('a, unit) proc" where
  "PrepInputPartiesSendOwner p st co = bindM (liftM (vget (sInputBatches st) p)) (\<lambda>b.
     bindM (liftM (pack_shares co (\<lambda>i. bindE (GetInputGate b i) (\<lambda>g. Inr (Some g))))) (\<lambda>shr.
     connected (coID co) (\<lambda>_. sendM (ibOwnerID b) (shr + mShrO (mMapInputBatch co p)))))"

definition set_lambdas :: "('a \<Rightarrow> 'a gate \<Rightarrow> 'a gate) \<Rightarrow> (nat \<Rightarrow> nat res) \<Rightarrow> nat \<Rightarrow> 'a list \<Rightarrow> 'a heap \<Rightarrow> 'a heap res" where
  "set_lambdas SetLambda gate_at batch_size secrets h = foldE (\<lambda>i h. bindE (gate_at i) (\<lambda>g. bindE (vget secrets i) (\<lambda>s.
     at_gate h g (\<lambda>G. Inr (SetLambda s G))))) [0..<batch_size] h"

definition PrepInputOwnerReceives :: "nat \<Rightarrow> ('a::field, 'g) correlator \<Rightarrow> ('a, 'g) store \<Rightarrow> ('a, ('a, 'g) store) proc" where
  "PrepInputOwnerReceives p co st = bindM (liftM (vget (sInputBatches st) p)) (\<lambda>b. connected (coID co) (\<lambda>i.
     if i = ibOwnerID b then
       bindM (recv_from_all (coParties co)) (\<lambda>recv_shares.
       bindM (liftM (SecretsFromSharesAndLength recv_shares (coBatchSize co))) (\<lambda>recv_secret.
       liftM (on_gates (set_lambdas InputGate_SetLambda (GetInputGate b) (coBatchSize co) recv_secret) st)))
     else Return st))"

definition PrepOutputPartiesSendOwner :: "nat \<Rightarrow> ('a, 'g) store \<Rightarrow> ('a::field, 'g) correlator \<Rightarrow> ('a, unit) proc" where
  "PrepOutputPartiesSendOwner p st co = bindM (liftM (vget (sOutputBatches st) p)) (\<lambda>b.
     bindM (liftM (pack_shares co (\<lambda>i. bindE (GetOutputGate b i) (\<lambda>g. Inr (Some g))))) (\<lambda>shr.
     connected (coID co) (\<lambda>_. sendM (obOwnerID b) (shr + mShrO (mMapOutputBatch co p)))))"

definition PrepOutputOwnerReceives :: "nat \<Rightarrow> ('a::field, 'g) correlator \<Rightarrow> ('a, 'g) store \<Rightarrow> ('a, ('a, 'g) store) proc" where
  "PrepOutputOwnerReceives p co st = bindM (liftM (vget (sOutputBatches st) p)) (\<lambda>b. connected (coID co) (\<lambda>i.
     if i = obOwnerID b then
       bindM (recv_from_all (coParties co)) (\<lambda>recv_shares.
       bindM (liftM (SecretsFromSharesAndLength recv_shares (coBatchSize co))) (\<lambda>recv_secret.
       liftM (on_gates (set_lambdas OutputGate_SetLambda (GetOutputGate b) (coBatchSize co) recv_secret) st)))
     else Return st))"

definition parent_key :: "('a gate \<Rightarrow> nat option) \<Rightarrow> 'a heap \<Rightarrow> ('a, 'g) mult_batch \<Rightarrow> nat \<Rightarrow> nat option res" where
  "parent_key side h b i = bindE (GetMultGate b i) (\<lambda>g. bindE (vget h g) (\<lambda>G. Inr (side G)))"

definition PrepMultPartiesSendP1 :: "nat \<Rightarrow> ('a, 'g) store \<Rightarrow> ('a::field, 'g) correlator \<Rightarrow> ('a, unit) proc" where
  "PrepMultPartiesSendP1 p st co = bindM (liftM (vget (sMultBatches st) p)) (\<lambda>b.
     bindM (liftM (pack_shares co (parent_key mLeft (sGates st) b))) (\<lambda>shr_A.
     bindM (liftM (pack_shares co (parent_key mRight (sGates st) b))) (\<lambda>shr_B.
     let d = mMapMultBatch co p in
     connected (coID co) (\<lambda>_.
       bindM (sendM 0 (shr_A + (mShrA d + mShrO1 d))) (\<lambda>_. sendM 0 (shr_B + (mShrB d + mShrO2 d)))))))"

definition recv_two_from_all :: "nat \<Rightarrow> ('v, 'v list \<times> 'v list) proc" where
  "recv_two_from_all n_parties = foldM (\<lambda>i (as, bs). bindM (recvM i) (\<lambda>a. bindM (recvM i) (\<lambda>b.
     Return (as @ [a], bs @ [b])))) [0..<n_parties] ([], [])"

definition PrepMultP1ReceivesAndSends ::
  "('g \<Rightarrow> 'a \<times> 'g) \<Rightarrow> ('a::field, 'g) correlator \<Rightarrow> ('a, ('a, 'g) correlator) proc" where
  "PrepMultP1ReceivesAndSends rnd co = connected (coID co) (\<lambda>i.
     if i = 0 then
       bindM (recv_two_from_all (coParties co)) (\<lambda>(recv_shares_A, recv_shares_B).
       bindM (liftM (SecretsFromSharesAndLength recv_shares_A (coBatchSize co))) (\<lambda>recv_secret_A.
       bindM (liftM (SecretsFromSharesAndLength recv_shares_B (coBatchSize co))) (\<lambda>recv_secret_B.
       bindM (liftM (EvPolyFromSecretsAndDegree rnd recv_secret_A (size_sub (coBatchSize co) 1) (coPRG co)))
         (\<lambda>(poly_A, prg).
       bindM (liftM (EvPolyFromSecretsAndDegree rnd recv_secret_B (size_sub (coBatchSize co) 1) prg))
         (\<lambda>(poly_B, prg).
       bindM (liftM (SharesFromEvPoly poly_A (coParties co))) (\<lambda>new_shares_A.
       bindM (liftM (SharesFromEvPoly poly_B (coParties co))) (\<lambda>new_shares_B.
       bindM (foldM (\<lambda>i _.
           bindM (liftM (vget new_shares_A i)) (\<lambda>a. bindM (sendM i a) (\<lambda>_.
           bindM (liftM (vget new_shares_B i)) (\<lambda>b. sendM i b)))) [0..<coParties co] ()) (\<lambda>_.
       Return (co\<lparr> coPRG := prg \<rparr>)))))))))
     else Return co)"

definition PrepMultPartiesReceive :: "nat \<Rightarrow> ('a::field, 'g) correlator \<Rightarrow> ('a, 'g) store \<Rightarrow> ('a, ('a, 'g) store) proc" where
  "PrepMultPartiesReceive p co st = connected (coID co) (\<lambda>_.
     bindM (recvM 0) (\<lambda>recv_share_A. bindM (recvM 0) (\<lambda>recv_share_B.
     bindM (liftM (vget (sMultBatches st) p)) (\<lambda>b.
     let d = mMapMultBatch co p;
         new_share_A = recv_share_A - mShrA d;
         new_share_B = recv_share_B - mShrB d in
     bindM (liftM (foldE (\<lambda>i acc. bindE (vget (mSharesOfEi co) i) (\<lambda>e. bindE (GetMultGate b i) (\<lambda>g.
         Inr (acc - e * mMapIndShrs co g)))) [0..<coBatchSize co] 0)) (\<lambda>shr_delta.
     let shr_delta = shr_delta + (recv_share_A * recv_share_B - recv_share_A * mShrB d
           - recv_share_B * mShrA d + mShrC d + mShrO3 d) in
     Return (st\<lparr> sMultBatches := (sMultBatches st)[p :=
       MultBatch_SetPreprocessing new_share_A new_share_B shr_delta b] \<rparr>))))))"

end
