(* ===== verification/FIPrep.thy ===== *)
theory FIPrep
  imports Correlator
begin

text \<open>
  The function-independent preprocessing of the correlator (\<open>src/tp/fi_prep.cc\<close>): batches of random
  sharings are dealt by every party and multiplied by the Vandermonde matrix; products of random
  values are computed with the help of party 0.
\<close>

section \<open>Dealing and combining\<close>

definition n_blocks :: "nat \<Rightarrow> nat \<Rightarrow> nat" where
  "n_blocks amount t = (amount + (t + 1) - 1) div (t + 1)"

definition with_threshold :: "('a, 'g) correlator \<Rightarrow> (nat \<Rightarrow> ('v, 'r) proc) \<Rightarrow> ('v, 'r) proc" where
  "with_threshold co f = bindM (liftM (deref (coThreshold co))) f"

text \<open>\<open>for party: mNetwork->Party(party)->Send(shares[party])\<close>.\<close>

definition send_shares :: "nat \<Rightarrow> 'a list \<Rightarrow> ('a, unit) proc" where
  "send_shares n_parties shares =
     foldM (\<lambda>party _. bindM (liftM (vget shares party)) (sendM party)) [0..<n_parties] ()"

text \<open>One column of the Vandermonde matrix times the received shares.\<close>

definition vandermonde_share :: "'a::field list list \<Rightarrow> nat \<Rightarrow> nat \<Rightarrow> 'a list \<Rightarrow> 'a res" where
  "vandermonde_share V n_parties shr_idx recv_shares = foldE (\<lambda>j shr.
     bindE (vget2 V j shr_idx) (\<lambda>v. bindE (vget recv_shares j) (\<lambda>s. Inr (shr + v * s)))) [0..<n_parties] 0"

section \<open>Individual sharings\<close>

definition GenIndShrsPartiesSend :: "('g \<Rightarrow> 'a::field \<times> 'g) \<Rightarrow> ('a, 'g) correlator \<Rightarrow> ('a, ('a, 'g) correlator) proc" where
  "GenIndShrsPartiesSend rnd co = with_threshold co (\<lambda>t.
     let degree = size_sub (coParties co) (coBatchSize co) in
     foldM (\<lambda>block co. let (secret, prg) = rnd (coPRG co) in
       bindM (liftM (EvPolyFromSecretsAndDegree rnd (replicate (coBatchSize co) secret) degree prg)) (\<lambda>(poly, prg).
       bindM (liftM (SharesFromEvPoly poly (coParties co))) (\<lambda>shares.
       connected (coID co) (\<lambda>_. bindM (send_shares (coParties co) shares) (\<lambda>_.
       Return (co\<lparr> coPRG := prg \<rparr>))))))
     [0..<n_blocks (mNIndShrs co) t] co)"

definition GenIndShrsPartiesReceive :: "('a::field, 'g) correlator \<Rightarrow> ('a, ('a, 'g) correlator) proc" where
  "GenIndShrsPartiesReceive co =
     (if mIndShrs co \<noteq> [] then Throw Assert_failed else
     with_threshold co (\<lambda>t. foldM (\<lambda>block co. connected (coID co) (\<lambda>_.
       bindM (recv_from_all (coParties co)) (\<lambda>recv_shares.
       liftM (foldE (\<lambda>shr_idx co.
         bindE (vandermonde_share (mVandermonde co) (coParties co) shr_idx recv_shares) (\<lambda>shr.
         Inr (co\<lparr> mIndShrs := mIndShrs co @ [shr] \<rparr>))) [0..<t + 1] co))))
     [0..<n_blocks (mNIndShrs co) t] co))"

section \<open>Sharings of single secrets\<close>

text \<open>\<open>FF(-pack_idx)\<close> is the point of the secret in position \<open>pack_idx\<close>.\<close>

definition GenUnpackedShrPartiesSend ::
  "('g \<Rightarrow> 'a::field \<times> 'g) \<Rightarrow> ('a, 'g) correlator \<Rightarrow> ('a, ('a, 'g) correlator) proc" where
  "GenUnpackedShrPartiesSend rnd co = with_threshold co (\<lambda>t.
     let degree = t in
     foldM (\<lambda>pack_idx. foldM (\<lambda>block co. let (secret, prg) = rnd (coPRG co) in
       bindM (liftM (EvPolyFromSecretAndPointAndDegree rnd secret (secret_point pack_idx) degree prg)) (\<lambda>(poly, prg).
       bindM (liftM (SharesFromEvPoly poly (coParties co))) (\<lambda>shares.
       connected (coID co) (\<lambda>_. bindM (send_shares (coParties co) shares) (\<lambda>_.
       Return (co\<lparr> coPRG := prg \<rparr>))))))
       [0..<n_blocks (3 * mNMultBatches co) t])
     [0..<coBatchSize co] co)"

definition store_unpacked :: "nat \<Rightarrow> 'a \<Rightarrow> nat \<times> ('a, 'g) correlator \<Rightarrow> (nat \<times> ('a, 'g) correlator) res" where
  "store_unpacked pack_idx shr = (\<lambda>(ctr, co). let m = mNMultBatches co in
     bindE (if ctr < m then bindE (vpush (mUnpackedShrsA co) pack_idx shr) (\<lambda>v. Inr (co\<lparr> mUnpackedShrsA := v \<rparr>))
            else Inr co) (\<lambda>co.
     bindE (if m \<le> ctr \<and> ctr < 2 * m then bindE (vpush (mUnpackedShrsB co) pack_idx shr) (\<lambda>v. Inr (co\<lparr> mUnpackedShrsB := v \<rparr>))
            else Inr co) (\<lambda>co.
     bindE (if 2 * m \<le> ctr \<and> ctr < 3 * m then bindE (vpush (mUnpackedShrsMask co) pack_idx shr) (\<lambda>v. Inr (co\<lparr> mUnpackedShrsMask := v \<rparr>))
            else Inr co) (\<lambda>co. Inr (ctr + 1, co)))))"

definition mult_fi_prep_data :: "('a::field, 'g) correlator \<Rightarrow> nat \<Rightarrow> 'a mult_fi_prep res" where
  "mult_fi_prep_data co i = foldE (\<lambda>pack_idx data. bindE (vget (mSharesOfEi co) pack_idx) (\<lambda>e.
     bindE (vget2 (mUnpackedShrsA co) pack_idx i) (\<lambda>a. bindE (vget2 (mUnpackedShrsB co) pack_idx i) (\<lambda>b.
     Inr (data\<lparr> mShrA := mShrA data + e * a, mShrB := mShrB data + e * b \<rparr>)))))
     [0..<coBatchSize co] (new_MultBatchFIPrep 0)"

definition GenUnpackedShrPartiesReceive :: "('a::field, 'g) correlator \<Rightarrow> ('a, ('a, 'g) correlator) proc" where
  "GenUnpackedShrPartiesReceive co = with_threshold co (\<lambda>t.
     bindM (foldM (\<lambda>pack_idx co.
       let co = co\<lparr> mUnpackedShrsA := mUnpackedShrsA co @ [[]], mUnpackedShrsB := mUnpackedShrsB co @ [[]],
                   mUnpackedShrsMask := mUnpackedShrsMask co @ [[]] \<rparr> in
       bindM (foldM (\<lambda>block (ctr, co). connected (coID co) (\<lambda>_.
         bindM (recv_from_all (coParties co)) (\<lambda>recv_shares.
         liftM (foldE (\<lambda>shr_idx (ctr, co).
           bindE (vandermonde_share (mVandermonde co) (coParties co) shr_idx recv_shares) (\<lambda>shr.
           store_unpacked pack_idx shr (ctr, co))) [0..<t + 1] (ctr, co)))))
         [0..<n_blocks (3 * mNMultBatches co) t] (0, co)) (\<lambda>(ctr, co). Return co))
       [0..<coBatchSize co] co) (\<lambda>co.
     liftM (foldE (\<lambda>i co. bindE (mult_fi_prep_data co i) (\<lambda>data.
       Inr (co\<lparr> mMultBatchFIPrep := mMultBatchFIPrep co @ [data] \<rparr>))) [0..<mNMultBatches co] co)))"

section \<open>Sharings of zero\<close>

definition GenZeroPartiesSend :: "('g \<Rightarrow> 'a::field \<times> 'g) \<Rightarrow> ('a, 'g) correlator \<Rightarrow> ('a, ('a, 'g) correlator) proc" where
  "GenZeroPartiesSend rnd co = with_threshold co (\<lambda>t.
     let degree = size_sub (coParties co) 1 in
     foldM (\<lambda>block co.
       bindM (liftM (EvPolyFromSecretsAndDegree rnd (replicate (coBatchSize co) 0) degree (coPRG co))) (\<lambda>(poly, prg).
       bindM (liftM (SharesFromEvPoly poly (coParties co))) (\<lambda>shares.
       connected (coID co) (\<lambda>_. bindM (send_shares (coParties co) shares) (\<lambda>_.
       Return (co\<lparr> coPRG := prg \<rparr>))))))
     [0..<n_blocks (3 * mNMultBatches co + mNInOutBatches co) t] co)"

text \<open>
  The third test has an \<open>else\<close> of its own, so that the shares for the first two masks are also kept
  for the input and output batches.
\<close>

definition store_zero :: "'a \<Rightarrow> nat \<times> ('a, 'g) correlator \<Rightarrow> (nat \<times> ('a, 'g) correlator) res" where
  "store_zero shr = (\<lambda>(ctr, co). let m = mNMultBatches co in
     bindE (if ctr < m then bindE (vget (mMultBatchFIPrep co) ctr) (\<lambda>d.
         Inr (co\<lparr> mMultBatchFIPrep := (mMultBatchFIPrep co)[ctr := d\<lparr> mShrO1 := shr \<rparr>] \<rparr>)) else Inr co) (\<lambda>co.
     bindE (if m \<le> ctr \<and> ctr < 2 * m then bindE (vget (mMultBatchFIPrep co) (ctr - m)) (\<lambda>d.
         Inr (co\<lparr> mMultBatchFIPrep := (mMultBatchFIPrep co)[ctr - m := d\<lparr> mShrO2 := shr \<rparr>] \<rparr>)) else Inr co) (\<lambda>co.
     bindE (if 2 * m \<le> ctr \<and> ctr < 3 * m then bindE (vget (mMultBatchFIPrep co) (ctr - 2 * m)) (\<lambda>d.
         Inr (co\<lparr> mMultBatchFIPrep := (mMultBatchFIPrep co)[ctr - 2 * m := d\<lparr> mShrO3 := shr \<rparr>] \<rparr>))
       else Inr (co\<lparr> mIOBatchFIPrep := mIOBatchFIPrep co @ [\<lparr> mShrO = shr \<rparr>] \<rparr>)) (\<lambda>co.
     Inr (ctr + 1, co)))))"

definition GenZeroPartiesReceive :: "('a::field, 'g) correlator \<Rightarrow> ('a, ('a, 'g) correlator) proc" where
  "GenZeroPartiesReceive co = with_threshold co (\<lambda>t.
     bindM (foldM (\<lambda>block (ctr, co). connected (coID co) (\<lambda>_.
       bindM (recv_from_all (coParties co)) (\<lambda>recv_shares.
       liftM (foldE (\<lambda>shr_idx (ctr, co).
         bindE (vandermonde_share (mVandermonde co) (coParties co) shr_idx recv_shares) (\<lambda>shr.
         store_zero shr (ctr, co))) [0..<t + 1] (ctr, co)))))
     [0..<n_blocks (3 * mNMultBatches co + mNInOutBatches co) t] (0, co)) (\<lambda>(ctr, co). Return co))"

definition GenZeroForProdPartiesSend ::
  "('g \<Rightarrow> 'a::field \<times> 'g) \<Rightarrow> ('a, 'g) correlator \<Rightarrow> ('a, ('a, 'g) correlator) proc" where
  "GenZeroForProdPartiesSend rnd co = with_threshold co (\<lambda>t.
     let degree = size_sub (coParties co) 1 in
     foldM (\<lambda>pack_idx. foldM (\<lambda>block co.
       bindM (liftM (EvPolyFromSecretAndPointAndDegree rnd 0 (secret_point pack_idx) degree (coPRG co))) (\<lambda>(poly, prg).
       bindM (liftM (SharesFromEvPoly poly (coParties co))) (\<lambda>shares.
       connected (coID co) (\<lambda>_. bindM (send_shares (coParties co) shares) (\<lambda>_.
       Return (co\<lparr> coPRG := prg \<rparr>))))))
       [0..<n_blocks (mNMultBatches co) t])
     [0..<coBatchSize co] co)"

definition GenZeroForProdPartiesReceive :: "('a::field, 'g) correlator \<Rightarrow> ('a, ('a, 'g) correlator) proc" where
  "GenZeroForProdPartiesReceive co = with_threshold co (\<lambda>t.
     foldM (\<lambda>pack_idx co. let co = co\<lparr> mZeroProdShrs := mZeroProdShrs co @ [[]] \<rparr> in
       foldM (\<lambda>block co. connected (coID co) (\<lambda>_.
         bindM (recv_from_all (coParties co)) (\<lambda>recv_shares.
         liftM (foldE (\<lambda>shr_idx co.
           bindE (vandermonde_share (mVandermonde co) (coParties co) shr_idx recv_shares) (\<lambda>shr.
           bindE (vpush (mZeroProdShrs co) pack_idx shr) (\<lambda>v. Inr (co\<lparr> mZeroProdShrs := v \<rparr>))))
           [0..<t + 1] co))))
         [0..<n_blocks (mNMultBatches co) t] co)
     [0..<coBatchSize co] co)"

section \<open>Products\<close>

definition GenProdPartiesSendP1 :: "('a::field, 'g) correlator \<Rightarrow> ('a, unit) proc" where
  "GenProdPartiesSendP1 co =
     foldM (\<lambda>pack_idx. foldM (\<lambda>batch _.
       bindM (liftM (vget2 (mUnpackedShrsA co) pack_idx batch)) (\<lambda>a.
       bindM (liftM (vget2 (mUnpackedShrsB co) pack_idx batch)) (\<lambda>b.
       bindM (liftM (vget2 (mUnpackedShrsMask co) pack_idx batch)) (\<lambda>mask.
       bindM (liftM (vget2 (mZeroProdShrs co) pack_idx batch)) (\<lambda>z.
       connected (coID co) (\<lambda>_. sendM 0 (a * b + mask + z))))))) [0..<mNMultBatches co])
     [0..<coBatchSize co] ()"

text \<open>Party 0 sends a sharing whose shares for the first \<open>t\<close> parties are zero, and skips these.\<close>

definition GenProdP1ReceivesAndSends :: "('a::field, 'g) correlator \<Rightarrow> ('a, unit) proc" where
  "GenProdP1ReceivesAndSends co = connected (coID co) (\<lambda>i. if i = 0 then
     with_threshold co (\<lambda>t. foldM (\<lambda>pack_idx. foldM (\<lambda>batch _.
       bindM (recv_from_all (coParties co)) (\<lambda>recv_shares.
       bindM (liftM (SecretFromPointAndShares (secret_point pack_idx) recv_shares)) (\<lambda>secret.
       let y_points = secret # map (\<lambda>i. 0) [1..<t + 1];
           x_points = secret_point pack_idx # map (\<lambda>i. from_size (int i)) [1..<t + 1] in
       bindM (liftM (EvPoly x_points y_points)) (\<lambda>poly.
       bindM (liftM (SharesFromEvPoly poly (coParties co))) (\<lambda>shares_to_send.
       foldM (\<lambda>i _. bindM (liftM (vget shares_to_send i)) (sendM i)) [t..<coParties co] ())))))
       [0..<mNMultBatches co]) [0..<coBatchSize co] ())
     else Return ())"

definition GenProdPartiesReceive :: "('a::field, 'g) correlator \<Rightarrow> ('a, ('a, 'g) correlator) proc" where
  "GenProdPartiesReceive co = connected (coID co) (\<lambda>own_id. with_threshold co (\<lambda>t.
     bindM (foldM (\<lambda>pack_idx shares_prod.
       foldM (\<lambda>batch shares_prod.
         bindM (if own_id \<ge> t then recvM 0 else Return 0) (\<lambda>r.
         bindM (liftM (vget2 (mUnpackedShrsMask co) pack_idx batch)) (\<lambda>mask.
         liftM (vpush shares_prod pack_idx (r - mask))))) [0..<mNMultBatches co] (shares_prod @ [[]]))
       [0..<coBatchSize co] []) (\<lambda>shares_prod.
     liftM (foldE (\<lambda>i. foldE (\<lambda>pack_idx co.
       bindE (vget (mSharesOfEi co) pack_idx) (\<lambda>e. bindE (vget2 shares_prod pack_idx i) (\<lambda>s.
       bindE (vget (mMultBatchFIPrep co) i) (\<lambda>d.
       Inr (co\<lparr> mMultBatchFIPrep := (mMultBatchFIPrep co)[i := d\<lparr> mShrC := mShrC d + e * s \<rparr>] \<rparr>)))))
       [0..<coBatchSize co]) [0..<mNMultBatches co] co))))"

end
