(* ===== verification/Circuit.thy ===== *)
theory Circuit
  imports FIPrep
begin

text \<open>
  Circuits (\<open>src/tp/circuits.h\<close> and \<open>src/tp/circuits/\<close>): building, evaluation in the clear, the
  preprocessing with known masks, the phases of the preprocessing with the correlator, and the
  online protocol. An operation takes the store of the party and its circuit.
\<close>

section \<open>State\<close>

record circuit_config =
  cfgInpGates :: "nat list"
  cfgOutGates :: "nat list"
  cfgParties :: nat
  cfgWidth :: nat
  cfgDepth :: nat
  cfgBatchSize :: nat

definition ComputeNumberOfInputs :: "circuit_config \<Rightarrow> nat" where
  "ComputeNumberOfInputs config = fold (\<lambda>n_inputs sum. sum + n_inputs) (cfgInpGates config) 0"

definition ComputeNumberOfOutputs :: "circuit_config \<Rightarrow> nat" where
  "ComputeNumberOfOutputs config = fold (\<lambda>n_outputs sum. sum + n_outputs) (cfgOutGates config) 0"

record ('a, 'g) circuit =
  cBatchSize :: nat
  mInputLayers :: "input_layer list"
  mOutputLayers :: "output_layer list"
  mMultLayers :: "mult_layer list"
  mFlatMultLayers :: "nat list list"
  mFlatInputGates :: "nat list list"
  mFlatOutputGates :: "nat list list"
  mInputGates :: "nat list"
  mOutputGates :: "nat list"
  mAddGates :: "nat list"
  mCorrelator :: "('a, 'g) correlator option"
  mClients :: nat
  mWidth :: nat
  mSize :: nat
  cID :: "nat option"
  cParties :: nat
  mIsClosed :: bool
  mIsNetworkSet :: bool

type_synonym ('a, 'g) party = "('a, 'g) store \<times> ('a, 'g) circuit"

section \<open>Building (building.cc)\<close>

text \<open>
  \<open>Init\<close> as the constructor calls it; the correlator is default-constructed, its counters
  indeterminate, until \<open>GenCorrelator\<close>.
\<close>

definition vresize :: "nat \<Rightarrow> 'b list list \<Rightarrow> 'b list list" where
  "vresize n xss = take n xss @ replicate (n - length xss) []"

definition Circuit_Init :: "'g \<Rightarrow> nat \<Rightarrow> nat \<Rightarrow> ('a::zero, 'g) party \<Rightarrow> ('a, 'g) party" where
  "Circuit_Init prg n_clients batch_size = (\<lambda>(st, c).
     let (st, ils) = fold (\<lambda>i (st, ls). let (st, l) = new_InputLayer prg i batch_size st in (st, ls @ [l]))
           [0..<n_clients] (st, mInputLayers c);
         (st, ols) = fold (\<lambda>i (st, ls). let (st, l) = new_OutputLayer prg i batch_size st in (st, ls @ [l]))
           [0..<n_clients] (st, mOutputLayers c);
         (st, first_layer) = new_MultLayer prg (cBatchSize c) st in
     (st, c\<lparr> mInputLayers := ils, mOutputLayers := ols,
            mFlatInputGates := vresize n_clients (mFlatInputGates c),
            mFlatOutputGates := vresize n_clients (mFlatOutputGates c),
            mMultLayers := mMultLayers c @ [first_layer], mFlatMultLayers := mFlatMultLayers c @ [[]],
            mIsClosed := False, mIsNetworkSet := False \<rparr>))"

text \<open>The members before \<open>Init\<close>; \<open>Circuit()\<close> is the constructor with one client and batches of one gate.\<close>

definition blank_circuit :: "nat \<Rightarrow> nat \<Rightarrow> ('a, 'g) circuit" where
  "blank_circuit n_clients batch_size =
     \<lparr> cBatchSize = batch_size, mInputLayers = [], mOutputLayers = [], mMultLayers = [],
       mFlatMultLayers = [], mFlatInputGates = [], mFlatOutputGates = [], mInputGates = [],
       mOutputGates = [], mAddGates = [], mCorrelator = None, mClients = n_clients, mWidth = 0,
       mSize = 0, cID = None, cParties = 0, mIsClosed = False, mIsNetworkSet = False \<rparr>"

definition new_Circuit :: "'g \<Rightarrow> nat \<Rightarrow> nat \<Rightarrow> ('a::zero, 'g) party" where
  "new_Circuit prg n_clients batch_size =
     Circuit_Init prg n_clients batch_size (empty_store, blank_circuit n_clients batch_size)"

definition Circuit_Input :: "'g \<Rightarrow> nat \<Rightarrow> ('a::field, 'g) party \<Rightarrow> (nat \<times> ('a, 'g) party) res" where
  "Circuit_Input prg owner_id = (\<lambda>(st, c).
     let (input_gate, st) = alloc_gate (new_InputGate owner_id) st in
     bindE (vget (mInputLayers c) owner_id) (\<lambda>ly. bindE (InputLayer_Append prg input_gate (st, ly)) (\<lambda>(st, ly).
     bindE (vpush (mFlatInputGates c) owner_id input_gate) (\<lambda>flat.
     Inr (input_gate, st, c\<lparr> mInputLayers := (mInputLayers c)[owner_id := ly], mFlatInputGates := flat,
                            mInputGates := mInputGates c @ [input_gate] \<rparr>)))))"

definition Circuit_Output :: "'g \<Rightarrow> nat \<Rightarrow> nat \<Rightarrow> ('a::field, 'g) party \<Rightarrow> (nat \<times> ('a, 'g) party) res" where
  "Circuit_Output prg owner_id out = (\<lambda>(st, c).
     let (output_gate, st) = alloc_gate (new_OutputGate owner_id out) st in
     bindE (vget (mOutputLayers c) owner_id) (\<lambda>ly. bindE (OutputLayer_Append prg output_gate (st, ly)) (\<lambda>(st, ly).
     bindE (vpush (mFlatOutputGates c) owner_id output_gate) (\<lambda>flat.
     Inr (output_gate, st, c\<lparr> mOutputLayers := (mOutputLayers c)[owner_id := ly], mFlatOutputGates := flat,
                             mOutputGates := mOutputGates c @ [output_gate] \<rparr>)))))"

definition Circuit_Add :: "nat \<Rightarrow> nat \<Rightarrow> ('a::field, 'g) party \<Rightarrow> (nat \<times> ('a, 'g) party) res" where
  "Circuit_Add left right = (\<lambda>(st, c).
     bindE (new_AddGate (sGates st) left right) (\<lambda>G.
     let (add_gate, st) = alloc_gate G st in
     Inr (add_gate, st, c\<lparr> mAddGates := mAddGates c @ [add_gate] \<rparr>)))"

definition Circuit_Mult :: "'g \<Rightarrow> nat \<Rightarrow> nat \<Rightarrow> ('a::field, 'g) party \<Rightarrow> (nat \<times> ('a, 'g) party) res" where
  "Circuit_Mult prg left right = (\<lambda>(st, c).
     let (mult_gate, st) = alloc_gate (new_MultGate left right) st in
     bindE (vback (mMultLayers c)) (\<lambda>ly. bindE (MultLayer_Append prg mult_gate (st, ly)) (\<lambda>(st, ly).
     bindE (vpush (mFlatMultLayers c) (length (mFlatMultLayers c) - 1) mult_gate) (\<lambda>flat.
     Inr (mult_gate, st, c\<lparr> mMultLayers := butlast (mMultLayers c) @ [ly], mFlatMultLayers := flat,
                           mSize := mSize c + 1 \<rparr>)))))"

text \<open>
  \<open>CloseInputs\<close> and \<open>CloseOutputs\<close> close copies of the layers, which share the batches.
\<close>

definition CloseInputs :: "('a::field, 'g) party \<Rightarrow> ('a, 'g) party res option" where
  "CloseInputs = (\<lambda>(st, c). bindP (foldP (\<lambda>ly st. bindP (InputLayer_Close (st, ly)) (\<lambda>(st, _). retP st))
     (mInputLayers c) st) (\<lambda>st. retP (st, c)))"

definition CloseOutputs :: "('a::field, 'g) party \<Rightarrow> ('a, 'g) party res option" where
  "CloseOutputs = (\<lambda>(st, c). bindP (foldP (\<lambda>ly st. bindP (OutputLayer_Close (st, ly)) (\<lambda>(st, _). retP st))
     (mOutputLayers c) st) (\<lambda>st. retP (st, c\<lparr> mIsClosed := True \<rparr>)))"

definition update_width :: "('a, 'g) circuit \<Rightarrow> ('a, 'g) circuit res" where
  "update_width c = bindE (vback (mFlatMultLayers c)) (\<lambda>l.
     Inr (if mWidth c < length l then c\<lparr> mWidth := length l \<rparr> else c))"

definition close_last_layer :: "('a::field, 'g) party \<Rightarrow> ('a, 'g) party res option" where
  "close_last_layer = (\<lambda>(st, c). bindP (liftP (vback (mMultLayers c))) (\<lambda>ly.
     bindP (MultLayer_Close (st, ly)) (\<lambda>(st, ly).
     retP (st, c\<lparr> mMultLayers := butlast (mMultLayers c) @ [ly] \<rparr>))))"

definition NewLayer :: "'g \<Rightarrow> ('a::field, 'g) party \<Rightarrow> ('a, 'g) party res option" where
  "NewLayer prg = (\<lambda>(st, c). bindP (liftP (update_width c)) (\<lambda>c.
     bindP (close_last_layer (st, c\<lparr> mFlatMultLayers := mFlatMultLayers c @ [[]] \<rparr>)) (\<lambda>(st, c).
     let (st, next_layer) = new_MultLayer prg (cBatchSize c) st in
     retP (st, c\<lparr> mMultLayers := mMultLayers c @ [next_layer] \<rparr>))))"

definition LastLayer :: "('a::field, 'g) party \<Rightarrow> ('a, 'g) party res option" where
  "LastLayer = (\<lambda>(st, c). bindP (liftP (update_width c)) (\<lambda>c.
     close_last_layer (st, c\<lparr> mFlatMultLayers := mFlatMultLayers c @ [[]] \<rparr>)))"

text \<open>\<open>SetNetwork\<close>, too, works on copies of the layers.\<close>

definition Circuit_SetNetwork :: "nat \<Rightarrow> nat \<Rightarrow> ('a, 'g) party \<Rightarrow> ('a, 'g) party res" where
  "Circuit_SetNetwork n_parties i = (\<lambda>(st, c).
     throw_if (\<not> mIsClosed c) (Invalid_argument ''Cannot set network without closing the circuit first'') (
     let c = c\<lparr> cID := Some i, cParties := n_parties \<rparr> in
     bindE (foldE (\<lambda>ly st. bindE (InputLayer_SetNetwork n_parties i (st, ly)) (\<lambda>(st, _). Inr st)) (mInputLayers c) st) (\<lambda>st.
     bindE (foldE (\<lambda>ly st. bindE (MultLayer_SetNetwork n_parties i (st, ly)) (\<lambda>(st, _). Inr st)) (mMultLayers c) st) (\<lambda>st.
     bindE (foldE (\<lambda>ly st. bindE (OutputLayer_SetNetwork n_parties i (st, ly)) (\<lambda>(st, _). Inr st)) (mOutputLayers c) st) (\<lambda>st.
     Inr (st, c\<lparr> mIsNetworkSet := True \<rparr>))))))"

subsection \<open>Access and metrics\<close>

definition Circuit_GetInputGate :: "('a, 'g) circuit \<Rightarrow> nat \<Rightarrow> nat \<Rightarrow> nat res" where
  "Circuit_GetInputGate c owner_id idx = vget2 (mFlatInputGates c) owner_id idx"

definition Circuit_GetInputGateFlat :: "('a, 'g) circuit \<Rightarrow> nat \<Rightarrow> nat res" where
  "Circuit_GetInputGateFlat c idx = vget (mInputGates c) idx"

definition Circuit_GetOutputGate :: "('a, 'g) circuit \<Rightarrow> nat \<Rightarrow> nat \<Rightarrow> nat res" where
  "Circuit_GetOutputGate c owner_id idx = vget2 (mFlatOutputGates c) owner_id idx"

definition Circuit_GetOutputGateFlat :: "('a, 'g) circuit \<Rightarrow> nat \<Rightarrow> nat res" where
  "Circuit_GetOutputGateFlat c idx = vget (mOutputGates c) idx"

definition Circuit_GetMultGate :: "('a, 'g) circuit \<Rightarrow> nat \<Rightarrow> nat \<Rightarrow> nat res" where
  "Circuit_GetMultGate c layer idx = vget2 (mFlatMultLayers c) layer idx"

definition GetDepth :: "('a, 'g) circuit \<Rightarrow> nat" where
  "GetDepth c = length (mMultLayers c)"

definition GetNInputs :: "('a, 'g) circuit \<Rightarrow> nat" where
  "GetNInputs c = length (mInputGates c)"

definition GetNOutputs :: "('a, 'g) circuit \<Rightarrow> nat" where
  "GetNOutputs c = length (mOutputGates c)"

definition GetWidth :: "('a, 'g) circuit \<Rightarrow> nat" where
  "GetWidth c = mWidth c"

definition GetSize :: "('a, 'g) circuit \<Rightarrow> nat" where
  "GetSize c = mSize c"

definition GetNInputBatches :: "('a, 'g) circuit \<Rightarrow> nat" where
  "GetNInputBatches c = fold (\<lambda>ly sum. sum + InputLayer_GetSize ly) (mInputLayers c) 0"

definition GetNOutputBatches :: "('a, 'g) circuit \<Rightarrow> nat" where
  "GetNOutputBatches c = fold (\<lambda>ly sum. sum + OutputLayer_GetSize ly) (mOutputLayers c) 0"

definition GetNMultBatches :: "('a, 'g) circuit \<Rightarrow> nat" where
  "GetNMultBatches c = fold (\<lambda>ly sum. sum + MultLayer_GetSize ly) (mMultLayers c) 0"

section \<open>Synthetic circuits (generic.cc)\<close>

definition nmod :: "nat \<Rightarrow> nat \<Rightarrow> nat res" where
  "nmod a b = (if b = 0 then Inl Undefined else Inr (a mod b))"

definition config_pair :: "'g \<Rightarrow> nat \<Rightarrow> nat \<Rightarrow> ('a::field, 'g) party \<Rightarrow> ('a, 'g) party res" where
  "config_pair prg x y s = bindE (Circuit_Add x y s) (\<lambda>(add, s).
     bindE (Circuit_Mult prg x add s) (\<lambda>(_, s). bindE (Circuit_Mult prg y add s) (\<lambda>(_, s). Inr s)))"

definition config_inputs :: "'g \<Rightarrow> circuit_config \<Rightarrow> ('a::field, 'g) party \<Rightarrow> ('a, 'g) party res" where
  "config_inputs prg config = foldE (\<lambda>i s. bindE (vget (cfgInpGates config) i) (\<lambda>n.
     foldE (\<lambda>j s. bindE (Circuit_Input prg i s) (\<lambda>(_, s). Inr s)) [0..<n] s)) [0..<cfgParties config]"

definition config_first_layer :: "'g \<Rightarrow> circuit_config \<Rightarrow> nat \<Rightarrow> ('a::field, 'g) party \<Rightarrow> ('a, 'g) party res" where
  "config_first_layer prg config n_inputs = foldE (\<lambda>i s.
     bindE (nmod (2 * i) n_inputs) (\<lambda>a. bindE (Circuit_GetInputGateFlat (snd s) a) (\<lambda>x.
     bindE (nmod (2 * i + 1) n_inputs) (\<lambda>b. bindE (Circuit_GetInputGateFlat (snd s) b) (\<lambda>y.
     config_pair prg x y s))))) [0..<cfgWidth config div 2]"

definition config_next_layers :: "'g \<Rightarrow> circuit_config \<Rightarrow> ('a::field, 'g) party \<Rightarrow> ('a, 'g) party res option" where
  "config_next_layers prg config = foldP (\<lambda>d s. bindP (NewLayer prg s) (\<lambda>s.
     liftP (foldE (\<lambda>i s. bindE (Circuit_GetMultGate (snd s) (d - 1) (2 * i)) (\<lambda>x.
       bindE (Circuit_GetMultGate (snd s) (d - 1) (2 * i + 1)) (\<lambda>y. config_pair prg x y s)))
       [0..<cfgWidth config div 2] s))) [1..<cfgDepth config]"

definition config_outputs :: "'g \<Rightarrow> circuit_config \<Rightarrow> ('a::field, 'g) party \<Rightarrow> ('a, 'g) party res" where
  "config_outputs prg config s = bindE (foldE (\<lambda>i s. bindE (vget (cfgOutGates config) i) (\<lambda>n.
     foldE (\<lambda>j (ctr, s). bindE (nmod ctr (cfgWidth config)) (\<lambda>idx.
       bindE (Circuit_GetMultGate (snd s) (size_sub (cfgDepth config) 1) idx) (\<lambda>x.
       bindE (Circuit_Output prg i x s) (\<lambda>(_, s). Inr (ctr + 1, s))))) [0..<n] s))
     [0..<cfgParties config] (0, s)) (\<lambda>(ctr, s). Inr s)"

definition FromConfig :: "'g \<Rightarrow> circuit_config \<Rightarrow> ('a::field, 'g) party res option" where
  "FromConfig prg config = (let n_inputs = ComputeNumberOfInputs config in
     if cfgParties config \<noteq> length (cfgInpGates config) then
       failP (Invalid_argument ''The number of parties does not coincide with the length of the input vector'')
     else if cfgParties config \<noteq> length (cfgOutGates config) then
       failP (Invalid_argument ''The number of parties does not coincide with the length of the output vector'')
     else bindP (liftP (nmod (cfgWidth config) n_inputs)) (\<lambda>r.
     if r \<noteq> 0 then failP (Invalid_argument ''Total number of inputs does not divide width'')
     else if n_inputs mod 2 \<noteq> 0 then failP (Invalid_argument ''Number of inputs is not even'')
     else
       bindP (liftP (config_inputs prg config (new_Circuit prg (cfgParties config) (cfgBatchSize config)))) (\<lambda>s.
       bindP (CloseInputs s) (\<lambda>s.
       bindP (liftP (config_first_layer prg config n_inputs s)) (\<lambda>s.
       bindP (config_next_layers prg config s) (\<lambda>s.
       bindP (LastLayer s) (\<lambda>s.
       bindP (liftP (config_outputs prg config s)) CloseOutputs)))))))"

section \<open>Evaluation in the clear (cleartext.cc)\<close>

definition SetClearInputs :: "'a list list \<Rightarrow> ('a, 'g) party \<Rightarrow> ('a, 'g) party res" where
  "SetClearInputs inputs_per_client = (\<lambda>(st, c).
     throw_if (length inputs_per_client \<noteq> mClients c) (Invalid_argument ''Number of clients do not match'') (
     bindE (foldE (\<lambda>i st. bindE (vget inputs_per_client i) (\<lambda>inputs. bindE (vget (mFlatInputGates c) i) (\<lambda>gates.
       throw_if (length inputs \<noteq> length gates)
         (Invalid_argument ''Number of inputs provided for a client does not match its number of input gates'') (
       foldE (\<lambda>j st. bindE (vget gates j) (\<lambda>g. bindE (vget inputs j) (\<lambda>x.
         on_gates (\<lambda>h. at_gate h g (\<lambda>G. Inr (InputGate_ClearInput x G))) st))) [0..<length inputs] st))))
       [0..<mClients c] st) (\<lambda>st. Inr (st, c))))"

definition SetClearInputsFlat :: "'a list \<Rightarrow> ('a, 'g) party \<Rightarrow> ('a, 'g) party res" where
  "SetClearInputsFlat inputs = (\<lambda>(st, c).
     bindE (foldE (\<lambda>i (idx, st). bindE (vget (mFlatInputGates c) i) (\<lambda>gates.
       foldE (\<lambda>g (idx, st). bindE (vget inputs idx) (\<lambda>x.
         bindE (on_gates (\<lambda>h. at_gate h g (\<lambda>G. Inr (InputGate_ClearInput x G))) st) (\<lambda>st. Inr (idx + 1, st))))
         gates (idx, st))) [0..<mClients c] (0, st)) (\<lambda>(idx, st). Inr (st, c)))"

definition clear_outputs :: "nat list \<Rightarrow> ('a::field, 'g) store \<Rightarrow> ('a list \<times> ('a, 'g) store) res option" where
  "clear_outputs gates st = foldP (\<lambda>g (out, st). bindP (GetClear (sGates st) g) (\<lambda>(v, h).
     retP (out @ [v], st\<lparr> sGates := h \<rparr>))) gates ([], st)"

definition GetClearOutputs :: "('a::field, 'g) party \<Rightarrow> ('a list list \<times> ('a, 'g) party) res option" where
  "GetClearOutputs = (\<lambda>(st, c). bindP (foldP (\<lambda>i (out, st). bindP (liftP (vget (mFlatOutputGates c) i)) (\<lambda>gates.
     bindP (clear_outputs gates st) (\<lambda>(out_i, st). retP (out @ [out_i], st)))) [0..<mClients c] ([], st))
     (\<lambda>(out, st). retP (out, st, c)))"

definition GetClearOutputsFlat :: "('a::field, 'g) party \<Rightarrow> ('a list \<times> ('a, 'g) party) res option" where
  "GetClearOutputsFlat = (\<lambda>(st, c). bindP (clear_outputs (mOutputGates c) st) (\<lambda>(out, st). retP (out, st, c)))"

end
