(* ===== verification/CircuitRun.thy ===== *)
theory CircuitRun
  imports Circuit
begin

text \<open>
  Preprocessing and online phase of a circuit (\<open>src/tp/circuits/offline.cc\<close>, \<open>online.cc\<close>). The
  preprocessing with known masks is a function of the party; the phases that communicate are
  processes. A batch visited by a loop over \<open>layer.mBatches\<close> is reached through its pointer.
\<close>

section \<open>Preprocessing with known masks (offline.cc)\<close>

definition set_lambda_all :: "('a gate \<Rightarrow> 'a gate) \<Rightarrow> nat list \<Rightarrow> ('a, 'g) store \<Rightarrow> ('a, 'g) store res" where
  "set_lambda_all SetLambda gates = foldE (\<lambda>g. on_gates (\<lambda>h. at_gate h g (\<lambda>G. Inr (SetLambda G)))) gates"

definition read_lambdas :: "nat list \<Rightarrow> ('a::field, 'g) store \<Rightarrow> ('a, 'g) store res option" where
  "read_lambdas gates = foldP (\<lambda>g st. bindP (GetDummyLambda (sGates st) g) (\<lambda>(l, h). retP (st\<lparr> sGates := h \<rparr>))) gates"

text \<open>A packed sharing of degree \<open>mBatchSize - 1\<close>, and the share of this party.\<close>

definition own_packed_share :: "('g \<Rightarrow> 'a::field \<times> 'g) \<Rightarrow> ('a, 'g) circuit \<Rightarrow> 'a list \<Rightarrow> 'g \<Rightarrow> ('a \<times> 'g) res" where
  "own_packed_share rnd c lambda prg =
     bindE (EvPolyFromSecretsAndDegree rnd lambda (size_sub (cBatchSize c) 1) prg) (\<lambda>(poly, prg).
     bindE (SharesFromEvPoly poly (cParties c)) (\<lambda>new_shares. bindE (deref (cID c)) (\<lambda>i.
     bindE (vget new_shares i) (\<lambda>s. Inr (s, prg)))))"

definition prep_input_batch :: "('g \<Rightarrow> 'a::field \<times> 'g) \<Rightarrow> 'g \<Rightarrow> ('a, 'g) circuit
    \<Rightarrow> 'a heap \<times> ('a, 'g) input_batch \<Rightarrow> ('a heap \<times> ('a, 'g) input_batch) res option" where
  "prep_input_batch rnd prg c = (\<lambda>(h, b). bindP (gate_lambdas (cBatchSize c) (ibGates b) h) (\<lambda>(lambda, h).
     bindP (liftP (own_packed_share rnd c lambda prg)) (\<lambda>(s, prg). retP (h, InputBatch_SetPreprocessing s b))))"

definition prep_output_batch :: "('g \<Rightarrow> 'a::field \<times> 'g) \<Rightarrow> 'g \<Rightarrow> ('a, 'g) circuit
    \<Rightarrow> 'a heap \<times> ('a, 'g) output_batch \<Rightarrow> ('a heap \<times> ('a, 'g) output_batch) res option" where
  "prep_output_batch rnd prg c = (\<lambda>(h, b). bindP (gate_lambdas (cBatchSize c) (obGates b) h) (\<lambda>(lambda, h).
     bindP (liftP (own_packed_share rnd c lambda prg)) (\<lambda>(s, prg). retP (h, OutputBatch_SetPreprocessing s b))))"

definition prep_mult_batch :: "('g \<Rightarrow> 'a::field \<times> 'g) \<Rightarrow> 'g \<Rightarrow> ('a, 'g) circuit
    \<Rightarrow> 'a heap \<times> ('a, 'g) mult_batch \<Rightarrow> ('a heap \<times> ('a, 'g) mult_batch) res option" where
  "prep_mult_batch rnd prg c = (\<lambda>(h, b). bindP (collect_lambdas (cBatchSize c) (mbGates b) h)
       (\<lambda>(lambda_A, lambda_B, lambda_C, h).
     bindP (liftP (own_packed_share rnd c lambda_A prg)) (\<lambda>(A, prg).
     bindP (liftP (own_packed_share rnd c lambda_B prg)) (\<lambda>(B, prg).
     bindP (liftP (own_packed_share rnd c lambda_C prg)) (\<lambda>(C, prg).
     retP (h, MultBatch_SetPreprocessing A B (A * B - C) b))))))"

definition Circuit_DummyPrep :: "('g \<Rightarrow> 'a::field \<times> 'g) \<Rightarrow> 'g \<Rightarrow> 'a \<Rightarrow> ('a, 'g) party \<Rightarrow> ('a, 'g) party res option" where
  "Circuit_DummyPrep rnd prg lambda = (\<lambda>(st, c).
     bindP (liftP (set_lambda_all (InputGate_SetLambda lambda) (mInputGates c) st)) (\<lambda>st.
     bindP (liftP (foldE (\<lambda>layer st. bindE (vget (mFlatMultLayers c) layer) (\<lambda>gates.
       set_lambda_all (MultGate_SetDummyLambda lambda) gates st)) [0..<GetDepth c] st)) (\<lambda>st.
     bindP (read_lambdas (mOutputGates c) st) (\<lambda>st.
     bindP (foldP (\<lambda>ly. foldP (\<lambda>p. at_input_batchP p (prep_input_batch rnd prg c)) (ilBatches ly)) (mInputLayers c) st) (\<lambda>st.
     bindP (foldP (\<lambda>ly. foldP (\<lambda>p. at_output_batchP p (prep_output_batch rnd prg c)) (olBatches ly)) (mOutputLayers c) st) (\<lambda>st.
     bindP (foldP (\<lambda>ly. foldP (\<lambda>p. at_mult_batchP p (prep_mult_batch rnd prg c)) (mlBatches ly)) (mMultLayers c) st) (\<lambda>st.
     retP (st, c))))))))"

text \<open>The overload without argument sets the batches only.\<close>

definition Circuit_DummyPrep_zero :: "('a::field, 'g) party \<Rightarrow> ('a, 'g) party res" where
  "Circuit_DummyPrep_zero = (\<lambda>(st, c).
     bindE (foldE (InputLayer_DummyPrep 0) (mInputLayers c) st) (\<lambda>st.
     bindE (foldE (MultLayer_DummyPrep 0 0 0) (mMultLayers c) st) (\<lambda>st.
     bindE (foldE (OutputLayer_DummyPrep 0) (mOutputLayers c) st) (\<lambda>st. Inr (st, c)))))"

definition SetDummyLambdas :: "'a \<Rightarrow> ('a, 'g) party \<Rightarrow> ('a, 'g) party res" where
  "SetDummyLambdas lambda = (\<lambda>(st, c).
     bindE (foldE (\<lambda>layer st. bindE (vget (mFlatMultLayers c) layer) (\<lambda>gates.
       set_lambda_all (MultGate_SetDummyLambda lambda) gates st)) [0..<GetDepth c] st) (\<lambda>st.
     bindE (set_lambda_all (InputGate_SetLambda lambda) (mInputGates c) st) (\<lambda>st. Inr (st, c))))"

definition PopulateDummyLambdas :: "('a::field, 'g) party \<Rightarrow> ('a, 'g) party res option" where
  "PopulateDummyLambdas = (\<lambda>(st, c). bindP (read_lambdas (mAddGates c) st) (\<lambda>st.
     bindP (read_lambdas (mOutputGates c) st) (\<lambda>st. retP (st, c))))"

definition Circuit_PrepFromDummyLambdas :: "('g \<Rightarrow> 'a::field \<times> 'g) \<Rightarrow> ('a, 'g) party \<Rightarrow> ('a, 'g) party res option" where
  "Circuit_PrepFromDummyLambdas rnd = (\<lambda>(st, c).
     bindP (foldP (InputLayer_PrepFromDummyLambdas rnd) (mInputLayers c) st) (\<lambda>st.
     bindP (foldP (OutputLayer_PrepFromDummyLambdas rnd) (mOutputLayers c) st) (\<lambda>st.
     bindP (foldP (MultLayer_PrepFromDummyLambdas rnd) (mMultLayers c) st) (\<lambda>st. retP (st, c)))))"

section \<open>Preprocessing with the correlator (offline.cc)\<close>

text \<open>\<open>Correlator\<close> counters are indeterminate before \<open>GenCorrelator\<close>: using them is undefined.\<close>

definition corr :: "('a, 'g) circuit \<Rightarrow> ('a, 'g) correlator res" where
  "corr c = (case mCorrelator c of None \<Rightarrow> Inl Undefined | Some co \<Rightarrow> Inr co)"

definition with_corr :: "(('a, 'g) correlator \<Rightarrow> ('v, ('a, 'g) correlator) proc) \<Rightarrow> ('a, 'g) party \<Rightarrow> ('v, ('a, 'g) party) proc" where
  "with_corr f = (\<lambda>(st, c). bindM (liftM (corr c)) (\<lambda>co. bindM (f co) (\<lambda>co.
     Return (st, c\<lparr> mCorrelator := Some co \<rparr>))))"

definition GenCorrelator :: "'g \<Rightarrow> ('a::field, 'g) circuit \<Rightarrow> ('a, 'g) circuit res" where
  "GenCorrelator prg c =
     throw_if (\<not> mIsNetworkSet c) (Invalid_argument ''Cannot set correlator without setting a network first'') (
     let n_ind_shares = GetNInputs c + GetSize c;
         n_mult_batches = GetNMultBatches c;
         n_inout_batches = GetNInputBatches c + GetNOutputBatches c;
         co = new_Correlator prg n_ind_shares n_mult_batches n_inout_batches (cBatchSize c) in
     bindE (deref (cID c)) (\<lambda>i.
     bindE (PrecomputeEi (Correlator_SetNetwork (cParties c) i co)) (\<lambda>co.
     Inr (c\<lparr> mCorrelator := Some co \<rparr>))))"

definition Circuit_SetThreshold :: "nat \<Rightarrow> ('a::field, 'g) circuit \<Rightarrow> ('a, 'g) circuit res" where
  "Circuit_SetThreshold threshold c = bindE (corr c) (\<lambda>co. bindE (Correlator_SetThreshold threshold co) (\<lambda>co.
     bindE (PrecomputeVandermonde co) (\<lambda>co. Inr (c\<lparr> mCorrelator := Some co \<rparr>))))"

definition PopulateDummyCorrelator :: "'a::zero \<Rightarrow> ('a, 'g) circuit \<Rightarrow> ('a, 'g) circuit res" where
  "PopulateDummyCorrelator lambda c = bindE (corr c) (\<lambda>co.
     Inr (c\<lparr> mCorrelator := Some (GenPrepDummy lambda co) \<rparr>))"

definition MapCorrToCircuit :: "('a::field, 'g) party \<Rightarrow> ('a, 'g) party res" where
  "MapCorrToCircuit = (\<lambda>(st, c). bindE (corr c) (\<lambda>co. let h = sGates st in
     bindE (foldE (\<lambda>g. PopulateIndvShrs_input g h) (mInputGates c) co) (\<lambda>co.
     bindE (foldE (\<lambda>layer co. bindE (vget (mFlatMultLayers c) layer) (\<lambda>gates.
       foldE (\<lambda>g. PopulateIndvShrs_mult g h) gates co)) [0..<GetDepth c] co) (\<lambda>co.
     bindE (foldE (\<lambda>g. PopulateIndvShrs_add g h) (mAddGates c) co) (\<lambda>co.
     bindE (foldE (\<lambda>g. PopulateIndvShrs_output g h) (mOutputGates c) co) (\<lambda>co.
     bindE (foldE (\<lambda>ly. foldE PopulateInputBatches (ilBatches ly)) (mInputLayers c) co) (\<lambda>co.
     bindE (foldE (\<lambda>ly. foldE PopulateOutputBatches (olBatches ly)) (mOutputLayers c) co) (\<lambda>co.
     bindE (foldE (\<lambda>ly. foldE PopulateMultBatches (mlBatches ly)) (mMultLayers c) co) (\<lambda>co.
     Inr (st, c\<lparr> mCorrelator := Some co \<rparr>))))))))))"

definition FIPrepSend :: "('g \<Rightarrow> 'a::field \<times> 'g) \<Rightarrow> ('a, 'g) party \<Rightarrow> ('a, ('a, 'g) party) proc" where
  "FIPrepSend rnd s = bindM (with_corr (GenIndShrsPartiesSend rnd) s) (\<lambda>s.
     bindM (with_corr (GenUnpackedShrPartiesSend rnd) s) (\<lambda>s.
     bindM (with_corr (GenZeroPartiesSend rnd) s) (\<lambda>s. with_corr (GenZeroForProdPartiesSend rnd) s)))"

definition FIPrepRecv :: "('a::field, 'g) party \<Rightarrow> ('a, ('a, 'g) party) proc" where
  "FIPrepRecv s = bindM (with_corr GenIndShrsPartiesReceive s) (\<lambda>s.
     bindM (with_corr GenUnpackedShrPartiesReceive s) (\<lambda>s.
     bindM (with_corr GenZeroPartiesReceive s) (\<lambda>s. with_corr GenZeroForProdPartiesReceive s)))"

definition Circuit_GenProdPartiesSendP1 :: "('a::field, 'g) party \<Rightarrow> ('a, ('a, 'g) party) proc" where
  "Circuit_GenProdPartiesSendP1 = with_corr (\<lambda>co. bindM (GenProdPartiesSendP1 co) (\<lambda>_. Return co))"

definition Circuit_GenProdP1ReceivesAndSends :: "('a::field, 'g) party \<Rightarrow> ('a, ('a, 'g) party) proc" where
  "Circuit_GenProdP1ReceivesAndSends = with_corr (\<lambda>co. bindM (GenProdP1ReceivesAndSends co) (\<lambda>_. Return co))"

definition Circuit_GenProdPartiesReceive :: "('a::field, 'g) party \<Rightarrow> ('a, ('a, 'g) party) proc" where
  "Circuit_GenProdPartiesReceive = with_corr GenProdPartiesReceive"

definition Circuit_PrepMultPartiesSendP1 :: "('a::field, 'g) party \<Rightarrow> ('a, ('a, 'g) party) proc" where
  "Circuit_PrepMultPartiesSendP1 = (\<lambda>(st, c). bindM (liftM (corr c)) (\<lambda>co.
     bindM (foldM (\<lambda>ly. foldM (\<lambda>p _. PrepMultPartiesSendP1 p st co) (mlBatches ly)) (mMultLayers c) ())
     (\<lambda>_. Return (st, c))))"

definition Circuit_PrepMultP1ReceivesAndSends ::
  "('g \<Rightarrow> 'a::field \<times> 'g) \<Rightarrow> ('a, 'g) party \<Rightarrow> ('a, ('a, 'g) party) proc" where
  "Circuit_PrepMultP1ReceivesAndSends rnd = (\<lambda>(st, c). with_corr
     (foldM (\<lambda>ly. foldM (\<lambda>p. PrepMultP1ReceivesAndSends rnd) (mlBatches ly)) (mMultLayers c)) (st, c))"

definition Circuit_PrepMultPartiesReceive :: "('a::field, 'g) party \<Rightarrow> ('a, ('a, 'g) party) proc" where
  "Circuit_PrepMultPartiesReceive = (\<lambda>(st, c). bindM (liftM (corr c)) (\<lambda>co.
     bindM (foldM (\<lambda>ly. foldM (\<lambda>p. PrepMultPartiesReceive p co) (mlBatches ly)) (mMultLayers c) st)
     (\<lambda>st. Return (st, c))))"

definition PrepIOPartiesSendOwner :: "('a::field, 'g) party \<Rightarrow> ('a, ('a, 'g) party) proc" where
  "PrepIOPartiesSendOwner = (\<lambda>(st, c). bindM (liftM (corr c)) (\<lambda>co.
     bindM (foldM (\<lambda>ly. foldM (\<lambda>p _. PrepInputPartiesSendOwner p st co) (ilBatches ly)) (mInputLayers c) ()) (\<lambda>_.
     bindM (foldM (\<lambda>ly. foldM (\<lambda>p _. PrepOutputPartiesSendOwner p st co) (olBatches ly)) (mOutputLayers c) ()) (\<lambda>_.
     Return (st, c)))))"

definition PrepIOOwnerReceives :: "('a::field, 'g) party \<Rightarrow> ('a, ('a, 'g) party) proc" where
  "PrepIOOwnerReceives = (\<lambda>(st, c). bindM (liftM (corr c)) (\<lambda>co.
     bindM (foldM (\<lambda>ly. foldM (\<lambda>p. PrepInputOwnerReceives p co) (ilBatches ly)) (mInputLayers c) st) (\<lambda>st.
     bindM (foldM (\<lambda>ly. foldM (\<lambda>p. PrepOutputOwnerReceives p co) (olBatches ly)) (mOutputLayers c) st) (\<lambda>st.
     Return (st, c)))))"

section \<open>The online protocol (online.cc)\<close>

definition SetInputs :: "'a list \<Rightarrow> ('a, 'g) party \<Rightarrow> ('a, 'g) party res" where
  "SetInputs inputs = (\<lambda>(st, c). bindE (deref (cID c)) (\<lambda>own_id. bindE (vget (mFlatInputGates c) own_id) (\<lambda>gates.
     throw_if (length inputs \<noteq> length gates) (Invalid_argument ''Number of inputs do not match'') (
     bindE (foldE (\<lambda>i st. bindE (vget gates i) (\<lambda>g. bindE (vget inputs i) (\<lambda>x.
       on_gates (\<lambda>h. at_gate h g (InputGate_SetInput x)) st))) [0..<length inputs] st) (\<lambda>st. Inr (st, c))))))"

definition gateM :: "('v, 'a gate) proc \<Rightarrow> nat \<Rightarrow> 'a heap \<Rightarrow> ('v, 'a heap) proc" where
  "gateM p g h = bindM p (\<lambda>G. Return (h[g := G]))"

definition InputOwnerSendsP1 :: "('a::field, 'g) party \<Rightarrow> ('a, ('a, 'g) party) proc" where
  "InputOwnerSendsP1 = (\<lambda>(st, c). bindM (foldM (\<lambda>i _. bindM (liftM (vget (mFlatInputGates c) i)) (\<lambda>gates.
     foldM (\<lambda>g _. bindM (liftM (vget (sGates st) g)) InputGate_OwnerSendsP1) gates ()))
     [0..<mClients c] ()) (\<lambda>_. Return (st, c)))"

definition InputP1Receives :: "('a::field, 'g) party \<Rightarrow> ('a, ('a, 'g) party) proc" where
  "InputP1Receives = (\<lambda>(st, c). bindM (foldM (\<lambda>i h. bindM (liftM (vget (mFlatInputGates c) i)) (\<lambda>gates.
     foldM (\<lambda>g h. bindM (liftM (vget h g)) (\<lambda>G. gateM (InputGate_P1Receives G) g h)) gates h))
     [0..<mClients c] (sGates st)) (\<lambda>h. Return (st\<lparr> sGates := h \<rparr>, c)))"

definition RunInput :: "('a::field, 'g) party \<Rightarrow> ('a, ('a, 'g) party) proc" where
  "RunInput s = bindM (InputOwnerSendsP1 s) (\<lambda>s. InputP1Receives s)"

definition on_layer :: "(mult_layer \<Rightarrow> ('a, 'g) store \<Rightarrow> ('a, ('a, 'g) store) proc) \<Rightarrow> nat \<Rightarrow> ('a, 'g) party
    \<Rightarrow> ('a, ('a, 'g) party) proc" where
  "on_layer f layer = (\<lambda>(st, c). bindM (liftM (vget (mMultLayers c) layer)) (\<lambda>ly.
     bindM (f ly st) (\<lambda>st. Return (st, c))))"

definition MultP1Sends :: "('g \<Rightarrow> 'a::field \<times> 'g) \<Rightarrow> nat \<Rightarrow> ('a, 'g) party \<Rightarrow> ('a, ('a, 'g) party) proc" where
  "MultP1Sends rnd = on_layer (MultLayer_P1Sends rnd)"

definition MultPartiesReceive :: "nat \<Rightarrow> ('a::field, 'g) party \<Rightarrow> ('a, ('a, 'g) party) proc" where
  "MultPartiesReceive = on_layer MultLayer_PartiesReceive"

definition MultPartiesSend :: "nat \<Rightarrow> ('a::field, 'g) party \<Rightarrow> ('a, ('a, 'g) party) proc" where
  "MultPartiesSend = on_layer MultLayer_PartiesSend"

definition MultP1Receives :: "nat \<Rightarrow> ('a::field, 'g) party \<Rightarrow> ('a, ('a, 'g) party) proc" where
  "MultP1Receives = on_layer MultLayer_P1Receives"

definition RunMult :: "('g \<Rightarrow> 'a::field \<times> 'g) \<Rightarrow> nat \<Rightarrow> ('a, 'g) party \<Rightarrow> ('a, ('a, 'g) party) proc" where
  "RunMult rnd layer s = bindM (MultP1Sends rnd layer s) (\<lambda>s. bindM (MultPartiesReceive layer s) (\<lambda>s.
     bindM (MultPartiesSend layer s) (\<lambda>s. MultP1Receives layer s)))"

definition OutputP1SendsMu :: "('a::field, 'g) party \<Rightarrow> ('a, ('a, 'g) party) proc" where
  "OutputP1SendsMu = (\<lambda>(st, c). bindM (foldM (\<lambda>i h. bindM (liftM (vget (mFlatOutputGates c) i)) (\<lambda>gates.
     foldM OutputGate_P1SendsMu gates h)) [0..<mClients c] (sGates st)) (\<lambda>h. Return (st\<lparr> sGates := h \<rparr>, c)))"

definition OutputOwnerReceivesMu :: "('a::field, 'g) party \<Rightarrow> ('a, ('a, 'g) party) proc" where
  "OutputOwnerReceivesMu = (\<lambda>(st, c). bindM (foldM (\<lambda>i h. bindM (liftM (vget (mFlatOutputGates c) i)) (\<lambda>gates.
     foldM (\<lambda>g h. bindM (liftM (vget h g)) (\<lambda>G. gateM (OutputGate_OwnerReceivesMu G) g h)) gates h))
     [0..<mClients c] (sGates st)) (\<lambda>h. Return (st\<lparr> sGates := h \<rparr>, c)))"

definition RunOutput :: "('a::field, 'g) party \<Rightarrow> ('a, ('a, 'g) party) proc" where
  "RunOutput s = bindM (OutputP1SendsMu s) (\<lambda>s. OutputOwnerReceivesMu s)"

definition Circuit_RunProtocol :: "('g \<Rightarrow> 'a::field \<times> 'g) \<Rightarrow> ('a, 'g) party \<Rightarrow> ('a, ('a, 'g) party) proc" where
  "Circuit_RunProtocol rnd s = bindM (RunInput s) (\<lambda>s.
     bindM (foldM (RunMult rnd) [0..<length (mMultLayers (snd s))] s) (\<lambda>s. RunOutput s))"

definition GetOutputs :: "('a, 'g) party \<Rightarrow> 'a list res" where
  "GetOutputs = (\<lambda>(st, c). bindE (deref (cID c)) (\<lambda>own_id. bindE (vget (mFlatOutputGates c) own_id) (\<lambda>gates.
     mapE (\<lambda>g. bindE (vget (sGates st) g) (\<lambda>G. Inr (OutputGate_GetValue G))) gates)))"

end
