(* ===== verification/DN07.thy ===== *)
theory DN07
  imports CircuitRun
begin

text \<open>
  The baseline protocol DN07 (\<open>src/tp/dn07.h\<close>, \<open>src/tp/dn07.cc\<close>): Shamir shares of degree \<open>t\<close> at every
  wire, masked by random and double sharings that all parties deal together. A \<open>DN07\<close> object holds a
  copy of the circuit, which shares the gates with the original.
\<close>

section \<open>State\<close>

record 'a rand_shr =
  rShr :: 'a

definition RandShr :: "'a \<Rightarrow> 'a rand_shr" where
  "RandShr share = \<lparr> rShr = share \<rparr>"

definition RandShr_default :: "'a::zero rand_shr" where
  "RandShr_default = \<lparr> rShr = 0 \<rparr>"

record 'a double_shr =
  dShr :: 'a
  dDShr :: 'a

definition DoubleShr :: "'a \<Rightarrow> 'a \<Rightarrow> 'a double_shr" where
  "DoubleShr share share_d = \<lparr> dShr = share, dDShr = share_d \<rparr>"

definition DoubleShr_const :: "'a \<Rightarrow> 'a double_shr" where
  "DoubleShr_const share = \<lparr> dShr = share, dDShr = share \<rparr>"

definition DoubleShr_default :: "'a::zero double_shr" where
  "DoubleShr_default = \<lparr> dShr = 0, dDShr = 0 \<rparr>"

record ('a, 'g) dn07 =
  dnCircuit :: "('a, 'g) circuit"
  dnMults :: "nat option"
  dnInputs :: "nat option"
  mCTRDoubleShrs :: nat
  mCTRRandShrs :: nat
  mDShrs :: "'a double_shr list"
  mRShrs :: "'a rand_shr list"
  mMapMults :: "nat \<Rightarrow> nat option"
  mMapInputs :: "nat \<Rightarrow> nat option"
  mMapResults :: "nat \<Rightarrow> 'a option"
  dnParties :: nat
  dnThreshold :: nat
  dnPRG :: 'g
  dnVandermonde :: "'a list list"
  mP1SharesToSend :: "'a list list"
  mMapP1SharesFromLast :: "'a list list"

type_synonym ('a, 'g) dn_party = "('a, 'g) store \<times> ('a, 'g) dn07"

text \<open>\<open>mMap[gate]\<close> for a gate without an entry is a value-initialised entry.\<close>

definition map_at :: "(nat \<Rightarrow> 'v option) \<Rightarrow> 'v \<Rightarrow> nat \<Rightarrow> 'v" where
  "map_at m z g = (case m g of None \<Rightarrow> z | Some v \<Rightarrow> v)"

definition DN07_PrecomputeVandermonde :: "('a::field, 'g) dn07 \<Rightarrow> ('a, 'g) dn07 res" where
  "DN07_PrecomputeVandermonde d =
     bindE (vandermonde (dnParties d) (dnThreshold d) (dnVandermonde d)) (\<lambda>V. Inr (d\<lparr> dnVandermonde := V \<rparr>))"

text \<open>The member \<open>mCircuit\<close> is constructed by \<open>Circuit()\<close>, with batches of its own.\<close>

definition new_DN07 :: "'g \<Rightarrow> nat \<Rightarrow> nat \<Rightarrow> ('a::field, 'g) store \<Rightarrow> ('a, 'g) dn_party res" where
  "new_DN07 prg parties threshold st =
     (let (st, c) = Circuit_Init prg 1 1 (st, blank_circuit 1 1) in
     throw_if (parties \<le> 2 * threshold) (Invalid_argument ''It must hold that t < n/2'') (
     bindE (DN07_PrecomputeVandermonde \<lparr> dnCircuit = c, dnMults = None, dnInputs = None, mCTRDoubleShrs = 0,
       mCTRRandShrs = 0, mDShrs = [], mRShrs = [], mMapMults = (\<lambda>_. None), mMapInputs = (\<lambda>_. None),
       mMapResults = (\<lambda>_. None), dnParties = parties, dnThreshold = threshold, dnPRG = prg,
       dnVandermonde = [], mP1SharesToSend = [], mMapP1SharesFromLast = [] \<rparr>) (\<lambda>d. Inr (st, d))))"

definition SetCircuit :: "('a, 'g) circuit \<Rightarrow> ('a, 'g) dn07 \<Rightarrow> ('a, 'g) dn07 res" where
  "SetCircuit c d = bindE (deref (cID c)) (\<lambda>_.
     throw_if (cParties c \<noteq> dnParties d) Assert_failed (
     Inr (d\<lparr> dnCircuit := c, dnMults := Some (GetSize c), dnInputs := Some (GetNInputs c) \<rparr>)))"

definition DN07_DummyPrep :: "'a \<Rightarrow> ('a, 'g) dn07 \<Rightarrow> ('a, 'g) dn07 res" where
  "DN07_DummyPrep prep d = bindE (deref (dnMults d)) (\<lambda>m. bindE (deref (dnInputs d)) (\<lambda>n.
     Inr (d\<lparr> mDShrs := replicate m (DoubleShr_const prep), mRShrs := replicate n (RandShr prep) \<rparr>)))"

definition DN07_DummyPrep_zero :: "('a::zero, 'g) dn07 \<Rightarrow> ('a, 'g) dn07 res" where
  "DN07_DummyPrep_zero d = bindE (deref (dnMults d)) (\<lambda>m. bindE (deref (dnInputs d)) (\<lambda>n.
     Inr (d\<lparr> mDShrs := replicate m DoubleShr_default, mRShrs := replicate n RandShr_default \<rparr>)))"

definition DN07_SetInputs :: "'a list \<Rightarrow> ('a, 'g) dn_party \<Rightarrow> ('a, 'g) dn_party res" where
  "DN07_SetInputs inputs = (\<lambda>(st, d). let c = dnCircuit d in
     bindE (deref (cID c)) (\<lambda>own_id. bindE (vget (mFlatInputGates c) own_id) (\<lambda>gates.
     throw_if (length inputs \<noteq> length gates) (Invalid_argument ''Number of inputs do not match'') (
     bindE (foldE (\<lambda>i st. bindE (vget gates i) (\<lambda>g. bindE (vget inputs i) (\<lambda>x.
       on_gates (\<lambda>h. at_gate h g (InputGate_SetInput x)) st))) [0..<length inputs] st) (\<lambda>st. Inr (st, d))))))"

definition DN07_GetOutput :: "nat \<Rightarrow> nat \<Rightarrow> ('a::zero, 'g) dn07 \<Rightarrow> 'a res" where
  "DN07_GetOutput owner_id idx d = bindE (vget2 (mFlatOutputGates (dnCircuit d)) owner_id idx) (\<lambda>g.
     Inr (map_at (mMapResults d) 0 g))"

section \<open>Offline phase\<close>

text \<open>Random sharings for the inputs, double sharings for the multiplications.\<close>

definition send_random :: "('g \<Rightarrow> 'a::field \<times> 'g) \<Rightarrow> nat \<Rightarrow> ('a, 'g) dn07 \<Rightarrow> ('a, ('a, 'g) dn07) proc" where
  "send_random rnd degree d = (let (secret, prg) = rnd (dnPRG d) in
     bindM (liftM (EvPolyFromSecretAndDegree rnd secret degree prg)) (\<lambda>(poly, prg).
     bindM (liftM (SharesFromEvPoly poly (dnParties d))) (\<lambda>shares.
     connected (cID (dnCircuit d)) (\<lambda>_. bindM (send_shares (dnParties d) shares) (\<lambda>_.
     Return (d\<lparr> dnPRG := prg \<rparr>))))))"

definition send_two_shares :: "nat \<Rightarrow> 'a list \<Rightarrow> 'a list \<Rightarrow> ('a, unit) proc" where
  "send_two_shares n_parties shares shares_d = foldM (\<lambda>party _. bindM (liftM (vget shares party)) (\<lambda>s.
     bindM (sendM party s) (\<lambda>_. bindM (liftM (vget shares_d party)) (sendM party)))) [0..<n_parties] ()"

definition send_double :: "('g \<Rightarrow> 'a::field \<times> 'g) \<Rightarrow> nat \<Rightarrow> ('a, 'g) dn07 \<Rightarrow> ('a, ('a, 'g) dn07) proc" where
  "send_double rnd degree d = (let (secret, prg) = rnd (dnPRG d) in
     bindM (liftM (EvPolyFromSecretAndDegree rnd secret degree prg)) (\<lambda>(poly, prg).
     bindM (liftM (EvPolyFromSecretAndDegree rnd secret (2 * degree) prg)) (\<lambda>(poly_d, prg).
     bindM (liftM (SharesFromEvPoly poly (dnParties d))) (\<lambda>shares.
     bindM (liftM (SharesFromEvPoly poly_d (dnParties d))) (\<lambda>shares_d.
     connected (cID (dnCircuit d)) (\<lambda>_. bindM (send_two_shares (dnParties d) shares shares_d) (\<lambda>_.
     Return (d\<lparr> dnPRG := prg \<rparr>))))))))"

definition PrepPartiesSend :: "('g \<Rightarrow> 'a::field \<times> 'g) \<Rightarrow> ('a, 'g) dn07 \<Rightarrow> ('a, ('a, 'g) dn07) proc" where
  "PrepPartiesSend rnd d = (let degree = dnThreshold d in
     bindM (liftM (deref (dnInputs d))) (\<lambda>n_inputs.
     bindM (foldM (\<lambda>block. send_random rnd degree) [0..<n_blocks n_inputs (dnThreshold d)] d) (\<lambda>d.
     bindM (liftM (deref (dnMults d))) (\<lambda>n_mults.
     foldM (\<lambda>block. send_double rnd degree) [0..<n_blocks n_mults (dnThreshold d)] d))))"

definition receive_random :: "('a::field, 'g) dn07 \<Rightarrow> ('a, ('a, 'g) dn07) proc" where
  "receive_random d = connected (cID (dnCircuit d)) (\<lambda>_. bindM (recv_from_all (dnParties d)) (\<lambda>recv_shares.
     liftM (foldE (\<lambda>shr_idx d. bindE (vandermonde_share (dnVandermonde d) (dnParties d) shr_idx recv_shares) (\<lambda>shr.
       Inr (d\<lparr> mRShrs := mRShrs d @ [RandShr shr] \<rparr>))) [0..<dnThreshold d + 1] d)))"

definition receive_double :: "('a::field, 'g) dn07 \<Rightarrow> ('a, ('a, 'g) dn07) proc" where
  "receive_double d = connected (cID (dnCircuit d)) (\<lambda>_. bindM (recv_two_from_all (dnParties d)) (\<lambda>(recv_shares, recv_shares_d).
     liftM (foldE (\<lambda>shr_idx d. bindE (vandermonde_share (dnVandermonde d) (dnParties d) shr_idx recv_shares) (\<lambda>shr.
       bindE (vandermonde_share (dnVandermonde d) (dnParties d) shr_idx recv_shares_d) (\<lambda>shr_d.
       Inr (d\<lparr> mDShrs := mDShrs d @ [DoubleShr shr shr_d] \<rparr>)))) [0..<dnThreshold d + 1] d)))"

definition PrepPartiesReceive :: "('a::field, 'g) dn07 \<Rightarrow> ('a, ('a, 'g) dn07) proc" where
  "PrepPartiesReceive d = bindM (liftM (deref (dnInputs d))) (\<lambda>n_inputs.
     bindM (foldM (\<lambda>block. receive_random) [0..<n_blocks n_inputs (dnThreshold d)] d) (\<lambda>d.
     bindM (liftM (deref (dnMults d))) (\<lambda>n_mults.
     foldM (\<lambda>block. receive_double) [0..<n_blocks n_mults (dnThreshold d)] d)))"

section \<open>Function-dependent offline phase\<close>

text \<open>Loops over the gates of the circuit: the inputs of all clients, the layers of multiplications.\<close>

definition for_inputs :: "(nat \<Rightarrow> nat \<Rightarrow> 's \<Rightarrow> ('v, 's) proc) \<Rightarrow> ('a, 'g) circuit \<Rightarrow> 's \<Rightarrow> ('v, 's) proc" where
  "for_inputs f c = foldM (\<lambda>owner_id s. bindM (liftM (vget (mFlatInputGates c) owner_id)) (\<lambda>gates.
     foldM (f owner_id) gates s)) [0..<mClients c]"

definition for_mults :: "(nat \<Rightarrow> 's \<Rightarrow> ('v, 's) proc) \<Rightarrow> ('a, 'g) circuit \<Rightarrow> 's \<Rightarrow> ('v, 's) proc" where
  "for_mults f c = foldM (\<lambda>layer s. bindM (liftM (vget (mFlatMultLayers c) layer)) (\<lambda>gates.
     foldM f gates s)) [0..<GetDepth c]"

definition map_input :: "nat \<Rightarrow> ('a, 'g) dn07 \<Rightarrow> ('a, 'g) dn07" where
  "map_input g d = d\<lparr> mMapInputs := (mMapInputs d)(g \<mapsto> mCTRRandShrs d), mCTRRandShrs := mCTRRandShrs d + 1 \<rparr>"

definition map_mult :: "nat \<Rightarrow> ('a, 'g) dn07 \<Rightarrow> ('a, 'g) dn07" where
  "map_mult g d = d\<lparr> mMapMults := (mMapMults d)(g \<mapsto> mCTRDoubleShrs d), mCTRDoubleShrs := mCTRDoubleShrs d + 1 \<rparr>"

definition FDMapPrepToGates :: "('a, 'g) dn07 \<Rightarrow> ('a, ('a, 'g) dn07) proc" where
  "FDMapPrepToGates d = bindM (for_inputs (\<lambda>_ g d. Return (map_input g d)) (dnCircuit d) d) (\<lambda>d.
     for_mults (\<lambda>g d. Return (map_mult g d)) (dnCircuit d) d)"

definition input_mask :: "('a, 'g) dn07 \<Rightarrow> nat \<Rightarrow> 'a res" where
  "input_mask d g = bindE (vget (mRShrs d) (map_at (mMapInputs d) 0 g)) (\<lambda>r. Inr (rShr r))"

definition mult_mask :: "('a, 'g) dn07 \<Rightarrow> nat \<Rightarrow> 'a double_shr res" where
  "mult_mask d g = vget (mDShrs d) (map_at (mMapMults d) 0 g)"

definition set_share :: "nat \<Rightarrow> 'a \<Rightarrow> 'a heap \<Rightarrow> 'a heap res" where
  "set_share g share h = at_gate h g (\<lambda>G. Inr (SetDn07Share share G))"

text \<open>The product of the shares of the parents, masked by the share of the higher degree.\<close>

definition masked_product :: "('a::field, 'g) dn07 \<Rightarrow> nat \<Rightarrow> 'a heap \<Rightarrow> ('a, 'a \<times> 'a heap) proc" where
  "masked_product d g h = bindM (liftM (vget h g)) (\<lambda>G.
     bindM (liftM (deref (mLeft G))) (\<lambda>l. bindM (optM (GetDn07Share h l)) (\<lambda>(x, h).
     bindM (liftM (deref (mRight G))) (\<lambda>r. bindM (optM (GetDn07Share h r)) (\<lambda>(y, h).
     bindM (liftM (mult_mask d g)) (\<lambda>m. Return (x * y - dDShr m, h)))))))"

definition FDMultPartiesSendP1 :: "('a::field, 'g) dn_party \<Rightarrow> ('a, ('a, 'g) dn_party) proc" where
  "FDMultPartiesSendP1 = (\<lambda>(st, d). connected (cID (dnCircuit d)) (\<lambda>i.
     if dnThreshold d + 1 \<le> i then
       bindM (for_inputs (\<lambda>_ g h. liftM (bindE (input_mask d g) (\<lambda>s. set_share g s h))) (dnCircuit d) (sGates st)) (\<lambda>h.
       bindM (for_mults (\<lambda>g h. bindM (liftM (mult_mask d g)) (\<lambda>m. bindM (liftM (set_share g (dShr m) h)) (\<lambda>h.
         bindM (masked_product d g h) (\<lambda>(shr, h). bindM (sendM 0 shr) (\<lambda>_. Return h))))) (dnCircuit d) h) (\<lambda>h.
       Return (st\<lparr> sGates := h \<rparr>, d)))
     else Return (st, d)))"

definition recv_from_range :: "nat \<Rightarrow> nat \<Rightarrow> 'v list \<Rightarrow> ('v, 'v list) proc" where
  "recv_from_range a b = foldM (\<lambda>i shares. bindM (recvM i) (\<lambda>shr. Return (shares @ [shr]))) [a..<b]"

definition FDMultP1Receives :: "('a, 'g) dn07 \<Rightarrow> ('a, ('a, 'g) dn07) proc" where
  "FDMultP1Receives d = for_mults (\<lambda>g d. connected (cID (dnCircuit d)) (\<lambda>i. if i = 0 then
       bindM (recv_from_range (dnThreshold d + 1) (dnParties d) []) (\<lambda>shares_from_last.
       Return (d\<lparr> mMapP1SharesFromLast := mMapP1SharesFromLast d @ [shares_from_last] \<rparr>))
     else Return d)) (dnCircuit d) d"

section \<open>Online phase\<close>

subsection \<open>Inputs\<close>

definition InputPartiesSendOwners :: "('a, 'g) dn07 \<Rightarrow> ('a, unit) proc" where
  "InputPartiesSendOwners d = for_inputs (\<lambda>owner_id g _. connected (cID (dnCircuit d)) (\<lambda>i.
     if i < dnThreshold d + 1 then bindM (liftM (input_mask d g)) (sendM owner_id) else Return ())) (dnCircuit d) ()"

text \<open>
  Shares of degree \<open>t\<close> of a value, zero for the last \<open>t\<close> parties; only the first \<open>t + 1\<close> are computed.
\<close>

definition sparse_shares :: "nat \<Rightarrow> nat \<Rightarrow> 'a::field \<Rightarrow> 'a list res" where
  "sparse_shares n t value =
     (let y_points = value # map (\<lambda>i. 0) [size_sub n t..<n];
          x_points = 0 # map (\<lambda>i. from_size (int i + 1)) [size_sub n t..<n] in
      bindE (EvPoly x_points y_points) (\<lambda>poly. SharesFromEvPoly poly (t + 1)))"

definition InputOwnersReceiveAndSendParties :: "('a::field, 'g) dn_party \<Rightarrow> ('a, unit) proc" where
  "InputOwnersReceiveAndSendParties = (\<lambda>(st, d). let t = dnThreshold d in connected (cID (dnCircuit d)) (\<lambda>i.
     bindM (liftM (vget (mFlatInputGates (dnCircuit d)) i)) (\<lambda>gates.
     foldM (\<lambda>g _. bindM (liftM (vget (sGates st) g)) (\<lambda>G.
       if i = InputGate_GetOwner G then
         bindM (recv_from_range 0 (t + 1) []) (\<lambda>recv_shares.
         bindM (liftM (SecretFromShares recv_shares)) (\<lambda>mask.
         let masked = InputGate_GetValue G - mask in
         bindM (liftM (sparse_shares (dnParties d) t masked)) (send_shares (t + 1))))
       else Return ())) gates ())))"

definition InputPartiesReceive :: "('a::field, 'g) dn_party \<Rightarrow> ('a, ('a, 'g) dn_party) proc" where
  "InputPartiesReceive = (\<lambda>(st, d). connected (cID (dnCircuit d)) (\<lambda>i.
     if i < dnThreshold d + 1 then
       bindM (for_inputs (\<lambda>owner_id g h. bindM (recvM owner_id) (\<lambda>share_of_masked.
         liftM (bindE (input_mask d g) (\<lambda>r. set_share g (share_of_masked + r) h)))) (dnCircuit d) (sGates st)) (\<lambda>h.
       Return (st\<lparr> sGates := h \<rparr>, d))
     else Return (st, d)))"

subsection \<open>Multiplications\<close>

definition layer_mults :: "('a, 'g) dn07 \<Rightarrow> nat \<Rightarrow> ('v, nat list) proc" where
  "layer_mults d layer = liftM (vget (mFlatMultLayers (dnCircuit d)) layer)"

definition DN07_MultPartiesSendP1 :: "nat \<Rightarrow> ('a::field, 'g) dn_party \<Rightarrow> ('a, ('a, 'g) dn_party) proc" where
  "DN07_MultPartiesSendP1 layer = (\<lambda>(st, d). connected (cID (dnCircuit d)) (\<lambda>i.
     if i < dnThreshold d + 1 then
       bindM (layer_mults d layer) (\<lambda>gates.
       bindM (foldM (\<lambda>g h. bindM (masked_product d g h) (\<lambda>(shr, h). bindM (sendM 0 shr) (\<lambda>_. Return h)))
         gates (sGates st)) (\<lambda>h. Return (st\<lparr> sGates := h \<rparr>, d)))
     else Return (st, d)))"

definition DN07_MultP1Receives :: "nat \<Rightarrow> ('a::field, 'g) dn07 \<Rightarrow> ('a, ('a, 'g) dn07) proc" where
  "DN07_MultP1Receives layer d = (let t = dnThreshold d in connected (cID (dnCircuit d)) (\<lambda>i.
     if i = 0 then
       bindM (layer_mults d layer) (\<lambda>gates. foldM (\<lambda>g d.
         bindM (recv_from_range 0 (t + 1) []) (\<lambda>shares.
         bindM (liftM (vget (mMapP1SharesFromLast d) 0)) (\<lambda>shares_from_last.
         bindM (liftM (foldE (\<lambda>i shares. bindE (vget shares_from_last (i - (t + 1))) (\<lambda>s. Inr (shares @ [s])))
           [t + 1..<dnParties d] shares)) (\<lambda>shares.
         bindM (liftM (SecretFromShares shares)) (\<lambda>secret.
         bindM (liftM (sparse_shares (dnParties d) t secret)) (\<lambda>shares_to_send.
         Return (d\<lparr> mMapP1SharesFromLast := tl (mMapP1SharesFromLast d),
                    mP1SharesToSend := mP1SharesToSend d @ [shares_to_send] \<rparr>))))))) gates d)
     else Return d))"

text \<open>\<open>front\<close> of an empty queue is undefined.\<close>

definition DN07_MultP1SendsParties :: "nat \<Rightarrow> ('a, 'g) dn07 \<Rightarrow> ('a, ('a, 'g) dn07) proc" where
  "DN07_MultP1SendsParties layer d = connected (cID (dnCircuit d)) (\<lambda>i.
     if i = 0 then
       bindM (layer_mults d layer) (\<lambda>gates. foldM (\<lambda>g d.
         bindM (foldM (\<lambda>i _. bindM (liftM (vget2 (mP1SharesToSend d) 0 i)) (sendM i)) [0..<dnThreshold d + 1] ()) (\<lambda>_.
         Return (d\<lparr> mP1SharesToSend := tl (mP1SharesToSend d) \<rparr>))) gates d)
     else Return d)"

definition DN07_MultP1ReceivesAndSendsParties :: "nat \<Rightarrow> ('a::field, 'g) dn07 \<Rightarrow> ('a, ('a, 'g) dn07) proc" where
  "DN07_MultP1ReceivesAndSendsParties layer d = bindM (DN07_MultP1Receives layer d) (DN07_MultP1SendsParties layer)"

definition DN07_MultPartiesReceive :: "nat \<Rightarrow> ('a::field, 'g) dn_party \<Rightarrow> ('a, ('a, 'g) dn_party) proc" where
  "DN07_MultPartiesReceive layer = (\<lambda>(st, d). connected (cID (dnCircuit d)) (\<lambda>i.
     if i < dnThreshold d + 1 then
       bindM (layer_mults d layer) (\<lambda>gates.
       bindM (foldM (\<lambda>g h. bindM (recvM 0) (\<lambda>masked.
         liftM (bindE (mult_mask d g) (\<lambda>m. set_share g (masked + dShr m) h)))) gates (sGates st)) (\<lambda>h.
       Return (st\<lparr> sGates := h \<rparr>, d)))
     else Return (st, d)))"

subsection \<open>Outputs\<close>

definition OutputPartiesSendOwners :: "('a::field, 'g) dn_party \<Rightarrow> ('a, ('a, 'g) dn_party) proc" where
  "OutputPartiesSendOwners = (\<lambda>(st, d). let c = dnCircuit d in connected (cID c) (\<lambda>i.
     if i < dnThreshold d + 1 then
       bindM (foldM (\<lambda>owner_id h. bindM (liftM (vget (mFlatOutputGates c) owner_id)) (\<lambda>gates.
         foldM (\<lambda>g h. bindM (optM (GetDn07Share h g)) (\<lambda>(share, h). bindM (sendM owner_id share) (\<lambda>_. Return h)))
           gates h)) [0..<mClients c] (sGates st)) (\<lambda>h. Return (st\<lparr> sGates := h \<rparr>, d))
     else Return (st, d)))"

definition OutputOwnersReceive :: "('a::field, 'g) dn_party \<Rightarrow> ('a, ('a, 'g) dn_party) proc" where
  "OutputOwnersReceive = (\<lambda>(st, d). let c = dnCircuit d in connected (cID c) (\<lambda>i.
     bindM (liftM (vget (mFlatOutputGates c) i)) (\<lambda>gates.
     bindM (foldM (\<lambda>g d. bindM (liftM (vget (sGates st) g)) (\<lambda>G.
       if i = OutputGate_GetOwner G then
         bindM (recv_from_range 0 (dnThreshold d + 1) []) (\<lambda>recv_shares.
         bindM (liftM (SecretFromShares recv_shares)) (\<lambda>result.
         Return (d\<lparr> mMapResults := (mMapResults d)(g \<mapsto> result) \<rparr>)))
       else Return d)) gates d) (\<lambda>d. Return (st, d)))))"

end
