(* ===== verification/Online.thy ===== *)
theory Online
  imports CircuitRun
begin

text \<open>
  Correctness of the online protocol of a whole circuit. Party 0 keeps the invariant that every
  learned \<open>mu\<close> is the value of the wire minus its mask; the other parties only hold shares. The
  section headings follow the protocol: the wires that party 0 can evaluate, the input phase, one
  multiplication layer with its four rounds, the output phase, the whole run.
\<close>

section \<open>What party 0 knows\<close>

text \<open>A gate without what \<open>GetMu\<close> and the protocol write into it.\<close>

definition unlearn :: "'a::zero gate \<Rightarrow> 'a gate" where
  "unlearn G = G\<lparr> mMu := 0, mLearned := False \<rparr>"

lemma unlearn_eqD:
  assumes "unlearn G = unlearn G'"
  shows "gclass G = gclass G'" "mLeft G = mLeft G'" "mRight G = mRight G'" "mOwnerID G = mOwnerID G'"
    "mGateID G = mGateID G'" "mLambda G = mLambda G'" "mValue G = mValue G'"
  using assms by (cases G, cases G', simp add: unlearn_def)+

lemma unlearn_update [simp]: "unlearn (G\<lparr> mMu := m, mLearned := b \<rparr>) = unlearn G"
  by (simp add: unlearn_def)

definition same_gates :: "'a::zero heap \<Rightarrow> 'a heap \<Rightarrow> bool" where
  "same_gates h0 h \<longleftrightarrow> map unlearn h = map unlearn h0"

lemma same_gates_nth: "same_gates h0 h \<Longrightarrow> g < length h \<Longrightarrow> unlearn (h ! g) = unlearn (h0 ! g)"
  unfolding same_gates_def by (metis length_map nth_map)

lemma same_gates_length: "same_gates h0 h \<Longrightarrow> length h = length h0"
  unfolding same_gates_def by (metis length_map)

lemma same_gates_refl [simp]: "same_gates h h"
  by (simp add: same_gates_def)

lemma same_gates_update:
  "same_gates h0 h \<Longrightarrow> g < length h \<Longrightarrow> same_gates h0 (h[g := (h ! g)\<lparr> mMu := m, mLearned := b \<rparr>])"
  unfolding same_gates_def by (metis length_map list_update_id map_update nth_map unlearn_update)

lemma memoised_same_gates: "mu.memoised h h' \<Longrightarrow> same_gates h h'"
  unfolding same_gates_def mu.memoised_def
  by (intro nth_equalityI) (auto simp: unlearn_def dest!: spec)

text \<open>
  The wires of a circuit over the heap \<open>h0\<close>: the values \<open>v\<close> and the masks \<open>lam\<close>, both linear, the
  values multiplicative on multiplication gates, and a layer number \<open>lay\<close> that grows along
  multiplications.
\<close>

definition wires :: "'a::field heap \<Rightarrow> (nat \<Rightarrow> 'a) \<Rightarrow> (nat \<Rightarrow> 'a) \<Rightarrow> (nat \<Rightarrow> nat) \<Rightarrow> bool" where
  "wires h v lam lay \<longleftrightarrow> linear_wires h v \<and> linear_wires h lam \<and>
     (\<forall>g < length h. case gclass (h ! g) of
        AddGate \<Rightarrow> \<exists>l r. mLeft (h ! g) = Some l \<and> mRight (h ! g) = Some r \<and> l < g \<and> r < g
          \<and> lay l \<le> lay g \<and> lay r \<le> lay g
      | MultGate \<Rightarrow> \<exists>l r. mLeft (h ! g) = Some l \<and> mRight (h ! g) = Some r \<and> l < g \<and> r < g
          \<and> lay l < lay g \<and> lay r < lay g \<and> v g = v l * v r
      | PadMultGate \<Rightarrow> mLeft (h ! g) = Some g \<and> mRight (h ! g) = Some g \<and> lay g = 0
      | OutputGate \<Rightarrow> \<exists>l. mLeft (h ! g) = Some l \<and> l < g \<and> lay l \<le> lay g
      | _ \<Rightarrow> True)"

text \<open>Party 0 has learned the inputs and the multiplications of the first \<open>d\<close> layers.\<close>

definition knows :: "'a::field heap \<Rightarrow> (nat \<Rightarrow> 'a) \<Rightarrow> (nat \<Rightarrow> 'a) \<Rightarrow> (nat \<Rightarrow> nat) \<Rightarrow> nat \<Rightarrow> 'a heap \<Rightarrow> bool" where
  "knows h0 v lam lay d h \<longleftrightarrow> same_gates h0 h \<and> learned_mu h v lam \<and>
     (\<forall>g < length h. gclass (h ! g) = InputGate \<or> gclass (h ! g) = MultGate \<and> lay g \<le> d
        \<longrightarrow> mLearned (h ! g))"

lemma same_gates_fields:
  assumes "same_gates h0 h" "g < length h0"
  shows "gclass (h ! g) = gclass (h0 ! g)" "mLeft (h ! g) = mLeft (h0 ! g)" "mRight (h ! g) = mRight (h0 ! g)"
    "mOwnerID (h ! g) = mOwnerID (h0 ! g)" "mGateID (h ! g) = mGateID (h0 ! g)"
    "mLambda (h ! g) = mLambda (h0 ! g)" "mValue (h ! g) = mValue (h0 ! g)"
  using unlearn_eqD [OF same_gates_nth [OF assms(1)]] same_gates_length [OF assms(1)] assms(2) by simp_all

lemma linear_wires_same: "same_gates h0 h \<Longrightarrow> linear_wires h0 w \<Longrightarrow> linear_wires h w"
  unfolding linear_wires_def using same_gates_length [of h0 h] same_gates_fields [of h0 h] by simp

lemma wires_gate:
  assumes "wires h0 v lam lay" "same_gates h0 h" "g < length h"
  shows "gclass (h ! g) = AddGate \<Longrightarrow> \<exists>l r. mLeft (h ! g) = Some l \<and> mRight (h ! g) = Some r \<and> l < g \<and> r < g
          \<and> lay l \<le> lay g \<and> lay r \<le> lay g"
    and "gclass (h ! g) = MultGate \<Longrightarrow> \<exists>l r. mLeft (h ! g) = Some l \<and> mRight (h ! g) = Some r \<and> l < g \<and> r < g
          \<and> lay l < lay g \<and> lay r < lay g \<and> v g = v l * v r"
    and "gclass (h ! g) = PadMultGate \<Longrightarrow> mLeft (h ! g) = Some g \<and> mRight (h ! g) = Some g \<and> lay g = 0"
    and "gclass (h ! g) = OutputGate \<Longrightarrow> \<exists>l. mLeft (h ! g) = Some l \<and> l < g \<and> lay l \<le> lay g"
proof -
  have g: "g < length h0" using same_gates_length [OF assms(2)] assms(3) by simp
  note W = assms(1) [unfolded wires_def, THEN conjunct2, THEN conjunct2, rule_format, OF g]
  note f = same_gates_fields [OF assms(2) g]
  show "gclass (h ! g) = AddGate \<Longrightarrow> \<exists>l r. mLeft (h ! g) = Some l \<and> mRight (h ! g) = Some r \<and> l < g \<and> r < g
          \<and> lay l \<le> lay g \<and> lay r \<le> lay g" using W unfolding f by simp
  show "gclass (h ! g) = MultGate \<Longrightarrow> \<exists>l r. mLeft (h ! g) = Some l \<and> mRight (h ! g) = Some r \<and> l < g \<and> r < g
          \<and> lay l < lay g \<and> lay r < lay g \<and> v g = v l * v r" using W unfolding f by simp
  show "gclass (h ! g) = PadMultGate \<Longrightarrow> mLeft (h ! g) = Some g \<and> mRight (h ! g) = Some g \<and> lay g = 0"
    using W unfolding f by simp
  show "gclass (h ! g) = OutputGate \<Longrightarrow> \<exists>l. mLeft (h ! g) = Some l \<and> l < g \<and> lay l \<le> lay g"
    using W unfolding f by simp
qed

lemma knows_evals:
  assumes W: "wires h0 v lam lay" and K: "knows h0 v lam lay d h" and "g < length h" "lay g \<le> d"
  shows "evals mu_rule h g (v g - lam g)"
proof -
  have sg: "same_gates h0 h" using K by (simp add: knows_def)
  have lin: "linear_wires h v" "linear_wires h lam" "learned_mu h v lam"
    using W K linear_wires_same [OF sg] by (auto simp: wires_def knows_def)
  have "\<exists>m. evals mu_rule h g m"
    using assms(3,4)
  proof (induction g rule: less_induct)
    case (less g)
    show ?case
    proof (cases "mLearned (h ! g)")
      case True
      then have "\<exists>m. mu_rule (h ! g) = Known m" by (cases "gclass (h ! g)") (simp_all add: mu_rule_def)
      then show ?thesis using less.prems(1) by (blast intro: evals_known)
    next
      case False
      show ?thesis
      proof (cases "gclass (h ! g)")
        case AddGate
        from wires_gate(1) [OF W sg less.prems(1) this] obtain l r where
          lr: "mLeft (h ! g) = Some l" "mRight (h ! g) = Some r" "l < g" "r < g" "lay l \<le> lay g" "lay r \<le> lay g"
          by blast
        obtain x y where "evals mu_rule h l x" "evals mu_rule h r y"
          using less.IH [of l] less.IH [of r] lr less.prems by auto
        moreover have "mu_rule (h ! g) = Both (+)" using AddGate False by (simp add: mu_rule_def)
        ultimately show ?thesis using lr less.prems(1) by (blast intro: evals_both)
      next
        case OutputGate
        from wires_gate(4) [OF W sg less.prems(1) this] obtain l where
          l: "mLeft (h ! g) = Some l" "l < g" "lay l \<le> lay g" by blast
        obtain x where "evals mu_rule h l x" using less.IH [of l] l less.prems by auto
        moreover have "mu_rule (h ! g) = Parent" using OutputGate False by (simp add: mu_rule_def)
        ultimately show ?thesis using l less.prems(1) by (blast intro: evals_parent)
      next
        case InputGate
        then show ?thesis using K less.prems False by (auto simp: knows_def)
      next
        case MultGate
        then show ?thesis using K less.prems False by (auto simp: knows_def)
      next
        case PadInputGate
        then have "mu_rule (h ! g) = Known 0" by (simp add: mu_rule_def)
        then show ?thesis using less.prems(1) by (blast intro: evals_known)
      next
        case PadMultGate
        then have "mu_rule (h ! g) = Known 0" by (simp add: mu_rule_def)
        then show ?thesis using less.prems(1) by (blast intro: evals_known)
      next
        case PadOutputGate
        then have "mu_rule (h ! g) = Known 0" by (simp add: mu_rule_def)
        then show ?thesis using less.prems(1) by (blast intro: evals_known)
      qed
    qed
  qed
  then obtain m where m: "evals mu_rule h g m" ..
  with evals_mu [OF lin m] show ?thesis by simp
qed

lemma memoised_knows:
  assumes W: "wires h0 v lam lay" and K: "knows h0 v lam lay d h" and m: "mu.memoised h h'"
  shows "knows h0 v lam lay d h'"
proof -
  have sg: "same_gates h0 h" using K by (simp add: knows_def)
  have lin: "linear_wires h v" "linear_wires h lam" "learned_mu h v lam"
    using W K linear_wires_same [OF sg] by (auto simp: wires_def knows_def)
  have s: "same_gates h h'" using m by (rule memoised_same_gates)
  have l: "length h' = length h" using s by (rule same_gates_length)
  have at: "h' ! g = h ! g \<or> h' ! g = (h ! g)\<lparr> mMu := v g - lam g, mLearned := True \<rparr>" if "g < length h" for g
  proof -
    from m that consider "h' ! g = h ! g"
      | w where "evals mu_rule h g w" "h' ! g = (mMu_update (\<lambda>_. w) \<circ> mLearned_update (\<lambda>_. True)) (h ! g)"
      unfolding mu.memoised_def by blast
    then show ?thesis by cases (use evals_mu [OF lin] in auto)
  qed
  have "learned_mu h' v lam" using lin(3) at l unfolding learned_mu_def by fastforce
  moreover have "mLearned (h' ! g)" if "g < length h'" "gclass (h' ! g) = InputGate
      \<or> gclass (h' ! g) = MultGate \<and> lay g \<le> d" for g
    using K at [of g] that l by (auto simp: knows_def)
  ultimately show ?thesis using sg s unfolding knows_def by (simp add: same_gates_def)
qed

lemma knows_GetMu:
  assumes "wires h0 v lam lay" "knows h0 v lam lay d h" "g < length h" "lay g \<le> d"
  shows "\<exists>h'. GetMu h g = Some (Inr (v g - lam g, h')) \<and> knows h0 v lam lay d h'"
  using mu.get_evals [OF knows_evals [OF assms]] memoised_knows [OF assms(1,2)] by blast

section \<open>One multiplication layer\<close>

definition left_of :: "'a heap \<Rightarrow> nat \<Rightarrow> nat" where
  "left_of h g = the (mLeft (h ! g))"

definition right_of :: "'a heap \<Rightarrow> nat \<Rightarrow> nat" where
  "right_of h g = the (mRight (h ! g))"

text \<open>The gates of a batch in the layer after \<open>d\<close> layers.\<close>

definition layer_gates :: "'a heap \<Rightarrow> (nat \<Rightarrow> nat) \<Rightarrow> nat \<Rightarrow> nat list \<Rightarrow> bool" where
  "layer_gates h lay d gs \<longleftrightarrow> (\<forall>g \<in> set gs. g < length h \<and>
     (gclass (h ! g) = MultGate \<and> lay g = Suc d \<or> gclass (h ! g) = PadMultGate))"

lemma layer_gates_parents:
  assumes "wires h0 v lam lay" "layer_gates h0 lay d gs" "g \<in> set gs"
  shows "mLeft (h0 ! g) = Some (left_of h0 g)" "mRight (h0 ! g) = Some (right_of h0 g)"
    "left_of h0 g < length h0" "right_of h0 g < length h0" "lay (left_of h0 g) \<le> d" "lay (right_of h0 g) \<le> d"
proof -
  have g: "g < length h0" "gclass (h0 ! g) = MultGate \<and> lay g = Suc d \<or> gclass (h0 ! g) = PadMultGate"
    using assms(2,3) by (auto simp: layer_gates_def)
  from g(2) wires_gate(2,3) [OF assms(1) same_gates_refl g(1)] g(1)
  show "mLeft (h0 ! g) = Some (left_of h0 g)" "mRight (h0 ! g) = Some (right_of h0 g)"
    "left_of h0 g < length h0" "right_of h0 g < length h0" "lay (left_of h0 g) \<le> d" "lay (right_of h0 g) \<le> d"
    by (auto simp: left_of_def right_of_def)
qed

lemma collect_mu_knows:
  assumes W: "wires h0 v lam lay" and K: "knows h0 v lam lay d h" and G: "layer_gates h0 lay d gs"
  shows "\<exists>h'. collect_mu gs h = Some (Inr (map (\<lambda>g. v (left_of h0 g) - lam (left_of h0 g)) gs,
      map (\<lambda>g. v (right_of h0 g) - lam (right_of h0 g)) gs, h')) \<and> knows h0 v lam lay d h'"
proof -
  let ?f = "\<lambda>g (mu_alpha, mu_beta, h).
     bindP (liftP (vget h g)) (\<lambda>G. bindP (liftP (deref (mLeft G))) (\<lambda>l. bindP (GetMu h l) (\<lambda>(a, h).
     bindP (liftP (vget h g)) (\<lambda>G. bindP (liftP (deref (mRight G))) (\<lambda>r. bindP (GetMu h r) (\<lambda>(b, h).
     retP (mu_alpha @ [a], mu_beta @ [b], h)))))))"
  have "\<exists>h'. foldP ?f gs' (xs, ys, h) = Some (Inr (xs @ map (\<lambda>g. v (left_of h0 g) - lam (left_of h0 g)) gs',
      ys @ map (\<lambda>g. v (right_of h0 g) - lam (right_of h0 g)) gs', h')) \<and> knows h0 v lam lay d h'"
    if "set gs' \<subseteq> set gs" "knows h0 v lam lay d h" for gs' xs ys h
    using that
  proof (induction gs' arbitrary: xs ys h)
    case Nil
    then show ?case by (simp add: retP_def)
  next
    case (Cons g gs')
    then have g: "g \<in> set gs" by simp
    note par = layer_gates_parents [OF W G g]
    have gl: "g < length h0" using G g by (auto simp: layer_gates_def)
    have len: "length h = length h0" if "knows h0 v lam lay d h" for h
      using that by (simp add: knows_def same_gates_length)
    have links: "mLeft (h ! g) = Some (left_of h0 g)" "mRight (h ! g) = Some (right_of h0 g)"
      if "knows h0 v lam lay d h" for h
      using that par same_gates_fields [of h0 h g] gl by (auto simp: knows_def)
    obtain h1 where h1: "GetMu h (left_of h0 g) = Some (Inr (v (left_of h0 g) - lam (left_of h0 g), h1))"
      "knows h0 v lam lay d h1"
      using knows_GetMu [OF W Cons.prems(2)] par(3,5) len [OF Cons.prems(2)] by auto
    obtain h2 where h2: "GetMu h1 (right_of h0 g) = Some (Inr (v (right_of h0 g) - lam (right_of h0 g), h2))"
      "knows h0 v lam lay d h2"
      using knows_GetMu [OF W h1(2)] par(4,6) len [OF h1(2)] by auto
    have "?f g (xs, ys, h) = Some (Inr (xs @ [v (left_of h0 g) - lam (left_of h0 g)],
        ys @ [v (right_of h0 g) - lam (right_of h0 g)], h2))"
      using links [OF Cons.prems(2)] links [OF h1(2)] h1 h2 gl len [OF Cons.prems(2)] len [OF h1(2)]
      by (simp add: deref_def retP_def)
    with Cons.IH [OF _ h2(2), of "xs @ [v (left_of h0 g) - lam (left_of h0 g)]"
        "ys @ [v (right_of h0 g) - lam (right_of h0 g)]"] Cons.prems(1)
    show ?case by simp
  qed
  from this [of gs h "[]" "[]"] K show ?thesis by (simp add: collect_mu_def)
qed

text \<open>What the four rounds leave of a batch: all but the PRG and the received shares.\<close>

definition batch_core :: "('a, 'g) mult_batch
    \<Rightarrow> nat \<times> nat list \<times> 'a \<times> 'a \<times> 'a \<times> nat option \<times> nat" where
  "batch_core b = (mbSize b, mbGates b, mbShrLambdaA b, mbShrLambdaB b, mbShrDeltaC b, mbID b, mbParties b)"

lemma batch_core_updates [simp]:
  "batch_core (b\<lparr> mbPRG := g \<rparr>) = batch_core b"
  "batch_core (b\<lparr> mbShrMuA := x, mbShrMuB := y \<rparr>) = batch_core b"
  by (simp_all add: batch_core_def)

text \<open>
  The preprocessing of one batch, as all parties hold it: party \<open>i\<close> has the shares at its point of
  polynomials whose values at the secret points are the masks of the parents and \<open>delta\<close>.
\<close>

definition batch_prepared :: "nat \<Rightarrow> nat \<Rightarrow> 'a::field heap \<Rightarrow> (nat \<Rightarrow> 'a) \<Rightarrow> nat list
    \<Rightarrow> ('a \<Rightarrow> 'a) \<Rightarrow> ('a \<Rightarrow> 'a) \<Rightarrow> ('a \<Rightarrow> 'a) \<Rightarrow> bool" where
  "batch_prepared n k h0 lam gs fA fB fD \<longleftrightarrow> length gs = k \<and>
     polyfun (n - k + 1) fA \<and> polyfun (n - k + 1) fB \<and> polyfun n fD \<and>
     (\<forall>j<k. fA (secret_point j) = lam (left_of h0 (gs ! j)) \<and> fB (secret_point j) = lam (right_of h0 (gs ! j))
        \<and> fD (secret_point j) = lam (left_of h0 (gs ! j)) * lam (right_of h0 (gs ! j)) - lam (gs ! j))"

definition party_core :: "nat \<Rightarrow> nat \<Rightarrow> nat list \<Rightarrow> ('a::field \<Rightarrow> 'a) \<Rightarrow> ('a \<Rightarrow> 'a) \<Rightarrow> ('a \<Rightarrow> 'a) \<Rightarrow> nat
    \<Rightarrow> nat \<times> nat list \<times> 'a \<times> 'a \<times> 'a \<times> nat option \<times> nat" where
  "party_core n k gs fA fB fD i =
     (k, gs, fA (share_point i), fB (share_point i), fD (share_point i), Some i, n)"

text \<open>The packed sharing of the masked values of the parents, and the product polynomial.\<close>

definition mu_fun :: "(nat \<Rightarrow> nat) \<Rightarrow> (nat \<Rightarrow> 'a::field) \<Rightarrow> (nat \<Rightarrow> 'a) \<Rightarrow> nat list \<Rightarrow> 'a \<Rightarrow> 'a" where
  "mu_fun side v lam gs = packed_fun (map (\<lambda>g. v (side g) - lam (side g)) gs)"

lemma at_mult_batchM_acts:
  assumes "p < length (sMultBatches st)" "acts n i (f (sGates st, sMultBatches st ! p)) inn out (h, b)"
  shows "acts n i (at_mult_batchM p f st) inn out (st\<lparr> sGates := h, sMultBatches := (sMultBatches st)[p := b] \<rparr>)"
  using acts_bind [OF assms(2), of "\<lambda>(h, b). Return (st\<lparr> sGates := h, sMultBatches := (sMultBatches st)[p := b] \<rparr>)"]
    acts_Return assms(1) unfolding at_mult_batchM_def by fastforce

lemma map_upt_nth: "map (\<lambda>m. f (xs ! m)) [0..<length xs] = map f xs"
  by (intro nth_equalityI) simp_all

lemma box_concat_upto: "box_concat (map (\<lambda>m. box_upto n (f m)) ms) = box_upto n (\<lambda>j. concat (map (\<lambda>m. f m j) ms))"
  by (auto simp: box_concat_def box_upto_def fun_eq_iff comp_def)

lemma box_concat_one: "box_concat (map (\<lambda>m. one_box i (f m)) ms) = one_box i (concat (map f ms))"
  by (induction ms) simp_all

text \<open>A loop over the batches of a layer.\<close>

lemma acts_over_batches:
  assumes "I 0 st" and "\<And>m st. m < length ps \<Longrightarrow> I m st \<Longrightarrow>
      ps ! m < length (sMultBatches st) \<and> (\<exists>h b. acts n i (f (sGates st, sMultBatches st ! (ps ! m))) (inn m) (out m) (h, b)
        \<and> I (Suc m) (st\<lparr> sGates := h, sMultBatches := (sMultBatches st)[ps ! m := b] \<rparr>))"
  shows "\<exists>st'. acts n i (foldM (\<lambda>p. at_mult_batchM p f) ps st) (box_concat (map inn [0..<length ps]))
      (box_concat (map out [0..<length ps])) st' \<and> I (length ps) st'"
proof (rule acts_foldM [where I = I, OF assms(1)])
  fix m st
  assume "m < length ps" "I m st"
  from assms(2) [OF this] at_mult_batchM_acts
  show "\<exists>s'. acts n i (at_mult_batchM (ps ! m) f st) (inn m) (out m) s' \<and> I (Suc m) s'" by blast
qed

subsection \<open>The four rounds\<close>

definition cores :: "nat \<Rightarrow> nat \<Rightarrow> nat set \<Rightarrow> (nat \<Rightarrow> nat list) \<Rightarrow> (nat \<Rightarrow> 'a::field \<Rightarrow> 'a) \<Rightarrow> (nat \<Rightarrow> 'a \<Rightarrow> 'a)
    \<Rightarrow> (nat \<Rightarrow> 'a \<Rightarrow> 'a) \<Rightarrow> nat \<Rightarrow> ('a, 'g) store \<Rightarrow> bool" where
  "cores n k P GS fA fB fD i st \<longleftrightarrow> (\<forall>p \<in> P. p < length (sMultBatches st) \<and>
     batch_core (sMultBatches st ! p) = party_core n k (GS p) (fA p) (fB p) (fD p) i)"

lemma coresD:
  assumes "cores n k P GS fA fB fD i st" "p \<in> P"
  shows "p < length (sMultBatches st)" "mbSize (sMultBatches st ! p) = k" "mbGates (sMultBatches st ! p) = GS p"
    "mbShrLambdaA (sMultBatches st ! p) = fA p (share_point i)" "mbShrLambdaB (sMultBatches st ! p) = fB p (share_point i)"
    "mbShrDeltaC (sMultBatches st ! p) = fD p (share_point i)" "mbID (sMultBatches st ! p) = Some i"
    "mbParties (sMultBatches st ! p) = n"
  using assms unfolding cores_def batch_core_def party_core_def by auto

lemma cores_update:
  assumes "cores n k P GS fA fB fD i st" "batch_core b = batch_core (sMultBatches st ! p)" "p \<in> P"
  shows "cores n k P GS fA fB fD i (st\<lparr> sGates := h, sMultBatches := (sMultBatches st)[p := b] \<rparr>)"
  using assms unfolding cores_def by (auto simp: nth_list_update)

text \<open>The masked shares of the operands that party \<open>j\<close> gets for batch \<open>p\<close>, and what it answers.\<close>

definition two_shares :: "'a::field heap \<Rightarrow> (nat \<Rightarrow> 'a) \<Rightarrow> (nat \<Rightarrow> 'a) \<Rightarrow> nat list \<Rightarrow> nat \<Rightarrow> 'a list" where
  "two_shares h0 v lam gs j =
     [mu_fun (left_of h0) v lam gs (share_point j), mu_fun (right_of h0) v lam gs (share_point j)]"

definition answer :: "'a::field heap \<Rightarrow> (nat \<Rightarrow> 'a) \<Rightarrow> (nat \<Rightarrow> 'a) \<Rightarrow> nat list
    \<Rightarrow> ('a \<Rightarrow> 'a) \<Rightarrow> ('a \<Rightarrow> 'a) \<Rightarrow> ('a \<Rightarrow> 'a) \<Rightarrow> 'a \<Rightarrow> 'a" where
  "answer h0 v lam gs fA fB fD =
     mu_C_fun fA fB fD (mu_fun (left_of h0) v lam gs) (mu_fun (right_of h0) v lam gs)"

text \<open>The other parties do nothing in the first and the last round.\<close>

lemma idle_rounds:
  assumes "cores n k P GS fA fB fD i st" "set (mlBatches ly) \<subseteq> P" "i \<noteq> 0"
  shows "acts n i (MultLayer_P1Sends rnd ly st) no_box no_box st"
    and "acts n i (MultLayer_P1Receives ly st) no_box no_box st"
proof -
  have at: "\<exists>h b. acts n i (MultBatch_P1Sends rnd (sGates st, sMultBatches st ! p)) no_box no_box (h, b)
      \<and> st\<lparr> sGates := h, sMultBatches := (sMultBatches st)[p := b] \<rparr> = st"
    "\<exists>h b. acts n i (MultBatch_P1Receives (sGates st, sMultBatches st ! p)) no_box no_box (h, b)
      \<and> st\<lparr> sGates := h, sMultBatches := (sMultBatches st)[p := b] \<rparr> = st"
    if "p \<in> set (mlBatches ly)" for p
    using other_party_acts [OF _ assms(3), of "sMultBatches st ! p"] coresD(7) [OF assms(1)] that assms(2)
    by (intro exI [of _ "sGates st"] exI [of _ "sMultBatches st ! p"]; force)+
  have l: "p < length (sMultBatches st)" if "p \<in> set (mlBatches ly)" for p
    using coresD(1) [OF assms(1)] that assms(2) by auto
  have "\<exists>st'. acts n i (MultLayer_P1Sends rnd ly st) (box_concat (map (\<lambda>_. no_box) [0..<length (mlBatches ly)]))
      (box_concat (map (\<lambda>_. no_box) [0..<length (mlBatches ly)])) st' \<and> st' = st"
    unfolding MultLayer_P1Sends_def
    by (rule acts_over_batches [where I = "\<lambda>m st'. st' = st"]) (use at(1) l in auto)
  then show "acts n i (MultLayer_P1Sends rnd ly st) no_box no_box st" by simp
  have "\<exists>st'. acts n i (MultLayer_P1Receives ly st) (box_concat (map (\<lambda>_. no_box) [0..<length (mlBatches ly)]))
      (box_concat (map (\<lambda>_. no_box) [0..<length (mlBatches ly)])) st' \<and> st' = st"
    unfolding MultLayer_P1Receives_def
    by (rule acts_over_batches [where I = "\<lambda>m st'. st' = st"]) (use at(2) l in auto)
  then show "acts n i (MultLayer_P1Receives ly st) no_box no_box st" by simp
qed

context point_field
begin

lemma round1:
  fixes h0 :: "'a heap" and st :: "('a, 'g) store"
  assumes W: "wires h0 v lam lay" and n: "0 < n" "0 < k" "k < 2 ^ 31"
    and C: "cores n k P GS fA fB fD 0 st" and ly: "set (mlBatches ly) \<subseteq> P"
    and G: "\<And>p. p \<in> P \<Longrightarrow> length (GS p) = k" "\<And>p. p \<in> set (mlBatches ly) \<Longrightarrow> layer_gates h0 lay d (GS p)"
    and K: "knows h0 v lam lay d (sGates st)"
  shows "\<exists>st'. acts n 0 (MultLayer_P1Sends rnd ly st) no_box
      (box_upto n (\<lambda>j. concat (map (\<lambda>p. two_shares h0 v lam (GS p) j) (mlBatches ly)))) st'
    \<and> cores n k P GS fA fB fD 0 st' \<and> knows h0 v lam lay d (sGates st')"
proof -
  let ?ps = "mlBatches ly"
  have "\<exists>st'. acts n 0 (MultLayer_P1Sends rnd ly st) (box_concat (map (\<lambda>_. no_box) [0..<length ?ps]))
      (box_concat (map (\<lambda>m. box_upto n (two_shares h0 v lam (GS (?ps ! m)))) [0..<length ?ps])) st'
    \<and> (cores n k P GS fA fB fD 0 st' \<and> knows h0 v lam lay d (sGates st'))"
    unfolding MultLayer_P1Sends_def
  proof (rule acts_over_batches)
    fix m and st :: "('a, 'g) store"
    let ?p = "?ps ! m"
    assume m: "m < length ?ps" and I: "cores n k P GS fA fB fD 0 st \<and> knows h0 v lam lay d (sGates st)"
    then have p: "?p \<in> set ?ps" "?p \<in> P" using ly by auto
    let ?b = "sMultBatches st ! ?p"
    note c = coresD [OF I [THEN conjunct1] p(2)]
    obtain h' where h': "collect_mu (GS ?p) (sGates st) = Some (Inr
        (map (\<lambda>g. v (left_of h0 g) - lam (left_of h0 g)) (GS ?p),
         map (\<lambda>g. v (right_of h0 g) - lam (right_of h0 g)) (GS ?p), h'))" "knows h0 v lam lay d h'"
      using collect_mu_knows [OF W I [THEN conjunct2] G(2) [OF p(1)]] by blast
    obtain prg' where a: "acts n 0 (MultBatch_P1Sends rnd (sGates st, ?b)) no_box
        (box_upto n (two_shares h0 v lam (GS ?p))) (h', ?b\<lparr> mbPRG := prg' \<rparr>)"
      using P1Sends_acts [OF c(7,8,2) n(2,3,1), of "sGates st", unfolded c(3), OF h'(1)] G(1) [OF p(2)]
      by (auto simp: two_shares_def [abs_def] mu_fun_def)
    have "cores n k P GS fA fB fD 0 (st\<lparr> sGates := h', sMultBatches := (sMultBatches st)[?p := ?b\<lparr> mbPRG := prg' \<rparr>] \<rparr>)"
      using I p(2) by (intro cores_update) simp_all
    with a h'(2) c(1) show "?p < length (sMultBatches st) \<and> (\<exists>h b. acts n 0 (MultBatch_P1Sends rnd (sGates st, ?b))
        no_box (box_upto n (two_shares h0 v lam (GS ?p))) (h, b) \<and>
        cores n k P GS fA fB fD 0 (st\<lparr> sGates := h, sMultBatches := (sMultBatches st)[?p := b] \<rparr>) \<and>
        knows h0 v lam lay d (sGates (st\<lparr> sGates := h, sMultBatches := (sMultBatches st)[?p := b] \<rparr>)))"
      by (intro conjI exI [of _ h'] exI [of _ "?b\<lparr> mbPRG := prg' \<rparr>"]) simp_all
  qed (use C K in simp)
  moreover have "(\<lambda>j. concat (map (\<lambda>m. two_shares h0 v lam (GS (?ps ! m)) j) [0..<length ?ps]))
      = (\<lambda>j. concat (map (\<lambda>p. two_shares h0 v lam (GS p) j) ?ps))"
    using map_upt_nth [of "\<lambda>p. two_shares h0 v lam (GS p) _" ?ps] by (intro ext arg_cong [where f = concat]) simp
  ultimately show ?thesis by (simp add: box_concat_upto)
qed

end

lemma round2:
  assumes n: "0 < n" "i < n" and C: "cores n k P GS fA fB fD i st" and ly: "set (mlBatches ly) \<subseteq> P" "distinct (mlBatches ly)"
  shows "\<exists>st'. acts n i (MultLayer_PartiesReceive ly st)
      (one_box 0 (concat (map (\<lambda>p. two_shares h0 v lam (GS p) i) (mlBatches ly)))) no_box st'
    \<and> cores n k P GS fA fB fD i st' \<and> sGates st' = sGates st
    \<and> (\<forall>p \<in> set (mlBatches ly). [mbShrMuA (sMultBatches st' ! p), mbShrMuB (sMultBatches st' ! p)]
         = two_shares h0 v lam (GS p) i)"
proof -
  let ?ps = "mlBatches ly" and ?S = "\<lambda>p. two_shares h0 v lam (GS p) i"
  let ?I = "\<lambda>m st'. cores n k P GS fA fB fD i st' \<and> sGates st' = sGates st
    \<and> (\<forall>q<m. [mbShrMuA (sMultBatches st' ! (?ps ! q)), mbShrMuB (sMultBatches st' ! (?ps ! q))] = ?S (?ps ! q))"
  have "\<exists>st'. acts n i (MultLayer_PartiesReceive ly st)
      (box_concat (map (\<lambda>m. one_box 0 (?S (?ps ! m))) [0..<length ?ps]))
      (box_concat (map (\<lambda>_. no_box) [0..<length ?ps])) st' \<and> ?I (length ?ps) st'"
    unfolding MultLayer_PartiesReceive_def
  proof (rule acts_over_batches)
    fix m st1
    let ?p = "?ps ! m"
    assume m: "m < length ?ps" and I: "?I m st1"
    then have p: "?p \<in> P" using ly by auto
    let ?b = "sMultBatches st1 ! ?p"
    note c = coresD [OF I [THEN conjunct1] p]
    let ?x = "mu_fun (left_of h0) v lam (GS ?p) (share_point i)" and ?y = "mu_fun (right_of h0) v lam (GS ?p) (share_point i)"
    let ?b' = "?b\<lparr> mbShrMuA := ?x, mbShrMuB := ?y \<rparr>"
    have a: "acts n i (MultBatch_PartiesReceive (sGates st1, ?b)) (one_box 0 (?S ?p)) no_box (sGates st1, ?b')"
      using PartiesReceive_acts [OF c(7) n(2)] by (simp add: two_shares_def)
    have "?I (Suc m) (st1\<lparr> sGates := sGates st1, sMultBatches := (sMultBatches st1)[?p := ?b'] \<rparr>)"
    proof (intro conjI allI impI)
      show "cores n k P GS fA fB fD i (st1\<lparr> sGates := sGates st1, sMultBatches := (sMultBatches st1)[?p := ?b'] \<rparr>)"
        using I p by (intro cores_update) simp_all
      fix q
      assume q: "q < Suc m"
      have "?p \<noteq> ?ps ! q \<and> q < m" if "q \<noteq> m" using ly(2) q m that by (simp add: nth_eq_iff_index_eq)
      then show "[mbShrMuA (sMultBatches (st1\<lparr> sGates := sGates st1, sMultBatches := (sMultBatches st1)[?p := ?b'] \<rparr>) ! (?ps ! q)),
          mbShrMuB (sMultBatches (st1\<lparr> sGates := sGates st1, sMultBatches := (sMultBatches st1)[?p := ?b'] \<rparr>) ! (?ps ! q))]
          = ?S (?ps ! q)"
        using I q c(1) by (cases "q = m") (simp_all add: two_shares_def)
    qed (use I in simp)
    with a c(1) show "?p < length (sMultBatches st1) \<and> (\<exists>h b. acts n i (MultBatch_PartiesReceive (sGates st1, ?b))
        (one_box 0 (?S ?p)) no_box (h, b) \<and> ?I (Suc m) (st1\<lparr> sGates := h, sMultBatches := (sMultBatches st1)[?p := b] \<rparr>))"
      by (intro conjI exI [of _ "sGates st1"] exI [of _ ?b']) (elim conjE, assumption)+
  qed (use C in simp)
  then obtain st' where st': "acts n i (MultLayer_PartiesReceive ly st)
      (box_concat (map (\<lambda>m. one_box 0 (?S (?ps ! m))) [0..<length ?ps]))
      (box_concat (map (\<lambda>_. no_box) [0..<length ?ps])) st'" "?I (length ?ps) st'" by blast
  have "acts n i (MultLayer_PartiesReceive ly st) (one_box 0 (concat (map ?S ?ps))) no_box st'"
    using st'(1) map_upt_nth [of ?S ?ps] by (simp add: box_concat_one)
  moreover have "[mbShrMuA (sMultBatches st' ! p), mbShrMuB (sMultBatches st' ! p)] = ?S p" if "p \<in> set ?ps" for p
    using st'(2) that by (auto simp: in_set_conv_nth)
  ultimately show ?thesis using st'(2) by blast
qed

lemma round3:
  assumes n: "0 < n" "i < n" and C: "cores n k P GS fA fB fD i st" and ly: "set (mlBatches ly) \<subseteq> P"
    and S: "\<And>p. p \<in> set (mlBatches ly) \<Longrightarrow>
      [mbShrMuA (sMultBatches st ! p), mbShrMuB (sMultBatches st ! p)] = two_shares h0 v lam (GS p) i"
  shows "acts n i (MultLayer_PartiesSend ly st) no_box
    (one_box 0 (map (\<lambda>p. answer h0 v lam (GS p) (fA p) (fB p) (fD p) (share_point i)) (mlBatches ly))) st"
proof -
  let ?ps = "mlBatches ly" and ?C = "\<lambda>p. answer h0 v lam (GS p) (fA p) (fB p) (fD p) (share_point i)"
  have "\<exists>st'. acts n i (MultLayer_PartiesSend ly st) (box_concat (map (\<lambda>_. no_box) [0..<length ?ps]))
      (box_concat (map (\<lambda>m. one_box 0 [?C (?ps ! m)]) [0..<length ?ps])) st' \<and> st' = st"
    unfolding MultLayer_PartiesSend_def
  proof (rule acts_over_batches [where I = "\<lambda>m st'. st' = st"])
    fix m st'
    let ?p = "?ps ! m"
    assume m: "m < length ?ps" and st': "st' = st"
    then have p: "?p \<in> set ?ps" "?p \<in> P" using ly by auto
    let ?b = "sMultBatches st ! ?p"
    note c = coresD [OF C p(2)]
    have "mu_C_share ?b = ?C ?p"
      using S [OF p(1)] by (simp add: mu_C_share_def c answer_def mu_C_fun_def two_shares_def)
    then have "acts n i (MultBatch_PartiesSend (sGates st, ?b)) no_box (one_box 0 [?C ?p]) (sGates st, ?b)"
      using PartiesSend_acts [OF c(7) n(2), of "sGates st"] by simp
    then show "?p < length (sMultBatches st') \<and> (\<exists>h b. acts n i (MultBatch_PartiesSend (sGates st', sMultBatches st' ! ?p))
        no_box (one_box 0 [?C ?p]) (h, b) \<and> st'\<lparr> sGates := h, sMultBatches := (sMultBatches st')[?p := b] \<rparr> = st)"
      unfolding st' using c(1) by (intro conjI exI [of _ "sGates st"] exI [of _ ?b]) simp_all
  qed simp
  then show ?thesis using map_upt_nth [of "\<lambda>p. [?C p]" ?ps] by (simp add: box_concat_one)
qed

text \<open>The value that party 0 reconstructs for gate \<open>j\<close> of a batch.\<close>

lemma mult_value:
  assumes W: "wires h0 v lam lay" and G: "layer_gates h0 lay d gs" and "batch_prepared n k h0 lam gs fA fB fD" and j: "j < k"
  shows "mult_result fA fB fD (v (left_of h0 (gs ! j)) - lam (left_of h0 (gs ! j)))
      (v (right_of h0 (gs ! j)) - lam (right_of h0 (gs ! j))) j = v (gs ! j) - lam (gs ! j)"
proof -
  let ?g = "gs ! j"
  have B: "length gs = k" "fA (secret_point j) = lam (left_of h0 ?g)" "fB (secret_point j) = lam (right_of h0 ?g)"
    "fD (secret_point j) = lam (left_of h0 ?g) * lam (right_of h0 ?g) - lam ?g"
    using assms(3) j by (simp_all add: batch_prepared_def)
  have g: "?g < length h0" "gclass (h0 ! ?g) = MultGate \<or> gclass (h0 ! ?g) = PadMultGate"
    using G B(1) j by (auto simp: layer_gates_def)
  have "v (left_of h0 ?g) * v (right_of h0 ?g) = v ?g"
    using g(2)
  proof
    assume "gclass (h0 ! ?g) = MultGate"
    then show ?thesis
      using wires_gate(2) [OF W same_gates_refl g(1)] by (auto simp: left_of_def right_of_def)
  next
    assume pad: "gclass (h0 ! ?g) = PadMultGate"
    then have "v ?g = 0" using W g(1) by (simp add: wires_def linear_wires_def)
    then show ?thesis
      using wires_gate(3) [OF W same_gates_refl g(1) pad] by (simp add: left_of_def right_of_def)
  qed
  then show ?thesis by (simp add: mult_result_def B algebra_simps)
qed

context point_field
begin

lemma answer_polyfun:
  assumes "batch_prepared n k h0 lam gs fA fB fD" "0 < k" "2 * k - 1 \<le> n"
  shows "polyfun n (answer h0 v lam gs fA fB fD)"
  unfolding answer_def
  using assms packed_fun_polyfun [of "map (\<lambda>g. v (left_of h0 g) - lam (left_of h0 g)) gs"]
    packed_fun_polyfun [of "map (\<lambda>g. v (right_of h0 g) - lam (right_of h0 g)) gs"]
  by (intro mu_C_fun_polyfun [where k = k]) (auto simp: batch_prepared_def mu_fun_def)

lemma answer_secret:
  fixes h0 :: "'a heap"
  assumes W: "wires h0 v lam lay" and G: "layer_gates h0 lay d gs" and B: "batch_prepared n k h0 lam gs fA fB fD"
    and j: "j < k" "k < 2 ^ 31"
  shows "answer h0 v lam gs fA fB fD (secret_point j) = v (gs ! j) - lam (gs ! j)"
proof -
  have k: "length gs = k" using B by (simp add: batch_prepared_def)
  have "answer h0 v lam gs fA fB fD (secret_point j)
      = mult_result fA fB fD (v (left_of h0 (gs ! j)) - lam (left_of h0 (gs ! j)))
      (v (right_of h0 (gs ! j)) - lam (right_of h0 (gs ! j))) j"
    unfolding answer_def using j k by (intro mu_C_fun_result) (simp_all add: mu_fun_def packed_fun_at)
  then show ?thesis using mult_value [OF W G B j(1)] by simp
qed

lemma knows_write:
  fixes h0 :: "'a heap"
  assumes W: "wires h0 v lam lay" and K: "knows h0 v lam lay d h" and l: "length h' = length h"
    and at: "\<And>g. g < length h \<Longrightarrow> h' ! g = h ! g \<or> h' ! g = (h ! g)\<lparr> mMu := v g - lam g, mLearned := True \<rparr>"
  shows "knows h0 v lam lay d h'"
proof -
  have "same_gates h h'" unfolding same_gates_def
    using l at by (intro nth_equalityI) (auto dest!: at)
  then have "same_gates h0 h'" using K by (simp add: knows_def same_gates_def)
  moreover have "learned_mu h' v lam"
    using K at l unfolding knows_def learned_mu_def by (metis (no_types, lifting) gate.select_convs(7)
        gate.surjective gate.update_convs(2) gate.update_convs(7))
  moreover have "mLearned (h' ! g)" if "g < length h'" "gclass (h' ! g) = InputGate
      \<or> gclass (h' ! g) = MultGate \<and> lay g \<le> d" for g
    using K at [of g] that l by (auto simp: knows_def)
  ultimately show ?thesis by (simp add: knows_def)
qed

lemma round4:
  fixes h0 :: "'a heap" and st :: "('a, 'g) store"
  assumes W: "wires h0 v lam lay" and n: "0 < n" "n < 2 ^ 31" "0 < k" "2 * k - 1 \<le> n"
    and C: "cores n k P GS fA fB fD 0 st" and ly: "set (mlBatches ly) \<subseteq> P"
    and B: "\<And>p. p \<in> P \<Longrightarrow> batch_prepared n k h0 lam (GS p) (fA p) (fB p) (fD p)"
    and G: "\<And>p. p \<in> set (mlBatches ly) \<Longrightarrow> layer_gates h0 lay d (GS p)"
    and K: "knows h0 v lam lay d (sGates st)"
  shows "\<exists>st'. acts n 0 (MultLayer_P1Receives ly st)
      (box_upto n (\<lambda>j. map (\<lambda>p. answer h0 v lam (GS p) (fA p) (fB p) (fD p) (share_point j)) (mlBatches ly))) no_box st'
    \<and> cores n k P GS fA fB fD 0 st' \<and> knows h0 v lam lay d (sGates st')
    \<and> (\<forall>p \<in> set (mlBatches ly). \<forall>g \<in> set (GS p). mLearned (sGates st' ! g))"
proof -
  let ?ps = "mlBatches ly" and ?C = "\<lambda>p. answer h0 v lam (GS p) (fA p) (fB p) (fD p)"
  let ?I = "\<lambda>m st'. cores n k P GS fA fB fD 0 st' \<and> knows h0 v lam lay d (sGates st')
    \<and> (\<forall>q<m. \<forall>g \<in> set (GS (?ps ! q)). mLearned (sGates st' ! g))"
  have k: "k < 2 ^ 31" using n by simp
  have "\<exists>st'. acts n 0 (MultLayer_P1Receives ly st)
      (box_concat (map (\<lambda>m. box_upto n (\<lambda>j. [?C (?ps ! m) (share_point j)])) [0..<length ?ps]))
      (box_concat (map (\<lambda>_. no_box) [0..<length ?ps])) st' \<and> ?I (length ?ps) st'"
    unfolding MultLayer_P1Receives_def
  proof (rule acts_over_batches)
    fix m and st :: "('a, 'g) store"
    let ?p = "?ps ! m"
    assume m: "m < length ?ps" and I: "?I m st"
    then have p: "?p \<in> set ?ps" "?p \<in> P" using ly by auto
    let ?b = "sMultBatches st ! ?p"
    note c = coresD [OF I [THEN conjunct1] p(2)]
    have K: "knows h0 v lam lay d (sGates st)" using I by blast
    have len: "length (sGates st) = length h0" using K by (simp add: knows_def same_gates_length)
    have gs: "length (GS ?p) = k" using B [OF p(2)] by (simp add: batch_prepared_def)
    have in_heap: "g < length (sGates st)" if "g \<in> set (GS ?p)" for g
      using G [OF p(1)] that len by (auto simp: layer_gates_def)
    obtain h' where h': "acts n 0 (MultBatch_P1Receives (sGates st, ?b)) (box_upto n (\<lambda>j. [?C ?p (share_point j)])) no_box (h', ?b)"
      "length h' = length (sGates st)" "\<And>g. g < length (sGates st) \<Longrightarrow> if g \<in> set (GS ?p)
        then \<exists>j<k. GS ?p ! j = g \<and> h' ! g = (sGates st ! g)\<lparr> mMu := ?C ?p (secret_point j), mLearned := True \<rparr>
        else h' ! g = sGates st ! g"
      using P1Receives_acts [OF c(7,8,2) _ n(1,2) answer_polyfun [OF B [OF p(2)] n(3,4)], of "sGates st"]
        in_heap gs unfolding c(3) by blast
    have at: "h' ! g = (if g \<in> set (GS ?p) then (sGates st ! g)\<lparr> mMu := v g - lam g, mLearned := True \<rparr>
        else sGates st ! g)" if "g < length (sGates st)" for g
      using h'(3) [OF that] answer_secret [OF W G [OF p(1)] B [OF p(2)] _ k] by (auto split: if_splits)
    have K': "knows h0 v lam lay d h'"
      by (rule knows_write [OF W K h'(2)]) (use at in auto)
    have L: "mLearned (h' ! g)" if "q < Suc m" "g \<in> set (GS (?ps ! q))" for q g
    proof (cases "q = m")
      case True
      then show ?thesis using at [of g] in_heap that by simp
    next
      case False
      then have q: "q < m" "?ps ! q \<in> set ?ps" using that m by auto
      then have "g < length (sGates st)" using G [OF q(2)] that(2) len by (auto simp: layer_gates_def)
      then show ?thesis using at [of g] I q(1) that(2) by auto
    qed
    have "cores n k P GS fA fB fD 0 (st\<lparr> sGates := h', sMultBatches := (sMultBatches st)[?p := ?b] \<rparr>)"
      using I p(2) by (intro cores_update) simp_all
    then have "?I (Suc m) (st\<lparr> sGates := h', sMultBatches := (sMultBatches st)[?p := ?b] \<rparr>)"
      using K' L by simp
    with h'(1) c(1) show "?p < length (sMultBatches st) \<and> (\<exists>h b. acts n 0 (MultBatch_P1Receives (sGates st, ?b))
        (box_upto n (\<lambda>j. [?C ?p (share_point j)])) no_box (h, b)
        \<and> ?I (Suc m) (st\<lparr> sGates := h, sMultBatches := (sMultBatches st)[?p := b] \<rparr>))"
      by (intro conjI exI [of _ h'] exI [of _ ?b]) (elim conjE, assumption)+
  qed (use C K in simp)
  then obtain st' where st': "acts n 0 (MultLayer_P1Receives ly st)
      (box_concat (map (\<lambda>m. box_upto n (\<lambda>j. [?C (?ps ! m) (share_point j)])) [0..<length ?ps])) no_box st'"
    "?I (length ?ps) st'" by auto
  have "(\<lambda>j. concat (map (\<lambda>m. [?C (?ps ! m) (share_point j)]) [0..<length ?ps]))
      = (\<lambda>j. map (\<lambda>p. ?C p (share_point j)) ?ps)"
    using map_upt_nth [of "\<lambda>p. ?C p (share_point _)" ?ps] by (intro ext) simp
  then have "acts n 0 (MultLayer_P1Receives ly st) (box_upto n (\<lambda>j. map (\<lambda>p. ?C p (share_point j)) ?ps)) no_box st'"
    using st'(1) by (simp add: box_concat_upto)
  moreover have "mLearned (sGates st' ! g)" if "p \<in> set ?ps" "g \<in> set (GS p)" for p g
  proof -
    from that(1) obtain q where "q < length ?ps" "p = ?ps ! q" unfolding in_set_conv_nth by blast
    with st'(2) that(2) show ?thesis by blast
  qed
  ultimately show ?thesis using st'(2) by blast
qed

end

end
