(* ===== verification/OnlineRun.thy ===== *)
theory OnlineRun
  imports Online
begin

text \<open>
  The whole online protocol of a circuit: one layer of multiplications for all parties, the input
  and the output phase, and \<open>RunProtocol\<close>. Each phase is a function of the messages it reads and
  writes, so that the phases compose for every order in which the parties take their steps.
\<close>

section \<open>A multiplication layer for all parties\<close>

lemma on_layer_acts:
  assumes "layer < length (mMultLayers c)" "acts n i (f (mMultLayers c ! layer) st) inn out st'"
  shows "acts n i (on_layer f layer (st, c)) inn out (st', c)"
  using acts_bind [OF assms(2), of "\<lambda>st. Return (st, c)"] acts_Return assms(1)
  unfolding on_layer_def by fastforce

context point_field
begin

lemma RunMult_phase:
  fixes h0 :: "'a heap" and st :: "nat \<Rightarrow> ('a, 'g) store"
  assumes W: "wires h0 v lam lay" and n: "0 < n" "n < 2 ^ 31" "0 < k" "2 * k - 1 \<le> n"
    and L: "\<And>i. i < n \<Longrightarrow> layer < length (mMultLayers (c i)) \<and> mlBatches (mMultLayers (c i) ! layer) = ps"
    and ps: "set ps \<subseteq> P" "distinct ps"
    and C: "\<And>i. i < n \<Longrightarrow> cores n k P GS fA fB fD i (st i)"
    and B: "\<And>p. p \<in> P \<Longrightarrow> batch_prepared n k h0 lam (GS p) (fA p) (fB p) (fD p)"
    and G: "\<And>p. p \<in> set ps \<Longrightarrow> layer_gates h0 lay d (GS p)"
    and all: "\<And>g. g < length h0 \<Longrightarrow> gclass (h0 ! g) = MultGate \<Longrightarrow> lay g = Suc d \<Longrightarrow> \<exists>p \<in> set ps. g \<in> set (GS p)"
    and K: "knows h0 v lam lay d (sGates (st 0))"
  shows "\<exists>st'. phase n (\<lambda>i. RunMult rnd layer (st i, c i)) no_messages no_messages (\<lambda>i. (st' i, c i))
    \<and> (\<forall>i<n. cores n k P GS fA fB fD i (st' i)) \<and> knows h0 v lam lay (Suc d) (sGates (st' 0))
    \<and> (\<forall>i<n. i \<noteq> 0 \<longrightarrow> sGates (st' i) = sGates (st i))"
proof -
  let ?ly = "\<lambda>i. mMultLayers (c i) ! layer"
  have k: "k < 2 ^ 31" using n by simp
  have ly: "layer < length (mMultLayers (c i))" "mlBatches (?ly i) = ps" if "i < n" for i
    using L [OF that] by simp_all
  let ?two = "\<lambda>j. concat (map (\<lambda>p. two_shares h0 v lam (GS p) j) ps)"
  let ?one = "\<lambda>j. map (\<lambda>p. answer h0 v lam (GS p) (fA p) (fB p) (fD p) (share_point j)) ps"
  obtain s1 where s1: "acts n 0 (MultLayer_P1Sends rnd (?ly 0) (st 0)) no_box (box_upto n ?two) s1"
    "cores n k P GS fA fB fD 0 s1" "knows h0 v lam lay d (sGates s1)"
    using round1 [OF W n(1,3) k C [OF n(1)], of "?ly 0" d rnd] ly [OF n(1)] ps(1) B G K
    by (auto simp: batch_prepared_def)
  define x1 where "x1 i = (if i = 0 then s1 else st i)" for i
  have C1: "cores n k P GS fA fB fD i (x1 i)" if "i < n" for i
    using C [OF that] s1(2) by (simp add: x1_def)
  have ph1: "phase n (\<lambda>i. MultP1Sends rnd layer (st i, c i)) no_messages (from_0 n ?two) (\<lambda>i. (x1 i, c i))"
  proof (rule phase_acts)
    fix i
    assume i: "i < n"
    show "acts n i (MultP1Sends rnd layer (st i, c i)) (\<lambda>k. no_messages k i) (from_0 n ?two i) (x1 i, c i)"
      unfolding MultP1Sends_def
      by (rule on_layer_acts)
        (use s1(1) idle_rounds(1) [OF C [OF i]] ly [OF i] ps(1) in \<open>cases "i = 0";
          simp add: no_messages_simps from_0_simps x1_def\<close>)+
  qed (use n in \<open>simp_all add: no_messages_simps from_0_simps\<close>)
  have "\<exists>st'. acts n i (MultLayer_PartiesReceive (?ly i) (x1 i)) (one_box 0 (?two i)) no_box st'
      \<and> cores n k P GS fA fB fD i st' \<and> sGates st' = sGates (x1 i)
      \<and> (\<forall>p \<in> set ps. [mbShrMuA (sMultBatches st' ! p), mbShrMuB (sMultBatches st' ! p)]
           = two_shares h0 v lam (GS p) i)" if "i < n" for i
    using round2 [OF n(1) that C1 [OF that], of "?ly i"] ly [OF that] ps by simp
  then obtain x2 where x2: "acts n i (MultLayer_PartiesReceive (?ly i) (x1 i)) (one_box 0 (?two i)) no_box (x2 i)"
      "cores n k P GS fA fB fD i (x2 i)" "sGates (x2 i) = sGates (x1 i)"
      "p \<in> set ps \<Longrightarrow> [mbShrMuA (sMultBatches (x2 i) ! p), mbShrMuB (sMultBatches (x2 i) ! p)]
           = two_shares h0 v lam (GS p) i" if "i < n" for i p
    by metis
  have ph2: "phase n (\<lambda>i. MultPartiesReceive layer (x1 i, c i)) (from_0 n ?two) no_messages (\<lambda>i. (x2 i, c i))"
  proof (rule phase_acts)
    fix i
    assume i: "i < n"
    show "acts n i (MultPartiesReceive layer (x1 i, c i)) (\<lambda>k. from_0 n ?two k i) (no_messages i) (x2 i, c i)"
      unfolding MultPartiesReceive_def
      by (rule on_layer_acts) (use x2(1) [OF i] ly(1) [OF i] i in \<open>simp_all add: no_messages_simps from_0_simps\<close>)
  qed (use n in \<open>simp_all add: no_messages_simps from_0_simps\<close>)
  have ph3: "phase n (\<lambda>i. MultPartiesSend layer (x2 i, c i)) no_messages (to_0 n ?one) (\<lambda>i. (x2 i, c i))"
  proof (rule phase_acts)
    fix i
    assume i: "i < n"
    have "acts n i (MultLayer_PartiesSend (?ly i) (x2 i)) no_box (one_box 0 (?one i)) (x2 i)"
      using round3 [OF n(1) i x2(2) [OF i], of "?ly i"] x2(4) [OF i] ly [OF i] ps(1) by simp
    then show "acts n i (MultPartiesSend layer (x2 i, c i)) (\<lambda>k. no_messages k i) (to_0 n ?one i) (x2 i, c i)"
      unfolding MultPartiesSend_def
      by (intro on_layer_acts) (use ly(1) [OF i] i in \<open>simp_all add: no_messages_simps from_0_simps\<close>)
  qed (use n in \<open>simp_all add: no_messages_simps from_0_simps\<close>)
  have K2: "knows h0 v lam lay d (sGates (x2 0))" using s1(3) x2(3) [OF n(1)] by (simp add: x1_def)
  obtain s4 where s4: "acts n 0 (MultLayer_P1Receives (?ly 0) (x2 0)) (box_upto n ?one) no_box s4"
    "cores n k P GS fA fB fD 0 s4" "knows h0 v lam lay d (sGates s4)"
    "\<And>p g. p \<in> set ps \<Longrightarrow> g \<in> set (GS p) \<Longrightarrow> mLearned (sGates s4 ! g)"
    using round4 [OF W n x2(2) [OF n(1)], of "?ly 0" d] ly [OF n(1)] ps(1) B G K2 by auto
  define x4 where "x4 i = (if i = 0 then s4 else x2 i)" for i
  have ph4: "phase n (\<lambda>i. MultP1Receives layer (x2 i, c i)) (to_0 n ?one) no_messages (\<lambda>i. (x4 i, c i))"
  proof (rule phase_acts)
    fix i
    assume i: "i < n"
    show "acts n i (MultP1Receives layer (x2 i, c i)) (\<lambda>k. to_0 n ?one k i) (no_messages i) (x4 i, c i)"
      unfolding MultP1Receives_def
      by (rule on_layer_acts)
        (use s4(1) idle_rounds(2) [OF x2(2) [OF i]] ly [OF i] ps(1) in \<open>cases "i = 0";
          simp add: no_messages_simps from_0_simps x4_def\<close>)+
  qed (use n in \<open>simp_all add: no_messages_simps from_0_simps\<close>)
  have "phase n (\<lambda>i. RunMult rnd layer (st i, c i)) no_messages no_messages (\<lambda>i. (x4 i, c i))"
    unfolding RunMult_def
    by (intro phase_bind [OF ph1] phase_bind [OF ph2] phase_bind [OF ph3] ph4)
  moreover have "knows h0 v lam lay (Suc d) (sGates (x4 0))"
  proof -
    have sg: "same_gates h0 (sGates s4)" using s4(3) by (simp add: knows_def)
    have "mLearned (sGates s4 ! g)" if g: "g < length (sGates s4)" "gclass (sGates s4 ! g) = InputGate
      \<or> gclass (sGates s4 ! g) = MultGate \<and> lay g \<le> Suc d" for g
    proof (cases "gclass (sGates s4 ! g) = MultGate \<and> lay g = Suc d")
      case True
      then obtain p where "p \<in> set ps" "g \<in> set (GS p)"
        using all [of g] g(1) same_gates_length [OF sg] same_gates_fields(1) [OF sg] by auto
      then show ?thesis by (rule s4(4))
    next
      case False
      then show ?thesis using s4(3) g by (auto simp: knows_def)
    qed
    then show ?thesis using s4(3) by (simp add: knows_def x4_def)
  qed
  ultimately show ?thesis
    using x2 s4(2) by (intro exI [of _ x4]) (auto simp: x4_def x1_def)
qed

end

section \<open>Loops over the gates of all clients\<close>

lemma foldM_nested:
  assumes "m \<le> length xss"
  shows "foldM (\<lambda>i s. bindM (liftM (vget xss i)) (\<lambda>xs. foldM F xs s)) [0..<m] s = foldM F (concat (take m xss)) s"
  using assms
proof (induction m)
  case (Suc m)
  then show ?case by (simp add: foldM_append take_Suc_conv_app_nth)
qed simp

lemma box_concat_owner:
  "box_concat (map (\<lambda>m. if f m = i then one_box j [u m] else no_box) ms) = one_box j (map u (filter (\<lambda>m. f m = i) ms))"
  by (induction ms) auto

lemma box_concat_to_owner: "box_concat (map (\<lambda>m. one_box (f m) [u m]) ms) = (\<lambda>k. map u (filter (\<lambda>m. f m = k) ms))"
  by (induction ms) (auto simp: box_append_def one_box_def no_box_def fun_eq_iff)

definition flat_inputs :: "('a, 'g) circuit \<Rightarrow> nat list" where
  "flat_inputs c = concat (take (mClients c) (mFlatInputGates c))"

definition flat_outputs :: "('a, 'g) circuit \<Rightarrow> nat list" where
  "flat_outputs c = concat (take (mClients c) (mFlatOutputGates c))"

text \<open>What the loops rely on: the gates exist, know the party and have the owner \<open>ow\<close>.\<close>

definition connected_gates :: "nat \<Rightarrow> nat \<Rightarrow> (nat \<Rightarrow> nat) \<Rightarrow> nat list \<Rightarrow> 'a heap \<Rightarrow> bool" where
  "connected_gates n i ow gs h \<longleftrightarrow> (\<forall>g \<in> set gs. g < length h \<and> mGateID (h ! g) = Some i \<and> mOwnerID (h ! g) = ow g \<and> ow g < n)"

lemma connected_gatesD:
  assumes "connected_gates n i ow gs h" "g \<in> set gs"
  shows "g < length h" "mGateID (h ! g) = Some i" "mOwnerID (h ! g) = ow g" "ow g < n"
  using assms by (auto simp: connected_gates_def)

lemma connected_gates_same:
  "connected_gates n i ow gs h0 \<Longrightarrow> same_gates h0 h \<Longrightarrow> connected_gates n i ow gs h"
  unfolding connected_gates_def using same_gates_length [of h0 h] same_gates_fields(4,5) [of h0 h] by simp

section \<open>The input phase\<close>

lemma InputOwnerSendsP1_acts:
  fixes st :: "('a::field, 'g) store"
  assumes i: "i < n" and c: "mClients c \<le> length (mFlatInputGates c)"
    and G: "connected_gates n i ow (flat_inputs c) (sGates st)"
    and V: "\<And>g. g \<in> set (flat_inputs c) \<Longrightarrow> ow g = i \<Longrightarrow> mValue (sGates st ! g) - mLambda (sGates st ! g) = u g"
  shows "acts n i (InputOwnerSendsP1 (st, c)) no_box (one_box 0 (map u (filter (\<lambda>g. ow g = i) (flat_inputs c)))) (st, c)"
proof -
  let ?gs = "flat_inputs c"
  let ?F = "\<lambda>g (_ :: unit). bindM (liftM (vget (sGates st) g)) InputGate_OwnerSendsP1"
  have "\<exists>s'. acts n i (foldM ?F ?gs ()) (box_concat (map (\<lambda>_. no_box) [0..<length ?gs]))
      (box_concat (map (\<lambda>m. if ow (?gs ! m) = i then one_box 0 [u (?gs ! m)] else no_box) [0..<length ?gs])) s' \<and> s' = ()"
  proof (rule acts_foldM [where I = "\<lambda>_ s. s = ()"])
    fix m and s :: unit
    assume "m < length ?gs"
    then have g: "?gs ! m \<in> set ?gs" by simp
    have "acts n i (sendM 0 (u (?gs ! m))) no_box (one_box 0 [u (?gs ! m)]) ()"
      using i by (intro acts_sendM) simp_all
    then show "\<exists>s'. acts n i (?F (?gs ! m) s) no_box (if ow (?gs ! m) = i then one_box 0 [u (?gs ! m)] else no_box) s' \<and> s' = ()"
      using connected_gatesD [OF G g] V [OF g] by (auto simp: InputGate_OwnerSendsP1_def acts_Return)
  qed simp
  then obtain s' where "acts n i (foldM ?F ?gs ()) no_box (one_box 0 (map u (filter (\<lambda>g. ow g = i) ?gs))) s'" "s' = ()"
    using map_upt_nth [of "\<lambda>g. if ow g = i then one_box 0 [u g] else no_box" ?gs] by (auto simp: box_concat_owner)
  then have "acts n i (foldM ?F ?gs ()) no_box (one_box 0 (map u (filter (\<lambda>g. ow g = i) ?gs))) ()" by blast
  from acts_bind [OF this, of "\<lambda>_. Return (st, c)" no_box no_box "(st, c)"] show ?thesis
    using foldM_nested [OF c, of ?F "()"]
    unfolding InputOwnerSendsP1_def by (simp add: flat_inputs_def acts_Return)
qed

lemma InputP1Receives_other:
  assumes i: "i \<noteq> 0" and c: "mClients c \<le> length (mFlatInputGates c)"
    and G: "connected_gates n i ow (flat_inputs c) (sGates st)"
  shows "acts n i (InputP1Receives (st, c)) no_box no_box (st, c)"
proof -
  let ?gs = "flat_inputs c"
  let ?F = "\<lambda>g h. bindM (liftM (vget h g)) (\<lambda>G. gateM (InputGate_P1Receives G) g h)"
  have "\<exists>h'. acts n i (foldM ?F ?gs (sGates st)) (box_concat (map (\<lambda>_. no_box) [0..<length ?gs]))
      (box_concat (map (\<lambda>_. no_box) [0..<length ?gs])) h' \<and> h' = sGates st"
  proof (rule acts_foldM [where I = "\<lambda>_ h'. h' = sGates st"])
    fix m h
    assume "m < length ?gs" "h = sGates st"
    then show "\<exists>s'. acts n i (?F (?gs ! m) h) no_box no_box s' \<and> s' = sGates st"
      using connected_gatesD [OF G, of "?gs ! m"] i
      by (auto simp: gateM_def InputGate_P1Receives_def acts_Return)
  qed simp
  then have "acts n i (foldM ?F ?gs (sGates st)) no_box no_box (sGates st)" by simp
  from acts_bind [OF this, of "\<lambda>h. Return (st\<lparr> sGates := h \<rparr>, c)" no_box no_box "(st, c)"] show ?thesis
    unfolding InputP1Receives_def by (simp add: foldM_nested [OF c] flat_inputs_def acts_Return)
qed

text \<open>Writing a wire value into \<open>mMu\<close> keeps the gates and what is known.\<close>

lemma learn_gate:
  assumes "same_gates h0 h" "learned_mu h v lam" "g < length h"
  shows "same_gates h0 (h[g := (h ! g)\<lparr> mMu := v g - lam g, mLearned := True \<rparr>])"
    "learned_mu (h[g := (h ! g)\<lparr> mMu := v g - lam g, mLearned := True \<rparr>]) v lam"
  using assms by (auto simp: same_gates_update learned_mu_def nth_list_update)

lemma InputP1Receives_acts:
  fixes st :: "('a::field, 'g) store"
  assumes n: "0 < n" and c: "mClients c \<le> length (mFlatInputGates c)"
    and G: "connected_gates n 0 ow (flat_inputs c) (sGates st)" and L: "learned_mu (sGates st) v lam"
  shows "\<exists>h'. acts n 0 (InputP1Receives (st, c)) (\<lambda>k. map (\<lambda>g. v g - lam g) (filter (\<lambda>g. ow g = k) (flat_inputs c)))
      no_box (st\<lparr> sGates := h' \<rparr>, c)
    \<and> same_gates (sGates st) h' \<and> learned_mu h' v lam \<and> (\<forall>g \<in> set (flat_inputs c). mLearned (h' ! g))"
proof -
  let ?gs = "flat_inputs c" and ?u = "\<lambda>g. v g - lam g"
  let ?F = "\<lambda>g h. bindM (liftM (vget h g)) (\<lambda>G. gateM (InputGate_P1Receives G) g h)"
  let ?I = "\<lambda>m h'. same_gates (sGates st) h' \<and> learned_mu h' v lam \<and> (\<forall>q<m. mLearned (h' ! (?gs ! q)))"
  have "\<exists>h'. acts n 0 (foldM ?F ?gs (sGates st)) (box_concat (map (\<lambda>m. one_box (ow (?gs ! m)) [?u (?gs ! m)]) [0..<length ?gs]))
      (box_concat (map (\<lambda>_. no_box) [0..<length ?gs])) h' \<and> ?I (length ?gs) h'"
  proof (rule acts_foldM)
    fix m h
    let ?g = "?gs ! m"
    assume m: "m < length ?gs" and I: "?I m h"
    then have g: "?g \<in> set ?gs" by simp
    note C = connected_gatesD [OF connected_gates_same [OF G I [THEN conjunct1]] g]
    let ?h = "h[?g := (h ! ?g)\<lparr> mMu := ?u ?g, mLearned := True \<rparr>]"
    have "acts n 0 (?F ?g h) (box_append (one_box (ow ?g) [?u ?g]) no_box) no_box ?h"
      unfolding gateM_def InputGate_P1Receives_def
      using C n by (simp del: box_append_simps add: bindM_assoc) (intro acts_recv_bind acts_Return; simp)
    moreover have "?I (Suc m) ?h"
      using learn_gate [OF I [THEN conjunct1] _ C(1), of v lam] I C(1)
      by (auto simp: less_Suc_eq nth_list_update)
    ultimately show "\<exists>s'. acts n 0 (?F ?g h) (one_box (ow ?g) [?u ?g]) no_box s' \<and> ?I (Suc m) s'"
      by (intro exI [of _ ?h]) simp
  qed (use L in simp)
  then obtain h' where h': "acts n 0 (foldM ?F ?gs (sGates st)) (\<lambda>k. map ?u (filter (\<lambda>g. ow g = k) ?gs)) no_box h'"
    "?I (length ?gs) h'"
    using map_upt_nth [of "\<lambda>g. one_box (ow g) [?u g]" ?gs] by (auto simp: box_concat_to_owner)
  from acts_bind [OF h'(1), of "\<lambda>h. Return (st\<lparr> sGates := h \<rparr>, c)" no_box no_box "(st\<lparr> sGates := h' \<rparr>, c)"]
  have "acts n 0 (InputP1Receives (st, c)) (\<lambda>k. map ?u (filter (\<lambda>g. ow g = k) ?gs)) no_box (st\<lparr> sGates := h' \<rparr>, c)"
    unfolding InputP1Receives_def by (simp add: foldM_nested [OF c] flat_inputs_def acts_Return)
  moreover have "mLearned (h' ! g)" if "g \<in> set ?gs" for g
  proof -
    from that obtain q where "q < length ?gs" "g = ?gs ! q" unfolding in_set_conv_nth by blast
    with h'(2) show ?thesis by blast
  qed
  ultimately show ?thesis using h'(2) by blast
qed

section \<open>The output phase\<close>

lemma OutputP1SendsMu_other:
  assumes i: "i \<noteq> 0" and c: "mClients c \<le> length (mFlatOutputGates c)"
    and G: "connected_gates n i ow (flat_outputs c) (sGates st)"
  shows "acts n i (OutputP1SendsMu (st, c)) no_box no_box (st, c)"
proof -
  let ?gs = "flat_outputs c"
  have "\<exists>h'. acts n i (foldM OutputGate_P1SendsMu ?gs (sGates st)) (box_concat (map (\<lambda>_. no_box) [0..<length ?gs]))
      (box_concat (map (\<lambda>_. no_box) [0..<length ?gs])) h' \<and> h' = sGates st"
  proof (rule acts_foldM [where I = "\<lambda>_ h'. h' = sGates st"])
    fix m h
    assume "m < length ?gs" "h = sGates st"
    then show "\<exists>s'. acts n i (OutputGate_P1SendsMu (?gs ! m) h) no_box no_box s' \<and> s' = sGates st"
      using connected_gatesD [OF G, of "?gs ! m"] i by (auto simp: OutputGate_P1SendsMu_def acts_Return)
  qed simp
  then have "acts n i (foldM OutputGate_P1SendsMu ?gs (sGates st)) no_box no_box (sGates st)" by simp
  from acts_bind [OF this, of "\<lambda>h. Return (st\<lparr> sGates := h \<rparr>, c)" no_box no_box "(st, c)"] show ?thesis
    unfolding OutputP1SendsMu_def by (simp add: foldM_nested [OF c] flat_outputs_def acts_Return)
qed

lemma OutputP1SendsMu_acts:
  fixes st :: "('a::field, 'g) store"
  assumes n: "0 < n" and c: "mClients c \<le> length (mFlatOutputGates c)"
    and G: "connected_gates n 0 ow (flat_outputs c) h0"
    and W: "wires h0 v lam lay" and K: "knows h0 v lam lay d (sGates st)"
    and D: "\<And>g. g \<in> set (flat_outputs c) \<Longrightarrow> lay g \<le> d"
  shows "\<exists>h'. acts n 0 (OutputP1SendsMu (st, c)) no_box
      (\<lambda>k. map (\<lambda>g. v g - lam g) (filter (\<lambda>g. ow g = k) (flat_outputs c))) (st\<lparr> sGates := h' \<rparr>, c)
    \<and> knows h0 v lam lay d h'"
proof -
  let ?gs = "flat_outputs c" and ?u = "\<lambda>g. v g - lam g"
  have "\<exists>h'. acts n 0 (foldM OutputGate_P1SendsMu ?gs (sGates st)) (box_concat (map (\<lambda>_. no_box) [0..<length ?gs]))
      (box_concat (map (\<lambda>m. one_box (ow (?gs ! m)) [?u (?gs ! m)]) [0..<length ?gs])) h' \<and> knows h0 v lam lay d h'"
  proof (rule acts_foldM [where I = "\<lambda>_. knows h0 v lam lay d"])
    fix m h
    let ?g = "?gs ! m"
    assume m: "m < length ?gs" and K: "knows h0 v lam lay d h"
    then have g: "?g \<in> set ?gs" by simp
    have sg: "same_gates h0 h" using K by (simp add: knows_def)
    note C = connected_gatesD [OF connected_gates_same [OF G sg] g]
    obtain h' where h': "GetMu h ?g = Some (Inr (?u ?g, h'))" "knows h0 v lam lay d h'"
      using knows_GetMu [OF W K C(1) D [OF g]] by blast
    have "acts n 0 (bindM (sendM (ow ?g) (?u ?g)) (\<lambda>_. Return h')) no_box
        (box_append (one_box (ow ?g) [?u ?g]) no_box) h'"
      using n C(4) by (intro acts_send_bind acts_Return) simp_all
    then have "acts n 0 (OutputGate_P1SendsMu ?g h) no_box (one_box (ow ?g) [?u ?g]) h'"
      using C h'(1) by (simp add: OutputGate_P1SendsMu_def)
    with h'(2) show "\<exists>s'. acts n 0 (OutputGate_P1SendsMu ?g h) no_box (one_box (ow ?g) [?u ?g]) s' \<and> knows h0 v lam lay d s'"
      by blast
  qed (rule K)
  then obtain h' where h': "acts n 0 (foldM OutputGate_P1SendsMu ?gs (sGates st)) no_box
      (\<lambda>k. map ?u (filter (\<lambda>g. ow g = k) ?gs)) h'" "knows h0 v lam lay d h'"
    using map_upt_nth [of "\<lambda>g. one_box (ow g) [?u g]" ?gs] by (auto simp: box_concat_to_owner)
  from acts_bind [OF h'(1), of "\<lambda>h. Return (st\<lparr> sGates := h \<rparr>, c)" no_box no_box "(st\<lparr> sGates := h' \<rparr>, c)"]
  have "acts n 0 (OutputP1SendsMu (st, c)) no_box (\<lambda>k. map ?u (filter (\<lambda>g. ow g = k) ?gs)) (st\<lparr> sGates := h' \<rparr>, c)"
    unfolding OutputP1SendsMu_def by (simp add: foldM_nested [OF c] flat_outputs_def acts_Return)
  with h'(2) show ?thesis by blast
qed

lemma OutputOwnerReceivesMu_acts:
  fixes st :: "('a::field, 'g) store"
  assumes i: "i < n" and c: "mClients c \<le> length (mFlatOutputGates c)"
    and G: "connected_gates n i ow (flat_outputs c) (sGates st)"
    and V: "\<And>g. g \<in> set (flat_outputs c) \<Longrightarrow> ow g = i \<Longrightarrow> mLambda (sGates st ! g) = lam g"
  shows "\<exists>h'. acts n i (OutputOwnerReceivesMu (st, c)) (one_box 0 (map (\<lambda>g. v g - lam g) (filter (\<lambda>g. ow g = i) (flat_outputs c))))
      no_box (st\<lparr> sGates := h' \<rparr>, c)
    \<and> length h' = length (sGates st) \<and> (\<forall>g \<in> set (flat_outputs c). ow g = i \<longrightarrow> mValue (h' ! g) = v g)"
proof -
  let ?gs = "flat_outputs c" and ?u = "\<lambda>g. v g - lam g"
  let ?F = "\<lambda>g h. bindM (liftM (vget h g)) (\<lambda>G. gateM (OutputGate_OwnerReceivesMu G) g h)"
  let ?I = "\<lambda>m h'. length h' = length (sGates st) \<and> connected_gates n i ow ?gs h'
    \<and> (\<forall>g \<in> set ?gs. ow g = i \<longrightarrow> mLambda (h' ! g) = lam g)
    \<and> (\<forall>q<m. ow (?gs ! q) = i \<longrightarrow> mValue (h' ! (?gs ! q)) = v (?gs ! q))"
  have "\<exists>h'. acts n i (foldM ?F ?gs (sGates st))
      (box_concat (map (\<lambda>m. if ow (?gs ! m) = i then one_box 0 [?u (?gs ! m)] else no_box) [0..<length ?gs]))
      (box_concat (map (\<lambda>_. no_box) [0..<length ?gs])) h' \<and> ?I (length ?gs) h'"
  proof (rule acts_foldM)
    fix m h
    let ?g = "?gs ! m"
    assume m: "m < length ?gs" and I: "?I m h"
    then have g: "?g \<in> set ?gs" by simp
    note C = connected_gatesD [OF I [THEN conjunct2, THEN conjunct1] g]
    show "\<exists>s'. acts n i (?F ?g h) (if ow ?g = i then one_box 0 [?u ?g] else no_box) no_box s' \<and> ?I (Suc m) s'"
    proof (cases "ow ?g = i")
      case False
      then have "acts n i (?F ?g h) no_box no_box h"
        using C by (simp add: gateM_def OutputGate_OwnerReceivesMu_def acts_Return)
      moreover have "?I (Suc m) h" using I False by (simp add: less_Suc_eq)
      ultimately show ?thesis using False by (intro exI [of _ h]) simp
    next
      case True
      let ?h = "h[?g := (h ! ?g)\<lparr> mValue := mLambda (h ! ?g) + ?u ?g \<rparr>]"
      have "acts n i (?F ?g h) (box_append (one_box 0 [?u ?g]) no_box) no_box ?h"
        unfolding gateM_def OutputGate_OwnerReceivesMu_def
        using C i True by (simp del: box_append_simps add: bindM_assoc) (intro acts_recv_bind acts_Return; simp)
      moreover have "mLambda (h ! ?g) = lam ?g" using I g True by blast
      then have "?I (Suc m) ?h"
        using I C(1) by (auto simp: less_Suc_eq nth_list_update connected_gates_def)
      ultimately show ?thesis using True by (intro exI [of _ ?h]) simp
    qed
  qed (use G V in simp)
  then obtain h' where h': "acts n i (foldM ?F ?gs (sGates st)) (one_box 0 (map ?u (filter (\<lambda>g. ow g = i) ?gs))) no_box h'"
    "?I (length ?gs) h'"
    using map_upt_nth [of "\<lambda>g. if ow g = i then one_box 0 [?u g] else no_box" ?gs] by (auto simp: box_concat_owner)
  from acts_bind [OF h'(1), of "\<lambda>h. Return (st\<lparr> sGates := h \<rparr>, c)" no_box no_box "(st\<lparr> sGates := h' \<rparr>, c)"]
  have "acts n i (OutputOwnerReceivesMu (st, c)) (one_box 0 (map ?u (filter (\<lambda>g. ow g = i) ?gs))) no_box (st\<lparr> sGates := h' \<rparr>, c)"
    unfolding OutputOwnerReceivesMu_def by (simp add: foldM_nested [OF c] flat_outputs_def acts_Return)
  moreover have "mValue (h' ! g) = v g" if "g \<in> set ?gs" "ow g = i" for g
  proof -
    from that(1) obtain q where "q < length ?gs" "g = ?gs ! q" unfolding in_set_conv_nth by blast
    with h'(2) that(2) show ?thesis by blast
  qed
  ultimately show ?thesis using h'(2) by blast
qed

section \<open>The whole protocol\<close>

text \<open>
  The state from which \<open>RunProtocol\<close> starts: \<open>n\<close> parties with the same circuit; party 0 has the
  wires with values \<open>v\<close> and masks \<open>lam\<close>; the owner of an input gate holds its value and its mask,
  the owner of an output gate its mask; each multiplication gate of layer \<open>d\<close> is in a batch of the
  layer, and the parties hold consistent packed shares for every batch.
\<close>

definition batch_gates :: "(nat \<Rightarrow> ('a, 'g) party) \<Rightarrow> nat \<Rightarrow> nat list" where
  "batch_gates x p = mbGates (sMultBatches (fst (x 0)) ! p)"

definition layer_batches :: "('a, 'g) circuit \<Rightarrow> nat list list" where
  "layer_batches c = map mlBatches (mMultLayers c)"

definition same_circuit :: "('a, 'g) circuit \<Rightarrow> ('a, 'g) circuit \<Rightarrow> bool" where
  "same_circuit c0 c \<longleftrightarrow> mClients c = mClients c0 \<and> mFlatInputGates c = mFlatInputGates c0
     \<and> mFlatOutputGates c = mFlatOutputGates c0 \<and> layer_batches c = layer_batches c0"

definition layered :: "'a heap \<Rightarrow> (nat \<Rightarrow> nat) \<Rightarrow> (nat \<Rightarrow> nat list) \<Rightarrow> nat list list \<Rightarrow> bool" where
  "layered h0 lay GS layers \<longleftrightarrow> (\<forall>d < length layers. distinct (layers ! d)
     \<and> (\<forall>p \<in> set (layers ! d). layer_gates h0 lay d (GS p))
     \<and> (\<forall>g < length h0. gclass (h0 ! g) = MultGate \<and> lay g = Suc d \<longrightarrow> (\<exists>p \<in> set (layers ! d). g \<in> set (GS p))))"

definition owners_ready :: "nat \<Rightarrow> nat \<Rightarrow> (nat \<Rightarrow> nat) \<Rightarrow> (nat \<Rightarrow> 'a::field) \<Rightarrow> (nat \<Rightarrow> 'a) \<Rightarrow> ('a, 'g) party \<Rightarrow> bool" where
  "owners_ready n i ow v lam = (\<lambda>(st, c). cID c = Some i
     \<and> mClients c = length (mFlatInputGates c) \<and> mClients c = length (mFlatOutputGates c)
     \<and> connected_gates n i ow (flat_inputs c @ flat_outputs c) (sGates st)
     \<and> (\<forall>j < mClients c. \<forall>g \<in> set (mFlatOutputGates c ! j). ow g = j)
     \<and> (\<forall>g \<in> set (flat_inputs c). ow g = i \<longrightarrow> mValue (sGates st ! g) = v g \<and> mLambda (sGates st ! g) = lam g)
     \<and> (\<forall>g \<in> set (flat_outputs c). ow g = i \<longrightarrow> mLambda (sGates st ! g) = lam g))"

definition online_ready :: "nat \<Rightarrow> nat \<Rightarrow> (nat \<Rightarrow> nat) \<Rightarrow> (nat \<Rightarrow> nat) \<Rightarrow> (nat \<Rightarrow> 'a::field) \<Rightarrow> (nat \<Rightarrow> 'a)
    \<Rightarrow> (nat \<Rightarrow> 'a \<Rightarrow> 'a) \<Rightarrow> (nat \<Rightarrow> 'a \<Rightarrow> 'a) \<Rightarrow> (nat \<Rightarrow> 'a \<Rightarrow> 'a) \<Rightarrow> (nat \<Rightarrow> ('a, 'g) party) \<Rightarrow> bool" where
  "online_ready n k lay ow v lam fA fB fD x \<longleftrightarrow>
     (let h0 = sGates (fst (x 0)); c0 = snd (x 0); layers = layer_batches c0; P = set (concat layers) in
     0 < n \<and> n < 2 ^ 31 \<and> 0 < k \<and> 2 * k - 1 \<le> n
     \<and> wires h0 v lam lay \<and> learned_mu h0 v lam \<and> layered h0 lay (batch_gates x) layers
     \<and> (\<forall>g < length h0. gclass (h0 ! g) = InputGate \<longrightarrow> g \<in> set (flat_inputs c0))
     \<and> (\<forall>g \<in> set (flat_outputs c0). lay g \<le> length layers)
     \<and> (\<forall>p \<in> P. batch_prepared n k h0 lam (batch_gates x p) (fA p) (fB p) (fD p))
     \<and> (\<forall>i<n. same_circuit c0 (snd (x i)) \<and> owners_ready n i ow v lam (x i)
          \<and> cores n k P (batch_gates x) fA fB fD i (fst (x i))))"

lemma owners_readyD:
  assumes "owners_ready n i ow v lam x"
  shows "cID (snd x) = Some i" "length (mFlatInputGates (snd x)) = mClients (snd x)"
    "length (mFlatOutputGates (snd x)) = mClients (snd x)"
    "connected_gates n i ow (flat_inputs (snd x)) (sGates (fst x))"
    "connected_gates n i ow (flat_outputs (snd x)) (sGates (fst x))"
    "\<And>j g. j < mClients (snd x) \<Longrightarrow> g \<in> set (mFlatOutputGates (snd x) ! j) \<Longrightarrow> ow g = j"
    "\<And>g. g \<in> set (flat_inputs (snd x)) \<Longrightarrow> ow g = i \<Longrightarrow> mValue (sGates (fst x) ! g) = v g"
    "\<And>g. g \<in> set (flat_inputs (snd x)) \<Longrightarrow> ow g = i \<Longrightarrow> mLambda (sGates (fst x) ! g) = lam g"
    "\<And>g. g \<in> set (flat_outputs (snd x)) \<Longrightarrow> ow g = i \<Longrightarrow> mLambda (sGates (fst x) ! g) = lam g"
proof -
  obtain st c where x: "x = (st, c)" by fastforce
  note O = assms [unfolded x owners_ready_def prod.case]
  note C = O [THEN conjunct2, THEN conjunct2, THEN conjunct2, THEN conjunct1]
  show "cID (snd x) = Some i" "length (mFlatInputGates (snd x)) = mClients (snd x)"
    "length (mFlatOutputGates (snd x)) = mClients (snd x)"
    "\<And>j g. j < mClients (snd x) \<Longrightarrow> g \<in> set (mFlatOutputGates (snd x) ! j) \<Longrightarrow> ow g = j"
    "\<And>g. g \<in> set (flat_inputs (snd x)) \<Longrightarrow> ow g = i \<Longrightarrow> mValue (sGates (fst x) ! g) = v g"
    "\<And>g. g \<in> set (flat_inputs (snd x)) \<Longrightarrow> ow g = i \<Longrightarrow> mLambda (sGates (fst x) ! g) = lam g"
    "\<And>g. g \<in> set (flat_outputs (snd x)) \<Longrightarrow> ow g = i \<Longrightarrow> mLambda (sGates (fst x) ! g) = lam g"
    using O unfolding x by simp_all
  show "connected_gates n i ow (flat_inputs (snd x)) (sGates (fst x))"
    "connected_gates n i ow (flat_outputs (snd x)) (sGates (fst x))"
    using C unfolding x connected_gates_def set_append fst_conv snd_conv by blast+
qed

lemma same_circuitD:
  assumes "same_circuit c0 c"
  shows "mClients c = mClients c0" "flat_inputs c = flat_inputs c0" "flat_outputs c = flat_outputs c0"
    "mFlatOutputGates c = mFlatOutputGates c0" "layer_batches c = layer_batches c0"
  using assms by (simp_all add: same_circuit_def flat_inputs_def flat_outputs_def)

lemma mapE_values:
  "(\<And>g. g \<in> set gs \<Longrightarrow> g < length h \<and> mValue (h ! g) = v g) \<Longrightarrow>
   mapE (\<lambda>g. bindE (vget h g) (\<lambda>G. Inr (OutputGate_GetValue G))) gs = Inr (map v gs)"
  by (induction gs) (simp_all add: OutputGate_GetValue_def)

lemma from_owners: "(\<lambda>k. if k < n then f k else []) = f" if "\<And>k. n \<le> k \<Longrightarrow> f k = []" for n :: nat
  using that by (auto simp: fun_eq_iff)

lemma no_foreign_owner:
  assumes "connected_gates n i ow gs h" "n \<le> k"
  shows "filter (\<lambda>g. ow g = k) gs = []"
  using assms by (force simp: connected_gates_def filter_empty_conv)

context point_field
begin

lemma RunInput_phase:
  fixes x :: "nat \<Rightarrow> ('a, 'g) party"
  assumes R: "online_ready n k lay ow v lam fA fB fD x"
  shows "\<exists>h1. phase n (\<lambda>i. RunInput (x i)) no_messages no_messages
      (\<lambda>i. if i = 0 then (fst (x 0)\<lparr> sGates := h1 \<rparr>, snd (x 0)) else x i)
    \<and> knows (sGates (fst (x 0))) v lam lay 0 h1"
proof -
  let ?h0 = "sGates (fst (x 0))" and ?c0 = "snd (x 0)" and ?u = "\<lambda>g. v g - lam g"
  have n: "0 < n" using R by (simp add: online_ready_def Let_def)
  have O: "owners_ready n i ow v lam (x i)" and S: "same_circuit ?c0 (snd (x i))" if "i < n" for i
    using R that by (simp_all add: online_ready_def Let_def)
  have c: "mClients (snd (x i)) \<le> length (mFlatInputGates (snd (x i)))"
    and G: "connected_gates n i ow (flat_inputs (snd (x i))) (sGates (fst (x i)))"
    and fl: "flat_inputs (snd (x i)) = flat_inputs ?c0" if "i < n" for i
    using owners_readyD(2,4) [OF O [OF that]] same_circuitD(2) [OF S [OF that]] by simp_all
  let ?box = "\<lambda>k. map ?u (filter (\<lambda>g. ow g = k) (flat_inputs ?c0))"
  have box: "box_upto n ?box = ?box"
    unfolding box_upto_def using no_foreign_owner [OF G [OF n]] by (intro from_owners) simp
  have ph1: "phase n (\<lambda>i. InputOwnerSendsP1 (x i)) no_messages (to_0 n ?box) x"
  proof (rule phase_acts)
    fix i
    assume i: "i < n"
    have "acts n i (InputOwnerSendsP1 (fst (x i), snd (x i))) no_box (one_box 0 (?box i)) (fst (x i), snd (x i))"
      using InputOwnerSendsP1_acts [OF i c [OF i] G [OF i], of ?u] owners_readyD(7,8) [OF O [OF i]] fl [OF i]
      by simp
    then show "acts n i (InputOwnerSendsP1 (x i)) (\<lambda>k. no_messages k i) (to_0 n ?box i) (x i)"
      using i by (simp add: no_messages_simps from_0_simps)
  qed (use n in \<open>simp_all add: no_messages_simps from_0_simps\<close>)
  have L: "learned_mu ?h0 v lam" using R by (simp add: online_ready_def Let_def)
  obtain h1 where h1: "acts n 0 (InputP1Receives (fst (x 0), ?c0)) ?box no_box (fst (x 0)\<lparr> sGates := h1 \<rparr>, ?c0)"
    "same_gates ?h0 h1" "learned_mu h1 v lam" "\<And>g. g \<in> set (flat_inputs ?c0) \<Longrightarrow> mLearned (h1 ! g)"
    using InputP1Receives_acts [OF n c [OF n] G [OF n] L] by blast
  let ?y = "\<lambda>i. if i = 0 then (fst (x 0)\<lparr> sGates := h1 \<rparr>, ?c0) else x i"
  have ph2: "phase n (\<lambda>i. InputP1Receives (x i)) (to_0 n ?box) no_messages ?y"
  proof (rule phase_acts)
    fix i
    assume i: "i < n"
    show "acts n i (InputP1Receives (x i)) (\<lambda>k. to_0 n ?box k i) (no_messages i) (?y i)"
      using h1(1) InputP1Receives_other [OF _ c [OF i] G [OF i]] box
      by (cases "i = 0") (simp_all add: no_messages_simps from_0_simps)
  qed (use n in \<open>simp_all add: no_messages_simps from_0_simps\<close>)
  have "phase n (\<lambda>i. RunInput (x i)) no_messages no_messages ?y"
    unfolding RunInput_def by (intro phase_bind [OF ph1] ph2)
  moreover have "knows ?h0 v lam lay 0 h1"
  proof -
    have W: "wires ?h0 v lam lay" using R by (simp add: online_ready_def Let_def)
    have "mLearned (h1 ! g)" if g: "g < length h1" "gclass (h1 ! g) = InputGate \<or> gclass (h1 ! g) = MultGate \<and> lay g \<le> 0" for g
      using g(2)
    proof
      assume "gclass (h1 ! g) = InputGate"
      then have "g \<in> set (flat_inputs ?c0)"
        using R g(1) same_gates_length [OF h1(2)] same_gates_fields(1) [OF h1(2)]
        by (simp add: online_ready_def Let_def)
      then show ?thesis by (rule h1(4))
    next
      assume "gclass (h1 ! g) = MultGate \<and> lay g \<le> 0"
      then show ?thesis using wires_gate(2) [OF W h1(2) g(1)] by auto
    qed
    then show ?thesis using h1(2,3) by (auto simp: knows_def)
  qed
  ultimately show ?thesis by blast
qed

lemma RunOutput_phase:
  fixes x :: "nat \<Rightarrow> ('a, 'g) party" and st :: "nat \<Rightarrow> ('a, 'g) store"
  assumes R: "online_ready n k lay ow v lam fA fB fD x"
    and K: "knows (sGates (fst (x 0))) v lam lay (length (layer_batches (snd (x 0)))) (sGates (st 0))"
    and st: "\<And>i. i < n \<Longrightarrow> i \<noteq> 0 \<Longrightarrow> sGates (st i) = sGates (fst (x i))"
  shows "\<exists>y. phase n (\<lambda>i. RunOutput (st i, snd (x i))) no_messages no_messages y
    \<and> (\<forall>i<n. i < mClients (snd (x 0)) \<longrightarrow> GetOutputs (y i) = Inr (map v (mFlatOutputGates (snd (x 0)) ! i)))"
proof -
  let ?h0 = "sGates (fst (x 0))" and ?c0 = "snd (x 0)" and ?u = "\<lambda>g. v g - lam g"
  let ?gs = "flat_outputs ?c0"
  have n: "0 < n" and W: "wires ?h0 v lam lay" and D: "\<And>g. g \<in> set ?gs \<Longrightarrow> lay g \<le> length (layer_batches ?c0)"
    using R by (simp_all add: online_ready_def Let_def)
  have O: "owners_ready n i ow v lam (x i)" and S: "same_circuit ?c0 (snd (x i))" if "i < n" for i
    using R that by (simp_all add: online_ready_def Let_def)
  have sg: "same_gates ?h0 (sGates (st 0))" using K by (simp add: knows_def)
  have fl: "flat_outputs (snd (x i)) = ?gs" and c: "mClients (snd (x i)) \<le> length (mFlatOutputGates (snd (x i)))"
    and Gx: "connected_gates n i ow ?gs (sGates (fst (x i)))" if "i < n" for i
    using owners_readyD(3,5) [OF O [OF that]] same_circuitD(3) [OF S [OF that]] by simp_all
  have G: "connected_gates n i ow (flat_outputs (snd (x i))) (sGates (st i))" if "i < n" for i
    using Gx [OF that] st [OF that] connected_gates_same [OF Gx [OF n] sg] fl [OF that]
    by (cases "i = 0") simp_all
  let ?box = "\<lambda>k. map ?u (filter (\<lambda>g. ow g = k) ?gs)"
  have box: "box_upto n ?box = ?box"
    unfolding box_upto_def using no_foreign_owner [OF Gx [OF n]] by (intro from_owners) simp
  obtain h1 where h1: "acts n 0 (OutputP1SendsMu (st 0, ?c0)) no_box ?box (st 0\<lparr> sGates := h1 \<rparr>, ?c0)"
    "knows ?h0 v lam lay (length (layer_batches ?c0)) h1"
    using OutputP1SendsMu_acts [OF n c [OF n] Gx [OF n] W K D] by blast
  define x1 where "x1 i = (if i = 0 then st 0\<lparr> sGates := h1 \<rparr> else st i)" for i
  have ph1: "phase n (\<lambda>i. OutputP1SendsMu (st i, snd (x i))) no_messages (from_0 n ?box) (\<lambda>i. (x1 i, snd (x i)))"
  proof (rule phase_acts)
    fix i
    assume i: "i < n"
    show "acts n i (OutputP1SendsMu (st i, snd (x i))) (\<lambda>k. no_messages k i) (from_0 n ?box i) (x1 i, snd (x i))"
      using h1(1) OutputP1SendsMu_other [OF _ c [OF i] G [OF i]] box
      by (cases "i = 0") (simp_all add: no_messages_simps from_0_simps x1_def)
  qed (use n in \<open>simp_all add: no_messages_simps from_0_simps\<close>)
  have sg1: "same_gates ?h0 h1" using h1(2) by (simp add: knows_def)
  have G1: "connected_gates n i ow (flat_outputs (snd (x i))) (sGates (x1 i))" if "i < n" for i
    using G [OF that] connected_gates_same [OF Gx [OF n] sg1] fl [OF that]
    by (cases "i = 0") (simp_all add: x1_def)
  have V: "mLambda (sGates (x1 i) ! g) = lam g" if i: "i < n" and g: "g \<in> set (flat_outputs (snd (x i)))" "ow g = i" for i g
  proof -
    have l: "mLambda (sGates (fst (x i)) ! g) = lam g"
      using owners_readyD(9) [OF O [OF i] g] .
    have "g < length ?h0" using connected_gatesD(1) [OF Gx [OF n]] g fl [OF i] by simp
    then show ?thesis
      using l st [OF i] same_gates_fields(6) [OF sg1] by (cases "i = 0") (simp_all add: x1_def)
  qed
  define Q where "Q i h' \<longleftrightarrow> acts n i (OutputOwnerReceivesMu (x1 i, snd (x i))) (one_box 0 (?box i)) no_box
        (x1 i\<lparr> sGates := h' \<rparr>, snd (x i))
      \<and> length h' = length (sGates (x1 i)) \<and> (\<forall>g \<in> set ?gs. ow g = i \<longrightarrow> mValue (h' ! g) = v g)" for i h'
  have "\<exists>h'. Q i h'" if "i < n" for i
    using OutputOwnerReceivesMu_acts [OF that c [OF that] G1 [OF that] V [OF that], of v] fl [OF that]
    unfolding Q_def by simp
  then have "\<exists>h'. \<forall>i<n. Q i (h' i)" by (intro choice) blast
  then obtain h' where Q: "\<And>i. i < n \<Longrightarrow> Q i (h' i)" by blast
  have h': "acts n i (OutputOwnerReceivesMu (x1 i, snd (x i))) (one_box 0 (?box i)) no_box
        (x1 i\<lparr> sGates := h' i \<rparr>, snd (x i))" "length (h' i) = length (sGates (x1 i))"
      "g \<in> set ?gs \<Longrightarrow> ow g = i \<Longrightarrow> mValue (h' i ! g) = v g" if "i < n" for i g
    using Q [OF that] unfolding Q_def by blast+
  let ?y = "\<lambda>i. (x1 i\<lparr> sGates := h' i \<rparr>, snd (x i))"
  have ph2: "phase n (\<lambda>i. OutputOwnerReceivesMu (x1 i, snd (x i))) (from_0 n ?box) no_messages ?y"
  proof (rule phase_acts)
    fix i
    assume i: "i < n"
    show "acts n i (OutputOwnerReceivesMu (x1 i, snd (x i))) (\<lambda>k. from_0 n ?box k i) (no_messages i) (?y i)"
      using h'(1) [OF i] i by (simp add: no_messages_simps from_0_simps)
  qed (use n in \<open>simp_all add: no_messages_simps from_0_simps\<close>)
  have "phase n (\<lambda>i. RunOutput (st i, snd (x i))) no_messages no_messages ?y"
    unfolding RunOutput_def by (intro phase_bind [OF ph1] ph2)
  moreover have "GetOutputs (?y i) = Inr (map v (mFlatOutputGates ?c0 ! i))"
    if i: "i < n" "i < mClients ?c0" for i
  proof -
    have len: "length (mFlatOutputGates ?c0) = mClients ?c0"
      using owners_readyD(3) [OF O [OF n]] .
    have id: "cID (snd (x i)) = Some i" "mFlatOutputGates (snd (x i)) = mFlatOutputGates ?c0"
      using owners_readyD(1) [OF O [OF i(1)]] same_circuitD(4) [OF S [OF i(1)]] by simp_all
    have "g < length (h' i) \<and> mValue (h' i ! g) = v g" if g: "g \<in> set (mFlatOutputGates ?c0 ! i)" for g
    proof -
      have gs: "g \<in> set ?gs" using g i(2) len nth_mem [of i "mFlatOutputGates ?c0"] by (auto simp: flat_outputs_def)
      have "ow g = i" using owners_readyD(6) [OF O [OF n] i(2) g] .
      then show ?thesis
        using h'(2,3) [OF i(1)] gs connected_gatesD(1) [OF G1 [OF i(1)]] fl [OF i(1)] by simp
    qed
    then show ?thesis using mapE_values [of "mFlatOutputGates ?c0 ! i" "h' i" v] id len i(2)
      by (simp add: GetOutputs_def deref_def)
  qed
  ultimately show ?thesis by (intro exI [of _ ?y]) simp
qed

theorem RunProtocol_phase:
  fixes x :: "nat \<Rightarrow> ('a, 'g) party"
  assumes R: "online_ready n k lay ow v lam fA fB fD x"
  shows "\<exists>y. phase n (\<lambda>i. Circuit_RunProtocol rnd (x i)) no_messages no_messages y
    \<and> (\<forall>i<n. i < mClients (snd (x 0)) \<longrightarrow> GetOutputs (y i) = Inr (map v (mFlatOutputGates (snd (x 0)) ! i)))"
proof -
  let ?h0 = "sGates (fst (x 0))" and ?c0 = "snd (x 0)" and ?cir = "\<lambda>i. snd (x i)"
  let ?layers = "layer_batches ?c0" and ?GS = "batch_gates x"
  let ?P = "set (concat ?layers)"
  have n: "0 < n" "n < 2 ^ 31" "0 < k" "2 * k - 1 \<le> n" and W: "wires ?h0 v lam lay"
    and LY: "layered ?h0 lay ?GS ?layers"
    using R by (simp_all add: online_ready_def Let_def)
  have B: "\<And>p. p \<in> ?P \<Longrightarrow> batch_prepared n k ?h0 lam (?GS p) (fA p) (fB p) (fD p)"
    using R unfolding online_ready_def Let_def by blast
  have S: "same_circuit ?c0 (?cir i)" and C0: "cores n k ?P ?GS fA fB fD i (fst (x i))" if "i < n" for i
    using R that by (simp_all add: online_ready_def Let_def)
  obtain h1 where h1: "phase n (\<lambda>i. RunInput (x i)) no_messages no_messages
      (\<lambda>i. if i = 0 then (fst (x 0)\<lparr> sGates := h1 \<rparr>, ?c0) else x i)" "knows ?h0 v lam lay 0 h1"
    using RunInput_phase [OF R] by blast
  define st1 where "st1 i = (if i = 0 then fst (x 0)\<lparr> sGates := h1 \<rparr> else fst (x i))" for i
  have x1: "(\<lambda>i. if i = 0 then (fst (x 0)\<lparr> sGates := h1 \<rparr>, ?c0) else x i) = (\<lambda>i. (st1 i, ?cir i))"
    by (auto simp: st1_def)
  have C1: "cores n k ?P ?GS fA fB fD i (st1 i)" if "i < n" for i
    using C0 [OF that] by (cases "i = 0") (simp_all add: st1_def cores_def)
  let ?I = "\<lambda>m z. \<exists>st :: nat \<Rightarrow> ('a, 'g) store. z = (\<lambda>i. (st i, ?cir i)) \<and> (\<forall>i<n. cores n k ?P ?GS fA fB fD i (st i))
    \<and> knows ?h0 v lam lay m (sGates (st 0)) \<and> (\<forall>i<n. i \<noteq> 0 \<longrightarrow> sGates (st i) = sGates (fst (x i)))"
  let ?ms = "[0..<length ?layers]"
  have "\<exists>z. phase n (\<lambda>i. foldM (RunMult rnd) ?ms (st1 i, ?cir i)) no_messages no_messages z \<and> ?I (length ?ms) z"
  proof (rule phase_foldM [where I = ?I])
    show "?I 0 (\<lambda>i. (st1 i, ?cir i))" using C1 h1(2) by (intro exI [of _ st1]) (simp add: st1_def)
  next
    fix m and z :: "nat \<Rightarrow> ('a, 'g) party"
    assume "m < length ?ms" "?I m z"
    then obtain st where m: "m < length ?layers" and z: "z = (\<lambda>i. (st i, ?cir i))"
      and C: "\<And>i. i < n \<Longrightarrow> cores n k ?P ?GS fA fB fD i (st i)"
      and K: "knows ?h0 v lam lay m (sGates (st 0))"
      and g: "\<And>i. i < n \<Longrightarrow> i \<noteq> 0 \<Longrightarrow> sGates (st i) = sGates (fst (x i))" by auto
    have L: "m < length (mMultLayers (?cir i)) \<and> mlBatches (mMultLayers (?cir i) ! m) = ?layers ! m" if "i < n" for i
    proof -
      have e: "layer_batches (?cir i) = ?layers" by (rule same_circuitD(5) [OF S [OF that]])
      have "length (mMultLayers (?cir i)) = length ?layers" using arg_cong [OF e, of length] by (simp add: layer_batches_def)
      moreover have "layer_batches (?cir i) ! m = ?layers ! m" using e by simp
      ultimately show ?thesis using m by (simp add: layer_batches_def)
    qed
    have ps: "set (?layers ! m) \<subseteq> ?P" using nth_mem [OF m] by auto
    have lm: "distinct (?layers ! m)" "\<And>p. p \<in> set (?layers ! m) \<Longrightarrow> layer_gates ?h0 lay m (?GS p)"
      "\<And>g. g < length ?h0 \<Longrightarrow> gclass (?h0 ! g) = MultGate \<Longrightarrow> lay g = Suc m \<Longrightarrow> \<exists>p \<in> set (?layers ! m). g \<in> set (?GS p)"
      using LY m unfolding layered_def by blast+
    from RunMult_phase [where c = ?cir and st = st and layer = m and ps = "?layers ! m" and P = ?P and GS = ?GS
        and fA = fA and fB = fB and fD = fD and d = m, OF W n L ps lm(1) C B lm(2,3) K, of rnd] obtain st' where
      st': "phase n (\<lambda>i. RunMult rnd m (st i, ?cir i)) no_messages no_messages (\<lambda>i. (st' i, ?cir i))"
      "\<forall>i<n. cores n k ?P ?GS fA fB fD i (st' i)" "knows ?h0 v lam lay (Suc m) (sGates (st' 0))"
      "\<forall>i<n. i \<noteq> 0 \<longrightarrow> sGates (st' i) = sGates (st i)" by blast
    then show "\<exists>y. phase n (\<lambda>i. RunMult rnd (?ms ! m) (z i)) no_messages no_messages y \<and> ?I (Suc m) y"
      using g m unfolding z by (intro exI [of _ "\<lambda>i. (st' i, ?cir i)"] conjI exI [of _ st']) simp_all
  qed
  then obtain st where st: "phase n (\<lambda>i. foldM (RunMult rnd) ?ms (st1 i, ?cir i)) no_messages no_messages (\<lambda>i. (st i, ?cir i))"
    "knows ?h0 v lam lay (length ?layers) (sGates (st 0))"
    "\<And>i. i < n \<Longrightarrow> i \<noteq> 0 \<Longrightarrow> sGates (st i) = sGates (fst (x i))" by auto
  obtain y where y: "phase n (\<lambda>i. RunOutput (st i, ?cir i)) no_messages no_messages y"
    "\<forall>i<n. i < mClients ?c0 \<longrightarrow> GetOutputs (y i) = Inr (map v (mFlatOutputGates ?c0 ! i))"
    using RunOutput_phase [OF R st(2,3)] by blast
  have len: "length (mMultLayers (?cir i)) = length ?layers" if "i < n" for i
    using arg_cong [OF same_circuitD(5) [OF S [OF that]], of length] by (simp add: layer_batches_def)
  have "phase n (\<lambda>i. bindM (foldM (RunMult rnd) [0..<length (mMultLayers (snd (st1 i, ?cir i)))] (st1 i, ?cir i)) RunOutput)
      no_messages no_messages y"
    by (rule phase_cong [OF phase_bind [OF st(1), where q = "\<lambda>i. RunOutput", OF y(1)]]) (simp_all add: len)
  from phase_bind [OF h1(1) [unfolded x1], where q = "\<lambda>i s. bindM (foldM (RunMult rnd) [0..<length (mMultLayers (snd s))] s) RunOutput", OF this]
  have "phase n (\<lambda>i. Circuit_RunProtocol rnd (x i)) no_messages no_messages y"
    unfolding Circuit_RunProtocol_def .
  with y(2) show ?thesis by blast
qed

end

end
