(* ===== verification/Closed.thy ===== *)
theory Closed
  imports OnlineRun
begin

text \<open>
  Circuits that are ready for the preprocessing: all gates allocated after their parents, all batches
  full, every gate of a client or of a layer in a batch of its own, and every multiplication in a
  layer above those its operands need. Such a circuit determines the value of each wire from the
  inputs and the mask of each wire from the masks of the inputs and multiplications; both are given
  by the recursion \<open>wire\<close>.
\<close>

section \<open>Updates of some elements of a list\<close>

definition mark :: "('b \<Rightarrow> 'b) \<Rightarrow> nat list \<Rightarrow> 'b list \<Rightarrow> 'b list" where
  "mark f is xs = map (\<lambda>i. if i \<in> set is then f (xs ! i) else xs ! i) [0..<length xs]"

lemma length_mark [simp]: "length (mark f is xs) = length xs"
  by (simp add: mark_def)

lemma nth_mark [simp]: "i < length xs \<Longrightarrow> mark f is xs ! i = (if i \<in> set is then f (xs ! i) else xs ! i)"
  by (simp add: mark_def)

lemma mark_Nil [simp]: "mark f [] xs = xs"
  by (intro nth_equalityI) simp_all

lemma mark_step:
  assumes "\<And>x. f (f x) = f x" "i < length xs"
  shows "mark f is (xs[i := f (xs ! i)]) = mark f (i # is) xs"
  using assms by (intro nth_equalityI) (auto simp: nth_list_update)

lemma mark_mark:
  assumes "\<And>x. f (f x) = f x"
  shows "mark f js (mark f is xs) = mark f (is @ js) xs"
  using assms by (intro nth_equalityI) auto

lemma foldE_at_gate:
  assumes "\<And>G. f (f G) = f G" "\<And>g. g \<in> set gs \<Longrightarrow> g < length h"
  shows "foldE (\<lambda>g h. at_gate h g (\<lambda>G. Inr (f G))) gs h = Inr (mark f gs h)"
  using assms(2)
proof (induction gs arbitrary: h)
  case (Cons g gs)
  then have g: "g < length h" by simp
  have "foldE (\<lambda>g h. at_gate h g (\<lambda>G. Inr (f G))) gs (h[g := f (h ! g)]) = Inr (mark f gs (h[g := f (h ! g)]))"
    using Cons.prems by (intro Cons.IH) simp
  then show ?case using g by (simp add: at_gate_def mark_step [OF assms(1)])
qed simp

lemma foldE_concat: "foldE (\<lambda>xs. foldE f xs) xss s = foldE f (concat xss) s"
  by (induction xss arbitrary: s) (simp_all add: foldE_append bindE_def split: sum.splits)

section \<open>Values on the wires\<close>

definition wire_step :: "(nat \<Rightarrow> 'b) \<Rightarrow> ('b \<Rightarrow> 'b \<Rightarrow> 'b) \<Rightarrow> (nat \<Rightarrow> 'b \<Rightarrow> 'b \<Rightarrow> 'b) \<Rightarrow> 'b \<Rightarrow> 'a heap \<Rightarrow> (nat \<Rightarrow> 'b) \<Rightarrow> nat \<Rightarrow> 'b" where
  "wire_step inp add mul z h w g = (case gclass (h ! g) of
      InputGate \<Rightarrow> inp g
    | AddGate \<Rightarrow> add (w (left_of h g)) (w (right_of h g))
    | MultGate \<Rightarrow> mul g (w (left_of h g)) (w (right_of h g))
    | OutputGate \<Rightarrow> w (left_of h g)
    | _ \<Rightarrow> z)"

primrec wire_list :: "(nat \<Rightarrow> 'b) \<Rightarrow> ('b \<Rightarrow> 'b \<Rightarrow> 'b) \<Rightarrow> (nat \<Rightarrow> 'b \<Rightarrow> 'b \<Rightarrow> 'b) \<Rightarrow> 'b \<Rightarrow> 'a heap \<Rightarrow> nat \<Rightarrow> 'b list" where
  "wire_list inp add mul z h 0 = []"
| "wire_list inp add mul z h (Suc g) =
     (let ws = wire_list inp add mul z h g in ws @ [wire_step inp add mul z h (\<lambda>i. ws ! i) g])"

definition wire :: "(nat \<Rightarrow> 'b) \<Rightarrow> ('b \<Rightarrow> 'b \<Rightarrow> 'b) \<Rightarrow> (nat \<Rightarrow> 'b \<Rightarrow> 'b \<Rightarrow> 'b) \<Rightarrow> 'b \<Rightarrow> 'a heap \<Rightarrow> nat \<Rightarrow> 'b" where
  "wire inp add mul z h g = wire_list inp add mul z h (Suc g) ! g"

lemma length_wire_list [simp]: "length (wire_list inp add mul z h m) = m"
  by (induction m) (simp_all add: Let_def)

lemma wire_list_nth: "g < m \<Longrightarrow> wire_list inp add mul z h m ! g = wire inp add mul z h g"
proof (induction m)
  case (Suc m)
  then show ?case by (cases "g = m") (simp_all add: wire_def Let_def nth_append)
qed simp

text \<open>Gates point to gates allocated before them; a padding multiplication points to itself.\<close>

definition linked_gate :: "nat \<Rightarrow> 'a gate \<Rightarrow> bool" where
  "linked_gate g G \<longleftrightarrow> (case gclass G of
      AddGate \<Rightarrow> (case mLeft G of None \<Rightarrow> False | Some l \<Rightarrow> (case mRight G of None \<Rightarrow> False | Some r \<Rightarrow> l < g \<and> r < g))
    | MultGate \<Rightarrow> (case mLeft G of None \<Rightarrow> False | Some l \<Rightarrow> (case mRight G of None \<Rightarrow> False | Some r \<Rightarrow> l < g \<and> r < g))
    | OutputGate \<Rightarrow> (case mLeft G of Some l \<Rightarrow> l < g | _ \<Rightarrow> False)
    | PadMultGate \<Rightarrow> mLeft G = Some g \<and> mRight G = Some g
    | _ \<Rightarrow> True)"

definition linked :: "'a heap \<Rightarrow> bool" where
  "linked h \<longleftrightarrow> list_all (\<lambda>g. linked_gate g (h ! g)) [0..<length h]"

lemma linkedD:
  assumes "linked h" "g < length h"
  shows "gclass (h ! g) = AddGate \<or> gclass (h ! g) = MultGate \<Longrightarrow> mLeft (h ! g) = Some (left_of h g)
      \<and> mRight (h ! g) = Some (right_of h g) \<and> left_of h g < g \<and> right_of h g < g"
    and "gclass (h ! g) = OutputGate \<Longrightarrow> mLeft (h ! g) = Some (left_of h g) \<and> left_of h g < g"
    and "gclass (h ! g) = PadMultGate \<Longrightarrow> mLeft (h ! g) = Some g \<and> mRight (h ! g) = Some g"
proof -
  have "linked_gate g (h ! g)" using assms by (simp add: linked_def list_all_iff)
  then show "gclass (h ! g) = AddGate \<or> gclass (h ! g) = MultGate \<Longrightarrow> mLeft (h ! g) = Some (left_of h g)
      \<and> mRight (h ! g) = Some (right_of h g) \<and> left_of h g < g \<and> right_of h g < g"
    and "gclass (h ! g) = OutputGate \<Longrightarrow> mLeft (h ! g) = Some (left_of h g) \<and> left_of h g < g"
    and "gclass (h ! g) = PadMultGate \<Longrightarrow> mLeft (h ! g) = Some g \<and> mRight (h ! g) = Some g"
    by (auto simp: linked_gate_def left_of_def right_of_def split: option.splits)
qed

lemma wire_step_cong:
  assumes "linked h" "g < length h" "\<And>i. i < g \<Longrightarrow> w i = w' i"
  shows "wire_step inp add mul z h w g = wire_step inp add mul z h w' g"
  using linkedD(1,2) [OF assms(1,2)] assms(3)
  by (simp add: wire_step_def split: gate_class.split)

lemma wire_unfold:
  assumes "linked h" "g < length h"
  shows "wire inp add mul z h g = wire_step inp add mul z h (wire inp add mul z h) g"
proof -
  have "wire inp add mul z h g = wire_step inp add mul z h (\<lambda>i. wire_list inp add mul z h g ! i) g"
    by (simp add: wire_def Let_def nth_append)
  also have "\<dots> = wire_step inp add mul z h (wire inp add mul z h) g"
    by (rule wire_step_cong [OF assms]) (simp add: wire_list_nth)
  finally show ?thesis .
qed

text \<open>The parts of the gates on which the wires depend.\<close>

definition same_links :: "'a heap \<Rightarrow> 'a heap \<Rightarrow> bool" where
  "same_links h h' \<longleftrightarrow> map (\<lambda>G. (gclass G, mLeft G, mRight G, mOwnerID G)) h' = map (\<lambda>G. (gclass G, mLeft G, mRight G, mOwnerID G)) h"

lemma same_links_length: "same_links h h' \<Longrightarrow> length h' = length h"
  unfolding same_links_def by (rule map_eq_imp_length_eq)

lemma same_links_at:
  assumes "same_links h h'" "g < length h"
  shows "gclass (h' ! g) = gclass (h ! g)" "mLeft (h' ! g) = mLeft (h ! g)" "mRight (h' ! g) = mRight (h ! g)"
    "mOwnerID (h' ! g) = mOwnerID (h ! g)"
proof -
  let ?f = "\<lambda>G. (gclass G, mLeft G, mRight G, mOwnerID G)"
  have "map ?f h' ! g = map ?f h ! g" using assms(1) by (simp add: same_links_def)
  then show "gclass (h' ! g) = gclass (h ! g)" "mLeft (h' ! g) = mLeft (h ! g)" "mRight (h' ! g) = mRight (h ! g)"
    "mOwnerID (h' ! g) = mOwnerID (h ! g)"
    using assms(2) same_links_length [OF assms(1)] by simp_all
qed

lemma same_linksI:
  assumes "length h' = length h" "\<And>g. g < length h \<Longrightarrow> gclass (h' ! g) = gclass (h ! g) \<and> mLeft (h' ! g) = mLeft (h ! g)
      \<and> mRight (h' ! g) = mRight (h ! g) \<and> mOwnerID (h' ! g) = mOwnerID (h ! g)"
  shows "same_links h h'"
  unfolding same_links_def using assms by (intro nth_equalityI) simp_all

lemma same_links_refl: "same_links h h"
  by (simp add: same_links_def)

lemma same_links_trans: "same_links h h' \<Longrightarrow> same_links h' h'' \<Longrightarrow> same_links h h''"
  by (simp add: same_links_def)

lemma same_links_mark:
  assumes "\<And>G. gclass (f G) = gclass G \<and> mLeft (f G) = mLeft G \<and> mRight (f G) = mRight G \<and> mOwnerID (f G) = mOwnerID G"
  shows "same_links h (mark f gs h)"
  using assms by (intro same_linksI) simp_all

lemma linked_same: "same_links h h' \<Longrightarrow> linked h \<Longrightarrow> linked h'"
proof -
  assume s: "same_links h h'" and l: "linked h"
  have "linked_gate g (h' ! g) = linked_gate g (h ! g)" if "g < length h" for g
    unfolding linked_gate_def same_links_at [OF s that] ..
  then show ?thesis using l same_links_length [OF s] by (simp add: linked_def list_all_iff)
qed

lemma parents_same:
  assumes "same_links h h'" "g < length h"
  shows "left_of h' g = left_of h g" "right_of h' g = right_of h g"
  using same_links_at [OF assms] by (simp_all add: left_of_def right_of_def)

section \<open>Closed circuits\<close>

definition in_batches :: "('a, 'g) circuit \<Rightarrow> nat list" where
  "in_batches c = concat (map ilBatches (mInputLayers c))"

definition out_batches :: "('a, 'g) circuit \<Rightarrow> nat list" where
  "out_batches c = concat (map olBatches (mOutputLayers c))"

definition mult_batches :: "('a, 'g) circuit \<Rightarrow> nat list" where
  "mult_batches c = concat (layer_batches c)"

definition in_gates :: "('a, 'g) party \<Rightarrow> nat list" where
  "in_gates = (\<lambda>(st, c). concat (map (\<lambda>p. ibGates (sInputBatches st ! p)) (in_batches c)))"

definition out_gates :: "('a, 'g) party \<Rightarrow> nat list" where
  "out_gates = (\<lambda>(st, c). concat (map (\<lambda>p. obGates (sOutputBatches st ! p)) (out_batches c)))"

definition fresh :: "'a heap \<Rightarrow> bool" where
  "fresh h \<longleftrightarrow> list_all (\<lambda>G. \<not> mLearned G \<and> \<not> mLambdaSet G \<and> \<not> mEvaluated G) h"

definition has_class :: "'a heap \<Rightarrow> gate_class list \<Rightarrow> nat \<Rightarrow> bool" where
  "has_class h cs g \<longleftrightarrow> g < length h \<and> gclass (h ! g) \<in> set cs"

definition inputs_closed :: "nat \<Rightarrow> ('a, 'g) party \<Rightarrow> bool" where
  "inputs_closed k = (\<lambda>(st, c). let h = sGates st in
     length (mFlatInputGates c) = mClients c \<and> distinct (concat (mFlatInputGates c))
     \<and> list_all (\<lambda>p. p < length (sInputBatches st) \<and> length (ibGates (sInputBatches st ! p)) = k) (in_batches c)
     \<and> list_all (has_class h [InputGate, PadInputGate]) (in_gates (st, c))
     \<and> list_all (\<lambda>i. list_all (\<lambda>g. g \<in> set (in_gates (st, c)) \<and> has_class h [InputGate] g \<and> mOwnerID (h ! g) = i)
          (mFlatInputGates c ! i)) [0..<mClients c]
     \<and> list_all (\<lambda>g. gclass (h ! g) = InputGate \<longrightarrow> g \<in> set (concat (mFlatInputGates c))) [0..<length h]
     \<and> set (mInputGates c) = set (concat (mFlatInputGates c)))"

definition outputs_closed :: "nat \<Rightarrow> ('a, 'g) party \<Rightarrow> bool" where
  "outputs_closed k = (\<lambda>(st, c). let h = sGates st in
     length (mFlatOutputGates c) = mClients c
     \<and> list_all (\<lambda>p. p < length (sOutputBatches st) \<and> length (obGates (sOutputBatches st ! p)) = k) (out_batches c)
     \<and> list_all (has_class h [OutputGate, PadOutputGate]) (out_gates (st, c))
     \<and> list_all (\<lambda>i. list_all (\<lambda>g. g \<in> set (out_gates (st, c)) \<and> has_class h [OutputGate] g \<and> mOwnerID (h ! g) = i)
          (mFlatOutputGates c ! i)) [0..<mClients c]
     \<and> set (mOutputGates c) = set (concat (mFlatOutputGates c)))"

text \<open>The multiplication layers, and the layer of a gate.\<close>

definition flat_mults :: "('a, 'g) circuit \<Rightarrow> nat list list" where
  "flat_mults c = take (length (mMultLayers c)) (mFlatMultLayers c)"

primrec layer_of :: "nat list list \<Rightarrow> nat \<Rightarrow> nat" where
  "layer_of [] g = 0"
| "layer_of (gs # gss) g = (if g \<in> set gs then 0 else Suc (layer_of gss g))"

definition mults_closed :: "nat \<Rightarrow> ('a, 'g) party \<Rightarrow> bool" where
  "mults_closed k = (\<lambda>(st, c). let h = sGates st; D = length (mMultLayers c); GS = (\<lambda>p. mbGates (sMultBatches st ! p)) in
     D \<le> length (mFlatMultLayers c) \<and> distinct (concat (flat_mults c)) \<and> list_all distinct (layer_batches c)
     \<and> list_all (\<lambda>p. p < length (sMultBatches st) \<and> mbSize (sMultBatches st ! p) = k \<and> length (GS p) = k) (mult_batches c)
     \<and> list_all (\<lambda>d. list_all (\<lambda>p. list_all (\<lambda>g. g < length h \<and> (g \<in> set (flat_mults c ! d) \<or> gclass (h ! g) = PadMultGate)) (GS p))
            (layer_batches c ! d)
          \<and> list_all (\<lambda>g. g \<in> set (concat (map GS (layer_batches c ! d))) \<and> has_class h [MultGate] g) (flat_mults c ! d)) [0..<D]
     \<and> list_all (\<lambda>g. gclass (h ! g) = MultGate \<longrightarrow> g \<in> set (concat (flat_mults c))) [0..<length h])"

definition level :: "('a, 'g) party \<Rightarrow> nat \<Rightarrow> nat" where
  "level = (\<lambda>(st, c). wire (\<lambda>_. 0) max (\<lambda>g _ _. Suc (layer_of (flat_mults c) g)) 0 (sGates st))"

definition well_layered :: "('a, 'g) party \<Rightarrow> bool" where
  "well_layered = (\<lambda>(st, c). list_all (\<lambda>d. list_all (\<lambda>g.
     level (st, c) (left_of (sGates st) g) \<le> d \<and> level (st, c) (right_of (sGates st) g) \<le> d) (flat_mults c ! d))
     [0..<length (mMultLayers c)])"

text \<open>The gates that the user connects have no padding gate as a parent.\<close>

definition is_pad :: "'a gate \<Rightarrow> bool" where
  "is_pad G \<longleftrightarrow> gclass G \<in> set [PadInputGate, PadMultGate, PadOutputGate]"

definition unpadded :: "'a heap \<Rightarrow> bool" where
  "unpadded h \<longleftrightarrow> list_all (\<lambda>g. case gclass (h ! g) of
      AddGate \<Rightarrow> \<not> is_pad (h ! left_of h g) \<and> \<not> is_pad (h ! right_of h g)
    | MultGate \<Rightarrow> \<not> is_pad (h ! left_of h g) \<and> \<not> is_pad (h ! right_of h g)
    | OutputGate \<Rightarrow> \<not> is_pad (h ! left_of h g)
    | _ \<Rightarrow> True) [0..<length h]"

definition closed_circuit :: "nat \<Rightarrow> ('a, 'g) party \<Rightarrow> bool" where
  "closed_circuit k s \<longleftrightarrow> 0 < k \<and> cBatchSize (snd s) = k \<and> mIsClosed (snd s) \<and> linked (sGates (fst s)) \<and> unpadded (sGates (fst s))
     \<and> fresh (sGates (fst s)) \<and> inputs_closed k s \<and> outputs_closed k s \<and> mults_closed k s \<and> well_layered s"

end
