(* ===== verification/LayerFill.thy ===== *)
theory LayerFill
  imports Closed
begin

text \<open>
  Filling a layer with gates. The three kinds of layer append a gate to their last batch, or to a new
  batch when the last one is full, and are closed by padding the last batch. The locale \<open>batch_class\<close>
  is what the layers rely on; it is interpreted for the batches of inputs, outputs and
  multiplications, and its lemmas give the effect of \<open>Append\<close> and \<open>Close\<close> on the batches of a layer.
\<close>

section \<open>Layers as lists of batches\<close>

text \<open>
  A layer \<open>ps\<close> over the batches \<open>bs\<close>: every batch is an \<open>ok\<close> one, all but the last are full. The
  locale below fixes what \<open>gates\<close> and \<open>ok\<close> are.
\<close>

definition gates_of_layer :: "('b \<Rightarrow> nat list) \<Rightarrow> 'b list \<Rightarrow> nat list \<Rightarrow> nat set" where
  "gates_of_layer gates bs ps = (\<Union>p\<in>set ps. set (gates (bs ! p)))"

definition layer_ok :: "('b \<Rightarrow> nat list) \<Rightarrow> ('b \<Rightarrow> bool) \<Rightarrow> nat \<Rightarrow> 'b list \<Rightarrow> nat list \<Rightarrow> bool" where
  "layer_ok gates ok k bs ps \<longleftrightarrow> ps \<noteq> [] \<and> distinct ps
     \<and> (\<forall>p\<in>set ps. p < length bs \<and> ok (bs ! p) \<and> length (gates (bs ! p)) \<le> k)
     \<and> (\<forall>p\<in>set (butlast ps). length (gates (bs ! p)) = k)"

definition layer_full :: "('b \<Rightarrow> nat list) \<Rightarrow> nat \<Rightarrow> 'b list \<Rightarrow> nat list \<Rightarrow> bool" where
  "layer_full gates k bs ps \<longleftrightarrow> (\<forall>p\<in>set ps. length (gates (bs ! p)) = k)"

text \<open>Nothing outside of a layer changes when it is filled.\<close>

definition only_layer :: "nat list \<Rightarrow> 'b list \<Rightarrow> 'b list \<Rightarrow> bool" where
  "only_layer ps bs bs' \<longleftrightarrow> length bs \<le> length bs' \<and> (\<forall>p < length bs. p \<notin> set ps \<longrightarrow> bs' ! p = bs ! p)"

lemma only_layerD:
  assumes "only_layer ps bs bs'"
  shows "length bs \<le> length bs'" "p < length bs \<Longrightarrow> p \<notin> set ps \<Longrightarrow> bs' ! p = bs ! p"
  using assms by (simp_all add: only_layer_def)

lemma only_layer_frame:
  assumes "only_layer ps bs bs'" "set qs \<inter> set ps = {}" "\<forall>q\<in>set qs. q < length bs"
  shows "gates_of_layer gates bs' qs = gates_of_layer gates bs qs" "layer_ok gates ok k bs' qs = layer_ok gates ok k bs qs"
    "layer_full gates k bs' qs = layer_full gates k bs qs"
proof -
  have same: "bs' ! q = bs ! q" and len: "q < length bs \<and> q < length bs'" if "q \<in> set qs" for q
    using assms that by (auto simp: only_layer_def)
  have "q \<in> set (butlast qs) \<Longrightarrow> bs' ! q = bs ! q" for q by (rule same) (rule in_set_butlastD)
  then show "gates_of_layer gates bs' qs = gates_of_layer gates bs qs" "layer_ok gates ok k bs' qs = layer_ok gates ok k bs qs"
    "layer_full gates k bs' qs = layer_full gates k bs qs"
    using same len by (auto simp: gates_of_layer_def layer_ok_def layer_full_def)
qed

section \<open>The contract of a batch\<close>

locale batch_class =
  fixes gates :: "'b \<Rightarrow> nat list" and ok :: "'b \<Rightarrow> bool" and k :: nat and okg :: "nat \<Rightarrow> bool"
    and append :: "nat \<Rightarrow> 'b \<Rightarrow> 'b res" and room :: "'b \<Rightarrow> bool" and new :: 'b and pad :: "nat \<Rightarrow> 'b \<Rightarrow> 'b res"
  assumes append_room: "ok b \<Longrightarrow> length (gates b) < k \<Longrightarrow> okg g \<Longrightarrow> \<exists>b'. append g b = Inr b' \<and> ok b' \<and> gates b' = gates b @ [g]"
    and room_iff: "ok b \<Longrightarrow> room b \<longleftrightarrow> length (gates b) < k"
    and new_ok: "ok new" "gates new = []"
    and pad_unfold: "pad g b = (if room b then bindE (append g b) (pad g) else Inr b)"
begin

definition layer_append :: "nat \<Rightarrow> 'b list \<Rightarrow> nat list \<Rightarrow> ('b list \<times> nat list) res" where
  "layer_append g bs ps = bindE (vback ps) (\<lambda>p. bindE (vget bs p) (\<lambda>b.
     if room b then bindE (append g b) (\<lambda>b. Inr (bs[p := b], ps))
     else bindE (append g new) (\<lambda>b. Inr (bs @ [b], ps @ [length bs]))))"

definition layer_pad :: "nat \<Rightarrow> 'b list \<Rightarrow> nat list \<Rightarrow> 'b list res" where
  "layer_pad g bs ps = bindE (vback ps) (\<lambda>p. bindE (vget bs p) (\<lambda>b. bindE (pad g b) (\<lambda>b. Inr (bs[p := b]))))"

lemma layer_new: "layer_ok gates ok k (bs @ [new]) [length bs]" "gates_of_layer gates (bs @ [new]) [length bs] = {}"
  by (simp_all add: layer_ok_def gates_of_layer_def new_ok)

lemma layer_last:
  assumes "layer_ok gates ok k bs ps"
  shows "vback ps = Inr (last ps)" "last ps < length bs" "ok (bs ! last ps)" "length (gates (bs ! last ps)) \<le> k"
    "p \<in> set ps \<Longrightarrow> p \<noteq> last ps \<Longrightarrow> length (gates (bs ! p)) = k"
proof -
  have ps: "ps \<noteq> []" using assms by (simp add: layer_ok_def)
  then show "vback ps = Inr (last ps)" by (simp add: vback_def)
  show "last ps < length bs" "ok (bs ! last ps)" "length (gates (bs ! last ps)) \<le> k"
    using assms ps by (auto simp: layer_ok_def)
  show "length (gates (bs ! p)) = k" if "p \<in> set ps" "p \<noteq> last ps"
  proof -
    have "ps = butlast ps @ [last ps]" using ps by simp
    then have "set ps = insert (last ps) (set (butlast ps))" by (metis list.set(2) rotate1.simps(2) set_rotate1)
    then show ?thesis using that assms unfolding layer_ok_def by blast
  qed
qed

text \<open>Replacing the last batch by one with more gates.\<close>

lemma layer_update_last:
  assumes L: "layer_ok gates ok k bs ps" and b: "ok b" "length (gates b) \<le> k" "gates b = gates (bs ! last ps) @ xs"
  shows "layer_ok gates ok k (bs[last ps := b]) ps"
    and "gates_of_layer gates (bs[last ps := b]) ps = gates_of_layer gates bs ps \<union> set xs"
    and "only_layer ps bs (bs[last ps := b])"
proof -
  note last = layer_last [OF L]
  have ps: "ps \<noteq> []" "distinct ps" using L by (simp_all add: layer_ok_def)
  have "last ps \<notin> set (butlast ps)" using ps by (metis append_butlast_last_id distinct_butlast not_distinct_conv_prefix)
  then show "layer_ok gates ok k (bs[last ps := b]) ps"
    using L b last(2) unfolding layer_ok_def by (auto simp: nth_list_update)
  have m: "last ps \<in> set ps" using ps(1) by simp
  have "(g \<in> gates_of_layer gates (bs[last ps := b]) ps) = (g \<in> gates_of_layer gates bs ps \<union> set xs)" for g
  proof -
    have "(\<exists>p\<in>set ps. g \<in> set (gates (bs[last ps := b] ! p))) = (\<exists>p\<in>set ps. g \<in> set (gates (bs ! p)) \<or> p = last ps \<and> g \<in> set xs)"
      using last(2) b(3) by (intro bex_cong refl) (simp add: nth_list_update)
    then show ?thesis using m by (auto simp: gates_of_layer_def)
  qed
  then show "gates_of_layer gates (bs[last ps := b]) ps = gates_of_layer gates bs ps \<union> set xs" by blast
  have "bs[last ps := b] ! p = bs ! p" if "p \<notin> set ps" for p using m that by (intro nth_list_update_neq) blast
  then show "only_layer ps bs (bs[last ps := b])" by (simp add: only_layer_def)
qed

lemma layer_append_run:
  assumes L: "layer_ok gates ok k bs ps" and g: "okg g" and size_pos: "0 < k"
  obtains bs' ps' where "layer_append g bs ps = Inr (bs', ps')" "layer_ok gates ok k bs' ps'"
    "gates_of_layer gates bs' ps' = insert g (gates_of_layer gates bs ps)" "only_layer ps bs bs'"
    "set ps' - set ps \<subseteq> {length bs}"
proof (cases "room (bs ! last ps)")
  case True
  note last = layer_last [OF L]
  have room: "length (gates (bs ! last ps)) < k" using True room_iff [OF last(3)] by simp
  from append_room [OF last(3) room g] obtain b where
    b: "append g (bs ! last ps) = Inr b" "ok b" "gates b = gates (bs ! last ps) @ [g]" by blast
  have "length (gates b) \<le> k" using b(3) room by simp
  note upd = layer_update_last [OF L b(2) this b(3)]
  have "layer_append g bs ps = Inr (bs[last ps := b], ps)"
    using last(1,2) True b(1) by (simp add: layer_append_def)
  then show ?thesis by (rule that) (use upd in simp_all)
next
  case False
  note last = layer_last [OF L]
  have full: "length (gates (bs ! last ps)) = k" using False room_iff [OF last(3)] last(4) by simp
  from append_room [OF new_ok(1) _ g] new_ok(2) size_pos obtain b where
    b: "append g new = Inr b" "ok b" "gates b = [g]" by auto
  have all: "length (gates (bs ! p)) = k" "p < length bs" "ok (bs ! p)" if "p \<in> set ps" for p
    using last(5) [OF that] full L that by (cases "p = last ps"; auto simp: layer_ok_def)+
  have "layer_append g bs ps = Inr (bs @ [b], ps @ [length bs])"
    using last(1,2) False b(1) by (simp add: layer_append_def)
  then show ?thesis
  proof (rule that)
    have "distinct ps" using L by (simp add: layer_ok_def)
    then show "layer_ok gates ok k (bs @ [b]) (ps @ [length bs])"
      using all b size_pos unfolding layer_ok_def by (auto simp: nth_append less_Suc_eq)
    show "gates_of_layer gates (bs @ [b]) (ps @ [length bs]) = insert g (gates_of_layer gates bs ps)"
      using all b by (auto simp: gates_of_layer_def nth_append)
  qed (auto simp: only_layer_def nth_append)
qed

lemma pad_run:
  assumes "okg g"
  shows "ok b \<Longrightarrow> length (gates b) \<le> k \<Longrightarrow>
    \<exists>b'. pad g b = Inr b' \<and> ok b' \<and> gates b' = gates b @ replicate (k - length (gates b)) g"
proof (induction "k - length (gates b)" arbitrary: b)
  case 0
  then have "\<not> room b" using room_iff by simp
  then show ?case using 0 by (auto simp: pad_unfold [of g b])
next
  case (Suc m)
  then have "length (gates b) < k" by simp
  from append_room [OF Suc.prems(1) this assms] obtain b1 where
    b1: "append g b = Inr b1" "ok b1" "gates b1 = gates b @ [g]" by blast
  have "m = k - length (gates b1)" "length (gates b1) \<le> k" using Suc.hyps(2) b1(3) by simp_all
  from Suc.hyps(1) [OF this(1) b1(2) this(2)] obtain b2 where
    b2: "pad g b1 = Inr b2" "ok b2" "gates b2 = gates b1 @ replicate (k - length (gates b1)) g" by blast
  have "gates b2 = gates b @ replicate (k - length (gates b)) g"
    using b2(3) b1(3) Suc.hyps(2) by (metis \<open>m = k - length (gates b1)\<close> append.assoc append_Cons append_Nil replicate_Suc)
  moreover have "pad g b = Inr b2"
    using b1(1) b2(1) \<open>length (gates b) < k\<close> room_iff [OF Suc.prems(1)] by (simp add: pad_unfold [of g b])
  ultimately show ?case using b2(2) by blast
qed

lemma layer_pad_run:
  assumes L: "layer_ok gates ok k bs ps" and g: "okg g"
  obtains bs' where "layer_pad g bs ps = Inr bs'" "layer_ok gates ok k bs' ps" "layer_full gates k bs' ps"
    "gates_of_layer gates bs ps \<subseteq> gates_of_layer gates bs' ps" "gates_of_layer gates bs' ps \<subseteq> insert g (gates_of_layer gates bs ps)"
    "only_layer ps bs bs'" "length bs' = length bs"
proof -
  note last = layer_last [OF L]
  let ?xs = "replicate (k - length (gates (bs ! last ps))) g"
  from pad_run [OF g last(3,4)] obtain b where
    b: "pad g (bs ! last ps) = Inr b" "ok b" "gates b = gates (bs ! last ps) @ ?xs" by blast
  have len: "length (gates b) = k" using b(3) last(4) by simp
  then have "length (gates b) \<le> k" by simp
  note upd = layer_update_last [OF L b(2) this b(3)]
  have "layer_pad g bs ps = Inr (bs[last ps := b])"
    using last(1,2) b(1) by (simp add: layer_pad_def)
  moreover have "layer_full gates k (bs[last ps := b]) ps"
    unfolding layer_full_def
  proof (intro ballI)
    fix p assume "p \<in> set ps"
    then show "length (gates (bs[last ps := b] ! p)) = k"
      using last(2) len last(5) by (cases "p = last ps") auto
  qed
  ultimately show ?thesis using that upd by fastforce
qed

end

section \<open>The three kinds of batch\<close>

definition input_batch_of :: "nat \<Rightarrow> nat \<Rightarrow> ('a, 'g) input_batch \<Rightarrow> bool" where
  "input_batch_of i k b \<longleftrightarrow> ibOwnerID b = i \<and> ibSize b = k"

definition output_batch_of :: "nat \<Rightarrow> nat \<Rightarrow> ('a, 'g) output_batch \<Rightarrow> bool" where
  "output_batch_of i k b \<longleftrightarrow> obOwnerID b = i \<and> obSize b = k"

definition owned_gate :: "'a heap \<Rightarrow> nat \<Rightarrow> nat \<Rightarrow> bool" where
  "owned_gate h i g \<longleftrightarrow> g < length h \<and> mOwnerID (h ! g) = i"

interpretation input_fill: batch_class ibGates "input_batch_of i k" k "owned_gate h i" "InputBatch_Append h" InputBatch_HasRoom
    "new_InputBatch prg i k" "InputBatch_pad h" for i k h prg
proof
  fix b g show "InputBatch_pad h g b = (if InputBatch_HasRoom b then bindE (InputBatch_Append h g b) (InputBatch_pad h g) else Inr b)"
    by (rule InputBatch_pad.simps)
qed (auto simp: input_batch_of_def owned_gate_def InputBatch_Append_def InputBatch_HasRoom_def
  new_InputBatch_def InputGate_GetOwner_def)

interpretation output_fill: batch_class obGates "output_batch_of i k" k "owned_gate h i" "OutputBatch_Append h" OutputBatch_HasRoom
    "new_OutputBatch prg i k" "OutputBatch_pad h" for i k h prg
proof
  fix b g show "OutputBatch_pad h g b = (if OutputBatch_HasRoom b then bindE (OutputBatch_Append h g b) (OutputBatch_pad h g) else Inr b)"
    by (rule OutputBatch_pad.simps)
qed (auto simp: output_batch_of_def owned_gate_def OutputBatch_Append_def OutputBatch_HasRoom_def
  new_OutputBatch_def OutputGate_GetOwner_def)

interpretation mult_fill: batch_class mbGates "\<lambda>b. mbSize b = k" k "\<lambda>g. True" MultBatch_Append MultBatch_HasRoom
    "new_MultBatch prg k" MultBatch_pad for k prg
proof
  fix b g show "MultBatch_pad g b = (if MultBatch_HasRoom b then bindE (MultBatch_Append g b) (MultBatch_pad g) else Inr b)"
    by (rule MultBatch_pad.simps)
qed (auto simp: MultBatch_Append_def MultBatch_HasRoom_def new_MultBatch_def)

text \<open>\<open>Append\<close> and \<open>Close\<close> of the layers in these terms.\<close>

lemma InputLayer_Append_eq:
  "InputLayer_Append prg g (st, ly) = bindE (input_fill.layer_append (sGates st) prg (ilOwnerID ly) (ilBatchSize ly) g (sInputBatches st) (ilBatches ly))
     (\<lambda>(bs, ps). Inr (st\<lparr> sInputBatches := bs \<rparr>, ly\<lparr> ilBatches := ps \<rparr>))"
  unfolding InputLayer_Append_def input_fill.layer_append_def prod.case bindE_assoc
  by (intro bindE_cong refl) (simp add: bindE_assoc)

lemma OutputLayer_Append_eq:
  "OutputLayer_Append prg g (st, ly) = bindE (output_fill.layer_append (sGates st) prg (olOwnerID ly) (olBatchSize ly) g (sOutputBatches st) (olBatches ly))
     (\<lambda>(bs, ps). Inr (st\<lparr> sOutputBatches := bs \<rparr>, ly\<lparr> olBatches := ps \<rparr>))"
  unfolding OutputLayer_Append_def output_fill.layer_append_def prod.case bindE_assoc
  by (intro bindE_cong refl) (simp add: bindE_assoc)

lemma MultLayer_Append_eq:
  "MultLayer_Append prg g (st, ly) = bindE (mult_fill.layer_append prg (mlBatchSize ly) g (sMultBatches st) (mlBatches ly))
     (\<lambda>(bs, ps). Inr (st\<lparr> sMultBatches := bs \<rparr>, ly\<lparr> mlBatches := ps \<rparr>))"
  unfolding MultLayer_Append_def mult_fill.layer_append_def prod.case bindE_assoc
  by (intro bindE_cong refl) (simp add: bindE_assoc)

text \<open>The padding gate that \<open>Close\<close> makes, at the end of the heap; its assertion holds.\<close>

definition pad_gate :: "gate_class \<Rightarrow> nat \<Rightarrow> nat \<Rightarrow> 'a::zero gate" where
  "pad_gate c i g = (case c of PadInputGate \<Rightarrow> new_PadInputGate i
    | PadOutputGate \<Rightarrow> PadOutputGate_UpdateParent g (new_PadOutputGate i)
    | _ \<Rightarrow> PadMultGate_UpdateParents g g new_PadMultGate)"

lemmas pad_gate_defs = pad_gate_def new_PadInputGate_def new_InputGate_def new_PadOutputGate_def new_PadMultGate_def
  PadOutputGate_UpdateParent_def PadMultGate_UpdateParents_def Gate_init_def

lemma assert_mu_0_pad:
  assumes "g < length h" "is_pad (h ! g)"
  shows "assert_mu_0 g h = retP ()"
  using assms by (auto simp: assert_mu_0_def GetMu.simps [of h g] is_pad_def)

lemma InputLayer_Close_eq:
  fixes st :: "('a::field, 'g) store" and h and ly
  defines "h \<equiv> sGates st @ [pad_gate PadInputGate (ilOwnerID ly) (length (sGates st))]"
  shows "InputLayer_Close (st, ly) = bindP (liftP (input_fill.layer_pad h (length (sGates st)) (sInputBatches st) (ilBatches ly)))
     (\<lambda>bs. retP (st\<lparr> sGates := h, sInputBatches := bs \<rparr>, ly))"
proof -
  have "assert_mu_0 (length (sGates st)) h = retP ()"
    by (rule assert_mu_0_pad) (simp_all add: h_def pad_gate_defs is_pad_def)
  then show ?thesis
    by (simp add: InputLayer_Close_def input_fill.layer_pad_def alloc_gate_def make_shared_def Let_def h_def pad_gate_def
        bindE_def liftP_def retP_def bindP_def split: sum.splits)
qed

lemma OutputLayer_Close_eq:
  fixes st :: "('a::field, 'g) store" and h and ly
  defines "h \<equiv> sGates st @ [pad_gate PadOutputGate (olOwnerID ly) (length (sGates st))]"
  shows "OutputLayer_Close (st, ly) = bindP (liftP (output_fill.layer_pad h (length (sGates st)) (sOutputBatches st) (olBatches ly)))
     (\<lambda>bs. retP (st\<lparr> sGates := h, sOutputBatches := bs \<rparr>, ly))"
proof -
  have "assert_mu_0 (length (sGates st)) h = retP ()"
    by (rule assert_mu_0_pad) (simp_all add: h_def pad_gate_defs is_pad_def)
  then show ?thesis
    by (simp add: OutputLayer_Close_def output_fill.layer_pad_def alloc_gate_def make_shared_def upd_def Let_def h_def pad_gate_def
        bindE_def liftP_def retP_def bindP_def split: sum.splits)
qed

lemma MultLayer_Close_eq:
  fixes st :: "('a::field, 'g) store" and h and ly
  defines "h \<equiv> sGates st @ [pad_gate PadMultGate 0 (length (sGates st))]"
  shows "MultLayer_Close (st, ly) = bindP (liftP (mult_fill.layer_pad (length (sGates st)) (sMultBatches st) (mlBatches ly)))
     (\<lambda>bs. retP (st\<lparr> sGates := h, sMultBatches := bs \<rparr>, ly))"
proof -
  have "assert_mu_0 (length (sGates st)) h = retP ()"
    by (rule assert_mu_0_pad) (simp_all add: h_def pad_gate_defs is_pad_def)
  moreover have "mLeft (h ! length (sGates st)) = Some (length (sGates st))" "mRight (h ! length (sGates st)) = Some (length (sGates st))"
    by (simp_all add: h_def pad_gate_defs)
  ultimately show ?thesis
    by (simp add: MultLayer_Close_def mult_fill.layer_pad_def alloc_gate_def make_shared_def upd_def Let_def h_def pad_gate_def deref_def
        bindE_def liftP_def retP_def bindP_def split: sum.splits)
qed

end
