(* ===== verification/Building.thy ===== *)
theory Building
  imports LayerFill
begin

text \<open>
  The invariant of a circuit under construction, and that every operation of the building interface
  keeps it. The heap only grows; the layers of inputs, outputs and multiplications share the invariant
  \<open>layers_inv\<close>.
\<close>

section \<open>A heap that grows\<close>

lemma linked_snoc: "linked (h @ [G]) \<longleftrightarrow> linked h \<and> linked_gate (length h) G"
  by (auto simp: linked_def list_all_iff nth_append less_Suc_eq)

lemma fresh_snoc: "fresh (h @ [G]) \<longleftrightarrow> fresh h \<and> \<not> mLearned G \<and> \<not> mLambdaSet G \<and> \<not> mEvaluated G"
  by (simp add: fresh_def)

lemma parents_snoc:
  assumes "g < length h"
  shows "left_of (h @ [G]) g = left_of h g" "right_of (h @ [G]) g = right_of h g"
  using assms by (simp_all add: left_of_def right_of_def nth_append)

definition user_gate :: "'a heap \<Rightarrow> nat \<Rightarrow> bool" where
  "user_gate h g \<longleftrightarrow> g < length h \<and> \<not> is_pad (h ! g)"

lemma user_gate_snoc: "user_gate h g \<Longrightarrow> user_gate (h @ [G]) g"
  by (simp add: user_gate_def nth_append)

text \<open>A gate that the user appends points to gates that the user has.\<close>

definition user_links :: "'a heap \<Rightarrow> 'a gate \<Rightarrow> bool" where
  "user_links h G \<longleftrightarrow> (case gclass G of
      AddGate \<Rightarrow> (\<exists>l r. mLeft G = Some l \<and> mRight G = Some r \<and> user_gate h l \<and> user_gate h r)
    | MultGate \<Rightarrow> (\<exists>l r. mLeft G = Some l \<and> mRight G = Some r \<and> user_gate h l \<and> user_gate h r)
    | OutputGate \<Rightarrow> (\<exists>l. mLeft G = Some l \<and> user_gate h l)
    | PadMultGate \<Rightarrow> mLeft G = Some (length h) \<and> mRight G = Some (length h)
    | _ \<Rightarrow> True)"

lemma user_links_linked: "user_links h G \<Longrightarrow> linked_gate (length h) G"
  by (auto simp: user_links_def linked_gate_def user_gate_def split: gate_class.splits)

lemma unpadded_snoc:
  assumes "linked h" "unpadded h" "user_links h G"
  shows "unpadded (h @ [G])"
proof -
  let ?h = "h @ [G]"
  have "case gclass (?h ! g) of
      AddGate \<Rightarrow> \<not> is_pad (?h ! left_of ?h g) \<and> \<not> is_pad (?h ! right_of ?h g)
    | MultGate \<Rightarrow> \<not> is_pad (?h ! left_of ?h g) \<and> \<not> is_pad (?h ! right_of ?h g)
    | OutputGate \<Rightarrow> \<not> is_pad (?h ! left_of ?h g)
    | _ \<Rightarrow> True" if "g < length ?h" for g
  proof (cases "g < length h")
    case True
    note linkedD(1,2) [OF assms(1) True]
    moreover have "case gclass (h ! g) of
      AddGate \<Rightarrow> \<not> is_pad (h ! left_of h g) \<and> \<not> is_pad (h ! right_of h g)
    | MultGate \<Rightarrow> \<not> is_pad (h ! left_of h g) \<and> \<not> is_pad (h ! right_of h g)
    | OutputGate \<Rightarrow> \<not> is_pad (h ! left_of h g)
    | _ \<Rightarrow> True" using assms(2) True by (simp add: unpadded_def list_all_iff)
    ultimately show ?thesis using True by (auto simp: parents_snoc nth_append split: gate_class.splits)
  next
    case False
    then have "g = length h" using that by simp
    then show ?thesis using assms(3)
      by (auto simp: user_links_def user_gate_def left_of_def right_of_def nth_append split: gate_class.splits)
  qed
  then show ?thesis by (simp add: unpadded_def list_all_iff del: length_append length_append_singleton)
qed

definition heap_inv :: "'a heap \<Rightarrow> bool" where
  "heap_inv h \<longleftrightarrow> linked h \<and> unpadded h \<and> fresh h"

lemma heap_inv_snoc:
  assumes "heap_inv h" "user_links h G" "\<not> mLearned G" "\<not> mLambdaSet G" "\<not> mEvaluated G"
  shows "heap_inv (h @ [G])"
  using assms by (simp add: heap_inv_def linked_snoc fresh_snoc unpadded_snoc user_links_linked)

subsection \<open>Levels\<close>

lemma wire_list_snoc:
  "m \<le> length h \<Longrightarrow> wire_list inp add mul z (h @ [G]) m = wire_list inp add mul z h m"
proof (induction m)
  case (Suc m)
  then have "m < length h" by simp
  then show ?case using Suc by (simp add: Let_def wire_step_def parents_snoc nth_append cong: gate_class.case_cong)
qed simp

lemma wire_snoc: "g < length h \<Longrightarrow> wire inp add mul z (h @ [G]) g = wire inp add mul z h g"
  by (simp add: wire_def wire_list_snoc del: wire_list.simps)

lemma wire_list_mul_cong:
  assumes "\<And>g. g < length h \<Longrightarrow> gclass (h ! g) = MultGate \<Longrightarrow> mul g = mul' g"
  shows "m \<le> length h \<Longrightarrow> wire_list inp add mul z h m = wire_list inp add mul' z h m"
proof (induction m)
  case (Suc m)
  then have "m < length h" by simp
  then show ?case using Suc assms [of m] by (simp add: Let_def wire_step_def split: gate_class.split)
qed simp

lemma wire_mul_cong:
  assumes "\<And>g. g < length h \<Longrightarrow> gclass (h ! g) = MultGate \<Longrightarrow> mul g = mul' g" "g < length h"
  shows "wire inp add mul z h g = wire inp add mul' z h g"
  unfolding wire_def by (subst wire_list_mul_cong [OF assms(1)]) (use assms(2) in simp_all)

definition depth_at :: "'a heap \<Rightarrow> nat list list \<Rightarrow> nat \<Rightarrow> nat" where
  "depth_at h flats = wire (\<lambda>_. 0) max (\<lambda>g _ _. Suc (layer_of flats g)) 0 h"

lemma level_depth_at: "level (st, c) g = depth_at (sGates st) (flat_mults c) g"
  by (simp add: level_def depth_at_def)

text \<open>All gates of a class are in a list.\<close>

definition listed :: "gate_class \<Rightarrow> 'a heap \<Rightarrow> nat list \<Rightarrow> bool" where
  "listed c h gs \<longleftrightarrow> (\<forall>g<length h. gclass (h ! g) = c \<longrightarrow> g \<in> set gs)"

lemma listed_snoc: "listed c (h @ [G]) gs \<longleftrightarrow> listed c h gs \<and> (gclass G = c \<longrightarrow> length h \<in> set gs)"
  by (auto simp: listed_def nth_append less_Suc_eq)

lemma listed_mono: "listed c h gs \<Longrightarrow> set gs \<subseteq> set gs' \<Longrightarrow> listed c h gs'"
  by (auto simp: listed_def)

lemma depth_at_flats:
  assumes "listed MultGate h (concat flats)" "\<And>g. g \<in> set (concat flats) \<Longrightarrow> layer_of flats' g = layer_of flats g" "g < length h"
  shows "depth_at h flats' g = depth_at h flats g"
  unfolding depth_at_def
  by (rule wire_mul_cong [OF _ assms(3)]) (use assms(1,2) in \<open>auto simp: listed_def\<close>)

lemma depth_at_snoc: "g < length h \<Longrightarrow> depth_at (h @ [G]) flats g = depth_at h flats g"
  by (simp add: depth_at_def wire_snoc)

lemma layer_of_append: "g \<in> set (concat flats) \<Longrightarrow> layer_of (flats @ gss) g = layer_of flats g"
  by (induction flats) auto

lemma layer_of_last:
  "flats \<noteq> [] \<Longrightarrow> g \<in> set (concat flats) \<Longrightarrow> g \<noteq> m \<Longrightarrow>
    layer_of (flats[length flats - 1 := last flats @ [m]]) g = layer_of flats g"
proof (induction flats)
  case (Cons gs flats)
  then show ?case by (cases "flats = []"; cases "length flats") auto
qed simp

section \<open>Layers and their lists of gates\<close>

text \<open>
  The layers \<open>pss\<close> over a list of batches share no batch, hold only gates that \<open>C\<close> allows, and hold the
  gates that the circuit lists for each layer; the layers in \<open>F\<close> are full.
\<close>

definition layers_inv :: "('b \<Rightarrow> nat list) \<Rightarrow> (nat \<Rightarrow> 'b \<Rightarrow> bool) \<Rightarrow> nat \<Rightarrow> (nat \<Rightarrow> nat \<Rightarrow> bool) \<Rightarrow> nat set
    \<Rightarrow> 'b list \<Rightarrow> nat list list \<Rightarrow> nat list list \<Rightarrow> bool" where
  "layers_inv gates ok k C F bs pss flats \<longleftrightarrow> length flats = length pss
     \<and> (\<forall>i<length pss. \<forall>j<length pss. i \<noteq> j \<longrightarrow> set (pss ! i) \<inter> set (pss ! j) = {})
     \<and> (\<forall>i<length pss. layer_ok gates (ok i) k bs (pss ! i) \<and> (i \<in> F \<longrightarrow> layer_full gates k bs (pss ! i))
          \<and> (\<forall>g\<in>gates_of_layer gates bs (pss ! i). C i g) \<and> set (flats ! i) \<subseteq> gates_of_layer gates bs (pss ! i))"

lemma layers_invD:
  assumes "layers_inv gates ok k C F bs pss flats" "i < length pss"
  shows "length flats = length pss" "layer_ok gates (ok i) k bs (pss ! i)" "i \<in> F \<Longrightarrow> layer_full gates k bs (pss ! i)"
    "g \<in> gates_of_layer gates bs (pss ! i) \<Longrightarrow> C i g" "set (flats ! i) \<subseteq> gates_of_layer gates bs (pss ! i)"
    "j < length pss \<Longrightarrow> i \<noteq> j \<Longrightarrow> set (pss ! i) \<inter> set (pss ! j) = {}" "p \<in> set (pss ! i) \<Longrightarrow> p < length bs"
  using assms unfolding layers_inv_def layer_ok_def by blast+

lemma layers_mono:
  assumes "layers_inv gates ok k C F bs pss flats" "\<And>i g. i < length pss \<Longrightarrow> C i g \<Longrightarrow> C' i g" "F' \<subseteq> F"
  shows "layers_inv gates ok k C' F' bs pss flats"
  using assms unfolding layers_inv_def by blast

lemma layers_update:
  assumes L: "layers_inv gates ok k C F bs pss flats" and i: "i < length pss"
    and new: "layer_ok gates (ok i) k bs' ps'" "only_layer (pss ! i) bs bs'" "set ps' \<subseteq> insert (length bs) (set (pss ! i))"
      "i \<in> F' \<Longrightarrow> layer_full gates k bs' ps'" "F' - {i} \<subseteq> F" "\<And>g. g \<in> gates_of_layer gates bs' ps' \<Longrightarrow> C' i g"
      "\<And>j g. j < length pss \<Longrightarrow> j \<noteq> i \<Longrightarrow> C j g \<Longrightarrow> C' j g" "set flat' \<subseteq> gates_of_layer gates bs' ps'"
  shows "layers_inv gates ok k C' F' bs' (pss[i := ps']) (flats[i := flat'])"
proof -
  note LD = layers_invD [OF L]
  have disj: "set ps' \<inter> set (pss ! j) = {}" if "j < length pss" "j \<noteq> i" for j
    using new(3) LD(6) [OF i that(1)] LD(7) [OF that(1)] that(2) by fastforce
  have "layer_ok gates (ok j) k bs' (pss ! j) \<and> (j \<in> F' \<longrightarrow> layer_full gates k bs' (pss ! j))
      \<and> (\<forall>g\<in>gates_of_layer gates bs' (pss ! j). C' j g) \<and> set (flats ! j) \<subseteq> gates_of_layer gates bs' (pss ! j)"
    if j: "j < length pss" "j \<noteq> i" for j
  proof -
    have "set (pss ! j) \<inter> set (pss ! i) = {}" "\<forall>q\<in>set (pss ! j). q < length bs"
      using LD(6) [OF j(1) i j(2)] LD(7) [OF j(1)] by blast+
    note fr = only_layer_frame [OF new(2) this]
    show ?thesis unfolding fr using LD(2-5) [OF j(1)] new(5,7) j by blast
  qed
  moreover have "length (flats[i := flat']) = length (pss[i := ps'])" using LD(1) [OF i] by simp
  ultimately show ?thesis
    using new(1,4,6,8) i disj LD(1,6) LD(1) [OF i] unfolding layers_inv_def
    by (auto simp: nth_list_update Int_commute)
qed

lemma layers_new:
  assumes L: "layers_inv gates ok k C F bs pss flats" and b: "ok (length pss) b" "gates b = []" and F: "length pss \<notin> F"
  shows "layers_inv gates ok k C F (bs @ [b]) (pss @ [[length bs]]) (flats @ [[]])"
proof -
  note LD = layers_invD [OF L]
  have "only_layer [length bs] bs (bs @ [b])" by (auto simp: only_layer_def nth_append)
  note fr = only_layer_frame [OF this, of "pss ! j" for j]
  have "layer_ok gates (ok j) k (bs @ [b]) (pss ! j) \<and> (j \<in> F \<longrightarrow> layer_full gates k (bs @ [b]) (pss ! j))
      \<and> (\<forall>g\<in>gates_of_layer gates (bs @ [b]) (pss ! j). C j g) \<and> set (flats ! j) \<subseteq> gates_of_layer gates (bs @ [b]) (pss ! j)"
    if j: "j < length pss" for j
  proof -
    have d: "set (pss ! j) \<inter> set [length bs] = {}" "\<forall>q\<in>set (pss ! j). q < length bs" using LD(7) [OF j] by fastforce+
    show ?thesis unfolding fr [OF d] using LD(2-5) [OF j] by blast
  qed
  moreover have "layer_ok gates (ok (length pss)) k (bs @ [b]) [length bs]" "gates_of_layer gates (bs @ [b]) [length bs] = {}"
    using b by (simp_all add: layer_ok_def gates_of_layer_def)
  moreover have "length flats = length pss" using L by (simp add: layers_inv_def)
  moreover have "length bs \<notin> set (pss ! j)" if "j < length pss" for j using LD(7) [OF that, of "length bs"] by blast
  ultimately show ?thesis using F LD(6) unfolding layers_inv_def by (auto simp: nth_append less_Suc_eq)
qed

end
