(* ===== verification/Built.thy ===== *)
theory Built
  imports Building
begin

text \<open>
  Every circuit that the building interface makes is closed: the operations as a step relation, in any
  order that the interface means, their joint invariant \<open>circuit_inv\<close>, and that the invariant of a
  finished circuit is \<open>closed_circuit\<close>.
\<close>

section \<open>The invariant of the parts\<close>

lemma has_class_snoc: "has_class h cs g \<Longrightarrow> has_class (h @ [G]) cs g"
  by (simp add: has_class_def nth_append)

lemma owned_snoc: "has_class h cs g \<and> mOwnerID (h ! g) = i \<Longrightarrow> has_class (h @ [G]) cs g \<and> mOwnerID ((h @ [G]) ! g) = i"
  by (simp add: has_class_def nth_append)

text \<open>Layers of gates with owners, one layer for each of \<open>n\<close> clients; \<open>pc\<close> is the class of the padding.\<close>

definition owned_inv where
  "owned_inv gates ok k c pc n F h bs pss flat \<longleftrightarrow> length pss = n
     \<and> layers_inv gates ok k (\<lambda>i. has_class h [c, pc]) F bs pss flat
     \<and> (\<forall>i<n. \<forall>g\<in>set (flat ! i). has_class h [c] g \<and> mOwnerID (h ! g) = i)"

definition inputs_inv where
  "inputs_inv k n F h bs ils flat ins \<longleftrightarrow> (\<forall>i<n. ilOwnerID (ils ! i) = i \<and> ilBatchSize (ils ! i) = k)
     \<and> owned_inv ibGates (\<lambda>i. input_batch_of i k) k InputGate PadInputGate n F h bs (map ilBatches ils) flat
     \<and> distinct (concat flat) \<and> listed InputGate h (concat flat) \<and> set ins = set (concat flat)"

definition outputs_inv where
  "outputs_inv k n F h bs ols flat outs \<longleftrightarrow> (\<forall>i<n. olOwnerID (ols ! i) = i \<and> olBatchSize (ols ! i) = k)
     \<and> owned_inv obGates (\<lambda>i. output_batch_of i k) k OutputGate PadOutputGate n F h bs (map olBatches ols) flat
     \<and> set outs = set (concat flat)"

definition mult_in :: "'a heap \<Rightarrow> nat list list \<Rightarrow> nat \<Rightarrow> nat \<Rightarrow> bool" where
  "mult_in h flats d g \<longleftrightarrow> g < length h \<and> (g \<in> set (flats ! d) \<or> gclass (h ! g) = PadMultGate)"

definition mults_inv where
  "mults_inv k F h bs mls flats \<longleftrightarrow> mls \<noteq> [] \<and> (\<forall>l\<in>set mls. mlBatchSize l = k)
     \<and> layers_inv mbGates (\<lambda>i b. mbSize b = k) k (mult_in h flats) F bs (map mlBatches mls) flats
     \<and> (\<forall>g\<in>set (concat flats). has_class h [MultGate] g) \<and> distinct (concat flats) \<and> listed MultGate h (concat flats)"

definition levelled :: "'a heap \<Rightarrow> nat list list \<Rightarrow> bool" where
  "levelled h flats \<longleftrightarrow> (\<forall>d<length flats. \<forall>g\<in>set (flats ! d).
     depth_at h flats (left_of h g) \<le> d \<and> depth_at h flats (right_of h g) \<le> d)"

text \<open>The layers of a circuit that are full: all but the last one, before \<open>LastLayer\<close>.\<close>

definition full_layers :: "bool \<Rightarrow> 'b list \<Rightarrow> nat set" where
  "full_layers fin mls = {d. d < (if fin then length mls else length mls - 1)}"

definition circuit_inv :: "nat \<Rightarrow> nat \<Rightarrow> nat set \<Rightarrow> bool \<Rightarrow> nat set \<Rightarrow> ('a, 'g) party \<Rightarrow> bool" where
  "circuit_inv k n FI fin FO = (\<lambda>(st, c). 0 < k \<and> cBatchSize c = k \<and> mClients c = n \<and> heap_inv (sGates st)
     \<and> inputs_inv k n FI (sGates st) (sInputBatches st) (mInputLayers c) (mFlatInputGates c) (mInputGates c)
     \<and> outputs_inv k n FO (sGates st) (sOutputBatches st) (mOutputLayers c) (mFlatOutputGates c) (mOutputGates c)
     \<and> mults_inv k (full_layers fin (mMultLayers c)) (sGates st) (sMultBatches st) (mMultLayers c) (flat_mults c)
     \<and> levelled (sGates st) (flat_mults c)
     \<and> length (mFlatMultLayers c) = length (mMultLayers c) + (if fin then 1 else 0))"

lemmas circuit_invD = circuit_inv_def [THEN fun_cong, of k n FI fin FO "(st, c)" for k n FI fin FO st c, unfolded prod.case, THEN iffD1]

subsection \<open>A new gate\<close>

lemma owned_inv_snoc:
  assumes "owned_inv gates ok k c pc n F h bs pss flat"
  shows "owned_inv gates ok k c pc n F (h @ [G]) bs pss flat"
proof -
  have "layers_inv gates ok k (\<lambda>i. has_class (h @ [G]) [c, pc]) F bs pss flat"
    using assms(1) unfolding owned_inv_def by (intro layers_mono [OF _ has_class_snoc subset_refl]) blast+
  moreover have "\<forall>i<n. \<forall>g\<in>set (flat ! i). has_class (h @ [G]) [c] g \<and> mOwnerID ((h @ [G]) ! g) = i"
    using assms(1) unfolding owned_inv_def by (intro allI impI ballI owned_snoc) blast
  ultimately show ?thesis using assms unfolding owned_inv_def by blast
qed

lemma inputs_snoc: "inputs_inv k n F h bs ils flat ins \<Longrightarrow> gclass G \<noteq> InputGate \<Longrightarrow> inputs_inv k n F (h @ [G]) bs ils flat ins"
  unfolding inputs_inv_def listed_snoc by (blast intro: owned_inv_snoc)

lemma outputs_snoc: "outputs_inv k n F h bs ols flat outs \<Longrightarrow> outputs_inv k n F (h @ [G]) bs ols flat outs"
  unfolding outputs_inv_def by (blast intro: owned_inv_snoc)

lemma mult_in_snoc: "mult_in h flats d g \<Longrightarrow> mult_in (h @ [G]) flats d g"
  by (auto simp: mult_in_def nth_append)

lemma mults_snoc:
  assumes "mults_inv k F h bs mls flats" "gclass G \<noteq> MultGate"
  shows "mults_inv k F (h @ [G]) bs mls flats"
proof -
  have "layers_inv mbGates (\<lambda>i b. mbSize b = k) k (mult_in (h @ [G]) flats) F bs (map mlBatches mls) flats"
    using assms(1) unfolding mults_inv_def by (intro layers_mono [OF _ mult_in_snoc subset_refl]) blast+
  then show ?thesis using assms unfolding mults_inv_def listed_snoc by (blast intro: has_class_snoc)
qed

lemma mults_gate:
  assumes "mults_inv k F h bs mls flats" "heap_inv h" "d < length flats" "g \<in> set (flats ! d)"
  shows "g < length h" "gclass (h ! g) = MultGate" "left_of h g < g" "right_of h g < g"
proof -
  have "g \<in> set (concat flats)" using assms(3,4) by auto
  then have "has_class h [MultGate] g" using assms(1) unfolding mults_inv_def by blast
  then show g: "g < length h" "gclass (h ! g) = MultGate" by (simp_all add: has_class_def)
  show "left_of h g < g" "right_of h g < g" using linkedD(1) [of h g] assms(2) g by (simp_all add: heap_inv_def)
qed

lemma levelled_snoc:
  assumes "levelled h flats" "mults_inv k F h bs mls flats" "heap_inv h"
  shows "levelled (h @ [G]) flats"
  unfolding levelled_def
proof (intro allI impI ballI)
  fix d g assume d: "d < length flats" "g \<in> set (flats ! d)"
  note G = mults_gate [OF assms(2,3) d]
  have "left_of h g < length h" "right_of h g < length h" using G by simp_all
  then show "depth_at (h @ [G]) flats (left_of (h @ [G]) g) \<le> d \<and> depth_at (h @ [G]) flats (right_of (h @ [G]) g) \<le> d"
    using assms(1) d G(1) unfolding levelled_def by (simp add: parents_snoc depth_at_snoc)
qed

lemma circuit_snoc:
  assumes "circuit_inv k n FI fin FO (st, c)" "user_links (sGates st) G" "gclass G \<noteq> InputGate" "gclass G \<noteq> MultGate"
    "\<not> mLearned G" "\<not> mLambdaSet G" "\<not> mEvaluated G"
  shows "circuit_inv k n FI fin FO (st\<lparr> sGates := sGates st @ [G] \<rparr>, c)"
proof -
  note I = circuit_invD [OF assms(1)]
  then have mults: "mults_inv k (full_layers fin (mMultLayers c)) (sGates st) (sMultBatches st) (mMultLayers c) (flat_mults c)"
    and heap: "heap_inv (sGates st)" and lev: "levelled (sGates st) (flat_mults c)" by blast+
  show ?thesis
    unfolding circuit_inv_def prod.case
    using I heap_inv_snoc [OF heap assms(2,5-7)] inputs_snoc [OF _ assms(3)] outputs_snoc mults_snoc [OF mults assms(4)]
      levelled_snoc [OF lev mults heap] by (simp, blast)
qed

text \<open>What a step leaves of the gates that are there: the heap has grown, levels are as they were.\<close>

definition extends :: "('a, 'g) party \<Rightarrow> ('a, 'g) party \<Rightarrow> bool" where
  "extends s s' \<longleftrightarrow> (\<exists>hs. sGates (fst s') = sGates (fst s) @ hs) \<and> (\<forall>x<length (sGates (fst s)). level s' x = level s x)"

lemma extends_refl: "extends s s"
  by (simp add: extends_def)

lemma extends_trans: "extends s s' \<Longrightarrow> extends s' s'' \<Longrightarrow> extends s s''"
  by (auto simp: extends_def)

lemma extends_user: "extends s s' \<Longrightarrow> user_gate (sGates (fst s)) g \<Longrightarrow> user_gate (sGates (fst s')) g \<and> level s' g = level s g"
  by (auto simp: extends_def user_gate_def nth_append)

lemma extends_snoc:
  assumes "sGates (fst s') = sGates (fst s) @ [G]" "flat_mults (snd s') = flat_mults (snd s)"
  shows "extends s s'"
proof -
  have "level s' x = level s x" if "x < length (sGates (fst s))" for x
    using depth_at_snoc [OF that] level_depth_at [of "fst s" "snd s"] level_depth_at [of "fst s'" "snd s'"] assms by simp
  then show ?thesis using assms(1) by (auto simp: extends_def)
qed

section \<open>Inputs and outputs\<close>

lemma concat_push:
  assumes "i < length xss"
  shows "set (concat (xss[i := xss ! i @ [g]])) = insert g (set (concat xss))"
    "distinct (concat xss) \<Longrightarrow> g \<notin> set (concat xss) \<Longrightarrow> distinct (concat (xss[i := xss ! i @ [g]]))"
proof -
  let ?a = "concat (take i xss)" and ?b = "concat (drop (Suc i) xss)"
  have "concat (xss[i := xss ! i @ [g]]) = ?a @ xss ! i @ [g] @ ?b" using assms by (simp add: upd_conv_take_nth_drop)
  moreover have "concat xss = ?a @ xss ! i @ ?b" by (subst id_take_nth_drop [OF assms]) simp
  ultimately show "set (concat (xss[i := xss ! i @ [g]])) = insert g (set (concat xss))"
    "distinct (concat xss) \<Longrightarrow> g \<notin> set (concat xss) \<Longrightarrow> distinct (concat (xss[i := xss ! i @ [g]]))" by auto
qed

lemma owned_update:
  assumes I: "owned_inv gates ok k c pc n F h bs pss flat" and i: "i < n" "i \<notin> F \<or> layer_full gates k bs' ps'"
    and new: "layer_ok gates (ok i) k bs' ps'" "only_layer (pss ! i) bs bs'" "set ps' \<subseteq> insert (length bs) (set (pss ! i))"
      "gates_of_layer gates bs (pss ! i) \<subseteq> gates_of_layer gates bs' ps'"
      "gates_of_layer gates bs' ps' \<subseteq> insert g (gates_of_layer gates bs (pss ! i))" "has_class h [c, pc] g"
    and xs: "set xs \<subseteq> gates_of_layer gates bs' ps'" "\<And>g. g \<in> set xs \<Longrightarrow> has_class h [c] g \<and> mOwnerID (h ! g) = i"
    and F': "i \<in> F' \<Longrightarrow> layer_full gates k bs' ps'" "F' - {i} \<subseteq> F"
  shows "owned_inv gates ok k c pc n F' h bs' (pss[i := ps']) (flat[i := flat ! i @ xs])"
proof -
  have L: "layers_inv gates ok k (\<lambda>i. has_class h [c, pc]) F bs pss flat" and n: "length pss = n"
    and own: "\<And>j g. j < n \<Longrightarrow> g \<in> set (flat ! j) \<Longrightarrow> has_class h [c] g \<and> mOwnerID (h ! g) = j"
    using I unfolding owned_inv_def by blast+
  have i': "i < length pss" "i < length flat" using i(1) n layers_invD(1) [OF L] by simp_all
  have "layers_inv gates ok k (\<lambda>i. has_class h [c, pc]) F' bs' (pss[i := ps']) (flat[i := flat ! i @ xs])"
    by (rule layers_update [OF L i'(1) new(1-3) F'])
      (use layers_invD(4,5) [OF L i'(1)] new(4-6) xs(1) in auto)
  moreover have "has_class h [c] g \<and> mOwnerID (h ! g) = j" if "j < n" "g \<in> set (flat[i := flat ! i @ xs] ! j)" for j g
    using that own [of j g] xs(2) [of g] i' by (cases "j = i") auto
  ultimately show ?thesis using n by (simp add: owned_inv_def)
qed

lemma owned_fresh:
  assumes "owned_inv gates ok k c pc n F h bs pss flat"
  shows "length flat = n" "length h \<notin> set (concat flat)"
proof -
  show n: "length flat = n" using assms by (simp add: owned_inv_def layers_inv_def)
  show "length h \<notin> set (concat flat)"
  proof
    assume "length h \<in> set (concat flat)"
    then obtain gs where "gs \<in> set flat" "length h \<in> set gs" by auto
    then obtain j where "j < length flat" "length h \<in> set (flat ! j)" by (metis in_set_conv_nth)
    then show False using assms n unfolding owned_inv_def has_class_def by (metis less_irrefl)
  qed
qed

lemma owned_layer:
  assumes "owned_inv gates ok k c pc n F h bs pss flat" "i < n"
  shows "layer_ok gates (ok i) k bs (pss ! i)" "i < length pss" "i < length flat"
  using assms by (auto simp: owned_inv_def layers_inv_def)

lemma inputs_layer:
  assumes "inputs_inv k n F h bs ils flat ins" "i < n"
  shows "i < length ils" "i < length flat" "ilOwnerID (ils ! i) = i" "ilBatchSize (ils ! i) = k"
proof -
  have O: "owned_inv ibGates (\<lambda>i. input_batch_of i k) k InputGate PadInputGate n F h bs (map ilBatches ils) flat"
    using assms(1) unfolding inputs_inv_def by blast
  show "i < length ils" "i < length flat" using owned_layer(2,3) [OF O assms(2)] by simp_all
  show "ilOwnerID (ils ! i) = i" "ilBatchSize (ils ! i) = k" using assms unfolding inputs_inv_def by blast+
qed

lemma outputs_layer:
  assumes "outputs_inv k n F h bs ols flat outs" "i < n"
  shows "i < length ols" "i < length flat" "olOwnerID (ols ! i) = i" "olBatchSize (ols ! i) = k"
proof -
  have O: "owned_inv obGates (\<lambda>i. output_batch_of i k) k OutputGate PadOutputGate n F h bs (map olBatches ols) flat"
    using assms(1) unfolding outputs_inv_def by blast
  show "i < length ols" "i < length flat" using owned_layer(2,3) [OF O assms(2)] by simp_all
  show "olOwnerID (ols ! i) = i" "olBatchSize (ols ! i) = k" using assms unfolding outputs_inv_def by blast+
qed

lemma inputs_append:
  assumes I: "inputs_inv k n F h bs ils flat ins" and i: "i < n" "i \<notin> F" and k: "0 < k"
    and G: "gclass G = InputGate" "mOwnerID G = i"
  obtains bs' ps' where "input_fill.layer_append (h @ [G]) prg i k (length h) bs (ilBatches (ils ! i)) = Inr (bs', ps')"
    "inputs_inv k n F (h @ [G]) bs' (ils[i := (ils ! i)\<lparr> ilBatches := ps' \<rparr>]) (flat[i := flat ! i @ [length h]]) (ins @ [length h])"
proof -
  let ?h = "h @ [G]" and ?pss = "map ilBatches ils"
  have O: "owned_inv ibGates (\<lambda>i. input_batch_of i k) k InputGate PadInputGate n F ?h bs ?pss flat"
    using I owned_inv_snoc unfolding inputs_inv_def by blast
  have O0: "owned_inv ibGates (\<lambda>i. input_batch_of i k) k InputGate PadInputGate n F h bs ?pss flat"
    using I unfolding inputs_inv_def by blast
  have new: "has_class ?h [InputGate] (length h) \<and> mOwnerID (?h ! length h) = i" using G by (simp add: has_class_def)
  have "owned_gate ?h i (length h)" using new by (simp add: owned_gate_def has_class_def)
  from input_fill.layer_append_run [OF owned_layer(1) [OF O i(1)] this k, of prg] obtain bs' ps' where
    r: "input_fill.layer_append ?h prg i k (length h) bs (?pss ! i) = Inr (bs', ps')" "layer_ok ibGates (input_batch_of i k) k bs' ps'"
      "gates_of_layer ibGates bs' ps' = insert (length h) (gates_of_layer ibGates bs (?pss ! i))" "only_layer (?pss ! i) bs bs'"
      "set ps' - set (?pss ! i) \<subseteq> {length bs}" .
  have O': "owned_inv ibGates (\<lambda>i. input_batch_of i k) k InputGate PadInputGate n F ?h bs' (?pss[i := ps']) (flat[i := flat ! i @ [length h]])"
    by (rule owned_update [OF O i(1) _ r(2,4)]) (use r(3,5) i(2) new in \<open>auto simp: has_class_def\<close>)
  have i': "i < length ils" "i < length flat" using owned_layer(2,3) [OF O i(1)] by simp_all
  have own: "\<forall>j<n. ilOwnerID (ils[i := (ils ! i)\<lparr> ilBatches := ps' \<rparr>] ! j) = j \<and> ilBatchSize (ils[i := (ils ! i)\<lparr> ilBatches := ps' \<rparr>] ! j) = k"
    using I i' by (auto simp: inputs_inv_def nth_list_update)
  note c = concat_push [OF i'(2), of "length h"]
  have lst: "listed InputGate h (concat flat)" and ins: "set ins = set (concat flat)" using I unfolding inputs_inv_def by blast+
  have "inputs_inv k n F ?h bs' (ils[i := (ils ! i)\<lparr> ilBatches := ps' \<rparr>]) (flat[i := flat ! i @ [length h]]) (ins @ [length h])"
    unfolding inputs_inv_def listed_snoc map_update
  proof (intro conjI impI)
    show "listed InputGate h (concat (flat[i := flat ! i @ [length h]]))"
      by (rule listed_mono [OF lst]) (unfold c(1), blast)
    show "set (ins @ [length h]) = set (concat (flat[i := flat ! i @ [length h]]))"
      unfolding c(1) set_append ins by simp
    show "distinct (concat (flat[i := flat ! i @ [length h]]))"
      using I c(2) owned_fresh(2) [OF O0] unfolding inputs_inv_def by blast
    show "length h \<in> set (concat (flat[i := flat ! i @ [length h]]))" unfolding c(1) by blast
    show "\<forall>j<n. ilOwnerID (ils[i := (ils ! i)\<lparr> ilBatches := ps' \<rparr>] ! j) = j \<and> ilBatchSize (ils[i := (ils ! i)\<lparr> ilBatches := ps' \<rparr>] ! j) = k"
      by (rule own)
    have e: "ilBatches ((ils ! i)\<lparr> ilBatches := ps' \<rparr>) = ps'" by simp
    show "owned_inv ibGates (\<lambda>i. input_batch_of i k) k InputGate PadInputGate n F ?h bs'
        ((map ilBatches ils)[i := ilBatches ((ils ! i)\<lparr> ilBatches := ps' \<rparr>)]) (flat[i := flat ! i @ [length h]])"
      unfolding e by (rule O')
  qed
  then show ?thesis using that r(1) i' by simp
qed

lemma outputs_append:
  assumes I: "outputs_inv k n F h bs ols flat outs" and i: "i < n" "i \<notin> F" and k: "0 < k"
    and G: "gclass G = OutputGate" "mOwnerID G = i"
  obtains bs' ps' where "output_fill.layer_append (h @ [G]) prg i k (length h) bs (olBatches (ols ! i)) = Inr (bs', ps')"
    "outputs_inv k n F (h @ [G]) bs' (ols[i := (ols ! i)\<lparr> olBatches := ps' \<rparr>]) (flat[i := flat ! i @ [length h]]) (outs @ [length h])"
proof -
  let ?h = "h @ [G]" and ?pss = "map olBatches ols"
  have O: "owned_inv obGates (\<lambda>i. output_batch_of i k) k OutputGate PadOutputGate n F ?h bs ?pss flat"
    using I owned_inv_snoc unfolding outputs_inv_def by blast
  have new: "has_class ?h [OutputGate] (length h) \<and> mOwnerID (?h ! length h) = i" using G by (simp add: has_class_def)
  have "owned_gate ?h i (length h)" using new by (simp add: owned_gate_def has_class_def)
  from output_fill.layer_append_run [OF owned_layer(1) [OF O i(1)] this k, of prg] obtain bs' ps' where
    r: "output_fill.layer_append ?h prg i k (length h) bs (?pss ! i) = Inr (bs', ps')" "layer_ok obGates (output_batch_of i k) k bs' ps'"
      "gates_of_layer obGates bs' ps' = insert (length h) (gates_of_layer obGates bs (?pss ! i))" "only_layer (?pss ! i) bs bs'"
      "set ps' - set (?pss ! i) \<subseteq> {length bs}" .
  have O': "owned_inv obGates (\<lambda>i. output_batch_of i k) k OutputGate PadOutputGate n F ?h bs' (?pss[i := ps']) (flat[i := flat ! i @ [length h]])"
    by (rule owned_update [OF O i(1) _ r(2,4)]) (use r(3,5) i(2) new in \<open>auto simp: has_class_def\<close>)
  have i': "i < length ols" "i < length flat" using owned_layer(2,3) [OF O i(1)] by simp_all
  have own: "\<forall>j<n. olOwnerID (ols[i := (ols ! i)\<lparr> olBatches := ps' \<rparr>] ! j) = j \<and> olBatchSize (ols[i := (ols ! i)\<lparr> olBatches := ps' \<rparr>] ! j) = k"
    using I i' by (auto simp: outputs_inv_def nth_list_update)
  note c = concat_push [OF i'(2), of "length h"]
  have outs: "set outs = set (concat flat)" using I unfolding outputs_inv_def by blast
  have "outputs_inv k n F ?h bs' (ols[i := (ols ! i)\<lparr> olBatches := ps' \<rparr>]) (flat[i := flat ! i @ [length h]]) (outs @ [length h])"
    unfolding outputs_inv_def map_update
  proof (intro conjI)
    show "set (outs @ [length h]) = set (concat (flat[i := flat ! i @ [length h]]))"
      unfolding c(1) set_append outs by simp
    show "\<forall>j<n. olOwnerID (ols[i := (ols ! i)\<lparr> olBatches := ps' \<rparr>] ! j) = j \<and> olBatchSize (ols[i := (ols ! i)\<lparr> olBatches := ps' \<rparr>] ! j) = k"
      by (rule own)
    have e: "olBatches ((ols ! i)\<lparr> olBatches := ps' \<rparr>) = ps'" by simp
    show "owned_inv obGates (\<lambda>i. output_batch_of i k) k OutputGate PadOutputGate n F ?h bs'
        ((map olBatches ols)[i := olBatches ((ols ! i)\<lparr> olBatches := ps' \<rparr>)]) (flat[i := flat ! i @ [length h]])"
      unfolding e by (rule O')
  qed
  then show ?thesis using that r(1) i' by simp
qed

text \<open>\<open>Close\<close> of the layer of one client.\<close>

lemma owned_pad:
  assumes O: "owned_inv gates ok k c pc n F h bs pss flat" and i: "i < n" and G: "has_class h [pc] g"
    and r: "layer_ok gates (ok i) k bs' (pss ! i)" "layer_full gates k bs' (pss ! i)"
      "gates_of_layer gates bs (pss ! i) \<subseteq> gates_of_layer gates bs' (pss ! i)"
      "gates_of_layer gates bs' (pss ! i) \<subseteq> insert g (gates_of_layer gates bs (pss ! i))" "only_layer (pss ! i) bs bs'"
  shows "owned_inv gates ok k c pc n (insert i F) h bs' pss flat"
proof -
  have G': "has_class h [c, pc] g" using G by (simp add: has_class_def)
  have "owned_inv gates ok k c pc n (insert i F) h bs' (pss[i := pss ! i]) (flat[i := flat ! i @ []])"
    by (rule owned_update [OF O i _ r(1,5) _ r(3,4) G']) (use r(2) in auto)
  then show ?thesis using owned_layer(2,3) [OF O i] by simp
qed

lemma inputs_pad:
  assumes I: "inputs_inv k n F h bs ils flat ins" and i: "i < n" and G: "gclass G = PadInputGate" "mOwnerID G = i"
  obtains bs' where "input_fill.layer_pad (h @ [G]) (length h) bs (ilBatches (ils ! i)) = Inr bs'"
    "inputs_inv k n (insert i F) (h @ [G]) bs' ils flat ins"
proof -
  let ?h = "h @ [G]" and ?pss = "map ilBatches ils"
  have I': "inputs_inv k n F ?h bs ils flat ins" by (rule inputs_snoc [OF I]) (simp add: G)
  then have O: "owned_inv ibGates (\<lambda>i. input_batch_of i k) k InputGate PadInputGate n F ?h bs ?pss flat"
    unfolding inputs_inv_def by blast
  have new: "has_class ?h [PadInputGate] (length h)" "owned_gate ?h i (length h)"
    using G by (simp_all add: has_class_def owned_gate_def)
  from input_fill.layer_pad_run [OF owned_layer(1) [OF O i] new(2)] obtain bs' where
    r: "input_fill.layer_pad ?h (length h) bs (?pss ! i) = Inr bs'" "layer_ok ibGates (input_batch_of i k) k bs' (?pss ! i)"
      "layer_full ibGates k bs' (?pss ! i)" "gates_of_layer ibGates bs (?pss ! i) \<subseteq> gates_of_layer ibGates bs' (?pss ! i)"
      "gates_of_layer ibGates bs' (?pss ! i) \<subseteq> insert (length h) (gates_of_layer ibGates bs (?pss ! i))" "only_layer (?pss ! i) bs bs'"
      "length bs' = length bs" .
  have "inputs_inv k n (insert i F) ?h bs' ils flat ins"
    using I' owned_pad [OF O i new(1) r(2-6)] unfolding inputs_inv_def by blast
  then show ?thesis using that r(1) owned_layer(2) [OF O i] by simp
qed

lemma outputs_pad:
  assumes I: "outputs_inv k n F h bs ols flat outs" and i: "i < n" and G: "gclass G = PadOutputGate" "mOwnerID G = i"
  obtains bs' where "output_fill.layer_pad (h @ [G]) (length h) bs (olBatches (ols ! i)) = Inr bs'"
    "outputs_inv k n (insert i F) (h @ [G]) bs' ols flat outs"
proof -
  let ?h = "h @ [G]" and ?pss = "map olBatches ols"
  have I': "outputs_inv k n F ?h bs ols flat outs" by (rule outputs_snoc [OF I])
  then have O: "owned_inv obGates (\<lambda>i. output_batch_of i k) k OutputGate PadOutputGate n F ?h bs ?pss flat"
    unfolding outputs_inv_def by blast
  have new: "has_class ?h [PadOutputGate] (length h)" "owned_gate ?h i (length h)"
    using G by (simp_all add: has_class_def owned_gate_def)
  from output_fill.layer_pad_run [OF owned_layer(1) [OF O i] new(2)] obtain bs' where
    r: "output_fill.layer_pad ?h (length h) bs (?pss ! i) = Inr bs'" "layer_ok obGates (output_batch_of i k) k bs' (?pss ! i)"
      "layer_full obGates k bs' (?pss ! i)" "gates_of_layer obGates bs (?pss ! i) \<subseteq> gates_of_layer obGates bs' (?pss ! i)"
      "gates_of_layer obGates bs' (?pss ! i) \<subseteq> insert (length h) (gates_of_layer obGates bs (?pss ! i))" "only_layer (?pss ! i) bs bs'"
      "length bs' = length bs" .
  have "outputs_inv k n (insert i F) ?h bs' ols flat outs"
    using I' owned_pad [OF O i new(1) r(2-6)] unfolding outputs_inv_def by blast
  then show ?thesis using that r(1) owned_layer(2) [OF O i] by simp
qed

section \<open>Multiplications\<close>

lemma snoc_last_update: "xs \<noteq> [] \<Longrightarrow> butlast xs @ [x] = xs[length xs - 1 := x]"
  by (metis butlast_list_update list_update_nonempty length_butlast length_list_update append_butlast_last_id last_list_update)

lemma mults_append:
  assumes I: "mults_inv k F h bs mls flats" and F: "length mls - 1 \<notin> F" and k: "0 < k" and G: "gclass G = MultGate"
  obtains bs' ps' where "mult_fill.layer_append prg k (length h) bs (mlBatches (last mls)) = Inr (bs', ps')"
    "mults_inv k F (h @ [G]) bs' (butlast mls @ [(last mls)\<lparr> mlBatches := ps' \<rparr>]) (flats[length mls - 1 := last flats @ [length h]])"
proof -
  let ?h = "h @ [G]" and ?pss = "map mlBatches mls" and ?D = "length mls - 1" and ?C = "mult_in h flats"
  let ?flats = "flats[?D := flats ! ?D @ [length h]]"
  have L: "layers_inv mbGates (\<lambda>i b. mbSize b = k) k ?C F bs ?pss flats" and ne: "mls \<noteq> []"
    and cls: "\<And>g. g \<in> set (concat flats) \<Longrightarrow> has_class h [MultGate] g"
    using I unfolding mults_inv_def by blast+
  have D: "?D < length ?pss" "?D < length flats" "length flats = length mls" using ne L by (simp_all add: layers_inv_def)
  have last: "last mls = mls ! ?D" "last flats = flats ! ?D" using ne D(2,3) last_conv_nth [of mls] last_conv_nth [of flats] by force+
  from mult_fill.layer_append_run [OF layers_invD(2) [OF L D(1)] TrueI k, of prg "length h"] obtain bs' ps' where
    r: "mult_fill.layer_append prg k (length h) bs (?pss ! ?D) = Inr (bs', ps')" "layer_ok mbGates (\<lambda>b. mbSize b = k) k bs' ps'"
      "gates_of_layer mbGates bs' ps' = insert (length h) (gates_of_layer mbGates bs (?pss ! ?D))" "only_layer (?pss ! ?D) bs bs'"
      "set ps' - set (?pss ! ?D) \<subseteq> {length bs}" .
  have mono: "mult_in ?h ?flats j g" if "mult_in h flats j g" for j g
    using that D(2) by (cases "j = ?D") (auto simp: mult_in_def nth_append)
  have L': "layers_inv mbGates (\<lambda>i b. mbSize b = k) k (mult_in ?h ?flats) F bs' (?pss[?D := ps']) ?flats"
  proof (rule layers_update [OF L D(1) r(2,4)])
    show "mult_in ?h ?flats ?D g" if "g \<in> gates_of_layer mbGates bs' ps'" for g
    proof (cases "g = length h")
      case True
      then show ?thesis using D(2) by (simp add: mult_in_def)
    next
      case False
      then show ?thesis using that r(3) by (intro mono layers_invD(4) [OF L D(1)]) blast
    qed
    show "set (flats ! ?D @ [length h]) \<subseteq> gates_of_layer mbGates bs' ps'" using layers_invD(5) [OF L D(1)] r(3) by auto
  qed (use r(5) F mono in auto)
  note c = concat_push [OF D(2), of "length h"]
  have lst: "listed MultGate h (concat flats)" and dist: "distinct (concat flats)" and sz: "\<forall>l\<in>set mls. mlBatchSize l = k"
    using I unfolding mults_inv_def by blast+
  have "length h \<notin> set (concat flats)" using cls [of "length h"] by (auto simp: has_class_def)
  then have dist': "distinct (concat ?flats)" using c(2) dist by blast
  have lst': "listed MultGate ?h (concat ?flats)"
    unfolding listed_snoc by (intro conjI impI listed_mono [OF lst]) (unfold c(1), blast+)
  have new: "has_class ?h [MultGate] (length h)" using G by (simp add: has_class_def)
  have cls': "has_class ?h [MultGate] g" if "g \<in> set (concat ?flats)" for g
    using that new has_class_snoc [OF cls] unfolding c(1) by blast
  have upd: "butlast mls @ [(last mls)\<lparr> mlBatches := ps' \<rparr>] = mls[?D := (mls ! ?D)\<lparr> mlBatches := ps' \<rparr>]"
    using snoc_last_update [OF ne] last by simp
  have "set (mls[?D := (mls ! ?D)\<lparr> mlBatches := ps' \<rparr>]) \<subseteq> insert ((mls ! ?D)\<lparr> mlBatches := ps' \<rparr>) (set mls)"
    by (rule set_update_subset_insert)
  moreover have "mlBatchSize (mls ! ?D) = k" using sz D(1) by simp
  ultimately have sz': "\<forall>l\<in>set (mls[?D := (mls ! ?D)\<lparr> mlBatches := ps' \<rparr>]). mlBatchSize l = k" using sz by auto
  have "mults_inv k F ?h bs' (mls[?D := (mls ! ?D)\<lparr> mlBatches := ps' \<rparr>]) ?flats"
    unfolding mults_inv_def map_update using ne sz' L' cls' dist' lst' by (simp del: set_concat)
  then show ?thesis using that r(1) upd last D(1) by simp
qed

lemma mults_pad:
  assumes I: "mults_inv k F h bs mls flats" and G: "gclass G = PadMultGate"
  obtains bs' where "mult_fill.layer_pad (length h) bs (mlBatches (last mls)) = Inr bs'"
    "mults_inv k (insert (length mls - 1) F) (h @ [G]) bs' mls flats"
proof -
  let ?h = "h @ [G]" and ?pss = "map mlBatches mls" and ?D = "length mls - 1"
  have I': "mults_inv k F ?h bs mls flats" by (rule mults_snoc [OF I]) (simp add: G)
  then have L: "layers_inv mbGates (\<lambda>i b. mbSize b = k) k (mult_in ?h flats) F bs ?pss flats" and ne: "mls \<noteq> []"
    unfolding mults_inv_def by blast+
  have D: "?D < length ?pss" using ne by simp
  from mult_fill.layer_pad_run [OF layers_invD(2) [OF L D] TrueI, of "length h"] obtain bs' where
    r: "mult_fill.layer_pad (length h) bs (?pss ! ?D) = Inr bs'" "layer_ok mbGates (\<lambda>b. mbSize b = k) k bs' (?pss ! ?D)"
      "layer_full mbGates k bs' (?pss ! ?D)" "gates_of_layer mbGates bs (?pss ! ?D) \<subseteq> gates_of_layer mbGates bs' (?pss ! ?D)"
      "gates_of_layer mbGates bs' (?pss ! ?D) \<subseteq> insert (length h) (gates_of_layer mbGates bs (?pss ! ?D))" "only_layer (?pss ! ?D) bs bs'"
      "length bs' = length bs" .
  have "layers_inv mbGates (\<lambda>i b. mbSize b = k) k (mult_in ?h flats) (insert ?D F) bs' (?pss[?D := ?pss ! ?D]) (flats[?D := flats ! ?D])"
  proof (rule layers_update [OF L D r(2,6)])
    show "mult_in ?h flats ?D g" if "g \<in> gates_of_layer mbGates bs' (?pss ! ?D)" for g
    proof (cases "g = length h")
      case True
      then show ?thesis using G by (simp add: mult_in_def)
    next
      case False
      then show ?thesis using that r(5) by (intro layers_invD(4) [OF L D]) blast
    qed
    show "set (flats ! ?D) \<subseteq> gates_of_layer mbGates bs' (?pss ! ?D)" using layers_invD(5) [OF L D] r(4) by blast
  qed (use r(3) in auto)
  then have "mults_inv k (insert ?D F) ?h bs' mls flats"
    using I' unfolding mults_inv_def list_update_id by blast
  then show ?thesis using that r(1) D by (simp add: last_conv_nth ne)
qed

lemma mults_new:
  assumes I: "mults_inv k F h bs mls flats" and F: "length mls \<notin> F"
    and l: "mlBatches l = [length bs]" "mlBatchSize l = k" and b: "mbSize b = k" "mbGates b = []"
  shows "mults_inv k F h (bs @ [b]) (mls @ [l]) (flats @ [[]])"
proof -
  have L: "layers_inv mbGates (\<lambda>i b. mbSize b = k) k (mult_in h flats) F bs (map mlBatches mls) flats"
    using I unfolding mults_inv_def by blast
  then have len: "length flats = length mls" by (simp add: layers_inv_def)
  have "layers_inv mbGates (\<lambda>i b. mbSize b = k) k (mult_in h (flats @ [[]])) F bs (map mlBatches mls) flats"
    by (rule layers_mono [OF L _ subset_refl]) (use len in \<open>auto simp: mult_in_def nth_append\<close>)
  from layers_new [OF this, of b] b F have
    "layers_inv mbGates (\<lambda>i b. mbSize b = k) k (mult_in h (flats @ [[]])) F (bs @ [b]) (map mlBatches mls @ [[length bs]]) (flats @ [[]])"
    by simp
  then show ?thesis using I l unfolding mults_inv_def by auto
qed

end
