(* ===== verification/Prepared.thy ===== *)
theory Prepared
  imports Closed
begin

text \<open>
  From a closed circuit to the start of the online protocol: what \<open>SetNetwork\<close>, the preprocessing with
  known masks and \<open>SetInputs\<close> do to the store of a party, and that together they establish the
  readiness condition of the protocol.
\<close>

section \<open>The wires of a closed circuit\<close>

definition wire_values :: "('a, 'g) party \<Rightarrow> (nat \<Rightarrow> 'a::field) \<Rightarrow> nat \<Rightarrow> 'a" where
  "wire_values s x = wire x (+) (\<lambda>_. (*)) 0 (sGates (fst s))"

definition wire_masks :: "('a, 'g) party \<Rightarrow> 'a::field \<Rightarrow> nat \<Rightarrow> 'a" where
  "wire_masks s lambda = wire (\<lambda>_. lambda) (+) (\<lambda>_ _ _. lambda) 0 (sGates (fst s))"

lemma layer_of_in: "g \<in> set (concat gss) \<Longrightarrow> layer_of gss g < length gss \<and> g \<in> set (gss ! layer_of gss g)"
  by (induction gss) auto

lemma layer_of_unique: "distinct (concat gss) \<Longrightarrow> d < length gss \<Longrightarrow> g \<in> set (gss ! d) \<Longrightarrow> layer_of gss g = d"
proof (induction gss arbitrary: d)
  case (Cons gs gss)
  show ?case
  proof (cases d)
    case 0
    then show ?thesis using Cons.prems by simp
  next
    case (Suc d')
    then have g: "d' < length gss" "g \<in> set (gss ! d')" using Cons.prems by simp_all
    then have "g \<in> set (concat gss)" by (auto intro: bexI [OF _ nth_mem])
    then have "g \<notin> set gs" using Cons.prems(1) by auto
    then show ?thesis using Suc g Cons.prems(1) Cons.IH [OF _ g] by simp
  qed
qed simp

lemma linear_wire:
  assumes "linked h"
  shows "linear_wires h (wire x (+) mul 0 h)"
  unfolding linear_wires_def
proof (intro allI impI)
  fix g
  assume g: "g < length h"
  note u = wire_unfold [OF assms g, of x "(+)" mul 0, unfolded wire_step_def]
  note l = linkedD(1,2) [OF assms g]
  show "(gclass (h ! g) = AddGate \<longrightarrow> (\<forall>l r. mLeft (h ! g) = Some l \<longrightarrow> mRight (h ! g) = Some r \<longrightarrow>
        wire x (+) mul 0 h g = wire x (+) mul 0 h l + wire x (+) mul 0 h r))
     \<and> (gclass (h ! g) = OutputGate \<longrightarrow> (\<forall>l. mLeft (h ! g) = Some l \<longrightarrow> wire x (+) mul 0 h g = wire x (+) mul 0 h l))
     \<and> (gclass (h ! g) \<in> {PadInputGate, PadMultGate, PadOutputGate} \<longrightarrow> wire x (+) mul 0 h g = 0)"
    using u l by auto
qed

lemma closed_circuitD:
  assumes "closed_circuit k s"
  shows "0 < k" "cBatchSize (snd s) = k" "mIsClosed (snd s)" "linked (sGates (fst s))" "fresh (sGates (fst s))"
    "inputs_closed k s" "outputs_closed k s" "mults_closed k s" "well_layered s"
    "unpadded (sGates (fst s))"
  using assms by (simp_all add: closed_circuit_def)

lemma length_layers [simp]: "length (layer_batches c) = length (mMultLayers c)"
  by (simp add: layer_batches_def)

lemma mults_closedD:
  assumes "mults_closed k s"
  shows "length (flat_mults (snd s)) = length (mMultLayers (snd s))" "distinct (concat (flat_mults (snd s)))"
    "\<And>d. d < length (mMultLayers (snd s)) \<Longrightarrow> distinct (layer_batches (snd s) ! d)"
    "\<And>p. p \<in> set (mult_batches (snd s)) \<Longrightarrow> p < length (sMultBatches (fst s)) \<and> mbSize (sMultBatches (fst s) ! p) = k
       \<and> length (mbGates (sMultBatches (fst s) ! p)) = k"
    "\<And>d p g. d < length (mMultLayers (snd s)) \<Longrightarrow> p \<in> set (layer_batches (snd s) ! d) \<Longrightarrow> g \<in> set (mbGates (sMultBatches (fst s) ! p))
       \<Longrightarrow> g < length (sGates (fst s)) \<and> (g \<in> set (flat_mults (snd s) ! d) \<or> gclass (sGates (fst s) ! g) = PadMultGate)"
    "\<And>d g. d < length (mMultLayers (snd s)) \<Longrightarrow> g \<in> set (flat_mults (snd s) ! d) \<Longrightarrow> g < length (sGates (fst s))
       \<and> gclass (sGates (fst s) ! g) = MultGate
       \<and> (\<exists>p \<in> set (layer_batches (snd s) ! d). g \<in> set (mbGates (sMultBatches (fst s) ! p)))"
    "\<And>g. g < length (sGates (fst s)) \<Longrightarrow> gclass (sGates (fst s) ! g) = MultGate \<Longrightarrow> g \<in> set (concat (flat_mults (snd s)))"
proof -
  obtain st c where s: "s = (st, c)" by fastforce
  note M = assms [unfolded s mults_closed_def Let_def prod.case]
  show "length (flat_mults (snd s)) = length (mMultLayers (snd s))"
    using M by (simp add: s flat_mults_def)
  show "distinct (concat (flat_mults (snd s)))" using M by (simp add: s)
  show "\<And>d. d < length (mMultLayers (snd s)) \<Longrightarrow> distinct (layer_batches (snd s) ! d)"
    using M by (simp add: s list_all_length)
  show "\<And>p. p \<in> set (mult_batches (snd s)) \<Longrightarrow> p < length (sMultBatches (fst s)) \<and> mbSize (sMultBatches (fst s) ! p) = k
       \<and> length (mbGates (sMultBatches (fst s) ! p)) = k"
    using M by (simp add: s list_all_iff)
  have D: "list_all (\<lambda>p. list_all (\<lambda>g. g < length (sGates st) \<and> (g \<in> set (flat_mults c ! d) \<or> gclass (sGates st ! g) = PadMultGate))
        (mbGates (sMultBatches st ! p))) (layer_batches c ! d)"
    "list_all (\<lambda>g. g \<in> set (concat (map (\<lambda>p. mbGates (sMultBatches st ! p)) (layer_batches c ! d))) \<and> has_class (sGates st) [MultGate] g)
        (flat_mults c ! d)" if "d < length (mMultLayers c)" for d
    using M that by (simp_all add: list_all_length)
  show "\<And>d p g. d < length (mMultLayers (snd s)) \<Longrightarrow> p \<in> set (layer_batches (snd s) ! d) \<Longrightarrow> g \<in> set (mbGates (sMultBatches (fst s) ! p))
       \<Longrightarrow> g < length (sGates (fst s)) \<and> (g \<in> set (flat_mults (snd s) ! d) \<or> gclass (sGates (fst s) ! g) = PadMultGate)"
    using D(1) unfolding s list_all_iff fst_conv snd_conv by blast
  show "\<And>d g. d < length (mMultLayers (snd s)) \<Longrightarrow> g \<in> set (flat_mults (snd s) ! d) \<Longrightarrow> g < length (sGates (fst s))
       \<and> gclass (sGates (fst s) ! g) = MultGate
       \<and> (\<exists>p \<in> set (layer_batches (snd s) ! d). g \<in> set (mbGates (sMultBatches (fst s) ! p)))"
    using D(2) by (simp add: s list_all_iff has_class_def)
  show "\<And>g. g < length (sGates (fst s)) \<Longrightarrow> gclass (sGates (fst s) ! g) = MultGate \<Longrightarrow> g \<in> set (concat (flat_mults (snd s)))"
    using M unfolding s list_all_iff fst_conv snd_conv set_upt by (meson atLeastLessThan_iff le0)
qed

lemma level_unfold:
  assumes "closed_circuit k s" "g < length (sGates (fst s))"
  shows "level s g = wire_step (\<lambda>_. 0) max (\<lambda>g _ _. Suc (layer_of (flat_mults (snd s)) g)) 0 (sGates (fst s)) (level s) g"
  using wire_unfold [OF closed_circuitD(4) [OF assms(1)] assms(2)] by (cases s) (simp add: level_def)

lemma mult_level:
  assumes "closed_circuit k s" "d < length (mMultLayers (snd s))" "g \<in> set (flat_mults (snd s) ! d)"
  shows "level s g = Suc d" "level s (left_of (sGates (fst s)) g) \<le> d" "level s (right_of (sGates (fst s)) g) \<le> d"
proof -
  note M = mults_closedD [OF closed_circuitD(8) [OF assms(1)]]
  have g: "g < length (sGates (fst s))" "gclass (sGates (fst s) ! g) = MultGate" using M(6) [OF assms(2,3)] by auto
  have "layer_of (flat_mults (snd s)) g = d" using layer_of_unique [OF M(2) _ assms(3)] assms(2) M(1) by simp
  then show "level s g = Suc d" using level_unfold [OF assms(1) g(1)] g(2) by (simp add: wire_step_def)
  show "level s (left_of (sGates (fst s)) g) \<le> d" "level s (right_of (sGates (fst s)) g) \<le> d"
    using closed_circuitD(9) [OF assms(1)] assms(2,3) by (cases s; simp add: well_layered_def list_all_iff)+
qed

lemma mult_in_layer:
  assumes "closed_circuit k s" "g < length (sGates (fst s))" "gclass (sGates (fst s) ! g) = MultGate"
  shows "\<exists>d < length (mMultLayers (snd s)). g \<in> set (flat_mults (snd s) ! d)"
proof -
  note M = mults_closedD [OF closed_circuitD(8) [OF assms(1)]]
  show ?thesis using layer_of_in [OF M(7) [OF assms(2,3)]] M(1) by auto
qed

lemma level_le_depth:
  assumes "closed_circuit k s" "g < length (sGates (fst s))"
  shows "level s g \<le> length (mMultLayers (snd s))"
  using assms(2)
proof (induction g rule: less_induct)
  case (less g)
  let ?h = "sGates (fst s)"
  note l = linkedD(1,2) [OF closed_circuitD(4) [OF assms(1)] less.prems]
  note u = level_unfold [OF assms(1) less.prems, unfolded wire_step_def]
  show ?case
  proof (cases "gclass (?h ! g)")
    case MultGate
    then show ?thesis using mult_in_layer [OF assms(1) less.prems] mult_level(1) [OF assms(1)] by fastforce
  next
    case AddGate
    then show ?thesis using l(1) u less.IH [of "left_of ?h g"] less.IH [of "right_of ?h g"] less.prems by simp
  next
    case OutputGate
    then show ?thesis using l(2) u less.IH [of "left_of ?h g"] less.prems by simp
  qed (use u in simp_all)
qed

lemma closed_wires:
  assumes "closed_circuit k s"
  shows "wires (sGates (fst s)) (wire_values s x) (wire_masks s lambda) (level s)"
proof -
  let ?h = "sGates (fst s)"
  note L = closed_circuitD(4) [OF assms]
  have "case gclass (?h ! g) of
        AddGate \<Rightarrow> \<exists>l r. mLeft (?h ! g) = Some l \<and> mRight (?h ! g) = Some r \<and> l < g \<and> r < g
          \<and> level s l \<le> level s g \<and> level s r \<le> level s g
      | MultGate \<Rightarrow> \<exists>l r. mLeft (?h ! g) = Some l \<and> mRight (?h ! g) = Some r \<and> l < g \<and> r < g
          \<and> level s l < level s g \<and> level s r < level s g \<and> wire_values s x g = wire_values s x l * wire_values s x r
      | PadMultGate \<Rightarrow> mLeft (?h ! g) = Some g \<and> mRight (?h ! g) = Some g \<and> level s g = 0
      | OutputGate \<Rightarrow> \<exists>l. mLeft (?h ! g) = Some l \<and> l < g \<and> level s l \<le> level s g
      | _ \<Rightarrow> True" if g: "g < length ?h" for g
  proof -
    note l = linkedD [OF L g]
    note u = level_unfold [OF assms g, unfolded wire_step_def]
    note v = wire_unfold [OF L g, of x "(+)" "\<lambda>_. (*)" 0, unfolded wire_step_def, folded wire_values_def]
    show ?thesis
    proof (cases "gclass (?h ! g)")
      case MultGate
      from mult_in_layer [OF assms g MultGate] obtain d where
        d: "d < length (mMultLayers (snd s))" "g \<in> set (flat_mults (snd s) ! d)" by blast
      from mult_level [OF assms d] l(1) v MultGate show ?thesis by simp
    qed (use l u in simp_all)
  qed
  moreover have "linear_wires ?h (wire_values s x)" "linear_wires ?h (wire_masks s lambda)"
    using linear_wire [OF L] by (simp_all add: wire_values_def wire_masks_def)
  ultimately show ?thesis unfolding wires_def by blast
qed

lemma wires_same:
  assumes s: "same_links h h'" and W: "wires h v lam lay"
  shows "wires h' v lam lay"
proof -
  have lin: "linear_wires h' w" if "linear_wires h w" for w
    using that same_links_at [OF s] same_links_length [OF s] unfolding linear_wires_def by simp
  show ?thesis
    using W lin same_links_at [OF s] same_links_length [OF s] unfolding wires_def by (simp cong: gate_class.case_cong)
qed

lemma closed_layered:
  assumes "closed_circuit k s"
  shows "layered (sGates (fst s)) (level s) (\<lambda>p. mbGates (sMultBatches (fst s) ! p)) (layer_batches (snd s))"
proof -
  note M = mults_closedD [OF closed_circuitD(8) [OF assms]]
  have "layer_gates (sGates (fst s)) (level s) d (mbGates (sMultBatches (fst s) ! p))"
    if "d < length (mMultLayers (snd s))" "p \<in> set (layer_batches (snd s) ! d)" for d p
    unfolding layer_gates_def
    using M(5) [OF that] M(6) [OF that(1)] mult_level(1) [OF assms that(1)] by blast
  moreover have "\<exists>p \<in> set (layer_batches (snd s) ! d). g \<in> set (mbGates (sMultBatches (fst s) ! p))"
    if g: "g < length (sGates (fst s))" "gclass (sGates (fst s) ! g) = MultGate" "level s g = Suc d" for g d
  proof -
    from mult_in_layer [OF assms g(1,2)] obtain d' where
      d': "d' < length (mMultLayers (snd s))" "g \<in> set (flat_mults (snd s) ! d')" by blast
    with mult_level(1) [OF assms d'] g(3) M(6) [OF d'] show ?thesis by auto
  qed
  ultimately show ?thesis using M(3) by (simp add: layered_def)
qed

section \<open>SetNetwork\<close>

definition input_network :: "nat \<Rightarrow> nat \<Rightarrow> ('a, 'g) input_batch \<Rightarrow> ('a, 'g) input_batch" where
  "input_network n i b = b\<lparr> ibID := Some i, ibParties := n \<rparr>"

definition output_network :: "nat \<Rightarrow> nat \<Rightarrow> ('a, 'g) output_batch \<Rightarrow> ('a, 'g) output_batch" where
  "output_network n i b = b\<lparr> obID := Some i, obParties := n \<rparr>"

lemma network_idem:
  "InputGate_SetNetwork i (InputGate_SetNetwork i G) = InputGate_SetNetwork i G"
  "input_network n i (input_network n i ib) = input_network n i ib"
  "output_network n i (output_network n i ob) = output_network n i ob"
  "MultBatch_SetNetwork n i (MultBatch_SetNetwork n i mb) = MultBatch_SetNetwork n i mb"
  by (simp_all add: InputGate_SetNetwork_def input_network_def output_network_def MultBatch_SetNetwork_def)

lemma network_gates [simp]:
  "ibGates (input_network n i ib) = ibGates ib" "obGates (output_network n i ob) = obGates ob"
  by (simp_all add: input_network_def output_network_def)

lemma input_batches_network:
  assumes "\<And>p. p \<in> set ps \<Longrightarrow> p < length (sInputBatches st) \<and> (\<forall>g \<in> set (ibGates (sInputBatches st ! p)). g < length (sGates st))"
  shows "foldE (\<lambda>p. at_input_batch p (InputBatch_SetNetwork n i)) ps st = Inr (st\<lparr>
      sGates := mark (InputGate_SetNetwork i) (concat (map (\<lambda>p. ibGates (sInputBatches st ! p)) ps)) (sGates st),
      sInputBatches := mark (input_network n i) ps (sInputBatches st) \<rparr>)"
  using assms
proof (induction ps arbitrary: st)
  case (Cons p ps)
  let ?b = "sInputBatches st ! p"
  let ?st = "st\<lparr> sGates := mark (InputGate_SetNetwork i) (ibGates ?b) (sGates st),
      sInputBatches := (sInputBatches st)[p := input_network n i ?b] \<rparr>"
  have p: "p < length (sInputBatches st)" "\<And>g. g \<in> set (ibGates ?b) \<Longrightarrow> g < length (sGates st)"
    using Cons.prems by auto
  have g: "ibGates (sInputBatches ?st ! q) = ibGates (sInputBatches st ! q)" for q
    using p(1) by (cases "q = p") simp_all
  have 1: "at_input_batch p (InputBatch_SetNetwork n i) st = Inr ?st"
    using p foldE_at_gate [of "InputGate_SetNetwork i", OF network_idem(1) p(2)]
    by (simp add: at_input_batch_def InputBatch_SetNetwork_def input_network_def)
  have 2: "foldE (\<lambda>p. at_input_batch p (InputBatch_SetNetwork n i)) ps ?st = Inr (?st\<lparr>
      sGates := mark (InputGate_SetNetwork i) (concat (map (\<lambda>p. ibGates (sInputBatches ?st ! p)) ps)) (sGates ?st),
      sInputBatches := mark (input_network n i) ps (sInputBatches ?st) \<rparr>)"
  proof (rule Cons.IH)
    fix q
    assume "q \<in> set ps"
    then show "q < length (sInputBatches ?st) \<and> (\<forall>g \<in> set (ibGates (sInputBatches ?st ! q)). g < length (sGates ?st))"
      using Cons.prems [of q] unfolding g by simp
  qed
  show ?case
    using 1 2 p(1) unfolding g by (simp add: mark_mark [OF network_idem(1)] mark_step [where f = "input_network n i", OF network_idem(2)])
qed simp

lemma output_batches_network:
  assumes "\<And>p. p \<in> set ps \<Longrightarrow> p < length (sOutputBatches st) \<and> (\<forall>g \<in> set (obGates (sOutputBatches st ! p)). g < length (sGates st))"
  shows "foldE (\<lambda>p. at_output_batch p (OutputBatch_SetNetwork n i)) ps st = Inr (st\<lparr>
      sGates := mark (InputGate_SetNetwork i) (concat (map (\<lambda>p. obGates (sOutputBatches st ! p)) ps)) (sGates st),
      sOutputBatches := mark (output_network n i) ps (sOutputBatches st) \<rparr>)"
  using assms
proof (induction ps arbitrary: st)
  case (Cons p ps)
  let ?b = "sOutputBatches st ! p"
  let ?st = "st\<lparr> sGates := mark (InputGate_SetNetwork i) (obGates ?b) (sGates st),
      sOutputBatches := (sOutputBatches st)[p := output_network n i ?b] \<rparr>"
  have p: "p < length (sOutputBatches st)" "\<And>g. g \<in> set (obGates ?b) \<Longrightarrow> g < length (sGates st)"
    using Cons.prems by auto
  have g: "obGates (sOutputBatches ?st ! q) = obGates (sOutputBatches st ! q)" for q
    using p(1) by (cases "q = p") simp_all
  have same: "OutputGate_SetNetwork i = InputGate_SetNetwork i"
    by (simp add: OutputGate_SetNetwork_def InputGate_SetNetwork_def fun_eq_iff)
  have 1: "at_output_batch p (OutputBatch_SetNetwork n i) st = Inr ?st"
    using p foldE_at_gate [of "InputGate_SetNetwork i", OF network_idem(1) p(2)]
    by (simp add: at_output_batch_def OutputBatch_SetNetwork_def output_network_def same)
  have 2: "foldE (\<lambda>p. at_output_batch p (OutputBatch_SetNetwork n i)) ps ?st = Inr (?st\<lparr>
      sGates := mark (InputGate_SetNetwork i) (concat (map (\<lambda>p. obGates (sOutputBatches ?st ! p)) ps)) (sGates ?st),
      sOutputBatches := mark (output_network n i) ps (sOutputBatches ?st) \<rparr>)"
  proof (rule Cons.IH)
    fix q
    assume "q \<in> set ps"
    then show "q < length (sOutputBatches ?st) \<and> (\<forall>g \<in> set (obGates (sOutputBatches ?st ! q)). g < length (sGates ?st))"
      using Cons.prems [of q] unfolding g by simp
  qed
  show ?case
    using 1 2 p(1) unfolding g by (simp add: mark_mark [OF network_idem(1)] mark_step [where f = "output_network n i", OF network_idem(3)])
qed simp

lemma mult_batches_network:
  assumes "\<And>p. p \<in> set ps \<Longrightarrow> p < length (sMultBatches st)"
  shows "foldE (\<lambda>p. at_mult_batch p (\<lambda>(h, b). Inr (h, MultBatch_SetNetwork n i b))) ps st
    = Inr (st\<lparr> sMultBatches := mark (MultBatch_SetNetwork n i) ps (sMultBatches st) \<rparr>)"
  using assms
proof (induction ps arbitrary: st)
  case (Cons p ps)
  then have p: "p < length (sMultBatches st)" by simp
  let ?st = "st\<lparr> sMultBatches := (sMultBatches st)[p := MultBatch_SetNetwork n i (sMultBatches st ! p)] \<rparr>"
  have "foldE (\<lambda>p. at_mult_batch p (\<lambda>(h, b). Inr (h, MultBatch_SetNetwork n i b))) ps ?st
    = Inr (?st\<lparr> sMultBatches := mark (MultBatch_SetNetwork n i) ps (sMultBatches ?st) \<rparr>)"
    using Cons.prems by (intro Cons.IH) simp
  moreover have "at_mult_batch p (\<lambda>(h, b). Inr (h, MultBatch_SetNetwork n i b)) st = Inr ?st"
    using p by (simp add: at_mult_batch_def)
  ultimately show ?case using p by (simp add: mark_step [where f = "MultBatch_SetNetwork n i", OF network_idem(4)])
qed simp

definition network_party :: "nat \<Rightarrow> nat \<Rightarrow> ('a, 'g) party \<Rightarrow> ('a, 'g) party" where
  "network_party n i = (\<lambda>(st, c). (st\<lparr>
      sGates := mark (InputGate_SetNetwork i) (in_gates (st, c) @ out_gates (st, c)) (sGates st),
      sInputBatches := mark (input_network n i) (in_batches c) (sInputBatches st),
      sMultBatches := mark (MultBatch_SetNetwork n i) (mult_batches c) (sMultBatches st),
      sOutputBatches := mark (output_network n i) (out_batches c) (sOutputBatches st) \<rparr>,
    c\<lparr> cID := Some i, cParties := n, mIsNetworkSet := True \<rparr>))"

lemma bindE_Inr_id: "bindE m Inr = m"
  by (cases m) simp_all

lemma bindE_bindE: "bindE (bindE m f) g = bindE m (\<lambda>x. bindE (f x) g)"
  by (cases m) simp_all

lemma inputs_closedD:
  assumes "inputs_closed k s"
  shows "length (mFlatInputGates (snd s)) = mClients (snd s)"
    "\<And>p. p \<in> set (in_batches (snd s)) \<Longrightarrow> p < length (sInputBatches (fst s)) \<and> length (ibGates (sInputBatches (fst s) ! p)) = k"
    "\<And>g. g \<in> set (in_gates s) \<Longrightarrow> g < length (sGates (fst s)) \<and> gclass (sGates (fst s) ! g) \<in> {InputGate, PadInputGate}"
    "\<And>i g. i < mClients (snd s) \<Longrightarrow> g \<in> set (mFlatInputGates (snd s) ! i) \<Longrightarrow> g \<in> set (in_gates s)
      \<and> g < length (sGates (fst s)) \<and> gclass (sGates (fst s) ! g) = InputGate \<and> mOwnerID (sGates (fst s) ! g) = i"
    "\<And>g. g < length (sGates (fst s)) \<Longrightarrow> gclass (sGates (fst s) ! g) = InputGate \<Longrightarrow> g \<in> set (flat_inputs (snd s))"
    "set (mInputGates (snd s)) = set (flat_inputs (snd s))" "distinct (concat (mFlatInputGates (snd s)))"
  using assms by (cases s; simp add: inputs_closed_def Let_def list_all_iff has_class_def flat_inputs_def)+

lemma outputs_closedD:
  assumes "outputs_closed k s"
  shows "length (mFlatOutputGates (snd s)) = mClients (snd s)"
    "\<And>p. p \<in> set (out_batches (snd s)) \<Longrightarrow> p < length (sOutputBatches (fst s)) \<and> length (obGates (sOutputBatches (fst s) ! p)) = k"
    "\<And>g. g \<in> set (out_gates s) \<Longrightarrow> g < length (sGates (fst s)) \<and> gclass (sGates (fst s) ! g) \<in> {OutputGate, PadOutputGate}"
    "\<And>i g. i < mClients (snd s) \<Longrightarrow> g \<in> set (mFlatOutputGates (snd s) ! i) \<Longrightarrow> g \<in> set (out_gates s)
      \<and> g < length (sGates (fst s)) \<and> gclass (sGates (fst s) ! g) = OutputGate \<and> mOwnerID (sGates (fst s) ! g) = i"
    "set (mOutputGates (snd s)) = set (flat_outputs (snd s))"
  using assms by (cases s; simp add: outputs_closed_def Let_def list_all_iff has_class_def flat_outputs_def)+

lemma batch_gates_in:
  "p \<in> set (in_batches c) \<Longrightarrow> g \<in> set (ibGates (sInputBatches st ! p)) \<Longrightarrow> g \<in> set (in_gates (st, c))"
  "p \<in> set (out_batches c) \<Longrightarrow> g \<in> set (obGates (sOutputBatches st ! p)) \<Longrightarrow> g \<in> set (out_gates (st, c))"
  by (auto simp: in_gates_def out_gates_def)

lemma Circuit_SetNetwork_closed:
  assumes "closed_circuit k s"
  shows "Circuit_SetNetwork n i s = Inr (network_party n i s)"
proof -
  obtain st c where s: "s = (st, c)" by fastforce
  note I = inputs_closedD [OF closed_circuitD(6) [OF assms], unfolded s fst_conv snd_conv]
  note O = outputs_closedD [OF closed_circuitD(7) [OF assms], unfolded s fst_conv snd_conv]
  note M = mults_closedD [OF closed_circuitD(8) [OF assms], unfolded s fst_conv snd_conv]
  have 1: "foldE (\<lambda>ly st. bindE (InputLayer_SetNetwork n i (st, ly)) (\<lambda>(st, _). Inr st)) (mInputLayers c) st
      = foldE (\<lambda>p. at_input_batch p (InputBatch_SetNetwork n i)) (in_batches c) st" for st :: "('a, 'b) store"
    by (simp add: InputLayer_SetNetwork_def bindE_bindE bindE_Inr_id in_batches_def foldE_concat [symmetric] foldE_map)
  have 2: "foldE (\<lambda>ly st. bindE (OutputLayer_SetNetwork n i (st, ly)) (\<lambda>(st, _). Inr st)) (mOutputLayers c) st
      = foldE (\<lambda>p. at_output_batch p (OutputBatch_SetNetwork n i)) (out_batches c) st" for st :: "('a, 'b) store"
    by (simp add: OutputLayer_SetNetwork_def bindE_bindE bindE_Inr_id out_batches_def foldE_concat [symmetric] foldE_map)
  have 3: "foldE (\<lambda>ly st. bindE (MultLayer_SetNetwork n i (st, ly)) (\<lambda>(st, _). Inr st)) (mMultLayers c) st
      = foldE (\<lambda>p. at_mult_batch p (\<lambda>(h, b). Inr (h, MultBatch_SetNetwork n i b))) (mult_batches c) st" for st :: "('a, 'b) store"
    by (simp add: MultLayer_SetNetwork_def bindE_bindE bindE_Inr_id mult_batches_def layer_batches_def foldE_concat [symmetric] foldE_map)
  have closed: "mIsClosed c" using closed_circuitD(3) [OF assms] by (simp add: s)
  let ?f = "InputGate_SetNetwork i"
  let ?s1 = "st\<lparr> sGates := mark ?f (in_gates (st, c)) (sGates st),
      sInputBatches := mark (input_network n i) (in_batches c) (sInputBatches st) \<rparr>"
  have f1: "foldE (\<lambda>p. at_input_batch p (InputBatch_SetNetwork n i)) (in_batches c) st = Inr ?s1"
    using I(2,3) batch_gates_in(1) [of _ c _ st] unfolding in_gates_def prod.case
    by (intro input_batches_network) blast
  let ?s2 = "?s1\<lparr> sMultBatches := mark (MultBatch_SetNetwork n i) (mult_batches c) (sMultBatches st) \<rparr>"
  have f2: "foldE (\<lambda>p. at_mult_batch p (\<lambda>(h, b). Inr (h, MultBatch_SetNetwork n i b))) (mult_batches c) ?s1 = Inr ?s2"
    using M(4) by (subst mult_batches_network) simp_all
  have "foldE (\<lambda>p. at_output_batch p (OutputBatch_SetNetwork n i)) (out_batches c) ?s2 = Inr (?s2\<lparr>
      sGates := mark ?f (concat (map (\<lambda>p. obGates (sOutputBatches ?s2 ! p)) (out_batches c))) (sGates ?s2),
      sOutputBatches := mark (output_network n i) (out_batches c) (sOutputBatches ?s2) \<rparr>)"
    using O(2,3) batch_gates_in(2) [of _ c _ st] by (intro output_batches_network) auto
  then have f3: "foldE (\<lambda>p. at_output_batch p (OutputBatch_SetNetwork n i)) (out_batches c) ?s2
      = Inr (fst (network_party n i (st, c)))"
    by (simp add: network_party_def out_gates_def mark_mark [OF network_idem(1)])
  show ?thesis
    unfolding s Circuit_SetNetwork_def prod.case Let_def
    using closed f2 f3 by (simp add: 1 2 3 f1) (simp add: network_party_def)
qed

end
