(* ===== verification/DummyPrep.thy ===== *)
theory DummyPrep
  imports Prepared
begin

text \<open>
  The preprocessing with known masks, \<open>Circuit::_DummyPrep(lambda)\<close>: it sets the masks of inputs and
  multiplications, reads those of the outputs, and leaves in every batch the party's shares of the
  packed sharings of the masks.
\<close>

section \<open>Loops that return\<close>

lemma foldP_append: "foldP f (xs @ ys) s = bindP (foldP f xs s) (foldP f ys)"
proof (induction xs arbitrary: s)
  case (Cons x xs)
  have "foldP f (xs @ ys) = (\<lambda>s. bindP (foldP f xs s) (foldP f ys))" by (intro ext Cons.IH)
  then show ?case by (simp add: bindP_assoc)
qed simp

lemma foldP_concat: "foldP (\<lambda>xs. foldP f xs) xss s = foldP f (concat xss) s"
proof (induction xss arbitrary: s)
  case (Cons xs xss)
  have "foldP (\<lambda>xs. foldP f xs) xss = foldP f (concat xss)" by (intro ext Cons.IH)
  then show ?case by (simp add: foldP_append)
qed simp

lemma foldP_map: "foldP f (map g xs) s = foldP (\<lambda>x. f (g x)) xs s"
proof (induction xs arbitrary: s)
  case (Cons x xs)
  have "foldP f (map g xs) = foldP (\<lambda>x. f (g x)) xs" by (intro ext Cons.IH)
  then show ?case by simp
qed simp

lemma foldP_invariant:
  assumes "I 0 s" and "\<And>m s. m < length xs \<Longrightarrow> I m s \<Longrightarrow> \<exists>s'. f (xs ! m) s = Some (Inr s') \<and> I (Suc m) s'"
  shows "\<exists>s'. foldP f xs s = Some (Inr s') \<and> I (length xs) s'"
  using assms
proof (induction xs rule: rev_induct)
  case Nil
  then show ?case by (simp add: retP_def)
next
  case (snoc x xs)
  have "\<exists>s'. foldP f xs s = Some (Inr s') \<and> I (length xs) s'"
  proof (rule snoc.IH [OF snoc.prems(1)])
    fix m s
    assume "m < length xs" "I m s"
    then show "\<exists>s'. f (xs ! m) s = Some (Inr s') \<and> I (Suc m) s'"
      using snoc.prems(2) [of m s] by (simp add: nth_append)
  qed
  then obtain s' where "foldP f xs s = Some (Inr s')" "I (length xs) s'" by blast
  with snoc.prems(2) [of "length xs" s'] show ?case by (auto simp: foldP_snoc)
qed

lemma foldE_Nil_fun: "foldE f [] = Inr"
  by (intro ext) simp

lemma foldE_nested:
  assumes "m \<le> length xss"
  shows "foldE (\<lambda>i s. bindE (vget xss i) (\<lambda>xs. foldE F xs s)) [0..<m] s = foldE F (concat (take m xss)) s"
  using assms
proof (induction m)
  case (Suc m)
  have "foldE (\<lambda>i s. bindE (vget xss i) (\<lambda>xs. foldE F xs s)) [m] = foldE F (xss ! m)"
    using Suc.prems by (intro ext) (simp add: foldE_Nil_fun bindE_Inr_id)
  with Suc show ?case by (simp add: foldE_append take_Suc_conv_app_nth)
qed simp

lemma foldE_on_gates:
  fixes st :: "('a, 'g) store"
  shows "foldE (\<lambda>g. on_gates (F g)) gs st = bindE (foldE F gs (sGates st)) (\<lambda>h. Inr (st\<lparr> sGates := h \<rparr>))"
proof (induction gs arbitrary: st)
  case (Cons g gs)
  have "foldE (\<lambda>g. on_gates (F g)) gs = (\<lambda>st :: ('a, 'g) store. bindE (foldE F gs (sGates st)) (\<lambda>h. Inr (st\<lparr> sGates := h \<rparr>)))"
    by (intro ext Cons.IH)
  moreover have "on_gates (F g) st = bindE (F g (sGates st)) (\<lambda>h. Inr (st\<lparr> sGates := h \<rparr>))"
    by (simp add: on_gates_def)
  ultimately show ?case by (simp add: bindE_bindE)
qed simp

section \<open>Getters after getters\<close>

context memo_getter
begin

lemma memoised_known: "memoised h h' \<Longrightarrow> i < length h \<Longrightarrow> rule (h ! i) = Known v \<Longrightarrow> h' ! i = h ! i"
  unfolding memoised_def by (metis rule.distinct(3,5))

lemma get_run:
  assumes "memoised h h0" "evals rule h g v"
  shows "\<exists>h'. get h0 g = Some (Inr (v, h')) \<and> memoised h h' \<and> memoised h0 h' \<and> rule (h' ! g) = Known v"
proof -
  obtain h' where h': "get h0 g = Some (Inr (v, h'))" "memoised h h'" using get_evals_gen [OF assms(2,1)] by blast
  have e: "evals rule h0 g v" by (rule memoised_evals [OF assms])
  then obtain h'' where "get h0 g = Some (Inr (v, h''))" "memoised h0 h''" using get_evals by blast
  with h'(1) have m0: "memoised h0 h'" by simp
  have "rule (h' ! g) = Known v"
    using e
  proof cases
    case evals_known
    then show ?thesis using memoised_known [OF m0] by metis
  next
    case (evals_both f l x r y)
    obtain h1 where h1: "get h0 l = Some (Inr (x, h1))" "memoised h0 h1" using get_evals [OF evals_both(5)] by blast
    obtain h2 where h2: "get h1 r = Some (Inr (y, h2))" "memoised h0 h2"
      using get_evals_gen [OF evals_both(7) h1(2)] by blast
    have "get h0 g = Some (Inr (f x y, upd g (store (f x y)) h2))"
      using evals_both h1 h2 by (simp add: get_unfold deref_def retP_def)
    then have "h' = upd g (store v) h2" using h'(1) evals_both(1) by simp
    then have "h' ! g = store v (h2 ! g)" using evals_both(2) memoised_length [OF h2(2)] by (simp add: upd_def)
    moreover have "h2 ! g = h0 ! g \<or> (\<exists>w. h2 ! g = store w (h0 ! g))"
      using h2(2) evals_both(2) unfolding memoised_def by blast
    ultimately have "h' ! g = store v (h0 ! g)" using store_store by metis
    then show ?thesis using store_known evals_both(3) by metis
  next
    case (evals_parent l)
    obtain h1 where h1: "get h0 l = Some (Inr (v, h1))" "memoised h0 h1" using get_evals [OF evals_parent(4)] by blast
    have "get h0 g = Some (Inr (v, upd g (store v) h1))"
      using evals_parent h1 by (simp add: get_unfold deref_def retP_def)
    then have "h' = upd g (store v) h1" using h'(1) by simp
    then have "h' ! g = store v (h1 ! g)" using evals_parent(1) memoised_length [OF h1(2)] by (simp add: upd_def)
    moreover have "h1 ! g = h0 ! g \<or> (\<exists>w. h1 ! g = store w (h0 ! g))"
      using h1(2) evals_parent(1) unfolding memoised_def by blast
    ultimately have "h' ! g = store v (h0 ! g)" using store_store by metis
    then show ?thesis using store_known evals_parent(2) by metis
  qed
  with h' m0 show ?thesis by blast
qed

end

section \<open>The masks\<close>

text \<open>A heap in which the masks \<open>l\<close> can be read.\<close>

definition masked :: "(nat \<Rightarrow> 'a::field) \<Rightarrow> 'a heap \<Rightarrow> bool" where
  "masked l h \<longleftrightarrow> (\<forall>g < length h. evals lambda_rule h g (l g))"

lemma maskedD: "masked l h \<Longrightarrow> g < length h \<Longrightarrow> evals lambda_rule h g (l g)"
  by (simp add: masked_def)

lemma wires_masked:
  assumes L: "linked h" and s: "same_links h h1"
    and at: "\<And>g. g < length h \<Longrightarrow> gclass (h ! g) \<in> {InputGate, MultGate} \<Longrightarrow> mLambda (h1 ! g) = lambda \<and> mLambdaSet (h1 ! g)"
    and unset: "\<And>g. g < length h \<Longrightarrow> gclass (h ! g) \<in> {AddGate, OutputGate} \<Longrightarrow> \<not> mLambdaSet (h1 ! g)"
  shows "masked (wire (\<lambda>_. lambda) (+) (\<lambda>_ _ _. lambda) 0 h) h1"
proof -
  let ?l = "wire (\<lambda>_. lambda) (+) (\<lambda>_ _ _. lambda) 0 h"
  have "evals lambda_rule h1 g (?l g)" if "g < length h" for g
    using that
  proof (induction g rule: less_induct)
    case (less g)
    note a = same_links_at [OF s less.prems]
    note l = linkedD(1,2) [OF L less.prems]
    note u = wire_unfold [OF L less.prems, of "\<lambda>_. lambda" "(+)" "\<lambda>_ _ _. lambda" 0, unfolded wire_step_def]
    have g: "g < length h1" using less.prems same_links_length [OF s] by simp
    show ?case
    proof (cases "gclass (h ! g)")
      case AddGate
      then have r: "lambda_rule (h1 ! g) = Both (+)" using a unset [OF less.prems] by (simp add: lambda_rule_def)
      have "evals lambda_rule h1 g (?l (left_of h g) + ?l (right_of h g))"
        by (rule evals_both [OF g, where f = "(+)" and l = "left_of h g" and r = "right_of h g"])
          (use r AddGate a l(1) less.prems less.IH [of "left_of h g"] less.IH [of "right_of h g"] in simp_all)
      then show ?thesis using u AddGate by simp
    next
      case OutputGate
      then have r: "lambda_rule (h1 ! g) = Parent" using a unset [OF less.prems] by (simp add: lambda_rule_def)
      have "evals lambda_rule h1 g (?l (left_of h g))"
        by (rule evals_parent [OF g, where l = "left_of h g"])
          (use r OutputGate a l(2) less.prems less.IH [of "left_of h g"] in simp_all)
      then show ?thesis using u OutputGate by simp
    qed (use a u at less.prems g in \<open>auto intro!: evals_known simp: lambda_rule_def\<close>)
  qed
  then show ?thesis using same_links_length [OF s] by (simp add: masked_def)
qed

text \<open>The masks of a list of gates, as the preprocessing of the batches reads them.\<close>

lemma gate_lambdas_masked:
  assumes "masked l h" "lam.memoised h h0" "length gates = k" "\<And>g. g \<in> set gates \<Longrightarrow> g < length h"
  shows "\<exists>h'. gate_lambdas k gates h0 = Some (Inr (map l gates, h')) \<and> lam.memoised h h' \<and> lam.memoised h0 h'"
proof -
  have "\<exists>s'. foldP (\<lambda>i (lambda, h). bindP (liftP (vget gates i)) (\<lambda>g. bindP (GetDummyLambda h g) (\<lambda>(l, h). retP (lambda @ [l], h))))
     [0..<k] ([], h0) = Some (Inr s') \<and> (fst s' = map l (take k gates) \<and> lam.memoised h (snd s') \<and> lam.memoised h0 (snd s'))"
  proof (rule foldP_upt_invariant)
    show "fst ([], h0) = map l (take 0 gates) \<and> lam.memoised h (snd ([], h0)) \<and> lam.memoised h0 (snd ([], h0))"
      using assms(2) by (simp add: lam.memoised_refl)
  next
    fix m s
    assume m: "m < k" and I: "fst s = map l (take m gates) \<and> lam.memoised h (snd s) \<and> lam.memoised h0 (snd s)"
    obtain ls hm where s: "s = (ls, hm)" by fastforce
    have e: "evals lambda_rule h (gates ! m) (l (gates ! m))"
      using assms(1,3,4) m by (intro maskedD) simp_all
    obtain h' where h': "GetDummyLambda hm (gates ! m) = Some (Inr (l (gates ! m), h'))" "lam.memoised h h'" "lam.memoised hm h'"
      using lam.get_run [OF _ e, of hm] I s by auto
    have "lam.memoised h0 h'"
      using lam.get_evals_gen [OF lam.memoised_evals [OF assms(2) e], of hm] I s h'(1) by auto
    then show "\<exists>s'. (case s of (lambda, h) \<Rightarrow> bindP (liftP (vget gates m)) (\<lambda>g. bindP (GetDummyLambda h g) (\<lambda>(l, h). retP (lambda @ [l], h))))
          = Some (Inr s') \<and> (fst s' = map l (take (Suc m) gates) \<and> lam.memoised h (snd s') \<and> lam.memoised h0 (snd s'))"
      using h' I s m assms(3) by (simp add: retP_def take_Suc_conv_app_nth)
  qed
  then show ?thesis using assms(3) by (auto simp: gate_lambdas_def)
qed

lemma collect_lambdas_masked:
  assumes "masked l h" "lam.memoised h h0" "length gates = k" and linked: "\<And>g. g \<in> set gates \<Longrightarrow> g < length h
      \<and> mLeft (h ! g) = Some (left_of h g) \<and> mRight (h ! g) = Some (right_of h g) \<and> left_of h g < length h \<and> right_of h g < length h"
  shows "\<exists>h'. collect_lambdas k gates h0 = Some (Inr (map (\<lambda>g. l (left_of h g)) gates, map (\<lambda>g. l (right_of h g)) gates, map l gates, h'))
    \<and> lam.memoised h h' \<and> lam.memoised h0 h'"
proof -
  let ?I = "\<lambda>m (as, bs, cs, h'). as = map (\<lambda>g. l (left_of h g)) (take m gates) \<and> bs = map (\<lambda>g. l (right_of h g)) (take m gates)
     \<and> cs = map l (take m gates) \<and> lam.memoised h h' \<and> lam.memoised h0 h'"
  have step: "\<exists>h'. GetDummyLambda hm g = Some (Inr (l g, h')) \<and> lam.memoised h h' \<and> lam.memoised h0 h'"
    if "g < length h" "lam.memoised h hm" "lam.memoised h0 hm" for g hm
  proof -
    note e = maskedD [OF assms(1) that(1)]
    note run = lam.get_run [OF that(2) e] and gen = lam.get_evals_gen [OF lam.memoised_evals [OF assms(2) e] that(3)]
    obtain h' where h': "GetDummyLambda hm g = Some (Inr (l g, h'))" "lam.memoised h h'"
      using run by blast
    moreover have "lam.memoised h0 h'" using gen h'(1) by auto
    ultimately show ?thesis by blast
  qed
  have links: "mLeft (hm ! g) = mLeft (h ! g) \<and> mRight (hm ! g) = mRight (h ! g)"
    if "lam.memoised h hm" "g < length h" for hm g
    using that unfolding lam.memoised_def by fastforce
  have "\<exists>s'. foldP (\<lambda>i (lambda_A, lambda_B, lambda_C, h).
     bindP (liftP (vget gates i)) (\<lambda>g. bindP (liftP (vget h g)) (\<lambda>G.
     bindP (liftP (deref (mLeft G))) (\<lambda>l. bindP (GetDummyLambda h l) (\<lambda>(l_A, h).
     bindP (liftP (vget h g)) (\<lambda>G.
     bindP (liftP (deref (mRight G))) (\<lambda>r. bindP (GetDummyLambda h r) (\<lambda>(l_B, h).
     bindP (GetDummyLambda h g) (\<lambda>(l_C, h).
     retP (lambda_A @ [l_A], lambda_B @ [l_B], lambda_C @ [l_C], h)))))))))) [0..<k] ([], [], [], h0) = Some (Inr s') \<and> ?I k s'"
  proof (rule foldP_upt_invariant)
    show "?I 0 ([], [], [], h0)" using assms(2) by (simp add: lam.memoised_refl)
  next
    fix m s
    assume m: "m < k" and I: "?I m s"
    obtain as bs cs hm where s: "s = (as, bs, cs, hm)" by (cases s) auto
    let ?g = "gates ! m"
    have g: "?g \<in> set gates" using m assms(3) by simp
    note k = linked [OF g]
    have len: "length hm = length h" if "lam.memoised h hm" for hm using that by (rule lam.memoised_length)
    obtain h1 where h1: "GetDummyLambda hm (left_of h ?g) = Some (Inr (l (left_of h ?g), h1))" "lam.memoised h h1" "lam.memoised h0 h1"
      using step [of "left_of h ?g" hm] I s k by auto
    obtain h2 where h2: "GetDummyLambda h1 (right_of h ?g) = Some (Inr (l (right_of h ?g), h2))" "lam.memoised h h2" "lam.memoised h0 h2"
      using step [of "right_of h ?g" h1] h1 k by auto
    obtain h3 where h3: "GetDummyLambda h2 ?g = Some (Inr (l ?g, h3))" "lam.memoised h h3" "lam.memoised h0 h3"
      using step [of ?g h2] h2 k by auto
    have hm: "lam.memoised h hm" using I s by simp
    have "?I (Suc m) (as @ [l (left_of h ?g)], bs @ [l (right_of h ?g)], cs @ [l ?g], h3)"
      using I h3(2,3) m assms(3) by (simp add: s take_Suc_conv_app_nth)
    moreover have "(case s of (lambda_A, lambda_B, lambda_C, h) \<Rightarrow>
     bindP (liftP (vget gates m)) (\<lambda>g. bindP (liftP (vget h g)) (\<lambda>G.
     bindP (liftP (deref (mLeft G))) (\<lambda>l. bindP (GetDummyLambda h l) (\<lambda>(l_A, h).
     bindP (liftP (vget h g)) (\<lambda>G.
     bindP (liftP (deref (mRight G))) (\<lambda>r. bindP (GetDummyLambda h r) (\<lambda>(l_B, h).
     bindP (GetDummyLambda h g) (\<lambda>(l_C, h).
     retP (lambda_A @ [l_A], lambda_B @ [l_B], lambda_C @ [l_C], h))))))))))
       = Some (Inr (as @ [l (left_of h ?g)], bs @ [l (right_of h ?g)], cs @ [l ?g], h3))"
      using m assms(3) k links [OF hm] links [OF h1(2)] len [OF hm] len [OF h1(2)] h1(1) h2(1) h3(1)
      by (simp add: s deref_def retP_def)
    ultimately show "\<exists>s'. (case s of (lambda_A, lambda_B, lambda_C, h) \<Rightarrow>
     bindP (liftP (vget gates m)) (\<lambda>g. bindP (liftP (vget h g)) (\<lambda>G.
     bindP (liftP (deref (mLeft G))) (\<lambda>l. bindP (GetDummyLambda h l) (\<lambda>(l_A, h).
     bindP (liftP (vget h g)) (\<lambda>G.
     bindP (liftP (deref (mRight G))) (\<lambda>r. bindP (GetDummyLambda h r) (\<lambda>(l_B, h).
     bindP (GetDummyLambda h g) (\<lambda>(l_C, h).
     retP (lambda_A @ [l_A], lambda_B @ [l_B], lambda_C @ [l_C], h)))))))))) = Some (Inr s') \<and> ?I (Suc m) s'"
      by blast
  qed
  then show ?thesis using assms(3) by (auto simp: collect_lambdas_def)
qed

end
