(* ===== verification/BuildSteps.thy ===== *)
theory BuildSteps
  imports Built DummyPrep
begin

text \<open>
  Every operation of the building interface (\<open>src/tp/circuits/building.cc\<close>) returns and keeps the invariant of
  the circuit, as long as it is used as the interface means: operands are gates that the user
  was given, and a multiplication goes to a layer above those its operands need.
\<close>

section \<open>New gates\<close>

definition new_gate :: "('a, 'g) party \<Rightarrow> ('a, 'g) party \<Rightarrow> nat \<Rightarrow> bool" where
  "new_gate s s' g \<longleftrightarrow> g = length (sGates (fst s)) \<and> extends s s' \<and> user_gate (sGates (fst s')) g"

lemmas gate_defs = new_InputGate_def new_OutputGate_def new_MultGate_def Gate_init_def

lemma bindE_Inr_eq: "m = Inr x \<Longrightarrow> bindE m f = f x"
  by simp

lemma Circuit_Add_step:
  assumes I: "circuit_inv k n FI fin FO (st, c)" and u: "user_gate (sGates st) l" "user_gate (sGates st) r"
  obtains g st' where "Circuit_Add l r (st, c) = Inr (g, st', c\<lparr> mAddGates := mAddGates c @ [g] \<rparr>)"
    "circuit_inv k n FI fin FO (st', c\<lparr> mAddGates := mAddGates c @ [g] \<rparr>)"
    "new_gate (st, c) (st', c\<lparr> mAddGates := mAddGates c @ [g] \<rparr>) g"
    "gclass (sGates st' ! g) = AddGate" "left_of (sGates st') g = l" "right_of (sGates st') g = r"
proof -
  let ?h = "sGates st" and ?g = "length (sGates st)"
  obtain G where G: "new_AddGate ?h l r = Inr G" "gclass G = AddGate" "mLeft G = Some l" "mRight G = Some r"
    "\<not> mLearned G" "\<not> mLambdaSet G" "\<not> mEvaluated G"
    using u by (simp add: new_AddGate_def GetShrLambda_def user_gate_def Gate_init_def)
  let ?st = "st\<lparr> sGates := ?h @ [G] \<rparr>" and ?c = "c\<lparr> mAddGates := mAddGates c @ [?g] \<rparr>"
  have "user_links ?h G" using G u by (simp add: user_links_def)
  then have "circuit_inv k n FI fin FO (?st, c)" using circuit_snoc [OF I] G by simp
  then have inv: "circuit_inv k n FI fin FO (?st, ?c)" by (simp add: circuit_inv_def flat_mults_def)
  have ext: "extends (st, c) (?st, ?c)" by (rule extends_snoc [where G = G]) (simp_all add: flat_mults_def)
  show ?thesis
    by (rule that [where g = ?g and st' = ?st])
      (use inv ext G in \<open>simp_all add: Circuit_Add_def alloc_gate_def make_shared_def new_gate_def user_gate_def is_pad_def left_of_def right_of_def\<close>)
qed

lemma Circuit_Input_step:
  assumes I: "circuit_inv k n FI fin FO (st, c)" and i: "i < n" "i \<notin> FI"
  obtains g s' where "Circuit_Input prg i (st, c) = Inr (g, s')" "circuit_inv k n FI fin FO s'" "new_gate (st, c) s' g"
    "mInputGates (snd s') = mInputGates c @ [g]" "mMultLayers (snd s') = mMultLayers c" "mFlatMultLayers (snd s') = mFlatMultLayers c"
    "gclass (sGates (fst s') ! g) = InputGate"
proof -
  let ?h = "sGates st" and ?g = "length (sGates st)" and ?G = "new_InputGate i :: 'a gate"
  note inv = circuit_invD [OF I]
  then have k: "0 < k" and heap: "heap_inv ?h"
    and inp: "inputs_inv k n FI ?h (sInputBatches st) (mInputLayers c) (mFlatInputGates c) (mInputGates c)"
    and mul: "mults_inv k (full_layers fin (mMultLayers c)) ?h (sMultBatches st) (mMultLayers c) (flat_mults c)"
    and lev: "levelled ?h (flat_mults c)"
    and out: "outputs_inv k n FO ?h (sOutputBatches st) (mOutputLayers c) (mFlatOutputGates c) (mOutputGates c)" by blast+
  have G: "gclass ?G = InputGate" "mOwnerID ?G = i" "\<not> mLearned ?G" "\<not> mLambdaSet ?G" "\<not> mEvaluated ?G" by (simp_all add: gate_defs)
  obtain bs' ps' where r: "input_fill.layer_append (?h @ [?G]) prg i k ?g (sInputBatches st) (ilBatches (mInputLayers c ! i)) = Inr (bs', ps')"
    "inputs_inv k n FI (?h @ [?G]) bs' ((mInputLayers c)[i := (mInputLayers c ! i)\<lparr> ilBatches := ps' \<rparr>])
       ((mFlatInputGates c)[i := mFlatInputGates c ! i @ [?g]]) (mInputGates c @ [?g])"
    by (rule inputs_append [OF inp i k G(1,2)])
  note ly = inputs_layer [OF inp i(1)]
  let ?st = "st\<lparr> sGates := ?h @ [?G], sInputBatches := bs' \<rparr>"
  let ?c = "c\<lparr> mInputLayers := (mInputLayers c)[i := (mInputLayers c ! i)\<lparr> ilBatches := ps' \<rparr>],
    mFlatInputGates := (mFlatInputGates c)[i := mFlatInputGates c ! i @ [?g]], mInputGates := mInputGates c @ [?g] \<rparr>"
  have links: "user_links ?h ?G" by (simp add: user_links_def G)
  have "gclass ?G \<noteq> MultGate" using G by simp
  note sn = heap_inv_snoc [OF heap links G(3-5)] mults_snoc [OF mul this] levelled_snoc [OF lev mul heap, of ?G] outputs_snoc [OF out, of ?G]
  have "circuit_inv k n FI fin FO (?st, ?c)"
    using sn r(2) inv by (simp add: circuit_inv_def flat_mults_def)
  moreover have "extends (st, c) (?st, ?c)" by (rule extends_snoc [where G = ?G]) (simp_all add: flat_mults_def)
  moreover have "Circuit_Input prg i (st, c) = Inr (?g, ?st, ?c)"
    using r(1) ly by (simp add: Circuit_Input_def alloc_gate_def make_shared_def InputLayer_Append_eq vpush_def)
  ultimately show ?thesis
    by (intro that [of ?g "(?st, ?c)"]) (simp_all add: new_gate_def user_gate_def is_pad_def G)
qed

lemma Circuit_Output_step:
  assumes I: "circuit_inv k n FI fin FO (st, c)" and i: "i < n" "i \<notin> FO" and u: "user_gate (sGates st) x"
  obtains g s' where "Circuit_Output prg i x (st, c) = Inr (g, s')" "circuit_inv k n FI fin FO s'" "new_gate (st, c) s' g"
    "mMultLayers (snd s') = mMultLayers c" "mFlatMultLayers (snd s') = mFlatMultLayers c"
proof -
  let ?h = "sGates st" and ?g = "length (sGates st)" and ?G = "new_OutputGate i x :: 'a gate"
  note inv = circuit_invD [OF I]
  then have k: "0 < k" and heap: "heap_inv ?h"
    and inp: "inputs_inv k n FI ?h (sInputBatches st) (mInputLayers c) (mFlatInputGates c) (mInputGates c)"
    and mul: "mults_inv k (full_layers fin (mMultLayers c)) ?h (sMultBatches st) (mMultLayers c) (flat_mults c)"
    and lev: "levelled ?h (flat_mults c)"
    and out: "outputs_inv k n FO ?h (sOutputBatches st) (mOutputLayers c) (mFlatOutputGates c) (mOutputGates c)" by blast+
  have G: "gclass ?G = OutputGate" "mOwnerID ?G = i" "\<not> mLearned ?G" "\<not> mLambdaSet ?G" "\<not> mEvaluated ?G" "mLeft ?G = Some x"
    by (simp_all add: gate_defs)
  obtain bs' ps' where r: "output_fill.layer_append (?h @ [?G]) prg i k ?g (sOutputBatches st) (olBatches (mOutputLayers c ! i)) = Inr (bs', ps')"
    "outputs_inv k n FO (?h @ [?G]) bs' ((mOutputLayers c)[i := (mOutputLayers c ! i)\<lparr> olBatches := ps' \<rparr>])
       ((mFlatOutputGates c)[i := mFlatOutputGates c ! i @ [?g]]) (mOutputGates c @ [?g])"
    by (rule outputs_append [OF out i k G(1,2)])
  note ly = outputs_layer [OF out i(1)]
  let ?st = "st\<lparr> sGates := ?h @ [?G], sOutputBatches := bs' \<rparr>"
  let ?c = "c\<lparr> mOutputLayers := (mOutputLayers c)[i := (mOutputLayers c ! i)\<lparr> olBatches := ps' \<rparr>],
    mFlatOutputGates := (mFlatOutputGates c)[i := mFlatOutputGates c ! i @ [?g]], mOutputGates := mOutputGates c @ [?g] \<rparr>"
  have links: "user_links ?h ?G" using u by (simp add: user_links_def G)
  have "gclass ?G \<noteq> MultGate" "gclass ?G \<noteq> InputGate" using G by simp_all
  note sn = heap_inv_snoc [OF heap links G(3-5)] mults_snoc [OF mul this(1)] levelled_snoc [OF lev mul heap, of ?G] inputs_snoc [OF inp this(2)]
  have "circuit_inv k n FI fin FO (?st, ?c)"
    using sn r(2) inv by (simp add: circuit_inv_def flat_mults_def)
  moreover have "extends (st, c) (?st, ?c)" by (rule extends_snoc [where G = ?G]) (simp_all add: flat_mults_def)
  moreover have "Circuit_Output prg i x (st, c) = Inr (?g, ?st, ?c)"
    using r(1) ly by (simp add: Circuit_Output_def alloc_gate_def make_shared_def OutputLayer_Append_eq vpush_def)
  ultimately show ?thesis
    by (intro that [of ?g "(?st, ?c)"]) (simp_all add: new_gate_def user_gate_def is_pad_def G)
qed

section \<open>Multiplications\<close>

lemma flat_mults_open: "length (mFlatMultLayers c) = length (mMultLayers c) \<Longrightarrow> flat_mults c = mFlatMultLayers c"
  by (simp add: flat_mults_def)

lemma levelled_push:
  assumes lev: "levelled h flats" and mul: "mults_inv k F h bs mls flats" and heap: "heap_inv h" and D: "length flats = length mls"
    and G: "gclass G = MultGate" "mLeft G = Some l" "mRight G = Some r"
    and u: "l < length h" "r < length h" "depth_at h flats l \<le> length mls - 1" "depth_at h flats r \<le> length mls - 1"
  shows "levelled (h @ [G]) (flats[length mls - 1 := last flats @ [length h]])"
    and "x < length h \<Longrightarrow> depth_at (h @ [G]) (flats[length mls - 1 := last flats @ [length h]]) x = depth_at h flats x"
proof -
  let ?D = "length mls - 1" and ?h = "h @ [G]" and ?flats = "flats[length mls - 1 := last flats @ [length h]]"
  have ne: "flats \<noteq> []" using D mul by (auto simp: mults_inv_def)
  have lst: "listed MultGate h (concat flats)" and cls: "\<And>g. g \<in> set (concat flats) \<Longrightarrow> has_class h [MultGate] g"
    using mul unfolding mults_inv_def by blast+
  have "layer_of ?flats g = layer_of flats g" if "g \<in> set (concat flats)" for g
    using layer_of_last [OF ne that, of "length h"] cls [OF that] D by (simp add: has_class_def)
  then show depth: "depth_at ?h ?flats x = depth_at h flats x" if "x < length h" for x
    using depth_at_flats [OF lst _ that, of ?flats] that by (simp add: depth_at_snoc)
  show "levelled ?h ?flats"
    unfolding levelled_def
  proof (intro allI impI ballI)
    fix d g assume d: "d < length ?flats" "g \<in> set (?flats ! d)"
    have last: "last flats = flats ! ?D" using ne D by (simp add: last_conv_nth)
    consider "d = ?D" "g = length h" | "g \<in> set (flats ! d)" using d last by (cases "d = ?D") auto
    then show "depth_at ?h ?flats (left_of ?h g) \<le> d \<and> depth_at ?h ?flats (right_of ?h g) \<le> d"
    proof cases
      case 1
      then have "left_of ?h g = l" "right_of ?h g = r" using G by (simp_all add: left_of_def right_of_def)
      then show ?thesis using depth u 1(1) by simp
    next
      case 2
      note g = mults_gate [OF mul heap _ 2]
      have d': "d < length flats" using d by simp
      have "left_of h g < length h" "right_of h g < length h" using g [OF d'] by simp_all
      moreover have "depth_at h flats (left_of h g) \<le> d \<and> depth_at h flats (right_of h g) \<le> d"
        using lev d' 2 unfolding levelled_def by blast
      ultimately show ?thesis using g(1) [OF d'] depth by (simp add: parents_snoc)
    qed
  qed
qed

lemma Circuit_Mult_step:
  assumes I: "circuit_inv k n FI False FO (st, c)" and u: "user_gate (sGates st) l" "user_gate (sGates st) r"
    and lv: "level (st, c) l < length (mMultLayers c)" "level (st, c) r < length (mMultLayers c)"
  obtains g s' where "Circuit_Mult prg l r (st, c) = Inr (g, s')" "circuit_inv k n FI False FO s'" "new_gate (st, c) s' g"
    "mInputGates (snd s') = mInputGates c" "length (mMultLayers (snd s')) = length (mMultLayers c)"
    "mFlatMultLayers (snd s') = (mFlatMultLayers c)[length (mMultLayers c) - 1 := last (mFlatMultLayers c) @ [g]]"
proof -
  let ?h = "sGates st" and ?g = "length (sGates st)" and ?G = "new_MultGate l r :: 'a gate" and ?mls = "mMultLayers c"
    and ?flats = "mFlatMultLayers c" and ?D = "length (mMultLayers c) - 1"
  note inv = circuit_invD [OF I]
  have len: "length ?flats = length ?mls" using inv by simp
  note fl = flat_mults_open [OF len]
  have F: "full_layers False ?mls = {d. d < ?D}" by (simp add: full_layers_def)
  have k: "0 < k" and heap: "heap_inv ?h"
    and inp: "inputs_inv k n FI ?h (sInputBatches st) (mInputLayers c) (mFlatInputGates c) (mInputGates c)"
    and mul: "mults_inv k {d. d < ?D} ?h (sMultBatches st) ?mls ?flats" and lev: "levelled ?h ?flats"
    and out: "outputs_inv k n FO ?h (sOutputBatches st) (mOutputLayers c) (mFlatOutputGates c) (mOutputGates c)"
    using inv unfolding fl F by blast+
  have G: "gclass ?G = MultGate" "mLeft ?G = Some l" "mRight ?G = Some r" "\<not> mLearned ?G" "\<not> mLambdaSet ?G" "\<not> mEvaluated ?G"
    by (simp_all add: gate_defs)
  have "?D \<notin> {d. d < ?D}" by simp
  from mults_append [OF mul this k G(1)] obtain bs' ps' where
    r: "mult_fill.layer_append prg k ?g (sMultBatches st) (mlBatches (last ?mls)) = Inr (bs', ps')"
    "mults_inv k {d. d < ?D} (?h @ [?G]) bs' (butlast ?mls @ [(last ?mls)\<lparr> mlBatches := ps' \<rparr>]) (?flats[?D := last ?flats @ [?g]])" .
  have ne: "?mls \<noteq> []" "?flats \<noteq> []" and sz: "mlBatchSize (last ?mls) = k" using mul len unfolding mults_inv_def by auto
  let ?ly = "(last ?mls)\<lparr> mlBatches := ps' \<rparr>" and ?flats' = "?flats[?D := last ?flats @ [?g]]"
  let ?st = "st\<lparr> sGates := ?h @ [?G], sMultBatches := bs' \<rparr>"
  let ?c = "c\<lparr> mMultLayers := butlast ?mls @ [?ly], mFlatMultLayers := ?flats', mSize := mSize c + 1 \<rparr>"
  have D': "length (butlast ?mls @ [?ly]) = length ?mls" "full_layers False (butlast ?mls @ [?ly]) = {d. d < ?D}"
    using ne by (simp_all add: full_layers_def)
  have fl': "flat_mults ?c = ?flats'" using D'(1) len by (simp add: flat_mults_def)
  have links: "user_links ?h ?G" using u by (simp add: user_links_def G)
  have lt: "l < length ?h" "r < length ?h" using u by (simp_all add: user_gate_def)
  have dp: "depth_at ?h ?flats l \<le> ?D" "depth_at ?h ?flats r \<le> ?D" using lv unfolding level_depth_at fl by simp_all
  note push = levelled_push [OF lev mul heap len G(1-3) lt dp]
  have "gclass ?G \<noteq> InputGate" using G by simp
  note sn = heap_inv_snoc [OF heap links G(4-6)] inputs_snoc [OF inp this] outputs_snoc [OF out, of ?G]
  have "circuit_inv k n FI False FO (?st, ?c)"
    unfolding circuit_inv_def prod.case fl' using sn r(2) inv push(1) D' len by simp
  moreover have "extends (st, c) (?st, ?c)"
    using push(2) unfolding extends_def fst_conv level_depth_at fl fl' by simp
  moreover have "Circuit_Mult prg l r (st, c) = Inr (?g, ?st, ?c)"
    using r(1) sz ne len
    by (simp add: Circuit_Mult_def alloc_gate_def make_shared_def MultLayer_Append_eq vpush_def vback_def last_conv_nth)
  ultimately show ?thesis
    using D'(1) by (intro that [of ?g "(?st, ?c)"]) (simp_all add: new_gate_def user_gate_def is_pad_def G)
qed

section \<open>Closing layers\<close>

lemma CloseInputs_step:
  assumes I: "circuit_inv k n {} fin FO (st, c)"
  obtains st' where "CloseInputs (st, c) = Some (Inr (st', c))" "circuit_inv k n {..<n} fin FO (st', c)" "extends (st, c) (st', c)"
proof -
  let ?f = "\<lambda>ly st. bindP (InputLayer_Close (st, ly)) (\<lambda>(st, _). retP st)"
  let ?I = "\<lambda>m st'. circuit_inv k n {..<m} fin FO (st', c) \<and> extends (st, c) (st', c)"
  have "\<exists>st''. ?f (mInputLayers c ! m) st' = Some (Inr st'') \<and> ?I (Suc m) st''"
    if m: "m < length (mInputLayers c)" and H: "?I m st'" for m st'
  proof -
    let ?h = "sGates st'" and ?G = "pad_gate PadInputGate m (length (sGates st')) :: 'a gate"
    note inv = circuit_invD [OF H [THEN conjunct1]]
    then have inp: "inputs_inv k n {..<m} ?h (sInputBatches st') (mInputLayers c) (mFlatInputGates c) (mInputGates c)"
      and out: "outputs_inv k n FO ?h (sOutputBatches st') (mOutputLayers c) (mFlatOutputGates c) (mOutputGates c)"
      and mul: "mults_inv k (full_layers fin (mMultLayers c)) ?h (sMultBatches st') (mMultLayers c) (flat_mults c)"
      and heap: "heap_inv ?h" and lev: "levelled ?h (flat_mults c)" by blast+
    have mn: "m < n" using m inp by (simp add: inputs_inv_def owned_inv_def)
    note ly = inputs_layer [OF inp mn]
    have G: "gclass ?G = PadInputGate" "mOwnerID ?G = m" "\<not> mLearned ?G" "\<not> mLambdaSet ?G" "\<not> mEvaluated ?G"
      by (simp_all add: pad_gate_defs)
    obtain bs' where r: "input_fill.layer_pad (?h @ [?G]) (length ?h) (sInputBatches st') (ilBatches (mInputLayers c ! m)) = Inr bs'"
      "inputs_inv k n (insert m {..<m}) (?h @ [?G]) bs' (mInputLayers c) (mFlatInputGates c) (mInputGates c)"
      by (rule inputs_pad [OF inp mn G(1,2)])
    let ?st = "st'\<lparr> sGates := ?h @ [?G], sInputBatches := bs' \<rparr>"
    have links: "user_links ?h ?G" by (simp add: user_links_def G)
    have "gclass ?G \<noteq> MultGate" using G by simp
    note sn = heap_inv_snoc [OF heap links G(3-5)] mults_snoc [OF mul this] levelled_snoc [OF lev mul heap, of ?G] outputs_snoc [OF out, of ?G]
    have "circuit_inv k n {..<Suc m} fin FO (?st, c)"
      using sn r(2) inv by (simp add: circuit_inv_def lessThan_Suc)
    moreover have "extends (st', c) (?st, c)" by (rule extends_snoc [where G = ?G]) simp_all
    ultimately have "?I (Suc m) ?st" using H extends_trans by blast
    moreover have "?f (mInputLayers c ! m) st' = Some (Inr ?st)"
      using r(1) ly(3) by (simp add: InputLayer_Close_eq retP_def)
    ultimately show ?thesis by blast
  qed
  moreover have "?I 0 st" using I extends_refl by simp
  ultimately have "\<exists>st'. foldP ?f (mInputLayers c) st = Some (Inr st') \<and> ?I (length (mInputLayers c)) st'"
    by (intro foldP_invariant [where I = ?I])
  moreover have "length (mInputLayers c) = n" using circuit_invD [OF I] by (simp add: inputs_inv_def owned_inv_def)
  ultimately obtain st' where "foldP ?f (mInputLayers c) st = Some (Inr st')" "?I n st'" by blast
  then show ?thesis by (intro that [of st']) (simp_all add: CloseInputs_def retP_def)
qed

lemma CloseOutputs_step:
  assumes I: "circuit_inv k n FI fin {} (st, c)"
  obtains st' where "CloseOutputs (st, c) = Some (Inr (st', c\<lparr> mIsClosed := True \<rparr>))"
    "circuit_inv k n FI fin {..<n} (st', c\<lparr> mIsClosed := True \<rparr>)" "extends (st, c) (st', c\<lparr> mIsClosed := True \<rparr>)"
proof -
  let ?f = "\<lambda>ly st. bindP (OutputLayer_Close (st, ly)) (\<lambda>(st, _). retP st)"
  let ?I = "\<lambda>m st'. circuit_inv k n FI fin {..<m} (st', c) \<and> extends (st, c) (st', c)"
  have "\<exists>st''. ?f (mOutputLayers c ! m) st' = Some (Inr st'') \<and> ?I (Suc m) st''"
    if m: "m < length (mOutputLayers c)" and H: "?I m st'" for m st'
  proof -
    let ?h = "sGates st'" and ?G = "pad_gate PadOutputGate m (length (sGates st')) :: 'a gate"
    note inv = circuit_invD [OF H [THEN conjunct1]]
    then have inp: "inputs_inv k n FI ?h (sInputBatches st') (mInputLayers c) (mFlatInputGates c) (mInputGates c)"
      and out: "outputs_inv k n {..<m} ?h (sOutputBatches st') (mOutputLayers c) (mFlatOutputGates c) (mOutputGates c)"
      and mul: "mults_inv k (full_layers fin (mMultLayers c)) ?h (sMultBatches st') (mMultLayers c) (flat_mults c)"
      and heap: "heap_inv ?h" and lev: "levelled ?h (flat_mults c)" by blast+
    have mn: "m < n" using m out by (simp add: outputs_inv_def owned_inv_def)
    note ly = outputs_layer [OF out mn]
    have G: "gclass ?G = PadOutputGate" "mOwnerID ?G = m" "\<not> mLearned ?G" "\<not> mLambdaSet ?G" "\<not> mEvaluated ?G"
      by (simp_all add: pad_gate_defs)
    obtain bs' where r: "output_fill.layer_pad (?h @ [?G]) (length ?h) (sOutputBatches st') (olBatches (mOutputLayers c ! m)) = Inr bs'"
      "outputs_inv k n (insert m {..<m}) (?h @ [?G]) bs' (mOutputLayers c) (mFlatOutputGates c) (mOutputGates c)"
      by (rule outputs_pad [OF out mn G(1,2)])
    let ?st = "st'\<lparr> sGates := ?h @ [?G], sOutputBatches := bs' \<rparr>"
    have links: "user_links ?h ?G" by (simp add: user_links_def G)
    have "gclass ?G \<noteq> MultGate" "gclass ?G \<noteq> InputGate" using G by simp_all
    note sn = heap_inv_snoc [OF heap links G(3-5)] mults_snoc [OF mul this(1)] levelled_snoc [OF lev mul heap, of ?G] inputs_snoc [OF inp this(2)]
    have "circuit_inv k n FI fin {..<Suc m} (?st, c)"
      using sn r(2) inv by (simp add: circuit_inv_def lessThan_Suc)
    moreover have "extends (st', c) (?st, c)" by (rule extends_snoc [where G = ?G]) simp_all
    ultimately have "?I (Suc m) ?st" using H extends_trans by blast
    moreover have "?f (mOutputLayers c ! m) st' = Some (Inr ?st)"
      using r(1) ly(3) by (simp add: OutputLayer_Close_eq retP_def)
    ultimately show ?thesis by blast
  qed
  moreover have "?I 0 st" using I extends_refl by simp
  ultimately have "\<exists>st'. foldP ?f (mOutputLayers c) st = Some (Inr st') \<and> ?I (length (mOutputLayers c)) st'"
    by (intro foldP_invariant [where I = ?I])
  moreover have "length (mOutputLayers c) = n" using circuit_invD [OF I] by (simp add: outputs_inv_def owned_inv_def)
  ultimately obtain st' where st': "foldP ?f (mOutputLayers c) st = Some (Inr st')" "?I n st'" by blast
  have "circuit_inv k n FI fin {..<n} (st', c\<lparr> mIsClosed := True \<rparr>)" "extends (st, c) (st', c\<lparr> mIsClosed := True \<rparr>)"
    using st'(2) by (simp_all add: circuit_inv_def flat_mults_def extends_def level_depth_at)
  then show ?thesis using st'(1) by (intro that [of st']) (simp_all add: CloseOutputs_def retP_def)
qed

lemma update_width_run:
  assumes "mFlatMultLayers c \<noteq> []"
  obtains w where "update_width c = Inr (c\<lparr> mWidth := w \<rparr>)"
proof (cases "mWidth c < length (last (mFlatMultLayers c))")
  case True
  then show ?thesis using assms by (intro that [of "length (last (mFlatMultLayers c))"]) (simp add: update_width_def vback_def)
next
  case False
  then show ?thesis using assms by (intro that [of "mWidth c"]) (simp add: update_width_def vback_def)
qed

lemma LastLayer_step:
  assumes I: "circuit_inv k n FI False FO (st, c)"
  obtains st' w where "LastLayer (st, c) = Some (Inr (st', c\<lparr> mWidth := w, mFlatMultLayers := mFlatMultLayers c @ [[]] \<rparr>))"
    "circuit_inv k n FI True FO (st', c\<lparr> mWidth := w, mFlatMultLayers := mFlatMultLayers c @ [[]] \<rparr>)"
    "extends (st, c) (st', c\<lparr> mWidth := w, mFlatMultLayers := mFlatMultLayers c @ [[]] \<rparr>)"
proof -
  let ?h = "sGates st" and ?G = "pad_gate PadMultGate 0 (length (sGates st)) :: 'a gate" and ?mls = "mMultLayers c"
    and ?flats = "mFlatMultLayers c"
  note inv = circuit_invD [OF I]
  then have len: "length ?flats = length ?mls" by simp
  note fl = flat_mults_open [OF len]
  have heap: "heap_inv ?h"
    and inp: "inputs_inv k n FI ?h (sInputBatches st) (mInputLayers c) (mFlatInputGates c) (mInputGates c)"
    and mul: "mults_inv k (full_layers False ?mls) ?h (sMultBatches st) ?mls ?flats" and lev: "levelled ?h ?flats"
    and out: "outputs_inv k n FO ?h (sOutputBatches st) (mOutputLayers c) (mFlatOutputGates c) (mOutputGates c)"
    using inv unfolding fl by blast+
  have ne: "?mls \<noteq> []" "?flats \<noteq> []" using mul len unfolding mults_inv_def by auto
  obtain w where w: "update_width c = Inr (c\<lparr> mWidth := w \<rparr>)" by (rule update_width_run [OF ne(2)])
  have G: "gclass ?G = PadMultGate" "\<not> mLearned ?G" "\<not> mLambdaSet ?G" "\<not> mEvaluated ?G" "mLeft ?G = Some (length ?h)" "mRight ?G = Some (length ?h)"
    by (simp_all add: pad_gate_defs)
  obtain bs' where r: "mult_fill.layer_pad (length ?h) (sMultBatches st) (mlBatches (last ?mls)) = Inr bs'"
    "mults_inv k (insert (length ?mls - 1) (full_layers False ?mls)) (?h @ [?G]) bs' ?mls ?flats"
    by (rule mults_pad [OF mul G(1)])
  have F: "insert (length ?mls - 1) (full_layers False ?mls) = full_layers True ?mls" using ne by (cases ?mls) (auto simp: full_layers_def)
  let ?st = "st\<lparr> sGates := ?h @ [?G], sMultBatches := bs' \<rparr>" and ?c = "c\<lparr> mWidth := w, mFlatMultLayers := ?flats @ [[]] \<rparr>"
  have fl': "flat_mults ?c = ?flats" using len by (simp add: flat_mults_def)
  have links: "user_links ?h ?G" using G by (simp add: user_links_def)
  have "gclass ?G \<noteq> InputGate" using G by simp
  note sn = heap_inv_snoc [OF heap links G(2-4)] inputs_snoc [OF inp this] outputs_snoc [OF out, of ?G] levelled_snoc [OF lev mul heap, of ?G]
  have "circuit_inv k n FI True FO (?st, ?c)"
    unfolding circuit_inv_def prod.case fl' using sn r(2) inv F len by simp
  moreover have "extends (st, c) (?st, ?c)"
    by (rule extends_snoc [where G = ?G]) (simp_all add: fl fl' [unfolded flat_mults_def] flat_mults_def len)
  moreover have "LastLayer (st, c) = Some (Inr (?st, ?c))"
    using r(1) ne(1) w by (simp add: LastLayer_def close_last_layer_def vback_def MultLayer_Close_eq retP_def)
  ultimately show ?thesis using that by blast
qed

lemma NewLayer_step:
  assumes I: "circuit_inv k n FI False FO (st, c)"
  obtains s' where "NewLayer prg (st, c) = Some (Inr s')" "circuit_inv k n FI False FO s'" "extends (st, c) s'"
    "length (mMultLayers (snd s')) = Suc (length (mMultLayers c))" "mFlatMultLayers (snd s') = mFlatMultLayers c @ [[]]"
    "mInputGates (snd s') = mInputGates c" "mIsClosed (snd s') = mIsClosed c"
proof -
  let ?flats = "mFlatMultLayers c"
  from LastLayer_step [OF I] obtain st' w where
    r: "LastLayer (st, c) = Some (Inr (st', c\<lparr> mWidth := w, mFlatMultLayers := ?flats @ [[]] \<rparr>))"
    "circuit_inv k n FI True FO (st', c\<lparr> mWidth := w, mFlatMultLayers := ?flats @ [[]] \<rparr>)"
    "extends (st, c) (st', c\<lparr> mWidth := w, mFlatMultLayers := ?flats @ [[]] \<rparr>)" .
  let ?c = "c\<lparr> mWidth := w, mFlatMultLayers := ?flats @ [[]] \<rparr>"
  let ?l = "\<lparr> mlBatches = [length (sMultBatches st')], mlBatchSize = k, mlID = None, mlParties = 0 \<rparr>"
  let ?st = "st'\<lparr> sMultBatches := sMultBatches st' @ [new_MultBatch prg k] \<rparr>" and ?c' = "?c\<lparr> mMultLayers := mMultLayers c @ [?l] \<rparr>"
  have len: "length ?flats = length (mMultLayers c)" and k: "cBatchSize c = k" using circuit_invD [OF I] by simp_all
  have fl: "flat_mults ?c = ?flats" "flat_mults ?c' = ?flats @ [[]]" "flat_mults c = ?flats" using len by (simp_all add: flat_mults_def)
  note inv = circuit_invD [OF r(2), unfolded fl]
  then have heap: "heap_inv (sGates st')" and lev: "levelled (sGates st') ?flats"
    and mul: "mults_inv k (full_layers True (mMultLayers ?c)) (sGates st') (sMultBatches st') (mMultLayers ?c) ?flats" by blast+
  have "length (mMultLayers ?c) \<notin> full_layers True (mMultLayers ?c)" by (simp add: full_layers_def)
  from mults_new [OF mul this, of ?l "new_MultBatch prg k"] have
    mul': "mults_inv k (full_layers False (mMultLayers ?c')) (sGates st') (sMultBatches ?st) (mMultLayers ?c') (?flats @ [[]])"
    by (simp add: new_MultBatch_def full_layers_def)
  have lst: "listed MultGate (sGates st') (concat ?flats)" using mul unfolding mults_inv_def by blast
  have depth: "depth_at (sGates st') (?flats @ [[]]) x = depth_at (sGates st') ?flats x" if "x < length (sGates st')" for x
    by (rule depth_at_flats [OF lst layer_of_append that])
  have lev': "levelled (sGates st') (?flats @ [[]])"
    unfolding levelled_def
  proof (intro allI impI ballI)
    fix d g assume d: "d < length (?flats @ [[]])" "g \<in> set ((?flats @ [[]]) ! d)"
    then have d': "d < length ?flats" "g \<in> set (?flats ! d)" by (cases "d = length ?flats"; simp add: nth_append)+
    note g = mults_gate [OF mul heap d']
    have "left_of (sGates st') g < length (sGates st')" "right_of (sGates st') g < length (sGates st')" using g by simp_all
    then show "depth_at (sGates st') (?flats @ [[]]) (left_of (sGates st') g) \<le> d \<and> depth_at (sGates st') (?flats @ [[]]) (right_of (sGates st') g) \<le> d"
      using depth lev d' unfolding levelled_def by simp
  qed
  have "circuit_inv k n FI False FO (?st, ?c')"
    unfolding circuit_inv_def prod.case fl using inv mul' lev' len by simp
  moreover have "extends (st', ?c) (?st, ?c')"
    unfolding extends_def fst_conv level_depth_at fl using depth by simp
  then have "extends (st, c) (?st, ?c')" by (rule extends_trans [OF r(3)])
  moreover have "NewLayer prg (st, c) = bindP (LastLayer (st, c)) (\<lambda>(st, c). let (st, next_layer) = new_MultLayer prg (cBatchSize c) st in
      retP (st, c\<lparr> mMultLayers := mMultLayers c @ [next_layer] \<rparr>))"
    by (simp add: NewLayer_def LastLayer_def bindP_assoc)
  then have "NewLayer prg (st, c) = Some (Inr (?st, ?c'))"
    by (simp add: r(1) new_MultLayer_def k retP_def)
  ultimately show ?thesis using that [of "(?st, ?c')"] by simp
qed

section \<open>The empty circuit\<close>

lemma layers_inv_Nil: "layers_inv gates ok k C F bs [] []"
  by (simp add: layers_inv_def)

lemma vresize_Nil: "vresize n [] = replicate n []"
  by (simp add: vresize_def)

lemma new_input_layers:
  obtains bs ils where "fold (\<lambda>i (st, ls). let (st, l) = new_InputLayer prg i k st in (st, ls @ [l])) [0..<n] (st, [])
      = (st\<lparr> sInputBatches := sInputBatches st @ bs \<rparr>, ils)" "length ils = n" "\<forall>i<n. ilOwnerID (ils ! i) = i \<and> ilBatchSize (ils ! i) = k"
    "sInputBatches st = [] \<longrightarrow> layers_inv ibGates (\<lambda>i. input_batch_of i k) k C {} bs (map ilBatches ils) (replicate n [])"
proof -
  have "\<exists>bs ils. fold (\<lambda>i (st, ls). let (st, l) = new_InputLayer prg i k st in (st, ls @ [l])) [0..<n] (st, [])
      = (st\<lparr> sInputBatches := sInputBatches st @ bs \<rparr>, ils) \<and> length ils = n
      \<and> (\<forall>i<n. ilOwnerID (ils ! i) = i \<and> ilBatchSize (ils ! i) = k)
      \<and> (sInputBatches st = [] \<longrightarrow> layers_inv ibGates (\<lambda>i. input_batch_of i k) k C {} bs (map ilBatches ils) (replicate n []))"
  proof (induction n)
    case 0
    then show ?case by (intro exI [of _ "[]"]) (simp add: layers_inv_Nil)
  next
    case (Suc n)
    then obtain bs ils where IH: "fold (\<lambda>i (st, ls). let (st, l) = new_InputLayer prg i k st in (st, ls @ [l])) [0..<n] (st, [])
        = (st\<lparr> sInputBatches := sInputBatches st @ bs \<rparr>, ils)" "length ils = n" "\<forall>i<n. ilOwnerID (ils ! i) = i \<and> ilBatchSize (ils ! i) = k"
      "sInputBatches st = [] \<longrightarrow> layers_inv ibGates (\<lambda>i. input_batch_of i k) k C {} bs (map ilBatches ils) (replicate n [])" by blast
    let ?b = "new_InputBatch prg n k" and ?l = "\<lparr> ilOwnerID = n, ilBatches = [length (sInputBatches st @ bs)], ilBatchSize = k, ilID = None, ilParties = 0 \<rparr>"
    have "layers_inv ibGates (\<lambda>i. input_batch_of i k) k C {} (bs @ [?b]) (map ilBatches (ils @ [?l])) (replicate (Suc n) [])"
      if "sInputBatches st = []"
    proof -
      have "layers_inv ibGates (\<lambda>i. input_batch_of i k) k C {} (bs @ [?b]) (map ilBatches ils @ [[length bs]]) (replicate n [] @ [[]])"
        using IH(4) that by (intro layers_new) (simp_all add: IH(2) input_batch_of_def new_InputBatch_def)
      then show ?thesis using that by (simp add: replicate_append_same)
    qed
    then show ?case
      by (intro exI [of _ "bs @ [?b]"] exI [of _ "ils @ [?l]"])
        (use IH(1-3) in \<open>simp add: new_InputLayer_def Let_def nth_append less_Suc_eq\<close>)
  qed
  then show ?thesis using that by blast
qed

lemma new_output_layers:
  obtains bs ols where "fold (\<lambda>i (st, ls). let (st, l) = new_OutputLayer prg i k st in (st, ls @ [l])) [0..<n] (st, [])
      = (st\<lparr> sOutputBatches := sOutputBatches st @ bs \<rparr>, ols)" "length ols = n" "\<forall>i<n. olOwnerID (ols ! i) = i \<and> olBatchSize (ols ! i) = k"
    "sOutputBatches st = [] \<longrightarrow> layers_inv obGates (\<lambda>i. output_batch_of i k) k C {} bs (map olBatches ols) (replicate n [])"
proof -
  have "\<exists>bs ols. fold (\<lambda>i (st, ls). let (st, l) = new_OutputLayer prg i k st in (st, ls @ [l])) [0..<n] (st, [])
      = (st\<lparr> sOutputBatches := sOutputBatches st @ bs \<rparr>, ols) \<and> length ols = n
      \<and> (\<forall>i<n. olOwnerID (ols ! i) = i \<and> olBatchSize (ols ! i) = k)
      \<and> (sOutputBatches st = [] \<longrightarrow> layers_inv obGates (\<lambda>i. output_batch_of i k) k C {} bs (map olBatches ols) (replicate n []))"
  proof (induction n)
    case 0
    then show ?case by (intro exI [of _ "[]"]) (simp add: layers_inv_Nil)
  next
    case (Suc n)
    then obtain bs ols where IH: "fold (\<lambda>i (st, ls). let (st, l) = new_OutputLayer prg i k st in (st, ls @ [l])) [0..<n] (st, [])
        = (st\<lparr> sOutputBatches := sOutputBatches st @ bs \<rparr>, ols)" "length ols = n" "\<forall>i<n. olOwnerID (ols ! i) = i \<and> olBatchSize (ols ! i) = k"
      "sOutputBatches st = [] \<longrightarrow> layers_inv obGates (\<lambda>i. output_batch_of i k) k C {} bs (map olBatches ols) (replicate n [])" by blast
    let ?b = "new_OutputBatch prg n k" and ?l = "\<lparr> olOwnerID = n, olBatches = [length (sOutputBatches st @ bs)], olBatchSize = k, olID = None, olParties = 0 \<rparr>"
    have "layers_inv obGates (\<lambda>i. output_batch_of i k) k C {} (bs @ [?b]) (map olBatches (ols @ [?l])) (replicate (Suc n) [])"
      if "sOutputBatches st = []"
    proof -
      have "layers_inv obGates (\<lambda>i. output_batch_of i k) k C {} (bs @ [?b]) (map olBatches ols @ [[length bs]]) (replicate n [] @ [[]])"
        using IH(4) that by (intro layers_new) (simp_all add: IH(2) output_batch_of_def new_OutputBatch_def)
      then show ?thesis using that by (simp add: replicate_append_same)
    qed
    then show ?case
      by (intro exI [of _ "bs @ [?b]"] exI [of _ "ols @ [?l]"])
        (use IH(1-3) in \<open>simp add: new_OutputLayer_def Let_def nth_append less_Suc_eq\<close>)
  qed
  then show ?thesis using that by blast
qed

lemma new_Circuit_inv:
  assumes k: "0 < k"
  shows "circuit_inv k n {} False {} (new_Circuit prg n k :: ('a::zero, 'g) party)"
    "length (mMultLayers (snd (new_Circuit prg n k :: ('a, 'g) party))) = 1" "mFlatMultLayers (snd (new_Circuit prg n k :: ('a, 'g) party)) = [[]]"
    "mInputGates (snd (new_Circuit prg n k :: ('a, 'g) party)) = []"
proof -
  let ?st = "empty_store :: ('a, 'g) store"
  obtain ibs ils where I: "fold (\<lambda>i (st, ls). let (st, l) = new_InputLayer prg i k st in (st, ls @ [l])) [0..<n] (?st, [])
      = (?st\<lparr> sInputBatches := sInputBatches ?st @ ibs \<rparr>, ils)" "length ils = n" "\<forall>i<n. ilOwnerID (ils ! i) = i \<and> ilBatchSize (ils ! i) = k"
    "sInputBatches ?st = [] \<longrightarrow> layers_inv ibGates (\<lambda>i. input_batch_of i k) k (\<lambda>i. has_class ([] :: 'a heap) [InputGate, PadInputGate]) {} ibs (map ilBatches ils) (replicate n [])"
    by (rule new_input_layers [where C = "\<lambda>i. has_class ([] :: 'a heap) [InputGate, PadInputGate]" and st = ?st and prg = prg and k = k and n = n])
  let ?st1 = "?st\<lparr> sInputBatches := sInputBatches ?st @ ibs \<rparr>"
  obtain obs ols where O: "fold (\<lambda>i (st, ls). let (st, l) = new_OutputLayer prg i k st in (st, ls @ [l])) [0..<n] (?st1, [])
      = (?st1\<lparr> sOutputBatches := sOutputBatches ?st1 @ obs \<rparr>, ols)" "length ols = n" "\<forall>i<n. olOwnerID (ols ! i) = i \<and> olBatchSize (ols ! i) = k"
    "sOutputBatches ?st1 = [] \<longrightarrow> layers_inv obGates (\<lambda>i. output_batch_of i k) k (\<lambda>i. has_class ([] :: 'a heap) [OutputGate, PadOutputGate]) {} obs (map olBatches ols) (replicate n [])"
    by (rule new_output_layers [where C = "\<lambda>i. has_class ([] :: 'a heap) [OutputGate, PadOutputGate]" and st = ?st1 and prg = prg and k = k and n = n])
  let ?b = "new_MultBatch prg k" and ?l = "\<lparr> mlBatches = [0], mlBatchSize = k, mlID = None, mlParties = 0 \<rparr>"
  have s: "new_Circuit prg n k = (\<lparr> sGates = [], sInputBatches = ibs, sOutputBatches = obs, sMultBatches = [?b] \<rparr>,
      (blank_circuit n k)\<lparr> mInputLayers := ils, mOutputLayers := ols, mFlatInputGates := replicate n [], mFlatOutputGates := replicate n [],
         mMultLayers := [?l], mFlatMultLayers := [[]] \<rparr>)"
    using I(1) O(1) by (simp add: new_Circuit_def Circuit_Init_def blank_circuit_def Let_def vresize_Nil new_MultLayer_def empty_store_def)
  have "layers_inv mbGates (\<lambda>i b. mbSize b = k) k (mult_in ([] :: 'a heap) [[]]) {} [?b] [[0]] [[]]"
    using layers_new [OF layers_inv_Nil, of "\<lambda>i b. mbSize b = k" ?b mbGates "{}" k "mult_in [] [[]]" "[]"]
    by (simp add: new_MultBatch_def)
  then show "circuit_inv k n {} False {} (new_Circuit prg n k :: ('a, 'g) party)"
    unfolding s using I(2-4) O(2-4) k
    by (auto simp: circuit_inv_def blank_circuit_def heap_inv_def linked_def unpadded_def fresh_def inputs_inv_def outputs_inv_def
        owned_inv_def mults_inv_def flat_mults_def levelled_def full_layers_def listed_def empty_store_def)
  show "length (mMultLayers (snd (new_Circuit prg n k :: ('a, 'g) party))) = 1" "mFlatMultLayers (snd (new_Circuit prg n k :: ('a, 'g) party)) = [[]]"
    "mInputGates (snd (new_Circuit prg n k :: ('a, 'g) party)) = []"
    unfolding s by (simp_all add: blank_circuit_def)
qed

end
