(* ===== verification/DummyRun.thy ===== *)
theory DummyRun
  imports DummyPrep
begin

text \<open>
  \<open>Circuit::_DummyPrep(lambda)\<close> on the party of a closed circuit whose network is set: it returns, it
  changes no gate but for its mask, and every multiplication batch ends up with the party's shares of
  the packed masks of its operands and of \<open>lambda_A lambda_B - lambda_C\<close>.
\<close>

section \<open>Gates up to their masks\<close>

definition unmask :: "'a::zero gate \<Rightarrow> 'a gate" where
  "unmask G = G\<lparr> mLambda := 0, mLambdaSet := False \<rparr>"

definition same_unmasked :: "'a::zero heap \<Rightarrow> 'a heap \<Rightarrow> bool" where
  "same_unmasked h h' \<longleftrightarrow> map unmask h' = map unmask h"

lemma unmask_eqD:
  assumes "unmask G = unmask G'"
  shows "gclass G = gclass G'" "mLeft G = mLeft G'" "mRight G = mRight G'" "mOwnerID G = mOwnerID G'"
    "mGateID G = mGateID G'" "mLearned G = mLearned G'" "mValue G = mValue G'" "mMu G = mMu G'"
  using assms by (cases G, cases G', simp add: unmask_def)+

lemma same_unmasked_trans: "same_unmasked h h' \<Longrightarrow> same_unmasked h' h'' \<Longrightarrow> same_unmasked h h''"
  by (simp add: same_unmasked_def)

lemma same_unmasked_length: "same_unmasked h h' \<Longrightarrow> length h' = length h"
  unfolding same_unmasked_def by (rule map_eq_imp_length_eq)

lemma same_unmasked_at:
  assumes "same_unmasked h h'" "g < length h"
  shows "unmask (h' ! g) = unmask (h ! g)"
  using assms same_unmasked_length [OF assms(1)] unfolding same_unmasked_def by (metis nth_map)

lemma same_unmasked_links: "same_unmasked h h' \<Longrightarrow> same_links h h'"
  by (intro same_linksI) (simp_all add: same_unmasked_length unmask_eqD [OF same_unmasked_at])

lemma memoised_unmasked: "lam.memoised h h' \<Longrightarrow> same_unmasked h h'"
  unfolding same_unmasked_def lam.memoised_def
  by (intro nth_equalityI) (auto simp: unmask_def dest!: spec)

lemma mark_unmasked: "same_unmasked h (mark (InputGate_SetLambda lambda) gs h)"
  unfolding same_unmasked_def by (intro nth_equalityI) (auto simp: unmask_def InputGate_SetLambda_def)

section \<open>Setting and reading masks\<close>

lemma set_lambda_all_mark:
  assumes "\<And>g. g \<in> set gs \<Longrightarrow> g < length (sGates st)"
  shows "set_lambda_all (InputGate_SetLambda lambda) gs st
    = Inr (st\<lparr> sGates := mark (InputGate_SetLambda lambda) gs (sGates st) \<rparr>)"
proof -
  have "InputGate_SetLambda lambda (InputGate_SetLambda lambda G) = InputGate_SetLambda lambda G" for G :: "'a gate"
    by (simp add: InputGate_SetLambda_def)
  from foldE_at_gate [of "InputGate_SetLambda lambda", OF this assms]
  show ?thesis by (simp add: set_lambda_all_def foldE_on_gates)
qed

lemma mult_lambda: "MultGate_SetDummyLambda = InputGate_SetLambda"
  by (intro ext) (simp add: MultGate_SetDummyLambda_def InputGate_SetLambda_def)

lemma mult_lambdas_all:
  assumes "length (mMultLayers c) \<le> length (mFlatMultLayers c)"
  shows "foldE (\<lambda>layer st. bindE (vget (mFlatMultLayers c) layer) (\<lambda>gates.
       set_lambda_all (MultGate_SetDummyLambda lambda) gates st)) [0..<GetDepth c] st
     = set_lambda_all (InputGate_SetLambda lambda) (concat (flat_mults c)) st"
  using foldE_nested [OF assms] by (simp add: set_lambda_all_def mult_lambda GetDepth_def flat_mults_def)

text \<open>A gate that was read keeps its mask in the gate.\<close>

lemma read_lambdas_masked:
  fixes st :: "('a::field, 'g) store"
  assumes "masked l h" "lam.memoised h (sGates st)" "\<And>g. g \<in> set gs \<Longrightarrow> g < length h"
  shows "\<exists>h'. read_lambdas gs st = Some (Inr (st\<lparr> sGates := h' \<rparr>)) \<and> lam.memoised h h'
    \<and> (\<forall>g \<in> set gs. lambda_rule (h' ! g) = Known (l g))"
proof -
  let ?I = "\<lambda>m st'. \<exists>h'. st' = st\<lparr> sGates := h' \<rparr> \<and> lam.memoised h h' \<and> (\<forall>g \<in> set (take m gs). lambda_rule (h' ! g) = Known (l g))"
  have "\<exists>s'. read_lambdas gs st = Some (Inr s') \<and> ?I (length gs) s'"
    unfolding read_lambdas_def
  proof (rule foldP_invariant [where I = ?I])
    show "?I 0 st" using assms(2) by (intro exI [of _ "sGates st"]) simp
  next
    fix m st'
    assume m: "m < length gs" and "?I m st'"
    then obtain hm where st': "st' = st\<lparr> sGates := hm \<rparr>" and hm: "lam.memoised h hm"
      and known: "\<And>g. g \<in> set (take m gs) \<Longrightarrow> lambda_rule (hm ! g) = Known (l g)" by blast
    let ?g = "gs ! m"
    have "?g < length h" using m assms(3) by simp
    from lam.get_run [OF hm maskedD [OF assms(1) this]] obtain h' where
      h': "GetDummyLambda hm ?g = Some (Inr (l ?g, h'))" "lam.memoised h h'" "lam.memoised hm h'"
        "lambda_rule (h' ! ?g) = Known (l ?g)" by blast
    have "lambda_rule (h' ! g) = Known (l g)" if g: "g \<in> set (take m gs)" for g
    proof -
      have "g < length hm" using in_set_takeD [OF g] assms(3) lam.memoised_length [OF hm] by simp
      from lam.memoised_known [OF h'(3) this known [OF g]] known [OF g] show ?thesis by simp
    qed
    with h' m show "\<exists>s'. bindP (GetDummyLambda (sGates st') ?g) (\<lambda>(l, h). retP (st'\<lparr> sGates := h \<rparr>)) = Some (Inr s') \<and> ?I (Suc m) s'"
      by (intro exI [of _ "st\<lparr> sGates := h' \<rparr>"] conjI exI [of _ h']) (auto simp: st' retP_def take_Suc_conv_app_nth)
  qed
  then show ?thesis by auto
qed

section \<open>The batches\<close>

text \<open>The packed masks of a batch, as functions of the point.\<close>

definition mask_fun :: "(nat \<Rightarrow> 'b::field) \<Rightarrow> (nat \<Rightarrow> nat) \<Rightarrow> nat list \<Rightarrow> 'b \<Rightarrow> 'b" where
  "mask_fun l side gs = packed_fun (map (\<lambda>g. l (side g)) gs)"

definition delta_fun :: "(nat \<Rightarrow> 'b::field) \<Rightarrow> 'b heap \<Rightarrow> nat list \<Rightarrow> 'b \<Rightarrow> 'b" where
  "delta_fun l h gs x = mask_fun l (left_of h) gs x * mask_fun l (right_of h) gs x - mask_fun l (\<lambda>g. g) gs x"

text \<open>A party whose network is set.\<close>

definition prep_party :: "nat \<Rightarrow> nat \<Rightarrow> nat \<Rightarrow> ('a, 'g) circuit \<Rightarrow> bool" where
  "prep_party n k i c \<longleftrightarrow> cBatchSize c = k \<and> 0 < k \<and> k < 2 ^ 31 \<and> cID c = Some i \<and> i < n \<and> cParties c = n"

text \<open>What the loops over the batches do not change.\<close>

definition mult_frame :: "('a, 'g) mult_batch \<Rightarrow> nat \<times> nat list \<times> nat option \<times> nat" where
  "mult_frame b = (mbSize b, mbGates b, mbID b, mbParties b)"

definition loop_frame :: "'a::field heap \<Rightarrow> ('a, 'g) store \<Rightarrow> ('a, 'g) store \<Rightarrow> bool" where
  "loop_frame h st0 st \<longleftrightarrow> lam.memoised h (sGates st)
     \<and> map ibGates (sInputBatches st) = map ibGates (sInputBatches st0)
     \<and> map obGates (sOutputBatches st) = map obGates (sOutputBatches st0)
     \<and> map mult_frame (sMultBatches st) = map mult_frame (sMultBatches st0)"

lemma map_eq_at: "map f xs' = map f xs \<Longrightarrow> i < length xs \<Longrightarrow> i < length xs' \<and> f (xs' ! i) = f (xs ! i)"
  by (metis length_map nth_map)

lemma loop_frame_at:
  assumes "loop_frame h st0 st"
  shows "lam.memoised h (sGates st)"
    "p < length (sInputBatches st0) \<Longrightarrow> p < length (sInputBatches st) \<and> ibGates (sInputBatches st ! p) = ibGates (sInputBatches st0 ! p)"
    "p < length (sOutputBatches st0) \<Longrightarrow> p < length (sOutputBatches st) \<and> obGates (sOutputBatches st ! p) = obGates (sOutputBatches st0 ! p)"
    "p < length (sMultBatches st0) \<Longrightarrow> p < length (sMultBatches st) \<and> mult_frame (sMultBatches st ! p) = mult_frame (sMultBatches st0 ! p)"
  using assms map_eq_at [of ibGates "sInputBatches st" "sInputBatches st0" p]
    map_eq_at [of obGates "sOutputBatches st" "sOutputBatches st0" p]
    map_eq_at [of mult_frame "sMultBatches st" "sMultBatches st0" p]
  unfolding loop_frame_def by blast+

lemma loop_frame_update:
  assumes "loop_frame h st0 st" "lam.memoised h h'"
  shows "p < length (sInputBatches st) \<Longrightarrow> ibGates ib = ibGates (sInputBatches st ! p) \<Longrightarrow>
      loop_frame h st0 (st\<lparr> sGates := h', sInputBatches := (sInputBatches st)[p := ib] \<rparr>)"
    "p < length (sOutputBatches st) \<Longrightarrow> obGates ob = obGates (sOutputBatches st ! p) \<Longrightarrow>
      loop_frame h st0 (st\<lparr> sGates := h', sOutputBatches := (sOutputBatches st)[p := ob] \<rparr>)"
    "p < length (sMultBatches st) \<Longrightarrow> mult_frame mb = mult_frame (sMultBatches st ! p) \<Longrightarrow>
      loop_frame h st0 (st\<lparr> sGates := h', sMultBatches := (sMultBatches st)[p := mb] \<rparr>)"
proof -
  have upd: "map f (xs[i := x]) = map f xs" if "i < length xs" "f x = f (xs ! i)" for f :: "'x \<Rightarrow> 'y" and xs i x
    using that by (simp add: map_update list_update_same_conv)
  show "p < length (sInputBatches st) \<Longrightarrow> ibGates ib = ibGates (sInputBatches st ! p) \<Longrightarrow>
      loop_frame h st0 (st\<lparr> sGates := h', sInputBatches := (sInputBatches st)[p := ib] \<rparr>)"
    using assms upd [of p "sInputBatches st" ibGates ib] by (simp add: loop_frame_def)
  show "p < length (sOutputBatches st) \<Longrightarrow> obGates ob = obGates (sOutputBatches st ! p) \<Longrightarrow>
      loop_frame h st0 (st\<lparr> sGates := h', sOutputBatches := (sOutputBatches st)[p := ob] \<rparr>)"
    using assms upd [of p "sOutputBatches st" obGates ob] by (simp add: loop_frame_def)
  show "p < length (sMultBatches st) \<Longrightarrow> mult_frame mb = mult_frame (sMultBatches st ! p) \<Longrightarrow>
      loop_frame h st0 (st\<lparr> sGates := h', sMultBatches := (sMultBatches st)[p := mb] \<rparr>)"
    using assms upd [of p "sMultBatches st" mult_frame mb] by (simp add: loop_frame_def)
qed

context point_field
begin

lemma own_packed_share_Inr:
  fixes xs :: "'a list"
  assumes "cBatchSize c = length xs" "xs \<noteq> []" "length xs < 2 ^ 31" "cID c = Some i" "i < cParties c"
  obtains g' where "own_packed_share rnd c xs g = Inr (packed_fun xs (share_point i), g')"
proof -
  obtain poly g' where
    p: "EvPolyFromSecretsAndDegree rnd xs (size_sub (length xs) 1) g = Inr (poly, g')"
      "\<And>n. SharesFromEvPoly poly n = Inr (map (\<lambda>i. packed_fun xs (share_point i)) [0..<n])"
    by (rule packed_shares [OF refl, of xs rnd g]) (use assms(2,3) in simp_all)
  have "own_packed_share rnd c xs g = Inr (packed_fun xs (share_point i), g')"
    using assms p by (simp add: own_packed_share_def deref_def)
  then show ?thesis by (rule that)
qed

lemma own_packed_share_party:
  fixes xs :: "'a list"
  assumes "prep_party n k i c" "length xs = k"
  shows "\<exists>g'. own_packed_share rnd c xs g = Inr (packed_fun xs (share_point i), g')"
  by (rule own_packed_share_Inr [of c xs i rnd g]) (use assms in \<open>auto simp: prep_party_def\<close>)

lemma prep_input_batch_run:
  fixes b :: "('a, 'g) input_batch"
  assumes "prep_party n k i c" "masked l h" "lam.memoised h hm" "length (ibGates b) = k" "\<And>g. g \<in> set (ibGates b) \<Longrightarrow> g < length h"
  shows "\<exists>h'. prep_input_batch rnd prg c (hm, b)
      = Some (Inr (h', b\<lparr> ibShrLambda := packed_fun (map l (ibGates b)) (share_point i) \<rparr>)) \<and> lam.memoised h h'"
proof -
  obtain h' where h': "gate_lambdas k (ibGates b) hm = Some (Inr (map l (ibGates b), h'))" "lam.memoised h h'"
    using gate_lambdas_masked [OF assms(2-5)] by blast
  have k: "cBatchSize c = k" using assms(1) by (simp add: prep_party_def)
  obtain g' where "own_packed_share rnd c (map l (ibGates b)) prg = Inr (packed_fun (map l (ibGates b)) (share_point i), g')"
    using own_packed_share_party [OF assms(1), of "map l (ibGates b)"] assms(4) by fastforce
  then show ?thesis using h' k by (simp add: prep_input_batch_def InputBatch_SetPreprocessing_def retP_def)
qed

lemma prep_output_batch_run:
  fixes b :: "('a, 'g) output_batch"
  assumes "prep_party n k i c" "masked l h" "lam.memoised h hm" "length (obGates b) = k" "\<And>g. g \<in> set (obGates b) \<Longrightarrow> g < length h"
  shows "\<exists>h'. prep_output_batch rnd prg c (hm, b)
      = Some (Inr (h', b\<lparr> obShrLambda := packed_fun (map l (obGates b)) (share_point i) \<rparr>)) \<and> lam.memoised h h'"
proof -
  obtain h' where h': "gate_lambdas k (obGates b) hm = Some (Inr (map l (obGates b), h'))" "lam.memoised h h'"
    using gate_lambdas_masked [OF assms(2-5)] by blast
  have k: "cBatchSize c = k" using assms(1) by (simp add: prep_party_def)
  obtain g' where "own_packed_share rnd c (map l (obGates b)) prg = Inr (packed_fun (map l (obGates b)) (share_point i), g')"
    using own_packed_share_party [OF assms(1), of "map l (obGates b)"] assms(4) by fastforce
  then show ?thesis using h' k by (simp add: prep_output_batch_def OutputBatch_SetPreprocessing_def retP_def)
qed

lemma prep_mult_batch_run:
  fixes b :: "('a, 'g) mult_batch"
  assumes "prep_party n k i c" "masked l h" "lam.memoised h hm" "length (mbGates b) = k" and "\<And>g. g \<in> set (mbGates b) \<Longrightarrow> g < length h
      \<and> mLeft (h ! g) = Some (left_of h g) \<and> mRight (h ! g) = Some (right_of h g) \<and> left_of h g < length h \<and> right_of h g < length h"
  shows "\<exists>h'. prep_mult_batch rnd prg c (hm, b) = Some (Inr (h',
       let A = packed_fun (map (\<lambda>g. l (left_of h g)) (mbGates b)) (share_point i);
           B = packed_fun (map (\<lambda>g. l (right_of h g)) (mbGates b)) (share_point i) in
       b\<lparr> mbShrLambdaA := A, mbShrLambdaB := B,
         mbShrDeltaC := A * B - packed_fun (map l (mbGates b)) (share_point i) \<rparr>)) \<and> lam.memoised h h'"
proof -
  let ?A = "map (\<lambda>g. l (left_of h g)) (mbGates b)" and ?B = "map (\<lambda>g. l (right_of h g)) (mbGates b)" and ?C = "map l (mbGates b)"
  obtain h' where h': "collect_lambdas k (mbGates b) hm = Some (Inr (?A, ?B, ?C, h'))" "lam.memoised h h'"
    using collect_lambdas_masked [OF assms(2-5)] by blast
  have k: "cBatchSize c = k" using assms(1) by (simp add: prep_party_def)
  have share: "\<exists>g'. own_packed_share rnd c xs g = Inr (packed_fun xs (share_point i), g')" if "length xs = k" for xs g
    using own_packed_share_party [OF assms(1) that] .
  obtain g1 where g1: "own_packed_share rnd c ?A prg = Inr (packed_fun ?A (share_point i), g1)" using share [of ?A] assms(4) by auto
  obtain g2 where g2: "own_packed_share rnd c ?B g1 = Inr (packed_fun ?B (share_point i), g2)" using share [of ?B] assms(4) by auto
  obtain g3 where g3: "own_packed_share rnd c ?C g2 = Inr (packed_fun ?C (share_point i), g3)" using share [of ?C] assms(4) by auto
  show ?thesis using h' k g1 g2 g3 by (simp add: prep_mult_batch_def MultBatch_SetPreprocessing_def retP_def Let_def)
qed

lemma prep_inputs_run:
  fixes st :: "('a, 'g) store"
  assumes c: "prep_party n k i c" and l: "masked l h" and st: "loop_frame h st0 st"
    and ps: "\<And>p. p \<in> set ps \<Longrightarrow> p < length (sInputBatches st0) \<and> length (ibGates (sInputBatches st0 ! p)) = k
      \<and> (\<forall>g \<in> set (ibGates (sInputBatches st0 ! p)). g < length h)"
  shows "\<exists>st'. foldP (\<lambda>p. at_input_batchP p (prep_input_batch rnd prg c)) ps st = Some (Inr st') \<and> loop_frame h st0 st'"
proof (rule foldP_invariant [where I = "\<lambda>_. loop_frame h st0", OF st])
  fix m st
  assume m: "m < length ps" and F: "loop_frame h st0 st"
  note P = ps [OF nth_mem [OF m]]
  note b = loop_frame_at(2) [OF F, of "ps ! m"]
  obtain h' ib where r: "prep_input_batch rnd prg c (sGates st, sInputBatches st ! (ps ! m)) = Some (Inr (h', ib))"
    "lam.memoised h h'" "ibGates ib = ibGates (sInputBatches st ! (ps ! m))"
    using prep_input_batch_run [OF c l loop_frame_at(1) [OF F], of "sInputBatches st ! (ps ! m)"] P b by fastforce
  show "\<exists>st'. at_input_batchP (ps ! m) (prep_input_batch rnd prg c) st = Some (Inr st') \<and> loop_frame h st0 st'"
    using loop_frame_update(1) [OF F r(2) _ r(3)] r(1) P b by (simp add: at_input_batchP_def retP_def)
qed

lemma prep_outputs_run:
  fixes st :: "('a, 'g) store"
  assumes c: "prep_party n k i c" and l: "masked l h" and st: "loop_frame h st0 st"
    and ps: "\<And>p. p \<in> set ps \<Longrightarrow> p < length (sOutputBatches st0) \<and> length (obGates (sOutputBatches st0 ! p)) = k
      \<and> (\<forall>g \<in> set (obGates (sOutputBatches st0 ! p)). g < length h)"
  shows "\<exists>st'. foldP (\<lambda>p. at_output_batchP p (prep_output_batch rnd prg c)) ps st = Some (Inr st') \<and> loop_frame h st0 st'"
proof (rule foldP_invariant [where I = "\<lambda>_. loop_frame h st0", OF st])
  fix m st
  assume m: "m < length ps" and F: "loop_frame h st0 st"
  note P = ps [OF nth_mem [OF m]]
  note b = loop_frame_at(3) [OF F, of "ps ! m"]
  obtain h' ob where r: "prep_output_batch rnd prg c (sGates st, sOutputBatches st ! (ps ! m)) = Some (Inr (h', ob))"
    "lam.memoised h h'" "obGates ob = obGates (sOutputBatches st ! (ps ! m))"
    using prep_output_batch_run [OF c l loop_frame_at(1) [OF F], of "sOutputBatches st ! (ps ! m)"] P b by fastforce
  show "\<exists>st'. at_output_batchP (ps ! m) (prep_output_batch rnd prg c) st = Some (Inr st') \<and> loop_frame h st0 st'"
    using loop_frame_update(2) [OF F r(2) _ r(3)] r(1) P b by (simp add: at_output_batchP_def retP_def)
qed

lemma prep_mults_run:
  fixes st :: "('a, 'g) store"
  assumes c: "prep_party n k i c" and l: "masked l h" and st: "loop_frame h st0 st"
    and ps: "\<And>p. p \<in> set ps \<Longrightarrow> p < length (sMultBatches st0) \<and> mult_frame (sMultBatches st0 ! p) = (k, GS p, Some i, n)
      \<and> length (GS p) = k \<and> (\<forall>g \<in> set (GS p). g < length h
      \<and> mLeft (h ! g) = Some (left_of h g) \<and> mRight (h ! g) = Some (right_of h g) \<and> left_of h g < length h \<and> right_of h g < length h)"
  shows "\<exists>st'. foldP (\<lambda>p. at_mult_batchP p (prep_mult_batch rnd prg c)) ps st = Some (Inr st') \<and> loop_frame h st0 st'
    \<and> cores n k (set ps) GS (\<lambda>p. mask_fun l (left_of h) (GS p)) (\<lambda>p. mask_fun l (right_of h) (GS p)) (\<lambda>p. delta_fun l h (GS p)) i st'"
proof -
  let ?C = "\<lambda>P. cores n k P GS (\<lambda>p. mask_fun l (left_of h) (GS p)) (\<lambda>p. mask_fun l (right_of h) (GS p)) (\<lambda>p. delta_fun l h (GS p)) i"
  have "\<exists>st'. foldP (\<lambda>p. at_mult_batchP p (prep_mult_batch rnd prg c)) ps st = Some (Inr st')
      \<and> loop_frame h st0 st' \<and> ?C (set (take (length ps) ps)) st'"
  proof (rule foldP_invariant [where I = "\<lambda>m st. loop_frame h st0 st \<and> ?C (set (take m ps)) st"])
    show "loop_frame h st0 st \<and> ?C (set (take 0 ps)) st" using st by (simp add: cores_def)
  next
    fix m st
    assume m: "m < length ps" and I: "loop_frame h st0 st \<and> ?C (set (take m ps)) st"
    let ?p = "ps ! m" and ?b = "sMultBatches st ! (ps ! m)"
    note P = ps [OF nth_mem [OF m]]
    note F = I [THEN conjunct1]
    note b = loop_frame_at(4) [OF F, of ?p]
    have fr: "mbSize ?b = k" "mbGates ?b = GS ?p" "mbID ?b = Some i" "mbParties ?b = n"
      using P b by (simp_all add: mult_frame_def)
    obtain h' mb where r: "prep_mult_batch rnd prg c (sGates st, ?b) = Some (Inr (h', mb))" "lam.memoised h h'"
      and mb: "mb = ?b\<lparr> mbShrLambdaA := mask_fun l (left_of h) (GS ?p) (share_point i),
         mbShrLambdaB := mask_fun l (right_of h) (GS ?p) (share_point i), mbShrDeltaC := delta_fun l h (GS ?p) (share_point i) \<rparr>"
      using prep_mult_batch_run [OF c l loop_frame_at(1) [OF F], of ?b rnd prg] P fr
      by (fastforce simp: mask_fun_def delta_fun_def Let_def)
    let ?st = "st\<lparr> sGates := h', sMultBatches := (sMultBatches st)[?p := mb] \<rparr>"
    have "at_mult_batchP ?p (prep_mult_batch rnd prg c) st = Some (Inr ?st)"
      using r(1) P b by (simp add: at_mult_batchP_def retP_def)
    moreover have "loop_frame h st0 ?st"
      using loop_frame_update(3) [OF F r(2), of ?p mb] P b by (simp add: mb mult_frame_def)
    moreover have "?C (set (take (Suc m) ps)) ?st"
    proof -
      have "batch_core mb = party_core n k (GS ?p) (mask_fun l (left_of h) (GS ?p)) (mask_fun l (right_of h) (GS ?p)) (delta_fun l h (GS ?p)) i"
        using fr by (simp add: mb batch_core_def party_core_def)
      then show ?thesis
        using I m P b by (auto simp: cores_def take_Suc_conv_app_nth nth_list_update)
    qed
    ultimately show "\<exists>st'. at_mult_batchP ?p (prep_mult_batch rnd prg c) st = Some (Inr st')
        \<and> loop_frame h st0 st' \<and> ?C (set (take (Suc m) ps)) st'" by blast
  qed
  then show ?thesis by simp
qed

lemma mask_batch_prepared:
  fixes l :: "nat \<Rightarrow> 'a"
  assumes "length gs = k" "0 < k" "k < 2 ^ 31" "2 * k - 1 \<le> n"
  shows "batch_prepared n k h l gs (mask_fun l (left_of h) gs) (mask_fun l (right_of h) gs) (delta_fun l h gs)"
proof -
  have f: "polyfun k (mask_fun l s gs)" for s using packed_fun_polyfun [of "map (\<lambda>g. l (s g)) gs"] assms(1) by (simp add: mask_fun_def)
  have at: "mask_fun l s gs (secret_point j) = l (s (gs ! j))" if "j < k" for s j
    using packed_fun_at [of j "map (\<lambda>g. l (s g)) gs"] that assms(1,3) by (simp add: mask_fun_def)
  obtain k' where k': "k = Suc k'" using assms(2) by (cases k) simp_all
  have "polyfun (2 * k - 1) (\<lambda>x. mask_fun l (left_of h) gs x * mask_fun l (right_of h) gs x)"
    using polyfun_mult [of k' "mask_fun l (left_of h) gs" k' "mask_fun l (right_of h) gs"] f unfolding k' by (simp add: mult_2)
  then have "polyfun n (\<lambda>x. mask_fun l (left_of h) gs x * mask_fun l (right_of h) gs x)" using assms(4) by (rule polyfun_mono)
  moreover have "polyfun n (mask_fun l (\<lambda>g. g) gs)" by (rule polyfun_mono [OF f]) (use assms(4) in simp)
  ultimately have "polyfun n (delta_fun l h gs)" unfolding delta_fun_def [abs_def] by (rule polyfun_diff)
  moreover have "polyfun (n - k + 1) (mask_fun l s gs)" for s by (rule polyfun_mono [OF f]) (use assms(2,4) in simp)
  ultimately show ?thesis
    using assms(1) at by (simp add: batch_prepared_def delta_fun_def)
qed

end

section \<open>The whole preprocessing\<close>

lemma foldP_concat_map: "foldP F (concat (map f xs)) s = foldP (\<lambda>x. foldP F (f x)) xs s"
  by (simp add: foldP_concat [symmetric] foldP_map)

lemma mult_batches_map: "mult_batches c = concat (map mlBatches (mMultLayers c))"
  by (simp add: mult_batches_def layer_batches_def)

text \<open>The circuit of a party after \<open>SetNetwork\<close> has the wires of the circuit that was built.\<close>

lemma network_party_links: "same_links (sGates (fst s)) (sGates (fst (network_party n i s)))"
  by (cases s) (simp add: network_party_def InputGate_SetNetwork_def same_links_mark)

lemma mask_fun_links:
  assumes "same_links h h'" "\<And>g. g \<in> set gs \<Longrightarrow> g < length h"
  shows "mask_fun l (left_of h') gs = mask_fun l (left_of h) gs" "mask_fun l (right_of h') gs = mask_fun l (right_of h) gs"
    "delta_fun l h' gs = delta_fun l h gs"
proof -
  show L: "mask_fun l (left_of h') gs = mask_fun l (left_of h) gs"
    and R: "mask_fun l (right_of h') gs = mask_fun l (right_of h) gs"
    using parents_same [OF assms(1)] assms(2) by (simp_all add: mask_fun_def cong: map_cong)
  show "delta_fun l h' gs = delta_fun l h gs" by (simp add: delta_fun_def [abs_def] L R)
qed

lemma network_party_batches:
  "length (sInputBatches (fst (network_party n i s))) = length (sInputBatches (fst s))"
  "length (sOutputBatches (fst (network_party n i s))) = length (sOutputBatches (fst s))"
  "length (sMultBatches (fst (network_party n i s))) = length (sMultBatches (fst s))"
  "p < length (sInputBatches (fst s)) \<Longrightarrow> ibGates (sInputBatches (fst (network_party n i s)) ! p) = ibGates (sInputBatches (fst s) ! p)"
  "p < length (sOutputBatches (fst s)) \<Longrightarrow> obGates (sOutputBatches (fst (network_party n i s)) ! p) = obGates (sOutputBatches (fst s) ! p)"
  "p < length (sMultBatches (fst s)) \<Longrightarrow> p \<in> set (mult_batches (snd s)) \<Longrightarrow> mult_frame (sMultBatches (fst (network_party n i s)) ! p)
    = (mbSize (sMultBatches (fst s) ! p), mbGates (sMultBatches (fst s) ! p), Some i, n)"
  by (cases s; simp add: network_party_def mult_frame_def MultBatch_SetNetwork_def)+

lemma masked_memoised: "masked l h \<Longrightarrow> lam.memoised h h' \<Longrightarrow> masked l h'"
  using lam.memoised_evals lam.memoised_length unfolding masked_def by metis

definition circuit_cores :: "nat \<Rightarrow> nat \<Rightarrow> ('a::field, 'g) party \<Rightarrow> 'a \<Rightarrow> nat \<Rightarrow> ('a, 'g) store \<Rightarrow> bool" where
  "circuit_cores n k s lambda i st \<longleftrightarrow> (let l = wire_masks s lambda; h = sGates (fst s); GS = (\<lambda>p. mbGates (sMultBatches (fst s) ! p)) in
     cores n k (set (mult_batches (snd s))) GS (\<lambda>p. mask_fun l (left_of h) (GS p)) (\<lambda>p. mask_fun l (right_of h) (GS p))
       (\<lambda>p. delta_fun l h (GS p)) i st)"

lemma in_concat_nth: "g \<in> set (concat xss) \<Longrightarrow> \<exists>d < length xss. g \<in> set (xss ! d)"
  by (metis UN_E in_set_conv_nth set_concat)

lemma flat_gate:
  assumes "closed_circuit k s"
  shows "g \<in> set (flat_inputs (snd s)) \<Longrightarrow> g \<in> set (in_gates s) \<and> g < length (sGates (fst s)) \<and> gclass (sGates (fst s) ! g) = InputGate
      \<and> mOwnerID (sGates (fst s) ! g) < mClients (snd s) \<and> g \<in> set (mFlatInputGates (snd s) ! mOwnerID (sGates (fst s) ! g))"
    "g \<in> set (flat_outputs (snd s)) \<Longrightarrow> g \<in> set (out_gates s) \<and> g < length (sGates (fst s)) \<and> gclass (sGates (fst s) ! g) = OutputGate
      \<and> mOwnerID (sGates (fst s) ! g) < mClients (snd s) \<and> g \<in> set (mFlatOutputGates (snd s) ! mOwnerID (sGates (fst s) ! g))"
    "g \<in> set (concat (flat_mults (snd s))) \<Longrightarrow> g < length (sGates (fst s)) \<and> gclass (sGates (fst s) ! g) = MultGate"
proof -
  note I = inputs_closedD [OF closed_circuitD(6) [OF assms]]
  note O = outputs_closedD [OF closed_circuitD(7) [OF assms]]
  note M = mults_closedD [OF closed_circuitD(8) [OF assms]]
  show "g \<in> set (flat_inputs (snd s)) \<Longrightarrow> g \<in> set (in_gates s) \<and> g < length (sGates (fst s)) \<and> gclass (sGates (fst s) ! g) = InputGate
      \<and> mOwnerID (sGates (fst s) ! g) < mClients (snd s) \<and> g \<in> set (mFlatInputGates (snd s) ! mOwnerID (sGates (fst s) ! g))"
    using in_concat_nth [of g "mFlatInputGates (snd s)"] I(1) I(4) [of _ g] by (auto simp: flat_inputs_def)
  show "g \<in> set (flat_outputs (snd s)) \<Longrightarrow> g \<in> set (out_gates s) \<and> g < length (sGates (fst s)) \<and> gclass (sGates (fst s) ! g) = OutputGate
      \<and> mOwnerID (sGates (fst s) ! g) < mClients (snd s) \<and> g \<in> set (mFlatOutputGates (snd s) ! mOwnerID (sGates (fst s) ! g))"
    using in_concat_nth [of g "mFlatOutputGates (snd s)"] O(1) O(4) [of _ g] by (auto simp: flat_outputs_def)
  show "g \<in> set (concat (flat_mults (snd s))) \<Longrightarrow> g < length (sGates (fst s)) \<and> gclass (sGates (fst s) ! g) = MultGate"
    using in_concat_nth [of g "flat_mults (snd s)"] M(1) M(6) [of _ g] by auto
qed

lemma mult_gate_links:
  assumes "closed_circuit k s" "p \<in> set (mult_batches (snd s))" "g \<in> set (mbGates (sMultBatches (fst s) ! p))"
  shows "g < length (sGates (fst s)) \<and> mLeft (sGates (fst s) ! g) = Some (left_of (sGates (fst s)) g)
    \<and> mRight (sGates (fst s) ! g) = Some (right_of (sGates (fst s)) g)
    \<and> left_of (sGates (fst s)) g < length (sGates (fst s)) \<and> right_of (sGates (fst s)) g < length (sGates (fst s))"
proof -
  let ?h = "sGates (fst s)"
  note M = mults_closedD [OF closed_circuitD(8) [OF assms(1)]]
  obtain d where d: "d < length (mMultLayers (snd s))" "p \<in> set (layer_batches (snd s) ! d)"
    using in_concat_nth [of p "layer_batches (snd s)"] assms(2) by (auto simp: mult_batches_def)
  have g: "g < length ?h" "gclass (?h ! g) = MultGate \<or> gclass (?h ! g) = PadMultGate"
    using M(5) [OF d assms(3)] M(6) [OF d(1)] by blast+
  show ?thesis
    using linkedD(1,3) [OF closed_circuitD(4) [OF assms(1)] g(1)] g by (auto simp: left_of_def right_of_def)
qed

context point_field
begin

lemma DummyPrep_run:
  fixes s :: "('a, 'g) party"
  assumes C: "closed_circuit k s" and i: "i < n" and n: "k < 2 ^ 31"
  defines "x \<equiv> network_party n i s"
  shows "\<exists>st. Circuit_DummyPrep rnd prg lambda x = Some (Inr (st, snd x)) \<and> same_unmasked (sGates (fst x)) (sGates st)
    \<and> (\<forall>g \<in> set (flat_inputs (snd s)) \<union> set (flat_outputs (snd s)). mLambda (sGates st ! g) = wire_masks s lambda g)
    \<and> circuit_cores n k s lambda i st"
proof -
  let ?l = "wire_masks s lambda" and ?h = "sGates (fst s)" and ?b = "sGates (fst x)" and ?cir = "snd x"
  note I = inputs_closedD [OF closed_circuitD(6) [OF C]]
  note O = outputs_closedD [OF closed_circuitD(7) [OF C]]
  note M = mults_closedD [OF closed_circuitD(8) [OF C]]
  have links: "same_links ?h ?b" unfolding x_def by (rule network_party_links)
  have len: "length ?b = length ?h" by (rule same_links_length [OF links])
  have P: "prep_party n k i ?cir"
    using closed_circuitD(1,2) [OF C] n i by (cases s) (simp add: x_def network_party_def prep_party_def)
  have cir: "mInputGates ?cir = mInputGates (snd s)" "mOutputGates ?cir = mOutputGates (snd s)" "in_batches ?cir = in_batches (snd s)"
    "out_batches ?cir = out_batches (snd s)" "mult_batches ?cir = mult_batches (snd s)" "flat_mults ?cir = flat_mults (snd s)"
    "length (mMultLayers ?cir) \<le> length (mFlatMultLayers ?cir)"
    using M(1) by (cases s; simp add: x_def network_party_def in_batches_def out_batches_def mult_batches_def layer_batches_def flat_mults_def)+
  let ?gs = "mInputGates (snd s) @ concat (flat_mults (snd s))"
  let ?h1 = "mark (InputGate_SetLambda lambda) ?gs ?b"
  have gs: "g < length ?b \<and> gclass (?h ! g) \<in> {InputGate, MultGate}" if "g \<in> set ?gs" for g
    using that flat_gate(1,3) [OF C, of g] I(6) len by auto
  have first: "set_lambda_all (InputGate_SetLambda lambda) (mInputGates (snd s)) (fst x)
      = Inr (fst x\<lparr> sGates := mark (InputGate_SetLambda lambda) (mInputGates (snd s)) ?b \<rparr>)"
    using gs by (intro set_lambda_all_mark) simp
  have marked: "set_lambda_all (InputGate_SetLambda lambda) (concat (flat_mults (snd s)))
      (fst x\<lparr> sGates := mark (InputGate_SetLambda lambda) (mInputGates (snd s)) ?b \<rparr>) = Inr (fst x\<lparr> sGates := ?h1 \<rparr>)"
    using gs by (subst set_lambda_all_mark) (simp_all add: mark_mark InputGate_SetLambda_def)
  have "masked ?l ?h1"
    unfolding wire_masks_def
  proof (rule wires_masked [OF closed_circuitD(4) [OF C]])
    show "same_links ?h ?h1"
      using same_links_trans [OF links same_unmasked_links [OF mark_unmasked]] .
    fix g
    assume g: "g < length ?h"
    show "mLambda (?h1 ! g) = lambda \<and> mLambdaSet (?h1 ! g)" if "gclass (?h ! g) \<in> {InputGate, MultGate}"
    proof -
      have "g \<in> set ?gs" using that I(5) [OF g] I(6) M(7) [OF g] by auto
      then show ?thesis using g len by (simp add: InputGate_SetLambda_def)
    qed
    show "\<not> mLambdaSet (?h1 ! g)" if "gclass (?h ! g) \<in> {AddGate, OutputGate}"
    proof -
      have "g \<notin> set ?gs"
      proof
        assume "g \<in> set ?gs"
        from gs [OF this] that show False by auto
      qed
      moreover have "\<not> mLambdaSet (?h ! g)" using closed_circuitD(5) [OF C] g by (simp add: fresh_def list_all_length)
      ultimately show ?thesis
        using g len by (cases s) (simp add: x_def network_party_def InputGate_SetNetwork_def)
    qed
  qed
  note masked1 = this
  have fl: "set (mOutputGates (snd s)) = set (flat_outputs (snd s))" using O(5) .
  obtain h2 where h2: "read_lambdas (mOutputGates (snd s)) (fst x\<lparr> sGates := ?h1 \<rparr>) = Some (Inr (fst x\<lparr> sGates := h2 \<rparr>))"
    "lam.memoised ?h1 h2" "\<And>g. g \<in> set (flat_outputs (snd s)) \<Longrightarrow> lambda_rule (h2 ! g) = Known (?l g)"
    using read_lambdas_masked [OF masked1, of "fst x\<lparr> sGates := ?h1 \<rparr>" "mOutputGates (snd s)"] flat_gate(2) [OF C] fl len
    by (auto simp: lam.memoised_refl)
  have masked2: "masked ?l h2" by (rule masked_memoised [OF masked1 h2(2)])
  have un2: "same_unmasked ?b h2" by (rule same_unmasked_trans [OF mark_unmasked memoised_unmasked [OF h2(2)]])
  have links2: "same_links ?h h2" by (rule same_links_trans [OF links same_unmasked_links [OF un2]])
  have len2: "length h2 = length ?h" by (rule same_links_length [OF links2])
  have fr0: "loop_frame h2 (fst x) (fst x\<lparr> sGates := h2 \<rparr>)" by (simp add: loop_frame_def lam.memoised_refl)
  let ?GS = "\<lambda>p. mbGates (sMultBatches (fst s) ! p)"
  have in_len: "p \<in> set (in_batches (snd s)) \<Longrightarrow> g \<in> set (ibGates (sInputBatches (fst s) ! p)) \<Longrightarrow> g < length h2"
    "p \<in> set (out_batches (snd s)) \<Longrightarrow> g \<in> set (obGates (sOutputBatches (fst s) ! p)) \<Longrightarrow> g < length h2" for p g
    using batch_gates_in [of p "snd s" g "fst s"] I(3) O(3) len2 by (simp_all add: prod.collapse)
  have inb: "p < length (sInputBatches (fst x)) \<and> length (ibGates (sInputBatches (fst x) ! p)) = k
      \<and> (\<forall>g \<in> set (ibGates (sInputBatches (fst x) ! p)). g < length h2)" if "p \<in> set (in_batches (snd s))" for p
    using I(2) [OF that] in_len(1) [OF that] by (simp add: x_def network_party_batches)
  have outb: "p < length (sOutputBatches (fst x)) \<and> length (obGates (sOutputBatches (fst x) ! p)) = k
      \<and> (\<forall>g \<in> set (obGates (sOutputBatches (fst x) ! p)). g < length h2)" if "p \<in> set (out_batches (snd s))" for p
    using O(2) [OF that] in_len(2) [OF that] by (simp add: x_def network_party_batches)
  have mult: "p < length (sMultBatches (fst x)) \<and> mult_frame (sMultBatches (fst x) ! p) = (k, ?GS p, Some i, n) \<and> length (?GS p) = k
      \<and> (\<forall>g \<in> set (?GS p). g < length h2 \<and> mLeft (h2 ! g) = Some (left_of h2 g) \<and> mRight (h2 ! g) = Some (right_of h2 g)
      \<and> left_of h2 g < length h2 \<and> right_of h2 g < length h2)" if p: "p \<in> set (mult_batches (snd s))" for p
    using M(4) [OF p] p mult_gate_links [OF C p] len2 same_links_at(2,3) [OF links2] parents_same [OF links2]
    by (simp add: x_def network_party_batches)
  obtain st3 where st3: "foldP (\<lambda>p. at_input_batchP p (prep_input_batch rnd prg ?cir)) (in_batches (snd s)) (fst x\<lparr> sGates := h2 \<rparr>)
      = Some (Inr st3)" "loop_frame h2 (fst x) st3"
    using prep_inputs_run [OF P masked2 fr0 inb, of "in_batches (snd s)" rnd prg] by blast
  obtain st4 where st4: "foldP (\<lambda>p. at_output_batchP p (prep_output_batch rnd prg ?cir)) (out_batches (snd s)) st3 = Some (Inr st4)"
      "loop_frame h2 (fst x) st4"
    using prep_outputs_run [OF P masked2 st3(2) outb, of "out_batches (snd s)" rnd prg] by blast
  let ?C = "cores n k (set (mult_batches (snd s))) ?GS (\<lambda>p. mask_fun ?l (left_of h2) (?GS p)) (\<lambda>p. mask_fun ?l (right_of h2) (?GS p)) (\<lambda>p. delta_fun ?l h2 (?GS p)) i"
  obtain st5 where st5: "foldP (\<lambda>p. at_mult_batchP p (prep_mult_batch rnd prg ?cir)) (mult_batches (snd s)) st4 = Some (Inr st5)"
      "loop_frame h2 (fst x) st5" "?C st5"
    using prep_mults_run [OF P masked2 st4(2) mult, of "mult_batches (snd s)" rnd prg] by blast
  have "Circuit_DummyPrep rnd prg lambda (fst x, ?cir) = Some (Inr (st5, ?cir))"
    unfolding Circuit_DummyPrep_def prod.case foldP_concat_map [symmetric] in_batches_def [symmetric] out_batches_def [symmetric]
      mult_batches_map [symmetric] mult_lambdas_all [OF cir(7)] cir
    using first marked h2(1) st3(1) st4(1) st5(1) by (simp add: retP_def)
  moreover have "same_unmasked ?b (sGates st5)"
    using same_unmasked_trans [OF un2 memoised_unmasked [OF loop_frame_at(1) [OF st5(2)]]] .
  moreover have "mLambda (sGates st5 ! g) = ?l g" if g: "g \<in> set (flat_inputs (snd s)) \<union> set (flat_outputs (snd s))" for g
  proof -
    have gl: "g < length h2" using g flat_gate(1,2) [OF C] len2 by auto
    have known: "lambda_rule (h2 ! g) = Known (?l g)" if "g \<in> set (flat_inputs (snd s))"
    proof -
      have "gclass (h2 ! g) = InputGate" using flat_gate(1) [OF C that] same_links_at(1) [OF links2] by simp
      moreover have "evals lambda_rule h2 g (?l g)" using maskedD [OF masked2 gl] .
      ultimately show ?thesis by (auto simp: evals_iff [of lambda_rule h2 g] lambda_rule_def split: if_splits)
    qed
    then have "lambda_rule (h2 ! g) = Known (?l g)" using g h2(3) by blast
    then have "sGates st5 ! g = h2 ! g" using lam.memoised_known [OF loop_frame_at(1) [OF st5(2)] gl] by blast
    moreover have "gclass (h2 ! g) = InputGate \<or> gclass (h2 ! g) = OutputGate"
      using g flat_gate(1,2) [OF C] same_links_at(1) [OF links2] by auto
    ultimately show ?thesis using \<open>lambda_rule (h2 ! g) = Known (?l g)\<close>
      by (auto simp: lambda_rule_def split: if_splits)
  qed
  moreover have "circuit_cores n k s lambda i st5"
  proof -
    have "mask_fun ?l (left_of h2) (?GS p) = mask_fun ?l (left_of ?h) (?GS p)" "mask_fun ?l (right_of h2) (?GS p) = mask_fun ?l (right_of ?h) (?GS p)"
      "delta_fun ?l h2 (?GS p) = delta_fun ?l ?h (?GS p)" if "p \<in> set (mult_batches (snd s))" for p
      using mult_gate_links [OF C that] by (intro mask_fun_links [OF links2]; simp)+
    then show ?thesis using st5(3) by (simp add: circuit_cores_def Let_def cores_def)
  qed
  ultimately show ?thesis by (intro exI [of _ st5]) simp
qed

end

end
