(* ===== verification/Ready.thy ===== *)
theory Ready
  imports DummyRun
begin

text \<open>
  The inputs. \<open>SetInputs\<close> gives every input gate of a party its value, and with the preprocessing done
  the parties are ready for the online protocol. \<open>SetClearInputs\<close> does the same for the evaluation in
  the clear, whose \<open>GetClearOutputs\<close> returns the value of every output wire.
\<close>

section \<open>Loops that write one value per gate\<close>

definition assign :: "(nat \<Rightarrow> 'b \<Rightarrow> 'b) \<Rightarrow> nat list \<Rightarrow> 'b list \<Rightarrow> 'b list" where
  "assign F is xs = map (\<lambda>i. if i \<in> set is then F i (xs ! i) else xs ! i) [0..<length xs]"

lemma length_assign [simp]: "length (assign F is xs) = length xs"
  by (simp add: assign_def)

lemma nth_assign [simp]: "i < length xs \<Longrightarrow> assign F is xs ! i = (if i \<in> set is then F i (xs ! i) else xs ! i)"
  by (simp add: assign_def)

lemma foldE_assign:
  assumes F: "\<And>g G. F g (F g G) = F g G" and f: "\<And>g G. Q G \<Longrightarrow> f g G = Inr (F g G) \<and> Q (F g G)"
    and gs: "\<And>g. g \<in> set gs \<Longrightarrow> g < length h \<and> Q (h ! g)"
  shows "foldE (\<lambda>g h. at_gate h g (f g)) gs h = Inr (assign F gs h)"
  using gs
proof (induction gs arbitrary: h)
  case Nil
  show ?case by (simp add: assign_def map_nth)
next
  case (Cons g gs)
  then have g: "g < length h" "Q (h ! g)" by simp_all
  let ?h = "h[g := F g (h ! g)]"
  have "g' < length ?h \<and> Q (?h ! g')" if "g' \<in> set gs" for g'
    using Cons.prems [of g'] that g f by (cases "g' = g") simp_all
  then have "foldE (\<lambda>g h. at_gate h g (f g)) gs ?h = Inr (assign F gs ?h)" by (rule Cons.IH)
  moreover have "assign F gs ?h = assign F (g # gs) h"
    using g F by (intro nth_equalityI) (auto simp: nth_list_update)
  ultimately show ?case using g f by (simp add: at_gate_def)
qed

lemma foldE_index:
  assumes "xs = map v gs"
  shows "foldE (\<lambda>j s. bindE (vget gs j) (\<lambda>g. bindE (vget xs j) (\<lambda>x. K g x s))) [0..<length xs] s
    = foldE (\<lambda>g. K g (v g)) gs s"
proof -
  have "foldE (\<lambda>j s. bindE (vget gs j) (\<lambda>g. bindE (vget xs j) (\<lambda>x. K g x s))) [0..<length xs] s
      = foldE (\<lambda>j. K (gs ! j) (v (gs ! j))) [0..<length gs] s"
    unfolding assms length_map by (rule foldE_cong) simp
  also have "\<dots> = foldE (\<lambda>g. K g (v g)) (map ((!) gs) [0..<length gs]) s" by (simp add: foldE_map)
  finally show ?thesis by (simp add: map_nth)
qed

text \<open>Lists of inputs as functions on the input gates.\<close>

lemma inputs_by_gate:
  assumes "distinct (concat gss)" "map length xss = map length gss"
  shows "\<exists>x. map (map x) gss = xss"
  using assms
proof (induction gss arbitrary: xss)
  case (Cons gs gss)
  from Cons.prems(2) obtain xs xss' where x: "xss = xs # xss'" "length xs = length gs" "map length xss' = map length gss"
    by (cases xss) auto
  obtain y where y: "map (map y) gss = xss'" using Cons.IH [OF _ x(3)] Cons.prems(1) by auto
  let ?x = "\<lambda>g. case map_of (zip gs xs) g of Some v \<Rightarrow> v | None \<Rightarrow> y g"
  have "map ?x gs = xs"
    using Cons.prems(1) x(2) by (intro nth_equalityI) (simp_all add: map_of_zip_nth)
  moreover have "map ?x g = map y g" if "g \<in> set gss" for g
  proof -
    have "set g \<inter> set gs = {}" using Cons.prems(1) that by auto
    then have "map_of (zip gs xs) z = None" if "z \<in> set g" for z using that x(2) by (auto simp: map_of_zip_is_None)
    then show ?thesis by simp
  qed
  ultimately have "map (map ?x) (gs # gss) = xss" using y x(1) by (auto cong: map_cong)
  then show ?case by (rule exI [of _ ?x])
qed simp

section \<open>SetInputs\<close>

definition set_value :: "(nat \<Rightarrow> 'a) \<Rightarrow> nat \<Rightarrow> 'a gate \<Rightarrow> 'a gate" where
  "set_value x g G = G\<lparr> mValue := x g \<rparr>"

lemma SetInputs_run:
  assumes "cID c = Some i" "i < length (mFlatInputGates c)" "\<And>g. g \<in> set (mFlatInputGates c ! i) \<Longrightarrow>
     g < length (sGates st) \<and> mGateID (sGates st ! g) = Some i \<and> mOwnerID (sGates st ! g) = i"
  shows "SetInputs (map x (mFlatInputGates c ! i)) (st, c)
    = Inr (st\<lparr> sGates := assign (set_value x) (mFlatInputGates c ! i) (sGates st) \<rparr>, c)"
proof -
  let ?gs = "mFlatInputGates c ! i"
  have "foldE (\<lambda>g h. at_gate h g (InputGate_SetInput (x g))) ?gs (sGates st) = Inr (assign (set_value x) ?gs (sGates st))"
    by (rule foldE_assign [where Q = "\<lambda>G. mGateID G = Some i \<and> mOwnerID G = i"])
      (use assms(3) in \<open>simp_all add: set_value_def InputGate_SetInput_def deref_def\<close>)
  then show ?thesis
    using foldE_index [OF refl, where gs = ?gs and v = x and s = st and K = "\<lambda>g y. on_gates (\<lambda>h. at_gate h g (InputGate_SetInput y))"]
      foldE_on_gates [of "\<lambda>g h. at_gate h g (InputGate_SetInput (x g))" ?gs st] assms(1,2)
    by (simp add: SetInputs_def deref_def)
qed

section \<open>Evaluation in the clear\<close>

definition clear_value :: "(nat \<Rightarrow> 'a) \<Rightarrow> nat \<Rightarrow> 'a gate \<Rightarrow> 'a gate" where
  "clear_value x g = InputGate_ClearInput (x g)"

lemma SetClearInputs_run:
  assumes "length (mFlatInputGates c) = mClients c" "\<And>g. g \<in> set (concat (mFlatInputGates c)) \<Longrightarrow> g < length (sGates st)"
  shows "SetClearInputs (map (map x) (mFlatInputGates c)) (st, c)
    = Inr (st\<lparr> sGates := assign (clear_value x) (concat (mFlatInputGates c)) (sGates st) \<rparr>, c)"
proof -
  let ?gss = "mFlatInputGates c"
  let ?K = "\<lambda>g y. on_gates (\<lambda>h. at_gate h g (\<lambda>G. Inr (InputGate_ClearInput y G)))"
  have "foldE (\<lambda>i st. bindE (vget (map (map x) ?gss) i) (\<lambda>inputs. bindE (vget ?gss i) (\<lambda>gates.
       throw_if (length inputs \<noteq> length gates)
         (Invalid_argument ''Number of inputs provided for a client does not match its number of input gates'') (
       foldE (\<lambda>j st. bindE (vget gates j) (\<lambda>g. bindE (vget inputs j) (\<lambda>x. ?K g x st))) [0..<length inputs] st))))
       [0..<mClients c] st
     = foldE (\<lambda>i st. bindE (vget ?gss i) (\<lambda>gates. foldE (\<lambda>g. ?K g (x g)) gates st)) [0..<mClients c] st"
    by (rule foldE_cong) (use assms(1) foldE_index [OF refl, where v = x and K = ?K] in simp)
  also have "\<dots> = foldE (\<lambda>g. ?K g (x g)) (concat ?gss) st"
    using foldE_nested [of "mClients c" ?gss] assms(1) by simp
  also have "\<dots> = Inr (st\<lparr> sGates := assign (clear_value x) (concat ?gss) (sGates st) \<rparr>)"
    using foldE_assign [of "clear_value x" "\<lambda>_. True" "\<lambda>g G. Inr (InputGate_ClearInput (x g) G)" "concat ?gss" "sGates st"] assms(2)
    by (simp add: foldE_on_gates clear_value_def InputGate_ClearInput_def)
  finally show ?thesis using assms(1) by (simp add: SetClearInputs_def)
qed

text \<open>Every gate but padding evaluates to the value of its wire.\<close>

lemma clear_wires:
  assumes C: "closed_circuit k s" and g: "g < length (sGates (fst s))" "\<not> is_pad (sGates (fst s) ! g)"
  shows "evals clear_rule (assign (clear_value x) (concat (mFlatInputGates (snd s))) (sGates (fst s))) g (wire_values s x g)"
  using g
proof (induction g rule: less_induct)
  case (less g)
  let ?h = "sGates (fst s)" and ?v = "wire_values s x" and ?gs = "concat (mFlatInputGates (snd s))"
  let ?h' = "assign (clear_value x) ?gs ?h"
  note I = inputs_closedD [OF closed_circuitD(6) [OF C]]
  note l = linkedD(1,2) [OF closed_circuitD(4) [OF C] less.prems(1)]
  note u = wire_unfold [OF closed_circuitD(4) [OF C] less.prems(1), of x "(+)" "\<lambda>_. (*)" 0,
      unfolded wire_step_def, folded wire_values_def]
  have gs: "?gs = flat_inputs (snd s)" using I(1) by (simp add: flat_inputs_def)
  have F: "\<not> mEvaluated (?h ! g)" using closed_circuitD(5) [OF C] less.prems(1) by (simp add: fresh_def list_all_length)
  have up: "case gclass (?h ! g) of
      AddGate \<Rightarrow> \<not> is_pad (?h ! left_of ?h g) \<and> \<not> is_pad (?h ! right_of ?h g)
    | MultGate \<Rightarrow> \<not> is_pad (?h ! left_of ?h g) \<and> \<not> is_pad (?h ! right_of ?h g)
    | OutputGate \<Rightarrow> \<not> is_pad (?h ! left_of ?h g) | _ \<Rightarrow> True"
    using closed_circuitD(10) [OF C] less.prems(1) by (simp add: unpadded_def list_all_iff)
  show ?case
  proof (cases "gclass (?h ! g) = InputGate")
    case True
    then have "g \<in> set ?gs" using I(5) [OF less.prems(1)] gs by simp
    then show ?thesis
      using u True less.prems(1) by (intro evals_known) (simp_all add: clear_rule_def clear_value_def InputGate_ClearInput_def)
  next
    case False
    then have "g \<notin> set ?gs" using flat_gate(1) [OF C, of g] gs by auto
    then have same: "?h' ! g = ?h ! g" "g < length ?h'" using less.prems(1) by simp_all
    note le = less.IH [OF _ less_trans [OF _ less.prems(1)]]
    show ?thesis
    proof (cases "gclass (?h ! g)")
      case AddGate
      have r: "clear_rule (?h' ! g) = Both (+)" unfolding same using AddGate F by (simp add: clear_rule_def)
      have "evals clear_rule ?h' g (?v (left_of ?h g) + ?v (right_of ?h g))"
        by (rule evals_both [where f = "(+)" and l = "left_of ?h g" and r = "right_of ?h g"])
          (use AddGate r same l(1) up le [of "left_of ?h g"] le [of "right_of ?h g"] in \<open>simp_all del: nth_assign\<close>)
      then show ?thesis using u AddGate by simp
    next
      case MultGate
      have r: "clear_rule (?h' ! g) = Both (*)" unfolding same using MultGate F by (simp add: clear_rule_def)
      have "evals clear_rule ?h' g (?v (left_of ?h g) * ?v (right_of ?h g))"
        by (rule evals_both [where f = "(*)" and l = "left_of ?h g" and r = "right_of ?h g"])
          (use MultGate r same l(1) up le [of "left_of ?h g"] le [of "right_of ?h g"] in \<open>simp_all del: nth_assign\<close>)
      then show ?thesis using u MultGate by simp
    next
      case OutputGate
      have r: "clear_rule (?h' ! g) = Parent" unfolding same using OutputGate F by (simp add: clear_rule_def)
      have "evals clear_rule ?h' g (?v (left_of ?h g))"
        by (rule evals_parent [where l = "left_of ?h g"])
          (use OutputGate r same l(2) up le [of "left_of ?h g"] in \<open>simp_all del: nth_assign\<close>)
      then show ?thesis using u OutputGate by simp
    qed (use False less.prems(2) in \<open>simp_all add: is_pad_def\<close>)
  qed
qed

lemma clear_outputs_run:
  fixes st :: "('a::field, 'g) store"
  assumes "clear.memoised h (sGates st)" "\<And>g. g \<in> set gs \<Longrightarrow> evals clear_rule h g (v g)"
  shows "\<exists>h'. clear_outputs gs st = Some (Inr (map v gs, st\<lparr> sGates := h' \<rparr>)) \<and> clear.memoised h h'"
proof -
  let ?I = "\<lambda>m (out, st'). out = map v (take m gs) \<and> (\<exists>h'. st' = st\<lparr> sGates := h' \<rparr> \<and> clear.memoised h h')"
  have "\<exists>s'. clear_outputs gs st = Some (Inr s') \<and> ?I (length gs) s'"
    unfolding clear_outputs_def
  proof (rule foldP_invariant [where I = ?I])
    show "?I 0 ([], st)" using assms(1) by (auto intro: exI [of _ "sGates st"])
  next
    fix m s
    assume m: "m < length gs" and "?I m s"
    then obtain hm where s: "s = (map v (take m gs), st\<lparr> sGates := hm \<rparr>)" and hm: "clear.memoised h hm" by (cases s) auto
    obtain h' where h': "GetClear hm (gs ! m) = Some (Inr (v (gs ! m), h'))" "clear.memoised h h'"
      using clear.get_evals_gen [OF assms(2) hm, of "gs ! m"] m by auto
    then show "\<exists>s'. (case s of (out, st) \<Rightarrow> bindP (GetClear (sGates st) (gs ! m)) (\<lambda>(v, h). retP (out @ [v], st\<lparr> sGates := h \<rparr>)))
        = Some (Inr s') \<and> ?I (Suc m) s'"
      using m by (auto simp: s retP_def take_Suc_conv_app_nth)
  qed
  then show ?thesis by auto
qed

lemma GetClearOutputs_run:
  fixes st :: "('a::field, 'g) store"
  assumes "length (mFlatOutputGates c) = mClients c"
    and "\<And>g. g \<in> set (concat (mFlatOutputGates c)) \<Longrightarrow> evals clear_rule (sGates st) g (v g)"
  shows "\<exists>h'. GetClearOutputs (st, c) = Some (Inr (map (map v) (mFlatOutputGates c), st\<lparr> sGates := h' \<rparr>, c))"
proof -
  let ?gss = "mFlatOutputGates c"
  let ?I = "\<lambda>m (out, st'). out = map (map v) (take m ?gss) \<and> (\<exists>h'. st' = st\<lparr> sGates := h' \<rparr> \<and> clear.memoised (sGates st) h')"
  have "\<exists>s'. foldP (\<lambda>i (out, st). bindP (liftP (vget ?gss i)) (\<lambda>gates.
     bindP (clear_outputs gates st) (\<lambda>(out_i, st). retP (out @ [out_i], st)))) [0..<mClients c] ([], st) = Some (Inr s') \<and> ?I (mClients c) s'"
  proof (rule foldP_upt_invariant [where I = ?I])
    show "?I 0 ([], st)" by (auto intro: exI [of _ "sGates st"] clear.memoised_refl)
  next
    fix m s
    assume m: "m < mClients c" and "?I m s"
    then obtain hm where s: "s = (map (map v) (take m ?gss), st\<lparr> sGates := hm \<rparr>)" and hm: "clear.memoised (sGates st) hm" by (cases s) auto
    have "?gss ! m \<in> set ?gss" using m assms(1) by simp
    then have "evals clear_rule (sGates st) g (v g)" if "g \<in> set (?gss ! m)" for g using assms(2) that by auto
    then obtain h' where "clear_outputs (?gss ! m) (st\<lparr> sGates := hm \<rparr>) = Some (Inr (map v (?gss ! m), st\<lparr> sGates := h' \<rparr>))"
        "clear.memoised (sGates st) h'"
      using clear_outputs_run [of "sGates st" "st\<lparr> sGates := hm \<rparr>" "?gss ! m" v] hm by auto
    then show "\<exists>s'. (case s of (out, st) \<Rightarrow> bindP (liftP (vget ?gss m)) (\<lambda>gates.
     bindP (clear_outputs gates st) (\<lambda>(out_i, st). retP (out @ [out_i], st)))) = Some (Inr s') \<and> ?I (Suc m) s'"
      using m assms(1) by (auto simp: s retP_def take_Suc_conv_app_nth)
  qed
  then show ?thesis using assms(1) by (auto simp: GetClearOutputs_def retP_def)
qed

end
