(* ===== verification/Correct.thy ===== *)
theory Correct
  imports Ready
begin

text \<open>
  The protocol from a closed circuit to its outputs: \<open>SetNetwork\<close>, the preprocessing with known masks,
  \<open>SetInputs\<close>, \<open>RunProtocol\<close> and \<open>GetOutputs\<close>, against the evaluation of the same circuit in the clear.
\<close>

section \<open>Getting ready\<close>

text \<open>What a party does before the online protocol.\<close>

definition party_setup :: "('g \<Rightarrow> 'a::field \<times> 'g) \<Rightarrow> 'g \<Rightarrow> 'a \<Rightarrow> nat \<Rightarrow> nat \<Rightarrow> 'a list \<Rightarrow> ('a, 'g) party \<Rightarrow> ('a, 'g) party res option" where
  "party_setup rnd prg lambda n i inputs s =
     bindP (liftP (Circuit_SetNetwork n i s)) (\<lambda>s.
     bindP (Circuit_DummyPrep rnd prg lambda s) (\<lambda>s. liftP (SetInputs inputs s)))"

definition started :: "nat \<Rightarrow> nat \<Rightarrow> ('a::field, 'g) party \<Rightarrow> 'a \<Rightarrow> (nat \<Rightarrow> 'a) \<Rightarrow> nat \<Rightarrow> ('a, 'g) store \<Rightarrow> bool" where
  "started n k s lambda x i st \<longleftrightarrow> same_links (sGates (fst s)) (sGates st)
     \<and> (\<forall>g < length (sGates st). \<not> mLearned (sGates st ! g))
     \<and> (\<forall>g \<in> set (flat_inputs (snd s)) \<union> set (flat_outputs (snd s)).
          mGateID (sGates st ! g) = Some i \<and> mLambda (sGates st ! g) = wire_masks s lambda g)
     \<and> (\<forall>g \<in> set (flat_inputs (snd s)). mOwnerID (sGates st ! g) = i \<longrightarrow> mValue (sGates st ! g) = x g)
     \<and> circuit_cores n k s lambda i st"

lemma network_party_gate:
  assumes "g < length (sGates (fst s))"
  shows "mLearned (sGates (fst (network_party n i s)) ! g) = mLearned (sGates (fst s) ! g)"
    "g \<in> set (in_gates s) \<or> g \<in> set (out_gates s) \<Longrightarrow> mGateID (sGates (fst (network_party n i s)) ! g) = Some i"
  using assms by (cases s; auto simp: network_party_def InputGate_SetNetwork_def)+

lemma network_party_circuit:
  "cID (snd (network_party n i s)) = Some i" "mFlatInputGates (snd (network_party n i s)) = mFlatInputGates (snd s)"
  "mFlatOutputGates (snd (network_party n i s)) = mFlatOutputGates (snd s)" "mClients (snd (network_party n i s)) = mClients (snd s)"
  "layer_batches (snd (network_party n i s)) = layer_batches (snd s)"
  by (cases s; simp add: network_party_def layer_batches_def)+

context point_field
begin

lemma party_setup_run:
  fixes s :: "('a, 'g) party"
  assumes C: "closed_circuit k s" and n: "mClients (snd s) = n" "i < n" "k < 2 ^ 31"
  shows "\<exists>st. party_setup rnd prg lambda n i (map x (mFlatInputGates (snd s) ! i)) s = Some (Inr (st, snd (network_party n i s)))
    \<and> started n k s lambda x i st"
proof -
  let ?x = "network_party n i s" and ?h = "sGates (fst s)" and ?gs = "mFlatInputGates (snd s) ! i"
  let ?b = "sGates (fst ?x)"
  note I = inputs_closedD [OF closed_circuitD(6) [OF C]]
  have links: "same_links ?h ?b" by (rule network_party_links)
  have len: "length ?b = length ?h" by (rule same_links_length [OF links])
  obtain st where st: "Circuit_DummyPrep rnd prg lambda ?x = Some (Inr (st, snd ?x))" "same_unmasked ?b (sGates st)"
    "\<And>g. g \<in> set (flat_inputs (snd s)) \<union> set (flat_outputs (snd s)) \<Longrightarrow> mLambda (sGates st ! g) = wire_masks s lambda g"
    "circuit_cores n k s lambda i st"
    using DummyPrep_run [OF C n(2,3), of rnd prg lambda] by blast
  have len': "length (sGates st) = length ?h" using same_unmasked_length [OF st(2)] len by simp
  have at: "mOwnerID (sGates st ! g) = mOwnerID (?h ! g)" "mGateID (sGates st ! g) = mGateID (?b ! g)" "\<not> mLearned (sGates st ! g)"
    if "g < length ?h" for g
  proof -
    have g: "g < length ?b" using that len by simp
    note u = unmask_eqD [OF same_unmasked_at [OF st(2) g]]
    show "mOwnerID (sGates st ! g) = mOwnerID (?h ! g)" using u(4) same_links_at(4) [OF links that] by simp
    show "mGateID (sGates st ! g) = mGateID (?b ! g)" using u(5) .
    show "\<not> mLearned (sGates st ! g)"
      using u(6) network_party_gate(1) [OF that] closed_circuitD(5) [OF C] that by (simp add: fresh_def list_all_length)
  qed
  have own: "g < length (sGates st) \<and> mGateID (sGates st ! g) = Some i \<and> mOwnerID (sGates st ! g) = i" if "g \<in> set ?gs" for g
    using I(4) [OF _ that] n(1,2) at(1,2) [of g] network_party_gate(2) [of g s n i] len' by auto
  let ?st = "st\<lparr> sGates := assign (set_value x) ?gs (sGates st) \<rparr>"
  have "SetInputs (map x ?gs) (st, snd ?x) = Inr (?st, snd ?x)"
    using SetInputs_run [of "snd ?x" i st x] own I(1) n(1,2) by (simp add: network_party_circuit)
  then have "party_setup rnd prg lambda n i (map x ?gs) s = Some (Inr (?st, snd ?x))"
    using st(1) by (simp add: party_setup_def Circuit_SetNetwork_closed [OF C] liftP_def)
  moreover have "started n k s lambda x i ?st"
    unfolding started_def
  proof (intro conjI allI impI ballI)
    have "same_links (sGates st) (sGates ?st)" by (intro same_linksI) (simp_all add: set_value_def)
    then show "same_links ?h (sGates ?st)"
      using same_links_trans [OF links same_links_trans [OF same_unmasked_links [OF st(2)]]] by blast
    show "\<not> mLearned (sGates ?st ! g)" if "g < length (sGates ?st)" for g
      using at(3) [of g] that len' by (simp add: set_value_def)
    have gate: "g < length ?h \<and> (g \<in> set (in_gates s) \<or> g \<in> set (out_gates s))"
      if "g \<in> set (flat_inputs (snd s)) \<union> set (flat_outputs (snd s))" for g using that flat_gate(1,2) [OF C] by blast
    show "mGateID (sGates ?st ! g) = Some i" if "g \<in> set (flat_inputs (snd s)) \<union> set (flat_outputs (snd s))" for g
      using gate [OF that] at(2) [of g] network_party_gate(2) [of g s n i] len' by (simp add: set_value_def)
    show "mLambda (sGates ?st ! g) = wire_masks s lambda g" if "g \<in> set (flat_inputs (snd s)) \<union> set (flat_outputs (snd s))" for g
      using gate [OF that] st(3) [OF that] len' by (simp add: set_value_def)
    show "mValue (sGates ?st ! g) = x g" if "g \<in> set (flat_inputs (snd s))" "mOwnerID (sGates ?st ! g) = i" for g
    proof -
      note fg = flat_gate(1) [OF C that(1)]
      have "mOwnerID (?h ! g) = i" using that(2) at(1) [of g] fg len' by (simp add: set_value_def split: if_splits)
      then show ?thesis using fg len' by (simp add: set_value_def)
    qed
    show "circuit_cores n k s lambda i ?st" using st(4) by (simp add: circuit_cores_def cores_def Let_def)
  qed
  ultimately show ?thesis by (intro exI [of _ ?st]) simp
qed

lemma started_ready:
  fixes s :: "('a, 'g) party"
  assumes C: "closed_circuit k s" and n: "mClients (snd s) = n" "0 < n" "n < 2 ^ 31" "2 * k - 1 \<le> n"
    and S: "\<And>i. i < n \<Longrightarrow> started n k s lambda x i (st i)"
  defines "y \<equiv> \<lambda>i. (st i, snd (network_party n i s))"
    and "h \<equiv> sGates (fst s)" and "l \<equiv> wire_masks s lambda" and "GS \<equiv> \<lambda>p. mbGates (sMultBatches (fst s) ! p)"
  shows "online_ready n k (level s) (\<lambda>g. mOwnerID (h ! g)) (wire_values s x) l
    (\<lambda>p. mask_fun l (left_of h) (GS p)) (\<lambda>p. mask_fun l (right_of h) (GS p)) (\<lambda>p. delta_fun l h (GS p)) y"
proof -
  let ?h0 = "sGates (st 0)" and ?layers = "layer_batches (snd s)"
  have k: "0 < k" "k < 2 ^ 31" using closed_circuitD(1) [OF C] n by simp_all
  note I = inputs_closedD [OF closed_circuitD(6) [OF C]]
  note O = outputs_closedD [OF closed_circuitD(7) [OF C]]
  have links: "same_links h (sGates (st i))" if "i < n" for i using S [OF that] by (simp add: started_def h_def)
  have len: "length (sGates (st i)) = length h" if "i < n" for i using same_links_length [OF links [OF that]] .
  have unlearned: "\<not> mLearned (?h0 ! g)" if "g < length ?h0" for g using S [OF n(2)] that by (simp add: started_def)
  have cores: "cores n k (set (mult_batches (snd s))) GS (\<lambda>p. mask_fun l (left_of h) (GS p)) (\<lambda>p. mask_fun l (right_of h) (GS p))
      (\<lambda>p. delta_fun l h (GS p)) i (st i)" if "i < n" for i
    using S [OF that] by (simp add: started_def circuit_cores_def Let_def l_def h_def GS_def)
  have P: "set (concat ?layers) = set (mult_batches (snd s))" by (simp add: mult_batches_def)
  have GS: "batch_gates y p = GS p" if "p \<in> set (mult_batches (snd s))" for p
    using coresD(3) [OF cores [OF n(2)] that] by (simp add: batch_gates_def y_def)
  have W: "wires ?h0 (wire_values s x) l (level s)"
    using wires_same [OF links [OF n(2), unfolded h_def] closed_wires [OF C]] by (simp add: l_def)
  have mem: "p \<in> set (mult_batches (snd s))" if "d < length ?layers" "p \<in> set (?layers ! d)" for d p
    using that nth_mem [of d ?layers] by (auto simp: mult_batches_def)
  have L: "layered ?h0 (level s) (batch_gates y) ?layers"
    unfolding layered_def
  proof (intro allI impI conjI ballI)
    fix d
    assume d: "d < length ?layers"
    note LY = closed_layered [OF C, folded h_def GS_def, unfolded layered_def, rule_format, OF d]
    show "distinct (?layers ! d)" using LY by blast
    show "layer_gates ?h0 (level s) d (batch_gates y p)" if "p \<in> set (?layers ! d)" for p
      using LY that GS [OF mem [OF d that]] same_links_at(1) [OF links [OF n(2)]] len [OF n(2)]
      unfolding layer_gates_def by simp
    fix g
    assume g: "g < length ?h0" "gclass (?h0 ! g) = MultGate \<and> level s g = Suc d"
    then have "g < length h \<and> gclass (h ! g) = MultGate \<and> level s g = Suc d"
      using same_links_at(1) [OF links [OF n(2)], of g] len [OF n(2)] by simp
    then obtain p where "p \<in> set (?layers ! d)" "g \<in> set (GS p)" using LY by blast
    then show "\<exists>p \<in> set (?layers ! d). g \<in> set (batch_gates y p)" using GS [OF mem [OF d]] by auto
  qed
  have B: "batch_prepared n k ?h0 l (batch_gates y p) (mask_fun l (left_of h) (GS p)) (mask_fun l (right_of h) (GS p)) (delta_fun l h (GS p))"
    if p: "p \<in> set (mult_batches (snd s))" for p
  proof -
    have "length (GS p) = k" using mults_closedD(4) [OF closed_circuitD(8) [OF C] p] by (simp add: GS_def)
    from mask_batch_prepared [OF this k n(4), of ?h0 l]
    show ?thesis
      using mask_fun_links [OF links [OF n(2)], of "GS p" l] mult_gate_links [OF C p] GS [OF p] by (simp add: GS_def h_def)
  qed
  have own: "owners_ready n i (\<lambda>g. mOwnerID (h ! g)) (wire_values s x) l (y i)" if i: "i < n" for i
  proof -
    have gate: "g < length (sGates (st i)) \<and> mGateID (sGates (st i) ! g) = Some i \<and> mLambda (sGates (st i) ! g) = l g
        \<and> mOwnerID (sGates (st i) ! g) = mOwnerID (h ! g) \<and> mOwnerID (h ! g) < n"
      if g: "g \<in> set (flat_inputs (snd s)) \<union> set (flat_outputs (snd s))" for g
    proof -
      have "g < length h" "mOwnerID (h ! g) < n" using g flat_gate(1,2) [OF C] n(1) by (auto simp: h_def)
      then show ?thesis using S [OF i] g same_links_at(4) [OF links [OF i]] len [OF i] by (simp add: started_def l_def)
    qed
    have val: "mValue (sGates (st i) ! g) = wire_values s x g" if g: "g \<in> set (flat_inputs (snd s))" "mOwnerID (h ! g) = i" for g
    proof -
      note fg = flat_gate(1) [OF C g(1)]
      have "wire_values s x g = x g"
        using wire_unfold [OF closed_circuitD(4) [OF C], of g x "(+)" "\<lambda>_. (*)" 0] fg by (simp add: wire_values_def wire_step_def)
      then show ?thesis using S [OF i] g gate [of g] by (simp add: started_def)
    qed
    have out: "mOwnerID (h ! g) = j" if "j < mClients (snd s)" "g \<in> set (mFlatOutputGates (snd s) ! j)" for j g
      using O(4) [OF that] by (simp add: h_def)
    have flat: "flat_inputs (snd (network_party n i s)) = flat_inputs (snd s)" "flat_outputs (snd (network_party n i s)) = flat_outputs (snd s)"
      by (simp_all add: flat_inputs_def flat_outputs_def network_party_circuit)
    have "connected_gates n i (\<lambda>g. mOwnerID (h ! g)) (flat_inputs (snd s) @ flat_outputs (snd s)) (sGates (st i))"
      unfolding connected_gates_def using gate by simp
    then show ?thesis
      using gate val out I(1) O(1) by (simp add: owners_ready_def y_def network_party_circuit flat)
  qed
  have "learned_mu ?h0 (wire_values s x) l" using unlearned by (simp add: learned_mu_def)
  moreover have "g \<in> set (flat_inputs (snd s))" if "g < length ?h0" "gclass (?h0 ! g) = InputGate" for g
    using I(5) [of g] that same_links_at(1) [OF links [OF n(2)], of g] len [OF n(2)] by (simp add: h_def)
  moreover have "level s g \<le> length ?layers" if "g \<in> set (flat_outputs (snd s))" for g
    using level_le_depth [OF C] flat_gate(2) [OF C that] by simp
  moreover have "same_circuit (snd (network_party n 0 s)) (snd (network_party n i s))" for i
    by (simp add: same_circuit_def network_party_circuit)
  moreover have "cores n k (set (mult_batches (snd s))) (batch_gates y) (\<lambda>p. mask_fun l (left_of h) (GS p)) (\<lambda>p. mask_fun l (right_of h) (GS p))
      (\<lambda>p. delta_fun l h (GS p)) i (st i)" if "i < n" for i
    using cores [OF that] GS by (simp add: cores_def)
  moreover have "fst (y i) = st i" "snd (y i) = snd (network_party n i s)" for i by (simp_all add: y_def)
  moreover have "flat_inputs (snd (network_party n i s)) = flat_inputs (snd s)" "flat_outputs (snd (network_party n i s)) = flat_outputs (snd s)" for i
    by (simp_all add: flat_inputs_def flat_outputs_def network_party_circuit)
  ultimately show ?thesis
    unfolding online_ready_def Let_def
    using n k W L B own P by (simp add: network_party_circuit)
qed

end

section \<open>The whole protocol\<close>

context protocol_network
begin

lemma circuit_run:
  fixes s :: "('a, 'g) party"
  assumes C: "closed_circuit k s" and n: "mClients (snd s) = n" "0 < n" "n < 2 ^ 31" "2 * k - 1 \<le> n"
    and N: "carries n N no_messages"
  shows "\<exists>y z. (\<forall>i<n. party_setup rnd (prg i) lambda n i (map x (mFlatInputGates (snd s) ! i)) s = Some (Inr (y i)))
    \<and> always_computes send recv (map (\<lambda>i. Circuit_RunProtocol rnd' (y i)) [0..<n]) N (map z [0..<n]) (\<lambda>N'. carries n N' no_messages)
    \<and> (\<forall>i<n. GetOutputs (z i) = Inr (map (wire_values s x) (mFlatOutputGates (snd s) ! i)))"
proof -
  have k: "k < 2 ^ 31" using n closed_circuitD(1) [OF C] by simp
  define Q where "Q i st \<longleftrightarrow> party_setup rnd (prg i) lambda n i (map x (mFlatInputGates (snd s) ! i)) s
      = Some (Inr (st, snd (network_party n i s))) \<and> started n k s lambda x i st" for i st
  have "\<exists>st. Q i st" if "i < n" for i using party_setup_run [OF C n(1) that k] by (simp add: Q_def)
  then have "\<exists>st. \<forall>i<n. Q i (st i)" by (intro choice) blast
  then obtain st where Q: "\<And>i. i < n \<Longrightarrow> Q i (st i)" by blast
  let ?y = "\<lambda>i. (st i, snd (network_party n i s))"
  have S: "started n k s lambda x i (st i)" if "i < n" for i using Q [OF that] by (simp add: Q_def)
  from RunProtocol_phase [OF started_ready [OF C n S], of rnd'] obtain z where
    z: "phase n (\<lambda>i. Circuit_RunProtocol rnd' (?y i)) no_messages no_messages z"
      "\<And>i. i < n \<Longrightarrow> GetOutputs (z i) = Inr (map (wire_values s x) (mFlatOutputGates (snd s) ! i))"
    by (auto simp: network_party_circuit n(1))
  show ?thesis
    using phase_always_computes [OF z(1) N] z(2) Q unfolding Q_def by (intro exI [of _ ?y] exI [of _ z]) blast
qed

end

text \<open>
  C1: the protocol computes the circuit. Take a circuit that is closed, for \<open>n\<close> clients that are also the
  parties, with batches of \<open>k\<close> gates, \<open>2k - 1 \<le> n\<close>, and any inputs of the right lengths. The evaluation in the
  clear returns some outputs. Every party succeeds in setting its network, the preprocessing with known
  masks and its inputs. Then, over the in-memory network and in whatever order the parties take
  their steps, the programs \<open>RunProtocol\<close> come to an end without an exception and without deadlock, leave
  no message behind, and each party gets exactly its outputs of the evaluation in the clear.
\<close>

theorem circuit_protocol_correct:
  fixes s :: "(ff61, 'g) party"
  assumes "closed_circuit k s" and "mClients (snd s) = n" and "0 < n" "n < 2 ^ 31" "2 * k - 1 \<le> n"
    and "map length inputs = map length (mFlatInputGates (snd s))" and "mem_carries n N no_messages"
  shows "\<exists>outs s1 s2 y z. SetClearInputs inputs s = Inr s1 \<and> GetClearOutputs s1 = Some (Inr (outs, s2))
    \<and> (\<forall>i<n. party_setup rnd (prg i) lambda n i (inputs ! i) s = Some (Inr (y i)))
    \<and> always_computes FF_Send FF_Recv (map (\<lambda>i. Circuit_RunProtocol rnd (y i)) [0..<n]) N (map z [0..<n])
        (\<lambda>N'. mem_carries n N' no_messages)
    \<and> (\<forall>i<n. GetOutputs (z i) = Inr (outs ! i))"
proof -
  obtain st c where s: "s = (st, c)" by fastforce
  note I = inputs_closedD [OF closed_circuitD(6) [OF assms(1)]]
  note O = outputs_closedD [OF closed_circuitD(7) [OF assms(1)]]
  obtain x where x: "map (map x) (mFlatInputGates (snd s)) = inputs"
    using inputs_by_gate [OF I(7) assms(6)] by blast
  let ?v = "wire_values s x" and ?h = "assign (clear_value x) (concat (mFlatInputGates c)) (sGates st)"
  have clear: "SetClearInputs inputs s = Inr (st\<lparr> sGates := ?h \<rparr>, c)"
    using SetClearInputs_run [of c st x] I(1) flat_gate(1) [OF assms(1)] x by (auto simp: s flat_inputs_def)
  have "evals clear_rule ?h g (?v g)" if "g \<in> set (concat (mFlatOutputGates c))" for g
  proof -
    have "g \<in> set (flat_outputs (snd s))" using that O(1) by (simp add: s flat_outputs_def)
    from flat_gate(2) [OF assms(1) this] show ?thesis
      using clear_wires [OF assms(1), of g x] by (simp add: s is_pad_def)
  qed
  then obtain h' where outs: "GetClearOutputs (st\<lparr> sGates := ?h \<rparr>, c)
      = Some (Inr (map (map ?v) (mFlatOutputGates c), st\<lparr> sGates := h' \<rparr>, c))"
    using GetClearOutputs_run [of c "st\<lparr> sGates := ?h \<rparr>" ?v] O(1) by (auto simp: s)
  obtain y z where yz: "\<forall>i<n. party_setup rnd (prg i) lambda n i (map x (mFlatInputGates (snd s) ! i)) s = Some (Inr (y i))"
    "always_computes FF_Send FF_Recv (map (\<lambda>i. Circuit_RunProtocol rnd (y i)) [0..<n]) N (map z [0..<n])
        (\<lambda>N'. mem_carries n N' no_messages)"
    "\<forall>i<n. GetOutputs (z i) = Inr (map ?v (mFlatOutputGates (snd s) ! i))"
    using ff61_protocol.circuit_run [OF assms(1-5,7), of rnd prg lambda x rnd] by blast
  have inp: "inputs ! i = map x (mFlatInputGates (snd s) ! i)" if "i < n" for i
    using x I(1) assms(2) that by auto
  show ?thesis
    using clear outs yz inp O(1) assms(2) s
    by (intro exI [of _ "map (map ?v) (mFlatOutputGates c)"] exI [of _ "(st\<lparr> sGates := ?h \<rparr>, c)"] exI [of _ "(st\<lparr> sGates := h' \<rparr>, c)"]
        exI [of _ y] exI [of _ z]) simp
qed

text \<open>
  A synthetic circuit of three clients, two of them with an input, and two layers of two products
  each: \<open>x (x + y)\<close> and \<open>y (x + y)\<close>, then the same of these.
\<close>

definition sample_config :: circuit_config where
  "sample_config = \<lparr> cfgInpGates = [1, 1, 0], cfgOutGates = [1, 0, 1], cfgParties = 3, cfgWidth = 2, cfgDepth = 2,
     cfgBatchSize = 2 \<rparr>"

definition sample_circuit :: "(ff61, ff61) party" where
  "sample_circuit = (case FromConfig 0 sample_config of Some (Inr s) \<Rightarrow> s | _ \<Rightarrow> new_Circuit 0 0 0)"

lemma sample_closed:
  "closed_circuit 2 sample_circuit \<and> mClients (snd sample_circuit) = 3 \<and> map length (mFlatInputGates (snd sample_circuit)) = [1, 1, 0]"
  by code_simp

lemma sample_clear:
  "case SetClearInputs [[x], [y], []] sample_circuit of Inl e \<Rightarrow> False
   | Inr s \<Rightarrow> (case GetClearOutputs s of Some (Inr (outs, _)) \<Rightarrow>
       (let a = x * (x + y); b = y * (x + y) in outs = [[a * (a + b)], [], [b * (a + b)]]) | _ \<Rightarrow> False)"
  by code_simp

theorem circuit_protocol_correct_witness:
  "\<exists>y z. (\<forall>i<3. party_setup (\<lambda>g. (g, g + 1)) 0 11 3 i ([[5], [7], []] ! i) sample_circuit = Some (Inr (y i)))
    \<and> always_computes FF_Send FF_Recv (map (\<lambda>i. Circuit_RunProtocol (\<lambda>g. (g, g + 1)) (y i)) [0..<3]) (CreateFullInMemory 3)
        (map z [0..<3]) (\<lambda>N'. mem_carries 3 N' no_messages)
    \<and> GetOutputs (z 0) = Inr [8640] \<and> GetOutputs (z 1) = Inr [] \<and> GetOutputs (z 2) = Inr [12096]"
proof -
  have N: "mem_carries 3 (CreateFullInMemory 3) no_messages"
    using CreateFullInMemory_carries [of 3] by (simp add: no_messages_def)
  have "map length [[5 :: ff61], [7], []] = map length (mFlatInputGates (snd sample_circuit))" using sample_closed by simp
  from circuit_protocol_correct [OF sample_closed [THEN conjunct1] sample_closed [THEN conjunct2, THEN conjunct1] _ _ _ this N,
      of "\<lambda>g. (g, g + 1)" "\<lambda>_. 0" 11]
  obtain outs s1 s2 y z where r: "SetClearInputs [[5], [7], []] sample_circuit = Inr s1" "GetClearOutputs s1 = Some (Inr (outs, s2))"
    "\<forall>i<3. party_setup (\<lambda>g. (g, g + 1)) 0 11 3 i ([[5], [7], []] ! i) sample_circuit = Some (Inr (y i))"
    "always_computes FF_Send FF_Recv (map (\<lambda>i. Circuit_RunProtocol (\<lambda>g. (g, g + 1)) (y i)) [0..<3]) (CreateFullInMemory 3)
        (map z [0..<3]) (\<lambda>N'. mem_carries 3 N' no_messages)" "\<forall>i<3. GetOutputs (z i) = Inr (outs ! i)" by (simp, elim exE conjE) blast
  have "outs = [[8640], [], [12096]]" using sample_clear [of 5 7] r(1,2) by simp
  with r(5) have "GetOutputs (z 0) = Inr [8640] \<and> GetOutputs (z 1) = Inr [] \<and> GetOutputs (z 2) = Inr [12096]" by simp
  with r(3,4) show ?thesis by blast
qed

end
