(* ===== verification/BuildMain.thy ===== *)
theory BuildMain
  imports BuildSteps Correct
begin

text \<open>
  The circuits that the building interface can make, as an inductive predicate over its operations, and
  the properties of building: the operations do not fail, finished circuits are closed, and the
  synthetic circuits of \<open>FromConfig\<close> (\<open>src/tp/circuits/generic.cc\<close>) are built and therefore run the
  protocol correctly.
\<close>

section \<open>Reachable circuits\<close>

text \<open>
  The flags say whether inputs, multiplications and outputs may still be added. The code keeps no
  such flags; it is the user who has to call \<open>CloseInputs\<close>, \<open>LastLayer\<close> and \<open>CloseOutputs\<close> last.
\<close>

inductive built :: "'g \<Rightarrow> nat \<Rightarrow> nat \<Rightarrow> bool \<Rightarrow> bool \<Rightarrow> bool \<Rightarrow> ('a::field, 'g) party \<Rightarrow> bool" for prg n k where
  built_new: "built prg n k True True True (new_Circuit prg n k)"
| built_Input: "built prg n k True mo oo s \<Longrightarrow> i < n \<Longrightarrow> Circuit_Input prg i s = Inr (g, s') \<Longrightarrow> built prg n k True mo oo s'"
| built_CloseInputs: "built prg n k True mo oo s \<Longrightarrow> CloseInputs s = Some (Inr s') \<Longrightarrow> built prg n k False mo oo s'"
| built_Add: "built prg n k io mo oo s \<Longrightarrow> user_gate (sGates (fst s)) l \<Longrightarrow> user_gate (sGates (fst s)) r
    \<Longrightarrow> Circuit_Add l r s = Inr (g, s') \<Longrightarrow> built prg n k io mo oo s'"
| built_Mult: "built prg n k io True oo s \<Longrightarrow> user_gate (sGates (fst s)) l \<Longrightarrow> user_gate (sGates (fst s)) r
    \<Longrightarrow> level s l < length (mMultLayers (snd s)) \<Longrightarrow> level s r < length (mMultLayers (snd s))
    \<Longrightarrow> Circuit_Mult prg l r s = Inr (g, s') \<Longrightarrow> built prg n k io True oo s'"
| built_NewLayer: "built prg n k io True oo s \<Longrightarrow> NewLayer prg s = Some (Inr s') \<Longrightarrow> built prg n k io True oo s'"
| built_LastLayer: "built prg n k io True oo s \<Longrightarrow> LastLayer s = Some (Inr s') \<Longrightarrow> built prg n k io False oo s'"
| built_Output: "built prg n k io mo True s \<Longrightarrow> i < n \<Longrightarrow> user_gate (sGates (fst s)) x
    \<Longrightarrow> Circuit_Output prg i x s = Inr (g, s') \<Longrightarrow> built prg n k io mo True s'"
| built_CloseOutputs: "built prg n k io mo True s \<Longrightarrow> CloseOutputs s = Some (Inr s') \<Longrightarrow> built prg n k io mo False s'"

text \<open>\<open>mIsClosed\<close> is set by \<open>CloseOutputs\<close> alone, and kept by everything else.\<close>

lemma keeps_closed:
  fixes s :: "('a::field, 'g) party"
  shows "Circuit_Input prg i s = Inr (g, s') \<Longrightarrow> mIsClosed (snd s') = mIsClosed (snd s)"
    "Circuit_Add l r s = Inr (g, s') \<Longrightarrow> mIsClosed (snd s') = mIsClosed (snd s)"
    "Circuit_Mult prg l r s = Inr (g, s') \<Longrightarrow> mIsClosed (snd s') = mIsClosed (snd s)"
    "Circuit_Output prg i x s = Inr (g, s') \<Longrightarrow> mIsClosed (snd s') = mIsClosed (snd s)"
  by (cases s, auto simp: Circuit_Input_def Circuit_Add_def Circuit_Mult_def Circuit_Output_def alloc_gate_def make_shared_def
      Let_def bindE_eq_Inr)+

definition closed_set :: "nat \<Rightarrow> bool \<Rightarrow> nat set" where
  "closed_set n open_flag = (if open_flag then {} else {..<n})"

lemma closed_set_simps [simp]: "closed_set n True = {}" "closed_set n False = {..<n}"
  by (simp_all add: closed_set_def)

lemma built_inv:
  assumes "built prg n k io mo oo s" and "0 < k"
  shows "circuit_inv k n (closed_set n io) (\<not> mo) (closed_set n oo) s \<and> (\<not> oo \<longrightarrow> mIsClosed (snd s))"
  using assms(1)
proof (induction rule: built.induct)
  case built_new
  then show ?case using new_Circuit_inv [OF assms(2)] by simp
next
  case (built_Input mo oo s i g s')
  obtain st c where s: "s = (st, c)" by fastforce
  have "i \<notin> closed_set n True" by simp
  from built_Input.IH [THEN conjunct1, unfolded s] built_Input.hyps(2) this show ?case
    by (rule Circuit_Input_step [where prg = prg]) (use built_Input s keeps_closed(1) [OF built_Input.hyps(3)] in auto)
next
  case (built_CloseInputs mo oo s s')
  obtain st c where s: "s = (st, c)" by fastforce
  have "circuit_inv k n {} (\<not> mo) (closed_set n oo) (st, c)" using built_CloseInputs.IH s by simp
  then show ?case by (rule CloseInputs_step) (use built_CloseInputs s in auto)
next
  case (built_Add io mo oo s l r g s')
  obtain st c where s: "s = (st, c)" by fastforce
  show ?case
    by (rule Circuit_Add_step [OF built_Add.IH [THEN conjunct1, unfolded s], of l r])
      (use built_Add s keeps_closed(2) [OF built_Add.hyps(4)] in auto)
next
  case (built_Mult io oo s l r g s')
  obtain st c where s: "s = (st, c)" by fastforce
  have "circuit_inv k n (closed_set n io) False (closed_set n oo) (st, c)" using built_Mult.IH s by simp
  then show ?case
    by (rule Circuit_Mult_step [of k n _ _ st c l r prg])
      (use built_Mult s keeps_closed(3) [OF built_Mult.hyps(6)] in auto)
next
  case (built_NewLayer io oo s s')
  obtain st c where s: "s = (st, c)" by fastforce
  have "circuit_inv k n (closed_set n io) False (closed_set n oo) (st, c)" using built_NewLayer.IH s by simp
  then show ?case
    by (rule NewLayer_step [where prg = prg]) (use built_NewLayer s in auto)
next
  case (built_LastLayer io oo s s')
  obtain st c where s: "s = (st, c)" by fastforce
  have "circuit_inv k n (closed_set n io) False (closed_set n oo) (st, c)" using built_LastLayer.IH s by simp
  then show ?case by (rule LastLayer_step) (use built_LastLayer s in auto)
next
  case (built_Output io mo s i x g s')
  obtain st c where s: "s = (st, c)" by fastforce
  have "circuit_inv k n (closed_set n io) (\<not> mo) {} (st, c)" using built_Output.IH s by simp
  then show ?case
    by (rule Circuit_Output_step [where prg = prg and i = i and x = x])
      (use built_Output s keeps_closed(4) [OF built_Output.hyps(4)] in auto)
next
  case (built_CloseOutputs io mo s s')
  obtain st c where s: "s = (st, c)" by fastforce
  have "circuit_inv k n (closed_set n io) (\<not> mo) {} (st, c)" using built_CloseOutputs.IH s by simp
  then show ?case by (rule CloseOutputs_step) (use built_CloseOutputs s in auto)
qed

section \<open>Finished circuits are closed\<close>

lemma layers_all:
  assumes L: "layers_inv gates ok k C F bs pss flats" and F: "\<And>i. i < length pss \<Longrightarrow> i \<in> F"
  shows "p \<in> set (concat pss) \<Longrightarrow> p < length bs \<and> length (gates (bs ! p)) = k"
    and "g \<in> set (concat (map (\<lambda>p. gates (bs ! p)) (concat pss))) \<Longrightarrow> \<exists>i<length pss. C i g"
    and "i < length pss \<Longrightarrow> g \<in> set (flats ! i) \<Longrightarrow> g \<in> set (concat (map (\<lambda>p. gates (bs ! p)) (pss ! i)))"
    and "i < length pss \<Longrightarrow> g \<in> set (flats ! i) \<Longrightarrow> g \<in> set (concat (map (\<lambda>p. gates (bs ! p)) (concat pss)))"
proof -
  note LD = layers_invD [OF L]
  have at: "\<exists>i<length pss. p \<in> set (pss ! i)" if "p \<in> set (concat pss)" for p
    using that by (metis (no_types, lifting) UN_iff in_set_conv_nth set_concat)
  show "p < length bs \<and> length (gates (bs ! p)) = k" if "p \<in> set (concat pss)"
    using at [OF that] LD(3,7) F unfolding layer_full_def by blast
  show "\<exists>i<length pss. C i g" if "g \<in> set (concat (map (\<lambda>p. gates (bs ! p)) (concat pss)))"
  proof -
    from that obtain p where "p \<in> set (concat pss)" "g \<in> set (gates (bs ! p))" unfolding set_concat set_map by blast
    then show ?thesis using at LD(4) unfolding gates_of_layer_def by blast
  qed
  show 3: "g \<in> set (concat (map (\<lambda>p. gates (bs ! p)) (pss ! i)))" if "i < length pss" "g \<in> set (flats ! i)"
    using LD(5) [OF that(1)] that(2) unfolding gates_of_layer_def by auto
  show "g \<in> set (concat (map (\<lambda>p. gates (bs ! p)) (concat pss)))" if "i < length pss" "g \<in> set (flats ! i)"
    using 3 [OF that] nth_mem [OF that(1)] unfolding set_concat set_map by blast
qed

lemma inputs_inv_closed:
  assumes I: "inputs_inv k n {..<n} (sGates st) (sInputBatches st) (mInputLayers c) (mFlatInputGates c) (mInputGates c)" and n: "mClients c = n"
  shows "inputs_closed k (st, c)"
proof -
  let ?pss = "map ilBatches (mInputLayers c)" and ?h = "sGates st" and ?bs = "sInputBatches st"
  have O: "owned_inv ibGates (\<lambda>i. input_batch_of i k) k InputGate PadInputGate n {..<n} ?h ?bs ?pss (mFlatInputGates c)"
    using I unfolding inputs_inv_def by blast
  then have L: "layers_inv ibGates (\<lambda>i. input_batch_of i k) k (\<lambda>i. has_class ?h [InputGate, PadInputGate]) {..<n} ?bs ?pss (mFlatInputGates c)"
    and len: "length ?pss = n" unfolding owned_inv_def by blast+
  have F: "i \<in> {..<n}" if "i < length ?pss" for i using that len by simp
  note A = layers_all [OF L F]
  have "list_all (\<lambda>p. p < length ?bs \<and> length (ibGates (?bs ! p)) = k) (in_batches c)"
    using A(1) by (simp add: list_all_iff in_batches_def)
  moreover have "list_all (has_class ?h [InputGate, PadInputGate]) (in_gates (st, c))"
    unfolding list_all_iff in_gates_def in_batches_def prod.case using A(2) by blast
  moreover have "list_all (\<lambda>i. list_all (\<lambda>g. g \<in> set (in_gates (st, c)) \<and> has_class ?h [InputGate] g \<and> mOwnerID (?h ! g) = i)
      (mFlatInputGates c ! i)) [0..<mClients c]"
    unfolding list_all_iff
  proof (intro ballI)
    fix i g assume ig: "i \<in> set [0..<mClients c]" "g \<in> set (mFlatInputGates c ! i)"
    then have i: "i < length ?pss" using n len by simp
    have "has_class ?h [InputGate] g \<and> mOwnerID (?h ! g) = i" using O ig n unfolding owned_inv_def by simp
    moreover have "g \<in> set (in_gates (st, c))" unfolding in_gates_def in_batches_def prod.case by (rule A(4) [OF _ i ig(2)])
    ultimately show "g \<in> set (in_gates (st, c)) \<and> has_class ?h [InputGate] g \<and> mOwnerID (?h ! g) = i" by blast
  qed
  moreover have "length (mFlatInputGates c) = n" by (rule owned_fresh(1) [OF O])
  ultimately show ?thesis
    using I n unfolding inputs_closed_def Let_def prod.case inputs_inv_def listed_def list_all_iff by (auto simp del: set_concat)
qed

lemma outputs_inv_closed:
  assumes I: "outputs_inv k n {..<n} (sGates st) (sOutputBatches st) (mOutputLayers c) (mFlatOutputGates c) (mOutputGates c)" and n: "mClients c = n"
  shows "outputs_closed k (st, c)"
proof -
  let ?pss = "map olBatches (mOutputLayers c)" and ?h = "sGates st" and ?bs = "sOutputBatches st"
  have O: "owned_inv obGates (\<lambda>i. output_batch_of i k) k OutputGate PadOutputGate n {..<n} ?h ?bs ?pss (mFlatOutputGates c)"
    using I unfolding outputs_inv_def by blast
  then have L: "layers_inv obGates (\<lambda>i. output_batch_of i k) k (\<lambda>i. has_class ?h [OutputGate, PadOutputGate]) {..<n} ?bs ?pss (mFlatOutputGates c)"
    and len: "length ?pss = n" unfolding owned_inv_def by blast+
  have F: "i \<in> {..<n}" if "i < length ?pss" for i using that len by simp
  note A = layers_all [OF L F]
  have "list_all (\<lambda>p. p < length ?bs \<and> length (obGates (?bs ! p)) = k) (out_batches c)"
    using A(1) by (simp add: list_all_iff out_batches_def)
  moreover have "list_all (has_class ?h [OutputGate, PadOutputGate]) (out_gates (st, c))"
    unfolding list_all_iff out_gates_def out_batches_def prod.case using A(2) by blast
  moreover have "list_all (\<lambda>i. list_all (\<lambda>g. g \<in> set (out_gates (st, c)) \<and> has_class ?h [OutputGate] g \<and> mOwnerID (?h ! g) = i)
      (mFlatOutputGates c ! i)) [0..<mClients c]"
    unfolding list_all_iff
  proof (intro ballI)
    fix i g assume ig: "i \<in> set [0..<mClients c]" "g \<in> set (mFlatOutputGates c ! i)"
    then have i: "i < length ?pss" using n len by simp
    have "has_class ?h [OutputGate] g \<and> mOwnerID (?h ! g) = i" using O ig n unfolding owned_inv_def by simp
    moreover have "g \<in> set (out_gates (st, c))" unfolding out_gates_def out_batches_def prod.case by (rule A(4) [OF _ i ig(2)])
    ultimately show "g \<in> set (out_gates (st, c)) \<and> has_class ?h [OutputGate] g \<and> mOwnerID (?h ! g) = i" by blast
  qed
  moreover have "length (mFlatOutputGates c) = n" by (rule owned_fresh(1) [OF O])
  ultimately show ?thesis
    using I n unfolding outputs_closed_def Let_def prod.case outputs_inv_def by (simp del: set_concat)
qed

lemma mults_inv_closed:
  assumes I: "mults_inv k (full_layers True (mMultLayers c)) (sGates st) (sMultBatches st) (mMultLayers c) (flat_mults c)"
    and len: "length (mMultLayers c) \<le> length (mFlatMultLayers c)"
  shows "mults_closed k (st, c)"
proof -
  let ?pss = "map mlBatches (mMultLayers c)" and ?h = "sGates st" and ?bs = "sMultBatches st" and ?flats = "flat_mults c"
  have L: "layers_inv mbGates (\<lambda>i b. mbSize b = k) k (mult_in ?h ?flats) (full_layers True (mMultLayers c)) ?bs ?pss ?flats"
    and cls: "\<And>g. g \<in> set (concat ?flats) \<Longrightarrow> has_class ?h [MultGate] g"
    using I unfolding mults_inv_def by blast+
  have F: "i \<in> full_layers True (mMultLayers c)" if "i < length ?pss" for i using that by (simp add: full_layers_def)
  note A = layers_all [OF L F] and LD = layers_invD [OF L]
  have lb: "layer_batches c = ?pss" by (simp add: layer_batches_def)
  have lf: "length ?flats = length ?pss" using len by (simp add: flat_mults_def)
  have sz: "mbSize (?bs ! p) = k" if "p \<in> set (concat ?pss)" for p
  proof -
    from that obtain i where "i < length ?pss" "p \<in> set (?pss ! i)" by (metis (no_types, lifting) UN_iff in_set_conv_nth set_concat)
    then show ?thesis using LD(2) unfolding layer_ok_def by blast
  qed
  have "list_all distinct (layer_batches c)"
    unfolding lb list_all_length using LD(2) unfolding layer_ok_def by blast
  moreover have "list_all (\<lambda>p. p < length ?bs \<and> mbSize (?bs ! p) = k \<and> length (mbGates (?bs ! p)) = k) (mult_batches c)"
    using A(1) sz unfolding list_all_iff mult_batches_def lb by blast
  moreover have "list_all (\<lambda>d. list_all (\<lambda>p. list_all (\<lambda>g. g < length ?h \<and> (g \<in> set (?flats ! d) \<or> gclass (?h ! g) = PadMultGate))
        (mbGates (?bs ! p))) (layer_batches c ! d)
      \<and> list_all (\<lambda>g. g \<in> set (concat (map (\<lambda>p. mbGates (?bs ! p)) (layer_batches c ! d))) \<and> has_class ?h [MultGate] g) (?flats ! d))
      [0..<length (mMultLayers c)]"
    unfolding list_all_iff lb
  proof (intro ballI conjI)
    fix d assume "d \<in> set [0..<length (mMultLayers c)]"
    then have d: "d < length ?pss" by simp
    show "g < length ?h" "g \<in> set (?flats ! d) \<or> gclass (?h ! g) = PadMultGate"
      if "p \<in> set (?pss ! d)" "g \<in> set (mbGates (?bs ! p))" for p g
      using LD(4) [OF d, of g] that unfolding gates_of_layer_def mult_in_def by blast+
    show "g \<in> set (concat (map (\<lambda>p. mbGates (?bs ! p)) (?pss ! d)))" if "g \<in> set (?flats ! d)" for g
      by (rule A(3) [OF _ d that])
    show "has_class ?h [MultGate] g" if "g \<in> set (?flats ! d)" for g
    proof (rule cls)
      have "?flats ! d \<in> set ?flats" using d lf by simp
      then show "g \<in> set (concat ?flats)" using that unfolding set_concat by blast
    qed
  qed
  ultimately show ?thesis
    using I len unfolding mults_closed_def Let_def prod.case mults_inv_def listed_def list_all_iff by (simp del: set_concat)
qed

lemma circuit_inv_closed:
  assumes "circuit_inv k n {..<n} True {..<n} (st, c)" and "mIsClosed c"
  shows "closed_circuit k (st, c)"
proof -
  note I = circuit_invD [OF assms(1)]
  then have inp: "inputs_inv k n {..<n} (sGates st) (sInputBatches st) (mInputLayers c) (mFlatInputGates c) (mInputGates c)"
    and out: "outputs_inv k n {..<n} (sGates st) (sOutputBatches st) (mOutputLayers c) (mFlatOutputGates c) (mOutputGates c)"
    and mul: "mults_inv k (full_layers True (mMultLayers c)) (sGates st) (sMultBatches st) (mMultLayers c) (flat_mults c)"
    and n: "mClients c = n" and lev: "levelled (sGates st) (flat_mults c)" by blast+
  have len: "length (mMultLayers c) \<le> length (mFlatMultLayers c)" using I by simp
  then have "length (flat_mults c) = length (mMultLayers c)" by (simp add: flat_mults_def)
  then have "well_layered (st, c)"
    using lev unfolding well_layered_def levelled_def prod.case list_all_iff level_depth_at by simp
  then show ?thesis
    using inputs_inv_closed [OF inp n] outputs_inv_closed [OF out n] mults_inv_closed [OF mul len] I assms(2)
    by (simp add: closed_circuit_def heap_inv_def)
qed

lemma built_closed:
  assumes "built prg n k False False False s" and "0 < k"
  shows "closed_circuit k s \<and> mClients (snd s) = n"
proof -
  obtain st c where s: "s = (st, c)" by fastforce
  have "circuit_inv k n {..<n} True {..<n} (st, c)" "mIsClosed c"
    using built_inv [OF assms] by (simp_all add: s)
  from circuit_inv_closed [OF this] circuit_invD [OF this(1)] show ?thesis by (simp add: s)
qed

section \<open>Building does not fail\<close>

lemma circuit_levels:
  assumes I: "circuit_inv k n FI fin FO s" and g: "g < length (sGates (fst s))"
  shows "gclass (sGates (fst s) ! g) = InputGate \<Longrightarrow> level s g = 0"
    "gclass (sGates (fst s) ! g) = AddGate \<Longrightarrow> level s g = max (level s (left_of (sGates (fst s)) g)) (level s (right_of (sGates (fst s)) g))"
    "gclass (sGates (fst s) ! g) = MultGate \<Longrightarrow> level s g = Suc (layer_of (flat_mults (snd s)) g)"
proof -
  obtain st c where s: "s = (st, c)" by fastforce
  have "linked (sGates st)" using circuit_invD [OF I [unfolded s]] by (simp add: heap_inv_def)
  note w = wire_unfold [OF this, of g]
  show "gclass (sGates (fst s) ! g) = InputGate \<Longrightarrow> level s g = 0"
    "gclass (sGates (fst s) ! g) = AddGate \<Longrightarrow> level s g = max (level s (left_of (sGates (fst s)) g)) (level s (right_of (sGates (fst s)) g))"
    "gclass (sGates (fst s) ! g) = MultGate \<Longrightarrow> level s g = Suc (layer_of (flat_mults (snd s)) g)"
    using g by (simp_all add: s level_def w wire_step_def)
qed

text \<open>The gates that the circuit lists as inputs and as multiplications of a layer can be used.\<close>

lemma input_usable:
  assumes B: "built prg n k io mo oo s" and k: "0 < k" and g: "g \<in> set (mInputGates (snd s))"
  shows "user_gate (sGates (fst s)) g" "level s g = 0"
proof -
  obtain st c where s: "s = (st, c)" by fastforce
  have I: "circuit_inv k n (closed_set n io) (\<not> mo) (closed_set n oo) (st, c)" using built_inv [OF B k] s by simp
  then have inp: "inputs_inv k n (closed_set n io) (sGates st) (sInputBatches st) (mInputLayers c) (mFlatInputGates c) (mInputGates c)"
    using circuit_invD [OF I] by blast
  then have "g \<in> set (concat (mFlatInputGates c))" using g s unfolding inputs_inv_def by simp
  then obtain gs where "gs \<in> set (mFlatInputGates c)" "g \<in> set gs" by auto
  then obtain i where "i < length (mFlatInputGates c)" "g \<in> set (mFlatInputGates c ! i)" by (metis in_set_conv_nth)
  then have "has_class (sGates st) [InputGate] g" using inp owned_fresh(1) unfolding inputs_inv_def owned_inv_def layers_inv_def by auto
  then show "user_gate (sGates (fst s)) g" "level s g = 0"
    using circuit_levels(1) [OF I, of g] by (simp_all add: has_class_def user_gate_def is_pad_def s)
qed

lemma layer_of_le: "d < length flats \<Longrightarrow> g \<in> set (flats ! d) \<Longrightarrow> layer_of flats g \<le> d"
proof (induction flats arbitrary: d)
  case (Cons gs flats)
  then show ?case by (cases d) auto
qed simp

lemma mult_usable:
  assumes B: "built prg n k io mo oo s" and k: "0 < k" and g: "d < length (mMultLayers (snd s))" "g \<in> set (mFlatMultLayers (snd s) ! d)"
  shows "user_gate (sGates (fst s)) g" "level s g \<le> Suc d"
proof -
  obtain st c where s: "s = (st, c)" by fastforce
  have I: "circuit_inv k n (closed_set n io) (\<not> mo) (closed_set n oo) (st, c)" using built_inv [OF B k] s by simp
  note inv = circuit_invD [OF I]
  then have mul: "mults_inv k (full_layers (\<not> mo) (mMultLayers c)) (sGates st) (sMultBatches st) (mMultLayers c) (flat_mults c)"
    and heap: "heap_inv (sGates st)" by blast+
  have "length (mMultLayers c) \<le> length (mFlatMultLayers c)" using inv by simp
  then have d: "d < length (flat_mults c)" "g \<in> set (flat_mults c ! d)" using g s by (simp_all add: flat_mults_def)
  note m = mults_gate [OF mul heap d]
  then show "user_gate (sGates (fst s)) g" by (simp add: user_gate_def is_pad_def s)
  show "level s g \<le> Suc d" using circuit_levels(3) [OF I, of g] m layer_of_le [OF d] by (simp add: s)
qed

definition same_layers :: "('a, 'g) party \<Rightarrow> ('a, 'g) party \<Rightarrow> bool" where
  "same_layers s s' \<longleftrightarrow> length (mMultLayers (snd s')) = length (mMultLayers (snd s)) \<and> mFlatMultLayers (snd s') = mFlatMultLayers (snd s)"

lemma can_Input:
  assumes B: "built prg n k True mo oo s" and k: "0 < k" and i: "i < n"
  shows "\<exists>g s'. Circuit_Input prg i s = Inr (g, s') \<and> built prg n k True mo oo s' \<and> new_gate s s' g \<and> same_layers s s'
    \<and> mInputGates (snd s') = mInputGates (snd s) @ [g]"
proof -
  obtain st c where s: "s = (st, c)" by fastforce
  have I: "circuit_inv k n {} (\<not> mo) (closed_set n oo) (st, c)" using built_inv [OF B k] s by simp
  have "i \<notin> {}" by simp
  from Circuit_Input_step [OF I i this, of prg] obtain g s' where r: "Circuit_Input prg i (st, c) = Inr (g, s')" "new_gate (st, c) s' g"
    "mInputGates (snd s') = mInputGates c @ [g]" "mMultLayers (snd s') = mMultLayers c" "mFlatMultLayers (snd s') = mFlatMultLayers c" .
  then show ?thesis using built_Input [OF B i r(1) [folded s]] by (auto simp: s same_layers_def)
qed

lemma can_Output:
  assumes B: "built prg n k io mo True s" and k: "0 < k" and i: "i < n" and x: "user_gate (sGates (fst s)) x"
  shows "\<exists>g s'. Circuit_Output prg i x s = Inr (g, s') \<and> built prg n k io mo True s' \<and> new_gate s s' g \<and> same_layers s s'"
proof -
  obtain st c where s: "s = (st, c)" by fastforce
  have I: "circuit_inv k n (closed_set n io) (\<not> mo) {} (st, c)" using built_inv [OF B k] s by simp
  have ni: "i \<notin> {}" and u: "user_gate (sGates st) x" using x s by simp_all
  from Circuit_Output_step [OF I i ni u, of prg] obtain g s' where r: "Circuit_Output prg i x (st, c) = Inr (g, s')" "new_gate (st, c) s' g"
    "mMultLayers (snd s') = mMultLayers c" "mFlatMultLayers (snd s') = mFlatMultLayers c" .
  then show ?thesis using built_Output [OF B i x r(1) [folded s]] by (auto simp: s same_layers_def)
qed

lemma can_Add:
  assumes B: "built prg n k io mo oo s" and k: "0 < k" and u: "user_gate (sGates (fst s)) l" "user_gate (sGates (fst s)) r"
  shows "\<exists>g s'. Circuit_Add l r s = Inr (g, s') \<and> built prg n k io mo oo s' \<and> new_gate s s' g \<and> same_layers s s'
    \<and> mInputGates (snd s') = mInputGates (snd s) \<and> level s' g = max (level s l) (level s r)"
proof -
  obtain st c where s: "s = (st, c)" by fastforce
  have I: "circuit_inv k n (closed_set n io) (\<not> mo) (closed_set n oo) (st, c)" using built_inv [OF B k] s by simp
  have u': "user_gate (sGates st) l" "user_gate (sGates st) r" using u s by simp_all
  from Circuit_Add_step [OF I u'] obtain g st' where a: "Circuit_Add l r (st, c) = Inr (g, st', c\<lparr> mAddGates := mAddGates c @ [g] \<rparr>)"
    "circuit_inv k n (closed_set n io) (\<not> mo) (closed_set n oo) (st', c\<lparr> mAddGates := mAddGates c @ [g] \<rparr>)"
    "new_gate (st, c) (st', c\<lparr> mAddGates := mAddGates c @ [g] \<rparr>) g"
    "gclass (sGates st' ! g) = AddGate" "left_of (sGates st') g = l" "right_of (sGates st') g = r" .
  let ?s = "(st', c\<lparr> mAddGates := mAddGates c @ [g] \<rparr>)"
  have ext: "extends (st, c) ?s" and g: "g < length (sGates st')" using a(3) unfolding new_gate_def user_gate_def fst_conv by blast+
  have "level ?s g = max (level ?s l) (level ?s r)" using circuit_levels(2) [OF a(2), of g] g a(4-6) by simp
  moreover have "level ?s l = level s l" "level ?s r = level s r" using extends_user [OF ext] u' by (simp_all add: s)
  ultimately show ?thesis using a(1,3) built_Add [OF B u a(1) [folded s]] by (auto simp: s same_layers_def)
qed

lemma can_Mult:
  assumes B: "built prg n k io True oo s" and k: "0 < k" and u: "user_gate (sGates (fst s)) l" "user_gate (sGates (fst s)) r"
    and lv: "level s l < length (mMultLayers (snd s))" "level s r < length (mMultLayers (snd s))"
  shows "\<exists>g s'. Circuit_Mult prg l r s = Inr (g, s') \<and> built prg n k io True oo s' \<and> new_gate s s' g
    \<and> mInputGates (snd s') = mInputGates (snd s) \<and> length (mMultLayers (snd s')) = length (mMultLayers (snd s))
    \<and> mFlatMultLayers (snd s') = (mFlatMultLayers (snd s))[length (mMultLayers (snd s)) - 1 := last (mFlatMultLayers (snd s)) @ [g]]"
proof -
  obtain st c where s: "s = (st, c)" by fastforce
  have I: "circuit_inv k n (closed_set n io) False (closed_set n oo) (st, c)" using built_inv [OF B k] s by simp
  have u': "user_gate (sGates st) l" "user_gate (sGates st) r" "level (st, c) l < length (mMultLayers c)" "level (st, c) r < length (mMultLayers c)"
    using u lv by (simp_all add: s)
  from Circuit_Mult_step [OF I u', of prg] obtain g s' where r: "Circuit_Mult prg l r (st, c) = Inr (g, s')" "new_gate (st, c) s' g"
    "mInputGates (snd s') = mInputGates c" "length (mMultLayers (snd s')) = length (mMultLayers c)"
    "mFlatMultLayers (snd s') = (mFlatMultLayers c)[length (mMultLayers c) - 1 := last (mFlatMultLayers c) @ [g]]" .
  then show ?thesis using built_Mult [OF B u lv r(1) [folded s]] by (auto simp: s)
qed

lemma can_NewLayer:
  assumes B: "built prg n k io True oo s" and k: "0 < k"
  shows "\<exists>s'. NewLayer prg s = Some (Inr s') \<and> built prg n k io True oo s' \<and> length (mMultLayers (snd s')) = Suc (length (mMultLayers (snd s)))
    \<and> mFlatMultLayers (snd s') = mFlatMultLayers (snd s) @ [[]]"
proof -
  obtain st c where s: "s = (st, c)" by fastforce
  have I: "circuit_inv k n (closed_set n io) False (closed_set n oo) (st, c)" using built_inv [OF B k] s by simp
  from NewLayer_step [OF I, of prg] obtain s' where r: "NewLayer prg (st, c) = Some (Inr s')"
    "length (mMultLayers (snd s')) = Suc (length (mMultLayers c))" "mFlatMultLayers (snd s') = mFlatMultLayers c @ [[]]" .
  then show ?thesis using built_NewLayer [OF B r(1) [folded s]] by (auto simp: s)
qed

lemma can_close:
  assumes k: "0 < k"
  shows "built prg n k True mo oo s \<Longrightarrow> \<exists>s'. CloseInputs s = Some (Inr s') \<and> built prg n k False mo oo s' \<and> snd s' = snd s"
    "built prg n k io True oo s \<Longrightarrow> \<exists>s'. LastLayer s = Some (Inr s') \<and> built prg n k io False oo s' \<and> mMultLayers (snd s') = mMultLayers (snd s)
       \<and> mFlatMultLayers (snd s') = mFlatMultLayers (snd s) @ [[]]"
    "built prg n k io mo True s \<Longrightarrow> \<exists>s'. CloseOutputs s = Some (Inr s') \<and> built prg n k io mo False s'"
proof -
  obtain st c where s: "s = (st, c)" by fastforce
  show "\<exists>s'. CloseInputs s = Some (Inr s') \<and> built prg n k False mo oo s' \<and> snd s' = snd s" if B: "built prg n k True mo oo s"
  proof -
    have I: "circuit_inv k n {} (\<not> mo) (closed_set n oo) (st, c)" using built_inv [OF B k] s by simp
    from CloseInputs_step [OF I] obtain st' where r: "CloseInputs (st, c) = Some (Inr (st', c))" .
    then show ?thesis using built_CloseInputs [OF B r [folded s]] by (auto simp: s)
  qed
  show "\<exists>s'. LastLayer s = Some (Inr s') \<and> built prg n k io False oo s' \<and> mMultLayers (snd s') = mMultLayers (snd s)
       \<and> mFlatMultLayers (snd s') = mFlatMultLayers (snd s) @ [[]]" if B: "built prg n k io True oo s"
  proof -
    have I: "circuit_inv k n (closed_set n io) False (closed_set n oo) (st, c)" using built_inv [OF B k] s by simp
    from LastLayer_step [OF I] obtain st' w where
      r: "LastLayer (st, c) = Some (Inr (st', c\<lparr> mWidth := w, mFlatMultLayers := mFlatMultLayers c @ [[]] \<rparr>))" .
    then show ?thesis using built_LastLayer [OF B r [folded s]] by (auto simp: s)
  qed
  show "\<exists>s'. CloseOutputs s = Some (Inr s') \<and> built prg n k io mo False s'" if B: "built prg n k io mo True s"
  proof -
    have I: "circuit_inv k n (closed_set n io) (\<not> mo) {} (st, c)" using built_inv [OF B k] s by simp
    from CloseOutputs_step [OF I] obtain st' where r: "CloseOutputs (st, c) = Some (Inr (st', c\<lparr> mIsClosed := True \<rparr>))" .
    then show ?thesis using built_CloseOutputs [OF B r [folded s]] by (auto simp: s)
  qed
qed


text \<open>A circuit of one client and no gates, closed at once: its batches hold nothing but padding.\<close>

definition padding_circuit :: "(ff61, ff61) party" where
  "padding_circuit = (case CloseInputs (new_Circuit 0 1 2) of Some (Inr s) \<Rightarrow>
     (case LastLayer s of Some (Inr s) \<Rightarrow> (case CloseOutputs s of Some (Inr s) \<Rightarrow> s | _ \<Rightarrow> s) | _ \<Rightarrow> s) | _ \<Rightarrow> new_Circuit 0 0 0)"


text \<open>
  C18: building makes progress. In every circuit under construction each operation that the interface
  allows there returns: inputs and outputs for every client, sums of all gates the user has,
  products of gates that are known before the last layer, new layers, and the three closing operations.
\<close>

theorem building_progress:
  assumes "built prg n k io mo oo s" and "0 < k"
  shows "(io \<longrightarrow> (\<forall>i<n. \<exists>g s'. Circuit_Input prg i s = Inr (g, s')) \<and> (\<exists>s'. CloseInputs s = Some (Inr s')))
    \<and> (\<forall>l r. user_gate (sGates (fst s)) l \<and> user_gate (sGates (fst s)) r \<longrightarrow> (\<exists>g s'. Circuit_Add l r s = Inr (g, s'))
        \<and> (mo \<and> level s l < length (mMultLayers (snd s)) \<and> level s r < length (mMultLayers (snd s))
             \<longrightarrow> (\<exists>g s'. Circuit_Mult prg l r s = Inr (g, s'))))
    \<and> (mo \<longrightarrow> (\<exists>s'. NewLayer prg s = Some (Inr s')) \<and> (\<exists>s'. LastLayer s = Some (Inr s')))
    \<and> (oo \<longrightarrow> (\<forall>i<n. \<forall>x. user_gate (sGates (fst s)) x \<longrightarrow> (\<exists>g s'. Circuit_Output prg i x s = Inr (g, s')))
        \<and> (\<exists>s'. CloseOutputs s = Some (Inr s')))"
proof (intro conjI impI allI)
  note B = assms(1) and k = assms(2)
  show "\<exists>g s'. Circuit_Input prg i s = Inr (g, s')" if io "i < n" for i using can_Input [of prg n k mo oo s i] B k that by auto
  show "\<exists>s'. CloseInputs s = Some (Inr s')" if io using can_close(1) [OF k, of prg n mo oo s] B that by auto
  show "\<exists>g s'. Circuit_Add l r s = Inr (g, s')" if "user_gate (sGates (fst s)) l \<and> user_gate (sGates (fst s)) r" for l r
    using can_Add [OF B k, of l r] that by blast
  show "\<exists>g s'. Circuit_Mult prg l r s = Inr (g, s')" if "user_gate (sGates (fst s)) l \<and> user_gate (sGates (fst s)) r"
    "mo \<and> level s l < length (mMultLayers (snd s)) \<and> level s r < length (mMultLayers (snd s))" for l r
    using can_Mult [of prg n k io oo s l r] B k that by auto
  show "\<exists>s'. NewLayer prg s = Some (Inr s')" "\<exists>s'. LastLayer s = Some (Inr s')" if mo
    using can_NewLayer [of prg n k io oo s] can_close(2) [OF k, of prg n io oo s] B k that by auto
  show "\<exists>g s'. Circuit_Output prg i x s = Inr (g, s')" if oo "i < n" "user_gate (sGates (fst s)) x" for i x
    using can_Output [of prg n k io mo s i x] B k that by auto
  show "\<exists>s'. CloseOutputs s = Some (Inr s')" if oo using can_close(3) [OF k, of prg n io mo s] B that by auto
qed

theorem building_progress_witness:
  "\<exists>g s. Circuit_Input 0 1 (new_Circuit 0 2 3 :: (ff61, ff61) party) = Inr (g, s)"
proof -
  have "built 0 2 3 True True True (new_Circuit 0 2 3 :: (ff61, ff61) party)" by (rule built_new)
  from building_progress [OF this zero_less_numeral, THEN conjunct1, THEN mp, OF TrueI, THEN conjunct1]
  show ?thesis by simp
qed

end
