(* ===== verification/Synthetic.thy ===== *)
theory Synthetic
  imports BuildMain
begin

text \<open>
  The synthetic circuits of \<open>Circuit::FromConfig\<close> (\<open>src/tp/circuits/generic.cc\<close>): for every configuration that
  passes its checks the function returns a circuit that the building interface makes, with the shape
  that the configuration asks for.
\<close>

section \<open>Pairs of multiplications\<close>

lemma new_gate_old:
  assumes "new_gate s s' g" "user_gate (sGates (fst s)) x"
  shows "user_gate (sGates (fst s')) x" "level s' x = level s x"
  using assms extends_user unfolding new_gate_def by blast+

lemma config_pair_run:
  assumes B: "built prg n k io True oo s" and k: "0 < k" and u: "user_gate (sGates (fst s)) x" "user_gate (sGates (fst s)) y"
    and lv: "level s x < length (mMultLayers (snd s))" "level s y < length (mMultLayers (snd s))"
    and len: "length (mFlatMultLayers (snd s)) = length (mMultLayers (snd s))"
  shows "\<exists>s' g g'. config_pair prg x y s = Inr s' \<and> built prg n k io True oo s' \<and> mInputGates (snd s') = mInputGates (snd s)
    \<and> length (mMultLayers (snd s')) = length (mMultLayers (snd s))
    \<and> mFlatMultLayers (snd s') = (mFlatMultLayers (snd s))[length (mMultLayers (snd s)) - 1 := last (mFlatMultLayers (snd s)) @ [g, g']]"
proof -
  from can_Add [OF B k u] obtain a s1 where a: "Circuit_Add x y s = Inr (a, s1)" "built prg n k io True oo s1" "new_gate s s1 a"
    "same_layers s s1" "mInputGates (snd s1) = mInputGates (snd s)" "level s1 a = max (level s x) (level s y)" by blast
  note old = new_gate_old [OF a(3)]
  have ua: "user_gate (sGates (fst s1)) a" using a(3) unfolding new_gate_def by blast
  have "level s1 x < length (mMultLayers (snd s1))" "level s1 a < length (mMultLayers (snd s1))"
    using a(4,6) lv old(2) [OF u(1)] by (simp_all add: same_layers_def)
  from can_Mult [OF a(2) k old(1) [OF u(1)] ua this] obtain g s2 where g: "Circuit_Mult prg x a s1 = Inr (g, s2)"
    "built prg n k io True oo s2" "new_gate s1 s2 g" "mInputGates (snd s2) = mInputGates (snd s1)"
    "length (mMultLayers (snd s2)) = length (mMultLayers (snd s1))"
    "mFlatMultLayers (snd s2) = (mFlatMultLayers (snd s1))[length (mMultLayers (snd s1)) - 1 := last (mFlatMultLayers (snd s1)) @ [g]]" by blast
  note old2 = new_gate_old [OF g(3)]
  have "level s2 y < length (mMultLayers (snd s2))" "level s2 a < length (mMultLayers (snd s2))"
    using a(4,6) lv g(5) old(2) [OF u(2)] old2(2) [OF old(1) [OF u(2)]] old2(2) [OF ua] by (simp_all add: same_layers_def)
  from can_Mult [OF g(2) k old2(1) [OF old(1) [OF u(2)]] old2(1) [OF ua] this] obtain g' s3 where
    g': "Circuit_Mult prg y a s2 = Inr (g', s3)" "built prg n k io True oo s3" "mInputGates (snd s3) = mInputGates (snd s2)"
    "length (mMultLayers (snd s3)) = length (mMultLayers (snd s2))"
    "mFlatMultLayers (snd s3) = (mFlatMultLayers (snd s2))[length (mMultLayers (snd s2)) - 1 := last (mFlatMultLayers (snd s2)) @ [g']]" by blast
  have "mFlatMultLayers (snd s) \<noteq> []" "length (mMultLayers (snd s)) - Suc 0 < length (mMultLayers (snd s))" using lv(1) len by auto
  then have "mFlatMultLayers (snd s3) = (mFlatMultLayers (snd s))[length (mMultLayers (snd s)) - 1 := last (mFlatMultLayers (snd s)) @ [g, g']]"
    using g'(5) g(5,6) a(4) len by (simp add: same_layers_def last_conv_nth)
  then show ?thesis
    using a(1,4,5) g(1,4,5) g'(1-4) by (simp add: config_pair_def same_layers_def) blast
qed

text \<open>The numbers of multiplications in the layers.\<close>

definition shape :: "('a, 'g) party \<Rightarrow> nat list" where
  "shape s = map length (mFlatMultLayers (snd s))"

definition building :: "'g \<Rightarrow> nat \<Rightarrow> nat \<Rightarrow> bool \<Rightarrow> nat list \<Rightarrow> ('a::field, 'g) party \<Rightarrow> bool" where
  "building prg n k io ms s \<longleftrightarrow> built prg n k io True True s \<and> length (mMultLayers (snd s)) = length ms \<and> shape s = ms"

lemma buildingD:
  assumes "building prg n k io ms s"
  shows "built prg n k io True True s" "length (mMultLayers (snd s)) = length ms" "length (mFlatMultLayers (snd s)) = length ms"
    "d < length ms \<Longrightarrow> length (mFlatMultLayers (snd s) ! d) = ms ! d"
proof -
  have sh: "map length (mFlatMultLayers (snd s)) = ms" using assms by (simp add: building_def shape_def)
  show "built prg n k io True True s" "length (mMultLayers (snd s)) = length ms" using assms by (simp_all add: building_def)
  show len: "length (mFlatMultLayers (snd s)) = length ms" using arg_cong [OF sh, of length] by simp
  show "length (mFlatMultLayers (snd s) ! d) = ms ! d" if "d < length ms"
    using arg_cong [OF sh, of "\<lambda>xs. xs ! d"] that len by simp
qed

lemma config_pair_building:
  assumes B: "building prg n k io (ms @ [m]) s" and k: "0 < k" and u: "user_gate (sGates (fst s)) x" "user_gate (sGates (fst s)) y"
    and lv: "level s x \<le> length ms" "level s y \<le> length ms"
  shows "\<exists>s'. config_pair prg x y s = Inr s' \<and> building prg n k io (ms @ [Suc (Suc m)]) s' \<and> mInputGates (snd s') = mInputGates (snd s)
    \<and> take (length ms) (mFlatMultLayers (snd s')) = take (length ms) (mFlatMultLayers (snd s))"
proof -
  note BD = buildingD [OF B]
  have "level s x < length (mMultLayers (snd s))" "level s y < length (mMultLayers (snd s))" using BD(2) lv by simp_all
  from config_pair_run [OF BD(1) k u this] BD(2,3) obtain s' g g' where
    r: "config_pair prg x y s = Inr s'" "built prg n k io True True s'" "mInputGates (snd s') = mInputGates (snd s)"
    "length (mMultLayers (snd s')) = length (mMultLayers (snd s))"
    "mFlatMultLayers (snd s') = (mFlatMultLayers (snd s))[length ms := last (mFlatMultLayers (snd s)) @ [g, g']]" by auto
  have ne: "mFlatMultLayers (snd s) \<noteq> []" using BD(3) by auto
  have "length (last (mFlatMultLayers (snd s))) = m" using BD(4) [of "length ms"] BD(3) by (simp add: last_conv_nth [OF ne])
  then have "shape s' = ms @ [Suc (Suc m)]"
    using B r(5) by (simp add: building_def shape_def map_update list_update_append)
  then show ?thesis using r BD(2) by (auto simp: building_def)
qed

section \<open>The loops\<close>

text \<open>
  The configurations that pass the checks of \<open>FromConfig\<close> and ask for at least one layer of gates. The
  depth is a \<open>std::size_t\<close>; the other sizes are bounded by the lengths of vectors.
\<close>

definition valid_config :: "circuit_config \<Rightarrow> bool" where
  "valid_config config \<longleftrightarrow> cfgParties config = length (cfgInpGates config) \<and> cfgParties config = length (cfgOutGates config)
     \<and> 0 < ComputeNumberOfInputs config \<and> ComputeNumberOfInputs config mod 2 = 0
     \<and> 0 < cfgWidth config \<and> cfgWidth config mod ComputeNumberOfInputs config = 0
     \<and> 0 < cfgDepth config \<and> cfgDepth config < 2 ^ 64 \<and> 0 < cfgBatchSize config"

lemma ComputeNumberOfInputs_sum: "ComputeNumberOfInputs config = sum_list (cfgInpGates config)"
proof -
  have "fold (\<lambda>n sum. sum + n) xs a = a + sum_list xs" for xs and a :: nat by (induction xs arbitrary: a) simp_all
  then show ?thesis by (simp add: ComputeNumberOfInputs_def)
qed

lemma config_inputs_run:
  assumes k: "0 < k" and B: "building prg n k True ms s" and P: "cfgParties config \<le> length (cfgInpGates config)" "cfgParties config \<le> n"
  shows "\<exists>s'. config_inputs prg config s = Inr s' \<and> building prg n k True ms s'
    \<and> length (mInputGates (snd s')) = length (mInputGates (snd s)) + sum_list (take (cfgParties config) (cfgInpGates config))"
proof -
  let ?I = "\<lambda>m s'. building prg n k True ms s' \<and> length (mInputGates (snd s')) = length (mInputGates (snd s)) + sum_list (take m (cfgInpGates config))"
  have outer: "\<exists>s''. bindE (vget (cfgInpGates config) i) (\<lambda>m. foldE (\<lambda>j s. bindE (Circuit_Input prg i s) (\<lambda>(_, s). Inr s)) [0..<m] s') = Inr s'' \<and> ?I (Suc i) s''"
    if i: "i < cfgParties config" and H: "?I i s'" for i s'
  proof -
    let ?m = "cfgInpGates config ! i" and ?J = "\<lambda>j s''. building prg n k True ms s'' \<and> length (mInputGates (snd s'')) = length (mInputGates (snd s')) + j"
    have "\<exists>s2. bindE (Circuit_Input prg i s1) (\<lambda>(_, s). Inr s) = Inr s2 \<and> ?J (Suc j) s2" if "?J j s1" for j s1
    proof -
      have B1: "built prg n k True True True s1" using that by (simp add: building_def)
      have "i < n" using i P by simp
      from can_Input [OF B1 k this] that show ?thesis by (auto simp: building_def same_layers_def shape_def)
    qed
    then have "\<exists>s2. foldE (\<lambda>j s. bindE (Circuit_Input prg i s) (\<lambda>(_, s). Inr s)) [0..<?m] s' = Inr s2 \<and> ?J ?m s2"
      using H by (intro foldE_upt_invariant [where I = ?J]) simp_all
    moreover have "sum_list (take (Suc i) (cfgInpGates config)) = sum_list (take i (cfgInpGates config)) + ?m"
      using i P by (simp add: take_Suc_conv_app_nth)
    ultimately show ?thesis using H i P by auto
  qed
  show ?thesis unfolding config_inputs_def
  proof (rule foldE_upt_invariant [where I = ?I])
    show "?I 0 s" using B by simp
  qed (rule outer)
qed

lemma input_gate_flat:
  assumes "building prg n k io ms s" and "0 < k" and "i < length (mInputGates (snd s))"
  shows "Circuit_GetInputGateFlat (snd s) i = Inr (mInputGates (snd s) ! i)" "user_gate (sGates (fst s)) (mInputGates (snd s) ! i)"
    "level s (mInputGates (snd s) ! i) = 0"
  using input_usable [OF buildingD(1) [OF assms(1)] assms(2), of "mInputGates (snd s) ! i"] assms(3)
  by (simp_all add: Circuit_GetInputGateFlat_def)

lemma mult_gate_at:
  assumes B: "building prg n k io ms s" and k: "0 < k" and d: "d < length ms" "i < ms ! d"
  shows "Circuit_GetMultGate (snd s) d i = Inr (mFlatMultLayers (snd s) ! d ! i)" "user_gate (sGates (fst s)) (mFlatMultLayers (snd s) ! d ! i)"
    "level s (mFlatMultLayers (snd s) ! d ! i) \<le> Suc d"
proof -
  note BD = buildingD [OF B]
  have "i < length (mFlatMultLayers (snd s) ! d)" using BD(4) [OF d(1)] d(2) by simp
  then show "Circuit_GetMultGate (snd s) d i = Inr (mFlatMultLayers (snd s) ! d ! i)" "user_gate (sGates (fst s)) (mFlatMultLayers (snd s) ! d ! i)"
    "level s (mFlatMultLayers (snd s) ! d ! i) \<le> Suc d"
    using mult_usable [OF BD(1) k, of d "mFlatMultLayers (snd s) ! d ! i"] BD(2,3) d
    by (simp_all add: Circuit_GetMultGate_def vget2_def)
qed

lemma config_first_layer_run:
  assumes k: "0 < k" and B: "building prg n k False [0] s" and m: "0 < m" "length (mInputGates (snd s)) = m"
  shows "\<exists>s'. config_first_layer prg config m s = Inr s' \<and> building prg n k False [2 * (cfgWidth config div 2)] s'"
proof -
  let ?I = "\<lambda>i s'. building prg n k False [2 * i] s' \<and> length (mInputGates (snd s')) = m"
  have "\<exists>s2. bindE (nmod (2 * i) m) (\<lambda>a. bindE (Circuit_GetInputGateFlat (snd s1) a) (\<lambda>x.
     bindE (nmod (2 * i + 1) m) (\<lambda>b. bindE (Circuit_GetInputGateFlat (snd s1) b) (\<lambda>y. config_pair prg x y s1)))) = Inr s2 \<and> ?I (Suc i) s2"
    if H: "?I i s1" for i s1
  proof -
    have B1: "building prg n k False ([] @ [2 * i]) s1" and m1: "length (mInputGates (snd s1)) = m" using H by simp_all
    have a: "2 * i mod m < length (mInputGates (snd s1))" "(2 * i + 1) mod m < length (mInputGates (snd s1))" using m(1) m1 by simp_all
    note x = input_gate_flat [OF B1 k a(1)] and y = input_gate_flat [OF B1 k a(2)]
    from config_pair_building [OF B1 k x(2) y(2)] x(3) y(3) obtain s2 where
      "config_pair prg (mInputGates (snd s1) ! (2 * i mod m)) (mInputGates (snd s1) ! ((2 * i + 1) mod m)) s1 = Inr s2"
      "building prg n k False [Suc (Suc (2 * i))] s2" "mInputGates (snd s2) = mInputGates (snd s1)" by auto
    then show ?thesis using x(1) y(1) m(1) m1 by (simp add: nmod_def)
  qed
  then have "\<exists>s'. config_first_layer prg config m s = Inr s' \<and> ?I (cfgWidth config div 2) s'"
    unfolding config_first_layer_def using B m by (intro foldE_upt_invariant [where I = ?I]) simp_all
  then show ?thesis by blast
qed

lemma config_next_layers_run:
  assumes k: "0 < k" and B: "building prg n k False [2 * (cfgWidth config div 2)] s" and depth: "0 < cfgDepth config"
  shows "\<exists>s'. config_next_layers prg config s = Some (Inr s')
    \<and> building prg n k False (replicate (cfgDepth config) (2 * (cfgWidth config div 2))) s'"
proof -
  let ?w = "2 * (cfgWidth config div 2)" and ?I = "\<lambda>m s'. building prg n k False (replicate (Suc m) (2 * (cfgWidth config div 2))) s'"
  let ?f = "\<lambda>d s. bindP (NewLayer prg s) (\<lambda>s. liftP (foldE (\<lambda>i s. bindE (Circuit_GetMultGate (snd s) (d - 1) (2 * i)) (\<lambda>x.
       bindE (Circuit_GetMultGate (snd s) (d - 1) (2 * i + 1)) (\<lambda>y. config_pair prg x y s))) [0..<cfgWidth config div 2] s))"
  have "\<exists>s2. ?f ([1..<cfgDepth config] ! m) s1 = Some (Inr s2) \<and> ?I (Suc m) s2"
    if m: "m < length [1..<cfgDepth config]" and H: "?I m s1" for m s1
  proof -
    let ?ms = "replicate (Suc m) ?w" and ?d = "[1..<cfgDepth config] ! m"
    have d: "?d = Suc m" using m by simp
    obtain s2 where r: "NewLayer prg s1 = Some (Inr s2)" "built prg n k False True True s2"
      "length (mMultLayers (snd s2)) = Suc (length (mMultLayers (snd s1)))" "mFlatMultLayers (snd s2) = mFlatMultLayers (snd s1) @ [[]]"
      using can_NewLayer [OF buildingD(1) [OF H] k] by blast
    have B2: "building prg n k False (?ms @ [0]) s2" using r H by (simp add: building_def shape_def)
    let ?J = "\<lambda>i s'. building prg n k False (?ms @ [2 * i]) s'"
    have "\<exists>s4. bindE (Circuit_GetMultGate (snd s3) (?d - 1) (2 * i)) (\<lambda>x. bindE (Circuit_GetMultGate (snd s3) (?d - 1) (2 * i + 1)) (\<lambda>y.
        config_pair prg x y s3)) = Inr s4 \<and> ?J (Suc i) s4" if i: "i < cfgWidth config div 2" and H: "?J i s3" for i s3
    proof -
      have "m < length (?ms @ [2 * i])" "2 * i < (?ms @ [2 * i]) ! m" "2 * i + 1 < (?ms @ [2 * i]) ! m"
        using i by (simp_all add: nth_append del: replicate_Suc)
      note x = mult_gate_at [OF H k this(1,2)] and y = mult_gate_at [OF H k this(1,3)]
      have "length ?ms = Suc m" by simp
      with config_pair_building [OF H k x(2) y(2)] x(3) y(3) obtain s4 where
        "config_pair prg (mFlatMultLayers (snd s3) ! m ! (2 * i)) (mFlatMultLayers (snd s3) ! m ! (2 * i + 1)) s3 = Inr s4"
        "building prg n k False (?ms @ [Suc (Suc (2 * i))]) s4" by auto
      then show ?thesis using x(1) y(1) d by simp
    qed
    then obtain s5 where "foldE (\<lambda>i s. bindE (Circuit_GetMultGate (snd s) (?d - 1) (2 * i)) (\<lambda>x.
       bindE (Circuit_GetMultGate (snd s) (?d - 1) (2 * i + 1)) (\<lambda>y. config_pair prg x y s))) [0..<cfgWidth config div 2] s2 = Inr s5"
      "?J (cfgWidth config div 2) s5"
      using foldE_upt_invariant [where I = ?J and s = s2 and n = "cfgWidth config div 2"
          and f = "\<lambda>i s. bindE (Circuit_GetMultGate (snd s) (?d - 1) (2 * i)) (\<lambda>x. bindE (Circuit_GetMultGate (snd s) (?d - 1) (2 * i + 1)) (\<lambda>y. config_pair prg x y s))"]
        B2 by auto
    moreover have "?ms @ [?w] = replicate (Suc (Suc m)) ?w" by (metis replicate_Suc replicate_append_same)
    ultimately show ?thesis using r(1) by (simp add: liftP_def)
  qed
  moreover have "?I 0 s" using B by simp
  ultimately have "\<exists>s'. foldP ?f [1..<cfgDepth config] s = Some (Inr s') \<and> ?I (length [1..<cfgDepth config]) s'"
    by (intro foldP_invariant [where I = ?I])
  moreover have "Suc (length [1..<cfgDepth config]) = cfgDepth config" using depth by simp
  ultimately show ?thesis unfolding config_next_layers_def by metis
qed

lemma config_outputs_run:
  fixes s :: "('a::field, 'g) party"
  assumes k: "0 < k" and B: "built prg n k False False True s" and w: "0 < cfgWidth config" "0 < cfgDepth config" "cfgDepth config < 2 ^ 64"
    and L: "cfgDepth config \<le> length (mMultLayers (snd s))" "length (mMultLayers (snd s)) \<le> length (mFlatMultLayers (snd s))"
    "length (mFlatMultLayers (snd s) ! (cfgDepth config - 1)) = cfgWidth config"
    and P: "cfgParties config \<le> length (cfgOutGates config)" "cfgParties config \<le> n"
  shows "\<exists>s'. config_outputs prg config s = Inr s' \<and> built prg n k False False True s'"
proof -
  let ?D = "cfgDepth config - 1"
  let ?J = "\<lambda>s'. built prg n k False False True s' \<and> same_layers s s'"
  let ?g = "\<lambda>i j (ctr, s). bindE (nmod ctr (cfgWidth config)) (\<lambda>idx.
       bindE (Circuit_GetMultGate (snd s) (size_sub (cfgDepth config) 1) idx) (\<lambda>x.
       bindE (Circuit_Output prg i x s) (\<lambda>(_, s). Inr (ctr + 1, s))))"
  have body: "\<exists>y. ?g i j (ctr, s1) = Inr y \<and> ?J (snd y)" if i: "i < cfgParties config" and H: "?J s1" for i j ctr s1
  proof -
    have same: "length (mMultLayers (snd s1)) = length (mMultLayers (snd s))" "mFlatMultLayers (snd s1) = mFlatMultLayers (snd s)"
      using H by (simp_all add: same_layers_def)
    have D: "?D < length (mMultLayers (snd s1))" "?D < length (mFlatMultLayers (snd s1))" using L(1,2) w(2) same by simp_all
    let ?x = "mFlatMultLayers (snd s1) ! ?D ! (ctr mod cfgWidth config)"
    have x: "ctr mod cfgWidth config < length (mFlatMultLayers (snd s1) ! ?D)" using L(3) same(2) w(1) by simp
    then have "?x \<in> set (mFlatMultLayers (snd s1) ! ?D)" by simp
    note u = mult_usable(1) [OF H [THEN conjunct1] k D(1) this]
    have "i < n" using i P by simp
    from can_Output [OF H [THEN conjunct1] k this u] obtain g s2 where
      r: "Circuit_Output prg i ?x s1 = Inr (g, s2)" "built prg n k False False True s2" "same_layers s1 s2" by blast
    have "size_sub (cfgDepth config) 1 = ?D" using w(2,3) by (intro size_sub_exact) simp_all
    then show ?thesis using r x D(2) w(1) H by (simp add: nmod_def Circuit_GetMultGate_def vget2_def same_layers_def)
  qed
  have "\<exists>y. foldE (\<lambda>i s. bindE (vget (cfgOutGates config) i) (\<lambda>n. foldE (?g i) [0..<n] s)) [0..<cfgParties config] (0, s) = Inr y \<and> ?J (snd y)"
  proof (rule foldE_upt_invariant [where I = "\<lambda>_ y. ?J (snd y)"])
    show "?J (snd (0, s))" using B by (simp add: same_layers_def)
    fix i and y :: "nat \<times> ('a, 'g) party" assume i: "i < cfgParties config" and H: "?J (snd y)"
    have "\<exists>y'. foldE (?g i) [0..<cfgOutGates config ! i] y = Inr y' \<and> ?J (snd y')"
    proof (rule foldE_upt_invariant [where I = "\<lambda>_ y. ?J (snd y)"])
      fix j and y1 :: "nat \<times> ('a, 'g) party"
      assume "?J (snd y1)"
      then show "\<exists>y2. ?g i j y1 = Inr y2 \<and> ?J (snd y2)" using body [OF i, of "snd y1" "fst y1"] by simp
    qed (rule H)
    then show "\<exists>y'. bindE (vget (cfgOutGates config) i) (\<lambda>n. foldE (?g i) [0..<n] y) = Inr y' \<and> ?J (snd y')" using i P by simp
  qed
  then show ?thesis unfolding config_outputs_def by (auto simp: split_def)
qed

lemma FromConfig_run:
  fixes prg :: 'g
  assumes "valid_config config"
  shows "\<exists>s :: ('a::field, 'g) party. FromConfig prg config = Some (Inr s) \<and> built prg (cfgParties config) (cfgBatchSize config) False False False s"
proof -
  let ?n = "cfgParties config" and ?k = "cfgBatchSize config" and ?m = "ComputeNumberOfInputs config" and ?w = "cfgWidth config"
  have n: "?n = length (cfgInpGates config)" "?n = length (cfgOutGates config)" and m: "0 < ?m" "?m mod 2 = 0" "?w mod ?m = 0" "0 < ?w"
    and d: "0 < cfgDepth config" "cfgDepth config < 2 ^ 64" and k: "0 < ?k"
    using assms by (simp_all add: valid_config_def)
  have "2 dvd ?m" "?m dvd ?w" using m(2,3) by (simp_all only: mod_0_imp_dvd)
  then have "2 dvd ?w" by (rule dvd_trans)
  then have w: "2 * (?w div 2) = ?w" by (rule dvd_mult_div_cancel)
  let ?s0 = "new_Circuit prg ?n ?k :: ('a, 'g) party"
  have B0: "building prg ?n ?k True [0] ?s0"
    by (simp add: building_def shape_def built_new new_Circuit_inv [OF k])
  obtain s1 where s1: "config_inputs prg config ?s0 = Inr s1" "building prg ?n ?k True [0] s1" "length (mInputGates (snd s1)) = ?m"
    using config_inputs_run [OF k B0, of config] n by (auto simp: ComputeNumberOfInputs_sum new_Circuit_inv(4) [OF k])
  obtain s2 where s2: "CloseInputs s1 = Some (Inr s2)" "built prg ?n ?k False True True s2" "snd s2 = snd s1"
    using can_close(1) [OF k buildingD(1) [OF s1(2)]] by blast
  have B2: "building prg ?n ?k False [0] s2" using s1(2) s2(2,3) by (simp add: building_def shape_def)
  have "length (mInputGates (snd s2)) = ?m" using s1(3) s2(3) by simp
  from config_first_layer_run [OF k B2 m(1) this] obtain s3 where
    s3: "config_first_layer prg config ?m s2 = Inr s3" "building prg ?n ?k False [2 * (?w div 2)] s3" by blast
  from config_next_layers_run [OF k s3(2) d(1)] obtain s4 where
    s4: "config_next_layers prg config s3 = Some (Inr s4)" "building prg ?n ?k False (replicate (cfgDepth config) ?w) s4" unfolding w by blast
  note BD = buildingD [OF s4(2)]
  obtain s5 where s5: "LastLayer s4 = Some (Inr s5)" "built prg ?n ?k False False True s5" "mMultLayers (snd s5) = mMultLayers (snd s4)"
    "mFlatMultLayers (snd s5) = mFlatMultLayers (snd s4) @ [[]]"
    using can_close(2) [OF k BD(1)] by blast
  have L: "cfgDepth config \<le> length (mMultLayers (snd s5))" "length (mMultLayers (snd s5)) \<le> length (mFlatMultLayers (snd s5))"
    "length (mFlatMultLayers (snd s5) ! (cfgDepth config - 1)) = ?w"
    using s5(3,4) BD(2,3) BD(4) [of "cfgDepth config - 1"] d by (simp_all add: nth_append)
  from config_outputs_run [OF k s5(2) m(4) d L] n obtain s6 where
    s6: "config_outputs prg config s5 = Inr s6" "built prg ?n ?k False False True s6" by auto
  obtain s7 where s7: "CloseOutputs s6 = Some (Inr s7)" "built prg ?n ?k False False False s7"
    using can_close(3) [OF k s6(2)] by blast
  have "FromConfig prg config = Some (Inr s7)"
    using n m(1-3) s1(1) s2(1) s3(1) s4(1) s5(1) s6(1) s7(1) by (simp add: FromConfig_def Let_def nmod_def)
  then show ?thesis using s7(2) by blast
qed

lemma FromConfig_rejects:
  assumes "cfgParties config \<noteq> length (cfgInpGates config) \<or> cfgParties config \<noteq> length (cfgOutGates config)
      \<or> 0 < ComputeNumberOfInputs config \<and> (cfgWidth config mod ComputeNumberOfInputs config \<noteq> 0 \<or> ComputeNumberOfInputs config mod 2 \<noteq> 0)"
  shows "\<exists>msg. FromConfig prg config = Some (Inl (Invalid_argument msg))"
proof -
  let ?m = "ComputeNumberOfInputs config" and ?w = "cfgWidth config"
  consider "cfgParties config \<noteq> length (cfgInpGates config)" | "cfgParties config = length (cfgInpGates config)" "cfgParties config \<noteq> length (cfgOutGates config)"
    | "cfgParties config = length (cfgInpGates config)" "cfgParties config = length (cfgOutGates config)" "?m \<noteq> 0" "?w mod ?m \<noteq> 0 \<or> ?m mod 2 \<noteq> 0"
    using assms by (metis less_numeral_extra(3))
  then show ?thesis
  proof cases
    case 3
    then have "nmod ?w ?m = Inr (?w mod ?m)" by (simp add: nmod_def)
    moreover have "?w mod ?m \<noteq> 0 \<or> ?w mod ?m = 0 \<and> ?m mod 2 \<noteq> 0" using 3(4) by argo
    ultimately show ?thesis using 3(1,2) unfolding FromConfig_def Let_def failP_def by (elim disjE conjE) simp_all
  qed (simp_all add: FromConfig_def failP_def)
qed



end
