(* ===== verification/DFT.thy ===== *)
theory DFT
  imports Interp
begin

text \<open>
  The discrete Fourier transforms of \<open>packed-ss-template/PackedSS.hpp\<close>: the counter \<open>reverse_add\<close> that
  walks through the bit-reversed indices, the transform \<open>DFT\<close> whose first pass permutes the
  coefficients in place with a scratch vector, the variant \<open>PreserveInDFT\<close>, and the inverse
  \<open>InvDFT\<close>. All compute the values of the polynomial at the powers of the root of unity, in their
  natural order. NTL's \<open>ZZ_p\<close> is a field given as the type parameter.
\<close>

section \<open>The transforms\<close>

text \<open>
  The counter is a 32-bit \<open>int\<close>. A shift takes its count modulo 32, as the machine does; the language
  leaves a negative count undefined, and the last call of \<open>reverse_add\<close> in each transform, whose result
  is not used, makes one.
\<close>

definition shift_count :: "int \<Rightarrow> nat" where
  "shift_count ind = nat (ind mod 32)"

lemma clear_bit_less:
  assumes "bit (w :: 32 word) k"
  shows "w AND NOT (push_bit k 1) < w"
proof -
  have "w AND NOT (push_bit k 1) \<le> w" by (rule word_and_le2)
  moreover have "\<not> bit (w AND NOT (push_bit k 1)) k"
    using bit_imp_possible_bit [OF assms] by (simp add: bit_and_iff bit_not_iff bit_exp_iff)
  then have "w AND NOT (push_bit k 1) \<noteq> w" using assms by auto
  ultimately show ?thesis by simp
qed

function reverse_loop :: "32 word \<Rightarrow> int \<Rightarrow> 32 word" where
  "reverse_loop itr ind =
     (if bit itr (shift_count ind) then reverse_loop (itr AND NOT (push_bit (shift_count ind) 1)) (ind - 1)
      else itr + push_bit (shift_count ind) 1)"
  by pat_completeness auto
termination
  by (relation "measure (\<lambda>(itr, ind). unat itr)") (use clear_bit_less in \<open>auto simp: word_less_nat_alt [symmetric]\<close>)

declare reverse_loop.simps [simp del]

definition reverse_add :: "nat \<Rightarrow> 32 word \<Rightarrow> 32 word" where
  "reverse_add pow itr = reverse_loop itr (int pow - 2)"

text \<open>The first pass of \<open>DFT\<close>: sums and differences of the pairs, in bit-reversed order, in place.\<close>

definition dft_pass :: "nat \<Rightarrow> 'a::field list \<Rightarrow> 'a list" where
  "dft_pass pow_u coeffs = (let step = 2 ^ (pow_u - 1) in
     fst (fold (\<lambda>k (c, scratch, base). let k_d = 2 * k; b = unat base;
         scratch = scratch[k_d := c ! k_d]; scratch = scratch[k_d + 1 := c ! (k_d + 1)];
         c = (if b + step \<le> k_d then
                let c = c[k_d := scratch ! b + scratch ! (b + step)] in
                c[k_d + 1 := scratch ! b - scratch ! (b + step)]
              else if b \<le> k_d then
                let c = c[k_d := scratch ! b + c ! (b + step)] in
                c[k_d + 1 := scratch ! b - c ! (b + step)]
              else
                let c = c[k_d := c ! b + c ! (b + step)] in
                c[k_d + 1 := c ! b - c ! (b + step)]) in
         (c, scratch, reverse_add pow_u base)) [0..<step] (coeffs, replicate (2 ^ pow_u) 0, 0)))"

definition preserve_pass :: "nat \<Rightarrow> 'a::field list \<Rightarrow> 'a list" where
  "preserve_pass pow_u coeffs = (let step = 2 ^ (pow_u - 1) in
     fst (fold (\<lambda>k (out, base). let k_d = 2 * k; b = unat base;
         out = out[k_d := coeffs ! b + coeffs ! (b + step)];
         out = out[k_d + 1 := coeffs ! b - coeffs ! (b + step)] in
         (out, reverse_add pow_u base)) [0..<step] (replicate (2 ^ pow_u) 0, 0)))"

text \<open>The passes \<open>i = 1, \<dots>, pow_u - 1\<close> over blocks of \<open>2^(i+1)\<close> values, common to both.\<close>

function butterfly :: "nat \<Rightarrow> nat \<Rightarrow> 'a::field \<Rightarrow> nat \<Rightarrow> 'a list \<Rightarrow> 'a list" where
  "butterfly order_gr i factor base c =
     (if base < order_gr then
        let step = 2 ^ i; y = factor * c ! (base + step);
            c = c[base + step := c ! base - y]; c = c[base := c ! base + y] in
        butterfly order_gr i factor (base + 2 * step) c
      else c)"
  by pat_completeness auto
termination
  by (relation "measure (\<lambda>(n, i, f, base, c). n - base)") (auto intro: diff_less_mono2)

declare butterfly.simps [simp del]

definition dft_stage :: "'a::field \<Rightarrow> nat \<Rightarrow> nat \<Rightarrow> 'a list \<Rightarrow> 'a list" where
  "dft_stage gen pow_u i c = (let order_gr = 2 ^ pow_u; stride = gen ^ (order_gr div 2 ^ (i + 1)) in
     fst (fold (\<lambda>k (c, factor). (butterfly order_gr i factor k c, factor * stride)) [0..<2 ^ i] (c, 1)))"

definition dft_stages :: "'a::field \<Rightarrow> nat \<Rightarrow> 'a list \<Rightarrow> 'a list" where
  "dft_stages gen pow_u = fold (dft_stage gen pow_u) [1..<pow_u]"

text \<open>
  The indices \<open>0, \<dots>, 2^pow_u - 1\<close> are all read; \<open>gen\<close> is the generator, or its square for the subgroup.
\<close>

definition dft :: "'a::field \<Rightarrow> nat \<Rightarrow> 'a list \<Rightarrow> 'a list res" where
  "dft gen pow_u coeffs =
     (if pow_u = 0 then Inr coeffs
      else if length coeffs < 2 ^ pow_u then Inl Undefined
      else if pow_u = 1 then
        (let save = coeffs ! 0; c = coeffs[0 := coeffs ! 0 + coeffs ! 1] in Inr (c[1 := save - c ! 1]))
      else Inr (dft_stages gen pow_u (dft_pass pow_u coeffs)))"

definition preserve_dft :: "'a::field \<Rightarrow> nat \<Rightarrow> 'a list \<Rightarrow> 'a list res" where
  "preserve_dft gen pow_u coeffs =
     (if length coeffs < 2 ^ pow_u then Inl Undefined
      else if pow_u = 0 then Inr [coeffs ! 0]
      else if pow_u = 1 then Inr [coeffs ! 0 + coeffs ! 1, coeffs ! 0 - coeffs ! 1]
      else Inr (dft_stages gen pow_u (preserve_pass pow_u coeffs)))"

section \<open>The bit-reversed counter\<close>

primrec brev :: "nat \<Rightarrow> nat \<Rightarrow> nat" where
  "brev 0 k = 0"
| "brev (Suc m) k = 2 ^ m * (k mod 2) + brev m (k div 2)"

lemma brev_less: "brev m k < 2 ^ m"
proof (induction m arbitrary: k)
  case (Suc m)
  have "k mod 2 = 0 \<or> k mod 2 = 1" by auto
  with Suc.IH [of "k div 2"] show ?case by auto
qed simp

lemma brev_zero [simp]: "brev m 0 = 0"
  by (induction m) simp_all

lemma brev_double:
  "brev (Suc m) (2 * b) = brev m b" "brev (Suc m) (Suc (2 * b)) = 2 ^ m + brev m b"
  by simp_all

lemma shift_count_nat: "m < 32 \<Longrightarrow> shift_count (int m) = m"
  by (simp add: shift_count_def)

lemma bit_of_nat_high:
  assumes "r < 2 ^ m" "m < 32"
  shows "\<not> bit (of_nat r :: 32 word) m" "bit (of_nat (2 ^ m + r) :: 32 word) m"
proof -
  have "r div 2 ^ m = 0" "(2 ^ m + r) div 2 ^ m = 1" using assms(1) by simp_all
  then show "\<not> bit (of_nat r :: 32 word) m" "bit (of_nat (2 ^ m + r) :: 32 word) m"
    using assms(2) unfolding bit_of_nat_iff by (simp_all add: bit_iff_odd)
qed

lemma reverse_loop_brev:
  assumes "m < 31" "Suc k < 2 ^ Suc m"
  shows "reverse_loop (of_nat (brev (Suc m) k)) (int m) = of_nat (brev (Suc m) (Suc k))"
  using assms
proof (induction m arbitrary: k)
  case 0
  then have k: "k = 0" by simp
  show ?case unfolding k by (subst reverse_loop.simps) (simp add: shift_count_def)
next
  case (Suc m)
  let ?m = "Suc m"
  note r = brev_less [of ?m "k div 2"]
  have sc: "shift_count (int ?m) = ?m" using Suc.prems(1) by (intro shift_count_nat) simp
  show ?case
  proof (cases "even k")
    case True
    then have b: "brev (Suc ?m) k = brev ?m (k div 2)" "brev (Suc ?m) (Suc k) = 2 ^ ?m + brev ?m (k div 2)"
      by (simp_all add: mod_Suc)
    have "\<not> bit (of_nat (brev ?m (k div 2)) :: 32 word) ?m" using bit_of_nat_high(1) [OF r] Suc.prems(1) by simp
    then show ?thesis unfolding b by (subst reverse_loop.simps) (simp add: sc del: brev.simps of_nat_Suc)
  next
    case False
    then have b: "brev (Suc ?m) k = 2 ^ ?m + brev ?m (k div 2)" "brev (Suc ?m) (Suc k) = brev ?m (Suc (k div 2))"
      by (simp_all add: odd_iff_mod_2_eq_one)
    have diff: "int (Suc m) - 1 = int m" by simp
    let ?w = "of_nat (2 ^ ?m + brev ?m (k div 2)) :: 32 word"
    have "bit ?w ?m" using bit_of_nat_high(2) [OF r] Suc.prems(1) by simp
    moreover from this have "?w AND NOT (push_bit ?m 1) = of_nat (brev ?m (k div 2))"
      using unset_bit_eq [of ?m ?w] by (simp add: unset_bit_eq_and_not)
    ultimately have "reverse_loop ?w (int ?m) = reverse_loop (of_nat (brev ?m (k div 2))) (int m)"
      by (subst reverse_loop.simps) (simp add: sc diff del: brev.simps of_nat_Suc)
    also have "\<dots> = of_nat (brev ?m (Suc (k div 2)))"
    proof (rule Suc.IH)
      show "m < 31" using Suc.prems(1) by simp
      show "Suc (k div 2) < 2 ^ Suc m" using Suc.prems(2) False by (auto elim!: oddE)
    qed
    finally show ?thesis unfolding b .
  qed
qed

lemma reverse_add_brev:
  assumes "2 \<le> p" "p \<le> 32" "Suc k < 2 ^ (p - 1)"
  shows "reverse_add p (of_nat (brev (p - 1) k)) = of_nat (brev (p - 1) (Suc k))"
proof -
  obtain m where p: "p = m + 2" using assms(1) by (metis add.commute le_Suc_ex)
  then show ?thesis using reverse_loop_brev [of m k] assms(2,3) by (simp add: reverse_add_def del: brev.simps)
qed

lemma unat_brev:
  assumes "p \<le> 32"
  shows "unat (of_nat (brev (p - 1) k) :: 32 word) = brev (p - 1) k"
proof -
  have "brev (p - 1) k < 2 ^ (p - 1)" by (rule brev_less)
  also have "\<dots> \<le> 2 ^ 32" using assms by (intro power_increasing) simp_all
  finally show ?thesis by (simp add: unat_of_nat take_bit_nat_eq_self)
qed

section \<open>The first pass\<close>

text \<open>The pairs of the coefficients \<open>brev k\<close> and \<open>brev k + step\<close>.\<close>

definition first_pair :: "nat \<Rightarrow> 'a::field list \<Rightarrow> nat \<Rightarrow> 'a" where
  "first_pair p c i = (let b = brev (p - 1) (i div 2) in
     if even i then c ! b + c ! (b + 2 ^ (p - 1)) else c ! b - c ! (b + 2 ^ (p - 1)))"

lemma fold_upt_invariant:
  assumes "I 0 s" "\<And>m s. m < n \<Longrightarrow> I m s \<Longrightarrow> I (Suc m) (f m s)"
  shows "I n (fold f [0..<n] s)"
  using assms by (induction n) simp_all

lemma less_double_cases: "i < 2 * Suc m \<Longrightarrow> i < 2 * m \<or> i = 2 * m \<or> i = Suc (2 * m)"
  by presburger

lemma preserve_pass_nth:
  assumes p: "2 \<le> p" "p \<le> 32" and i: "i < 2 ^ p"
  shows "length (preserve_pass p c) = 2 ^ p \<and> preserve_pass p c ! i = first_pair p c i"
proof -
  let ?step = "2 ^ (p - 1) :: nat"
  have N: "2 * ?step = 2 ^ p" using p(1) by (cases p) simp_all
  let ?I = "\<lambda>m (out, base :: 32 word). length out = 2 ^ p \<and> (m < ?step \<longrightarrow> base = of_nat (brev (p - 1) m))
      \<and> (\<forall>i < 2 * m. out ! i = first_pair p c i)"
  let ?f = "\<lambda>k (out, base). let k_d = 2 * k; b = unat base;
         out = out[k_d := c ! b + c ! (b + ?step)];
         out = out[k_d + 1 := c ! b - c ! (b + ?step)] in (out, reverse_add p base)"
  have "?I ?step (fold ?f [0..<?step] (replicate (2 ^ p) 0, 0))"
  proof (rule fold_upt_invariant [where I = ?I])
    show "?I 0 (replicate (2 ^ p) 0, 0)" by simp
  next
    fix m s
    assume m: "m < ?step" and I: "?I m s"
    obtain out base where s: "s = (out, base)" by fastforce
    have base: "base = of_nat (brev (p - 1) m)" "unat base = brev (p - 1) m"
      using I s m unat_brev [OF p(2)] by simp_all
    have len: "length out = 2 ^ p" "Suc (2 * m) < 2 ^ p" using I s m N by auto
    have "Suc m < ?step \<Longrightarrow> reverse_add p base = of_nat (brev (p - 1) (Suc m))"
      using reverse_add_brev [OF p] base(1) by simp
    moreover have "i < 2 * Suc m \<Longrightarrow> out[2 * m := c ! brev (p - 1) m + c ! (brev (p - 1) m + ?step),
        Suc (2 * m) := c ! brev (p - 1) m - c ! (brev (p - 1) m + ?step)] ! i = first_pair p c i" for i
      using I s len by (auto dest!: less_double_cases simp: first_pair_def nth_list_update Let_def)
    ultimately show "?I (Suc m) (?f m s)"
      using len by (simp add: s base(2) Let_def)
  qed
  then show ?thesis using N i by (auto simp: preserve_pass_def Let_def split: prod.splits)
qed

lemma dft_pass_nth:
  assumes p: "2 \<le> p" "p \<le> 32" and c: "2 ^ p \<le> length c" and i: "i < length c"
  shows "length (dft_pass p c) = length c \<and> dft_pass p c ! i = (if i < 2 ^ p then first_pair p c i else c ! i)"
proof -
  let ?step = "2 ^ (p - 1) :: nat"
  have N: "2 * ?step = 2 ^ p" using p(1) by (cases p) simp_all
  let ?I = "\<lambda>m (cs, scratch, base :: 32 word). length cs = length c \<and> length scratch = 2 ^ p
      \<and> (m < ?step \<longrightarrow> base = of_nat (brev (p - 1) m))
      \<and> (\<forall>i < length c. cs ! i = (if i < 2 * m then first_pair p c i else c ! i)) \<and> (\<forall>i < 2 * m. scratch ! i = c ! i)"
  let ?f = "\<lambda>k (c, scratch, base). let k_d = 2 * k; b = unat base;
         scratch = scratch[k_d := c ! k_d]; scratch = scratch[k_d + 1 := c ! (k_d + 1)];
         c = (if b + ?step \<le> k_d then
                let c = c[k_d := scratch ! b + scratch ! (b + ?step)] in
                c[k_d + 1 := scratch ! b - scratch ! (b + ?step)]
              else if b \<le> k_d then
                let c = c[k_d := scratch ! b + c ! (b + ?step)] in
                c[k_d + 1 := scratch ! b - c ! (b + ?step)]
              else
                let c = c[k_d := c ! b + c ! (b + ?step)] in
                c[k_d + 1 := c ! b - c ! (b + ?step)]) in
         (c, scratch, reverse_add p base)"
  have "?I ?step (fold ?f [0..<?step] (c, replicate (2 ^ p) 0, 0))"
  proof (rule fold_upt_invariant [where I = ?I])
    show "?I 0 (c, replicate (2 ^ p) 0, 0)" by simp
  next
    fix m s
    assume m: "m < ?step" and I: "?I m s"
    obtain cs scratch base where s: "s = (cs, scratch, base)" by (cases s) auto
    let ?b = "brev (p - 1) m"
    have base: "base = of_nat ?b" "unat base = ?b"
      using I s m unat_brev [OF p(2)] by simp_all
    have b: "?b < ?step" by (rule brev_less)
    have len: "length cs = length c" "length scratch = 2 ^ p" "Suc (2 * m) < 2 ^ p" using I s m N by auto
    have lt: "Suc (2 * m) < length c" "?b + ?step < length c" "?b < length c" using len(3) b N c by linarith+
    have cs: "cs ! j = (if j < 2 * m then first_pair p c j else c ! j)" if "j < length c" for j
      using I s that by simp
    let ?scratch = "scratch[2 * m := cs ! (2 * m), Suc (2 * m) := cs ! Suc (2 * m)]"
    have sc: "?scratch ! j = c ! j" if "j < 2 * Suc m" for j
      using less_double_cases [OF that] I s len cs [of "2 * m"] cs [of "Suc (2 * m)"] lt by (auto simp: nth_list_update)
    have next_base: "Suc m < ?step \<Longrightarrow> reverse_add p base = of_nat (brev (p - 1) (Suc m))"
      using reverse_add_brev [OF p] base(1) by simp
    let ?cs = "cs[2 * m := c ! ?b + c ! (?b + ?step), Suc (2 * m) := c ! ?b - c ! (?b + ?step)]"
    have "?f m s = (?cs, ?scratch, reverse_add p base)"
    proof -
      consider "?b + ?step \<le> 2 * m" | "2 * m < ?b + ?step" "?b \<le> 2 * m" | "2 * m < ?b" by linarith
      then show ?thesis
      proof cases
        case 1
        then show ?thesis using sc [of ?b] sc [of "?b + ?step"] by (simp add: s base(2) Let_def)
      next
        case 2
        then have "cs ! (?b + ?step) = c ! (?b + ?step)" using cs [of "?b + ?step"] lt(2) by simp
        with 2 sc [of ?b] show ?thesis by (simp add: s base(2) Let_def)
      next
        case 3
        then have "cs ! (?b + ?step) = c ! (?b + ?step)" "cs ! ?b = c ! ?b"
          using cs [of "?b + ?step"] cs [of ?b] lt by simp_all
        with 3 show ?thesis by (simp add: s base(2) Let_def)
      qed
    qed
    moreover have "?cs ! j = (if j < 2 * Suc m then first_pair p c j else c ! j)" if j: "j < length c" for j
    proof -
      consider "j < 2 * m" | "j = 2 * m" | "j = Suc (2 * m)" | "2 * Suc m \<le> j"
        using less_double_cases [of j m] not_less by blast
      then show ?thesis using cs [OF j] len j by cases (simp_all add: first_pair_def Let_def)
    qed
    ultimately show "?I (Suc m) (?f m s)" using len sc next_base by simp
  qed
  moreover have "dft_pass p c = fst (fold ?f [0..<?step] (c, replicate (2 ^ p) 0, 0))"
    by (simp only: dft_pass_def Let_def)
  moreover obtain cs scratch base where "fold ?f [0..<?step] (c, replicate (2 ^ p) 0, 0) = (cs, scratch, base)"
    by (rule prod_cases3)
  ultimately show ?thesis using N i by simp
qed

section \<open>The passes over the blocks\<close>

lemma block_eq:
  assumes "r < (s :: nat)" "k < s"
  shows "r + s * b' = k + s * b \<longleftrightarrow> r = k \<and> b' = b"
proof
  assume e: "r + s * b' = k + s * b"
  have "r = (r + s * b') mod s" "k = (k + s * b) mod s" using assms by simp_all
  with e have "r = k" by simp
  with e assms show "r = k \<and> b' = b" by simp
qed simp

lemma butterfly_nth:
  fixes c :: "'a::field list" and i :: nat
  defines "s \<equiv> 2 ^ i"
  assumes "k < s" "b \<le> B" "2 * s * B \<le> length c"
  shows "length (butterfly (2 * s * B) i f (k + 2 * s * b) c) = length c
    \<and> (\<forall>r < 2 * s. \<forall>b' < B. butterfly (2 * s * B) i f (k + 2 * s * b) c ! (r + 2 * s * b') =
      (if b \<le> b' \<and> r = k then c ! (r + 2 * s * b') + f * c ! (r + s + 2 * s * b')
       else if b \<le> b' \<and> r = k + s then c ! (k + 2 * s * b') - f * c ! (r + 2 * s * b')
       else c ! (r + 2 * s * b')))"
  using assms(2-4)
proof (induction "B - b" arbitrary: b c)
  case 0
  then have b: "b = B" by simp
  show ?case unfolding b by (subst (1 2) butterfly.simps) simp
next
  case (Suc d)
  let ?n = "2 * s * B" and ?base = "k + 2 * s * b"
  have "b < B" using Suc.hyps(2) by simp
  then have "2 * s * Suc b \<le> ?n" by (intro mult_left_mono) simp_all
  then have n: "?base + s < ?n" "?base < ?n" using Suc.prems(1) by simp_all
  let ?y = "f * c ! (?base + s)"
  let ?c = "c[?base + s := c ! ?base - ?y, ?base := c ! ?base + ?y]"
  have step: "butterfly ?n i f ?base c = butterfly ?n i f (k + 2 * s * Suc b) ?c"
    using n Suc.prems by (subst butterfly.simps) (simp add: Let_def algebra_simps s_def)
  have IH: "length (butterfly ?n i f (k + 2 * s * Suc b) ?c) = length ?c
    \<and> (\<forall>r < 2 * s. \<forall>b' < B. butterfly ?n i f (k + 2 * s * Suc b) ?c ! (r + 2 * s * b') =
      (if Suc b \<le> b' \<and> r = k then ?c ! (r + 2 * s * b') + f * ?c ! (r + s + 2 * s * b')
       else if Suc b \<le> b' \<and> r = k + s then ?c ! (k + 2 * s * b') - f * ?c ! (r + 2 * s * b')
       else ?c ! (r + 2 * s * b')))"
    using Suc \<open>b < B\<close> by (intro Suc.hyps(1)) simp_all
  have eq: "?c ! (r + 2 * s * b') = (if b' = b \<and> r = k then c ! ?base + ?y else if b' = b \<and> r = k + s then c ! ?base - ?y
      else c ! (r + 2 * s * b'))" if "r < 2 * s" "b' < B" for r b'
  proof -
    have "2 * s * Suc b' \<le> ?n" using that(2) by (intro mult_left_mono) simp_all
    then have x: "r + 2 * s * b' < length c" using that(1) Suc.prems(3) by simp
    have e1: "r + 2 * s * b' = ?base \<longleftrightarrow> r = k \<and> b' = b" using block_eq [OF that(1), of k b' b] Suc.prems(1) by simp
    have e2: "r + 2 * s * b' = ?base + s \<longleftrightarrow> r = k + s \<and> b' = b"
      using block_eq [OF that(1), of "k + s" b' b] Suc.prems(1) by (simp add: ac_simps)
    have "?c ! (r + 2 * s * b') = (if r + 2 * s * b' = ?base then c ! ?base + ?y
        else if r + 2 * s * b' = ?base + s then c ! ?base - ?y else c ! (r + 2 * s * b'))"
    proof -
      have "?base + s < length c" "?base < length c" using n Suc.prems(3) by simp_all
      then show ?thesis by (simp add: nth_list_update eq_commute [of ?base] eq_commute [of "?base + s"])
    qed
    then show ?thesis unfolding e1 e2 by (simp only: conj_commute)
  qed
  show ?case
    unfolding step
  proof (intro conjI allI impI)
    show "length (butterfly ?n i f (k + 2 * s * Suc b) ?c) = length c" using IH by simp
    fix r b'
    assume r: "r < 2 * s" and b': "b' < B"
    show "butterfly ?n i f (k + 2 * s * Suc b) ?c ! (r + 2 * s * b') =
      (if b \<le> b' \<and> r = k then c ! (r + 2 * s * b') + f * c ! (r + s + 2 * s * b')
       else if b \<le> b' \<and> r = k + s then c ! (k + 2 * s * b') - f * c ! (r + 2 * s * b')
       else c ! (r + 2 * s * b'))"
    proof (cases "b' = b")
      case True
      have idx: "c ! (k + s + 2 * s * b) = c ! (?base + s)" by (simp add: ac_simps)
      have "butterfly ?n i f (k + 2 * s * Suc b) ?c ! (r + 2 * s * b') = ?c ! (r + 2 * s * b')"
        using IH [THEN conjunct2, rule_format, OF r b'] True by (simp del: mult_Suc_right)
      then show ?thesis unfolding eq [OF r b'] using True idx by simp
    next
      case False
      have le: "Suc b \<le> b' \<longleftrightarrow> b \<le> b'" using False by auto
      have same: "?c ! (z + 2 * s * b') = c ! (z + 2 * s * b')" if "z < 2 * s" for z
        using eq [OF that b'] False by simp
      have ks: "k < 2 * s" "k + s < 2 * s" using Suc.prems(1) by simp_all
      show ?thesis
        unfolding IH [THEN conjunct2, rule_format, OF r b'] le same [OF r] same [OF ks(1)]
        using same [OF ks(2)] by simp
    qed
  qed
qed

text \<open>One stage: the blocks of \<open>2 s\<close> values are combined from two blocks of \<open>s\<close> values.\<close>

lemma dft_stage_nth:
  fixes c :: "'a::field list" and i p :: nat and gen :: 'a
  defines "s \<equiv> 2 ^ i" and "w \<equiv> gen ^ (2 ^ p div 2 ^ (i + 1))"
  assumes i: "i < p" and c: "2 ^ p \<le> length c"
  shows "length (dft_stage gen p i c) = length c
    \<and> (\<forall>r < s. \<forall>b < 2 ^ (p - Suc i).
        dft_stage gen p i c ! (r + 2 * s * b) = c ! (r + 2 * s * b) + w ^ r * c ! (r + s + 2 * s * b)
      \<and> dft_stage gen p i c ! (r + s + 2 * s * b) = c ! (r + 2 * s * b) - w ^ r * c ! (r + s + 2 * s * b))"
proof -
  let ?B = "2 ^ (p - Suc i) :: nat"
  have n: "2 ^ p = 2 * s * ?B" using i by (simp add: s_def flip: power_Suc power_add)
  let ?I = "\<lambda>m (cs, factor). length cs = length c \<and> factor = w ^ m
    \<and> (\<forall>r < s. \<forall>b < ?B. cs ! (r + 2 * s * b) = (if r < m then c ! (r + 2 * s * b) + w ^ r * c ! (r + s + 2 * s * b) else c ! (r + 2 * s * b))
       \<and> cs ! (r + s + 2 * s * b) = (if r < m then c ! (r + 2 * s * b) - w ^ r * c ! (r + s + 2 * s * b) else c ! (r + s + 2 * s * b)))"
  let ?f = "\<lambda>k (c, factor). (butterfly (2 ^ p) i factor k c, factor * w)"
  have "?I s (fold ?f [0..<s] (c, 1))"
  proof (rule fold_upt_invariant [where I = ?I])
    show "?I 0 (c, 1)" by simp
  next
    fix m st
    assume m: "m < s" and I: "?I m st"
    obtain cs where st: "st = (cs, w ^ m)" and len: "length cs = length c"
      and at: "\<And>r b. r < s \<Longrightarrow> b < ?B \<Longrightarrow>
         cs ! (r + 2 * s * b) = (if r < m then c ! (r + 2 * s * b) + w ^ r * c ! (r + s + 2 * s * b) else c ! (r + 2 * s * b))
       \<and> cs ! (r + s + 2 * s * b) = (if r < m then c ! (r + 2 * s * b) - w ^ r * c ! (r + s + 2 * s * b) else c ! (r + s + 2 * s * b))"
      using I by (cases st) auto
    let ?cs = "butterfly (2 ^ p) i (w ^ m) m cs"
    have B: "length ?cs = length cs \<and> (\<forall>r < 2 * s. \<forall>b' < ?B. ?cs ! (r + 2 * s * b') =
      (if r = m then cs ! (r + 2 * s * b') + w ^ m * cs ! (r + s + 2 * s * b')
       else if r = m + s then cs ! (m + 2 * s * b') - w ^ m * cs ! (r + 2 * s * b')
       else cs ! (r + 2 * s * b')))"
      using butterfly_nth [of m i 0 ?B cs "w ^ m"] m c len n by (simp add: s_def)
    have "?cs ! (r + 2 * s * b) = (if r < Suc m then c ! (r + 2 * s * b) + w ^ r * c ! (r + s + 2 * s * b) else c ! (r + 2 * s * b))
       \<and> ?cs ! (r + s + 2 * s * b) = (if r < Suc m then c ! (r + 2 * s * b) - w ^ r * c ! (r + s + 2 * s * b) else c ! (r + s + 2 * s * b))"
      if r: "r < s" and b: "b < ?B" for r b
    proof -
      have r2: "r < 2 * s" "r + s < 2 * s" using r by simp_all
      note B1 = B [THEN conjunct2, rule_format, OF r2(1) b] and B2 = B [THEN conjunct2, rule_format, OF r2(2) b]
      consider "r < m" | "r = m" | "m < r" by linarith
      then show ?thesis
        unfolding B1 B2 using at [OF r b] at [OF m b] m r by cases simp_all
    qed
    then show "?I (Suc m) (?f m st)" using B len by (simp add: st mult.commute)
  qed
  moreover have "dft_stage gen p i c = fst (fold ?f [0..<s] (c, 1))"
    by (simp only: dft_stage_def Let_def w_def s_def)
  moreover obtain cs factor where "fold ?f [0..<s] (c, 1) = (cs, factor)" by fastforce
  ultimately show ?thesis by simp
qed

section \<open>The transform is evaluation at the roots of unity\<close>

lemma sum_even_odd: "(\<Sum>m < 2 * n. f m) = (\<Sum>m < n. f (2 * m)) + (\<Sum>m < n. f (Suc (2 * m)))" for f :: "nat \<Rightarrow> 'b::comm_monoid_add"
  by (induction n) (simp_all add: ac_simps)

definition part_sum :: "nat \<Rightarrow> 'a::field list \<Rightarrow> 'a \<Rightarrow> nat \<Rightarrow> nat \<Rightarrow> nat \<Rightarrow> 'a" where
  "part_sum p c gen i k b = (\<Sum>m < 2 ^ i. c ! (brev (p - i) b + 2 ^ (p - i) * m) * (gen ^ 2 ^ (p - i)) ^ (k * m))"

definition blocks :: "nat \<Rightarrow> 'a::field list \<Rightarrow> 'a \<Rightarrow> nat \<Rightarrow> 'a list \<Rightarrow> bool" where
  "blocks p c gen i cs \<longleftrightarrow> 2 ^ p \<le> length cs \<and> (\<forall>b < 2 ^ (p - i). \<forall>k < 2 ^ i. cs ! (k + 2 ^ i * b) = part_sum p c gen i k b)"

lemma part_sum_step:
  fixes c :: "'a::field list" and gen :: 'a
  assumes i: "i < p" and g: "gen ^ 2 ^ (p - 1) = - 1"
  defines "w \<equiv> gen ^ 2 ^ (p - Suc i)"
  shows "part_sum p c gen (Suc i) k b = part_sum p c gen i k (2 * b) + w ^ k * part_sum p c gen i k (Suc (2 * b))"
    "part_sum p c gen (Suc i) (k + 2 ^ i) b = part_sum p c gen i k (2 * b) - w ^ k * part_sum p c gen i k (Suc (2 * b))"
proof -
  let ?q = "p - Suc i" and ?S = "2 ^ i :: nat"
  have q: "p - i = Suc ?q" using i by simp
  have w2: "gen ^ 2 ^ Suc ?q = w ^ 2" by (simp add: w_def mult.commute flip: power_mult)
  have "2 ^ ?q * ?S = (2 :: nat) ^ (p - 1)" using i by (simp flip: power_add)
  then have wS: "w ^ ?S = - 1" using g by (simp add: w_def flip: power_mult)
  have split: "part_sum p c gen (Suc i) j b = (\<Sum>m < ?S. c ! (brev ?q b + 2 ^ ?q * (2 * m)) * w ^ (j * (2 * m)))
      + (\<Sum>m < ?S. c ! (brev ?q b + 2 ^ ?q * Suc (2 * m)) * w ^ (j * Suc (2 * m)))" for j
    by (simp only: part_sum_def power_Suc sum_even_odd w_def)
  have even: "part_sum p c gen i k (2 * b) = (\<Sum>m < ?S. c ! (brev ?q b + 2 ^ ?q * (2 * m)) * w ^ (k * (2 * m)))"
    unfolding part_sum_def q w2 brev_double by (intro sum.cong) (simp_all add: ac_simps flip: power_mult)
  have odd: "w ^ k * part_sum p c gen i k (Suc (2 * b)) = (\<Sum>m < ?S. c ! (brev ?q b + 2 ^ ?q * Suc (2 * m)) * w ^ (k * Suc (2 * m)))"
    unfolding part_sum_def q w2 brev_double sum_distrib_left
  proof (intro sum.cong refl)
    fix m
    have e1: "2 ^ ?q + brev ?q b + 2 ^ Suc ?q * m = brev ?q b + 2 ^ ?q * Suc (2 * m)" by simp
    have e2: "w ^ (k * Suc (2 * m)) = w ^ k * (w\<^sup>2) ^ (k * m)"
      by (simp add: power_add ac_simps flip: power_mult)
    show "w ^ k * (c ! (2 ^ ?q + brev ?q b + 2 ^ Suc ?q * m) * (w\<^sup>2) ^ (k * m))
        = c ! (brev ?q b + 2 ^ ?q * Suc (2 * m)) * w ^ (k * Suc (2 * m))"
      unfolding e1 e2 by (rule mult.left_commute)
  qed
  show "part_sum p c gen (Suc i) k b = part_sum p c gen i k (2 * b) + w ^ k * part_sum p c gen i k (Suc (2 * b))"
    unfolding split even odd ..
  have pe: "w ^ ((k + ?S) * (2 * m)) = w ^ (k * (2 * m))" for m
    by (simp add: power_add distrib_right power_mult wS)
  have po: "w ^ ((k + ?S) * Suc (2 * m)) = - (w ^ (k * Suc (2 * m)))" for m
  proof -
    have "w ^ ((k + ?S) * Suc (2 * m)) = w ^ (k * Suc (2 * m)) * (w ^ ?S) ^ Suc (2 * m)"
      by (simp only: distrib_right power_add power_mult)
    then show ?thesis by (simp add: wS power_mult)
  qed
  show "part_sum p c gen (Suc i) (k + 2 ^ i) b = part_sum p c gen i k (2 * b) - w ^ k * part_sum p c gen i k (Suc (2 * b))"
    unfolding split even odd pe po by (simp add: sum_negf)
qed

lemma blocks_stage:
  assumes i: "i < p" and g: "gen ^ 2 ^ (p - 1) = - 1" and B: "blocks p c gen i cs"
  shows "blocks p c gen (Suc i) (dft_stage gen p i cs) \<and> length (dft_stage gen p i cs) = length cs"
proof -
  let ?s = "2 ^ i :: nat"
  have len: "2 ^ p \<le> length cs" using B by (simp add: blocks_def)
  have "(2 :: nat) ^ p div 2 ^ (i + 1) = 2 ^ (p - Suc i)" using i by (simp add: power_diff flip: power_Suc)
  note D = dft_stage_nth [OF i len, of gen, unfolded this]
  have q: "2 ^ (p - i) = 2 * (2 :: nat) ^ (p - Suc i)" using i by (simp add: Suc_diff_Suc flip: power_Suc)
  have at: "cs ! (k + ?s * b) = part_sum p c gen i k b" if "b < 2 * 2 ^ (p - Suc i)" "k < ?s" for k b
    using B that unfolding blocks_def q by blast
  have "dft_stage gen p i cs ! (k + 2 * ?s * b) = part_sum p c gen (Suc i) k b" if b: "b < 2 ^ (p - Suc i)" and k: "k < 2 * ?s" for k b
  proof (cases "k < ?s")
    case True
    have "cs ! (k + 2 * ?s * b) = part_sum p c gen i k (2 * b)" "cs ! (k + ?s + 2 * ?s * b) = part_sum p c gen i k (Suc (2 * b))"
      using at [of "2 * b" k] at [of "Suc (2 * b)" k] True b by (simp_all add: ac_simps)
    then show ?thesis using D b True unfolding part_sum_step(1) [OF i g] by simp
  next
    case False
    then obtain k' where k': "k = k' + ?s" "k' < ?s" using k by (metis add.commute le_Suc_ex not_less add_less_cancel_left mult_2)
    have "cs ! (k' + 2 * ?s * b) = part_sum p c gen i k' (2 * b)" "cs ! (k' + ?s + 2 * ?s * b) = part_sum p c gen i k' (Suc (2 * b))"
      using at [of "2 * b" k'] at [of "Suc (2 * b)" k'] k'(2) b by (simp_all add: ac_simps)
    then show ?thesis using D b k'(2) unfolding k'(1) part_sum_step(2) [OF i g] by simp
  qed
  then show ?thesis using D len by (simp add: blocks_def)
qed

lemma dft_stages_blocks:
  assumes p: "1 \<le> p" and g: "gen ^ 2 ^ (p - 1) = - 1" and B: "blocks p c gen 1 cs"
  shows "blocks p c gen p (dft_stages gen p cs) \<and> length (dft_stages gen p cs) = length cs"
proof -
  have "blocks p c gen (Suc n) (fold (dft_stage gen p) [1..<Suc n] cs) \<and> length (fold (dft_stage gen p) [1..<Suc n] cs) = length cs"
    if "n < p" for n
    using that
  proof (induction n)
    case (Suc n)
    then show ?case using blocks_stage [OF Suc.prems g, of c "fold (dft_stage gen p) [1..<Suc n] cs"] by simp
  qed (use B in simp)
  from this [of "p - 1"] p show ?thesis by (simp add: dft_stages_def)
qed

lemma first_pair_part_sum:
  assumes "gen ^ 2 ^ (p - 1) = - 1" "k < 2"
  shows "first_pair p c (k + 2 * b) = part_sum p c gen 1 k b"
proof -
  have two: "{..<2 ^ 1} = {0, 1 :: nat}" by auto
  have ps: "part_sum p c gen 1 k b = c ! brev (p - 1) b + c ! (brev (p - 1) b + 2 ^ (p - 1)) * (- 1) ^ k"
    unfolding part_sum_def two assms(1) by simp
  have "k = 0 \<or> k = 1" using assms(2) by linarith
  then show ?thesis
  proof
    assume "k = 0"
    then show ?thesis unfolding ps first_pair_def Let_def by simp
  next
    assume "k = 1"
    then show ?thesis unfolding ps first_pair_def Let_def by simp
  qed
qed

lemma part_sum_peval:
  assumes "length c = 2 ^ p"
  shows "part_sum p c gen p k 0 = peval c (gen ^ k)"
  using assms by (simp add: part_sum_def peval_sum flip: power_mult)

lemma dft_evaluates:
  assumes p: "p \<le> 32" and g: "0 < p \<Longrightarrow> gen ^ 2 ^ (p - 1) = - 1" and c: "length c = 2 ^ p"
  shows "dft gen p c = Inr (map (\<lambda>k. peval c (gen ^ k)) [0..<2 ^ p])"
    "preserve_dft gen p c = Inr (map (\<lambda>k. peval c (gen ^ k)) [0..<2 ^ p])"
proof -
  have big: "dft_stages gen p cs = map (\<lambda>k. peval c (gen ^ k)) [0..<2 ^ p]"
    if p2: "2 \<le> p" and cs: "length cs = 2 ^ p" "\<And>i. i < 2 ^ p \<Longrightarrow> cs ! i = first_pair p c i" for cs
  proof -
    have "blocks p c gen 1 cs"
      unfolding blocks_def
    proof (intro conjI allI impI)
      fix b k :: nat
      assume b: "b < 2 ^ (p - 1)" and k: "k < 2 ^ 1"
      have "k + 2 * b < 2 * Suc b" using k by simp
      also have "\<dots> \<le> 2 * 2 ^ (p - 1)" using b by simp
      also have "\<dots> = 2 ^ p" using p2 by (simp flip: power_Suc)
      finally show "cs ! (k + 2 ^ 1 * b) = part_sum p c gen 1 k b"
        using cs(2) first_pair_part_sum [of gen p k c b] g p2 k by simp
    qed (use cs in simp)
    from dft_stages_blocks [OF _ g this] p2 have "blocks p c gen p (dft_stages gen p cs)" "length (dft_stages gen p cs) = 2 ^ p"
      using cs(1) by simp_all
    then show ?thesis using part_sum_peval [OF c] by (intro nth_equalityI) (simp_all add: blocks_def)
  qed
  consider "p = 0" | "p = 1" | "2 \<le> p" by linarith
  then have "dft gen p c = Inr (map (\<lambda>k. peval c (gen ^ k)) [0..<2 ^ p])
    \<and> preserve_dft gen p c = Inr (map (\<lambda>k. peval c (gen ^ k)) [0..<2 ^ p])"
  proof cases
    case 1
    then show ?thesis using c by (cases c) (simp_all add: dft_def preserve_dft_def)
  next
    case 2
    then obtain a b where "c = [a, b]" using c by (cases c; cases "tl c") auto
    then show ?thesis using 2 g by (simp add: dft_def preserve_dft_def numeral_2_eq_2)
  next
    case 3
    have "length (dft_pass p c) = 2 ^ p" "\<And>i. i < 2 ^ p \<Longrightarrow> dft_pass p c ! i = first_pair p c i"
      using dft_pass_nth [OF 3 p, of c 0] dft_pass_nth [OF 3 p, of c] c by simp_all
    moreover have "length (preserve_pass p c) = 2 ^ p" "\<And>i. i < 2 ^ p \<Longrightarrow> preserve_pass p c ! i = first_pair p c i"
      using preserve_pass_nth [OF 3 p, of _ c] by force+
    ultimately show ?thesis using 3 c big by (simp add: dft_def preserve_dft_def)
  qed
  then show "dft gen p c = Inr (map (\<lambda>k. peval c (gen ^ k)) [0..<2 ^ p])"
    "preserve_dft gen p c = Inr (map (\<lambda>k. peval c (gen ^ k)) [0..<2 ^ p])" by simp_all
qed

end
