(* ===== verification/OptPSS.thy ===== *)
theory OptPSS
  imports DFT Packed
begin

text \<open>
  \<open>OptimizedPSS\<close> of \<open>packed-ss-template/PackedSS.hpp\<close>: packed secret sharing by transforms in the field
  of \<open>3193032821761\<close> elements. The secrets sit at the first \<open>l\<close> roots of unity in the order of \<open>roots\<close>,
  the shares at the next \<open>n\<close>. Interpolation multiplies a truncated power series, which a transform
  computes, with the polynomial that vanishes at the points. Output to \<open>cout\<close> is left out. An
  \<open>int\<close> is an integer: the constructor bounds the sizes by \<open>2^10\<close>.
\<close>

section \<open>State and access\<close>

record 'a pss =
  psL :: int
  psD :: int
  psN :: int
  psNearestPow :: nat
  psGenerator :: 'a
  psRoots :: "'a list"
  psARecover :: "'a list"
  psAShare :: "'a list"
  psAPtsRecover :: "'a list"
  psAPtsShare :: "'a list"
  psSecrets :: "'a list"

text \<open>Indices are \<open>int\<close>s; a negative one is outside of the vector.\<close>

definition vgetI :: "'a list \<Rightarrow> int \<Rightarrow> 'a res" where
  "vgetI xs i = (if i < 0 then Inl Undefined else vget xs (nat i))"

definition vsetI :: "'a list \<Rightarrow> int \<Rightarrow> 'a \<Rightarrow> 'a list res" where
  "vsetI xs i x = (if i < 0 then Inl Undefined else vset xs (nat i) x)"

definition vat :: "'a list \<Rightarrow> int \<Rightarrow> 'a res" where
  "vat xs i = (if 0 \<le> i \<and> nat i < length xs then Inr (xs ! nat i) else Inl (Logic_error ''vector::_M_range_check''))"

definition erase_from :: "'a list \<Rightarrow> int \<Rightarrow> 'a list res" where
  "erase_from xs i = (if 0 \<le> i \<and> nat i \<le> length xs then Inr (take (nat i) xs) else Inl Undefined)"

text \<open>\<open>TemplateField::GetElement\<close> for \<open>ZZ_p\<close>, and NTL's \<open>inv\<close>.\<close>

definition GetElement :: "int \<Rightarrow> 'a::field" where
  "GetElement b = (if b = 1 then 1 else if b = 0 then 0 else of_int b)"

definition zz_inv :: "'a::field \<Rightarrow> 'a res" where
  "zz_inv x = (if x = 0 then Inl (Logic_error ''InvMod: inverse undefined'') else Inr (inverse x))"

definition pss_secret :: "'a pss \<Rightarrow> int \<Rightarrow> 'a res" where
  "pss_secret s idx =
     throw_if (psL s \<le> idx) (Invalid_argument ''Trying to access a secret value outsid of pack range'') (
     throw_if (idx < 0 \<or> int (length (psSecrets s)) \<le> idx)
       (Invalid_argument ''Secret values not large enough!! Can't call this function :('') (
     vgetI (psSecrets s) idx))"

definition generateRandomSecrets :: "('g \<Rightarrow> 'a \<times> 'g) \<Rightarrow> 'g \<Rightarrow> 'a pss \<Rightarrow> 'a pss \<times> 'g" where
  "generateRandomSecrets rnd prg s = fold (\<lambda>i (s, prg). let (x, prg) = rnd prg in
     (s\<lparr> psSecrets := psSecrets s @ [x] \<rparr>, prg)) [0..psL s - 1] (s, prg)"

definition generateRandomDupSecret :: "('g \<Rightarrow> 'a \<times> 'g) \<Rightarrow> 'g \<Rightarrow> 'a pss \<Rightarrow> 'a pss \<times> 'g" where
  "generateRandomDupSecret rnd prg s = (let (same_secret, prg) = rnd prg in
     (fold (\<lambda>i s. s\<lparr> psSecrets := psSecrets s @ [same_secret] \<rparr>) [0..psL s - 1] s, prg))"

definition setSecrets :: "'a list \<Rightarrow> 'a pss \<Rightarrow> 'a pss res" where
  "setSecrets lsecrets s =
     throw_if (0 \<le> psL s \<and> psL s < int (length lsecrets)) (Invalid_argument ''Can't pack more secrets than l!'')
       (Inr (s\<lparr> psSecrets := lsecrets \<rparr>))"

section \<open>Transforms of the class\<close>

definition prepareCoeffs :: "nat \<Rightarrow> 'a::zero list \<Rightarrow> 'a list" where
  "prepareCoeffs pow_u coeffs = take (2 ^ pow_u) coeffs @ replicate (2 ^ pow_u - length coeffs) 0"

definition pss_gen :: "'a::field pss \<Rightarrow> nat \<Rightarrow> 'a" where
  "pss_gen s pow_u = (if pow_u = psNearestPow s then psGenerator s else psGenerator s * psGenerator s)"

definition pss_DFT :: "'a::field pss \<Rightarrow> 'a list \<Rightarrow> nat \<Rightarrow> 'a list res" where
  "pss_DFT s coeffs pow_u = dft (pss_gen s pow_u) pow_u coeffs"

definition pss_DFT_range :: "'a::field pss \<Rightarrow> 'a list \<Rightarrow> nat \<Rightarrow> int \<Rightarrow> int \<Rightarrow> 'a list res" where
  "pss_DFT_range s coeffs pow_u start stop = bindE (pss_DFT s coeffs pow_u) (\<lambda>c. bindE (erase_from c stop) (\<lambda>c.
     if 0 \<le> start \<and> nat start \<le> length c then Inr (drop (nat start) c) else Inl Undefined))"

definition PreserveInDFT :: "'a::field pss \<Rightarrow> 'a list \<Rightarrow> nat \<Rightarrow> 'a list res" where
  "PreserveInDFT s coeffs pow_u = preserve_dft (pss_gen s pow_u) pow_u coeffs"

text \<open>\<open>1 << (pow_u - 1)\<close> is undefined for \<open>pow_u = 0\<close>.\<close>

definition InvDFT :: "'a::field pss \<Rightarrow> 'a list \<Rightarrow> nat \<Rightarrow> nat \<Rightarrow> 'a list res" where
  "InvDFT s sample_pts pow_u stop = bindE (pss_DFT s sample_pts pow_u) (\<lambda>c.
     bindE (zz_inv (GetElement (2 ^ pow_u))) (\<lambda>n_inv.
     let half = 2 ^ (pow_u - 1); idx = (\<lambda>i. (2 ^ pow_u - i) mod 2 ^ pow_u) in
     if pow_u = 0 then Inl Undefined
     else let c = (if stop < half then
         fold (\<lambda>i c. c[i := n_inv * c ! idx i]) [0..<stop] c
       else
         (let c = fold (\<lambda>i c. let save = c ! i; c = c[i := n_inv * c ! idx i] in c[idx i := n_inv * save]) [0..<half] c
          in c[half := c ! half * n_inv])) in
     erase_from c (int stop)))"

section \<open>Products of polynomials\<close>

text \<open>Both arguments are references: the product replaces the first, the second is padded and cut again.\<close>

definition polyMult :: "'a::field pss \<Rightarrow> 'a list \<Rightarrow> 'a list \<Rightarrow> ('a list \<times> 'a list) res" where
  "polyMult s a b = (let num_pts = size_sub (length a + length b) 1; total = 2 ^ psNearestPow s in
     throw_if (total < num_pts) (Invalid_argument (''polyMult:: polynomials must be 'small enough'' @ [CHR 0x27])) (
     bindE (pss_DFT s (prepareCoeffs (psNearestPow s) a) (psNearestPow s)) (\<lambda>a.
     let save_b = length b;
         b = (if length b \<noteq> total then prepareCoeffs (psNearestPow s) b else b) in
     bindE (PreserveInDFT s b (psNearestPow s)) (\<lambda>c.
     let a = fold (\<lambda>i a. a[i := a ! i * c ! i]) [0..<total] a in
     bindE (InvDFT s a (psNearestPow s) num_pts) (\<lambda>a.
     bindE (erase_from b (int save_b)) (\<lambda>b. Inr (a, b)))))))"

function multPolyList :: "'a::field pss \<Rightarrow> 'a list list \<Rightarrow> 'a list res" where
  "multPolyList s polys =
     (if length polys = 1 then Inr (polys ! 0)
      else if length polys = 2 then bindE (polyMult s (polys ! 0) (polys ! 1)) (\<lambda>(p, _). Inr p)
      else if length polys = 0 then Inl (Invalid_argument ''Ah this shouldn't happen!'')
      else let mid_pt = length polys div 2 in
        bindE (multPolyList s (take mid_pt polys)) (\<lambda>rhs_eval. bindE (multPolyList s (drop mid_pt polys)) (\<lambda>lhs_eval.
        bindE (polyMult s rhs_eval lhs_eval) (\<lambda>(p, _). Inr p))))"
  by pat_completeness auto
termination
proof (relation "measure (\<lambda>(s, polys). length polys)", goal_cases)
  case (2 s polys mid)
  then have "polys \<noteq> []" "mid = length polys div 2" by auto
  then show ?case by (simp add: min_def not_le)
next
  case (3 s polys mid p)
  then have "2 \<le> length polys" by (cases polys; cases "tl polys") auto
  then have "0 < length polys div 2" "0 < length polys" by (auto simp: div_greater_zero_iff)
  then have "length polys - length polys div 2 < length polys" by (intro diff_less)
  then show ?case using 3(4) by simp
qed simp

declare multPolyList.simps [simp del]

definition multiplyRoots :: "'a::field pss \<Rightarrow> int list \<Rightarrow> 'a list res" where
  "multiplyRoots s root_pos = bindE (mapE (\<lambda>r. bindE (vgetI (psRoots s) r) (\<lambda>x. Inr [- x, GetElement 1])) root_pos)
     (multPolyList s)"

section \<open>Interpolation\<close>

text \<open>The negated power series coefficients, at the inverse powers of the root.\<close>

definition computeN :: "'a::field pss \<Rightarrow> 'a list \<Rightarrow> nat \<Rightarrow> 'a list res" where
  "computeN s coeffs pow_u = bindE (pss_DFT s (prepareCoeffs pow_u coeffs) pow_u) (\<lambda>c.
     let D = nat (psD s + 1); half = 2 ^ (pow_u - 1); inv_idx = (\<lambda>it. (2 ^ pow_u - it - 1) mod 2 ^ pow_u) in
     if pow_u = 0 \<or> psD s + 1 < 0 \<or> 2 ^ pow_u < D then Inl Undefined
     else let c = (if half < D then
         (let need_saved = D - half; need_nothing = half - need_saved;
              c = fold (\<lambda>it c. c[it := - c ! inv_idx it]) [0..<need_nothing] c;
              (c, save_v) = fold (\<lambda>it (c, save_v).
                  let save_v = save_v[need_saved - 1 - it := c ! (need_nothing + it)] in
                  (c[need_nothing + it := - c ! inv_idx (it + need_nothing)], save_v))
                [0..<need_saved] (c, replicate need_saved 0) in
          fold (\<lambda>it c. c[half + it := - save_v ! it]) [0..<need_saved] c)
       else fold (\<lambda>it c. c[it := - c ! inv_idx it]) [0..<D] c) in
     erase_from c (psD s + 1))"

definition ptToCoeff :: "'a::field pss \<Rightarrow> 'a list \<Rightarrow> nat \<Rightarrow> bool \<Rightarrow> ('a list \<times> 'a pss) res" where
  "ptToCoeff s samplePoints pow_u is_share =
     throw_if (int (length samplePoints) \<noteq> psD s + 1) (Invalid_argument ''You need at least d+1 points to reconstruct!'') (
     bindE (if is_share then
         mapE (\<lambda>i. bindE (vgetI samplePoints i) (\<lambda>y. bindE (vgetI (psAPtsShare s) i) (\<lambda>a. Inr (y * a)))) [0..psD s]
       else
         (let half = 2 ^ (psNearestPow s - 1);
              stop = (if psL s + psD s + 1 < half then psD s + 1 else half - psL s) in
          bindE (foldE (\<lambda>i n_i. bindE (vgetI samplePoints i) (\<lambda>y. bindE (vgetI (psAPtsRecover s) i) (\<lambda>a.
              vsetI n_i (2 * (psL s + i)) (y * a)))) [0..stop - 1] (replicate (nat (2 * (psL s + stop))) 0)) (\<lambda>n_i.
          foldE (\<lambda>i n_i. bindE (vgetI samplePoints (i + stop)) (\<lambda>y. bindE (vgetI (psAPtsRecover s) (i + stop)) (\<lambda>a.
              vsetI n_i (2 * i + 1) (y * a)))) [0..psD s + 1 - stop - 1] n_i))) (\<lambda>n_i.
     bindE (computeN s n_i pow_u) (\<lambda>n_i.
     if is_share then
       bindE (polyMult s n_i (psAShare s)) (\<lambda>(n_i, A). bindE (erase_from n_i (psD s + 1)) (\<lambda>n_i. Inr (n_i, s\<lparr> psAShare := A \<rparr>)))
     else
       bindE (polyMult s n_i (psARecover s)) (\<lambda>(n_i, A). bindE (erase_from n_i (psD s + 1)) (\<lambda>n_i. Inr (n_i, s\<lparr> psARecover := A \<rparr>))))))"

section \<open>Sharing and recovering\<close>

definition pss_share :: "('g \<Rightarrow> 'a::field \<times> 'g) \<Rightarrow> 'g \<Rightarrow> 'a pss \<Rightarrow> ('a list \<times> 'a pss \<times> 'g) res" where
  "pss_share rnd prg s = (
     let num_rest_pts = psD s + 1 - int (length (psSecrets s));
         (defin_pts, prg) = fold (\<lambda>i (pts, prg). let (x, prg) = rnd prg in (pts @ [x], prg))
           [0..num_rest_pts - 1] (psSecrets s, prg);
         half = 2 ^ (psNearestPow s - 1) in
     if psL s < 0 \<or> length defin_pts < nat (psL s) then Inl Undefined
     else let shares = drop (nat (psL s)) defin_pts in
     bindE (ptToCoeff s defin_pts (psNearestPow s - 1) True) (\<lambda>(recov_coeff, s).
     bindE (pss_DFT s (prepareCoeffs (psNearestPow s) recov_coeff) (psNearestPow s)) (\<lambda>recov_coeff.
     let rest_of_pts = psN s - (psD s + 1 - psL s);
         stop = (if rest_of_pts + psD s + 1 < half then rest_of_pts else half - (psD s + 1)) in
     bindE (mapE (\<lambda>i. vgetI recov_coeff (2 * (psD s + 1 + i))) [0..stop - 1]) (\<lambda>low.
     bindE (mapE (\<lambda>i. vgetI recov_coeff (2 * i + 1)) [0..rest_of_pts - stop - 1]) (\<lambda>high.
     Inr (shares @ low @ high, s, prg))))))"

definition check_point :: "'a \<Rightarrow> 'a \<Rightarrow> unit res" where
  "check_point x y = throw_if (x \<noteq> y) (Invalid_argument ''Recovered point is incorrect'') (Inr ())"

text \<open>
  The points that are only checked are erased from the argument. A negative \<open>d + 1\<close>, compared with a
  size, is a large unsigned number.
\<close>

definition pss_recover :: "'a::field pss \<Rightarrow> 'a list \<Rightarrow> ('a list \<times> 'a list \<times> 'a pss) res" where
  "pss_recover s samplePoints =
     throw_if (psD s + 1 < 0 \<or> int (length samplePoints) < psD s + 1) (Invalid_argument ''Not enough points to recover the secrets!'') (
     let check_num = int (length samplePoints) - (psD s + 1);
         checkPoints = (if 0 < check_num then drop (nat (psD s + 1)) samplePoints else []);
         samplePoints = (if 0 < check_num then take (nat (psD s + 1)) samplePoints else samplePoints);
         half = 2 ^ (psNearestPow s - 1) in
     bindE (ptToCoeff s samplePoints (psNearestPow s) False) (\<lambda>(px, s).
     bindE (pss_DFT s (prepareCoeffs (psNearestPow s) px) (psNearestPow s)) (\<lambda>px.
     let end_of_first_check = (if check_num + psL s + psD s + 1 < half then check_num else half - (psL s + psD s + 1)) in
     bindE (mapE (\<lambda>i. bindE (vat px (2 * (psL s + psD s + 1 + i))) (\<lambda>x. bindE (vgetI checkPoints i) (check_point x)))
       [0..end_of_first_check - 1]) (\<lambda>_.
     let check_num = check_num - (half - (psL s + psD s + 1)) in
     bindE (mapE (\<lambda>i. bindE (vgetI px (2 * i + 1)) (\<lambda>x. bindE (vgetI checkPoints (end_of_first_check + i)) (check_point x)))
       [0..check_num - 1]) (\<lambda>_.
     bindE (foldE (\<lambda>i px. bindE (vgetI px (2 * i)) (\<lambda>x. vsetI px i x)) [0..psL s - 1] px) (\<lambda>px.
     bindE (erase_from px (psL s)) (\<lambda>px. Inr (px, samplePoints, s))))))))"

section \<open>The constructor\<close>

text \<open>\<open>ceil(log2(m))\<close> for a positive \<open>m\<close>; for others the conversion to \<open>int\<close> is undefined.\<close>

function ceil_log2 :: "nat \<Rightarrow> nat" where
  "ceil_log2 m = (if m \<le> 1 then 0 else Suc (ceil_log2 (Suc m div 2)))"
  by pat_completeness auto
termination
  by (relation "measure id") auto

declare ceil_log2.simps [simp del]

text \<open>\<open>vector<int> v(k)\<close>.\<close>

definition int_vector :: "int \<Rightarrow> int list res" where
  "int_vector k = (if k < 0 then Inl (Logic_error ''cannot create std::vector larger than max_size()'')
     else Inr (replicate (nat k) 0))"

definition fill_from :: "int \<Rightarrow> int \<Rightarrow> int list res" where
  "fill_from first k = bindE (int_vector k) (\<lambda>v. foldE (\<lambda>i v. vsetI v i (first + i)) [0..k - 1] v)"

text \<open>The coefficients of the derivative of the polynomial with coefficients \<open>A\<close>, up to degree \<open>d\<close>.\<close>

definition derivative_coeffs :: "int \<Rightarrow> 'a::field list \<Rightarrow> 'a list res" where
  "derivative_coeffs d A = mapE (\<lambda>i. bindE (vgetI A (i + 1)) (\<lambda>x. Inr (x * of_int (i + 1)))) [0..d]"

definition new_OptimizedPSS :: "int \<Rightarrow> int \<Rightarrow> int \<Rightarrow> int \<Rightarrow> 'a::field pss res" where
  "new_OptimizedPSS l d n field_size =
     throw_if (field_size \<noteq> 3193032821761)
       (Invalid_argument ''You must use this with the hardcoded field Z_p of size 3193032821761'') (
     if n + l \<le> 0 then Inl Undefined
     else let nearest_pow = ceil_log2 (nat (n + l)); total_num_pts = 2 ^ nearest_pow; half_pts = 2 ^ (nearest_pow - 1) in
     throw_if (10 < nearest_pow)
       (Invalid_argument ''Number of parties and packed ss are too large for the OptimizedPSS field'') (
     if nearest_pow = 0 then Inl Undefined
     else let
       pow_for_sub = nat ((field_size - 1) div total_num_pts);
       generator = GetElement 14 ^ pow_for_sub;
       h = generator ^ 2;
       roots = map (\<lambda>i. h ^ i) [0..<half_pts] @ map (\<lambda>i. generator ^ (2 * i + 1)) [0..<half_pts];
       s = \<lparr> psL = l, psD = d, psN = n, psNearestPow = nearest_pow, psGenerator = generator, psRoots = roots,
             psARecover = [], psAShare = [], psAPtsRecover = [], psAPtsShare = [], psSecrets = [] \<rparr> in
     bindE (fill_from l (d + 1 - l)) (\<lambda>shared_roots.
     bindE (multiplyRoots s shared_roots) (\<lambda>shared_A.
     bindE (multiplyRoots s [0..l - 1]) (\<lambda>A_share.
     bindE (polyMult s A_share shared_A) (\<lambda>(A_share, shared_A).
     bindE (fill_from (d + 1) l) (\<lambda>recover_roots.
     bindE (multiplyRoots s recover_roots) (\<lambda>A_recover.
     bindE (polyMult s A_recover shared_A) (\<lambda>(A_recover, shared_A).
     bindE (derivative_coeffs d A_recover) (\<lambda>A_pts_recover.
     bindE (pss_DFT s (prepareCoeffs nearest_pow A_pts_recover) nearest_pow) (\<lambda>A_pts_rec_c.
     let stop = (if l + d + 1 < half_pts then d + 1 else half_pts - l) in
     bindE (foldE (\<lambda>i A. bindE (vgetI A_pts_rec_c (2 * (l + i))) (\<lambda>x. vsetI A i x)) [0..stop - 1] A_pts_recover) (\<lambda>A_pts_recover.
     bindE (foldE (\<lambda>i A. bindE (vgetI A_pts_rec_c (2 * i + 1)) (\<lambda>x. vsetI A (stop + i) x)) [0..d + 1 - stop - 1] A_pts_recover) (\<lambda>A_pts_recover.
     bindE (erase_from A_pts_recover (d + 1)) (\<lambda>A_pts_recover.
     bindE (derivative_coeffs d A_share) (\<lambda>A_pts_share.
     bindE (pss_DFT s (prepareCoeffs nearest_pow A_pts_share) nearest_pow) (\<lambda>A_pts_share.
     bindE (foldE (\<lambda>i A. bindE (vgetI A (2 * i)) (\<lambda>x. vsetI A i x)) [0..d] A_pts_share) (\<lambda>A_pts_share.
     bindE (erase_from A_pts_share (d + 1)) (\<lambda>A_pts_share.
     bindE (foldE (\<lambda>i (A_share, A_recover). bindE (vgetI A_share i) (\<lambda>x. bindE (zz_inv x) (\<lambda>x. bindE (vsetI A_share i x) (\<lambda>A_share.
         bindE (vgetI A_recover i) (\<lambda>y. bindE (zz_inv y) (\<lambda>y. bindE (vsetI A_recover i y) (\<lambda>A_recover.
         Inr (A_share, A_recover)))))))) [0..d] (A_pts_share, A_pts_recover)) (\<lambda>(A_pts_share, A_pts_recover).
     Inr (s\<lparr> psARecover := A_recover, psAShare := A_share, psAPtsRecover := A_pts_recover, psAPtsShare := A_pts_share \<rparr>))))))))))))))))))))"

text \<open>A function beside the class: the roots in bit-reversed order.\<close>

definition generateRoots :: "'a::field \<Rightarrow> nat \<Rightarrow> 'a list" where
  "generateRoots gen TOTAL = fold (\<lambda>i roots. fold (\<lambda>j roots.
       let elt = fold (\<lambda>k elt. if (j div 2 ^ k) mod 2 = 1 then elt + 2 ^ (TOTAL - 1 - k) else elt) [0..<i - 1] (2 ^ (TOTAL - i)) in
       roots @ [gen ^ elt]) [0..<2 ^ (i - 1)] roots) [1..<TOTAL + 1] [gen ^ 0]"

end
