(* ===== verification/PSSPoly.thy ===== *)
theory PSSPoly
  imports OptPSS
begin

text \<open>
  Correctness of the transforms and of the polynomial products of \<open>OptimizedPSS\<close>: the inverse
  transform recovers the coefficients from the values at all roots of unity, and \<open>polyMult\<close> computes
  the product of two polynomials whenever it fits.
\<close>

section \<open>Roots of unity\<close>

lemma root_power_not_one:
  fixes g :: "'a::field"
  assumes "g ^ 2 ^ (p - 1) = - 1" "(2 :: 'a) \<noteq> 0" "0 < c" "c < 2 ^ p"
  shows "g ^ c \<noteq> 1"
  using assms(1,3,4)
proof (induction p arbitrary: g c)
  case (Suc p)
  have m1: "- 1 \<noteq> (1 :: 'a)" using assms(2) by (metis add_eq_0_iff2 one_add_one)
  show ?case
  proof (cases "even c")
    case False
    have "(g ^ c) ^ 2 ^ p = (g ^ 2 ^ p) ^ c" by (simp add: mult.commute flip: power_mult)
    also have "\<dots> = - 1" using Suc.prems(1) False by simp
    finally show ?thesis using m1 by auto
  next
    case True
    then obtain c' where c': "c = 2 * c'" by blast
    then have p: "0 < p" "c' < 2 ^ p" "0 < c'" using Suc.prems(2,3) by (cases p; simp)+
    have "(g ^ 2) ^ 2 ^ (p - 1) = g ^ 2 ^ p" using p(1) by (cases p) (simp_all flip: power_mult)
    then have "(g ^ 2) ^ c' \<noteq> 1" using Suc.IH [of "g ^ 2" c'] Suc.prems(1) p by simp
    then show ?thesis by (simp add: c' power_mult)
  qed
qed simp

lemma root_power_N:
  fixes g :: "'a::field"
  assumes "g ^ 2 ^ (p - 1) = - 1" "0 < p"
  shows "g ^ 2 ^ p = 1"
proof -
  have "g ^ 2 ^ p = (g ^ 2 ^ (p - 1)) ^ 2" using assms(2) by (cases p) (simp_all add: mult.commute flip: power_mult)
  then show ?thesis using assms(1) by simp
qed

lemma root_power_inj:
  fixes g :: "'a::field"
  assumes "g ^ 2 ^ (p - 1) = - 1" "(2 :: 'a) \<noteq> 0" "a < 2 ^ p" "b < 2 ^ p" "g ^ a = g ^ b"
  shows "a = b"
proof -
  have le: False if "a < b" "b < 2 ^ p" "g ^ a = g ^ b" for a b
  proof -
    have "g \<noteq> 0"
    proof
      assume "g = 0"
      then have "g ^ 2 ^ (p - 1) = 0" by simp
      with assms(1) show False by simp
    qed
    moreover have "g ^ b = g ^ a * g ^ (b - a)" using that(1) by (simp flip: power_add)
    then have "g ^ a * g ^ (b - a) = g ^ a * 1" using that(3) by simp
    ultimately have "g ^ (b - a) = 1" by (simp del: mult_1_right)
    then show False using root_power_not_one [OF assms(1,2), of "b - a"] that by simp
  qed
  show ?thesis using le [of a b] le [of b a] assms(3-5) by (metis linorder_neqE_nat)
qed

lemma power_mod_N:
  fixes g :: "'a::field"
  assumes "g ^ N = 1"
  shows "g ^ (t mod N) = g ^ t"
proof -
  have "g ^ t = g ^ (N * (t div N) + t mod N)" by simp
  then show ?thesis using assms by (simp only: power_add power_mult power_one mult_1)
qed

lemma root_sum:
  fixes g :: "'a::field"
  assumes g: "g ^ 2 ^ (p - 1) = - 1" "(2 :: 'a) \<noteq> 0" "0 < p"
  shows "(\<Sum>m < 2 ^ p. (g ^ t) ^ m) = (if t mod 2 ^ p = 0 then 2 ^ p else 0)"
proof (cases "t mod 2 ^ p = 0")
  case True
  then have "g ^ t = 1" using power_mod_N [OF root_power_N [OF g(1,3)], of t] by simp
  then show ?thesis using True by simp
next
  case False
  have "g ^ (t mod 2 ^ p) \<noteq> 1" by (rule root_power_not_one [OF g(1,2)]) (use False in simp_all)
  then have "g ^ t \<noteq> 1" using power_mod_N [OF root_power_N [OF g(1,3)], of t] by simp
  moreover have "(g ^ t) ^ 2 ^ p = (g ^ 2 ^ p) ^ t" by (simp add: mult.commute flip: power_mult)
  then have "(g ^ t) ^ 2 ^ p = 1" using root_power_N [OF g(1,3)] by simp
  ultimately show ?thesis using False by (simp add: geometric_sum)
qed

text \<open>The values of a polynomial, taken as coefficients, evaluate to its coefficients in reverse.\<close>

lemma double_transform:
  fixes g :: "'a::field"
  assumes g: "g ^ 2 ^ (p - 1) = - 1" "(2 :: 'a) \<noteq> 0" "0 < p" and q: "length q = 2 ^ p" and i: "i < 2 ^ p"
  shows "peval (map (\<lambda>k. peval q (g ^ k)) [0..<2 ^ p]) (g ^ ((2 ^ p - i) mod 2 ^ p)) = 2 ^ p * q ! i"
proof -
  let ?N = "2 ^ p :: nat" and ?t = "(2 ^ p - i) mod 2 ^ p :: nat"
  have "peval (map (\<lambda>k. peval q (g ^ k)) [0..<?N]) (g ^ ?t) = (\<Sum>m < ?N. (\<Sum>j < ?N. q ! j * (g ^ m) ^ j) * (g ^ ?t) ^ m)"
    by (simp add: peval_sum q)
  also have "\<dots> = (\<Sum>m < ?N. \<Sum>j < ?N. q ! j * (g ^ (j + ?t)) ^ m)"
    by (simp add: sum_distrib_right power_add power_mult_distrib ac_simps flip: power_mult)
  also have "\<dots> = (\<Sum>j < ?N. q ! j * (\<Sum>m < ?N. (g ^ (j + ?t)) ^ m))"
    by (subst sum.swap) (simp add: sum_distrib_left)
  also have "\<dots> = (\<Sum>j < ?N. if j = i then 2 ^ p * q ! i else 0)"
  proof (rule sum.cong [OF refl])
    fix j
    assume j: "j \<in> {..<?N}"
    have "(j + ?t) mod ?N = 0 \<longleftrightarrow> j = i"
    proof (cases "i = 0")
      case True
      then show ?thesis using j by simp
    next
      case False
      then have t: "?t = ?N - i" using i by simp
      show ?thesis
      proof (cases "i \<le> j")
        case True
        then have e: "j + ?t = (j - i) + ?N" using t i by simp
        have "(j + ?t) mod ?N = j - i" unfolding e using j by simp
        then show ?thesis using True by simp
      next
        case le: False
        then have b: "j + ?t < ?N" "0 < j + ?t" unfolding t using i by linarith+
        then have "(j + ?t) mod ?N = j + ?t" by (intro mod_less)
        then show ?thesis using b le by linarith
      qed
    qed
    then show "q ! j * (\<Sum>m < ?N. (g ^ (j + ?t)) ^ m) = (if j = i then 2 ^ p * q ! i else 0)"
      unfolding root_sum [OF g] by simp
  qed
  also have "\<dots> = 2 ^ p * q ! i" using i by simp
  finally show ?thesis .
qed

section \<open>The transforms of the class\<close>

definition pss_ok :: "'a::field pss \<Rightarrow> bool" where
  "pss_ok s \<longleftrightarrow> 0 < psNearestPow s \<and> psNearestPow s \<le> 32 \<and> psGenerator s ^ 2 ^ (psNearestPow s - 1) = - 1 \<and> (2 :: 'a) \<noteq> 0"

lemma pss_okD:
  assumes "pss_ok (s :: 'a::field pss)"
  shows "0 < psNearestPow s" "psNearestPow s \<le> 32" "psGenerator s ^ 2 ^ (psNearestPow s - 1) = - 1" "(2 :: 'a) \<noteq> 0"
  using assms by (simp_all add: pss_ok_def)

lemma prepareCoeffs_simps:
  assumes "length c \<le> 2 ^ p"
  shows "length (prepareCoeffs p c) = 2 ^ p" "peval (prepareCoeffs p c) x = peval c x"
    "cf (prepareCoeffs p c) i = cf c i" "take (length c) (prepareCoeffs p c) = c"
  using assms by (simp_all add: prepareCoeffs_def peval_append cf_def nth_append)

lemma pss_DFT_full:
  assumes "pss_ok s" "length c = 2 ^ psNearestPow s"
  shows "pss_DFT s c (psNearestPow s) = Inr (map (\<lambda>k. peval c (psGenerator s ^ k)) [0..<2 ^ psNearestPow s])"
    "PreserveInDFT s c (psNearestPow s) = Inr (map (\<lambda>k. peval c (psGenerator s ^ k)) [0..<2 ^ psNearestPow s])"
  using dft_evaluates [of "psNearestPow s" "psGenerator s" c] pss_okD [OF assms(1)] assms(2)
  by (simp_all add: pss_DFT_def PreserveInDFT_def pss_gen_def)

lemma pss_DFT_half:
  assumes "pss_ok s" "length c = 2 ^ (psNearestPow s - 1)"
  shows "pss_DFT s c (psNearestPow s - 1)
    = Inr (map (\<lambda>k. peval c (psGenerator s ^ (2 * k))) [0..<2 ^ (psNearestPow s - 1)])"
proof -
  let ?p = "psNearestPow s - 1" and ?g = "psGenerator s"
  have "(?g * ?g) ^ 2 ^ (?p - 1) = - 1" if "0 < ?p"
  proof -
    have "(?g * ?g) ^ 2 ^ (?p - 1) = ?g ^ (2 * 2 ^ (?p - 1))" by (simp add: power_mult power2_eq_square)
    also have "2 * 2 ^ (?p - 1) = (2 :: nat) ^ ?p" using that by (simp flip: power_Suc)
    finally show ?thesis using pss_okD(3) [OF assms(1)] by simp
  qed
  then have "pss_DFT s c ?p = Inr (map (\<lambda>k. peval c ((?g * ?g) ^ k)) [0..<2 ^ ?p])"
    using dft_evaluates(1) [of ?p "?g * ?g" c] pss_okD(1,2) [OF assms(1)] assms(2) by (auto simp: pss_DFT_def pss_gen_def)
  then show ?thesis by (simp add: power_mult power2_eq_square)
qed

section \<open>The inverse transform\<close>

lemma fold_invariant_upt:
  assumes "I 0 c" "\<And>m c. m < n \<Longrightarrow> I m c \<Longrightarrow> I (Suc m) (f m c)"
  shows "I n (fold f [0..<n] c)"
  by (rule fold_upt_invariant [where I = I, OF assms])

text \<open>Both loops leave at place \<open>i\<close> the value at place \<open>N - i\<close>, scaled.\<close>

lemma reverse_low:
  assumes "length c = N" "2 * stop \<le> N" "i < stop"
  shows "fold (\<lambda>i c. c[i := x * c ! ((N - i) mod N)]) [0..<stop] c ! i = x * c ! ((N - i) mod N)
    \<and> length (fold (\<lambda>i c. c[i := x * c ! ((N - i) mod N)]) [0..<stop] c) = N"
proof -
  have "length (fold (\<lambda>i c. c[i := x * c ! ((N - i) mod N)]) [0..<stop] c) = N
    \<and> (\<forall>i < N. fold (\<lambda>i c. c[i := x * c ! ((N - i) mod N)]) [0..<stop] c ! i = (if i < stop then x * c ! ((N - i) mod N) else c ! i))"
  proof (rule fold_invariant_upt [where I = "\<lambda>m cs. length cs = N \<and> (\<forall>i < N. cs ! i = (if i < m then x * c ! ((N - i) mod N) else c ! i))"])
    fix m cs
    assume m: "m < stop" and I: "length cs = N \<and> (\<forall>i < N. cs ! i = (if i < m then x * c ! ((N - i) mod N) else c ! i))"
    have "\<not> (N - m) mod N < m \<and> (N - m) mod N < N" using m assms(2) by (cases m) auto
    then have "cs ! ((N - m) mod N) = c ! ((N - m) mod N)" using I by simp
    then show "length (cs[m := x * cs ! ((N - m) mod N)]) = N
      \<and> (\<forall>i < N. cs[m := x * cs ! ((N - m) mod N)] ! i = (if i < Suc m then x * c ! ((N - i) mod N) else c ! i))"
      using I m assms(2) by (auto simp: nth_list_update less_Suc_eq)
  qed (use assms(1) in simp)
  then show ?thesis using assms by simp
qed

lemma reverse_swaps:
  fixes x :: "'a::comm_ring_1"
  assumes "length c = 2 * half" "0 < half" "i < 2 * half"
  defines "N \<equiv> 2 * half"
  shows "(let c = fold (\<lambda>i c. let save = c ! i; c = c[i := x * c ! ((N - i) mod N)] in c[(N - i) mod N := x * save]) [0..<half] c
      in c[half := c ! half * x]) ! i = x * c ! ((N - i) mod N)"
    "length (let c = fold (\<lambda>i c. let save = c ! i; c = c[i := x * c ! ((N - i) mod N)] in c[(N - i) mod N := x * save]) [0..<half] c
      in c[half := c ! half * x]) = N"
proof -
  let ?idx = "\<lambda>i. (N - i) mod N"
  let ?I = "\<lambda>m cs. length cs = N \<and> (\<forall>i < N. cs ! i = (if i < m \<or> ?idx i < m then x * c ! ?idx i else c ! i))"
  let ?f = "\<lambda>i c. let save = c ! i; c = c[i := x * c ! ?idx i] in c[?idx i := x * save]"
  have N0: "0 < N" using assms(2) by (simp add: N_def)
  have inv: "?idx (?idx i) = i" "?idx i < N" if "i < N" for i using that N0 by (cases i; simp)+
  have "?I half (fold ?f [0..<half] c)"
  proof (rule fold_invariant_upt [where I = ?I])
    show "?I 0 c" using assms by simp
  next
    fix m cs
    assume m: "m < half" and I: "?I m cs"
    have mN: "m < N" using m by (simp add: N_def)
    have fresh: "\<not> ?idx m < m" using m by (cases m) (simp_all add: N_def)
    have at: "cs ! m = c ! m" "cs ! ?idx m = c ! ?idx m" using I mN inv [OF mN] fresh by simp_all
    have "?f m cs = cs[m := x * c ! ?idx m, ?idx m := x * c ! m]" by (simp add: Let_def at)
    moreover have "cs[m := x * c ! ?idx m, ?idx m := x * c ! m] ! i
        = (if i < Suc m \<or> ?idx i < Suc m then x * c ! ?idx i else c ! i)" if i: "i < N" for i
    proof -
      consider "i = ?idx m" | "i = m" "i \<noteq> ?idx m" | "i \<noteq> m" "i \<noteq> ?idx m" by blast
      then show ?thesis
      proof cases
        case 1
        then show ?thesis using I i mN inv(1) [OF mN] by simp
      next
        case 2
        then show ?thesis using I i by simp
      next
        case 3
        have "?idx i \<noteq> m" using 3(2) inv(1) [OF i] by auto
        then show ?thesis using I i 3 by (auto simp: less_Suc_eq)
      qed
    qed
    moreover have "length cs = N" using I by blast
    ultimately show "?I (Suc m) (?f m cs)" by (simp only: length_list_update) blast
  qed
  note F = this
  have "?idx half = half" using assms(2) by (simp add: N_def)
  moreover have "i < half \<or> ?idx i < half" if "i < N" "i \<noteq> half" using that by (cases i) (auto simp: N_def)
  ultimately show "(let c = fold ?f [0..<half] c in c[half := c ! half * x]) ! i = x * c ! ?idx i"
    "length (let c = fold ?f [0..<half] c in c[half := c ! half * x]) = N"
    using F assms(1-3) by (auto simp: Let_def nth_list_update N_def mult.commute)
qed

lemma reverse_loops:
  fixes x :: "'a::comm_ring_1"
  assumes F: "length F = N" and N: "N = 2 * half" "0 < half" and stop: "stop \<le> N" and ext: "\<And>i. i < N \<Longrightarrow> x * F ! ((N - i) mod N) = q ! i"
    and q: "length q = N"
  shows "erase_from (if stop < half then fold (\<lambda>i c. c[i := x * c ! ((N - i) mod N)]) [0..<stop] F
     else (let c = fold (\<lambda>i c. let save = c ! i; c = c[i := x * c ! ((N - i) mod N)] in c[(N - i) mod N := x * save]) [0..<half] F
          in c[half := c ! half * x])) (int stop) = Inr (take stop q)"
    (is "erase_from ?C _ = _")
proof -
  have "length ?C = N \<and> (\<forall>i < stop. ?C ! i = q ! i)" if "0 < stop"
  proof (cases "stop < half")
    case True
    then have "2 * stop \<le> N" using N by simp
    then have "length ?C = N \<and> ?C ! i = x * F ! ((N - i) mod N)" if "i < stop" for i
      using reverse_low [OF F _ that, of x] True by simp
    moreover have "x * F ! ((N - i) mod N) = q ! i" if "i < stop" for i using ext that stop by simp
    ultimately show ?thesis using that by auto
  next
    case False
    note R = reverse_swaps [OF F [unfolded N(1)] N(2), of _ x, folded N(1)]
    have "length ?C = N" using R(2) [of 0] False N by simp
    moreover have "?C ! i = q ! i" if "i < stop" for i using R(1) [of i] ext [of i] False that stop by simp
    ultimately show ?thesis by blast
  qed
  then have "take stop ?C = take stop q" "stop = 0 \<or> length ?C = N"
    using stop q by (cases "stop = 0"; auto intro!: nth_equalityI)+
  then show ?thesis using stop by (auto simp: erase_from_def)
qed

lemma InvDFT_correct:
  fixes s :: "'a::field pss"
  assumes ok: "pss_ok s" and q: "length q = 2 ^ psNearestPow s" and stop: "stop \<le> 2 ^ psNearestPow s"
  shows "InvDFT s (map (\<lambda>k. peval q (psGenerator s ^ k)) [0..<2 ^ psNearestPow s]) (psNearestPow s) stop = Inr (take stop q)"
proof -
  let ?p = "psNearestPow s" and ?g = "psGenerator s"
  let ?N = "2 ^ ?p :: nat" and ?half = "2 ^ (?p - 1) :: nat" and ?x = "inverse (2 ^ ?p) :: 'a"
  let ?v = "map (\<lambda>k. peval q (?g ^ k)) [0..<?N]"
  let ?F = "map (\<lambda>k. peval ?v (?g ^ k)) [0..<?N]"
  note g = pss_okD(3,4,1) [OF ok]
  have N: "?N = 2 * ?half" using g(3) by (cases ?p) simp_all
  have F: "?x * ?F ! ((?N - i) mod ?N) = q ! i" if "i < ?N" for i
    using double_transform [OF g q that] g(2) by simp
  have "GetElement (2 ^ ?p) = (2 ^ ?p :: 'a)"
  proof -
    have "(2 :: int) ^ ?p \<noteq> 1" using power_one_right one_less_power [of "2 :: int" ?p] g(3) by linarith
    then show ?thesis by (simp add: GetElement_def)
  qed
  then have inv: "zz_inv (GetElement (2 ^ ?p)) = Inr ?x" using g(2) by (simp add: zz_inv_def)
  have D: "pss_DFT s ?v ?p = Inr ?F" by (rule pss_DFT_full(1) [OF ok]) simp
  have len: "length ?F = ?N" by simp
  have h0: "0 < ?half" by simp
  have np: "?p \<noteq> 0" using g(3) by simp
  note L = reverse_loops [OF len N h0 stop F q]
  show ?thesis
    using L unfolding InvDFT_def D inv bindE_simps Let_def if_not_P [OF np] by assumption
qed

end
