(* ===== verification/PSSInterp.thy ===== *)
theory PSSInterp
  imports PSSPoly
begin

text \<open>
  The products and the interpolation of \<open>OptimizedPSS\<close>: \<open>polyMult\<close> and \<open>multiplyRoots\<close> compute the
  product of polynomials, and \<open>ptToCoeff\<close> the coefficients of the polynomial through the given points.
\<close>

section \<open>Products\<close>

definition conv :: "'a::comm_ring_1 list \<Rightarrow> 'a list \<Rightarrow> 'a list" where
  "conv p q = map (cf (Poly_Multiply p q)) [0..<length p + length q - 1]"

lemma conv_simps:
  assumes "p \<noteq> []" "q \<noteq> []"
  shows "length (conv p q) = length p + length q - 1" "cf (conv p q) k = (\<Sum>i\<le>k. cf p i * cf q (k - i))"
    "peval (conv p q) x = peval p x * peval q x"
proof -
  have le: "length (Poly_Multiply p q) \<le> length p + length q - 1" using assms by (rule length_Multiply)
  have cf: "cf (conv p q) k = cf (Poly_Multiply p q) k" for k
    using le by (cases "k < length p + length q - 1") (simp_all add: conv_def cf_def)
  then show "cf (conv p q) k = (\<Sum>i\<le>k. cf p i * cf q (k - i))" by (simp add: cf_Multiply_atMost assms)
  have "peval (conv p q) x = peval (Poly_Multiply p q) x" by (rule peval_eqI) (rule cf)
  then show "peval (conv p q) x = peval p x * peval q x" by (simp add: peval_Multiply assms)
qed (simp add: conv_def)

lemma fold_pointwise:
  assumes "length c = n"
  shows "fold (\<lambda>i a. a[i := a ! i * c ! i]) [0..<n] (map f [0..<n]) = map (\<lambda>i. f i * c ! i) [0..<n]"
proof -
  let ?I = "\<lambda>m a. a = map (\<lambda>i. if i < m then f i * c ! i else f i) [0..<n]"
  have "?I n (fold (\<lambda>i a. a[i := a ! i * c ! i]) [0..<n] (map f [0..<n]))"
  proof (rule fold_upt_invariant [where I = ?I])
    show "?I 0 (map f [0..<n])" by simp
    fix m a
    assume "m < n" "?I m a"
    then show "?I (Suc m) (a[m := a ! m * c ! m])"
      by (auto intro!: nth_equalityI simp: nth_list_update less_Suc_eq)
  qed
  then show ?thesis by (simp only:) (rule map_cong; simp)
qed

lemma polyMult_correct:
  fixes s :: "'a::field pss"
  assumes ok: "pss_ok s" and ab: "a \<noteq> []" "b \<noteq> []" "length a + length b - 1 \<le> 2 ^ psNearestPow s"
  shows "polyMult s a b = Inr (conv a b, b)"
proof -
  let ?p = "psNearestPow s" and ?g = "psGenerator s" and ?P = "\<lambda>c. prepareCoeffs (psNearestPow s) c"
  have len: "length a \<le> 2 ^ ?p" "length b \<le> 2 ^ ?p" "length (conv a b) \<le> 2 ^ ?p"
    using ab by (cases a; cases b; simp add: conv_simps)+
  note prep = prepareCoeffs_simps [OF len(1)] prepareCoeffs_simps [OF len(2)] prepareCoeffs_simps [OF len(3)]
  have b: "(if length b \<noteq> 2 ^ ?p then ?P b else b) = ?P b" by (simp add: prepareCoeffs_def)
  have "(2 :: nat) ^ ?p \<le> 2 ^ 32" using pss_okD(2) [OF ok] by (intro power_increasing) simp_all
  then have sz: "size_sub (length a + length b) 1 = length a + length b - 1" "length a + length b - 1 = length (conv a b)"
    using ab by (cases a; simp add: size_sub_def conv_simps)+
  have v: "map (\<lambda>i. peval a (?g ^ i) * map (\<lambda>k. peval b (?g ^ k)) [0..<2 ^ ?p] ! i) [0..<2 ^ ?p]
      = map (\<lambda>k. peval (conv a b) (?g ^ k)) [0..<2 ^ ?p]"
    by (simp add: prep conv_simps ab)
  have I: "InvDFT s (map (\<lambda>k. peval (conv a b) (?g ^ k)) [0..<2 ^ ?p]) ?p (length (conv a b)) = Inr (conv a b)"
    using InvDFT_correct [OF ok prep(9) len(3)] by (simp only: prep(10,12))
  have "erase_from (?P b) (int (length b)) = Inr b" using len(2) by (simp add: erase_from_def prep)
  then show ?thesis
    using ab(3) len(3)
    by (simp add: polyMult_def Let_def b sz pss_DFT_full [OF ok] prep fold_pointwise v I del: One_nat_def)
qed

text \<open>The divide and conquer product; its degrees add up.\<close>

definition total_degree :: "'a list list \<Rightarrow> nat" where
  "total_degree ps = (\<Sum>p\<leftarrow>ps. length p - 1)"

lemma multPolyList_correct:
  fixes s :: "'a::field pss"
  assumes ok: "pss_ok s"
  shows "polys \<noteq> [] \<Longrightarrow> [] \<notin> set polys \<Longrightarrow> total_degree polys < 2 ^ psNearestPow s \<Longrightarrow>
    \<exists>c. multPolyList s polys = Inr c \<and> length c = Suc (total_degree polys) \<and> (\<forall>x. peval c x = (\<Prod>p\<leftarrow>polys. peval p x))"
  using ok
proof (induction s polys rule: multPolyList.induct)
  case (1 s polys)
  let ?m = "length polys div 2"
  have pm: "\<exists>c. bindE (polyMult s a b) (\<lambda>(p, _). Inr p) = Inr c \<and> length c = length a + length b - 1
      \<and> (\<forall>x. peval c x = peval a x * peval b x)"
    if "a \<noteq> []" "b \<noteq> []" "length a + length b - 1 \<le> 2 ^ psNearestPow s" for a b
    using polyMult_correct [OF "1.prems"(4) that] that by (simp add: conv_simps)
  consider "length polys = 1" | "length polys = 2" | "2 < length polys" using "1.prems"(1) by (cases polys; cases "tl polys"; fastforce)
  then show ?case
  proof cases
    case 1
    then obtain p where "polys = [p]" by (cases polys) auto
    with \<open>[] \<notin> set polys\<close> show ?thesis by (cases p; simp add: multPolyList.simps total_degree_def)
  next
    case 2
    then obtain a b where p: "polys = [a, b]" by (cases polys; cases "tl polys") auto
    then show ?thesis using pm [of a b] "1.prems"(2,3)
      by (cases a; cases b; fastforce simp: multPolyList.simps total_degree_def)
  next
    case 3
    then have "0 < ?m" "?m < length polys" by (simp_all add: div_greater_zero_iff)
    then have ne: "take ?m polys \<noteq> []" "drop ?m polys \<noteq> []" by force+
    have split: "total_degree polys = total_degree (take ?m polys) + total_degree (drop ?m polys)"
      "(\<Prod>p\<leftarrow>polys. peval p x) = (\<Prod>p\<leftarrow>take ?m polys. peval p x) * (\<Prod>p\<leftarrow>drop ?m polys. peval p x)" for x
      unfolding total_degree_def by (simp_all flip: sum_list_append prod_list.append map_append)
    have nil: "[] \<notin> set (take ?m polys)" "[] \<notin> set (drop ?m polys)"
      using "1.prems"(2) set_take_subset [of ?m polys] set_drop_subset [of ?m polys] by blast+
    have side: "length polys \<noteq> 1" "length polys \<noteq> 2" "length polys \<noteq> 0" using 3 "1.prems"(1) by simp_all
    obtain a where a: "multPolyList s (take ?m polys) = Inr a" "length a = Suc (total_degree (take ?m polys))"
      "\<And>x. peval a x = (\<Prod>p\<leftarrow>take ?m polys. peval p x)"
      using "1.IH"(1) [OF side refl ne(1) nil(1) _ "1.prems"(4)] split "1.prems"(3) by auto
    obtain b where b: "multPolyList s (drop ?m polys) = Inr b" "length b = Suc (total_degree (drop ?m polys))"
      "\<And>x. peval b x = (\<Prod>p\<leftarrow>drop ?m polys. peval p x)"
      using "1.IH"(2) [OF side refl a(1) ne(2) nil(2) _ "1.prems"(4)] split "1.prems"(3) by auto
    have "a \<noteq> []" "b \<noteq> []" using a(2) b(2) by auto
    then obtain c where c: "bindE (polyMult s a b) (\<lambda>(p, _). Inr p) = Inr c" "length c = length a + length b - 1"
      "\<And>x. peval c x = peval a x * peval b x" using pm [of a b] a(2) b(2) split(1) "1.prems"(3) by auto
    have "multPolyList s polys = Inr c"
      using c(1) by (subst multPolyList.simps) (simp only: side if_False Let_def a(1) b(1) bindE_simps)
    then show ?thesis using c a b split by (intro exI [of _ c]) simp
  qed
qed

lemma multiplyRoots_correct:
  fixes s :: "'a::field pss"
  assumes ok: "pss_ok s" and r: "rs \<noteq> []" "length rs < 2 ^ psNearestPow s" "\<And>r. r \<in> set rs \<Longrightarrow> 0 \<le> r \<and> nat r < length (psRoots s)"
  obtains c where "multiplyRoots s rs = Inr c" "length c = Suc (length rs)"
    "\<And>x. peval c x = (\<Prod>r\<leftarrow>rs. x - psRoots s ! nat r)"
proof -
  let ?ps = "map (\<lambda>r. [- (psRoots s ! nat r), 1]) rs"
  have "mapE (\<lambda>r. bindE (vgetI (psRoots s) r) (\<lambda>x. Inr [- x, GetElement 1])) rs = Inr ?ps"
    by (rule mapE_Inr) (use r(3) in \<open>auto simp: vgetI_def GetElement_def not_less\<close>)
  then have m: "multiplyRoots s rs = multPolyList s ?ps" by (simp add: multiplyRoots_def)
  have td: "total_degree ?ps = length rs" unfolding total_degree_def by (induction rs) simp_all
  have pr: "(\<Prod>p\<leftarrow>?ps. peval p x) = (\<Prod>r\<leftarrow>rs. x - psRoots s ! nat r)" for x
    by (simp add: comp_def)
  show ?thesis
    using multPolyList_correct [OF ok, of ?ps] r(1,2) that unfolding td pr m by auto
qed

section \<open>The truncated power series\<close>

text \<open>Each of the loops of \<open>computeN\<close> leaves at place \<open>i < D\<close> the negated value of place \<open>N - 1 - i\<close>.\<close>

lemma mirror_low:
  fixes c :: "'a::ring_1 list"
  assumes "length c = N" "2 * stop \<le> N"
  shows "length (fold (\<lambda>it c. c[it := - c ! ((N - it - 1) mod N)]) [0..<stop] c) = N"
    "i < N \<Longrightarrow> fold (\<lambda>it c. c[it := - c ! ((N - it - 1) mod N)]) [0..<stop] c ! i = (if i < stop then - c ! (N - 1 - i) else c ! i)"
proof -
  let ?I = "\<lambda>m cs. length cs = N \<and> (\<forall>i < N. cs ! i = (if i < m then - c ! (N - 1 - i) else c ! i))"
  have "?I stop (fold (\<lambda>it c. c[it := - c ! ((N - it - 1) mod N)]) [0..<stop] c)"
  proof (rule fold_upt_invariant [where I = ?I])
    fix m cs
    assume m: "m < stop" and I: "?I m cs"
    have "(N - m - 1) mod N = N - 1 - m" "\<not> N - 1 - m < m" "N - 1 - m < N" using m assms(2) by simp_all
    then have "cs ! ((N - m - 1) mod N) = c ! (N - 1 - m)" using I by simp
    then show "?I (Suc m) (cs[m := - cs ! ((N - m - 1) mod N)])"
      using I m assms(2) by (auto simp: nth_list_update less_Suc_eq)
  qed (simp add: assms)
  then show "length (fold (\<lambda>it c. c[it := - c ! ((N - it - 1) mod N)]) [0..<stop] c) = N"
    "i < N \<Longrightarrow> fold (\<lambda>it c. c[it := - c ! ((N - it - 1) mod N)]) [0..<stop] c ! i = (if i < stop then - c ! (N - 1 - i) else c ! i)"
    by auto
qed

lemma mirror_middle:
  fixes c :: "'a::ring_1 list"
  assumes c: "length c = N" and D: "k + sv \<le> N" "k + sv + k + sv = N"
  defines "step \<equiv> \<lambda>it (c, save_v). let save_v = save_v[sv - 1 - it := c ! (k + it)] in
      (c[k + it := - c ! ((N - (it + k) - 1) mod N)], save_v)"
  obtains c' save where "fold step [0..<sv] (c, replicate sv 0) = (c', save)" "length c' = N" "length save = sv"
    "\<And>i. i < N \<Longrightarrow> c' ! i = (if k \<le> i \<and> i < k + sv then - c ! (N - 1 - i) else c ! i)"
    "\<And>i. i < sv \<Longrightarrow> save ! i = c ! (k + sv - 1 - i)"
proof -
  let ?I = "\<lambda>m (cs, save). length cs = N \<and> length save = sv
      \<and> (\<forall>i < N. cs ! i = (if k \<le> i \<and> i < k + m then - c ! (N - 1 - i) else c ! i))
      \<and> (\<forall>i < sv. sv \<le> i + m \<longrightarrow> save ! i = c ! (k + sv - 1 - i))"
  have "?I sv (fold step [0..<sv] (c, replicate sv 0))"
  proof (rule fold_upt_invariant [where I = ?I])
    fix m st
    assume m: "m < sv" and I: "?I m st"
    obtain cs save where st: "st = (cs, save)" by (cases st)
    have "(N - (m + k) - 1) mod N = N - 1 - (k + m)" "\<not> N - 1 - (k + m) < k + m" "N - 1 - (k + m) < N" "k + m < N"
      using m D by simp_all
    then have at: "cs ! ((N - (m + k) - 1) mod N) = c ! (N - 1 - (k + m))" "cs ! (k + m) = c ! (k + m)" using I by (simp_all add: st)
    have e: "step m st = (cs[k + m := - c ! (N - 1 - (k + m))], save[sv - 1 - m := c ! (k + m)])"
      unfolding step_def st prod.case Let_def at by (rule refl)
    have "sv - 1 - m < sv" "k + sv - 1 - (sv - 1 - m) = k + m" using m by simp_all
    moreover have "sv \<le> i + Suc m \<longleftrightarrow> i = sv - 1 - m \<or> sv \<le> i + m" for i using m by auto
    ultimately show "?I (Suc m) (step m st)"
      unfolding e using I m \<open>k + m < N\<close> by (auto simp: st nth_list_update less_Suc_eq)
  qed (auto simp: c)
  then show ?thesis using that by (cases "fold step [0..<sv] (c, replicate sv 0)") auto
qed

lemma mirror_high:
  fixes c save :: "'a::ring_1 list"
  assumes "length c = N" "h + sv \<le> N"
  shows "length (fold (\<lambda>it c. c[h + it := - save ! it]) [0..<sv] c) = N"
    "i < N \<Longrightarrow> fold (\<lambda>it c. c[h + it := - save ! it]) [0..<sv] c ! i = (if h \<le> i \<and> i < h + sv then - save ! (i - h) else c ! i)"
proof -
  let ?I = "\<lambda>m cs. length cs = N \<and> (\<forall>i < N. cs ! i = (if h \<le> i \<and> i < h + m then - save ! (i - h) else c ! i))"
  have "?I sv (fold (\<lambda>it c. c[h + it := - save ! it]) [0..<sv] c)"
  proof (rule fold_upt_invariant [where I = ?I])
    fix m cs
    assume "m < sv" "?I m cs"
    then show "?I (Suc m) (cs[h + m := - save ! m])"
      using assms(2) by (auto simp: nth_list_update less_Suc_eq)
  qed (auto simp: assms)
  then show "length (fold (\<lambda>it c. c[h + it := - save ! it]) [0..<sv] c) = N"
    "i < N \<Longrightarrow> fold (\<lambda>it c. c[h + it := - save ! it]) [0..<sv] c ! i = (if h \<le> i \<and> i < h + sv then - save ! (i - h) else c ! i)"
    by auto
qed

lemma computeN_loops:
  fixes s :: "'a::field pss"
  assumes ok: "pss_ok s" and pow: "0 < pow_u" and c: "pss_DFT s (prepareCoeffs pow_u v) pow_u = Inr c" "length c = 2 ^ pow_u"
    and D: "psD s + 1 = int D" "D \<le> 2 ^ pow_u"
  shows "computeN s v pow_u = Inr (map (\<lambda>i. - c ! (2 ^ pow_u - 1 - i)) [0..<D])"
proof -
  define N where "N = (2 :: nat) ^ pow_u"
  define h where "h = (2 :: nat) ^ (pow_u - 1)"
  have N: "N = 2 * h" using pow by (cases pow_u) (simp_all add: N_def h_def)
  define C where "C = (if h < D then
         (let need_saved = D - h; need_nothing = h - need_saved;
              c = fold (\<lambda>it c. c[it := - c ! ((N - it - 1) mod N)]) [0..<need_nothing] c;
              (c, save_v) = fold (\<lambda>it (c, save_v).
                  let save_v = save_v[need_saved - 1 - it := c ! (need_nothing + it)] in
                  (c[need_nothing + it := - c ! ((N - (it + need_nothing) - 1) mod N)], save_v))
                [0..<need_saved] (c, replicate need_saved 0) in
          fold (\<lambda>it c. c[h + it := - save_v ! it]) [0..<need_saved] c)
       else fold (\<lambda>it c. c[it := - c ! ((N - it - 1) mod N)]) [0..<D] c)"
  have cN: "length c = N" using c(2) by (simp add: N_def)
  have DN: "D \<le> N" using D(2) by (simp add: N_def)
  have "length C = N \<and> (\<forall>i < D. C ! i = - c ! (N - 1 - i))"
  proof (cases "h < D")
    case False
    then have "2 * D \<le> N" using N by simp
    from mirror_low [OF cN this] show ?thesis using False DN by (simp add: C_def)
  next
    case True
    define sv where "sv = D - h"
    define k where "k = h - sv"
    have ks: "2 * k \<le> N" "k + sv \<le> N" "k + sv + k + sv = N" "k + sv = h" "h + sv = D" "h + sv \<le> N"
      using True DN N by (simp_all add: k_def sv_def)
    define c1 where "c1 = fold (\<lambda>it c. c[it := - c ! ((N - it - 1) mod N)]) [0..<k] c"
    have c1: "length c1 = N" "\<And>i. i < N \<Longrightarrow> c1 ! i = (if i < k then - c ! (N - 1 - i) else c ! i)"
      unfolding c1_def by (rule mirror_low [OF cN ks(1)])+
    obtain c2 save where m: "fold (\<lambda>it (c, save_v).
          let save_v = save_v[sv - 1 - it := c ! (k + it)] in
          (c[k + it := - c ! ((N - (it + k) - 1) mod N)], save_v)) [0..<sv] (c1, replicate sv 0) = (c2, save)"
      and c2: "length c2 = N" "length save = sv"
        "\<And>i. i < N \<Longrightarrow> c2 ! i = (if k \<le> i \<and> i < k + sv then - c1 ! (N - 1 - i) else c1 ! i)"
        "\<And>i. i < sv \<Longrightarrow> save ! i = c1 ! (k + sv - 1 - i)"
      using mirror_middle [OF c1(1) ks(2,3)] by blast
    have C: "C = fold (\<lambda>it c. c[h + it := - save ! it]) [0..<sv] c2"
      using True m unfolding C_def Let_def sv_def [symmetric] k_def [symmetric] c1_def [symmetric] by simp
    have "C ! i = - c ! (N - 1 - i)" if i: "i < D" for i
    proof -
      have iN: "i < N" using i DN by simp
      consider "i < k" | "k \<le> i" "i < h" | "h \<le> i" by linarith
      then show ?thesis
      proof cases
        case 1
        then show ?thesis unfolding C mirror_high(2) [OF c2(1) ks(6) iN] using iN ks by (simp add: c2(3) c1(2))
      next
        case 2
        then have "N - 1 - i < N" "\<not> N - 1 - i < k" using ks i by simp_all
        then show ?thesis unfolding C mirror_high(2) [OF c2(1) ks(6) iN] using iN ks 2 by (simp add: c2(3) c1(2))
      next
        case 3
        then have "i - h < sv" "k + sv - 1 - (i - h) = N - 1 - i" "N - 1 - i < N" "\<not> N - 1 - i < k" using ks i by simp_all
        then show ?thesis unfolding C mirror_high(2) [OF c2(1) ks(6) iN] using iN ks i 3 by (simp add: c2(4) c1(2))
      qed
    qed
    then show ?thesis unfolding C using mirror_high(1) [OF c2(1) ks(6)] C by simp
  qed
  then have "length C = N" "take D C = map (\<lambda>i. - c ! (N - 1 - i)) [0..<D]" using DN by (auto intro!: nth_equalityI)
  then have E: "erase_from C (int D) = Inr (map (\<lambda>i. - c ! (N - 1 - i)) [0..<D])" using DN by (simp add: erase_from_def)
  have side: "\<not> (pow_u = 0 \<or> int D < 0 \<or> N < D)" using pow DN by simp
  show ?thesis
    unfolding computeN_def c(1) bindE_simps Let_def D(1) nat_int N_def [symmetric] h_def [symmetric] if_not_P [OF side]
    using E unfolding C_def Let_def .
qed

section \<open>Interpolation\<close>

text \<open>\<open>A\<close> divided by \<open>x - a\<close>, for a root \<open>a\<close>: its coefficients are a truncated power series.\<close>

definition quot :: "'a::field list \<Rightarrow> 'a \<Rightarrow> 'a list" where
  "quot A a = map (\<lambda>k. - (\<Sum>j\<le>k. cf A (k - j) * inverse a ^ Suc j)) [0..<length A - 1]"

lemma quot_coeffs:
  fixes A :: "'a::field list"
  assumes A: "A \<noteq> []" "peval A a = 0" "a \<noteq> 0"
  shows "length (quot A a) = length A - 1" "cf A 0 = - a * cf (quot A a) 0"
    "cf A (Suc i) = cf (quot A a) i - a * cf (quot A a) (Suc i)" "peval A x = (x - a) * peval (quot A a) x"
proof -
  obtain ds where ds: "length ds = length A - 1" "cf A 0 = - a * cf ds 0" "\<And>i. cf A (Suc i) = cf ds i - a * cf ds (Suc i)"
    "\<And>x. peval A x = (x - a) * peval ds x"
    using synthetic_division [OF A(1), of a] A(2) by auto
  have ser: "cf ds k = - (\<Sum>j\<le>k. cf A (k - j) * inverse a ^ Suc j)" for k
  proof (induction k)
    case 0
    then show ?case using A(3) ds(2) by simp
  next
    case (Suc k)
    have "(\<Sum>j\<le>Suc k. cf A (Suc k - j) * inverse a ^ Suc j)
        = cf A (Suc k) * inverse a + (\<Sum>j\<le>k. cf A (k - j) * inverse a ^ Suc j) * inverse a"
      by (subst sum.atMost_Suc_shift) (simp add: sum_distrib_right sum_distrib_left ac_simps)
    also have "(\<Sum>j\<le>k. cf A (k - j) * inverse a ^ Suc j) = - cf ds k" using Suc by simp
    finally show ?case using A(3) by (simp add: ds(3) field_simps)
  qed
  have "quot A a = map (cf ds) [0..<length A - 1]" unfolding quot_def ser [symmetric] by (rule refl)
  also have "\<dots> = ds" by (rule nth_equalityI) (simp_all add: ds(1))
  finally have "quot A a = ds" .
  with ds show "length (quot A a) = length A - 1" "cf A 0 = - a * cf (quot A a) 0"
    "cf A (Suc i) = cf (quot A a) i - a * cf (quot A a) (Suc i)" "peval A x = (x - a) * peval (quot A a) x" by simp_all
qed

text \<open>The derivative of \<open>A\<close> at a root is the value of the quotient there.\<close>

definition deriv :: "'a::field list \<Rightarrow> 'a list" where
  "deriv A = map (\<lambda>i. cf A (Suc i) * of_nat (Suc i)) [0..<length A - 1]"

lemma peval_deriv:
  fixes A :: "'a::field list"
  assumes A: "A \<noteq> []" "peval A a = 0" "a \<noteq> 0"
  shows "peval (deriv A) a = peval (quot A a) a"
proof -
  let ?q = "cf (quot A a)"
  have step: "(\<Sum>i<n. cf A (Suc i) * of_nat (Suc i) * a ^ i) = (\<Sum>i<n. ?q i * a ^ i) - of_nat n * ?q n * a ^ n" for n
  proof (induction n)
    case (Suc n)
    have "(\<Sum>i<Suc n. cf A (Suc i) * of_nat (Suc i) * a ^ i)
        = (\<Sum>i<n. ?q i * a ^ i) - of_nat n * ?q n * a ^ n + (?q n - a * ?q (Suc n)) * of_nat (Suc n) * a ^ n"
      using Suc by (simp add: quot_coeffs(3) [OF A])
    then show ?case by (simp add: algebra_simps)
  qed simp
  have "peval (deriv A) a = (\<Sum>i<length A - 1. cf A (Suc i) * of_nat (Suc i) * a ^ i)" by (simp add: peval_sum deriv_def)
  also have "\<dots> = (\<Sum>i<length A - 1. ?q i * a ^ i)" unfolding step using quot_coeffs(1) [OF A] by simp
  also have "\<dots> = peval (quot A a) a" using peval_cf [of "quot A a" "length A - 1"] quot_coeffs(1) [OF A] by simp
  finally show ?thesis .
qed

text \<open>With distinct roots, and a polynomial that vanishes nowhere else, the derivative is not zero there.\<close>

lemma quot_nonzero:
  fixes A :: "'a::field list"
  assumes A: "A \<noteq> []" "length A = Suc D" "\<And>i. i < D \<Longrightarrow> peval A (x i) = 0 \<and> x i \<noteq> 0" and x: "inj_on x {..<D}"
    and z: "peval A z \<noteq> 0" and i: "i < D"
  shows "peval (quot A (x i)) (x i) \<noteq> 0"
proof
  assume e: "peval (quot A (x i)) (x i) = 0"
  note q = quot_coeffs [OF A(1) conjunct1 [OF A(3) [OF i]] conjunct2 [OF A(3) [OF i]]]
  have "peval (quot A (x i)) v = 0" if v: "v \<in> set (map x [0..<D])" for v
  proof -
    obtain k where k: "k < D" "v = x k" using v by auto
    show ?thesis
    proof (cases "k = i")
      case False
      then have "x k \<noteq> x i" using x k(1) i by (auto dest: inj_onD)
      then show ?thesis using q(4) [of "x k"] A(3) [OF k(1)] k(2) by simp
    qed (simp add: k(2) e)
  qed
  note zero = this
  have "distinct (map x [0..<D])" using x by (simp add: distinct_map lessThan_atLeast0)
  then have "peval (quot A (x i)) z = 0" by (rule peval_roots_zero) (simp add: q(1) A(2), rule zero)
  then show False using z q(4) [of z] by simp
qed

lemma interpolation:
  fixes A :: "'a::field list"
  assumes A: "A \<noteq> []" "length A = Suc D" "\<And>i. i < D \<Longrightarrow> peval A (x i) = 0 \<and> x i \<noteq> 0" and x: "inj_on x {..<D}"
    and w: "\<And>i. i < D \<Longrightarrow> w i * peval (quot A (x i)) (x i) = y i" and k: "k < D"
  shows "peval (map (\<lambda>m. \<Sum>i<D. w i * cf (quot A (x i)) m) [0..<D]) (x k) = y k"
proof -
  have "peval (map (\<lambda>m. \<Sum>i<D. w i * cf (quot A (x i)) m) [0..<D]) (x k)
      = (\<Sum>m<D. \<Sum>i<D. w i * cf (quot A (x i)) m * x k ^ m)"
    by (simp add: peval_sum sum_distrib_right)
  also have "\<dots> = (\<Sum>i<D. \<Sum>m<D. w i * cf (quot A (x i)) m * x k ^ m)" by (rule sum.swap)
  also have "\<dots> = (\<Sum>i<D. w i * (\<Sum>m<D. cf (quot A (x i)) m * x k ^ m))"
    by (simp add: sum_distrib_left mult.assoc)
  also have "\<dots> = (\<Sum>i<D. w i * peval (quot A (x i)) (x k))"
  proof (rule sum.cong [OF refl])
    fix i
    have "length (quot A (x i)) \<le> D" using A(2) by (simp add: quot_def)
    then show "w i * (\<Sum>m<D. cf (quot A (x i)) m * x k ^ m) = w i * peval (quot A (x i)) (x k)"
      by (simp only: peval_cf)
  qed
  also have "\<dots> = (\<Sum>i<D. if i = k then y k else 0)"
  proof (intro sum.cong refl)
    fix i
    assume "i \<in> {..<D}"
    then have i: "i < D" by simp
    show "w i * peval (quot A (x i)) (x k) = (if i = k then y k else 0)"
    proof (cases "i = k")
      case False
      then have "x k \<noteq> x i" using x i k by (auto dest: inj_onD)
      moreover have "peval A (x k) = (x k - x i) * peval (quot A (x i)) (x k)"
        using A(3) [OF i] by (intro quot_coeffs(4) A(1)) simp_all
      ultimately show ?thesis using A(3) [OF k] False by simp
    qed (simp add: w k)
  qed
  also have "\<dots> = y k" using k by simp
  finally show ?thesis .
qed

text \<open>Both transforms at once: a level \<open>pow_u\<close> is that of all roots or of the half of them.\<close>

lemma pss_DFT_level:
  fixes s :: "'a::field pss"
  assumes ok: "pss_ok s" and p: "pow_u = psNearestPow s \<or> pow_u = psNearestPow s - 1" and c: "length c = 2 ^ pow_u"
  shows "pss_DFT s c pow_u = Inr (map (\<lambda>k. peval c (pss_gen s pow_u ^ k)) [0..<2 ^ pow_u])"
proof (cases "pow_u = psNearestPow s")
  case True
  then show ?thesis using pss_DFT_full(1) [OF ok] c by (simp add: pss_gen_def)
next
  case False
  then show ?thesis using pss_DFT_half [OF ok] c p by (simp add: pss_gen_def power_mult power2_eq_square)
qed

lemma pss_gen_N:
  fixes s :: "'a::field pss"
  assumes ok: "pss_ok s" and p: "pow_u = psNearestPow s \<or> pow_u = psNearestPow s - 1"
  shows "pss_gen s pow_u ^ 2 ^ pow_u = 1"
proof (cases "pow_u = psNearestPow s")
  case True
  then show ?thesis using root_power_N pss_okD [OF ok] by (simp add: pss_gen_def)
next
  case False
  then have p1: "pow_u = psNearestPow s - 1" using p by simp
  then have "(psGenerator s * psGenerator s) ^ 2 ^ pow_u = psGenerator s ^ (2 * 2 ^ pow_u)" by (simp add: power_mult power2_eq_square)
  also have "2 * 2 ^ pow_u = (2 :: nat) ^ psNearestPow s" using p1 pss_okD(1) [OF ok] by (cases "psNearestPow s") simp_all
  finally show ?thesis using root_power_N [OF pss_okD(3,1) [OF ok]] False by (simp add: pss_gen_def)
qed

text \<open>The values at the points become the coefficients of the polynomial through them.\<close>

lemma interpolate_points:
  fixes s :: "'a::field pss"
  assumes ok: "pss_ok s" and p: "pow_u = psNearestPow s \<or> pow_u = psNearestPow s - 1" "0 < pow_u"
    and D: "psD s + 1 = int D" "2 * D \<le> 2 ^ psNearestPow s" "D \<le> 2 ^ pow_u" "0 < D"
    and e: "inj_on e {..<D}" "\<And>i. i < D \<Longrightarrow> e i < 2 ^ pow_u"
    and x: "\<And>i. i < D \<Longrightarrow> x i = pss_gen s pow_u ^ e i" "inj_on x {..<D}"
    and v: "length v \<le> 2 ^ pow_u" "\<And>i. i < D \<Longrightarrow> cf v (e i) = w i" "\<And>j. j \<notin> e ` {..<D} \<Longrightarrow> cf v j = 0"
    and A: "length A = Suc D" "\<And>i. i < D \<Longrightarrow> peval A (x i) = 0"
    and w: "\<And>i. i < D \<Longrightarrow> w i * peval (quot A (x i)) (x i) = y i"
  obtains n_i c where "computeN s v pow_u = Inr n_i" "polyMult s n_i A = Inr (c, A)" "erase_from c (psD s + 1) = Inr (take D c)"
    "length (take D c) = D" "\<And>i. i < D \<Longrightarrow> peval (take D c) (x i) = y i"
proof -
  let ?N = "2 ^ pow_u :: nat" and ?G = "pss_gen s pow_u"
  have GN: "?G ^ ?N = 1" by (rule pss_gen_N [OF ok p(1)])
  have xN: "x i ^ ?N = 1" if "i < D" for i
  proof -
    have "x i ^ ?N = (?G ^ ?N) ^ e i" using x(1) [OF that] by (simp add: mult.commute flip: power_mult)
    then show ?thesis using GN by simp
  qed
  have x0: "x i \<noteq> 0" if "i < D" for i using xN [OF that] by (auto simp: power_0_left)
  note prep = prepareCoeffs_simps [OF v(1)]
  have "pss_DFT s (prepareCoeffs pow_u v) pow_u = Inr (map (\<lambda>k. peval v (?G ^ k)) [0..<?N])"
    using pss_DFT_level [OF ok p(1) prep(1)] by (simp only: prep(2))
  then have C: "computeN s v pow_u = Inr (map (\<lambda>i. - map (\<lambda>k. peval v (?G ^ k)) [0..<?N] ! (?N - 1 - i)) [0..<D])"
    using D by (intro computeN_loops [OF ok p(2)]) simp_all
  have pv: "peval v (?G ^ k) = (\<Sum>i<D. w i * x i ^ k)" for k
  proof -
    have "peval v (?G ^ k) = (\<Sum>m<?N. cf v m * (?G ^ k) ^ m)" using v(1) by (rule peval_cf)
    also have "\<dots> = (\<Sum>m \<in> e ` {..<D}. cf v m * (?G ^ k) ^ m)"
      by (rule sum.mono_neutral_right) (use e v(3) in auto)
    also have "\<dots> = (\<Sum>i<D. cf v (e i) * (?G ^ k) ^ e i)" by (rule sum.reindex_cong [OF e(1) refl refl])
    also have "\<dots> = (\<Sum>i<D. w i * x i ^ k)"
      by (rule sum.cong) (simp_all add: v(2) x(1) mult.commute flip: power_mult)
    finally show ?thesis .
  qed
  define n_i where "n_i = map (\<lambda>m. - (\<Sum>i<D. w i * inverse (x i) ^ Suc m)) [0..<D]"
  have "- map (\<lambda>k. peval v (?G ^ k)) [0..<?N] ! (?N - 1 - m) = - (\<Sum>i<D. w i * inverse (x i) ^ Suc m)" if m: "m < D" for m
  proof -
    have lt: "?N - 1 - m < ?N" using m D by simp
    have inv: "x i ^ (?N - 1 - m) = inverse (x i) ^ Suc m" if "i < D" for i
    proof -
      have "(?N - 1 - m) + Suc m = ?N" using m D(3) by linarith
      then have "x i ^ (?N - 1 - m) * x i ^ Suc m = 1" using xN [OF that] by (metis power_add)
      then have "x i ^ (?N - 1 - m) = inverse (x i ^ Suc m)" by (metis inverse_unique mult.commute)
      then show ?thesis by (simp only: power_inverse)
    qed
    have "map (\<lambda>k. peval v (?G ^ k)) [0..<?N] ! (?N - 1 - m) = (\<Sum>i<D. w i * x i ^ (?N - 1 - m))"
      using lt by (simp add: pv)
    also have "\<dots> = (\<Sum>i<D. w i * inverse (x i) ^ Suc m)" by (rule sum.cong) (simp_all only: inv lessThan_iff)
    finally show ?thesis by simp
  qed
  then have n_i: "computeN s v pow_u = Inr n_i" unfolding C n_i_def by simp
  have ne: "n_i \<noteq> []" "A \<noteq> []" using D(4) A(1) by (auto simp: n_i_def)
  have lens: "length n_i = D" by (simp add: n_i_def)
  have pm: "polyMult s n_i A = Inr (conv n_i A, A)"
    by (rule polyMult_correct [OF ok ne]) (use D A(1) lens in simp)
  have lc: "length (conv n_i A) = 2 * D" using lens A(1) by (simp add: conv_simps ne)
  have coeff: "cf (conv n_i A) k = (\<Sum>i<D. w i * cf (quot A (x i)) k)" if k: "k < D" for k
  proof -
    have "cf (conv n_i A) k = (\<Sum>j\<le>k. - (\<Sum>i<D. w i * inverse (x i) ^ Suc j) * cf A (k - j))"
      unfolding conv_simps(2) [OF ne] by (rule sum.cong) (use k in \<open>simp_all add: n_i_def cf_def\<close>)
    also have "\<dots> = (\<Sum>j\<le>k. \<Sum>i<D. - (w i * inverse (x i) ^ Suc j * cf A (k - j)))"
      by (simp add: sum_distrib_right sum_negf)
    also have "\<dots> = (\<Sum>i<D. \<Sum>j\<le>k. - (w i * inverse (x i) ^ Suc j * cf A (k - j)))" by (rule sum.swap)
    also have "\<dots> = (\<Sum>i<D. w i * cf (quot A (x i)) k)"
    proof (rule sum.cong [OF refl])
      fix i
      have "cf (quot A (x i)) k = - (\<Sum>j\<le>k. cf A (k - j) * inverse (x i) ^ Suc j)"
        using k A(1) by (subst cf_nth) (simp_all add: quot_def)
      then show "(\<Sum>j\<le>k. - (w i * inverse (x i) ^ Suc j * cf A (k - j))) = w i * cf (quot A (x i)) k"
        by (simp add: sum_negf sum_distrib_left ac_simps)
    qed
    finally show ?thesis .
  qed
  have T: "take D (conv n_i A) = map (\<lambda>m. \<Sum>i<D. w i * cf (quot A (x i)) m) [0..<D]"
  proof (rule nth_equalityI)
    fix k
    assume "k < length (take D (conv n_i A))"
    then have "k < D" "k < length (conv n_i A)" using lc by simp_all
    then show "take D (conv n_i A) ! k = map (\<lambda>m. \<Sum>i<D. w i * cf (quot A (x i)) m) [0..<D] ! k"
      using coeff [of k] by simp
  qed (simp add: lc)
  show ?thesis
  proof (rule that [OF n_i pm])
    show "erase_from (conv n_i A) (psD s + 1) = Inr (take D (conv n_i A))" using lc D(1) by (simp add: erase_from_def)
    show "length (take D (conv n_i A)) = D" using lc by simp
    show "peval (take D (conv n_i A)) (x i) = y i" if "i < D" for i
      unfolding T using A(2) x0 by (intro interpolation [OF ne(2) A(1) _ x(2) w that]) auto
  qed
qed

end
