(* ===== verification/PSSShare.thy ===== *)
theory PSSShare
  imports PSSInterp
begin

text \<open>
  Correctness of \<open>OptimizedPSS\<close>: what its constructor establishes, the values that \<open>secretShareValues\<close>
  returns, and the result of \<open>recoverSS\<close> on every list of points, honest or not.
\<close>

section \<open>Loops over int ranges\<close>

lemma upto_int: "[0..int m - 1] = map int [0..<m]"
  by (induction m) (simp_all add: upto_rec2)

lemma mapE_map: "mapE f (map g xs) = mapE (\<lambda>x. f (g x)) xs"
  by (induction xs) simp_all

lemma mapE_upto:
  assumes "\<And>i. i < m \<Longrightarrow> f (int i) = Inr (g i)"
  shows "mapE f [0..int m - 1] = Inr (map g [0..<m])"
  unfolding upto_int mapE_map by (rule mapE_Inr) (simp add: assms)

lemma vgetI_int [simp]: "i < length xs \<Longrightarrow> vgetI xs (int i) = Inr (xs ! i)"
  by (simp add: vgetI_def)

lemma vsetI_int [simp]: "i < length xs \<Longrightarrow> vsetI xs (int i) x = Inr (xs[i := x])"
  by (simp add: vsetI_def)

text \<open>A loop that writes given values to distinct places.\<close>

lemma foldE_writes:
  assumes f: "\<And>i v. i < m \<Longrightarrow> length v = L \<Longrightarrow> f (int i) v = Inr (v[p i := val i])"
    and p: "inj_on p {..<m}" "\<And>i. i < m \<Longrightarrow> p i < L" and v: "length v = L"
  obtains v' where "foldE f [0..int m - 1] v = Inr v'" "length v' = L" "\<And>i. i < m \<Longrightarrow> v' ! p i = val i"
    "\<And>j. j \<notin> p ` {..<m} \<Longrightarrow> v' ! j = v ! j"
proof -
  let ?I = "\<lambda>k w. length w = L \<and> (\<forall>i < k. w ! p i = val i) \<and> (\<forall>j. j \<notin> p ` {..<k} \<longrightarrow> w ! j = v ! j)"
  have "\<exists>v'. foldE (\<lambda>i. f (int i)) [0..<m] v = Inr v' \<and> ?I m v'"
  proof (rule foldE_upt_invariant [where I = ?I])
    fix k w
    assume k: "k < m" and I: "?I k w"
    have "p k \<noteq> p i" if "i < k" for i using p(1) that k by (auto dest: inj_onD)
    then have "?I (Suc k) (w[p k := val k])"
      using I p(2) [OF k] by (auto simp: less_Suc_eq lessThan_Suc)
    then show "\<exists>w'. f (int k) w = Inr w' \<and> ?I (Suc k) w'" using f [OF k] I by blast
  qed (simp add: v)
  then show ?thesis using that unfolding upto_int foldE_map by blast
qed

text \<open>The loop that moves the even places to the front.\<close>

lemma foldE_compact:
  fixes v :: "'a list"
  assumes "2 * m \<le> length v"
  obtains v' where "foldE (\<lambda>i v. bindE (vgetI v (2 * i)) (\<lambda>x. vsetI v i x)) [0..int m - 1] v = Inr v'"
    "length v' = length v" "take m v' = map (\<lambda>i. v ! (2 * i)) [0..<m]"
proof -
  let ?f = "\<lambda>i v. bindE (vgetI v (2 * i)) (\<lambda>x. vsetI v i x)"
  let ?I = "\<lambda>k w. length w = length v \<and> (\<forall>i < length v. w ! i = (if i < k then v ! (2 * i) else v ! i))"
  have "\<exists>v'. foldE (\<lambda>i. ?f (int i)) [0..<m] v = Inr v' \<and> ?I m v'"
  proof (rule foldE_upt_invariant [where I = ?I])
    fix k w
    assume k: "k < m" and I: "?I k w"
    have "2 * k < length w" "k < length w" using I k assms by simp_all
    then have "?f (int k) w = Inr (w[k := w ! (2 * k)])"
      using vgetI_int [of "2 * k" w] by simp
    moreover have "?I (Suc k) (w[k := w ! (2 * k)])"
      using I k assms by (auto simp: nth_list_update less_Suc_eq)
    ultimately show "\<exists>w'. ?f (int k) w = Inr w' \<and> ?I (Suc k) w'" by blast
  qed simp
  then obtain v' where v': "foldE (\<lambda>i. ?f (int i)) [0..<m] v = Inr v'" "?I m v'" by blast
  then have "take m v' = map (\<lambda>i. v ! (2 * i)) [0..<m]" using assms by (intro nth_equalityI) simp_all
  with v' show ?thesis using that unfolding upto_int foldE_map by blast
qed

lemma erase_from_nat: "k \<le> length xs \<Longrightarrow> erase_from xs (int k) = Inr (take k xs)"
  by (simp add: erase_from_def)

section \<open>The invariant of an object\<close>

text \<open>Root \<open>k\<close> is the power \<open>rpos k\<close> of the generator: the even powers come first.\<close>

definition rpos :: "nat \<Rightarrow> nat \<Rightarrow> nat" where
  "rpos half k = (if k < half then 2 * k else 2 * (k - half) + 1)"

lemma rpos_less: "k < 2 * half \<Longrightarrow> rpos half k < 2 * half"
  by (auto simp: rpos_def)

lemma rpos_inj: "rpos half i = rpos half j \<Longrightarrow> i = j"
  by (auto simp: rpos_def split: if_splits) presburger+

abbreviation half_pts :: "'a pss \<Rightarrow> nat" where
  "half_pts s \<equiv> 2 ^ (psNearestPow s - 1)"

definition pss_root :: "'a::field pss \<Rightarrow> nat \<Rightarrow> 'a" where
  "pss_root s k = psGenerator s ^ rpos (half_pts s) k"

text \<open>\<open>A\<close> vanishes at the roots \<open>b, \<dots>, b + d\<close>, and \<open>ws\<close> holds the inverses of its derivative there.\<close>

definition vanishes :: "'a::field pss \<Rightarrow> nat \<Rightarrow> 'a list \<Rightarrow> 'a list \<Rightarrow> nat \<Rightarrow> bool" where
  "vanishes s d A ws b \<longleftrightarrow> length A = d + 2 \<and> length ws = d + 1 \<and>
     (\<forall>i \<le> d. peval A (pss_root s (b + i)) = 0 \<and> ws ! i * peval (quot A (pss_root s (b + i))) (pss_root s (b + i)) = 1)"

definition pss_inv :: "'a::field pss \<Rightarrow> nat \<Rightarrow> nat \<Rightarrow> nat \<Rightarrow> bool" where
  "pss_inv s l d n \<longleftrightarrow> pss_ok s \<and> 2 \<le> psNearestPow s \<and> psL s = int l \<and> psD s = int d \<and> psN s = int n \<and>
     l \<le> d \<and> d < n \<and> d < half_pts s \<and> l + n \<le> 2 * half_pts s \<and>
     vanishes s d (psAShare s) (psAPtsShare s) 0 \<and> vanishes s d (psARecover s) (psAPtsRecover s) l"

lemma pss_invD:
  assumes "pss_inv s l d n"
  shows "pss_ok s" "2 \<le> psNearestPow s" "psL s = int l" "psD s = int d" "psN s = int n" "l \<le> d" "d < n"
    "d < half_pts s" "l + n \<le> 2 * half_pts s" "2 ^ psNearestPow s = 2 * half_pts s"
    "vanishes s d (psAShare s) (psAPtsShare s) 0" "vanishes s d (psARecover s) (psAPtsRecover s) l"
proof -
  show "2 ^ psNearestPow s = 2 * half_pts s"
    using assms by (cases "psNearestPow s") (simp_all add: pss_inv_def)
qed (use assms in \<open>simp_all add: pss_inv_def\<close>)

lemma root_inj:
  assumes "pss_ok s" "pss_root s i = pss_root s j" "i < 2 * half_pts s" "j < 2 * half_pts s"
  shows "i = j"
proof -
  have N: "2 * half_pts s = 2 ^ psNearestPow s" using pss_okD(1) [OF assms(1)] by (cases "psNearestPow s") simp_all
  have "rpos (half_pts s) i = rpos (half_pts s) j"
    using assms(2) rpos_less [OF assms(3)] rpos_less [OF assms(4)] unfolding pss_root_def N
    by (intro root_power_inj [OF pss_okD(3,4) [OF assms(1)]])
  then show ?thesis by (rule rpos_inj)
qed

section \<open>From points to coefficients\<close>

lemma root_inj_on:
  assumes "pss_ok s" "b + D \<le> 2 * half_pts s"
  shows "inj_on (\<lambda>i. pss_root s (b + i)) {..<D}"
proof (rule inj_onI)
  fix i j
  assume "i \<in> {..<D}" "j \<in> {..<D}" "pss_root s (b + i) = pss_root s (b + j)"
  then have "b + i = b + j" using assms by (intro root_inj [of s]) simp_all
  then show "i = j" by simp
qed

lemma vanishesD:
  assumes "vanishes s d A ws b"
  shows "length A = Suc (d + 1)" "length ws = d + 1" "i < d + 1 \<Longrightarrow> peval A (pss_root s (b + i)) = 0"
    "i < d + 1 \<Longrightarrow> y * ws ! i * peval (quot A (pss_root s (b + i))) (pss_root s (b + i)) = y"
  using assms by (auto simp: vanishes_def less_Suc_eq_le mult.assoc)

lemma ptToCoeff_share:
  fixes s :: "'a::field pss"
  assumes inv: "pss_inv s l d n" and pts: "length pts = d + 1"
  obtains c where "ptToCoeff s pts (psNearestPow s - 1) True = Inr (c, s)" "length c = d + 1"
    "\<And>i. i \<le> d \<Longrightarrow> peval c (pss_root s i) = pts ! i"
proof -
  note I = pss_invD [OF inv]
  let ?p = "psNearestPow s - 1" and ?ws = "psAPtsShare s"
  let ?v = "map (\<lambda>i. pts ! i * ?ws ! i) [0..<d + 1]"
  have D: "psD s + 1 = int (d + 1)" "2 * (d + 1) \<le> 2 ^ psNearestPow s" "d + 1 \<le> 2 ^ ?p" "0 < ?p"
    using I(2,4,8,10) by simp_all
  have van: "vanishes s d (psAShare s) ?ws 0" by (rule I(11))
  have "psNearestPow s - 1 \<noteq> psNearestPow s" using I(2) by simp
  then have gen: "pss_root s i = pss_gen s ?p ^ i" if "i < d + 1" for i
    using that I(8) by (simp add: pss_root_def rpos_def pss_gen_def power_mult power2_eq_square)
  obtain n_i c where c: "computeN s ?v ?p = Inr n_i" "polyMult s n_i (psAShare s) = Inr (c, psAShare s)"
    "erase_from c (psD s + 1) = Inr (take (d + 1) c)" "length (take (d + 1) c) = d + 1"
    "\<And>i. i < d + 1 \<Longrightarrow> peval (take (d + 1) c) (pss_root s i) = pts ! i"
  proof (rule interpolate_points [OF I(1) _ D(4,1,2,3), where e = "\<lambda>i. i" and x = "pss_root s" and v = ?v
        and w = "\<lambda>i. pts ! i * ?ws ! i" and A = "psAShare s" and y = "(!) pts"])
    show "inj_on (pss_root s) {..<d + 1}" using root_inj_on [OF I(1), of 0 "d + 1"] I(8) by simp
    show "length (psAShare s) = Suc (d + 1)" by (rule vanishesD(1) [OF van])
    show "i < d + 1 \<Longrightarrow> peval (psAShare s) (pss_root s i) = 0" for i using vanishesD(3) [OF van, of i] by simp
    show "i < d + 1 \<Longrightarrow> pts ! i * ?ws ! i * peval (quot (psAShare s) (pss_root s i)) (pss_root s i) = pts ! i" for i
      using vanishesD(4) [OF van, of i] by simp
    show "length ?v \<le> 2 ^ (psNearestPow s - 1)" using D(3) by simp
    show "cf ?v i = pts ! i * ?ws ! i" if "i < d + 1" for i using that by (subst cf_nth) (simp_all del: upt_Suc)
    show "cf ?v j = 0" if "j \<notin> (\<lambda>i. i) ` {..<d + 1}" for j using that by (simp add: cf_def)
    show "i < 2 ^ (psNearestPow s - 1)" if "i < d + 1" for i using that D(3) by simp
  qed (use gen in simp_all)
  have v: "mapE (\<lambda>i. bindE (vgetI pts i) (\<lambda>y. bindE (vgetI (psAPtsShare s) i) (\<lambda>a. Inr (y * a)))) [0..psD s] = Inr ?v"
    using mapE_upto [of "d + 1" "\<lambda>i. bindE (vgetI pts i) (\<lambda>y. bindE (vgetI ?ws i) (\<lambda>a. Inr (y * a)))" "\<lambda>i. pts ! i * ?ws ! i"]
      pts vanishesD(2) [OF van] by (simp add: I(4))
  have len: "(int (length pts) \<noteq> psD s + 1) = False" using pts I(4) by simp
  have "ptToCoeff s pts ?p True = Inr (take (d + 1) c, s)"
    by (simp only: ptToCoeff_def len throw_if_simps if_True v c(1-3) bindE_simps prod.case) simp
  then show ?thesis using that c(4,5) by (simp add: less_Suc_eq_le)
qed

text \<open>The points for a recovery lie at the places \<open>rpos (l + i)\<close> of the vector of all powers.\<close>

definition place_points :: "'a::field pss \<Rightarrow> 'a list \<Rightarrow> 'a list res" where
  "place_points s samplePoints =
     (let half = 2 ^ (psNearestPow s - 1);
          stop = (if psL s + psD s + 1 < half then psD s + 1 else half - psL s) in
      bindE (foldE (\<lambda>i n_i. bindE (vgetI samplePoints i) (\<lambda>y. bindE (vgetI (psAPtsRecover s) i) (\<lambda>a.
          vsetI n_i (2 * (psL s + i)) (y * a)))) [0..stop - 1] (replicate (nat (2 * (psL s + stop))) 0)) (\<lambda>n_i.
      foldE (\<lambda>i n_i. bindE (vgetI samplePoints (i + stop)) (\<lambda>y. bindE (vgetI (psAPtsRecover s) (i + stop)) (\<lambda>a.
          vsetI n_i (2 * i + 1) (y * a)))) [0..psD s + 1 - stop - 1] n_i))"

lemma place_points_correct:
  fixes s :: "'a::field pss"
  assumes inv: "pss_inv s l d n" and pts: "length pts = d + 1"
  obtains v where "place_points s pts = Inr v" "length v \<le> 2 * half_pts s"
    "\<And>i. i < d + 1 \<Longrightarrow> cf v (rpos (half_pts s) (l + i)) = pts ! i * psAPtsRecover s ! i"
    "\<And>j. j \<notin> (\<lambda>i. rpos (half_pts s) (l + i)) ` {..<d + 1} \<Longrightarrow> cf v j = 0"
proof -
  note I = pss_invD [OF inv]
  define half where "half = half_pts s"
  define ws where "ws = psAPtsRecover s"
  define stop where "stop = (if l + d + 1 < half then d + 1 else half - l)"
  have lw: "length ws = d + 1" using vanishesD(2) [OF I(12)] by (simp add: ws_def)
  have ld: "l < half" "d < half" "l + (d + 1) \<le> 2 * half" "0 < half" using I(6,7,8,9) by (simp_all add: half_def)
  have st: "stop \<le> d + 1" "l + stop \<le> half" "l + (d + 1) - half = d + 1 - stop \<or> l + d + 1 < half" "d + 1 - stop \<le> half"
    "d + 1 = stop \<or> l + stop = half" "0 < stop"
    using ld by (auto simp: stop_def)
  define L where "L = 2 * (l + stop)"
  have stop_int: "(if psL s + psD s + 1 < 2 ^ (psNearestPow s - 1) then psD s + 1 else 2 ^ (psNearestPow s - 1) - psL s) = int stop"
  proof -
    have "(int l + int d + 1 < 2 ^ (psNearestPow s - 1)) = (int (l + d + 1) < int half)"
      unfolding half_def by (simp only: of_nat_add of_nat_1 of_nat_power of_nat_numeral)
    then have "(int l + int d + 1 < 2 ^ (psNearestPow s - 1)) = (l + d + 1 < half)" by (simp only: of_nat_less_iff)
    moreover have "2 ^ (psNearestPow s - 1) - int l = int (half - l)" using ld(1) by (simp add: half_def of_nat_diff)
    ultimately show ?thesis by (simp add: stop_def I(3,4))
  qed
  obtain v1 where v1: "foldE (\<lambda>i n_i. bindE (vgetI pts i) (\<lambda>y. bindE (vgetI ws i) (\<lambda>a.
          vsetI n_i (2 * (int l + i)) (y * a)))) [0..int stop - 1] (replicate L 0) = Inr v1"
      "length v1 = L" "\<And>i. i < stop \<Longrightarrow> v1 ! (2 * (l + i)) = pts ! i * ws ! i"
      "\<And>j. j \<notin> (\<lambda>i. 2 * (l + i)) ` {..<stop} \<Longrightarrow> v1 ! j = replicate L 0 ! j"
  proof (rule foldE_writes [where m = stop and L = L and v = "replicate L 0" and p = "\<lambda>i. 2 * (l + i)" and val = "\<lambda>i. pts ! i * ws ! i"])
    fix i and v :: "'a list"
    assume i: "i < stop" "length v = L"
    have e: "2 * (int l + int i) = int (2 * (l + i))" by simp
    show "bindE (vgetI pts (int i)) (\<lambda>y. bindE (vgetI ws (int i)) (\<lambda>a. vsetI v (2 * (int l + int i)) (y * a)))
        = Inr (v[2 * (l + i) := pts ! i * ws ! i])"
      unfolding e using i st(1) pts lw by (simp add: L_def del: of_nat_mult of_nat_add)
  qed ((simp add: inj_on_def L_def; fail) | (rule that; blast))+
  obtain v2 where v2: "foldE (\<lambda>i n_i. bindE (vgetI pts (i + int stop)) (\<lambda>y. bindE (vgetI ws (i + int stop)) (\<lambda>a.
          vsetI n_i (2 * i + 1) (y * a)))) [0..int (d + 1 - stop) - 1] v1 = Inr v2"
      "length v2 = L" "\<And>i. i < d + 1 - stop \<Longrightarrow> v2 ! (2 * i + 1) = pts ! (stop + i) * ws ! (stop + i)"
      "\<And>j. j \<notin> (\<lambda>i. 2 * i + 1) ` {..<d + 1 - stop} \<Longrightarrow> v2 ! j = v1 ! j"
  proof (rule foldE_writes [where m = "d + 1 - stop" and L = L and v = v1 and p = "\<lambda>i. 2 * i + 1" and val = "\<lambda>i. pts ! (stop + i) * ws ! (stop + i)"])
    fix i and v :: "'a list"
    assume i: "i < d + 1 - stop" "length v = L"
    have e: "2 * int i + 1 = int (2 * i + 1)" "int i + int stop = int (stop + i)" by simp_all
    have lt: "2 * i + 1 < length v" "stop + i < d + 1" using i st by (auto simp: L_def)
    show "bindE (vgetI pts (int i + int stop)) (\<lambda>y. bindE (vgetI ws (int i + int stop)) (\<lambda>a. vsetI v (2 * int i + 1) (y * a)))
        = Inr (v[2 * i + 1 := pts ! (stop + i) * ws ! (stop + i)])"
      unfolding e using lt pts lw by (simp only: vgetI_int vsetI_int bindE_simps)
  next
    show "inj_on (\<lambda>i. 2 * i + 1) {..<d + 1 - stop}" by (simp add: inj_on_def)
    show "2 * i + 1 < L" if "i < d + 1 - stop" for i using that st by (auto simp: L_def)
  qed (use v1(2) in \<open>blast intro: that\<close>)+
  have "psD s + 1 - int stop = int (d + 1 - stop)" using st(1) by (simp add: I(4) of_nat_diff)
  moreover have "nat (2 * (psL s + int stop)) = L" by (simp add: I(3) L_def nat_add_distrib nat_mult_distrib)
  ultimately have P: "place_points s pts = Inr v2"
    unfolding place_points_def Let_def stop_int using v1(1) v2(1) by (simp only: I(3) ws_def bindE_simps)
  have pos: "rpos half (l + i) = (if i < stop then 2 * (l + i) else 2 * (i - stop) + 1)" if "i < d + 1" for i
    using that st by (auto simp: rpos_def)
  show ?thesis
  proof (rule that [OF P])
    show "length v2 \<le> 2 * half_pts s" using st(2) v2(2) by (simp add: L_def half_def)
    show "cf v2 (rpos (half_pts s) (l + i)) = pts ! i * psAPtsRecover s ! i" if i: "i < d + 1" for i
    proof (cases "i < stop")
      case True
      have "2 * (l + i) \<notin> (\<lambda>i. 2 * i + 1) ` {..<d + 1 - stop}" by auto presburger
      then show ?thesis using True pos [OF i] v2(2,4) v1(3) by (simp add: half_def ws_def cf_def L_def)
    next
      case False
      then have "i - stop < d + 1 - stop" "stop + (i - stop) = i" using i by simp_all
      moreover have "2 * (i - stop) + 1 < L" using i False st by (auto simp: L_def)
      ultimately show ?thesis using False pos [OF i] v2(2) v2(3) [of "i - stop"] by (simp add: half_def ws_def cf_def)
    qed
    show "cf v2 j = 0" if j: "j \<notin> (\<lambda>i. rpos (half_pts s) (l + i)) ` {..<d + 1}" for j
    proof (cases "j < L")
      case True
      have "j \<noteq> 2 * i + 1" if "i < d + 1 - stop" for i
      proof
        assume "j = 2 * i + 1"
        then have "j = rpos half (l + (stop + i))" using pos [of "stop + i"] that by simp
        then show False using j that by (auto simp: half_def)
      qed
      moreover have "j \<noteq> 2 * (l + i)" if "i < stop" for i
      proof
        assume "j = 2 * (l + i)"
        then have "j = rpos half (l + i)" using pos [of i] that st(1) by simp
        then show False using j that st(1) by (auto simp: half_def)
      qed
      ultimately have "v2 ! j = v1 ! j" "v1 ! j = replicate L 0 ! j" by (intro v2(4) v1(4); auto)+
      then show ?thesis using True v2(2) by (simp add: cf_def)
    qed (simp add: cf_def v2(2))
  qed
qed

lemma ptToCoeff_recover:
  fixes s :: "'a::field pss"
  assumes inv: "pss_inv s l d n" and pts: "length pts = d + 1"
  obtains c where "ptToCoeff s pts (psNearestPow s) False = Inr (c, s)" "length c = d + 1"
    "\<And>i. i \<le> d \<Longrightarrow> peval c (pss_root s (l + i)) = pts ! i"
proof -
  note I = pss_invD [OF inv]
  let ?ws = "psAPtsRecover s" and ?half = "half_pts s"
  obtain v where v: "place_points s pts = Inr v" "length v \<le> 2 * ?half"
    "\<And>i. i < d + 1 \<Longrightarrow> cf v (rpos ?half (l + i)) = pts ! i * ?ws ! i"
    "\<And>j. j \<notin> (\<lambda>i. rpos ?half (l + i)) ` {..<d + 1} \<Longrightarrow> cf v j = 0"
    using place_points_correct [OF inv pts] by blast
  have D: "psD s + 1 = int (d + 1)" "2 * (d + 1) \<le> 2 ^ psNearestPow s" "d + 1 \<le> 2 ^ psNearestPow s" "0 < psNearestPow s" "0 < d + 1"
    using I(2,4,8,10) by simp_all
  have ld: "l + (d + 1) \<le> 2 * ?half" using I(7,9) by simp
  have van: "vanishes s d (psARecover s) ?ws l" by (rule I(12))
  have gen: "pss_gen s (psNearestPow s) = psGenerator s" by (simp add: pss_gen_def)
  obtain n_i c where c: "computeN s v (psNearestPow s) = Inr n_i" "polyMult s n_i (psARecover s) = Inr (c, psARecover s)"
    "erase_from c (psD s + 1) = Inr (take (d + 1) c)" "length (take (d + 1) c) = d + 1"
    "\<And>i. i < d + 1 \<Longrightarrow> peval (take (d + 1) c) (pss_root s (l + i)) = pts ! i"
  proof (rule interpolate_points [OF I(1) _ D(4,1,2,3,5), where e = "\<lambda>i. rpos ?half (l + i)" and x = "\<lambda>i. pss_root s (l + i)" and v = v
        and w = "\<lambda>i. pts ! i * ?ws ! i" and A = "psARecover s" and y = "(!) pts"])
    show "inj_on (\<lambda>i. rpos ?half (l + i)) {..<d + 1}" by (rule inj_onI) (drule rpos_inj, simp)
    show "rpos ?half (l + i) < 2 ^ psNearestPow s" if "i < d + 1" for i
      unfolding I(10) by (rule rpos_less) (use that ld in simp)
    show "inj_on (\<lambda>i. pss_root s (l + i)) {..<d + 1}" by (rule root_inj_on [OF I(1) ld])
    show "pss_root s (l + i) = pss_gen s (psNearestPow s) ^ rpos ?half (l + i)" for i by (simp add: pss_root_def gen)
    show "length v \<le> 2 ^ psNearestPow s" unfolding I(10) by (rule v(2))
    show "length (psARecover s) = Suc (d + 1)" by (rule vanishesD(1) [OF van])
    show "i < d + 1 \<Longrightarrow> peval (psARecover s) (pss_root s (l + i)) = 0" for i by (rule vanishesD(3) [OF van])
    show "i < d + 1 \<Longrightarrow> pts ! i * ?ws ! i * peval (quot (psARecover s) (pss_root s (l + i))) (pss_root s (l + i)) = pts ! i" for i
      by (rule vanishesD(4) [OF van])
  qed (use v(3,4) in simp_all)
  have len: "(int (length pts) \<noteq> psD s + 1) = False" using pts I(4) by simp
  have "ptToCoeff s pts (psNearestPow s) False = Inr (take (d + 1) c, s)"
    by (simp only: ptToCoeff_def len throw_if_simps if_False v(1) [unfolded place_points_def] c(1-3) bindE_simps prod.case) simp
  then show ?thesis using that c(4,5) by (simp add: less_Suc_eq_le)
qed

section \<open>Sharing\<close>

text \<open>The values of a polynomial at all powers of the generator, picked in the order of the roots.\<close>

lemma pss_DFT_prepared:
  fixes s :: "'a::field pss"
  assumes ok: "pss_ok s" and c: "length c \<le> 2 * half_pts s"
  obtains px where "pss_DFT s (prepareCoeffs (psNearestPow s) c) (psNearestPow s) = Inr px" "length px = 2 * half_pts s"
    "\<And>i. i < half_pts s \<Longrightarrow> px ! (2 * i) = peval c (pss_root s i)"
    "\<And>i. i < half_pts s \<Longrightarrow> px ! (2 * i + 1) = peval c (pss_root s (half_pts s + i))"
proof -
  have N: "2 ^ psNearestPow s = 2 * half_pts s" using pss_okD(1) [OF ok] by (cases "psNearestPow s") simp_all
  have "length c \<le> 2 ^ psNearestPow s" using c unfolding N .
  note prep = prepareCoeffs_simps [OF this]
  let ?px = "map (\<lambda>k. peval c (psGenerator s ^ k)) [0..<2 * half_pts s]"
  have "pss_DFT s (prepareCoeffs (psNearestPow s) c) (psNearestPow s) = Inr ?px"
    using pss_DFT_full(1) [OF ok prep(1)] by (simp only: prep(2) N)
  moreover have "?px ! (2 * i) = peval c (pss_root s i)" "?px ! (2 * i + 1) = peval c (pss_root s (half_pts s + i))"
    if "i < half_pts s" for i
    using that by (simp_all add: pss_root_def rpos_def nth_append del: upt_Suc)
  ultimately show ?thesis using that by simp
qed

text \<open>The values that define the polynomial: the secrets, filled up with random values.\<close>

definition defining_points :: "('g \<Rightarrow> 'a \<times> 'g) \<Rightarrow> 'g \<Rightarrow> 'a pss \<Rightarrow> 'a list \<times> 'g" where
  "defining_points rnd prg s = fold (\<lambda>i (pts, prg). let (x, prg) = rnd prg in (pts @ [x], prg))
     [0..psD s + 1 - int (length (psSecrets s)) - 1] (psSecrets s, prg)"

lemma defining_points:
  assumes "defining_points rnd prg s = (pts, prg')" "psD s = int d" "length (psSecrets s) \<le> d + 1"
  shows "length pts = d + 1" "take (length (psSecrets s)) pts = psSecrets s"
proof -
  have *: "\<exists>rs prg'. fold (\<lambda>i (pts, prg). let (x, prg) = rnd prg in (pts @ [x], prg)) is (pts, prg) = (pts @ rs, prg')
      \<and> length rs = length is" for "is" :: "int list" and pts prg
  proof (induction "is" arbitrary: pts prg)
    case (Cons i "is")
    obtain x prg1 where r: "rnd prg = (x, prg1)" by (cases "rnd prg")
    from Cons.IH [of "pts @ [x]" prg1] obtain rs prg2 where
      "fold (\<lambda>i (pts, prg). let (x, prg) = rnd prg in (pts @ [x], prg)) is (pts @ [x], prg1) = ((pts @ [x]) @ rs, prg2)"
      "length rs = length is" by blast
    with r show ?case by (intro exI [of _ "x # rs"] exI [of _ prg2]) simp
  qed simp
  obtain rs prg2 where "defining_points rnd prg s = (psSecrets s @ rs, prg2)"
    "length rs = length [0..psD s + 1 - int (length (psSecrets s)) - 1]"
    using * unfolding defining_points_def by blast
  with assms show "length pts = d + 1" "take (length (psSecrets s)) pts = psSecrets s"
    by (auto simp: nat_diff_distrib')
qed

text \<open>
  The shares are the values at the roots \<open>l, \<dots>, l + n - 1\<close> of the polynomial of degree at most \<open>d\<close> whose
  values at the first roots are the secrets and then random values.
\<close>

lemma pss_share_values:
  fixes s :: "'a::field pss"
  assumes inv: "pss_inv s l d n" and sec: "length (psSecrets s) \<le> d + 1"
    and pts: "defining_points rnd prg s = (pts, prg')"
  obtains c where "pss_share rnd prg s = Inr (map (\<lambda>j. peval c (pss_root s (l + j))) [0..<n], s, prg')"
    "length c = d + 1" "\<And>i. i \<le> d \<Longrightarrow> peval c (pss_root s i) = pts ! i"
proof -
  note I = pss_invD [OF inv]
  define half where "half = half_pts s"
  note P = defining_points [OF pts I(4) sec]
  obtain c where c: "ptToCoeff s pts (psNearestPow s - 1) True = Inr (c, s)" "length c = d + 1"
    "\<And>i. i \<le> d \<Longrightarrow> peval c (pss_root s i) = pts ! i" using ptToCoeff_share [OF inv P(1)] by blast
  have cl: "length c \<le> 2 * half_pts s" using c(2) I(8) by simp
  obtain px where px: "pss_DFT s (prepareCoeffs (psNearestPow s) c) (psNearestPow s) = Inr px" "length px = 2 * half"
    "\<And>i. i < half \<Longrightarrow> px ! (2 * i) = peval c (pss_root s i)" "\<And>i. i < half \<Longrightarrow> px ! (2 * i + 1) = peval c (pss_root s (half + i))"
    unfolding half_def using pss_DFT_prepared [OF I(1) cl] by blast
  define rest where "rest = n - (d + 1 - l)"
  define stop where "stop = (if rest + d + 1 < half then rest else half - (d + 1))"
  have sizes: "d < half" "l \<le> d" "d < n" "l + n \<le> 2 * half" "rest + (d + 1) = l + n" using I(6-9) by (simp_all add: half_def rest_def)
  have st: "stop \<le> rest" "d + 1 + stop \<le> half" "rest = stop \<or> d + 1 + stop = half" "rest - stop \<le> half"
    using sizes by (auto simp: stop_def)
  have rest_int: "psN s - (psD s + 1 - psL s) = int rest" using sizes by (simp add: I(3-5) rest_def of_nat_diff)
  have stop_int: "(if int rest + psD s + 1 < 2 ^ (psNearestPow s - 1) then int rest else 2 ^ (psNearestPow s - 1) - (psD s + 1)) = int stop"
  proof -
    have "(int rest + int d + 1 < 2 ^ (psNearestPow s - 1)) = (int (rest + d + 1) < int half)"
      unfolding half_def by (simp only: of_nat_add of_nat_1 of_nat_power of_nat_numeral)
    then have "(int rest + int d + 1 < 2 ^ (psNearestPow s - 1)) = (rest + d + 1 < half)" by (simp only: of_nat_less_iff)
    moreover have "2 ^ (psNearestPow s - 1) - (int d + 1) = int (half - (d + 1))" using sizes(1) by (simp add: half_def of_nat_diff)
    ultimately show ?thesis by (simp add: stop_def I(4))
  qed
  have low: "mapE (\<lambda>i. vgetI px (2 * (psD s + 1 + i))) [0..int stop - 1] = Inr (map (\<lambda>i. peval c (pss_root s (d + 1 + i))) [0..<stop])"
  proof (rule mapE_upto)
    fix i
    assume i: "i < stop"
    have e: "2 * (psD s + 1 + int i) = int (2 * (d + 1 + i))" by (simp add: I(4))
    show "vgetI px (2 * (psD s + 1 + int i)) = Inr (peval c (pss_root s (d + 1 + i)))"
      unfolding e using px(2) px(3) [of "d + 1 + i"] i st(2) by (subst vgetI_int) simp_all
  qed
  have "int rest - int stop = int (rest - stop)" using st(1) by (simp add: of_nat_diff)
  moreover have "mapE (\<lambda>i. vgetI px (2 * i + 1)) [0..int (rest - stop) - 1] = Inr (map (\<lambda>i. peval c (pss_root s (half + i))) [0..<rest - stop])"
  proof (rule mapE_upto)
    fix i
    assume i: "i < rest - stop"
    have e: "2 * int i + 1 = int (2 * i + 1)" by simp
    show "vgetI px (2 * int i + 1) = Inr (peval c (pss_root s (half + i)))"
      unfolding e using px(2) px(4) [of i] i st(4) by (subst vgetI_int) simp_all
  qed
  ultimately have high: "mapE (\<lambda>i. vgetI px (2 * i + 1)) [0..int rest - int stop - 1] = Inr (map (\<lambda>i. peval c (pss_root s (half + i))) [0..<rest - stop])"
    by (simp only:)
  have "drop l pts @ map (\<lambda>i. peval c (pss_root s (d + 1 + i))) [0..<stop] @ map (\<lambda>i. peval c (pss_root s (half + i))) [0..<rest - stop]
      = map (\<lambda>j. peval c (pss_root s (l + j))) [0..<n]" (is "?shares = _")
  proof (rule nth_equalityI)
    show "length ?shares = length (map (\<lambda>j. peval c (pss_root s (l + j))) [0..<n])" using sizes st(1) P(1) by simp
    fix j
    assume "j < length ?shares"
    then have j: "j < n" using sizes st(1) P(1) by simp
    consider "l + j \<le> d" | "d < l + j" "l + j < d + 1 + stop" | "d + 1 + stop \<le> l + j" by linarith
    then show "?shares ! j = map (\<lambda>j. peval c (pss_root s (l + j))) [0..<n] ! j"
    proof cases
      case 1
      then have "j < length (drop l pts)" using P(1) by simp
      then show ?thesis using 1 j P(1) c(3) [of "l + j"] sizes by (simp add: nth_append)
    next
      case 2
      then have "l + j = d + 1 + (j - (d + 1 - l))" "\<not> j < length (drop l pts)" "j - (d + 1 - l) < stop" using sizes P(1) by simp_all
      then show ?thesis using j 2 P(1) sizes by (simp add: nth_append add.commute [of j l])
    next
      case 3
      have "d + 1 + stop = half" using 3 st(3) sizes j by linarith
      then have "\<not> j < length (drop l pts)" "\<not> j - (d + 1 - l) < stop" "half + (j - (d + 1 - l) - stop) = l + j" "j - (d + 1 - l) - stop < rest - stop"
        using 3 sizes P(1) j by simp_all
      then show ?thesis using j P(1) sizes by (simp add: nth_append)
    qed
  qed
  moreover have "\<not> (psL s < 0 \<or> length pts < nat (psL s))" using P(1) sizes by (simp add: I(3))
  ultimately have "pss_share rnd prg s = Inr (map (\<lambda>j. peval c (pss_root s (l + j))) [0..<n], s, prg')"
    by (simp only: pss_share_def Let_def pts [unfolded defining_points_def Let_def] prod.case if_False c(1) px(1) bindE_simps
        rest_int stop_int low high) (simp only: I(3) nat_int)
  then show ?thesis using that c(2,3) by blast
qed

section \<open>Recovering\<close>

lemma nested_if: "(if a then if b then x else y else y) = (if a \<and> b then x else y)"
  by simp

lemma mapE_check:
  assumes "\<And>i. i < m \<Longrightarrow> f (int i) = check_point (a i) (b i)"
  shows "mapE f [0..int m - 1] = (if \<forall>i < m. a i = b i then Inr (replicate m ())
    else Inl (Invalid_argument ''Recovered point is incorrect''))"
proof -
  have "mapE (\<lambda>i. f (int i)) is = (if \<forall>i \<in> set is. a i = b i then Inr (replicate (length is) ())
      else Inl (Invalid_argument ''Recovered point is incorrect''))" if "\<forall>i \<in> set is. i < m" for "is"
    using that by (induction "is") (simp_all add: assms check_point_def throw_if_def)
  from this [of "[0..<m]"] show ?thesis unfolding upto_int mapE_map by simp
qed

text \<open>
  Whatever the points: the first \<open>d + 1\<close> of them define a polynomial, and the recovery returns its values
  at the secret positions if the other points agree with it, else it throws.
\<close>

lemma pss_recover_values:
  fixes s :: "'a::field pss"
  assumes inv: "pss_inv s l d n" and k: "length pts = k" "d + 1 \<le> k" "l + k \<le> 2 * half_pts s"
    and half_low: "l + d + 1 \<le> half_pts s"
  obtains c where "length c = d + 1" "\<And>i. i \<le> d \<Longrightarrow> peval c (pss_root s (l + i)) = pts ! i"
    "pss_recover s pts = (if \<forall>j < k. peval c (pss_root s (l + j)) = pts ! j
       then Inr (map (\<lambda>i. peval c (pss_root s i)) [0..<l], take (d + 1) pts, s)
       else Inl (Invalid_argument ''Recovered point is incorrect''))"
proof -
  note I = pss_invD [OF inv]
  define half where "half = half_pts s"
  have h: "l + d + 1 \<le> half" "l + k \<le> 2 * half" "l \<le> d" using half_low k(3) I(6) by (simp_all add: half_def)
  have tk: "length (take (d + 1) pts) = d + 1" using k by simp
  obtain c where c: "ptToCoeff s (take (d + 1) pts) (psNearestPow s) False = Inr (c, s)" "length c = d + 1"
    "\<And>i. i \<le> d \<Longrightarrow> peval c (pss_root s (l + i)) = take (d + 1) pts ! i" using ptToCoeff_recover [OF inv tk] by blast
  have cl: "length c \<le> 2 * half_pts s" using c(2) I(8) by simp
  obtain px where px: "pss_DFT s (prepareCoeffs (psNearestPow s) c) (psNearestPow s) = Inr px" "length px = 2 * half"
    "\<And>i. i < half \<Longrightarrow> px ! (2 * i) = peval c (pss_root s i)" "\<And>i. i < half \<Longrightarrow> px ! (2 * i + 1) = peval c (pss_root s (half + i))"
    unfolding half_def using pss_DFT_prepared [OF I(1) cl] by blast
  define m1 where "m1 = (if l + k < half then k - (d + 1) else half - (l + d + 1))"
  define m2 where "m2 = l + k - half"
  define cp where "cp = drop (d + 1) pts"
  have cp: "length cp = k - (d + 1)" "\<And>i. i < k - (d + 1) \<Longrightarrow> cp ! i = pts ! (d + 1 + i)" using k by (simp_all add: cp_def)
  have ms: "m1 \<le> k - (d + 1)" "l + d + 1 + m1 \<le> half" "m2 \<le> half" "m2 = 0 \<or> d + 1 + m1 = half - l" "m2 + half \<le> l + k \<or> m2 = 0"
    "l + k = l + d + 1 + m1 + m2"
    using h k(2) by (auto simp: m1_def m2_def)
  have len: "(psD s + 1 < 0 \<or> int (length pts) < psD s + 1) = False" "int (length pts) - (psD s + 1) = int (k - (d + 1))" using k by (simp_all add: I(4) of_nat_diff)
  have cps: "(if 0 < int (k - (d + 1)) then drop (nat (psD s + 1)) pts else []) = cp"
    "(if 0 < int (k - (d + 1)) then take (nat (psD s + 1)) pts else pts) = take (d + 1) pts"
    using k by (simp_all add: cp_def I(4) nat_add_distrib)
  have m1_int: "(if int (k - (d + 1)) + psL s + psD s + 1 < 2 ^ (psNearestPow s - 1) then int (k - (d + 1))
      else 2 ^ (psNearestPow s - 1) - (psL s + psD s + 1)) = int m1"
  proof -
    have "int (k - (d + 1)) + psL s + psD s + 1 = int (l + k)" using k(2) by (simp add: I(3,4) of_nat_diff)
    moreover have "(2 :: int) ^ (psNearestPow s - 1) = int half" by (simp add: half_def)
    moreover have "int half - (psL s + psD s + 1) = int (half - (l + d + 1))" using h(1) by (simp add: I(3,4) of_nat_diff)
    ultimately show ?thesis by (simp only: of_nat_less_iff m1_def if_distrib [of int])
  qed
  have m2_int: "[0..int (k - (d + 1)) - (2 ^ (psNearestPow s - 1) - (psL s + psD s + 1)) - 1] = [0..int m2 - 1]"
  proof -
    have z: "int (k - (d + 1)) - (2 ^ (psNearestPow s - 1) - (psL s + psD s + 1)) = int (l + k) - int half"
      using k(2) by (simp add: I(3,4) half_def of_nat_diff)
    show ?thesis
    proof (cases "half \<le> l + k")
      case True
      then have "int (l + k) - int half = int m2" by (simp add: m2_def of_nat_diff)
      then show ?thesis unfolding z by (simp only:)
    next
      case False
      then have "int (l + k) - int half - 1 < 0" "int m2 - 1 < 0" by (simp_all add: m2_def)
      then show ?thesis unfolding z by (simp only: upto_empty)
    qed
  qed
  have chk1: "mapE (\<lambda>i. bindE (vat px (2 * (psL s + psD s + 1 + i))) (\<lambda>x. bindE (vgetI cp i) (check_point x))) [0..int m1 - 1]
      = (if \<forall>i < m1. peval c (pss_root s (l + (d + 1 + i))) = pts ! (d + 1 + i) then Inr (replicate m1 ())
         else Inl (Invalid_argument ''Recovered point is incorrect''))"
  proof (rule mapE_check)
    fix i
    assume i: "i < m1"
    have e: "2 * (psL s + psD s + 1 + int i) = int (2 * (l + (d + 1 + i)))" by (simp add: I(3,4))
    have lt: "l + (d + 1 + i) < half" "i < length cp" "i < k - (d + 1)" using i ms cp(1) by simp_all
    then have "vat px (int (2 * (l + (d + 1 + i)))) = Inr (peval c (pss_root s (l + (d + 1 + i))))"
      using px(2) px(3) [of "l + (d + 1 + i)"] by (simp add: vat_def nat_add_distrib nat_mult_distrib)
    then show "bindE (vat px (2 * (psL s + psD s + 1 + int i))) (\<lambda>x. bindE (vgetI cp (int i)) (check_point x))
        = check_point (peval c (pss_root s (l + (d + 1 + i)))) (pts ! (d + 1 + i))"
      unfolding e using lt cp(2) by (simp only: bindE_simps vgetI_int)
  qed
  have chk2: "mapE (\<lambda>i. bindE (vgetI px (2 * i + 1)) (\<lambda>x. bindE (vgetI cp (int m1 + i)) (check_point x))) [0..int m2 - 1]
      = (if \<forall>i < m2. peval c (pss_root s (l + (d + 1 + (m1 + i)))) = pts ! (d + 1 + (m1 + i)) then Inr (replicate m2 ())
         else Inl (Invalid_argument ''Recovered point is incorrect''))"
  proof (rule mapE_check)
    fix i
    assume i: "i < m2"
    have e: "2 * int i + 1 = int (2 * i + 1)" "int m1 + int i = int (m1 + i)" by simp_all
    have lt: "i < half" "2 * i + 1 < length px" "m1 + i < length cp" "m1 + i < k - (d + 1)" "half + i = l + (d + 1 + (m1 + i))"
      using i ms cp(1) px(2) h by auto
    show "bindE (vgetI px (2 * int i + 1)) (\<lambda>x. bindE (vgetI cp (int m1 + int i)) (check_point x))
        = check_point (peval c (pss_root s (l + (d + 1 + (m1 + i))))) (pts ! (d + 1 + (m1 + i)))"
      unfolding e using lt px(4) cp(2) by (simp only: bindE_simps vgetI_int)
  qed
  have ll: "2 * l \<le> length px" using h px(2) by simp
  obtain px' where px': "foldE (\<lambda>i px. bindE (vgetI px (2 * i)) (\<lambda>x. vsetI px i x)) [0..psL s - 1] px = Inr px'"
    "length px' = length px" "take l px' = map (\<lambda>i. px ! (2 * i)) [0..<l]"
    using foldE_compact [OF ll] unfolding I(3) by blast
  have out: "erase_from px' (psL s) = Inr (map (\<lambda>i. peval c (pss_root s i)) [0..<l])"
  proof -
    have "erase_from px' (psL s) = Inr (take l px')" unfolding I(3) by (rule erase_from_nat) (use px'(2) ll in simp)
    also have "take l px' = map (\<lambda>i. peval c (pss_root s i)) [0..<l]" unfolding px'(3) using px(3) h by simp
    finally show ?thesis .
  qed
  define E where "E = (Inl (Invalid_argument ''Recovered point is incorrect'') :: ('a list \<times> 'a list \<times> 'a pss) res)"
  let ?P = "\<lambda>j. peval c (pss_root s (l + j)) = pts ! j"
  have R: "pss_recover s pts = (if \<forall>i < m1. ?P (d + 1 + i) then if \<forall>i < m2. ?P (d + 1 + (m1 + i))
      then Inr (map (\<lambda>i. peval c (pss_root s i)) [0..<l], take (d + 1) pts, s) else E else E)"
    unfolding pss_recover_def Let_def len cps m1_int m2_int throw_if_simps c(1) px(1) bindE_simps prod.case chk1 chk2 E_def
    by (simp add: px'(1) out)
  have first: "?P i" if "i < d + 1" for i using c(3) [of i] that by simp
  have lts: "\<And>i. i < m1 \<Longrightarrow> d + 1 + i < k" "\<And>i. i < m2 \<Longrightarrow> d + 1 + (m1 + i) < k" using ms k(2) by linarith+
  have "(\<forall>j < k. ?P j) \<longleftrightarrow> (\<forall>i < m1. ?P (d + 1 + i)) \<and> (\<forall>i < m2. ?P (d + 1 + (m1 + i)))"
  proof (intro iffI conjI allI impI)
    fix j
    assume all: "(\<forall>i < m1. ?P (d + 1 + i)) \<and> (\<forall>i < m2. ?P (d + 1 + (m1 + i)))" and j: "j < k"
    consider "j < d + 1" | "d + 1 \<le> j" "j - (d + 1) < m1" | "d + 1 + m1 \<le> j" "j - (d + 1) - m1 < m2" using j ms by linarith
    then show "?P j"
    proof cases
      case 1
      then show ?thesis by (rule first)
    next
      case 2
      then show ?thesis using all by (metis le_add_diff_inverse)
    next
      case 3
      then have "d + 1 + (m1 + (j - (d + 1) - m1)) = j" by simp
      then show ?thesis using all 3(2) by metis
    qed
  qed (use lts in blast)+
  note iff = this
  have "pss_recover s pts = (if \<forall>j < k. ?P j then Inr (map (\<lambda>i. peval c (pss_root s i)) [0..<l], take (d + 1) pts, s) else E)"
    unfolding R nested_if iff by (rule refl)
  then show ?thesis using that [of c] c(2) first unfolding E_def by simp
qed

end
