(* ===== verification/PSSNew.thy ===== *)
theory PSSNew
  imports PSSShare
begin

text \<open>
  What the constructor of \<open>OptimizedPSS\<close> establishes: the polynomials that vanish at the points of a
  sharing and of a recovery, and the inverses of their derivatives there.
\<close>

section \<open>The nearest power of two\<close>

lemma ceil_log2_bounds: "m \<le> 2 ^ ceil_log2 m" "1 < m \<Longrightarrow> 2 ^ ceil_log2 m < 2 * m"
proof (induction m rule: ceil_log2.induct)
  case (1 m)
  {
    case 1
    show ?case
    proof (cases "m \<le> 1")
      case False
      have "m \<le> 2 * (Suc m div 2)" by simp
      also have "\<dots> \<le> 2 * 2 ^ ceil_log2 (Suc m div 2)" using "1.IH"(1) [OF False] by simp
      finally show ?thesis using False by (subst ceil_log2.simps) simp
    qed (simp add: ceil_log2.simps)
  next
    case 2
    show ?case
    proof (cases "m = 2")
      case False
      with 2 have m: "\<not> m \<le> 1" "1 < Suc m div 2" by auto
      have "2 ^ ceil_log2 (Suc m div 2) < 2 * (Suc m div 2)" using "1.IH"(2) [OF m] .
      moreover have "even (2 ^ ceil_log2 (Suc m div 2) :: nat)" using m by (subst ceil_log2.simps) auto
      ultimately have "2 ^ ceil_log2 (Suc m div 2) < m" by (elim evenE) presburger
      then show ?thesis using m(1) by (subst ceil_log2.simps) simp
    qed (simp add: ceil_log2.simps)
  }
qed

section \<open>The polynomials of the constructor\<close>

lemma fill_from_range:
  "fill_from (int a) (int k) = Inr (map (\<lambda>i. int (a + i)) [0..<k])"
proof -
  obtain v where v: "foldE (\<lambda>i v. vsetI v i (int a + i)) [0..int k - 1] (replicate k 0) = Inr v" "length v = k"
    "\<And>i. i < k \<Longrightarrow> v ! i = int a + int i"
    by (rule foldE_writes [where m = k and L = k and v = "replicate k 0" and p = "\<lambda>i. i" and val = "\<lambda>i. int a + int i"
          and f = "\<lambda>i v. vsetI v i (int a + i)"]) auto
  have "v = map (\<lambda>i. int (a + i)) [0..<k]" using v by (intro nth_equalityI) simp_all
  then show ?thesis using v(1) by (simp add: fill_from_def int_vector_def)
qed

definition pss_roots_ok :: "'a::field pss \<Rightarrow> bool" where
  "pss_roots_ok s \<longleftrightarrow> pss_ok s \<and> length (psRoots s) = 2 * half_pts s \<and> (\<forall>k < 2 * half_pts s. psRoots s ! k = pss_root s k)"

lemma pss_half:
  assumes "pss_ok s"
  shows "2 ^ psNearestPow s = 2 * half_pts s"
  using pss_okD(1) [OF assms] by (cases "psNearestPow s") simp_all

lemma multiplyRoots_range:
  fixes s :: "'a::field pss"
  assumes ok: "pss_roots_ok s" and k: "0 < k" "k < 2 * half_pts s" "a + k \<le> 2 * half_pts s"
  obtains c where "multiplyRoots s (map (\<lambda>i. int (a + i)) [0..<k]) = Inr c" "length c = Suc k"
    "\<And>x. peval c x = 0 \<longleftrightarrow> (\<exists>i < k. x = pss_root s (a + i))"
proof -
  have pok: "pss_ok s" using ok by (simp add: pss_roots_ok_def)
  let ?rs = "map (\<lambda>i. int (a + i)) [0..<k]"
  have r: "?rs \<noteq> []" "length ?rs < 2 ^ psNearestPow s" "\<And>r. r \<in> set ?rs \<Longrightarrow> 0 \<le> r \<and> nat r < length (psRoots s)"
    unfolding pss_half [OF pok] using k ok by (auto simp: pss_roots_ok_def)
  obtain c where c: "multiplyRoots s ?rs = Inr c" "length c = Suc (length ?rs)"
    "\<And>x. peval c x = (\<Prod>r\<leftarrow>?rs. x - psRoots s ! nat r)"
    using multiplyRoots_correct [OF pok r] by blast
  have "psRoots s ! (a + i) = pss_root s (a + i)" if "i < k" for i
    using ok k(3) that by (simp add: pss_roots_ok_def)
  then have "(\<exists>i < k. x = psRoots s ! (a + i)) \<longleftrightarrow> (\<exists>i < k. x = pss_root s (a + i))" for x by metis
  moreover have "peval c x = 0 \<longleftrightarrow> (\<exists>i < k. x = psRoots s ! (a + i))" for x
    unfolding c(3) by (auto simp: prod_list_zero_iff comp_def image_iff nat_add_distrib)
  ultimately have "peval c x = 0 \<longleftrightarrow> (\<exists>i < k. x = pss_root s (a + i))" for x by simp
  then show ?thesis using that c(1,2) by simp
qed

text \<open>The weights are inverses of the derivative, which is not zero at the points.\<close>

lemma vanishesI:
  fixes s :: "'a::field pss"
  assumes ok: "pss_ok s" and b: "b + (d + 1) \<le> 2 * half_pts s" and A: "length A = d + 2" "\<And>x. peval A x = 0 \<longleftrightarrow> (\<exists>i < d + 1. x = pss_root s (b + i))"
    and z: "z < 2 * half_pts s" "z < b \<or> b + d < z"
    and ws: "length ws = d + 1" "\<And>i. i < d + 1 \<Longrightarrow> ws ! i = inverse (peval (deriv A) (pss_root s (b + i)))"
  shows "vanishes s d A ws b" "\<And>i. i < d + 1 \<Longrightarrow> peval (deriv A) (pss_root s (b + i)) \<noteq> 0"
proof -
  have ne: "A \<noteq> []" using A(1) by auto
  have g0: "psGenerator s \<noteq> 0"
  proof
    assume "psGenerator s = 0"
    then have "psGenerator s ^ 2 ^ (psNearestPow s - 1) = 0" by simp
    then have "- 1 = (0 :: 'a)" unfolding pss_okD(3) [OF ok] .
    then show False by simp
  qed
  have zero: "peval A (pss_root s (b + i)) = 0 \<and> pss_root s (b + i) \<noteq> 0" if "i < d + 1" for i
    using that A(2) g0 by (auto simp: pss_root_def)
  have "pss_root s z \<noteq> pss_root s (b + i)" if "i < d + 1" for i
    using root_inj [OF ok, of z "b + i"] z b that by auto
  then have nz: "peval A (pss_root s z) \<noteq> 0" using A(2) by blast
  have q: "peval (quot A (pss_root s (b + i))) (pss_root s (b + i)) \<noteq> 0" if "i < d + 1" for i
    using A(1) by (intro quot_nonzero [OF ne _ zero root_inj_on [OF ok b] nz that]) simp_all
  show d: "peval (deriv A) (pss_root s (b + i)) \<noteq> 0" if "i < d + 1" for i
    using q [OF that] zero [OF that] ne by (simp add: peval_deriv)
  show "vanishes s d A ws b"
    unfolding vanishes_def
  proof (intro conjI allI impI A(1) ws(1))
    fix i
    assume "i \<le> d"
    then have i: "i < d + 1" by simp
    show "peval A (pss_root s (b + i)) = 0" using zero [OF i] by simp
    show "ws ! i * peval (quot A (pss_root s (b + i))) (pss_root s (b + i)) = 1"
      unfolding ws(2) [OF i] using q [OF i] zero [OF i] ne by (simp add: peval_deriv)
  qed
qed

lemma derivative_coeffs_deriv:
  assumes "length A = d + 2"
  shows "derivative_coeffs (int d) A = Inr (deriv A)"
proof -
  have e: "int d = int (d + 1) - 1" by simp
  have "derivative_coeffs (int d) A = Inr (map (\<lambda>i. cf A (Suc i) * of_nat (Suc i)) [0..<d + 1])"
    unfolding derivative_coeffs_def unfolding e
  proof (rule mapE_upto)
    fix i
    assume i: "i < d + 1"
    have e: "int i + 1 = int (Suc i)" by simp
    show "bindE (vgetI A (int i + 1)) (\<lambda>x. Inr (x * of_int (int i + 1))) = Inr (cf A (Suc i) * of_nat (Suc i))"
      unfolding e using i assms by (simp add: cf_def del: of_nat_Suc)
  qed
  then show ?thesis using assms by (simp add: deriv_def)
qed

text \<open>The last loop inverts both vectors.\<close>

lemma foldE_inverses:
  fixes a b :: "'a::field list"
  assumes "length a = m" "length b = m" "\<And>i. i < m \<Longrightarrow> a ! i \<noteq> 0" "\<And>i. i < m \<Longrightarrow> b ! i \<noteq> 0"
  shows "foldE (\<lambda>i (A_share, A_recover). bindE (vgetI A_share i) (\<lambda>x. bindE (zz_inv x) (\<lambda>x. bindE (vsetI A_share i x) (\<lambda>A_share.
         bindE (vgetI A_recover i) (\<lambda>y. bindE (zz_inv y) (\<lambda>y. bindE (vsetI A_recover i y) (\<lambda>A_recover.
         Inr (A_share, A_recover)))))))) [0..int m - 1] (a, b) = Inr (map inverse a, map inverse b)"
    (is "foldE ?f _ _ = _")
proof -
  let ?I = "\<lambda>k (u, v). u = map inverse (take k a) @ drop k a \<and> v = map inverse (take k b) @ drop k b"
  have "\<exists>uv. foldE (\<lambda>i. ?f (int i)) [0..<m] (a, b) = Inr uv \<and> ?I m uv"
  proof (rule foldE_upt_invariant [where I = ?I])
    fix k uv
    assume k: "k < m" and I: "?I k uv"
    obtain u v where uv: "uv = (u, v)" by (cases uv)
    have upd: "(map inverse (take k xs) @ drop k xs)[k := inverse (xs ! k)] = map inverse (take (Suc k) xs) @ drop (Suc k) xs"
      "(map inverse (take k xs) @ drop k xs) ! k = xs ! k" "length (map inverse (take k xs) @ drop k xs) = m"
      if "length xs = m" for xs :: "'a list"
      using that k by (simp_all add: nth_append take_Suc_conv_app_nth list_update_append flip: Cons_nth_drop_Suc)
    have u: "u ! k = a ! k" "length u = m" "u[k := inverse (a ! k)] = map inverse (take (Suc k) a) @ drop (Suc k) a"
      and v: "v ! k = b ! k" "length v = m" "v[k := inverse (b ! k)] = map inverse (take (Suc k) b) @ drop (Suc k) b"
      using I upd [OF assms(1)] upd [OF assms(2)] by (simp_all add: uv)
    have "?f (int k) uv = Inr (u[k := inverse (a ! k)], v[k := inverse (b ! k)])"
      using k assms(3,4) u(1,2) v(1,2) by (simp add: uv zz_inv_def)
    then show "\<exists>uv'. ?f (int k) uv = Inr uv' \<and> ?I (Suc k) uv'" using u(3) v(3) by simp
  qed simp
  then show ?thesis unfolding upto_int foldE_map using assms(1,2) by auto
qed

section \<open>The constructor\<close>

text \<open>
  The order of the multiplicative group is divisible by \<open>2^10\<close>, and 14 is not a square: its powers are
  roots of unity of the orders the class uses.
\<close>

lemma root_of_unity:
  fixes g :: "'a::field"
  assumes g: "g ^ 1596516410880 = - 1" and p: "0 < p" "p \<le> 10"
  shows "(g ^ nat (3193032821760 div 2 ^ p)) ^ 2 ^ (p - 1) = - 1"
proof -
  have "p = 1 \<or> p = 2 \<or> p = 3 \<or> p = 4 \<or> p = 5 \<or> p = 6 \<or> p = 7 \<or> p = 8 \<or> p = 9 \<or> p = 10" using p by presburger
  then have "nat (3193032821760 div 2 ^ p) * 2 ^ (p - 1) = 1596516410880" by auto
  then show ?thesis using g by (simp only: power_mult [symmetric])
qed

lemma new_OptimizedPSS_correct:
  fixes l d n :: nat
  assumes g: "(14 :: 'a::field) ^ 1596516410880 = - 1" "(2 :: 'a::field) \<noteq> 0"
    and b: "1 \<le> l" "l \<le> d" "d < n" "n + l \<le> 1024" "d < 2 ^ (ceil_log2 (n + l) - 1)"
  obtains s :: "'a::field pss" where "new_OptimizedPSS (int l) (int d) (int n) 3193032821761 = Inr s" "pss_inv s l d n" "psSecrets s = []"
    "pss_roots_ok s" "psNearestPow s = ceil_log2 (n + l)"
proof -
  define p where "p = ceil_log2 (n + l)"
  define gen :: 'a where "gen = GetElement 14 ^ nat (3193032821760 div 2 ^ p)"
  define roots where "roots = map (\<lambda>i. (gen\<^sup>2) ^ i) [0..<2 ^ (p - 1)] @ map (\<lambda>i. gen ^ (2 * i + 1)) [0..<2 ^ (p - 1)]"
  define s where "s = \<lparr> psL = int l, psD = int d, psN = int n, psNearestPow = p, psGenerator = gen, psRoots = roots,
    psARecover = [], psAShare = [], psAPtsRecover = [], psAPtsShare = [], psSecrets = [] \<rparr>"
  have nl: "3 \<le> n + l" using b by simp
  have p2: "2 \<le> p"
  proof (rule ccontr)
    assume "\<not> 2 \<le> p"
    then have "(2 :: nat) ^ p \<le> 2 ^ 1" by (intro power_increasing) simp_all
    then show False using ceil_log2_bounds(1) [of "n + l"] nl by (simp add: p_def)
  qed
  have p10: "p \<le> 10"
  proof (rule ccontr)
    assume "\<not> p \<le> 10"
    then have "(2 :: nat) ^ 11 \<le> 2 ^ p" by (intro power_increasing) simp_all
    then show False using ceil_log2_bounds(2) [of "n + l"] nl b(4) by (simp add: p_def)
  qed
  have g14: "GetElement 14 = (14 :: 'a)" by (simp add: GetElement_def)
  have ok: "pss_ok s"
    unfolding pss_ok_def using p2 p10 root_of_unity [OF g(1), of p] g(2) by (simp add: s_def gen_def g14)
  define half where "half = half_pts s"
  have half: "half = 2 ^ (p - 1)" "2 ^ p = 2 * half" using pss_half [OF ok] by (simp_all add: half_def s_def)
  have dp: "d < half" "n + l \<le> 2 * half"
    using b(5) ceil_log2_bounds(1) [of "n + l"] unfolding p_def [symmetric] half by simp_all
  have bb: "d < half" "l + n \<le> 2 * half" "0 < l" "l \<le> d" "d < n" "l + d + 1 \<le> 2 * half"
    using b(1-3) dp by simp_all
  have rok: "pss_roots_ok s"
    unfolding pss_roots_ok_def
  proof (intro conjI allI impI ok)
    show "length (psRoots s) = 2 * half_pts s" by (simp add: s_def roots_def)
    fix k
    assume "k < 2 * half_pts s"
    then show "psRoots s ! k = pss_root s k"
      by (auto simp: s_def roots_def nth_append pss_root_def rpos_def power_mult)
  qed
  note transform = pss_DFT_prepared [OF ok, folded half_def]
  have psp: "psNearestPow s = p" by (simp add: s_def)
  note transform = transform [unfolded psp]
  note mr = multiplyRoots_range [OF rok, folded half_def]
  have c1: "0 < d + 1 - l" "d + 1 - l < 2 * half" "l + (d + 1 - l) \<le> 2 * half"
    and c2: "0 < l" "l < 2 * half" "0 + l \<le> 2 * half" and c3: "0 < l" "l < 2 * half" "d + 1 + l \<le> 2 * half"
    using bb by simp_all
  obtain sA where sA: "multiplyRoots s (map (\<lambda>i. int (l + i)) [0..<d + 1 - l]) = Inr sA" "length sA = Suc (d + 1 - l)"
    "\<And>x. peval sA x = 0 \<longleftrightarrow> (\<exists>i < d + 1 - l. x = pss_root s (l + i))"
    using mr [OF c1] by blast
  obtain aS where aS: "multiplyRoots s (map (\<lambda>i. int (0 + i)) [0..<l]) = Inr aS" "length aS = Suc l"
    "\<And>x. peval aS x = 0 \<longleftrightarrow> (\<exists>i < l. x = pss_root s (0 + i))"
    using mr [OF c2] by blast
  obtain aR where aR: "multiplyRoots s (map (\<lambda>i. int (d + 1 + i)) [0..<l]) = Inr aR" "length aR = Suc l"
    "\<And>x. peval aR x = 0 \<longleftrightarrow> (\<exists>i < l. x = pss_root s (d + 1 + i))"
    using mr [OF c3] by blast
  have ne: "sA \<noteq> []" "aS \<noteq> []" "aR \<noteq> []" using sA(2) aS(2) aR(2) by auto
  have pm: "polyMult s aS sA = Inr (conv aS sA, sA)" "polyMult s aR sA = Inr (conv aR sA, sA)"
    by (rule polyMult_correct [OF ok]; use ne sA(2) aS(2) aR(2) bb pss_half [OF ok] half_def in simp)+
  define S where "S = conv aS sA"
  define R where "R = conv aR sA"
  have len: "length S = d + 2" "length R = d + 2" using sA(2) aS(2) aR(2) bb(4) by (simp_all add: S_def R_def conv_simps ne)
  have S0: "peval S x = 0 \<longleftrightarrow> (\<exists>i < d + 1. x = pss_root s (0 + i))" for x
  proof -
    have "peval S x = 0 \<longleftrightarrow> (\<exists>i < l. x = pss_root s i) \<or> (\<exists>i < d + 1 - l. x = pss_root s (l + i))"
      by (simp add: S_def conv_simps ne aS(3) sA(3))
    also have "\<dots> \<longleftrightarrow> (\<exists>i < d + 1. x = pss_root s i)" (is "?l \<longleftrightarrow> ?r")
    proof
      assume ?r
      then obtain i where i: "i < d + 1" "x = pss_root s i" by blast
      show ?l
      proof (cases "i < l")
        case False
        then have "l + (i - l) = i" "i - l < d + 1 - l" using i(1) by simp_all
        then show ?thesis using i(2) by metis
      qed (use i in blast)
    next
      assume ?l
      then show ?r
      proof
        assume "\<exists>i < d + 1 - l. x = pss_root s (l + i)"
        then obtain i where "l + i < d + 1" "x = pss_root s (l + i)" by (auto simp: less_diff_conv ac_simps)
        then show ?r by blast
      next
        assume "\<exists>i < l. x = pss_root s i"
        then obtain i where "i < l" "x = pss_root s i" by blast
        moreover from this have "i < d + 1" using bb(4) by simp
        ultimately show ?r by blast
      qed
    qed
    finally show ?thesis by simp
  qed
  have R0: "peval R x = 0 \<longleftrightarrow> (\<exists>i < d + 1. x = pss_root s (l + i))" for x
  proof -
    have "peval R x = 0 \<longleftrightarrow> (\<exists>i < l. x = pss_root s (d + 1 + i)) \<or> (\<exists>i < d + 1 - l. x = pss_root s (l + i))"
      by (simp add: R_def conv_simps ne aR(3) sA(3))
    also have "\<dots> \<longleftrightarrow> (\<exists>i < d + 1. x = pss_root s (l + i))" (is "?l \<longleftrightarrow> ?r")
    proof
      assume ?r
      then obtain i where i: "i < d + 1" "x = pss_root s (l + i)" by blast
      show ?l
      proof (cases "i < d + 1 - l")
        case False
        then have "l + i = d + 1 + (i - (d + 1 - l))" "i - (d + 1 - l) < l" using i(1) bb(4) by simp_all
        then show ?thesis using i(2) by metis
      qed (use i in blast)
    next
      assume ?l
      then show ?r
      proof
        assume "\<exists>i < l. x = pss_root s (d + 1 + i)"
        then obtain i where i: "i < l" "x = pss_root s (d + 1 + i)" by blast
        then have "d + 1 + i = l + (d + 1 - l + i)" "d + 1 - l + i < d + 1" using bb(4) by simp_all
        then show ?r using i(2) by metis
      next
        assume "\<exists>i < d + 1 - l. x = pss_root s (l + i)"
        then obtain i where "i < d + 1 - l" "x = pss_root s (l + i)" by blast
        moreover from this have "i < d + 1" by simp
        ultimately show ?r by blast
      qed
    qed
    finally show ?thesis .
  qed
  have dl: "length (deriv R) \<le> 2 * half" "length (deriv S) \<le> 2 * half" using len bb by (simp_all add: deriv_def)
  obtain pr where pr: "pss_DFT s (prepareCoeffs p (deriv R)) p = Inr pr" "length pr = 2 * half"
    "\<And>i. i < half \<Longrightarrow> pr ! (2 * i) = peval (deriv R) (pss_root s i)"
    "\<And>i. i < half \<Longrightarrow> pr ! (2 * i + 1) = peval (deriv R) (pss_root s (half + i))"
    using transform [OF dl(1)] by blast
  obtain ps where ps: "pss_DFT s (prepareCoeffs p (deriv S)) p = Inr ps" "length ps = 2 * half"
    "\<And>i. i < half \<Longrightarrow> ps ! (2 * i) = peval (deriv S) (pss_root s i)"
    using transform [OF dl(2)] by blast
  define stop where "stop = (if l + d + 1 < half then d + 1 else half - l)"
  have st: "stop \<le> d + 1" "l + stop \<le> half" "d + 1 = stop \<or> l + stop = half" "d + 1 - stop \<le> half" using bb by (auto simp: stop_def)
  have stop_int: "(if int l + int d + 1 < int half then int d + 1 else int half - int l) = int stop"
  proof -
    have "(int l + int d + 1 < int half) = (int (l + d + 1) < int half)" by (simp only: of_nat_add of_nat_1)
    then show ?thesis using bb by (simp add: stop_def of_nat_diff del: of_nat_add)
  qed
  obtain w1 where w1: "foldE (\<lambda>i A. bindE (vgetI pr (2 * (int l + i))) (\<lambda>x. vsetI A i x)) [0..int stop - 1] (deriv R) = Inr w1"
    "length w1 = d + 1" "\<And>i. i < stop \<Longrightarrow> w1 ! i = pr ! (2 * (l + i))"
  proof (rule foldE_writes [where m = stop and L = "d + 1" and v = "deriv R" and p = "\<lambda>i. i" and val = "\<lambda>i. pr ! (2 * (l + i))"])
    fix i and v :: "'a list"
    assume i: "i < stop" "length v = d + 1"
    have e: "2 * (int l + int i) = int (2 * (l + i))" by simp
    have "2 * (l + i) < length pr" "i < length v" using i st pr(2) by simp_all
    then show "bindE (vgetI pr (2 * (int l + int i))) (\<lambda>x. vsetI v (int i) x) = Inr (v[i := pr ! (2 * (l + i))])"
      unfolding e by (simp only: vgetI_int vsetI_int bindE_simps)
  next
    show "inj_on (\<lambda>i. i) {..<stop}" "length (deriv R) = d + 1" "i < stop \<Longrightarrow> i < d + 1" for i
      using len(2) st by (simp_all add: deriv_def)
  qed (blast intro: that)
  obtain w where w: "foldE (\<lambda>i A. bindE (vgetI pr (2 * i + 1)) (\<lambda>x. vsetI A (int stop + i) x)) [0..int (d + 1 - stop) - 1] w1 = Inr w"
    "length w = d + 1" "\<And>i. i < d + 1 - stop \<Longrightarrow> w ! (stop + i) = pr ! (2 * i + 1)"
    "\<And>j. j \<notin> (\<lambda>i. stop + i) ` {..<d + 1 - stop} \<Longrightarrow> w ! j = w1 ! j"
  proof (rule foldE_writes [where m = "d + 1 - stop" and L = "d + 1" and v = w1 and p = "\<lambda>i. stop + i" and val = "\<lambda>i. pr ! (2 * i + 1)"])
    fix i and v :: "'a list"
    assume i: "i < d + 1 - stop" "length v = d + 1"
    have e: "2 * int i + 1 = int (2 * i + 1)" "int stop + int i = int (stop + i)" by simp_all
    have "2 * i + 1 < length pr" "stop + i < length v" using i st pr(2) by simp_all
    then show "bindE (vgetI pr (2 * int i + 1)) (\<lambda>x. vsetI v (int stop + int i) x) = Inr (v[stop + i := pr ! (2 * i + 1)])"
      unfolding e by (simp only: vgetI_int vsetI_int bindE_simps)
  next
    show "inj_on (\<lambda>i. stop + i) {..<d + 1 - stop}" "i < d + 1 - stop \<Longrightarrow> stop + i < d + 1" for i
      by (simp_all add: inj_on_def)
  qed (use w1(2) in \<open>blast intro: that\<close>)+
  have wv: "w ! i = peval (deriv R) (pss_root s (l + i))" if i: "i < d + 1" for i
  proof (cases "i < stop")
    case True
    then have "w ! i = w1 ! i" by (intro w(4)) auto
    then show ?thesis using True st w1(3) [of i] pr(3) [of "l + i"] by simp
  next
    case False
    then have "i - stop < d + 1 - stop" "stop + (i - stop) = i" "half + (i - stop) = l + i" "i - stop < half" using i st by auto
    then show ?thesis using w(3) [of "i - stop"] pr(4) [of "i - stop"] by simp
  qed
  have d2: "2 * (d + 1) \<le> length ps" using bb(1) ps(2) by simp
  obtain v where v: "foldE (\<lambda>i v. bindE (vgetI v (2 * i)) (\<lambda>x. vsetI v i x)) [0..int (d + 1) - 1] ps = Inr v"
    "length v = length ps" "take (d + 1) v = map (\<lambda>i. ps ! (2 * i)) [0..<d + 1]"
    using foldE_compact [OF d2] by blast
  define wS where "wS = map (\<lambda>i. peval (deriv S) (pss_root s (0 + i))) [0..<d + 1]"
  have tv: "take (d + 1) v = wS" unfolding v(3) wS_def using ps(3) bb(1) by simp
  have VR: "vanishes s d R (map inverse w) l" "\<And>i. i < d + 1 \<Longrightarrow> peval (deriv R) (pss_root s (l + i)) \<noteq> 0"
    using vanishesI [OF ok _ len(2) R0, of 0 "map inverse w"] w(2) wv bb unfolding half_def by auto
  have VS: "vanishes s d S (map inverse wS) 0" "\<And>i. i < d + 1 \<Longrightarrow> peval (deriv S) (pss_root s (0 + i)) \<noteq> 0"
    using vanishesI [OF ok _ len(1) S0, of "d + 1" "map inverse wS"] bb unfolding half_def by (auto simp: wS_def simp del: upt_Suc)
  define s' where "s' = s\<lparr> psARecover := R, psAShare := S, psAPtsRecover := map inverse w, psAPtsShare := map inverse wS \<rparr>"
  have roots': "map (\<lambda>i. (gen\<^sup>2) ^ i) [0..<half] @ map (\<lambda>i. gen ^ (2 * i + 1)) [0..<half] = roots"
    by (simp add: roots_def half(1))
  have args: "int n + int l = int (n + l)" "nat (int (n + l)) = n + l" "(int (n + l) \<le> 0) = False" "(10 < p) = False" "(p = 0) = False"
    "(3193032821761 \<noteq> (3193032821761 :: int)) = False" "3193032821761 - 1 = (3193032821760 :: int)"
    "int (d + 1) - int l = int (d + 1 - l)" "[0..int l - 1] = map (\<lambda>i. int (0 + i)) [0..<l]" "int d + 1 = int (d + 1)"
    using bb p2 p10 by (simp_all add: of_nat_diff upto_int)
  have dd: "[0..int d] = [0..int (d + 1) - 1]" "int (d + 1) - int stop = int (d + 1 - stop)" using st(1) by (simp_all add: of_nat_diff)
  have ew: "erase_from w (int (d + 1)) = Inr w" "erase_from v (int (d + 1)) = Inr wS"
    unfolding tv [symmetric] using w(2) v(2) ps(2) bb by (simp_all add: erase_from_def nat_add_distrib)
  have inv2: "foldE (\<lambda>i (A_share, A_recover). bindE (vgetI A_share i) (\<lambda>x. bindE (zz_inv x) (\<lambda>x. bindE (vsetI A_share i x) (\<lambda>A_share.
         bindE (vgetI A_recover i) (\<lambda>y. bindE (zz_inv y) (\<lambda>y. bindE (vsetI A_recover i y) (\<lambda>A_recover.
         Inr (A_share, A_recover)))))))) [0..int (d + 1) - 1] (wS, w) = Inr (map inverse wS, map inverse w)"
    by (rule foldE_inverses) (use w(2) wv VR(2) VS(2) in \<open>simp_all add: wS_def del: upt_Suc\<close>)
  have "new_OptimizedPSS (int l) (int d) (int n) 3193032821761 = Inr s'"
    unfolding new_OptimizedPSS_def Let_def args throw_if_simps if_False p_def [symmetric] gen_def [symmetric] half(1) [symmetric] roots' s_def [symmetric]
    by (simp only: fill_from_range sA(1) aS(1) aR(1) pm bindE_simps prod.case S_def [symmetric] R_def [symmetric]
        derivative_coeffs_deriv [OF len(1)] derivative_coeffs_deriv [OF len(2)] pr(1) ps(1) stop_int [unfolded args(10)] dd w1(1) w(1) v(1) ew inv2 s'_def)
  moreover have same: "psNearestPow s' = psNearestPow s" "psGenerator s' = psGenerator s" "pss_root s' = pss_root s" "psRoots s' = psRoots s"
    "psL s' = int l" "psD s' = int d" "psN s' = int n"
    by (simp_all add: s'_def s_def pss_root_def fun_eq_iff)
  moreover have ok': "pss_ok s'" using ok by (simp add: pss_ok_def same)
  moreover have "pss_inv s' l d n"
  proof -
    have "vanishes s' = vanishes s" by (simp add: vanishes_def fun_eq_iff same)
    then show ?thesis
      unfolding pss_inv_def same using p2 bb VS(1) VR(1) psp half ok' by (simp add: s'_def)
  qed
  moreover have "pss_roots_ok s'" using rok ok' by (simp add: pss_roots_ok_def same)
  moreover have "psSecrets s' = []" by (simp add: s'_def s_def)
  ultimately show ?thesis using that psp p_def by metis
qed

end
