(* ===== verification/ZZP.thy ===== *)
theory ZZP
  imports PrimeCert
begin

text \<open>
  The field of \<open>3193032821761\<close> elements that \<open>OptimizedPSS\<close> is hardcoded for: the type \<open>zzp\<close> of the
  residues, which is NTL's \<open>ZZ_p\<close> with that modulus. The modulus is prime, by a certificate, and 14 is
  not a square, so that its powers are the roots of unity of the class.
\<close>

section \<open>The modulus is prime\<close>

primrec pmod :: "int \<Rightarrow> int \<Rightarrow> bool list \<Rightarrow> int" where
  "pmod n a [] = 1 mod n"
| "pmod n a (b # bs) = (let h = pmod n a bs; s = h * h mod n in if b then s * a mod n else s)"

lemma pmod_eq: "pmod n a bs = a ^ bits_val bs mod n"
proof (induction bs)
  case (Cons b bs)
  have "a ^ (2 * bits_val bs) = a ^ bits_val bs * a ^ bits_val bs" by (simp add: mult_2 power_add)
  then have "pmod n a bs * pmod n a bs mod n = a ^ (2 * bits_val bs) mod n" unfolding Cons by (simp add: mod_mult_eq)
  then show ?case by (auto simp: Let_def mult.commute intro: mod_mult_cong)
qed simp

lemma pmod_power: "m < 2 ^ 42 \<Longrightarrow> pmod n a (bits_of 42 (int m)) = a ^ m mod n"
  by (simp add: pmod_eq bits_val_bits_of)

lemma zzp_small_primes: "is_prime 7027" "is_prime 173" "is_prime 19"
proof -
  have "trial (int 7027) 84" "trial (int 173) 14" "trial (int 19) 5"
    unfolding of_nat_numeral by code_simp+
  then show "is_prime 7027" "is_prime 173" "is_prime 19" by (blast dest: trial_is_prime)+
qed

lemma zzp_powers:
  "pmod 3193032821761 14 (bits_of 42 3193032821760) = 1"
  "pmod 3193032821761 14 (bits_of 42 1596516410880) = 3193032821760"
  "(pmod 3193032821761 14 (bits_of 42 454394880) - 1) * 2738178466498 mod 3193032821761 = 1"
  "(pmod 3193032821761 14 (bits_of 42 18456837120) - 1) * 1308319717813 mod 3193032821761 = 1"
  "(pmod 3193032821761 14 (bits_of 42 168054359040) - 1) * 2308616141861 mod 3193032821761 = 1"
  by code_simp+

lemma pow_pmod_step:
  assumes "m < 2 ^ 42" "(pmod n a (bits_of 42 (int m)) - 1) * i mod n = 1"
  shows "(a ^ m - 1) * i mod n = 1"
  using assms(2) unfolding pmod_power [OF assms(1)] by (metis mod_diff_left_eq mod_mult_left_eq)

text \<open>The certificate with computed powers; the exponents stay variables here.\<close>

lemma pmod_certificate:
  assumes n: "1 < n" "n \<le> 2 ^ 42"
    and pow: "pmod (int n) (int a) (bits_of 42 (int (n - 1))) = 1"
    and qs: "\<forall>(q, i) \<in> set qis. is_prime q \<and> q dvd n - 1 \<and> (pmod (int n) (int a) (bits_of 42 (int ((n - 1) div q))) - 1) * i mod int n = 1"
    and dist: "distinct (map fst qis)" and big: "n < (prod_list (map fst qis) + 1) ^ 2"
  shows "is_prime n"
proof (rule pocklington [OF n(1) _ _ dist big])
  have lt: "m < 2 ^ 42" if "m \<le> n - 1" for m using that n by linarith
  have "int a ^ (n - 1) mod int n = 1" using pow pmod_power [OF lt] by simp
  then show "a ^ (n - 1) mod n = 1" by (metis of_nat_eq_1_iff of_nat_mod of_nat_power)
  have "(int a ^ ((n - 1) div q) - 1) * i mod int n = 1"
    if "(pmod (int n) (int a) (bits_of 42 (int ((n - 1) div q))) - 1) * i mod int n = 1" for q i
    by (rule pow_pmod_step [OF lt that]) (rule div_le_dividend)
  with qs show "\<forall>(q, i) \<in> set qis. is_prime q \<and> q dvd n - 1 \<and> (int a ^ ((n - 1) div q) - 1) * i mod int n = 1" by fast
qed

lemma prime_zzp: "is_prime 3193032821761"
proof (rule pmod_certificate [where a = 14 and qis = "[(7027, 2738178466498), (173, 1308319717813), (19, 2308616141861)]"])
  have e: "int (3193032821761 - 1) = 3193032821760" "int ((3193032821761 - 1) div 7027) = 454394880"
    "int ((3193032821761 - 1) div 173) = 18456837120" "int ((3193032821761 - 1) div 19) = 168054359040"
    "int 14 = 14" "int 3193032821761 = 3193032821761" by simp_all
  show "pmod (int 3193032821761) (int 14) (bits_of 42 (int (3193032821761 - 1))) = 1" unfolding e by (rule zzp_powers)
  have d: "7027 dvd (3193032821761 - 1 :: nat)" "173 dvd (3193032821761 - 1 :: nat)" "19 dvd (3193032821761 - 1 :: nat)" by simp_all
  show "\<forall>(q, i) \<in> set [(7027, 2738178466498), (173, 1308319717813), (19, 2308616141861)]. is_prime q \<and> q dvd 3193032821761 - 1
      \<and> (pmod (int 3193032821761) (int 14) (bits_of 42 (int ((3193032821761 - 1) div q))) - 1) * i mod int 3193032821761 = 1"
    unfolding list.set ball_simps prod.case e using zzp_small_primes zzp_powers(3-5) d by blast
qed simp_all

section \<open>The type of the residues\<close>

typedef zzp = "{x :: int. 0 \<le> x \<and> x < 3193032821761}"
  by (rule exI [of _ 0]) simp

setup_lifting type_definition_zzp

definition zval :: "zzp \<Rightarrow> int" where
  "zval x = Rep_zzp x"

lemma zval_eq_iff: "x = y \<longleftrightarrow> zval x = zval y"
  by (simp add: zval_def Rep_zzp_inject)

lemma zval_range: "0 \<le> zval x" "zval x < 3193032821761"
  using Rep_zzp [of x] by (simp_all add: zval_def)

lemma zval_mod [simp]: "zval x mod 3193032821761 = zval x"
  using zval_range [of x] by (simp add: mod_pos_pos_trivial)

instantiation zzp :: field
begin

lift_definition zero_zzp :: zzp is "0" by simp
lift_definition one_zzp :: zzp is "1" by simp
lift_definition plus_zzp :: "zzp \<Rightarrow> zzp \<Rightarrow> zzp" is "\<lambda>x y. (x + y) mod 3193032821761" by simp
lift_definition minus_zzp :: "zzp \<Rightarrow> zzp \<Rightarrow> zzp" is "\<lambda>x y. (x - y) mod 3193032821761" by simp
lift_definition times_zzp :: "zzp \<Rightarrow> zzp \<Rightarrow> zzp" is "\<lambda>x y. x * y mod 3193032821761" by simp
lift_definition uminus_zzp :: "zzp \<Rightarrow> zzp" is "\<lambda>x. (- x) mod 3193032821761" by simp
lift_definition inverse_zzp :: "zzp \<Rightarrow> zzp" is "\<lambda>x. pmod 3193032821761 x (bits_of 42 3193032821759)"
  by (simp add: pmod_eq)

definition divide_zzp :: "zzp \<Rightarrow> zzp \<Rightarrow> zzp" where
  "divide_zzp x y = x * inverse y"

lemma zval_ops:
  "zval 0 = 0" "zval 1 = 1"
  "zval (x + y) = (zval x + zval y) mod 3193032821761"
  "zval (x - y) = (zval x - zval y) mod 3193032821761"
  "zval (x * y) = zval x * zval y mod 3193032821761"
  "zval (- x) = (- zval x) mod 3193032821761"
  "zval (inverse x) = pmod 3193032821761 (zval x) (bits_of 42 3193032821759)"
  unfolding zval_def by (transfer, simp)+

lemma pmod_inverse:
  assumes "is_prime n" "1 < n" "n \<le> 2 ^ 42" "0 < x" "x < n"
  shows "pmod (int n) (int x) (bits_of 42 (int (n - 2))) * int x mod int n = 1"
proof -
  have "\<not> n dvd x" using assms(4,5) by (auto dest: dvd_imp_le)
  then have "x ^ (n - 1) mod n = 1" by (rule fermat_little [OF assms(1)])
  moreover have "x ^ (n - 1) = x ^ (n - 2) * x" using assms(2) by (simp flip: power_Suc2 add: Suc_diff_Suc numeral_2_eq_2)
  ultimately have "int (x ^ (n - 2) * x mod n) = 1" by simp
  then have "int x ^ (n - 2) * int x mod int n = 1" by (simp add: zmod_int)
  moreover have "n - 2 < 2 ^ 42" using assms(2,3) by linarith
  ultimately show ?thesis by (simp add: pmod_power mod_mult_left_eq)
qed

lemma zzp_inverse: "x \<noteq> 0 \<Longrightarrow> inverse x * x = (1 :: zzp)"
proof -
  assume "x \<noteq> 0"
  then have x: "0 < nat (zval x)" "nat (zval x) < 3193032821761" "int (nat (zval x)) = zval x"
    using zval_range [of x] by (auto simp: zval_eq_iff zval_ops)
  have e: "int (3193032821761 - 2) = 3193032821759" "int 3193032821761 = 3193032821761" by simp_all
  show ?thesis
    using pmod_inverse [OF prime_zzp _ _ x(1,2)] unfolding x(3) e by (simp add: zval_eq_iff zval_ops)
qed

lemma pmod_zero: "pmod 3193032821761 0 (bits_of 42 3193032821759) = 0"
  by code_simp

instance
proof
  fix a b c :: zzp
  show "a + b + c = a + (b + c)" "a * b * c = a * (b * c)" "(a + b) * c = a * c + b * c"
    by (simp_all add: zval_eq_iff zval_ops mod_simps algebra_simps)
  show "a + b = b + a" "a * b = b * a" "0 + a = a" "1 * a = a" "- a + a = 0" "a - b = a + - b"
    by (simp_all add: zval_eq_iff zval_ops mod_simps ac_simps)
  show "(0 :: zzp) \<noteq> 1" by (simp add: zval_eq_iff zval_ops)
  show "a \<noteq> 0 \<Longrightarrow> inverse a * a = 1" by (rule zzp_inverse)
  show "a div b = a * inverse b" by (simp add: divide_zzp_def)
  show "inverse (0 :: zzp) = 0" using pmod_zero by (simp add: zval_eq_iff zval_ops)
qed

end

instantiation zzp :: equal
begin

definition equal_zzp :: "zzp \<Rightarrow> zzp \<Rightarrow> bool" where
  "equal_zzp x y \<longleftrightarrow> zval x = zval y"

instance
  by standard (simp add: equal_zzp_def zval_eq_iff)

end

lemma zval_power: "zval (x ^ m) = zval x ^ m mod 3193032821761"
  by (induction m) (simp_all add: zval_ops mod_simps)

lemma zval_of_nat: "zval (of_nat m) = int m mod 3193032821761"
  by (induction m) (simp_all add: zval_ops mod_simps)

text \<open>The hypotheses of the class on its field.\<close>

lemma zzp_generator: "(14 :: zzp) ^ 1596516410880 = - 1" and zzp_two: "(2 :: zzp) \<noteq> 0"
proof -
  have z14: "zval 14 = 14" using zval_of_nat [of 14] by simp
  have z2: "zval 2 = 2" using zval_of_nat [of 2] by simp
  have "(14 :: zzp) ^ m = - 1" if "pmod 3193032821761 14 (bits_of 42 (int m)) = 3193032821760" "m < 2 ^ 42" for m
    using that by (simp add: zval_eq_iff zval_power zval_ops z14 pmod_power)
  note this [of 1596516410880]
  moreover have "int 1596516410880 = 1596516410880" "(1596516410880 :: nat) < 2 ^ 42" by simp_all
  ultimately show "(14 :: zzp) ^ 1596516410880 = - 1" using zzp_powers(2) by (simp only:)
  show "(2 :: zzp) \<noteq> 0" by (simp add: zval_eq_iff zval_ops z2)
qed

end
