(* ===== verification/PSSMain.thy ===== *)
theory PSSMain
  imports PSSNew ZZP Shamir
begin

text \<open>
  The properties of \<open>OptimizedPSS\<close> over the field it is hardcoded for: an object that its constructor
  returns shares and recovers secrets, detects points that do not belong together, and hides the
  secrets from \<open>d + 1 - l\<close> parties.
\<close>

section \<open>Sizes for which the class works\<close>

definition pss_sizes :: "nat \<Rightarrow> nat \<Rightarrow> nat \<Rightarrow> bool" where
  "pss_sizes l d n \<longleftrightarrow> 1 \<le> l \<and> l \<le> d \<and> d < n \<and> n + l \<le> 1024 \<and> d < 2 ^ (ceil_log2 (n + l) - 1)"

lemma new_zzp:
  assumes "pss_sizes l d n" "new_OptimizedPSS (int l) (int d) (int n) 3193032821761 = Inr (s :: zzp pss)"
  shows "pss_inv s l d n" "half_pts s = 2 ^ (ceil_log2 (n + l) - 1)" "k < 2 * half_pts s \<Longrightarrow> psRoots s ! k = pss_root s k"
proof -
  obtain s' :: "zzp pss" where s': "new_OptimizedPSS (int l) (int d) (int n) 3193032821761 = Inr s'" "pss_inv s' l d n" "psSecrets s' = []"
    "pss_roots_ok s'" "psNearestPow s' = ceil_log2 (n + l)"
    using assms(1) unfolding pss_sizes_def by (blast intro: new_OptimizedPSS_correct [OF zzp_generator zzp_two])
  then have "s = s'" using assms(2) by simp
  then show "pss_inv s l d n" "half_pts s = 2 ^ (ceil_log2 (n + l) - 1)" "k < 2 * half_pts s \<Longrightarrow> psRoots s ! k = pss_root s k"
    using s' by (simp_all add: pss_roots_ok_def)
qed

lemma setSecrets_inv:
  assumes "pss_inv s l d n" "setSecrets secrets s = Inr s'"
  shows "pss_inv s' l d n" "psSecrets s' = secrets" "length secrets \<le> l" "psRoots s' = psRoots s" "half_pts s' = half_pts s"
    "pss_root s' = pss_root s"
proof -
  have s': "s' = s\<lparr> psSecrets := secrets \<rparr>" "length secrets \<le> l"
    using assms pss_invD(3) [OF assms(1)] by (auto simp: setSecrets_def throw_if_eq_Inr)
  then show "psSecrets s' = secrets" "length secrets \<le> l" "psRoots s' = psRoots s" "half_pts s' = half_pts s" by simp_all
  show r: "pss_root s' = pss_root s" using s'(1) by (simp add: pss_root_def fun_eq_iff)
  have "vanishes s' = vanishes s" by (simp add: vanishes_def fun_eq_iff r)
  then show "pss_inv s' l d n" using assms(1) s'(1) by (simp add: pss_inv_def pss_ok_def)
qed

section \<open>Sharing and recovering\<close>

text \<open>What holds of an object after the constructor and \<open>setSecrets\<close>.\<close>

lemma dealing:
  assumes "pss_sizes l d n" "new_OptimizedPSS (int l) (int d) (int n) 3193032821761 = Inr (s0 :: zzp pss)"
    and "setSecrets secrets s0 = Inr s"
  shows "pss_inv s l d n" "half_pts s = 2 ^ (ceil_log2 (n + l) - 1)" "length secrets \<le> l" "psSecrets s = secrets"
    "k < 2 * half_pts s \<Longrightarrow> psRoots s ! k = pss_root s k"
proof -
  note N = new_zzp [OF assms(1,2)]
  note S = setSecrets_inv [OF N(1) assms(3)]
  show "pss_inv s l d n" "length secrets \<le> l" "psSecrets s = secrets" by (rule S)+
  show "half_pts s = 2 ^ (ceil_log2 (n + l) - 1)" unfolding S(5) by (rule N(2))
  show "k < 2 * half_pts s \<Longrightarrow> psRoots s ! k = pss_root s k" unfolding S(4-6) by (rule N(3))
qed

lemma share_ok:
  assumes inv: "pss_inv s l d n" and sec: "length (psSecrets s) \<le> l"
  obtains c shares prg' where "pss_share rnd prg s = Inr (shares, s, prg')" "length c = d + 1" "length shares = n"
    "\<And>j. j < n \<Longrightarrow> shares ! j = peval c (pss_root s (l + j))"
    "\<And>i. i < length (psSecrets s) \<Longrightarrow> peval c (pss_root s i) = psSecrets s ! i"
proof -
  note I = pss_invD [OF inv]
  obtain pts prg' where pts: "defining_points rnd prg s = (pts, prg')" by (cases "defining_points rnd prg s")
  have le: "length (psSecrets s) \<le> d + 1" using sec I(6) by simp
  note P = defining_points [OF pts I(4) le]
  obtain c where c: "pss_share rnd prg s = Inr (map (\<lambda>j. peval c (pss_root s (l + j))) [0..<n], s, prg')" "length c = d + 1"
    "\<And>i. i \<le> d \<Longrightarrow> peval c (pss_root s i) = pts ! i" using pss_share_values [OF inv le pts] by blast
  have "peval c (pss_root s i) = psSecrets s ! i" if "i < length (psSecrets s)" for i
  proof -
    have "pts ! i = take (length (psSecrets s)) pts ! i" using that by simp
    then show ?thesis using c(3) [of i] P(2) that sec I(6) by simp
  qed
  with c show ?thesis using that by simp
qed

lemma roots_distinct:
  assumes inv: "pss_inv s l d n" and ks: "distinct ks" "\<And>k. k \<in> set ks \<Longrightarrow> k < l + n"
  shows "distinct (map (pss_root s) ks)"
proof -
  note I = pss_invD [OF inv]
  have "inj_on (pss_root s) (set ks)"
    using root_inj [OF I(1)] ks(2) I(9) by (intro inj_onI) (meson order_less_le_trans)
  then show ?thesis using ks(1) by (simp add: distinct_map)
qed

text \<open>A polynomial of degree at most \<open>d\<close> is determined by its values at \<open>d + 1\<close> roots.\<close>

lemma peval_determined:
  assumes inv: "pss_inv s l d n" and len: "length p = d + 1" "length q = d + 1"
    and ks: "distinct ks" "length ks = d + 1" "\<And>k. k \<in> set ks \<Longrightarrow> k < l + n"
    and eq: "\<And>k. k \<in> set ks \<Longrightarrow> peval p (pss_root s k) = peval q (pss_root s k)"
  shows "peval p x = peval q x"
proof (rule peval_unique [of "map (pss_root s) ks"])
  show "distinct (map (pss_root s) ks)" by (rule roots_distinct [OF inv ks(1,3)])
  show "length p \<le> length (map (pss_root s) ks)" "length q \<le> length (map (pss_root s) ks)" using len ks(2) by simp_all
  show "peval p x = peval q x" if "x \<in> set (map (pss_root s) ks)" for x using that eq by auto
qed

lemma recover_ok:
  assumes inv: "pss_inv s l d n" and low: "l + d + 1 \<le> half_pts s"
    and k: "length pts = k" "d + 1 \<le> k" "k \<le> n" and c: "length c = d + 1"
    and pts: "\<And>j. j < k \<Longrightarrow> pts ! j = peval c (pss_root s (l + j))"
  shows "pss_recover s pts = Inr (map (\<lambda>i. peval c (pss_root s i)) [0..<l], take (d + 1) pts, s)"
proof -
  note I = pss_invD [OF inv]
  have le: "l + k \<le> 2 * half_pts s" using k(3) I(9) by simp
  obtain c' where c': "length c' = d + 1" "\<And>i. i \<le> d \<Longrightarrow> peval c' (pss_root s (l + i)) = pts ! i"
    "pss_recover s pts = (if \<forall>j < k. peval c' (pss_root s (l + j)) = pts ! j
       then Inr (map (\<lambda>i. peval c' (pss_root s i)) [0..<l], take (d + 1) pts, s)
       else Inl (Invalid_argument ''Recovered point is incorrect''))"
    using pss_recover_values [OF inv k(1,2) le low] by blast
  have agree: "peval c' (pss_root s m) = peval c (pss_root s m)" if "l \<le> m" "m < l + (d + 1)" for m
    using c'(2) [of "m - l"] pts [of "m - l"] k that by simp
  have "peval c' x = peval c x" for x
    by (rule peval_determined [OF inv c'(1) c, of "[l..<l + (d + 1)]"]) (use agree I(7) in \<open>auto simp del: upt_Suc\<close>)
  then show ?thesis using c'(3) pts by simp
qed

lemma dealt:
  assumes "pss_sizes l d n" and "length secrets \<le> l"
  obtains s0 s :: "zzp pss" where "new_OptimizedPSS (int l) (int d) (int n) 3193032821761 = Inr s0" "setSecrets secrets s0 = Inr s"
proof -
  obtain s0 :: "zzp pss" where s0: "new_OptimizedPSS (int l) (int d) (int n) 3193032821761 = Inr s0" "pss_inv s0 l d n"
    using assms(1) unfolding pss_sizes_def by (blast intro: new_OptimizedPSS_correct [OF zzp_generator zzp_two])
  then have "setSecrets secrets s0 = Inr (s0\<lparr> psSecrets := secrets \<rparr>)"
    using assms(2) pss_invD(3) [OF s0(2)] by (simp add: setSecrets_def)
  with s0(1) show ?thesis using that by blast
qed

lemma ceil_log2_values: "ceil_log2 14 = 4" "ceil_log2 12 = 4"
  by (simp_all add: ceil_log2.simps)

lemma sample_sizes: "pss_sizes 2 3 12" "pss_sizes 2 7 10"
  by (simp_all add: pss_sizes_def ceil_log2_values)

text \<open>
  C26: the round trip of the packed sharing by transforms. For all sizes that fit the field and the
  points, the constructor returns, at most \<open>l\<close> secrets are accepted, \<open>secretShareValues\<close> returns \<open>n\<close>
  shares whatever the random generator, and \<open>recoverSS\<close> on any \<open>k > d\<close> of the first shares returns \<open>l\<close> values
  that begin with the secrets.
\<close>

theorem pss_roundtrip:
  assumes "pss_sizes l d n" and "l + d + 1 \<le> 2 ^ (ceil_log2 (n + l) - 1)" and "length secrets \<le> l"
  shows "\<exists>s0 s shares prg' padding. new_OptimizedPSS (int l) (int d) (int n) 3193032821761 = Inr (s0 :: zzp pss)
    \<and> setSecrets secrets s0 = Inr s \<and> pss_share rnd prg s = Inr (shares, s, prg') \<and> length shares = n
    \<and> length (secrets @ padding) = l
    \<and> (\<forall>k. d < k \<longrightarrow> k \<le> n \<longrightarrow> pss_recover s (take k shares) = Inr (secrets @ padding, take (d + 1) shares, s))"
proof -
  obtain s0 s :: "zzp pss" where s0: "new_OptimizedPSS (int l) (int d) (int n) 3193032821761 = Inr s0"
    and s: "setSecrets secrets s0 = Inr s" using dealt [OF assms(1,3)] by blast
  note D = dealing [OF assms(1) s0 s]
  obtain c shares prg' where c: "pss_share rnd prg s = Inr (shares, s, prg')" "length c = d + 1" "length shares = n"
    "\<And>j. j < n \<Longrightarrow> shares ! j = peval c (pss_root s (l + j))" "\<And>i. i < length secrets \<Longrightarrow> peval c (pss_root s i) = secrets ! i"
    using share_ok [OF D(1)] D(3,4) by metis
  define r where "r = map (\<lambda>i. peval c (pss_root s i)) [0..<l]"
  have "take (length secrets) r = secrets" using D(3) c(5) by (intro nth_equalityI) (simp_all add: r_def)
  then have r: "r = secrets @ drop (length secrets) r" by (metis append_take_drop_id)
  have low: "l + d + 1 \<le> half_pts s" unfolding D(2) by (rule assms(2))
  have rec: "pss_recover s (take k shares) = Inr (r, take (d + 1) shares, s)" if "d < k" "k \<le> n" for k
  proof -
    have "pss_recover s (take k shares) = Inr (r, take (d + 1) (take k shares), s)"
      unfolding r_def by (rule recover_ok [OF D(1) low _ _ that(2) c(2)]) (use that c(3,4) in simp_all)
    then show ?thesis using that by (simp add: min_def)
  qed
  have "length (secrets @ drop (length secrets) r) = l" using r by (metis r_def length_map length_upt diff_zero)
  then show ?thesis using s0 s c(1,3) rec r by metis
qed

theorem pss_roundtrip_witness:
  "\<exists>s0 s shares prg' padding. new_OptimizedPSS (int 2) (int 3) (int 12) 3193032821761 = Inr (s0 :: zzp pss)
    \<and> setSecrets [5, 7] s0 = Inr s \<and> pss_share (\<lambda>g. (g, g + 1)) 42 s = Inr (shares, s, prg') \<and> length shares = 12
    \<and> length ([5, 7] @ padding) = 2
    \<and> (\<forall>k. 3 < k \<longrightarrow> k \<le> 12 \<longrightarrow> pss_recover s (take k shares) = Inr ([5, 7] @ padding, take (3 + 1) shares, s))"
  by (rule pss_roundtrip) (simp_all add: sample_sizes ceil_log2_values)

text \<open>
  \<open>recoverSS\<close> on any list of more than \<open>d\<close> and at most \<open>n\<close> points. It returns exactly when the points
  are the values of one polynomial of degree at most \<open>d\<close> at the roots of the shares, and otherwise
  throws.
\<close>

theorem pss_recover_consistent:
  assumes "pss_sizes l d n" and "l + d + 1 \<le> 2 ^ (ceil_log2 (n + l) - 1)" and "d < length pts" and "length pts \<le> n"
    and "new_OptimizedPSS (int l) (int d) (int n) 3193032821761 = Inr (s0 :: zzp pss)" and "setSecrets secrets s0 = Inr s"
  shows "if \<exists>c. length c = d + 1 \<and> (\<forall>j < length pts. pts ! j = peval c (psRoots s ! (l + j)))
    then \<exists>recovered. length recovered = l \<and> pss_recover s pts = Inr (recovered, take (d + 1) pts, s)
    else pss_recover s pts = Inl (Invalid_argument ''Recovered point is incorrect'')"
proof -
  note D = dealing [OF assms(1,5,6)]
  note I = pss_invD [OF D(1)]
  have low: "l + d + 1 \<le> half_pts s" unfolding D(2) by (rule assms(2))
  have le: "l + length pts \<le> 2 * half_pts s" and dk: "d + 1 \<le> length pts" using assms(3,4) I(9) by simp_all
  have roots: "psRoots s ! (l + j) = pss_root s (l + j)" if "j < length pts" for j using that le by (intro D(5)) simp
  show ?thesis
  proof (cases "\<exists>c. length c = d + 1 \<and> (\<forall>j < length pts. pts ! j = peval c (pss_root s (l + j)))")
    case True
    then obtain c where c: "length c = d + 1" "\<And>j. j < length pts \<Longrightarrow> pts ! j = peval c (pss_root s (l + j))" by blast
    have "pss_recover s pts = Inr (map (\<lambda>i. peval c (pss_root s i)) [0..<l], take (d + 1) pts, s)"
      by (rule recover_ok [OF D(1) low refl dk assms(4) c])
    then show ?thesis using True roots by (simp cong: conj_cong)
  next
    case False
    obtain c where c: "length c = d + 1" "pss_recover s pts = (if \<forall>j < length pts. peval c (pss_root s (l + j)) = pts ! j
       then Inr (map (\<lambda>i. peval c (pss_root s i)) [0..<l], take (d + 1) pts, s)
       else Inl (Invalid_argument ''Recovered point is incorrect''))"
      using pss_recover_values [OF D(1) refl dk le low] by blast
    have "\<not> (\<forall>j < length pts. peval c (pss_root s (l + j)) = pts ! j)" using False c(1) by metis
    then show ?thesis using False roots c(2) by auto
  qed
qed

theorem pss_recover_consistent_witness:
  "\<exists>s0 s. new_OptimizedPSS (int 2) (int 3) (int 12) 3193032821761 = Inr (s0 :: zzp pss) \<and> setSecrets [5, 7] s0 = Inr s \<and>
    (if \<exists>c. length c = 3 + 1 \<and> (\<forall>j < length [1, 2, 3, 4, 5 :: zzp]. [1, 2, 3, 4, 5] ! j = peval c (psRoots s ! (2 + j)))
     then \<exists>recovered. length recovered = 2 \<and> pss_recover s [1, 2, 3, 4, 5] = Inr (recovered, take (3 + 1) [1, 2, 3, 4, 5], s)
     else pss_recover s [1, 2, 3, 4, 5] = Inl (Invalid_argument ''Recovered point is incorrect''))"
proof -
  have len: "length [5, 7 :: zzp] \<le> 2" by simp
  obtain s0 s :: "zzp pss" where s: "new_OptimizedPSS (int 2) (int 3) (int 12) 3193032821761 = Inr s0" "setSecrets [5, 7] s0 = Inr s"
    using dealt [OF sample_sizes(1) len] by blast
  have sz: "2 + 3 + 1 \<le> (2 :: nat) ^ (ceil_log2 (12 + 2) - 1)" "3 < length [1, 2, 3, 4, 5 :: zzp]" "length [1, 2, 3, 4, 5 :: zzp] \<le> 12"
    by (simp_all add: ceil_log2_values)
  show ?thesis by (rule exI [of _ s0], rule exI [of _ s]) (intro conjI s pss_recover_consistent [OF sample_sizes(1) sz s])
qed

text \<open>
  C27: tampering is detected. When at least one and at most \<open>k - d - 1\<close> of \<open>k\<close> honest shares are replaced
  by other values, \<open>recoverSS\<close> throws.
\<close>

theorem pss_tampering:
  assumes "pss_sizes l d n" and "l + d + 1 \<le> 2 ^ (ceil_log2 (n + l) - 1)"
    and "new_OptimizedPSS (int l) (int d) (int n) 3193032821761 = Inr (s0 :: zzp pss)" and "setSecrets secrets s0 = Inr s"
    and "pss_share rnd prg s = Inr (shares, s', prg')" and "length pts = k" and "k \<le> n"
    and "pts \<noteq> take k shares" and "d + 1 + card {j. j < k \<and> pts ! j \<noteq> shares ! j} \<le> k"
  shows "pss_recover s' pts = Inl (Invalid_argument ''Recovered point is incorrect'')"
proof -
  note D = dealing [OF assms(1,3,4)]
  note I = pss_invD [OF D(1)]
  have sec: "length (psSecrets s) \<le> l" using D(3,4) by simp
  obtain c sh prg2 where c: "pss_share rnd prg s = Inr (sh, s, prg2)" "length c = d + 1" "length sh = n"
    "\<And>j. j < n \<Longrightarrow> sh ! j = peval c (pss_root s (l + j))" using share_ok [OF D(1) sec] by metis
  have eqs: "s' = s" "shares = sh" using c(1) assms(5) by simp_all
  have low: "l + d + 1 \<le> half_pts s" unfolding D(2) by (rule assms(2))
  have le: "l + length pts \<le> 2 * half_pts s" and dk: "d + 1 \<le> length pts" using assms(6,7,9) I(9) by simp_all
  obtain c' where c': "length c' = d + 1" "pss_recover s pts = (if \<forall>j < length pts. peval c' (pss_root s (l + j)) = pts ! j
       then Inr (map (\<lambda>i. peval c' (pss_root s i)) [0..<l], take (d + 1) pts, s)
       else Inl (Invalid_argument ''Recovered point is incorrect''))"
    using pss_recover_values [OF D(1) refl dk le low] by blast
  have False if all: "\<forall>j < length pts. peval c' (pss_root s (l + j)) = pts ! j"
  proof -
    let ?bad = "{j. j < k \<and> pts ! j \<noteq> shares ! j}" and ?good = "{j. j < k \<and> pts ! j = shares ! j}"
    have "card (?bad \<union> ?good) = card ?bad + card ?good" by (rule card_Un_disjoint) auto
    moreover have "?bad \<union> ?good = {..<k}" by auto
    ultimately have "d + 1 \<le> card ?good" using assms(9) by simp
    then obtain G where G: "G \<subseteq> ?good" "card G = d + 1" "finite G" by (meson obtain_subset_with_card_n)
    have "peval c' x = peval c x" for x
    proof (rule peval_determined [OF D(1) c'(1) c(2)])
      let ?ks = "map (\<lambda>j. l + j) (sorted_list_of_set G)"
      show "distinct ?ks" "length ?ks = d + 1" using G by (simp_all add: distinct_map)
      show "m < l + n" "peval c' (pss_root s m) = peval c (pss_root s m)" if "m \<in> set ?ks" for m
        using that G all c(4) assms(6,7) eqs(2) by auto
    qed
    then have "pts = take k shares" using all c(3,4) assms(6,7) eqs(2) by (intro nth_equalityI) simp_all
    then show False using assms(8) by contradiction
  qed
  then show ?thesis using c'(2) eqs(1) by auto
qed

theorem pss_tampering_witness:
  "\<exists>s0 s shares prg'. new_OptimizedPSS (int 2) (int 3) (int 12) 3193032821761 = Inr (s0 :: zzp pss) \<and> setSecrets [5, 7] s0 = Inr s
    \<and> pss_share (\<lambda>g. (g, g + 1)) 42 s = Inr (shares, s, prg')
    \<and> pss_recover s ((take 6 shares)[0 := shares ! 0 + 1]) = Inl (Invalid_argument ''Recovered point is incorrect'')"
proof -
  have len: "length [5, 7 :: zzp] \<le> 2" by simp
  obtain s0 s :: "zzp pss" where s: "new_OptimizedPSS (int 2) (int 3) (int 12) 3193032821761 = Inr s0" "setSecrets [5, 7] s0 = Inr s"
    using dealt [OF sample_sizes(1) len] by blast
  note D = dealing [OF sample_sizes(1) s]
  have sec: "length (psSecrets s) \<le> 2" using D(3,4) by simp
  obtain c shares prg' where sh: "pss_share (\<lambda>g. (g, g + 1)) (42 :: zzp) s = Inr (shares, s, prg')" "length shares = 12"
    using share_ok [OF D(1) sec] by metis
  let ?pts = "(take 6 shares)[0 := shares ! 0 + 1]"
  have "?pts ! 0 \<noteq> take 6 shares ! 0" using sh(2) by simp
  then have ne: "?pts \<noteq> take 6 shares" by metis
  have "{j. j < 6 \<and> ?pts ! j \<noteq> shares ! j} \<subseteq> {0}" using sh(2) by (auto simp: nth_list_update split: if_splits)
  then have "card {j. j < 6 \<and> ?pts ! j \<noteq> shares ! j} \<le> card {0 :: nat}" by (intro card_mono) simp_all
  then have sz: "2 + 3 + 1 \<le> (2 :: nat) ^ (ceil_log2 (12 + 2) - 1)" "length ?pts = 6" "(6 :: nat) \<le> 12" "3 + 1 + card {j. j < 6 \<and> ?pts ! j \<noteq> shares ! j} \<le> 6"
    using sh(2) by (simp_all add: ceil_log2_values)
  have "pss_recover s ?pts = Inl (Invalid_argument ''Recovered point is incorrect'')"
    by (rule pss_tampering [OF sample_sizes(1) sz(1) s sh(1) sz(2,3) ne sz(4)])
  then show ?thesis using s sh(1) by blast
qed

text \<open>
  Sizes with \<open>l + d + 1\<close> above half of the points. Sharing works for them, but \<open>recoverSS\<close> then
  always reads the vector of the checked points at a negative index, even when there is nothing to check.
\<close>

theorem pss_recover_undefined:
  assumes "pss_sizes l d n" and "2 ^ (ceil_log2 (n + l) - 1) < l + d + 1" and "d < length pts"
    and "new_OptimizedPSS (int l) (int d) (int n) 3193032821761 = Inr (s :: zzp pss)"
  shows "pss_recover s pts = Inl Undefined"
proof -
  note inv = new_zzp [OF assms(1,4)]
  note I = pss_invD [OF inv(1)]
  define half where "half = half_pts s"
  define k where "k = length pts"
  have k: "d + 1 \<le> k" "half < l + d + 1" using assms(2,3) inv(2) by (simp_all add: k_def half_def)
  have tk: "length (take (d + 1) pts) = d + 1" using k(1) by (simp add: k_def)
  obtain c where c: "ptToCoeff s (take (d + 1) pts) (psNearestPow s) False = Inr (c, s)" "length c = d + 1"
    using ptToCoeff_recover [OF inv(1) tk] by blast
  have cl: "length c \<le> 2 * half_pts s" using c(2) I(8) by simp
  obtain px where px: "pss_DFT s (prepareCoeffs (psNearestPow s) c) (psNearestPow s) = Inr px" "length px = 2 * half"
    unfolding half_def using pss_DFT_prepared [OF I(1) cl] by blast
  have ih: "2 ^ (psNearestPow s - 1) = int half" by (simp add: half_def)
  have len: "(psD s + 1 < 0 \<or> int (length pts) < psD s + 1) = False" "int (length pts) - (psD s + 1) = int (k - (d + 1))"
    using k(1) by (simp_all add: I(4) k_def of_nat_diff)
  have cps: "(if 0 < int (k - (d + 1)) then take (nat (psD s + 1)) pts else pts) = take (d + 1) pts"
    using k by (simp add: I(4) nat_add_distrib k_def)
  have stop: "(if int (k - (d + 1)) + psL s + psD s + 1 < int half then int (k - (d + 1)) else int half - (psL s + psD s + 1))
      = int half - int (l + d + 1)"
  proof -
    have "\<not> int (k - (d + 1)) + psL s + psD s + 1 < int half" using k by (simp add: I(3,4))
    then show ?thesis by (simp add: I(3,4))
  qed
  have first: "[0..int half - int (l + d + 1) - 1] = []" using k(2) by simp
  have second: "[0..int (k - (d + 1)) - (int half - (psL s + psD s + 1)) - 1]
      = 0 # [1..int (k - (d + 1)) - (int half - (psL s + psD s + 1)) - 1]"
    using k(2) by (subst upto_rec1) (simp_all add: I(3,4))
  have px1: "vgetI px (2 * 0 + 1) = Inr (px ! 1)" using px(2) I(8) by (simp add: vgetI_def half_def)
  have cp: "vgetI cp (int half - int (l + d + 1) + 0) = Inl Undefined" for cp :: "zzp list"
    using k(2) by (simp add: vgetI_def)
  show ?thesis
    unfolding pss_recover_def Let_def len throw_if_simps cps c(1) bindE_simps prod.case px(1) ih stop first second mapE.simps px1 cp
    by (rule refl)
qed

theorem pss_recover_undefined_witness:
  "\<exists>s. new_OptimizedPSS (int 2) (int 7) (int 10) 3193032821761 = Inr (s :: zzp pss) \<and> pss_recover s (replicate 8 0) = Inl Undefined"
proof -
  have len: "length ([] :: zzp list) \<le> 2" by simp
  obtain s :: "zzp pss" where s: "new_OptimizedPSS (int 2) (int 7) (int 10) 3193032821761 = Inr s"
    using dealt [OF sample_sizes(2) len] by blast
  have sz: "2 ^ (ceil_log2 (10 + 2) - 1) < 2 + 7 + (1 :: nat)" "7 < length (replicate 8 (0 :: zzp))" by (simp_all add: ceil_log2_values)
  have "pss_recover s (replicate 8 0) = Inl Undefined" by (rule pss_recover_undefined [OF sample_sizes(2) sz s])
  then show ?thesis using s by blast
qed

lemma draw_fold:
  "length rs = length is \<Longrightarrow>
    fold (\<lambda>i (pts, prg). let (x, prg) = draw prg in (pts @ [x], prg)) is (pts, rs) = (pts @ rs, [])"
  by (induction "is" arbitrary: pts rs) (auto simp: draw_def length_Suc_conv)

text \<open>The shares for given draws: the secrets and the draws are the values of the polynomial.\<close>

lemma share_draw:
  assumes inv: "pss_inv s l d n" and sec: "length (psSecrets s) = l" and rs: "length rs = d + 1 - l"
  obtains c shares where "pss_share draw rs s = Inr (shares, s, [])" "length c = d + 1"
    "\<And>j. j < n \<Longrightarrow> shares ! j = peval c (pss_root s (l + j))" "\<And>i. i \<le> d \<Longrightarrow> peval c (pss_root s i) = (psSecrets s @ rs) ! i"
proof -
  note I = pss_invD [OF inv]
  have le: "length (psSecrets s) \<le> d + 1" using sec I(6) by simp
  have dp: "defining_points draw rs s = (psSecrets s @ rs, [])"
    unfolding defining_points_def by (rule draw_fold) (use rs sec I(4,6) in simp)
  obtain c where "pss_share draw rs s = Inr (map (\<lambda>j. peval c (pss_root s (l + j))) [0..<n], s, [])" "length c = d + 1"
    "\<And>i. i \<le> d \<Longrightarrow> peval c (pss_root s i) = (psSecrets s @ rs) ! i"
    using pss_share_values [OF inv le dp] by blast
  then show ?thesis using that by simp
qed

text \<open>There is a polynomial of degree at most \<open>d\<close> with given values at \<open>d + 1\<close> roots.\<close>

lemma polynomial_through:
  assumes inv: "pss_inv s l d n" and ks: "distinct ks" "length ks = d + 1" "\<And>k. k \<in> set ks \<Longrightarrow> k < l + n"
  obtains p where "length p = d + 1" "\<And>i. i < d + 1 \<Longrightarrow> peval p (pss_root s (ks ! i)) = ys ! i"
proof -
  let ?xs = "map (pss_root s) ks"
  have dist: "distinct ?xs" by (rule roots_distinct [OF inv ks(1,3)])
  obtain P where P: "length P \<le> d + 1" "\<And>x. lagrange ?xs ys x = peval P x"
    using lagrange_polyfun [of ?xs ys] ks(2) by (auto simp: polyfun_def)
  let ?p = "P @ replicate (d + 1 - length P) 0"
  have "length ?p = d + 1" "peval ?p x = lagrange ?xs ys x" for x using P by (simp_all add: peval_append)
  moreover have "lagrange ?xs ys (pss_root s (ks ! i)) = ys ! i" if "i < d + 1" for i
    using lagrange_at [OF dist, of i ys] that ks(2) by simp
  ultimately show ?thesis using that by metis
qed

text \<open>A view and the secrets are values of one polynomial, which determines the draws.\<close>

lemma view_iff:
  assumes inv: "pss_inv s l d n" and sec: "length (psSecrets s) = l"
    and js: "distinct js" "set js \<subseteq> {..<n}" "length js = d + 1 - l" "length view = d + 1 - l"
    and p: "length p = d + 1" "\<And>i. i < d + 1 \<Longrightarrow> peval p (pss_root s (([0..<l] @ map (\<lambda>j. l + j) js) ! i)) = (psSecrets s @ view) ! i"
  shows "length rs = d + 1 - l \<and> (\<exists>shares rest. pss_share draw rs s = Inr (shares, s, rest) \<and> map ((!) shares) js = view)
    \<longleftrightarrow> rs = map (\<lambda>i. peval p (pss_root s i)) [l..<d + 1]" (is "?l \<longleftrightarrow> ?r")
proof -
  note I = pss_invD [OF inv]
  let ?ks = "[0..<l] @ map (\<lambda>j. l + j) js"
  have ks: "distinct ?ks" "length ?ks = d + 1" "\<And>k. k \<in> set ?ks \<Longrightarrow> k < l + n"
    using js I(6) by (auto simp: distinct_map)
  have secs: "peval p (pss_root s i) = psSecrets s ! i" if "i < l" for i
    using p(2) [of i] that I(6) sec by (simp add: nth_append)
  have views: "peval p (pss_root s (l + js ! m)) = view ! m" if "m < d + 1 - l" for m
  proof -
    have "l + m < d + 1" using that by linarith
    from p(2) [OF this] show ?thesis using that js(3) sec by (simp add: nth_append)
  qed
  have jn: "js ! m < n" if "m < d + 1 - l" for m using that js(2,3) by (metis lessThan_iff nth_mem subsetD)
  show ?thesis
  proof
    assume A: ?l
    then obtain c shares where c: "pss_share draw rs s = Inr (shares, s, [])" "length c = d + 1"
      "\<And>j. j < n \<Longrightarrow> shares ! j = peval c (pss_root s (l + j))" "\<And>i. i \<le> d \<Longrightarrow> peval c (pss_root s i) = (psSecrets s @ rs) ! i"
      using share_draw [OF inv sec] by metis
    have v: "map ((!) shares) js = view" using A c(1) by auto
    have eq: "peval c x = peval p x" for x
    proof (rule peval_determined [OF inv c(2) p(1) ks])
      fix k
      assume "k \<in> set ?ks"
      then consider "k < l" | m where "m < d + 1 - l" "k = l + js ! m" using js(3) by (auto simp: in_set_conv_nth)
      then show "peval c (pss_root s k) = peval p (pss_root s k)"
      proof cases
        case 1
        then show ?thesis using c(4) [of k] secs I(6) sec by (simp add: nth_append)
      next
        case 2
        have "view ! m = shares ! (js ! m)" using 2(1) js(3) unfolding v [symmetric] by simp
        then show ?thesis using views [OF 2(1)] c(3) [OF jn [OF 2(1)]] 2(2) by simp
      qed
    qed
    show ?r
    proof (rule nth_equalityI)
      fix i
      assume "i < length rs"
      then have "l + i \<le> d" using A by linarith
      moreover from this have "[l..<d + 1] ! i = l + i" "i < length [l..<d + 1]" by (simp_all del: upt_Suc)
      moreover have "(psSecrets s @ rs) ! (l + i) = rs ! i" unfolding sec [symmetric] by (rule nth_append_length_plus)
      ultimately show "rs ! i = map (\<lambda>i. peval p (pss_root s i)) [l..<d + 1] ! i" using c(4) [of "l + i"] eq by (simp del: upt_Suc)
    qed (use A in \<open>simp del: upt_Suc\<close>)
  next
    assume B: ?r
    then have len: "length rs = d + 1 - l" by (simp del: upt_Suc)
    obtain c shares where c: "pss_share draw rs s = Inr (shares, s, [])" "length c = d + 1"
      "\<And>j. j < n \<Longrightarrow> shares ! j = peval c (pss_root s (l + j))" "\<And>i. i \<le> d \<Longrightarrow> peval c (pss_root s i) = (psSecrets s @ rs) ! i"
      using share_draw [OF inv sec len] by metis
    have eq: "peval c x = peval p x" for x
    proof (rule peval_determined [OF inv c(2) p(1), of "[0..<d + 1]"])
      fix i
      assume "i \<in> set [0..<d + 1]"
      then have i: "i < d + 1" by (simp del: upt_Suc)
      show "i < l + n" using i I(7) by simp
      show "peval c (pss_root s i) = peval p (pss_root s i)"
        using c(4) [of i] secs i sec B by (auto simp: nth_append simp del: upt_Suc)
    qed simp_all
    have "map ((!) shares) js = view"
      by (rule nth_equalityI) (use js(3,4) c(3) [OF jn] views eq in simp_all)
    then show ?l using len c(1) by blast
  qed
qed

text \<open>
  C28: privacy. With \<open>l\<close> secrets, any \<open>d + 1 - l\<close> parties see shares that are explained, whatever the secrets,
  by exactly one sequence of draws of the random generator.
\<close>

theorem pss_privacy:
  assumes "pss_sizes l d n" and "new_OptimizedPSS (int l) (int d) (int n) 3193032821761 = Inr (s0 :: zzp pss)"
    and "setSecrets secrets s0 = Inr s" and "length secrets = l"
    and "distinct js" and "set js \<subseteq> {..<n}" and "length js = d + 1 - l" and "length view = d + 1 - l"
  shows "\<exists>!rs. length rs = d + 1 - l \<and>
    (\<exists>shares rest. pss_share draw rs s = Inr (shares, s, rest) \<and> map ((!) shares) js = view)"
proof -
  note D = dealing [OF assms(1-3)]
  note I = pss_invD [OF D(1)]
  have sec: "length (psSecrets s) = l" using assms(4) D(4) by simp
  let ?ks = "[0..<l] @ map (\<lambda>j. l + j) js"
  have ks: "distinct ?ks" "length ?ks = d + 1" "\<And>k. k \<in> set ?ks \<Longrightarrow> k < l + n"
    using assms(5-7) I(6) by (auto simp: distinct_map)
  obtain p where p: "length p = d + 1" "\<And>i. i < d + 1 \<Longrightarrow> peval p (pss_root s (?ks ! i)) = (psSecrets s @ view) ! i"
    using polynomial_through [OF D(1) ks, of "psSecrets s @ view"] by blast
  have "length rs = d + 1 - l \<and> (\<exists>shares rest. pss_share draw rs s = Inr (shares, s, rest) \<and> map ((!) shares) js = view)
      \<longleftrightarrow> rs = map (\<lambda>i. peval p (pss_root s i)) [l..<d + 1]" for rs
    by (rule view_iff [OF D(1) sec assms(5-8) p])
  then show ?thesis by simp
qed

theorem pss_privacy_witness:
  "\<exists>s0 s. new_OptimizedPSS (int 2) (int 3) (int 12) 3193032821761 = Inr (s0 :: zzp pss) \<and> setSecrets [5, 7] s0 = Inr s
    \<and> (\<exists>!rs. length rs = 3 + 1 - 2 \<and>
        (\<exists>shares rest. pss_share draw rs s = Inr (shares, s, rest) \<and> map ((!) shares) [0, 5] = [1, 2]))"
proof -
  have len: "length [5, 7 :: zzp] \<le> 2" by simp
  obtain s0 s :: "zzp pss" where s: "new_OptimizedPSS (int 2) (int 3) (int 12) 3193032821761 = Inr s0" "setSecrets [5, 7] s0 = Inr s"
    using dealt [OF sample_sizes(1) len] by blast
  have "\<exists>!rs. length rs = 3 + 1 - 2 \<and> (\<exists>shares rest. pss_share draw rs s = Inr (shares, s, rest) \<and> map ((!) shares) [0, 5] = [1, 2])"
    by (rule pss_privacy [OF sample_sizes(1) s]) simp_all
  note w = this
  show ?thesis by (rule exI [of _ s0], rule exI [of _ s]) (intro conjI s w)
qed

section \<open>The transforms and the products of an object\<close>

text \<open>
  C29: the fast transforms agree with their specification, in every field. For a generator \<open>gen\<close> of the
  \<open>2^p\<close>-th roots of unity and \<open>2^p\<close> coefficients, \<open>DFT\<close> with its in-place first pass and the bit-reversed
  counter, and \<open>PreserveInDFT\<close>, both return the values of the polynomial at \<open>gen^0, gen^1, \<dots>\<close>, in this order.
\<close>

theorem dft_is_evaluation:
  fixes gen :: "'a::field"
  assumes "p \<le> 32" and "0 < p \<Longrightarrow> gen ^ 2 ^ (p - 1) = - 1" and "length c = 2 ^ p"
  shows "dft gen p c = Inr (map (\<lambda>k. peval c (gen ^ k)) [0..<2 ^ p])
    \<and> preserve_dft gen p c = Inr (map (\<lambda>k. peval c (gen ^ k)) [0..<2 ^ p])"
  using dft_evaluates [OF assms] by blast

theorem dft_is_evaluation_witness:
  "dft (14 ^ nat (3193032821760 div 2 ^ 3) :: zzp) 3 [1, 2, 3, 4, 5, 6, 7, 8]
     = Inr (map (\<lambda>k. peval [1, 2, 3, 4, 5, 6, 7, 8] ((14 ^ nat (3193032821760 div 2 ^ 3)) ^ k)) [0..<2 ^ 3])
    \<and> preserve_dft (14 ^ nat (3193032821760 div 2 ^ 3) :: zzp) 3 [1, 2, 3, 4, 5, 6, 7, 8]
     = Inr (map (\<lambda>k. peval [1, 2, 3, 4, 5, 6, 7, 8] ((14 ^ nat (3193032821760 div 2 ^ 3)) ^ k)) [0..<2 ^ 3])"
proof (rule dft_is_evaluation)
  show "(14 ^ nat (3193032821760 div 2 ^ 3) :: zzp) ^ 2 ^ (3 - 1) = - 1" by (rule root_of_unity [OF zzp_generator]) simp_all
qed simp_all

text \<open>
  C30: the inverse transform. For an object of the constructor and any \<open>2^nearest_pow\<close> coefficients, \<open>InvDFT\<close>
  after \<open>DFT\<close> returns the first \<open>stop\<close> of them, for every \<open>stop\<close>.
\<close>

theorem dft_inverse:
  assumes "pss_sizes l d n" and "new_OptimizedPSS (int l) (int d) (int n) 3193032821761 = Inr (s :: zzp pss)"
    and "length c = 2 ^ psNearestPow s" and "stop \<le> 2 ^ psNearestPow s"
  shows "bindE (pss_DFT s c (psNearestPow s)) (\<lambda>v. InvDFT s v (psNearestPow s) stop) = Inr (take stop c)"
proof -
  have ok: "pss_ok s" using new_zzp [OF assms(1,2)] pss_invD(1) by blast
  show ?thesis unfolding pss_DFT_full(1) [OF ok assms(3)] bindE_simps by (rule InvDFT_correct [OF ok assms(3,4)])
qed

theorem dft_inverse_witness:
  "\<exists>s. new_OptimizedPSS (int 2) (int 3) (int 12) 3193032821761 = Inr (s :: zzp pss)
    \<and> bindE (pss_DFT s (map of_nat [0..<2 ^ psNearestPow s]) (psNearestPow s)) (\<lambda>v. InvDFT s v (psNearestPow s) 1)
      = Inr (take 1 (map of_nat [0..<2 ^ psNearestPow s]))"
proof -
  have len: "length ([] :: zzp list) \<le> 2" by simp
  obtain s :: "zzp pss" where s: "new_OptimizedPSS (int 2) (int 3) (int 12) 3193032821761 = Inr s"
    using dealt [OF sample_sizes(1) len] by blast
  have "bindE (pss_DFT s (map of_nat [0..<2 ^ psNearestPow s]) (psNearestPow s)) (\<lambda>v. InvDFT s v (psNearestPow s) 1)
      = Inr (take 1 (map of_nat [0..<2 ^ psNearestPow s]))"
    by (rule dft_inverse [OF sample_sizes(1) s]) simp_all
  then show ?thesis using s by blast
qed

text \<open>
  C31: products. \<open>polyMult\<close> of an object returns the coefficients of the product, and gives back its second
  argument, for all nonempty factors whose product has at most \<open>2^nearest_pow\<close> coefficients; for longer
  ones it throws.
\<close>

theorem polyMult_product:
  assumes "pss_sizes l d n" and "new_OptimizedPSS (int l) (int d) (int n) 3193032821761 = Inr (s :: zzp pss)"
    and "a \<noteq> []" and "b \<noteq> []" and "length a + length b < 2 ^ 64"
  shows "polyMult s a b = (if length a + length b - 1 \<le> 2 ^ psNearestPow s
    then Inr (map (\<lambda>k. \<Sum>i\<le>k. cf a i * cf b (k - i)) [0..<length a + length b - 1], b)
    else Inl (Invalid_argument (''polyMult:: polynomials must be 'small enough'' @ [CHR 0x27])))"
proof (cases "length a + length b - 1 \<le> 2 ^ psNearestPow s")
  case True
  have ok: "pss_ok s" using new_zzp [OF assms(1,2)] pss_invD(1) by blast
  have "conv a b = map (\<lambda>k. \<Sum>i\<le>k. cf a i * cf b (k - i)) [0..<length a + length b - 1]"
  proof (rule nth_equalityI)
    fix k
    assume "k < length (conv a b)"
    then show "conv a b ! k = map (\<lambda>k. \<Sum>i\<le>k. cf a i * cf b (k - i)) [0..<length a + length b - 1] ! k"
      using conv_simps(2) [OF assms(3,4), of k] by (simp add: conv_simps(1) [OF assms(3,4)])
  qed (simp add: conv_simps(1) [OF assms(3,4)])
  then show ?thesis using polyMult_correct [OF ok assms(3,4) True] True by simp
next
  case False
  have "size_sub (length a + length b) 1 = length a + length b - 1"
    using assms(3,5) by (cases a) (simp_all add: size_sub_def)
  then show ?thesis using False by (simp add: polyMult_def)
qed

theorem polyMult_product_witness:
  "\<exists>s. new_OptimizedPSS (int 2) (int 3) (int 12) 3193032821761 = Inr (s :: zzp pss)
    \<and> polyMult s [1, 2] [3] = (if length [1, 2 :: zzp] + length [3 :: zzp] - 1 \<le> 2 ^ psNearestPow s
        then Inr (map (\<lambda>k. \<Sum>i\<le>k. cf [1, 2] i * cf [3] (k - i)) [0..<length [1, 2 :: zzp] + length [3 :: zzp] - 1], [3])
        else Inl (Invalid_argument (''polyMult:: polynomials must be 'small enough'' @ [CHR 0x27])))"
proof -
  have len: "length ([] :: zzp list) \<le> 2" by simp
  obtain s :: "zzp pss" where s: "new_OptimizedPSS (int 2) (int 3) (int 12) 3193032821761 = Inr s"
    using dealt [OF sample_sizes(1) len] by blast
  show ?thesis by (rule exI [of _ s], rule conjI [OF s], rule polyMult_product [OF sample_sizes(1) s]) simp_all
qed

end
