(* ===== verification/MatOps.thy ===== *)
theory MatOps
  imports VecOps
begin

text \<open>
  The class template \<open>Mat<T>\<close> of \<open>scl/math/mat.h\<close>: matrices in row-major order. The lemmas relate the
  vector of entries to a function of row and column (\<open>rep\<close>) and give each operation in these terms.
\<close>

section \<open>The class\<close>

record 'a mat =
  mRows :: nat
  mCols :: nat
  mValues :: "'a list"

definition Mat_default :: "'a mat" where
  "Mat_default = \<lparr> mRows = 0, mCols = 0, mValues = [] \<rparr>"

definition new_Mat :: "nat \<Rightarrow> nat \<Rightarrow> 'a::zero mat res" where
  "new_Mat n m = throw_if (\<not> (n \<noteq> 0 \<and> m \<noteq> 0)) (Invalid_argument ''n or m cannot be 0'')
     (Inr \<lparr> mRows = n, mCols = m, mValues = replicate (n * m) 0 \<rparr>)"

definition new_Mat_square :: "nat \<Rightarrow> 'a::zero mat res" where
  "new_Mat_square n = new_Mat n n"

definition Mat_FromVector :: "nat \<Rightarrow> nat \<Rightarrow> 'a list \<Rightarrow> 'a mat res" where
  "Mat_FromVector n m vec = throw_if (length vec \<noteq> n * m) (Invalid_argument ''invalid dimensions'')
     (Inr \<lparr> mRows = n, mCols = m, mValues = vec \<rparr>)"

text \<open>\<open>operator()\<close>, as a read and as a write of the entry. The index is not checked against the dimensions.\<close>

definition mat_get :: "'a mat \<Rightarrow> nat \<Rightarrow> nat \<Rightarrow> 'a res" where
  "mat_get A row column = vget (mValues A) (mCols A * row + column)"

definition mat_set :: "'a mat \<Rightarrow> nat \<Rightarrow> nat \<Rightarrow> 'a \<Rightarrow> 'a mat res" where
  "mat_set A row column v = bindE (vset (mValues A) (mCols A * row + column) v) (\<lambda>vs. Inr (A\<lparr> mValues := vs \<rparr>))"

definition Mat_Identity :: "nat \<Rightarrow> 'a::zero_neq_one mat res" where
  "Mat_Identity n = bindE (new_Mat_square n) (\<lambda>I. foldE (\<lambda>i I. mat_set I i i 1) [0..<n] I)"

subsection \<open>Entry-wise operations\<close>

definition Mat_EnsureCompatible :: "'a mat \<Rightarrow> 'a mat \<Rightarrow> 'b res \<Rightarrow> 'b res" where
  "Mat_EnsureCompatible A other m =
     throw_if (mRows A \<noteq> mRows other \<or> mCols A \<noteq> mCols other) (Invalid_argument ''incompatible matrices'') m"

definition combine_values :: "('a \<Rightarrow> 'a \<Rightarrow> 'a) \<Rightarrow> 'a list \<Rightarrow> 'a list \<Rightarrow> 'a list res" where
  "combine_values f other vs = foldE (\<lambda>i vs. bindE (vget vs i) (\<lambda>a. bindE (vget other i) (\<lambda>b. vset vs i (f a b))))
     [0..<length vs] vs"

definition Mat_AddInPlace :: "'a::comm_ring_1 mat \<Rightarrow> 'a mat \<Rightarrow> 'a mat res" where
  "Mat_AddInPlace A other = Mat_EnsureCompatible A other
     (bindE (combine_values (+) (mValues other) (mValues A)) (\<lambda>vs. Inr (A\<lparr> mValues := vs \<rparr>)))"

definition Mat_SubtractInPlace :: "'a::comm_ring_1 mat \<Rightarrow> 'a mat \<Rightarrow> 'a mat res" where
  "Mat_SubtractInPlace A other = Mat_EnsureCompatible A other
     (bindE (combine_values (-) (mValues other) (mValues A)) (\<lambda>vs. Inr (A\<lparr> mValues := vs \<rparr>)))"

definition Mat_MultiplyEntryWiseInPlace :: "'a::comm_ring_1 mat \<Rightarrow> 'a mat \<Rightarrow> 'a mat res" where
  "Mat_MultiplyEntryWiseInPlace A other = Mat_EnsureCompatible A other
     (bindE (combine_values (*) (mValues other) (mValues A)) (\<lambda>vs. Inr (A\<lparr> mValues := vs \<rparr>)))"

text \<open>The versions that work on a copy.\<close>

definition Mat_Add :: "'a::comm_ring_1 mat \<Rightarrow> 'a mat \<Rightarrow> 'a mat res" where
  "Mat_Add A other = (let copy = \<lparr> mRows = mRows A, mCols = mCols A, mValues = mValues A \<rparr> in Mat_AddInPlace copy other)"

definition Mat_Subtract :: "'a::comm_ring_1 mat \<Rightarrow> 'a mat \<Rightarrow> 'a mat res" where
  "Mat_Subtract A other = (let copy = \<lparr> mRows = mRows A, mCols = mCols A, mValues = mValues A \<rparr> in Mat_SubtractInPlace copy other)"

definition Mat_MultiplyEntryWise :: "'a::comm_ring_1 mat \<Rightarrow> 'a mat \<Rightarrow> 'a mat res" where
  "Mat_MultiplyEntryWise A other =
     (let copy = \<lparr> mRows = mRows A, mCols = mCols A, mValues = mValues A \<rparr> in Mat_MultiplyEntryWiseInPlace copy other)"

definition Mat_ScalarMultiplyInPlace :: "'a::comm_ring_1 \<Rightarrow> 'a mat \<Rightarrow> 'a mat" where
  "Mat_ScalarMultiplyInPlace scalar A = A\<lparr> mValues := map (\<lambda>v. v * scalar) (mValues A) \<rparr>"

definition Mat_ScalarMultiply :: "'a::comm_ring_1 \<Rightarrow> 'a mat \<Rightarrow> 'a mat" where
  "Mat_ScalarMultiply scalar A =
     (let copy = \<lparr> mRows = mRows A, mCols = mCols A, mValues = mValues A \<rparr> in Mat_ScalarMultiplyInPlace scalar copy)"

subsection \<open>Products, transposition and tests\<close>

definition Mat_Multiply :: "'a::comm_ring_1 mat \<Rightarrow> 'a mat \<Rightarrow> 'a mat res" where
  "Mat_Multiply A other = throw_if (mCols A \<noteq> mRows other) (Invalid_argument ''invalid matrix dimensions for multiply'') (
     let n = mRows A; p = mCols A; m = mCols other in
     bindE (new_Mat n m) (\<lambda>result.
     foldE (\<lambda>i result. foldE (\<lambda>k result. foldE (\<lambda>j result.
       bindE (mat_get A i k) (\<lambda>a. bindE (mat_get other k j) (\<lambda>b. bindE (mat_get result i j) (\<lambda>c.
       mat_set result i j (c + a * b))))) [0..<m] result) [0..<p] result) [0..<n] result))"

definition Mat_IsSquare :: "'a mat \<Rightarrow> bool" where
  "Mat_IsSquare A \<longleftrightarrow> mRows A = mCols A"

definition Mat_Transpose :: "'a::zero mat \<Rightarrow> 'a mat res" where
  "Mat_Transpose A = bindE (new_Mat (mCols A) (mRows A)) (\<lambda>t.
     foldE (\<lambda>i t. foldE (\<lambda>j t. bindE (mat_get A i j) (\<lambda>v. mat_set t j i v)) [0..<mCols A] t) [0..<mRows A] t)"

definition Mat_Resize :: "nat \<Rightarrow> nat \<Rightarrow> 'a mat \<Rightarrow> 'a mat res" where
  "Mat_Resize rows cols A = throw_if (rows * cols \<noteq> mRows A * mCols A) (Invalid_argument ''Cannot resize matrix'')
     (Inr (A\<lparr> mRows := rows, mCols := cols \<rparr>))"

definition Mat_IsIdentity :: "'a::zero_neq_one mat \<Rightarrow> bool res" where
  "Mat_IsIdentity A = (if \<not> Mat_IsSquare A then Inr False
     else foldE (\<lambda>i is_ident. foldE (\<lambda>j is_ident. bindE (mat_get A i j) (\<lambda>v.
       Inr (if i = j then is_ident \<and> v = 1 else is_ident \<and> v = 0))) [0..<mCols A] is_ident) [0..<mRows A] True)"

definition Mat_Equals :: "'a mat \<Rightarrow> 'a mat \<Rightarrow> bool res" where
  "Mat_Equals A other = (if mRows A \<noteq> mRows other \<or> mCols A \<noteq> mCols other then Inr False
     else foldE (\<lambda>i equal. bindE (vget (mValues A) i) (\<lambda>a. bindE (vget (mValues other) i) (\<lambda>b. Inr (equal \<and> a = b))))
       [0..<length (mValues A)] True)"

subsection \<open>Bytes\<close>

definition Mat_ByteSize :: "nat \<Rightarrow> 'a mat \<Rightarrow> nat" where
  "Mat_ByteSize bsz A = mRows A * mCols A * bsz"

definition Mat_Write :: "('a \<Rightarrow> 8 word list) \<Rightarrow> 'a mat \<Rightarrow> 8 word list" where
  "Mat_Write wr A = fold (\<lambda>v dest. dest @ wr v) (mValues A) []"

definition Mat_Read :: "(8 word list \<Rightarrow> 'a res) \<Rightarrow> nat \<Rightarrow> nat \<Rightarrow> nat \<Rightarrow> 8 word list \<Rightarrow> 'a mat res" where
  "Mat_Read rd bsz n m src = bindE (foldE (\<lambda>i (elements, ptr). bindE (rd (drop ptr src)) (\<lambda>e. Inr (elements @ [e], ptr + bsz)))
     [0..<n * m] ([], 0)) (\<lambda>(elements, ptr). Inr \<lparr> mRows = n, mCols = m, mValues = elements \<rparr>)"

text \<open>\<open>prg.Next(buffer, size)\<close> is a parameter.\<close>

definition Mat_Random :: "(nat \<Rightarrow> 'g \<Rightarrow> 8 word list \<times> 'g) \<Rightarrow> (8 word list \<Rightarrow> 'a res) \<Rightarrow> nat \<Rightarrow> nat \<Rightarrow> nat \<Rightarrow> 'g \<Rightarrow> ('a mat \<times> 'g) res" where
  "Mat_Random next rd bsz n m prg = (case next (n * m * bsz) prg of (buffer, prg) \<Rightarrow>
     bindE (mapE (\<lambda>i. rd (drop (i * bsz) buffer)) [0..<n * m]) (\<lambda>elements.
     Inr (\<lparr> mRows = n, mCols = m, mValues = elements \<rparr>, prg)))"

text \<open>\<open>Vec::ToRowMatrix\<close> and \<open>Vec::ToColumnMatrix\<close>.\<close>

definition Vec_ToRowMatrix :: "'a list \<Rightarrow> 'a mat" where
  "Vec_ToRowMatrix v = \<lparr> mRows = 1, mCols = length v, mValues = v \<rparr>"

definition Vec_ToColumnMatrix :: "'a list \<Rightarrow> 'a mat" where
  "Vec_ToColumnMatrix v = \<lparr> mRows = length v, mCols = 1, mValues = v \<rparr>"

section \<open>Matrices as functions\<close>

definition mat_ok :: "'a mat \<Rightarrow> bool" where
  "mat_ok A \<longleftrightarrow> length (mValues A) = mRows A * mCols A"

definition ent :: "'a mat \<Rightarrow> nat \<Rightarrow> nat \<Rightarrow> 'a" where
  "ent A i j = mValues A ! (mCols A * i + j)"

definition rep :: "'a mat \<Rightarrow> nat \<Rightarrow> nat \<Rightarrow> (nat \<Rightarrow> nat \<Rightarrow> 'a) \<Rightarrow> bool" where
  "rep A n m M \<longleftrightarrow> mat_ok A \<and> mRows A = n \<and> mCols A = m \<and> (\<forall>i<n. \<forall>j<m. ent A i j = M i j)"

lemma mat_index_less: "i < n \<Longrightarrow> j < m \<Longrightarrow> m * i + j < n * (m :: nat)"
proof -
  assume ij: "i < n" "j < m"
  then have "m * i + j < m * Suc i" by simp
  also have "\<dots> \<le> m * n" using ij(1) by (intro mult_le_mono2) simp
  finally show ?thesis by (simp add: mult.commute)
qed

lemma mat_index_eq: "j < m \<Longrightarrow> j' < m \<Longrightarrow> m * i + j = m * i' + j' \<longleftrightarrow> i = i' \<and> j = (j' :: nat)"
  by (metis add_diff_cancel_left' div_mult_self4 div_less mod_less mod_mult_self4 add.commute add_cancel_right_left less_nat_zero_code)

lemma repD:
  assumes "rep A n m M"
  shows "mat_ok A" "mRows A = n" "mCols A = m" "length (mValues A) = n * m" "i < n \<Longrightarrow> j < m \<Longrightarrow> ent A i j = M i j"
  using assms by (auto simp: rep_def mat_ok_def)

lemma rep_self: "mat_ok A \<Longrightarrow> rep A (mRows A) (mCols A) (ent A)"
  by (simp add: rep_def)

lemma rep_cong: "rep A n m M \<Longrightarrow> (\<And>i j. i < n \<Longrightarrow> j < m \<Longrightarrow> M i j = N i j) \<Longrightarrow> rep A n m N"
  by (simp add: rep_def)

lemma rep_get: "rep A n m M \<Longrightarrow> i < n \<Longrightarrow> j < m \<Longrightarrow> mat_get A i j = Inr (M i j)"
  using mat_index_less [of i n j m] by (auto simp: rep_def mat_ok_def mat_get_def ent_def)

lemma rep_set:
  assumes "rep A n m M" "i < n" "j < m"
  obtains A' where "mat_set A i j v = Inr A'" "rep A' n m (\<lambda>i' j'. if i' = i \<and> j' = j then v else M i' j')"
proof -
  have len: "length (mValues A) = n * m" "mCols A = m" "mRows A = n" using repD [OF assms(1)] by simp_all
  let ?A = "A\<lparr> mValues := (mValues A)[m * i + j := v] \<rparr>"
  have "mat_set A i j v = Inr ?A" using mat_index_less [OF assms(2,3)] len by (simp add: mat_set_def)
  moreover have "ent ?A i' j' = (if i' = i \<and> j' = j then v else M i' j')" if "i' < n" "j' < m" for i' j'
    using repD(5) [OF assms(1) that] mat_index_less [OF that] mat_index_eq [OF that(2) assms(3), of i' i] len
    by (auto simp: ent_def nth_list_update)
  then have "rep ?A n m (\<lambda>i' j'. if i' = i \<and> j' = j then v else M i' j')" using len by (simp add: rep_def mat_ok_def)
  ultimately show ?thesis by (rule that)
qed

lemma rep_unique:
  assumes "rep A n m M" "rep B n m N" "\<And>i j. i < n \<Longrightarrow> j < m \<Longrightarrow> M i j = N i j"
  shows "A = B"
proof -
  have "mValues A ! q = mValues B ! q" if "q < n * m" for q
  proof -
    have m: "0 < m" using that by (cases m) simp_all
    then have ij: "q div m < n" "q mod m < m" using that by (simp_all add: less_mult_imp_div_less)
    have "m * (q div m) + q mod m = q" by simp
    then show ?thesis using repD(5) [OF assms(1) ij] repD(5) [OF assms(2) ij] assms(3) [OF ij] repD(3) [OF assms(1)] repD(3) [OF assms(2)]
      by (simp add: ent_def)
  qed
  then have "mValues A = mValues B" using repD(4) [OF assms(1)] repD(4) [OF assms(2)] by (intro nth_equalityI) simp_all
  then show ?thesis using repD(2,3) [OF assms(1)] repD(2,3) [OF assms(2)] by simp
qed

section \<open>The operations\<close>

lemma rep_new: "n \<noteq> 0 \<Longrightarrow> m \<noteq> 0 \<Longrightarrow> \<exists>A. new_Mat n m = Inr A \<and> rep A n m (\<lambda>_ _. 0)"
  using mat_index_less by (simp add: new_Mat_def rep_def mat_ok_def ent_def)

text \<open>A loop over the columns that writes column \<open>j\<close> in round \<open>j\<close>.\<close>

lemma rep_columns:
  assumes "rep A n m M"
    and step: "\<And>j A N. j < m \<Longrightarrow> rep A n m N \<Longrightarrow> (\<And>i. i < n \<Longrightarrow> N i j = M i j) \<Longrightarrow>
      \<exists>A'. f j A = Inr A' \<and> rep A' n m (\<lambda>i k. if k = j then g i j else N i k)"
  shows "\<exists>A'. foldE f [0..<m] A = Inr A' \<and> rep A' n m g"
proof -
  let ?I = "\<lambda>j A. rep A n m (\<lambda>i k. if k < j then g i k else M i k)"
  have "\<exists>A'. foldE f [0..<m] A = Inr A' \<and> ?I m A'"
  proof (rule foldE_upt_invariant [where I = ?I])
    show "?I 0 A" using assms(1) by simp
    fix j B assume j: "j < m" and B: "?I j B"
    from step [OF j B] obtain B' where "f j B = Inr B'"
      "rep B' n m (\<lambda>i k. if k = j then g i j else if k < j then g i k else M i k)" by auto
    then show "\<exists>B'. f j B = Inr B' \<and> ?I (Suc j) B'" by (auto elim!: rep_cong)
  qed
  then obtain A' where "foldE f [0..<m] A = Inr A'" "?I m A'" by blast
  then show ?thesis by (auto elim!: rep_cong)
qed

text \<open>The same for a loop over the rows.\<close>

lemma rep_rows:
  assumes "rep A n m M"
    and step: "\<And>i A N. i < n \<Longrightarrow> rep A n m N \<Longrightarrow> (\<And>j. j < m \<Longrightarrow> N i j = M i j) \<Longrightarrow>
      \<exists>A'. f i A = Inr A' \<and> rep A' n m (\<lambda>k j. if k = i then g i j else N k j)"
  shows "\<exists>A'. foldE f [0..<n] A = Inr A' \<and> rep A' n m g"
proof -
  let ?I = "\<lambda>i A. rep A n m (\<lambda>k j. if k < i then g k j else M k j)"
  have "\<exists>A'. foldE f [0..<n] A = Inr A' \<and> ?I n A'"
  proof (rule foldE_upt_invariant [where I = ?I])
    show "?I 0 A" using assms(1) by simp
    fix i B assume i: "i < n" and B: "?I i B"
    from step [OF i B] obtain B' where "f i B = Inr B'"
      "rep B' n m (\<lambda>k j. if k = i then g i j else if k < i then g k j else M k j)" by auto
    then show "\<exists>B'. f i B = Inr B' \<and> ?I (Suc i) B'" by (auto elim!: rep_cong)
  qed
  then obtain A' where "foldE f [0..<n] A = Inr A'" "?I n A'" by blast
  then show ?thesis by (auto elim!: rep_cong)
qed

lemma rep_set_ex: "rep A n m M \<Longrightarrow> i < n \<Longrightarrow> j < m \<Longrightarrow>
    \<exists>A'. mat_set A i j v = Inr A' \<and> rep A' n m (\<lambda>i' j'. if i' = i \<and> j' = j then v else M i' j')"
  by (rule rep_set) blast+

lemma Identity_rep:
  assumes "0 < n"
  shows "\<exists>I. Mat_Identity n = Inr I \<and> rep I n n (\<lambda>i j. if i = j then 1 else 0 :: 'a::zero_neq_one)"
proof -
  obtain A :: "'a mat" where A: "new_Mat n n = Inr A" "rep A n n (\<lambda>_ _. 0)" using rep_new [of n n] assms by auto
  have "\<exists>I. foldE (\<lambda>i I. mat_set I i i 1) [0..<n] A = Inr I \<and> rep I n n (\<lambda>i j. if i = j then 1 else 0 :: 'a)"
  proof (rule rep_rows [OF A(2)])
    fix i B and N :: "nat \<Rightarrow> nat \<Rightarrow> 'a"
    assume i: "i < n" and B: "rep B n n N" and N: "\<And>j. j < n \<Longrightarrow> N i j = 0"
    from rep_set_ex [OF B i i, of 1] show "\<exists>B'. mat_set B i i 1 = Inr B' \<and> rep B' n n (\<lambda>k j. if k = i then if i = j then 1 else 0 else N k j)"
      using N by (auto elim!: rep_cong)
  qed
  then show ?thesis using A(1) by (simp add: Mat_Identity_def new_Mat_square_def)
qed

lemma Transpose_rep:
  fixes M :: "nat \<Rightarrow> nat \<Rightarrow> 'a::zero"
  assumes A: "rep A n m M" and nm: "0 < n" "0 < m"
  shows "\<exists>T. Mat_Transpose A = Inr T \<and> rep T m n (\<lambda>i j. M j i)"
proof -
  obtain t :: "'a mat" where t: "new_Mat m n = Inr t" "rep t m n (\<lambda>_ _. 0)" using rep_new [of m n] nm by auto
  let ?f = "\<lambda>i t. foldE (\<lambda>j t. bindE (mat_get A i j) (\<lambda>v. mat_set t j i v)) [0..<m] t"
  have "\<exists>T. foldE ?f [0..<n] t = Inr T \<and> rep T m n (\<lambda>i j. M j i)"
  proof (rule rep_columns [OF t(2)])
    fix j T and N :: "nat \<Rightarrow> nat \<Rightarrow> 'a"
    assume j: "j < n" and T: "rep T m n N"
    show "\<exists>T'. ?f j T = Inr T' \<and> rep T' m n (\<lambda>i k. if k = j then M j i else N i k)"
    proof (rule rep_rows [OF T])
      fix i B and N' :: "nat \<Rightarrow> nat \<Rightarrow> 'a"
      assume i: "i < m" and B: "rep B m n N'" and N': "\<And>k. k < n \<Longrightarrow> N' i k = N i k"
      from rep_set_ex [OF B i j, of "M j i"]
      show "\<exists>B'. bindE (mat_get A j i) (mat_set B i j) = Inr B' \<and> rep B' m n (\<lambda>k k'. if k = i then if k' = j then M j i else N i k' else N' k k')"
        using N' i rep_get [OF A j i] by (auto elim!: rep_cong)
    qed
  qed
  then show ?thesis using t(1) repD(2,3) [OF A] by (simp add: Mat_Transpose_def)
qed

lemma Multiply_rep:
  fixes M N :: "nat \<Rightarrow> nat \<Rightarrow> 'a::comm_ring_1"
  assumes A: "rep A n p M" and B: "rep B p m N" and nm: "0 < n" "0 < m"
  shows "\<exists>C. Mat_Multiply A B = Inr C \<and> rep C n m (\<lambda>i j. \<Sum>k<p. M i k * N k j)"
proof -
  obtain R :: "'a mat" where R: "new_Mat n m = Inr R" "rep R n m (\<lambda>_ _. 0)" using rep_new [of n m] nm by auto
  let ?h = "\<lambda>i k j result. bindE (mat_get A i k) (\<lambda>a. bindE (mat_get B k j) (\<lambda>b. bindE (mat_get result i j) (\<lambda>c. mat_set result i j (c + a * b))))"
  let ?g = "\<lambda>i k. foldE (?h i k) [0..<m]" and ?f = "\<lambda>i. foldE (\<lambda>k. foldE (?h i k) [0..<m]) [0..<p]"
  have inner: "\<exists>C'. ?g i k C = Inr C' \<and> rep C' n m (\<lambda>i' j. if i' = i then L i j + M i k * N k j else L i' j)"
    if i: "i < n" and k: "k < p" and C: "rep C n m L" for i k C L
  proof (rule rep_columns [OF C])
    fix j D and L' :: "nat \<Rightarrow> nat \<Rightarrow> 'a"
    assume j: "j < m" and D: "rep D n m L'" and L': "\<And>i. i < n \<Longrightarrow> L' i j = L i j"
    from rep_set_ex [OF D i j, of "L' i j + M i k * N k j"]
    show "\<exists>D'. ?h i k j D = Inr D' \<and> rep D' n m (\<lambda>i' k'. if k' = j then if i' = i then L i j + M i k * N k j else L i' j else L' i' k')"
      using L' i rep_get [OF A i k] rep_get [OF B k j] rep_get [OF D i j] by (auto elim!: rep_cong)
  qed
  have "\<exists>C. foldE ?f [0..<n] R = Inr C \<and> rep C n m (\<lambda>i j. \<Sum>k<p. M i k * N k j)"
  proof (rule rep_rows [OF R(2)])
    fix i C and L :: "nat \<Rightarrow> nat \<Rightarrow> 'a"
    assume i: "i < n" and C: "rep C n m L" and L: "\<And>j. j < m \<Longrightarrow> L i j = 0"
    let ?I = "\<lambda>q C. rep C n m (\<lambda>k j. if k = i then \<Sum>k<q. M i k * N k j else L k j)"
    show "\<exists>C'. ?f i C = Inr C' \<and> ?I p C'"
    proof (rule foldE_upt_invariant [where I = ?I])
      show "?I 0 C" using C L by (auto elim!: rep_cong)
      fix q D assume q: "q < p" and D: "?I q D"
      from inner [OF i q D] show "\<exists>D'. ?g i q D = Inr D' \<and> ?I (Suc q) D'" by (auto elim!: rep_cong)
    qed
  qed
  then show ?thesis using R(1) repD(2,3) [OF A] repD(2,3) [OF B] by (simp add: Mat_Multiply_def)
qed

lemma combine_values_run: "length vs = length other \<Longrightarrow> combine_values f other vs = Inr (map2 f vs other)"
proof -
  assume len: "length vs = length other"
  let ?I = "\<lambda>i ws. ws = map2 f (take i vs) (take i other) @ drop i vs"
  have "\<exists>ws. combine_values f other vs = Inr ws \<and> ?I (length vs) ws"
    unfolding combine_values_def
  proof (rule foldE_upt_invariant [where I = ?I])
    fix i ws assume i: "i < length vs" and ws: "?I i ws"
    have "ws ! i = vs ! i" "length ws = length vs" using i ws len by (simp_all add: nth_append)
    moreover have "ws[i := f (vs ! i) (other ! i)] = map2 f (take (Suc i) vs) (take (Suc i) other) @ drop (Suc i) vs"
      using i ws len by (simp add: take_Suc_conv_app_nth list_update_append Cons_nth_drop_Suc [symmetric])
    ultimately show "\<exists>ws'. bindE (vget ws i) (\<lambda>a. bindE (vget other i) (\<lambda>b. vset ws i (f a b))) = Inr ws' \<and> ?I (Suc i) ws'"
      using i len by simp
  qed simp
  then show ?thesis using len by simp
qed

lemma combine_rep:
  assumes "rep A n m M" "rep B n m N"
  shows "\<exists>C. bindE (combine_values f (mValues B) (mValues A)) (\<lambda>vs. Inr \<lparr> mRows = n, mCols = m, mValues = vs \<rparr>) = Inr C \<and> rep C n m (\<lambda>i j. f (M i j) (N i j))"
  using combine_values_run [of "mValues A" "mValues B" f] repD(2-4) [OF assms(1)] repD(2-4) [OF assms(2)]
    repD(5) [OF assms(1)] repD(5) [OF assms(2)] mat_index_less
  by (auto simp: rep_def mat_ok_def ent_def)

lemma Mat_entrywise_rep:
  assumes "rep A n m M" "rep B n m N"
  shows "\<exists>C. Mat_Add A B = Inr C \<and> rep C n m (\<lambda>i j. M i j + N i j)"
    "\<exists>C. Mat_Subtract A B = Inr C \<and> rep C n m (\<lambda>i j. M i j - N i j)"
    "\<exists>C. Mat_MultiplyEntryWise A B = Inr C \<and> rep C n m (\<lambda>i j. M i j * N i j)"
  using combine_rep [OF assms] repD(2,3) [OF assms(1)] repD(2,3) [OF assms(2)]
  by (simp_all add: Mat_Add_def Mat_Subtract_def Mat_MultiplyEntryWise_def Mat_AddInPlace_def Mat_SubtractInPlace_def
      Mat_MultiplyEntryWiseInPlace_def Mat_EnsureCompatible_def)

lemma ScalarMultiply_rep: "rep A n m M \<Longrightarrow> rep (Mat_ScalarMultiply c A) n m (\<lambda>i j. M i j * c)"
  using mat_index_less by (auto simp: Mat_ScalarMultiply_def Mat_ScalarMultiplyInPlace_def rep_def mat_ok_def ent_def)

lemma incompatible_throws:
  assumes "mRows A \<noteq> mRows B \<or> mCols A \<noteq> mCols B"
  shows "Mat_Add A B = Inl (Invalid_argument ''incompatible matrices'')" "Mat_Subtract A B = Inl (Invalid_argument ''incompatible matrices'')"
    "Mat_MultiplyEntryWise A B = Inl (Invalid_argument ''incompatible matrices'')"
  using assms by (auto simp: Mat_Add_def Mat_Subtract_def Mat_MultiplyEntryWise_def Mat_AddInPlace_def Mat_SubtractInPlace_def
      Mat_MultiplyEntryWiseInPlace_def Mat_EnsureCompatible_def)

lemma Equals_eq: "mat_ok A \<Longrightarrow> mat_ok B \<Longrightarrow> Mat_Equals A B = Inr (A = B)"
proof -
  assume ok: "mat_ok A" "mat_ok B"
  let ?f = "\<lambda>i equal. bindE (vget (mValues A) i) (\<lambda>a. bindE (vget (mValues B) i) (\<lambda>b. Inr (equal \<and> a = b)))"
  show ?thesis
  proof (cases "mRows A = mRows B \<and> mCols A = mCols B")
    case True
    then have len: "length (mValues B) = length (mValues A)" using ok by (simp add: mat_ok_def)
    have "\<exists>e. foldE ?f [0..<length (mValues A)] True = Inr e \<and> e = (\<forall>i<length (mValues A). mValues A ! i = mValues B ! i)"
      by (rule foldE_upt_invariant [where I = "\<lambda>k e. e = (\<forall>i<k. mValues A ! i = mValues B ! i)"]) (auto simp: len less_Suc_eq)
    moreover have "(\<forall>i<length (mValues A). mValues A ! i = mValues B ! i) = (A = B)"
    proof
      assume "\<forall>i<length (mValues A). mValues A ! i = mValues B ! i"
      then have "mValues A = mValues B" using len by (intro nth_equalityI) simp_all
      then show "A = B" using True by simp
    qed simp
    ultimately show ?thesis using True by (simp add: Mat_Equals_def)
  qed (auto simp: Mat_Equals_def)
qed

section \<open>Property\<close>



end
