(* ===== verification/LinAlg.thy ===== *)
theory LinAlg
  imports MatOps Packed
begin

text \<open>
  Linear algebra (\<open>scl/math/la.h\<close>): reduced row echelon form in place, and the solution of a linear
  system from it. The lemmas show that row reduction keeps the solutions of a system and reaches
  an echelon form, and that a square system is solved exactly when its solution is unique.
\<close>

section \<open>Row operations\<close>

definition SwapRows :: "'a mat \<Rightarrow> nat \<Rightarrow> nat \<Rightarrow> 'a mat res" where
  "SwapRows A k h = (if k \<noteq> h then foldE (\<lambda>i A.
     bindE (mat_get A h i) (\<lambda>temp. bindE (mat_get A k i) (\<lambda>v. bindE (mat_set A h i v) (\<lambda>A. mat_set A k i temp))))
     [0..<mCols A] A else Inr A)"

definition MultiplyRow :: "'a::field mat \<Rightarrow> nat \<Rightarrow> 'a \<Rightarrow> 'a mat res" where
  "MultiplyRow A row m = foldE (\<lambda>j A. bindE (mat_get A row j) (\<lambda>v. mat_set A row j (v * m))) [0..<mCols A] A"

definition AddRows :: "'a::field mat \<Rightarrow> nat \<Rightarrow> nat \<Rightarrow> 'a \<Rightarrow> 'a mat res" where
  "AddRows A dst op m = foldE (\<lambda>j A. bindE (mat_get A dst j) (\<lambda>v. bindE (mat_get A op j) (\<lambda>w.
     mat_set A dst j (v + w * m)))) [0..<mCols A] A"

function find_pivot :: "'a::field mat \<Rightarrow> nat \<Rightarrow> nat \<Rightarrow> nat \<Rightarrow> nat res" where
  "find_pivot A n c pivot = (if pivot < n
     then bindE (mat_get A pivot c) (\<lambda>v. if v = 0 then find_pivot A n c (Suc pivot) else Inr pivot)
     else Inr pivot)"
  by pat_completeness auto
termination
  by (relation "measure (\<lambda>(A, n, c, pivot). n - pivot)") auto

declare find_pivot.simps [simp del]

text \<open>
  One round of the loop with a pivot in row \<open>pivot\<close>: the pivot row becomes row \<open>r\<close>, its leading
  coefficient becomes 1, and column \<open>c\<close> is cleared in all other rows. \<open>Inverse\<close> throws at zero.
\<close>

definition clear_column :: "nat \<Rightarrow> nat \<Rightarrow> nat \<Rightarrow> 'a::field mat \<Rightarrow> 'a mat res" where
  "clear_column n r c = foldE (\<lambda>k A. if k = r then Inr A
     else bindE (mat_get A k c) (\<lambda>t. if t \<noteq> 0 then AddRows A k r (- t) else Inr A)) [0..<n]"

definition reduce_column :: "nat \<Rightarrow> nat \<Rightarrow> nat \<Rightarrow> nat \<Rightarrow> 'a::field mat \<Rightarrow> 'a mat res" where
  "reduce_column n pivot r c A =
     bindE (SwapRows A pivot r) (\<lambda>A. bindE (mat_get A r c) (\<lambda>v. bindE (invE v) (\<lambda>pv.
     bindE (MultiplyRow A r pv) (clear_column n r c))))"

function row_reduce :: "nat \<Rightarrow> nat \<Rightarrow> nat \<Rightarrow> nat \<Rightarrow> 'a::field mat \<Rightarrow> 'a mat res" where
  "row_reduce n m r c A = (if r < n \<and> c < m
     then bindE (find_pivot A n c r) (\<lambda>pivot.
       if pivot = n then row_reduce n m r (Suc c) A
       else bindE (reduce_column n pivot r c A) (row_reduce n m (Suc r) (Suc c)))
     else Inr A)"
  by pat_completeness auto
termination
  by (relation "measure (\<lambda>(n, m, r, c, A). m - c)") auto

declare row_reduce.simps [simp del]

definition RowReduceInPlace :: "'a::field mat \<Rightarrow> 'a mat res" where
  "RowReduceInPlace A = row_reduce (mRows A) (mCols A) 0 0 A"

section \<open>Solutions\<close>

text \<open>\<open>GetPivotInColumn\<close> counts rows and columns in \<open>int\<close>; -1 says that there is no pivot.\<close>

primrec pivot_scan :: "'a::field mat \<Rightarrow> int \<Rightarrow> nat \<Rightarrow> int res" where
  "pivot_scan A col 0 = Inr (- 1)"
| "pivot_scan A col (Suc i) = bindE (mat_get A i (nat col)) (\<lambda>v.
     if v \<noteq> 0 then bindE (mapE (\<lambda>k. mat_get A i (nat k)) [0..col - 2]) (\<lambda>before.
       if list_ex (\<lambda>v. v \<noteq> 0) before then Inr (- 1) else Inr (int i))
     else pivot_scan A col i)"

definition GetPivotInColumn :: "'a::field mat \<Rightarrow> int \<Rightarrow> int res" where
  "GetPivotInColumn A col = pivot_scan A col (nat (to_int32 (int (mRows A))))"

text \<open>The row number wraps around when all rows are zero.\<close>

primrec nonzero_scan :: "'a::field mat \<Rightarrow> nat \<Rightarrow> nat res" where
  "nonzero_scan A 0 = Inr (2 ^ 64 - 1)"
| "nonzero_scan A (Suc nzr) = bindE (mapE (\<lambda>j. mat_get A nzr j) [0..<mCols A]) (\<lambda>row.
     if list_ex (\<lambda>v. v \<noteq> 0) row then Inr nzr else nonzero_scan A nzr)"

definition FindFirstNonZeroRow :: "'a::field mat \<Rightarrow> nat res" where
  "FindFirstNonZeroRow A = nonzero_scan A (mRows A)"

definition ExtractSolution :: "'a::field mat \<Rightarrow> 'a list res" where
  "ExtractSolution A = (let n = mRows A; m = mCols A; x = replicate (size_sub m 1) 0 in
     bindE (FindFirstNonZeroRow A) (\<lambda>i.
     let c = to_int32 (int m - 2 - (int n - int i - 1)) in
     bindE (foldE (\<lambda>c (x, i). bindE (GetPivotInColumn A c) (\<lambda>p.
         if p = - 1 then bindE (vset x (nat c) 1) (\<lambda>x. Inr (x, i))
         else bindE (foldE (\<lambda>j sum. bindE (mat_get A i j) (\<lambda>a. bindE (vget x j) (\<lambda>y. Inr (sum + a * y)))) [nat (p + 1)..<n] 0) (\<lambda>sum.
           bindE (mat_get A i (size_sub m 1)) (\<lambda>b. bindE (vset x (nat c) (b - sum)) (\<lambda>x. Inr (x, size_sub i 1)))))) (rev [0..c]) (x, i))
       (\<lambda>(x, i). Inr x)))"

definition HasSolution :: "'a::field mat \<Rightarrow> bool \<Rightarrow> bool res" where
  "HasSolution A unique_only = foldE (\<lambda>i ok. if \<not> ok then Inr False
     else bindE (mapE (\<lambda>j. mat_get A i j) [0..<size_sub (mCols A) 1]) (\<lambda>row.
       let all_zero = list_all (\<lambda>v. v = 0) row in
       if unique_only then Inr (\<not> all_zero)
       else if all_zero then bindE (mat_get A i (size_sub (mCols A) 1)) (\<lambda>b. Inr (b = 0))
       else Inr True)) [0..<mRows A] True"

definition CreateAugmentedMatrix :: "'a::field mat \<Rightarrow> 'a mat \<Rightarrow> 'a mat res" where
  "CreateAugmentedMatrix A B = (let n = mRows A; m = mCols A; k = mCols B in
     bindE (new_Mat n (m + k)) (\<lambda>aug. foldE (\<lambda>i aug.
       bindE (foldE (\<lambda>j aug. bindE (mat_get A i j) (mat_set aug i j)) [0..<m] aug) (\<lambda>aug.
       foldE (\<lambda>j aug. bindE (mat_get B i (j - m)) (mat_set aug i j)) [m..<m + k] aug)) [0..<n] aug))"

definition CreateAugmentedMatrixVec :: "'a::field mat \<Rightarrow> 'a list \<Rightarrow> 'a mat res" where
  "CreateAugmentedMatrixVec A b = CreateAugmentedMatrix A (Vec_ToColumnMatrix b)"

text \<open>The solution is stored in \<open>x\<close> when there is one, otherwise \<open>x\<close> is as before.\<close>

definition SolveLinearSystem :: "'a::field list \<Rightarrow> 'a mat \<Rightarrow> 'a list \<Rightarrow> (bool \<times> 'a list) res" where
  "SolveLinearSystem x A b = throw_if (mRows A \<noteq> length b) (Invalid_argument ''malformed system of equations'') (
     bindE (CreateAugmentedMatrixVec A b) (\<lambda>aug. bindE (RowReduceInPlace aug) (\<lambda>aug.
     bindE (HasSolution aug True) (\<lambda>ok. if \<not> ok then Inr (False, x)
       else bindE (ExtractSolution aug) (\<lambda>x. Inr (True, x))))))"

section \<open>Row operations on the entries\<close>

definition swapped :: "nat \<Rightarrow> nat \<Rightarrow> (nat \<Rightarrow> nat \<Rightarrow> 'a) \<Rightarrow> nat \<Rightarrow> nat \<Rightarrow> 'a" where
  "swapped k h M i j = (if i = h then M k j else if i = k then M h j else M i j)"

definition scaled :: "nat \<Rightarrow> 'a::field \<Rightarrow> (nat \<Rightarrow> nat \<Rightarrow> 'a) \<Rightarrow> nat \<Rightarrow> nat \<Rightarrow> 'a" where
  "scaled r m M i j = (if i = r then M r j * m else M i j)"

definition cleared :: "nat \<Rightarrow> nat \<Rightarrow> (nat \<Rightarrow> nat \<Rightarrow> 'a::field) \<Rightarrow> nat \<Rightarrow> nat \<Rightarrow> 'a" where
  "cleared r c M i j = (if i = r then M r j else M i j - M i c * M r j)"

lemma SwapRows_rep:
  assumes A: "rep A n w M" and kh: "k < n" "h < n"
  shows "\<exists>A'. SwapRows A k h = Inr A' \<and> rep A' n w (swapped k h M)"
proof (cases "k = h")
  case True
  then show ?thesis using A by (auto simp: SwapRows_def swapped_def elim!: rep_cong)
next
  case False
  let ?f = "\<lambda>i A. bindE (mat_get A h i) (\<lambda>temp. bindE (mat_get A k i) (\<lambda>v. bindE (mat_set A h i v) (\<lambda>A. mat_set A k i temp)))"
  have "\<exists>A'. foldE ?f [0..<w] A = Inr A' \<and> rep A' n w (swapped k h M)"
  proof (rule rep_columns [OF A])
    fix j B N
    assume j: "j < w" and B: "rep B n w N" and N: "\<And>i. i < n \<Longrightarrow> N i j = M i j"
    obtain B1 where B1: "mat_set B h j (N k j) = Inr B1" "rep B1 n w (\<lambda>i' j'. if i' = h \<and> j' = j then N k j else N i' j')"
      by (rule rep_set [OF B kh(2) j])
    obtain B2 where B2: "mat_set B1 k j (N h j) = Inr B2"
      "rep B2 n w (\<lambda>i' j'. if i' = k \<and> j' = j then N h j else if i' = h \<and> j' = j then N k j else N i' j')"
      by (rule rep_set [OF B1(2) kh(1) j])
    show "\<exists>B'. ?f j B = Inr B' \<and> rep B' n w (\<lambda>i k'. if k' = j then swapped k h M i j else N i k')"
      using B1(1) B2 rep_get [OF B kh(1) j] rep_get [OF B kh(2) j] N kh False by (auto simp: swapped_def elim!: rep_cong)
  qed
  then show ?thesis using False repD(3) [OF A] by (simp add: SwapRows_def)
qed

lemma MultiplyRow_rep:
  assumes A: "rep A n w M" and r: "r < n"
  shows "\<exists>A'. MultiplyRow A r m = Inr A' \<and> rep A' n w (scaled r m M)"
proof -
  have "\<exists>A'. foldE (\<lambda>j A. bindE (mat_get A r j) (\<lambda>v. mat_set A r j (v * m))) [0..<w] A = Inr A'
      \<and> rep A' n w (scaled r m M)"
  proof (rule rep_columns [OF A])
    fix j B N
    assume j: "j < w" and B: "rep B n w N" and N: "\<And>i. i < n \<Longrightarrow> N i j = M i j"
    from rep_set_ex [OF B r j, of "M r j * m"] rep_get [OF B r j] N [OF r]
    show "\<exists>B'. bindE (mat_get B r j) (\<lambda>v. mat_set B r j (v * m)) = Inr B'
        \<and> rep B' n w (\<lambda>i k. if k = j then scaled r m M i j else N i k)"
      using N by (auto simp: scaled_def elim!: rep_cong)
  qed
  then show ?thesis using repD(3) [OF A] by (simp add: MultiplyRow_def)
qed

lemma AddRows_rep:
  assumes A: "rep A n w M" and r: "d < n" "r < n" "d \<noteq> r"
  shows "\<exists>A'. AddRows A d r m = Inr A' \<and> rep A' n w (\<lambda>i j. if i = d then M d j + M r j * m else M i j)"
proof -
  have "\<exists>A'. foldE (\<lambda>j A. bindE (mat_get A d j) (\<lambda>v. bindE (mat_get A r j) (\<lambda>w. mat_set A d j (v + w * m)))) [0..<w] A = Inr A'
      \<and> rep A' n w (\<lambda>i j. if i = d then M d j + M r j * m else M i j)"
  proof (rule rep_columns [OF A])
    fix j B N
    assume j: "j < w" and B: "rep B n w N" and N: "\<And>i. i < n \<Longrightarrow> N i j = M i j"
    from rep_set_ex [OF B r(1) j, of "M d j + M r j * m"] rep_get [OF B r(1) j] rep_get [OF B r(2) j] N [OF r(1)] N [OF r(2)]
    show "\<exists>B'. bindE (mat_get B d j) (\<lambda>v. bindE (mat_get B r j) (\<lambda>w. mat_set B d j (v + w * m))) = Inr B'
        \<and> rep B' n w (\<lambda>i k. if k = j then if i = d then M d j + M r j * m else M i j else N i k)"
      using N by (auto elim!: rep_cong)
  qed
  then show ?thesis using repD(3) [OF A] by (simp add: AddRows_def)
qed

lemma clear_column_rep:
  assumes A: "rep A n w M" and r: "r < n" "c < w"
  shows "\<exists>A'. clear_column n r c A = Inr A' \<and> rep A' n w (cleared r c M)"
proof -
  let ?f = "\<lambda>k A. if k = r then Inr A else bindE (mat_get A k c) (\<lambda>t. if t \<noteq> 0 then AddRows A k r (- t) else Inr A)"
  let ?I = "\<lambda>k A. rep A n w (\<lambda>i j. if i = r \<or> k \<le> i then M i j else M i j - M i c * M r j)"
  have "\<exists>A'. foldE ?f [0..<n] A = Inr A' \<and> ?I n A'"
  proof (rule foldE_upt_invariant [where I = ?I])
    show "?I 0 A" using A by simp
    fix k B assume k: "k < n" and B: "?I k B"
    show "\<exists>B'. ?f k B = Inr B' \<and> ?I (Suc k) B'"
    proof (cases "k = r")
      case True
      then show ?thesis using B by (auto elim!: rep_cong)
    next
      case False
      have get: "mat_get B k c = Inr (M k c)" using rep_get [OF B k r(2)] by simp
      show ?thesis
      proof (cases "M k c = 0")
        case True
        then show ?thesis using False get B by (auto simp: less_Suc_eq_le le_Suc_eq not_le elim!: rep_cong)
      next
        case nz: False
        from AddRows_rep [OF B k r(1) False, of "- M k c"] show ?thesis
          using False nz get by (auto simp: mult.commute not_less_eq_eq elim!: rep_cong)
      qed
    qed
  qed
  then show ?thesis unfolding clear_column_def by (auto simp: cleared_def elim!: rep_cong)
qed

lemma find_pivot_run:
  assumes A: "rep A n w M" and c: "c < w"
  shows "r \<le> n \<Longrightarrow> \<exists>q. find_pivot A n c r = Inr q \<and> r \<le> q \<and> q \<le> n \<and> (\<forall>k. r \<le> k \<and> k < q \<longrightarrow> M k c = 0) \<and> (q < n \<longrightarrow> M q c \<noteq> 0)"
proof (induction "n - r" arbitrary: r)
  case 0
  then have "r = n" by simp
  then show ?case by (intro exI [of _ n]) (auto simp: find_pivot.simps)
next
  case (Suc d)
  then have r: "r < n" by simp
  note get = rep_get [OF A r c]
  show ?case
  proof (cases "M r c = 0")
    case True
    have "d = n - Suc r" using Suc.hyps(2) by simp
    from Suc.hyps(1) [OF this] r obtain q where q: "find_pivot A n c (Suc r) = Inr q" "Suc r \<le> q" "q \<le> n"
      "\<forall>k. Suc r \<le> k \<and> k < q \<longrightarrow> M k c = 0" "q < n \<longrightarrow> M q c \<noteq> 0" by auto
    have "\<forall>k. r \<le> k \<and> k < q \<longrightarrow> M k c = 0" using q(4) True by (metis le_neq_implies_less less_eq_Suc_le)
    then show ?thesis using q get True r by (auto simp: find_pivot.simps [of A n c r])
  next
    case False
    then show ?thesis using get r by (auto simp: find_pivot.simps [of A n c r])
  qed
qed

section \<open>Solutions of a system\<close>

text \<open>The solutions of the system with \<open>n\<close> equations in \<open>m\<close> unknowns whose right sides are in column \<open>m\<close>.\<close>

definition sols :: "nat \<Rightarrow> nat \<Rightarrow> (nat \<Rightarrow> nat \<Rightarrow> 'a::field) \<Rightarrow> (nat \<Rightarrow> 'a) set" where
  "sols n m M = {x. \<forall>i<n. (\<Sum>j<m. M i j * x j) = M i m}"

lemma sols_cong: "(\<And>i j. i < n \<Longrightarrow> j \<le> m \<Longrightarrow> M i j = N i j) \<Longrightarrow> sols n m M = sols n m N"
  unfolding sols_def by (intro Collect_cong all_cong arg_cong2 [where f = "(=)"] sum.cong) simp_all

lemma sols_swap:
  assumes "k < n" "h < n"
  shows "sols n m (swapped k h M) = sols n m M"
proof -
  define P where "P x i \<longleftrightarrow> (\<Sum>j<m. M i j * x j) = M i m" for x i
  have "(\<forall>i<n. P x (if i = h then k else if i = k then h else i)) = (\<forall>i<n. P x i)" for x
    using assms by metis
  moreover have "((\<Sum>j<m. swapped k h M i j * x j) = swapped k h M i m) = P x (if i = h then k else if i = k then h else i)" for x i
    by (simp add: swapped_def P_def)
  ultimately show ?thesis by (simp add: sols_def P_def)
qed

lemma sols_scale:
  assumes "a \<noteq> 0"
  shows "sols n m (scaled r a M) = sols n m M"
proof -
  have "((\<Sum>j<m. M r j * a * x j) = M r m * a) = ((\<Sum>j<m. M r j * x j) = M r m)" for x
  proof -
    have "(\<Sum>j<m. M r j * a * x j) = (\<Sum>j<m. M r j * x j) * a" by (simp add: sum_distrib_left ac_simps)
    then show ?thesis using assms by simp
  qed
  then show ?thesis unfolding sols_def scaled_def by (intro Collect_cong all_cong) auto
qed

lemma sols_clear:
  assumes "r < n"
  shows "sols n m (cleared r c M) = sols n m M"
proof -
  have row: "(\<Sum>j<m. (M i j - M i c * M r j) * x j) = (\<Sum>j<m. M i j * x j) - M i c * (\<Sum>j<m. M r j * x j)" for i x
    by (simp add: algebra_simps sum_subtractf sum_distrib_left)
  have "x \<in> sols n m (cleared r c M) \<longleftrightarrow> x \<in> sols n m M" for x
  proof (cases "(\<Sum>j<m. M r j * x j) = M r m")
    case True
    have "((\<Sum>j<m. cleared r c M i j * x j) = cleared r c M i m) = ((\<Sum>j<m. M i j * x j) = M i m)" for i
      using True row [of i x] by (cases "i = r") (simp_all add: cleared_def)
    then show ?thesis by (simp add: sols_def)
  next
    case False
    then show ?thesis using assms by (auto simp: sols_def cleared_def)
  qed
  then show ?thesis by blast
qed

section \<open>Reduced row echelon form\<close>

text \<open>The first \<open>c\<close> columns are reduced, with pivots in the first \<open>r\<close> rows, at the columns \<open>p\<close>.\<close>

definition echelon :: "nat \<Rightarrow> nat \<Rightarrow> nat \<Rightarrow> (nat \<Rightarrow> nat \<Rightarrow> 'a::field) \<Rightarrow> (nat \<Rightarrow> nat) \<Rightarrow> bool" where
  "echelon n r c M p \<longleftrightarrow> r \<le> n \<and> (\<forall>i<r. p i < c) \<and> (\<forall>i<r. \<forall>k<i. p k < p i)
     \<and> (\<forall>i<r. \<forall>k<n. M k (p i) = (if k = i then 1 else 0)) \<and> (\<forall>i<r. \<forall>j<p i. M i j = 0)
     \<and> (\<forall>k<n. r \<le> k \<longrightarrow> (\<forall>j<c. M k j = 0))"

lemma echelonD:
  assumes "echelon n r c M p"
  shows "r \<le> n" "i < r \<Longrightarrow> p i < c" "i < r \<Longrightarrow> k < i \<Longrightarrow> p k < p i" "i < r \<Longrightarrow> k < n \<Longrightarrow> M k (p i) = (if k = i then 1 else 0)"
    "i < r \<Longrightarrow> j < p i \<Longrightarrow> M i j = 0" "k < n \<Longrightarrow> r \<le> k \<Longrightarrow> j < c \<Longrightarrow> M k j = 0"
proof -
  note E = assms [unfolded echelon_def]
  show "r \<le> n" using E by (rule conjunct1)
  show "p i < c" if "i < r" using E that by simp
  show "p k < p i" if "i < r" "k < i" using E that by simp
  show "M k (p i) = (if k = i then 1 else 0)" if "i < r" "k < n" using E that by simp
  show "M i j = 0" if "i < r" "j < p i" using E that by simp
  show "M k j = 0" if "k < n" "r \<le> k" "j < c" using E that by simp
qed

definition reduced :: "nat \<Rightarrow> nat \<Rightarrow> nat \<Rightarrow> (nat \<Rightarrow> nat \<Rightarrow> 'a::field) \<Rightarrow> nat \<Rightarrow> nat \<Rightarrow> 'a" where
  "reduced q r c M = cleared r c (scaled r (inverse (M q c)) (swapped q r M))"

lemma reduce_column_rep:
  assumes A: "rep A n w M" and q: "q < n" "r < n" "c < w" "M q c \<noteq> 0"
  shows "\<exists>A'. reduce_column n q r c A = Inr A' \<and> rep A' n w (reduced q r c M)"
proof -
  obtain A1 where A1: "SwapRows A q r = Inr A1" "rep A1 n w (swapped q r M)"
    using SwapRows_rep [OF A q(1,2)] by blast
  have get: "mat_get A1 r c = Inr (M q c)" using rep_get [OF A1(2) q(2,3)] by (simp add: swapped_def)
  obtain A2 where A2: "MultiplyRow A1 r (inverse (M q c)) = Inr A2" "rep A2 n w (scaled r (inverse (M q c)) (swapped q r M))"
    using MultiplyRow_rep [OF A1(2) q(2)] by blast
  from clear_column_rep [OF A2(2) q(2,3)] obtain A3 where "clear_column n r c A2 = Inr A3" "rep A3 n w (reduced q r c M)"
    unfolding reduced_def by blast
  then show ?thesis using A1(1) get A2(1) q(4) by (simp add: reduce_column_def)
qed

lemma reduced_sols:
  assumes "q < n" "r < n" "M q c \<noteq> 0"
  shows "sols n m (reduced q r c M) = sols n m M"
  using assms by (simp add: reduced_def sols_clear sols_scale sols_swap)

lemma reduced_echelon:
  assumes E: "echelon n r c M p" and q: "r \<le> q" "q < n" "M q c \<noteq> 0"
  shows "echelon n (Suc r) (Suc c) (reduced q r c M) (p(r := c))"
proof -
  note ED = echelonD [OF E]
  let ?a = "inverse (M q c)" and ?N = "reduced q r c M"
  define S where "S i j = (if i = r then M q j else if i = q then M r j else M i j)" for i j
  have N: "?N i j = (if i = r then M q j * ?a else S i j - S i c * (M q j * ?a))" for i j
    by (simp add: reduced_def cleared_def scaled_def swapped_def S_def)
  have zero: "M q j = 0" "S k j = 0" if "j < c" "r \<le> k" "k < n" for j k
    using ED(6) [of q j] ED(6) [of r j] ED(6) [of k j] that q by (simp_all add: S_def)
  have old: "S i j = M i j" if "i < r" for i j using that q(1) by (simp add: S_def)
  have low: "?N k j = M k j" if "k < r" "j < c" for k j
    using N [of k j] old [OF that(1), of j] zero(1) [OF that(2) q(1,2)] that(1) by simp
  have high: "?N k j = 0" if "r \<le> k" "k < n" "j < c" for k j
    using N [of k j] zero(1) [OF that(3) q(1,2)] zero(2) [OF that(3,1,2)] by simp
  have at_c: "?N k c = (if k = r then 1 else 0)" for k using N [of k c] q(3) by simp
  have r: "r < n" using q by simp
  show ?thesis
    unfolding echelon_def
  proof (intro conjI allI impI)
    show "Suc r \<le> n" using r by simp
    show "(p(r := c)) i < Suc c" if "i < Suc r" for i using ED(2) [of i] that by (auto simp: less_Suc_eq)
    show "(p(r := c)) k < (p(r := c)) i" if "i < Suc r" "k < i" for i k using ED(2) [of k] ED(3) [of i k] that by (auto simp: less_Suc_eq)
    show "?N k ((p(r := c)) i) = (if k = i then 1 else 0)" if i: "i < Suc r" and k: "k < n" for i k
    proof (cases "i = r")
      case True
      then show ?thesis using at_c by simp
    next
      case False
      then have "i < r" using i by simp
      then show ?thesis using low [of k "p i"] high [of k "p i"] ED(2) [of i] ED(4) [of i k] k False by (cases "k < r") auto
    qed
    show "?N i j = 0" if i: "i < Suc r" and j: "j < (p(r := c)) i" for i j
    proof (cases "i = r")
      case True
      then show ?thesis using high [of r j] r j by simp
    next
      case False
      then have "i < r" "j < p i" using i j by simp_all
      then show ?thesis using low [of i j] ED(2) [of i] ED(5) [of i j] by simp
    qed
    show "?N k j = 0" if "k < n" "Suc r \<le> k" "j < Suc c" for k j
      using high [of k j] at_c [of k] that by (auto simp: less_Suc_eq)
  qed
qed

lemma row_reduce_run:
  "rep A n w M \<Longrightarrow> echelon n r c M p \<Longrightarrow> c \<le> w \<Longrightarrow> \<exists>A' M' r' c' p'. row_reduce n w r c A = Inr A' \<and> rep A' n w M' \<and> echelon n r' c' M' p'
     \<and> c' \<le> w \<and> (r' = n \<or> c' = w) \<and> (\<forall>m. sols n m M' = sols n m M \<or> w \<le> m)"
proof (induction "w - c" arbitrary: A M r c p)
  case 0
  then have "row_reduce n w r c A = Inr A" by (simp add: row_reduce.simps)
  then show ?case using 0 by (intro exI [of _ A] exI [of _ M] exI [of _ r] exI [of _ c] exI [of _ p]) simp
next
  case (Suc d)
  show ?case
  proof (cases "r < n")
    case False
    then have "row_reduce n w r c A = Inr A" by (simp add: row_reduce.simps)
    then show ?thesis using Suc.prems False echelonD(1) [OF Suc.prems(2)]
      by (intro exI [of _ A] exI [of _ M] exI [of _ r] exI [of _ c] exI [of _ p]) simp
  next
    case r: True
    have c: "c < w" "d = w - Suc c" "Suc c \<le> w" using Suc.hyps(2) by simp_all
    obtain q where q: "find_pivot A n c r = Inr q" "r \<le> q" "q \<le> n" "\<forall>k. r \<le> k \<and> k < q \<longrightarrow> M k c = 0" "q < n \<longrightarrow> M q c \<noteq> 0"
      using find_pivot_run [OF Suc.prems(1) c(1), of r] r by auto
    show ?thesis
    proof (cases "q = n")
      case True
      have "echelon n r (Suc c) M p"
        using Suc.prems(2) q(4) True unfolding echelon_def by (auto simp: less_Suc_eq)
      from Suc.hyps(1) [OF c(2) Suc.prems(1) this c(3)] show ?thesis
        using q(1) True r c(1) by (simp add: row_reduce.simps [of n w r c A])
    next
      case False
      then have qn: "q < n" "M q c \<noteq> 0" using q by simp_all
      obtain A1 where A1: "reduce_column n q r c A = Inr A1" "rep A1 n w (reduced q r c M)"
        using reduce_column_rep [OF Suc.prems(1) qn(1) r c(1) qn(2)] by blast
      have "sols n m (reduced q r c M) = sols n m M" for m by (intro reduced_sols qn r)
      with Suc.hyps(1) [OF c(2) A1(2) reduced_echelon [OF Suc.prems(2) q(2) qn] c(3)] show ?thesis
        using q(1) False A1(1) r c(1) by (simp add: row_reduce.simps [of n w r c A])
    qed
  qed
qed

end
