(* ===== verification/Solve.thy ===== *)
theory Solve
  imports LinAlg
begin

text \<open>
  Systems with as many equations as unknowns: what the functions of \<open>scl/math/la.h\<close> find in a matrix
  in reduced row echelon form, and that \<open>SolveLinearSystem\<close> returns the solution exactly when it is unique.
\<close>

section \<open>The echelon form of a square system\<close>

text \<open>Either every unknown has its pivot, or a row of the coefficients is zero and the kernel is not.\<close>

definition unit_form :: "nat \<Rightarrow> (nat \<Rightarrow> nat \<Rightarrow> 'a::field) \<Rightarrow> bool" where
  "unit_form n M \<longleftrightarrow> (\<forall>i<n. \<forall>j<n. M i j = (if i = j then 1 else 0))"

definition singular_form :: "nat \<Rightarrow> (nat \<Rightarrow> nat \<Rightarrow> 'a::field) \<Rightarrow> bool" where
  "singular_form n M \<longleftrightarrow> (\<exists>t<n. \<forall>j<n. M t j = 0) \<and> (\<exists>y. (\<exists>c<n. y c \<noteq> 0) \<and> (\<forall>i<n. (\<Sum>j<n. M i j * y j) = 0))"

lemma pivots_diagonal:
  assumes mono: "\<And>i k. i < n \<Longrightarrow> k < i \<Longrightarrow> p k < p i" and bound: "\<And>i. i < n \<Longrightarrow> p i < (n :: nat)" and i: "i < n"
  shows "p i = i"
proof -
  have low: "i \<le> p i" if "i < n" for i using that
  proof (induction i)
    case (Suc i)
    then show ?case using mono [of "Suc i" i] by simp
  qed simp
  have high: "p i + d \<le> p (i + d)" if "i + d < n" for d using that
  proof (induction d)
    case (Suc d)
    then show ?case using mono [of "i + Suc d" "i + d"] by simp
  qed simp
  show ?thesis using low [OF i] high [of "n - 1 - i"] bound [of "n - 1"] i by simp
qed

lemma kernel_vector:
  fixes M :: "nat \<Rightarrow> nat \<Rightarrow> 'a::field"
  assumes E: "echelon n r c M p" and c0: "c0 < n" "c0 < c" "\<And>k. k < r \<Longrightarrow> p k \<noteq> c0" and rest: "r = n \<or> n < c"
  shows "\<exists>y. y c0 = 1 \<and> (\<forall>i<n. (\<Sum>j<n. M i j * y j) = 0)"
proof -
  note ED = echelonD [OF E]
  let ?K = "{k. k < r \<and> p k < n}"
  define y where "y j = (if j = c0 then 1 else 0) - (\<Sum>k\<in>{k\<in>?K. p k = j}. M k c0)" for j
  have "{k \<in> ?K. p k = c0} = {}" using c0(3) by blast
  then have "y c0 = 1" unfolding y_def by (simp only: sum.empty) simp
  moreover have "(\<Sum>j<n. M i j * y j) = 0" if i: "i < n" for i
  proof -
    have "(\<Sum>j<n. M i j * y j) = (\<Sum>j<n. M i j * (if j = c0 then 1 else 0)) - (\<Sum>j<n. \<Sum>k\<in>{k\<in>?K. p k = j}. M i (p k) * M k c0)"
      unfolding y_def right_diff_distrib sum_subtractf by (simp add: sum_distrib_left)
    also have "(\<Sum>j<n. M i j * (if j = c0 then 1 else 0)) = M i c0" using c0(1) by (simp add: if_distrib [where f = "(*) _"] cong: if_cong)
    also have "(\<Sum>j<n. \<Sum>k\<in>{k\<in>?K. p k = j}. M i (p k) * M k c0) = (\<Sum>k\<in>?K. M i (p k) * M k c0)"
      by (rule sum.group) auto
    also have "\<dots> = (\<Sum>k\<in>?K. if k = i then M k c0 else 0)"
      using ED(4) i by (intro sum.cong) auto
    also have "\<dots> = (if i \<in> ?K then M i c0 else 0)" by (simp add: sum.delta')
    also have "M i c0 - \<dots> = 0"
    proof (cases "i < r")
      case True
      then show ?thesis using ED(5) [of i c0] c0(1) by auto
    next
      case False
      then show ?thesis using ED(6) [of i c0] i c0(2) by simp
    qed
    finally show ?thesis .
  qed
  ultimately show ?thesis by blast
qed

lemma echelon_cases:
  fixes M :: "nat \<Rightarrow> nat \<Rightarrow> 'a::field"
  assumes E: "echelon n r c M p" and fin: "r = n \<or> c = Suc n" and c: "c \<le> Suc n" and n: "0 < n"
  shows "unit_form n M \<or> singular_form n M"
proof (cases "r = n \<and> (\<forall>i<n. p i < n)")
  case True
  have "p i = i" if "i < n" for i
    by (rule pivots_diagonal [of n p]) (use True that echelonD(3) [OF E] in auto)
  then have "unit_form n M" using True echelonD(4) [OF E] by (auto simp: unit_form_def)
  then show ?thesis by simp
next
  case False
  note ED = echelonD [OF E]
  have "\<exists>t<n. (r \<le> t \<or> \<not> p t < n) \<and> (\<forall>j<n. M t j = 0)"
  proof (cases "r = n")
    case True
    then obtain t where "t < n" "\<not> p t < n" using False by auto
    then show ?thesis using ED(5) [of t] True by (intro exI [of _ t]) auto
  next
    case False
    then show ?thesis using ED(1) ED(6) [of r] fin by (intro exI [of _ r]) auto
  qed
  then obtain t where t: "t < n" "r \<le> t \<or> \<not> p t < n" "\<forall>j<n. M t j = 0" by blast
  let ?K = "{k. k < r \<and> p k < n}"
  have "card ?K \<le> card ({..<n} - {t})" using ED(1) t(2) by (intro card_mono) auto
  also have "\<dots> < n" using t(1) by simp
  finally have "card (p ` ?K) < n" using card_image_le [of ?K p] by simp
  then have "\<not> {..<n} \<subseteq> p ` ?K" using card_mono [of "p ` ?K" "{..<n}"] by auto
  then obtain c0 where c0: "c0 < n" "\<And>k. k < r \<Longrightarrow> p k \<noteq> c0" by blast
  have "c0 < c"
  proof (rule ccontr)
    assume "\<not> c0 < c"
    then have "r = n" "\<forall>i<n. p i < c0" using fin c0(1) ED(2) by (auto simp: not_less intro: less_le_trans)
    then have "\<forall>i<n. p i < n" using c0(1) by (meson less_trans)
    then show False using False \<open>r = n\<close> by simp
  qed
  moreover have "r = n \<or> n < c" using fin by auto
  ultimately obtain y where "y c0 = 1" "\<forall>i<n. (\<Sum>j<n. M i j * y j) = 0"
    using kernel_vector [OF E c0(1) _ c0(2)] by blast
  then have "singular_form n M"
    unfolding singular_form_def using c0(1) t(1,3) zero_neq_one [where ?'a = 'a] by metis
  then show ?thesis by simp
qed

section \<open>Reading the solution\<close>

lemma HasSolution_rows:
  assumes A: "rep A n (Suc n) M" and n: "n < 2 ^ 64 - 1"
  shows "HasSolution A True = Inr (\<forall>i<n. \<exists>j<n. M i j \<noteq> 0)"
proof -
  have w: "mRows A = n" "mCols A = Suc n" using repD [OF A] by simp_all
  have sub: "size_sub (Suc n) 1 = n" using n by (simp add: size_sub_exact)
  let ?row = "\<lambda>i. mapE (\<lambda>j. mat_get A i j) [0..<n]"
  have row: "?row i = Inr (map (M i) [0..<n])" if "i < n" for i
    using rep_get [OF A that] by (intro mapE_Inr) simp
  let ?f = "\<lambda>i ok. if \<not> ok then Inr False else bindE (?row i) (\<lambda>row. Inr (\<not> list_all (\<lambda>v. v = 0) row))"
  have "\<exists>ok. foldE ?f [0..<n] True = Inr ok \<and> ok = (\<forall>i<n. \<exists>j<n. M i j \<noteq> 0)"
  proof (rule foldE_upt_invariant [where I = "\<lambda>k ok. ok = (\<forall>i<k. \<exists>j<n. M i j \<noteq> 0)"])
    show "\<exists>ok'. ?f k ok = Inr ok' \<and> ok' = (\<forall>i<Suc k. \<exists>j<n. M i j \<noteq> 0)"
      if k: "k < n" and ok: "ok = (\<forall>i<k. \<exists>j<n. M i j \<noteq> 0)" for k ok
      using row [OF k] ok by (auto simp: list_all_iff All_less_Suc)
  qed simp
  then show ?thesis unfolding HasSolution_def w sub Let_def if_True by (elim exE conjE) simp
qed

lemma FindFirstNonZeroRow_last:
  assumes A: "rep A n w M" and j: "0 < n" "j < w" "M (n - 1) j \<noteq> 0"
  shows "FindFirstNonZeroRow A = Inr (n - 1)"
proof -
  obtain k where k: "n = Suc k" using j(1) by (cases n) simp_all
  have "mapE (\<lambda>j. mat_get A k j) [0..<w] = Inr (map (M k) [0..<w])"
    using rep_get [OF A, of k] k by (intro mapE_Inr) simp
  then show ?thesis using repD(2,3) [OF A] k j(2,3) by (auto simp: FindFirstNonZeroRow_def list_ex_iff)
qed

lemma pivot_scan_unit:
  assumes A: "rep A n w M" and u: "unit_form n M" "n \<le> w" and c: "c < n"
  shows "m \<le> n \<Longrightarrow> c < m \<Longrightarrow> pivot_scan A (int c) m = Inr (int c)"
proof (induction m)
  case (Suc m)
  have get: "mat_get A m j = Inr (if m = j then 1 else 0)" if "j < n" for j
    using rep_get [OF A, of m j] u Suc.prems(1) that by (simp add: unit_form_def)
  show ?case
  proof (cases "m = c")
    case True
    have "mapE (\<lambda>k. mat_get A m (nat k)) [0..int c - 2] = Inr (map (\<lambda>k. 0) [0..int c - 2])"
      using get True c by (intro mapE_Inr) auto
    then show ?thesis using get [OF c] True by (simp add: list_ex_iff)
  next
    case False
    then show ?thesis using get [OF c] Suc by simp
  qed
qed simp

lemma GetPivot_unit:
  assumes "rep A n w M" "unit_form n M" "n \<le> w" "c < n" "n < 2 ^ 31"
  shows "GetPivotInColumn A (int c) = Inr (int c)"
  using assms pivot_scan_unit [OF assms(1-4), of n] repD(2) [OF assms(1)] by (simp add: GetPivotInColumn_def)

lemma map_int_upt_eq: "0 < n \<Longrightarrow> [0..int n - 1] = map int [0..<n]"
proof (induction n)
  case (Suc n)
  then show ?case using upto_rec2 [of 0 "int n"] by (cases "n = 0") simp_all
qed simp

lemma ExtractSolution_unit:
  assumes A: "rep A n (Suc n) M" and u: "unit_form n M" and n: "0 < n" "n < 2 ^ 31"
  shows "ExtractSolution A = Inr (map (\<lambda>i. M i n) [0..<n])"
proof -
  let ?f = "\<lambda>c (x, i). bindE (GetPivotInColumn A c) (\<lambda>p.
         if p = - 1 then bindE (vset x (nat c) 1) (\<lambda>x. Inr (x, i))
         else bindE (foldE (\<lambda>j sum. bindE (mat_get A i j) (\<lambda>a. bindE (vget x j) (\<lambda>y. Inr (sum + a * y)))) [nat (p + 1)..<n] 0) (\<lambda>sum.
           bindE (mat_get A i n) (\<lambda>b. bindE (vset x (nat c) (b - sum)) (\<lambda>x. Inr (x, size_sub i 1)))))"
  have step: "?f (int k) (x, k) = Inr (x[k := M k n], size_sub k 1)" if k: "k < n" "length x = n" for k x
  proof -
    have "foldE (\<lambda>j sum. bindE (mat_get A k j) (\<lambda>a. bindE (vget x j) (\<lambda>y. Inr (sum + a * y)))) [Suc k..<n] 0
        = Inr (fold (\<lambda>j sum. sum) [Suc k..<n] 0)"
      using rep_get [OF A k(1)] u k by (intro foldE_Inr) (auto simp: unit_form_def)
    also have "fold (\<lambda>j sum. sum) [Suc k..<n] 0 = (0 :: 'a)" by (induction n) simp_all
    finally show ?thesis
      using GetPivot_unit [OF A u _ k(1) n(2)] rep_get [OF A k(1), of n] k by (simp add: nat_add_distrib)
  qed
  have run: "\<exists>i'. foldE ?f (rev (map int [0..<k])) (replicate k 0 @ map (\<lambda>i. M i n) [k..<n], size_sub k 1)
     = Inr (map (\<lambda>i. M i n) [0..<n], i')" if "k \<le> n" for k using that
  proof (induction k)
    case (Suc k)
    have "size_sub (Suc k) 1 = k" using Suc.prems n(2) by (simp add: size_sub_exact)
    moreover have "(replicate (Suc k) 0 @ map (\<lambda>i. M i n) [Suc k..<n])[k := M k n] = replicate k 0 @ map (\<lambda>i. M i n) [k..<n]"
      using Suc.prems by (simp add: list_update_append upt_conv_Cons replicate_append_same [symmetric] del: replicate_append_same)
    ultimately show ?case using step [of k "replicate (Suc k) 0 @ map (\<lambda>i. M i n) [Suc k..<n]"] Suc by (simp del: replicate_Suc)
  qed simp
  have sub: "size_sub (Suc n) 1 = n" "size_sub n 1 = n - 1" using n by (simp_all add: size_sub_exact)
  have w: "mRows A = n" "mCols A = Suc n" using repD [OF A] by simp_all
  have first: "FindFirstNonZeroRow A = Inr (n - 1)"
    using u n(1) by (intro FindFirstNonZeroRow_last [OF A, of "n - 1"]) (auto simp: unit_form_def)
  have c: "to_int32 (int (Suc n) - 2 - (int n - int (n - 1) - 1)) = int n - 1" using n by simp
  have "[0..int n - 1] = map int [0..<n]" using n(1) by (simp add: map_int_upt_eq)
  then have upto: "rev [0..int n - 1] = rev (map int [0..<n])" by simp
  obtain i' where "foldE ?f (rev (map int [0..<n])) (replicate n 0, n - 1) = Inr (map (\<lambda>i. M i n) [0..<n], i')"
    using run [of n] sub(2) by auto
  then show ?thesis
    unfolding ExtractSolution_def w Let_def first bindE_simps c upto sub(1) by (simp only: bindE_simps prod.case)
qed

section \<open>Solving a square system\<close>

lemma CreateAugmentedMatrix_rep:
  fixes M N :: "nat \<Rightarrow> nat \<Rightarrow> 'a::field"
  assumes A: "rep A n m M" and B: "rep B n k N" and nz: "0 < n" "0 < m + k"
  shows "\<exists>C. CreateAugmentedMatrix A B = Inr C \<and> rep C n (m + k) (\<lambda>i j. if j < m then M i j else N i (j - m))"
proof -
  let ?G = "\<lambda>i j. if j < m then M i j else N i (j - m)"
  let ?f = "\<lambda>i aug. bindE (foldE (\<lambda>j aug. bindE (mat_get A i j) (mat_set aug i j)) [0..<m] aug) (\<lambda>aug.
       foldE (\<lambda>j aug. bindE (mat_get B i (j - m)) (mat_set aug i j)) [m..<m + k] aug)"
  obtain R :: "'a mat" where R: "new_Mat n (m + k) = Inr R" "rep R n (m + k) (\<lambda>_ _. 0)" using rep_new [of n "m + k"] nz by auto
  have "\<exists>C. foldE ?f [0..<n] R = Inr C \<and> rep C n (m + k) ?G"
  proof (rule rep_rows [OF R(2)])
    fix i P and C :: "'a mat" assume i: "i < n" and C: "rep C n (m + k) P"
    let ?h = "\<lambda>j aug. bindE (if j < m then mat_get A i j else mat_get B i (j - m)) (mat_set aug i j)"
    have f: "?f i C = foldE ?h [0..<m + k] C"
    proof -
      have "foldE ?h [0..<m + k] C = bindE (foldE ?h [0..<m] C) (foldE ?h [m..<m + k])"
        by (simp only: upt_add_eq_append [OF le0] foldE_append)
      also have "foldE ?h [0..<m] C = foldE (\<lambda>j aug. bindE (mat_get A i j) (mat_set aug i j)) [0..<m] C"
        by (rule foldE_cong) simp
      also have "foldE ?h [m..<m + k] = foldE (\<lambda>j aug. bindE (mat_get B i (j - m)) (mat_set aug i j)) [m..<m + k]"
        by (rule ext, rule foldE_cong) simp
      finally show ?thesis by simp
    qed
    let ?I = "\<lambda>l C. rep C n (m + k) (\<lambda>i' j. if i' = i \<and> j < l then ?G i j else P i' j)"
    have "\<exists>C'. foldE ?h [0..<m + k] C = Inr C' \<and> ?I (m + k) C'"
    proof (rule foldE_upt_invariant [where I = ?I])
      show "?I 0 C" using C by simp
      fix j D assume j: "j < m + k" and D: "?I j D"
      have get: "(if j < m then mat_get A i j else mat_get B i (j - m)) = Inr (?G i j)"
        using rep_get [OF A i] rep_get [OF B i] j by simp
      from rep_set_ex [OF D i j, of "?G i j"] obtain D' where D': "mat_set D i j (?G i j) = Inr D'"
        "rep D' n (m + k) (\<lambda>i' j'. if i' = i \<and> j' = j then ?G i j else if i' = i \<and> j' < j then ?G i j' else P i' j')" by blast
      have "?I (Suc j) D'" by (rule rep_cong [OF D'(2)]) (auto simp: less_Suc_eq)
      then show "\<exists>D'. ?h j D = Inr D' \<and> ?I (Suc j) D'" using D'(1) by (simp only: get bindE_simps) blast
    qed
    then show "\<exists>C'. ?f i C = Inr C' \<and> rep C' n (m + k) (\<lambda>k j. if k = i then ?G i j else P k j)"
      unfolding f by (auto elim!: rep_cong)
  qed
  then show ?thesis using R(1) repD(2,3) [OF A] repD(3) [OF B] by (simp add: CreateAugmentedMatrix_def)
qed

lemma CreateAugmentedMatrixVec_rep:
  fixes M :: "nat \<Rightarrow> nat \<Rightarrow> 'a::field"
  assumes A: "rep A n m M" and b: "length b = n" "0 < n"
  shows "\<exists>C. CreateAugmentedMatrixVec A b = Inr C \<and> rep C n (Suc m) (\<lambda>i j. if j < m then M i j else b ! i)"
proof -
  have "rep (Vec_ToColumnMatrix b) n 1 (\<lambda>i j. b ! i)"
    using b by (simp add: rep_def mat_ok_def ent_def Vec_ToColumnMatrix_def)
  from CreateAugmentedMatrix_rep [OF A this b(2)] show ?thesis by (simp add: CreateAugmentedMatrixVec_def)
qed

definition solutions :: "nat \<Rightarrow> (nat \<Rightarrow> nat \<Rightarrow> 'a::field) \<Rightarrow> 'a list \<Rightarrow> 'a list set" where
  "solutions n M b = {s. length s = n \<and> (\<forall>i<n. (\<Sum>j<n. M i j * s ! j) = b ! i)}"

lemma solutions_sols: "s \<in> solutions n M b \<longleftrightarrow> length s = n \<and> (!) s \<in> sols n n (\<lambda>i j. if j < n then M i j else b ! i)"
  by (simp add: solutions_def sols_def)

lemma unit_form_sols: "unit_form n M \<Longrightarrow> x \<in> sols n n M \<longleftrightarrow> (\<forall>i<n. x i = M i n)"
proof -
  assume u: "unit_form n M"
  have "(\<Sum>j<n. M i j * x j) = x i" if "i < n" for i
  proof -
    have "(\<Sum>j<n. M i j * x j) = (\<Sum>j<n. if j = i then x j else 0)"
      using u that by (intro sum.cong) (auto simp: unit_form_def)
    then show ?thesis using that by simp
  qed
  then show ?thesis by (simp add: sols_def)
qed

lemma singular_form_sols:
  assumes "singular_form n M" "x \<in> sols n n M"
  shows "\<exists>x' c. c < n \<and> x' c \<noteq> x c \<and> x' \<in> sols n n M"
proof -
  obtain y c where y: "c < n" "y c \<noteq> 0" "\<forall>i<n. (\<Sum>j<n. M i j * y j) = 0" using assms(1) by (auto simp: singular_form_def)
  have "(\<lambda>j. x j + y j) \<in> sols n n M"
    using assms(2) y(3) by (simp add: sols_def distrib_left sum.distrib)
  then show ?thesis using y(1,2) by (intro exI [of _ "\<lambda>j. x j + y j"] exI [of _ c]) simp
qed

lemma SolveLinearSystem_run:
  fixes M :: "nat \<Rightarrow> nat \<Rightarrow> 'a::field"
  assumes A: "rep A n n M" and b: "length b = n" and n: "0 < n" "n < 2 ^ 31"
  shows "(\<exists>s. SolveLinearSystem x A b = Inr (True, s) \<and> solutions n M b = {s})
    \<or> SolveLinearSystem x A b = Inr (False, x) \<and> (\<forall>s. solutions n M b \<noteq> {s})"
proof -
  let ?G = "\<lambda>i j. if j < n then M i j else b ! i"
  obtain C where C: "CreateAugmentedMatrixVec A b = Inr C" "rep C n (Suc n) ?G"
    using CreateAugmentedMatrixVec_rep [OF A b n(1)] by blast
  have "echelon n 0 0 ?G p" for p :: "nat \<Rightarrow> nat" by (simp add: echelon_def)
  from row_reduce_run [OF C(2) this] obtain D N r c p where D: "RowReduceInPlace C = Inr D" "rep D n (Suc n) N"
    "echelon n r c N p" "c \<le> Suc n" "r = n \<or> c = Suc n" "\<forall>m. sols n m N = sols n m ?G \<or> Suc n \<le> m"
    using repD(2,3) [OF C(2)] by (auto simp: RowReduceInPlace_def)
  have "sols n n N = sols n n ?G" using D(6) [rule_format, of n] by simp
  then have sol: "s \<in> solutions n M b \<longleftrightarrow> length s = n \<and> (!) s \<in> sols n n N" for s by (simp add: solutions_sols)
  have run: "SolveLinearSystem x A b = bindE (HasSolution D True) (\<lambda>ok. if \<not> ok then Inr (False, x)
      else bindE (ExtractSolution D) (\<lambda>x. Inr (True, x)))"
    using C(1) D(1) b repD(2) [OF A] by (simp add: SolveLinearSystem_def)
  have has: "HasSolution D True = Inr (\<forall>i<n. \<exists>j<n. N i j \<noteq> 0)" using n(2) by (intro HasSolution_rows [OF D(2)]) simp
  from echelon_cases [OF D(3,5,4) n(1)] show ?thesis
  proof
    assume u: "unit_form n N"
    have "\<forall>i<n. \<exists>j<n. N i j \<noteq> 0" using u by (auto simp: unit_form_def)
    then have "SolveLinearSystem x A b = Inr (True, map (\<lambda>i. N i n) [0..<n])"
      using ExtractSolution_unit [OF D(2) u n] has run by simp
    moreover have "solutions n M b = {map (\<lambda>i. N i n) [0..<n]}"
      using unit_form_sols [OF u] by (auto simp: sol intro!: nth_equalityI)
    ultimately show ?thesis by blast
  next
    assume z: "singular_form n N"
    then have "\<not> (\<forall>i<n. \<exists>j<n. N i j \<noteq> 0)" unfolding singular_form_def by blast
    then have "SolveLinearSystem x A b = Inr (False, x)" unfolding run has by simp
    moreover have "solutions n M b \<noteq> {s}" for s
    proof
      assume s: "solutions n M b = {s}"
      then have s_in: "length s = n" "(!) s \<in> sols n n N" using sol [of s] by simp_all
      from singular_form_sols [OF z s_in(2)] obtain x' c where x': "c < n" "x' c \<noteq> s ! c" "x' \<in> sols n n N" by blast
      have "(!) (map x' [0..<n]) \<in> sols n n N" using x'(3) by (simp add: sols_def)
      then have "map x' [0..<n] \<in> solutions n M b" by (simp add: sol)
      then have "map x' [0..<n] = s" using s by simp
      then show False using x'(1,2) by (auto simp: nth_map)
    qed
    ultimately show ?thesis by blast
  qed
qed

text \<open>C9: For a system with as many equations as unknowns \<open>SolveLinearSystem\<close> returns true exactly when
  the system has a unique solution, and then stores this solution; otherwise it returns false and the
  vector for the solution is as before. A vector of the wrong size is refused. In particular the row
  reduction always ends and none of its accesses is out of range.\<close>

theorem SolveLinearSystem_exact:
  fixes A :: "'a::field mat"
  assumes "mat_ok A" "Mat_IsSquare A" "0 < mRows A" "mRows A < 2 ^ 31"
  shows "(length b \<noteq> mRows A \<longrightarrow> SolveLinearSystem x A b = Inl (Invalid_argument ''malformed system of equations''))
    \<and> (length b = mRows A \<longrightarrow> (\<exists>ok s. SolveLinearSystem x A b = Inr (ok, s)
        \<and> (ok = (\<exists>s. solutions (mRows A) (ent A) b = {s}))
        \<and> (if ok then solutions (mRows A) (ent A) b = {s} else s = x)))"
proof -
  have "rep A (mRows A) (mRows A) (ent A)" using rep_self [OF assms(1)] assms(2) by (simp add: Mat_IsSquare_def)
  from SolveLinearSystem_run [OF this _ assms(3,4), of b x] show ?thesis
    by (auto simp: SolveLinearSystem_def)
qed

theorem SolveLinearSystem_exact_witness:
  "\<exists>ok s. SolveLinearSystem [] \<lparr> mRows = 2, mCols = 2, mValues = [1, 2, 3, 5] \<rparr> [3, 8] = Inr (ok, s :: ff61 list)
     \<and> (if ok then solutions 2 (ent \<lparr> mRows = 2, mCols = 2, mValues = [1, 2, 3, 5] \<rparr>) [3, 8] = {s} else s = [])"
proof -
  let ?A = "\<lparr> mRows = 2, mCols = 2, mValues = [1, 2, 3, 5 :: ff61] \<rparr>"
  have A: "mat_ok ?A" "Mat_IsSquare ?A" "0 < mRows ?A" "mRows ?A < 2 ^ 31" by (simp_all add: mat_ok_def Mat_IsSquare_def)
  have r: "mRows ?A = 2" "length [3, 8 :: ff61] = mRows ?A" by simp_all
  from SolveLinearSystem_exact [OF A, THEN conjunct2, rule_format, OF r(2), of "[]"] show ?thesis unfolding r(1) by blast
qed

section \<open>Systems that are not square\<close>

lemma augmented_1_2: "CreateAugmentedMatrixVec \<lparr> mRows = 1, mCols = 2, mValues = [a, c] \<rparr> [b] = Inr \<lparr> mRows = 1, mCols = 3, mValues = [a, c, b :: 'a::field] \<rparr>"
  by (simp add: CreateAugmentedMatrixVec_def CreateAugmentedMatrix_def Vec_ToColumnMatrix_def new_Mat_def mat_get_def mat_set_def numeral_eq_Suc upt_rec)

lemma augmented_2_1: "CreateAugmentedMatrixVec \<lparr> mRows = 2, mCols = 1, mValues = [a, c] \<rparr> [b, d] = Inr \<lparr> mRows = 2, mCols = 2, mValues = [a, b, c, d :: 'a::field] \<rparr>"
  by (simp add: CreateAugmentedMatrixVec_def CreateAugmentedMatrix_def Vec_ToColumnMatrix_def new_Mat_def mat_get_def mat_set_def numeral_eq_Suc upt_rec)

lemma reduced_1_3:
  assumes "a \<noteq> 0"
  shows "RowReduceInPlace \<lparr> mRows = 1, mCols = 3, mValues = [a, c, b :: 'a::field] \<rparr> = Inr \<lparr> mRows = 1, mCols = 3, mValues = [1, c * inverse a, b * inverse a] \<rparr>"
  using assms by (simp add: RowReduceInPlace_def row_reduce.simps find_pivot.simps reduce_column_def SwapRows_def MultiplyRow_def clear_column_def mat_get_def mat_set_def invE_def numeral_eq_Suc upt_rec)

lemma reduced_2_2:
  assumes "a \<noteq> 0"
  shows "RowReduceInPlace \<lparr> mRows = 2, mCols = 2, mValues = [a, b, a, b :: 'a::field] \<rparr> = Inr \<lparr> mRows = 2, mCols = 2, mValues = [1, b * inverse a, 0, 0] \<rparr>"
  using assms by (simp add: RowReduceInPlace_def row_reduce.simps find_pivot.simps reduce_column_def SwapRows_def MultiplyRow_def AddRows_def clear_column_def mat_get_def mat_set_def invE_def numeral_eq_Suc upt_rec)

lemma upto_2: "[0..(1 :: int)] = [0, 1]" "[0..(- 1 :: int)] = []" "[0..(- 2 :: int)] = []"
  by (simp_all add: upto.simps)

text \<open>
  Systems that are not square. A system with fewer equations than unknowns never has a unique
  solution, but \<open>SolveLinearSystem\<close> takes \<open>a u + c v = b\<close> for one that has, and then reads an entry out of the
  range of the matrix: the test for uniqueness counts only rows of zeros, and the row number wraps around.
  A system with more equations than unknowns is refused even when it has exactly one solution.
\<close>

theorem SolveLinearSystem_not_square:
  fixes a b c :: "'a::field"
  assumes "a \<noteq> 0" "c \<noteq> 0"
  shows "SolveLinearSystem x \<lparr> mRows = 1, mCols = 2, mValues = [a, c] \<rparr> [b] = Inl Undefined
    \<and> SolveLinearSystem x \<lparr> mRows = 2, mCols = 1, mValues = [a, a] \<rparr> [b, b] = Inr (False, x)
    \<and> {u. a * u = b} = {b / a}"
proof (intro conjI)
  have "HasSolution \<lparr> mRows = 1, mCols = 3, mValues = [1, c * inverse a, b * inverse a] \<rparr> True = Inr True"
    by (simp add: HasSolution_def mat_get_def size_sub_def numeral_eq_Suc upt_rec)
  moreover have "ExtractSolution \<lparr> mRows = 1, mCols = 3, mValues = [1, c * inverse a, b * inverse a] \<rparr> = Inl Undefined"
    using assms by (simp add: ExtractSolution_def FindFirstNonZeroRow_def GetPivotInColumn_def mat_get_def size_sub_def numeral_3_eq_3 numeral_2_eq_2 upt_rec upto_2)
  ultimately show "SolveLinearSystem x \<lparr> mRows = 1, mCols = 2, mValues = [a, c] \<rparr> [b] = Inl Undefined"
    using assms(1) by (simp add: SolveLinearSystem_def augmented_1_2 [unfolded One_nat_def] reduced_1_3 [unfolded One_nat_def])
  have "HasSolution \<lparr> mRows = 2, mCols = 2, mValues = [1, b * inverse a, 0, 0] \<rparr> True = Inr False"
    by (simp add: HasSolution_def mat_get_def size_sub_def numeral_2_eq_2 upt_rec)
  then show "SolveLinearSystem x \<lparr> mRows = 2, mCols = 1, mValues = [a, a] \<rparr> [b, b] = Inr (False, x)"
    using assms(1) by (simp add: SolveLinearSystem_def augmented_2_1 [unfolded One_nat_def] reduced_2_2)
  show "{u. a * u = b} = {b / a}" using assms(1) by (auto simp: field_simps)
qed

theorem SolveLinearSystem_not_square_witness:
  "SolveLinearSystem [] \<lparr> mRows = 1, mCols = 2, mValues = [1, 1] \<rparr> [5 :: ff61] = Inl Undefined
    \<and> SolveLinearSystem [] \<lparr> mRows = 2, mCols = 1, mValues = [1, 1] \<rparr> [5, 5 :: ff61] = Inr (False, []) \<and> {u :: ff61. 1 * u = 5} = {5 / 1}"
  by (rule SolveLinearSystem_not_square) simp_all

end
