(* ===== verification/Welch.thy ===== *)
theory Welch
  imports Robust
begin

text \<open>
  The decoder of Berlekamp and Welch as \<open>ReconstructShamirRobust\<close> runs it: which systems of its rounds
  have a unique solution, what the solution is, and what the division returns.
\<close>

section \<open>Polynomials and their coefficients\<close>

lemma peval_zero_coeffs:
  fixes cs :: "'a::field list"
  shows "distinct xs \<Longrightarrow> length cs \<le> length xs \<Longrightarrow> (\<And>x. x \<in> set xs \<Longrightarrow> peval cs x = 0) \<Longrightarrow> \<forall>c \<in> set cs. c = 0"
proof (induction cs arbitrary: xs)
  case (Cons c ds)
  have "peval (c # ds) 0 = 0" by (rule peval_roots_zero [OF Cons.prems(1,2)]) (rule Cons.prems(3))
  then have c: "c = 0" by simp
  have len: "length ds \<le> length (remove1 0 xs)" using Cons.prems(2) by (auto simp: length_remove1)
  have "peval ds x = 0" if "x \<in> set (remove1 0 xs)" for x
    using that Cons.prems(1) Cons.prems(3) [of x] c by auto
  from Cons.IH [OF _ len this] Cons.prems(1) c show ?case by simp
qed simp

lemma peval_inject:
  fixes p q :: "'a::field list"
  assumes "distinct xs" "length p = length q" "length p \<le> length xs" "\<And>x. x \<in> set xs \<Longrightarrow> peval p x = peval q x"
  shows "p = q"
proof -
  let ?d = "map (\<lambda>i. cf p i - cf q i) [0..<max (length p) (length q)]"
  have "peval ?d x = 0" if "x \<in> set xs" for x by (simp only: peval_diff assms(4) [OF that] diff_self)
  then have "\<forall>c \<in> set ?d. c = 0" by (intro peval_zero_coeffs [OF assms(1)]) (use assms(2,3) in simp_all)
  then have "p ! i = q ! i" if "i < length p" for i using that assms(2) by (auto simp flip: cf_nth)
  then show ?thesis using assms(2) by (rule nth_equalityI [rotated])
qed

lemma polyfun_exact:
  assumes "polyfun n f"
  obtains cs where "length cs = n" "\<And>x. peval cs x = f x"
proof -
  obtain cs where cs: "length cs \<le> n" "\<And>x. f x = peval cs x" using assms by (auto simp: polyfun_def)
  show ?thesis
    by (rule that [of "cs @ replicate (n - length cs) 0"]) (use cs in \<open>simp_all add: peval_append\<close>)
qed

text \<open>The monic polynomial with the given roots.\<close>

lemma monic_locator:
  fixes a :: "'b \<Rightarrow> 'a::field"
  shows "finite F \<Longrightarrow> \<exists>cs. length cs = card F \<and> (\<forall>x. peval (cs @ [1]) x = (\<Prod>i\<in>F. x - a i))"
proof (induction F rule: finite_induct)
  case (insert j F)
  then obtain cs where cs: "length cs = card F" "\<And>x. peval (cs @ [1]) x = (\<Prod>i\<in>F. x - a i)" by auto
  let ?k = "card F"
  have "polyfun (Suc ?k) (peval (replicate ?k 0 @ [1]))" by (rule polyfun_peval) simp
  moreover have "peval (replicate ?k 0 @ [1]) = (\<lambda>x :: 'a. x ^ ?k)" by (rule ext) (simp add: peval_append)
  ultimately have "polyfun (Suc ?k) (\<lambda>x :: 'a. x ^ ?k)" by (rule back_subst)
  from polyfun_diff [OF polyfun_linear [OF polyfun_peval [of cs ?k]] polyfun_scale [OF this]] cs(1)
  have "polyfun (Suc ?k) (\<lambda>x. (x - a j) * peval cs x - a j * x ^ ?k)" by simp
  then obtain ds where ds: "length ds = Suc ?k" "\<And>x. peval ds x = (x - a j) * peval cs x - a j * x ^ ?k"
    by (rule polyfun_exact) blast
  have "peval (ds @ [1]) x = (\<Prod>i\<in>insert j F. x - a i)" for x
    using cs(2) [of x] insert.hyps ds cs(1) by (simp add: peval_append algebra_simps flip: cs(2))
  then show ?case using ds(1) insert.hyps by auto
qed (auto intro!: exI [of _ "[]"])

section \<open>The key equation\<close>

lemma sum_split_lessThan: "(\<Sum>j<e + (m :: nat). g j) = (\<Sum>j<e. g j) + (\<Sum>j<m. g (e + j) :: 'a::comm_monoid_add)"
  by (induction m) (simp_all add: ac_simps)

lemma key_equation:
  fixes x :: "'a::field list"
  assumes len: "length x = n" and e: "e < n"
  shows "x \<in> solutions n (bw_coeff sh al e) (map (\<lambda>i. - (sh ! i * al ! i ^ e)) [0..<n])
    \<longleftrightarrow> (\<forall>i<n. sh ! i * peval (take e x @ [1]) (al ! i) = peval (drop e x) (al ! i))"
proof -
  have "((\<Sum>j<n. bw_coeff sh al e i j * x ! j) = - (sh ! i * al ! i ^ e))
      = (sh ! i * peval (take e x @ [1]) (al ! i) = peval (drop e x) (al ! i))" for i
  proof -
    let ?s = "sh ! i" and ?a = "al ! i"
    have "(\<Sum>j<n. bw_coeff sh al e i j * x ! j)
        = (\<Sum>j<e. bw_coeff sh al e i j * x ! j) + (\<Sum>j<n - e. bw_coeff sh al e i (e + j) * x ! (e + j))"
      using sum_split_lessThan [of "\<lambda>j. bw_coeff sh al e i j * x ! j" e "n - e"] e by simp
    also have "(\<Sum>j<e. bw_coeff sh al e i j * x ! j) = ?s * peval (take e x) ?a"
      using len e by (simp add: peval_sum bw_coeff_def sum_distrib_left ac_simps)
    also have "(\<Sum>j<n - e. bw_coeff sh al e i (e + j) * x ! (e + j)) = - peval (drop e x) ?a"
      using len e by (simp add: peval_sum bw_coeff_def sum_negf [symmetric] ac_simps)
    finally have "(\<Sum>j<n. bw_coeff sh al e i j * x ! j) = ?s * peval (take e x) ?a - peval (drop e x) ?a" by simp
    moreover have "u - v = - w \<longleftrightarrow> u + w = v" for u v w :: 'a by (simp add: eq_neg_iff_add_eq_0 algebra_simps)
    moreover have "?s * peval (take e x @ [1]) ?a = ?s * peval (take e x) ?a + ?s * ?a ^ e"
      using len e by (simp add: peval_append algebra_simps)
    ultimately show ?thesis by simp
  qed
  then show ?thesis using len by (simp add: solutions_def)
qed

section \<open>Shares with errors\<close>

text \<open>
  \<open>n = 3 t + 1\<close> points; all shares but those at the places \<open>F\<close> are values of a polynomial \<open>f\<close> of degree
  at most \<open>d\<close>, and \<open>d\<close> and the number of altered shares together are at most \<open>2 t\<close>.
\<close>

definition altered :: "'a list \<Rightarrow> 'a list \<Rightarrow> nat \<Rightarrow> ('a \<Rightarrow> 'a) \<Rightarrow> nat set" where
  "altered sh al n f = {i. i < n \<and> sh ! i \<noteq> f (al ! i)}"

lemma finite_altered [simp]: "finite (altered sh al n f)"
  by (simp add: altered_def)

definition correctable :: "'a::field list \<Rightarrow> 'a list \<Rightarrow> nat \<Rightarrow> nat \<Rightarrow> ('a \<Rightarrow> 'a) \<Rightarrow> bool" where
  "correctable sh al t d f \<longleftrightarrow> 3 * t + 1 \<le> length sh \<and> 3 * t + 1 \<le> length al \<and> 3 * t + 1 < 2 ^ 31
     \<and> distinct (take (3 * t + 1) al) \<and> polyfun (Suc d) f
     \<and> card (altered sh al (3 * t + 1) f) \<le> t \<and> d + card (altered sh al (3 * t + 1) f) \<le> 2 * t"

lemma alphas_eq: "distinct (take n al) \<Longrightarrow> n \<le> length al \<Longrightarrow> i < n \<Longrightarrow> j < n \<Longrightarrow> al ! i = al ! j \<longleftrightarrow> i = j"
  using nth_eq_iff_index_eq [of "take n al" i j] by simp

lemma points_distinct:
  assumes "distinct (take n al)" "n \<le> length al" "\<And>i. i \<in> set is \<Longrightarrow> i < n" "distinct is"
  shows "distinct (map ((!) al) is)"
  using assms alphas_eq [OF assms(1,2)] by (auto simp: distinct_map inj_on_def)

abbreviation bw_rhs :: "'a::field list \<Rightarrow> 'a list \<Rightarrow> nat \<Rightarrow> nat \<Rightarrow> 'a list" where
  "bw_rhs sh al n e \<equiv> map (\<lambda>i. - (sh ! i * al ! i ^ e)) [0..<n]"

text \<open>With room for more errors than there are, a solution of the system is never the only one.\<close>

lemma too_many_errors:
  fixes sh :: "'a::field list"
  assumes ok: "correctable sh al t d f" and e: "card (altered sh al (3 * t + 1) f) < e" "e \<le> t"
  shows "solutions (3 * t + 1) (bw_coeff sh al e) (bw_rhs sh al (3 * t + 1) e) \<noteq> {x}"
proof
  define n F where nF: "n = 3 * t + 1" "F = altered sh al n f"
  assume "solutions (3 * t + 1) (bw_coeff sh al e) (bw_rhs sh al (3 * t + 1) e) = {x}"
  then have only: "solutions n (bw_coeff sh al e) (bw_rhs sh al n e) = {x}" by (simp only: nF)
  have n: "n \<le> length sh" "n \<le> length al" "distinct (take n al)" "polyfun (Suc d) f" "card F < e" "d + card F \<le> 2 * t" "e < n"
    using ok e by (simp_all add: correctable_def nF)
  have x: "x \<in> solutions n (bw_coeff sh al e) (bw_rhs sh al n e)" using only by simp
  then have len: "length x = n" by (simp add: solutions_def)
  note eqn = x [unfolded key_equation [OF len n(7)], rule_format]
  obtain cs where cs: "length cs = card F" "\<And>x. peval (cs @ [1]) x = (\<Prod>i\<in>F. x - al ! i)"
    using monic_locator [of F "(!) al"] by (auto simp: nF)
  let ?E = "peval (cs @ [1])"
  have E: "polyfun (Suc (card F)) ?E" by (rule polyfun_peval) (simp add: cs(1))
  have "polyfun e (\<lambda>x'. peval (take e x) x' + ?E x')"
    using len n(5,7) by (intro polyfun_add polyfun_peval polyfun_mono [OF E]) simp_all
  then obtain u where u: "length u = e" "\<And>x'. peval u x' = peval (take e x) x' + ?E x'" by (rule polyfun_exact) blast
  have monic_add: "peval (u @ [1]) z = peval (take e x @ [1]) z + ?E z" for z
    using u len n(7) by (simp add: peval_append del: peval.simps)
  have "polyfun (n - e) (\<lambda>x'. peval (drop e x) x' + ?E x' * f x')"
    using len n(6) e(2) by (intro polyfun_add polyfun_peval polyfun_mono [OF polyfun_mult [OF E n(4)]]) (simp_all add: nF)
  then obtain v where v: "length v = n - e" "\<And>x'. peval v x' = peval (drop e x) x' + ?E x' * f x'" by (rule polyfun_exact) blast
  have "sh ! i * ?E (al ! i) = ?E (al ! i) * f (al ! i)" if "i < n" for i
  proof (cases "i \<in> F")
    case True
    have "?E (al ! i) = 0" unfolding cs(2) by (rule prod_zero) (use True in \<open>auto simp: nF\<close>)
    then show ?thesis by simp
  next
    case False
    then show ?thesis using that by (simp add: nF altered_def)
  qed
  then have "sh ! i * peval (u @ [1]) (al ! i) = peval v (al ! i)" if "i < n" for i
    using that eqn [OF that] u len n(7) by (simp only: monic_add v distrib_left)
  then have "u @ v \<in> solutions n (bw_coeff sh al e) (bw_rhs sh al n e)"
    using u(1) v(1) n(7) by (subst key_equation) simp_all
  then have "u @ v = x" using only by simp
  then have "take e x = u" using u(1) by auto
  then have zero: "?E z = 0" for z using u(2) [of z] by simp
  have "card F < n" using n(5,7) by simp
  then have "\<not> {..<n} \<subseteq> F" using card_mono [of F "{..<n}"] by (auto simp: nF)
  then obtain i where i: "i < n" "i \<notin> F" by blast
  have "?E (al ! i) \<noteq> 0"
    unfolding cs(2) using i alphas_eq [OF n(3,2)] by (auto simp: nF altered_def)
  then show False using zero by simp
qed

text \<open>With room for exactly the errors there are, the solution is the locator with its product with \<open>f\<close>.\<close>

lemma right_number_of_errors:
  fixes sh :: "'a::field list"
  assumes ok: "correctable sh al t d f" and nF: "n = 3 * t + 1" "F = altered sh al n f" "e = card F"
    and cs: "length cs = e" "\<And>x. peval (cs @ [1]) x = (\<Prod>i\<in>F. x - al ! i)"
    and v: "length v = n - e" "\<And>x. peval v x = peval (cs @ [1]) x * f x"
  shows "solutions n (bw_coeff sh al e) (bw_rhs sh al n e) = {cs @ v}"
proof
  let ?E = "peval (cs @ [1])"
  have n: "n \<le> length sh" "n \<le> length al" "distinct (take n al)" "polyfun (Suc d) f" "e \<le> t" "d + e \<le> 2 * t" "e < n"
    using ok by (simp_all add: correctable_def nF)
  have E0: "?E (al ! i) = 0" if "i \<in> F" for i
    unfolding cs(2) by (rule prod_zero) (use that in \<open>auto simp: nF\<close>)
  have "sh ! i * ?E (al ! i) = peval v (al ! i)" if "i < n" for i
    using E0 [of i] that by (cases "i \<in> F") (simp_all add: v(2) nF(2) altered_def)
  then show "{cs @ v} \<subseteq> solutions n (bw_coeff sh al e) (bw_rhs sh al n e)"
    using cs(1) v(1) n(7) by (simp add: key_equation)
  show "solutions n (bw_coeff sh al e) (bw_rhs sh al n e) \<subseteq> {cs @ v}"
  proof
    fix y assume y: "y \<in> solutions n (bw_coeff sh al e) (bw_rhs sh al n e)"
    then have len: "length y = n" by (simp add: solutions_def)
    note eqn = y [unfolded key_equation [OF len n(7)], rule_format]
    let ?Ey = "peval (take e y @ [1])" and ?Q = "peval (drop e y)"
    define good where "good = map ((!) al) (filter (\<lambda>i. i \<notin> F) [0..<n])"
    have dist: "distinct good" unfolding good_def by (rule points_distinct [OF n(3,2)]) simp_all
    have "F \<subseteq> {..<n}" by (auto simp: nF(2) altered_def)
    then have "card ({..<n} - F) = n - e" by (simp add: nF(2,3) card_Diff_subset)
    moreover have "set (filter (\<lambda>i. i \<notin> F) [0..<n]) = {..<n} - F" by auto
    ultimately have len_good: "length good = n - e"
      using distinct_card [of "filter (\<lambda>i. i \<notin> F) [0..<n]"] by (simp add: good_def)
    have Ey: "polyfun (Suc e) ?Ey" by (rule polyfun_peval) simp
    have pf: "polyfun (length good) (\<lambda>x. ?Ey x * f x)"
      unfolding len_good by (rule polyfun_mono [OF polyfun_mult [OF Ey n(4)]]) (use n(5,6) nF(1) in simp)
    have pQ: "polyfun (length good) ?Q" unfolding len_good using len by (intro polyfun_peval) simp
    have Q: "?Q z = ?Ey z * f z" for z
    proof (rule polyfun_unique [where f = ?Q and g = "\<lambda>x. ?Ey x * f x", OF dist pQ pf])
      fix z assume "z \<in> set good"
      then obtain i where i: "i < n" "i \<notin> F" "z = al ! i" by (auto simp: good_def)
      then show "?Q z = ?Ey z * f z" using eqn [OF i(1)] by (simp add: nF(2) altered_def mult.commute)
    qed
    have roots: "?Ey (al ! i) = 0" if "i \<in> F" for i
    proof -
      have i: "i < n" "sh ! i \<noteq> f (al ! i)" using that by (simp_all add: nF(2) altered_def)
      have "sh ! i * ?Ey (al ! i) = f (al ! i) * ?Ey (al ! i)" using eqn [OF i(1)] Q [of "al ! i"] by (simp only: mult.commute)
      then show ?thesis using i(2) by (simp only: mult_cancel_right) simp
    qed
    obtain ps where ps: "set ps = F" "distinct ps" using finite_distinct_list [of F] by (auto simp: nF(2))
    have "take e y = cs"
    proof (rule peval_inject)
      show "distinct (map ((!) al) ps)" by (rule points_distinct [OF n(3,2)]) (use ps in \<open>auto simp: nF(2) altered_def\<close>)
      show "length (take e y) = length cs" using len n(7) cs(1) by simp
      show "length (take e y) \<le> length (map ((!) al) ps)" using len n(7) distinct_card [OF ps(2)] ps(1) by (simp add: nF(3))
      show "peval (take e y) z = peval cs z" if "z \<in> set (map ((!) al) ps)" for z
      proof -
        from that obtain i where i: "i \<in> F" "z = al ! i" using ps(1) by auto
        have "?Ey z = ?E z" using roots [OF i(1)] E0 [OF i(1)] i(2) by simp
        then show ?thesis using len n(7) cs(1) by (simp add: peval_append)
      qed
    qed
    moreover have "drop e y = v"
      by (rule peval_inject [OF dist]) (use Q v len len_good calculation in simp_all)
    ultimately have "y = cs @ v" using append_take_drop_id [of e y] by simp
    then show "y \<in> {cs @ v}" by simp
  qed
qed

section \<open>The rounds\<close>

lemma robust_round:
  fixes sh :: "'a::field list" and A :: "'a mat"
  assumes A: "rep A n n M" "length b = n" and n: "n \<le> length sh" "n \<le> length al" "n < 2 ^ 31" and k: "k \<le> t" "t < n"
  shows "\<exists>A'. rep A' n n (bw_coeff sh al (t - k)) \<and> robust_rounds sh al n t [k..<Suc t] (A, b, x, e0)
    = bindE (SolveLinearSystem x A' (bw_rhs sh al n (t - k)))
        (\<lambda>(ok, x). if ok then Inr (x, int (t - k)) else robust_rounds sh al n t [Suc k..<Suc t] (A', bw_rhs sh al n (t - k), x, int (t - k)))"
proof -
  have tk: "t - k < n" "to_int32 (int (t - k)) = int (t - k)" using n(3) k by (simp_all add: to_int32_id)
  have ks: "[k..<Suc t] = k # [Suc k..<Suc t]" using k(1) by (simp add: upt_conv_Cons del: upt_Suc)
  obtain A' where "fill_system sh al n (int (t - k)) (A, b) = Inr (A', bw_rhs sh al n (t - k))" "rep A' n n (bw_coeff sh al (t - k))"
    using fill_system_rep [OF A n(1,2) tk(1) n(3)] by blast
  then show ?thesis unfolding ks by (auto simp: Let_def tk(2) simp del: upt_Suc)
qed

lemma robust_rounds_run:
  fixes sh :: "'a::field list" and A :: "'a mat"
  assumes ok: "correctable sh al t d f" and nF: "n = 3 * t + 1" "F = altered sh al n f" "e = card F"
    and y: "solutions n (bw_coeff sh al e) (bw_rhs sh al n e) = {y}"
  shows "k \<le> t - e \<Longrightarrow> rep A n n M \<Longrightarrow> length b = n \<Longrightarrow> robust_rounds sh al n t [k..<Suc t] (A, b, x, e0) = Inr (y, int e)"
proof (induction "t - e - k" arbitrary: k A M b e0)
  have n: "n \<le> length sh" "n \<le> length al" "e \<le> t" "0 < n" "n < 2 ^ 31" "t < n"
    using ok by (simp_all add: correctable_def nF)
  {
    case 0
    then have k: "t - k = e" "k \<le> t" using n(3) by simp_all
    from robust_round [OF 0(3,4) n(1,2,5) k(2) n(6), of x e0] obtain A' where A': "rep A' n n (bw_coeff sh al e)"
      "robust_rounds sh al n t [k..<Suc t] (A, b, x, e0) = bindE (SolveLinearSystem x A' (bw_rhs sh al n e))
        (\<lambda>(ok, x). if ok then Inr (x, int e) else robust_rounds sh al n t [Suc k..<Suc t] (A', bw_rhs sh al n e, x, int e))"
      unfolding k(1) by blast
    have "SolveLinearSystem x A' (bw_rhs sh al n e) = Inr (True, y)"
      using SolveLinearSystem_run [OF A'(1) _ n(4,5), of "bw_rhs sh al n e" x] y by auto
    then show ?case unfolding A'(2) by simp
  next
    case (Suc j)
    let ?m = "t - k"
    have k: "k \<le> t" "e < ?m" "?m \<le> t" "Suc k \<le> t - e" "j = t - e - Suc k" using Suc.hyps(2) n(3) by simp_all
    from robust_round [OF Suc.prems(2,3) n(1,2,5) k(1) n(6), of x e0] obtain A' where A': "rep A' n n (bw_coeff sh al ?m)"
      "robust_rounds sh al n t [k..<Suc t] (A, b, x, e0) = bindE (SolveLinearSystem x A' (bw_rhs sh al n ?m))
        (\<lambda>(ok, x). if ok then Inr (x, int ?m) else robust_rounds sh al n t [Suc k..<Suc t] (A', bw_rhs sh al n ?m, x, int ?m))"
      by blast
    have "\<forall>s. solutions n (bw_coeff sh al ?m) (bw_rhs sh al n ?m) \<noteq> {s}"
      using too_many_errors [OF ok, of ?m] k(2,3) by (simp add: nF)
    then have "SolveLinearSystem x A' (bw_rhs sh al n ?m) = Inr (False, x)"
      using SolveLinearSystem_run [OF A'(1) _ n(4,5), of "bw_rhs sh al n ?m" x] by auto
    then show ?case unfolding A'(2) using Suc.hyps(1) [OF k(5,4) A'(1)] by (simp del: upt_Suc)
  }
qed

section \<open>The division\<close>

lemma length_factor:
  fixes q :: "'a::field list"
  assumes "trimmed q" "q \<noteq> [0]" "trimmed E" "E \<noteq> [0]"
  shows "length q + length E \<le> Suc (length (Poly_Multiply q E))"
proof -
  have ne: "q \<noteq> []" "E \<noteq> []" using assms by (simp_all add: trimmed_nonempty)
  let ?a = "length q - 1" and ?b = "length E - 1"
  have lead: "cf q ?a \<noteq> 0" "cf E ?b \<noteq> 0"
    using trimmed_leading [OF assms(1,2)] trimmed_leading [OF assms(3,4)] ne by (simp_all add: Degree_nonempty)
  have "cf (Poly_Multiply q E) (?a + ?b) = (\<Sum>i\<le>?a + ?b. cf q i * cf E (?a + ?b - i))" by (rule cf_Multiply_atMost [OF ne])
  also have "\<dots> = (\<Sum>i\<le>?a + ?b. if i = ?a then cf q ?a * cf E ?b else 0)"
  proof (rule sum.cong)
    fix i assume "i \<in> {..?a + ?b}"
    show "cf q i * cf E (?a + ?b - i) = (if i = ?a then cf q ?a * cf E ?b else 0)"
    proof (cases i ?a rule: linorder_cases)
      case less
      then have "length E \<le> ?a + ?b - i" by simp
      then show ?thesis using less by simp
    next
      case greater
      then have "length q \<le> i" by simp
      then show ?thesis using greater by simp
    qed simp
  qed simp
  also have "\<dots> = cf q ?a * cf E ?b" by simp
  finally have "cf (Poly_Multiply q E) (?a + ?b) \<noteq> 0" using lead by simp
  then have "?a + ?b < length (Poly_Multiply q E)" by (rule contrapos_np) simp
  then show ?thesis by simp
qed

lemma divide_by_locator:
  fixes cs :: "'a::field list"
  assumes E: "E = Poly_Create (cs @ [1])" and rs: "distinct rs" "length rs = length cs" "\<And>x. x \<in> set rs \<Longrightarrow> peval E x = 0"
    and Q: "trimmed Q" "\<And>x. peval Q x = peval E x * f x" "polyfun m f" "length Q \<le> m + length cs" "0 < m"
    and pts: "distinct xs" "m \<le> length xs" "\<And>x. x \<in> set xs \<Longrightarrow> peval E x \<noteq> 0"
  shows "\<exists>q. Poly_Divide Q E = Some (Inr (q, [0])) \<and> trimmed q \<and> (\<forall>x. peval q x = f x)"
proof -
  have tE: "trimmed E" by (simp add: E)
  have "cf E (length cs) = 1" by (simp add: E cf_append)
  then have lE: "length cs < length E" by (rule contrapos_pp) simp
  have "length E \<le> Suc (length cs)" using length_Create [of "cs @ [1]"] by (simp add: E)
  with lE have len_E: "length E = Suc (length cs)" by simp
  have nz: "E \<noteq> [0]" using \<open>cf E (length cs) = 1\<close> len_E by (auto simp: cf_def split: if_splits)
  obtain q r where qr: "Poly_Divide Q E = Some (Inr (q, r))" "Poly_Add (Poly_Multiply q E) r = Q" "trimmed q" "trimmed r"
    "r = [0] \<or> Degree r < Degree E" using Poly_Divide_total [OF Q(1) tE nz] by blast
  have ne: "q \<noteq> []" "r \<noteq> []" "E \<noteq> []" "Poly_Multiply q E \<noteq> []" using qr(3,4) tE by (simp_all add: trimmed_nonempty)
  have val: "peval E x * f x = peval q x * peval E x + peval r x" for x
    using peval_Add [OF ne(4,2), of x] peval_Multiply [OF ne(1,3), of x] Q(2) [of x] by (simp add: qr(2))
  have r0: "r = [0]"
  proof (rule ccontr)
    assume r: "r \<noteq> [0]"
    then have "length r \<le> length rs" using qr(5) ne len_E rs(2) by (auto simp: Degree_nonempty)
    moreover have "peval r x = 0" if "x \<in> set rs" for x using val [of x] rs(3) [OF that] by simp
    ultimately have "\<forall>c \<in> set r. c = 0" by (intro peval_zero_coeffs [OF rs(1)]) simp_all
    then show False using qr(4) r by (cases r rule: rev_cases) (auto simp: trimmed_def)
  qed
  have "cf [0] k = (0 :: 'a)" for k by (simp add: cf_def nth_Cons split: nat.split)
  then have "cf (Poly_Multiply q E) k = cf Q k" for k using cf_Add [OF ne(4,2), of k] qr(2) [symmetric] r0 by simp
  then have mult: "Poly_Multiply q E = Q" by (intro trimmed_eqI) (simp_all add: Q(1))
  have len_q: "length q \<le> m"
  proof (cases "q = [0]")
    case False
    from length_factor [OF qr(3) this tE nz] show ?thesis using len_E Q(4) by (simp add: mult)
  qed (use Q(5) in simp)
  have pq: "polyfun (length xs) (peval q)" by (rule polyfun_peval) (use len_q pts(2) in simp)
  have pf: "polyfun (length xs) f" by (rule polyfun_mono [OF Q(3) pts(2)])
  have "peval q x = f x" for x
  proof (rule polyfun_unique [OF pts(1) pq pf])
    fix z assume "z \<in> set xs"
    then show "peval q z = f z" using val [of z] pts(3) by (simp add: r0 mult.commute)
  qed
  then show ?thesis using qr(1,3) r0 by blast
qed

section \<open>Correctness\<close>

lemma robust_run:
  fixes sh :: "'a::field list"
  assumes ok: "correctable sh al t d f"
  shows "\<exists>p E. ReconstructShamirRobustAt sh al t = Some (Inr (p, E)) \<and> trimmed p \<and> (\<forall>x. peval p x = f x)
    \<and> trimmed E \<and> Degree E = card (altered sh al (3 * t + 1) f) \<and> (\<forall>x. peval E x = (\<Prod>i\<in>altered sh al (3 * t + 1) f. x - al ! i))"
proof -
  define n F e where nF: "n = 3 * t + 1" "F = altered sh al n f" "e = card F"
  have n: "n \<le> length sh" "n \<le> length al" "distinct (take n al)" "polyfun (Suc d) f" "e \<le> t" "d + e \<le> 2 * t" "e < n" "n < 2 ^ 31"
    using ok by (simp_all add: correctable_def nF)
  obtain cs where cs: "length cs = e" "\<And>x. peval (cs @ [1]) x = (\<Prod>i\<in>F. x - al ! i)"
    using monic_locator [of F "(!) al"] by (auto simp: nF)
  have "polyfun (Suc e) (peval (cs @ [1]))" by (rule polyfun_peval) (simp add: cs(1))
  from polyfun_mult [OF this n(4)] have "polyfun (n - e) (\<lambda>x. peval (cs @ [1]) x * f x)"
    by (rule polyfun_mono) (use n(5,6) nF(1) in simp)
  then obtain v where v: "length v = n - e" "\<And>x. peval v x = peval (cs @ [1]) x * f x"
    by (rule polyfun_exact) blast
  note sol = right_number_of_errors [OF ok nF(1) nF(2) nF(3) cs v]
  define E Q where EQ: "E = Poly_Create (cs @ [1])" "Q = Poly_Create v"
  obtain A0 :: "'a mat" where A0: "new_Mat n n = Inr A0" "rep A0 n n (\<lambda>_ _. 0)" using rep_new [of n n] n(7) by auto
  have rounds: "robust_rounds sh al n t [0..<Suc t] (A0, replicate n 0, replicate n 0, 0) = Inr (cs @ v, int e)"
    by (rule robust_rounds_run [OF ok nF(1) nF(2) nF(3) sol _ A0(2)]) simp_all
  have len: "length (cs @ v) = n" using cs(1) v(1) n(7) by simp
  have "length (cs @ v) = n \<Longrightarrow> vec_range (cs @ v) 0 (int e + 1) = Inr (cs @ take 1 v)"
    using cs(1) n(7) by (simp add: vec_range_def nat_add_distrib)
  then have parts: "vec_range (cs @ v) 0 (int e + 1) = Inr (cs @ take 1 v)" "vec_range (cs @ v) (int e) (int (length (cs @ v))) = Inr v"
    using len cs(1) v(1) n(7) by (simp_all add: vec_range_def)
  have "v \<noteq> []" using v(1) n(7) by auto
  then obtain v0 where "take 1 v = [v0]" by (cases v) simp_all
  then have cE: "vset (cs @ take 1 v) (size_of_int (int e)) 1 = Inr (cs @ [1])"
    using cs(1) n(7,8) by (simp add: size_of_int_def list_update_append)
  have "(3 * t + 1) mod 2 ^ 64 = n" using n(8) by (simp add: nF(1))
  then have run: "ReconstructShamirRobustAt sh al t = bindP (Poly_Divide Q E) (\<lambda>(q, r). if IsZero r then retP (q, E) else failP (Logic_error ''could not correct shares''))"
    unfolding ReconstructShamirRobustAt_def Let_def new_Mat_square_def EQ
    using n(1,2) A0(1) rounds parts cE by (simp del: upt_Suc)
  have E: "peval E x = (\<Prod>i\<in>F. x - al ! i)" for x by (simp add: EQ(1) cs(2) del: peval.simps)
  have F_sub: "i < n" if "i \<in> F" for i using that by (simp add: nF(2) altered_def)
  obtain ps where ps: "set ps = F" "distinct ps" using finite_distinct_list [of F] by (auto simp: nF(2))
  define good where "good = filter (\<lambda>i. i \<notin> F) [0..<n]"
  have "set good = {..<n} - F" "distinct good" by (auto simp: good_def)
  moreover have "card ({..<n} - F) = n - e" using F_sub by (simp add: nF(2,3) card_Diff_subset subset_iff)
  ultimately have good: "set good = {..<n} - F" "distinct good" "length good = n - e" using distinct_card [of good] by auto
  have "\<exists>q. Poly_Divide Q E = Some (Inr (q, [0])) \<and> trimmed q \<and> (\<forall>x. peval q x = f x)"
  proof (rule divide_by_locator [OF EQ(1)])
    show "distinct (map ((!) al) ps)" by (rule points_distinct [OF n(3,2)]) (use ps F_sub in auto)
    show "length (map ((!) al) ps) = length cs" using distinct_card [OF ps(2)] ps(1) cs(1) by (simp add: nF(3))
    show "peval E x = 0" if "x \<in> set (map ((!) al) ps)" for x
      unfolding E by (rule prod_zero) (use that ps(1) in \<open>auto simp: nF(2)\<close>)
    show "trimmed Q" "\<And>x. peval Q x = peval E x * f x" using v(2) by (simp_all add: EQ del: peval.simps)
    show "polyfun (n - 2 * e) f" by (rule polyfun_mono [OF n(4)]) (use n(5,6) nF(1) in simp)
    show "length Q \<le> n - 2 * e + length cs" using length_Create [of v] v(1) cs(1) n(5) nF(1) by (simp add: EQ(2))
    show "0 < n - 2 * e" using n(5) nF(1) by simp
    show "distinct (map ((!) al) good)" by (rule points_distinct [OF n(3,2)]) (use good in auto)
    show "n - 2 * e \<le> length (map ((!) al) good)" using good(3) by simp
    show "peval E x \<noteq> 0" if "x \<in> set (map ((!) al) good)" for x
    proof -
      from that obtain i where i: "i < n" "i \<notin> F" "x = al ! i" using good(1) by auto
      have "al ! i \<noteq> al ! j" if "j \<in> F" for j using alphas_eq [OF n(3,2) i(1) F_sub [OF that]] i(2) that by auto
      then show ?thesis using i(3) by (simp add: E nF(2))
    qed
  qed
  moreover have "IsZero [0 :: 'a]" by (simp add: IsZero_iff)
  moreover have "trimmed E" by (simp add: EQ(1))
  moreover have "Degree E = e"
  proof -
    have "cf E (length cs) = 1" by (simp add: EQ(1) cf_append)
    then have "length cs < length E" by (rule contrapos_pp) simp
    then show ?thesis using length_Create [of "cs @ [1]"] cs(1) by (cases E) (simp_all add: EQ(1) Degree_def)
  qed
  ultimately show ?thesis using run E by (auto simp: retP_def nF)
qed

text \<open>The version at position 0, with the default evaluation points.\<close>

lemma robust_at_zero:
  assumes "correctable sh (CanonicalAlphas (length sh)) t d f"
  shows "ReconstructShamirRobust sh t = Some (Inr (f 0))"
proof -
  from robust_run [OF assms] obtain p E where pE: "ReconstructShamirRobustAt sh (CanonicalAlphas (length sh)) t = Some (Inr (p, E))"
    "trimmed p" "\<And>x. peval p x = f x" by blast
  have "Poly_Evaluate p 0 = Inr (f 0)" using Poly_Evaluate_correct [OF trimmed_nonempty [OF pE(2)], of 0] pE(3) by simp
  then show ?thesis using pE(1) by (simp add: ReconstructShamirRobust_def liftP_def)
qed

lemma altered_mono: "card (altered sh al m f) \<le> card {i. i < n \<and> sh ! i \<noteq> f (al ! i)}" if "m \<le> n"
  using that by (intro card_mono) (auto simp: altered_def)

context point_field
begin

lemma correctable_canonical:
  fixes f :: "'a \<Rightarrow> 'a"
  assumes "3 * t + 1 \<le> length sh" "length sh < 2 ^ 31" "polyfun (Suc d) f"
    and "card {i. i < length sh \<and> sh ! i \<noteq> f (CanonicalAlphas (length sh) ! i)} = c" "c \<le> t" "d + c \<le> 2 * t"
  shows "correctable sh (CanonicalAlphas (length sh)) t d f"
  using assms altered_mono [OF assms(1), of sh "CanonicalAlphas (length sh)" f] CanonicalAlphas_distinct [OF assms(2)]
  by (simp add: correctable_def distinct_take)

text \<open>A polynomial of degree \<open>2 t\<close> is further than \<open>t\<close> shares from every polynomial of degree \<open>t\<close>.\<close>

lemma power_far_from_sharings:
  fixes g :: "'a \<Rightarrow> 'a"
  assumes t: "0 < t" "3 * t + 1 \<le> n" "n < 2 ^ 31" and g: "polyfun (t + 1) g"
  shows "t < card (altered (map (\<lambda>a. a ^ (2 * t)) (CanonicalAlphas n)) (CanonicalAlphas n) (3 * t + 1) g)"
proof (rule ccontr)
  let ?al = "CanonicalAlphas n :: 'a list"
  let ?F = "altered (map (\<lambda>a. a ^ (2 * t)) ?al) ?al (3 * t + 1) g"
  assume far: "\<not> t < card ?F"
  define good where "good = filter (\<lambda>i. i \<notin> ?F) [0..<3 * t + 1]"
  have "?F \<subseteq> {..<3 * t + 1}" by (auto simp: altered_def)
  then have "card ({..<3 * t + 1} - ?F) = 3 * t + 1 - card ?F" by (simp add: card_Diff_subset)
  moreover have "set good = {..<3 * t + 1} - ?F" "distinct good" by (auto simp: good_def simp del: upt_Suc)
  ultimately have len: "2 * t + 1 \<le> length good" using distinct_card [of good] far by simp
  have dist: "distinct (map ((!) ?al) good)"
    by (rule points_distinct [of n]) (use t CanonicalAlphas_distinct [OF t(3)] in \<open>auto simp: good_def simp del: upt_Suc\<close>)
  obtain cs where cs: "length cs = t + 1" "\<And>x. peval cs x = g x" using polyfun_exact [OF g] by blast
  have "cs @ replicate t 0 = replicate (2 * t) 0 @ [1]"
  proof (rule peval_inject [OF dist])
    show "length (cs @ replicate t 0) = length (replicate (2 * t) 0 @ [1])" "length (cs @ replicate t 0) \<le> length (map ((!) ?al) good)"
      using cs(1) len by simp_all
    show "peval (cs @ replicate t 0) x = peval (replicate (2 * t) 0 @ [1]) x" if "x \<in> set (map ((!) ?al) good)" for x
    proof -
      from that obtain i where i: "i < 3 * t + 1" "i \<notin> ?F" "x = ?al ! i" by (auto simp: good_def simp del: upt_Suc)
      then have "x ^ (2 * t) = g x" using t(2) by (simp add: altered_def)
      then show ?thesis by (simp add: peval_append cs(2))
    qed
  qed
  then have "last (cs @ replicate t 0) = last (replicate (2 * t) 0 @ [1])" by (rule arg_cong)
  then show False using t(1) by simp
qed

end

section \<open>Properties\<close>

text \<open>
  C7: error correction. When \<open>3 t + 1\<close> shares at distinct points differ in at most \<open>t\<close> places from the values of a
  polynomial \<open>f\<close> of degree at most \<open>d\<close>, where \<open>d\<close> and the number of places together are at most \<open>2 t\<close> (a
  sharing of degree \<open>t\<close> always qualifies), \<open>ReconstructShamirRobust\<close> returns exactly the coefficients of
  \<open>f\<close>, and with them the monic polynomial whose roots are the points of the altered shares. The search
  over the numbers of errors ends, no access is out of range, and the division leaves no remainder.
\<close>

theorem robust_corrects:
  fixes shares alphas :: "'a::field list"
  assumes "3 * t + 1 \<le> length shares" "3 * t + 1 \<le> length alphas" "3 * t + 1 < 2 ^ 31" "distinct (take (3 * t + 1) alphas)"
    and "polyfun (Suc d) f" "F = {i. i < 3 * t + 1 \<and> shares ! i \<noteq> f (alphas ! i)}" "card F \<le> t" "d + card F \<le> 2 * t"
  shows "\<exists>p E. ReconstructShamirRobustAt shares alphas t = Some (Inr (p, E)) \<and> trimmed p \<and> (\<forall>x. peval p x = f x)
    \<and> trimmed E \<and> Degree E = card F \<and> (\<forall>x. peval E x = (\<Prod>i\<in>F. x - alphas ! i))"
proof -
  have F: "F = altered shares alphas (3 * t + 1) f" by (simp add: assms(6) altered_def)
  show ?thesis unfolding F by (rule robust_run) (use assms in \<open>simp add: correctable_def F\<close>)
qed

theorem robust_corrects_witness:
  "\<exists>p E. ReconstructShamirRobustAt [2, 3, 9, 5] [1, 2, 3, 4] 1 = Some (Inr (p, E))
    \<and> (\<forall>x. peval p x = x + 1) \<and> Degree E = 1 \<and> (\<forall>x. peval E x = x - (3 :: ff61))"
proof -
  let ?s = "[2, 3, 9, 5 :: ff61]" and ?a = "[1, 2, 3, 4 :: ff61]" and ?f = "\<lambda>x :: ff61. x + 1"
  have ne: "(9 :: ff61) \<noteq> 4" using ff61_of_nat_eq_iff [of 9 4] by simp
  have dist: "distinct ?a"
    using ff61_of_nat_eq_iff [of 1 2] ff61_of_nat_eq_iff [of 1 3] ff61_of_nat_eq_iff [of 1 4] ff61_of_nat_eq_iff [of 2 3]
      ff61_of_nat_eq_iff [of 2 4] ff61_of_nat_eq_iff [of 3 4] by simp
  have "(i < 3 * 1 + 1 \<and> ?s ! i \<noteq> ?f (?a ! i)) = (i = 2)" for i
    using ne by (auto simp: less_Suc_eq numeral_eq_Suc)
  then have F: "{2} = {i. i < 3 * 1 + 1 \<and> ?s ! i \<noteq> ?f (?a ! i)}" by blast
  have "polyfun (Suc 1) (peval [1, 1 :: ff61])" by (rule polyfun_peval) simp
  moreover have "peval [1, 1 :: ff61] = ?f" by (rule ext) simp
  ultimately have pf: "polyfun (Suc 1) ?f" by simp
  from robust_corrects [of 1 ?s ?a 1 ?f "{2}", OF _ _ _ _ pf F] dist show ?thesis by auto
qed

text \<open>
  C8: the secret survives up to \<open>t\<close> altered shares: \<open>CreateShamirShares\<close> makes \<open>n \<ge> 3 t + 1\<close> shares of a secret;
  whatever values replace up to \<open>t\<close> of them, \<open>ReconstructShamirRobust\<close> returns the secret.
\<close>

theorem robust_recovers_secret:
  fixes secret :: ff61
  assumes "0 < t" "3 * t + 1 \<le> n" "n < 2 ^ 31"
  shows "\<exists>shares g'. CreateShamirShares rnd secret n t g = Inr (shares, g') \<and>
    (\<forall>received. length received = n \<and> card {i. i < n \<and> received ! i \<noteq> shares ! i} \<le> t \<longrightarrow>
      ReconstructShamirRobust received t = Some (Inr secret))"
proof -
  obtain r g' where r: "CreateShamirShares rnd secret n t g
      = Inr (map (peval (secret # r)) (CanonicalAlphas n), g')" "length r = t"
    by (rule ff61_points.shamir_shares [OF assms(1), of rnd secret n g]) blast
  let ?f = "peval (secret # r)"
  have "ReconstructShamirRobust received t = Some (Inr secret)"
    if len: "length received = n" and F: "card {i. i < n \<and> received ! i \<noteq> map ?f (CanonicalAlphas n) ! i} \<le> t" for received
  proof -
    have "{i. i < n \<and> received ! i \<noteq> map ?f (CanonicalAlphas n) ! i} = {i. i < n \<and> received ! i \<noteq> ?f (CanonicalAlphas n ! i)}"
      by (rule Collect_cong) (auto simp del: peval.simps)
    with F have F': "card {i. i < n \<and> received ! i \<noteq> ?f (CanonicalAlphas n ! i)} \<le> t" by (simp only:)
    have "correctable received (CanonicalAlphas (length received)) t t ?f"
      by (rule ff61_points.correctable_canonical [OF _ _ _ refl])
        (use assms len F' r(2) polyfun_peval [of "secret # r" "Suc t"] in \<open>simp_all del: peval.simps\<close>)
    then have "ReconstructShamirRobust received t = Some (Inr (?f 0))" by (rule robust_at_zero)
    then show ?thesis by simp
  qed
  then show ?thesis using r(1) by blast
qed

theorem robust_recovers_secret_witness:
  "\<exists>shares g'. CreateShamirShares (\<lambda>g. (g, g + 1)) 42 4 1 7 = Inr (shares, g') \<and>
    (\<forall>received. length received = 4 \<and> card {i. i < 4 \<and> received ! i \<noteq> shares ! i} \<le> 1 \<longrightarrow>
      ReconstructShamirRobust received 1 = Some (Inr (42 :: ff61)))"
  by (rule robust_recovers_secret) simp_all

text \<open>
  The correction has no check of the degree. For every \<open>t > 0\<close> there are shares which are further than \<open>t\<close>
  places from every sharing of degree \<open>t\<close>, so that no sharing explains them with \<open>t\<close> altered shares,
  and \<open>ReconstructShamirRobust\<close> returns a value for them instead of throwing: with no room for errors left its
  last round interpolates all \<open>3 t + 1\<close> shares.
\<close>

theorem robust_accepts_no_sharing:
  assumes "0 < t" "3 * t + 1 \<le> n" "n < 2 ^ 31"
  shows "\<exists>shares :: ff61 list. length shares = n
    \<and> (\<forall>g. polyfun (t + 1) g \<longrightarrow> t < card {i. i < 3 * t + 1 \<and> shares ! i \<noteq> g (CanonicalAlphas n ! i)})
    \<and> ReconstructShamirRobust shares t = Some (Inr 0)"
proof (intro exI conjI allI impI)
  let ?sh = "map (\<lambda>a. a ^ (2 * t)) (CanonicalAlphas n) :: ff61 list"
  show len: "length ?sh = n" by simp
  show "t < card {i. i < 3 * t + 1 \<and> ?sh ! i \<noteq> g (CanonicalAlphas n ! i)}" if "polyfun (t + 1) g" for g
    using ff61_points.power_far_from_sharings [OF assms that] by (simp only: altered_def)
  have "polyfun (Suc (2 * t)) (peval (replicate (2 * t) 0 @ [1 :: ff61]))" by (rule polyfun_peval) simp
  moreover have "peval (replicate (2 * t) 0 @ [1]) = (\<lambda>x :: ff61. x ^ (2 * t))" by (rule ext) (simp add: peval_append)
  ultimately have pf: "polyfun (Suc (2 * t)) (\<lambda>x :: ff61. x ^ (2 * t))" by (rule back_subst)
  have "{i. i < length ?sh \<and> ?sh ! i \<noteq> (CanonicalAlphas (length ?sh) ! i) ^ (2 * t)} = {}" by auto
  then have none: "card {i. i < length ?sh \<and> ?sh ! i \<noteq> (CanonicalAlphas (length ?sh) ! i) ^ (2 * t)} = 0" by (simp only: card.empty)
  have "correctable ?sh (CanonicalAlphas (length ?sh)) t (2 * t) (\<lambda>x. x ^ (2 * t))"
    by (rule ff61_points.correctable_canonical [OF _ _ pf none]) (use assms in simp_all)
  then have "ReconstructShamirRobust ?sh t = Some (Inr (0 ^ (2 * t)))" by (rule robust_at_zero)
  then show "ReconstructShamirRobust ?sh t = Some (Inr 0)" using assms(1) by simp
qed

theorem robust_accepts_no_sharing_witness:
  "\<exists>shares :: ff61 list. length shares = 4
    \<and> (\<forall>g. polyfun (1 + 1) g \<longrightarrow> 1 < card {i. i < 3 * 1 + 1 \<and> shares ! i \<noteq> g (CanonicalAlphas 4 ! i)})
    \<and> ReconstructShamirRobust shares 1 = Some (Inr 0)"
  by (rule robust_accepts_no_sharing) simp_all

end
