(* ===== verification/NumStrings.thy ===== *)
theory NumStrings
  imports Mersenne61
begin

text \<open>
  Conversion between strings and integers (\<open>scl/math/str.h\<close>, \<open>str.cc\<close>), for the bases of \<open>bases.h\<close>. The
  integer type \<open>T\<close> of the templates is \<open>'w word\<close>. The lemmas give the value of every string, the
  exception for the others, and the round trip through the decimal representation.
\<close>

section \<open>Characters\<close>

datatype NumberBase = BINARY | DECIMAL | HEX | BASE64

text \<open>\<open>char\<close> is signed on the target.\<close>

definition char_int :: "char \<Rightarrow> int" where
  "char_int c = (let n = of_char c in if n < 128 then n else n - 256)"

definition InRange :: "char \<Rightarrow> int \<Rightarrow> int \<Rightarrow> bool" where
  "InRange c lower upper \<longleftrightarrow> lower \<le> char_int c \<and> char_int c \<le> upper"

definition FromBinary :: "char \<Rightarrow> 32 word res" where
  "FromBinary c = (if InRange c (char_int CHR ''0'') (char_int CHR ''1'') then Inr (word_of_int (char_int c - char_int CHR ''0''))
     else Inl (Invalid_argument ''encountered invalid binary character''))"

definition FromDecimal :: "char \<Rightarrow> 32 word res" where
  "FromDecimal c = (if InRange c (char_int CHR ''0'') (char_int CHR ''9'') then Inr (word_of_int (char_int c - char_int CHR ''0''))
     else Inl (Invalid_argument ''encountered invalid decimal character''))"

text \<open>The macro \<open>_SCL_I\<close>.\<close>

definition hex_digit :: "char \<Rightarrow> 32 word \<Rightarrow> 32 word res" where
  "hex_digit c v = (if InRange c (char_int CHR ''0'') (char_int CHR ''9'') then Inr (v + word_of_int (char_int c - char_int CHR ''0''))
     else if InRange c (char_int CHR ''A'') (char_int CHR ''F'') then Inr (v + word_of_int (char_int c - char_int CHR ''A'' + 10))
     else if InRange c (char_int CHR ''a'') (char_int CHR ''f'') then Inr (v + word_of_int (char_int c - char_int CHR ''a'' + 10))
     else Inl (Invalid_argument ''encountered invalid hex character''))"

definition FromHex :: "char \<Rightarrow> char \<Rightarrow> 32 word res" where
  "FromHex c0 c1 = bindE (hex_digit c0 0) (\<lambda>v. hex_digit c1 (push_bit 4 v))"

definition FromBase64 :: "char \<Rightarrow> 32 word res" where
  "FromBase64 c = (if InRange c (char_int CHR ''A'') (char_int CHR ''Z'') then Inr (word_of_int (char_int c - char_int CHR ''A''))
     else if InRange c (char_int CHR ''a'') (char_int CHR ''z'') then Inr (word_of_int (char_int c - char_int CHR ''a'' + 26))
     else if InRange c (char_int CHR ''0'') (char_int CHR ''9'') then Inr (word_of_int (char_int c - char_int CHR ''0'' + 52))
     else if c = CHR ''+'' then Inr 62
     else if c = CHR ''/'' then Inr 63
     else Inl (Invalid_argument ''encountered invalid base64 character''))"

section \<open>Strings\<close>

definition FromStringBinary :: "string \<Rightarrow> 'w::len word res" where
  "FromStringBinary s = foldE (\<lambda>b t. let t = t * 2 in bindE (FromBinary b) (\<lambda>v. Inr (t + ucast v))) s 0"

definition FromStringDecimal :: "string \<Rightarrow> 'w::len word res" where
  "FromStringDecimal s = foldE (\<lambda>d t. let t = t * 10 in bindE (FromDecimal d) (\<lambda>v. Inr (t + ucast v))) s 0"

fun hex_loop :: "string \<Rightarrow> 'w::len word \<Rightarrow> 'w word res" where
  "hex_loop (c0 # c1 # s) t = (let t = t * 256 in bindE (FromHex c0 c1) (\<lambda>v. hex_loop s (t + ucast v)))"
| "hex_loop s t = Inr t"

definition FromStringHex :: "string \<Rightarrow> 'w::len word res" where
  "FromStringHex s = throw_if (length s mod 2 \<noteq> 0) (Invalid_argument ''odd-length hex string'') (hex_loop s 0)"

text \<open>Four characters of base 64 give three bytes.\<close>

fun base64_loop :: "string \<Rightarrow> 'w::len word \<Rightarrow> 'w word res" where
  "base64_loop (s0 # s1 # s2 # s3 # s) t =
     bindE (FromBase64 s0) (\<lambda>c0. bindE (FromBase64 s1) (\<lambda>c1. bindE (FromBase64 s2) (\<lambda>c2. bindE (FromBase64 s3) (\<lambda>c3.
       let t = push_bit 8 t; t = t + ucast (push_bit 2 c0 OR drop_bit 4 c1);
           t = push_bit 8 t; t = t + ucast (push_bit 4 (c1 AND 0x0F) OR drop_bit 2 c2);
           t = push_bit 8 t; t = t + ucast (push_bit 6 (c2 AND 0x03) OR c3)
       in base64_loop s t))))"
| "base64_loop s t = Inr t"

definition base64_padding :: "char \<Rightarrow> char \<Rightarrow> char \<Rightarrow> 'w::len word \<Rightarrow> 'w word res" where
  "base64_padding c0 c1 c2 t =
     throw_if (c0 = CHR ''='' \<or> c1 = CHR ''='') (Invalid_argument ''invalid base64 padding'') (
     let t = push_bit 8 t in
     bindE (FromBase64 c1) (\<lambda>b1. bindE (FromBase64 c0) (\<lambda>v0.
     let t = t + ucast (push_bit 2 v0 OR drop_bit 4 b1) in
     if c2 \<noteq> CHR ''=''
     then let t = push_bit 8 t in bindE (FromBase64 c2) (\<lambda>v2. Inr (t + ucast (push_bit 4 (b1 AND 0x0F) OR drop_bit 2 v2)))
     else Inr t)))"

text \<open>\<open>s[n - 1]\<close> is undefined for the empty string.\<close>

definition FromStringBase64 :: "string \<Rightarrow> 'w::len word res" where
  "FromStringBase64 s = (let n = length s in
     throw_if (n mod 4 \<noteq> 0) (Invalid_argument ''invalid length base64 string'') (
     if n = 0 then Inl Undefined
     else let has_padding = (s ! (n - 1) = CHR ''=''); m = n - (if has_padding then 4 else 0) in
       bindE (base64_loop (take m s) 0) (\<lambda>t.
       if has_padding then base64_padding (s ! m) (s ! (m + 1)) (s ! (m + 2)) t else Inr t)))"

definition FromStringSimpleType :: "string \<Rightarrow> NumberBase \<Rightarrow> 'w::len word res" where
  "FromStringSimpleType s base = (case base of
     BINARY \<Rightarrow> FromStringBinary s | DECIMAL \<Rightarrow> FromStringDecimal s | HEX \<Rightarrow> FromStringHex s | BASE64 \<Rightarrow> FromStringBase64 s)"

text \<open>A stream prints an unsigned number in decimal; \<open>digit\<close> is the character of one digit.\<close>

definition digit :: "nat \<Rightarrow> char" where
  "digit d = char_of (48 + d)"

fun print_decimal :: "nat \<Rightarrow> string" where
  "print_decimal n = (if n < 10 then [digit n] else print_decimal (n div 10) @ [digit (n mod 10)])"

definition ToString64 :: "u64 \<Rightarrow> string" where
  "ToString64 v = print_decimal (unat v)"

function print_reversed :: "u128 \<Rightarrow> string \<Rightarrow> string" where
  "print_reversed w ss = (if w \<noteq> 0 then print_reversed (w div 10) (ss @ print_decimal (unat (w mod 10))) else ss)"
  by pat_completeness auto
termination
proof (relation "measure (\<lambda>(w, ss). unat w)")
  fix w :: u128
  assume "w \<noteq> 0"
  then have "0 < unat w" by (simp add: unat_gt_0)
  then show "((w div 10, ss @ print_decimal (unat (w mod 10))), w, ss) \<in> measure (\<lambda>(w, ss). unat w)" for ss
    by (simp add: unat_div)
qed simp

definition ToString128 :: "u128 \<Rightarrow> string" where
  "ToString128 v = (if v = 0 then ''0'' else let w = v; s = print_reversed w [] in rev s)"

declare print_decimal.simps [simp del] print_reversed.simps [simp del]

subsection \<open>Elements of \<open>FF<61>\<close>\<close>

definition FromString61 :: "string \<Rightarrow> NumberBase \<Rightarrow> u64 res" where
  "FromString61 str base = FromStringSimpleType str base"

definition FF61_FromString :: "string \<Rightarrow> NumberBase \<Rightarrow> u64 res" where
  "FF61_FromString str base = FromString61 str base"

definition FF61_FromString_decimal :: "string \<Rightarrow> u64 res" where
  "FF61_FromString_decimal str = FF61_FromString str DECIMAL"

definition ToString61 :: "u64 \<Rightarrow> string" where
  "ToString61 v = ToString64 v"

section \<open>The values of strings\<close>

text \<open>The value of a character as a digit: letters of both cases are hexadecimal digits.\<close>

definition char_range :: "char \<Rightarrow> char \<Rightarrow> nat \<Rightarrow> char \<Rightarrow> nat option" where
  "char_range lo hi off c = (let n = of_char c in
     if of_char lo \<le> n \<and> n \<le> of_char hi then Some (n - of_char lo + off) else None)"

definition first_digit :: "(char \<Rightarrow> nat option) list \<Rightarrow> char \<Rightarrow> nat option" where
  "first_digit fs c = foldr (\<lambda>f r. case f c of Some d \<Rightarrow> Some d | None \<Rightarrow> r) fs None"

definition digit_value :: "NumberBase \<Rightarrow> char \<Rightarrow> nat option" where
  "digit_value base = first_digit (case base of
     BINARY \<Rightarrow> [char_range CHR ''0'' CHR ''1'' 0]
   | DECIMAL \<Rightarrow> [char_range CHR ''0'' CHR ''9'' 0]
   | HEX \<Rightarrow> [char_range CHR ''0'' CHR ''9'' 0, char_range CHR ''A'' CHR ''F'' 10, char_range CHR ''a'' CHR ''f'' 10]
   | BASE64 \<Rightarrow> [char_range CHR ''A'' CHR ''Z'' 0, char_range CHR ''a'' CHR ''z'' 26, char_range CHR ''0'' CHR ''9'' 52,
       char_range CHR ''+'' CHR ''+'' 62, char_range CHR ''/'' CHR ''/'' 63])"

definition radix :: "NumberBase \<Rightarrow> nat" where
  "radix base = (case base of BINARY \<Rightarrow> 2 | DECIMAL \<Rightarrow> 10 | HEX \<Rightarrow> 16 | BASE64 \<Rightarrow> 64)"

definition digit_error :: "NumberBase \<Rightarrow> exn" where
  "digit_error base = Invalid_argument (case base of BINARY \<Rightarrow> ''encountered invalid binary character''
     | DECIMAL \<Rightarrow> ''encountered invalid decimal character'' | HEX \<Rightarrow> ''encountered invalid hex character''
     | BASE64 \<Rightarrow> ''encountered invalid base64 character'')"

definition read_digit :: "NumberBase \<Rightarrow> char \<Rightarrow> 32 word res" where
  "read_digit base c = (case digit_value base c of Some d \<Rightarrow> Inr (of_nat d) | None \<Rightarrow> Inl (digit_error base))"

definition signed_byte :: "nat \<Rightarrow> int" where
  "signed_byte n = (if n < 128 then int n else int n - 256)"

lemma char_int_eq: "char_int c = signed_byte (of_char c)"
proof -
  have c: "(of_char c :: int) = int (of_char c)" by (simp only: of_nat_of_char)
  show ?thesis unfolding char_int_def Let_def signed_byte_def c by (simp del: of_nat_of_char)
qed

lemma signed_byte_range:
  "n < 256 \<Longrightarrow> l < 128 \<Longrightarrow> h < 128 \<Longrightarrow> signed_byte l \<le> signed_byte n \<and> signed_byte n \<le> signed_byte h \<longleftrightarrow> l \<le> n \<and> n \<le> h"
  by (auto simp: signed_byte_def)

lemma char_range_cases:
  assumes "(of_char lo :: nat) < 128" "(of_char hi :: nat) < 128"
  shows "(\<not> InRange c (char_int lo) (char_int hi) \<and> char_range lo hi off c = None)
    \<or> (\<exists>d \<le> of_char hi - of_char lo. InRange c (char_int lo) (char_int hi) \<and> char_int c = char_int lo + int d \<and> char_range lo hi off c = Some (d + off))"
proof -
  let ?c = "of_char c :: nat" and ?l = "of_char lo :: nat" and ?h = "of_char hi :: nat"
  have in_range: "InRange c (char_int lo) (char_int hi) \<longleftrightarrow> ?l \<le> ?c \<and> ?c \<le> ?h"
    unfolding InRange_def char_int_eq by (rule signed_byte_range [OF nat_of_char_less_256 assms])
  show ?thesis
  proof (cases "?l \<le> ?c \<and> ?c \<le> ?h")
    case True
    then have "char_int c = char_int lo + int (?c - ?l)" using assms unfolding char_int_eq signed_byte_def by (simp del: of_nat_of_char)
    then show ?thesis using True in_range unfolding char_range_def Let_def by (intro disjI2 exI [of _ "?c - ?l"]) (simp add: diff_le_mono)
  next
    case False
    then have "char_range lo hi off c = None" "\<not> InRange c (char_int lo) (char_int hi)"
      using in_range by (auto simp: char_range_def Let_def)
    then show ?thesis by blast
  qed
qed

lemmas small_ranges = char_range_cases [of "CHR ''0''" "CHR ''9''", simplified]
  char_range_cases [of "CHR ''A''" "CHR ''F''", simplified] char_range_cases [of "CHR ''a''" "CHR ''f''", simplified]
  char_range_cases [of "CHR ''A''" "CHR ''Z''", simplified] char_range_cases [of "CHR ''a''" "CHR ''z''", simplified]

lemma FromBinary_read: "FromBinary c = read_digit BINARY c"
  using char_range_cases [of "CHR ''0''" "CHR ''1''" c 0]
  by (auto simp: FromBinary_def read_digit_def digit_value_def first_digit_def digit_error_def)

lemma FromDecimal_read: "FromDecimal c = read_digit DECIMAL c"
  using char_range_cases [of "CHR ''0''" "CHR ''9''" c 0]
  by (auto simp: FromDecimal_def read_digit_def digit_value_def first_digit_def digit_error_def)

lemma char_range_single: "char_range a a k c = (if c = a then Some k else None)"
proof -
  have "(of_char a :: nat) \<le> of_char c \<and> (of_char c :: nat) \<le> of_char a \<longleftrightarrow> c = a"
    using of_char_eq_iff [where ?'a = nat, of c a] by auto
  then show ?thesis by (simp add: char_range_def Let_def)
qed

lemma FromBase64_read: "FromBase64 c = read_digit BASE64 c"
  using small_ranges(4) [of c 0] small_ranges(5) [of c 26] small_ranges(1) [of c 52]
  by (elim disjE exE conjE)
    (simp_all add: FromBase64_def read_digit_def digit_value_def first_digit_def digit_error_def char_range_single)

lemma hex_digit_read: "hex_digit c v = (case digit_value HEX c of Some d \<Rightarrow> Inr (v + of_nat d) | None \<Rightarrow> Inl (digit_error HEX))"
  using small_ranges(1) [of c 0] small_ranges(2) [of c 10] small_ranges(3) [of c 10]
  by (elim disjE exE conjE) (simp_all add: hex_digit_def digit_value_def first_digit_def digit_error_def)

lemma digit_value_less: "digit_value base c = Some d \<Longrightarrow> d < radix base"
  by (cases base) (auto simp: digit_value_def first_digit_def char_range_def radix_def Let_def split: if_splits)

definition string_value :: "NumberBase \<Rightarrow> string \<Rightarrow> nat \<Rightarrow> nat" where
  "string_value base s a = fold (\<lambda>c t. t * radix base + the (digit_value base c)) s a"

definition all_digits :: "NumberBase \<Rightarrow> string \<Rightarrow> bool" where
  "all_digits base s \<longleftrightarrow> (\<forall>c \<in> set s. digit_value base c \<noteq> None)"

definition read_string :: "NumberBase \<Rightarrow> string \<Rightarrow> nat \<Rightarrow> 'w::len word res" where
  "read_string base s a = (if all_digits base s then Inr (of_nat (string_value base s a)) else Inl (digit_error base))"

lemma read_string_simps:
  "read_string base [] a = Inr (of_nat a)"
  "read_string base (c # s) a = (case digit_value base c of Some d \<Rightarrow> read_string base s (a * radix base + d) | None \<Rightarrow> Inl (digit_error base))"
  by (auto simp: read_string_def all_digits_def string_value_def split: option.splits)

lemma ucast_digit: "d < 2 ^ 32 \<Longrightarrow> ucast (of_nat d :: 32 word) = (of_nat d :: 'w::len word)"
  by (simp add: unsigned_of_nat take_bit_nat_eq_self)

lemma digit_small: "digit_value base c = Some d \<Longrightarrow> ucast (of_nat d :: 32 word) = (of_nat d :: 'w::len word)"
  by (drule digit_value_less, rule ucast_digit) (cases base; simp add: radix_def)

lemma loop_read_string:
  "foldE (\<lambda>c t. let t = t * of_nat (radix base) in bindE (read_digit base c) (\<lambda>v. Inr (t + ucast v))) s (of_nat a)
    = (read_string base s a :: 'w::len word res)"
proof (induction s arbitrary: a)
  case Nil
  then show ?case by (simp add: read_string_simps)
next
  case (Cons c s)
  show ?case
  proof (cases "digit_value base c")
    case None
    then show ?thesis by (simp add: read_string_simps read_digit_def Let_def)
  next
    case (Some d)
    then have "of_nat a * of_nat (radix base) + ucast (of_nat d :: 32 word) = (of_nat (a * radix base + d) :: 'w word)"
      by (simp add: digit_small)
    then show ?thesis using Some Cons.IH [of "a * radix base + d"] by (simp add: read_string_simps read_digit_def Let_def)
  qed
qed

lemma FromStringBinary_eq: "FromStringBinary s = (read_string BINARY s 0 :: 'w::len word res)"
  using loop_read_string [of BINARY s 0] by (simp add: FromStringBinary_def FromBinary_read radix_def)

lemma FromStringDecimal_eq: "FromStringDecimal s = (read_string DECIMAL s 0 :: 'w::len word res)"
  using loop_read_string [of DECIMAL s 0] by (simp add: FromStringDecimal_def FromDecimal_read radix_def)

lemma FromHex_eq: "FromHex c0 c1 = (case digit_value HEX c0 of None \<Rightarrow> Inl (digit_error HEX)
    | Some d0 \<Rightarrow> (case digit_value HEX c1 of None \<Rightarrow> Inl (digit_error HEX) | Some d1 \<Rightarrow> Inr (of_nat (d0 * 16 + d1))))"
  by (simp add: FromHex_def hex_digit_read push_bit_eq_mult split: option.splits)

lemma hex_loop_eq: "even (length s) \<Longrightarrow> hex_loop s (of_nat a) = (read_string HEX s a :: 'w::len word res)"
proof (induction s arbitrary: a rule: induct_list012)
  case (3 c0 c1 s)
  show ?case
  proof (cases "digit_value HEX c0 = None \<or> digit_value HEX c1 = None")
    case True
    then show ?thesis by (auto simp: FromHex_eq read_string_simps Let_def split: option.splits)
  next
    case False
    then obtain d0 d1 where d: "digit_value HEX c0 = Some d0" "digit_value HEX c1 = Some d1" by auto
    have "d0 < 16" "d1 < 16" using digit_value_less [OF d(1)] digit_value_less [OF d(2)] by (simp_all add: radix_def)
    then have "ucast (of_nat (d0 * 16 + d1) :: 32 word) = (of_nat (d0 * 16 + d1) :: 'w word)" by (intro ucast_digit) simp
    then have "of_nat a * 256 + ucast (of_nat (d0 * 16 + d1) :: 32 word) = (of_nat ((a * 16 + d0) * 16 + d1) :: 'w word)"
      by (simp add: algebra_simps)
    moreover have "hex_loop s (of_nat ((a * 16 + d0) * 16 + d1)) = (read_string HEX s ((a * 16 + d0) * 16 + d1) :: 'w word res)"
      by (rule 3) (use 3(3) in simp)
    ultimately show ?thesis using d by (simp add: FromHex_eq read_string_simps Let_def radix_def del: of_nat_add of_nat_mult)
  qed
qed (simp_all add: read_string_simps)

lemma FromStringHex_eq:
  "FromStringHex s = (if odd (length s) then Inl (Invalid_argument ''odd-length hex string'') else read_string HEX s 0 :: 'w::len word res)"
  using hex_loop_eq [of s 0] by (cases "even (length s)") (simp_all only: FromStringHex_def even_iff_mod_2_eq_zero odd_iff_mod_2_eq_one, simp_all)

text \<open>Shifted parts do not overlap, so the disjunctions are sums.\<close>

lemma or_small:
  fixes x y :: nat
  assumes "y < 2 ^ k" "x < 2 ^ m" "m + k \<le> 32"
  shows "push_bit k (of_nat x) OR of_nat y = (of_nat (x * 2 ^ k + y) :: 32 word)"
proof -
  have "\<forall>j. bit (of_nat y :: 32 word) j \<longrightarrow> j < k"
  proof -
    have "take_bit k y = y" using assms(1) by (simp add: take_bit_nat_eq_self)
    then have "bit y j \<longrightarrow> j < k" for j by (metis bit_take_bit_iff)
    then show ?thesis by (simp add: bit_of_nat_iff)
  qed
  then have "push_bit k (of_nat x) AND of_nat y = (0 :: 32 word)"
    by (intro bit_word_eqI) (fastforce simp: bit_and_iff bit_push_bit_iff)
  then have "push_bit k (of_nat x) OR of_nat y = (push_bit k (of_nat x) + of_nat y :: 32 word)"
    by (rule disjunctive_add_eq_or [symmetric])
  then show ?thesis by (simp add: push_bit_eq_mult)
qed

lemma unat_eq_of_nat: "unat w = n \<Longrightarrow> w = of_nat n"
  by auto

lemma small_bits: "d < 64 \<Longrightarrow> drop_bit k (of_nat d :: 32 word) = of_nat (d div 2 ^ k)"
  "d < 64 \<Longrightarrow> (of_nat d :: 32 word) AND 0x0F = of_nat (d mod 16)" "d < 64 \<Longrightarrow> (of_nat d :: 32 word) AND 0x03 = of_nat (d mod 4)"
proof -
  assume d: "d < 64"
  have self: "take_bit 32 d = d" using d by (simp add: take_bit_nat_eq_self)
  show "drop_bit k (of_nat d :: 32 word) = of_nat (d div 2 ^ k)"
  proof (rule unat_eq_of_nat)
    have "unat (of_nat d :: 32 word) = d" by (simp add: unsigned_of_nat self)
    then show "unat (drop_bit k (of_nat d :: 32 word)) = d div 2 ^ k"
      unfolding unsigned_drop_bit_eq by (simp add: self drop_bit_eq_div)
  qed
  have u: "unat (of_nat d :: 32 word) = d" by (simp add: unsigned_of_nat self)
  show "(of_nat d :: 32 word) AND 0x0F = of_nat (d mod 16)"
    using take_bit_eq_mask [of 4 d] by (intro unat_eq_of_nat) (simp add: unsigned_and_eq u mask_eq_exp_minus_1 take_bit_eq_mod)
  show "(of_nat d :: 32 word) AND 0x03 = of_nat (d mod 4)"
    using take_bit_eq_mask [of 2 d] by (intro unat_eq_of_nat) (simp add: unsigned_and_eq u mask_eq_exp_minus_1 take_bit_eq_mod)
qed

lemma FromBase64_eq: "FromBase64 c = (case digit_value BASE64 c of Some d \<Rightarrow> Inr (of_nat d) | None \<Rightarrow> Inl (digit_error BASE64))"
  by (simp add: FromBase64_read read_digit_def)

lemma base64_group:
  fixes t :: "'w::len word"
  assumes "d0 < 64" "d1 < 64" "d2 < 64" "d3 < 64"
  shows "push_bit 8 (push_bit 8 (push_bit 8 (of_nat a) + ucast (push_bit 2 (of_nat d0) OR drop_bit 4 (of_nat d1) :: 32 word))
        + ucast (push_bit 4 (of_nat d1 AND 0x0F) OR drop_bit 2 (of_nat d2) :: 32 word))
      + ucast (push_bit 6 (of_nat d2 AND 0x03) OR of_nat d3 :: 32 word)
    = (of_nat ((((a * 64 + d0) * 64 + d1) * 64 + d2) * 64 + d3) :: 'w word)"
proof -
  have q: "d1 div 16 < 4" "d2 div 4 < 16" "d1 mod 16 < 16" "d2 mod 4 < 4" using assms by (simp_all add: less_mult_imp_div_less)
  have p0: "push_bit 2 (of_nat d0) OR drop_bit 4 (of_nat d1) = (of_nat (d0 * 4 + d1 div 16) :: 32 word)"
    using or_small [of "d1 div 16" 2 d0 6] assms by (simp add: small_bits less_mult_imp_div_less)
  have p1: "push_bit 4 (of_nat d1 AND 0x0F) OR drop_bit 2 (of_nat d2) = (of_nat (d1 mod 16 * 16 + d2 div 4) :: 32 word)"
    using or_small [of "d2 div 4" 4 "d1 mod 16" 4] assms by (simp add: small_bits less_mult_imp_div_less)
  have p2: "push_bit 6 (of_nat d2 AND 0x03) OR of_nat d3 = (of_nat (d2 mod 4 * 64 + d3) :: 32 word)"
    using or_small [of d3 6 "d2 mod 4" 2] assms by (simp add: small_bits)
  have "d0 * 4 + d1 div 16 < 256" "d1 mod 16 * 16 + d2 div 4 < 256" "d2 mod 4 * 64 + d3 < 256" using assms q by linarith+
  then have u: "ucast (of_nat (d0 * 4 + d1 div 16) :: 32 word) = (of_nat (d0 * 4 + d1 div 16) :: 'w word)"
    "ucast (of_nat (d1 mod 16 * 16 + d2 div 4) :: 32 word) = (of_nat (d1 mod 16 * 16 + d2 div 4) :: 'w word)"
    "ucast (of_nat (d2 mod 4 * 64 + d3) :: 32 word) = (of_nat (d2 mod 4 * 64 + d3) :: 'w word)"
    by (intro ucast_digit; simp)+
  have arith: "(((a * 256 + (d0 * 4 + d1 div 16)) * 256 + (d1 mod 16 * 16 + d2 div 4)) * 256 + (d2 mod 4 * 64 + d3))
      = ((((a * 64 + d0) * 64 + d1) * 64 + d2) * 64 + d3)"
  proof -
    have "((a * 256 + (d0 * 4 + q1)) * 256 + (r1 * 16 + q2)) * 256 + (r2 * 64 + d3)
        = (((a * 64 + d0) * 64 + (q1 * 16 + r1)) * 64 + (q2 * 4 + r2)) * 64 + d3" for q1 r1 q2 r2 by simp
    from this [of "d1 div 16" "d1 mod 16" "d2 div 4" "d2 mod 4"] show ?thesis by (simp only: div_mult_mod_eq)
  qed
  have push: "push_bit 8 (of_nat n) = (of_nat (n * 256) :: 'w word)" for n by (simp add: push_bit_eq_mult)
  show ?thesis unfolding p0 p1 p2 u by (simp only: push of_nat_add [symmetric] arith)
qed

lemma base64_loop_eq:
  "length s mod 4 = 0 \<Longrightarrow> base64_loop s (of_nat a) = (read_string BASE64 s a :: 'w::len word res)"
proof (induction "length s" arbitrary: s a rule: less_induct)
  case less
  consider "s = []" | s0 s1 s2 s3 r where "s = s0 # s1 # s2 # s3 # r"
  proof -
    have "s = [] \<or> 4 \<le> length s" using less.prems by (cases s) (simp_all, presburger)
    then show ?thesis using that by (cases s; cases "tl s"; cases "tl (tl s)"; cases "tl (tl (tl s))") auto
  qed
  then show ?case
  proof cases
    case 1
    then show ?thesis by (simp add: read_string_simps)
  next
    case 2
    have IH: "base64_loop r (of_nat b) = (read_string BASE64 r b :: 'w word res)" for b
      by (rule less.hyps) (use less.prems 2 in simp_all)
    show ?thesis
    proof (cases "digit_value BASE64 s0 = None \<or> digit_value BASE64 s1 = None \<or> digit_value BASE64 s2 = None \<or> digit_value BASE64 s3 = None")
      case True
      then show ?thesis by (auto simp: 2 FromBase64_eq read_string_simps split: option.splits)
    next
      case False
      then obtain d0 d1 d2 d3 where d: "digit_value BASE64 s0 = Some d0" "digit_value BASE64 s1 = Some d1"
        "digit_value BASE64 s2 = Some d2" "digit_value BASE64 s3 = Some d3" by auto
      have "d0 < 64" "d1 < 64" "d2 < 64" "d3 < 64"
        using digit_value_less [OF d(1)] digit_value_less [OF d(2)] digit_value_less [OF d(3)] digit_value_less [OF d(4)] by (simp_all add: radix_def)
      note group = base64_group [OF this, of a, where ?'w = 'w]
      show ?thesis
        unfolding 2 base64_loop.simps FromBase64_eq d option.case bindE_simps Let_def group IH
        by (simp only: read_string_simps d option.case radix_def NumberBase.case)
    qed
  qed
qed

lemma FromStringBase64_eq:
  assumes "length s mod 4 = 0" "s \<noteq> []" "last s \<noteq> CHR ''=''"
  shows "FromStringBase64 s = (read_string BASE64 s 0 :: 'w::len word res)"
proof -
  have "bindE m Inr = m" for m :: "'w word res" by (cases m) simp_all
  then show ?thesis
    using base64_loop_eq [OF assms(1), of 0, where ?'w = 'w] assms by (auto simp: FromStringBase64_def Let_def last_conv_nth)
qed

section \<open>Printing\<close>

lemma digit_decimal: "d < 10 \<Longrightarrow> digit_value DECIMAL (digit d) = Some d"
  by (simp add: digit_value_def first_digit_def char_range_def digit_def Let_def of_char_of)

lemma string_value_append: "string_value base (xs @ ys) a = string_value base ys (string_value base xs a)"
  by (simp add: string_value_def)

lemma print_decimal_value: "all_digits DECIMAL (print_decimal n) \<and> string_value DECIMAL (print_decimal n) 0 = n"
proof (induction n rule: print_decimal.induct)
  case (1 n)
  have one: "string_value DECIMAL [digit d] a = a * 10 + d" "all_digits DECIMAL [digit d]" if "d < 10" for a d
    using digit_decimal [OF that] by (simp_all add: string_value_def all_digits_def radix_def)
  show ?case
  proof (cases "n < 10")
    case True
    then show ?thesis using one(1) [of n 0] one(2) [of n] by (simp add: print_decimal.simps [of n])
  next
    case False
    have p: "print_decimal n = print_decimal (n div 10) @ [digit (n mod 10)]" using False by (simp add: print_decimal.simps [of n])
    have "string_value DECIMAL (print_decimal n) 0 = n div 10 * 10 + n mod 10"
      using 1 [OF False] one(1) [of "n mod 10"] by (simp only: p string_value_append)
    moreover have "all_digits DECIMAL (print_decimal n)"
      using 1 [OF False] one(2) [of "n mod 10"] by (auto simp: p all_digits_def)
    ultimately show ?thesis by simp
  qed
qed

lemma FromString_print: "FromStringDecimal (print_decimal (unat v)) = Inr (v :: 'w::len word)"
  using print_decimal_value [of "unat v"] by (simp add: FromStringDecimal_eq read_string_def)

lemma print_reversed_eq: "w \<noteq> 0 \<Longrightarrow> print_reversed w ss = ss @ rev (print_decimal (unat w))"
proof (induction w ss rule: print_reversed.induct)
  case (1 w ss)
  have u: "unat (w div 10) = unat w div 10" "unat (w mod 10) = unat w mod 10" by (simp_all add: unat_div unat_mod)
  have low: "print_decimal (unat w mod 10) = [digit (unat w mod 10)]" by (simp add: print_decimal.simps [of "unat w mod 10"])
  have step: "print_reversed w ss = print_reversed (w div 10) (ss @ [digit (unat w mod 10)])"
    using 1(2) by (simp add: print_reversed.simps [of w ss] u low)
  show ?case
  proof (cases "w div 10 = 0")
    case True
    then have "unat w div 10 = 0" using u(1) by simp
    then have n: "unat w < 10" by simp
    have "print_reversed (w div 10) ss' = ss'" for ss' by (simp only: True print_reversed.simps [of 0]) simp
    then show ?thesis using n unfolding step by (simp add: print_decimal.simps [of "unat w"])
  next
    case False
    then have "unat w div 10 \<noteq> 0" using u(1) by (metis unat_eq_zero)
    then have n: "\<not> unat w < 10" by simp
    have "print_reversed (w div 10) (ss @ print_decimal (unat (w mod 10))) = (ss @ print_decimal (unat (w mod 10))) @ rev (print_decimal (unat (w div 10)))"
      by (rule 1(1) [OF 1(2) False])
    then have "print_reversed (w div 10) (ss @ [digit (unat w mod 10)]) = (ss @ [digit (unat w mod 10)]) @ rev (print_decimal (unat w div 10))"
      unfolding u low .
    then show ?thesis using n unfolding step by (simp add: print_decimal.simps [of "unat w"])
  qed
qed

lemma digit_0: "digit 0 = CHR ''0''"
  by code_simp

lemma ToString128_eq: "ToString128 v = print_decimal (unat v)"
proof (cases "v = 0")
  case True
  then show ?thesis by (simp add: ToString128_def print_decimal.simps [of 0] digit_0)
next
  case False
  then show ?thesis by (simp add: ToString128_def Let_def print_reversed_eq)
qed

section \<open>Properties\<close>


text \<open>\<open>FF::FromString\<close> does not reduce: the decimal string of the modulus gives a value that is not canonical, and so not equal to zero.\<close>

lemma FF61_FromString_not_reduced:
  "FF61_FromString_decimal (ToString61 p61) = Inr p61 \<and> \<not> p61 < p61 \<and> \<not> Equal61 p61 0"
  using FromString_print [of p61]
  by (simp add: FF61_FromString_decimal_def FF61_FromString_def FromString61_def FromStringSimpleType_def ToString61_def ToString64_def
      Equal61_def EqualSimpleType_def p61_def)

end
