(* ===== verification/Mersenne127.thy ===== *)
theory Mersenne127
  imports NumStrings
begin

text \<open>
  The field \<open>FiniteField<NamedField::Mersenne127>\<close> (\<open>scl/math/fields/mersenne127.cc\<close>), the type parameter
  of \<open>FF<127>\<close>: the raw operations on \<open>__uint128_t\<close> values (\<open>128 word\<close>) compute modulo \<open>p = 2^127 - 1\<close>
  on canonical representatives. A product has 254 bits, which the code puts together from four
  64-bit products. The modulus is prime, by a certificate as for \<open>2^61 - 1\<close>.
\<close>

section \<open>The modulus is prime\<close>

lemma trial_649657: "is_prime 649657"
proof (rule trial_is_prime)
  show "trial (int 649657) 807" unfolding of_nat_numeral by code_simp
qed

lemma small_primes_127: "is_prime 92737" "is_prime 5419" "is_prime 337" "is_prime 127"
proof -
  have "trial (int 92737) 305" "trial (int 5419) 74" "trial (int 337) 19" "trial (int 127) 12"
    unfolding of_nat_numeral by code_simp+
  then show "is_prime 92737" "is_prime 5419" "is_prime 337" "is_prime 127"
    by (blast dest: trial_is_prime)+
qed

lemma cert_127_a: "cert_step 127 3 649657 58521024311718766171606481931475363244" by code_simp
lemma cert_127_b: "cert_step 127 3 92737 141899323343967763829894105985566179829" by code_simp
lemma cert_127_c: "cert_step 127 3 5419 98952394820600442919124564921781805327" by code_simp
lemma cert_127_d: "cert_step 127 3 337 110103390783158745583792917372794424523" by code_simp
lemma cert_127_e: "cert_step 127 3 127 5488341524916963360354409925121738817" by code_simp

lemma powmod_127: "powmod 127 3 (bits_of 127 (2 ^ 127 - 2)) mod (2 ^ 127 - 1) = 1" by code_simp

lemma prime_127: "is_prime (2 ^ 127 - 1)"
proof (rule certificate)
  let ?qs = "[(649657, 58521024311718766171606481931475363244), (92737, 141899323343967763829894105985566179829),
    (5419, 98952394820600442919124564921781805327), (337, 110103390783158745583792917372794424523),
    (127, 5488341524916963360354409925121738817)] :: (nat \<times> int) list"
  show "\<forall>(q, i) \<in> set ?qs. is_prime q \<and> cert_step 127 (int 3) (int q) i"
    using cert_127_a cert_127_b cert_127_c cert_127_d cert_127_e small_primes_127 trial_649657 by simp
  show "powmod 127 (int 3) (bits_of 127 (2 ^ 127 - 2)) mod (2 ^ 127 - 1) = 1"
    unfolding of_nat_numeral by (rule powmod_127)
qed simp_all

section \<open>The raw operations\<close>

definition p127 :: u128 where
  "p127 = push_bit 64 0x7FFFFFFFFFFFFFFF OR 0xFFFFFFFFFFFFFFFF"

definition FromInt127 :: "int \<Rightarrow> u128" where
  "FromInt127 v = (if v < 0 then word_of_int v + p127 else word_of_int v)"

definition Add127 :: "u128 \<Rightarrow> u128 \<Rightarrow> u128" where
  "Add127 t v = AddSimpleType t v p127"

definition Subtract127 :: "u128 \<Rightarrow> u128 \<Rightarrow> u128" where
  "Subtract127 t v = SubtractSimpleType t v p127"

definition Negate127 :: "u128 \<Rightarrow> u128" where
  "Negate127 t = NegateSimpleType t p127"

definition Equal127 :: "u128 \<Rightarrow> u128 \<Rightarrow> bool" where
  "Equal127 a b = EqualSimpleType a b"

definition Invert127 :: "u128 \<Rightarrow> u128 res" where
  "Invert127 t = InverseModPrimeSimpleType t p127"

record u256 =
  u_high :: u128
  u_low :: u128

definition MultiplyFull :: "u128 \<Rightarrow> u128 \<Rightarrow> u256" where
  "MultiplyFull x y =
     (let a = (ucast (drop_bit 64 x) :: u64); b = (ucast x :: u64);
          c = (ucast (drop_bit 64 y) :: u64); d = (ucast y :: u64);
          ac = (ucast a :: u128) * ucast c; ad = (ucast a :: u128) * ucast d;
          bc = (ucast b :: u128) * ucast c; bd = (ucast b :: u128) * ucast d;
          carry = (ucast (ucast ad :: u64) :: u128) + ucast (ucast bc :: u64) + drop_bit 64 bd
      in \<lparr> u_high = ac + drop_bit 64 ad + drop_bit 64 bc + drop_bit 64 carry,
           u_low = push_bit 64 ad + push_bit 64 bc + bd \<rparr>)"

definition Multiply127 :: "u128 \<Rightarrow> u128 \<Rightarrow> u128" where
  "Multiply127 t v =
     (let z = MultiplyFull t v;
          t = push_bit 1 (u_high z);
          b = u_low z;
          t = t OR drop_bit 127 b;
          b = b AND p127
      in Add127 t b)"

definition FromBytes127 :: "8 word list \<Rightarrow> u128 res" where
  "FromBytes127 src =
     throw_if (length src < 16) Undefined (Inr (le_word (take 16 src) mod p127))"

definition ToBytes127 :: "u128 \<Rightarrow> 8 word list" where
  "ToBytes127 src = le_bytes 16 src"

definition FromString127 :: "string \<Rightarrow> NumberBase \<Rightarrow> u128 res" where
  "FromString127 str base = FromStringSimpleType str base"

definition ToString127 :: "u128 \<Rightarrow> string" where
  "ToString127 v = ToString128 v"

section \<open>The full product\<close>

lemma uint_p127: "uint p127 = 2 ^ 127 - 1"
  by (simp add: p127_def)

lemma uint_high_bits: "uint (drop_bit n x) = uint (x :: u128) div 2 ^ n"
  using uint_lt2p [of x] by (simp only: unsigned_drop_bit_eq drop_bit_eq_div [where 'a = int]) (simp add: take_bit_int_eq_self)

lemma half_words: "uint (ucast (drop_bit 64 x) :: u64) = uint (x :: u128) div 2 ^ 64"
  "uint (ucast x :: u64) = uint (x :: u128) mod 2 ^ 64"
proof -
  have "uint x div 2 ^ 64 < 2 ^ 64" using uint_lt2p [of x] by (simp add: div_less_iff_less_mult)
  then show "uint (ucast (drop_bit 64 x) :: u64) = uint x div 2 ^ 64"
    by (simp only: unsigned_ucast_eq uint_high_bits) (simp add: take_bit_int_eq_self pos_imp_zdiv_nonneg_iff)
  show "uint (ucast x :: u64) = uint x mod 2 ^ 64" by (simp add: unsigned_ucast_eq take_bit_eq_mod)
qed

lemma uint_up: "uint (ucast (w :: u64) :: u128) = uint w"
  using uint_lt2p [of w] by (simp add: unsigned_ucast_eq take_bit_int_eq_self)

lemma wide_product: "uint ((ucast (a :: u64) :: u128) * ucast (c :: u64)) = uint a * uint c"
proof -
  have "uint a * uint c \<le> (2 ^ 64 - 1) * (2 ^ 64 - 1)"
    using uint_lt2p [of a] uint_lt2p [of c] by (intro mult_mono) simp_all
  then have "uint a * uint c < 2 ^ 128" by simp
  then show ?thesis by (simp add: uint_word_ariths uint_up mod_pos_pos_trivial)
qed

lemma uint_push: "uint (push_bit n (w :: u128)) = uint w * 2 ^ n mod 2 ^ 128"
  by (simp add: unsigned_push_bit_eq push_bit_eq_mult [where 'a = int] take_bit_eq_mod del: push_bit_eq_mult)

lemma small_sum: "uint x + uint y < 2 ^ 128 \<Longrightarrow> uint (x + y :: u128) = uint x + uint y"
  by (simp add: uint_word_ariths mod_pos_pos_trivial)

lemma small_sum3:
  assumes "uint (x :: u128) = p" "uint (y :: u128) = q" "uint (z :: u128) = r" "p < 2 ^ 64" "q < 2 ^ 64" "r < 2 ^ 64"
  shows "uint (x + y + z) = p + q + r"
proof -
  have "uint x + uint y < 2 ^ 128" "uint x + uint y + uint z < 2 ^ 128" using assms by simp_all
  then show ?thesis using small_sum [of x y] small_sum [of "x + y" z] assms(1-3) by simp
qed

lemma small_sum4:
  assumes "uint (x :: u128) = p" "uint (y :: u128) = q" "uint (z :: u128) = r" "uint (w :: u128) = s" "p + q + r + s < 2 ^ 128"
  shows "uint (x + y + z + w) = p + q + r + s"
proof -
  have "uint x + uint y < 2 ^ 128" "uint x + uint y + uint z < 2 ^ 128" "uint x + uint y + uint z + uint w < 2 ^ 128"
    using assms uint_ge_0 [of z] uint_ge_0 [of w] by linarith+
  then show ?thesis using small_sum [of x y] small_sum [of "x + y" z] small_sum [of "x + y + z" w] assms(1-4) by simp
qed

lemma low_sum: "uint (push_bit 64 u + push_bit 64 v + w :: u128) = (uint u * 2 ^ 64 + uint v * 2 ^ 64 + uint w) mod 2 ^ 128"
  by (simp add: uint_word_ariths uint_push mod_simps)

lemma div_split: "0 \<le> R \<Longrightarrow> R < m \<Longrightarrow> (E * m + R) div m = (E :: int)"
  by simp

lemma carry_split:
  fixes B :: int
  assumes "P = P1 * B + P0" "Q = Q1 * B + Q0" "S = S1 * B + S0" "P0 + Q0 + S1 = C1 * B + C0"
  shows "G * (B * B) + (P + Q) * B + S = (G + P1 + Q1 + C1) * (B * B) + C0 * B + S0"
proof -
  have "(P + Q) * B + S = (P1 + Q1) * (B * B) + (P0 + Q0 + S1) * B + S0" by (simp add: assms(1-3) algebra_simps)
  then show ?thesis unfolding assms(4) by (simp add: algebra_simps)
qed

lemma MultiplyFull_correct:
  "uint (u_high (MultiplyFull x y)) = uint x * uint y div 2 ^ 128"
  "uint (u_low (MultiplyFull x y)) = uint x * uint y mod 2 ^ 128"
proof -
  define a b c d where "a = uint x div 2 ^ 64" "b = uint x mod 2 ^ 64" "c = uint y div 2 ^ 64" "d = uint y mod 2 ^ 64"
  note abcd = this
  have XY: "uint x = a * 2 ^ 64 + b" "uint y = c * 2 ^ 64 + d" by (simp_all add: abcd)
  have prod: "uint x * uint y = a * c * 2 ^ 128 + (a * d + b * c) * 2 ^ 64 + b * d"
    unfolding XY by (simp add: algebra_simps)
  have nn: "0 \<le> a" "0 \<le> b" "0 \<le> c" "0 \<le> d" by (simp_all add: abcd pos_imp_zdiv_nonneg_iff)
  let ?A = "(ucast (ucast (drop_bit 64 x) :: u64) :: u128)" and ?B = "(ucast (ucast x :: u64) :: u128)"
  let ?C = "(ucast (ucast (drop_bit 64 y) :: u64) :: u128)" and ?D = "(ucast (ucast y :: u64) :: u128)"
  have w: "uint (?A * ?C) = a * c" "uint (?A * ?D) = a * d" "uint (?B * ?C) = b * c" "uint (?B * ?D) = b * d"
    unfolding wide_product half_words(1) unfolding half_words(2) abcd by (rule refl)+
  let ?carry = "(ucast (ucast (?A * ?D) :: u64) :: u128) + ucast (ucast (?B * ?C) :: u64) + drop_bit 64 (?B * ?D)"
  let ?E = "a * c + a * d div 2 ^ 64 + b * c div 2 ^ 64 + (a * d mod 2 ^ 64 + b * c mod 2 ^ 64 + b * d div 2 ^ 64) div 2 ^ 64"
  let ?R = "(a * d mod 2 ^ 64 + b * c mod 2 ^ 64 + b * d div 2 ^ 64) mod 2 ^ 64 * 2 ^ 64 + b * d mod 2 ^ 64"
  have "b * d < 2 ^ 128" using uint_lt2p [of "?B * ?D"] w(4) by simp
  then have bd: "b * d div 2 ^ 64 < 2 ^ 64" by (simp add: div_less_iff_less_mult)
  have m: "a * d mod 2 ^ 64 < 2 ^ 64" "b * c mod 2 ^ 64 < 2 ^ 64" "0 \<le> a * d mod 2 ^ 64" "0 \<le> b * c mod 2 ^ 64" "0 \<le> b * d div 2 ^ 64"
    using nn by (simp_all add: pos_imp_zdiv_nonneg_iff)
  have parts: "uint (ucast (ucast (?A * ?D) :: u64) :: u128) = a * d mod 2 ^ 64"
    "uint (ucast (ucast (?B * ?C) :: u64) :: u128) = b * c mod 2 ^ 64" "uint (drop_bit 64 (?B * ?D)) = b * d div 2 ^ 64"
    by (simp_all only: uint_up half_words(2) uint_high_bits w)
  have carry: "uint ?carry = a * d mod 2 ^ 64 + b * c mod 2 ^ 64 + b * d div 2 ^ 64"
    by (rule small_sum3 [OF parts m(1,2) bd])
  have split: "z = z div 2 ^ 64 * 2 ^ 64 + z mod 2 ^ 64" for z :: int by (simp add: div_mult_mod_eq)
  have "a * c * (2 ^ 64 * 2 ^ 64) + (a * d + b * c) * 2 ^ 64 + b * d = ?E * (2 ^ 64 * 2 ^ 64) + ?R"
    unfolding add.assoc [of _ _ "b * d mod 2 ^ 64", symmetric]
    by (rule carry_split [OF split split split split])
  then have XY': "uint x * uint y = ?E * 2 ^ 128 + ?R" unfolding prod by simp
  have "0 \<le> u mod 2 ^ 64 * 2 ^ 64 + v mod 2 ^ 64" for u v :: int by simp
  then have R0: "0 \<le> ?R" .
  have R: "?R < 2 ^ 128"
  proof -
    have bnd: "u * 2 ^ 64 + v < 2 ^ 128" if "u < 2 ^ 64" "v < 2 ^ 64" for u v :: int using that by simp
    show "?R < 2 ^ 128" by (rule bnd) (rule pos_mod_bound, simp)+
  qed
  have E: "?E = uint x * uint y div 2 ^ 128" unfolding XY' by (rule div_split [OF R0 R, symmetric])
  have "uint x * uint y \<le> (2 ^ 128 - 1) * (2 ^ 128 - 1)"
    using uint_lt2p [of x] uint_lt2p [of y] by (intro mult_mono) simp_all
  then have lt: "?E < 2 ^ 128" unfolding E by (simp add: div_less_iff_less_mult)
  have "uint (drop_bit 64 (?A * ?D)) = a * d div 2 ^ 64" "uint (drop_bit 64 (?B * ?C)) = b * c div 2 ^ 64"
    "uint (drop_bit 64 ?carry) = (a * d mod 2 ^ 64 + b * c mod 2 ^ 64 + b * d div 2 ^ 64) div 2 ^ 64"
    by (simp_all only: uint_high_bits w carry)
  from small_sum4 [OF w(1) this lt] have "uint (?A * ?C + drop_bit 64 (?A * ?D) + drop_bit 64 (?B * ?C) + drop_bit 64 ?carry)
      = uint x * uint y div 2 ^ 128" unfolding E .
  then show "uint (u_high (MultiplyFull x y)) = uint x * uint y div 2 ^ 128"
    by (simp only: MultiplyFull_def Let_def u256.simps)
  have "uint (u_low (MultiplyFull x y)) = (a * d * 2 ^ 64 + b * c * 2 ^ 64 + b * d) mod 2 ^ 128"
    by (simp only: MultiplyFull_def Let_def u256.simps low_sum w)
  also have "\<dots> = (a * c * 2 ^ 128 + (a * d * 2 ^ 64 + b * c * 2 ^ 64 + b * d)) mod 2 ^ 128" by simp
  also have "\<dots> = uint x * uint y mod 2 ^ 128" unfolding prod by (simp add: algebra_simps)
  finally show "uint (u_low (MultiplyFull x y)) = uint x * uint y mod 2 ^ 128" .
qed

section \<open>Correctness on canonical values\<close>

lemma small_p127: "small_modulus p127"
  by (simp add: small_modulus_def uint_p127)

lemma canonical127_iff: "t < p127 \<longleftrightarrow> uint t < 2 ^ 127 - 1"
  by (simp add: word_less_def uint_p127)

lemma Add127_uint: "t < p127 \<Longrightarrow> v < p127 \<Longrightarrow> uint (Add127 t v) = (uint t + uint v) mod (2 ^ 127 - 1)"
  using AddSimpleType_uint [OF small_p127, of t v] by (simp add: Add127_def canonical127_iff uint_p127)

lemma Subtract127_uint: "t < p127 \<Longrightarrow> v < p127 \<Longrightarrow> uint (Subtract127 t v) = (uint t - uint v) mod (2 ^ 127 - 1)"
  using SubtractSimpleType_uint [OF small_p127, of t v] by (simp add: Subtract127_def canonical127_iff uint_p127)

lemma Negate127_uint: "t < p127 \<Longrightarrow> uint (Negate127 t) = (- uint t) mod (2 ^ 127 - 1)"
  using NegateSimpleType_uint [OF small_p127, of t] by (simp add: Negate127_def canonical127_iff uint_p127)

lemma Multiply127_parts:
  fixes t v :: u128
  defines "Z \<equiv> uint t * uint v"
  assumes t: "t < p127" and v: "v < p127"
  shows "uint (push_bit 1 (u_high (MultiplyFull t v)) OR drop_bit 127 (u_low (MultiplyFull t v))) = Z div 2 ^ 127"
    and "uint (u_low (MultiplyFull t v) AND p127) = Z mod 2 ^ 127"
    and "0 \<le> Z" "Z \<le> (2 ^ 127 - 2) * (2 ^ 127 - 2)"
proof -
  have t': "uint t \<le> 2 ^ 127 - 2" and v': "uint v \<le> 2 ^ 127 - 2" using t v by (simp_all add: canonical127_iff)
  show Z0: "0 \<le> Z" by (simp add: Z_def)
  show Zb: "Z \<le> (2 ^ 127 - 2) * (2 ^ 127 - 2)" unfolding Z_def by (rule mult_mono [OF t' v']) simp_all
  let ?h = "u_high (MultiplyFull t v)" and ?l = "u_low (MultiplyFull t v)"
  have h: "uint ?h = Z div 2 ^ 128" and l: "uint ?l = Z mod 2 ^ 128" by (simp_all only: MultiplyFull_correct Z_def)
  have "Z div 2 ^ 128 < 2 ^ 127" using Zb Z0 by (simp add: div_less_iff_less_mult)
  then have h2: "uint (push_bit 1 ?h) = Z div 2 ^ 128 * 2"
    unfolding uint_push h using Z0 by (simp add: mod_pos_pos_trivial pos_imp_zdiv_nonneg_iff)
  have l2: "uint (drop_bit 127 ?l) = Z mod 2 ^ 128 div 2 ^ 127" by (simp only: uint_high_bits l)
  have "\<not> (bit (push_bit 1 ?h) n \<and> bit (drop_bit 127 ?l) n)" for n
    using bit_imp_le_length [of ?l "127 + n"] by (cases n) (auto simp: bit_push_bit_iff bit_drop_bit_eq simp del: push_bit_Suc)
  then have "push_bit 1 ?h AND drop_bit 127 ?l = 0" by (intro bit_word_eqI) (simp only: bit_and_iff bit_0_eq bot_apply bot_bool_def)
  then have or: "push_bit 1 ?h OR drop_bit 127 ?l = push_bit 1 ?h + drop_bit 127 ?l"
    by (rule disjunctive_add_eq_or [symmetric])
  have Z: "Z div 2 ^ 127 = Z div 2 ^ 128 * 2 + Z mod 2 ^ 128 div 2 ^ 127"
  proof -
    have "Z = Z div 2 ^ 128 * 2 * 2 ^ 127 + Z mod 2 ^ 128" using div_mult_mod_eq [of Z "2 ^ 128"] by simp
    then have "Z div 2 ^ 127 = (Z div 2 ^ 128 * 2 * 2 ^ 127 + Z mod 2 ^ 128) div 2 ^ 127" by (rule arg_cong)
    also have "\<dots> = Z div 2 ^ 128 * 2 + Z mod 2 ^ 128 div 2 ^ 127" by (rule div_mult_self3) simp
    finally show ?thesis .
  qed
  have "Z div 2 ^ 127 < 2 ^ 128" using Zb Z0 by (simp add: div_less_iff_less_mult)
  then have "uint (push_bit 1 ?h) + uint (drop_bit 127 ?l) < 2 ^ 128" unfolding h2 l2 Z [symmetric] .
  then show "uint (push_bit 1 ?h OR drop_bit 127 ?l) = Z div 2 ^ 127" unfolding or using small_sum h2 l2 Z by simp
  have "p127 = mask 127" by (simp add: p127_def mask_eq_exp_minus_1)
  then have "?l AND p127 = take_bit 127 ?l" by (simp only: take_bit_eq_mask)
  then have "uint (?l AND p127) = take_bit 127 (uint ?l)" by (simp only: unsigned_take_bit_eq)
  also have "\<dots> = Z mod 2 ^ 127"
    unfolding l take_bit_eq_mod by (rule mod_mod_cancel) (simp add: le_imp_power_dvd)
  finally show "uint (?l AND p127) = Z mod 2 ^ 127" .
qed

lemma Multiply127_uint:
  assumes t: "t < p127" and v: "v < p127"
  shows "uint (Multiply127 t v) = uint t * uint v mod (2 ^ 127 - 1)"
proof -
  define Z where "Z = uint t * uint v"
  note parts = Multiply127_parts [OF t v, folded Z_def]
  let ?a = "push_bit 1 (u_high (MultiplyFull t v)) OR drop_bit 127 (u_low (MultiplyFull t v))"
  let ?b = "u_low (MultiplyFull t v) AND p127"
  have "Z div 2 ^ 127 \<le> (2 ^ 127 - 2) * (2 ^ 127 - 2) div 2 ^ 127" using parts(4) by (rule zdiv_mono1) simp
  then have "Z div 2 ^ 127 \<le> 2 ^ 127 - 4" by simp
  moreover have "Z mod 2 ^ 127 < 2 ^ 127" by simp
  ultimately have "uint ?a + uint ?b < 2 * uint p127" unfolding parts(1,2) uint_p127 by simp
  then have "uint (Add127 ?a ?b) = (Z div 2 ^ 127 + Z mod 2 ^ 127) mod (2 ^ 127 - 1)"
    using AddSimpleType_uint [OF small_p127, of ?a ?b] unfolding Add127_def parts(1,2) uint_p127 by simp
  also have "\<dots> = Z mod (2 ^ 127 - 1)"
  proof -
    have "Z = (2 ^ 127 - 1) * (Z div 2 ^ 127) + (Z div 2 ^ 127 + Z mod 2 ^ 127)"
      using div_mult_mod_eq [of Z "2 ^ 127"] by (simp add: algebra_simps)
    then show ?thesis by (metis mod_mult_self4)
  qed
  finally show ?thesis by (simp only: Multiply127_def Let_def Z_def)
qed

lemma Invert127_correct:
  assumes "t < p127" and "t \<noteq> 0"
  shows "\<exists>u. Invert127 t = Inr u \<and> u < p127 \<and> Multiply127 u t = 1"
proof -
  have pos: "0 < uint t" using assms(2) by (simp add: word_neq_0_conv word_less_def)
  have lt: "uint t < uint p127" using assms(1) by (simp add: word_less_def)
  have "int (unat t) < int (2 ^ 127 - 1)" using lt by (simp add: uint_p127)
  then have "unat t < 2 ^ 127 - 1" by (simp only: of_nat_less_iff)
  moreover have "0 < unat t" using assms(2) by (simp add: unat_gt_0)
  ultimately have "coprime (2 ^ 127 - 1) (unat t)" using is_prime_mod_coprime [OF prime_127] by blast
  then have "coprime (int (2 ^ 127 - 1)) (int (unat t))" by (simp only: coprime_int_iff)
  then have "coprime (uint p127) (uint t)" by (simp add: uint_p127)
  then obtain u where u: "Invert127 t = Inr u" "uint u < uint p127" "uint u * uint t mod uint p127 = 1"
    using InverseModPrimeSimpleType_correct [of p127 t] pos lt by (auto simp: Invert127_def uint_p127)
  then have c: "u < p127" by (simp add: word_less_def)
  have "uint (Multiply127 u t) = 1" using Multiply127_uint [OF c assms(1)] u(3) by (simp add: uint_p127)
  then have "Multiply127 u t = 1" by (simp add: word_uint_eq_iff)
  with u(1) c show ?thesis by blast
qed

lemma FromInt127_uint: "- (2 ^ 31) \<le> v \<Longrightarrow> v < 2 ^ 31 \<Longrightarrow> uint (FromInt127 v) = v mod (2 ^ 127 - 1)"
proof (cases "v < 0")
  case True
  assume v: "- (2 ^ 31) \<le> v" "v < 2 ^ 31"
  have p: "p127 = word_of_int (2 ^ 127 - 1)" by (simp add: word_uint_eq_iff uint_p127 uint_word_of_int)
  have "FromInt127 v = word_of_int (v + (2 ^ 127 - 1))" using True by (simp only: FromInt127_def if_True p wi_hom_add)
  then have "uint (FromInt127 v) = (v + (2 ^ 127 - 1)) mod 2 ^ 128" by (simp only: uint_word_of_int) simp
  also have "\<dots> = v + (2 ^ 127 - 1)" using v True by (intro mod_pos_pos_trivial) simp_all
  also have "\<dots> = (v + (2 ^ 127 - 1)) mod (2 ^ 127 - 1)" using v True by (intro mod_pos_pos_trivial [symmetric]) simp_all
  finally show ?thesis by simp
qed (simp add: FromInt127_def uint_word_of_int mod_pos_pos_trivial)

lemma FromBytes127_ToBytes127: "t < p127 \<Longrightarrow> FromBytes127 (ToBytes127 t) = Inr t"
  by (simp add: FromBytes127_def ToBytes127_def le_word_le_bytes take_bit_word_eq_self word_uint_eq_iff uint_mod canonical127_iff uint_p127)

section \<open>Property\<close>

text \<open>
  C33: the operations of \<open>FF<127>\<close> on canonical 128-bit values are those of the integers modulo the prime
  \<open>2^127 - 1\<close>, and their results are canonical: in particular the 256-bit product, put together from
  four products of halves, loses no carry. \<open>Invert\<close> returns the inverse of every nonzero value
  without overflow and throws for zero; the byte image of a canonical value is read back as itself.
\<close>

theorem Mersenne127_field:
  assumes "t < p127" and "v < p127"
  shows "uint (Add127 t v) = (uint t + uint v) mod (2 ^ 127 - 1)
    \<and> uint (Subtract127 t v) = (uint t - uint v) mod (2 ^ 127 - 1)
    \<and> uint (Multiply127 t v) = uint t * uint v mod (2 ^ 127 - 1)
    \<and> uint (Negate127 t) = (- uint t) mod (2 ^ 127 - 1)
    \<and> Add127 t v < p127 \<and> Subtract127 t v < p127 \<and> Multiply127 t v < p127 \<and> Negate127 t < p127
    \<and> (if t = 0 then Invert127 t = Inl (Logic_error ''0 not invertible modulo prime'')
       else \<exists>u. Invert127 t = Inr u \<and> u < p127 \<and> Multiply127 u t = 1)
    \<and> FromBytes127 (ToBytes127 t) = Inr t"
  using assms Invert127_correct [OF assms(1)]
  by (simp add: Add127_uint Subtract127_uint Multiply127_uint Negate127_uint canonical127_iff [of "Add127 t v"] canonical127_iff [of "Subtract127 t v"]
      canonical127_iff [of "Multiply127 t v"] canonical127_iff [of "Negate127 t"] FromBytes127_ToBytes127 Invert127_def InverseModPrimeSimpleType_zero)

theorem Mersenne127_field_witness: "uint (Multiply127 (2 ^ 126) (2 ^ 126)) = (2 ^ 125 :: int) \<and> (\<exists>u. Invert127 3 = Inr u \<and> Multiply127 u 3 = 1)"
proof -
  have c: "2 ^ 126 < p127" "3 < p127" by (simp_all add: canonical127_iff)
  show ?thesis using Mersenne127_field [OF c(1,1)] Mersenne127_field [OF c(2,2)] by auto
qed

end
