(* ===== verification/Ring2k.thy ===== *)
theory Ring2k
  imports NumStrings
begin

text \<open>
  The ring \<open>Z2k<K>\<close> (\<open>scl/math/z2k.h\<close>, \<open>z2k/details.h\<close>) on the unsigned type of 64 or 128 bits, \<open>'w word\<close>
  here. Values are reduced modulo \<open>2^K\<close> only when they are compared or written. The lemmas show that
  the operations are those of the integers modulo \<open>2^K\<close>, that the Newton iteration inverts every odd
  value, and what happens when \<open>K\<close> is the width of the type.
\<close>

section \<open>Operations\<close>

definition AddZ2k :: "'w::len word \<Rightarrow> 'w word \<Rightarrow> 'w word" where
  "AddZ2k dst op = dst + op"

definition SubtractZ2k :: "'w::len word \<Rightarrow> 'w word \<Rightarrow> 'w word" where
  "SubtractZ2k dst op = dst - op"

definition MultiplyZ2k :: "'w::len word \<Rightarrow> 'w word \<Rightarrow> 'w word" where
  "MultiplyZ2k dst op = dst * op"

definition NegateZ2k :: "'w::len word \<Rightarrow> 'w word" where
  "NegateZ2k v = - v"

definition LsbZ2k :: "'w::len word \<Rightarrow> 32 word" where
  "LsbZ2k v = ucast (v AND 1)"

text \<open>The loop of \<open>InvertZ2k\<close>; the number of correct bits doubles in each round.\<close>

partial_function (option) invert_loop :: "nat \<Rightarrow> 'w::len word \<Rightarrow> nat \<Rightarrow> 'w word \<Rightarrow> 'w word res option" where
  [code]: "invert_loop K v bits z = (if bits \<le> K then invert_loop K v (bits * 2) (z * (2 - v * z)) else retP z)"

definition InvertZ2k :: "nat \<Rightarrow> 'w::len word \<Rightarrow> 'w word res option" where
  "InvertZ2k K v = (if LsbZ2k v = 0 then failP (Invalid_argument ''value not invertible modulo 2^K'')
     else let bits = 5; z = (v * 3) XOR 2 in invert_loop K v bits z)"

text \<open>\<open>_SCL_MASK(T, K)\<close>: a shift by the width of the type is undefined.\<close>

definition mask_Z2k :: "nat \<Rightarrow> 'w::len word res" where
  "mask_Z2k K = (if K < LENGTH('w) then Inr (push_bit K 1 - 1) else Inl Undefined)"

definition EqualZ2k :: "nat \<Rightarrow> 'w::len word \<Rightarrow> 'w word \<Rightarrow> bool res" where
  "EqualZ2k K a b = bindE (mask_Z2k K) (\<lambda>m. Inr (a AND m = b AND m))"

text \<open>All bytes of the type are read, whatever \<open>K\<close>.\<close>

definition ReadZ2k :: "nat \<Rightarrow> 8 word list \<Rightarrow> 'w::len word res" where
  "ReadZ2k K src = throw_if (length src < LENGTH('w) div 8) Undefined (
     let v = le_word (take (LENGTH('w) div 8) src) in bindE (mask_Z2k K) (\<lambda>m. Inr (v AND m)))"

definition Z2k_ByteSize :: "nat \<Rightarrow> nat" where
  "Z2k_ByteSize K = nat ((int K - 1) mod 2 ^ 64) div 8 + 1"

definition WriteZ2k :: "nat \<Rightarrow> 'w::len word \<Rightarrow> 8 word list res" where
  "WriteZ2k K v = bindE (mask_Z2k K) (\<lambda>m. let w = v AND m in Inr (le_bytes (Z2k_ByteSize K) w))"

definition FromStringZ2k :: "nat \<Rightarrow> string \<Rightarrow> NumberBase \<Rightarrow> 'w::len word res" where
  "FromStringZ2k K str base = bindE (FromStringSimpleType str base) (\<lambda>v. bindE (mask_Z2k K) (\<lambda>m. Inr (v AND m)))"

text \<open>The overload of \<open>ToString\<close> for the type is the argument \<open>to_string\<close>.\<close>

definition ToStringZ2k :: "('w::len word \<Rightarrow> string) \<Rightarrow> nat \<Rightarrow> 'w word \<Rightarrow> string res" where
  "ToStringZ2k to_string K v = bindE (mask_Z2k K) (\<lambda>m. let w = v AND m in Inr (to_string w))"

section \<open>The class\<close>

definition Z2k_Read :: "nat \<Rightarrow> 8 word list \<Rightarrow> 'w::len word res" where
  "Z2k_Read K src = ReadZ2k K src"

definition Z2k_Random :: "('g \<Rightarrow> nat \<Rightarrow> 8 word list \<times> 'g) \<Rightarrow> nat \<Rightarrow> 'g \<Rightarrow> ('w::len word \<times> 'g) res" where
  "Z2k_Random next K prg = (case next prg (Z2k_ByteSize K) of (buffer, prg) \<Rightarrow> bindE (Z2k_Read K buffer) (\<lambda>e. Inr (e, prg)))"

definition Z2k_FromString :: "nat \<Rightarrow> string \<Rightarrow> NumberBase \<Rightarrow> 'w::len word res" where
  "Z2k_FromString K str base = FromStringZ2k K str base"

definition Z2k_FromString_decimal :: "nat \<Rightarrow> string \<Rightarrow> 'w::len word res" where
  "Z2k_FromString_decimal K str = Z2k_FromString K str DECIMAL"

definition Z2k_add_assign :: "'w::len word \<Rightarrow> 'w word \<Rightarrow> 'w word" where
  "Z2k_add_assign x y = AddZ2k x y"

definition Z2k_sub_assign :: "'w::len word \<Rightarrow> 'w word \<Rightarrow> 'w word" where
  "Z2k_sub_assign x y = SubtractZ2k x y"

definition Z2k_mul_assign :: "'w::len word \<Rightarrow> 'w word \<Rightarrow> 'w word" where
  "Z2k_mul_assign x y = MultiplyZ2k x y"

definition Z2k_Negate :: "'w::len word \<Rightarrow> 'w word" where
  "Z2k_Negate x = NegateZ2k x"

definition Z2k_Negated :: "'w::len word \<Rightarrow> 'w word" where
  "Z2k_Negated x = (let copy = x in Z2k_Negate copy)"

definition Z2k_Invert :: "nat \<Rightarrow> 'w::len word \<Rightarrow> 'w word res option" where
  "Z2k_Invert K x = InvertZ2k K x"

definition Z2k_Inverse :: "nat \<Rightarrow> 'w::len word \<Rightarrow> 'w word res option" where
  "Z2k_Inverse K x = (let copy = x in Z2k_Invert K copy)"

definition Z2k_div_assign :: "nat \<Rightarrow> 'w::len word \<Rightarrow> 'w word \<Rightarrow> 'w word res option" where
  "Z2k_div_assign K x y = bindP (Z2k_Inverse K y) (\<lambda>z. retP (MultiplyZ2k x z))"

definition Z2k_Lsb :: "'w::len word \<Rightarrow> 32 word" where
  "Z2k_Lsb x = LsbZ2k x"

definition Z2k_Equal :: "nat \<Rightarrow> 'w::len word \<Rightarrow> 'w word \<Rightarrow> bool res" where
  "Z2k_Equal K x y = EqualZ2k K x y"

definition Z2k_ToString :: "('w::len word \<Rightarrow> string) \<Rightarrow> nat \<Rightarrow> 'w word \<Rightarrow> string res" where
  "Z2k_ToString to_string K x = ToStringZ2k to_string K x"

definition Z2k_Write :: "nat \<Rightarrow> 'w::len word \<Rightarrow> 8 word list res" where
  "Z2k_Write K x = WriteZ2k K x"

section \<open>Inversion\<close>

lemma odd_cases_32:
  fixes u :: int
  assumes "odd u" "0 \<le> u" "u < 32"
  shows "u * take_bit 5 (take_bit 5 (u * 3) XOR 2) mod 32 = 1"
proof -
  have "list_all (\<lambda>u. even u \<or> u * take_bit 5 (take_bit 5 (u * 3) XOR 2) mod 32 = (1 :: int)) [0..31]" by code_simp
  then show ?thesis using assms by (auto simp: list_all_iff)
qed

lemma newton_start:
  fixes v :: "'w::len word"
  assumes v: "odd (uint v)" and w: "5 \<le> LENGTH('w)"
  shows "2 ^ 5 dvd uint v * uint ((v * 3) XOR 2) - 1"
proof -
  let ?z = "(v * 3) XOR 2"
  let ?u = "take_bit 5 (uint v)"
  have t: "take_bit 5 (uint x) = uint (take_bit 5 x)" for x :: "'w word" by (simp add: unsigned_take_bit_eq)
  have "take_bit 5 (uint ?z) = take_bit 5 (take_bit 5 (uint (v * 3)) XOR 2)"
    using w by (simp add: unsigned_xor_eq take_bit_xor)
  also have "take_bit 5 (uint (v * 3)) = take_bit 5 (?u * 3)"
  proof -
    have "v * 3 = word_of_int (uint v * 3)" by simp
    then have "uint (v * 3) = take_bit LENGTH('w) (uint v * 3)" by (simp only: uint_word_of_int_eq)
    then have "take_bit 5 (uint (v * 3)) = take_bit 5 (uint v * 3)" using w by (simp add: min_def)
    then show ?thesis by (simp add: take_bit_eq_mod mod_simps)
  qed
  finally have z: "take_bit 5 (uint ?z) = take_bit 5 (take_bit 5 (?u * 3) XOR 2)" .
  have "odd ?u" using v by (simp add: even_take_bit_eq)
  then have "?u * take_bit 5 (take_bit 5 (?u * 3) XOR 2) mod 32 = 1" by (intro odd_cases_32) (simp_all add: take_bit_eq_mod)
  then have "?u * take_bit 5 (uint ?z) mod 32 = 1" by (simp only: z)
  then have "uint v * uint ?z mod 32 = 1" by (simp add: take_bit_eq_mod mod_simps)
  then have "uint v * uint ?z mod 32 = 1 mod 32" by simp
  then show ?thesis by (simp only: mod_eq_dvd_iff) simp
qed

lemma newton_step:
  fixes v z :: "'w::len word"
  assumes b: "2 ^ b dvd uint v * uint z - 1" and m: "m \<le> 2 * b" "m \<le> LENGTH('w)"
  shows "2 ^ m dvd uint v * uint (z * (2 - v * z)) - 1"
proof -
  let ?V = "uint v" and ?Z = "uint z"
  have "z * (2 - v * z) = word_of_int (?Z * (2 - ?V * ?Z))" by simp
  then have "uint (z * (2 - v * z)) = ?Z * (2 - ?V * ?Z) mod 2 ^ LENGTH('w)" by (simp only: uint_word_of_int)
  then have "2 ^ LENGTH('w) dvd uint (z * (2 - v * z)) - ?Z * (2 - ?V * ?Z)" by (simp add: mod_eq_dvd_iff [symmetric])
  then have "2 ^ m dvd uint (z * (2 - v * z)) - ?Z * (2 - ?V * ?Z)" using m(2) by (rule dvd_trans [OF le_imp_power_dvd, rotated])
  then have 1: "2 ^ m dvd ?V * (uint (z * (2 - v * z)) - ?Z * (2 - ?V * ?Z))" by (rule dvd_mult)
  have "(2 ^ b) ^ 2 dvd (?V * ?Z - 1) ^ 2" using b by (rule dvd_power_same)
  then have "2 ^ (2 * b) dvd (?V * ?Z - 1) ^ 2" by (simp add: power_mult [symmetric] mult.commute)
  then have 2: "2 ^ m dvd (?V * ?Z - 1) ^ 2" using m(1) by (rule dvd_trans [OF le_imp_power_dvd, rotated])
  have "?V * uint (z * (2 - v * z)) - 1 = ?V * (uint (z * (2 - v * z)) - ?Z * (2 - ?V * ?Z)) - (?V * ?Z - 1) ^ 2"
    by (simp add: algebra_simps power2_eq_square)
  then show ?thesis using dvd_diff [OF 1 2] by simp
qed

lemma invert_loop_correct:
  fixes v z :: "'w::len word"
  assumes "2 ^ min bits LENGTH('w) dvd uint v * uint z - 1" "0 < bits" "K \<le> LENGTH('w)"
  shows "\<exists>z'. invert_loop K v bits z = Some (Inr z') \<and> 2 ^ K dvd uint v * uint z' - 1"
  using assms
proof (induction "Suc K - bits" arbitrary: bits z rule: less_induct)
  case less
  show ?case
  proof (cases "bits \<le> K")
    case True
    have n: "2 ^ min (bits * 2) LENGTH('w) dvd uint v * uint (z * (2 - v * z)) - 1"
      by (rule newton_step [OF less.prems(1)]) (auto simp: min_def)
    have "Suc K - bits * 2 < Suc K - bits" using True less.prems(2) by linarith
    from less.hyps [OF this n] less.prems(2,3) show ?thesis using True by (simp add: invert_loop.simps [of K v bits z])
  next
    case False
    then have "2 ^ K dvd uint v * uint z - 1" using less.prems by (elim dvd_trans [rotated]) (simp add: le_imp_power_dvd)
    then show ?thesis using False by (simp add: invert_loop.simps [of K v bits z] retP_def)
  qed
qed

lemma LsbZ2k_zero: "LsbZ2k (v :: 'w::len word) = 0 \<longleftrightarrow> even (uint v)"
proof -
  have "odd v \<longleftrightarrow> odd (uint v)" by (simp add: bit_uint_iff flip: bit_0)
  then have "v AND 1 = of_bool (odd (uint v))" by (simp add: and_one_eq mod_2_eq_odd)
  then show ?thesis by (simp add: LsbZ2k_def)
qed

lemma InvertZ2k_correct:
  fixes v :: "'w::len word"
  assumes "K \<le> LENGTH('w)" "5 \<le> LENGTH('w)"
  shows "if even (uint v) then InvertZ2k K v = Some (Inl (Invalid_argument ''value not invertible modulo 2^K''))
    else \<exists>z. InvertZ2k K v = Some (Inr z) \<and> uint v * uint z mod 2 ^ K = 1 mod 2 ^ K"
proof (cases "even (uint v)")
  case True
  then show ?thesis by (simp add: InvertZ2k_def LsbZ2k_zero failP_def)
next
  case False
  then have "2 ^ min 5 LENGTH('w) dvd uint v * uint ((v * 3) XOR 2) - 1" using newton_start [of v] assms(2) by (simp add: min_def)
  from invert_loop_correct [OF this _ assms(1)] obtain z where z: "invert_loop K v 5 ((v * 3) XOR 2) = Some (Inr z)"
    "2 ^ K dvd uint v * uint z - 1" by auto
  have "uint v * uint z mod 2 ^ K = 1 mod 2 ^ K" using z(2) by (simp only: mod_eq_dvd_iff)
  then show ?thesis using False z(1) by (simp add: InvertZ2k_def LsbZ2k_zero Let_def)
qed

section \<open>Reduction\<close>

lemma mask_Z2k_take: "K < LENGTH('w) \<Longrightarrow> mask_Z2k K = (Inr (mask K) :: 'w::len word res)"
  by (simp add: mask_Z2k_def mask_eq_exp_minus_1 push_bit_eq_mult)

lemma uint_take: "uint (take_bit K x) = uint (x :: 'w::len word) mod 2 ^ K"
  by (simp only: unsigned_take_bit_eq take_bit_eq_mod [where 'a = int])

lemma EqualZ2k_eq: "K < LENGTH('w) \<Longrightarrow> EqualZ2k K x y = Inr (uint x mod 2 ^ K = uint (y :: 'w::len word) mod 2 ^ K)"
  by (simp add: EqualZ2k_def mask_Z2k_take flip: take_bit_eq_mask) (simp add: word_uint_eq_iff uint_take)

lemma uint_ops_mod:
  fixes x y :: "'w::len word"
  assumes "K \<le> LENGTH('w)"
  shows "uint (x + y) mod 2 ^ K = (uint x + uint y) mod 2 ^ K" "uint (x - y) mod 2 ^ K = (uint x - uint y) mod 2 ^ K"
    "uint (x * y) mod 2 ^ K = uint x * uint y mod 2 ^ K" "uint (- x) mod 2 ^ K = (- uint x) mod 2 ^ K"
  using assms by (simp_all add: uint_word_ariths mod_mod_cancel le_imp_power_dvd)

lemma le_word_append: "le_word (bs @ cs) = le_word bs + push_bit (8 * length bs) (le_word cs :: 'w::len word)"
proof (induction bs)
  case (Cons b bs)
  have "push_bit 8 (push_bit (8 * length bs) (le_word cs)) = push_bit (8 * length (b # bs)) (le_word cs :: 'w word)"
    by (simp add: push_bit_push_bit)
  then show ?case using Cons.IH by (simp only: append_Cons le_word.simps push_bit_add add.assoc)
qed simp

lemma take_bit_le_word_append:
  assumes "K \<le> 8 * length bs" "K \<le> LENGTH('w)"
  shows "take_bit K (le_word (bs @ cs) :: 'w::len word) = take_bit K (le_word bs)"
proof -
  let ?p = "push_bit (8 * length bs) (le_word cs) :: 'w word"
  have "take_bit K ?p = 0" using assms(1) by (simp add: take_bit_push_bit)
  then have p: "uint ?p mod 2 ^ K = 0" using uint_take [of K ?p] by simp
  have "uint (le_word bs + ?p) mod 2 ^ K = (uint (le_word bs :: 'w word) + uint ?p mod 2 ^ K) mod 2 ^ K"
    unfolding uint_ops_mod(1) [OF assms(2)] by (simp only: mod_add_right_eq)
  also have "\<dots> = uint (le_word bs :: 'w word) mod 2 ^ K" unfolding p by simp
  finally show ?thesis unfolding le_word_append by (simp only: word_uint_eq_iff uint_take)
qed

lemma Write_Read_Z2k:
  fixes x :: "'w::len word"
  assumes K: "1 \<le> K" "K < LENGTH('w)" "LENGTH('w) < 2 ^ 64" and rest: "8 * (Z2k_ByteSize K + length rest) = LENGTH('w)"
  shows "\<exists>bytes. WriteZ2k K x = Inr bytes \<and> length bytes = (K - 1) div 8 + 1 \<and> ReadZ2k K (bytes @ rest) = Inr (take_bit K x)"
proof -
  have "(int K - 1) mod 2 ^ 64 = int (K - 1)" using K by (simp add: of_nat_diff mod_pos_pos_trivial)
  then have n: "Z2k_ByteSize K = (K - 1) div 8 + 1" by (simp add: Z2k_ByteSize_def)
  have Kn: "K \<le> 8 * Z2k_ByteSize K" unfolding n using K(1) by presburger
  let ?b = "le_bytes (Z2k_ByteSize K) (take_bit K x)"
  have w: "WriteZ2k K x = Inr ?b" using K(2) by (simp add: WriteZ2k_def mask_Z2k_take Let_def flip: take_bit_eq_mask)
  have "le_word ?b = take_bit (8 * Z2k_ByteSize K) (take_bit K x)" by (rule le_word_le_bytes) (use rest in simp)
  then have "take_bit K (le_word ?b) = take_bit K x" using Kn by (simp add: take_bit_take_bit min_def)
  then have "take_bit K (le_word (?b @ rest)) = take_bit K x" using take_bit_le_word_append [of K ?b rest, where ?'w = 'w] Kn K(2) by simp
  moreover have "length (?b @ rest) = LENGTH('w) div 8" using rest by simp
  ultimately have "ReadZ2k K (?b @ rest) = Inr (take_bit K x)"
    using K(2) by (simp add: ReadZ2k_def Let_def mask_Z2k_take flip: take_bit_eq_mask)
  then show ?thesis using w n by simp
qed

text \<open>
  With \<open>K\<close> the width of the type the mask is undefined, and \<open>Random\<close> fills a buffer of \<open>ByteSize()\<close> bytes
  from which \<open>Read\<close> takes all bytes of the type.
\<close>

lemma Z2k_width_undefined:
  "Z2k_Equal LENGTH('w) x (y :: 'w::len word) = Inl Undefined \<and> Z2k_Write LENGTH('w) x = Inl Undefined"
  by (simp add: Z2k_Equal_def EqualZ2k_def Z2k_Write_def WriteZ2k_def mask_Z2k_def)

lemma Z2k_Random_undefined:
  assumes "Z2k_ByteSize K < LENGTH('w::len) div 8" "length (fst (next prg (Z2k_ByteSize K))) = Z2k_ByteSize K"
  shows "(Z2k_Random next K prg :: ('w word \<times> 'g) res) = Inl Undefined"
  using assms by (cases "next prg (Z2k_ByteSize K)") (simp add: Z2k_Random_def Z2k_Read_def ReadZ2k_def)

section \<open>Property\<close>

text \<open>
  C34: the class \<open>Z2k<K>\<close> is the ring of the integers modulo \<open>2^K\<close>, for every \<open>K\<close> below the width of its type:
  sums, differences, products and negations are those of the values modulo \<open>2^K\<close>, equality is equality
  modulo \<open>2^K\<close>, every odd value is inverted by an iteration that ends and every even value throws,
  and a value is written in \<open>ByteSize()\<close> bytes from which it is read back modulo \<open>2^K\<close>, whatever follows them.
\<close>

theorem Z2k_ring:
  fixes x y :: "'w::len word"
  assumes "1 \<le> K" "K < LENGTH('w)" "8 \<le> LENGTH('w)" "LENGTH('w) < 2 ^ 64" "8 * (Z2k_ByteSize K + length rest) = LENGTH('w)"
  shows "uint (Z2k_add_assign x y) mod 2 ^ K = (uint x + uint y) mod 2 ^ K
    \<and> uint (Z2k_sub_assign x y) mod 2 ^ K = (uint x - uint y) mod 2 ^ K
    \<and> uint (Z2k_mul_assign x y) mod 2 ^ K = uint x * uint y mod 2 ^ K
    \<and> uint (Z2k_Negate x) mod 2 ^ K = (- uint x) mod 2 ^ K
    \<and> Z2k_Equal K x y = Inr (uint x mod 2 ^ K = uint y mod 2 ^ K)
    \<and> (if even (uint y) then Z2k_div_assign K x y = Some (Inl (Invalid_argument ''value not invertible modulo 2^K''))
       else \<exists>q. Z2k_div_assign K x y = Some (Inr q) \<and> uint y * uint q mod 2 ^ K = uint x mod 2 ^ K)
    \<and> (\<exists>bytes. Z2k_Write K x = Inr bytes \<and> length bytes = (K - 1) div 8 + 1 \<and> Z2k_Read K (bytes @ rest) = Inr (take_bit K x))"
proof (intro conjI)
  have K: "K \<le> LENGTH('w)" "5 \<le> LENGTH('w)" using assms by simp_all
  show "if even (uint y) then Z2k_div_assign K x y = Some (Inl (Invalid_argument ''value not invertible modulo 2^K''))
       else \<exists>q. Z2k_div_assign K x y = Some (Inr q) \<and> uint y * uint q mod 2 ^ K = uint x mod 2 ^ K"
  proof (cases "even (uint y)")
    case True
    then show ?thesis using InvertZ2k_correct [OF K, of y] by (simp add: Z2k_div_assign_def Z2k_Inverse_def Z2k_Invert_def)
  next
    case False
    then obtain z where z: "InvertZ2k K y = Some (Inr z)" "uint y * uint z mod 2 ^ K = 1 mod 2 ^ K"
      using InvertZ2k_correct [OF K, of y] by auto
    have "uint y * uint (x * z) mod 2 ^ K = uint y * (uint (x * z) mod 2 ^ K) mod 2 ^ K" by (simp add: mod_simps)
    also have "\<dots> = uint y * (uint x * uint z mod 2 ^ K) mod 2 ^ K" by (simp only: uint_ops_mod [OF K(1)])
    also have "\<dots> = uint x * (uint y * uint z mod 2 ^ K) mod 2 ^ K" by (simp add: mod_simps ac_simps)
    also have "\<dots> = uint x mod 2 ^ K" unfolding z(2) by (simp add: mod_simps)
    finally show ?thesis using False z(1) by (simp add: Z2k_div_assign_def Z2k_Inverse_def Z2k_Invert_def MultiplyZ2k_def retP_def)
  qed
  show "\<exists>bytes. Z2k_Write K x = Inr bytes \<and> length bytes = (K - 1) div 8 + 1 \<and> Z2k_Read K (bytes @ rest) = Inr (take_bit K x)"
    unfolding Z2k_Write_def Z2k_Read_def by (rule Write_Read_Z2k [OF assms(1,2,4,5)])
qed (use assms(2) in \<open>simp_all add: Z2k_add_assign_def AddZ2k_def Z2k_sub_assign_def SubtractZ2k_def Z2k_mul_assign_def MultiplyZ2k_def
    Z2k_Negate_def NegateZ2k_def Z2k_Equal_def EqualZ2k_eq uint_ops_mod\<close>)

theorem Z2k_ring_witness:
  "Z2k_Equal 32 (2 ^ 32 + 5 :: u64) 5 = Inr True \<and> (\<exists>q. Z2k_div_assign 32 (1 :: u64) 3 = Some (Inr q) \<and> 3 * uint q mod 2 ^ 32 = 1)"
proof -
  have r: "8 * (Z2k_ByteSize 32 + length (replicate 4 (0 :: 8 word))) = LENGTH(64)" by (simp add: Z2k_ByteSize_def)
  have K: "1 \<le> (32 :: nat)" "32 < LENGTH(64)" "8 \<le> LENGTH(64)" "LENGTH(64) < 2 ^ 64" by simp_all
  show ?thesis using Z2k_ring [OF K r, of "2 ^ 32 + 5" 5] Z2k_ring [OF K r, of 1 3] by auto
qed

end
