(* ===== verification/Gfp31.thy ===== *)
theory Gfp31
  imports FF61
begin

text \<open>
  The scalars \<open>gfpScalar\<close> of the Shamir template (\<open>Math/gfpScalar.h\<close>, with the \<open>PR_31\<close> configuration
  the header selects): residues modulo the Mersenne prime \<open>2^31 - 1\<close> in an \<open>unsigned int\<close>. Every operation acts
  on the 32-bit word of the code. On canonical words they are shown to compute the field operations, and the
  canonical words form the type \<open>gfp\<close>, whose instance of \<open>field\<close> has the code's operations as its own.
\<close>

unbundle bit_operations_syntax

type_synonym u32 = "32 word"

section \<open>The constants\<close>

definition PR :: u32 where
  "PR = 2147483647"

definition BITS_LENGTH :: nat where
  "BITS_LENGTH = 31"

definition FIXED_PRECISION :: nat where
  "FIXED_PRECISION = 12"

definition MID_PR :: u32 where
  "MID_PR = drop_bit 1 (PR - 1) + 1"

definition SQRT_EXP :: u32 where
  "SQRT_EXP = drop_bit 2 (PR + 1)"

definition INVERSE_CONST :: u32 where
  "INVERSE_CONST = PR - 2"

definition INT_PRECISION :: nat where
  "INT_PRECISION = BITS_LENGTH - FIXED_PRECISION"

definition MAX_POSITIVE :: u32 where
  "MAX_POSITIVE = drop_bit 1 PR"

definition ConstGapInTruncation :: u32 where
  "ConstGapInTruncation = push_bit INT_PRECISION 1 - 1"

definition ConstEncode :: u32 where
  "ConstEncode = push_bit (BITS_LENGTH - 2) 1"

definition ConstDecode :: u32 where
  "ConstDecode = push_bit (BITS_LENGTH - 2 - FIXED_PRECISION) 1"

section \<open>The raw operations\<close>

text \<open>\<open>mul32\<close> returns the low word of the product and, through its pointer, the high one.\<close>

definition mul32 :: "u32 \<Rightarrow> u32 \<Rightarrow> u32 \<times> u32" where
  "mul32 a b = (let cc = (ucast a :: 64 word) * ucast b in (ucast cc, ucast (drop_bit 32 cc)))"

definition add_mod :: "u32 \<Rightarrow> u32 \<Rightarrow> u32" where
  "add_mod a b = (let ret = a + b in if PR \<le> ret then ret - PR else ret)"

definition mult_mod :: "u32 \<Rightarrow> u32 \<Rightarrow> u32" where
  "mult_mod a b =
     (let (e, c) = mul32 a b;
          ret = (e AND PR) + (drop_bit 31 e XOR push_bit (32 - 31) c)
      in if PR \<le> ret then ret - PR else ret)"

definition modPrime :: "u32 \<Rightarrow> u32" where
  "modPrime x = (let i = (x AND PR) + drop_bit 31 x in if PR \<le> i then i - PR else i)"

definition additive_inverse :: "u32 \<Rightarrow> u32" where
  "additive_inverse x = (if x = 0 then 0 else PR XOR x)"

text \<open>
  \<open>extend_gcd(a, b, x, y)\<close> returns through the references \<open>x\<close> and \<open>y\<close>; the recursive call passes them
  swapped, so that its first result lands in \<open>y\<close>.
\<close>

function extend_gcd :: "u32 \<Rightarrow> u32 \<Rightarrow> u32 \<times> u32" where
  "extend_gcd a b =
     (if b = 0 then (1, 0)
      else let (y, x) = extend_gcd b (a mod b);
               tmp = mult_mod (a div b) x
           in (x, add_mod y (additive_inverse tmp)))"
  by pat_completeness auto
termination
proof (relation "measure (\<lambda>(a, b). unat b)")
  fix a b :: u32
  assume "b \<noteq> 0"
  then have "0 < unat b" by (simp add: unat_gt_0)
  then show "((b, a mod b), (a, b)) \<in> measure (\<lambda>(a, b). unat b)" by (simp add: unat_mod_distrib)
qed simp

declare extend_gcd.simps [simp del]

definition multiplicative_inverse :: "u32 \<Rightarrow> u32" where
  "multiplicative_inverse it = (let (x, y) = extend_gcd PR it in y)"

definition test_inverse :: "u32 \<Rightarrow> u32 \<Rightarrow> bool" where
  "test_inverse a b \<longleftrightarrow> mult_mod a b = 1"

section \<open>The operators of \<open>gfpScalar\<close>\<close>

definition gfp_add :: "u32 \<Rightarrow> u32 \<Rightarrow> u32" where
  "gfp_add a b = add_mod a b"

definition gfp_neg :: "u32 \<Rightarrow> u32" where
  "gfp_neg a = additive_inverse a"

definition gfp_sub :: "u32 \<Rightarrow> u32 \<Rightarrow> u32" where
  "gfp_sub a b = add_mod a (additive_inverse b)"

definition gfp_mul :: "u32 \<Rightarrow> u32 \<Rightarrow> u32" where
  "gfp_mul a b = mult_mod a b"

definition gfp_div :: "u32 \<Rightarrow> u32 \<Rightarrow> u32" where
  "gfp_div a b = mult_mod a (multiplicative_inverse b)"

definition gfp_eq :: "u32 \<Rightarrow> u32 \<Rightarrow> bool" where
  "gfp_eq a b \<longleftrightarrow> a = b"

definition gfp_ne :: "u32 \<Rightarrow> u32 \<Rightarrow> bool" where
  "gfp_ne a b \<longleftrightarrow> a \<noteq> b"

definition gfp_lt :: "u32 \<Rightarrow> u32 \<Rightarrow> bool" where
  "gfp_lt a b \<longleftrightarrow> a < b"

definition gfp_le :: "u32 \<Rightarrow> u32 \<Rightarrow> bool" where
  "gfp_le a b \<longleftrightarrow> a < b \<or> a = b"

definition gfp_gt :: "u32 \<Rightarrow> u32 \<Rightarrow> bool" where
  "gfp_gt a b \<longleftrightarrow> b < a"

definition gfp_ge :: "u32 \<Rightarrow> u32 \<Rightarrow> bool" where
  "gfp_ge a b \<longleftrightarrow> \<not> a < b"

definition gfp_square :: "u32 \<Rightarrow> u32" where
  "gfp_square x = mult_mod x x"

text \<open>The loop of \<open>pow\<close>, on the exponent that is left, the result and the running square.\<close>

function pow_loop :: "u32 \<Rightarrow> u32 \<Rightarrow> u32 \<Rightarrow> u32" where
  "pow_loop ex res v_pow =
     (if ex = 0 then res
      else pow_loop (drop_bit 1 ex) (if ex AND 1 \<noteq> 0 then gfp_mul res v_pow else res) (gfp_square v_pow))"
  by pat_completeness auto
termination
proof (relation "measure (\<lambda>(e, _, _). unat e)")
  fix ex res v_pow :: u32
  assume "ex \<noteq> 0"
  then have "0 < unat ex" by (simp add: unat_gt_0)
  then show "((drop_bit 1 ex, if ex AND 1 \<noteq> 0 then gfp_mul res v_pow else res, gfp_square v_pow), (ex, res, v_pow))
      \<in> measure (\<lambda>(e, _, _). unat e)"
    by (simp add: unat_drop_bit_eq drop_bit_eq_div unat_div_distrib)
qed simp

declare pow_loop.simps [simp del]

definition gfp_pow :: "u32 \<Rightarrow> u32 \<Rightarrow> u32" where
  "gfp_pow x ex = pow_loop ex 1 x"

definition gfp_sqrt :: "u32 \<Rightarrow> u32 res" where
  "gfp_sqrt x = throw_if (\<not> 0 < x) Assert_failed
     (let res = gfp_pow x SQRT_EXP
      in if 1 \<le> res \<and> res < MID_PR then Inr res else Inr (gfp_neg res))"

definition gfp_inverse :: "u32 \<Rightarrow> u32" where
  "gfp_inverse x = multiplicative_inverse x"

definition gfp_rsqrt :: "u32 \<Rightarrow> u32 res" where
  "gfp_rsqrt x = (if x = 0 then Inr x else bindE (gfp_sqrt x) (\<lambda>res. Inr (gfp_inverse res)))"

text \<open>The shifts: a count of 32 or more is undefined behaviour of the language.\<close>

definition gfp_and :: "u32 \<Rightarrow> u32 \<Rightarrow> u32" where
  "gfp_and a b = a AND b"

definition gfp_shl :: "u32 \<Rightarrow> u32 \<Rightarrow> u32 res" where
  "gfp_shl a x = throw_if (32 \<le> x) Undefined (Inr (push_bit (unat x) a))"

definition gfp_shr :: "u32 \<Rightarrow> u32 \<Rightarrow> u32 res" where
  "gfp_shr a x = throw_if (32 \<le> x) Undefined (Inr (drop_bit (unat x) a))"

text \<open>The generator \<open>secure_prng\<close> is its state and the function that draws an \<open>unsigned int\<close>, or a bit.\<close>

definition gfp_random :: "('g \<Rightarrow> u32 \<times> 'g) \<Rightarrow> 'g \<Rightarrow> u32 \<times> 'g" where
  "gfp_random get_uint g = (case get_uint g of (w, g') \<Rightarrow> (modPrime w, g'))"

definition gfp_random_bit :: "('g \<Rightarrow> u32 \<times> 'g) \<Rightarrow> 'g \<Rightarrow> u32 \<times> 'g" where
  "gfp_random_bit get_bit g = get_bit g"

text \<open>The bytes handed to \<open>octetStream::append\<close>, and the word read from the bytes of \<open>consume\<close>.\<close>

definition gfp_pack :: "u32 \<Rightarrow> 8 word list" where
  "gfp_pack value = le_bytes 4 value"

definition gfp_unpack :: "8 word list \<Rightarrow> u32" where
  "gfp_unpack bs = le_word bs"

subsection \<open>Signed and fixed-point readings\<close>

definition is_zero :: "u32 \<Rightarrow> bool" where
  "is_zero value \<longleftrightarrow> value = 0"

definition is_negative :: "u32 \<Rightarrow> bool" where
  "is_negative value \<longleftrightarrow> MAX_POSITIVE < value"

definition gfp_msb :: "u32 \<Rightarrow> u32" where
  "gfp_msb value = (if is_negative value then 1 else 0)"

definition gfp_truncate :: "nat \<Rightarrow> u32 \<Rightarrow> u32 res" where
  "gfp_truncate d value = throw_if (32 \<le> d) Undefined
     (Inr (if is_negative value then additive_inverse (drop_bit d (additive_inverse value)) else drop_bit d value))"

definition magnify :: "u32 \<Rightarrow> u32" where
  "magnify value =
     (if is_negative value then additive_inverse (push_bit FIXED_PRECISION (additive_inverse value))
      else push_bit FIXED_PRECISION value)"

text \<open>An \<open>int\<close> is its value; the subtraction of \<open>map_gfp_to_int\<close> is one of \<open>int\<close>, undefined where it overflows.\<close>

definition map_int_to_gfp :: "int \<Rightarrow> u32" where
  "map_int_to_gfp x = (if x < 0 then word_of_int (x + uint PR) else word_of_int x)"

definition map_gfp_to_int :: "u32 \<Rightarrow> int res" where
  "map_gfp_to_int x =
     (let res = sint x in if word_of_int res > MAX_POSITIVE then chk 32 (res - uint PR) else Inr res)"

section \<open>Their correctness on canonical words\<close>

lemma uint_PR: "uint PR = 2 ^ 31 - 1"
  by (simp add: PR_def)

lemma PR_mask: "PR = mask 31"
  by (simp add: PR_def mask_eq_exp_minus_1)

lemma gfp_canonical: "x < PR \<longleftrightarrow> uint x < 2147483647"
  by (simp add: word_less_def uint_PR)

lemma gfp_canonical_le: "x \<le> PR \<longleftrightarrow> uint x \<le> 2147483647"
  by (simp add: word_le_def uint_PR)

lemma reduce_once:
  fixes r :: u32
  assumes "uint r \<le> 2 * 2147483647 - 1"
  shows "uint (if PR \<le> r then r - PR else r) = uint r mod 2147483647" "(if PR \<le> r then r - PR else r) < PR"
proof -
  have "uint (r - PR) = uint r - 2147483647" if "PR \<le> r"
    using that by (simp add: word_le_def uint_PR uint_diff_le)
  moreover have "uint r mod 2147483647 = uint r - 2147483647" if ge: "2147483647 \<le> uint r"
  proof -
    have "uint r mod 2147483647 = (uint r - 2147483647) mod 2147483647" by (rule mod_pos_geq [OF _ ge]) simp
    also have "\<dots> = uint r - 2147483647" using assms ge by (intro mod_pos_pos_trivial) simp_all
    finally show ?thesis .
  qed
  ultimately show "uint (if PR \<le> r then r - PR else r) = uint r mod 2147483647"
    by (simp add: word_le_def uint_PR mod_pos_pos_trivial)
  then show "(if PR \<le> r then r - PR else r) < PR" by (simp add: gfp_canonical)
qed

lemma add_mod_uint:
  assumes "a < PR" "b < PR"
  shows "uint (add_mod a b) = (uint a + uint b) mod 2147483647" "add_mod a b < PR"
proof -
  have "uint (a + b) = uint a + uint b"
    using assms by (simp add: gfp_canonical uint_word_ariths mod_pos_pos_trivial)
  moreover from this have "uint (a + b) \<le> 2 * 2147483647 - 1" using assms by (simp add: gfp_canonical)
  ultimately show "uint (add_mod a b) = (uint a + uint b) mod 2147483647" "add_mod a b < PR"
    using reduce_once [of "a + b"] by (simp_all add: add_mod_def Let_def)
qed

lemma PR_xor:
  assumes "x \<le> PR"
  shows "PR XOR x = PR - x"
proof -
  have t: "take_bit 31 x = x"
    using assms by (simp add: word_uint_eq_iff unsigned_take_bit_eq gfp_canonical_le take_bit_int_eq_self)
  have b: "bit x k \<Longrightarrow> k < 31" for k
    using t by (metis bit_take_bit_iff)
  have "(PR XOR x) + x = (PR XOR x) OR x"
    by (rule disjunctive_add_eq_or, rule bit_word_eqI) (auto simp: PR_mask bit_simps dest: b)
  also have "\<dots> = PR"
    by (rule bit_word_eqI) (auto simp: PR_mask bit_simps dest: b)
  finally show ?thesis by (simp add: algebra_simps)
qed

lemma additive_inverse_uint:
  assumes "x \<le> PR"
  shows "uint (additive_inverse x) = (- uint x) mod 2147483647" "additive_inverse x < PR"
proof -
  show e: "uint (additive_inverse x) = (- uint x) mod 2147483647"
  proof (cases "x = 0")
    case False
    then have "0 < uint x" by (simp add: word_neq_0_conv word_less_def)
    then have "(2147483647 - uint x) mod 2147483647 = 2147483647 - uint x"
      using assms by (intro mod_pos_pos_trivial) (simp_all add: gfp_canonical_le)
    moreover have "(- uint x) mod 2147483647 = (2147483647 - uint x) mod 2147483647"
      by (rule minus_mod_self1 [symmetric])
    ultimately have "(- uint x) mod 2147483647 = 2147483647 - uint x" by (rule trans [rotated])
    moreover have "uint (PR - x) = 2147483647 - uint x"
      using assms by (subst uint_diff_le) (simp_all add: word_le_def uint_PR)
    ultimately show ?thesis unfolding additive_inverse_def PR_xor [OF assms] if_not_P [OF False] by (rule trans [OF _ sym, rotated])
  qed (simp add: additive_inverse_def)
  then show "additive_inverse x < PR" by (simp add: gfp_canonical)
qed

lemma xor_parts: "0 < m \<Longrightarrow> drop_bit 31 e XOR push_bit m c = drop_bit 31 e + push_bit m (c :: u32)"
  by (rule disjunctive_add_eq_xor [symmetric], rule bit_word_eqI) (auto simp: bit_simps dest: bit_imp_le_length)

lemma div_twice: "0 < k \<Longrightarrow> P mod (2 * k) div k + 2 * (P div (2 * k)) = P div (k :: int)"
proof -
  assume k: "0 < k"
  have "P div k = (P mod (2 * k) + (2 * (P div (2 * k))) * k) div k"
    using mod_mult_div_eq [of P "2 * k"] by (simp add: algebra_simps)
  also have "\<dots> = P mod (2 * k) div k + 2 * (P div (2 * k))" using k by (simp only: div_mult_self1)
  finally show ?thesis by simp
qed

lemma mersenne_fold: "z mod (k - 1) = (z mod k + z div k) mod (k - 1 :: int)"
proof -
  have "z = (z mod k + z div k) + z div k * (k - 1)"
    using mod_div_mult_eq [of z k] by (simp add: algebra_simps)
  then show ?thesis by (metis mod_mult_self1)
qed

lemma mult_mod_uint:
  assumes a: "a \<le> PR" and b: "b \<le> PR"
  shows "uint (mult_mod a b) = uint a * uint b mod 2147483647" "mult_mod a b < PR"
proof -
  define P where "P = uint a * uint b"
  have a': "uint a \<le> 2147483647" and b': "uint b \<le> 2147483647" using a b by (simp_all add: gfp_canonical_le)
  have P: "0 \<le> P" "P \<le> 2147483647 * 2147483647"
    unfolding P_def by (simp, rule mult_mono [OF a' b']) simp_all
  let ?cc = "(ucast a :: 64 word) * ucast b"
  have "uint (ucast a :: 64 word) = uint a" "uint (ucast b :: 64 word) = uint b"
    using uint_lt2p [of a] uint_lt2p [of b] by (simp_all add: unsigned_ucast_eq take_bit_int_eq_self)
  then have cc: "uint ?cc = P"
    using P by (simp add: uint_word_ariths P_def mod_pos_pos_trivial)
  have hi: "0 \<le> P div 2 ^ 32" "P div 2 ^ 32 < 2 ^ 30"
    using P by (simp_all add: pos_imp_zdiv_nonneg_iff div_less_iff_less_mult)
  have e: "uint (ucast ?cc :: u32) = P mod 2 ^ 32"
    by (simp add: unsigned_ucast_eq cc take_bit_eq_mod)
  have c: "uint (ucast (drop_bit 32 ?cc) :: u32) = P div 2 ^ 32"
    using hi P by (simp add: unsigned_ucast_eq unsigned_drop_bit_eq cc take_bit_int_eq_self drop_bit_eq_div [where 'a = int])
  let ?e = "ucast ?cc :: u32" and ?c = "ucast (drop_bit 32 ?cc) :: u32"
  have lo: "uint (?e AND PR) = P mod 2 ^ 31"
    unfolding PR_mask take_bit_eq_mask [symmetric]
    by (simp only: unsigned_take_bit_eq e) (simp add: take_bit_eq_mod mod_mod_cancel)
  have d: "uint (drop_bit 31 ?e) = P mod 2 ^ 32 div 2 ^ 31"
    by (simp only: unsigned_drop_bit_eq e) (simp add: drop_bit_eq_div take_bit_eq_mod)
  have p: "uint (push_bit (32 - 31) ?c) = 2 * (P div 2 ^ 32)"
    using hi unfolding unsigned_push_bit_eq c by (simp add: take_bit_int_eq_self push_bit_eq_mult [where 'a = int])
  have x: "drop_bit 31 ?e XOR push_bit (32 - 31) ?c = drop_bit 31 ?e + push_bit (32 - 31) ?c"
    by (rule xor_parts) simp
  have s1: "P mod 2 ^ 32 div 2 ^ 31 + 2 * (P div 2 ^ 32) = P div 2 ^ 31"
    using div_twice [of "2 ^ 31" P] by simp
  have s2: "P div 2 ^ 31 \<le> 2147483646" using zdiv_mono1 [OF P(2), of "2 ^ 31"] by simp
  have s3: "P div 2 ^ 31 * 2 ^ 31 + P mod 2 ^ 31 = P" by simp
  have s4: "0 \<le> P div 2 ^ 31" using P(1) by (simp add: pos_imp_zdiv_nonneg_iff)
  have s5: "0 \<le> P mod 2 ^ 31" "P mod 2 ^ 31 < 2 ^ 31" by simp_all
  note split = s1 s2 s3 s4 s5
  have bits: "uint (drop_bit 31 ?e XOR push_bit (32 - 31) ?c) = P div 2 ^ 31"
    unfolding x uint_word_ariths d p s1 using s2 s4 by (intro mod_pos_pos_trivial) simp_all
  let ?ret = "(?e AND PR) + (drop_bit 31 ?e XOR push_bit (32 - 31) ?c)"
  have ret: "uint ?ret = P mod 2 ^ 31 + P div 2 ^ 31"
    unfolding uint_word_ariths lo bits using split by (intro mod_pos_pos_trivial) (simp_all del: take_bit_eq_mod)
  also have "\<dots> \<le> 2 * 2147483647 - 1" using s2 s5(2) by simp
  finally have le: "uint ?ret \<le> 2 * 2147483647 - 1" .
  have m: "mult_mod a b = (if PR \<le> ?ret then ?ret - PR else ?ret)"
    by (simp only: mult_mod_def mul32_def Let_def split_def fst_conv snd_conv)
  have "P mod 2147483647 = (P mod 2 ^ 31 + P div 2 ^ 31) mod 2147483647"
    using mersenne_fold [of P "2 ^ 31"] by simp
  also have "\<dots> = uint ?ret mod 2147483647" unfolding ret by simp
  finally show "uint (mult_mod a b) = uint a * uint b mod 2147483647" "mult_mod a b < PR"
    unfolding m reduce_once(1) [OF le] using reduce_once(2) [OF le] by (simp_all only: P_def)
qed

lemma modPrime_uint: "uint (modPrime x) = uint x mod 2147483647" "modPrime x < PR"
proof -
  have lo: "uint (x AND PR) = uint x mod 2 ^ 31"
    unfolding PR_mask take_bit_eq_mask [symmetric] by (simp only: unsigned_take_bit_eq) (simp add: take_bit_eq_mod)
  have hi: "uint (drop_bit 31 x) = uint x div 2 ^ 31"
    using uint_lt2p [of x] by (simp only: unsigned_drop_bit_eq) (simp add: drop_bit_eq_div take_bit_int_eq_self)
  have x: "0 \<le> uint x div 2 ^ 31" "uint x div 2 ^ 31 \<le> 1" "0 \<le> uint x mod 2 ^ 31" "uint x mod 2 ^ 31 < 2 ^ 31"
      "uint x div 2 ^ 31 * 2 ^ 31 + uint x mod 2 ^ 31 = uint x"
    using uint_lt2p [of x] zdiv_mono1 [of "uint x" "2 ^ 32 - 1" "2 ^ 31"] by (simp_all add: pos_imp_zdiv_nonneg_iff)
  have i: "uint ((x AND PR) + drop_bit 31 x) = uint x mod 2 ^ 31 + uint x div 2 ^ 31"
    unfolding uint_word_ariths lo hi using x by (intro mod_pos_pos_trivial) simp_all
  then have le: "uint ((x AND PR) + drop_bit 31 x) \<le> 2 * 2147483647 - 1" using x by simp
  have "uint x mod 2147483647 = (uint x mod 2 ^ 31 + uint x div 2 ^ 31) mod 2147483647"
    using mersenne_fold [of "uint x" "2 ^ 31"] by simp
  also have "\<dots> = uint ((x AND PR) + drop_bit 31 x) mod 2147483647" unfolding i by simp
  finally show "uint (modPrime x) = uint x mod 2147483647" "modPrime x < PR"
    unfolding modPrime_def Let_def reduce_once(1) [OF le] using reduce_once(2) [OF le] by (simp_all only:)
qed

lemma bezout_step:
  fixes A B :: int
  assumes "A = B * q + r"
  shows "(A * x + B * ((y - q * x) mod p)) mod p = (B * y + r * x) mod p"
proof -
  have "(A * x + B * ((y - q * x) mod p)) mod p = (A * x + B * (y - q * x)) mod p"
    by (metis mod_add_right_eq mod_mult_right_eq)
  also have "A * x + B * (y - q * x) = B * y + r * x" unfolding assms by (simp add: algebra_simps)
  finally show ?thesis .
qed

lemma extend_gcd_bezout:
  "a \<le> PR \<Longrightarrow> b \<le> PR \<Longrightarrow> case extend_gcd a b of (x, y) \<Rightarrow>
     x < PR \<and> y < PR \<and> (uint a * uint x + uint b * uint y) mod 2147483647 = gcd (uint a) (uint b) mod 2147483647"
proof (induction a b rule: extend_gcd.induct)
  case (1 a b)
  show ?case
  proof (cases "b = 0")
    case True
    then show ?thesis by (simp add: extend_gcd.simps [of a 0] PR_def)
  next
    case False
    obtain y x where r: "extend_gcd b (a mod b) = (y, x)" by fastforce
    have "a mod b \<le> PR" using 1(2) by (simp add: word_le_nat_alt unat_mod_distrib) (meson mod_less_eq_dividend order_trans)
    with 1 False r have IH: "y < PR" "x < PR"
      "(uint b * uint y + uint (a mod b) * uint x) mod 2147483647 = gcd (uint b) (uint (a mod b)) mod 2147483647"
      by auto
    have q: "a div b \<le> PR" using 1(2) by (simp add: word_le_nat_alt unat_div_distrib) (meson div_le_dividend order_trans)
    let ?t = "mult_mod (a div b) x"
    have t: "uint ?t = (uint a div uint b) * uint x mod 2147483647" "?t \<le> PR"
      using mult_mod_uint [OF q, of x] IH(2) by (simp_all add: uint_div less_imp_le)
    have y: "uint (add_mod y (additive_inverse ?t)) = (uint y - (uint a div uint b) * uint x) mod 2147483647"
      "add_mod y (additive_inverse ?t) < PR"
      using add_mod_uint [OF IH(1) additive_inverse_uint(2) [OF t(2)]] additive_inverse_uint(1) [OF t(2)]
      by (simp_all add: t(1) mod_simps)
    have "(uint a * uint x + uint b * uint (add_mod y (additive_inverse ?t))) mod 2147483647
        = gcd (uint b) (uint (a mod b)) mod 2147483647"
      unfolding y(1) uint_mod IH(3) [unfolded uint_mod, symmetric] by (rule bezout_step) simp
    moreover have "gcd (uint b) (uint (a mod b)) = gcd (uint a) (uint b)"
      by (simp add: uint_mod gcd_red_int [symmetric])
    ultimately show ?thesis using False IH(2) y(2) by (simp add: extend_gcd.simps [of a b] r Let_def)
  qed
qed

lemma prime_31: "is_prime (2 ^ 31 - 1)"
proof (rule certificate)
  let ?qs = "[(331, 411595504), (151, 2069584139)] :: (nat \<times> int) list"
  have steps: "cert_step 31 3 331 411595504" "cert_step 31 3 151 2069584139" by code_simp+
  show "\<forall>(q, i) \<in> set ?qs. is_prime q \<and> cert_step 31 (int 3) (int q) i"
    using steps small_primes by simp
  show "powmod 31 (int 3) (bits_of 31 (2 ^ 31 - 2)) mod (2 ^ 31 - 1) = 1"
    unfolding of_nat_numeral by code_simp
qed simp_all

lemma multiplicative_inverse_uint:
  assumes "x < PR"
  shows "multiplicative_inverse x < PR" "x \<noteq> 0 \<Longrightarrow> uint x * uint (multiplicative_inverse x) mod 2147483647 = 1"
    "multiplicative_inverse 0 = 0"
proof -
  obtain u v where r: "extend_gcd PR x = (u, v)" by fastforce
  have b: "v < PR" "(uint PR * uint u + uint x * uint v) mod 2147483647 = gcd (uint PR) (uint x) mod 2147483647"
    using extend_gcd_bezout [of PR x] assms r by (simp_all add: less_imp_le)
  have i: "multiplicative_inverse x = v" by (simp add: multiplicative_inverse_def r)
  then show "multiplicative_inverse x < PR" using b by simp
  show "uint x * uint (multiplicative_inverse x) mod 2147483647 = 1" if "x \<noteq> 0"
  proof -
    have "0 < nat (uint x)" "nat (uint x) < 2147483647"
      using that assms by (simp_all add: gfp_canonical word_neq_0_conv word_less_def uint_PR del: nat_uint_eq)
    then have "coprime (2 ^ 31 - 1) (nat (uint x))" by (intro is_prime_mod_coprime [OF prime_31]) simp_all
    then have "coprime (int (2 ^ 31 - 1)) (int (nat (uint x)))" by (simp only: coprime_int_iff)
    then have "gcd (uint PR) (uint x) = 1" by (simp add: uint_PR)
    then show ?thesis using b(2) by (simp add: uint_PR i)
  qed
  show "multiplicative_inverse 0 = 0" by (simp add: multiplicative_inverse_def extend_gcd.simps)
qed

section \<open>The canonical words are a field\<close>

typedef gfp = "{x :: u32. x < PR}"
  by (rule exI [of _ 0]) (simp add: PR_def)

setup_lifting type_definition_gfp

definition gval :: "gfp \<Rightarrow> int" where
  "gval x = uint (Rep_gfp x)"

lemma Rep_gfp_less: "Rep_gfp x < PR"
  using Rep_gfp [of x] by simp

lemma gval_eq_iff: "x = y \<longleftrightarrow> gval x = gval y"
  by (simp add: gval_def word_uint_eq_iff [symmetric] Rep_gfp_inject)

lemma gval_range: "0 \<le> gval x" "gval x < 2147483647"
  using Rep_gfp_less [of x] by (simp_all add: gval_def gfp_canonical)

lemma gval_mod [simp]: "gval x mod 2147483647 = gval x"
  using gval_range [of x] by (simp add: mod_pos_pos_trivial)

instantiation gfp :: field
begin

lift_definition zero_gfp :: gfp is "0" by (simp add: PR_def)
lift_definition one_gfp :: gfp is "1" by (simp add: PR_def)
lift_definition plus_gfp :: "gfp \<Rightarrow> gfp \<Rightarrow> gfp" is gfp_add
  by (simp add: gfp_add_def add_mod_uint)
lift_definition minus_gfp :: "gfp \<Rightarrow> gfp \<Rightarrow> gfp" is gfp_sub
  by (simp add: gfp_sub_def add_mod_uint additive_inverse_uint less_imp_le)
lift_definition times_gfp :: "gfp \<Rightarrow> gfp \<Rightarrow> gfp" is gfp_mul
  by (simp add: gfp_mul_def mult_mod_uint less_imp_le)
lift_definition uminus_gfp :: "gfp \<Rightarrow> gfp" is gfp_neg
  by (simp add: gfp_neg_def additive_inverse_uint less_imp_le)
lift_definition inverse_gfp :: "gfp \<Rightarrow> gfp" is gfp_inverse
  by (simp add: gfp_inverse_def multiplicative_inverse_uint)
lift_definition divide_gfp :: "gfp \<Rightarrow> gfp \<Rightarrow> gfp" is gfp_div
  by (simp add: gfp_div_def mult_mod_uint multiplicative_inverse_uint less_imp_le)

lemma gval_ops:
  "gval 0 = 0" "gval 1 = 1"
  "gval (x + y) = (gval x + gval y) mod 2147483647"
  "gval (x - y) = (gval x - gval y) mod 2147483647"
  "gval (x * y) = gval x * gval y mod 2147483647"
  "gval (- x) = (- gval x) mod 2147483647"
  unfolding gval_def
  by (transfer, simp add: gfp_add_def gfp_sub_def gfp_mul_def gfp_neg_def add_mod_uint mult_mod_uint
      additive_inverse_uint less_imp_le mod_simps)+

lemma gfp_inverse_left: "x \<noteq> 0 \<Longrightarrow> inverse x * x = (1 :: gfp)"
proof (transfer)
  fix t :: u32
  assume t: "t < PR" "t \<noteq> 0"
  have "uint (gfp_mul (gfp_inverse t) t) = uint (1 :: u32)"
    using mult_mod_uint(1) [of "multiplicative_inverse t" t] multiplicative_inverse_uint [OF t(1)] t
    by (simp add: gfp_mul_def gfp_inverse_def less_imp_le mult.commute)
  then show "gfp_mul (gfp_inverse t) t = 1" by (simp only: word_uint_eq_iff)
qed

instance
proof
  fix a b c :: gfp
  show "a + b + c = a + (b + c)" "a * b * c = a * (b * c)" "(a + b) * c = a * c + b * c"
    by (simp_all add: gval_eq_iff gval_ops mod_simps algebra_simps)
  show "a + b = b + a" "a * b = b * a" "0 + a = a" "1 * a = a" "- a + a = 0" "a - b = a + - b"
    by (simp_all add: gval_eq_iff gval_ops mod_simps ac_simps)
  show "(0 :: gfp) \<noteq> 1" by (simp add: gval_eq_iff gval_ops)
  show "a \<noteq> 0 \<Longrightarrow> inverse a * a = 1" by (rule gfp_inverse_left)
  show "a div b = a * inverse b" by transfer (simp add: gfp_div_def gfp_mul_def gfp_inverse_def)
  show "inverse (0 :: gfp) = 0" by transfer (simp add: gfp_inverse_def multiplicative_inverse_uint(3) [OF Rep_gfp_less])
qed

end

instantiation gfp :: equal
begin

lift_definition equal_gfp :: "gfp \<Rightarrow> gfp \<Rightarrow> bool" is gfp_eq .

instance
  by standard (transfer, simp add: gfp_eq_def)

end

lemma gval_of_nat: "gval (of_nat n) = int n mod 2147483647"
  by (induction n) (simp_all add: gval_ops mod_simps ac_simps)

lemma gval_of_int: "gval (of_int v) = v mod 2147483647"
  by (cases v rule: int_cases2) (simp_all add: gval_of_nat gval_ops mod_simps)

lemma gfp_of_nat_eq_iff:
  "m < 2147483647 \<Longrightarrow> n < 2147483647 \<Longrightarrow> (of_nat m :: gfp) = of_nat n \<longleftrightarrow> m = n"
  by (simp add: gval_eq_iff gval_of_nat mod_pos_pos_trivial)

lemma gfp_of_int_gval [simp]: "of_int (gval x) = x"
  by (simp add: gval_eq_iff gval_of_int)

section \<open>Powers and square roots\<close>

lemma gfp_mul_Rep: "gfp_mul (Rep_gfp x) (Rep_gfp y) = Rep_gfp (x * y)"
  by (simp add: times_gfp.rep_eq)

lemma pow_loop_Rep: "pow_loop ex (Rep_gfp r) (Rep_gfp v) = Rep_gfp (r * v ^ unat ex)"
proof (induction "unat ex" arbitrary: ex r v rule: less_induct)
  case less
  show ?case
  proof (cases "ex = 0")
    case True
    then show ?thesis by (simp add: pow_loop.simps [of 0])
  next
    case False
    then have pos: "0 < unat ex" by (simp add: unat_gt_0)
    have half: "unat (drop_bit 1 ex) = unat ex div 2" by (simp add: unat_drop_bit_eq drop_bit_eq_div unat_div_distrib)
    have odd: "ex AND 1 \<noteq> 0 \<longleftrightarrow> odd (unat ex)"
    proof -
      have "ex AND 1 = 0 \<longleftrightarrow> unat (ex mod 2) = 0" by (simp only: and_one_eq unat_eq_zero)
      also have "\<dots> \<longleftrightarrow> even (unat ex)" by (simp only: unat_mod_distrib) (simp add: even_iff_mod_2_eq_zero)
      finally show ?thesis by simp
    qed
    have sq: "gfp_square (Rep_gfp v) = Rep_gfp (v * v)" using gfp_mul_Rep [of v v] by (simp add: gfp_square_def gfp_mul_def)
    let ?r = "if ex AND 1 \<noteq> 0 then r * v else r"
    have "pow_loop ex (Rep_gfp r) (Rep_gfp v) = pow_loop (drop_bit 1 ex) (Rep_gfp ?r) (Rep_gfp (v * v))"
      using False by (simp add: pow_loop.simps [of ex] gfp_mul_Rep sq)
    also have "\<dots> = Rep_gfp (?r * (v * v) ^ (unat ex div 2))"
      using less [of "drop_bit 1 ex" ?r "v * v"] pos half by simp
    also have "?r * (v * v) ^ (unat ex div 2) = r * v ^ unat ex"
    proof -
      have "(v * v) ^ (unat ex div 2) = v ^ (2 * (unat ex div 2))" by (simp add: power_mult power2_eq_square)
      then show ?thesis unfolding odd
        by (cases "odd (unat ex)") (auto simp: mult.assoc power_Suc [symmetric] simp del: power_Suc elim!: oddE evenE)
    qed
    finally show ?thesis .
  qed
qed

lemma gfp_pow_Rep: "gfp_pow (Rep_gfp x) ex = Rep_gfp (x ^ unat ex)"
  using pow_loop_Rep [of ex 1 x] by (simp add: gfp_pow_def one_gfp.rep_eq)

lemma gval_power: "gval (x ^ n) = gval x ^ n mod 2147483647"
  by (induction n) (simp_all add: gval_ops mod_simps)

lemma gfp_fermat:
  assumes "x \<noteq> 0"
  shows "x ^ 2147483646 = (1 :: gfp)"
proof -
  have x: "0 < nat (gval x)" "nat (gval x) < 2 ^ 31 - 1"
    using assms gval_range [of x] by (auto simp: gval_eq_iff gval_ops)
  then have "\<not> (2 ^ 31 - 1) dvd nat (gval x)" by (auto dest: dvd_imp_le)
  then have "nat (gval x) ^ (2 ^ 31 - 1 - 1) mod (2 ^ 31 - 1) = 1" by (rule fermat_little [OF prime_31])
  then have "int (nat (gval x) ^ (2 ^ 31 - 1 - 1) mod (2 ^ 31 - 1)) = 1" by simp
  moreover have e: "(2 ^ 31 - 1 - 1 :: nat) = 2147483646" "int (2 ^ 31 - 1) = 2147483647" by simp_all
  ultimately have "gval x ^ 2147483646 mod 2147483647 = 1"
    unfolding zmod_int of_nat_power e using gval_range [of x] by (simp only: int_nat_eq if_True)
  then show ?thesis by (simp only: gval_eq_iff gval_power gval_ops)
qed

lemma gfp_sqrt_Rep:
  assumes "x \<noteq> 0"
  shows "\<exists>y. gfp_sqrt (Rep_gfp x) = Inr (Rep_gfp y) \<and> (y * y = x \<or> y * y = - x) \<and> 1 \<le> gval y \<and> gval y < 2 ^ 30"
proof -
  define y where "y = x ^ 536870912"
  define s where "s = x ^ 1073741823"
  have "s * s = x ^ (1073741823 + 1073741823)" unfolding s_def by (rule power_add [symmetric])
  also have "1073741823 + 1073741823 = (2147483646 :: nat)" by simp
  finally have "s * s = 1" using gfp_fermat [OF assms] by simp
  then have "(s - 1) * (s + 1) = 0" by (simp add: algebra_simps)
  then have s: "s = 1 \<or> s = - 1" by (auto simp: eq_neg_iff_add_eq_0)
  have "y * y = x ^ (536870912 + 536870912)" unfolding y_def by (rule power_add [symmetric])
  also have "536870912 + 536870912 = Suc 1073741823" by simp
  finally have yy: "y * y = x * s" unfolding s_def power_Suc .
  with s have sq: "y * y = x \<or> y * y = - x" by auto
  with assms have "y \<noteq> 0" by auto
  then have nz: "1 \<le> gval y" using gval_range [of y] by (simp add: gval_eq_iff gval_ops)
  have se: "unat SQRT_EXP = 536870912" by (simp add: SQRT_EXP_def PR_def drop_bit_eq_div unat_div_distrib)
  have m: "uint MID_PR = 2 ^ 30" by (simp add: MID_PR_def PR_def drop_bit_eq_div)
  have pos: "0 < Rep_gfp x" using assms by (metis Rep_gfp_inject word_neq_0_conv zero_gfp.rep_eq)
  have r: "gfp_sqrt (Rep_gfp x) = (if 1 \<le> gval y \<and> gval y < 2 ^ 30 then Inr (Rep_gfp y) else Inr (Rep_gfp (- y)))"
    using pos by (simp add: gfp_sqrt_def gfp_pow_Rep se y_def [symmetric] Let_def word_le_def word_less_def m gval_def uminus_gfp.rep_eq)
  show ?thesis
  proof (cases "gval y < 2 ^ 30")
    case True
    then show ?thesis using r nz sq by auto
  next
    case False
    have "(- gval y) mod 2147483647 = (2147483647 - gval y) mod 2147483647" by (rule minus_mod_self1 [symmetric])
    also have "\<dots> = 2147483647 - gval y" using nz by (intro mod_pos_pos_trivial) (use gval_range [of y] in auto)
    finally have "gval (- y) = 2147483647 - gval y" by (simp only: gval_ops)
    then have "1 \<le> gval (- y)" "gval (- y) < 2 ^ 30" using False gval_range [of y] by simp_all
    then show ?thesis using r False sq by auto
  qed
qed

lemma gfp_sqrt_square:
  assumes "r \<noteq> 0"
  shows "\<exists>y. gfp_sqrt (Rep_gfp (r * r)) = Inr (Rep_gfp y) \<and> (y = r \<or> y = - r)"
proof -
  have sq: "(r * r) ^ 536870912 = (r :: gfp) \<or> (r * r) ^ 536870912 = - r"
  proof -
    define s where "s = r ^ 1073741823"
    have "s * s = r ^ (1073741823 + 1073741823)" unfolding s_def by (rule power_add [symmetric])
    also have "1073741823 + 1073741823 = (2147483646 :: nat)" by simp
    finally have "(s - 1) * (s + 1) = 0" using gfp_fermat [OF assms] by (simp add: algebra_simps)
    then have s: "s = 1 \<or> s = - 1" by (auto simp: eq_neg_iff_add_eq_0)
    have "(r * r) ^ 536870912 = r ^ 536870912 * r ^ 536870912" by (rule power_mult_distrib)
    also have "\<dots> = r ^ (536870912 + 536870912)" by (rule power_add [symmetric])
    also have "536870912 + 536870912 = Suc 1073741823" by simp
    finally show ?thesis using s unfolding s_def power_Suc by auto
  qed
  have se: "unat SQRT_EXP = 536870912" by (simp add: SQRT_EXP_def PR_def drop_bit_eq_div unat_div_distrib)
  have "0 < Rep_gfp (r * r)" using assms by (metis Rep_gfp_inject mult_eq_0_iff word_neq_0_conv zero_gfp.rep_eq)
  then have "gfp_sqrt (Rep_gfp (r * r)) = Inr (Rep_gfp ((r * r) ^ 536870912)) \<or>
      gfp_sqrt (Rep_gfp (r * r)) = Inr (Rep_gfp (- ((r * r) ^ 536870912)))"
    by (simp add: gfp_sqrt_def gfp_pow_Rep se Let_def uminus_gfp.rep_eq)
  with sq show ?thesis by auto
qed

section \<open>Signed readings\<close>

lemma div_le_dividend_int: "0 \<le> a \<Longrightarrow> a div 2 ^ d \<le> (a :: int)"
  using zdiv_mono2 [of a 1 "2 ^ d"] by simp

text \<open>The signed value of a residue, in \<open>[- (p - 1) / 2, (p - 1) / 2]\<close>, and division toward zero.\<close>

definition sval :: "gfp \<Rightarrow> int" where
  "sval x = (if gval x \<le> 1073741823 then gval x else gval x - 2147483647)"

definition quot0 :: "int \<Rightarrow> int \<Rightarrow> int" where
  "quot0 a b = (if 0 \<le> a then a div b else - (- a div b))"

lemma sval_range: "- 1073741823 \<le> sval x" "sval x \<le> 1073741823"
  using gval_range [of x] by (auto simp: sval_def)

lemma of_int_sval [simp]: "of_int (sval x) = x"
  by (simp add: sval_def gval_eq_iff gval_of_int mod_diff_left_eq [symmetric])

lemma sval_of_int:
  assumes "- 1073741823 \<le> v" "v \<le> 1073741823"
  shows "sval (of_int v) = v"
proof (cases "0 \<le> v")
  case True
  with assms show ?thesis by (simp add: sval_def gval_of_int mod_pos_pos_trivial)
next
  case False
  have "v mod 2147483647 = (v + 2147483647) mod 2147483647" by simp
  also have "\<dots> = v + 2147483647" using assms False by (intro mod_pos_pos_trivial) simp_all
  finally have "gval (of_int v) = v + 2147483647" by (simp only: gval_of_int)
  then show ?thesis using assms False by (simp add: sval_def)
qed

lemma uint_MAX_POSITIVE: "uint MAX_POSITIVE = 1073741823"
  by (simp add: MAX_POSITIVE_def PR_def drop_bit_eq_div)

lemma is_negative_Rep: "is_negative (Rep_gfp x) \<longleftrightarrow> sval x < 0"
  using gval_range [of x] by (auto simp: is_negative_def word_less_def uint_MAX_POSITIVE gval_def sval_def)

lemma neg_Rep: "additive_inverse (Rep_gfp x) = Rep_gfp (- x)"
  by (simp add: uminus_gfp.rep_eq gfp_neg_def)

lemma gval_neg: "gval x \<noteq> 0 \<Longrightarrow> gval (- x) = 2147483647 - gval x"
proof -
  assume nz: "gval x \<noteq> 0"
  have "(- gval x) mod 2147483647 = (2147483647 - gval x) mod 2147483647" by (rule minus_mod_self1 [symmetric])
  also have "\<dots> = 2147483647 - gval x" using nz gval_range [of x] by (intro mod_pos_pos_trivial) auto
  finally show ?thesis by (simp only: gval_ops)
qed

lemma sval_neg: "sval (- x) = - sval x"
proof (cases "gval x = 0")
  case True
  then show ?thesis by (simp add: sval_def gval_ops)
qed (use gval_range [of x] in \<open>auto simp: sval_def gval_neg\<close>)

lemma drop_bit_Rep:
  "\<exists>y. drop_bit d (Rep_gfp x) = Rep_gfp y \<and> gval y = gval x div 2 ^ d"
proof -
  have u: "uint (drop_bit d (Rep_gfp x)) = gval x div 2 ^ d"
    using uint_lt2p [of "Rep_gfp x"] div_le_dividend_int [of "uint (Rep_gfp x)" d]
    unfolding unsigned_drop_bit_eq by (simp add: drop_bit_eq_div take_bit_int_eq_self gval_def)
  have "gval x div 2 ^ d \<le> gval x" using gval_range [of x] by (intro div_le_dividend_int) simp
  then have "drop_bit d (Rep_gfp x) < PR" using u gval_range [of x] by (simp add: gfp_canonical)
  then have "drop_bit d (Rep_gfp x) = Rep_gfp (Abs_gfp (drop_bit d (Rep_gfp x)))"
    by (intro Abs_gfp_inverse [symmetric]) simp
  with u show ?thesis by (metis gval_def)
qed

lemma gfp_truncate_Rep:
  assumes "d < 32"
  shows "\<exists>y. gfp_truncate d (Rep_gfp x) = Inr (Rep_gfp y) \<and> sval y = quot0 (sval x) (2 ^ d)"
proof -
  have small: "gval y div 2 ^ d \<le> gval y" for y using gval_range [of y] by (intro div_le_dividend_int) simp
  show ?thesis
  proof (cases "sval x < 0")
    case True
    obtain y where y: "drop_bit d (Rep_gfp (- x)) = Rep_gfp y" "gval y = gval (- x) div 2 ^ d"
      using drop_bit_Rep by blast
    have g: "gval (- x) = - sval x" using True sval_neg [of x] by (auto simp: sval_def [of "- x"] split: if_splits) (use gval_range [of "- x"] in linarith)
    then have "sval y = - sval x div 2 ^ d"
      using y(2) small [of "- x"] sval_range [of x] by (simp add: sval_def [of y])
    then have "sval (- y) = quot0 (sval x) (2 ^ d)" using True by (simp add: sval_neg quot0_def)
    then show ?thesis using assms True y(1) by (auto simp: gfp_truncate_def is_negative_Rep neg_Rep)
  next
    case False
    obtain y where y: "drop_bit d (Rep_gfp x) = Rep_gfp y" "gval y = gval x div 2 ^ d"
      using drop_bit_Rep by blast
    have g: "gval x = sval x" "gval x \<le> 1073741823" using False gval_range [of x] by (auto simp: sval_def split: if_splits)
    then have "sval y = quot0 (sval x) (2 ^ d)" using y(2) small [of x] False by (simp add: sval_def [of y] quot0_def)
    then show ?thesis using assms False y(1) by (auto simp: gfp_truncate_def is_negative_Rep)
  qed
qed

lemma map_int_to_gfp_Rep:
  assumes "- 2147483647 < v" "v < 2147483647"
  shows "map_int_to_gfp v = Rep_gfp (of_int v)"
proof -
  have "v mod 2147483647 = (if v < 0 then v + 2147483647 else v)"
  proof (cases "v < 0")
    case True
    have "v mod 2147483647 = (v + 2147483647) mod 2147483647" by simp
    also have "\<dots> = v + 2147483647" using assms True by (intro mod_pos_pos_trivial) simp_all
    finally show ?thesis using True by simp
  qed (use assms in \<open>simp add: mod_pos_pos_trivial\<close>)
  then have "uint (map_int_to_gfp v) = gval (of_int v)"
    using assms unfolding map_int_to_gfp_def gval_of_int uint_PR if_distrib [of uint] uint_word_of_int
    by (simp add: mod_pos_pos_trivial)
  then show ?thesis by (simp add: gval_def word_uint_eq_iff)
qed

lemma map_gfp_to_int_Rep: "map_gfp_to_int (Rep_gfp x) = Inr (sval x)"
proof -
  have s: "sint (Rep_gfp x) = gval x"
    using gval_range [of x] unfolding gval_def sint_uint by (subst signed_take_bit_int_eq_self) (simp_all add: order_trans [OF _ uint_ge_0])
  have "(word_of_int (gval x) :: u32) > MAX_POSITIVE \<longleftrightarrow> gval x > 1073741823"
    using gval_range [of x] by (simp add: word_less_def uint_MAX_POSITIVE gval_def)
  then show ?thesis
    using gval_range [of x] by (simp add: map_gfp_to_int_def s Let_def sval_def chk_Inr uint_PR)
qed

lemma gfp_pack_roundtrip: "gfp_unpack (gfp_pack w) = w"
  using le_word_le_bytes [of 4 w] by (simp add: gfp_pack_def gfp_unpack_def take_bit_word_eq_self)

lemma Rep_cases: "x < PR \<Longrightarrow> \<exists>u. x = Rep_gfp u"
  by (metis Abs_gfp_inverse mem_Collect_eq)

lemma magnify_Rep:
  assumes "\<bar>sval x\<bar> < 2 ^ 18"
  shows "magnify (Rep_gfp x) = Rep_gfp (of_int (sval x * 4096))"
proof -
  have push: "push_bit FIXED_PRECISION (Rep_gfp u) = Rep_gfp (of_int (gval u * 4096))" if "gval u < 2 ^ 18" for u
  proof -
    have "uint (push_bit FIXED_PRECISION (Rep_gfp u)) = gval u * 4096"
      using that gval_range [of u] unfolding FIXED_PRECISION_def unsigned_push_bit_eq gval_def [symmetric]
      by (simp add: push_bit_eq_mult take_bit_int_eq_self)
    moreover have "gval (of_int (gval u * 4096)) = gval u * 4096"
      unfolding gval_of_int using that gval_range [of u] by (intro mod_pos_pos_trivial) simp_all
    ultimately show ?thesis by (simp add: gval_def word_uint_eq_iff)
  qed
  show ?thesis
  proof (cases "sval x < 0")
    case True
    have g: "gval (- x) = - sval x" using True sval_neg [of x] by (auto simp: sval_def [of "- x"] split: if_splits) (use gval_range [of "- x"] in linarith)
    then have "magnify (Rep_gfp x) = Rep_gfp (- of_int (- sval x * 4096))"
      using True assms push [of "- x"] by (simp add: magnify_def is_negative_Rep neg_Rep)
    then show ?thesis by simp
  next
    case False
    then have "gval x = sval x" by (auto simp: sval_def split: if_splits) (use gval_range [of x] in linarith)
    then show ?thesis using False assms push [of x] by (simp add: magnify_def is_negative_Rep)
  qed
qed

section \<open>Properties\<close>

text \<open>
  C39: the arithmetic of \<open>gfpScalar\<close> on canonical 32-bit words is that of the integers modulo the prime
  \<open>2^31 - 1\<close>, for every operator and with canonical results: no sum or product loses bits, the quotient of the
  extended Euclidean algorithm (whose coefficients are kept modulo the prime) is the inverse, dividing by zero
  gives zero, \<open>pow\<close> is the power, and reducing any drawn word is its residue.
\<close>

theorem gfpScalar_field:
  assumes "x < PR" "y < PR"
  shows "uint (gfp_add x y) = (uint x + uint y) mod (2 ^ 31 - 1) \<and> uint (gfp_sub x y) = (uint x - uint y) mod (2 ^ 31 - 1)
    \<and> uint (gfp_neg x) = (- uint x) mod (2 ^ 31 - 1) \<and> uint (gfp_mul x y) = uint x * uint y mod (2 ^ 31 - 1)
    \<and> uint (gfp_square x) = (uint x)\<^sup>2 mod (2 ^ 31 - 1) \<and> uint (gfp_pow x e) = uint x ^ unat e mod (2 ^ 31 - 1)
    \<and> gfp_div x y < PR \<and> (y \<noteq> 0 \<longrightarrow> gfp_mul (gfp_div x y) y = x \<and> test_inverse y (gfp_inverse y)) \<and> gfp_div x 0 = 0
    \<and> (gfp_lt x y \<longleftrightarrow> uint x < uint y) \<and> uint (modPrime w) = uint w mod (2 ^ 31 - 1)"
proof -
  obtain u v where uv: "x = Rep_gfp u" "y = Rep_gfp v" using Rep_cases assms by blast
  have p: "(2 ^ 31 - 1 :: int) = 2147483647" by simp
  have ops: "gfp_add x y = Rep_gfp (u + v)" "gfp_sub x y = Rep_gfp (u - v)" "gfp_neg x = Rep_gfp (- u)" "gfp_mul x y = Rep_gfp (u * v)"
    "gfp_square x = Rep_gfp (u * u)" "gfp_pow x e = Rep_gfp (u ^ unat e)" "gfp_div x y = Rep_gfp (u / v)" "gfp_inverse y = Rep_gfp (inverse v)"
    "gfp_div x 0 = Rep_gfp (u / 0)"
    by (simp_all add: uv plus_gfp.rep_eq minus_gfp.rep_eq uminus_gfp.rep_eq times_gfp.rep_eq gfp_pow_Rep divide_gfp.rep_eq inverse_gfp.rep_eq
        zero_gfp.rep_eq gfp_square_def gfp_mul_def del: div_by_0)
  have nz: "v \<noteq> 0" if "y \<noteq> 0" using that uv by (auto simp: zero_gfp.rep_eq)
  have inv: "test_inverse y (gfp_inverse y)" if "y \<noteq> 0"
    using gfp_mul_Rep [of v "inverse v"] nz [OF that] by (simp add: test_inverse_def uv gfp_mul_def one_gfp.rep_eq inverse_gfp.rep_eq)
  have "gfp_mul (gfp_div x y) y = x" if "y \<noteq> 0" using nz [OF that] by (simp add: ops) (simp add: uv gfp_mul_Rep)
  with inv show ?thesis
    unfolding p ops gval_def [symmetric] gval_ops gval_power modPrime_uint
    by (simp add: uv gval_def [symmetric] power2_eq_square zero_gfp.rep_eq gfp_lt_def word_less_def uint_PR gval_range)
qed

theorem gfpScalar_field_witness:
  "uint (gfp_add 2147483646 5) = 4 \<and> gfp_mul (gfp_div 7 2147483646) 2147483646 = 7"
  using gfpScalar_field [of 2147483646 5 0 0] gfpScalar_field [of 7 2147483646 0 0] by (simp add: PR_def)

text \<open>
  \<open>sqrt\<close> returns for every nonzero scalar the canonical root in \<open>[1, (p - 1) / 2]\<close>: its square is the
  argument when that is a square and its negation otherwise, so that the root of \<open>r * r\<close> is \<open>r\<close> or \<open>- r\<close>; zero
  fails the assertion of \<open>sqrt\<close> and passes unchanged through \<open>rsqrt\<close>.
\<close>

theorem gfp_square_root:
  assumes "x < PR" "x \<noteq> 0"
  shows "(\<exists>y. gfp_sqrt x = Inr y \<and> 1 \<le> y \<and> y < MID_PR \<and> (gfp_square y = x \<or> gfp_square y = gfp_neg x)
           \<and> gfp_rsqrt x = Inr (gfp_inverse y))
    \<and> (\<forall>r. r < PR \<longrightarrow> gfp_square r = x \<longrightarrow> gfp_sqrt x = Inr r \<or> gfp_sqrt x = Inr (gfp_neg r))
    \<and> gfp_sqrt 0 = Inl Assert_failed \<and> gfp_rsqrt 0 = Inr 0"
proof -
  obtain u where u: "x = Rep_gfp u" using Rep_cases assms(1) by blast
  have nz: "u \<noteq> 0" using assms(2) u by (auto simp: zero_gfp.rep_eq)
  have sq: "gfp_square (Rep_gfp v) = Rep_gfp (v * v)" for v using gfp_mul_Rep [of v v] by (simp add: gfp_square_def gfp_mul_def)
  have m: "uint MID_PR = 2 ^ 30" by (simp add: MID_PR_def PR_def drop_bit_eq_div)
  obtain v where v: "gfp_sqrt x = Inr (Rep_gfp v)" "v * v = u \<or> v * v = - u" "1 \<le> gval v" "gval v < 2 ^ 30"
    using gfp_sqrt_Rep [OF nz] u by blast
  have "gfp_square (Rep_gfp v) = x \<or> gfp_square (Rep_gfp v) = gfp_neg x"
    using v(2) by (auto simp: sq u uminus_gfp.rep_eq)
  moreover have "1 \<le> Rep_gfp v" "Rep_gfp v < MID_PR" using v(3,4) by (simp_all add: word_le_def word_less_def m gval_def)
  moreover have "gfp_rsqrt x = Inr (gfp_inverse (Rep_gfp v))" using assms(2) v(1) by (simp add: gfp_rsqrt_def)
  moreover have "gfp_sqrt x = Inr r \<or> gfp_sqrt x = Inr (gfp_neg r)" if r: "r < PR" "gfp_square r = x" for r
  proof -
    obtain z where z: "r = Rep_gfp z" using Rep_cases r(1) by blast
    then have "u = z * z" using r(2) u sq [of z] by (simp add: Rep_gfp_inject)
    then show ?thesis using gfp_sqrt_square [of z] nz u z by (auto simp: uminus_gfp.rep_eq)
  qed
  moreover have "gfp_sqrt 0 = Inl Assert_failed" "gfp_rsqrt 0 = Inr 0" by (simp_all add: gfp_sqrt_def gfp_rsqrt_def)
  ultimately show ?thesis using v(1) by blast
qed

theorem gfp_square_root_witness:
  "gfp_sqrt 4 = Inr 2 \<or> gfp_sqrt 4 = Inr (gfp_neg 2)"
proof -
  have "(2 :: u32) < PR" "gfp_square 2 = 4"
    using mult_mod_uint [of 2 2] by (simp_all add: PR_def gfp_square_def word_uint_eq_iff)
  then show ?thesis using gfp_square_root [of 4] by (simp add: PR_def)
qed

end
