(* ===== verification/GfpMat.thy ===== *)
theory GfpMat
  imports Gfp31 Interp
begin

text \<open>
  The helpers of \<open>Math/gfpMatrix.h\<close> and the coefficient tables of \<open>Math/constMatrix.h\<close>. A vector, and a matrix
  that the code walks with one index in its row-major storage, is the list of its entries; where rows matter the
  matrix is the list of its rows. Entries are scalars of the type \<open>gfp\<close>, the canonical words.
\<close>

section \<open>Scalars and their words\<close>

text \<open>The scalar that a word of a table holds; for the words of the tables, which are canonical, it is that word.\<close>

definition gfp_of_word :: "u32 \<Rightarrow> gfp" where
  "gfp_of_word w = of_int (uint w)"

lemma Rep_gfp_of_word: "w < PR \<Longrightarrow> Rep_gfp (gfp_of_word w) = w"
  by (metis Rep_cases gfp_of_word_def gval_def gfp_of_int_gval)

lemma gfp_of_word_Rep [simp]: "gfp_of_word (Rep_gfp x) = x"
  by (metis gfp_of_word_def gval_def gfp_of_int_gval)

section \<open>The helpers of the matrices\<close>

text \<open>Every entry is drawn in turn.\<close>

primrec random_matrix :: "('g \<Rightarrow> u32 \<times> 'g) \<Rightarrow> nat \<Rightarrow> 'g \<Rightarrow> gfp list \<times> 'g" where
  "random_matrix get_uint 0 g = ([], g)"
| "random_matrix get_uint (Suc n) g =
     (let (w, g) = gfp_random get_uint g; (ws, g) = random_matrix get_uint n g in (gfp_of_word w # ws, g))"

definition truncate_scalar :: "nat \<Rightarrow> gfp \<Rightarrow> gfp res" where
  "truncate_scalar d x = map_sum id gfp_of_word (gfp_truncate d (Rep_gfp x))"

definition truncate_matrix :: "nat \<Rightarrow> gfp list \<Rightarrow> gfp list res" where
  "truncate_matrix precision m = mapE (truncate_scalar precision) m"

definition msb_scalar :: "gfp \<Rightarrow> gfp" where
  "msb_scalar x = gfp_of_word (gfp_msb (Rep_gfp x))"

definition getMSB_matrix :: "gfp list \<Rightarrow> gfp list" where
  "getMSB_matrix input = map msb_scalar input"

text \<open>
  Row \<open>i\<close> of a matrix goes to the stream \<open>i\<close>: the bytes appended to each. Reading back, a stream of length zero
  (the party's own) leaves its row as it was.
\<close>

definition pack_entries :: "gfp list \<Rightarrow> 8 word list" where
  "pack_entries xs = concat (map (\<lambda>x. gfp_pack (Rep_gfp x)) xs)"

fun unpack_entries :: "nat \<Rightarrow> 8 word list \<Rightarrow> gfp list" where
  "unpack_entries 0 bs = []"
| "unpack_entries (Suc n) bs = gfp_of_word (gfp_unpack (take 4 bs)) # unpack_entries n (drop 4 bs)"

definition pack_row :: "gfp list list \<Rightarrow> nat \<Rightarrow> 8 word list list res" where
  "pack_row matrix n = throw_if (length matrix \<noteq> n) Assert_failed (Inr (map pack_entries matrix))"

definition unpack_row :: "gfp list list \<Rightarrow> 8 word list list \<Rightarrow> gfp list list res" where
  "unpack_row matrix os = throw_if (length matrix \<noteq> length os) Assert_failed
     (mapE (\<lambda>(row, o'). if o' = [] then Inr row
        else throw_if (length o' < 4 * length row) Undefined (Inr (unpack_entries (length row) o'))) (zip matrix os))"

text \<open>
  The partition of the rows among the streams (\<open>pack_rows\<close> over several streams, \<open>ShareBundle::partition_rows\<close>):
  everyone gets the quotient, the first one the remainder as well.
\<close>

definition partition_rows :: "nat \<Rightarrow> nat \<Rightarrow> nat \<Rightarrow> nat \<times> nat" where
  "partition_rows rows n_players my_num =
     (let n_rows = rows div n_players; first_n_rows = rows - n_rows * (n_players - 1)
      in if my_num = 0 then (0, first_n_rows) else (first_n_rows + n_rows * (my_num - 1), n_rows))"

definition pack_rows :: "gfp list list \<Rightarrow> nat \<Rightarrow> 8 word list list res" where
  "pack_rows matrix n = throw_if (n = 0) Assert_failed
     (let n_rows = length matrix div n; first_n_rows = length matrix - n_rows * (n - 1)
      in Inr (pack_entries (concat (take first_n_rows matrix))
              # map (\<lambda>i. pack_entries (concat (take n_rows (drop (first_n_rows + n_rows * (i - 1)) matrix)))) [1..<n]))"

text \<open>The bits of a scalar, the lowest first; a bit beyond the row is an index out of range.\<close>

function decompose_loop :: "u32 \<Rightarrow> nat \<Rightarrow> gfp list \<Rightarrow> gfp list res" where
  "decompose_loop x idx res =
     (if is_zero x then Inr res
      else bindE (vset res idx (gfp_of_word (x AND 1))) (\<lambda>res. decompose_loop (drop_bit 1 x) (idx + 1) res))"
  by pat_completeness auto
termination
proof (relation "measure (\<lambda>(x, _, _). unat x)")
  fix x :: u32 and idx :: nat and res :: "gfp list" and r
  assume "\<not> is_zero x"
  then have "0 < unat x" by (simp add: unat_gt_0 is_zero_def)
  then show "((drop_bit 1 x, idx + 1, r), (x, idx, res)) \<in> measure (\<lambda>(x, _, _). unat x)"
    by (simp add: drop_bit_eq_div unat_div_distrib)
qed simp

declare decompose_loop.simps [simp del]

definition decompose_bits :: "gfp \<Rightarrow> nat \<Rightarrow> gfp list res" where
  "decompose_bits x bit_length = decompose_loop (Rep_gfp x) 0 (replicate bit_length 0)"

definition decompose_bits_vector :: "gfp list \<Rightarrow> nat \<Rightarrow> gfp list list res" where
  "decompose_bits_vector xs bit_length = mapE (\<lambda>x. decompose_bits x bit_length) xs"

text \<open>Prefix products, and all inverses of a vector at the price of one.\<close>

definition prefixMult :: "gfp list \<Rightarrow> gfp list res" where
  "prefixMult a = throw_if (a = []) Assert_failed
     (Inr (fold (\<lambda>i res. res[i := res ! (i - 1) * a ! i]) [1..<length a] ((replicate (length a) 0)[0 := a ! 0])))"

definition batch_inversion :: "gfp list \<Rightarrow> gfp list res" where
  "batch_inversion a = bindE (prefixMult a) (\<lambda>a_prefix_mult.
     let n = length a;
         inv_all = inverse (last a_prefix_mult);
         a_prefix_inv = fold (\<lambda>i q. q[i - 1 := q ! i * a ! i]) (rev [1..<n]) ((replicate n 0)[n - 1 := inv_all])
     in Inr (a_prefix_inv ! 0 # map (\<lambda>i. a_prefix_mult ! (i - 1) * a_prefix_inv ! i) [1..<n]))"

section \<open>The coefficient tables\<close>

definition constOr1Bits :: "u32 list" where
  "constOr1Bits = [2147483646, 1]"

definition constOr2Bits :: "u32 list" where
  "constOr2Bits = [2147483645, 1073741826, 1073741823]"

definition constOr3Bits :: "u32 list" where
  "constOr3Bits = [2147483644, 1431655769, 1073741822, 1789569706]"

definition constOr4Bits :: "u32 list" where
  "constOr4Bits = [2147483643, 178956977, 1521134247, 1968526677, 626349397]"

definition constOr5Bits :: "u32 list" where
  "constOr5Bits = [2147483642, 1932735291, 1789569701, 2058005163, 357913941, 304226850]"

definition constOr6Bits :: "u32 list" where
  "constOr6Bits = [2147483641, 1181116017, 1049880887, 671088642, 74565404, 1369020825, 2096779172]"

definition constOr7Bits :: "u32 list" where
  "constOr7Bits = [2147483640, 122713365, 417566255, 310192086, 909697933, 1553943028, 1893961272, 1234377009]"

definition constOr8Bits :: "u32 list" where
  "constOr8Bits = [2147483639, 1480229816, 991293778, 28334859, 716200708, 1366038209, 862721729, 1420364432, 1724751065]"

definition constAnd1Bits :: "u32 list" where
  "constAnd1Bits = [2147483646, 1]"

definition constAnd2Bits :: "u32 list" where
  "constAnd2Bits = [1, 1073741822, 1073741824]"

definition constAnd3Bits :: "u32 list" where
  "constAnd3Bits = [2147483646, 357913943, 2147483646, 1789569706]"

definition constAnd4Bits :: "u32 list" where
  "constAnd4Bits = [1, 1252698792, 1700091222, 1968526676, 1521134250]"

definition constAnd5Bits :: "u32 list" where
  "constAnd5Bits = [2147483646, 1753778314, 268435454, 89478486, 1879048191, 304226850]"

definition constAnd6Bits :: "u32 list" where
  "constAnd6Bits = [1, 751619274, 739688814, 1386916521, 283348537, 1082689672, 50704475]"

definition constAnd7Bits :: "u32 list" where
  "constAnd7Bits = [2147483646, 1089080995, 1515169015, 1786587091, 835132529, 184922203, 1944665747, 1234377009]"

definition constAnd8Bits :: "u32 list" where
  "constAnd8Bits = [1, 789967196, 1573756124, 281857227, 193497225, 187904819, 1031239543, 1961496224, 422732582]"

definition constAnd16Bits :: "u32 list" where
  "constAnd16Bits = [1, 1366869524, 898997883, 882203628, 469464442, 1244796818, 966139079, 1443938264, 975111214, 252205337, 1909714232,
    1068090755, 836829403, 1514608695, 2073872857, 1890963382, 1533547309]"

definition constAnd32Bits :: "u32 list" where
  "constAnd32Bits = [1, 1618843883, 489735049, 1182983401, 505227199, 59713576, 2010253104, 638793373, 293690690, 2002692183, 1134412297,
    1874182322, 1224085901, 503474299, 432088043, 1982756836, 1860867313, 1159601743, 1460510234, 1349038389, 615027772,
    250794342, 1571647141, 248716233, 253242131, 363353216, 1583218092, 1198742991, 1364732016, 1365136495, 226096170,
    307304054, 1081294216]"

definition constXor8Bits :: "u32 list" where
  "constXor8Bits = [2147483392, 511306287, 2140665578, 954437524, 1002158929, 954437196, 1574821339, 1874787311, 1724804326]"

text \<open>The switch statements; every other degree fails the assertion, an unknown name returns nothing.\<close>

definition getFuncOrConsts :: "nat \<Rightarrow> u32 list res" where
  "getFuncOrConsts degree =
    (if degree = 8 then Inr constOr8Bits
     else if degree = 7 then Inr constOr7Bits
     else if degree = 6 then Inr constOr6Bits
     else if degree = 5 then Inr constOr5Bits
     else if degree = 4 then Inr constOr4Bits
     else if degree = 3 then Inr constOr3Bits
     else if degree = 2 then Inr constOr2Bits
     else if degree = 1 then Inr constOr1Bits
     else Inl Assert_failed)"

definition getFuncAndConsts :: "nat \<Rightarrow> u32 list res" where
  "getFuncAndConsts degree =
    (if degree = 32 then Inr constAnd32Bits
     else if degree = 16 then Inr constAnd16Bits
     else if degree = 8 then Inr constAnd8Bits
     else if degree = 7 then Inr constAnd7Bits
     else if degree = 6 then Inr constAnd6Bits
     else if degree = 5 then Inr constAnd5Bits
     else if degree = 4 then Inr constAnd4Bits
     else if degree = 3 then Inr constAnd3Bits
     else if degree = 2 then Inr constAnd2Bits
     else if degree = 1 then Inr constAnd1Bits
     else Inl Assert_failed)"

definition getFuncXorConsts :: "nat \<Rightarrow> u32 list res" where
  "getFuncXorConsts degree = (if degree = 8 then Inr constXor8Bits else Inl Assert_failed)"

definition getFuncConsts :: "string \<Rightarrow> nat \<Rightarrow> u32 list res" where
  "getFuncConsts fn degree =
    (if fn = ''OR'' then getFuncOrConsts degree
     else if fn = ''AND'' then getFuncAndConsts degree
     else if fn = ''XOR'' then getFuncXorConsts degree
     else Inl Undefined)"

lemma mapE_of_map: "mapE f (map g xs) = mapE (\<lambda>x. f (g x)) xs"
  by (induction xs) simp_all

section \<open>Bytes and blocks\<close>

lemma length_pack_entries [simp]: "length (pack_entries xs) = 4 * length xs"
  by (induction xs) (simp_all add: pack_entries_def gfp_pack_def)

lemma unpack_pack_entries: "unpack_entries (length xs) (pack_entries xs @ ys) = xs"
proof (induction xs)
  case (Cons x xs)
  have "pack_entries (x # xs) = gfp_pack (Rep_gfp x) @ pack_entries xs" by (simp add: pack_entries_def)
  moreover have "length (gfp_pack (Rep_gfp x)) = 4" by (simp add: gfp_pack_def)
  ultimately show ?case using Cons by (simp add: gfp_pack_roundtrip)
qed simp

lemma partition_rows_cover:
  assumes "0 < n"
  shows "concat (map (\<lambda>i. case partition_rows rows n i of (start, len) \<Rightarrow> [start..<start + len]) [0..<n]) = [0..<rows]"
proof -
  define q where "q = rows div n"
  define f where "f = rows - q * (n - 1)"
  have qn: "q * (n - 1) \<le> rows"
    using div_times_less_eq_dividend [of rows n] unfolding q_def by (meson diff_le_self le_trans mult_le_mono2)
  have "concat (map (\<lambda>i. case partition_rows rows n i of (start, len) \<Rightarrow> [start..<start + len]) [0..<Suc k]) = [0..<f + q * k]" for k
  proof (induction k)
    case 0
    then show ?case by (simp add: partition_rows_def Let_def f_def q_def)
  next
    case (Suc k)
    have "partition_rows rows n (Suc k) = (f + q * k, q)" by (simp add: partition_rows_def Let_def f_def q_def)
    moreover have "[0..<f + q * Suc k] = [0..<f + q * k] @ [f + q * k..<f + q * k + q]"
      using upt_add_eq_append [of 0 "f + q * k" q] by (simp add: ac_simps)
    moreover have "[0..<Suc (Suc k)] = [0..<Suc k] @ [Suc k]" by simp
    ultimately show ?case using Suc by (simp only: map_append concat_append list.map concat.simps prod.case append_Nil2)
  qed
  from this [of "n - 1"] show ?thesis using assms qn by (simp add: f_def)
qed

section \<open>Bits\<close>

lemma decompose_loop_correct:
  "uint x < 2 ^ k \<Longrightarrow> decompose_loop x (length ys) (ys @ replicate k 0) = Inr (ys @ map (\<lambda>i. of_bool (bit x i)) [0..<k])"
proof (induction k arbitrary: x ys)
  case 0
  then have "uint x < 1" by simp
  then have "uint x = 0" using uint_ge_0 [of x] by linarith
  then have "x = 0" by (simp add: word_uint_eq_iff)
  then show ?case by (simp add: decompose_loop.simps [of 0] is_zero_def)
next
  case (Suc k)
  show ?case
  proof (cases "x = 0")
    case True
    have "map (\<lambda>i. of_bool (bit (0 :: u32) i)) [0..<Suc k] = replicate (Suc k) (0 :: gfp)"
      by (simp add: map_replicate_const)
    then show ?thesis by (simp add: True decompose_loop.simps [of 0] is_zero_def)
  next
    case False
    have b: "gfp_of_word (x AND 1) = of_bool (bit x 0)"
      by (cases "odd x") (simp_all add: bit_0 and_one_eq gfp_of_word_def odd_iff_mod_2_eq_one)
    have lt: "uint (drop_bit 1 x) < 2 ^ k"
      using Suc.prems by (simp add: drop_bit_eq_div uint_div div_less_iff_less_mult mult.commute)
    have "decompose_loop x (length ys) (ys @ replicate (Suc k) 0)
        = decompose_loop (drop_bit 1 x) (length (ys @ [of_bool (bit x 0)])) ((ys @ [of_bool (bit x 0)]) @ replicate k 0)"
      using False by (simp add: decompose_loop.simps [of x] is_zero_def b list_update_append)
    also have "\<dots> = Inr ((ys @ [of_bool (bit x 0)]) @ map (\<lambda>i. of_bool (bit (drop_bit 1 x) i)) [0..<k])"
      by (rule Suc.IH [OF lt])
    also have "map (\<lambda>i. of_bool (bit (drop_bit 1 x) i) :: gfp) [0..<k] = map (\<lambda>i. of_bool (bit x i)) (map Suc [0..<k])"
      by (simp add: bit_drop_bit_eq)
    also have "(ys @ [of_bool (bit x 0)]) @ map (\<lambda>i. of_bool (bit x i)) (map Suc [0..<k]) = ys @ map (\<lambda>i. of_bool (bit x i)) [0..<Suc k]"
      unfolding map_Suc_upt upt_conv_Cons [OF zero_less_Suc] by simp
    finally show ?thesis .
  qed
qed

lemma decompose_bits_correct:
  "gval x < 2 ^ n \<Longrightarrow> decompose_bits x n = Inr (map (\<lambda>i. of_bool (bit (gval x) i)) [0..<n])"
  using decompose_loop_correct [of "Rep_gfp x" n "[]"]
  by (simp add: decompose_bits_def gval_def bit_unsigned_iff bit_imp_le_length cong: map_cong)

section \<open>Batch inversion\<close>

lemma prefixMult_correct:
  assumes "a \<noteq> []"
  shows "prefixMult a = Inr (map (\<lambda>i. prod_list (take (Suc i) a)) [0..<length a])"
proof -
  define r0 where "r0 = (replicate (length a) 0)[0 := a ! 0]"
  have "length (fold (\<lambda>i res. res[i := res ! (i - 1) * a ! i]) [1..<Suc k] r0) = length a \<and>
      (\<forall>i \<le> k. fold (\<lambda>i res. res[i := res ! (i - 1) * a ! i]) [1..<Suc k] r0 ! i = prod_list (take (Suc i) a))"
    if "k < length a" for k
    using that
  proof (induction k)
    case 0
    then show ?case by (simp add: r0_def take_Suc_conv_app_nth)
  next
    case (Suc k)
    have "[1..<Suc (Suc k)] = [1..<Suc k] @ [Suc k]" by simp
    then show ?case using Suc by (auto simp: nth_list_update le_Suc_eq take_Suc_conv_app_nth [of "Suc k"])
  qed
  from this [of "length a - 1"] assms show ?thesis
    unfolding prefixMult_def r0_def by (auto intro!: nth_equalityI)
qed

lemma prod_list_split: "i < length a \<Longrightarrow> prod_list (take i a) * a ! i * prod_list (drop (Suc i) a) = prod_list (a :: 'a::comm_monoid_mult list)"
  by (metis id_take_nth_drop mult.assoc prod_list.Cons prod_list.append)

lemma batch_inversion_correct:
  assumes "a \<noteq> []"
  shows "batch_inversion a = Inr (if 0 \<in> set a then replicate (length a) 0 else map inverse a)"
proof -
  let ?n = "length a"
  define c where "c = inverse (prod_list a)"
  define q0 where "q0 = (replicate ?n 0)[?n - 1 := c]"
  let ?f = "\<lambda>i q. q[i - 1 := q ! i * a ! i]"
  have loop: "length (fold ?f (rev [?n - k..<?n]) q0) = ?n \<and>
      (\<forall>i. ?n - 1 - k \<le> i \<longrightarrow> i < ?n \<longrightarrow> fold ?f (rev [?n - k..<?n]) q0 ! i = c * prod_list (drop (Suc i) a))"
    if "k < ?n" for k
    using that
  proof (induction k)
    case 0
    then show ?case by (auto simp: q0_def nth_list_update)
  next
    case (Suc k)
    have e: "[?n - Suc k..<?n] = (?n - Suc k) # [?n - k..<?n]" using Suc.prems by (simp add: upt_conv_Cons Suc_diff_Suc)
    let ?q = "fold ?f (rev [?n - k..<?n]) q0"
    have IH: "length ?q = ?n" "\<And>i. ?n - 1 - k \<le> i \<Longrightarrow> i < ?n \<Longrightarrow> ?q ! i = c * prod_list (drop (Suc i) a)"
      using Suc by simp_all
    have at: "?q ! (?n - Suc k) = c * prod_list (drop (?n - k) a)"
      using IH(2) [of "?n - Suc k"] Suc.prems by (simp add: Suc_diff_Suc)
    have d: "drop (?n - Suc k) a = a ! (?n - Suc k) # drop (?n - k) a"
      using Suc.prems Cons_nth_drop_Suc [of "?n - Suc k" a] by (simp add: Suc_diff_Suc)
    show ?case
    proof (intro conjI allI impI)
      fix i assume i: "?n - 1 - Suc k \<le> i" "i < ?n"
      show "fold ?f (rev [?n - Suc k..<?n]) q0 ! i = c * prod_list (drop (Suc i) a)"
      proof (cases "i = ?n - Suc k - 1")
        case True
        then have "Suc i = ?n - Suc k" using Suc.prems by simp
        then show ?thesis using True at d IH(1) i unfolding e by (simp add: mult.assoc mult.commute)
      next
        case False
        then show ?thesis using IH i unfolding e by simp
      qed
    qed (use IH(1) in \<open>simp add: e\<close>)
  qed
  have l: "fold ?f (rev [1..<?n]) q0 ! i = c * prod_list (drop (Suc i) a)" if "i < ?n" for i
    using loop [of "?n - 1"] that assms by simp
  have last: "last (map (\<lambda>i. prod_list (take (Suc i) a)) [0..<?n]) = prod_list a"
    using assms by (simp add: last_map last_upt)
  have r: "batch_inversion a = Inr (map (\<lambda>i. prod_list (take i a) * (c * prod_list (drop (Suc i) a))) [0..<?n])"
  proof -
    have e: "[0..<?n] = 0 # [1..<?n]" using assms by (simp add: upt_conv_Cons)
    have "map (\<lambda>i. map (\<lambda>i. prod_list (take (Suc i) a)) [0..<?n] ! (i - 1) * fold ?f (rev [1..<?n]) q0 ! i) [1..<?n]
        = map (\<lambda>i. prod_list (take i a) * (c * prod_list (drop (Suc i) a))) [1..<?n]"
      by (rule map_cong) (auto simp: l [unfolded One_nat_def])
    moreover have "fold ?f (rev [1..<?n]) q0 ! 0 = prod_list (take 0 a) * (c * prod_list (drop (Suc 0) a))"
      using l [of 0] assms by simp
    moreover have "map (\<lambda>i. prod_list (take i a) * (c * prod_list (drop (Suc i) a))) [0..<?n]
        = prod_list (take 0 a) * (c * prod_list (drop (Suc 0) a)) # map (\<lambda>i. prod_list (take i a) * (c * prod_list (drop (Suc i) a))) [1..<?n]"
      unfolding e list.map ..
    ultimately show ?thesis
      unfolding batch_inversion_def prefixMult_correct [OF assms] bindE_simps Let_def last c_def [symmetric] q0_def [symmetric]
      by (simp only:)
  qed
  have "prod_list (take i a) * (c * prod_list (drop (Suc i) a)) = (if 0 \<in> set a then 0 else inverse (a ! i))" if i: "i < ?n" for i
  proof (cases "0 \<in> set a")
    case True
    then show ?thesis by (simp add: c_def prod_list_zero_iff)
  next
    case False
    then have "prod_list a \<noteq> 0" by (simp add: prod_list_zero_iff)
    moreover have "a ! i \<noteq> 0" using False i by (metis nth_mem)
    ultimately show ?thesis using prod_list_split [OF i] False by (simp add: c_def field_simps)
  qed
  then show ?thesis unfolding r by (auto intro!: nth_equalityI)
qed

section \<open>The tables are the functions\<close>

text \<open>A polynomial modulo the prime on integers, for the kernel to evaluate.\<close>

primrec horner :: "int list \<Rightarrow> int \<Rightarrow> int" where
  "horner [] x = 0"
| "horner (c # cs) x = (c + x * horner cs x) mod 2147483647"

lemma gval_peval_horner: "gval (peval (map of_int cs) (of_int x)) = horner cs x"
  by (induction cs) (simp_all add: gval_ops gval_of_int mod_simps)

definition table_of :: "(int \<Rightarrow> int) \<Rightarrow> u32 list \<Rightarrow> bool" where
  "table_of f tab \<longleftrightarrow> list_all (\<lambda>x. horner (map uint tab) x = f x) [1..int (length tab)] \<and> list_all (\<lambda>w. w < PR) tab"

definition or_fun :: "int \<Rightarrow> int" where
  "or_fun x = (if x = 1 then 0 else 1)"

definition and_fun :: "nat \<Rightarrow> int \<Rightarrow> int" where
  "and_fun d x = (if x = int d + 1 then 1 else 0)"

definition xor_fun :: "int \<Rightarrow> int" where
  "xor_fun x = (x - 1) mod 2"

lemma or_tables:
  "table_of or_fun constOr1Bits" "table_of or_fun constOr2Bits" "table_of or_fun constOr3Bits" "table_of or_fun constOr4Bits"
  "table_of or_fun constOr5Bits" "table_of or_fun constOr6Bits" "table_of or_fun constOr7Bits" "table_of or_fun constOr8Bits"
  by code_simp+

lemma and_tables:
  "table_of (and_fun 1) constAnd1Bits" "table_of (and_fun 2) constAnd2Bits" "table_of (and_fun 3) constAnd3Bits"
  "table_of (and_fun 4) constAnd4Bits" "table_of (and_fun 5) constAnd5Bits" "table_of (and_fun 6) constAnd6Bits"
  "table_of (and_fun 7) constAnd7Bits" "table_of (and_fun 8) constAnd8Bits" "table_of (and_fun 16) constAnd16Bits"
  by code_simp+

lemma and_table_32: "table_of (and_fun 32) constAnd32Bits"
  by code_simp

lemma xor_table: "table_of xor_fun constXor8Bits"
  by code_simp

lemma table_eval:
  assumes "table_of f tab" "1 \<le> x" "x \<le> int (length tab)" "f x \<in> {0, 1}"
  shows "peval (map gfp_of_word tab) (of_int x) = of_int (f x)"
proof -
  have "horner (map uint tab) x = f x" using assms(1-3) by (simp add: table_of_def list_all_iff)
  moreover have "gval (of_int (f x)) = f x" using assms(4) by (auto simp: gval_ops)
  moreover have "map gfp_of_word tab = map of_int (map uint tab)" by (simp add: gfp_of_word_def)
  ultimately show ?thesis by (simp only: gval_eq_iff gval_peval_horner)
qed

text \<open>The function that a table tabulates, on the bits whose sum, plus one, is its argument.\<close>

definition bit_fun :: "string \<Rightarrow> bool list \<Rightarrow> bool" where
  "bit_fun fn bs = (if fn = ''OR'' then True \<in> set bs else if fn = ''AND'' then False \<notin> set bs else odd (length (filter id bs)))"

lemma getFuncConsts_table:
  assumes "getFuncConsts fn d = Inr cs"
  shows "length cs = d + 1 \<and> (fn = ''OR'' \<and> table_of or_fun cs \<or> fn = ''AND'' \<and> table_of (and_fun d) cs \<or> fn = ''XOR'' \<and> table_of xor_fun cs)"
proof -
  have tor: "length cs = d + 1 \<and> table_of or_fun cs" if "getFuncOrConsts d = Inr cs"
    using that or_tables unfolding getFuncOrConsts_def
    by (auto split: if_splits simp: constOr1Bits_def constOr2Bits_def constOr3Bits_def constOr4Bits_def constOr5Bits_def
        constOr6Bits_def constOr7Bits_def constOr8Bits_def)
  have tand: "length cs = d + 1 \<and> table_of (and_fun d) cs" if "getFuncAndConsts d = Inr cs"
    using that and_tables and_table_32 unfolding getFuncAndConsts_def
    by (auto split: if_splits simp: constAnd1Bits_def constAnd2Bits_def constAnd3Bits_def constAnd4Bits_def constAnd5Bits_def
        constAnd6Bits_def constAnd7Bits_def constAnd8Bits_def constAnd16Bits_def constAnd32Bits_def)
  have txor: "length cs = d + 1 \<and> table_of xor_fun cs" if "getFuncXorConsts d = Inr cs"
    using that xor_table unfolding getFuncXorConsts_def by (auto split: if_splits simp: constXor8Bits_def)
  show ?thesis using assms tor tand txor unfolding getFuncConsts_def by (auto split: if_splits)
qed

lemma filter_all_length: "length (filter id bs) = length bs \<longleftrightarrow> False \<notin> set bs"
  by (induction bs) (auto simp: le_eq_less_or_eq dest: length_filter_less intro: antisym)

lemma filter_none_length: "length (filter id bs) = 0 \<longleftrightarrow> True \<notin> set bs"
  by (induction bs) auto

section \<open>Properties\<close>

text \<open>
  C40: the coefficient tables of \<open>constMatrix.h\<close> are the Boolean functions they are named for: whenever
  \<open>getFuncConsts\<close> returns a table for a name and a degree \<open>d\<close>, the table has \<open>d + 1\<close> canonical coefficients and
  its polynomial, at one plus the sum of any \<open>d\<close> bits, is the OR, the AND or the XOR of these bits.
\<close>

theorem function_tables:
  assumes "getFuncConsts fn d = Inr cs" "length bs = d"
  shows "length cs = d + 1 \<and> (\<forall>w \<in> set cs. w < PR)
    \<and> peval (map gfp_of_word cs) (1 + (\<Sum>b \<leftarrow> bs. of_bool b)) = of_bool (bit_fun fn bs)"
proof -
  define s where "s = length (filter id bs)"
  have sum: "(1 + (\<Sum>b \<leftarrow> bs. of_bool b) :: gfp) = of_int (int s + 1)"
    unfolding s_def by (induction bs) (simp_all add: algebra_simps)
  have s: "s \<le> d" unfolding s_def assms(2) [symmetric] by (rule length_filter_le)
  note t = getFuncConsts_table [OF assms(1)]
  then have "\<forall>w \<in> set cs. w < PR" by (auto simp: table_of_def list_all_iff)
  moreover have "peval (map gfp_of_word cs) (of_int (int s + 1)) = of_bool (bit_fun fn bs)"
  proof -
    have ev: "table_of f cs \<Longrightarrow> f (int s + 1) \<in> {0, 1} \<Longrightarrow> peval (map gfp_of_word cs) (of_int (int s + 1)) = of_int (f (int s + 1))" for f
      using table_eval [of f cs "int s + 1"] t s by simp
    from t consider "fn = ''OR''" "table_of or_fun cs" | "fn = ''AND''" "table_of (and_fun d) cs" | "fn = ''XOR''" "table_of xor_fun cs" by blast
    then show ?thesis
    proof cases
      case 1
      then show ?thesis using ev [of or_fun] filter_none_length [of bs] by (auto simp: or_fun_def bit_fun_def s_def)
    next
      case 2
      then show ?thesis using ev [of "and_fun d"] filter_all_length [of bs] assms(2) by (auto simp: and_fun_def bit_fun_def s_def)
    next
      case 3
      have "xor_fun (int s + 1) = of_bool (odd s)" by (simp add: xor_fun_def) presburger
      then show ?thesis using 3 ev [of xor_fun] by (auto simp: bit_fun_def s_def [symmetric])
    qed
  qed
  ultimately show ?thesis using t unfolding sum by blast
qed

theorem function_tables_witness:
  "peval (map gfp_of_word constAnd2Bits) (1 + (\<Sum>b \<leftarrow> [True, True]. of_bool b)) = 1"
proof -
  have "getFuncConsts ''AND'' 2 = Inr constAnd2Bits" by (simp add: getFuncConsts_def getFuncAndConsts_def)
  then show ?thesis using function_tables [of "''AND''" 2 constAnd2Bits "[True, True]"] by (simp add: bit_fun_def)
qed

end
