(* ===== verification/HShare.thy ===== *)
theory HShare
  imports GfpMat
begin

text \<open>
  \<open>ShareBase\<close> and the sharings of \<open>Share\<close> in the Shamir template (\<open>Protocols/Share.cpp\<close>): the Vandermonde
  matrices, the reconstruction vectors, dealing and revealing a secret, dealing with the help of a common generator,
  and degree reduction. A sharing is the list of the parties' shares; an operation all parties take part in is a
  function on sharings that runs every party's branch of the code. A message is the list of scalars it carries
  (\<open>GfpMat\<close> has their bytes).
\<close>

section \<open>The static data\<close>

text \<open>
  The class \<open>ThreadPlayer\<close> and \<open>positive_modulo\<close> are not part of the repository; what the code calls of them are
  fields: \<open>get_relative\<close> with the caller's number and its argument, and \<open>positive_modulo\<close> itself.
\<close>

record hmmpc =
  n_players :: nat
  threshold :: nat
  Pking :: nat
  positive_modulo :: "nat \<Rightarrow> nat \<Rightarrow> nat"
  get_relative :: "nat \<Rightarrow> nat \<Rightarrow> nat"

text \<open>
  Their documented behaviour: the remainder, and the position of the caller counted from its argument, so that the
  set \<open>{Pking, ..., Pking + degree}\<close> is the reconstruction set.
\<close>

definition player_ok :: "hmmpc \<Rightarrow> bool" where
  "player_ok E \<longleftrightarrow> 0 < n_players E \<and> n_players E < 2147483646 \<and> Pking E < n_players E
     \<and> (\<forall>a. positive_modulo E a (n_players E) = a mod n_players E)
     \<and> (\<forall>me < n_players E. get_relative E me (Pking E) = (me + n_players E - Pking E) mod n_players E)"

text \<open>The scalar of a \<open>size_t\<close> or \<open>int\<close> argument, through the conversion to \<open>TYPE\<close>.\<close>

definition scalar :: "nat \<Rightarrow> gfp" where
  "scalar n = gfp_of_word (of_nat n)"

primrec vandermonde_row :: "gfp \<Rightarrow> gfp \<Rightarrow> nat \<Rightarrow> gfp list" where
  "vandermonde_row x prd 0 = []"
| "vandermonde_row x prd (Suc n) = (let prd = prd * x in prd # vandermonde_row x prd n)"

definition get_vandermonde :: "nat \<Rightarrow> nat \<Rightarrow> gfp list list" where
  "get_vandermonde xSize ySize = map (\<lambda>i. vandermonde_row (scalar (i + 1)) 1 ySize) [0..<xSize]"

definition vandermonde_t :: "hmmpc \<Rightarrow> gfp list list" where
  "vandermonde_t E = get_vandermonde (n_players E) (threshold E)"

definition vandermonde_2t :: "hmmpc \<Rightarrow> gfp list list" where
  "vandermonde_2t E = get_vandermonde (n_players E) (2 * threshold E)"

definition vandermonde_n_t :: "hmmpc \<Rightarrow> gfp list list" where
  "vandermonde_n_t E = get_vandermonde (n_players E) (n_players E - threshold E)"

text \<open>\<open>bits_coeff\<close>: the powers of two, by shifting the words.\<close>

primrec bits_coeff_upto :: "u32 \<Rightarrow> nat \<Rightarrow> u32 list" where
  "bits_coeff_upto w 0 = []"
| "bits_coeff_upto w (Suc n) = w # bits_coeff_upto (push_bit 1 w) n"

definition bits_coeff :: "gfp list" where
  "bits_coeff = map gfp_of_word (bits_coeff_upto 1 BITS_LENGTH)"

definition is_in_reconstruction_set :: "hmmpc \<Rightarrow> nat \<Rightarrow> nat \<Rightarrow> bool" where
  "is_in_reconstruction_set E my_num degree \<longleftrightarrow> get_relative E my_num (Pking E) \<le> degree"

definition get_reconstruction_factor :: "hmmpc \<Rightarrow> gfp \<Rightarrow> nat \<Rightarrow> nat \<Rightarrow> gfp" where
  "get_reconstruction_factor E point player_i degree =
     (let gfp_i = scalar (player_i + 1)
      in foldl (\<lambda>factor offset.
           let player_j = positive_modulo E (Pking E + offset) (n_players E); gfp_j = scalar (player_j + 1)
           in if player_i \<noteq> player_j then factor * ((gfp_j - point) / (gfp_j - gfp_i)) else factor) 1 [0..<degree + 1])"

definition get_reconstruction_vector :: "hmmpc \<Rightarrow> gfp \<Rightarrow> nat \<Rightarrow> gfp list" where
  "get_reconstruction_vector E point degree =
     map (\<lambda>i. get_reconstruction_factor E point (positive_modulo E (Pking E + i) (n_players E)) degree) [0..<degree + 1]"

definition get_reconstruction_factor_with_secret :: "nat \<Rightarrow> gfp \<Rightarrow> nat \<Rightarrow> nat \<Rightarrow> gfp" where
  "get_reconstruction_factor_with_secret except_player point player_i degree =
     (let gfp_i = scalar player_i
      in foldl (\<lambda>factor offset.
           if offset = except_player then factor
           else let gfp_j = scalar offset
                in if gfp_i \<noteq> gfp_j then factor * ((gfp_j - point) / (gfp_j - gfp_i)) else factor) 1 [0..<degree + 2])"

definition get_reconstruction_vector_with_secret :: "nat \<Rightarrow> gfp \<Rightarrow> nat \<Rightarrow> gfp list" where
  "get_reconstruction_vector_with_secret except_player point degree =
     map (\<lambda>i. get_reconstruction_factor_with_secret except_player point i degree)
       (filter (\<lambda>i. i \<noteq> except_player) [0..<degree + 2])"

definition reconstruction_vector_t :: "hmmpc \<Rightarrow> gfp list" where
  "reconstruction_vector_t E = get_reconstruction_vector E 0 (threshold E)"

definition reconstruction_vector_2t :: "hmmpc \<Rightarrow> gfp list" where
  "reconstruction_vector_2t E = get_reconstruction_vector E 0 (2 * threshold E)"

definition reconstruction_with_secret_2t :: "hmmpc \<Rightarrow> gfp list list" where
  "reconstruction_with_secret_2t E =
     map (\<lambda>i. get_reconstruction_vector_with_secret (i + 1) (scalar (i + 1)) (2 * threshold E)) [0..<n_players E]"

definition reconstruction_with_secret_t :: "hmmpc \<Rightarrow> gfp list list" where
  "reconstruction_with_secret_t E =
     map (\<lambda>i. get_reconstruction_vector_with_secret 1 (scalar (threshold E + 2 + i)) (threshold E))
         [0..<n_players E - threshold E - 1]
     @ [get_reconstruction_vector_with_secret 1 (scalar 1) (threshold E)]"

section \<open>The operations of \<open>Share\<close>\<close>

text \<open>A product of Eigen asserts that the dimensions agree.\<close>

definition dot :: "gfp list \<Rightarrow> gfp list \<Rightarrow> gfp res" where
  "dot v w = throw_if (length v \<noteq> length w) Assert_failed (Inr (\<Sum>(x, y) \<leftarrow> zip v w. x * y))"

definition mat_vec :: "gfp list list \<Rightarrow> gfp list \<Rightarrow> gfp list res" where
  "mat_vec m v = mapE (\<lambda>row. dot row v) m"

text \<open>Dealing: the sharing, whose entry \<open>my_num\<close> is the dealer's share and whose others are the messages.\<close>

definition calculate_sharing :: "hmmpc \<Rightarrow> gfp \<Rightarrow> nat \<Rightarrow> gfp list \<Rightarrow> gfp list res" where
  "calculate_sharing E secret degree random_coeffs =
     (let vandermonde = if degree = threshold E then vandermonde_t E else vandermonde_2t E
      in bindE (mat_vec vandermonde random_coeffs) (\<lambda>v. Inr (map (\<lambda>x. x + secret) v)))"

text \<open>
  Reconstructing: \<open>os\<close> holds the share received from each of the first \<open>degree + 1\<close> parties, none for the party
  itself; its own share is put at its own number. A row that nothing fills is indeterminate.
\<close>

definition calculate_secret :: "hmmpc \<Rightarrow> nat \<Rightarrow> nat \<Rightarrow> gfp \<Rightarrow> gfp option list \<Rightarrow> gfp res" where
  "calculate_secret E my_num degree share os =
     (let reconstruction = if degree = threshold E then reconstruction_vector_t E else reconstruction_vector_2t E;
          mine = is_in_reconstruction_set E my_num degree
      in bindE (if mine then vset os my_num (Some share) else Inr os) (\<lambda>sharing.
         bindE (mapE (\<lambda>v. case v of Some x \<Rightarrow> Inr x | None \<Rightarrow> Inl Undefined) sharing) (\<lambda>sharing.
           dot reconstruction sharing)))"

text \<open>
  \<open>reveal_to_party\<close>: every other party of the reconstruction set sends its share; the receiver waits for the first
  \<open>degree + 1\<close> parties in turn, itself left out, and blocks on one that does not send.
\<close>

definition reveal_to_party :: "hmmpc \<Rightarrow> nat \<Rightarrow> nat \<Rightarrow> gfp list \<Rightarrow> gfp res" where
  "reveal_to_party E player_no degree sharing =
     bindE (mapE (\<lambda>i. if i = player_no then Inr None
                      else if is_in_reconstruction_set E i degree then bindE (vget sharing i) (\<lambda>x. Inr (Some x))
                      else Inl Blocked) [0..<degree + 1]) (\<lambda>os.
     bindE (vget sharing player_no) (\<lambda>share. calculate_secret E player_no degree share os))"

text \<open>\<open>reveal\<close>: to \<open>Pking\<close>, who sends the secret to all others.\<close>

definition reveal :: "hmmpc \<Rightarrow> nat \<Rightarrow> gfp list \<Rightarrow> gfp res" where
  "reveal E degree sharing = reveal_to_party E (Pking E) degree sharing"

subsection \<open>Dealing with the common generator\<close>

text \<open>
  A sharing of degree \<open>2t\<close> costs no message: every party draws the same \<open>2t\<close> shares and takes its own; the dealer,
  whose share is missing among them, computes it from the secret.
\<close>

definition distribute_2t_sharing_PRG :: "hmmpc \<Rightarrow> nat \<Rightarrow> gfp \<Rightarrow> gfp list \<Rightarrow> gfp res" where
  "distribute_2t_sharing_PRG E my_num secret shares_prng =
     bindE (vget (reconstruction_with_secret_2t E) my_num) (\<lambda>row. dot row (secret # shares_prng))"

definition get_2t_sharing_PRG :: "hmmpc \<Rightarrow> nat \<Rightarrow> nat \<Rightarrow> gfp list \<Rightarrow> gfp res" where
  "get_2t_sharing_PRG E my_num player_no shares_prng =
     (if player_no < my_num then vget shares_prng (my_num - 1) else vget shares_prng my_num)"

definition input_2t_PRG :: "hmmpc \<Rightarrow> nat \<Rightarrow> gfp \<Rightarrow> gfp list \<Rightarrow> gfp list res" where
  "input_2t_PRG E player_no secret shares_prng =
     mapE (\<lambda>j. if j = player_no then distribute_2t_sharing_PRG E j secret shares_prng
               else get_2t_sharing_PRG E j player_no shares_prng) [0..<n_players E]"

text \<open>
  For degree \<open>t\<close> the drawn shares are those of the parties \<open>1\<close> to \<open>t\<close>; the dealer computes the other \<open>t + 1\<close>
  and sends them: \<open>sharing ! i\<close> belongs to party \<open>t + 1 + i\<close>, the last one to party \<open>0\<close>. The assertion of
  \<open>pack_row\<close> on the number of streams makes the number of parties \<open>2t + 1\<close>.
\<close>

definition t_sharing_PRG :: "hmmpc \<Rightarrow> gfp \<Rightarrow> gfp list \<Rightarrow> gfp list res" where
  "t_sharing_PRG E secret shares_prng =
     throw_if (length (reconstruction_with_secret_t E) \<noteq> threshold E + 1) Assert_failed
       (mat_vec (reconstruction_with_secret_t E) (secret # shares_prng))"

definition distribute_t_sharing_PRG :: "hmmpc \<Rightarrow> nat \<Rightarrow> gfp \<Rightarrow> gfp list \<Rightarrow> gfp res" where
  "distribute_t_sharing_PRG E my_num secret shares_prng =
     bindE (t_sharing_PRG E secret shares_prng) (\<lambda>sharing.
       if 1 \<le> my_num \<and> my_num \<le> threshold E then vget shares_prng (my_num - 1)
       else if my_num = 0 then vget sharing (threshold E)
       else vget sharing (my_num - threshold E - 1))"

text \<open>\<open>send_respective\<close> from \<open>t + 1\<close> on, for \<open>t + 1\<close> parties: stream \<open>k\<close> goes to party \<open>t + 1 + k\<close> modulo \<open>n\<close>.\<close>

definition get_t_sharing_PRG :: "hmmpc \<Rightarrow> nat \<Rightarrow> gfp list \<Rightarrow> gfp list \<Rightarrow> gfp res" where
  "get_t_sharing_PRG E my_num shares_prng os =
     (if 1 \<le> my_num \<and> my_num \<le> threshold E then vget shares_prng (my_num - 1)
      else vget os ((my_num + n_players E - (threshold E + 1)) mod n_players E))"

definition input_t_PRG :: "hmmpc \<Rightarrow> nat \<Rightarrow> gfp \<Rightarrow> gfp list \<Rightarrow> gfp list res" where
  "input_t_PRG E player_no secret shares_prng =
     mapE (\<lambda>j. if j = player_no then distribute_t_sharing_PRG E j secret shares_prng
               else bindE (t_sharing_PRG E secret shares_prng) (get_t_sharing_PRG E j shares_prng)) [0..<n_players E]"

subsection \<open>Degree reduction\<close>

text \<open>\<open>Share::reduce_degree\<close> with the double sharing \<open>(r, aux)\<close> that the queue yields.\<close>

definition reduce_degree :: "hmmpc \<Rightarrow> gfp list \<Rightarrow> gfp list \<Rightarrow> gfp list \<Rightarrow> gfp list res" where
  "reduce_degree E share r aux =
     bindE (reveal E (2 * threshold E) (map2 (+) share aux)) (\<lambda>secret. Inr (map (\<lambda>x. secret - x) r))"

section \<open>Sharings\<close>

text \<open>The abstract contract: the shares are the values of a polynomial of bounded degree whose constant is the secret.\<close>

definition is_sharing :: "nat \<Rightarrow> nat \<Rightarrow> gfp list \<Rightarrow> gfp \<Rightarrow> bool" where
  "is_sharing n d xs s \<longleftrightarrow> length xs = n \<and> (\<exists>f. polyfun (Suc d) f \<and> f 0 = s \<and> (\<forall>i<n. xs ! i = f (of_nat (i + 1))))"

lemma is_sharing_length: "is_sharing n d xs s \<Longrightarrow> length xs = n"
  by (simp add: is_sharing_def)

lemma is_sharing_mono: "is_sharing n d xs s \<Longrightarrow> d \<le> e \<Longrightarrow> is_sharing n e xs s"
  unfolding is_sharing_def by (metis Suc_le_mono polyfun_mono)

lemma is_sharing_map2:
  assumes "is_sharing n d xs s" "is_sharing n e ys u"
    and "\<And>f g. polyfun (Suc d) f \<Longrightarrow> polyfun (Suc e) g \<Longrightarrow> polyfun (Suc k) (\<lambda>x. h (f x) (g x))"
  shows "is_sharing n k (map2 h xs ys) (h s u)"
proof -
  obtain f g where f: "polyfun (Suc d) f" "f 0 = s" "\<forall>i<n. xs ! i = f (of_nat (i + 1))" "length xs = n"
    and g: "polyfun (Suc e) g" "g 0 = u" "\<forall>i<n. ys ! i = g (of_nat (i + 1))" "length ys = n"
    using assms(1,2) unfolding is_sharing_def by blast
  show ?thesis unfolding is_sharing_def
    using assms(3) [OF f(1) g(1)] f g by (intro conjI exI [of _ "\<lambda>x. h (f x) (g x)"]) auto
qed

lemma is_sharing_add: "is_sharing n d xs s \<Longrightarrow> is_sharing n d ys u \<Longrightarrow> is_sharing n d (map2 (+) xs ys) (s + u)"
  by (erule (1) is_sharing_map2) (rule polyfun_add)

lemma is_sharing_diff: "is_sharing n d xs s \<Longrightarrow> is_sharing n d ys u \<Longrightarrow> is_sharing n d (map2 (-) xs ys) (s - u)"
  by (erule (1) is_sharing_map2) (rule polyfun_diff)

lemma is_sharing_mult: "is_sharing n d xs s \<Longrightarrow> is_sharing n e ys u \<Longrightarrow> is_sharing n (d + e) (map2 (*) xs ys) (s * u)"
  by (erule (1) is_sharing_map2) (rule polyfun_mult)

lemma is_sharing_map:
  assumes "is_sharing n d xs s" "\<And>f. polyfun (Suc d) f \<Longrightarrow> polyfun (Suc d) (\<lambda>x. h (f x))"
  shows "is_sharing n d (map h xs) (h s)"
proof -
  obtain f where f: "polyfun (Suc d) f" "f 0 = s" "\<forall>i<n. xs ! i = f (of_nat (i + 1))" "length xs = n"
    using assms(1) unfolding is_sharing_def by blast
  show ?thesis unfolding is_sharing_def
    using assms(2) [OF f(1)] f by (intro conjI exI [of _ "\<lambda>x. h (f x)"]) auto
qed

lemma is_sharing_plus_const: "is_sharing n d xs s \<Longrightarrow> is_sharing n d (map (\<lambda>x. x + c) xs) (s + c)"
  by (erule is_sharing_map) (rule polyfun_add, auto)

lemma is_sharing_scale: "is_sharing n d xs s \<Longrightarrow> is_sharing n d (map (\<lambda>x. c * x) xs) (c * s)"
  by (erule is_sharing_map) (rule polyfun_scale)

lemma is_sharing_minus_from: "is_sharing n d xs s \<Longrightarrow> is_sharing n d (map (\<lambda>x. c - x) xs) (c - s)"
  by (erule is_sharing_map) (rule polyfun_diff, auto)

lemma is_sharing_const: "is_sharing n d (replicate n c) c"
  unfolding is_sharing_def by (intro conjI exI [of _ "\<lambda>x. c"]) auto

section \<open>The reconstruction vectors interpolate\<close>

lemma scalar_of_nat: "n < 2147483647 \<Longrightarrow> scalar n = of_nat n"
  by (simp add: scalar_def gfp_of_word_def unsigned_of_nat take_bit_nat_eq_self)

definition lagrange_factor :: "gfp \<Rightarrow> gfp \<Rightarrow> gfp list \<Rightarrow> gfp" where
  "lagrange_factor point gi pts = foldl (\<lambda>acc gj. if gi \<noteq> gj then acc * ((gj - point) / (gj - gi)) else acc) 1 pts"

lemma lagrange_factor_prod:
  "distinct pts \<Longrightarrow> lagrange_factor point gi pts = (\<Prod>gj \<in> set pts - {gi}. (point - gj) / (gi - gj))"
proof (induction pts rule: rev_induct)
  case (snoc x pts)
  have "(x - point) / (x - gi) = (point - x) / (gi - x)" by (metis minus_diff_eq minus_divide_divide)
  moreover have "gi \<noteq> x \<Longrightarrow> set (pts @ [x]) - {gi} = insert x (set pts - {gi})" by auto
  moreover have "gi = x \<Longrightarrow> set (pts @ [x]) - {gi} = set pts - {gi}" using snoc.prems by auto
  moreover have "x \<notin> set pts - {gi}" using snoc.prems by auto
  ultimately show ?case using snoc by (cases "gi = x") (simp_all add: lagrange_factor_def mult.commute)
qed (simp add: lagrange_factor_def)

lemma lagrange_factor_basis:
  assumes "distinct pts" "i < length pts"
  shows "lagrange_factor point (pts ! i) pts = lagrange_basis pts i point"
proof -
  have "(\<Prod>gj \<in> set pts - {pts ! i}. (point - gj) / (pts ! i - gj)) = (\<Prod>m\<in>{..<length pts} - {i}. (point - pts ! m) / (pts ! i - pts ! m))"
  proof (rule prod.reindex_bij_betw [symmetric, where h = "\<lambda>m. pts ! m", simplified])
    show "bij_betw ((!) pts) ({..<length pts} - {i}) (set pts - {pts ! i})"
      using assms unfolding bij_betw_def inj_on_def by (auto simp: in_set_conv_nth nth_eq_iff_index_eq)
  qed
  then show ?thesis unfolding lagrange_factor_prod [OF assms(1)] lagrange_basis_def .
qed

text \<open>The dot product with the factors of a point is the value there.\<close>

lemma lagrange_dot:
  assumes "distinct pts" "polyfun (length pts) f"
  shows "dot (map (\<lambda>g. lagrange_factor point g pts) pts) (map f pts) = Inr (f point)"
proof -
  have "(\<Sum>(x, y) \<leftarrow> zip (map (\<lambda>g. lagrange_factor point g pts) pts) (map f pts). x * y) = lagrange pts (map f pts) point"
    unfolding lagrange_def sum_list_sum_nth using assms(1)
    by (auto intro!: sum.cong simp: lagrange_factor_basis mult.commute atLeast0LessThan)
  also have "\<dots> = f point" by (rule lagrange_unique [OF assms]) simp
  finally show ?thesis by (simp add: dot_def)
qed

lemma distinct_points: "\<lbrakk>\<And>x. x \<in> set xs \<Longrightarrow> x < 2147483647\<rbrakk> \<Longrightarrow> distinct xs \<Longrightarrow> distinct (map (of_nat :: nat \<Rightarrow> gfp) xs)"
  by (auto simp: distinct_map inj_on_def gfp_of_nat_eq_iff)

text \<open>A fold that skips is the fold of what is left.\<close>

lemma foldl_skip: "foldl (\<lambda>a x. if P x then a else f a x) s xs = foldl f s (filter (\<lambda>x. \<not> P x) xs)"
  by (induction xs arbitrary: s) auto

lemma foldl_map: "foldl f s (map g xs) = foldl (\<lambda>a x. f a (g x)) s xs"
  by (induction xs arbitrary: s) auto

lemma foldl_cong_set: "(\<And>a x. x \<in> set xs \<Longrightarrow> f a x = g a x) \<Longrightarrow> foldl f s xs = foldl g s xs"
  by (induction xs arbitrary: s) auto

definition set_points :: "hmmpc \<Rightarrow> nat \<Rightarrow> nat list" where
  "set_points E degree = map (\<lambda>i. (Pking E + i) mod n_players E) [0..<degree + 1]"

lemma set_points_distinct: "degree < n_players E \<Longrightarrow> distinct (set_points E degree)"
proof -
  assume d: "degree < n_players E"
  have "i = j" if e: "(k + i) mod n_players E = (k + j) mod n_players E" and l: "i \<le> j" "j < n_players E" for k i j
  proof -
    have "n_players E dvd (k + j) - (k + i)" using e l(1) by (subst mod_eq_dvd_iff_nat [symmetric]) simp_all
    then have "n_players E dvd j - i" by simp
    moreover have "j - i < n_players E" using l by simp
    ultimately show ?thesis using l(1) by (metis dvd_imp_le diff_is_0_eq le_antisym not_less zero_less_diff)
  qed
  note inj = this
  have main: "i = j" if "(Pking E + i) mod n_players E = (Pking E + j) mod n_players E" "i < degree + 1" "j < degree + 1" for i j
  proof (cases "i \<le> j")
    case True
    show ?thesis by (rule inj [OF that(1) True]) (use that d in linarith)
  next
    case False
    have "j = i" by (rule inj [OF that(1) [symmetric]]) (use that d False in linarith)+
    then show ?thesis by (rule sym)
  qed
  show ?thesis unfolding set_points_def distinct_map
  proof (intro conjI inj_onI distinct_upt)
    fix i j
    assume "i \<in> set [0..<degree + 1]" "j \<in> set [0..<degree + 1]" "(Pking E + i) mod n_players E = (Pking E + j) mod n_players E"
    then show "i = j" using main [of i j] by (simp only: set_upt atLeastLessThan_iff)
  qed
qed

lemma reconstruction_vector_points:
  assumes "player_ok E" "degree < n_players E"
  shows "get_reconstruction_vector E point degree
    = map (\<lambda>g. lagrange_factor point g (map (\<lambda>j. of_nat (j + 1)) (set_points E degree))) (map (\<lambda>j. of_nat (j + 1)) (set_points E degree))"
proof -
  have pm: "positive_modulo E a (n_players E) = a mod n_players E" for a using assms(1) by (simp add: player_ok_def)
  have n: "0 < n_players E" "n_players E < 2147483646" using assms(1) by (simp_all add: player_ok_def)
  have lt: "a mod n_players E < 2147483646" for a using mod_less_divisor [OF n(1), of a] n by linarith
  have sc: "scalar (a mod n_players E + 1) = of_nat (a mod n_players E + 1)" for a
    using lt [of a] by (intro scalar_of_nat) linarith
  have ne: "(of_nat (a mod n_players E + 1) :: gfp) = of_nat (b mod n_players E + 1) \<longleftrightarrow> a mod n_players E = b mod n_players E" for a b
    using lt [of a] lt [of b] by (subst gfp_of_nat_eq_iff) (simp_all del: of_nat_add)
  have f: "get_reconstruction_factor E point (a mod n_players E) degree
      = lagrange_factor point (of_nat (a mod n_players E + 1)) (map (\<lambda>j. of_nat (j + 1)) (set_points E degree))" for a
    unfolding get_reconstruction_factor_def lagrange_factor_def Let_def set_points_def foldl_map pm sc ne ..
  show ?thesis unfolding get_reconstruction_vector_def pm f by (simp add: set_points_def)
qed

lemma reconstruction_vector_correct:
  assumes "player_ok E" "degree < n_players E" "polyfun (Suc degree) f"
  shows "dot (get_reconstruction_vector E point degree) (map (\<lambda>j. f (of_nat (j + 1))) (set_points E degree)) = Inr (f point)"
proof -
  let ?pts = "map (\<lambda>j. of_nat (j + 1) :: gfp) (set_points E degree)"
  have "x < n_players E" if "x \<in> set (set_points E degree)" for x
    using that assms(1) by (auto simp: set_points_def player_ok_def)
  moreover have "n_players E < 2147483646" using assms(1) by (simp add: player_ok_def)
  ultimately have "distinct (map (of_nat :: nat \<Rightarrow> gfp) (map Suc (set_points E degree)))"
    using set_points_distinct [OF assms(2)] by (intro distinct_points) (fastforce simp: distinct_map)+
  then have "distinct ?pts" by (simp add: comp_def)
  then have "dot (map (\<lambda>g. lagrange_factor point g ?pts) ?pts) (map f ?pts) = Inr (f point)"
    by (rule lagrange_dot) (use assms(3) in \<open>simp add: set_points_def\<close>)
  then show ?thesis unfolding reconstruction_vector_points [OF assms(1,2)] by (simp add: comp_def)
qed

text \<open>With a secret: the points are \<open>0\<close> to \<open>degree + 1\<close> but one.\<close>

lemma with_secret_correct:
  assumes "degree < 2147483645" "except \<le> degree + 1" "polyfun (Suc degree) f"
  shows "dot (get_reconstruction_vector_with_secret except point degree)
    (map (\<lambda>j. f (of_nat j)) (filter (\<lambda>i. i \<noteq> except) [0..<degree + 2])) = Inr (f point)"
proof -
  let ?js = "filter (\<lambda>i. i \<noteq> except) [0..<degree + 2]"
  let ?pts = "map of_nat ?js :: gfp list"
  have sc: "scalar j = of_nat j" if "j \<in> set [0..<degree + 2]" for j using that assms(1) by (intro scalar_of_nat) auto
  have sc': "scalar x = of_nat x" if "x \<in> set ?js" for x
    using that by (intro sc) (simp only: set_filter mem_Collect_eq)
  have f: "get_reconstruction_factor_with_secret except point i degree = lagrange_factor point (of_nat i) ?pts" if "i \<in> set ?js" for i
    unfolding get_reconstruction_factor_with_secret_def lagrange_factor_def Let_def foldl_map foldl_skip [of "\<lambda>x. x = except"] sc' [OF that]
    by (rule foldl_cong_set) (simp only: sc')
  have "length ?js = Suc degree"
  proof -
    have "set ?js = {..<degree + 2} - {except}" unfolding set_filter set_upt by auto
    then have "card (set ?js) = Suc degree" using assms(2) by (simp add: card_Diff_singleton)
    then show ?thesis by (metis distinct_card distinct_filter distinct_upt)
  qed
  moreover have "distinct ?pts"
  proof (rule distinct_points)
    fix x
    assume "x \<in> set ?js"
    then have "x < degree + 2" by (simp only: set_filter set_upt mem_Collect_eq atLeastLessThan_iff)
    then show "x < 2147483647" using assms(1) by linarith
  qed (intro distinct_filter distinct_upt)
  ultimately have "dot (map (\<lambda>g. lagrange_factor point g ?pts) ?pts) (map f ?pts) = Inr (f point)"
    by (intro lagrange_dot) (use assms(3) in auto)
  moreover have "get_reconstruction_vector_with_secret except point degree = map (\<lambda>g. lagrange_factor point g ?pts) ?pts"
    unfolding get_reconstruction_vector_with_secret_def by (simp add: f cong: map_cong)
  ultimately show ?thesis by (simp add: comp_def)
qed

section \<open>Dealing and revealing\<close>

text \<open>The parameters with which the code runs: \<open>2t + 1\<close> parties are enough for the degree \<open>2t\<close>.\<close>

definition params_ok :: "hmmpc \<Rightarrow> bool" where
  "params_ok E \<longleftrightarrow> player_ok E \<and> Pking E = 0 \<and> 0 < threshold E \<and> 2 * threshold E < n_players E"

lemma params_okD:
  assumes "params_ok E"
  shows "player_ok E" "Pking E = 0" "0 < threshold E" "2 * threshold E < n_players E" "n_players E < 2147483646"
  using assms unfolding params_ok_def player_ok_def by blast+

lemma dot_vandermonde_row:
  "length cs = n \<Longrightarrow> dot (vandermonde_row x p n) cs = Inr (p * x * peval cs x)"
proof -
  assume "length cs = n"
  moreover have "length (vandermonde_row x p n) = n" for p by (induction n arbitrary: p) (simp_all add: Let_def)
  moreover have "(\<Sum>(a, b) \<leftarrow> zip (vandermonde_row x p (length cs)) cs. a * b) = p * x * peval cs x"
    by (induction cs arbitrary: p) (simp_all add: Let_def algebra_simps)
  ultimately show ?thesis by (auto simp: dot_def)
qed

lemma calculate_sharing_correct:
  assumes "n_players E < 2147483646" "length cs = d" "d = threshold E \<or> d = 2 * threshold E"
  shows "\<exists>xs. calculate_sharing E secret d cs = Inr xs \<and> is_sharing (n_players E) d xs secret"
proof -
  have v: "(if d = threshold E then vandermonde_t E else vandermonde_2t E) = get_vandermonde (n_players E) d"
    using assms(3) by (auto simp: vandermonde_t_def vandermonde_2t_def)
  have "mat_vec (get_vandermonde (n_players E) d) cs = Inr (map (\<lambda>i. of_nat (i + 1) * peval cs (of_nat (i + 1))) [0..<n_players E])"
    unfolding mat_vec_def get_vandermonde_def using assms(1,2)
    unfolding mapE_of_map by (intro mapE_Inr) (simp add: dot_vandermonde_row scalar_of_nat del: of_nat_Suc)
  then have r: "calculate_sharing E secret d cs = Inr (map (\<lambda>i. peval (secret # cs) (of_nat (i + 1))) [0..<n_players E])"
    unfolding calculate_sharing_def v by (simp add: comp_def add.commute)
  moreover have "is_sharing (n_players E) d (map (\<lambda>i. peval (secret # cs) (of_nat (i + 1))) [0..<n_players E]) secret"
    unfolding is_sharing_def using assms(2)
    by (intro conjI exI [of _ "peval (secret # cs)"] polyfun_peval) simp_all
  ultimately show ?thesis by blast
qed

lemma in_reconstruction_set:
  "params_ok E \<Longrightarrow> i < n_players E \<Longrightarrow> is_in_reconstruction_set E i d \<longleftrightarrow> i \<le> d"
  using params_okD [of E] unfolding player_ok_def by (auto simp: is_in_reconstruction_set_def)

lemma set_points_0: "params_ok E \<Longrightarrow> d < n_players E \<Longrightarrow> set_points E d = [0..<d + 1]"
  by (rule nth_equalityI) (auto simp: set_points_def params_okD simp del: upt_Suc)

lemma reveal_correct:
  assumes E: "params_ok E" and p: "p < n_players E" and d: "d = threshold E \<or> d = 2 * threshold E" and xs: "is_sharing (n_players E) d xs s"
  shows "reveal_to_party E p d xs = Inr s"
proof -
  note E' = params_okD [OF E]
  have dn: "d < n_players E" using d E'(3,4) by auto
  obtain f where f: "polyfun (Suc d) f" "f 0 = s" "\<forall>i<n_players E. xs ! i = f (of_nat (i + 1))" "length xs = n_players E"
    using xs unfolding is_sharing_def by blast
  let ?os = "map (\<lambda>i. if i = p then None else Some (xs ! i)) [0..<d + 1]"
  have 1: "mapE (\<lambda>i. if i = p then Inr None else if is_in_reconstruction_set E i d then bindE (vget xs i) (\<lambda>x. Inr (Some x))
      else Inl Blocked) [0..<d + 1] = Inr ?os"
    by (rule mapE_Inr) (use dn in \<open>auto simp: f(4) in_reconstruction_set [OF E]\<close>)
  have 2: "(if is_in_reconstruction_set E p d then vset ?os p (Some (xs ! p)) else Inr ?os) = Inr (map (\<lambda>i. Some (xs ! i)) [0..<d + 1])"
  proof (cases "p \<le> d")
    case True
    have "?os[p := Some (xs ! p)] = map (\<lambda>i. Some (xs ! i)) [0..<d + 1]"
      by (rule nth_equalityI) (use True in \<open>auto simp: nth_list_update simp del: upt_Suc\<close>)
    then show ?thesis using True by (simp add: in_reconstruction_set [OF E p] del: upt_Suc)
  next
    case False
    then show ?thesis by (auto simp: in_reconstruction_set [OF E p] simp del: upt_Suc)
  qed
  have 3: "mapE (\<lambda>v. case v of Some x \<Rightarrow> Inr x | None \<Rightarrow> Inl Undefined) (map (\<lambda>i. Some (xs ! i)) [0..<d + 1])
      = Inr (map (\<lambda>i. xs ! i) [0..<d + 1])"
    unfolding mapE_of_map by (rule mapE_Inr) simp
  have v: "(if d = threshold E then reconstruction_vector_t E else reconstruction_vector_2t E) = get_reconstruction_vector E 0 d"
    using d by (auto simp: reconstruction_vector_t_def reconstruction_vector_2t_def)
  have e: "map (\<lambda>i. xs ! i) [0..<d + 1] = map (\<lambda>j. f (of_nat (j + 1))) (set_points E d)"
    unfolding set_points_0 [OF E dn] using dn f(3) by (intro map_cong) auto
  have "dot (get_reconstruction_vector E 0 d) (map (\<lambda>i. xs ! i) [0..<d + 1]) = Inr s"
    unfolding e using reconstruction_vector_correct [OF E'(1) dn f(1), of 0] f(2) by simp
  then show ?thesis
    unfolding reveal_to_party_def calculate_secret_def Let_def 1 bindE_simps vget_Inr [of p xs, unfolded f(4), OF p] v 2 3 .
qed

lemma reveal_Pking: "params_ok E \<Longrightarrow> d = threshold E \<or> d = 2 * threshold E \<Longrightarrow> is_sharing (n_players E) d xs s \<Longrightarrow> reveal E d xs = Inr s"
  unfolding reveal_def using params_okD(2,4) [of E] by (intro reveal_correct) auto

lemma reduce_degree_correct:
  assumes "params_ok E" "is_sharing (n_players E) (2 * threshold E) xs s"
    "is_sharing (n_players E) (threshold E) r u" "is_sharing (n_players E) (2 * threshold E) aux u"
  shows "\<exists>ys. reduce_degree E xs r aux = Inr ys \<and> is_sharing (n_players E) (threshold E) ys s"
proof -
  have "reveal E (2 * threshold E) (map2 (+) xs aux) = Inr (s + u)"
    using assms by (intro reveal_Pking is_sharing_add) simp_all
  moreover have "is_sharing (n_players E) (threshold E) (map (\<lambda>x. (s + u) - x) r) ((s + u) - u)"
    by (rule is_sharing_minus_from [OF assms(3)])
  ultimately show ?thesis by (simp add: reduce_degree_def)
qed

section \<open>Dealing with the common generator\<close>

text \<open>Any values at distinct points, as many as the degree and one, are those of a polynomial of that degree.\<close>

lemma interpolating_polynomial:
  assumes "distinct js" "\<And>j. j \<in> set js \<Longrightarrow> j < 2147483647" "length ys = length js"
  shows "\<exists>f. polyfun (length js) f \<and> map (\<lambda>j. f (of_nat j :: gfp)) js = ys"
proof -
  let ?pts = "map of_nat js :: gfp list"
  have "distinct ?pts" using assms(1,2) by (intro distinct_points)
  then have "lagrange ?pts ys (?pts ! i) = ys ! i" if "i < length js" for i
    using that by (intro lagrange_at) simp_all
  then have "map (\<lambda>j. lagrange ?pts ys (of_nat j)) js = ys" by (intro nth_equalityI) (simp_all add: assms(3))
  moreover have "polyfun (length js) (lagrange ?pts ys)" using lagrange_polyfun [of ?pts ys] by simp
  ultimately show ?thesis by blast
qed

lemma length_except: "e \<le> d + 1 \<Longrightarrow> length (filter (\<lambda>i. i \<noteq> e) [0..<d + 2]) = d + 1"
proof -
  assume e: "e \<le> d + 1"
  have "set (filter (\<lambda>i. i \<noteq> e) [0..<d + 2]) = {..<d + 2} - {e}" unfolding set_filter set_upt by auto
  then have "card (set (filter (\<lambda>i. i \<noteq> e) [0..<d + 2])) = d + 1" using e by (simp add: card_Diff_singleton)
  then show ?thesis by (metis distinct_card distinct_filter distinct_upt)
qed

lemma except_split: "e \<le> k \<Longrightarrow> filter (\<lambda>i. i \<noteq> e) [0..<k + 1] = [0..<e] @ [e + 1..<k + 1]"
proof -
  assume "e \<le> k"
  then have "[0..<k + 1] = [0..<e] @ e # [e + 1..<k + 1]" 
    using upt_add_eq_append [of 0 e "k + 1 - e"] upt_conv_Cons [of e "k + 1"] by simp
  moreover have "filter (\<lambda>i. i \<noteq> e) [0..<e] = [0..<e]" "filter (\<lambda>i. i \<noteq> e) [e + 1..<k + 1] = [e + 1..<k + 1]"
    by (auto simp: filter_id_conv simp del: upt_Suc)
  ultimately show ?thesis by simp
qed

definition prg_params :: "hmmpc \<Rightarrow> bool" where
  "prg_params E \<longleftrightarrow> params_ok E \<and> n_players E = 2 * threshold E + 1 \<and> n_players E < 2147483644"

lemma prg_polynomial:
  assumes "e \<le> d + 1" "0 < e" "d < 2147483644" "length prng = d"
  shows "\<exists>f. polyfun (Suc d) f \<and> f 0 = secret \<and> (\<forall>i<e - 1. prng ! i = f (of_nat (i + 1))) \<and> (\<forall>i. e - 1 \<le> i \<longrightarrow> i < d \<longrightarrow> prng ! i = f (of_nat (i + 2)))
    \<and> (\<forall>x. dot (get_reconstruction_vector_with_secret e x d) (secret # prng) = Inr (f x))"
proof -
  let ?js = "filter (\<lambda>i. i \<noteq> e) [0..<d + 2]"
  have len: "length ?js = d + 1" by (rule length_except [OF assms(1)])
  have js: "?js = [0..<e] @ [e + 1..<d + 2]" using except_split [of e "d + 1"] assms(1) by simp
  have lt: "j < 2147483647" if "j \<in> set ?js" for j
  proof -
    have "j < d + 2" using that by (simp only: set_filter set_upt mem_Collect_eq atLeastLessThan_iff)
    then show ?thesis using assms(3) by linarith
  qed
  obtain f where f: "polyfun (length ?js) f" "map (\<lambda>j. f (of_nat j :: gfp)) ?js = secret # prng"
    using interpolating_polynomial [of ?js "secret # prng", OF distinct_filter [OF distinct_upt] lt] len assms(4)
    by (metis length_Cons Suc_eq_plus1)
  have at: "(secret # prng) ! i = f (of_nat (?js ! i))" if "i < d + 1" for i
    using that len by (subst f(2) [symmetric]) (simp only: nth_map)
  have lo: "?js ! i = i" if "i < e" for i using that assms(1) unfolding js by (simp add: nth_append)
  have hi: "?js ! i = i + 1" if "e \<le> i" "i < d + 1" for i using that unfolding js by (simp add: nth_append del: upt_Suc)
  have "f 0 = secret" using at [of 0] lo [of 0] assms(2) by simp
  moreover have "prng ! i = f (of_nat (i + 1))" if "i < e - 1" for i
    using at [of "i + 1"] lo [of "i + 1"] that assms(1) by simp
  moreover have "prng ! i = f (of_nat (i + 2))" if "e - 1 \<le> i" "i < d" for i
    using at [of "i + 1"] hi [of "i + 1"] that by simp
  moreover have "dot (get_reconstruction_vector_with_secret e x d) (secret # prng) = Inr (f x)" for x
    using with_secret_correct [of d e f x] f len assms(1,3) by simp
  ultimately show ?thesis using f(1) len by auto
qed

lemma input_2t_PRG_correct:
  assumes E: "prg_params E" and p: "p < n_players E" and len: "length prng = 2 * threshold E"
  shows "\<exists>xs. input_2t_PRG E p secret prng = Inr xs \<and> is_sharing (n_players E) (2 * threshold E) xs secret"
proof -
  have n: "n_players E = 2 * threshold E + 1" "n_players E < 2147483644" "params_ok E" using E by (simp_all add: prg_params_def)
  have "p + 1 \<le> 2 * threshold E + 1" "2 * threshold E < 2147483644" using p n by linarith+
  then obtain f where f: "polyfun (Suc (2 * threshold E)) f" "f 0 = secret" "\<And>i. i < p \<Longrightarrow> prng ! i = f (of_nat (i + 1))"
    "\<And>i. p \<le> i \<Longrightarrow> i < 2 * threshold E \<Longrightarrow> prng ! i = f (of_nat (i + 2))"
    "\<And>x. dot (get_reconstruction_vector_with_secret (p + 1) x (2 * threshold E)) (secret # prng) = Inr (f x)"
    using prg_polynomial [of "p + 1" "2 * threshold E" prng secret] len by auto
  have sc: "scalar (p + 1) = of_nat (p + 1)" using p n(2) by (intro scalar_of_nat) linarith
  have row: "vget (reconstruction_with_secret_2t E) p = Inr (get_reconstruction_vector_with_secret (p + 1) (scalar (p + 1)) (2 * threshold E))"
    using p by (simp add: reconstruction_with_secret_2t_def)
  have "input_2t_PRG E p secret prng = Inr (map (\<lambda>j. f (of_nat (j + 1))) [0..<n_players E])"
    unfolding input_2t_PRG_def
  proof (rule mapE_Inr)
    fix j
    assume "j \<in> set [0..<n_players E]"
    then have j: "j < n_players E" by simp
    consider "j = p" | "j < p" | "p < j" by linarith
    then show "(if j = p then distribute_2t_sharing_PRG E j secret prng else get_2t_sharing_PRG E j p prng) = Inr (f (of_nat (j + 1)))"
    proof cases
      case 1
      show ?thesis unfolding 1 if_P [OF refl] distribute_2t_sharing_PRG_def row bindE_simps f(5) sc ..
    next
      case 2
      then show ?thesis using f(3) [of j] p n(1) len by (simp add: get_2t_sharing_PRG_def)
    next
      case 3
      then have "j - 1 + 2 = j + 1" "p \<le> j - 1" "j - 1 < 2 * threshold E" using j n(1) by linarith+
      with f(4) [of "j - 1"] have "prng ! (j - 1) = f (of_nat (j + 1))" by (simp only:)
      then show ?thesis using 3 j n(1) len by (simp add: get_2t_sharing_PRG_def)
    qed
  qed
  moreover have "is_sharing (n_players E) (2 * threshold E) (map (\<lambda>j. f (of_nat (j + 1))) [0..<n_players E]) secret"
    unfolding is_sharing_def using f(1,2) by (intro conjI exI [of _ f]) simp_all
  ultimately show ?thesis by blast
qed

lemma input_t_PRG_correct:
  assumes E: "prg_params E" and p: "p < n_players E" and len: "length prng = threshold E"
  shows "\<exists>xs. input_t_PRG E p secret prng = Inr xs \<and> is_sharing (n_players E) (threshold E) xs secret"
proof -
  let ?t = "threshold E"
  have n: "n_players E = 2 * ?t + 1" "n_players E < 2147483644" "params_ok E" using E by (simp_all add: prg_params_def)
  have t: "?t < 2147483644" using n by linarith
  obtain f where f: "polyfun (Suc ?t) f" "f 0 = secret" "\<And>i. i < ?t \<Longrightarrow> prng ! i = f (of_nat (i + 2))"
    "\<And>x. dot (get_reconstruction_vector_with_secret 1 x ?t) (secret # prng) = Inr (f x)"
    using prg_polynomial [of 1 ?t prng secret] len t by auto
  let ?sh = "map (\<lambda>i. f (of_nat (?t + 2 + i))) [0..<?t] @ [f 1]"
  have sc: "scalar j = of_nat j" if "j \<le> n_players E + 1" for j using that n(2) by (intro scalar_of_nat) linarith
  have rows: "reconstruction_with_secret_t E = map (\<lambda>i. get_reconstruction_vector_with_secret 1 (of_nat (?t + 2 + i)) ?t) [0..<?t]
      @ [get_reconstruction_vector_with_secret 1 (of_nat 1) ?t]"
    unfolding reconstruction_with_secret_t_def using sc n(1) by (auto simp del: of_nat_add)
  have sh: "t_sharing_PRG E secret prng = Inr ?sh"
  proof -
    have "mat_vec (reconstruction_with_secret_t E) (secret # prng)
        = Inr (map (\<lambda>x. f x) (map (\<lambda>i. of_nat (?t + 2 + i)) [0..<?t] @ [of_nat 1]))"
      unfolding mat_vec_def rows using mapE_Inr [of "map (\<lambda>i. of_nat (?t + 2 + i)) [0..<?t] @ [of_nat 1]"
          "\<lambda>x. dot (get_reconstruction_vector_with_secret 1 x ?t) (secret # prng)" f] f(4)
      unfolding mapE_of_map [symmetric, of "\<lambda>row. dot row (secret # prng)" "\<lambda>x. get_reconstruction_vector_with_secret 1 x ?t"]
      by (simp only: map_append list.map map_map comp_def)
    moreover have "length (reconstruction_with_secret_t E) = ?t + 1" by (simp add: rows)
    ultimately show ?thesis by (simp add: t_sharing_PRG_def comp_def)
  qed
  have at: "?sh ! (j - ?t - 1) = f (of_nat (j + 1))" if "?t < j" "j < n_players E" for j
  proof -
    have "j - ?t - 1 < ?t" "?t + 2 + (j - ?t - 1) = j + 1" using that n(1) by linarith+
    then show ?thesis by (simp only: nth_append length_map length_upt minus_nat.diff_0 if_True nth_map nth_upt add_0)
  qed
  have "input_t_PRG E p secret prng = Inr (map (\<lambda>j. f (of_nat (j + 1))) [0..<n_players E])"
    unfolding input_t_PRG_def sh bindE_simps
  proof (rule mapE_Inr)
    fix j
    assume "j \<in> set [0..<n_players E]"
    then have j: "j < n_players E" by simp
    consider "1 \<le> j" "j \<le> ?t" | "j = 0" | "?t < j" by linarith
    then show "(if j = p then distribute_t_sharing_PRG E j secret prng else get_t_sharing_PRG E j prng ?sh) = Inr (f (of_nat (j + 1)))"
    proof cases
      case 1
      then have "j - 1 + 2 = j + 1" "j - 1 < ?t" by linarith+
      with f(3) [of "j - 1"] have "prng ! (j - 1) = f (of_nat (j + 1))" by (simp only:)
      with 1 have "vget prng (j - 1) = Inr (f (of_nat (j + 1)))" using len by simp
      with 1 show ?thesis unfolding distribute_t_sharing_PRG_def get_t_sharing_PRG_def sh by (cases "j = p") simp_all
    next
      case 2
      have "(n_players E - (?t + 1)) mod n_players E = ?t" using n(1) by simp
      then show ?thesis using 2 by (simp add: distribute_t_sharing_PRG_def get_t_sharing_PRG_def sh nth_append)
    next
      case 3
      have "j + n_players E - (?t + 1) = (j - ?t - 1) + n_players E" "j - ?t - 1 < n_players E" using 3 j by linarith+
      then have "(j + n_players E - (?t + 1)) mod n_players E = j - ?t - 1" by (simp only: mod_add_self2 mod_less)
      moreover have "vget ?sh (j - ?t - 1) = Inr (f (of_nat (j + 1)))"
        using vget_Inr [of "j - ?t - 1" ?sh] at [OF 3 j] 3 j n(1) by (simp only: length_append length_map length_upt list.size)
      ultimately show ?thesis using 3 by (cases "j = p") (simp_all add: distribute_t_sharing_PRG_def get_t_sharing_PRG_def sh)
    qed
  qed
  moreover have "is_sharing (n_players E) ?t (map (\<lambda>j. f (of_nat (j + 1))) [0..<n_players E]) secret"
    unfolding is_sharing_def using f(1,2) by (intro conjI exI [of _ f]) simp_all
  ultimately show ?thesis by blast
qed

section \<open>Properties\<close>

text \<open>
  C37: with party 0 as \<open>Pking\<close> and more than \<open>2t\<close> parties, a secret that any party deals with degree \<open>t\<close> or \<open>2t\<close>,
  whatever the random coefficients, is what \<open>reveal_to_party\<close> reconstructs at any party and what \<open>reveal\<close> returns;
  adding two such sharings share by share reveals the sum.
\<close>

theorem share_roundtrip:
  assumes "params_ok E" "d = threshold E \<or> d = 2 * threshold E" "length cs = d" "length cs' = d" "p < n_players E"
  shows "\<exists>xs ys. calculate_sharing E x d cs = Inr xs \<and> calculate_sharing E y d cs' = Inr ys
    \<and> reveal_to_party E p d xs = Inr x \<and> reveal E d xs = Inr x \<and> reveal E d (map2 (+) xs ys) = Inr (x + y)"
proof -
  note n = params_okD(5) [OF assms(1)]
  obtain xs where xs: "calculate_sharing E x d cs = Inr xs" "is_sharing (n_players E) d xs x"
    using calculate_sharing_correct [OF n assms(3,2)] by blast
  obtain ys where ys: "calculate_sharing E y d cs' = Inr ys" "is_sharing (n_players E) d ys y"
    using calculate_sharing_correct [OF n assms(4,2)] by blast
  show ?thesis
    using xs ys reveal_correct [OF assms(1,5,2) xs(2)] reveal_Pking [OF assms(1,2) xs(2)]
      reveal_Pking [OF assms(1,2) is_sharing_add [OF xs(2) ys(2)]] by blast
qed

text \<open>Three parties and threshold one, for the witnesses.\<close>

definition three_parties :: "nat \<Rightarrow> hmmpc" where
  "three_parties k = \<lparr>n_players = 3, threshold = 1, Pking = k, positive_modulo = (\<lambda>a n. a mod n),
     get_relative = (\<lambda>me k. (me + 3 - k) mod 3)\<rparr>"

lemma three_parties_simps: "n_players (three_parties k) = 3" "threshold (three_parties k) = 1" "Pking (three_parties k) = k"
  by (simp_all add: three_parties_def)

lemma three_parties_ok: "prg_params (three_parties 0)" "params_ok (three_parties 0)" "player_ok (three_parties 1)"
  by (simp_all add: prg_params_def params_ok_def player_ok_def three_parties_def)

theorem share_roundtrip_witness:
  "\<exists>xs. calculate_sharing (three_parties 0) 7 1 [5] = Inr xs \<and> reveal_to_party (three_parties 0) 2 1 xs = Inr 7"
  using share_roundtrip [of "three_parties 0" 1 "[5]" "[0]" 2 7 0] three_parties_ok(2) by (auto simp: three_parties_simps)

text \<open>
  C36: the multiplication of the template, with \<open>2t + 1\<close> parties and the common generator: two secrets dealt with
  degree \<open>t\<close>, multiplied share by share and reduced with a double sharing that a party deals, give shares of
  degree \<open>t\<close> that reveal the product; no party lacks a share, whatever the parties that deal and the values drawn.
\<close>

theorem share_multiplication:
  assumes "prg_params E" "p < n_players E" "q < n_players E" "k < n_players E"
    and "length cx = threshold E" "length cy = threshold E" "length cr = threshold E" "length ca = 2 * threshold E"
  shows "\<exists>xs ys r aux zs. input_t_PRG E p x cx = Inr xs \<and> input_t_PRG E q y cy = Inr ys
    \<and> input_t_PRG E k u cr = Inr r \<and> input_2t_PRG E k u ca = Inr aux
    \<and> reduce_degree E (map2 (*) xs ys) r aux = Inr zs \<and> length zs = n_players E \<and> reveal E (threshold E) zs = Inr (x * y)"
proof -
  have E: "params_ok E" using assms(1) by (simp add: prg_params_def)
  obtain xs where xs: "input_t_PRG E p x cx = Inr xs" "is_sharing (n_players E) (threshold E) xs x"
    using input_t_PRG_correct [OF assms(1,2,5)] by blast
  obtain ys where ys: "input_t_PRG E q y cy = Inr ys" "is_sharing (n_players E) (threshold E) ys y"
    using input_t_PRG_correct [OF assms(1,3,6)] by blast
  obtain r where r: "input_t_PRG E k u cr = Inr r" "is_sharing (n_players E) (threshold E) r u"
    using input_t_PRG_correct [OF assms(1,4,7)] by blast
  obtain aux where aux: "input_2t_PRG E k u ca = Inr aux" "is_sharing (n_players E) (2 * threshold E) aux u"
    using input_2t_PRG_correct [OF assms(1,4,8)] by blast
  have "is_sharing (n_players E) (2 * threshold E) (map2 (*) xs ys) (x * y)"
    using is_sharing_mult [OF xs(2) ys(2)] by (simp add: mult_2)
  then obtain zs where zs: "reduce_degree E (map2 (*) xs ys) r aux = Inr zs" "is_sharing (n_players E) (threshold E) zs (x * y)"
    using reduce_degree_correct [OF E _ r(2) aux(2)] by blast
  have "reveal E (threshold E) zs = Inr (x * y)" by (rule reveal_Pking [OF E _ zs(2)]) simp
  then show ?thesis using xs(1) ys(1) r(1) aux(1) zs(1) is_sharing_length [OF zs(2)] by blast
qed

theorem share_multiplication_witness:
  "\<exists>xs ys r aux zs. input_t_PRG (three_parties 0) 2 6 [1] = Inr xs \<and> input_t_PRG (three_parties 0) 0 7 [2] = Inr ys
    \<and> input_t_PRG (three_parties 0) 1 8 [3] = Inr r \<and> input_2t_PRG (three_parties 0) 1 8 [4, 5] = Inr aux
    \<and> reduce_degree (three_parties 0) (map2 (*) xs ys) r aux = Inr zs \<and> length zs = 3 \<and> reveal (three_parties 0) 1 zs = Inr (6 * 7)"
  using share_multiplication [of "three_parties 0" 2 0 1 "[1]" "[2]" "[3]" "[4, 5]" 6 7 8] three_parties_ok(1)
  unfolding three_parties_simps by simp



end
