(* ===== verification/Spec2Isabelle.thy ===== *)
theory Spec2Isabelle
  imports DN07 Synthetic PSSMain Welch Mersenne127 Ring2k HShare
begin

text \<open>
  The secure computation code of this repository: Turbopack (\<open>src/turbopack\<close>), a multiparty protocol
  that evaluates arithmetic circuits on packed secret shares, the Secure Computation Library it is
  built on (\<open>src/turbopack/secure-computation-library\<close>, SCL below), the packed secret sharing by
  fast transforms of \<open>src/packed-ss-template/PackedSS.hpp\<close>, and the Shamir sharings of
  \<open>src/Shamir-secret-sharing-template\<close>. Everything is a shallow embedding: C++
  functions are HOL functions, one by one, with the source's names.

  Conventions (theory \<open>Prelude\<close>). A function that may throw returns \<open>'a res\<close>, \<open>Inl\<close> an exception
  or \<open>Inr\<close> a value, sequenced by \<open>bindE\<close>; \<open>Undefined\<close> is behaviour that C++ leaves undefined (an index
  outside of a vector, a null pointer), so a theorem that concludes \<open>Inr\<close> excludes it. A function
  that may not return has type \<open>'a res option\<close>, \<open>None\<close> standing for not returning (\<open>bindP\<close>). Machine
  words are words of the library; the sizes of vectors and circuits are \<open>nat\<close>, with the conversions
  to \<open>int\<close> and to field elements written out (\<open>to_int32\<close>, \<open>from_size\<close>, \<open>size_sub\<close>). Pseudorandom
  generators are a state \<open>'g\<close> with a parameter \<open>rnd\<close>, one draw of a field element.

  Fields.
  \<^item> \<open>PrimeCert\<close>, \<open>MersennePrimes\<close>: a certificate of primality; \<open>2^61 - 1\<close> is prime.
  \<^item> \<open>FieldDetails\<close>, \<open>Mersenne61\<close>, \<open>FF61\<close>: \<open>scl/math/fields/details.h\<close>, \<open>mersenne61.cc\<close>, \<open>ff.h\<close> on 64-bit
    words. The raw operations compute modulo \<open>2^61 - 1\<close> and stay canonical, the extended Euclid loop
    terminates without overflow, and \<open>FF<61>\<close> refines a field: the type \<open>ff61\<close> instantiates
    \<open>field\<close>, so every generic theorem below holds for it.
  \<^item> \<open>Mersenne127\<close>: \<open>mersenne127.cc\<close>, the field of \<open>FF<127>\<close> with its 256-bit product; \<open>2^127 - 1\<close> is prime.
  \<^item> \<open>NumStrings\<close>, \<open>Ring2k\<close>: \<open>math/str.h\<close> and \<open>math/z2k.h\<close>: strings as numbers in four bases, and the integers
    modulo \<open>2^K\<close> with their inversion by Newton's iteration.
  \<^item> \<open>ZZP\<close>: the field \<open>zzp\<close> of the prime that \<open>OptimizedPSS\<close> is hardcoded for, with its generator.

  Vectors, polynomials, secret sharing (SCL \<open>math/vec.h\<close>, \<open>ss/\<close>).
  \<^item> \<open>VecOps\<close>: \<open>Vec<T>\<close>: entry-wise operations and their size checks, serialisation.
  \<^item> \<open>Poly\<close>, \<open>Interp\<close>: \<open>Polynomial\<close> with long division; Lagrange interpolation as a mathematical function.
  \<^item> \<open>Packed\<close>, \<open>PackedFun\<close>: \<open>EvPolynomial\<close> and \<open>packed.h\<close>: sharing, reconstruction, products of sharings.
  \<^item> \<open>Shamir\<close>: \<open>shamir.h\<close> and \<open>additive.h\<close>: reconstruction, detection of altered shares, perfect privacy.
  \<^item> \<open>MatOps\<close>, \<open>LinAlg\<close>, \<open>Solve\<close>: \<open>math/mat.h\<close> and \<open>math/la.h\<close>. \<open>rep A n m M\<close> says that the row-major vector of \<open>A\<close>
    holds the function \<open>M\<close> of row and column. \<open>echelon\<close> is the invariant of the row reduction, which keeps
    the set \<open>sols\<close> of solutions; a square system is solved exactly when its solution is unique.
  \<^item> \<open>Robust\<close>, \<open>Welch\<close>: \<open>ReconstructShamirRobust\<close> of \<open>shamir.h\<close>, the decoder of Berlekamp and Welch:
    the linear systems of its rounds, the first that has a unique solution, and the division.

  Network (SCL \<open>net/\<close>).
  \<^item> \<open>Network\<close>: \<open>SharedDeque\<close>, \<open>InMemoryChannel\<close>, the typed messages of \<open>Channel\<close>, \<open>CreateFullInMemory\<close>.
  \<^item> \<open>Process\<close>: the code of one party as a value of type \<open>proc\<close>; a network step lets any party that is
    not waiting take one step. \<open>always_computes\<close> says that under every interleaving all parties
    return, without deadlock and with given results. A \<open>phase\<close> gives the messages a program
    consumes and produces, and the locale \<open>protocol_network\<close> composes phases; it is interpreted on the
    in-memory network with the byte-wise messages of \<open>FF<61>\<close>.

  Turbopack (\<open>src/tp\<close>).
  \<^item> \<open>Gates\<close>: the heap of gates and the five memoising getters; the locale \<open>memo_getter\<close>, interpreted
    for each, shows that memoisation is transparent.
  \<^item> \<open>MultBatch\<close>, \<open>IOBatch\<close>, \<open>Layers\<close>: batches and layers of multiplication, input and output gates,
    with the four phases of the multiplication protocol.
  \<^item> \<open>Correlator\<close>, \<open>FIPrep\<close>: the function-independent preprocessing.
  \<^item> \<open>Circuit\<close>, \<open>CircuitRun\<close>: building, evaluation in the clear, preprocessing and online protocol.
  \<^item> \<open>DN07\<close>: the baseline protocol on Shamir shares.
  \<^item> \<open>LayerFill\<close>, \<open>Building\<close>, \<open>Built\<close>, \<open>BuildSteps\<close>, \<open>BuildMain\<close>, \<open>Synthetic\<close>: what the building interface makes. The
    locale \<open>batch_class\<close> is the contract of the three kinds of batch; \<open>circuit_inv\<close> is the invariant of a
    circuit under construction, kept by every operation; \<open>built\<close> is the set of reachable circuits.
    Finished ones are closed, and \<open>FromConfig\<close> makes one for every valid configuration.
  \<^item> \<open>Closed\<close>, \<open>Prepared\<close>, \<open>DummyPrep\<close>, \<open>DummyRun\<close>, \<open>Ready\<close>, \<open>Online\<close>, \<open>OnlineRun\<close>, \<open>Correct\<close>: the
    correctness of the protocol. \<open>closed_circuit\<close> describes a finished circuit; \<open>Ready\<close> and \<open>Prepared\<close> show
    what the preprocessing with known masks and \<open>SetInputs\<close> establish for each party, \<open>Online\<close> and
    \<open>OnlineRun\<close> run the phases of the online protocol, and \<open>Correct\<close> composes them with the evaluation
    in the clear, which is the specification.

  Packed sharing by transforms (\<open>packed-ss-template/PackedSS.hpp\<close>, class \<open>OptimizedPSS\<close>).
  \<^item> \<open>DFT\<close>, \<open>PSSPoly\<close>: the in-place transforms are evaluation at the powers of the generator, in natural
    order, and are inverted by \<open>InvDFT\<close>.
  \<^item> \<open>PSSInterp\<close>: \<open>polyMult\<close>, \<open>multPolyList\<close>, the derivative and quotient: fast interpolation.
  \<^item> \<open>OptPSS\<close>, \<open>PSSShare\<close>, \<open>PSSNew\<close>, \<open>PSSMain\<close>: the class, the invariant \<open>pss_inv\<close> that its constructor
    establishes, sharing and recovering, privacy and detection of altered shares.

  Shamir template (\<open>Shamir-secret-sharing-template\<close>).
  \<^item> \<open>Gfp31\<close>: \<open>Math/gfpScalar.h\<close> on 32-bit words, in the \<open>PR_31\<close> configuration the header selects: the field
    of \<open>2^31 - 1\<close> with inversion by the extended Euclidean algorithm, powers, square roots and the signed readings.
    The type \<open>gfp\<close> of the canonical words has the code's operations and instantiates \<open>field\<close>.
  \<^item> \<open>GfpMat\<close>: \<open>Math/gfpMatrix.h\<close> and \<open>Math/constMatrix.h\<close>: bytes of rows, bits of a scalar, batch inversion, and
    the tables that interpolate OR, AND and XOR.
  \<^item> \<open>HShare\<close>: \<open>Protocols/Share.cpp\<close>: dealing and revealing, dealing with the common generator, degree reduction.
    \<open>is_sharing\<close> is the contract of a sharing, which the local operations keep; an operation of all parties is
    a function on the list of their shares. The class \<open>ThreadPlayer\<close> is a parameter, with \<open>player_ok\<close> for what
    is documented of it.

  Bounds. Party numbers, batch sizes and point numbers stay below \<open>2^31\<close>, because the code converts
  them to \<open>int\<close>; the theorems state this. No fuel is used: loops that may not end are partial functions
  whose return is proved.

  Not modelled. TCP sockets, configuration files, threads and timing (operating system); AES-NI
  intrinsics behind the PRG (hardware); printing of vectors and matrices; the drivers and tests; of
  \<open>Shamir-secret-sharing-template\<close> the network headers, which are outside of the repository, conversions of
  floating point numbers, the bundles and the offline phase; the libscapi copies. The NTL field \<open>ZZ_p\<close> is the type parameter of \<open>OptimizedPSS\<close>, instantiated by \<open>zzp\<close>.
\<close>

end
